(* ===== verification/Prelude.thy ===== *)
theory Prelude
  imports Main "HOL-Library.Word" "HOL-Library.Monad_Syntax" "HOL-Library.Multiset"
begin

text \<open>
  Shared ground of the development: the machine types of the C sources (an LP64, little-endian
  target: \<open>size_t\<close> and pointers are 64 bits wide), byte buffers with checked \<open>memcpy\<close>, the view of
  a buffer as a sequence of fixed-size slots, and the word lemmas that turn the sources'
  overflow guards into facts about natural numbers.

  Undefined behaviour is a value. An operation of the model has the type \<open>'a option\<close>:
  \<open>None\<close> says that the C code would read or write outside a block, dereference a null
  pointer, or never return. A theorem that concludes \<open>f x = Some y\<close> therefore says that the
  call is free of undefined behaviour and returns.
\<close>

unbundle bit_operations_syntax

section \<open>Machine types\<close>

type_synonym byte = "8 word"
type_synonym size_t = "64 word"
type_synonym ptr = "64 word"
type_synonym u32 = "32 word"
type_synonym u64 = "64 word"

abbreviation SIZE_MAX :: size_t where
  "SIZE_MAX \<equiv> - 1"

text \<open>Layout constants of the target: \<open>alignof(max_align_t)\<close>, \<open>sizeof(void *)\<close>, \<open>alignof(void *)\<close>.\<close>

definition DV_CACHE_LINE_SIZE :: size_t where
  "DV_CACHE_LINE_SIZE = 64"

definition alignof_max_align_t :: size_t where
  "alignof_max_align_t = 16"

definition sizeof_ptr :: size_t where
  "sizeof_ptr = 8"

definition alignof_ptr :: size_t where
  "alignof_ptr = 8"

named_theorems layout_simps "the layout constants of the target, unfolded"

lemmas [layout_simps] = alignof_max_align_t_def sizeof_ptr_def alignof_ptr_def

section \<open>Words as numbers\<close>

lemma unat_SIZE_MAX [simp]: "unat SIZE_MAX = 2 ^ 64 - 1"
  by (simp add: unsigned_minus_1_eq_mask mask_eq_exp_minus_1)

lemma unat_lt_64: "unat (x :: size_t) < 2 ^ 64"
  using unsigned_less [of x, where ?'a = nat] by simp

lemma unat_le_SIZE_MAX: "unat (x :: size_t) \<le> 2 ^ 64 - 1"
  using unat_lt_64 [of x] by simp

lemma word_div_guard:
  fixes m n :: size_t
  assumes "m \<noteq> 0"
  shows "(SIZE_MAX div m < n) = (2 ^ 64 \<le> unat m * unat n)"
proof -
  have m: "0 < unat m" using assms by (simp add: unat_gt_0)
  have "(SIZE_MAX div m < n) = ((2 ^ 64 - 1) div unat m < unat n)"
    by (simp only: word_less_nat_alt unat_div unat_SIZE_MAX)
  also have "\<dots> = (2 ^ 64 - 1 < unat n * unat m)"
    using m by (rule div_less_iff_less_mult)
  also have "\<dots> = (2 ^ 64 \<le> unat m * unat n)"
    by (auto simp: mult.commute)
  finally show ?thesis .
qed

lemma unat_mult_no_ovf: "unat (m :: size_t) * unat n < 2 ^ 64 \<Longrightarrow> unat (m * n) = unat m * unat n"
  by (simp add: unat_word_ariths)

lemma unat_add_no_ovf: "unat (m :: size_t) + unat n < 2 ^ 64 \<Longrightarrow> unat (m + n) = unat m + unat n"
  by (simp add: unat_word_ariths)

lemma unat_Suc_no_ovf: "(m :: size_t) < n \<Longrightarrow> unat (m + 1) = Suc (unat m)"
  using unat_lt_64 [of n] by (simp add: unat_word_ariths word_less_nat_alt)

lemma unat_pred: "0 < (m :: size_t) \<Longrightarrow> unat (m - 1) = unat m - 1"
  by (simp add: unat_minus_one word_gt_0)


subsection \<open>Powers of two and alignment\<close>

lemma unat_parent: "0 < (m :: size_t) \<Longrightarrow> unat ((m - 1) div 2) = (unat m - 1) div 2"
  by (simp add: unat_div unat_pred)

lemma word_parent_less: "0 < (m :: size_t) \<Longrightarrow> unat ((m - 1) div 2) < unat m"
  using unat_gt_0 [of m] by (simp add: unat_parent word_gt_0)

lemma pow2_nat_iff: "0 < (n::nat) \<Longrightarrow> (n AND (n - 1) = 0) = (\<exists>k. n = 2 ^ k)"
proof (induction n rule: less_induct)
  case (less n)
  show ?case
  proof (cases "even n")
    case True
    then obtain m where m: "n = 2 * m" by blast
    with less.prems have m0: "0 < m" "m < n" by simp_all
    have "n - 1 = 2 * (m - 1) + 1" using m m0 by simp
    then have "n AND (n - 1) = 2 * (m AND (m - 1))"
      using m by (simp add: and_nat_rec [of "2 * m"])
    then have "(n AND (n - 1) = 0) = (\<exists>k. m = 2 ^ k)"
      using less.IH [OF m0(2) m0(1)] by simp
    moreover have "(\<exists>k. n = 2 ^ k) = (\<exists>k. m = 2 ^ k)"
    proof
      assume "\<exists>k. n = 2 ^ k"
      then obtain k where k: "n = 2 ^ k" by blast
      with True have "k \<noteq> 0" by (cases k) auto
      with k m have "m = 2 ^ (k - 1)" by (cases k) auto
      then show "\<exists>k. m = 2 ^ k" by blast
    next
      assume "\<exists>k. m = 2 ^ k"
      then show "\<exists>k. n = 2 ^ k" using m by (metis power_Suc)
    qed
    ultimately show ?thesis by simp
  next
    case False
    then obtain m where m: "n = 2 * m + 1" by (blast elim: oddE)
    then have and0: "n AND (n - 1) = 2 * m"
      by (simp add: and_nat_rec [of "Suc (2 * m)"])
    have "(\<exists>k. n = 2 ^ k) = (m = 0)"
    proof
      assume "\<exists>k. n = 2 ^ k"
      then obtain k where "n = 2 ^ k" by blast
      with False have "k = 0" by (cases k) auto
      with \<open>n = 2 ^ k\<close> m show "m = 0" by simp
    next
      assume "m = 0"
      with m have "n = 2 ^ 0" by simp
      then show "\<exists>k. n = 2 ^ k" by blast
    qed
    with and0 show ?thesis by simp
  qed
qed

lemma unat_and: "unat (a AND b) = unat (a :: 'a::len word) AND unat b"
  by (rule bit_eqI) (auto simp: bit_simps)

lemma pow2_word_iff:
  fixes x :: size_t
  shows "(x \<noteq> 0 \<and> x AND (x - 1) = 0) = (\<exists>k<64. unat x = 2 ^ k)"
proof (cases "x = 0")
  case True
  then show ?thesis by simp
next
  case False
  then have pos: "0 < unat x" by (simp add: unat_gt_0)
  have "(x AND (x - 1) = 0) = (unat (x AND (x - 1)) = 0)"
    by (simp only: unat_eq_0)
  also have "\<dots> = (unat x AND (unat x - 1) = 0)"
    using False by (simp add: unat_and unat_minus_one)
  also have "\<dots> = (\<exists>k. unat x = 2 ^ k)"
    by (rule pow2_nat_iff [OF pos])
  also have "\<dots> = (\<exists>k<64. unat x = 2 ^ k)"
    using unat_lt_64 [of x] by (metis power_less_imp_less_exp one_less_numeral_iff semiring_norm(76))
  finally show ?thesis using False by simp
qed

lemma pow2_word_mask:
  assumes "unat (x :: size_t) = 2 ^ k"
  shows "x - 1 = mask k"
proof -
  have "x = of_nat (unat x)" by simp
  then have "x = 2 ^ k" using assms by simp
  then show ?thesis by (simp add: mask_eq_decr_exp)
qed

lemma pow2_and_pred_dvd:
  fixes x a :: size_t
  assumes "unat a = 2 ^ k"
  shows "(x AND (a - 1) = 0) = (unat a dvd unat x)"
  using assms by (simp add: pow2_word_mask and_mask_dvd_nat)

lemma and_not_mask_unat:
  "unat ((x :: size_t) AND NOT (mask k)) = unat x - unat x mod 2 ^ k"
proof -
  have disj: "(x AND NOT (mask k)) AND (x AND mask k) = 0"
    by (rule bit_eqI) (auto simp: bit_simps)
  have "x = (x AND NOT (mask k)) OR (x AND mask k)"
    by (rule bit_eqI) (auto simp: bit_simps)
  then have "unat x = unat ((x AND NOT (mask k)) OR (x AND mask k))" by simp
  also have "\<dots> = unat (x AND NOT (mask k)) OR unat (x AND mask k)"
    by (rule bit_eqI) (auto simp: bit_simps)
  also have "\<dots> = unat (x AND NOT (mask k)) + unat (x AND mask k)"
    by (rule disjunctive_add_eq_or [symmetric]) (simp add: unat_and [symmetric] disj)
  also have "unat (x AND mask k) = unat x mod 2 ^ k"
    by (simp only: take_bit_eq_mask [symmetric] unsigned_take_bit_eq) (simp add: take_bit_eq_mod)
  finally show ?thesis by simp
qed


lemma align_up_unat:
  fixes size a :: size_t
  assumes a: "unat a = 2 ^ k" "k < 64" and fit: "size \<le> SIZE_MAX - (a - 1)"
  defines "r \<equiv> (size + a - 1) AND NOT (a - 1)"
  shows "unat a dvd unat r" "unat size \<le> unat r" "unat r < unat size + unat a"
proof -
  have a1: "1 \<le> unat a" using a by simp
  then have pred: "unat (a - 1) = unat a - 1"
    by (simp add: unat_minus_one unat_gt_0 [symmetric] Suc_le_eq)
  have le: "a - 1 \<le> SIZE_MAX"
    using unat_le_SIZE_MAX [of "a - 1"] by (simp only: word_le_nat_alt unat_SIZE_MAX)
  have "unat size \<le> 2 ^ 64 - 1 - (unat a - 1)"
    using fit le by (simp only: word_le_nat_alt unat_sub unat_SIZE_MAX pred)
  then have sum: "unat size + (unat a - 1) < 2 ^ 64"
    using unat_lt_64 [of a] a1 by linarith
  have "unat (size + a - 1) = unat (size + (a - 1))" by (simp add: algebra_simps)
  also have "\<dots> = unat size + (unat a - 1)"
    using sum unat_add_no_ovf [of size "a - 1"] by (simp only: pred)
  finally have s: "unat (size + a - 1) = unat size + (unat a - 1)" .
  have r: "unat r = unat (size + a - 1) - unat (size + a - 1) mod 2 ^ k"
    unfolding r_def pow2_word_mask [OF a(1)] by (rule and_not_mask_unat)
  show "unat a dvd unat r"
    unfolding r a(1) by (rule dvd_minus_mod)
  have m: "unat (size + a - 1) mod 2 ^ k < 2 ^ k" by simp
  have "unat r + unat (size + a - 1) mod unat a = unat size + (unat a - 1)"
    unfolding r a(1) [symmetric] s [symmetric] by simp
  moreover have "unat (size + a - 1) mod unat a < unat a" using a1 by simp
  ultimately show "unat size \<le> unat r" "unat r < unat size + unat a" using a1 by linarith+
qed

section \<open>Byte buffers\<close>

text \<open>
  A block owned by a data structure: the address it was handed out at and its bytes.
  \<open>mem_read\<close> and \<open>mem_write\<close> are the two sides of \<open>memcpy\<close> at a byte offset; outside the
  block they are undefined behaviour.
\<close>

record block =
  blk_addr :: nat
  blk_data :: "byte list"

definition mem_read :: "byte list \<Rightarrow> nat \<Rightarrow> nat \<Rightarrow> byte list option" where
  "mem_read b off n = (if off + n \<le> length b then Some (take n (drop off b)) else None)"

definition mem_write :: "byte list \<Rightarrow> nat \<Rightarrow> byte list \<Rightarrow> byte list option" where
  "mem_write b off bs =
     (if off + length bs \<le> length b then Some (take off b @ bs @ drop (off + length bs) b) else None)"

lemma length_mem_write: "mem_write b off bs = Some b' \<Longrightarrow> length b' = length b"
  by (auto simp: mem_write_def split: if_splits)

lemma length_mem_read: "mem_read b off n = Some bs \<Longrightarrow> length bs = n"
  by (auto simp: mem_read_def split: if_splits)

subsection \<open>Fixed-size slots\<close>

definition chunk :: "nat \<Rightarrow> byte list \<Rightarrow> nat \<Rightarrow> byte list" where
  "chunk es b i = take es (drop (i * es) b)"

definition chunks :: "nat \<Rightarrow> byte list \<Rightarrow> nat \<Rightarrow> byte list list" where
  "chunks es b n = map (chunk es b) [0..<n]"

lemma length_chunks [simp]: "length (chunks es b n) = n"
  by (simp add: chunks_def)

lemma nth_chunks [simp]: "i < n \<Longrightarrow> chunks es b n ! i = chunk es b i"
  by (simp add: chunks_def)

lemma chunks_0 [simp]: "chunks es b 0 = []"
  by (simp add: chunks_def)

lemma chunks_Suc: "chunks es b (Suc n) = chunks es b n @ [chunk es b n]"
  by (simp add: chunks_def)

lemma take_chunks: "m \<le> n \<Longrightarrow> take m (chunks es b n) = chunks es b m"
  by (rule nth_equalityI) auto

lemma slot_fits: "i < n \<Longrightarrow> n * es \<le> len \<Longrightarrow> i * es + es \<le> (len::nat)"
  by (metis Suc_leI add.commute le_trans mult_Suc mult_le_mono1)

lemma length_chunk: "i * es + es \<le> length b \<Longrightarrow> length (chunk es b i) = es"
  by (simp add: chunk_def)

lemma mem_read_slot: "i * es + es \<le> length b \<Longrightarrow> mem_read b (i * es) es = Some (chunk es b i)"
  by (simp add: mem_read_def chunk_def)

lemma chunk_append_left: "i * es + es \<le> length b \<Longrightarrow> chunk es (b @ c) i = chunk es b i"
  by (simp add: chunk_def)

lemma chunk_take: "i * es + es \<le> m \<Longrightarrow> chunk es (take m b) i = chunk es b i"
  by (simp add: chunk_def drop_take min_absorb1)

lemma concat_chunks: "concat (chunks es b n) = take (n * es) b"
  by (induction n) (simp_all add: chunks_Suc chunk_def take_add [symmetric] add.commute)

lemma chunks_cong_take:
  assumes "take (n * es) b = take (n * es) b'"
  shows "chunks es b n = chunks es b' n"
proof (rule nth_equalityI)
  fix i assume "i < length (chunks es b n)"
  then have i: "i < n" by simp
  have "chunk es b i = chunk es (take (n * es) b) i"
    by (rule chunk_take [symmetric]) (rule slot_fits [OF i order_refl])
  also have "\<dots> = chunk es b' i"
    unfolding assms by (rule chunk_take) (rule slot_fits [OF i order_refl])
  finally show "chunks es b n ! i = chunks es b' n ! i" using i by simp
qed simp

definition put_slot :: "nat \<Rightarrow> byte list \<Rightarrow> nat \<Rightarrow> byte list \<Rightarrow> byte list" where
  "put_slot es b i v = take (i * es) b @ v @ drop (i * es + length v) b"

lemma mem_write_slot:
  "length v = es \<Longrightarrow> i * es + es \<le> length b \<Longrightarrow> mem_write b (i * es) v = Some (put_slot es b i v)"
  by (simp add: mem_write_def put_slot_def)

lemma length_put_slot: "length v = es \<Longrightarrow> i * es + es \<le> length b \<Longrightarrow> length (put_slot es b i v) = length b"
  by (simp add: put_slot_def)

lemma chunk_put_same: "length v = es \<Longrightarrow> i * es + es \<le> length b \<Longrightarrow> chunk es (put_slot es b i v) i = v"
  by (simp add: chunk_def put_slot_def)

lemma chunk_put_other:
  assumes "length v = es" "i * es + es \<le> length b" "j \<noteq> i"
  shows "chunk es (put_slot es b i v) j = chunk es b j"
proof (cases "j < i")
  case True
  then have ji: "j * es + es \<le> i * es" by (rule slot_fits) simp
  with assms have "j * es + es \<le> length (take (i * es) b)" by simp
  then show ?thesis using ji by (simp add: put_slot_def chunk_append_left chunk_take)
next
  case False
  with assms(3) have "i < j" by simp
  then have ij: "i * es + es \<le> j * es" by (rule slot_fits) simp
  then have "drop (j * es) (put_slot es b i v) = drop (j * es) b"
    using assms \<open>i < j\<close> by (simp add: put_slot_def add.commute)
  then show ?thesis by (simp add: chunk_def)
qed

lemma chunks_put:
  assumes "length v = es" "i * es + es \<le> length b"
  shows "chunks es (put_slot es b i v) n = (chunks es b n)[i := v]"
proof (rule nth_equalityI)
  fix j assume "j < length (chunks es (put_slot es b i v) n)"
  then show "chunks es (put_slot es b i v) n ! j = (chunks es b n)[i := v] ! j"
    using assms by (cases "j = i") (simp_all add: chunk_put_same chunk_put_other)
qed simp

lemma chunks_write:
  assumes bs: "length bs = m * es" and fit: "t * es + m * es \<le> length b"
  shows "chunks es (take (t * es) b @ bs @ c) (t + m) = chunks es b t @ chunks es bs m"
proof (rule nth_equalityI)
  fix i assume "i < length (chunks es (take (t * es) b @ bs @ c) (t + m))"
  then have i: "i < t + m" by simp
  have len: "length (take (t * es) b) = t * es" using fit by simp
  show "chunks es (take (t * es) b @ bs @ c) (t + m) ! i = (chunks es b t @ chunks es bs m) ! i"
  proof (cases "i < t")
    case True
    then have it: "i * es + es \<le> t * es" by (rule slot_fits) simp
    then have "chunk es (take (t * es) b @ bs @ c) i = chunk es b i"
      using len by (simp add: chunk_append_left chunk_take)
    then show ?thesis using True i by (simp add: nth_append)
  next
    case False
    then obtain j where j: "i = t + j" "j < m" using i by (metis add_diff_inverse_nat nat_add_left_cancel_less)
    have "chunk es (take (t * es) b @ bs @ c) i = chunk es (bs @ c) j"
      using len by (simp add: chunk_def j(1) add_mult_distrib)
    also have "\<dots> = chunk es bs j"
      by (rule chunk_append_left) (use slot_fits [OF j(2), of es] bs in simp)
    finally show ?thesis using j False by (simp add: nth_append)
  qed
qed simp

lemma chunks_one: "length v = es \<Longrightarrow> chunks es v 1 = [v]"
  by (simp add: chunks_def chunk_def)

subsection \<open>Out parameters\<close>

text \<open>Copying an element into an out parameter that may be null.\<close>

definition copy_out :: "byte list option \<Rightarrow> byte list \<Rightarrow> byte list option option" where
  "copy_out out bs = (case out of None \<Rightarrow> Some None | Some o' \<Rightarrow> map_option Some (mem_write o' 0 bs))"

lemma copy_out_ok:
  "length bs \<le> length o' \<Longrightarrow> copy_out (Some o') bs = Some (Some (bs @ drop (length bs) o'))"
  by (simp add: copy_out_def mem_write_def)

text \<open>The caller's out buffer, when there is one, has room for an element.\<close>

definition out_fits :: "nat \<Rightarrow> byte list option \<Rightarrow> bool" where
  "out_fits n out \<longleftrightarrow> (\<forall>b. out = Some b \<longrightarrow> n \<le> length b)"

definition written :: "byte list \<Rightarrow> byte list option \<Rightarrow> byte list option" where
  "written bs out = map_option (\<lambda>b. bs @ drop (length bs) b) out"

lemma copy_out_written:
  "out_fits (length bs) out \<Longrightarrow> copy_out out bs = Some (written bs out)"
  by (cases out) (simp_all add: copy_out_def out_fits_def written_def mem_write_def)

section \<open>Little-endian scalars\<close>

definition le_bytes :: "nat \<Rightarrow> 'a::len word \<Rightarrow> byte list" where
  "le_bytes n x = map (\<lambda>i. ucast (drop_bit (8 * i) x)) [0..<n]"

definition le_load :: "byte list \<Rightarrow> 'a::len word" where
  "le_load bs = foldr (\<lambda>b acc. ucast b OR push_bit 8 acc) bs 0"

lemma length_le_bytes [simp]: "length (le_bytes n x) = n"
  by (simp add: le_bytes_def)

lemma bit_le_load:
  "bit (le_load bs :: 'a::len word) n =
     (n < LENGTH('a) \<and> n div 8 < length bs \<and> bit (bs ! (n div 8)) (n mod 8))"
proof (induction bs arbitrary: n)
  case Nil
  then show ?case by (simp add: le_load_def)
next
  case (Cons b bs)
  have step: "(le_load (b # bs) :: 'a word) = ucast b OR push_bit 8 (le_load bs)"
    by (simp add: le_load_def)
  show ?case
  proof (cases "n < 8")
    case True
    then show ?thesis by (auto simp: step bit_simps)
  next
    case False
    then have n: "n div 8 = Suc ((n - 8) div 8)" "n mod 8 = (n - 8) mod 8"
      by (simp_all add: le_div_geq le_mod_geq)
    have "\<not> bit b n" using False by (auto dest: bit_imp_le_length)
    then show ?thesis using False Cons.IH [of "n - 8"] n
      by (auto simp: step bit_simps)
  qed
qed

lemma le_load_bytes: "LENGTH('a) = 8 * n \<Longrightarrow> le_load (le_bytes n (x :: 'a::len word)) = x"
  by (rule bit_eqI) (auto simp: bit_le_load le_bytes_def bit_simps less_mult_imp_div_less mult.commute)

end
