(* ===== verification/Alloc_Hooks.thy ===== *)
theory Alloc_Hooks
  imports Prelude
begin

text \<open>
  The allocator interface the stack and the heap share: the record of caller-supplied hooks
  (\<open>dv_stack_allocator_t\<close> in \<open>src/stack/dv_stack.h\<close>, \<open>dv_heap_allocator_t\<close> in
  \<open>src/heap/dv_heap.h\<close>), the contract a hook has to meet as a locale, and the allocate / resize
  in place / allocate-copy-free fragment that both \<open>set_capacity\<close> functions contain.

  A hook is a parameter of the model. It acts on a world \<open>'w\<close> (whatever \<open>user_data\<close> and the C
  heap hold), is absent when its pointer is null, answers \<open>None\<close> for undefined behaviour, and
  otherwise a block or null. The locale \<open>libc_heap\<close> states what the C standard says of
  \<open>malloc\<close>, \<open>aligned_alloc\<close>, \<open>realloc\<close> and \<open>free\<close>; the default hooks of the two modules are
  built on it, and \<open>bump_libc\<close> is a concrete C heap that meets it.
\<close>

section \<open>Hooks\<close>

type_synonym 'w alloc_fn = "size_t \<Rightarrow> size_t \<Rightarrow> ptr \<Rightarrow> 'w \<Rightarrow> (block option \<times> 'w) option"
type_synonym 'w realloc_fn =
  "block \<Rightarrow> size_t \<Rightarrow> size_t \<Rightarrow> size_t \<Rightarrow> ptr \<Rightarrow> 'w \<Rightarrow> (block option \<times> 'w) option"
type_synonym 'w free_fn = "block \<Rightarrow> size_t \<Rightarrow> size_t \<Rightarrow> ptr \<Rightarrow> 'w \<Rightarrow> 'w option"

record 'w hooks =
  hk_alloc :: "'w alloc_fn option"
  hk_realloc :: "'w realloc_fn option"
  hk_free :: "'w free_fn option"
  hk_user_data :: ptr

text \<open>The hooks of a zeroed control block: every pointer null.\<close>

definition null_hooks :: "'w hooks" where
  "null_hooks = \<lparr>hk_alloc = None, hk_realloc = None, hk_free = None, hk_user_data = 0\<rparr>"

text \<open>
  The contract of the hooks: a call with a block of at least the stated size returns; a block
  handed out has at least the requested bytes; a resized block keeps its common prefix.
\<close>

locale allocator_contract =
  fixes hk :: "'w hooks"
  assumes alloc_returns:
      "hk_alloc hk = Some f \<Longrightarrow> \<exists>r w'. f n al u w = Some (r, w')"
    and alloc_length:
      "hk_alloc hk = Some f \<Longrightarrow> f n al u w = Some (Some b, w') \<Longrightarrow> unat n \<le> length (blk_data b)"
    and realloc_returns:
      "hk_realloc hk = Some g \<Longrightarrow> unat n \<le> length (blk_data b) \<Longrightarrow>
         \<exists>r w'. g b n n' al u w = Some (r, w')"
    and realloc_length:
      "hk_realloc hk = Some g \<Longrightarrow> unat n \<le> length (blk_data b) \<Longrightarrow>
         g b n n' al u w = Some (Some b', w') \<Longrightarrow> unat n' \<le> length (blk_data b')"
    and realloc_keeps:
      "hk_realloc hk = Some g \<Longrightarrow> unat n \<le> length (blk_data b) \<Longrightarrow>
         g b n n' al u w = Some (Some b', w') \<Longrightarrow>
         take (min (unat n) (unat n')) (blk_data b') = take (min (unat n) (unat n')) (blk_data b)"
    and free_returns:
      "hk_free hk = Some h \<Longrightarrow> unat n \<le> length (blk_data b) \<Longrightarrow> \<exists>w'. h b n al u w = Some w'"

section \<open>Moving a block\<close>

text \<open>
  The fragment of \<open>set_capacity\<close> that obtains memory of \<open>new_bytes\<close>: \<open>alloc\<close> for a null
  buffer, the resize hook where there is one, and otherwise \<open>alloc\<close>, a copy of the live bytes
  and \<open>free\<close>. A null result leaves the old block in place.
\<close>

definition copy_live :: "byte list \<Rightarrow> byte list \<Rightarrow> size_t \<Rightarrow> byte list option" where
  "copy_live dst src live =
     (if live > 0 then do { bs \<leftarrow> mem_read src 0 (unat live); mem_write dst 0 bs } else Some dst)"

definition resize_mem ::
  "'w hooks \<Rightarrow> block option \<Rightarrow> size_t \<Rightarrow> size_t \<Rightarrow> size_t \<Rightarrow> size_t \<Rightarrow> 'w \<Rightarrow> (block option \<times> 'w) option"
where
  "resize_mem hk buf old_bytes new_bytes live al w =
     (case buf of
        None \<Rightarrow> do { f \<leftarrow> hk_alloc hk; f new_bytes al (hk_user_data hk) w }
      | Some b \<Rightarrow>
          (case hk_realloc hk of
             Some g \<Rightarrow> g b old_bytes new_bytes al (hk_user_data hk) w
           | None \<Rightarrow> do {
               f \<leftarrow> hk_alloc hk;
               (r, w1) \<leftarrow> f new_bytes al (hk_user_data hk) w;
               (case r of
                  None \<Rightarrow> Some (None, w1)
                | Some m \<Rightarrow> do {
                    d \<leftarrow> copy_live (blk_data m) (blk_data b) live;
                    h \<leftarrow> hk_free hk;
                    w2 \<leftarrow> h b old_bytes al (hk_user_data hk) w1;
                    Some (Some (m\<lparr>blk_data := d\<rparr>), w2) }) }))"

lemma copy_live_ok:
  assumes "unat live \<le> length src" "unat live \<le> length dst"
  shows "\<exists>d. copy_live dst src live = Some d \<and> length d = length dst \<and>
             take (unat live) d = take (unat live) src"
  using assms by (auto simp: copy_live_def mem_read_def mem_write_def min_def word_gt_0)

context allocator_contract
begin

lemma resize_mem_ok:
  assumes fns: "hk_alloc hk \<noteq> None" "hk_free hk \<noteq> None"
    and old: "\<And>b. buf = Some b \<Longrightarrow> unat old \<le> length (blk_data b)"
    and live: "unat live \<le> unat old" "unat live \<le> unat new"
  shows "\<exists>r w'. resize_mem hk buf old new live al w = Some (r, w') \<and>
           (\<forall>m. r = Some m \<longrightarrow> unat new \<le> length (blk_data m) \<and>
              (\<forall>b. buf = Some b \<longrightarrow>
                 take (unat live) (blk_data m) = take (unat live) (blk_data b)))"
proof (cases buf)
  case None
  obtain f where f: "hk_alloc hk = Some f" using fns by blast
  show ?thesis
    using None f alloc_returns [OF f] alloc_length [OF f] by (fastforce simp: resize_mem_def)
next
  case (Some b)
  note b = old [OF Some]
  show ?thesis
  proof (cases "hk_realloc hk")
    case g: (Some g)
    obtain r w' where r: "g b old new al (hk_user_data hk) w = Some (r, w')"
      using realloc_returns [OF g b] by blast
    have "take (unat live) (blk_data m) = take (unat live) (blk_data b)" if "r = Some m" for m
    proof -
      have "take (unat live) (take (min (unat old) (unat new)) (blk_data m)) =
            take (unat live) (take (min (unat old) (unat new)) (blk_data b))"
        using realloc_keeps [OF g b] r that by simp
      moreover have "unat live \<le> min (unat old) (unat new)" using live by simp
      ultimately show ?thesis by (simp add: min_absorb1)
    qed
    then show ?thesis
      using Some g r realloc_length [OF g b] by (auto simp: resize_mem_def)
  next
    case None
    obtain f h where f: "hk_alloc hk = Some f" and h: "hk_free hk = Some h" using fns by blast
    obtain r w1 where r: "f new al (hk_user_data hk) w = Some (r, w1)"
      using alloc_returns [OF f] by blast
    show ?thesis
    proof (cases r)
      case r_none: None
      then show ?thesis using Some None f r by (simp add: resize_mem_def)
    next
      case m: (Some m)
      then have len: "unat new \<le> length (blk_data m)" using alloc_length [OF f] r by simp
      obtain d where d: "copy_live (blk_data m) (blk_data b) live = Some d"
        "length d = length (blk_data m)" "take (unat live) d = take (unat live) (blk_data b)"
        using copy_live_ok [of live "blk_data b" "blk_data m"] live b len by auto
      obtain w2 where "h b old al (hk_user_data hk) w1 = Some w2"
        using free_returns [OF h b] by blast
      then show ?thesis using Some None f h r m d len by (simp add: resize_mem_def)
    qed
  qed
qed

end

text \<open>Hooks that stay within a set of worlds, such as those where the caller's objects are intact.\<close>

definition hooks_keep :: "'w set \<Rightarrow> 'w hooks \<Rightarrow> bool" where
  "hooks_keep W hk \<longleftrightarrow>
     (\<forall>f n al u w r w'. hk_alloc hk = Some f \<and> w \<in> W \<and> f n al u w = Some (r, w') \<longrightarrow> w' \<in> W) \<and>
     (\<forall>g b n n' al u w r w'. hk_realloc hk = Some g \<and> w \<in> W \<and> g b n n' al u w = Some (r, w') \<longrightarrow> w' \<in> W) \<and>
     (\<forall>h b n al u w w'. hk_free hk = Some h \<and> w \<in> W \<and> h b n al u w = Some w' \<longrightarrow> w' \<in> W)"

lemma hooks_keep_UNIV [simp]: "hooks_keep UNIV hk"
  by (simp add: hooks_keep_def)

lemma hooks_keep_free:
  "hooks_keep W hk \<Longrightarrow> hk_free hk = Some h \<Longrightarrow> w \<in> W \<Longrightarrow> h b n al u w = Some w' \<Longrightarrow> w' \<in> W"
  unfolding hooks_keep_def by (elim conjE) metis

lemma hooks_keep_alloc:
  "hooks_keep W hk \<Longrightarrow> hk_alloc hk = Some f \<Longrightarrow> w \<in> W \<Longrightarrow> f n al u w = Some (r, w') \<Longrightarrow> w' \<in> W"
  unfolding hooks_keep_def by (elim conjE) metis

lemma hooks_keep_realloc:
  "hooks_keep W hk \<Longrightarrow> hk_realloc hk = Some g \<Longrightarrow> w \<in> W \<Longrightarrow> g b n n' al u w = Some (r, w') \<Longrightarrow> w' \<in> W"
  unfolding hooks_keep_def by (elim conjE) metis

lemma resize_mem_keeps:
  assumes k: "hooks_keep W hk" and w: "w \<in> W"
    and eq: "resize_mem hk buf old new live al w = Some (r, w')"
  shows "w' \<in> W"
proof -
  consider (alloc) f where "hk_alloc hk = Some f" "f new al (hk_user_data hk) w = Some (r, w')"
    | (realloc) b g where "hk_realloc hk = Some g" "g b old new al (hk_user_data hk) w = Some (r, w')"
    | (move) f h b m w1 where "hk_alloc hk = Some f" "hk_free hk = Some h"
        "f new al (hk_user_data hk) w = Some (Some m, w1)" "h b old al (hk_user_data hk) w1 = Some w'"
    using eq by (auto simp: resize_mem_def bind_eq_Some_conv split: option.splits)
  then show ?thesis
    using hooks_keep_alloc [OF k _ w] hooks_keep_realloc [OF k _ w] hooks_keep_free [OF k]
    by cases metis+
qed

section \<open>The C heap\<close>

text \<open>The allocation functions of the C standard library, as functions of a world.\<close>

record 'w libc =
  c_malloc :: "size_t \<Rightarrow> 'w \<Rightarrow> block option \<times> 'w"
  c_aligned_alloc :: "size_t \<Rightarrow> size_t \<Rightarrow> 'w \<Rightarrow> block option \<times> 'w"
  c_realloc :: "block \<Rightarrow> size_t \<Rightarrow> 'w \<Rightarrow> block option \<times> 'w"
  c_free :: "block \<Rightarrow> 'w \<Rightarrow> 'w"

locale libc_heap =
  fixes L :: "'w libc"
  assumes malloc_length: "c_malloc L n w = (Some b, w') \<Longrightarrow> length (blk_data b) = unat n"
    and aligned_alloc_length:
      "c_aligned_alloc L al n w = (Some b, w') \<Longrightarrow> length (blk_data b) = unat n"
    and aligned_alloc_addr: "c_aligned_alloc L al n w = (Some b, w') \<Longrightarrow> unat al dvd blk_addr b"
    and realloc_length: "c_realloc L b n w = (Some b', w') \<Longrightarrow> length (blk_data b') = unat n"
    and realloc_keeps:
      "c_realloc L b n w = (Some b', w') \<Longrightarrow>
         take (min (length (blk_data b)) (unat n)) (blk_data b') =
         take (min (length (blk_data b)) (unat n)) (blk_data b)"

text \<open>
  A C heap that hands out ascending addresses up to a limit and then refuses. Its world is the
  limit and the first address not yet handed out; fresh bytes hold \<open>0xCD\<close>.
\<close>

definition bump_alloc :: "nat \<Rightarrow> size_t \<Rightarrow> nat \<times> nat \<Rightarrow> block option \<times> (nat \<times> nat)" where
  "bump_alloc al n = (\<lambda>(limit, next).
     let a = (next + al - 1) div al * al in
     if al \<noteq> 0 \<and> a + unat n \<le> limit
     then (Some \<lparr>blk_addr = a, blk_data = replicate (unat n) 0xCD\<rparr>, (limit, a + unat n))
     else (None, (limit, next)))"

definition bump_libc :: "(nat \<times> nat) libc" where
  "bump_libc = \<lparr>
     c_malloc = bump_alloc 16,
     c_aligned_alloc = (\<lambda>al. bump_alloc (unat al)),
     c_realloc = (\<lambda>b n w. case bump_alloc 16 n w of
        (None, w') \<Rightarrow> (None, w')
      | (Some m, w') \<Rightarrow>
          let k = min (length (blk_data b)) (unat n) in
          (Some (m\<lparr>blk_data := take k (blk_data b) @ drop k (blk_data m)\<rparr>), w')),
     c_free = (\<lambda>b w. w)\<rparr>"

lemma bump_alloc_length: "bump_alloc al n w = (Some b, w') \<Longrightarrow> length (blk_data b) = unat n"
  by (auto simp: bump_alloc_def Let_def split: prod.splits if_splits)

lemma bump_alloc_addr: "bump_alloc al n w = (Some b, w') \<Longrightarrow> al dvd blk_addr b"
  by (auto simp: bump_alloc_def Let_def split: prod.splits if_splits)

interpretation bump: libc_heap bump_libc
  by unfold_locales
    (auto simp: bump_libc_def Let_def bump_alloc_length bump_alloc_addr
          split: prod.splits option.splits dest: bump_alloc_length)

end
