(* ===== verification/Dv_Stack.thy ===== *)
theory Dv_Stack
  imports Alloc_Hooks
begin

text \<open>
  The contiguous stack of \<open>src/stack/dv_stack.h\<close> and \<open>src/stack/dv_stack.c\<close>: its control block as a
  record that owns the bytes of its buffer, and one definition per function, in the order of the
  sources. A pointer argument that the code checks against null is an \<open>option\<close>; an out parameter is
  passed as the caller's bytes and returned updated. The debug assertions of the pointer mode are
  compiled out (the release build), so that the status codes behind them are reached.
\<close>

section \<open>Types and constants\<close>

datatype dv_stack_status_t =
    DV_STACK_OK
  | DV_STACK_ERR_INVALID
  | DV_STACK_ERR_EMPTY
  | DV_STACK_ERR_FULL
  | DV_STACK_ERR_NOMEM
  | DV_STACK_ERR_OVERFLOW

definition DV_STACK_MIN_CAPACITY :: size_t where
  "DV_STACK_MIN_CAPACITY = 8"

definition DV_STACK_MALLOC_ALIGN :: size_t where
  "DV_STACK_MALLOC_ALIGN = alignof_max_align_t"

record dv_stack_config_t =
  scf_elem_size :: size_t
  scf_elem_align :: size_t
  scf_initial_capacity :: size_t
  scf_max_capacity :: size_t
  scf_growable :: bool
  scf_cache_aligned :: bool

record 'w dv_stack_t =
  stk_buffer :: "block option"
  stk_top :: size_t
  stk_capacity :: size_t
  stk_elem_size :: size_t
  stk_align :: size_t
  stk_initial_capacity :: size_t
  stk_max_capacity :: size_t
  stk_allocator :: "'w hooks"
  stk_growable :: bool
  stk_ptr_mode :: bool

text \<open>The control block after \<open>memset(s, 0, sizeof(*s))\<close>.\<close>

definition zero_stack :: "'w dv_stack_t" where
  "zero_stack = \<lparr>stk_buffer = None, stk_top = 0, stk_capacity = 0, stk_elem_size = 0, stk_align = 0,
     stk_initial_capacity = 0, stk_max_capacity = 0, stk_allocator = null_hooks,
     stk_growable = False, stk_ptr_mode = False\<rparr>"

section \<open>Size and alignment arithmetic\<close>

definition dv_stack_is_pow2 :: "size_t \<Rightarrow> bool" where
  "dv_stack_is_pow2 x \<longleftrightarrow> x \<noteq> 0 \<and> x AND (x - 1) = 0"

text \<open>\<open>None\<close> is the result \<open>false\<close>; every caller passes the address of a local for \<open>out\<close>.\<close>

definition dv_stack_align_up :: "size_t \<Rightarrow> size_t \<Rightarrow> size_t option" where
  "dv_stack_align_up sz al =
     (if \<not> dv_stack_is_pow2 al then None
      else if sz > SIZE_MAX - (al - 1) then None
      else Some ((sz + al - 1) AND NOT (al - 1)))"

definition dv_stack_bytes_for :: "size_t \<Rightarrow> size_t \<Rightarrow> dv_stack_status_t + size_t" where
  "dv_stack_bytes_for cap es =
     (if cap \<noteq> 0 \<and> es > SIZE_MAX div cap then Inl DV_STACK_ERR_OVERFLOW else Inr (cap * es))"

section \<open>Default allocator hooks\<close>

definition dv_stack_over_aligned_alloc :: "'w libc \<Rightarrow> size_t \<Rightarrow> size_t \<Rightarrow> 'w \<Rightarrow> block option \<times> 'w" where
  "dv_stack_over_aligned_alloc L sz al w =
     (case dv_stack_align_up sz al of
        None \<Rightarrow> (None, w)
      | Some padded \<Rightarrow> c_aligned_alloc L al padded w)"

definition dv_stack_over_aligned_free :: "'w libc \<Rightarrow> block \<Rightarrow> 'w \<Rightarrow> 'w" where
  "dv_stack_over_aligned_free L b w = c_free L b w"

definition dv_stack_default_alloc :: "'w libc \<Rightarrow> 'w alloc_fn" where
  "dv_stack_default_alloc L sz al u w =
     (if al \<le> DV_STACK_MALLOC_ALIGN then Some (c_malloc L sz w)
      else Some (dv_stack_over_aligned_alloc L sz al w))"

definition dv_stack_default_realloc :: "'w libc \<Rightarrow> 'w realloc_fn" where
  "dv_stack_default_realloc L b old_size new_size al u w =
     (if al \<le> DV_STACK_MALLOC_ALIGN then Some (c_realloc L b new_size w)
      else case dv_stack_over_aligned_alloc L new_size al w of
        (None, w1) \<Rightarrow> Some (None, w1)
      | (Some m, w1) \<Rightarrow> do {
          d \<leftarrow> copy_live (blk_data m) (blk_data b) (if old_size < new_size then old_size else new_size);
          Some (Some (m\<lparr>blk_data := d\<rparr>), dv_stack_over_aligned_free L b w1) })"

definition dv_stack_default_free :: "'w libc \<Rightarrow> 'w free_fn" where
  "dv_stack_default_free L b sz al u w =
     (if al \<le> DV_STACK_MALLOC_ALIGN then Some (c_free L b w)
      else Some (dv_stack_over_aligned_free L b w))"

definition dv_stack_default_allocator :: "'w libc \<Rightarrow> 'w hooks" where
  "dv_stack_default_allocator L = \<lparr>
     hk_alloc = Some (dv_stack_default_alloc L),
     hk_realloc = Some (dv_stack_default_realloc L),
     hk_free = Some (dv_stack_default_free L),
     hk_user_data = 0\<rparr>"

section \<open>Buffer management\<close>

type_synonym 'w stack_result = "(dv_stack_status_t \<times> 'w dv_stack_t \<times> 'w) option"
type_synonym 'w stack_call = "(dv_stack_status_t \<times> 'w dv_stack_t option \<times> 'w) option"

definition dv_stack_set_capacity :: "'w dv_stack_t \<Rightarrow> size_t \<Rightarrow> 'w \<Rightarrow> 'w stack_result" where
  "dv_stack_set_capacity s new_capacity w =
     (if new_capacity = stk_capacity s then Some (DV_STACK_OK, s, w)
      else if new_capacity < stk_top s then Some (DV_STACK_ERR_INVALID, s, w)
      else case dv_stack_bytes_for (stk_capacity s) (stk_elem_size s) of
        Inl status \<Rightarrow> Some (status, s, w)
      | Inr old_bytes \<Rightarrow>
       (case dv_stack_bytes_for new_capacity (stk_elem_size s) of
          Inl status \<Rightarrow> Some (status, s, w)
        | Inr new_bytes \<Rightarrow>
            if new_bytes = 0 then do {
              w1 \<leftarrow> (case stk_buffer s of
                        None \<Rightarrow> Some w
                      | Some b \<Rightarrow> do {
                          h \<leftarrow> hk_free (stk_allocator s);
                          h b old_bytes (stk_align s) (hk_user_data (stk_allocator s)) w });
              Some (DV_STACK_OK, s\<lparr>stk_buffer := None, stk_capacity := 0\<rparr>, w1) }
            else do {
              (mem, w1) \<leftarrow> resize_mem (stk_allocator s) (stk_buffer s) old_bytes new_bytes
                              (stk_top s * stk_elem_size s) (stk_align s) w;
              (case mem of
                 None \<Rightarrow> Some (DV_STACK_ERR_NOMEM, s, w1)
               | Some m \<Rightarrow>
                   Some (DV_STACK_OK, s\<lparr>stk_buffer := Some m, stk_capacity := new_capacity\<rparr>, w1)) }))"

definition dv_stack_next_capacity :: "size_t \<Rightarrow> size_t" where
  "dv_stack_next_capacity cap =
     (if cap < DV_STACK_MIN_CAPACITY then DV_STACK_MIN_CAPACITY
      else let half = cap div 2 in if cap > SIZE_MAX - half then SIZE_MAX else cap + half)"

definition dv_stack_clamp_capacity :: "'w dv_stack_t \<Rightarrow> size_t \<Rightarrow> size_t" where
  "dv_stack_clamp_capacity s cap =
     (if stk_max_capacity s \<noteq> 0 \<and> cap > stk_max_capacity s then stk_max_capacity s else cap)"

section \<open>Lifecycle\<close>

definition stack_select_hooks :: "'w libc \<Rightarrow> 'w hooks option \<Rightarrow> 'w hooks option" where
  "stack_select_hooks L allocator =
     (case allocator of
        Some a \<Rightarrow> if hk_alloc a = None \<or> hk_free a = None then None else Some a
      | None \<Rightarrow> Some (dv_stack_default_allocator L))"

fun dv_stack_init ::
  "'w libc \<Rightarrow> 'w dv_stack_t option \<Rightarrow> dv_stack_config_t option \<Rightarrow> 'w hooks option \<Rightarrow> 'w \<Rightarrow> 'w stack_call"
where
  "dv_stack_init L None config allocator w = Some (DV_STACK_ERR_INVALID, None, w)"
| "dv_stack_init L (Some s) None allocator w = Some (DV_STACK_ERR_INVALID, Some zero_stack, w)"
| "dv_stack_init L (Some s) (Some c) allocator w =
     (let elem_align = (if scf_elem_align c = 0 then DV_STACK_MALLOC_ALIGN else scf_elem_align c);
          invalid = Some (DV_STACK_ERR_INVALID, Some zero_stack, w)
      in if scf_elem_size c = 0 then invalid
         else if \<not> dv_stack_is_pow2 elem_align then invalid
         else if scf_elem_size c AND (elem_align - 1) \<noteq> 0 then invalid
         else case stack_select_hooks L allocator of
           None \<Rightarrow> invalid
         | Some hooks \<Rightarrow>
             let al = (if scf_cache_aligned c \<and> elem_align < DV_CACHE_LINE_SIZE
                       then DV_CACHE_LINE_SIZE else elem_align);
                 max_capacity = (if \<not> scf_growable c then scf_initial_capacity c
                                 else scf_max_capacity c)
             in if scf_growable c \<and> max_capacity \<noteq> 0 \<and> max_capacity < scf_initial_capacity c
                then invalid
                else
                  let s1 = \<lparr>stk_buffer = None, stk_top = 0, stk_capacity = 0,
                             stk_elem_size = scf_elem_size c, stk_align = al,
                             stk_initial_capacity = scf_initial_capacity c,
                             stk_max_capacity = max_capacity, stk_allocator = hooks,
                             stk_growable = scf_growable c,
                             stk_ptr_mode = (scf_elem_size c = sizeof_ptr \<and>
                                             al AND (alignof_ptr - 1) = 0)\<rparr>
                  in if scf_initial_capacity c > 0
                     then do {
                       (status, s2, w2) \<leftarrow> dv_stack_set_capacity s1 (scf_initial_capacity c) w;
                       (if status \<noteq> DV_STACK_OK then Some (status, Some zero_stack, w2)
                        else Some (DV_STACK_OK, Some s2, w2)) }
                     else Some (DV_STACK_OK, Some s1, w))"

definition dv_stack_init_ptr ::
  "'w libc \<Rightarrow> 'w dv_stack_t option \<Rightarrow> size_t \<Rightarrow> bool \<Rightarrow> 'w hooks option \<Rightarrow> 'w \<Rightarrow> 'w stack_call"
where
  "dv_stack_init_ptr L s initial_capacity growable allocator w =
     dv_stack_init L s
       (Some \<lparr>scf_elem_size = sizeof_ptr, scf_elem_align = alignof_ptr,
              scf_initial_capacity = initial_capacity, scf_max_capacity = 0,
              scf_growable = growable, scf_cache_aligned = False\<rparr>)
       allocator w"

fun dv_stack_reset :: "'w dv_stack_t option \<Rightarrow> 'w \<Rightarrow> 'w stack_call" where
  "dv_stack_reset None w = Some (DV_STACK_ERR_INVALID, None, w)"
| "dv_stack_reset (Some s) w = do {
     (status, s1, w1) \<leftarrow> dv_stack_set_capacity (s\<lparr>stk_top := 0\<rparr>) (stk_initial_capacity s) w;
     Some (status, Some s1, w1) }"

fun dv_stack_destroy :: "'w dv_stack_t option \<Rightarrow> 'w \<Rightarrow> ('w dv_stack_t option \<times> 'w) option" where
  "dv_stack_destroy None w = Some (None, w)"
| "dv_stack_destroy (Some s) w = do {
     w1 \<leftarrow> (case (stk_buffer s, hk_free (stk_allocator s)) of
              (Some b, Some h) \<Rightarrow>
                h b (case dv_stack_bytes_for (stk_capacity s) (stk_elem_size s) of
                       Inl _ \<Rightarrow> 0 | Inr n \<Rightarrow> n)
                  (stk_align s) (hk_user_data (stk_allocator s)) w
            | _ \<Rightarrow> Some w);
     Some (Some zero_stack, w1) }"

section \<open>Capacity management\<close>

fun dv_stack_reserve :: "'w dv_stack_t option \<Rightarrow> size_t \<Rightarrow> 'w \<Rightarrow> 'w stack_call" where
  "dv_stack_reserve None cap w = Some (DV_STACK_ERR_INVALID, None, w)"
| "dv_stack_reserve (Some s) cap w =
     (if cap \<le> stk_capacity s then Some (DV_STACK_OK, Some s, w)
      else if \<not> stk_growable s then Some (DV_STACK_ERR_FULL, Some s, w)
      else if stk_max_capacity s \<noteq> 0 \<and> cap > stk_max_capacity s
        then Some (DV_STACK_ERR_FULL, Some s, w)
      else do { (status, s1, w1) \<leftarrow> dv_stack_set_capacity s cap w; Some (status, Some s1, w1) })"

fun dv_stack_shrink_to_fit :: "'w dv_stack_t option \<Rightarrow> 'w \<Rightarrow> 'w stack_call" where
  "dv_stack_shrink_to_fit None w = Some (DV_STACK_ERR_INVALID, None, w)"
| "dv_stack_shrink_to_fit (Some s) w =
     (if \<not> stk_growable s \<or> stk_capacity s = stk_top s then Some (DV_STACK_OK, Some s, w)
      else do { (status, s1, w1) \<leftarrow> dv_stack_set_capacity s (stk_top s) w; Some (status, Some s1, w1) })"

fun dv_stack_grow_for_push :: "'w dv_stack_t option \<Rightarrow> 'w \<Rightarrow> 'w stack_call" where
  "dv_stack_grow_for_push None w = Some (DV_STACK_ERR_INVALID, None, w)"
| "dv_stack_grow_for_push (Some s) w =
     (if stk_top s < stk_capacity s then Some (DV_STACK_OK, Some s, w)
      else if \<not> stk_growable s then Some (DV_STACK_ERR_FULL, Some s, w)
      else
        let next = dv_stack_clamp_capacity s (dv_stack_next_capacity (stk_capacity s))
        in if next \<le> stk_capacity s then Some (DV_STACK_ERR_FULL, Some s, w)
           else do { (status, s1, w1) \<leftarrow> dv_stack_set_capacity s next w; Some (status, Some s1, w1) })"

section \<open>Inline accessors\<close>

fun dv_stack_size :: "'w dv_stack_t option \<Rightarrow> size_t" where
  "dv_stack_size None = 0"
| "dv_stack_size (Some s) = stk_top s"

fun dv_stack_capacity :: "'w dv_stack_t option \<Rightarrow> size_t" where
  "dv_stack_capacity None = 0"
| "dv_stack_capacity (Some s) = stk_capacity s"

fun dv_stack_elem_size :: "'w dv_stack_t option \<Rightarrow> size_t" where
  "dv_stack_elem_size None = 0"
| "dv_stack_elem_size (Some s) = stk_elem_size s"

fun dv_stack_is_empty :: "'w dv_stack_t option \<Rightarrow> bool" where
  "dv_stack_is_empty None = True"
| "dv_stack_is_empty (Some s) = (stk_top s = 0)"

fun dv_stack_is_full :: "'w dv_stack_t option \<Rightarrow> bool" where
  "dv_stack_is_full None = True"
| "dv_stack_is_full (Some s) =
     (if stk_top s < stk_capacity s then False
      else if \<not> stk_growable s then True
      else stk_max_capacity s \<noteq> 0 \<and> stk_capacity s \<ge> stk_max_capacity s)"

text \<open>The address \<open>s->buffer + k\<close> is the byte offset \<open>k\<close> into the buffer; \<open>None\<close> is null.\<close>

fun dv_stack_at :: "'w dv_stack_t option \<Rightarrow> size_t \<Rightarrow> size_t option" where
  "dv_stack_at None depth = None"
| "dv_stack_at (Some s) depth =
     (if depth \<ge> stk_top s then None else Some ((stk_top s - 1 - depth) * stk_elem_size s))"

fun dv_stack_at_const :: "'w dv_stack_t option \<Rightarrow> size_t \<Rightarrow> size_t option" where
  "dv_stack_at_const None depth = None"
| "dv_stack_at_const (Some s) depth =
     (if depth \<ge> stk_top s then None else Some ((stk_top s - 1 - depth) * stk_elem_size s))"

definition dv_stack_top :: "'w dv_stack_t option \<Rightarrow> size_t option" where
  "dv_stack_top s = dv_stack_at s 0"

definition dv_stack_top_const :: "'w dv_stack_t option \<Rightarrow> size_t option" where
  "dv_stack_top_const s = dv_stack_at_const s 0"

section \<open>Push, pop and peek\<close>

text \<open>\<open>memcpy\<close> out of and into the buffer at a byte offset.\<close>

definition stack_load :: "'w dv_stack_t \<Rightarrow> nat \<Rightarrow> nat \<Rightarrow> byte list option" where
  "stack_load s off n = do { b \<leftarrow> stk_buffer s; mem_read (blk_data b) off n }"

definition stack_store :: "'w dv_stack_t \<Rightarrow> nat \<Rightarrow> byte list \<Rightarrow> 'w dv_stack_t option" where
  "stack_store s off bs = do {
     b \<leftarrow> stk_buffer s;
     d \<leftarrow> mem_write (blk_data b) off bs;
     Some (s\<lparr>stk_buffer := Some (b\<lparr>blk_data := d\<rparr>)\<rparr>) }"

fun dv_stack_push :: "'w dv_stack_t option \<Rightarrow> byte list option \<Rightarrow> 'w \<Rightarrow> 'w stack_call" where
  "dv_stack_push None elem w = Some (DV_STACK_ERR_INVALID, None, w)"
| "dv_stack_push (Some s) None w = Some (DV_STACK_ERR_INVALID, Some s, w)"
| "dv_stack_push (Some s) (Some elem) w = do {
     (status, p, w1) \<leftarrow> (if stk_top s = stk_capacity s then dv_stack_grow_for_push (Some s) w
                          else Some (DV_STACK_OK, Some s, w));
     (if status \<noteq> DV_STACK_OK then Some (status, p, w1)
      else do {
        s1 \<leftarrow> p;
        bs \<leftarrow> mem_read elem 0 (unat (stk_elem_size s1));
        s2 \<leftarrow> stack_store s1 (unat (stk_top s1 * stk_elem_size s1)) bs;
        Some (DV_STACK_OK, Some (s2\<lparr>stk_top := stk_top s2 + 1\<rparr>), w1) }) }"

fun dv_stack_pop ::
  "'w dv_stack_t option \<Rightarrow> byte list option \<Rightarrow>
     (dv_stack_status_t \<times> 'w dv_stack_t option \<times> byte list option) option"
where
  "dv_stack_pop None out = Some (DV_STACK_ERR_INVALID, None, out)"
| "dv_stack_pop (Some s) out =
     (if stk_top s = 0 then Some (DV_STACK_ERR_EMPTY, Some s, out)
      else do {
        s1 \<leftarrow> Some (s\<lparr>stk_top := stk_top s - 1\<rparr>);
        out1 \<leftarrow> (case out of
                   None \<Rightarrow> Some None
                 | Some _ \<Rightarrow> do {
                     bs \<leftarrow> stack_load s1 (unat (stk_top s1 * stk_elem_size s1)) (unat (stk_elem_size s1));
                     copy_out out bs });
        Some (DV_STACK_OK, Some s1, out1) })"

fun dv_stack_peek ::
  "'w dv_stack_t option \<Rightarrow> byte list option \<Rightarrow> (dv_stack_status_t \<times> byte list option) option"
where
  "dv_stack_peek None out = Some (DV_STACK_ERR_INVALID, out)"
| "dv_stack_peek (Some s) None = Some (DV_STACK_ERR_INVALID, None)"
| "dv_stack_peek (Some s) (Some out) =
     (if stk_top s = 0 then Some (DV_STACK_ERR_EMPTY, Some out)
      else do {
        bs \<leftarrow> stack_load s (unat ((stk_top s - 1) * stk_elem_size s)) (unat (stk_elem_size s));
        out1 \<leftarrow> copy_out (Some out) bs;
        Some (DV_STACK_OK, out1) })"

fun dv_stack_clear :: "'w dv_stack_t option \<Rightarrow> 'w dv_stack_t option" where
  "dv_stack_clear None = None"
| "dv_stack_clear (Some s) = Some (s\<lparr>stk_top := 0\<rparr>)"

section \<open>Pointer specialization\<close>

fun dv_stack_is_ptr_mode :: "'w dv_stack_t option \<Rightarrow> bool" where
  "dv_stack_is_ptr_mode None = False"
| "dv_stack_is_ptr_mode (Some s) = stk_ptr_mode s"

text \<open>\<open>((void **)s->buffer)[i]\<close> is the eight bytes at offset \<open>8 * i\<close>.\<close>

fun dv_stack_push_ptr :: "'w dv_stack_t option \<Rightarrow> ptr \<Rightarrow> 'w \<Rightarrow> 'w stack_call" where
  "dv_stack_push_ptr None value w = Some (DV_STACK_ERR_INVALID, None, w)"
| "dv_stack_push_ptr (Some s) value w =
     (if \<not> stk_ptr_mode s then Some (DV_STACK_ERR_INVALID, Some s, w)
      else do {
        (status, p, w1) \<leftarrow> (if stk_top s = stk_capacity s then dv_stack_grow_for_push (Some s) w
                             else Some (DV_STACK_OK, Some s, w));
        (if status \<noteq> DV_STACK_OK then Some (status, p, w1)
         else do {
           s1 \<leftarrow> p;
           s2 \<leftarrow> stack_store s1 (unat (stk_top s1) * unat sizeof_ptr) (le_bytes (unat sizeof_ptr) value);
           Some (DV_STACK_OK, Some (s2\<lparr>stk_top := stk_top s2 + 1\<rparr>), w1) }) })"

fun dv_stack_pop_ptr ::
  "'w dv_stack_t option \<Rightarrow> ptr option \<Rightarrow> (dv_stack_status_t \<times> 'w dv_stack_t option \<times> ptr option) option"
where
  "dv_stack_pop_ptr None out = Some (DV_STACK_ERR_INVALID, None, out)"
| "dv_stack_pop_ptr (Some s) None = Some (DV_STACK_ERR_INVALID, Some s, None)"
| "dv_stack_pop_ptr (Some s) (Some out) =
     (if \<not> stk_ptr_mode s then Some (DV_STACK_ERR_INVALID, Some s, Some out)
      else if stk_top s = 0 then Some (DV_STACK_ERR_EMPTY, Some s, Some 0)
      else do {
        s1 \<leftarrow> Some (s\<lparr>stk_top := stk_top s - 1\<rparr>);
        bs \<leftarrow> stack_load s1 (unat (stk_top s1) * unat sizeof_ptr) (unat sizeof_ptr);
        Some (DV_STACK_OK, Some s1, Some (le_load bs)) })"

fun dv_stack_peek_ptr ::
  "'w dv_stack_t option \<Rightarrow> ptr option \<Rightarrow> (dv_stack_status_t \<times> ptr option) option"
where
  "dv_stack_peek_ptr None out = Some (DV_STACK_ERR_INVALID, out)"
| "dv_stack_peek_ptr (Some s) None = Some (DV_STACK_ERR_INVALID, None)"
| "dv_stack_peek_ptr (Some s) (Some out) =
     (if \<not> stk_ptr_mode s then Some (DV_STACK_ERR_INVALID, Some out)
      else if stk_top s = 0 then Some (DV_STACK_ERR_EMPTY, Some 0)
      else do {
        bs \<leftarrow> stack_load s (unat (stk_top s - 1) * unat sizeof_ptr) (unat sizeof_ptr);
        Some (DV_STACK_OK, Some (le_load bs)) })"

section \<open>Bulk operations\<close>

definition dv_stack_grow_for_bulk :: "'w dv_stack_t \<Rightarrow> size_t \<Rightarrow> 'w \<Rightarrow> ('w dv_stack_t \<times> 'w) option" where
  "dv_stack_grow_for_bulk s needed w =
     (let curve = dv_stack_next_capacity (stk_capacity s);
          target = dv_stack_clamp_capacity s (if needed > curve then needed else curve)
      in do {
        (status, s1, w1) \<leftarrow> (if target > stk_capacity s then dv_stack_set_capacity s target w
                              else Some (DV_STACK_ERR_FULL, s, w));
        (if target > stk_capacity s \<and> status = DV_STACK_OK then Some (s1, w1)
         else
           let exact = dv_stack_clamp_capacity s1 needed
           in if exact > stk_capacity s1 \<and> exact < target
              then do { (_, s2, w2) \<leftarrow> dv_stack_set_capacity s1 exact w1; Some (s2, w2) }
              else Some (s1, w1)) })"

fun dv_stack_push_bulk ::
  "'w dv_stack_t option \<Rightarrow> byte list option \<Rightarrow> size_t \<Rightarrow> 'w \<Rightarrow>
     (size_t \<times> 'w dv_stack_t option \<times> 'w) option"
where
  "dv_stack_push_bulk None elems cnt w = Some (0, None, w)"
| "dv_stack_push_bulk (Some s) None cnt w = Some (0, Some s, w)"
| "dv_stack_push_bulk (Some s) (Some elems) cnt w =
     (if cnt = 0 then Some (0, Some s, w)
      else do {
        (s1, w1) \<leftarrow> (if stk_capacity s - stk_top s < cnt \<and> stk_growable s \<and> cnt \<le> SIZE_MAX - stk_top s
                      then dv_stack_grow_for_bulk s (stk_top s + cnt) w
                      else Some (s, w));
        let room = stk_capacity s1 - stk_top s1;
            n = (if cnt < room then cnt else room)
        in if n = 0 then Some (0, Some s1, w1)
           else do {
             bs \<leftarrow> mem_read elems 0 (unat (n * stk_elem_size s1));
             s2 \<leftarrow> stack_store s1 (unat (stk_top s1 * stk_elem_size s1)) bs;
             Some (n, Some (s2\<lparr>stk_top := stk_top s2 + n\<rparr>), w1) } })"

text \<open>The copy loop of \<open>pop_bulk\<close>: slot \<open>top - 1 - i\<close> goes to position \<open>i\<close> of \<open>dst\<close>.\<close>

function pop_bulk_copy :: "'w dv_stack_t \<Rightarrow> size_t \<Rightarrow> size_t \<Rightarrow> byte list \<Rightarrow> byte list option" where
  "pop_bulk_copy s n i dst =
     (if i < n then do {
        bs \<leftarrow> stack_load s (unat ((stk_top s - 1 - i) * stk_elem_size s)) (unat (stk_elem_size s));
        dst1 \<leftarrow> mem_write dst (unat (i * stk_elem_size s)) bs;
        pop_bulk_copy s n (i + 1) dst1 }
      else Some dst)"
  by pat_completeness auto
termination
proof (relation "measure (\<lambda>(s, n, i, dst). unat n - unat i)")
  fix s :: "'w dv_stack_t" and n i :: size_t and dst bs dst1 :: "byte list"
  assume "i < n"
  then show "((s, n, i + 1, dst1), s, n, i, dst) \<in> measure (\<lambda>(s, n, i, dst). unat n - unat i)"
    using unat_Suc_no_ovf [of i n] by (simp add: word_less_nat_alt)
qed simp

declare pop_bulk_copy.simps [simp del]

fun dv_stack_pop_bulk ::
  "'w dv_stack_t option \<Rightarrow> byte list option \<Rightarrow> size_t \<Rightarrow>
     (size_t \<times> 'w dv_stack_t option \<times> byte list option) option"
where
  "dv_stack_pop_bulk None out cnt = Some (0, None, out)"
| "dv_stack_pop_bulk (Some s) out cnt =
     (if cnt = 0 then Some (0, Some s, out)
      else
        let n = (if cnt < stk_top s then cnt else stk_top s)
        in if n = 0 then Some (0, Some s, out)
           else do {
             out1 \<leftarrow> (case out of
                        None \<Rightarrow> Some None
                      | Some dst \<Rightarrow> map_option Some (pop_bulk_copy s n 0 dst));
             Some (n, Some (s\<lparr>stk_top := stk_top s - n\<rparr>), out1) })"

section \<open>Diagnostics\<close>

fun dv_stack_status_str :: "dv_stack_status_t \<Rightarrow> string" where
  "dv_stack_status_str DV_STACK_OK = ''DV_STACK_OK''"
| "dv_stack_status_str DV_STACK_ERR_INVALID = ''DV_STACK_ERR_INVALID''"
| "dv_stack_status_str DV_STACK_ERR_EMPTY = ''DV_STACK_ERR_EMPTY''"
| "dv_stack_status_str DV_STACK_ERR_FULL = ''DV_STACK_ERR_FULL''"
| "dv_stack_status_str DV_STACK_ERR_NOMEM = ''DV_STACK_ERR_NOMEM''"
| "dv_stack_status_str DV_STACK_ERR_OVERFLOW = ''DV_STACK_ERR_OVERFLOW''"

end
