(* ===== verification/Dv_Stack_Props.thy ===== *)
theory Dv_Stack_Props
  imports Dv_Stack
begin

text \<open>
  Correctness of the stack: size arithmetic, the default hooks as an instance of the allocator
  contract, the memory invariant that every operation keeps, the elements a stack holds as a list
  of byte strings, and the specification of each operation over that list.
\<close>

section \<open>Size arithmetic\<close>

lemma dv_stack_is_pow2_iff: "dv_stack_is_pow2 x = (\<exists>k<64. unat x = 2 ^ k)"
  unfolding dv_stack_is_pow2_def by (rule pow2_word_iff)

lemma dv_stack_align_up_Some:
  assumes "dv_stack_align_up sz al = Some r"
  shows "unat al dvd unat r \<and> unat sz \<le> unat r \<and> unat r < unat sz + unat al"
proof -
  obtain k where k: "unat al = 2 ^ k" "k < 64"
    using assms by (auto simp: dv_stack_align_up_def dv_stack_is_pow2_iff split: if_splits)
  have fit: "sz \<le> SIZE_MAX - (al - 1)" and r: "r = (sz + al - 1) AND NOT (al - 1)"
    using assms by (auto simp: dv_stack_align_up_def split: if_splits)
  show ?thesis using align_up_unat [OF k fit] by (simp add: r)
qed

lemma dv_stack_bytes_for_Inr:
  "unat cap * unat es < 2 ^ 64 \<Longrightarrow> dv_stack_bytes_for cap es = Inr (cap * es)"
  by (auto simp: dv_stack_bytes_for_def word_div_guard)

lemma dv_stack_bytes_for_Inl:
  "2 ^ 64 \<le> unat cap * unat es \<Longrightarrow> dv_stack_bytes_for cap es = Inl DV_STACK_ERR_OVERFLOW"
  by (cases "cap = 0") (auto simp: dv_stack_bytes_for_def word_div_guard)

lemma next_capacity_unat:
  "unat (dv_stack_next_capacity cap) =
     (if unat cap < 8 then 8 else min (2 ^ 64 - 1) (unat cap + unat cap div 2))"
proof (cases "cap < DV_STACK_MIN_CAPACITY")
  case True
  then have "unat cap < 8" by (simp add: DV_STACK_MIN_CAPACITY_def word_less_nat_alt)
  then show ?thesis using True
    by (auto simp: dv_stack_next_capacity_def DV_STACK_MIN_CAPACITY_def)
next
  case False
  then have ge: "8 \<le> unat cap"
    by (simp add: DV_STACK_MIN_CAPACITY_def word_less_nat_alt word_le_nat_alt)
  have half: "unat (cap div 2) = unat cap div 2" by (simp add: unat_div)
  have le: "cap div 2 \<le> SIZE_MAX"
    using unat_le_SIZE_MAX [of "cap div 2"] by (simp only: word_le_nat_alt unat_SIZE_MAX)
  have guard: "(cap > SIZE_MAX - cap div 2) = (2 ^ 64 - 1 < unat cap + unat cap div 2)"
    using unat_le_SIZE_MAX [of "cap div 2"] unat_sub [OF le]
    unfolding word_less_nat_alt unat_SIZE_MAX half by auto
  show ?thesis
  proof (cases "2 ^ 64 - 1 < unat cap + unat cap div 2")
    case True
    then show ?thesis using False guard by (simp add: dv_stack_next_capacity_def Let_def)
  next
    case fits: False
    then have "unat (cap + cap div 2) = unat cap + unat cap div 2"
      using unat_add_no_ovf [of cap "cap div 2"] half by simp
    then show ?thesis using False fits guard ge by (simp add: dv_stack_next_capacity_def Let_def)
  qed
qed

section \<open>The default hooks meet the contract\<close>

context libc_heap
begin

lemma stack_over_aligned_length:
  "dv_stack_over_aligned_alloc L n al w = (Some b, w') \<Longrightarrow> unat n \<le> length (blk_data b)"
  by (auto simp: dv_stack_over_aligned_alloc_def split: option.splits
           dest!: dv_stack_align_up_Some aligned_alloc_length)

lemma stack_default_realloc_spec:
  assumes "unat n \<le> length (blk_data b)"
  shows "\<exists>r w'. dv_stack_default_realloc L b n n' al u w = Some (r, w') \<and>
           (\<forall>b'. r = Some b' \<longrightarrow> unat n' \<le> length (blk_data b') \<and>
              take (min (unat n) (unat n')) (blk_data b') = take (min (unat n) (unat n')) (blk_data b))"
proof (cases "al \<le> DV_STACK_MALLOC_ALIGN")
  case True
  obtain r w' where r: "c_realloc L b n' w = (r, w')" by fastforce
  have "take (min (unat n) (unat n')) (blk_data b') = take (min (unat n) (unat n')) (blk_data b)"
    if "r = Some b'" for b'
  proof -
    have "take (min (unat n) (unat n')) (take (min (length (blk_data b)) (unat n')) (blk_data b')) =
          take (min (unat n) (unat n')) (take (min (length (blk_data b)) (unat n')) (blk_data b))"
      using realloc_keeps r that by simp
    moreover have "min (unat n) (unat n') \<le> min (length (blk_data b)) (unat n')"
      using assms by (simp add: min.coboundedI1)
    ultimately show ?thesis by (simp add: min_absorb1)
  qed
  then show ?thesis using True r realloc_length by (auto simp: dv_stack_default_realloc_def)
next
  case False
  obtain r w1 where r: "dv_stack_over_aligned_alloc L n' al w = (r, w1)" by fastforce
  show ?thesis
  proof (cases r)
    case None
    then show ?thesis using False r by (simp add: dv_stack_default_realloc_def)
  next
    case (Some m)
    let ?c = "if n < n' then n else n'"
    have c: "unat ?c = min (unat n) (unat n')" by (auto simp: word_less_nat_alt)
    have len: "unat n' \<le> length (blk_data m)" using stack_over_aligned_length r Some by blast
    then obtain d where "copy_live (blk_data m) (blk_data b) ?c = Some d"
      "length d = length (blk_data m)" "take (unat ?c) d = take (unat ?c) (blk_data b)"
      using copy_live_ok [of ?c "blk_data b" "blk_data m"] assms
      unfolding c by (meson min.coboundedI1 min.coboundedI2)
    then show ?thesis using False r Some len c by (simp add: dv_stack_default_realloc_def)
  qed
qed

sublocale stack_default: allocator_contract "dv_stack_default_allocator L"
proof unfold_locales
  fix f :: "'w alloc_fn" and n al :: size_t and u :: ptr and w w' :: 'w and b :: block
  assume f: "hk_alloc (dv_stack_default_allocator L) = Some f"
  then have f': "f = dv_stack_default_alloc L" by (simp add: dv_stack_default_allocator_def)
  show "\<exists>r w'. f n al u w = Some (r, w')"
    by (cases "dv_stack_over_aligned_alloc L n al w"; cases "c_malloc L n w")
       (auto simp: f' dv_stack_default_alloc_def)
  assume "f n al u w = Some (Some b, w')"
  then show "unat n \<le> length (blk_data b)"
    using malloc_length stack_over_aligned_length
    by (auto simp: f' dv_stack_default_alloc_def split: if_splits)
next
  fix g :: "'w realloc_fn" and n n' al :: size_t and u :: ptr and w w' :: 'w and b b' :: block
  assume "hk_realloc (dv_stack_default_allocator L) = Some g" and len: "unat n \<le> length (blk_data b)"
  then have g: "g = dv_stack_default_realloc L" by (simp add: dv_stack_default_allocator_def)
  note spec = stack_default_realloc_spec [OF len, of n' al u w]
  show "\<exists>r w'. g b n n' al u w = Some (r, w')" using spec g by blast
  assume "g b n n' al u w = Some (Some b', w')"
  then show "unat n' \<le> length (blk_data b')"
    and "take (min (unat n) (unat n')) (blk_data b') = take (min (unat n) (unat n')) (blk_data b)"
    using spec g by auto
next
  fix h :: "'w free_fn" and n al :: size_t and u :: ptr and w :: 'w and b :: block
  assume "hk_free (dv_stack_default_allocator L) = Some h"
  then show "\<exists>w'. h b n al u w = Some w'"
    by (auto simp: dv_stack_default_allocator_def dv_stack_default_free_def)
qed

lemma stack_default_contract: "allocator_contract (dv_stack_default_allocator L)"
  by (rule stack_default.allocator_contract_axioms)

end

interpretation bump_stack: allocator_contract "dv_stack_default_allocator bump_libc"
  by (rule bump.stack_default.allocator_contract_axioms)

section \<open>Invariant and abstraction\<close>

text \<open>
  \<open>stack_mem\<close> is the memory half: the buffer holds at least \<open>capacity * elem_size\<close> bytes, that
  product fits a \<open>size_t\<close>, \<open>top\<close> is within the capacity, and the hooks meet their contract.
  \<open>stack_policy\<close> is the configuration half: a fixed stack stays at its initial capacity and a
  growable one below its ceiling.
\<close>

definition stack_data :: "'w dv_stack_t \<Rightarrow> byte list" where
  "stack_data s = (case stk_buffer s of None \<Rightarrow> [] | Some b \<Rightarrow> blk_data b)"

definition stack_mem :: "'w dv_stack_t \<Rightarrow> bool" where
  "stack_mem s \<longleftrightarrow>
     stk_elem_size s \<noteq> 0 \<and> stk_top s \<le> stk_capacity s \<and>
     unat (stk_capacity s) * unat (stk_elem_size s) < 2 ^ 64 \<and>
     (stk_buffer s = None) = (stk_capacity s = 0) \<and>
     unat (stk_capacity s) * unat (stk_elem_size s) \<le> length (stack_data s) \<and>
     allocator_contract (stk_allocator s) \<and>
     hk_alloc (stk_allocator s) \<noteq> None \<and> hk_free (stk_allocator s) \<noteq> None"

definition stack_policy :: "'w dv_stack_t \<Rightarrow> bool" where
  "stack_policy s \<longleftrightarrow>
     (if stk_growable s
      then stk_max_capacity s \<noteq> 0 \<longrightarrow>
             stk_capacity s \<le> stk_max_capacity s \<and> stk_initial_capacity s \<le> stk_max_capacity s
      else stk_capacity s = stk_initial_capacity s) \<and>
     unat (stk_initial_capacity s) * unat (stk_elem_size s) < 2 ^ 64 \<and>
     (stk_ptr_mode s \<longrightarrow> stk_elem_size s = sizeof_ptr)"

definition stack_inv :: "'w dv_stack_t \<Rightarrow> bool" where
  "stack_inv s \<longleftrightarrow> stack_mem s \<and> stack_policy s"

definition stack_elems :: "'w dv_stack_t \<Rightarrow> byte list list" where
  "stack_elems s = chunks (unat (stk_elem_size s)) (stack_data s) (unat (stk_top s))"

lemma length_stack_elems [simp]: "length (stack_elems s) = unat (stk_top s)"
  by (simp add: stack_elems_def)

lemma stack_mem_facts:
  assumes "stack_mem s"
  shows "unat (stk_top s) \<le> unat (stk_capacity s)"
    and "0 < unat (stk_elem_size s)"
    and "unat (stk_top s) * unat (stk_elem_size s) < 2 ^ 64"
    and "unat (stk_top s * stk_elem_size s) = unat (stk_top s) * unat (stk_elem_size s)"
    and "unat (stk_capacity s * stk_elem_size s) = unat (stk_capacity s) * unat (stk_elem_size s)"
proof -
  show le: "unat (stk_top s) \<le> unat (stk_capacity s)"
    using assms by (simp add: stack_mem_def word_le_nat_alt)
  show "0 < unat (stk_elem_size s)"
    using assms by (simp add: stack_mem_def unat_gt_0)
  show lt: "unat (stk_top s) * unat (stk_elem_size s) < 2 ^ 64"
    using assms mult_le_mono1 [OF le, of "unat (stk_elem_size s)"] unfolding stack_mem_def by linarith
  show "unat (stk_top s * stk_elem_size s) = unat (stk_top s) * unat (stk_elem_size s)"
    using lt by (rule unat_mult_no_ovf)
  show "unat (stk_capacity s * stk_elem_size s) = unat (stk_capacity s) * unat (stk_elem_size s)"
    using assms unfolding stack_mem_def by (blast intro: unat_mult_no_ovf)
qed

lemma stack_elems_cong:
  assumes "stk_elem_size s' = stk_elem_size s" "stk_top s' = stk_top s"
    and "take (unat (stk_top s) * unat (stk_elem_size s)) (stack_data s') =
         take (unat (stk_top s) * unat (stk_elem_size s)) (stack_data s)"
  shows "stack_elems s' = stack_elems s"
  unfolding stack_elems_def assms(1,2) by (rule chunks_cong_take) (rule assms(3))

section \<open>Changing the capacity\<close>

definition resized :: "'w dv_stack_t \<Rightarrow> size_t \<Rightarrow> 'w dv_stack_t \<Rightarrow> bool" where
  "resized s n s' \<longleftrightarrow>
     s' = s\<lparr>stk_buffer := stk_buffer s', stk_capacity := n\<rparr> \<and> stack_mem s' \<and> stack_elems s' = stack_elems s"

lemma resized_refl: "stack_mem s \<Longrightarrow> resized s (stk_capacity s) s"
  by (simp add: resized_def)

lemma dv_stack_set_capacity_spec:
  assumes mem: "stack_mem s"
  shows "\<exists>status s' w'. dv_stack_set_capacity s n w = Some (status, s', w') \<and>
           (case status of
              DV_STACK_OK \<Rightarrow> resized s n s' \<and> (n = stk_capacity s \<longrightarrow> s' = s \<and> w' = w)
            | DV_STACK_ERR_INVALID \<Rightarrow> s' = s \<and> w' = w \<and> n < stk_top s
            | DV_STACK_ERR_OVERFLOW \<Rightarrow> s' = s \<and> w' = w \<and> 2 ^ 64 \<le> unat n * unat (stk_elem_size s)
            | DV_STACK_ERR_NOMEM \<Rightarrow> s' = s \<and> n \<noteq> 0
            | _ \<Rightarrow> False)"
proof (cases "n = stk_capacity s \<or> n < stk_top s \<or> 2 ^ 64 \<le> unat n * unat (stk_elem_size s)")
  case True
  have "dv_stack_bytes_for (stk_capacity s) (stk_elem_size s) = Inr (stk_capacity s * stk_elem_size s)"
    using mem unfolding stack_mem_def by (blast intro: dv_stack_bytes_for_Inr)
  then show ?thesis using True resized_refl [OF mem]
    by (auto simp: dv_stack_set_capacity_def dv_stack_bytes_for_Inl)
next
  case False
  then have fit: "unat n * unat (stk_elem_size s) < 2 ^ 64" by linarith
  have bytes: "dv_stack_bytes_for (stk_capacity s) (stk_elem_size s) = Inr (stk_capacity s * stk_elem_size s)"
    "dv_stack_bytes_for n (stk_elem_size s) = Inr (n * stk_elem_size s)"
    using mem fit unfolding stack_mem_def by (blast intro: dv_stack_bytes_for_Inr)+
  note [simp] = stack_mem_facts(4,5) [OF mem]
  have n_es [simp]: "unat (n * stk_elem_size s) = unat n * unat (stk_elem_size s)"
    using fit by (rule unat_mult_no_ovf)
  have zero: "(n * stk_elem_size s = 0) = (n = 0)"
    using mem n_es by (metis mult_eq_0_iff mult_zero_left stack_mem_def unat_eq_0)
  show ?thesis
  proof (cases "n = 0")
    case n0: True
    with False mem have top0: "stk_top s = 0" "stk_buffer s \<noteq> None"
      by (auto simp: stack_mem_def word_gt_0)
    then obtain b h where b: "stk_buffer s = Some b" and h: "hk_free (stk_allocator s) = Some h"
      using mem by (auto simp: stack_mem_def)
    have "unat (stk_capacity s * stk_elem_size s) \<le> length (blk_data b)"
      using mem b by (simp add: stack_mem_def stack_data_def)
    then obtain w' where "h b (stk_capacity s * stk_elem_size s) (stk_align s)
        (hk_user_data (stk_allocator s)) w = Some w'"
      using allocator_contract.free_returns [OF _ h] mem unfolding stack_mem_def by blast
    then show ?thesis using False n0 mem bytes b h top0
      by (auto simp: dv_stack_set_capacity_def resized_def stack_mem_def stack_data_def stack_elems_def)
  next
    case n_pos: False
    have contract: "allocator_contract (stk_allocator s)" using mem by (simp add: stack_mem_def)
    have fns: "hk_alloc (stk_allocator s) \<noteq> None" "hk_free (stk_allocator s) \<noteq> None"
      using mem by (simp_all add: stack_mem_def)
    have le: "unat (stk_top s) \<le> unat n" using False by (simp add: word_le_nat_alt [symmetric] not_less)
    obtain r w' where r: "resize_mem (stk_allocator s) (stk_buffer s) (stk_capacity s * stk_elem_size s)
          (n * stk_elem_size s) (stk_top s * stk_elem_size s) (stk_align s) w = Some (r, w')"
      and len: "\<And>m. r = Some m \<Longrightarrow> unat n * unat (stk_elem_size s) \<le> length (blk_data m)"
      and keep: "\<And>m b. r = Some m \<Longrightarrow> stk_buffer s = Some b \<Longrightarrow>
        take (unat (stk_top s) * unat (stk_elem_size s)) (blk_data m) =
        take (unat (stk_top s) * unat (stk_elem_size s)) (blk_data b)"
      using allocator_contract.resize_mem_ok [OF contract fns,
          of "stk_buffer s" "stk_capacity s * stk_elem_size s" "stk_top s * stk_elem_size s"
             "n * stk_elem_size s" "stk_align s" w]
        mem le stack_mem_facts(1) [OF mem]
      by (auto simp: stack_mem_def stack_data_def)
    have "resized s n (s\<lparr>stk_buffer := Some m, stk_capacity := n\<rparr>)" if m: "r = Some m" for m
    proof -
      have "stack_elems (s\<lparr>stk_buffer := Some m, stk_capacity := n\<rparr>) = stack_elems s"
      proof (cases "stk_buffer s")
        case None
        then have "stk_top s = 0" using mem by (auto simp: stack_mem_def)
        then show ?thesis by (simp add: stack_elems_def)
      next
        case (Some b)
        then show ?thesis using keep [OF m Some]
          by (intro stack_elems_cong) (simp_all add: stack_data_def)
      qed
      then show ?thesis using mem False fit n_pos len [OF m]
        by (simp add: resized_def stack_mem_def stack_data_def not_less)
    qed
    then show ?thesis using False r bytes n_pos zero
      by (cases r) (auto simp: dv_stack_set_capacity_def)
  qed
qed


section \<open>Loading and storing slots\<close>

lemma stack_load_slot:
  assumes mem: "stack_mem s" and i: "i < stk_top s"
  shows "stack_load s (unat (i * stk_elem_size s)) (unat (stk_elem_size s)) = Some (stack_elems s ! unat i)"
proof -
  have it: "unat i < unat (stk_top s)" using i by (simp add: word_less_nat_alt)
  then have le: "unat i \<le> unat (stk_top s)" by simp
  have "unat i * unat (stk_elem_size s) < 2 ^ 64"
    using mult_le_mono1 [OF le, of "unat (stk_elem_size s)"] stack_mem_facts(3) [OF mem] by linarith
  then have off: "unat (i * stk_elem_size s) = unat i * unat (stk_elem_size s)"
    by (rule unat_mult_no_ovf)
  have "stk_buffer s \<noteq> None" using mem it by (auto simp: stack_mem_def)
  then obtain b where b: "stk_buffer s = Some b" by blast
  have "unat i < unat (stk_capacity s)" using it stack_mem_facts(1) [OF mem] by simp
  moreover have "unat (stk_capacity s) * unat (stk_elem_size s) \<le> length (blk_data b)"
    using mem b by (simp add: stack_mem_def stack_data_def)
  ultimately have "unat i * unat (stk_elem_size s) + unat (stk_elem_size s) \<le> length (blk_data b)"
    by (rule slot_fits)
  then show ?thesis using it
    by (simp add: stack_load_def b off mem_read_slot stack_elems_def stack_data_def)
qed

lemma stack_load_chunk_length:
  assumes "stack_mem s" "i < unat (stk_top s)"
  shows "length (stack_elems s ! i) = unat (stk_elem_size s)"
proof -
  have "i < unat (stk_capacity s)" using assms(2) stack_mem_facts(1) [OF assms(1)] by simp
  moreover have "unat (stk_capacity s) * unat (stk_elem_size s) \<le> length (stack_data s)"
    using assms(1) by (simp add: stack_mem_def)
  ultimately have "i * unat (stk_elem_size s) + unat (stk_elem_size s) \<le> length (stack_data s)"
    by (rule slot_fits)
  then show ?thesis using assms(2) by (simp add: stack_elems_def length_chunk)
qed

text \<open>Storing \<open>m\<close> elements behind the top appends them.\<close>

lemma stack_store_run:
  assumes mem: "stack_mem s" and room: "unat (stk_top s) + unat m \<le> unat (stk_capacity s)"
    and m: "m \<noteq> 0" and bs: "length bs = unat m * unat (stk_elem_size s)"
  shows "\<exists>s'. stack_store s (unat (stk_top s * stk_elem_size s)) bs = Some s' \<and>
           s' = s\<lparr>stk_buffer := stk_buffer s'\<rparr> \<and>
           stack_mem (s'\<lparr>stk_top := stk_top s + m\<rparr>) \<and>
           stack_elems (s'\<lparr>stk_top := stk_top s + m\<rparr>) =
             stack_elems s @ chunks (unat (stk_elem_size s)) bs (unat m)"
proof -
  let ?es = "unat (stk_elem_size s)" and ?t = "unat (stk_top s)"
  have "stk_capacity s \<noteq> 0" using room m by (auto simp: unat_eq_0)
  then obtain b where b: "stk_buffer s = Some b" using mem by (auto simp: stack_mem_def)
  have cap: "unat (stk_capacity s) * ?es \<le> length (blk_data b)"
    using mem b by (simp add: stack_mem_def stack_data_def)
  have fit: "?t * ?es + unat m * ?es \<le> length (blk_data b)"
    using cap mult_le_mono1 [OF room, of ?es] by (simp add: add_mult_distrib)
  have tm: "unat (stk_top s + m) = ?t + unat m"
    using room unat_lt_64 [of "stk_capacity s"] by (intro unat_add_no_ovf) simp
  let ?d = "take (?t * ?es) (blk_data b) @ bs @ drop (?t * ?es + length bs) (blk_data b)"
  let ?s = "s\<lparr>stk_buffer := Some (b\<lparr>blk_data := ?d\<rparr>)\<rparr>"
  have store: "stack_store s (unat (stk_top s * stk_elem_size s)) bs = Some ?s"
    using fit bs by (simp add: stack_store_def b stack_mem_facts(4) [OF mem] mem_write_def)
  have len: "length ?d = length (blk_data b)" using fit bs by simp
  have "stack_mem (?s\<lparr>stk_top := stk_top s + m\<rparr>)"
    using mem b len room tm by (simp add: stack_mem_def stack_data_def word_le_nat_alt)
  moreover have "stack_elems (?s\<lparr>stk_top := stk_top s + m\<rparr>) =
      stack_elems s @ chunks ?es bs (unat m)"
    using chunks_write [OF bs fit] by (simp add: stack_elems_def stack_data_def b tm)
  ultimately show ?thesis using store by auto
qed

section \<open>Growth\<close>

text \<open>Only the buffer, the top and the capacity differ.\<close>

definition same_config :: "'w dv_stack_t \<Rightarrow> 'w dv_stack_t \<Rightarrow> bool" where
  "same_config s s' \<longleftrightarrow>
     stk_elem_size s' = stk_elem_size s \<and> stk_align s' = stk_align s \<and>
     stk_initial_capacity s' = stk_initial_capacity s \<and> stk_max_capacity s' = stk_max_capacity s \<and>
     stk_allocator s' = stk_allocator s \<and> stk_growable s' = stk_growable s \<and>
     stk_ptr_mode s' = stk_ptr_mode s"

lemma same_configD:
  assumes "same_config s s'"
  shows "stk_elem_size s' = stk_elem_size s" "stk_align s' = stk_align s"
    "stk_initial_capacity s' = stk_initial_capacity s" "stk_max_capacity s' = stk_max_capacity s"
    "stk_allocator s' = stk_allocator s" "stk_growable s' = stk_growable s"
    "stk_ptr_mode s' = stk_ptr_mode s"
  using assms by (simp_all add: same_config_def)

lemma same_config_refl [simp]: "same_config s s"
  by (simp add: same_config_def)

lemma resizedD:
  assumes "resized s n s'"
  shows "same_config s s'" "stk_top s' = stk_top s" "stk_capacity s' = n" "stack_mem s'"
    "stack_elems s' = stack_elems s"
proof -
  have eq: "s' = s\<lparr>stk_buffer := stk_buffer s', stk_capacity := n\<rparr>"
    using assms by (simp add: resized_def)
  show top: "stk_top s' = stk_top s" by (subst eq) simp
  show cap: "stk_capacity s' = n" by (subst eq) simp
  show "same_config s s'" unfolding same_config_def by (intro conjI) (subst eq, simp)+
  show "stack_mem s'" "stack_elems s' = stack_elems s" using assms by (simp_all add: resized_def)
qed

lemma stack_policy_resized:
  assumes "stack_policy s" "resized s n s'"
    and "stk_growable s \<Longrightarrow> stk_max_capacity s \<noteq> 0 \<Longrightarrow> n \<le> stk_max_capacity s"
    and "\<not> stk_growable s \<Longrightarrow> n = stk_capacity s"
  shows "stack_policy s'"
  using assms(1,3,4) same_configD [OF resizedD(1) [OF assms(2)]] resizedD(3) [OF assms(2)]
  by (auto simp: stack_policy_def)

lemma clamp_le_max:
  "stk_max_capacity s \<noteq> 0 \<Longrightarrow> dv_stack_clamp_capacity s n \<le> stk_max_capacity s"
  by (auto simp: dv_stack_clamp_capacity_def)

text \<open>
  What a request for a capacity within the policy does to a stack: the elements and the
  configuration stay, a failure changes nothing at all.
\<close>

definition growth_result :: "'w dv_stack_t \<Rightarrow> dv_stack_status_t \<Rightarrow> 'w dv_stack_t \<Rightarrow> bool" where
  "growth_result s status s' \<longleftrightarrow>
     stack_inv s' \<and> same_config s s' \<and> stk_top s' = stk_top s \<and> stack_elems s' = stack_elems s \<and>
     (status \<noteq> DV_STACK_OK \<longrightarrow> s' = s) \<and>
     status \<in> {DV_STACK_OK, DV_STACK_ERR_FULL, DV_STACK_ERR_NOMEM, DV_STACK_ERR_OVERFLOW}"

lemma growth_result_refl:
  "stack_inv s \<Longrightarrow> status \<in> {DV_STACK_OK, DV_STACK_ERR_FULL} \<Longrightarrow> growth_result s status s"
  by (auto simp: growth_result_def)

lemma set_capacity_growth:
  assumes inv: "stack_inv s" and ge: "stk_top s \<le> n" and g: "stk_growable s"
    and max: "stk_max_capacity s \<noteq> 0 \<Longrightarrow> n \<le> stk_max_capacity s"
  shows "\<exists>status s' w'. dv_stack_set_capacity s n w = Some (status, s', w') \<and>
           growth_result s status s' \<and> status \<noteq> DV_STACK_ERR_FULL \<and>
           (status = DV_STACK_OK \<longrightarrow> stk_capacity s' = n)"
proof -
  have mem: "stack_mem s" using inv by (simp add: stack_inv_def)
  obtain status s' w' where sc: "dv_stack_set_capacity s n w = Some (status, s', w')"
    and c: "case status of
              DV_STACK_OK \<Rightarrow> resized s n s' \<and> (n = stk_capacity s \<longrightarrow> s' = s \<and> w' = w)
            | DV_STACK_ERR_INVALID \<Rightarrow> s' = s \<and> w' = w \<and> n < stk_top s
            | DV_STACK_ERR_OVERFLOW \<Rightarrow> s' = s \<and> w' = w \<and> 2 ^ 64 \<le> unat n * unat (stk_elem_size s)
            | DV_STACK_ERR_NOMEM \<Rightarrow> s' = s \<and> n \<noteq> 0
            | _ \<Rightarrow> False"
    using dv_stack_set_capacity_spec [OF mem] by blast
  show ?thesis
  proof (cases "status = DV_STACK_OK")
    case True
    then have r: "resized s n s'" using c by simp
    have "stack_policy s'"
      by (rule stack_policy_resized [OF _ r]) (use inv g max in \<open>auto simp: stack_inv_def\<close>)
    then show ?thesis using sc True resizedD [OF r] by (auto simp: growth_result_def stack_inv_def)
  next
    case False
    then have "s' = s" "status \<in> {DV_STACK_ERR_NOMEM, DV_STACK_ERR_OVERFLOW}"
      using c ge by (cases status; auto)+
    then show ?thesis using sc inv by (auto simp: growth_result_def)
  qed
qed

lemma dv_stack_grow_for_push_spec:
  assumes inv: "stack_inv s"
  shows "\<exists>status s' w'. dv_stack_grow_for_push (Some s) w = Some (status, Some s', w') \<and>
           growth_result s status s' \<and>
           (status = DV_STACK_OK \<longrightarrow> stk_top s' < stk_capacity s') \<and>
           (status = DV_STACK_ERR_FULL \<longrightarrow> stk_top s = stk_capacity s \<and> w' = w) \<and>
           (stk_top s < stk_capacity s \<or> \<not> stk_growable s \<longrightarrow> status \<in> {DV_STACK_OK, DV_STACK_ERR_FULL} \<and> s' = s \<and> w' = w)"
proof -
  have le: "stk_top s \<le> stk_capacity s" using inv by (simp add: stack_inv_def stack_mem_def)
  let ?n = "dv_stack_clamp_capacity s (dv_stack_next_capacity (stk_capacity s))"
  consider (room) "stk_top s < stk_capacity s"
    | (stuck) "stk_top s = stk_capacity s" "\<not> stk_growable s \<or> ?n \<le> stk_capacity s"
    | (grow) "stk_top s = stk_capacity s" "stk_growable s" "stk_capacity s < ?n"
    using le by fastforce
  then show ?thesis
  proof cases
    case grow
    obtain status s' w' where "dv_stack_set_capacity s ?n w = Some (status, s', w')"
      "growth_result s status s'" "status \<noteq> DV_STACK_ERR_FULL"
      "status = DV_STACK_OK \<longrightarrow> stk_capacity s' = ?n"
      using set_capacity_growth [OF inv _ grow(2) clamp_le_max] grow by (metis order_less_imp_le)
    then show ?thesis using grow by (auto simp: Let_def growth_result_def)
  qed (use inv growth_result_refl [OF inv] in \<open>auto simp: Let_def\<close>)
qed


section \<open>Push, pop and peek\<close>

lemma stack_inv_top:
  assumes "stack_inv s" "s' = s\<lparr>stk_buffer := b, stk_top := t\<rparr>" "stack_mem s'"
  shows "stack_inv s'"
  using assms by (simp add: stack_inv_def stack_policy_def)

lemma push_store:
  assumes inv: "stack_inv s" and room: "stk_top s < stk_capacity s"
    and bs: "length bs = unat (stk_elem_size s)"
  shows "\<exists>s'. stack_store s (unat (stk_top s * stk_elem_size s)) bs = Some s' \<and>
           stk_top s' = stk_top s \<and> stk_capacity s' = stk_capacity s \<and>
           stack_inv (s'\<lparr>stk_top := stk_top s + 1\<rparr>) \<and> same_config s (s'\<lparr>stk_top := stk_top s + 1\<rparr>) \<and>
           stack_elems (s'\<lparr>stk_top := stk_top s + 1\<rparr>) = stack_elems s @ [bs]"
proof -
  have mem: "stack_mem s" using inv by (simp add: stack_inv_def)
  have "unat (stk_top s) + unat (1::size_t) \<le> unat (stk_capacity s)"
    using room by (simp add: word_less_nat_alt)
  then obtain s' where s': "stack_store s (unat (stk_top s * stk_elem_size s)) bs = Some s'"
    and eq: "s' = s\<lparr>stk_buffer := stk_buffer s'\<rparr>"
    and mem': "stack_mem (s'\<lparr>stk_top := stk_top s + 1\<rparr>)"
    and el: "stack_elems (s'\<lparr>stk_top := stk_top s + 1\<rparr>) =
               stack_elems s @ chunks (unat (stk_elem_size s)) bs (unat (1::size_t))"
    using stack_store_run [OF mem, of 1 bs] bs by auto
  have top: "stk_top s' = stk_top s" and cap: "stk_capacity s' = stk_capacity s"
    by (subst eq, simp)+
  have eq': "s'\<lparr>stk_top := stk_top s + 1\<rparr> =
      s\<lparr>stk_buffer := stk_buffer s', stk_top := stk_top s + 1\<rparr>" by (subst eq) simp
  have "same_config s (s'\<lparr>stk_top := stk_top s + 1\<rparr>)"
    by (simp add: eq' same_config_def)
  then show ?thesis using s' top cap stack_inv_top [OF inv eq' mem'] el chunks_one [OF bs] by auto
qed

lemma push_prepare:
  assumes inv: "stack_inv s"
  shows "\<exists>status s' w'.
           (if stk_top s = stk_capacity s then dv_stack_grow_for_push (Some s) w
            else Some (DV_STACK_OK, Some s, w)) = Some (status, Some s', w') \<and>
           growth_result s status s' \<and> (status = DV_STACK_OK \<longrightarrow> stk_top s' < stk_capacity s') \<and>
           (stk_top s < stk_capacity s \<longrightarrow> status = DV_STACK_OK \<and> s' = s \<and> w' = w) \<and>
           (\<not> stk_growable s \<and> stk_top s = stk_capacity s \<longrightarrow> status = DV_STACK_ERR_FULL \<and> w' = w)"
proof (cases "stk_top s = stk_capacity s")
  case True
  then show ?thesis using dv_stack_grow_for_push_spec [OF inv, of w] by auto
next
  case False
  then have "stk_top s < stk_capacity s"
    using inv by (simp add: stack_inv_def stack_mem_def order_less_le)
  then show ?thesis using growth_result_refl [OF inv] False by auto
qed

definition push_result ::
  "'w dv_stack_t \<Rightarrow> byte list \<Rightarrow> 'w \<Rightarrow> dv_stack_status_t \<Rightarrow> 'w dv_stack_t \<Rightarrow> 'w \<Rightarrow> bool" where
  "push_result s bs w status s' w' \<longleftrightarrow>
     stack_inv s' \<and> same_config s s' \<and>
     (if status = DV_STACK_OK then stack_elems s' = stack_elems s @ [bs] else s' = s) \<and>
     status \<in> {DV_STACK_OK, DV_STACK_ERR_FULL, DV_STACK_ERR_NOMEM, DV_STACK_ERR_OVERFLOW} \<and>
     (stk_top s < stk_capacity s \<longrightarrow>
        status = DV_STACK_OK \<and> w' = w \<and> stk_capacity s' = stk_capacity s) \<and>
     (\<not> stk_growable s \<and> stk_top s = stk_capacity s \<longrightarrow> status = DV_STACK_ERR_FULL \<and> w' = w)"

lemma same_config_trans: "same_config s s' \<Longrightarrow> same_config s' s'' \<Longrightarrow> same_config s s''"
  by (simp add: same_config_def)

lemma dv_stack_push_spec:
  assumes inv: "stack_inv s" and len: "unat (stk_elem_size s) \<le> length elem"
  shows "\<exists>status s' w'. dv_stack_push (Some s) (Some elem) w = Some (status, Some s', w') \<and>
           push_result s (take (unat (stk_elem_size s)) elem) w status s' w'"
proof -
  obtain status s1 w1 where
    prep: "(if stk_top s = stk_capacity s then dv_stack_grow_for_push (Some s) w
            else Some (DV_STACK_OK, Some s, w)) = Some (status, Some s1, w1)"
    and g: "growth_result s status s1"
    and room: "status = DV_STACK_OK \<longrightarrow> stk_top s1 < stk_capacity s1"
    and fast: "stk_top s < stk_capacity s \<longrightarrow> status = DV_STACK_OK \<and> s1 = s \<and> w1 = w"
    and full: "\<not> stk_growable s \<and> stk_top s = stk_capacity s \<longrightarrow> status = DV_STACK_ERR_FULL \<and> w1 = w"
    using push_prepare [OF inv] by blast
  show ?thesis
  proof (cases "status = DV_STACK_OK")
    case True
    have es: "stk_elem_size s1 = stk_elem_size s"
      using g by (simp add: growth_result_def same_config_def)
    let ?bs = "take (unat (stk_elem_size s)) elem"
    have inv1: "stack_inv s1" using g by (simp add: growth_result_def)
    obtain s2 where "stack_store s1 (unat (stk_top s1 * stk_elem_size s1)) ?bs = Some s2"
      "stk_top s2 = stk_top s1" "stk_capacity s2 = stk_capacity s1"
      "stack_inv (s2\<lparr>stk_top := stk_top s1 + 1\<rparr>)" "same_config s1 (s2\<lparr>stk_top := stk_top s1 + 1\<rparr>)"
      "stack_elems (s2\<lparr>stk_top := stk_top s1 + 1\<rparr>) = stack_elems s1 @ [?bs]"
      using push_store [OF inv1, of ?bs] room True es len by auto
    then show ?thesis
      using prep True g len es fast full
      by (auto simp: mem_read_def push_result_def growth_result_def intro: same_config_trans)
  next
    case False
    then show ?thesis using prep g fast full inv
      by (auto simp: push_result_def growth_result_def)
  qed
qed


lemma unat_top_pred: "stk_top s \<noteq> 0 \<Longrightarrow> unat (stk_top s - 1) = unat (stk_top s) - 1"
  by (rule unat_minus_one)

lemma last_stack_elems: "stk_top s \<noteq> 0 \<Longrightarrow> last (stack_elems s) = stack_elems s ! unat (stk_top s - 1)"
  by (subst last_conv_nth) (simp_all add: unat_top_pred unat_eq_0 length_0_conv [symmetric] del: length_0_conv)

lemma top_pred_less: "stk_top s \<noteq> 0 \<Longrightarrow> stk_top s - 1 < stk_top s"
  using unat_top_pred [of s] by (simp add: word_less_nat_alt unat_gt_0)

lemma stack_lower_top:
  assumes inv: "stack_inv s" and t: "t \<le> stk_top s"
  shows "stack_inv (s\<lparr>stk_top := t\<rparr>)" "same_config s (s\<lparr>stk_top := t\<rparr>)"
    "stack_elems (s\<lparr>stk_top := t\<rparr>) = take (unat t) (stack_elems s)"
proof -
  show "stack_inv (s\<lparr>stk_top := t\<rparr>)"
    using assms by (auto simp: stack_inv_def stack_mem_def stack_policy_def stack_data_def)
  show "same_config s (s\<lparr>stk_top := t\<rparr>)" by (simp add: same_config_def)
  have "unat t \<le> unat (stk_top s)" using t by (simp add: word_le_nat_alt)
  then show "stack_elems (s\<lparr>stk_top := t\<rparr>) = take (unat t) (stack_elems s)"
    by (simp add: stack_elems_def stack_data_def take_chunks)
qed

lemma stack_load_top:
  assumes "stack_inv s" "stk_top s \<noteq> 0"
  shows "stack_load s (unat ((stk_top s - 1) * stk_elem_size s)) (unat (stk_elem_size s)) =
           Some (last (stack_elems s))"
  using assms stack_load_slot [of s "stk_top s - 1"] top_pred_less [of s] last_stack_elems [of s]
  by (simp add: stack_inv_def)

lemma stack_load_frame: "stack_load (s\<lparr>stk_top := t\<rparr>) off n = stack_load s off n"
  by (simp add: stack_load_def)

lemma length_last_elem:
  assumes "stack_inv s" "stk_top s \<noteq> 0"
  shows "length (last (stack_elems s)) = unat (stk_elem_size s)"
  using assms stack_load_chunk_length [of s "unat (stk_top s - 1)"] last_stack_elems [of s]
    top_pred_less [of s] by (simp add: stack_inv_def word_less_nat_alt)

lemma butlast_take_top: "butlast (stack_elems s) = take (unat (stk_top s) - 1) (stack_elems s)"
  by (simp add: butlast_conv_take)

lemma dv_stack_pop_spec:
  assumes inv: "stack_inv s" and out: "out_fits (unat (stk_elem_size s)) out" and ne: "stk_top s \<noteq> 0"
  shows "\<exists>s'. dv_stack_pop (Some s) out = Some (DV_STACK_OK, Some s', written (last (stack_elems s)) out) \<and>
           stack_inv s' \<and> same_config s s' \<and> stk_capacity s' = stk_capacity s \<and>
           stack_elems s' = butlast (stack_elems s)"
proof -
  let ?s = "s\<lparr>stk_top := stk_top s - 1\<rparr>"
  have t: "stk_top s - 1 \<le> stk_top s" using top_pred_less [OF ne] by simp
  have "dv_stack_pop (Some s) out = Some (DV_STACK_OK, Some ?s, written (last (stack_elems s)) out)"
    using ne stack_load_top [OF inv ne] copy_out_written [of "last (stack_elems s)" out] out
    by (cases out) (simp_all add: stack_load_frame length_last_elem [OF inv ne] written_def)
  then show ?thesis
    using stack_lower_top [OF inv t] by (simp add: butlast_take_top unat_top_pred [OF ne])
qed

lemma dv_stack_peek_spec:
  assumes inv: "stack_inv s" and out: "unat (stk_elem_size s) \<le> length b" and ne: "stk_top s \<noteq> 0"
  shows "dv_stack_peek (Some s) (Some b) = Some (DV_STACK_OK, written (last (stack_elems s)) (Some b))"
  using ne stack_load_top [OF inv ne] out
  by (simp add: copy_out_ok length_last_elem [OF inv ne] written_def)

lemma dv_stack_at_spec:
  assumes inv: "stack_inv s" and d: "depth < stk_top s"
  shows "\<exists>off. dv_stack_at (Some s) depth = Some off \<and>
           stack_load s (unat off) (unat (stk_elem_size s)) = Some (rev (stack_elems s) ! unat depth)"
proof -
  have dn: "unat depth < unat (stk_top s)" using d by (simp add: word_less_nat_alt)
  then have ne: "stk_top s \<noteq> 0" by auto
  have le: "depth \<le> stk_top s - 1" using dn unat_top_pred [OF ne] by (simp add: word_le_nat_alt)
  have u: "unat (stk_top s - 1 - depth) = unat (stk_top s) - 1 - unat depth"
    by (simp add: unat_sub [OF le] unat_top_pred [OF ne])
  then have "stk_top s - 1 - depth < stk_top s" using dn by (simp add: word_less_nat_alt)
  moreover have "rev (stack_elems s) ! unat depth = stack_elems s ! unat (stk_top s - 1 - depth)"
    using dn by (simp add: rev_nth u)
  ultimately show ?thesis
    using stack_load_slot [of s "stk_top s - 1 - depth"] inv d by (simp add: stack_inv_def)
qed

section \<open>Pointer specialization\<close>

lemma dv_stack_push_ptr_spec:
  assumes inv: "stack_inv s" and pm: "stk_ptr_mode s"
  shows "\<exists>status s' w'. dv_stack_push_ptr (Some s) v w = Some (status, Some s', w') \<and>
           push_result s (le_bytes 8 v) w status s' w'"
proof -
  obtain status s1 w1 where
    prep: "(if stk_top s = stk_capacity s then dv_stack_grow_for_push (Some s) w
            else Some (DV_STACK_OK, Some s, w)) = Some (status, Some s1, w1)"
    and g: "growth_result s status s1"
    and room: "status = DV_STACK_OK \<longrightarrow> stk_top s1 < stk_capacity s1"
    and fast: "stk_top s < stk_capacity s \<longrightarrow> status = DV_STACK_OK \<and> s1 = s \<and> w1 = w"
    and full: "\<not> stk_growable s \<and> stk_top s = stk_capacity s \<longrightarrow> status = DV_STACK_ERR_FULL \<and> w1 = w"
    using push_prepare [OF inv] by blast
  show ?thesis
  proof (cases "status = DV_STACK_OK")
    case True
    have inv1: "stack_inv s1" and pm1: "stk_ptr_mode s1"
      using g pm by (simp_all add: growth_result_def same_config_def)
    then have es: "unat (stk_elem_size s1) = 8"
      by (simp add: stack_inv_def stack_policy_def layout_simps)
    then have off: "unat (stk_top s1 * stk_elem_size s1) = unat (stk_top s1) * 8"
      using stack_mem_facts(4) [of s1] inv1 by (simp add: stack_inv_def)
    obtain s2 where "stack_store s1 (unat (stk_top s1) * 8) (le_bytes 8 v) = Some s2"
      "stk_top s2 = stk_top s1" "stk_capacity s2 = stk_capacity s1"
      "stack_inv (s2\<lparr>stk_top := stk_top s1 + 1\<rparr>)" "same_config s1 (s2\<lparr>stk_top := stk_top s1 + 1\<rparr>)"
      "stack_elems (s2\<lparr>stk_top := stk_top s1 + 1\<rparr>) = stack_elems s1 @ [le_bytes 8 v]"
      using push_store [OF inv1, of "le_bytes 8 v"] room True es unfolding off by auto
    then show ?thesis
      using prep True g pm fast full
      by (auto simp: push_result_def growth_result_def layout_simps intro: same_config_trans)
  next
    case False
    then show ?thesis using prep g fast full inv pm
      by (auto simp: push_result_def growth_result_def)
  qed
qed

lemma dv_stack_pop_ptr_spec:
  assumes inv: "stack_inv s" and pm: "stk_ptr_mode s" and ne: "stk_top s \<noteq> 0"
  shows "\<exists>s'. dv_stack_pop_ptr (Some s) (Some out) =
             Some (DV_STACK_OK, Some s', Some (le_load (last (stack_elems s)))) \<and>
           stack_inv s' \<and> same_config s s' \<and> stack_elems s' = butlast (stack_elems s)"
proof -
  have es: "unat (stk_elem_size s) = 8"
    using inv pm by (simp add: stack_inv_def stack_policy_def layout_simps)
  have t: "stk_top s - 1 \<le> stk_top s" using top_pred_less [OF ne] by simp
  have "unat (stk_top s - 1) * 8 < 2 ^ 64"
    using stack_mem_facts(3) [of s] inv unat_top_pred [OF ne] es by (simp add: stack_inv_def)
  then have off: "unat ((stk_top s - 1) * stk_elem_size s) = unat (stk_top s - 1) * 8"
    using unat_mult_no_ovf [of "stk_top s - 1" "stk_elem_size s"] es by simp
  show ?thesis
    using ne pm stack_load_top [OF inv ne] stack_lower_top [OF inv t] unfolding off es
    by (simp add: stack_load_frame butlast_take_top unat_top_pred [OF ne] layout_simps)
qed


section \<open>Bulk operations\<close>

lemma dv_stack_grow_for_bulk_spec:
  assumes inv: "stack_inv s" and g: "stk_growable s" and need: "stk_top s \<le> needed"
  shows "\<exists>s' w'. dv_stack_grow_for_bulk s needed w = Some (s', w') \<and>
           growth_result s DV_STACK_OK s' \<and> stk_capacity s \<le> stk_capacity s'"
proof -
  let ?curve = "dv_stack_next_capacity (stk_capacity s)"
  let ?target = "dv_stack_clamp_capacity s (if needed > ?curve then needed else ?curve)"
  let ?exact = "dv_stack_clamp_capacity s needed"
  have le: "stk_top s \<le> stk_capacity s" using inv by (simp add: stack_inv_def stack_mem_def)
  have set: "\<exists>status s' w'. dv_stack_set_capacity s n w = Some (status, s', w') \<and>
      growth_result s status s' \<and> (status = DV_STACK_OK \<longrightarrow> stk_capacity s' = n)"
    if "stk_capacity s < n" "stk_max_capacity s \<noteq> 0 \<Longrightarrow> n \<le> stk_max_capacity s" for n w
    using set_capacity_growth [OF inv _ g that(2), of w] that(1) le by (meson order.trans order_less_imp_le)
  have exact: "\<exists>s' w'.
      (if ?exact > stk_capacity s \<and> ?exact < ?target
       then do { (_, s2, w2) \<leftarrow> dv_stack_set_capacity s ?exact w; Some (s2, w2) }
       else Some (s, w)) = Some (s', w') \<and>
      growth_result s DV_STACK_OK s' \<and> stk_capacity s \<le> stk_capacity s'" for w
  proof (cases "stk_capacity s < ?exact \<and> ?exact < ?target")
    case True
    obtain status s' w' where sc: "dv_stack_set_capacity s ?exact w = Some (status, s', w')"
      "growth_result s status s'" "status = DV_STACK_OK \<longrightarrow> stk_capacity s' = ?exact"
      using set [of ?exact w] True clamp_le_max by blast
    then show ?thesis using True
      by (cases "status = DV_STACK_OK") (auto simp: growth_result_def)
  next
    case False
    then show ?thesis using growth_result_refl [OF inv] by auto
  qed
  show ?thesis
  proof (cases "stk_capacity s < ?target")
    case True
    obtain status s' w' where sc: "dv_stack_set_capacity s ?target w = Some (status, s', w')"
      "growth_result s status s'" "status = DV_STACK_OK \<longrightarrow> stk_capacity s' = ?target"
      using set [of ?target w] True clamp_le_max by blast
    show ?thesis
    proof (cases "status = DV_STACK_OK")
      case ok: True
      then show ?thesis using sc True by (simp add: dv_stack_grow_for_bulk_def Let_def)
    next
      case False
      then have "s' = s" using sc by (simp add: growth_result_def)
      then show ?thesis using sc True False exact [of w'] by (simp add: dv_stack_grow_for_bulk_def Let_def)
    qed
  next
    case False
    then show ?thesis using exact [of w] by (simp add: dv_stack_grow_for_bulk_def Let_def)
  qed
qed

lemma bulk_prepare:
  assumes inv: "stack_inv s"
  shows "\<exists>s1 w1. (if stk_capacity s - stk_top s < cnt \<and> stk_growable s \<and> cnt \<le> SIZE_MAX - stk_top s
    then dv_stack_grow_for_bulk s (stk_top s + cnt) w else Some (s, w)) = Some (s1, w1) \<and>
    growth_result s DV_STACK_OK s1 \<and> (cnt \<le> stk_capacity s - stk_top s \<longrightarrow> s1 = s \<and> w1 = w)"
proof (cases "stk_capacity s - stk_top s < cnt \<and> stk_growable s \<and> cnt \<le> SIZE_MAX - stk_top s")
  case True
  have t: "stk_top s \<le> SIZE_MAX"
    using unat_le_SIZE_MAX [of "stk_top s"] by (simp only: word_le_nat_alt unat_SIZE_MAX)
  have "unat cnt \<le> 2 ^ 64 - 1 - unat (stk_top s)"
    using True unat_sub [OF t] by (simp only: word_le_nat_alt unat_SIZE_MAX)
  then have "unat (stk_top s) + unat cnt < 2 ^ 64" using unat_lt_64 [of "stk_top s"] by linarith
  then have "stk_top s \<le> stk_top s + cnt" by (simp add: word_le_nat_alt unat_add_no_ovf)
  then show ?thesis using True dv_stack_grow_for_bulk_spec [OF inv, of "stk_top s + cnt" w] by auto
next
  case False
  then show ?thesis using growth_result_refl [OF inv] by auto
qed

text \<open>A bulk push appends the first \<open>n\<close> elements of the array, all of them when there is room.\<close>

lemma dv_stack_push_bulk_spec:
  assumes inv: "stack_inv s" and len: "unat cnt * unat (stk_elem_size s) \<le> length elems"
  shows "\<exists>n s' w'. dv_stack_push_bulk (Some s) (Some elems) cnt w = Some (n, Some s', w') \<and>
           n \<le> cnt \<and> stack_inv s' \<and> same_config s s' \<and>
           stack_elems s' = stack_elems s @ take (unat n) (chunks (unat (stk_elem_size s)) elems (unat cnt)) \<and>
           (n < cnt \<longrightarrow> stk_top s' = stk_capacity s') \<and>
           (cnt \<le> stk_capacity s - stk_top s \<longrightarrow> n = cnt \<and> w' = w)"
proof (cases "cnt = 0")
  case True
  then show ?thesis using inv by simp
next
  case False
  obtain s1 w1 where
    grow: "(if stk_capacity s - stk_top s < cnt \<and> stk_growable s \<and> cnt \<le> SIZE_MAX - stk_top s
      then dv_stack_grow_for_bulk s (stk_top s + cnt) w else Some (s, w)) = Some (s1, w1)"
    and g: "growth_result s DV_STACK_OK s1"
    and stay: "cnt \<le> stk_capacity s - stk_top s \<longrightarrow> s1 = s \<and> w1 = w"
    using bulk_prepare [OF inv] by blast
  let ?room = "stk_capacity s1 - stk_top s1"
  let ?n = "if cnt < ?room then cnt else ?room"
  have inv1: "stack_inv s1" and mem1: "stack_mem s1" and cfg: "same_config s s1"
    and el: "stack_elems s1 = stack_elems s" and es: "stk_elem_size s1 = stk_elem_size s"
    using g by (simp_all add: growth_result_def same_config_def stack_inv_def)
  have "stk_top s1 \<le> stk_capacity s1" using mem1 by (simp add: stack_mem_def)
  then have room: "unat ?room = unat (stk_capacity s1) - unat (stk_top s1)" by (rule unat_sub)
  have n_le: "unat ?n \<le> unat cnt" "unat ?n \<le> unat ?room" by (auto simp: word_less_nat_alt)
  show ?thesis
  proof (cases "?n = 0")
    case True
    then have full: "?room = 0" using False by (auto split: if_splits)
    then have "stk_capacity s1 = stk_top s1" by simp
    then show ?thesis using False grow g True full stay el cfg inv1 by (auto simp: Let_def)
  next
    case n0: False
    let ?bs = "take (unat ?n * unat (stk_elem_size s1)) elems"
    have fits: "unat ?n * unat (stk_elem_size s1) \<le> length elems"
      using len mult_le_mono1 [OF n_le(1), of "unat (stk_elem_size s)"] unfolding es by linarith
    have sum: "unat (stk_top s1) + unat ?n \<le> unat (stk_capacity s1)"
      using n_le(2) room stack_mem_facts(1) [OF mem1] by linarith
    have nes: "unat (?n * stk_elem_size s1) = unat ?n * unat (stk_elem_size s1)"
    proof (rule unat_mult_no_ovf)
      have "unat ?n \<le> unat (stk_capacity s1)" using sum by linarith
      then have "unat ?n * unat (stk_elem_size s1) \<le> unat (stk_capacity s1) * unat (stk_elem_size s1)"
        by (rule mult_le_mono1)
      then show "unat ?n * unat (stk_elem_size s1) < 2 ^ 64"
        using mem1 unfolding stack_mem_def by linarith
    qed
    obtain s2 where st: "stack_store s1 (unat (stk_top s1 * stk_elem_size s1)) ?bs = Some s2"
      and eq: "s2 = s1\<lparr>stk_buffer := stk_buffer s2\<rparr>"
      and mem2: "stack_mem (s2\<lparr>stk_top := stk_top s1 + ?n\<rparr>)"
      and el2: "stack_elems (s2\<lparr>stk_top := stk_top s1 + ?n\<rparr>) =
                  stack_elems s1 @ chunks (unat (stk_elem_size s1)) ?bs (unat ?n)"
      using stack_store_run [OF mem1 sum n0, of ?bs] fits by auto
    have eq2: "s2\<lparr>stk_top := stk_top s1 + ?n\<rparr> =
        s1\<lparr>stk_buffer := stk_buffer s2, stk_top := stk_top s1 + ?n\<rparr>" by (subst eq) simp
    have top2: "stk_top s2 = stk_top s1" by (subst eq) simp
    have inv2: "stack_inv (s2\<lparr>stk_top := stk_top s1 + ?n\<rparr>)"
      by (rule stack_inv_top [OF inv1 eq2 mem2])
    have cfg2: "same_config s1 (s2\<lparr>stk_top := stk_top s1 + ?n\<rparr>)"
      by (simp only: eq2) (simp add: same_config_def)
    have ch: "chunks (unat (stk_elem_size s1)) ?bs (unat ?n) =
        take (unat ?n) (chunks (unat (stk_elem_size s)) elems (unat cnt))"
      unfolding take_chunks [OF n_le(1)] es by (rule chunks_cong_take) simp
    have call: "dv_stack_push_bulk (Some s) (Some elems) cnt w =
        Some (?n, Some (s2\<lparr>stk_top := stk_top s1 + ?n\<rparr>), w1)"
      using False grow n0 st fits nes top2 by (simp add: Let_def mem_read_def)
    have "stk_top s1 + ?n = stk_capacity s1" if "?n < cnt"
      using that by (auto split: if_splits)
    moreover have "stk_capacity s2 = stk_capacity s1" by (subst eq) simp
    ultimately show ?thesis
      using call inv2 cfg2 el2 ch el stay same_config_trans [OF cfg] by (auto simp: not_less)
  qed
qed


lemma pop_bulk_copy_spec:
  assumes mem: "stack_mem s" and n: "n \<le> stk_top s" and i: "i \<le> n"
    and len: "unat n * unat (stk_elem_size s) \<le> length dst"
  shows "\<exists>dst'. pop_bulk_copy s n i dst = Some dst' \<and> length dst' = length dst \<and>
           (\<forall>j. chunk (unat (stk_elem_size s)) dst' j =
              (if unat i \<le> j \<and> j < unat n then stack_elems s ! (unat (stk_top s) - 1 - j)
               else chunk (unat (stk_elem_size s)) dst j))"
  using i len
proof (induction "unat n - unat i" arbitrary: i dst)
  case 0
  then have "i = n" by (simp add: word_le_nat_alt word_unat_eq_iff)
  then show ?case by (subst pop_bulk_copy.simps) auto
next
  case (Suc k)
  let ?es = "unat (stk_elem_size s)" and ?j = "stk_top s - 1 - i"
  have lt: "i < n" and i_n: "unat i < unat n" using Suc.hyps(2) by (simp_all add: word_less_nat_alt)
  have i_t: "unat i < unat (stk_top s)" using i_n n by (simp add: word_le_nat_alt)
  then have ne: "stk_top s \<noteq> 0" by auto
  have le: "i \<le> stk_top s - 1" using i_t unat_top_pred [OF ne] by (simp add: word_le_nat_alt)
  have j: "unat ?j = unat (stk_top s) - 1 - unat i"
    by (simp add: unat_sub [OF le] unat_top_pred [OF ne])
  then have j_t: "?j < stk_top s" using i_t by (simp add: word_less_nat_alt)
  let ?bs = "stack_elems s ! unat ?j"
  have bs: "length ?bs = ?es"
    using stack_load_chunk_length [OF mem] j_t by (simp add: word_less_nat_alt)
  have slot: "unat i * ?es + ?es \<le> length dst" using slot_fits [OF i_n Suc.prems(2)] .
  have "unat i * ?es < 2 ^ 64"
    using stack_mem_facts(3) [OF mem] mult_le_mono1 [of "unat i" "unat (stk_top s)" ?es] i_t by linarith
  then have off: "unat (i * stk_elem_size s) = unat i * ?es" by (rule unat_mult_no_ovf)
  let ?d = "put_slot ?es dst (unat i) ?bs"
  have d_len: "length ?d = length dst" by (rule length_put_slot [OF bs slot])
  have Suc_i: "unat (i + 1) = Suc (unat i)" by (rule unat_Suc_no_ovf [OF lt])
  have step: "pop_bulk_copy s n i dst = pop_bulk_copy s n (i + 1) ?d"
    using lt stack_load_slot [OF mem j_t] mem_write_slot [OF bs slot]
    by (subst pop_bulk_copy.simps) (simp add: off)
  have k: "k = unat n - unat (i + 1)" and le': "i + 1 \<le> n"
    using Suc.hyps(2) i_n Suc_i by (simp_all add: word_le_nat_alt)
  obtain dst' where d': "pop_bulk_copy s n (i + 1) ?d = Some dst'" "length dst' = length ?d"
    and ch: "\<And>m. chunk ?es dst' m =
        (if unat (i + 1) \<le> m \<and> m < unat n then stack_elems s ! (unat (stk_top s) - 1 - m)
         else chunk ?es ?d m)"
    using Suc.hyps(1) [OF k le', of ?d] Suc.prems(2) d_len by auto
  have "chunk ?es dst' m = (if unat i \<le> m \<and> m < unat n then stack_elems s ! (unat (stk_top s) - 1 - m)
         else chunk ?es dst m)" for m
    using ch [of m] chunk_put_same [OF bs slot] chunk_put_other [OF bs slot, of m] i_n Suc_i j
    by (cases "m = unat i") auto
  then show ?case using step d' d_len by auto
qed

lemma dv_stack_pop_bulk_spec:
  assumes inv: "stack_inv s"
    and out: "out_fits (min (unat cnt) (unat (stk_top s)) * unat (stk_elem_size s)) out"
  shows "\<exists>n s' out'. dv_stack_pop_bulk (Some s) out cnt = Some (n, Some s', out') \<and>
           unat n = min (unat cnt) (unat (stk_top s)) \<and> stack_inv s' \<and> same_config s s' \<and>
           stk_capacity s' = stk_capacity s \<and>
           stack_elems s' = take (unat (stk_top s) - unat n) (stack_elems s) \<and>
           (case out of None \<Rightarrow> out' = None
            | Some b \<Rightarrow> \<exists>b'. out' = Some b' \<and> length b' = length b \<and>
                chunks (unat (stk_elem_size s)) b' (unat n) = take (unat n) (rev (stack_elems s)))"
proof -
  have mem: "stack_mem s" using inv by (simp add: stack_inv_def)
  define n where "n = (if cnt < stk_top s then cnt else stk_top s)"
  have n_min: "unat n = min (unat cnt) (unat (stk_top s))" by (auto simp: n_def word_less_nat_alt)
  then have n_t: "n \<le> stk_top s" by (simp add: word_le_nat_alt)
  have zero: "n = 0" if "cnt = 0" using that by (simp add: n_def word_gt_0)
  show ?thesis
  proof (cases "n = 0")
    case True
    then have "dv_stack_pop_bulk (Some s) out cnt = Some (0, Some s, out)"
      by (auto simp: n_def Let_def split: if_splits)
    then show ?thesis using inv True n_min by (auto split: option.split)
  next
    case False
    let ?s = "s\<lparr>stk_top := stk_top s - n\<rparr>"
    have t_le: "stk_top s - n \<le> stk_top s" using n_t by (simp add: word_le_nat_alt unat_sub)
    note low = stack_lower_top [OF inv t_le]
    have "\<exists>out'. (case out of None \<Rightarrow> Some None
                  | Some dst \<Rightarrow> map_option Some (pop_bulk_copy s n 0 dst)) = Some out' \<and>
        (case out of None \<Rightarrow> out' = None
         | Some b \<Rightarrow> \<exists>b'. out' = Some b' \<and> length b' = length b \<and>
             chunks (unat (stk_elem_size s)) b' (unat n) = take (unat n) (rev (stack_elems s)))"
    proof (cases out)
      case (Some b)
      have "unat n * unat (stk_elem_size s) \<le> length b" using out Some n_min by (simp add: out_fits_def)
      then obtain b' where "pop_bulk_copy s n 0 b = Some b'" "length b' = length b"
        and ch: "\<And>j. j < unat n \<Longrightarrow> chunk (unat (stk_elem_size s)) b' j =
                   stack_elems s ! (unat (stk_top s) - 1 - j)"
        using pop_bulk_copy_spec [OF mem n_t, of 0 b] by auto
      moreover have "chunks (unat (stk_elem_size s)) b' (unat n) = take (unat n) (rev (stack_elems s))"
        using n_min ch by (intro nth_equalityI) (auto simp: rev_nth)
      ultimately show ?thesis using Some by simp
    qed simp
    moreover have "dv_stack_pop_bulk (Some s) out cnt =
        do { out1 \<leftarrow> (case out of None \<Rightarrow> Some None
                        | Some dst \<Rightarrow> map_option Some (pop_bulk_copy s n 0 dst));
             Some (n, Some ?s, out1) }"
      unfolding dv_stack_pop_bulk.simps Let_def n_def [symmetric] using False zero by auto
    ultimately obtain out' where "dv_stack_pop_bulk (Some s) out cnt = Some (n, Some ?s, out')"
      "case out of None \<Rightarrow> out' = None
         | Some b \<Rightarrow> \<exists>b'. out' = Some b' \<and> length b' = length b \<and>
             chunks (unat (stk_elem_size s)) b' (unat n) = take (unat n) (rev (stack_elems s))"
      by auto
    then show ?thesis using low n_min unat_sub [OF n_t] by auto
  qed
qed

section \<open>Capacity management and lifecycle\<close>

lemma dv_stack_reserve_spec:
  fixes cap :: size_t
  assumes inv: "stack_inv s"
  shows "\<exists>status s' w'. dv_stack_reserve (Some s) cap w = Some (status, Some s', w') \<and>
           growth_result s status s' \<and>
           (status = DV_STACK_OK \<longrightarrow> stk_capacity s' = max (stk_capacity s) cap) \<and>
           (status = DV_STACK_ERR_FULL \<longleftrightarrow>
              stk_capacity s < cap \<and>
              (\<not> stk_growable s \<or> (stk_max_capacity s \<noteq> 0 \<and> stk_max_capacity s < cap)))"
proof -
  have le: "stk_top s \<le> stk_capacity s" using inv by (simp add: stack_inv_def stack_mem_def)
  consider (room) "cap \<le> stk_capacity s"
    | (full) "stk_capacity s < cap"
        "\<not> stk_growable s \<or> (stk_max_capacity s \<noteq> 0 \<and> stk_max_capacity s < cap)"
    | (grow) "stk_capacity s < cap" "stk_growable s" "stk_max_capacity s \<noteq> 0 \<Longrightarrow> cap \<le> stk_max_capacity s"
    by fastforce
  then show ?thesis
  proof cases
    case grow
    obtain status s' w' where "dv_stack_set_capacity s cap w = Some (status, s', w')"
      "growth_result s status s'" "status \<noteq> DV_STACK_ERR_FULL"
      "status = DV_STACK_OK \<longrightarrow> stk_capacity s' = cap"
      using set_capacity_growth [OF inv _ grow(2) grow(3)] grow(1) le
      by (meson order.trans order_less_imp_le)
    then show ?thesis using grow by (auto simp: max_def)
  qed (use growth_result_refl [OF inv] in \<open>auto simp: max_def\<close>)
qed

lemma dv_stack_shrink_to_fit_spec:
  assumes inv: "stack_inv s"
  shows "\<exists>status s' w'. dv_stack_shrink_to_fit (Some s) w = Some (status, Some s', w') \<and>
           growth_result s status s' \<and> status \<in> {DV_STACK_OK, DV_STACK_ERR_NOMEM} \<and>
           (status = DV_STACK_OK \<longrightarrow>
              stk_capacity s' = (if stk_growable s then stk_top s else stk_capacity s))"
proof (cases "\<not> stk_growable s \<or> stk_capacity s = stk_top s")
  case True
  then show ?thesis using growth_result_refl [OF inv] by auto
next
  case False
  have mem: "stack_mem s" using inv by (simp add: stack_inv_def)
  have le: "stk_top s \<le> stk_capacity s" using mem by (simp add: stack_mem_def)
  have max: "stk_max_capacity s \<noteq> 0 \<Longrightarrow> stk_top s \<le> stk_max_capacity s"
    using inv False le by (auto simp: stack_inv_def stack_policy_def)
  obtain status s' w' where sc: "dv_stack_set_capacity s (stk_top s) w = Some (status, s', w')"
    "growth_result s status s'" "status \<noteq> DV_STACK_ERR_FULL"
    "status = DV_STACK_OK \<longrightarrow> stk_capacity s' = stk_top s"
    using set_capacity_growth [OF inv order_refl _ max] False by blast
  moreover have "status \<noteq> DV_STACK_ERR_OVERFLOW"
    using dv_stack_set_capacity_spec [OF mem, of "stk_top s" w] sc(1) stack_mem_facts(3) [OF mem] by auto
  ultimately show ?thesis using False by (auto simp: growth_result_def)
qed


lemma dv_stack_reset_spec:
  assumes inv: "stack_inv s"
  shows "\<exists>status s' w'. dv_stack_reset (Some s) w = Some (status, Some s', w') \<and>
           stack_inv s' \<and> same_config s s' \<and> stack_elems s' = [] \<and>
           status \<in> {DV_STACK_OK, DV_STACK_ERR_NOMEM} \<and>
           (status = DV_STACK_OK \<longrightarrow> stk_capacity s' = stk_initial_capacity s) \<and>
           (status \<noteq> DV_STACK_OK \<longrightarrow> s' = s\<lparr>stk_top := 0\<rparr>)"
proof -
  let ?s = "s\<lparr>stk_top := 0\<rparr>" and ?n = "stk_initial_capacity s"
  have low: "stack_inv ?s" "same_config s ?s" "stack_elems ?s = []"
    using stack_lower_top [OF inv, of 0] by simp_all
  have mem: "stack_mem ?s" using low by (simp add: stack_inv_def)
  show ?thesis
  proof (cases "stk_growable s")
    case True
    have max: "stk_max_capacity ?s \<noteq> 0 \<Longrightarrow> ?n \<le> stk_max_capacity ?s"
      using inv True by (auto simp: stack_inv_def stack_policy_def)
    obtain status s' w' where sc: "dv_stack_set_capacity ?s ?n w = Some (status, s', w')"
      "growth_result ?s status s'" "status \<noteq> DV_STACK_ERR_FULL"
      "status = DV_STACK_OK \<longrightarrow> stk_capacity s' = ?n"
      using set_capacity_growth [OF low(1) _ _ max, of w] True by auto
    moreover have "status \<noteq> DV_STACK_ERR_OVERFLOW"
      using dv_stack_set_capacity_spec [OF mem, of ?n w] sc(1) inv
      by (auto simp: stack_inv_def stack_policy_def)
    ultimately show ?thesis using low by (auto simp: growth_result_def intro: same_config_trans)
  next
    case False
    then have "?n = stk_capacity ?s" using inv by (simp add: stack_inv_def stack_policy_def)
    then have "dv_stack_set_capacity ?s ?n w = Some (DV_STACK_OK, ?s, w)"
      by (simp add: dv_stack_set_capacity_def)
    then show ?thesis using low \<open>?n = stk_capacity ?s\<close> by simp
  qed
qed

lemma dv_stack_destroy_spec:
  assumes inv: "stack_inv s"
  shows "\<exists>w'. dv_stack_destroy (Some s) w = Some (Some zero_stack, w')"
proof (cases "stk_buffer s")
  case None
  then show ?thesis by simp
next
  case (Some b)
  have mem: "stack_mem s" using inv by (simp add: stack_inv_def)
  then obtain h where h: "hk_free (stk_allocator s) = Some h" by (auto simp: stack_mem_def)
  have bytes: "dv_stack_bytes_for (stk_capacity s) (stk_elem_size s) = Inr (stk_capacity s * stk_elem_size s)"
    using mem unfolding stack_mem_def by (blast intro: dv_stack_bytes_for_Inr)
  have "unat (stk_capacity s * stk_elem_size s) \<le> length (blk_data b)"
    using mem Some stack_mem_facts(5) [OF mem] by (simp add: stack_mem_def stack_data_def)
  then obtain w' where "h b (stk_capacity s * stk_elem_size s) (stk_align s)
      (hk_user_data (stk_allocator s)) w = Some w'"
    using allocator_contract.free_returns [OF _ h] mem unfolding stack_mem_def by blast
  then show ?thesis using Some h bytes by simp
qed

section \<open>Initialization\<close>

text \<open>What \<open>dv_stack_init\<close> demands of a configuration and of the caller's hooks.\<close>

definition stack_elem_align :: "dv_stack_config_t \<Rightarrow> size_t" where
  "stack_elem_align c = (if scf_elem_align c = 0 then DV_STACK_MALLOC_ALIGN else scf_elem_align c)"

definition stack_config_ok :: "dv_stack_config_t \<Rightarrow> 'w hooks option \<Rightarrow> bool" where
  "stack_config_ok c allocator \<longleftrightarrow>
     scf_elem_size c \<noteq> 0 \<and>
     (\<exists>k<64. unat (stack_elem_align c) = 2 ^ k) \<and>
     unat (stack_elem_align c) dvd unat (scf_elem_size c) \<and>
     (\<forall>a. allocator = Some a \<longrightarrow> hk_alloc a \<noteq> None \<and> hk_free a \<noteq> None) \<and>
     (scf_growable c \<and> scf_max_capacity c \<noteq> 0 \<longrightarrow> scf_initial_capacity c \<le> scf_max_capacity c)"

definition stack_configured :: "'w libc \<Rightarrow> dv_stack_config_t \<Rightarrow> 'w hooks option \<Rightarrow> 'w dv_stack_t" where
  "stack_configured L c allocator =
     (let al = (if scf_cache_aligned c \<and> stack_elem_align c < DV_CACHE_LINE_SIZE
                then DV_CACHE_LINE_SIZE else stack_elem_align c)
      in \<lparr>stk_buffer = None, stk_top = 0, stk_capacity = 0,
          stk_elem_size = scf_elem_size c, stk_align = al,
          stk_initial_capacity = scf_initial_capacity c,
          stk_max_capacity = (if scf_growable c then scf_max_capacity c else scf_initial_capacity c),
          stk_allocator = (case allocator of None \<Rightarrow> dv_stack_default_allocator L | Some a \<Rightarrow> a),
          stk_growable = scf_growable c,
          stk_ptr_mode = (scf_elem_size c = sizeof_ptr \<and> al AND (alignof_ptr - 1) = 0)\<rparr>)"

lemma dv_stack_init_invalid:
  assumes "\<not> stack_config_ok c allocator"
  shows "dv_stack_init L (Some s) (Some c) allocator w = Some (DV_STACK_ERR_INVALID, Some zero_stack, w)"
proof -
  have al: "dv_stack_is_pow2 (stack_elem_align c) = (\<exists>k<64. unat (stack_elem_align c) = 2 ^ k)"
    by (rule dv_stack_is_pow2_iff)
  show ?thesis
  proof (cases "scf_elem_size c = 0 \<or> \<not> dv_stack_is_pow2 (stack_elem_align c)")
    case True
    then show ?thesis by (auto simp: Let_def stack_elem_align_def)
  next
    case False
    then obtain k where k: "unat (stack_elem_align c) = 2 ^ k" "k < 64" using al by blast
    note dvd = pow2_and_pred_dvd [OF k(1), of "scf_elem_size c"]
    show ?thesis using assms False k dvd
      by (auto simp: Let_def stack_elem_align_def [symmetric] stack_config_ok_def
            stack_select_hooks_def al split: option.splits)
  qed
qed

lemma dv_stack_init_valid:
  assumes "stack_config_ok c allocator"
  shows "dv_stack_init L (Some s) (Some c) allocator w =
    (if scf_initial_capacity c > 0 then do {
       (status, s2, w2) \<leftarrow> dv_stack_set_capacity (stack_configured L c allocator) (scf_initial_capacity c) w;
       (if status \<noteq> DV_STACK_OK then Some (status, Some zero_stack, w2)
        else Some (DV_STACK_OK, Some s2, w2)) }
     else Some (DV_STACK_OK, Some (stack_configured L c allocator), w))"
proof -
  obtain k where k: "unat (stack_elem_align c) = 2 ^ k" "k < 64"
    using assms by (auto simp: stack_config_ok_def)
  then have al: "dv_stack_is_pow2 (stack_elem_align c)" by (auto simp: dv_stack_is_pow2_iff)
  have mult: "scf_elem_size c AND (stack_elem_align c - 1) = 0"
    using pow2_and_pred_dvd [OF k(1)] assms by (simp add: stack_config_ok_def)
  have sel: "stack_select_hooks L allocator =
      Some (case allocator of None \<Rightarrow> dv_stack_default_allocator L | Some a \<Rightarrow> a)"
    using assms by (auto simp: stack_select_hooks_def stack_config_ok_def split: option.splits)
  show ?thesis
    using assms al mult sel
    by (auto simp: Let_def stack_elem_align_def [symmetric] stack_configured_def stack_config_ok_def not_less)
qed

lemma dv_stack_init_spec:
  assumes L: "libc_heap L" and ok: "stack_config_ok c allocator"
    and hk: "\<And>a. allocator = Some a \<Longrightarrow> allocator_contract a"
  shows "\<exists>status s' w'. dv_stack_init L (Some s) (Some c) allocator w = Some (status, Some s', w') \<and>
           (status = DV_STACK_OK \<longrightarrow>
              stack_inv s' \<and> stack_elems s' = [] \<and> stk_capacity s' = scf_initial_capacity c \<and>
              same_config (stack_configured L c allocator) s') \<and>
           (status \<noteq> DV_STACK_OK \<longrightarrow> s' = zero_stack) \<and>
           status \<in> {DV_STACK_OK, DV_STACK_ERR_NOMEM, DV_STACK_ERR_OVERFLOW}"
proof -
  let ?s = "stack_configured L c allocator" and ?n = "scf_initial_capacity c"
  have contract: "allocator_contract (stk_allocator ?s)"
    using hk libc_heap.stack_default_contract [OF L]
    by (auto simp: stack_configured_def Let_def split: option.splits)
  have mem: "stack_mem ?s"
    using ok contract
    by (auto simp: stack_mem_def stack_configured_def stack_config_ok_def stack_data_def Let_def
        dv_stack_default_allocator_def split: option.splits)
  have policy: "stack_policy s'"
    if cfg: "same_config ?s s'" and cap: "stk_capacity s' = ?n"
      and fit: "unat ?n * unat (scf_elem_size c) < 2 ^ 64" for s'
    using ok cfg cap fit
    by (auto simp: stack_policy_def same_config_def stack_configured_def stack_config_ok_def Let_def)
  obtain status s' w' where sc: "dv_stack_set_capacity ?s ?n w = Some (status, s', w')"
    and c: "case status of
              DV_STACK_OK \<Rightarrow> resized ?s ?n s' \<and> (?n = stk_capacity ?s \<longrightarrow> s' = ?s \<and> w' = w)
            | DV_STACK_ERR_INVALID \<Rightarrow> s' = ?s \<and> w' = w \<and> ?n < stk_top ?s
            | DV_STACK_ERR_OVERFLOW \<Rightarrow> s' = ?s \<and> w' = w \<and> 2 ^ 64 \<le> unat ?n * unat (stk_elem_size ?s)
            | DV_STACK_ERR_NOMEM \<Rightarrow> s' = ?s \<and> ?n \<noteq> 0
            | _ \<Rightarrow> False"
    using dv_stack_set_capacity_spec [OF mem] by blast
  have zero: "stk_top ?s = 0" "stk_capacity ?s = 0" "stk_elem_size ?s = scf_elem_size c"
    by (simp_all add: stack_configured_def Let_def)
  show ?thesis
  proof (cases "?n > 0 \<and> status \<noteq> DV_STACK_OK")
    case True
    then show ?thesis using sc c zero dv_stack_init_valid [OF ok, of L s w]
      by (cases status) auto
  next
    case False
    let ?r = "if ?n > 0 then s' else ?s"
    have r: "resized ?s ?n ?r"
      using False c resized_refl [OF mem] zero by (auto simp: word_gt_0)
    note rD = resizedD [OF r]
    have "unat ?n * unat (scf_elem_size c) < 2 ^ 64"
      using rD(3,4) same_configD(1) [OF rD(1)] zero(3) by (simp add: stack_mem_def)
    then have "stack_inv ?r" using rD policy [OF rD(1) rD(3)] by (simp add: stack_inv_def)
    moreover have "stack_elems ?r = []" using rD(5) zero by (simp add: stack_elems_def)
    ultimately show ?thesis
      using sc False rD(1,3) dv_stack_init_valid [OF ok, of L s w] by auto
  qed
qed

end
