(* ===== verification/Dv_Stack_Refine.thy ===== *)
theory Dv_Stack_Refine
  imports Dv_Stack_Props
begin

text \<open>
  The stack against its reference model, a list of byte strings. \<open>stack_exec\<close> runs one call of
  the interface as a client makes it (out buffers of the right size); \<open>stack_ref\<close> is the
  specification, one rule per outcome, in the way the differential phase of
  \<open>src/stack/dv_stack_tester.c\<close> mirrors a random mix of operations onto a plain array.
\<close>

section \<open>Calls and outcomes\<close>

datatype stack_op =
    OpPush "byte list"
  | OpPop
  | OpPeek
  | OpPushBulk "byte list" size_t
  | OpPopBulk size_t
  | OpReserve size_t
  | OpShrink
  | OpClear
  | OpReset

datatype stack_out =
    OutStatus dv_stack_status_t
  | OutElem dv_stack_status_t "byte list option"
  | OutCount size_t
  | OutElems size_t "byte list"
  | OutUnit

fun stack_exec :: "'w dv_stack_t \<Rightarrow> stack_op \<Rightarrow> 'w \<Rightarrow> (stack_out \<times> 'w dv_stack_t \<times> 'w) option" where
  "stack_exec s (OpPush e) w = do {
     (st, p, w1) \<leftarrow> dv_stack_push (Some s) (Some e) w; s1 \<leftarrow> p; Some (OutStatus st, s1, w1) }"
| "stack_exec s OpPop w = do {
     (st, p, out) \<leftarrow> dv_stack_pop (Some s) (Some (replicate (unat (stk_elem_size s)) 0));
     s1 \<leftarrow> p;
     Some (OutElem st (if st = DV_STACK_OK then out else None), s1, w) }"
| "stack_exec s OpPeek w = do {
     (st, out) \<leftarrow> dv_stack_peek (Some s) (Some (replicate (unat (stk_elem_size s)) 0));
     Some (OutElem st (if st = DV_STACK_OK then out else None), s, w) }"
| "stack_exec s (OpPushBulk es n) w = do {
     (k, p, w1) \<leftarrow> dv_stack_push_bulk (Some s) (Some es) n w; s1 \<leftarrow> p; Some (OutCount k, s1, w1) }"
| "stack_exec s (OpPopBulk n) w = do {
     (k, p, out) \<leftarrow> dv_stack_pop_bulk (Some s)
        (Some (replicate (min (unat n) (unat (stk_top s)) * unat (stk_elem_size s)) 0)) n;
     s1 \<leftarrow> p; b \<leftarrow> out;
     Some (OutElems k b, s1, w) }"
| "stack_exec s (OpReserve n) w = do {
     (st, p, w1) \<leftarrow> dv_stack_reserve (Some s) n w; s1 \<leftarrow> p; Some (OutStatus st, s1, w1) }"
| "stack_exec s OpShrink w = do {
     (st, p, w1) \<leftarrow> dv_stack_shrink_to_fit (Some s) w; s1 \<leftarrow> p; Some (OutStatus st, s1, w1) }"
| "stack_exec s OpClear w = do { s1 \<leftarrow> dv_stack_clear (Some s); Some (OutUnit, s1, w) }"
| "stack_exec s OpReset w = do {
     (st, p, w1) \<leftarrow> dv_stack_reset (Some s) w; s1 \<leftarrow> p; Some (OutStatus st, s1, w1) }"

text \<open>The arrays a client hands in are as long as the call says.\<close>

fun stack_op_ok :: "nat \<Rightarrow> stack_op \<Rightarrow> bool" where
  "stack_op_ok es (OpPush e) = (es \<le> length e)"
| "stack_op_ok es (OpPushBulk e n) = (unat n * es \<le> length e)"
| "stack_op_ok es _ = True"

fun stack_run :: "'w dv_stack_t \<Rightarrow> stack_op list \<Rightarrow> 'w \<Rightarrow> (stack_out list \<times> 'w dv_stack_t \<times> 'w) option" where
  "stack_run s [] w = Some ([], s, w)"
| "stack_run s (x # xs) w = do {
     (o', s1, w1) \<leftarrow> stack_exec s x w;
     (os, s2, w2) \<leftarrow> stack_run s1 xs w1;
     Some (o' # os, s2, w2) }"

section \<open>Reference model\<close>

inductive stack_ref :: "nat \<Rightarrow> byte list list \<Rightarrow> stack_op \<Rightarrow> stack_out \<Rightarrow> byte list list \<Rightarrow> bool"
  for es :: nat
where
  push: "stack_ref es xs (OpPush e) (OutStatus DV_STACK_OK) (xs @ [take es e])"
| push_refused: "st \<in> {DV_STACK_ERR_FULL, DV_STACK_ERR_NOMEM, DV_STACK_ERR_OVERFLOW} \<Longrightarrow>
     stack_ref es xs (OpPush e) (OutStatus st) xs"
| pop: "stack_ref es (xs @ [x]) OpPop (OutElem DV_STACK_OK (Some x)) xs"
| pop_empty: "stack_ref es [] OpPop (OutElem DV_STACK_ERR_EMPTY None) []"
| peek: "stack_ref es (xs @ [x]) OpPeek (OutElem DV_STACK_OK (Some x)) (xs @ [x])"
| peek_empty: "stack_ref es [] OpPeek (OutElem DV_STACK_ERR_EMPTY None) []"
| push_bulk: "k \<le> n \<Longrightarrow>
     stack_ref es xs (OpPushBulk e n) (OutCount k) (xs @ take (unat k) (chunks es e (unat n)))"
| pop_bulk: "unat k = min (unat n) (length xs) \<Longrightarrow> chunks es b (unat k) = take (unat k) (rev xs) \<Longrightarrow>
     length b = unat k * es \<Longrightarrow>
     stack_ref es xs (OpPopBulk n) (OutElems k b) (take (length xs - unat k) xs)"
| reserve: "st \<in> {DV_STACK_OK, DV_STACK_ERR_FULL, DV_STACK_ERR_NOMEM, DV_STACK_ERR_OVERFLOW} \<Longrightarrow>
     stack_ref es xs (OpReserve n) (OutStatus st) xs"
| shrink: "st \<in> {DV_STACK_OK, DV_STACK_ERR_NOMEM} \<Longrightarrow> stack_ref es xs OpShrink (OutStatus st) xs"
| clear: "stack_ref es xs OpClear OutUnit []"
| reset: "st \<in> {DV_STACK_OK, DV_STACK_ERR_NOMEM} \<Longrightarrow> stack_ref es xs OpReset (OutStatus st) []"

inductive_cases stack_ref_popE: "stack_ref es xs OpPop r ys"
inductive_cases stack_ref_pushE: "stack_ref es xs (OpPush e) r ys"

inductive stack_ref_run ::
  "nat \<Rightarrow> byte list list \<Rightarrow> stack_op list \<Rightarrow> stack_out list \<Rightarrow> byte list list \<Rightarrow> bool"
  for es :: nat
where
  stop: "stack_ref_run es xs [] [] xs"
| step: "stack_ref es xs x r ys \<Longrightarrow> stack_ref_run es ys os rs zs \<Longrightarrow>
     stack_ref_run es xs (x # os) (r # rs) zs"

section \<open>Simulation\<close>

lemma nonempty_top: "stk_top s \<noteq> 0 \<Longrightarrow> stack_elems s \<noteq> []"
  by (metis length_stack_elems list.size(3) unat_eq_0)

lemma empty_top: "stk_top s = 0 \<Longrightarrow> stack_elems s = []"
  by (simp add: stack_elems_def)

lemma written_replicate:
  "length x = n \<Longrightarrow> written x (Some (replicate n 0)) = Some x"
  by (simp add: written_def)

lemmas stack_op_defs = dv_stack_push.simps dv_stack_pop.simps dv_stack_peek.simps
  dv_stack_push_bulk.simps dv_stack_pop_bulk.simps dv_stack_reserve.simps
  dv_stack_shrink_to_fit.simps dv_stack_reset.simps

definition simulates :: "'w dv_stack_t \<Rightarrow> stack_op \<Rightarrow> 'w \<Rightarrow> bool" where
  "simulates s x w \<longleftrightarrow> (\<exists>r s' w'. stack_exec s x w = Some (r, s', w') \<and> stack_inv s' \<and> same_config s s' \<and>
     stack_ref (unat (stk_elem_size s)) (stack_elems s) x r (stack_elems s'))"

lemma simulatesI:
  "stack_exec s x w = Some (r, s', w') \<Longrightarrow> stack_inv s' \<Longrightarrow> same_config s s' \<Longrightarrow>
   stack_ref (unat (stk_elem_size s)) (stack_elems s) x r (stack_elems s') \<Longrightarrow> simulates s x w"
  unfolding simulates_def by blast

lemma push_simulates:
  assumes "stack_inv s" "unat (stk_elem_size s) \<le> length e"
  shows "simulates s (OpPush e) w"
proof -
  obtain st s' w' where eq: "dv_stack_push (Some s) (Some e) w = Some (st, Some s', w')"
    and res: "push_result s (take (unat (stk_elem_size s)) e) w st s' w'"
    using dv_stack_push_spec [OF assms] by blast
  have "stack_ref (unat (stk_elem_size s)) (stack_elems s) (OpPush e) (OutStatus st) (stack_elems s')"
    using res by (cases "st = DV_STACK_OK") (auto simp: push_result_def intro: stack_ref.intros)
  then show ?thesis using eq res
    by (intro simulatesI [where r = "OutStatus st" and s' = s' and w' = w'])
      (simp_all add: push_result_def del: stack_op_defs)
qed

lemma pop_simulates:
  assumes inv: "stack_inv s" shows "simulates s OpPop w"
proof (cases "stk_top s = 0")
  case True
  then show ?thesis using inv stack_ref.pop_empty
    by (intro simulatesI [where r = "OutElem DV_STACK_ERR_EMPTY None" and s' = s and w' = w])
      (simp_all add: empty_top)
next
  case False
  let ?out = "Some (replicate (unat (stk_elem_size s)) 0)" and ?x = "last (stack_elems s)"
  have fits: "out_fits (unat (stk_elem_size s)) ?out" by (simp add: out_fits_def)
  obtain s' where eq: "dv_stack_pop (Some s) ?out = Some (DV_STACK_OK, Some s', written ?x ?out)"
    and s': "stack_inv s'" "same_config s s'" "stack_elems s' = butlast (stack_elems s)"
    using dv_stack_pop_spec [OF inv fits False] by blast
  have "stack_ref (unat (stk_elem_size s)) (butlast (stack_elems s) @ [?x])
      OpPop (OutElem DV_STACK_OK (Some ?x)) (butlast (stack_elems s))"
    by (rule stack_ref.pop)
  then show ?thesis using eq s' nonempty_top [OF False] written_replicate [OF length_last_elem [OF inv False]]
    by (intro simulatesI [where r = "OutElem DV_STACK_OK (Some ?x)" and s' = s' and w' = w])
      (simp_all del: stack_op_defs)
qed

lemma peek_simulates:
  assumes inv: "stack_inv s" shows "simulates s OpPeek w"
proof (cases "stk_top s = 0")
  case True
  then show ?thesis using inv stack_ref.peek_empty
    by (intro simulatesI [where r = "OutElem DV_STACK_ERR_EMPTY None" and s' = s and w' = w])
      (simp_all add: empty_top)
next
  case False
  let ?out = "Some (replicate (unat (stk_elem_size s)) 0)" and ?x = "last (stack_elems s)"
  have fits: "out_fits (unat (stk_elem_size s)) ?out" by (simp add: out_fits_def)
  have "stack_ref (unat (stk_elem_size s)) (butlast (stack_elems s) @ [?x])
      OpPeek (OutElem DV_STACK_OK (Some ?x)) (butlast (stack_elems s) @ [?x])"
    by (rule stack_ref.peek)
  then show ?thesis
    using dv_stack_peek_spec [OF inv _ False, of "replicate (unat (stk_elem_size s)) 0"] inv nonempty_top [OF False]
      written_replicate [OF length_last_elem [OF inv False]] fits
    by (intro simulatesI [where r = "OutElem DV_STACK_OK (Some ?x)" and s' = s and w' = w])
      (simp_all add: out_fits_def del: stack_op_defs)
qed

lemma push_bulk_simulates:
  assumes "stack_inv s" "unat n * unat (stk_elem_size s) \<le> length e"
  shows "simulates s (OpPushBulk e n) w"
proof -
  obtain k s' w' where eq: "dv_stack_push_bulk (Some s) (Some e) n w = Some (k, Some s', w')"
    and s': "k \<le> n" "stack_inv s'" "same_config s s'"
      "stack_elems s' = stack_elems s @ take (unat k) (chunks (unat (stk_elem_size s)) e (unat n))"
    using dv_stack_push_bulk_spec [OF assms] by blast
  then show ?thesis using stack_ref.push_bulk [of k n "unat (stk_elem_size s)" "stack_elems s" e]
    by (intro simulatesI [where r = "OutCount k" and s' = s' and w' = w'])
      (simp_all del: stack_op_defs)
qed

lemma pop_bulk_simulates:
  assumes inv: "stack_inv s" shows "simulates s (OpPopBulk n) w"
proof -
  let ?len = "min (unat n) (unat (stk_top s)) * unat (stk_elem_size s)"
  obtain k s' b where eq: "dv_stack_pop_bulk (Some s) (Some (replicate ?len 0)) n = Some (k, Some s', Some b)"
    and k: "unat k = min (unat n) (unat (stk_top s))" and s': "stack_inv s'" "same_config s s'"
      "stack_elems s' = take (unat (stk_top s) - unat k) (stack_elems s)" "length b = ?len"
      "chunks (unat (stk_elem_size s)) b (unat k) = take (unat k) (rev (stack_elems s))"
    using dv_stack_pop_bulk_spec [OF inv, of n "Some (replicate ?len 0)"]
    by (auto simp: out_fits_def simp del: stack_op_defs)
  then show ?thesis
    using stack_ref.pop_bulk [of k n "stack_elems s" "unat (stk_elem_size s)" b]
    by (intro simulatesI [where r = "OutElems k b" and s' = s' and w' = w])
      (simp_all del: stack_op_defs)
qed

lemma growth_simulates:
  assumes "stack_exec s x w = Some (OutStatus st, s', w')" "growth_result s st s'"
    and "\<And>xs. stack_ref (unat (stk_elem_size s)) xs x (OutStatus st) xs"
  shows "simulates s x w"
  using assms by (intro simulatesI) (auto simp: growth_result_def)

lemma stack_exec_simulates:
  assumes inv: "stack_inv s" and ok: "stack_op_ok (unat (stk_elem_size s)) x"
  shows "simulates s x w"
proof (cases x)
  case (OpReserve n)
  obtain st s' w' where eq: "dv_stack_reserve (Some s) n w = Some (st, Some s', w')" "growth_result s st s'"
    using dv_stack_reserve_spec [OF inv] by blast
  moreover from this have "st \<in> {DV_STACK_OK, DV_STACK_ERR_FULL, DV_STACK_ERR_NOMEM, DV_STACK_ERR_OVERFLOW}"
    by (auto simp: growth_result_def)
  ultimately show ?thesis
    using OpReserve by (intro growth_simulates) (auto simp del: stack_op_defs intro: stack_ref.reserve)
next
  case OpShrink
  obtain st s' w' where eq: "dv_stack_shrink_to_fit (Some s) w = Some (st, Some s', w')"
    "growth_result s st s'" "st \<in> {DV_STACK_OK, DV_STACK_ERR_NOMEM}"
    using dv_stack_shrink_to_fit_spec [OF inv] by blast
  then show ?thesis
    using OpShrink by (intro growth_simulates) (auto simp del: stack_op_defs intro: stack_ref.shrink)
next
  case OpClear
  then show ?thesis using stack_lower_top [OF inv, of 0] stack_ref.clear
    by (intro simulatesI [where r = OutUnit and s' = "s\<lparr>stk_top := 0\<rparr>" and w' = w]) auto
next
  case OpReset
  obtain st s' w' where "dv_stack_reset (Some s) w = Some (st, Some s', w')" "stack_inv s'"
    "same_config s s'" "stack_elems s' = []" "st \<in> {DV_STACK_OK, DV_STACK_ERR_NOMEM}"
    using dv_stack_reset_spec [OF inv] by blast
  then show ?thesis using OpReset stack_ref.reset [of st]
    by (intro simulatesI [where r = "OutStatus st" and s' = s' and w' = w'])
      (simp_all del: stack_op_defs)
qed (use assms in \<open>simp_all add: push_simulates pop_simulates peek_simulates push_bulk_simulates pop_bulk_simulates\<close>)

lemma stack_run_simulates:
  assumes "stack_inv s" "list_all (stack_op_ok (unat (stk_elem_size s))) xs"
  shows "\<exists>rs s' w'. stack_run s xs w = Some (rs, s', w') \<and> stack_inv s' \<and> same_config s s' \<and>
           stack_ref_run (unat (stk_elem_size s)) (stack_elems s) xs rs (stack_elems s')"
  using assms
proof (induction xs arbitrary: s w)
  case Nil
  then show ?case by (auto intro: stack_ref_run.stop)
next
  case (Cons x xs)
  obtain r s1 w1 where 1: "stack_exec s x w = Some (r, s1, w1)" "stack_inv s1" "same_config s s1"
    "stack_ref (unat (stk_elem_size s)) (stack_elems s) x r (stack_elems s1)"
    using stack_exec_simulates [of s x w] Cons.prems by (auto simp: simulates_def simp del: stack_exec.simps)
  then have es: "stk_elem_size s1 = stk_elem_size s" by (simp add: same_config_def)
  obtain rs s2 w2 where "stack_run s1 xs w1 = Some (rs, s2, w2)" "stack_inv s2" "same_config s1 s2"
    "stack_ref_run (unat (stk_elem_size s1)) (stack_elems s1) xs rs (stack_elems s2)"
    using Cons.IH [of s1 w1] Cons.prems 1 es by auto
  then show ?case using 1 es by (auto intro: stack_ref_run.step same_config_trans)
qed

end
