(* ===== verification/Stack_Theorems.thy ===== *)
theory Stack_Theorems
  imports Dv_Stack_Refine
begin

text \<open>
  The properties of the stack, each with a witness on \<open>demo_stack\<close>: what \<open>dv_stack_init\<close>
  builds on the concrete C heap \<open>bump_libc\<close> for four-byte elements.
\<close>

section \<open>A concrete stack\<close>

definition demo_cfg :: dv_stack_config_t where
  "demo_cfg = \<lparr>scf_elem_size = 4, scf_elem_align = 4, scf_initial_capacity = 2,
     scf_max_capacity = 0, scf_growable = True, scf_cache_aligned = False\<rparr>"

definition demo_stack :: "(nat \<times> nat) dv_stack_t" where
  "demo_stack = (stack_configured bump_libc demo_cfg None)
     \<lparr>stk_buffer := Some \<lparr>blk_addr = 16, blk_data = replicate 8 0xCD\<rparr>, stk_capacity := 2\<rparr>"

lemma demo_cfg_ok: "stack_config_ok demo_cfg None"
  unfolding stack_config_ok_def stack_elem_align_def demo_cfg_def
  by (auto intro!: exI [of _ 2])

lemmas stack_eval = dv_stack_set_capacity_def dv_stack_bytes_for_def resize_mem_def
  dv_stack_default_allocator_def dv_stack_default_alloc_def bump_libc_def bump_alloc_def
  stack_configured_def stack_elem_align_def DV_STACK_MALLOC_ALIGN_def layout_simps Let_def

lemma demo_set_capacity:
  "dv_stack_set_capacity (stack_configured bump_libc demo_cfg None) 2 (4096, 1) =
     Some (DV_STACK_OK, demo_stack, (4096, 24))"
  by (simp add: stack_eval demo_stack_def demo_cfg_def)

lemma demo_init:
  "dv_stack_init bump_libc (Some s) (Some demo_cfg) None (4096, 1) =
     Some (DV_STACK_OK, Some demo_stack, (4096, 24))"
  using demo_set_capacity by (subst dv_stack_init_valid [OF demo_cfg_ok]) (simp add: demo_cfg_def)

lemma demo_inv: "stack_inv demo_stack" "stack_elems demo_stack = []"
  using dv_stack_init_spec [OF bump.libc_heap_axioms demo_cfg_ok, of zero_stack "(4096, 1)"]
  unfolding demo_init by simp_all

lemma demo_fields:
  "stk_elem_size demo_stack = 4" "stk_top demo_stack = 0" "stk_capacity demo_stack = 2"
  "stk_growable demo_stack" "stk_max_capacity demo_stack = 0"
  by (simp_all add: demo_stack_def stack_configured_def demo_cfg_def Let_def)

section \<open>Refinement\<close>

text \<open>
  C1: every sequence of calls on a freshly initialized stack returns (no undefined behaviour, no
  failed access), and the values it returns are the ones of the reference list of byte strings:
  last in, first out, with growth, shrinking, reset and refused allocations invisible but for the
  status. The hypotheses are that the C heap and a caller's hooks meet their documented contracts.
\<close>
theorem stack_refines_list:
  assumes "libc_heap L" "\<And>a. allocator = Some a \<Longrightarrow> allocator_contract a"
    and "dv_stack_init L (Some s0) (Some c) allocator w = Some (DV_STACK_OK, Some s, w1)"
    and "list_all (stack_op_ok (unat (scf_elem_size c))) xs"
  shows "\<exists>rs s' w'. stack_run s xs w1 = Some (rs, s', w') \<and> stack_inv s' \<and>
           stack_ref_run (unat (scf_elem_size c)) [] xs rs (stack_elems s')"
proof -
  have ok: "stack_config_ok c allocator"
    using dv_stack_init_invalid [of c allocator L s0 w] assms(3) by (auto simp del: dv_stack_init.simps)
  have s: "stack_inv s" "stack_elems s = []" "same_config (stack_configured L c allocator) s"
    using dv_stack_init_spec [OF assms(1) ok assms(2), of s0 w] assms(3) by auto
  have "stk_elem_size s = scf_elem_size c"
    using same_configD(1) [OF s(3)] by (simp add: stack_configured_def Let_def)
  then show ?thesis using stack_run_simulates [OF s(1), of xs w1] assms(4) s(2) by auto
qed

theorem stack_refines_list_witness:
  "\<exists>rs s' w'. stack_run demo_stack [OpPush [1,2,3,4], OpPush [5,6,7,8], OpPush [9,9,9,9], OpPop] (4096, 24) =
       Some (rs, s', w') \<and> stack_inv s' \<and>
     stack_ref_run 4 [] [OpPush [1,2,3,4], OpPush [5,6,7,8], OpPush [9,9,9,9], OpPop] rs (stack_elems s')"
  using stack_refines_list [OF bump.libc_heap_axioms _ demo_init,
      of "[OpPush [1,2,3,4], OpPush [5,6,7,8], OpPush [9,9,9,9], OpPop]"]
  by (simp add: demo_cfg_def del: stack_run.simps)

section \<open>Push and pop\<close>

text \<open>
  C5: \<open>dv_stack_push\<close> on every branch. It succeeds without touching the allocator while there is
  room, refuses a full fixed stack, appends exactly the element's bytes on success, and leaves the
  stack as it was on FULL, NOMEM and OVERFLOW.
\<close>
theorem stack_push_correct:
  assumes "stack_inv s" "unat (stk_elem_size s) \<le> length elem"
  shows "\<exists>status s' w'. dv_stack_push (Some s) (Some elem) w = Some (status, Some s', w') \<and>
     stack_inv s' \<and>
     (if status = DV_STACK_OK then stack_elems s' = stack_elems s @ [take (unat (stk_elem_size s)) elem]
      else s' = s) \<and>
     status \<in> {DV_STACK_OK, DV_STACK_ERR_FULL, DV_STACK_ERR_NOMEM, DV_STACK_ERR_OVERFLOW} \<and>
     (stk_top s < stk_capacity s \<longrightarrow>
        status = DV_STACK_OK \<and> w' = w \<and> stk_capacity s' = stk_capacity s) \<and>
     (\<not> stk_growable s \<and> stk_top s = stk_capacity s \<longrightarrow> status = DV_STACK_ERR_FULL \<and> w' = w)"
  using dv_stack_push_spec [OF assms] unfolding push_result_def by blast

theorem stack_push_correct_witness:
  "\<exists>s'. dv_stack_push (Some demo_stack) (Some [1,2,3,4]) (4096, 24) = Some (DV_STACK_OK, Some s', (4096, 24)) \<and>
     stack_elems s' = [[1,2,3,4]]"
  using stack_push_correct [OF demo_inv(1), of "[1,2,3,4]" "(4096, 24)"]
  by (auto simp: demo_fields demo_inv simp del: dv_stack_push.simps)

text \<open>
  C6: a pointer pushed with \<open>dv_stack_push_ptr\<close> comes back unchanged from \<open>dv_stack_pop_ptr\<close>, and
  the pair leaves the elements as they were, also when the push had to grow the buffer.
\<close>
theorem stack_ptr_roundtrip:
  assumes "stack_inv s" "stk_ptr_mode s"
    and "dv_stack_push_ptr (Some s) v w = Some (DV_STACK_OK, Some s1, w1)"
  shows "\<exists>s2. dv_stack_pop_ptr (Some s1) (Some out) = Some (DV_STACK_OK, Some s2, Some v) \<and>
     stack_inv s2 \<and> stack_elems s2 = stack_elems s"
proof -
  have r: "push_result s (le_bytes 8 v) w DV_STACK_OK s1 w1"
    using dv_stack_push_ptr_spec [OF assms(1,2), of v w] assms(3) by (auto simp del: dv_stack_push_ptr.simps)
  then have s1: "stack_inv s1" "stk_ptr_mode s1" "stack_elems s1 = stack_elems s @ [le_bytes 8 v]"
    using assms(2) by (auto simp: push_result_def same_config_def)
  then have "stk_top s1 \<noteq> 0" using empty_top [of s1] by auto
  then show ?thesis using dv_stack_pop_ptr_spec [OF s1(1,2), of out] s1(3)
    by (auto simp: le_load_bytes simp del: dv_stack_pop_ptr.simps)
qed

definition demo_ptr_stack :: "(nat \<times> nat) dv_stack_t" where
  "demo_ptr_stack = (stack_configured bump_libc
       \<lparr>scf_elem_size = 8, scf_elem_align = 8, scf_initial_capacity = 1, scf_max_capacity = 0,
        scf_growable = True, scf_cache_aligned = False\<rparr> None)
     \<lparr>stk_buffer := Some \<lparr>blk_addr = 16, blk_data = replicate 8 0xCD\<rparr>, stk_capacity := 1\<rparr>"

lemma demo_ptr_init:
  "dv_stack_init_ptr bump_libc (Some zero_stack) 1 True None (4096, 1) =
     Some (DV_STACK_OK, Some demo_ptr_stack, (4096, 24))"
  by (simp add: stack_eval demo_ptr_stack_def dv_stack_init_ptr_def stack_select_hooks_def
      dv_stack_is_pow2_def)

lemma demo_ptr_inv: "stack_inv demo_ptr_stack"
proof -
  let ?c = "\<lparr>scf_elem_size = sizeof_ptr, scf_elem_align = alignof_ptr, scf_initial_capacity = 1,
     scf_max_capacity = 0, scf_growable = True, scf_cache_aligned = False\<rparr>"
  have "stack_config_ok ?c (None :: (nat \<times> nat) hooks option)"
    unfolding stack_config_ok_def stack_elem_align_def layout_simps by (auto intro!: exI [of _ 3])
  from dv_stack_init_spec [OF bump.libc_heap_axioms this, of zero_stack "(4096, 1)"]
  show ?thesis using demo_ptr_init by (auto simp: dv_stack_init_ptr_def simp del: dv_stack_init.simps)
qed

theorem stack_ptr_roundtrip_witness:
  "\<exists>s1 w1 s2. dv_stack_push_ptr (Some demo_ptr_stack) 77 (4096, 24) = Some (DV_STACK_OK, Some s1, w1) \<and>
     dv_stack_pop_ptr (Some s1) (Some 0) = Some (DV_STACK_OK, Some s2, Some 77) \<and>
     stack_elems s2 = stack_elems demo_ptr_stack"
proof -
  have pm: "stk_ptr_mode demo_ptr_stack" by (simp add: demo_ptr_stack_def stack_eval)
  have room: "stk_top demo_ptr_stack < stk_capacity demo_ptr_stack" by (simp add: demo_ptr_stack_def stack_eval)
  obtain s1 w1 where "dv_stack_push_ptr (Some demo_ptr_stack) 77 (4096, 24) = Some (DV_STACK_OK, Some s1, w1)"
    using dv_stack_push_ptr_spec [OF demo_ptr_inv pm, of 77 "(4096, 24)"] room
    by (auto simp: push_result_def simp del: dv_stack_push_ptr.simps)
  then show ?thesis using stack_ptr_roundtrip [OF demo_ptr_inv pm] by blast
qed

section \<open>Bulk operations\<close>

text \<open>
  C7: \<open>dv_stack_push_bulk\<close> stores a prefix of the given elements in order and reports its length;
  it stops short only when the buffer is then full, and stores everything when the room is there.
\<close>
theorem stack_push_bulk_correct:
  assumes "stack_inv s" "unat cnt * unat (stk_elem_size s) \<le> length elems"
  shows "\<exists>n s' w'. dv_stack_push_bulk (Some s) (Some elems) cnt w = Some (n, Some s', w') \<and>
     n \<le> cnt \<and> stack_inv s' \<and>
     stack_elems s' = stack_elems s @ take (unat n) (chunks (unat (stk_elem_size s)) elems (unat cnt)) \<and>
     (n < cnt \<longrightarrow> stk_top s' = stk_capacity s') \<and>
     (cnt \<le> stk_capacity s - stk_top s \<longrightarrow> n = cnt \<and> w' = w)"
  using dv_stack_push_bulk_spec [OF assms, of w] by blast

theorem stack_push_bulk_correct_witness:
  "\<exists>s'. dv_stack_push_bulk (Some demo_stack) (Some [1,2,3,4,5,6,7,8]) 2 (4096, 24) =
       Some (2, Some s', (4096, 24)) \<and> stack_elems s' = [[1,2,3,4],[5,6,7,8]]"
  using stack_push_bulk_correct [OF demo_inv(1), of 2 "[1,2,3,4,5,6,7,8]" "(4096, 24)"]
  by (auto simp: demo_fields demo_inv chunks_def chunk_def upt_rec simp del: dv_stack_push_bulk.simps)

text \<open>
  C8: \<open>dv_stack_pop_bulk\<close> removes the smaller of the request and the size, writes the removed
  elements top first, touches no byte past them, and returns for every request. Its copy loop is
  total by the termination proof of \<open>pop_bulk_copy\<close>.
\<close>
theorem stack_pop_bulk_correct:
  assumes "stack_inv s" "min (unat cnt) (unat (stk_top s)) * unat (stk_elem_size s) \<le> length out"
  shows "\<exists>n s' out'. dv_stack_pop_bulk (Some s) (Some out) cnt = Some (n, Some s', Some out') \<and>
     unat n = min (unat cnt) (unat (stk_top s)) \<and> stack_inv s' \<and>
     stack_elems s' = take (unat (stk_top s) - unat n) (stack_elems s) \<and> length out' = length out \<and>
     chunks (unat (stk_elem_size s)) out' (unat n) = take (unat n) (rev (stack_elems s))"
  using dv_stack_pop_bulk_spec [OF assms(1), of cnt "Some out"] assms(2)
  by (auto simp: out_fits_def simp del: dv_stack_pop_bulk.simps)

theorem stack_pop_bulk_correct_witness:
  "\<exists>(s' :: (nat \<times> nat) dv_stack_t) out' s''. stack_inv s' \<and> stack_elems s' = [[1,2,3,4],[5,6,7,8]] \<and>
     dv_stack_pop_bulk (Some s') (Some (replicate 12 0)) 3 = Some (2, Some s'', Some out') \<and>
     stack_elems s'' = [] \<and> chunks 4 out' 2 = [[5,6,7,8],[1,2,3,4]]"
proof -
  obtain n :: size_t and s' and w' where p: "n \<le> 2" "stack_inv s'" "same_config demo_stack s'"
      "stack_elems s' = stack_elems demo_stack @ take (unat n) (chunks (unat (stk_elem_size demo_stack)) [1,2,3,4,5,6,7,8] (unat (2::size_t)))"
      "2 \<le> stk_capacity demo_stack - stk_top demo_stack \<longrightarrow> n = 2 \<and> w' = (4096, 24)"
    using dv_stack_push_bulk_spec [OF demo_inv(1), of 2 "[1,2,3,4,5,6,7,8]" "(4096, 24)"]
    by (auto simp: demo_fields simp del: dv_stack_push_bulk.simps)
  then have e: "stack_elems s' = [[1,2,3,4],[5,6,7,8]]"
    by (simp add: demo_fields demo_inv chunks_def chunk_def upt_rec)
  then have t: "unat (stk_top s') = 2" using length_stack_elems [of s'] by simp
  have es: "stk_elem_size s' = 4" using same_configD(1) [OF p(3)] demo_fields by simp
  obtain k s'' out' where k: "dv_stack_pop_bulk (Some s') (Some (replicate 12 0)) 3 = Some (k, Some s'', Some out')"
    "unat k = 2" "stack_elems s'' = []" "chunks 4 out' 2 = [[5,6,7,8],[1,2,3,4]]"
    using stack_pop_bulk_correct [OF p(2), of 3 "replicate 12 0"] t es e
    by (auto simp del: dv_stack_pop_bulk.simps)
  from k(2) have "k = 2" by (simp add: word_unat_eq_iff)
  then show ?thesis using p(2) e k by blast
qed

section \<open>Capacity and initialization\<close>

text \<open>
  C9: \<open>dv_stack_reserve\<close> either raises the capacity to what was asked for, keeping every element,
  or leaves the stack bit for bit as it was; FULL is answered exactly when the stack is fixed or
  the request is beyond the ceiling.
\<close>
theorem stack_reserve_strong:
  assumes "stack_inv s"
  shows "\<exists>status s' w'. dv_stack_reserve (Some s) cap w = Some (status, Some s', w') \<and>
     stack_inv s' \<and> stack_elems s' = stack_elems s \<and>
     (status = DV_STACK_OK \<longrightarrow> stk_capacity s' = max (stk_capacity s) cap) \<and>
     (status \<noteq> DV_STACK_OK \<longrightarrow> s' = s) \<and>
     (status = DV_STACK_ERR_FULL \<longleftrightarrow>
        stk_capacity s < cap \<and>
        (\<not> stk_growable s \<or> (stk_max_capacity s \<noteq> 0 \<and> stk_max_capacity s < cap)))"
  using dv_stack_reserve_spec [OF assms, of cap w] unfolding growth_result_def by blast

theorem stack_reserve_strong_witness:
  "\<exists>status s' w'. dv_stack_reserve (Some demo_stack) 10 (4096, 24) = Some (status, Some s', w') \<and>
     status \<noteq> DV_STACK_ERR_FULL \<and> (status = DV_STACK_OK \<longrightarrow> stk_capacity s' = 10)"
  using stack_reserve_strong [OF demo_inv(1), of 10 "(4096, 24)"]
  by (auto simp: demo_fields max_def simp del: dv_stack_reserve.simps)

text \<open>
  C10: \<open>dv_stack_init\<close> accepts exactly the configurations its header allows (nonzero element size
  that is a multiple of a power-of-two alignment, both mandatory hooks, an initial capacity within
  the ceiling). A rejected one gives INVALID and a zeroed control block without an allocation; an
  accepted one gives an empty stack of the initial capacity, or a zeroed block with NOMEM or
  OVERFLOW.
\<close>
theorem stack_init_exact:
  assumes "libc_heap L" "\<And>a. allocator = Some a \<Longrightarrow> allocator_contract a"
  shows "\<exists>status s' w'. dv_stack_init L (Some s) (Some c) allocator w = Some (status, Some s', w') \<and>
     (status = DV_STACK_ERR_INVALID \<longleftrightarrow> \<not> stack_config_ok c allocator) \<and>
     (status = DV_STACK_ERR_INVALID \<longrightarrow> w' = w) \<and>
     (status = DV_STACK_OK \<longrightarrow> stack_inv s' \<and> stack_elems s' = [] \<and> stk_capacity s' = scf_initial_capacity c) \<and>
     (status \<noteq> DV_STACK_OK \<longrightarrow> s' = zero_stack)"
proof (cases "stack_config_ok c allocator")
  case True
  show ?thesis using dv_stack_init_spec [OF assms(1) True assms(2), of s w] True
    by (auto simp del: dv_stack_init.simps)
next
  case False
  then show ?thesis using dv_stack_init_invalid [OF False, of L s w] by (simp del: dv_stack_init.simps)
qed

theorem stack_init_exact_witness:
  "\<exists>s' w'. dv_stack_init bump_libc (Some zero_stack) (Some demo_cfg) None (4096, 1) = Some (DV_STACK_OK, Some s', w') \<and>
     stack_inv s' \<and> stack_elems s' = [] \<and> stk_capacity s' = 2"
  using stack_init_exact [OF bump.libc_heap_axioms, of None zero_stack demo_cfg "(4096, 1)"] demo_cfg_ok
  unfolding demo_init by (simp add: demo_cfg_def)

text \<open>
  C11: the growth step never wraps: it is the exact one-and-a-half times the capacity, at least
  eight, saturated at \<open>SIZE_MAX\<close>, and it is strictly larger than any capacity below \<open>SIZE_MAX\<close>.
\<close>
theorem stack_growth_exact:
  "unat (dv_stack_next_capacity cap) =
     (if unat cap < 8 then 8 else min (2 ^ 64 - 1) (unat cap + unat cap div 2)) \<and>
   (dv_stack_next_capacity cap > cap) = (cap \<noteq> SIZE_MAX)"
proof -
  have "(cap \<noteq> SIZE_MAX) = (unat cap < 2 ^ 64 - 1)"
    using unat_le_SIZE_MAX [of cap] by (metis nat_less_le unat_SIZE_MAX word_eq_iff_unsigned)
  then show ?thesis by (auto simp: next_capacity_unat word_less_nat_alt)
qed

end
