(* ===== verification/Alloc_Account.thy ===== *)
theory Alloc_Account
  imports Alloc_Hooks
begin

text \<open>
  Allocators that keep books. The locale \<open>accounting\<close> is what a ledger of live bytes has to do at each hook,
  with the sizes the caller states; a container that states the size of every block it resizes or frees
  as it asked for it leaves such a ledger balanced. The hooks of \<open>src/stack/dv_stack_tester.c\<close> are one.
\<close>

section \<open>The ledger\<close>

locale accounting =
  fixes hk :: "'w hooks" and live :: "'w \<Rightarrow> size_t"
  assumes alloc_live:
      "hk_alloc hk = Some f \<Longrightarrow> f n al u w = Some (r, w') \<Longrightarrow> live w' = (if r = None then live w else live w + n)"
    and realloc_live:
      "hk_realloc hk = Some g \<Longrightarrow> g b n n' al u w = Some (r, w') \<Longrightarrow>
         live w' = (if r = None then live w else live w - n + n')"
    and free_live: "hk_free hk = Some h \<Longrightarrow> h b n al u w = Some w' \<Longrightarrow> live w' = live w - n"
begin

lemma resize_mem_live:
  assumes "resize_mem hk buf old new lv al w = Some (r, w')"
  shows "live w' = (if r = None then live w else live w - (if buf = None then 0 else old) + new)"
proof -
  consider (alloc) f where "hk_alloc hk = Some f" "buf = None" "f new al (hk_user_data hk) w = Some (r, w')"
    | (realloc) b g where "hk_realloc hk = Some g" "buf = Some b" "g b old new al (hk_user_data hk) w = Some (r, w')"
    | (refused) f b where "hk_alloc hk = Some f" "buf = Some b" "f new al (hk_user_data hk) w = Some (None, w')" "r = None"
    | (move) f h b m m' w1 where "hk_alloc hk = Some f" "hk_free hk = Some h" "buf = Some b" "r = Some m'"
        "f new al (hk_user_data hk) w = Some (Some m, w1)" "h b old al (hk_user_data hk) w1 = Some w'"
    using assms by (auto simp: resize_mem_def bind_eq_Some_conv split: option.splits)
  then show ?thesis
  proof cases
    case alloc
    then show ?thesis using alloc_live [OF alloc(1,3)] by simp
  next
    case realloc
    then show ?thesis using realloc_live [OF realloc(1,3)] by simp
  next
    case refused
    then show ?thesis using alloc_live [OF refused(1,3)] by simp
  next
    case move
    then show ?thesis using alloc_live [OF move(1,5)] free_live [OF move(2,6)] by simp
  qed
qed

end

section \<open>What holds after a call\<close>

text \<open>\<open>ensures r P\<close>: if the call answers, its answer satisfies \<open>P\<close>. That the calls answer is shown elsewhere.\<close>

definition ensures :: "'a option \<Rightarrow> ('a \<Rightarrow> bool) \<Rightarrow> bool" where
  "ensures r P \<longleftrightarrow> (\<forall>x. r = Some x \<longrightarrow> P x)"

lemma ensures_simps [simp]:
  "ensures None P" "ensures (Some x) P = P x"
  by (simp_all add: ensures_def)

lemma ensuresD: "ensures r P \<Longrightarrow> r = Some x \<Longrightarrow> P x"
  by (simp add: ensures_def)

lemma ensures_call: "ensures r P \<Longrightarrow> (\<And>x. P x \<Longrightarrow> ensures (f x) Q) \<Longrightarrow> ensures (Option.bind r f) Q"
  by (auto simp: ensures_def bind_eq_Some_conv)

lemma ensures_read: "(\<And>x. ensures (f x) Q) \<Longrightarrow> ensures (Option.bind r f) Q"
  by (auto simp: ensures_def bind_eq_Some_conv)

lemma ensures_if: "(b \<Longrightarrow> ensures x P) \<Longrightarrow> (\<not> b \<Longrightarrow> ensures y P) \<Longrightarrow> ensures (if b then x else y) P"
  by simp

section \<open>The accounting hooks of the soak tests\<close>

record account_t =
  live_bytes :: size_t
  peak_bytes :: size_t
  alloc_calls :: size_t
  realloc_calls :: size_t
  free_calls :: size_t
  align_respected :: bool

text \<open>The world behind \<open>user_data\<close>: the account, next to the C heap.\<close>

type_synonym 'w accounted = "account_t \<times> 'w"

definition account_raw_alloc :: "'w libc \<Rightarrow> size_t \<Rightarrow> size_t \<Rightarrow> 'w \<Rightarrow> block option \<times> 'w" where
  "account_raw_alloc L sz align w = c_aligned_alloc L align ((sz + align - 1) AND NOT (align - 1)) w"

text \<open>What \<open>alloc\<close> and \<open>realloc\<close> do with a block they obtained: check its address, note the peak.\<close>

definition account_check :: "block \<Rightarrow> size_t \<Rightarrow> account_t \<Rightarrow> account_t" where
  "account_check m align a = (if (of_nat (blk_addr m) :: ptr) AND (align - 1) \<noteq> 0 then a\<lparr>align_respected := False\<rparr> else a)"

definition account_peak :: "account_t \<Rightarrow> account_t" where
  "account_peak a = (if live_bytes a > peak_bytes a then a\<lparr>peak_bytes := live_bytes a\<rparr> else a)"

definition account_alloc :: "'w libc \<Rightarrow> 'w accounted alloc_fn" where
  "account_alloc L sz align u aw =
     (case account_raw_alloc L sz align (snd aw) of
        (None, w) \<Rightarrow> Some (None, (fst aw, w))
      | (Some m, w) \<Rightarrow>
          let a = account_check m align (fst aw)
          in Some (Some m, (account_peak (a\<lparr>alloc_calls := alloc_calls a + 1, live_bytes := live_bytes a + sz\<rparr>), w)))"

definition account_realloc :: "'w libc \<Rightarrow> 'w accounted realloc_fn" where
  "account_realloc L b old_size new_size align u aw =
     (case account_raw_alloc L new_size align (snd aw) of
        (None, w) \<Rightarrow> Some (None, (fst aw, w))
      | (Some m, w) \<Rightarrow> do {
          let a = account_check m align (fst aw);
          d \<leftarrow> copy_live (blk_data m) (blk_data b) (if old_size < new_size then old_size else new_size);
          Some (Some (m\<lparr>blk_data := d\<rparr>),
            (account_peak (a\<lparr>realloc_calls := realloc_calls a + 1, live_bytes := live_bytes a - old_size + new_size\<rparr>),
             c_free L b w)) })"

text \<open>A null pointer, on which the C function returns at once, is not a block and has no call here.\<close>

definition account_free :: "'w libc \<Rightarrow> 'w accounted free_fn" where
  "account_free L b sz align u aw =
     Some ((fst aw)\<lparr>free_calls := free_calls (fst aw) + 1, live_bytes := live_bytes (fst aw) - sz\<rparr>, c_free L b (snd aw))"

text \<open>The hooks for the account at an address, and what that account is set to.\<close>

definition account_hooks :: "'w libc \<Rightarrow> ptr \<Rightarrow> account_t \<times> 'w accounted hooks" where
  "account_hooks L a =
     (\<lparr>live_bytes = 0, peak_bytes = 0, alloc_calls = 0, realloc_calls = 0, free_calls = 0, align_respected = True\<rparr>,
      \<lparr>hk_alloc = Some (account_alloc L), hk_realloc = Some (account_realloc L), hk_free = Some (account_free L),
        hk_user_data = a\<rparr>)"

lemma account_live [simp]:
  "live_bytes (account_check m al a) = live_bytes a" "live_bytes (account_peak a) = live_bytes a"
  by (simp_all add: account_check_def account_peak_def)

interpretation account: accounting "snd (account_hooks L a)" "\<lambda>w. live_bytes (fst w)" for L a
  by unfold_locales
    (auto simp: account_hooks_def account_alloc_def account_realloc_def account_free_def bind_eq_Some_conv Let_def
      split: prod.splits option.splits)

section \<open>The allocator contract\<close>

text \<open>
  \<open>account_raw_alloc\<close> pads the size without a check, so a size within an alignment of \<open>SIZE_MAX\<close> wraps around to
  a request for no bytes. The hooks keep the contract on a C library that refuses such a request and
  an alignment that is not a power of two, both of which the C standard allows.
\<close>

locale strict_libc = libc_heap +
  assumes refuses_align: "c_aligned_alloc L al n w = (Some b, w') \<Longrightarrow> \<exists>k<64. unat al = 2 ^ k"
    and refuses_zero: "c_aligned_alloc L al n w = (Some b, w') \<Longrightarrow> n \<noteq> 0"
begin

lemma raw_alloc_length:
  assumes "account_raw_alloc L n al w = (Some b, w')" shows "unat n \<le> length (blk_data b)"
proof -
  let ?r = "(n + al - 1) AND NOT (al - 1)"
  have c: "c_aligned_alloc L al ?r w = (Some b, w')" using assms by (simp add: account_raw_alloc_def)
  obtain k where k: "k < 64" "unat al = 2 ^ k" using refuses_align [OF c] by blast
  have len: "length (blk_data b) = unat ?r" by (rule aligned_alloc_length [OF c])
  show ?thesis
  proof (cases "n \<le> SIZE_MAX - (al - 1)")
    case True
    then show ?thesis using align_up_unat [OF k(2,1) True] len by simp
  next
    case False
    have pos: "al \<noteq> 0" using k by auto
    have m: "unat (al - 1) = 2 ^ k - 1" using k(2) pos by (simp add: unat_minus_one)
    have le: "al - 1 \<le> SIZE_MAX" by (simp only: word_le_nat_alt unat_SIZE_MAX unat_le_SIZE_MAX)
    have "2 ^ 64 - 1 < unat n + (2 ^ k - 1)"
      using False unat_sub [OF le] m unfolding word_le_nat_alt unat_SIZE_MAX by simp
    then have big: "2 ^ 64 \<le> unat n + unat (al - 1)" using m by simp
    have lt: "unat n < 2 ^ 64" by (rule unat_lt_64)
    have "unat (n + (al - 1)) = (unat n + unat (al - 1)) mod 2 ^ 64" by (simp add: unat_word_ariths)
    also have "\<dots> = unat n + unat (al - 1) - 2 ^ 64"
      using big lt unat_lt_64 [of "al - 1"] by (simp add: mod_if)
    finally have s: "unat (n + (al - 1)) = unat n + unat (al - 1) - 2 ^ 64" .
    have "unat n + (2 ^ k - 1) - 2 ^ 64 < (2 ^ k :: nat)" using lt zero_less_power [of "2 :: nat" k] by linarith
    then have "unat (n + (al - 1)) < 2 ^ k" unfolding s m .
    then have "unat ((n + (al - 1)) AND NOT (mask k)) = 0" unfolding and_not_mask_unat by simp
    then have "?r = 0" unfolding pow2_word_mask [OF k(2)] add_diff_eq [symmetric] unat_eq_0 .
    then show ?thesis using refuses_zero [OF c] by simp
  qed
qed

lemma account_contract: "allocator_contract (snd (account_hooks L a))"
proof unfold_locales
  fix f :: "'a accounted alloc_fn" and n al :: size_t and u :: ptr and w w' :: "'a accounted" and b :: block
  assume "hk_alloc (snd (account_hooks L a)) = Some f"
  then have f: "f = account_alloc L" by (simp add: account_hooks_def)
  show "\<exists>r w'. f n al u w = Some (r, w')"
    by (cases "account_raw_alloc L n al (snd w)") (auto simp: f account_alloc_def Let_def split: option.splits)
  assume "f n al u w = Some (Some b, w')"
  then show "unat n \<le> length (blk_data b)"
    using raw_alloc_length [of n al "snd w"] by (auto simp: f account_alloc_def Let_def split: prod.splits option.splits)
next
  fix g :: "'a accounted realloc_fn" and n n' al :: size_t and u :: ptr and w w' :: "'a accounted" and b b' :: block
  assume "hk_realloc (snd (account_hooks L a)) = Some g" and n: "unat n \<le> length (blk_data b)"
  then have g: "g = account_realloc L" by (simp add: account_hooks_def)
  let ?c = "if n < n' then n else n'"
  have c: "unat ?c = min (unat n) (unat n')" by (auto simp: word_less_nat_alt)
  have copy: "\<exists>d. copy_live (blk_data m) (blk_data b) ?c = Some d \<and> length d = length (blk_data m) \<and>
      take (min (unat n) (unat n')) d = take (min (unat n) (unat n')) (blk_data b)"
    if "unat n' \<le> length (blk_data m)" for m
    using copy_live_ok [of ?c "blk_data b" "blk_data m"] n that unfolding c by (meson min.coboundedI1 min.coboundedI2)
  show "\<exists>r w'. g b n n' al u w = Some (r, w')"
  proof (cases "account_raw_alloc L n' al (snd w)")
    case (Pair r w1)
    show ?thesis
    proof (cases r)
      case (Some m)
      then obtain d where "copy_live (blk_data m) (blk_data b) ?c = Some d" using copy raw_alloc_length Pair by blast
      then show ?thesis using Pair Some by (simp add: g account_realloc_def Let_def)
    qed (simp add: g account_realloc_def Pair)
  qed
  assume r: "g b n n' al u w = Some (Some b', w')"
  then obtain m w1 d where m: "account_raw_alloc L n' al (snd w) = (Some m, w1)"
    "copy_live (blk_data m) (blk_data b) ?c = Some d" "blk_data b' = d"
    by (auto simp: g account_realloc_def bind_eq_Some_conv Let_def split: prod.splits option.splits)
  note l = raw_alloc_length [OF m(1)]
  show "unat n' \<le> length (blk_data b')" "take (min (unat n) (unat n')) (blk_data b') = take (min (unat n) (unat n')) (blk_data b)"
    using copy [OF l] l m(2,3) by auto
next
  fix h :: "'a accounted free_fn" and n al :: size_t and u :: ptr and w :: "'a accounted" and b :: block
  assume "hk_free (snd (account_hooks L a)) = Some h"
  then show "\<exists>w'. h b n al u w = Some w'" by (auto simp: account_hooks_def account_free_def)
qed

end

text \<open>A strict variant of the ascending C heap.\<close>

definition strict_bump :: "(nat \<times> nat) libc" where
  "strict_bump = bump_libc\<lparr>c_aligned_alloc := (\<lambda>al n w.
     if n = 0 \<or> al = 0 \<or> al AND (al - 1) \<noteq> 0 then (None, w) else bump_alloc (unat al) n w)\<rparr>"

interpretation strict: strict_libc strict_bump
proof -
  have h: "libc_heap strict_bump"
    using bump.malloc_length bump.realloc_length bump.realloc_keeps
    by unfold_locales (auto simp: strict_bump_def bump_libc_def bump_alloc_length bump_alloc_addr split: if_splits)
  have p: "\<exists>k<64. unat al = 2 ^ k" if "al \<noteq> 0" "al AND (al - 1) = 0" for al :: size_t
    using that pow2_word_iff [of al] by simp
  show "strict_libc strict_bump"
    by (intro strict_libc.intro h strict_libc_axioms.intro) (auto simp: strict_bump_def intro: p split: if_splits)
qed

text \<open>A C library without memory, for calls that bring their own hooks and never use it.\<close>

definition refusing_libc :: "'w libc" where
  "refusing_libc = \<lparr>c_malloc = (\<lambda>n w. (None, w)), c_aligned_alloc = (\<lambda>al n w. (None, w)), c_realloc = (\<lambda>b n w. (None, w)), c_free = (\<lambda>b w. w)\<rparr>"

interpretation refusing: libc_heap refusing_libc
  by unfold_locales (simp_all add: refusing_libc_def)

end
