(* ===== verification/Stack_Account.thy ===== *)
theory Stack_Account
  imports Stack_Theorems Alloc_Account
begin

text \<open>
  The books of a stack: whatever is called, the bytes its allocator counts as live are those of the
  buffer, and after \<open>dv_stack_destroy\<close> the balance is what it was before \<open>dv_stack_init\<close>. Every block is
  therefore given back once, with the size it was asked for.
\<close>

definition stack_bytes :: "'w dv_stack_t \<Rightarrow> size_t" where
  "stack_bytes s = (if stk_buffer s = None then 0 else stk_capacity s * stk_elem_size s)"

text \<open>\<open>K\<close> is what is live besides the buffer.\<close>

definition books :: "'w hooks \<Rightarrow> ('w \<Rightarrow> size_t) \<Rightarrow> size_t \<Rightarrow> 'w dv_stack_t \<Rightarrow> 'w \<Rightarrow> bool" where
  "books hk live K s w \<longleftrightarrow> stk_allocator s = hk \<and> live w = K + stack_bytes s"

lemma books_top [simp]: "books hk live K (s\<lparr>stk_top := n\<rparr>) w = books hk live K s w"
  by (simp add: books_def stack_bytes_def)

lemma store_books: "books hk live K s w \<Longrightarrow> ensures (stack_store s off bs) (\<lambda>s'. books hk live K s' w)"
  by (auto simp: stack_store_def ensures_def bind_eq_Some_conv books_def stack_bytes_def)

lemma bytes_for_Inr: "dv_stack_bytes_for cap es = Inr n \<Longrightarrow> n = cap * es"
  by (auto simp: dv_stack_bytes_for_def split: if_splits)

context accounting
begin

lemma set_capacity_books:
  assumes k: "books hk live K s w"
  shows "ensures (dv_stack_set_capacity s c w) (\<lambda>(st, s', w'). books hk live K s' w')"
proof (cases "c = stk_capacity s \<or> c < stk_top s")
  case True
  then show ?thesis using k by (auto simp: dv_stack_set_capacity_def intro!: ensures_if)
next
  case False
  have hk: "stk_allocator s = hk" and l: "live w = K + stack_bytes s" using k by (simp_all add: books_def)
  let ?old = "dv_stack_bytes_for (stk_capacity s) (stk_elem_size s)" and ?new = "dv_stack_bytes_for c (stk_elem_size s)"
  show ?thesis
  proof (cases "\<exists>m n. ?old = Inr m \<and> ?new = Inr n")
    case no: False
    then show ?thesis using False k by (cases ?old; cases ?new) (simp_all add: dv_stack_set_capacity_def)
  next
    case True
    then obtain m n where mn: "?old = Inr m" "?new = Inr n" by blast
    note m = bytes_for_Inr [OF mn(1)] and n = bytes_for_Inr [OF mn(2)]
    have free: "books hk live K (s\<lparr>stk_buffer := None, stk_capacity := 0\<rparr>) w'"
      if "stk_buffer s = Some b" "hk_free hk = Some h" "h b m al u w = Some w'" for b h al u w'
      using free_live [OF that(2,3)] that(1) l hk m by (simp add: books_def stack_bytes_def)
    have none: "books hk live K (s\<lparr>stk_buffer := None, stk_capacity := 0\<rparr>) w" if "stk_buffer s = None"
      using that l hk by (simp add: books_def stack_bytes_def)
    have resize: "books hk live K (case r of None \<Rightarrow> s | Some b \<Rightarrow> s\<lparr>stk_buffer := Some b, stk_capacity := c\<rparr>) w'"
      if "resize_mem hk (stk_buffer s) m n lv al w = Some (r, w')" for lv al r w'
      using resize_mem_live [OF that] l hk m n by (auto simp: books_def stack_bytes_def split: option.splits)
    show ?thesis
    proof (cases "n = 0")
      case True
      then show ?thesis using False mn hk none free
        by (cases "stk_buffer s") (auto simp: dv_stack_set_capacity_def ensures_def bind_eq_Some_conv)
    next
      case nz: False
      have "ensures (resize_mem hk (stk_buffer s) m n (stk_top s * stk_elem_size s) (stk_align s) w)
          (\<lambda>(r, w'). books hk live K (case r of None \<Rightarrow> s | Some b \<Rightarrow> s\<lparr>stk_buffer := Some b, stk_capacity := c\<rparr>) w')"
        using resize by (auto simp: ensures_def)
      then show ?thesis using False mn hk nz
        by (simp add: dv_stack_set_capacity_def hk) (erule ensures_call, auto split: option.splits)
    qed
  qed
qed

lemma grow_for_push_books:
  assumes "books hk live K s w"
  shows "ensures (dv_stack_grow_for_push (Some s) w) (\<lambda>(st, p, w'). ensures p (\<lambda>s'. books hk live K s' w'))"
  using assms by (auto simp: Let_def intro!: ensures_if ensures_call [OF set_capacity_books [OF assms]])

lemma push_books:
  assumes k: "books hk live K s w"
  shows "ensures (dv_stack_push (Some s) (Some e) w) (\<lambda>(st, p, w'). ensures p (\<lambda>s'. books hk live K s' w'))"
proof -
  let ?g = "if stk_top s = stk_capacity s then dv_stack_grow_for_push (Some s) w else Some (DV_STACK_OK, Some s, w)"
  have g: "ensures ?g (\<lambda>(st, p, w'). ensures p (\<lambda>s'. books hk live K s' w'))"
    by (rule ensures_if [OF grow_for_push_books [OF k]]) (simp add: k)
  have put: "ensures (stack_store s1 off bs) (\<lambda>s2. books hk live K (s2\<lparr>stk_top := stk_top s2 + 1\<rparr>) w1)" if "books hk live K s1 w1" for s1 w1 off bs
    using store_books [OF that] by simp
  have rest: "ensures (do { bs \<leftarrow> f s1; s2 \<leftarrow> stack_store s1 (off s1) bs; Some (DV_STACK_OK, Some (s2\<lparr>stk_top := stk_top s2 + 1\<rparr>), w1) })
      (\<lambda>(st, p, w'). ensures p (\<lambda>s'. books hk live K s' w'))" if "books hk live K s1 w1" for s1 w1 f off
    using that by (auto intro!: ensures_read ensures_call [OF put [OF that]])
  show ?thesis unfolding dv_stack_push.simps
    by (rule ensures_call [OF g]) (auto elim!: ensures_call intro: rest)
qed

lemma grow_for_bulk_books:
  assumes k: "books hk live K s w"
  shows "ensures (dv_stack_grow_for_bulk s n w) (\<lambda>(s', w'). books hk live K s' w')"
proof -
  have first: "ensures (if b then dv_stack_set_capacity s t w else Some (DV_STACK_ERR_FULL, s, w)) (\<lambda>(st, s', w'). books hk live K s' w')" for b t
    by (rule ensures_if [OF set_capacity_books [OF k]]) (simp add: k)
  have second: "ensures (dv_stack_set_capacity s1 t w1) (\<lambda>x. case x of (st, s', w') \<Rightarrow> books hk live K s' w')" if "books hk live K s1 w1" for s1 w1 t
    by (rule set_capacity_books [OF that])
  show ?thesis unfolding dv_stack_grow_for_bulk_def Let_def
    by (rule ensures_call [OF first]) (auto intro!: ensures_if ensures_call [OF second])
qed

lemma push_bulk_books:
  assumes k: "books hk live K s w"
  shows "ensures (dv_stack_push_bulk (Some s) (Some es) n w) (\<lambda>(c, p, w'). ensures p (\<lambda>s'. books hk live K s' w'))"
proof -
  have g: "ensures (if b then dv_stack_grow_for_bulk s m w else Some (s, w)) (\<lambda>(s', w'). books hk live K s' w')" for b m
    by (rule ensures_if [OF grow_for_bulk_books [OF k]]) (simp add: k)
  have put: "ensures (stack_store s1 off bs) (\<lambda>s2. books hk live K (s2\<lparr>stk_top := stk_top s2 + m\<rparr>) w1)" if "books hk live K s1 w1" for s1 w1 off bs m
    using store_books [OF that] by simp
  have rest: "ensures (if m = 0 then Some (0, Some s1, w1) else do { bs \<leftarrow> f s1; s2 \<leftarrow> stack_store s1 (off s1) bs;
      Some (m, Some (s2\<lparr>stk_top := stk_top s2 + m\<rparr>), w1) }) (\<lambda>(c, p, w'). ensures p (\<lambda>s'. books hk live K s' w'))"
    if "books hk live K s1 w1" for s1 w1 m f off
    using that by (auto intro!: ensures_if ensures_read ensures_call [OF put [OF that]])
  show ?thesis unfolding dv_stack_push_bulk.simps Let_def
    by (rule ensures_if, simp add: k, rule ensures_call [OF g], clarsimp simp del: ensures_simps split del: if_split) (rule rest)
qed

lemma exec_books:
  assumes k: "books hk live K s w"
  shows "ensures (stack_exec s x w) (\<lambda>(r, s', w'). books hk live K s' w')"
proof (cases x)
  case (OpPush e)
  show ?thesis unfolding OpPush stack_exec.simps by (rule ensures_call [OF push_books [OF k]]) (auto elim: ensures_call)
next
  case OpPop
  show ?thesis using k unfolding OpPop by (auto simp: ensures_def bind_eq_Some_conv split: if_splits)
next
  case OpPeek
  show ?thesis using k unfolding OpPeek by (auto simp: ensures_def bind_eq_Some_conv split: if_splits)
next
  case (OpPushBulk es n)
  show ?thesis unfolding OpPushBulk stack_exec.simps by (rule ensures_call [OF push_bulk_books [OF k]]) (auto elim: ensures_call)
next
  case (OpPopBulk n)
  show ?thesis using k unfolding OpPopBulk by (auto simp: ensures_def bind_eq_Some_conv Let_def split: if_splits)
next
  case (OpReserve n)
  show ?thesis using k set_capacity_books [OF k] unfolding OpReserve by (auto simp: ensures_def bind_eq_Some_conv split: if_splits)
next
  case OpShrink
  show ?thesis using k set_capacity_books [OF k] unfolding OpShrink by (auto simp: ensures_def bind_eq_Some_conv split: if_splits)
next
  case OpClear
  show ?thesis using k unfolding OpClear by simp
next
  case OpReset
  have "books hk live K (s\<lparr>stk_top := 0\<rparr>) w" using k by simp
  then show ?thesis using set_capacity_books [of K "s\<lparr>stk_top := 0\<rparr>" w "stk_initial_capacity s"]
    unfolding OpReset by (auto simp: ensures_def bind_eq_Some_conv)
qed

lemma run_books: "books hk live K s w \<Longrightarrow> ensures (stack_run s xs w) (\<lambda>(rs, s', w'). books hk live K s' w')"
proof (induction xs arbitrary: s w)
  case (Cons x xs)
  show ?case unfolding stack_run.simps
    by (rule ensures_call [OF exec_books [OF Cons.prems]]) (auto intro!: ensures_call [OF Cons.IH])
qed simp

lemma destroy_live:
  assumes hk: "stk_allocator s = hk" and inv: "stack_inv s"
  shows "\<exists>w'. dv_stack_destroy (Some s) w = Some (Some zero_stack, w') \<and> live w' = live w - stack_bytes s"
proof (cases "stk_buffer s")
  case None
  then show ?thesis by (simp add: stack_bytes_def)
next
  case (Some b)
  have m: "stack_mem s" using inv by (simp add: stack_inv_def)
  then obtain h where h: "hk_free hk = Some h" using hk by (auto simp: stack_mem_def)
  have c: "allocator_contract hk" using m hk by (simp add: stack_mem_def)
  have fit: "unat (stk_capacity s) * unat (stk_elem_size s) < 2 ^ 64" "unat (stk_capacity s) * unat (stk_elem_size s) \<le> length (blk_data b)"
    using m Some by (simp_all add: stack_mem_def stack_data_def)
  let ?n = "stk_capacity s * stk_elem_size s"
  have "unat ?n \<le> length (blk_data b)" using fit by (simp add: unat_word_ariths)
  then obtain w' where w': "h b ?n (stk_align s) (hk_user_data hk) w = Some w'"
    using allocator_contract.free_returns [OF c h, of ?n b] by blast
  show ?thesis using Some h w' free_live [OF h w'] dv_stack_bytes_for_Inr [OF fit(1)] by (simp add: hk stack_bytes_def)
qed

lemma init_books:
  assumes ok: "stack_config_ok c (Some hk)"
  shows "ensures (dv_stack_init L (Some s0) (Some c) (Some hk) w)
     (\<lambda>(st, p, w1). if st = DV_STACK_OK then ensures p (\<lambda>s. books hk live (live w) s w1) else live w1 = live w)"
proof -
  have set: "ensures (dv_stack_set_capacity s n w)
      (\<lambda>(st, s', w1). if st = DV_STACK_OK then books hk live (live w) s' w1 else live w1 = live w)"
    if "stk_allocator s = hk" "stk_buffer s = None" for s n
  proof -
    have "books hk live (live w) s w" using that by (simp add: books_def stack_bytes_def)
    note b = set_capacity_books [OF this, of n]
    have "s' = s" if "dv_stack_set_capacity s n w = Some (st, s', w1)" "st \<noteq> DV_STACK_OK" for st s' w1
      using that unfolding dv_stack_set_capacity_def by (auto simp: bind_eq_Some_conv split: if_splits sum.splits option.splits)
    then show ?thesis using b that(2) unfolding ensures_def books_def by (auto simp: stack_bytes_def)
  qed
  have s: "stk_allocator (stack_configured L c (Some hk)) = hk" "stk_buffer (stack_configured L c (Some hk)) = None"
    by (simp_all add: stack_configured_def Let_def)
  show ?thesis unfolding dv_stack_init_valid [OF ok]
    by (rule ensures_if, rule ensures_call [OF set [OF s]]) (auto simp: books_def stack_bytes_def s split: if_splits)
qed

end

text \<open>
  C12: A stack gives back what it took. On hooks that keep the allocator contract, \<open>dv_stack_init\<close> returns and
  leaves nothing live when it fails; after it has succeeded, any sequence of calls, refused allocations
  included, leaves live exactly the bytes of the buffer, \<open>capacity * elem_size\<close>, and
  \<open>dv_stack_destroy\<close> brings the books back to where they were before \<open>dv_stack_init\<close>.\<close>

theorem stack_returns_memory:
  assumes "allocator_contract hk" "accounting hk live" "stack_config_ok c (Some hk)"
    and "list_all (stack_op_ok (unat (scf_elem_size c))) xs"
  shows "\<exists>st s w1. dv_stack_init L (Some s0) (Some c) (Some hk) w = Some (st, Some s, w1) \<and>
    (st \<noteq> DV_STACK_OK \<longrightarrow> live w1 = live w) \<and>
    (st = DV_STACK_OK \<longrightarrow> (\<exists>rs s' w' w2. stack_run s xs w1 = Some (rs, s', w') \<and>
       live w' = live w + dv_stack_capacity (Some s') * dv_stack_elem_size (Some s') \<and>
       dv_stack_destroy (Some s') w' = Some (Some zero_stack, w2) \<and> live w2 = live w))"
proof -
  note books = accounting.init_books [OF assms(2,3), of L s0 w] and run = accounting.run_books [OF assms(2)]
    and destroy = accounting.destroy_live [OF assms(2)]
  have any: "dv_stack_init L (Some s0) (Some c) (Some hk) w = dv_stack_init refusing_libc (Some s0) (Some c) (Some hk) w"
    by (simp only: dv_stack_init.simps stack_select_hooks_def option.case)
  obtain st s w1 where i: "dv_stack_init L (Some s0) (Some c) (Some hk) w = Some (st, Some s, w1)"
    "st = DV_STACK_OK \<longrightarrow> stack_inv s \<and> stack_elems s = [] \<and> same_config (stack_configured refusing_libc c (Some hk)) s"
    using dv_stack_init_spec [OF refusing.libc_heap_axioms assms(3), of s0 w] assms(1) unfolding any by auto
  have b: "if st = DV_STACK_OK then books hk live (live w) s w1 else live w1 = live w"
    using ensuresD [OF books i(1)] by auto
  have "\<exists>rs s' w' w2. stack_run s xs w1 = Some (rs, s', w') \<and>
       live w' = live w + dv_stack_capacity (Some s') * dv_stack_elem_size (Some s') \<and>
       dv_stack_destroy (Some s') w' = Some (Some zero_stack, w2) \<and> live w2 = live w" if ok: "st = DV_STACK_OK"
  proof -
    have es: "stk_elem_size s = scf_elem_size c" using i(2) ok same_configD(1) by (fastforce simp: stack_configured_def Let_def)
    obtain rs s' w' where r: "stack_run s xs w1 = Some (rs, s', w')" "stack_inv s'"
      using stack_run_simulates [of s xs w1] i(2) ok es assms(4) by auto
    have k: "books hk live (live w) s' w'" using ensuresD [OF run r(1)] b ok by auto
    have "stack_bytes s' = stk_capacity s' * stk_elem_size s'"
      using r(2) by (auto simp: stack_bytes_def stack_inv_def stack_mem_def)
    then show ?thesis using destroy [of s' w'] k r by (auto simp: books_def simp del: stack_run.simps dv_stack_destroy.simps)
  qed
  then show ?thesis using i(1) b by (cases "st = DV_STACK_OK") auto
qed

text \<open>The accounting hooks of the soak test, on a stack that grows, is refused a large reserve and shrinks.\<close>

definition demo_account :: "account_t \<times> nat \<times> nat" where
  "demo_account = (fst (account_hooks strict_bump 1), (256, 1))"

lemma demo_account_init:
  "map_option fst (dv_stack_init refusing_libc (Some zero_stack) (Some demo_cfg) (Some (snd (account_hooks strict_bump 1))) demo_account) = Some DV_STACK_OK"
  by code_simp

theorem stack_returns_memory_witness:
  "\<exists>s w1 rs s' w' w2. dv_stack_init refusing_libc (Some zero_stack) (Some demo_cfg) (Some (snd (account_hooks strict_bump 1))) demo_account =
       Some (DV_STACK_OK, Some s, w1) \<and> stack_run s [OpPush [1,2,3,4], OpReserve 1000, OpShrink] w1 = Some (rs, s', w') \<and>
     dv_stack_destroy (Some s') w' = Some (Some zero_stack, w2) \<and> live_bytes (fst w2) = 0"
proof -
  have "stack_config_ok demo_cfg (Some (snd (account_hooks strict_bump 1)))"
    using demo_cfg_ok by (simp add: stack_config_ok_def account_hooks_def)
  note t = stack_returns_memory [OF strict.account_contract account.accounting_axioms this,
      of "[OpPush [1,2,3,4], OpReserve 1000, OpShrink]" refusing_libc zero_stack demo_account]
  have ops: "list_all (stack_op_ok (unat (scf_elem_size demo_cfg))) [OpPush [1,2,3,4], OpReserve 1000, OpShrink]" by (simp add: demo_cfg_def)
  have zero: "live_bytes (fst demo_account) = 0" by (simp add: demo_account_def account_hooks_def)
  obtain st s w1 where i: "dv_stack_init refusing_libc (Some zero_stack) (Some demo_cfg) (Some (snd (account_hooks strict_bump 1))) demo_account = Some (st, Some s, w1)"
    "st = DV_STACK_OK \<longrightarrow> (\<exists>rs s' w' w2. stack_run s [OpPush [1,2,3,4], OpReserve 1000, OpShrink] w1 = Some (rs, s', w') \<and>
       dv_stack_destroy (Some s') w' = Some (Some zero_stack, w2) \<and> live_bytes (fst w2) = 0)"
    using t [OF ops] zero by (auto simp del: stack_run.simps dv_stack_destroy.simps dv_stack_init.simps)
  have "st = DV_STACK_OK" using demo_account_init i(1) by simp
  then show ?thesis using i by blast
qed

end
