(* ===== verification/Dv_Heap.thy ===== *)
theory Dv_Heap
  imports Alloc_Hooks
begin

text \<open>
  The array-backed binary heap of \<open>src/heap/dv_heap.h\<close> and \<open>src/heap/dv_heap.c\<close>, function by
  function on the bytes of its buffer. The buffer has one slot more than the capacity; the pointer
  a sift carries is a \<open>heap_ptr\<close>, memory of the caller or an offset into the buffer, so that a
  write through a slot changes what a pointer into the buffer reads.

  Parameters: the comparator and the move hook of the configuration, the allocator hooks, and
  \<open>X\<close>, the reads of objects outside the heap that an indirect key makes. The move hook acts on the
  world and is given the slot's bytes and index; it does not write the slot. Debug assertions and
  the comparator double check are compiled out (the release build).
\<close>

section \<open>Types and constants\<close>

datatype dv_heap_status_t =
    DV_HEAP_OK
  | DV_HEAP_ERR_INVALID
  | DV_HEAP_ERR_EMPTY
  | DV_HEAP_ERR_FULL
  | DV_HEAP_ERR_NOMEM
  | DV_HEAP_ERR_OVERFLOW

text \<open>A C enum can hold a value outside its enumerators: the last constructor of the next two.\<close>

datatype dv_heap_order_t = DV_HEAP_MIN | DV_HEAP_MAX | DV_HEAP_ORDER_OTHER u32

datatype dv_heap_key_type_t =
    DV_HEAP_KEY_U64
  | DV_HEAP_KEY_I64
  | DV_HEAP_KEY_U32
  | DV_HEAP_KEY_I32
  | DV_HEAP_KEY_F64
  | DV_HEAP_KEY_F32
  | DV_HEAP_KEY_PTR
  | DV_HEAP_KEY_CUSTOM
  | DV_HEAP_KEY_OTHER u32

definition DV_HEAP_MIN_CAPACITY :: size_t where
  "DV_HEAP_MIN_CAPACITY = 8"

definition DV_HEAP_MALLOC_ALIGN :: size_t where
  "DV_HEAP_MALLOC_ALIGN = alignof_max_align_t"

type_synonym 'w dv_heap_compare_fn = "byte list \<Rightarrow> byte list \<Rightarrow> ptr \<Rightarrow> 'w \<Rightarrow> int"
type_synonym 'w dv_heap_move_fn = "byte list \<Rightarrow> size_t \<Rightarrow> ptr \<Rightarrow> 'w \<Rightarrow> 'w"
type_synonym 'w extmem = "'w \<Rightarrow> ptr \<Rightarrow> nat \<Rightarrow> byte list option"

record 'w dv_heap_config_t =
  hcf_elem_size :: size_t
  hcf_elem_align :: size_t
  hcf_initial_capacity :: size_t
  hcf_max_capacity :: size_t
  hcf_growable :: bool
  hcf_cache_aligned :: bool
  hcf_order :: dv_heap_order_t
  hcf_key_type :: dv_heap_key_type_t
  hcf_key_offset :: size_t
  hcf_key_indirect :: bool
  hcf_compare :: "'w dv_heap_compare_fn option"
  hcf_compare_user_data :: ptr
  hcf_on_move :: "'w dv_heap_move_fn option"
  hcf_move_user_data :: ptr

record 'w dv_heap_t =
  hp_buffer :: "block option"
  hp_size :: size_t
  hp_capacity :: size_t
  hp_elem_size :: size_t
  hp_key_offset :: size_t
  hp_key_type :: dv_heap_key_type_t
  hp_order :: dv_heap_order_t
  hp_key_indirect :: bool
  hp_compare :: "'w dv_heap_compare_fn option"
  hp_compare_user_data :: ptr
  hp_on_move :: "'w dv_heap_move_fn option"
  hp_move_user_data :: ptr
  hp_align :: size_t
  hp_initial_capacity :: size_t
  hp_max_capacity :: size_t
  hp_allocator :: "'w hooks"
  hp_growable :: bool
  hp_ptr_mode :: bool

definition zero_heap :: "'w dv_heap_t" where
  "zero_heap = \<lparr>hp_buffer = None, hp_size = 0, hp_capacity = 0, hp_elem_size = 0, hp_key_offset = 0,
     hp_key_type = DV_HEAP_KEY_U64, hp_order = DV_HEAP_MIN, hp_key_indirect = False,
     hp_compare = None, hp_compare_user_data = 0, hp_on_move = None, hp_move_user_data = 0,
     hp_align = 0, hp_initial_capacity = 0, hp_max_capacity = 0, hp_allocator = null_hooks,
     hp_growable = False, hp_ptr_mode = False\<rparr>"

section \<open>Size and alignment arithmetic\<close>

definition dv_heap_is_pow2 :: "size_t \<Rightarrow> bool" where
  "dv_heap_is_pow2 x \<longleftrightarrow> x \<noteq> 0 \<and> x AND (x - 1) = 0"

text \<open>\<open>None\<close> is the result \<open>false\<close>; every caller passes the address of a local for \<open>out\<close>.\<close>

definition dv_heap_align_up :: "size_t \<Rightarrow> size_t \<Rightarrow> size_t option" where
  "dv_heap_align_up sz al =
     (if \<not> dv_heap_is_pow2 al then None
      else if sz > SIZE_MAX - (al - 1) then None
      else Some ((sz + al - 1) AND NOT (al - 1)))"

text \<open>The buffer of a nonempty capacity has one slot beyond it, for the element a sift carries.\<close>

definition dv_heap_bytes_for :: "size_t \<Rightarrow> size_t \<Rightarrow> dv_heap_status_t + size_t" where
  "dv_heap_bytes_for cap es =
     (if cap = 0 then Inr 0
      else if cap > (SIZE_MAX - 2) div 2 then Inl DV_HEAP_ERR_OVERFLOW
      else if es > SIZE_MAX div (cap + 1) then Inl DV_HEAP_ERR_OVERFLOW
      else Inr ((cap + 1) * es))"

section \<open>Default allocator hooks\<close>

definition dv_heap_over_aligned_alloc :: "'w libc \<Rightarrow> size_t \<Rightarrow> size_t \<Rightarrow> 'w \<Rightarrow> block option \<times> 'w" where
  "dv_heap_over_aligned_alloc L sz al w =
     (case dv_heap_align_up sz al of
        None \<Rightarrow> (None, w)
      | Some padded \<Rightarrow> c_aligned_alloc L al padded w)"

definition dv_heap_over_aligned_free :: "'w libc \<Rightarrow> block \<Rightarrow> 'w \<Rightarrow> 'w" where
  "dv_heap_over_aligned_free L b w = c_free L b w"

definition dv_heap_default_alloc :: "'w libc \<Rightarrow> 'w alloc_fn" where
  "dv_heap_default_alloc L sz al u w =
     (if al \<le> DV_HEAP_MALLOC_ALIGN then Some (c_malloc L sz w)
      else Some (dv_heap_over_aligned_alloc L sz al w))"

definition dv_heap_default_realloc :: "'w libc \<Rightarrow> 'w realloc_fn" where
  "dv_heap_default_realloc L b old_size new_size al u w =
     (if al \<le> DV_HEAP_MALLOC_ALIGN then Some (c_realloc L b new_size w)
      else case dv_heap_over_aligned_alloc L new_size al w of
        (None, w1) \<Rightarrow> Some (None, w1)
      | (Some m, w1) \<Rightarrow> do {
          d \<leftarrow> copy_live (blk_data m) (blk_data b) (if old_size < new_size then old_size else new_size);
          Some (Some (m\<lparr>blk_data := d\<rparr>), dv_heap_over_aligned_free L b w1) })"

definition dv_heap_default_free :: "'w libc \<Rightarrow> 'w free_fn" where
  "dv_heap_default_free L b sz al u w =
     (if al \<le> DV_HEAP_MALLOC_ALIGN then Some (c_free L b w)
      else Some (dv_heap_over_aligned_free L b w))"

definition dv_heap_default_allocator :: "'w libc \<Rightarrow> 'w hooks" where
  "dv_heap_default_allocator L = \<lparr>
     hk_alloc = Some (dv_heap_default_alloc L),
     hk_realloc = Some (dv_heap_default_realloc L),
     hk_free = Some (dv_heap_default_free L),
     hk_user_data = 0\<rparr>"

section \<open>Slots and ordering\<close>

text \<open>An element's address: memory of the caller, or a byte offset into the buffer.\<close>

datatype heap_ptr = Ext "byte list" | Own size_t

definition heap_load :: "'w dv_heap_t \<Rightarrow> size_t \<Rightarrow> nat \<Rightarrow> byte list option" where
  "heap_load h off n = do { b \<leftarrow> hp_buffer h; mem_read (blk_data b) (unat off) n }"

definition heap_store :: "'w dv_heap_t \<Rightarrow> size_t \<Rightarrow> byte list \<Rightarrow> 'w dv_heap_t option" where
  "heap_store h off bs = do {
     b \<leftarrow> hp_buffer h;
     d \<leftarrow> mem_write (blk_data b) (unat off) bs;
     Some (h\<lparr>hp_buffer := Some (b\<lparr>blk_data := d\<rparr>)\<rparr>) }"

definition heap_elem :: "'w dv_heap_t \<Rightarrow> heap_ptr \<Rightarrow> byte list option" where
  "heap_elem h p = (case p of
     Ext b \<Rightarrow> mem_read b 0 (unat (hp_elem_size h))
   | Own off \<Rightarrow> heap_load h off (unat (hp_elem_size h)))"

definition dv_heap_slot :: "'w dv_heap_t \<Rightarrow> size_t \<Rightarrow> size_t" where
  "dv_heap_slot h index = index * hp_elem_size h"

definition dv_heap_scratch :: "'w dv_heap_t \<Rightarrow> size_t" where
  "dv_heap_scratch h = hp_capacity h * hp_elem_size h"

definition dv_heap_notify :: "'w dv_heap_t \<Rightarrow> size_t \<Rightarrow> 'w \<Rightarrow> 'w option" where
  "dv_heap_notify h index w = (case hp_on_move h of
     None \<Rightarrow> Some w
   | Some mv \<Rightarrow> do {
       e \<leftarrow> heap_elem h (Own (dv_heap_slot h index));
       Some (mv e index (hp_move_user_data h) w) })"

function notify_from :: "'w dv_heap_t \<Rightarrow> size_t \<Rightarrow> 'w \<Rightarrow> 'w option" where
  "notify_from h i w =
     (if i < hp_size h then do { w1 \<leftarrow> dv_heap_notify h i w; notify_from h (i + 1) w1 } else Some w)"
  by pat_completeness auto
termination
  by (relation "measure (\<lambda>(h, i, w). unat (hp_size h) - unat i)")
    (auto simp: unat_Suc_no_ovf word_less_nat_alt intro!: diff_less_mono2)

definition dv_heap_notify_all :: "'w dv_heap_t \<Rightarrow> 'w \<Rightarrow> 'w option" where
  "dv_heap_notify_all h w = (if hp_on_move h = None then Some w else notify_from h 0 w)"

text \<open>The \<open>n\<close> bytes at the key's address, of the element itself or of the object it points to.\<close>

definition dv_heap_key_of :: "'w extmem \<Rightarrow> 'w dv_heap_t \<Rightarrow> byte list \<Rightarrow> nat \<Rightarrow> 'w \<Rightarrow> byte list option" where
  "dv_heap_key_of X h e n w =
     (if hp_key_indirect h
      then do { p \<leftarrow> mem_read e 0 (unat sizeof_ptr); X w (le_load p + hp_key_offset h) n }
      else mem_read e (unat (hp_key_offset h)) n)"

text \<open>
  The comparison of two IEEE 754 numbers given by their bits: false when either is a NaN, and
  otherwise that of sign and magnitude, the two zeros being equal.
\<close>

definition f64_nan :: "64 word \<Rightarrow> bool" where
  "f64_nan x \<longleftrightarrow> unat (x AND mask 63) > 0x7FF0000000000000"

definition f64_rank :: "64 word \<Rightarrow> int" where
  "f64_rank x = (if bit x 63 then - uint (x AND mask 63) else uint (x AND mask 63))"

definition f64_less :: "64 word \<Rightarrow> 64 word \<Rightarrow> bool" where
  "f64_less x y \<longleftrightarrow> \<not> f64_nan x \<and> \<not> f64_nan y \<and> f64_rank x < f64_rank y"

definition f32_nan :: "32 word \<Rightarrow> bool" where
  "f32_nan x \<longleftrightarrow> unat (x AND mask 31) > 0x7F800000"

definition f32_rank :: "32 word \<Rightarrow> int" where
  "f32_rank x = (if bit x 31 then - uint (x AND mask 31) else uint (x AND mask 31))"

definition f32_less :: "32 word \<Rightarrow> 32 word \<Rightarrow> bool" where
  "f32_less x y \<longleftrightarrow> \<not> f32_nan x \<and> \<not> f32_nan y \<and> f32_rank x < f32_rank y"

definition with_keys ::
  "'w extmem \<Rightarrow> 'w dv_heap_t \<Rightarrow> byte list \<Rightarrow> byte list \<Rightarrow> nat \<Rightarrow> 'w \<Rightarrow> ('a::len word \<Rightarrow> 'a word \<Rightarrow> bool) \<Rightarrow> bool option"
where
  "with_keys X h a b n w rel = do {
     x \<leftarrow> dv_heap_key_of X h a n w;
     y \<leftarrow> dv_heap_key_of X h b n w;
     Some (rel (le_load x) (le_load y)) }"

definition heap_compare_less :: "'w dv_heap_t \<Rightarrow> byte list \<Rightarrow> byte list \<Rightarrow> 'w \<Rightarrow> bool option" where
  "heap_compare_less h a b w = do {
     f \<leftarrow> hp_compare h; Some (f a b (hp_compare_user_data h) w < 0) }"

definition dv_heap_key_less ::
  "'w extmem \<Rightarrow> 'w dv_heap_t \<Rightarrow> byte list \<Rightarrow> byte list \<Rightarrow> 'w \<Rightarrow> bool option"
where
  "dv_heap_key_less X h a b w =
     (case hp_key_type h of
        DV_HEAP_KEY_U64 \<Rightarrow> with_keys X h a b 8 w (\<lambda>x y :: 64 word. x < y)
      | DV_HEAP_KEY_I64 \<Rightarrow> with_keys X h a b 8 w (\<lambda>x y :: 64 word. sint x < sint y)
      | DV_HEAP_KEY_U32 \<Rightarrow> with_keys X h a b 4 w (\<lambda>x y :: 32 word. x < y)
      | DV_HEAP_KEY_I32 \<Rightarrow> with_keys X h a b 4 w (\<lambda>x y :: 32 word. sint x < sint y)
      | DV_HEAP_KEY_F64 \<Rightarrow> with_keys X h a b 8 w f64_less
      | DV_HEAP_KEY_F32 \<Rightarrow> with_keys X h a b 4 w f32_less
      | DV_HEAP_KEY_PTR \<Rightarrow> with_keys X h a b 8 w (\<lambda>x y :: ptr. x < y)
      | DV_HEAP_KEY_CUSTOM \<Rightarrow> heap_compare_less h a b w
      | DV_HEAP_KEY_OTHER _ \<Rightarrow> heap_compare_less h a b w)"

definition dv_heap_before_raw ::
  "'w extmem \<Rightarrow> 'w dv_heap_t \<Rightarrow> byte list \<Rightarrow> byte list \<Rightarrow> 'w \<Rightarrow> bool option"
where
  "dv_heap_before_raw X h a b w =
     (if hp_order h = DV_HEAP_MIN then dv_heap_key_less X h a b w else dv_heap_key_less X h b a w)"

definition dv_heap_before :: "'w extmem \<Rightarrow> 'w dv_heap_t \<Rightarrow> heap_ptr \<Rightarrow> heap_ptr \<Rightarrow> 'w \<Rightarrow> bool option" where
  "dv_heap_before X h p q w = do {
     a \<leftarrow> heap_elem h p; b \<leftarrow> heap_elem h q; dv_heap_before_raw X h a b w }"

section \<open>Sift loops\<close>

text \<open>\<open>memcpy\<close> of one element to an offset of the buffer.\<close>

definition heap_copy :: "'w dv_heap_t \<Rightarrow> size_t \<Rightarrow> heap_ptr \<Rightarrow> 'w dv_heap_t option" where
  "heap_copy h dst src = do { e \<leftarrow> heap_elem h src; heap_store h dst e }"

text \<open>The body of both loops, which fills the hole from another slot, and their common end.\<close>

definition heap_fill :: "'w dv_heap_t \<Rightarrow> size_t \<Rightarrow> size_t \<Rightarrow> 'w \<Rightarrow> ('w dv_heap_t \<times> 'w) option" where
  "heap_fill h index from w = do {
     h1 \<leftarrow> heap_copy h (dv_heap_slot h index) (Own (dv_heap_slot h from));
     w1 \<leftarrow> dv_heap_notify h1 index w;
     Some (h1, w1) }"

definition heap_place :: "'w dv_heap_t \<Rightarrow> size_t \<Rightarrow> heap_ptr \<Rightarrow> 'w \<Rightarrow> ('w dv_heap_t \<times> 'w) option" where
  "heap_place h index item w = do {
     h1 \<leftarrow> (if Own (dv_heap_slot h index) \<noteq> item then heap_copy h (dv_heap_slot h index) item else Some h);
     w1 \<leftarrow> dv_heap_notify h1 index w;
     Some (h1, w1) }"

function dv_heap_sift_up ::
  "'w extmem \<Rightarrow> 'w dv_heap_t \<Rightarrow> size_t \<Rightarrow> heap_ptr \<Rightarrow> 'w \<Rightarrow> ('w dv_heap_t \<times> 'w) option"
where
  "dv_heap_sift_up X h index item w =
     (if index > 0 then do {
        up \<leftarrow> dv_heap_before X h item (Own (dv_heap_slot h ((index - 1) div 2))) w;
        (if up then do {
           (h1, w1) \<leftarrow> heap_fill h index ((index - 1) div 2) w;
           dv_heap_sift_up X h1 ((index - 1) div 2) item w1 }
         else heap_place h index item w) }
      else heap_place h index item w)"
  by pat_completeness auto
termination
  by (relation "measure (\<lambda>(X, h, index, item, w). unat index)") (simp_all add: word_parent_less)

definition heap_child :: "'w extmem \<Rightarrow> 'w dv_heap_t \<Rightarrow> size_t \<Rightarrow> 'w \<Rightarrow> size_t option" where
  "heap_child X h left w =
     (if left + 1 < hp_size h
      then do {
        b \<leftarrow> dv_heap_before X h (Own (dv_heap_slot h (left + 1))) (Own (dv_heap_slot h left)) w;
        Some (if b then left + 1 else left) }
      else Some left)"

partial_function (option) dv_heap_sift_down ::
  "'w extmem \<Rightarrow> 'w dv_heap_t \<Rightarrow> size_t \<Rightarrow> heap_ptr \<Rightarrow> 'w \<Rightarrow> ('w dv_heap_t \<times> 'w) option"
where
  "dv_heap_sift_down X h index item w =
     (if 2 * index + 1 \<ge> hp_size h then heap_place h index item w
      else do {
        child \<leftarrow> heap_child X h (2 * index + 1) w;
        down \<leftarrow> dv_heap_before X h (Own (dv_heap_slot h child)) item w;
        (if down then do {
           r \<leftarrow> heap_fill h index child w;
           dv_heap_sift_down X (fst r) child item (snd r) }
         else heap_place h index item w) })"

declare dv_heap_sift_down.simps [code]

section \<open>Buffer management\<close>

type_synonym 'w heap_result = "(dv_heap_status_t \<times> 'w dv_heap_t \<times> 'w) option"
type_synonym 'w heap_call = "(dv_heap_status_t \<times> 'w dv_heap_t option \<times> 'w) option"

definition dv_heap_set_capacity :: "'w dv_heap_t \<Rightarrow> size_t \<Rightarrow> 'w \<Rightarrow> 'w heap_result" where
  "dv_heap_set_capacity h new_capacity w =
     (if new_capacity = hp_capacity h then Some (DV_HEAP_OK, h, w)
      else if new_capacity < hp_size h then Some (DV_HEAP_ERR_INVALID, h, w)
      else case dv_heap_bytes_for (hp_capacity h) (hp_elem_size h) of
        Inl status \<Rightarrow> Some (status, h, w)
      | Inr old_bytes \<Rightarrow>
       (case dv_heap_bytes_for new_capacity (hp_elem_size h) of
          Inl status \<Rightarrow> Some (status, h, w)
        | Inr new_bytes \<Rightarrow>
            if new_bytes = 0 then do {
              w1 \<leftarrow> (case hp_buffer h of
                        None \<Rightarrow> Some w
                      | Some b \<Rightarrow> do {
                          f \<leftarrow> hk_free (hp_allocator h);
                          f b old_bytes (hp_align h) (hk_user_data (hp_allocator h)) w });
              Some (DV_HEAP_OK, h\<lparr>hp_buffer := None, hp_capacity := 0\<rparr>, w1) }
            else do {
              (mem, w1) \<leftarrow> resize_mem (hp_allocator h) (hp_buffer h) old_bytes new_bytes
                              (hp_size h * hp_elem_size h) (hp_align h) w;
              (case mem of
                 None \<Rightarrow> Some (DV_HEAP_ERR_NOMEM, h, w1)
               | Some m \<Rightarrow>
                   Some (DV_HEAP_OK, h\<lparr>hp_buffer := Some m, hp_capacity := new_capacity\<rparr>, w1)) }))"

definition dv_heap_next_capacity :: "size_t \<Rightarrow> size_t" where
  "dv_heap_next_capacity cap =
     (if cap < DV_HEAP_MIN_CAPACITY then DV_HEAP_MIN_CAPACITY
      else let half = cap div 2 in if cap > SIZE_MAX - half then SIZE_MAX else cap + half)"

definition dv_heap_clamp_capacity :: "'w dv_heap_t \<Rightarrow> size_t \<Rightarrow> size_t" where
  "dv_heap_clamp_capacity h cap =
     (if hp_max_capacity h \<noteq> 0 \<and> cap > hp_max_capacity h then hp_max_capacity h else cap)"

definition dv_heap_grow_for_push :: "'w dv_heap_t \<Rightarrow> 'w \<Rightarrow> 'w heap_result" where
  "dv_heap_grow_for_push h w =
     (if hp_size h < hp_capacity h then Some (DV_HEAP_OK, h, w)
      else if \<not> hp_growable h then Some (DV_HEAP_ERR_FULL, h, w)
      else
        let next = dv_heap_clamp_capacity h (dv_heap_next_capacity (hp_capacity h))
        in if next \<le> hp_capacity h then Some (DV_HEAP_ERR_FULL, h, w)
           else dv_heap_set_capacity h next w)"

section \<open>Configuration validation\<close>

fun dv_heap_key_type_valid :: "dv_heap_key_type_t \<Rightarrow> bool" where
  "dv_heap_key_type_valid (DV_HEAP_KEY_OTHER _) = False"
| "dv_heap_key_type_valid _ = True"

fun dv_heap_key_width :: "dv_heap_key_type_t \<Rightarrow> size_t" where
  "dv_heap_key_width DV_HEAP_KEY_U64 = 8"
| "dv_heap_key_width DV_HEAP_KEY_I64 = 8"
| "dv_heap_key_width DV_HEAP_KEY_F64 = 8"
| "dv_heap_key_width DV_HEAP_KEY_U32 = 4"
| "dv_heap_key_width DV_HEAP_KEY_I32 = 4"
| "dv_heap_key_width DV_HEAP_KEY_F32 = 4"
| "dv_heap_key_width DV_HEAP_KEY_PTR = sizeof_ptr"
| "dv_heap_key_width DV_HEAP_KEY_CUSTOM = 0"
| "dv_heap_key_width (DV_HEAP_KEY_OTHER _) = 0"

section \<open>Lifecycle\<close>

definition heap_select_hooks :: "'w libc \<Rightarrow> 'w hooks option \<Rightarrow> 'w hooks option" where
  "heap_select_hooks L allocator =
     (case allocator of
        Some a \<Rightarrow> if hk_alloc a = None \<or> hk_free a = None then None else Some a
      | None \<Rightarrow> Some (dv_heap_default_allocator L))"

text \<open>The alignment the buffer gets, and the checks of \<open>dv_heap_init\<close> in their order.\<close>

definition heap_elem_align :: "'w dv_heap_config_t \<Rightarrow> size_t" where
  "heap_elem_align c = (if hcf_elem_align c = 0 then DV_HEAP_MALLOC_ALIGN else hcf_elem_align c)"

definition heap_align :: "'w dv_heap_config_t \<Rightarrow> size_t" where
  "heap_align c = (if hcf_cache_aligned c \<and> heap_elem_align c < DV_CACHE_LINE_SIZE
                   then DV_CACHE_LINE_SIZE else heap_elem_align c)"

definition heap_config_accepted :: "'w dv_heap_config_t \<Rightarrow> bool" where
  "heap_config_accepted c =
     (if hcf_elem_size c = 0 then False
      else if hcf_order c \<noteq> DV_HEAP_MIN \<and> hcf_order c \<noteq> DV_HEAP_MAX then False
      else if \<not> dv_heap_key_type_valid (hcf_key_type c) then False
      else if hcf_key_type c = DV_HEAP_KEY_CUSTOM \<and> hcf_compare c = None then False
      else if \<not> dv_heap_is_pow2 (heap_elem_align c) then False
      else if hcf_elem_size c AND (heap_elem_align c - 1) \<noteq> 0 then False
      else if hcf_key_indirect c
        then hcf_elem_size c = sizeof_ptr \<and> heap_align c AND (alignof_ptr - 1) = 0
      else if hcf_key_type c \<noteq> DV_HEAP_KEY_CUSTOM
        then \<not> (dv_heap_key_width (hcf_key_type c) > hcf_elem_size c \<or>
                hcf_key_offset c > hcf_elem_size c - dv_heap_key_width (hcf_key_type c))
      else True)"

definition heap_configured :: "'w dv_heap_config_t \<Rightarrow> 'w hooks \<Rightarrow> 'w dv_heap_t" where
  "heap_configured c hk = \<lparr>hp_buffer = None, hp_size = 0, hp_capacity = 0,
     hp_elem_size = hcf_elem_size c, hp_key_offset = hcf_key_offset c,
     hp_key_type = hcf_key_type c, hp_order = hcf_order c, hp_key_indirect = hcf_key_indirect c,
     hp_compare = hcf_compare c, hp_compare_user_data = hcf_compare_user_data c,
     hp_on_move = hcf_on_move c, hp_move_user_data = hcf_move_user_data c,
     hp_align = heap_align c, hp_initial_capacity = hcf_initial_capacity c,
     hp_max_capacity = (if \<not> hcf_growable c then hcf_initial_capacity c else hcf_max_capacity c),
     hp_allocator = hk, hp_growable = hcf_growable c,
     hp_ptr_mode = (hcf_elem_size c = sizeof_ptr \<and> heap_align c AND (alignof_ptr - 1) = 0)\<rparr>"

fun dv_heap_init ::
  "'w libc \<Rightarrow> 'w dv_heap_t option \<Rightarrow> 'w dv_heap_config_t option \<Rightarrow> 'w hooks option \<Rightarrow> 'w \<Rightarrow> 'w heap_call"
where
  "dv_heap_init L None config allocator w = Some (DV_HEAP_ERR_INVALID, None, w)"
| "dv_heap_init L (Some h) None allocator w = Some (DV_HEAP_ERR_INVALID, Some zero_heap, w)"
| "dv_heap_init L (Some h) (Some c) allocator w =
     (if \<not> heap_config_accepted c then Some (DV_HEAP_ERR_INVALID, Some zero_heap, w)
      else case heap_select_hooks L allocator of
        None \<Rightarrow> Some (DV_HEAP_ERR_INVALID, Some zero_heap, w)
      | Some hk \<Rightarrow>
          if hcf_growable c \<and> hcf_max_capacity c \<noteq> 0 \<and> hcf_max_capacity c < hcf_initial_capacity c
          then Some (DV_HEAP_ERR_INVALID, Some zero_heap, w)
          else if hcf_initial_capacity c > 0
          then do {
            (status, h1, w1) \<leftarrow> dv_heap_set_capacity (heap_configured c hk) (hcf_initial_capacity c) w;
            (if status \<noteq> DV_HEAP_OK then Some (status, Some zero_heap, w1)
             else Some (DV_HEAP_OK, Some h1, w1)) }
          else Some (DV_HEAP_OK, Some (heap_configured c hk), w))"

fun dv_heap_reset :: "'w dv_heap_t option \<Rightarrow> 'w \<Rightarrow> 'w heap_call" where
  "dv_heap_reset None w = Some (DV_HEAP_ERR_INVALID, None, w)"
| "dv_heap_reset (Some h) w = do {
     (status, h1, w1) \<leftarrow> dv_heap_set_capacity (h\<lparr>hp_size := 0\<rparr>) (hp_initial_capacity h) w;
     Some (status, Some h1, w1) }"

fun dv_heap_destroy :: "'w dv_heap_t option \<Rightarrow> 'w \<Rightarrow> ('w dv_heap_t option \<times> 'w) option" where
  "dv_heap_destroy None w = Some (None, w)"
| "dv_heap_destroy (Some h) w = do {
     w1 \<leftarrow> (case (hp_buffer h, hk_free (hp_allocator h)) of
              (Some b, Some f) \<Rightarrow>
                f b (case dv_heap_bytes_for (hp_capacity h) (hp_elem_size h) of
                       Inl _ \<Rightarrow> 0 | Inr n \<Rightarrow> n)
                  (hp_align h) (hk_user_data (hp_allocator h)) w
            | _ \<Rightarrow> Some w);
     Some (Some zero_heap, w1) }"

section \<open>Capacity management\<close>

fun dv_heap_reserve :: "'w dv_heap_t option \<Rightarrow> size_t \<Rightarrow> 'w \<Rightarrow> 'w heap_call" where
  "dv_heap_reserve None cap w = Some (DV_HEAP_ERR_INVALID, None, w)"
| "dv_heap_reserve (Some h) cap w =
     (if cap \<le> hp_capacity h then Some (DV_HEAP_OK, Some h, w)
      else if \<not> hp_growable h then Some (DV_HEAP_ERR_FULL, Some h, w)
      else if hp_max_capacity h \<noteq> 0 \<and> cap > hp_max_capacity h
        then Some (DV_HEAP_ERR_FULL, Some h, w)
      else do { (status, h1, w1) \<leftarrow> dv_heap_set_capacity h cap w; Some (status, Some h1, w1) })"

fun dv_heap_shrink_to_fit :: "'w dv_heap_t option \<Rightarrow> 'w \<Rightarrow> 'w heap_call" where
  "dv_heap_shrink_to_fit None w = Some (DV_HEAP_ERR_INVALID, None, w)"
| "dv_heap_shrink_to_fit (Some h) w =
     (if \<not> hp_growable h \<or> hp_capacity h = hp_size h then Some (DV_HEAP_OK, Some h, w)
      else do { (status, h1, w1) \<leftarrow> dv_heap_set_capacity h (hp_size h) w; Some (status, Some h1, w1) })"

section \<open>Inline accessors\<close>

fun dv_heap_size :: "'w dv_heap_t option \<Rightarrow> size_t" where
  "dv_heap_size None = 0"
| "dv_heap_size (Some h) = hp_size h"

fun dv_heap_capacity :: "'w dv_heap_t option \<Rightarrow> size_t" where
  "dv_heap_capacity None = 0"
| "dv_heap_capacity (Some h) = hp_capacity h"

fun dv_heap_elem_size :: "'w dv_heap_t option \<Rightarrow> size_t" where
  "dv_heap_elem_size None = 0"
| "dv_heap_elem_size (Some h) = hp_elem_size h"

fun dv_heap_is_empty :: "'w dv_heap_t option \<Rightarrow> bool" where
  "dv_heap_is_empty None = True"
| "dv_heap_is_empty (Some h) = (hp_size h = 0)"

fun dv_heap_is_full :: "'w dv_heap_t option \<Rightarrow> bool" where
  "dv_heap_is_full None = True"
| "dv_heap_is_full (Some h) =
     (if hp_size h < hp_capacity h then False
      else if \<not> hp_growable h then True
      else hp_max_capacity h \<noteq> 0 \<and> hp_capacity h \<ge> hp_max_capacity h)"

text \<open>The address \<open>h->buffer + k\<close> is the byte offset \<open>k\<close> into the buffer; \<open>None\<close> is null.\<close>

fun dv_heap_at :: "'w dv_heap_t option \<Rightarrow> size_t \<Rightarrow> size_t option" where
  "dv_heap_at None index = None"
| "dv_heap_at (Some h) index =
     (if index \<ge> hp_size h then None else Some (index * hp_elem_size h))"

fun dv_heap_at_const :: "'w dv_heap_t option \<Rightarrow> size_t \<Rightarrow> size_t option" where
  "dv_heap_at_const None index = None"
| "dv_heap_at_const (Some h) index =
     (if index \<ge> hp_size h then None else Some (index * hp_elem_size h))"

definition dv_heap_top :: "'w dv_heap_t option \<Rightarrow> size_t option" where
  "dv_heap_top h = dv_heap_at h 0"

definition dv_heap_top_const :: "'w dv_heap_t option \<Rightarrow> size_t option" where
  "dv_heap_top_const h = dv_heap_at_const h 0"

fun dv_heap_clear :: "'w dv_heap_t option \<Rightarrow> 'w dv_heap_t option" where
  "dv_heap_clear None = None"
| "dv_heap_clear (Some h) = Some (h\<lparr>hp_size := 0\<rparr>)"

fun dv_heap_is_ptr_mode :: "'w dv_heap_t option \<Rightarrow> bool" where
  "dv_heap_is_ptr_mode None = False"
| "dv_heap_is_ptr_mode (Some h) = hp_ptr_mode h"

section \<open>Core operations\<close>

fun dv_heap_push :: "'w extmem \<Rightarrow> 'w dv_heap_t option \<Rightarrow> byte list option \<Rightarrow> 'w \<Rightarrow> 'w heap_call" where
  "dv_heap_push X None elem w = Some (DV_HEAP_ERR_INVALID, None, w)"
| "dv_heap_push X (Some h) None w = Some (DV_HEAP_ERR_INVALID, Some h, w)"
| "dv_heap_push X (Some h) (Some elem) w = do {
     (status, h1, w1) \<leftarrow> (if hp_size h = hp_capacity h then dv_heap_grow_for_push h w
                           else Some (DV_HEAP_OK, h, w));
     (if status \<noteq> DV_HEAP_OK then Some (status, Some h1, w1)
      else do {
        (h2, w2) \<leftarrow> dv_heap_sift_up X h1 (hp_size h1) (Ext elem) w1;
        Some (DV_HEAP_OK, Some (h2\<lparr>hp_size := hp_size h2 + 1\<rparr>), w2) }) }"

text \<open>\<open>memcpy(out, slot, elem_size)\<close> when \<open>out\<close> is not null.\<close>

definition heap_copy_out :: "'w dv_heap_t \<Rightarrow> size_t \<Rightarrow> byte list option \<Rightarrow> byte list option option" where
  "heap_copy_out h index out = (case out of
     None \<Rightarrow> Some None
   | Some _ \<Rightarrow> do { e \<leftarrow> heap_elem h (Own (dv_heap_slot h index)); copy_out out e })"

type_synonym 'w heap_out = "(dv_heap_status_t \<times> 'w dv_heap_t option \<times> byte list option \<times> 'w) option"

fun dv_heap_pop :: "'w extmem \<Rightarrow> 'w dv_heap_t option \<Rightarrow> byte list option \<Rightarrow> 'w \<Rightarrow> 'w heap_out" where
  "dv_heap_pop X None out w = Some (DV_HEAP_ERR_INVALID, None, out, w)"
| "dv_heap_pop X (Some h) out w =
     (if hp_size h = 0 then Some (DV_HEAP_ERR_EMPTY, Some h, out, w)
      else do {
        out1 \<leftarrow> heap_copy_out h 0 out;
        let h1 = h\<lparr>hp_size := hp_size h - 1\<rparr>
        in if hp_size h1 = 0 then Some (DV_HEAP_OK, Some h1, out1, w)
           else do {
             h2 \<leftarrow> heap_copy h1 (dv_heap_scratch h1) (Own (dv_heap_slot h1 (hp_size h1)));
             (h3, w3) \<leftarrow> dv_heap_sift_down X h2 0 (Own (dv_heap_scratch h2)) w;
             Some (DV_HEAP_OK, Some h3, out1, w3) } })"

fun dv_heap_peek ::
  "'w dv_heap_t option \<Rightarrow> byte list option \<Rightarrow> (dv_heap_status_t \<times> byte list option) option"
where
  "dv_heap_peek None out = Some (DV_HEAP_ERR_INVALID, out)"
| "dv_heap_peek (Some h) None = Some (DV_HEAP_ERR_INVALID, None)"
| "dv_heap_peek (Some h) (Some out) =
     (if hp_size h = 0 then Some (DV_HEAP_ERR_EMPTY, Some out)
      else do { out1 \<leftarrow> heap_copy_out h 0 (Some out); Some (DV_HEAP_OK, out1) })"

fun dv_heap_replace_top ::
  "'w extmem \<Rightarrow> 'w dv_heap_t option \<Rightarrow> heap_ptr option \<Rightarrow> byte list option \<Rightarrow> 'w \<Rightarrow> 'w heap_out"
where
  "dv_heap_replace_top X None elem out w = Some (DV_HEAP_ERR_INVALID, None, out, w)"
| "dv_heap_replace_top X (Some h) None out w = Some (DV_HEAP_ERR_INVALID, Some h, out, w)"
| "dv_heap_replace_top X (Some h) (Some elem) out w =
     (if hp_size h = 0 then Some (DV_HEAP_ERR_EMPTY, Some h, out, w)
      else do {
        out1 \<leftarrow> heap_copy_out h 0 out;
        (h1, w1) \<leftarrow> dv_heap_sift_down X h 0 elem w;
        Some (DV_HEAP_OK, Some h1, out1, w1) })"

section \<open>Priority updates\<close>

definition heap_goes_up :: "'w extmem \<Rightarrow> 'w dv_heap_t \<Rightarrow> size_t \<Rightarrow> heap_ptr \<Rightarrow> 'w \<Rightarrow> bool option" where
  "heap_goes_up X h index item w =
     (if index > 0 then dv_heap_before X h item (Own (dv_heap_slot h ((index - 1) div 2))) w
      else Some False)"

fun dv_heap_update_at ::
  "'w extmem \<Rightarrow> 'w dv_heap_t option \<Rightarrow> size_t \<Rightarrow> heap_ptr option \<Rightarrow> 'w \<Rightarrow> 'w heap_call"
where
  "dv_heap_update_at X None index elem w = Some (DV_HEAP_ERR_INVALID, None, w)"
| "dv_heap_update_at X (Some h) index None w = Some (DV_HEAP_ERR_INVALID, Some h, w)"
| "dv_heap_update_at X (Some h) index (Some elem) w =
     (if index \<ge> hp_size h then Some (DV_HEAP_ERR_INVALID, Some h, w)
      else do {
        up \<leftarrow> heap_goes_up X h index elem w;
        (h1, w1) \<leftarrow> (if up then dv_heap_sift_up X h index elem w else dv_heap_sift_down X h index elem w);
        Some (DV_HEAP_OK, Some h1, w1) })"

fun dv_heap_remove_at ::
  "'w extmem \<Rightarrow> 'w dv_heap_t option \<Rightarrow> size_t \<Rightarrow> byte list option \<Rightarrow> 'w \<Rightarrow> 'w heap_out"
where
  "dv_heap_remove_at X None index out w = Some (DV_HEAP_ERR_INVALID, None, out, w)"
| "dv_heap_remove_at X (Some h) index out w =
     (if index \<ge> hp_size h then Some (DV_HEAP_ERR_INVALID, Some h, out, w)
      else do {
        out1 \<leftarrow> heap_copy_out h index out;
        let h1 = h\<lparr>hp_size := hp_size h - 1\<rparr>
        in if index = hp_size h1 then Some (DV_HEAP_OK, Some h1, out1, w)
           else do {
             h2 \<leftarrow> heap_copy h1 (dv_heap_scratch h1) (Own (dv_heap_slot h1 (hp_size h1)));
             up \<leftarrow> heap_goes_up X h2 index (Own (dv_heap_scratch h2)) w;
             (h3, w3) \<leftarrow> (if up then dv_heap_sift_up X h2 index (Own (dv_heap_scratch h2)) w
                            else dv_heap_sift_down X h2 index (Own (dv_heap_scratch h2)) w);
             Some (DV_HEAP_OK, Some h3, out1, w3) } })"

section \<open>Maintenance\<close>

function heapify_from :: "'w extmem \<Rightarrow> 'w dv_heap_t \<Rightarrow> size_t \<Rightarrow> 'w \<Rightarrow> ('w dv_heap_t \<times> 'w) option" where
  "heapify_from X h i w =
     (if i > 0 then do {
        h1 \<leftarrow> heap_copy h (dv_heap_scratch h) (Own (dv_heap_slot h (i - 1)));
        (h2, w2) \<leftarrow> dv_heap_sift_down X h1 (i - 1) (Own (dv_heap_scratch h1)) w;
        heapify_from X h2 (i - 1) w2 }
      else Some (h, w))"
  by pat_completeness auto
termination
  by (relation "measure (\<lambda>(X, h, i, w). unat i)") (simp_all add: unat_pred word_less_nat_alt)

fun dv_heap_heapify :: "'w extmem \<Rightarrow> 'w dv_heap_t option \<Rightarrow> 'w \<Rightarrow> 'w heap_call" where
  "dv_heap_heapify X None w = Some (DV_HEAP_ERR_INVALID, None, w)"
| "dv_heap_heapify X (Some h) w = do {
     (h1, w1) \<leftarrow> (if hp_size h > 1
       then do {
         (h2, w2) \<leftarrow> heapify_from X (h\<lparr>hp_on_move := None\<rparr>) (hp_size h div 2) w;
         Some (h2\<lparr>hp_on_move := hp_on_move h\<rparr>, w2) }
       else Some (h, w));
     w3 \<leftarrow> dv_heap_notify_all h1 w1;
     Some (DV_HEAP_OK, Some h1, w3) }"

fun dv_heap_build ::
  "'w extmem \<Rightarrow> 'w dv_heap_t option \<Rightarrow> byte list option \<Rightarrow> size_t \<Rightarrow> 'w \<Rightarrow> 'w heap_call"
where
  "dv_heap_build X None elems cnt w = Some (DV_HEAP_ERR_INVALID, None, w)"
| "dv_heap_build X (Some h) elems cnt w =
     (if cnt = 0 then Some (DV_HEAP_OK, Some (h\<lparr>hp_size := 0\<rparr>), w)
      else case elems of
        None \<Rightarrow> Some (DV_HEAP_ERR_INVALID, Some h, w)
      | Some es \<Rightarrow> do {
          (status, p, w1) \<leftarrow> (if cnt > hp_capacity h then dv_heap_reserve (Some h) cnt w
                               else Some (DV_HEAP_OK, Some h, w));
          (if status \<noteq> DV_HEAP_OK then Some (status, p, w1)
           else do {
             h1 \<leftarrow> p;
             bs \<leftarrow> mem_read es 0 (unat (cnt * hp_elem_size h1));
             h2 \<leftarrow> heap_store h1 0 bs;
             dv_heap_heapify X (Some (h2\<lparr>hp_size := cnt\<rparr>)) w1 }) })"

section \<open>Bulk operations\<close>

definition dv_heap_grow_for_bulk :: "'w dv_heap_t \<Rightarrow> size_t \<Rightarrow> 'w \<Rightarrow> ('w dv_heap_t \<times> 'w) option" where
  "dv_heap_grow_for_bulk h needed w =
     (let curve = dv_heap_next_capacity (hp_capacity h);
          target = dv_heap_clamp_capacity h (if needed > curve then needed else curve)
      in do {
        (status, h1, w1) \<leftarrow> (if target > hp_capacity h then dv_heap_set_capacity h target w
                              else Some (DV_HEAP_ERR_FULL, h, w));
        (if target > hp_capacity h \<and> status = DV_HEAP_OK then Some (h1, w1)
         else
           let exact = dv_heap_clamp_capacity h1 needed
           in if exact > hp_capacity h1 \<and> exact < target
              then do { (_, h2, w2) \<leftarrow> dv_heap_set_capacity h1 exact w1; Some (h2, w2) }
              else Some (h1, w1)) })"

function sift_up_run ::
  "'w extmem \<Rightarrow> 'w dv_heap_t \<Rightarrow> size_t \<Rightarrow> size_t \<Rightarrow> size_t \<Rightarrow> 'w \<Rightarrow> ('w dv_heap_t \<times> 'w) option"
where
  "sift_up_run X h old_size n i w =
     (if i < n then do {
        h1 \<leftarrow> heap_copy h (dv_heap_scratch h) (Own (dv_heap_slot h (old_size + i)));
        (h2, w2) \<leftarrow> dv_heap_sift_up X h1 (old_size + i) (Own (dv_heap_scratch h1)) w;
        sift_up_run X h2 old_size n (i + 1) w2 }
      else Some (h, w))"
  by pat_completeness auto
termination
  by (relation "measure (\<lambda>(X, h, old_size, n, i, w). unat n - unat i)")
    (auto simp: unat_Suc_no_ovf word_less_nat_alt intro!: diff_less_mono2)

fun dv_heap_push_bulk ::
  "'w extmem \<Rightarrow> 'w dv_heap_t option \<Rightarrow> byte list option \<Rightarrow> size_t \<Rightarrow> 'w \<Rightarrow>
     (size_t \<times> 'w dv_heap_t option \<times> 'w) option"
where
  "dv_heap_push_bulk X None elems cnt w = Some (0, None, w)"
| "dv_heap_push_bulk X (Some h) None cnt w = Some (0, Some h, w)"
| "dv_heap_push_bulk X (Some h) (Some elems) cnt w =
     (if cnt = 0 then Some (0, Some h, w)
      else do {
        (h1, w1) \<leftarrow> (if hp_capacity h - hp_size h < cnt \<and> hp_growable h \<and> cnt \<le> SIZE_MAX - hp_size h
                      then dv_heap_grow_for_bulk h (hp_size h + cnt) w
                      else Some (h, w));
        let room = hp_capacity h1 - hp_size h1;
            n = (if cnt < room then cnt else room);
            old_size = hp_size h1
        in if n = 0 then Some (0, Some h1, w1)
           else do {
             bs \<leftarrow> mem_read elems 0 (unat (n * hp_elem_size h1));
             h2 \<leftarrow> heap_store h1 (dv_heap_slot h1 old_size) bs;
             let h3 = h2\<lparr>hp_size := old_size + n\<rparr>
             in if n \<ge> old_size
                then do { (_, p, w4) \<leftarrow> dv_heap_heapify X (Some h3) w1; Some (n, p, w4) }
                else do { (h4, w4) \<leftarrow> sift_up_run X h3 old_size n 0 w1; Some (n, Some h4, w4) } } })"

text \<open>
  The loop of \<open>pop_bulk\<close>: the address \<open>dst + i * elem_size\<close> is the rest of the caller's array
  from there on, and the part before it stays.
\<close>

function pop_run ::
  "'w extmem \<Rightarrow> 'w dv_heap_t \<Rightarrow> size_t \<Rightarrow> size_t \<Rightarrow> byte list option \<Rightarrow> 'w \<Rightarrow>
     ('w dv_heap_t \<times> byte list option \<times> 'w) option"
where
  "pop_run X h n i dst w =
     (if i < n then do {
        (_, p, out, w1) \<leftarrow> dv_heap_pop X (Some h)
            (map_option (drop (unat (i * hp_elem_size h))) dst) w;
        h1 \<leftarrow> p;
        pop_run X h1 n (i + 1)
          (case (dst, out) of
             (Some d, Some d') \<Rightarrow> Some (take (unat (i * hp_elem_size h)) d @ d')
           | _ \<Rightarrow> None) w1 }
      else Some (h, dst, w))"
  by pat_completeness auto
termination
  by (relation "measure (\<lambda>(X, h, n, i, dst, w). unat n - unat i)")
    (auto simp: unat_Suc_no_ovf word_less_nat_alt intro!: diff_less_mono2)

fun dv_heap_pop_bulk ::
  "'w extmem \<Rightarrow> 'w dv_heap_t option \<Rightarrow> byte list option \<Rightarrow> size_t \<Rightarrow> 'w \<Rightarrow>
     (size_t \<times> 'w dv_heap_t option \<times> byte list option \<times> 'w) option"
where
  "dv_heap_pop_bulk X None out cnt w = Some (0, None, out, w)"
| "dv_heap_pop_bulk X (Some h) out cnt w =
     (if cnt = 0 then Some (0, Some h, out, w)
      else
        let n = (if cnt < hp_size h then cnt else hp_size h)
        in if n = 0 then Some (0, Some h, out, w)
           else do {
             (h1, out1, w1) \<leftarrow> pop_run X h n 0 out w;
             Some (n, Some h1, out1, w1) })"

section \<open>Diagnostics\<close>

fun dv_heap_status_str :: "dv_heap_status_t \<Rightarrow> string" where
  "dv_heap_status_str DV_HEAP_OK = ''DV_HEAP_OK''"
| "dv_heap_status_str DV_HEAP_ERR_INVALID = ''DV_HEAP_ERR_INVALID''"
| "dv_heap_status_str DV_HEAP_ERR_EMPTY = ''DV_HEAP_ERR_EMPTY''"
| "dv_heap_status_str DV_HEAP_ERR_FULL = ''DV_HEAP_ERR_FULL''"
| "dv_heap_status_str DV_HEAP_ERR_NOMEM = ''DV_HEAP_ERR_NOMEM''"
| "dv_heap_status_str DV_HEAP_ERR_OVERFLOW = ''DV_HEAP_ERR_OVERFLOW''"

function valid_from :: "'w extmem \<Rightarrow> 'w dv_heap_t \<Rightarrow> size_t \<Rightarrow> 'w \<Rightarrow> bool option" where
  "valid_from X h i w =
     (if i < hp_size h then do {
        b \<leftarrow> dv_heap_before X h (Own (dv_heap_slot h i)) (Own (dv_heap_slot h ((i - 1) div 2))) w;
        (if b then Some False else valid_from X h (i + 1) w) }
      else Some True)"
  by pat_completeness auto
termination
  by (relation "measure (\<lambda>(X, h, i, w). unat (hp_size h) - unat i)")
    (auto simp: unat_Suc_no_ovf word_less_nat_alt intro!: diff_less_mono2)

fun dv_heap_is_valid :: "'w extmem \<Rightarrow> 'w dv_heap_t option \<Rightarrow> 'w \<Rightarrow> bool option" where
  "dv_heap_is_valid X None w = Some False"
| "dv_heap_is_valid X (Some h) w =
     (if hp_size h > hp_capacity h then Some False
      else if hp_size h > 0 \<and> hp_buffer h = None then Some False
      else valid_from X h 1 w)"

declare notify_from.simps [simp del] dv_heap_sift_up.simps [simp del] heapify_from.simps [simp del]
  sift_up_run.simps [simp del] pop_run.simps [simp del] valid_from.simps [simp del]

end
