(* ===== verification/Dv_Heap_Memory.thy ===== *)
theory Dv_Heap_Memory
  imports Dv_Heap
begin

text \<open>
  The buffer of the heap: size arithmetic with the extra slot, the default hooks against the
  allocator contract, the memory invariant, and what every change of capacity does.
\<close>

section \<open>Arithmetic\<close>

lemma dv_heap_is_pow2_iff: "dv_heap_is_pow2 x = (\<exists>k<64. unat x = 2 ^ k)"
  unfolding dv_heap_is_pow2_def by (rule pow2_word_iff)

lemma dv_heap_align_up_Some:
  assumes "dv_heap_align_up sz al = Some r"
  shows "unat al dvd unat r \<and> unat sz \<le> unat r \<and> unat r < unat sz + unat al"
proof -
  obtain k where k: "unat al = 2 ^ k" "k < 64"
    using assms by (auto simp: dv_heap_align_up_def dv_heap_is_pow2_iff split: if_splits)
  have fit: "sz \<le> SIZE_MAX - (al - 1)" and r: "r = (sz + al - 1) AND NOT (al - 1)"
    using assms by (auto simp: dv_heap_align_up_def split: if_splits)
  show ?thesis using align_up_unat [OF k fit] by (simp add: r)
qed

text \<open>A capacity whose buffer is representable and whose child indices cannot wrap.\<close>

definition heap_fits :: "size_t \<Rightarrow> size_t \<Rightarrow> bool" where
  "heap_fits cap es \<longleftrightarrow> unat cap \<le> 2 ^ 63 - 2 \<and> (unat cap + 1) * unat es < 2 ^ 64"

definition heap_bytes :: "size_t \<Rightarrow> size_t \<Rightarrow> nat" where
  "heap_bytes cap es = (if cap = 0 then 0 else (unat cap + 1) * unat es)"

lemma heap_cap_guard: "(cap > (SIZE_MAX - 2) div 2) = (2 ^ 63 - 2 < unat cap)"
proof -
  have "unat ((SIZE_MAX - 2) div 2) = 2 ^ 63 - 2"
    by (simp add: unat_div)
  then show ?thesis by (simp only: word_less_nat_alt)
qed

lemma heap_slots_unat: "unat cap \<le> 2 ^ 63 - 2 \<Longrightarrow> unat (cap + 1) = unat cap + 1" for cap :: size_t
  using unat_add_no_ovf [of cap 1] by simp

lemma dv_heap_bytes_for_Inr:
  assumes "heap_fits cap es"
  shows "\<exists>b. dv_heap_bytes_for cap es = Inr b \<and> unat b = heap_bytes cap es"
proof (cases "cap = 0")
  case False
  have c: "unat cap \<le> 2 ^ 63 - 2" and f: "unat (cap + 1) * unat es < 2 ^ 64"
    using assms heap_slots_unat [of cap] by (simp_all add: heap_fits_def)
  have "cap + 1 \<noteq> 0" using heap_slots_unat [OF c] by (metis Suc_eq_plus1 nat.simps(3) unat_0)
  then have "\<not> es > SIZE_MAX div (cap + 1)"
    using f by (simp add: word_div_guard)
  then show ?thesis
    using False c f unat_mult_no_ovf [OF f] heap_slots_unat [OF c]
    unfolding dv_heap_bytes_for_def heap_cap_guard heap_bytes_def by simp
qed (simp add: dv_heap_bytes_for_def heap_bytes_def)

lemma dv_heap_bytes_for_Inl:
  assumes "\<not> heap_fits cap es"
  shows "dv_heap_bytes_for cap es = Inl DV_HEAP_ERR_OVERFLOW"
proof -
  have "cap \<noteq> 0" using assms unat_lt_64 [of es] by (auto simp: heap_fits_def)
  show ?thesis
  proof (cases "unat cap \<le> 2 ^ 63 - 2")
    case True
    then have f: "2 ^ 64 \<le> unat (cap + 1) * unat es"
      using assms heap_slots_unat [OF True] by (simp add: heap_fits_def)
    have "cap + 1 \<noteq> 0" using heap_slots_unat [OF True] by (metis Suc_eq_plus1 nat.simps(3) unat_0)
    then have "es > SIZE_MAX div (cap + 1)" using f by (simp add: word_div_guard)
    then show ?thesis using \<open>cap \<noteq> 0\<close> unfolding dv_heap_bytes_for_def by simp
  next
    case False
    then show ?thesis using \<open>cap \<noteq> 0\<close> unfolding dv_heap_bytes_for_def heap_cap_guard by simp
  qed
qed

lemma heap_next_capacity_unat:
  "unat (dv_heap_next_capacity cap) =
     (if unat cap < 8 then 8 else min (2 ^ 64 - 1) (unat cap + unat cap div 2))"
proof (cases "cap < DV_HEAP_MIN_CAPACITY")
  case True
  then have "unat cap < 8" by (simp add: DV_HEAP_MIN_CAPACITY_def word_less_nat_alt)
  then show ?thesis using True
    by (auto simp: dv_heap_next_capacity_def DV_HEAP_MIN_CAPACITY_def)
next
  case False
  then have ge: "8 \<le> unat cap"
    by (simp add: DV_HEAP_MIN_CAPACITY_def word_less_nat_alt word_le_nat_alt)
  have half: "unat (cap div 2) = unat cap div 2" by (simp add: unat_div)
  have le: "cap div 2 \<le> SIZE_MAX"
    using unat_le_SIZE_MAX [of "cap div 2"] by (simp only: word_le_nat_alt unat_SIZE_MAX)
  have guard: "(cap > SIZE_MAX - cap div 2) = (2 ^ 64 - 1 < unat cap + unat cap div 2)"
    using unat_le_SIZE_MAX [of "cap div 2"] unat_sub [OF le]
    unfolding word_less_nat_alt unat_SIZE_MAX half by auto
  show ?thesis
  proof (cases "2 ^ 64 - 1 < unat cap + unat cap div 2")
    case True
    then show ?thesis using False guard by (simp add: dv_heap_next_capacity_def Let_def)
  next
    case fits: False
    then have "unat (cap + cap div 2) = unat cap + unat cap div 2"
      using unat_add_no_ovf [of cap "cap div 2"] half by simp
    then show ?thesis using False fits guard ge by (simp add: dv_heap_next_capacity_def Let_def)
  qed
qed

section \<open>The default hooks meet the contract\<close>

context libc_heap
begin

lemma heap_over_aligned_length:
  "dv_heap_over_aligned_alloc L n al w = (Some b, w') \<Longrightarrow> unat n \<le> length (blk_data b)"
  by (auto simp: dv_heap_over_aligned_alloc_def split: option.splits
           dest!: dv_heap_align_up_Some aligned_alloc_length)

lemma heap_default_realloc_spec:
  assumes "unat n \<le> length (blk_data b)"
  shows "\<exists>r w'. dv_heap_default_realloc L b n n' al u w = Some (r, w') \<and>
           (\<forall>b'. r = Some b' \<longrightarrow> unat n' \<le> length (blk_data b') \<and>
              take (min (unat n) (unat n')) (blk_data b') = take (min (unat n) (unat n')) (blk_data b))"
proof (cases "al \<le> DV_HEAP_MALLOC_ALIGN")
  case True
  obtain r w' where r: "c_realloc L b n' w = (r, w')" by fastforce
  have "take (min (unat n) (unat n')) (blk_data b') = take (min (unat n) (unat n')) (blk_data b)"
    if "r = Some b'" for b'
  proof -
    have "take (min (unat n) (unat n')) (take (min (length (blk_data b)) (unat n')) (blk_data b')) =
          take (min (unat n) (unat n')) (take (min (length (blk_data b)) (unat n')) (blk_data b))"
      using realloc_keeps r that by simp
    moreover have "min (unat n) (unat n') \<le> min (length (blk_data b)) (unat n')"
      using assms by (simp add: min.coboundedI1)
    ultimately show ?thesis by (simp add: min_absorb1)
  qed
  then show ?thesis using True r realloc_length by (auto simp: dv_heap_default_realloc_def)
next
  case False
  obtain r w1 where r: "dv_heap_over_aligned_alloc L n' al w = (r, w1)" by fastforce
  show ?thesis
  proof (cases r)
    case None
    then show ?thesis using False r by (simp add: dv_heap_default_realloc_def)
  next
    case (Some m)
    let ?c = "if n < n' then n else n'"
    have c: "unat ?c = min (unat n) (unat n')" by (auto simp: word_less_nat_alt)
    have len: "unat n' \<le> length (blk_data m)" using heap_over_aligned_length r Some by blast
    then obtain d where "copy_live (blk_data m) (blk_data b) ?c = Some d"
      "length d = length (blk_data m)" "take (unat ?c) d = take (unat ?c) (blk_data b)"
      using copy_live_ok [of ?c "blk_data b" "blk_data m"] assms
      unfolding c by (meson min.coboundedI1 min.coboundedI2)
    then show ?thesis using False r Some len c by (simp add: dv_heap_default_realloc_def)
  qed
qed

sublocale heap_default: allocator_contract "dv_heap_default_allocator L"
proof unfold_locales
  fix f :: "'w alloc_fn" and n al :: size_t and u :: ptr and w w' :: 'w and b :: block
  assume f: "hk_alloc (dv_heap_default_allocator L) = Some f"
  then have f': "f = dv_heap_default_alloc L" by (simp add: dv_heap_default_allocator_def)
  show "\<exists>r w'. f n al u w = Some (r, w')"
    by (cases "dv_heap_over_aligned_alloc L n al w"; cases "c_malloc L n w")
       (auto simp: f' dv_heap_default_alloc_def)
  assume "f n al u w = Some (Some b, w')"
  then show "unat n \<le> length (blk_data b)"
    using malloc_length heap_over_aligned_length
    by (auto simp: f' dv_heap_default_alloc_def split: if_splits)
next
  fix g :: "'w realloc_fn" and n n' al :: size_t and u :: ptr and w w' :: 'w and b b' :: block
  assume "hk_realloc (dv_heap_default_allocator L) = Some g" and len: "unat n \<le> length (blk_data b)"
  then have g: "g = dv_heap_default_realloc L" by (simp add: dv_heap_default_allocator_def)
  note spec = heap_default_realloc_spec [OF len, of n' al u w]
  show "\<exists>r w'. g b n n' al u w = Some (r, w')" using spec g by blast
  assume "g b n n' al u w = Some (Some b', w')"
  then show "unat n' \<le> length (blk_data b')"
    and "take (min (unat n) (unat n')) (blk_data b') = take (min (unat n) (unat n')) (blk_data b)"
    using spec g by auto
next
  fix h :: "'w free_fn" and n al :: size_t and u :: ptr and w :: 'w and b :: block
  assume "hk_free (dv_heap_default_allocator L) = Some h"
  then show "\<exists>w'. h b n al u w = Some w'"
    by (auto simp: dv_heap_default_allocator_def dv_heap_default_free_def)
qed

lemma heap_default_contract: "allocator_contract (dv_heap_default_allocator L)"
  by (rule heap_default.allocator_contract_axioms)

end

interpretation bump_heap: allocator_contract "dv_heap_default_allocator bump_libc"
  by (rule bump.heap_default.allocator_contract_axioms)

section \<open>Invariant and abstraction\<close>

definition heap_data :: "'w dv_heap_t \<Rightarrow> byte list" where
  "heap_data h = (case hp_buffer h of None \<Rightarrow> [] | Some b \<Rightarrow> blk_data b)"

definition heap_mem :: "'w dv_heap_t \<Rightarrow> bool" where
  "heap_mem h \<longleftrightarrow>
     hp_elem_size h \<noteq> 0 \<and> hp_size h \<le> hp_capacity h \<and>
     heap_fits (hp_capacity h) (hp_elem_size h) \<and>
     (hp_buffer h = None) = (hp_capacity h = 0) \<and>
     heap_bytes (hp_capacity h) (hp_elem_size h) \<le> length (heap_data h) \<and>
     allocator_contract (hp_allocator h) \<and>
     hk_alloc (hp_allocator h) \<noteq> None \<and> hk_free (hp_allocator h) \<noteq> None"

definition heap_policy :: "'w dv_heap_t \<Rightarrow> bool" where
  "heap_policy h \<longleftrightarrow>
     (if hp_growable h
      then hp_max_capacity h \<noteq> 0 \<longrightarrow>
             hp_capacity h \<le> hp_max_capacity h \<and> hp_initial_capacity h \<le> hp_max_capacity h
      else hp_capacity h = hp_initial_capacity h) \<and>
     heap_fits (hp_initial_capacity h) (hp_elem_size h)"

definition heap_inv :: "'w dv_heap_t \<Rightarrow> bool" where
  "heap_inv h \<longleftrightarrow> heap_mem h \<and> heap_policy h"

definition heap_elems :: "'w dv_heap_t \<Rightarrow> byte list list" where
  "heap_elems h = chunks (unat (hp_elem_size h)) (heap_data h) (unat (hp_size h))"

lemma length_heap_elems [simp]: "length (heap_elems h) = unat (hp_size h)"
  by (simp add: heap_elems_def)

lemma heap_mem_facts:
  assumes "heap_mem h"
  shows "unat (hp_size h) \<le> unat (hp_capacity h)" "0 < unat (hp_elem_size h)"
    and "unat (hp_capacity h) \<le> 2 ^ 63 - 2"
    and "(unat (hp_capacity h) + 1) * unat (hp_elem_size h) < 2 ^ 64"
  using assms by (simp_all add: heap_mem_def heap_fits_def word_le_nat_alt unat_gt_0)

lemma heap_slot_unat:
  assumes "heap_mem h" "unat i \<le> unat (hp_capacity h)"
  shows "unat (i * hp_elem_size h) = unat i * unat (hp_elem_size h)"
proof (rule unat_mult_no_ovf)
  have "unat i * unat (hp_elem_size h) \<le> (unat (hp_capacity h) + 1) * unat (hp_elem_size h)"
    using assms(2) by (intro mult_le_mono1) simp
  then show "unat i * unat (hp_elem_size h) < 2 ^ 64" using heap_mem_facts(4) [OF assms(1)] by linarith
qed

lemma heap_slot_bound:
  assumes "heap_mem h" "i \<le> unat (hp_capacity h)" "0 < unat (hp_capacity h)"
  shows "i * unat (hp_elem_size h) + unat (hp_elem_size h) \<le> length (heap_data h)"
proof -
  have "(unat (hp_capacity h) + 1) * unat (hp_elem_size h) \<le> length (heap_data h)"
    using assms by (auto simp: heap_mem_def heap_bytes_def)
  then show ?thesis using slot_fits [of i "unat (hp_capacity h) + 1"] assms(2) by simp
qed

lemma length_heap_elem:
  assumes "heap_mem h" "i < unat (hp_size h)"
  shows "length (heap_elems h ! i) = unat (hp_elem_size h)"
  using assms heap_slot_bound [OF assms(1), of i] heap_mem_facts(1) [OF assms(1)]
  by (simp add: heap_elems_def length_chunk)

lemma length_heap_elems_elem:
  assumes "heap_mem h" "e \<in> set (heap_elems h)"
  shows "length e = unat (hp_elem_size h)"
  using assms length_heap_elem by (metis in_set_conv_nth length_heap_elems)

lemma heap_elems_cong:
  assumes "hp_elem_size h' = hp_elem_size h" "hp_size h' = hp_size h"
    and "take (unat (hp_size h) * unat (hp_elem_size h)) (heap_data h') =
         take (unat (hp_size h) * unat (hp_elem_size h)) (heap_data h)"
  shows "heap_elems h' = heap_elems h"
  unfolding heap_elems_def assms(1,2) by (rule chunks_cong_take) (rule assms(3))

section \<open>Changing the capacity\<close>

text \<open>Only the buffer, the size and the capacity differ.\<close>

definition same_setup :: "'w dv_heap_t \<Rightarrow> 'w dv_heap_t \<Rightarrow> bool" where
  "same_setup h h' \<longleftrightarrow>
     h' = h\<lparr>hp_buffer := hp_buffer h', hp_size := hp_size h', hp_capacity := hp_capacity h'\<rparr>"

lemma same_setup_refl [simp]: "same_setup h h"
  by (simp add: same_setup_def)

lemma same_setupI:
  "h' = h\<lparr>hp_buffer := b, hp_size := n, hp_capacity := c\<rparr> \<Longrightarrow> same_setup h h'"
  by (simp add: same_setup_def)

lemma same_setupD:
  assumes "same_setup h h'"
  shows "hp_elem_size h' = hp_elem_size h" "hp_key_offset h' = hp_key_offset h"
    "hp_key_type h' = hp_key_type h" "hp_order h' = hp_order h" "hp_key_indirect h' = hp_key_indirect h"
    "hp_compare h' = hp_compare h" "hp_compare_user_data h' = hp_compare_user_data h"
    "hp_on_move h' = hp_on_move h" "hp_move_user_data h' = hp_move_user_data h"
    "hp_align h' = hp_align h" "hp_initial_capacity h' = hp_initial_capacity h"
    "hp_max_capacity h' = hp_max_capacity h" "hp_allocator h' = hp_allocator h"
    "hp_growable h' = hp_growable h" "hp_ptr_mode h' = hp_ptr_mode h"
  by (subst assms [unfolded same_setup_def], simp)+

lemma same_setup_trans: "same_setup h h1 \<Longrightarrow> same_setup h1 h2 \<Longrightarrow> same_setup h h2"
  unfolding same_setup_def by (cases h; cases h1; cases h2) simp

definition heap_resized :: "'w dv_heap_t \<Rightarrow> size_t \<Rightarrow> 'w dv_heap_t \<Rightarrow> bool" where
  "heap_resized h n h' \<longleftrightarrow> same_setup h h' \<and> hp_size h' = hp_size h \<and> hp_capacity h' = n \<and>
     heap_mem h' \<and> heap_elems h' = heap_elems h"

text \<open>Every outcome of \<open>set_capacity\<close>; the world stays in any set the hooks stay in.\<close>

definition capacity_result ::
  "'w dv_heap_t \<Rightarrow> size_t \<Rightarrow> 'w \<Rightarrow> dv_heap_status_t \<Rightarrow> 'w dv_heap_t \<Rightarrow> 'w \<Rightarrow> bool"
where
  "capacity_result h n w status h' w' \<longleftrightarrow>
     (\<forall>W. w \<in> W \<and> hooks_keep W (hp_allocator h) \<longrightarrow> w' \<in> W) \<and>
     (case status of
        DV_HEAP_OK \<Rightarrow> heap_resized h n h' \<and> (n = hp_capacity h \<longrightarrow> h' = h \<and> w' = w)
      | DV_HEAP_ERR_INVALID \<Rightarrow> h' = h \<and> w' = w \<and> n < hp_size h
      | DV_HEAP_ERR_OVERFLOW \<Rightarrow> h' = h \<and> w' = w \<and> \<not> heap_fits n (hp_elem_size h)
      | DV_HEAP_ERR_NOMEM \<Rightarrow> h' = h \<and> n \<noteq> 0
      | _ \<Rightarrow> False)"

lemma set_capacity_release:
  assumes mem: "heap_mem h" and n: "hp_capacity h \<noteq> 0" "hp_size h = 0"
  shows "\<exists>w'. dv_heap_set_capacity h 0 w =
           Some (DV_HEAP_OK, h\<lparr>hp_buffer := None, hp_capacity := 0\<rparr>, w') \<and>
           capacity_result h 0 w DV_HEAP_OK (h\<lparr>hp_buffer := None, hp_capacity := 0\<rparr>) w'"
proof -
  obtain ob where ob: "dv_heap_bytes_for (hp_capacity h) (hp_elem_size h) = Inr ob"
    "unat ob = heap_bytes (hp_capacity h) (hp_elem_size h)"
    using dv_heap_bytes_for_Inr mem unfolding heap_mem_def by blast
  obtain b f where b: "hp_buffer h = Some b" and f: "hk_free (hp_allocator h) = Some f"
    using mem n by (auto simp: heap_mem_def)
  have "unat ob \<le> length (blk_data b)" using mem b ob by (simp add: heap_mem_def heap_data_def)
  then obtain w' where w': "f b ob (hp_align h) (hk_user_data (hp_allocator h)) w = Some w'"
    using allocator_contract.free_returns [OF _ f] mem unfolding heap_mem_def by blast
  let ?h = "h\<lparr>hp_buffer := None, hp_capacity := 0\<rparr>"
  have "heap_mem ?h" using mem n
    by (simp add: heap_mem_def heap_fits_def heap_bytes_def heap_data_def)
  moreover have "heap_elems ?h = heap_elems h" using n by (simp add: heap_elems_def)
  ultimately have "heap_resized h 0 ?h"
    by (simp add: heap_resized_def same_setup_def)
  moreover have "dv_heap_set_capacity h 0 w = Some (DV_HEAP_OK, ?h, w')"
    using n b f ob w' by (simp add: dv_heap_set_capacity_def dv_heap_bytes_for_def [of 0])
  ultimately show ?thesis using w' hooks_keep_free [OF _ f] n by (auto simp: capacity_result_def)
qed

lemma set_capacity_move:
  assumes mem: "heap_mem h" and n: "n \<noteq> hp_capacity h" "n \<noteq> 0" "\<not> n < hp_size h"
    and fit: "heap_fits n (hp_elem_size h)"
  shows "\<exists>status h' w'. dv_heap_set_capacity h n w = Some (status, h', w') \<and> capacity_result h n w status h' w'"
proof -
  obtain ob where ob: "dv_heap_bytes_for (hp_capacity h) (hp_elem_size h) = Inr ob"
    "unat ob = heap_bytes (hp_capacity h) (hp_elem_size h)"
    using dv_heap_bytes_for_Inr mem unfolding heap_mem_def by blast
  obtain nb where nb: "dv_heap_bytes_for n (hp_elem_size h) = Inr nb" "unat nb = heap_bytes n (hp_elem_size h)"
    using dv_heap_bytes_for_Inr [OF fit] by blast
  have nb0: "nb \<noteq> 0" using nb(2) n(2) heap_mem_facts(2) [OF mem] by (auto simp: heap_bytes_def)
  have live: "unat (hp_size h * hp_elem_size h) = unat (hp_size h) * unat (hp_elem_size h)"
    by (rule heap_slot_unat [OF mem heap_mem_facts(1) [OF mem]])
  have sz: "unat (hp_size h) \<le> unat n" using n(3) by (simp add: word_le_nat_alt [symmetric] not_less)
  have lo: "unat (hp_size h * hp_elem_size h) \<le> unat ob" if "hp_buffer h = Some b" for b
    using that mem heap_mem_facts(1) [OF mem] unfolding live ob
    by (auto simp: heap_bytes_def heap_mem_def intro: trans_le_add2 mult_le_mono1)
  have lo0: "unat (hp_size h * hp_elem_size h) \<le> unat ob"
  proof (cases "hp_buffer h")
    case None
    then have "hp_size h = 0" using mem by (auto simp: heap_mem_def)
    then show ?thesis by simp
  qed (rule lo)
  have ln: "unat (hp_size h * hp_elem_size h) \<le> unat nb"
    unfolding live nb using n(2) sz by (auto simp: heap_bytes_def intro: trans_le_add2 mult_le_mono1)
  have contract: "allocator_contract (hp_allocator h)" using mem by (simp add: heap_mem_def)
  have fns: "hk_alloc (hp_allocator h) \<noteq> None" "hk_free (hp_allocator h) \<noteq> None"
    using mem by (simp_all add: heap_mem_def)
  have old: "unat ob \<le> length (blk_data b)" if "hp_buffer h = Some b" for b
    using that mem ob by (simp add: heap_mem_def heap_data_def)
  obtain r w' where r: "resize_mem (hp_allocator h) (hp_buffer h) ob nb (hp_size h * hp_elem_size h)
        (hp_align h) w = Some (r, w')"
    and len: "\<And>m. r = Some m \<Longrightarrow> unat nb \<le> length (blk_data m)"
    and keep: "\<And>m b. r = Some m \<Longrightarrow> hp_buffer h = Some b \<Longrightarrow>
      take (unat (hp_size h * hp_elem_size h)) (blk_data m) =
      take (unat (hp_size h * hp_elem_size h)) (blk_data b)"
    using allocator_contract.resize_mem_ok [OF contract fns old lo0 ln] by blast
  have world: "\<forall>W. w \<in> W \<and> hooks_keep W (hp_allocator h) \<longrightarrow> w' \<in> W"
    using resize_mem_keeps r by metis
  have res: "heap_resized h n (h\<lparr>hp_buffer := Some m, hp_capacity := n\<rparr>)" if m: "r = Some m" for m
  proof -
    have "heap_elems (h\<lparr>hp_buffer := Some m, hp_capacity := n\<rparr>) = heap_elems h"
    proof (cases "hp_buffer h")
      case None
      then have "hp_size h = 0" using mem by (auto simp: heap_mem_def)
      then show ?thesis by (simp add: heap_elems_def)
    next
      case (Some b)
      then show ?thesis using keep [OF m Some]
        by (intro heap_elems_cong) (simp_all add: heap_data_def live)
    qed
    then show ?thesis using mem n fit len [OF m] nb(2)
      by (simp add: heap_resized_def heap_mem_def heap_data_def not_less same_setup_def)
  qed
  show ?thesis
  proof (cases r)
    case None
    then have "dv_heap_set_capacity h n w = Some (DV_HEAP_ERR_NOMEM, h, w')"
      using n ob nb nb0 r by (simp add: dv_heap_set_capacity_def)
    then show ?thesis using world n(2) by (auto simp: capacity_result_def)
  next
    case (Some m)
    then have "dv_heap_set_capacity h n w = Some (DV_HEAP_OK, h\<lparr>hp_buffer := Some m, hp_capacity := n\<rparr>, w')"
      using n ob nb nb0 r by (simp add: dv_heap_set_capacity_def)
    then show ?thesis using world n(1) res [OF Some] by (auto simp: capacity_result_def)
  qed
qed

lemma heap_resized_refl: "heap_mem h \<Longrightarrow> heap_resized h (hp_capacity h) h"
  by (simp add: heap_resized_def)

lemma dv_heap_set_capacity_spec:
  assumes mem: "heap_mem h"
  shows "\<exists>status h' w'. dv_heap_set_capacity h n w = Some (status, h', w') \<and> capacity_result h n w status h' w'"
proof -
  obtain ob where ob: "dv_heap_bytes_for (hp_capacity h) (hp_elem_size h) = Inr ob"
    using dv_heap_bytes_for_Inr mem unfolding heap_mem_def by blast
  consider (same) "n = hp_capacity h" | (low) "n \<noteq> hp_capacity h" "n < hp_size h"
    | (big) "n \<noteq> hp_capacity h" "\<not> n < hp_size h" "\<not> heap_fits n (hp_elem_size h)"
    | (rel) "n \<noteq> hp_capacity h" "n = 0" "\<not> n < hp_size h"
    | (move) "n \<noteq> hp_capacity h" "n \<noteq> 0" "\<not> n < hp_size h" "heap_fits n (hp_elem_size h)"
    by blast
  then show ?thesis
  proof cases
    case same
    then show ?thesis using heap_resized_refl [OF mem]
      by (simp add: dv_heap_set_capacity_def capacity_result_def)
  next
    case low
    then show ?thesis by (simp add: dv_heap_set_capacity_def capacity_result_def)
  next
    case big
    then show ?thesis using ob dv_heap_bytes_for_Inl [OF big(3)]
      by (simp add: dv_heap_set_capacity_def capacity_result_def)
  next
    case rel
    then have "hp_size h = 0" "hp_capacity h \<noteq> 0" by (auto simp: word_gt_0)
    then show ?thesis using set_capacity_release [OF mem] rel(2) by blast
  next
    case move
    then show ?thesis using set_capacity_move [OF mem] by blast
  qed
qed

section \<open>Growth\<close>

definition grown :: "'w dv_heap_t \<Rightarrow> 'w \<Rightarrow> dv_heap_status_t \<Rightarrow> 'w dv_heap_t \<Rightarrow> 'w \<Rightarrow> bool" where
  "grown h w status h' w' \<longleftrightarrow>
     heap_inv h' \<and> same_setup h h' \<and> hp_size h' = hp_size h \<and> heap_elems h' = heap_elems h \<and>
     (status \<noteq> DV_HEAP_OK \<longrightarrow> h' = h) \<and>
     (\<forall>W. w \<in> W \<and> hooks_keep W (hp_allocator h) \<longrightarrow> w' \<in> W) \<and>
     status \<in> {DV_HEAP_OK, DV_HEAP_ERR_FULL, DV_HEAP_ERR_NOMEM, DV_HEAP_ERR_OVERFLOW}"

lemma grown_refl: "heap_inv h \<Longrightarrow> status \<in> {DV_HEAP_OK, DV_HEAP_ERR_FULL} \<Longrightarrow> grown h w status h w"
  by (auto simp: grown_def)

lemma heap_policy_resized:
  assumes "heap_policy h" "heap_resized h n h'"
    and "hp_growable h \<Longrightarrow> hp_max_capacity h \<noteq> 0 \<Longrightarrow> n \<le> hp_max_capacity h"
    and "\<not> hp_growable h \<Longrightarrow> n = hp_initial_capacity h"
  shows "heap_policy h'"
proof -
  have "same_setup h h'" "hp_capacity h' = n" using assms(2) by (simp_all add: heap_resized_def)
  then show ?thesis using assms(1,3,4) by (auto simp: heap_policy_def same_setupD)
qed

lemma heap_clamp_le_max:
  "hp_max_capacity h \<noteq> 0 \<Longrightarrow> dv_heap_clamp_capacity h n \<le> hp_max_capacity h"
  by (auto simp: dv_heap_clamp_capacity_def)

lemma set_capacity_grown:
  assumes inv: "heap_inv h" and ge: "hp_size h \<le> n"
    and max: "hp_growable h \<Longrightarrow> hp_max_capacity h \<noteq> 0 \<Longrightarrow> n \<le> hp_max_capacity h"
    and fixed: "\<not> hp_growable h \<Longrightarrow> n = hp_initial_capacity h"
  shows "\<exists>status h' w'. dv_heap_set_capacity h n w = Some (status, h', w') \<and>
           grown h w status h' w' \<and> status \<noteq> DV_HEAP_ERR_FULL \<and> (status = DV_HEAP_OK \<longrightarrow> hp_capacity h' = n) \<and>
           (heap_fits n (hp_elem_size h) \<longrightarrow> status \<noteq> DV_HEAP_ERR_OVERFLOW)"
proof -
  have mem: "heap_mem h" using inv by (simp add: heap_inv_def)
  obtain status h' w' where sc: "dv_heap_set_capacity h n w = Some (status, h', w')"
    and c: "capacity_result h n w status h' w'"
    using dv_heap_set_capacity_spec [OF mem] by blast
  have w: "\<forall>W. w \<in> W \<and> hooks_keep W (hp_allocator h) \<longrightarrow> w' \<in> W" using c by (simp add: capacity_result_def)
  show ?thesis
  proof (cases "status = DV_HEAP_OK")
    case True
    then have r: "heap_resized h n h'" using c by (simp add: capacity_result_def)
    have "heap_policy h'"
      by (rule heap_policy_resized [OF _ r]) (use inv max fixed in \<open>auto simp: heap_inv_def\<close>)
    then show ?thesis using sc True r w by (auto simp: grown_def heap_inv_def heap_resized_def)
  next
    case False
    then have "h' = h" "status \<in> {DV_HEAP_ERR_NOMEM, DV_HEAP_ERR_OVERFLOW}"
      "heap_fits n (hp_elem_size h) \<longrightarrow> status \<noteq> DV_HEAP_ERR_OVERFLOW"
      using c ge by (cases status; auto simp: capacity_result_def)+
    then show ?thesis using sc inv w by (auto simp: grown_def)
  qed
qed

lemma heap_push_prepare:
  assumes inv: "heap_inv h"
  shows "\<exists>status h' w'.
           (if hp_size h = hp_capacity h then dv_heap_grow_for_push h w else Some (DV_HEAP_OK, h, w)) =
             Some (status, h', w') \<and>
           grown h w status h' w' \<and> (status = DV_HEAP_OK \<longrightarrow> hp_size h' < hp_capacity h') \<and>
           (hp_size h < hp_capacity h \<longrightarrow> status = DV_HEAP_OK \<and> h' = h \<and> w' = w) \<and>
           (\<not> hp_growable h \<and> hp_size h = hp_capacity h \<longrightarrow> status = DV_HEAP_ERR_FULL \<and> w' = w)"
proof -
  have le: "hp_size h \<le> hp_capacity h" using inv by (simp add: heap_inv_def heap_mem_def)
  let ?n = "dv_heap_clamp_capacity h (dv_heap_next_capacity (hp_capacity h))"
  consider (room) "hp_size h < hp_capacity h"
    | (stuck) "hp_size h = hp_capacity h" "\<not> hp_growable h \<or> ?n \<le> hp_capacity h"
    | (grow) "hp_size h = hp_capacity h" "hp_growable h" "hp_capacity h < ?n"
    using le by fastforce
  then show ?thesis
  proof cases
    case grow
    obtain status h' w' where "dv_heap_set_capacity h ?n w = Some (status, h', w')"
      "grown h w status h' w'" "status = DV_HEAP_OK \<longrightarrow> hp_capacity h' = ?n"
      using set_capacity_grown [OF inv, of ?n w] heap_clamp_le_max grow by (metis order_less_imp_le)
    then show ?thesis using grow by (auto simp: dv_heap_grow_for_push_def Let_def grown_def)
  qed (use grown_refl [OF inv] in \<open>auto simp: dv_heap_grow_for_push_def Let_def\<close>)
qed

lemma dv_heap_reserve_spec:
  assumes inv: "heap_inv h"
  shows "\<exists>status h' w'. dv_heap_reserve (Some h) cap w = Some (status, Some h', w') \<and>
           grown h w status h' w' \<and>
           (status = DV_HEAP_OK \<longrightarrow> hp_capacity h' = max (hp_capacity h) cap) \<and>
           (status = DV_HEAP_ERR_FULL \<longleftrightarrow>
              hp_capacity h < cap \<and>
              (\<not> hp_growable h \<or> (hp_max_capacity h \<noteq> 0 \<and> hp_max_capacity h < cap)))"
proof -
  have le: "hp_size h \<le> hp_capacity h" using inv by (simp add: heap_inv_def heap_mem_def)
  consider (room) "cap \<le> hp_capacity h"
    | (full) "hp_capacity h < cap" "\<not> hp_growable h \<or> (hp_max_capacity h \<noteq> 0 \<and> hp_max_capacity h < cap)"
    | (grow) "hp_capacity h < cap" "hp_growable h" "hp_max_capacity h \<noteq> 0 \<longrightarrow> cap \<le> hp_max_capacity h"
    by fastforce
  then show ?thesis
  proof cases
    case grow
    have "hp_size h \<le> cap" using grow le by order
    then obtain status h' w' where "dv_heap_set_capacity h cap w = Some (status, h', w')"
      "grown h w status h' w'" "status \<noteq> DV_HEAP_ERR_FULL" "status = DV_HEAP_OK \<longrightarrow> hp_capacity h' = cap"
      using set_capacity_grown [OF inv, of cap w] grow by blast
    then show ?thesis using grow by (auto simp: max_def not_le)
  qed (use grown_refl [OF inv] in \<open>auto simp: max_def not_le\<close>)
qed

lemma dv_heap_shrink_to_fit_spec:
  assumes inv: "heap_inv h"
  shows "\<exists>status h' w'. dv_heap_shrink_to_fit (Some h) w = Some (status, Some h', w') \<and>
           grown h w status h' w' \<and> status \<noteq> DV_HEAP_ERR_FULL \<and>
           (status = DV_HEAP_OK \<longrightarrow> hp_capacity h' = (if hp_growable h then hp_size h else hp_capacity h))"
proof (cases "\<not> hp_growable h \<or> hp_capacity h = hp_size h")
  case True
  then show ?thesis using grown_refl [OF inv] by auto
next
  case False
  have "hp_size h \<le> hp_max_capacity h" if "hp_max_capacity h \<noteq> 0"
    using inv that False by (auto simp: heap_inv_def heap_mem_def heap_policy_def)
  then show ?thesis using set_capacity_grown [OF inv, of "hp_size h" w] False by auto
qed

lemma heap_lower_size:
  assumes inv: "heap_inv h" and n: "n \<le> hp_size h"
  shows "heap_inv (h\<lparr>hp_size := n\<rparr>)" "same_setup h (h\<lparr>hp_size := n\<rparr>)"
    "heap_elems (h\<lparr>hp_size := n\<rparr>) = take (unat n) (heap_elems h)"
proof -
  have "n \<le> hp_capacity h" using n inv by (auto simp: heap_inv_def heap_mem_def)
  then show "heap_inv (h\<lparr>hp_size := n\<rparr>)"
    using inv by (simp add: heap_inv_def heap_mem_def heap_policy_def heap_data_def)
  show "same_setup h (h\<lparr>hp_size := n\<rparr>)" by (simp add: same_setup_def)
  show "heap_elems (h\<lparr>hp_size := n\<rparr>) = take (unat n) (heap_elems h)"
    using n by (simp add: heap_elems_def heap_data_def take_chunks word_le_nat_alt)
qed

lemma dv_heap_reset_spec:
  assumes inv: "heap_inv h"
  shows "\<exists>status h' w'. dv_heap_reset (Some h) w = Some (status, Some h', w') \<and>
           heap_inv h' \<and> same_setup h h' \<and> heap_elems h' = [] \<and>
           status \<in> {DV_HEAP_OK, DV_HEAP_ERR_NOMEM} \<and>
           (status = DV_HEAP_OK \<longrightarrow> hp_capacity h' = hp_initial_capacity h)"
proof -
  let ?h = "h\<lparr>hp_size := 0\<rparr>"
  have z: "0 \<le> hp_size h" by simp
  note low = heap_lower_size [OF inv z]
  have fit: "heap_fits (hp_initial_capacity ?h) (hp_elem_size ?h)"
    using inv by (simp add: heap_inv_def heap_policy_def)
  have max: "hp_initial_capacity h \<le> hp_max_capacity h" if "hp_growable h" "hp_max_capacity h \<noteq> 0"
    using inv that by (simp add: heap_inv_def heap_policy_def)
  obtain status h' w' where sc: "dv_heap_set_capacity ?h (hp_initial_capacity h) w = Some (status, h', w')"
    and g: "grown ?h w status h' w'" "status \<noteq> DV_HEAP_ERR_FULL"
      "status = DV_HEAP_OK \<longrightarrow> hp_capacity h' = hp_initial_capacity h" "status \<noteq> DV_HEAP_ERR_OVERFLOW"
    using set_capacity_grown [OF low(1), of "hp_initial_capacity h" w] fit max by auto
  then show ?thesis using low(2) same_setup_trans [OF low(2)] g low(3)
    by (auto simp: grown_def)
qed

lemma dv_heap_destroy_spec:
  assumes inv: "heap_inv h"
  shows "\<exists>w'. dv_heap_destroy (Some h) w = Some (Some zero_heap, w')"
proof (cases "hp_buffer h")
  case None
  then show ?thesis by simp
next
  case (Some b)
  have mem: "heap_mem h" using inv by (simp add: heap_inv_def)
  obtain ob where ob: "dv_heap_bytes_for (hp_capacity h) (hp_elem_size h) = Inr ob"
    "unat ob = heap_bytes (hp_capacity h) (hp_elem_size h)"
    using dv_heap_bytes_for_Inr mem unfolding heap_mem_def by blast
  obtain f where f: "hk_free (hp_allocator h) = Some f" using mem by (auto simp: heap_mem_def)
  have "unat ob \<le> length (blk_data b)" using mem Some ob by (simp add: heap_mem_def heap_data_def)
  then obtain w' where "f b ob (hp_align h) (hk_user_data (hp_allocator h)) w = Some w'"
    using allocator_contract.free_returns [OF _ f] mem unfolding heap_mem_def by blast
  then show ?thesis using Some f ob by simp
qed

section \<open>Bulk growth and bulk stores\<close>

lemma dv_heap_grow_for_bulk_spec:
  assumes inv: "heap_inv h" and g: "hp_growable h" and need: "hp_size h \<le> needed"
  shows "\<exists>h' w'. dv_heap_grow_for_bulk h needed w = Some (h', w') \<and> grown h w DV_HEAP_OK h' w'"
proof -
  let ?curve = "dv_heap_next_capacity (hp_capacity h)"
  let ?target = "dv_heap_clamp_capacity h (if needed > ?curve then needed else ?curve)"
  let ?exact = "dv_heap_clamp_capacity h needed"
  have le: "hp_size h \<le> hp_capacity h" using inv by (simp add: heap_inv_def heap_mem_def)
  have set: "\<exists>status h' w'. dv_heap_set_capacity h n w = Some (status, h', w') \<and> grown h w status h' w'"
    if "hp_capacity h < n" "hp_max_capacity h \<noteq> 0 \<Longrightarrow> n \<le> hp_max_capacity h" for n w
  proof -
    have "hp_size h \<le> n" using that(1) le by order
    then show ?thesis using set_capacity_grown [OF inv, of n w] that(2) g by blast
  qed
  have exact: "\<exists>h' w'.
      (if ?exact > hp_capacity h \<and> ?exact < ?target
       then do { (_, h2, w2) \<leftarrow> dv_heap_set_capacity h ?exact w; Some (h2, w2) }
       else Some (h, w)) = Some (h', w') \<and> grown h w DV_HEAP_OK h' w'" for w
  proof (cases "hp_capacity h < ?exact \<and> ?exact < ?target")
    case True
    obtain status h' w' where sc: "dv_heap_set_capacity h ?exact w = Some (status, h', w')"
      "grown h w status h' w'"
      using set [of ?exact w] True heap_clamp_le_max by blast
    then show ?thesis using True by (auto simp: grown_def)
  next
    case False
    then show ?thesis using grown_refl [OF inv] by auto
  qed
  show ?thesis
  proof (cases "hp_capacity h < ?target")
    case True
    obtain status h' w' where sc: "dv_heap_set_capacity h ?target w = Some (status, h', w')"
      "grown h w status h' w'"
      using set [of ?target w] True heap_clamp_le_max by blast
    show ?thesis
    proof (cases "status = DV_HEAP_OK")
      case ok: True
      then show ?thesis using sc True by (auto simp: dv_heap_grow_for_bulk_def Let_def)
    next
      case False
      then have h': "h' = h" using sc by (simp add: grown_def)
      obtain h2 w2 where "(if ?exact > hp_capacity h \<and> ?exact < ?target
       then do { (_, h2, w2) \<leftarrow> dv_heap_set_capacity h ?exact w'; Some (h2, w2) }
       else Some (h, w')) = Some (h2, w2)" "grown h w' DV_HEAP_OK h2 w2" using exact [of w'] by blast
      then show ?thesis using sc True False h'
        by (auto simp: dv_heap_grow_for_bulk_def Let_def grown_def)
    qed
  next
    case False
    then show ?thesis using exact [of w] by (simp add: dv_heap_grow_for_bulk_def Let_def)
  qed
qed

lemma heap_bulk_prepare:
  assumes inv: "heap_inv h"
  shows "\<exists>h1 w1. (if hp_capacity h - hp_size h < cnt \<and> hp_growable h \<and> cnt \<le> SIZE_MAX - hp_size h
    then dv_heap_grow_for_bulk h (hp_size h + cnt) w else Some (h, w)) = Some (h1, w1) \<and>
    grown h w DV_HEAP_OK h1 w1 \<and> (cnt \<le> hp_capacity h - hp_size h \<longrightarrow> h1 = h \<and> w1 = w)"
proof (cases "hp_capacity h - hp_size h < cnt \<and> hp_growable h \<and> cnt \<le> SIZE_MAX - hp_size h")
  case True
  have t: "hp_size h \<le> SIZE_MAX"
    using unat_le_SIZE_MAX [of "hp_size h"] by (simp only: word_le_nat_alt unat_SIZE_MAX)
  have "unat cnt \<le> 2 ^ 64 - 1 - unat (hp_size h)"
    using True unat_sub [OF t] by (simp only: word_le_nat_alt unat_SIZE_MAX)
  then have "unat (hp_size h) + unat cnt < 2 ^ 64" using unat_lt_64 [of "hp_size h"] by linarith
  then have "hp_size h \<le> hp_size h + cnt" by (simp add: word_le_nat_alt unat_add_no_ovf)
  then show ?thesis using True dv_heap_grow_for_bulk_spec [OF inv, of "hp_size h + cnt" w] by auto
next
  case False
  then show ?thesis using grown_refl [OF inv] by auto
qed

text \<open>Storing \<open>m\<close> elements from slot \<open>t\<close> on.\<close>

lemma heap_store_run:
  assumes inv: "heap_inv h" and room: "unat t + unat m \<le> unat (hp_capacity h)" and m: "m \<noteq> 0"
    and bs: "length bs = unat m * unat (hp_elem_size h)"
  shows "\<exists>h'. heap_store h (dv_heap_slot h t) bs = Some h' \<and>
           same_setup h (h'\<lparr>hp_size := t + m\<rparr>) \<and> hp_capacity h' = hp_capacity h \<and>
           heap_inv (h'\<lparr>hp_size := t + m\<rparr>) \<and>
           heap_elems (h'\<lparr>hp_size := t + m\<rparr>) =
             chunks (unat (hp_elem_size h)) (heap_data h) (unat t) @ chunks (unat (hp_elem_size h)) bs (unat m)"
proof -
  let ?es = "unat (hp_elem_size h)"
  have mem: "heap_mem h" using inv by (simp add: heap_inv_def)
  have "0 < unat m" using m by (simp add: unat_gt_0)
  then have pos: "0 < unat (hp_capacity h)" using room by linarith
  then obtain b where b: "hp_buffer h = Some b" using mem by (auto simp: heap_mem_def)
  have tc: "unat t \<le> unat (hp_capacity h)" using room by simp
  have "(unat t + unat m) * ?es \<le> unat (hp_capacity h) * ?es" by (rule mult_le_mono1 [OF room])
  moreover have "unat (hp_capacity h) * ?es \<le> length (blk_data b)"
    using heap_slot_bound [OF mem order_refl pos] b by (simp add: heap_data_def)
  ultimately have fit: "unat t * ?es + unat m * ?es \<le> length (blk_data b)"
    by (simp add: add_mult_distrib)
  have tm: "unat (t + m) = unat t + unat m"
    using room unat_lt_64 [of "hp_capacity h"] by (intro unat_add_no_ovf) simp
  let ?d = "take (unat t * ?es) (blk_data b) @ bs @ drop (unat t * ?es + length bs) (blk_data b)"
  let ?h = "h\<lparr>hp_buffer := Some (b\<lparr>blk_data := ?d\<rparr>)\<rparr>"
  have store: "heap_store h (dv_heap_slot h t) bs = Some ?h"
    using fit bs by (simp add: heap_store_def b dv_heap_slot_def heap_slot_unat [OF mem tc] mem_write_def)
  have len: "length ?d = length (blk_data b)" using fit bs by simp
  have "t + m \<le> hp_capacity h" using room tm by (simp add: word_le_nat_alt)
  then have "heap_inv (?h\<lparr>hp_size := t + m\<rparr>)"
    using inv b len by (simp add: heap_inv_def heap_policy_def heap_mem_def heap_data_def)
  moreover have "heap_elems (?h\<lparr>hp_size := t + m\<rparr>) =
      chunks ?es (heap_data h) (unat t) @ chunks ?es bs (unat m)"
    using chunks_write [OF bs fit] by (simp add: heap_elems_def heap_data_def b tm)
  moreover have "same_setup h (?h\<lparr>hp_size := t + m\<rparr>)" by (simp add: same_setup_def)
  ultimately show ?thesis using store by auto
qed

end
