(* ===== verification/Heap_Order.thy ===== *)
theory Heap_Order
  imports Prelude
begin

text \<open>
  The array heap as an algorithm on lists. The locale \<open>heap_order\<close> is what the heap needs of its
  ordering, a strict weak order on the admissible elements. The two sift loops are given as
  functions on lists that carry an element and move a hole, with the report of every element that
  comes to rest, and are shown to restore heap order, to keep the multiset and to keep an index
  map. \<open>Dv_Heap_Props\<close> shows that the C loops on the byte buffer compute these functions.
\<close>

section \<open>Sifting a hole\<close>

abbreviation parent :: "nat \<Rightarrow> nat" where
  "parent i \<equiv> (i - 1) div 2"

fun sift_up :: "('a \<Rightarrow> 'a \<Rightarrow> bool) \<Rightarrow> 'a list \<Rightarrow> nat \<Rightarrow> 'a \<Rightarrow> 'a list" where
  "sift_up lt xs i x =
     (if 0 < i \<and> lt x (xs ! parent i) then sift_up lt (xs[i := xs ! parent i]) (parent i) x
      else xs[i := x])"

fun up_moves :: "('a \<Rightarrow> 'a \<Rightarrow> bool) \<Rightarrow> 'a list \<Rightarrow> nat \<Rightarrow> 'a \<Rightarrow> (nat \<times> 'a) list" where
  "up_moves lt xs i x =
     (if 0 < i \<and> lt x (xs ! parent i)
      then (i, xs ! parent i) # up_moves lt (xs[i := xs ! parent i]) (parent i) x
      else [(i, x)])"

definition best_child :: "('a \<Rightarrow> 'a \<Rightarrow> bool) \<Rightarrow> 'a list \<Rightarrow> nat \<Rightarrow> nat" where
  "best_child lt xs i =
     (if 2 * i + 2 < length xs \<and> lt (xs ! (2 * i + 2)) (xs ! (2 * i + 1)) then 2 * i + 2 else 2 * i + 1)"

lemma best_child_bounds:
  fixes lt xs
  shows "i < best_child lt xs i" "2 * i + 1 < length xs \<Longrightarrow> best_child lt xs i < length xs"
  "best_child lt xs i = 2 * i + 1 \<or> best_child lt xs i = 2 * i + 2"
  by (auto simp: best_child_def)

function sift_down :: "('a \<Rightarrow> 'a \<Rightarrow> bool) \<Rightarrow> 'a list \<Rightarrow> nat \<Rightarrow> 'a \<Rightarrow> 'a list" where
  "sift_down lt xs i x =
     (if 2 * i + 1 < length xs \<and> lt (xs ! best_child lt xs i) x
      then sift_down lt (xs[i := xs ! best_child lt xs i]) (best_child lt xs i) x
      else xs[i := x])"
  by pat_completeness auto
termination
  by (relation "measure (\<lambda>(lt, xs, i, x). length xs - i)")
    (auto intro!: diff_less_mono2 best_child_bounds)

function down_moves :: "('a \<Rightarrow> 'a \<Rightarrow> bool) \<Rightarrow> 'a list \<Rightarrow> nat \<Rightarrow> 'a \<Rightarrow> (nat \<times> 'a) list" where
  "down_moves lt xs i x =
     (if 2 * i + 1 < length xs \<and> lt (xs ! best_child lt xs i) x
      then (i, xs ! best_child lt xs i)
           # down_moves lt (xs[i := xs ! best_child lt xs i]) (best_child lt xs i) x
      else [(i, x)])"
  by pat_completeness auto
termination
  by (relation "measure (\<lambda>(lt, xs, i, x). length xs - i)")
    (auto intro!: diff_less_mono2 best_child_bounds)

declare sift_up.simps [simp del] up_moves.simps [simp del]
  sift_down.simps [simp del] down_moves.simps [simp del]

lemma sift_up_step:
  assumes "0 < i \<and> lt x (xs ! parent i)"
  shows "sift_up lt xs i x = sift_up lt (xs[i := xs ! parent i]) (parent i) x"
    and "up_moves lt xs i x = (i, xs ! parent i) # up_moves lt (xs[i := xs ! parent i]) (parent i) x"
  using assms by (subst sift_up.simps up_moves.simps, simp)+

lemma sift_up_stop:
  assumes "\<not> (0 < i \<and> lt x (xs ! parent i))"
  shows "sift_up lt xs i x = xs[i := x]" and "up_moves lt xs i x = [(i, x)]"
  using assms by (subst sift_up.simps up_moves.simps, auto)+

lemma sift_down_step:
  assumes "2 * i + 1 < length xs \<and> lt (xs ! best_child lt xs i) x"
  shows "sift_down lt xs i x = sift_down lt (xs[i := xs ! best_child lt xs i]) (best_child lt xs i) x"
    and "down_moves lt xs i x = (i, xs ! best_child lt xs i) #
           down_moves lt (xs[i := xs ! best_child lt xs i]) (best_child lt xs i) x"
  using assms by (subst sift_down.simps down_moves.simps, simp)+

lemma sift_down_stop:
  assumes "\<not> (2 * i + 1 < length xs \<and> lt (xs ! best_child lt xs i) x)"
  shows "sift_down lt xs i x = xs[i := x]" and "down_moves lt xs i x = [(i, x)]"
  using assms by (subst sift_down.simps down_moves.simps, auto)+

lemma length_sift_up [simp]: "length (sift_up lt xs i x) = length xs"
  by (induction lt xs i x rule: sift_up.induct) (subst sift_up.simps, simp)

lemma length_sift_down [simp]: "length (sift_down lt xs i x) = length xs"
  by (induction lt xs i x rule: sift_down.induct) (subst sift_down.simps, simp)

subsection \<open>The elements are kept\<close>

lemma mset_hole_move:
  assumes "i < length xs" "j < length xs" "i \<noteq> j"
  shows "mset (xs[i := xs ! j, j := x]) = mset (xs[i := x])"
  using assms by (simp add: mset_update mset_swap nth_list_update add_mset_commute)

lemma parent_less: "0 < i \<Longrightarrow> parent i < i"
  by simp

lemma mset_sift_up: "i < length xs \<Longrightarrow> mset (sift_up lt xs i x) = mset (xs[i := x])"
proof (induction lt xs i x rule: sift_up.induct)
  case (1 lt xs i x)
  show ?case
  proof (cases "0 < i \<and> lt x (xs ! parent i)")
    case True
    then have p: "parent i < length xs" "i \<noteq> parent i" using 1(2) by auto
    have "mset (sift_up lt xs i x) = mset (xs[i := xs ! parent i, parent i := x])"
      using 1(1) [OF True] p sift_up_step(1) [of i lt x xs, OF True] by simp
    then show ?thesis using mset_hole_move [OF 1(2) p] by simp
  next
    case False
    then show ?thesis by (subst sift_up_stop) simp_all
  qed
qed

lemma mset_sift_down: "i < length xs \<Longrightarrow> mset (sift_down lt xs i x) = mset (xs[i := x])"
proof (induction lt xs i x rule: sift_down.induct)
  case (1 lt xs i x)
  let ?c = "best_child lt xs i"
  show ?case
  proof (cases "2 * i + 1 < length xs \<and> lt (xs ! ?c) x")
    case True
    then have c: "?c < length xs" "i \<noteq> ?c" using best_child_bounds [where i = i and lt = lt and xs = xs] by auto
    have "mset (sift_down lt xs i x) = mset (xs[i := xs ! ?c, ?c := x])"
      using 1(1) [OF True] c sift_down_step(1) [of i xs lt x, OF True] by simp
    then show ?thesis using mset_hole_move [OF 1(2) c] by simp
  next
    case False
    then show ?thesis by (subst sift_down_stop) simp_all
  qed
qed

lemma set_sift_up: "i < length xs \<Longrightarrow> set (sift_up lt xs i x) \<subseteq> insert x (set xs)"
  using mset_sift_up [of i xs lt x] by (metis set_mset_mset set_update_subset_insert)

lemma set_sift_down: "i < length xs \<Longrightarrow> set (sift_down lt xs i x) \<subseteq> insert x (set xs)"
  using mset_sift_down [of i xs lt x] by (metis set_mset_mset set_update_subset_insert)

subsection \<open>Slots above the hole\<close>

lemma sift_up_beyond: "i < j \<Longrightarrow> sift_up lt xs i x ! j = xs ! j"
proof (induction lt xs i x rule: sift_up.induct)
  case (1 lt xs i x)
  show ?case
  proof (cases "0 < i \<and> lt x (xs ! parent i)")
    case True
    then have "parent i < j" using 1(2) by (meson order.strict_trans parent_less)
    then show ?thesis using 1(1) [OF True] 1(2) sift_up_step(1) [of i lt x xs, OF True] by simp
  next
    case False
    then show ?thesis using 1(2) by (subst sift_up_stop) simp_all
  qed
qed

lemma sift_up_append: "i < length xs \<Longrightarrow> sift_up lt (xs @ ys) i x = sift_up lt xs i x @ ys"
proof (induction lt xs i x rule: sift_up.induct)
  case (1 lt xs i x)
  then have p: "parent i < length xs" by auto
  then show ?case using 1
    by (subst (1 2) sift_up.simps) (auto simp: nth_append list_update_append)
qed

lemma up_moves_append: "i < length xs \<Longrightarrow> up_moves lt (xs @ ys) i x = up_moves lt xs i x"
proof (induction lt xs i x rule: sift_up.induct)
  case (1 lt xs i x)
  then have p: "parent i < length xs" by auto
  then show ?case using 1
    by (subst (1 2) up_moves.simps) (auto simp: nth_append list_update_append)
qed

text \<open>What the hole holds does not matter.\<close>

lemma sift_up_hole:
  "sift_up lt (xs[i := y]) i x = sift_up lt xs i x" "up_moves lt (xs[i := y]) i x = up_moves lt xs i x"
proof -
  have "xs[i := y] ! parent i = xs ! parent i" if "0 < i" using that parent_less [OF that] by simp
  then show "sift_up lt (xs[i := y]) i x = sift_up lt xs i x"
    "up_moves lt (xs[i := y]) i x = up_moves lt xs i x"
    by (subst (1 2) sift_up.simps up_moves.simps, auto)+
qed

section \<open>Index maps\<close>

text \<open>
  Replaying the reports of a sift on an index map: the map is right for every slot but the hole
  before, and right everywhere after, as long as no two slots hold the same element.
\<close>

definition report :: "('a \<Rightarrow> nat) \<Rightarrow> nat \<times> 'a \<Rightarrow> 'a \<Rightarrow> nat" where
  "report f = (\<lambda>(i, e). f(e := i))"

definition indexed :: "('a \<Rightarrow> nat) \<Rightarrow> 'a list \<Rightarrow> bool" where
  "indexed f xs \<longleftrightarrow> (\<forall>j < length xs. f (xs ! j) = j)"

definition indexed_but :: "('a \<Rightarrow> nat) \<Rightarrow> 'a list \<Rightarrow> nat \<Rightarrow> 'a \<Rightarrow> bool" where
  "indexed_but f xs i x \<longleftrightarrow>
     i < length xs \<and> (\<forall>j < length xs. j \<noteq> i \<longrightarrow> f (xs ! j) = j \<and> xs ! j \<noteq> x)"

lemma up_moves_in:
  "i < length xs \<Longrightarrow> (j, e) \<in> set (up_moves lt xs i x) \<Longrightarrow> j < length xs \<and> e \<in> insert x (set xs)"
proof (induction lt xs i x rule: sift_up.induct)
  case (1 lt xs i x)
  show ?case
  proof (cases "0 < i \<and> lt x (xs ! parent i)")
    case True
    have p: "parent i < length xs" using 1(2) by auto
    then have "set (xs[i := xs ! parent i]) \<subseteq> set xs"
      using set_update_subset_insert [of xs i "xs ! parent i"] by auto
    then show ?thesis using 1(1) [OF True] 1(2,3) p by (auto simp: sift_up_step [of i lt x xs, OF True])
  next
    case False
    then show ?thesis using 1(2,3) by (simp add: sift_up_stop [of i lt x xs])
  qed
qed

lemma down_moves_in:
  "i < length xs \<Longrightarrow> (j, e) \<in> set (down_moves lt xs i x) \<Longrightarrow> j < length xs \<and> e \<in> insert x (set xs)"
proof (induction lt xs i x rule: sift_down.induct)
  case (1 lt xs i x)
  let ?c = "best_child lt xs i"
  show ?case
  proof (cases "2 * i + 1 < length xs \<and> lt (xs ! ?c) x")
    case True
    have c: "?c < length xs" using best_child_bounds(2) True by blast
    then have "set (xs[i := xs ! ?c]) \<subseteq> set xs"
      using set_update_subset_insert [of xs i "xs ! ?c"] by auto
    then show ?thesis using 1(1) [OF True] 1(2,3) c by (auto simp: sift_down_step [of i xs lt x, OF True])
  next
    case False
    then show ?thesis using 1(2,3) by (simp add: sift_down_stop [of i xs lt x])
  qed
qed

lemma indexed_but_done: "indexed_but f xs i x \<Longrightarrow> indexed (report f (i, x)) (xs[i := x])"
  by (auto simp: indexed_but_def indexed_def report_def nth_list_update)

lemma indexed_but_step:
  assumes "indexed_but f xs i x" "j < length xs" "j \<noteq> i"
  shows "indexed_but (report f (i, xs ! j)) (xs[i := xs ! j]) j x"
  using assms by (auto simp: indexed_but_def report_def nth_list_update) metis+

lemma indexed_sift_up:
  "indexed_but f xs i x \<Longrightarrow> indexed (foldl report f (up_moves lt xs i x)) (sift_up lt xs i x)"
proof (induction lt xs i x arbitrary: f rule: sift_up.induct)
  case (1 lt xs i x)
  show ?case
  proof (cases "0 < i \<and> lt x (xs ! parent i)")
    case True
    then have "parent i < length xs" "parent i \<noteq> i" using 1(2) by (auto simp: indexed_but_def)
    then have "indexed_but (report f (i, xs ! parent i)) (xs[i := xs ! parent i]) (parent i) x"
      by (rule indexed_but_step [OF 1(2)])
    then show ?thesis using 1(1) [OF True] by (simp add: sift_up_step [of i lt x xs, OF True])
  next
    case False
    then show ?thesis using indexed_but_done [OF 1(2)] by (simp add: sift_up_stop [of i lt x xs])
  qed
qed

lemma indexed_sift_down:
  "indexed_but f xs i x \<Longrightarrow> indexed (foldl report f (down_moves lt xs i x)) (sift_down lt xs i x)"
proof (induction lt xs i x arbitrary: f rule: sift_down.induct)
  case (1 lt xs i x)
  let ?c = "best_child lt xs i"
  show ?case
  proof (cases "2 * i + 1 < length xs \<and> lt (xs ! ?c) x")
    case True
    then have "indexed_but (report f (i, xs ! ?c)) (xs[i := xs ! ?c]) ?c x"
      using indexed_but_step [OF 1(2), of ?c] best_child_bounds [where i = i and lt = lt and xs = xs] by auto
    then show ?thesis using 1(1) [OF True] by (simp add: sift_down_step [of i xs lt x, OF True])
  next
    case False
    then show ?thesis using indexed_but_done [OF 1(2)] by (simp add: sift_down_stop [of i xs lt x])
  qed
qed

lemma foldl_report_other: "b \<notin> set ys \<Longrightarrow> foldl report g (zip ks ys) b = g b"
proof (induction ys arbitrary: g ks)
  case (Cons y ys)
  then show ?case by (cases ks) (auto simp: report_def)
qed simp

lemma indexed_from:
  "distinct xs \<Longrightarrow> j < length xs \<Longrightarrow> foldl report f (zip [k..<k + length xs] xs) (xs ! j) = k + j"
proof (induction xs arbitrary: f k j)
  case (Cons a xs)
  have unfold: "foldl report f (zip [k..<k + length (a # xs)] (a # xs)) =
      foldl report (report f (k, a)) (zip [Suc k..<Suc k + length xs] xs)"
    using upt_conv_Cons [of k "k + length (a # xs)"] by simp
  show ?case
  proof (cases j)
    case 0
    then show ?thesis using Cons.prems unfolding unfold
      by (simp add: foldl_report_other) (simp add: report_def)
  next
    case (Suc j')
    then show ?thesis using Cons.IH [of j' "report f (k, a)" "Suc k"] Cons.prems unfolding unfold by simp
  qed
qed simp

lemma indexed_all: "distinct xs \<Longrightarrow> indexed (foldl report f (zip [0..<length xs] xs)) xs"
  using indexed_from [of xs _ f 0] by (simp add: indexed_def)

section \<open>Heap order\<close>

text \<open>
  \<open>heap_from k\<close> is heap order for every parent from index \<open>k\<close> on; \<open>hole_from k\<close> the same
  with the slot \<open>i\<close> left out, so that whatever is above the hole also goes above what is below it.
\<close>

definition heap_from :: "('a \<Rightarrow> 'a \<Rightarrow> bool) \<Rightarrow> nat \<Rightarrow> 'a list \<Rightarrow> bool" where
  "heap_from lt k xs \<longleftrightarrow> (\<forall>j < length xs. 0 < j \<and> k \<le> parent j \<longrightarrow> \<not> lt (xs ! j) (xs ! parent j))"

definition heap_ordered :: "('a \<Rightarrow> 'a \<Rightarrow> bool) \<Rightarrow> 'a list \<Rightarrow> bool" where
  "heap_ordered lt xs \<longleftrightarrow> (\<forall>j < length xs. 0 < j \<longrightarrow> \<not> lt (xs ! j) (xs ! parent j))"

lemma heap_from_0: "heap_from lt 0 xs = heap_ordered lt xs"
  by (simp add: heap_from_def heap_ordered_def)

definition hole_from :: "('a \<Rightarrow> 'a \<Rightarrow> bool) \<Rightarrow> nat \<Rightarrow> 'a list \<Rightarrow> nat \<Rightarrow> bool" where
  "hole_from lt k xs i \<longleftrightarrow> i < length xs \<and> k \<le> i \<and>
     (\<forall>j < length xs. 0 < j \<and> j \<noteq> i \<and> parent j \<noteq> i \<and> k \<le> parent j \<longrightarrow> \<not> lt (xs ! j) (xs ! parent j)) \<and>
     (\<forall>j < length xs. 0 < j \<and> parent j = i \<and> 0 < i \<and> k \<le> parent i \<longrightarrow> \<not> lt (xs ! j) (xs ! parent i))"

lemma hole_fromD:
  assumes "hole_from lt k xs i"
  shows "i < length xs" "k \<le> i"
    and "\<lbrakk>j < length xs; 0 < j; j \<noteq> i; parent j \<noteq> i; k \<le> parent j\<rbrakk> \<Longrightarrow> \<not> lt (xs ! j) (xs ! parent j)"
    and "\<lbrakk>j < length xs; 0 < j; parent j = i; 0 < i; k \<le> parent i\<rbrakk> \<Longrightarrow> \<not> lt (xs ! j) (xs ! parent i)"
  using assms by (simp_all add: hole_from_def)

lemma child_cases: "0 < j \<Longrightarrow> parent j = i \<Longrightarrow> j = 2 * i + 1 \<or> j = 2 * i + 2" for i j :: nat
  by presburger

lemma parent_half: "j < n \<Longrightarrow> 0 < j \<Longrightarrow> parent j < n div 2" for j n :: nat
  by presburger

lemma not_own_child: "j < n \<Longrightarrow> 0 < j \<Longrightarrow> parent j \<noteq> n" for j n :: nat
  by presburger

section \<open>The operations on lists\<close>

definition push_list :: "('a \<Rightarrow> 'a \<Rightarrow> bool) \<Rightarrow> 'a list \<Rightarrow> 'a \<Rightarrow> 'a list" where
  "push_list lt xs x = sift_up lt (xs @ [x]) (length xs) x"

definition update_list :: "('a \<Rightarrow> 'a \<Rightarrow> bool) \<Rightarrow> 'a list \<Rightarrow> nat \<Rightarrow> 'a \<Rightarrow> 'a list" where
  "update_list lt xs i x = (if 0 < i \<and> lt x (xs ! parent i) then sift_up lt xs i x else sift_down lt xs i x)"

definition update_moves :: "('a \<Rightarrow> 'a \<Rightarrow> bool) \<Rightarrow> 'a list \<Rightarrow> nat \<Rightarrow> 'a \<Rightarrow> (nat \<times> 'a) list" where
  "update_moves lt xs i x = (if 0 < i \<and> lt x (xs ! parent i) then up_moves lt xs i x else down_moves lt xs i x)"

definition remove_list :: "('a \<Rightarrow> 'a \<Rightarrow> bool) \<Rightarrow> 'a list \<Rightarrow> nat \<Rightarrow> 'a list" where
  "remove_list lt xs i =
     (if i = length xs - 1 then butlast xs else update_list lt (butlast xs) i (last xs))"

definition remove_moves :: "('a \<Rightarrow> 'a \<Rightarrow> bool) \<Rightarrow> 'a list \<Rightarrow> nat \<Rightarrow> (nat \<times> 'a) list" where
  "remove_moves lt xs i =
     (if i = length xs - 1 then [] else update_moves lt (butlast xs) i (last xs))"

fun heapify_list :: "('a \<Rightarrow> 'a \<Rightarrow> bool) \<Rightarrow> 'a list \<Rightarrow> nat \<Rightarrow> 'a list" where
  "heapify_list lt xs 0 = xs"
| "heapify_list lt xs (Suc i) = heapify_list lt (sift_down lt xs i (xs ! i)) i"

fun up_run :: "('a \<Rightarrow> 'a \<Rightarrow> bool) \<Rightarrow> 'a list \<Rightarrow> nat \<Rightarrow> nat \<Rightarrow> 'a list" where
  "up_run lt xs i 0 = xs"
| "up_run lt xs i (Suc m) = up_run lt (sift_up lt xs i (xs ! i)) (Suc i) m"

fun up_run_moves :: "('a \<Rightarrow> 'a \<Rightarrow> bool) \<Rightarrow> 'a list \<Rightarrow> nat \<Rightarrow> nat \<Rightarrow> (nat \<times> 'a) list" where
  "up_run_moves lt xs i 0 = []"
| "up_run_moves lt xs i (Suc m) =
     up_moves lt xs i (xs ! i) @ up_run_moves lt (sift_up lt xs i (xs ! i)) (Suc i) m"

fun pop_list :: "('a \<Rightarrow> 'a \<Rightarrow> bool) \<Rightarrow> 'a list \<Rightarrow> nat \<Rightarrow> 'a list \<times> 'a list" where
  "pop_list lt xs 0 = ([], xs)"
| "pop_list lt xs (Suc n) =
     (let (es, ys) = pop_list lt (remove_list lt xs 0) n in (xs ! 0 # es, ys))"

lemma length_update_list [simp]: "length (update_list lt xs i x) = length xs"
  by (simp add: update_list_def)

lemma length_remove_list [simp]: "length (remove_list lt xs i) = length xs - 1"
  by (simp add: remove_list_def)

lemma length_heapify_list [simp]: "length (heapify_list lt xs i) = length xs"
  by (induction i arbitrary: xs) auto

lemma length_up_run [simp]: "length (up_run lt xs i m) = length xs"
  by (induction m arbitrary: xs i) auto

lemma length_push_list [simp]: "length (push_list lt xs x) = Suc (length xs)"
  by (simp add: push_list_def)

lemma mset_push_list: "mset (push_list lt xs x) = add_mset x (mset xs)"
  unfolding push_list_def by (subst mset_sift_up) auto

lemma mset_update_list: "i < length xs \<Longrightarrow> mset (update_list lt xs i x) = mset (xs[i := x])"
  by (simp add: update_list_def mset_sift_up mset_sift_down)

lemma mset_remove_list:
  assumes "i < length xs" shows "add_mset (xs ! i) (mset (remove_list lt xs i)) = mset xs"
proof -
  obtain ys y where xs: "xs = ys @ [y]" using assms by (metis length_0_conv not_less_zero rev_exhaust)
  show ?thesis
  proof (cases "i = length xs - 1")
    case True
    then show ?thesis by (simp add: remove_list_def xs nth_append)
  next
    case False
    then have i: "i < length ys" using assms xs by simp
    then have "mset (remove_list lt xs i) = mset (ys[i := y])"
      using False xs by (simp add: remove_list_def mset_update_list)
    then show ?thesis using i by (simp add: xs nth_append mset_update add_mset_commute)
  qed
qed

lemma mset_heapify_list: "i \<le> length xs \<Longrightarrow> mset (heapify_list lt xs i) = mset xs"
  by (induction i arbitrary: xs) (auto simp: mset_sift_down)

lemma mset_up_run: "i + m \<le> length xs \<Longrightarrow> mset (up_run lt xs i m) = mset xs"
  by (induction m arbitrary: xs i) (auto simp: mset_sift_up)

lemma pop_list_mset:
  "n \<le> length xs \<Longrightarrow> pop_list lt xs n = (es, ys) \<Longrightarrow> mset es + mset ys = mset xs \<and> length es = n"
proof (induction n arbitrary: xs es ys)
  case (Suc n)
  obtain es' where es: "pop_list lt (remove_list lt xs 0) n = (es', ys)" "es = xs ! 0 # es'"
    using Suc.prems(2) by (auto simp: Let_def split: prod.splits)
  have "mset es' + mset ys = mset (remove_list lt xs 0) \<and> length es' = n"
    using Suc.IH [OF _ es(1)] Suc.prems(1) by simp
  moreover have "0 < length xs" using Suc.prems(1) by (cases xs) auto
  ultimately show ?case using es(2) mset_remove_list [of 0 xs lt] by auto
qed simp

subsection \<open>Index maps\<close>

lemma indexed_push:
  assumes "indexed f xs" "x \<notin> set xs"
  shows "indexed (foldl report f (up_moves lt (xs @ [x]) (length xs) x)) (push_list lt xs x)"
  unfolding push_list_def
  by (rule indexed_sift_up) (use assms in \<open>auto simp: indexed_but_def indexed_def nth_append\<close>)

lemma indexed_update:
  "indexed_but f xs i x \<Longrightarrow> indexed (foldl report f (update_moves lt xs i x)) (update_list lt xs i x)"
  by (auto simp: update_list_def update_moves_def intro: indexed_sift_up indexed_sift_down)

lemma update_moves_in:
  assumes i: "i < length xs" and m: "(j, e) \<in> set (update_moves lt xs i x)"
  shows "j < length xs \<and> e \<in> insert x (set xs)"
proof (cases "0 < i \<and> lt x (xs ! parent i)")
  case True
  then have "(j, e) \<in> set (up_moves lt xs i x)" using m unfolding update_moves_def by (simp only: if_True simp_thms)
  then show ?thesis by (rule up_moves_in [OF i])
next
  case False
  then have "(j, e) \<in> set (down_moves lt xs i x)" using m unfolding update_moves_def by (simp only: if_False simp_thms)
  then show ?thesis by (rule down_moves_in [OF i])
qed

lemma remove_moves_in:
  assumes "i < length xs" "(j, e) \<in> set (remove_moves lt xs i)" shows "j < length xs \<and> e \<in> set xs"
proof (cases "i = length xs - 1")
  case False
  then have "i < length (butlast xs)" using assms(1) by simp
  then have "j < length (butlast xs) \<and> e \<in> insert (last xs) (set (butlast xs))"
    using update_moves_in [of i "butlast xs" j e lt "last xs"] assms(2) False by (simp add: remove_moves_def)
  moreover have "xs \<noteq> []" using assms(1) by auto
  ultimately show ?thesis by (auto dest: in_set_butlastD)
qed (use assms in \<open>simp add: remove_moves_def\<close>)

lemma indexed_remove:
  assumes ix: "indexed f xs" and d: "distinct xs" and i: "i < length xs"
  shows "indexed (foldl report f (remove_moves lt xs i)) (remove_list lt xs i)"
proof (cases "i = length xs - 1")
  case True
  then show ?thesis using ix by (auto simp: remove_list_def remove_moves_def indexed_def nth_butlast)
next
  case False
  have "xs ! j \<noteq> last xs" if "j < length xs - 1" for j
    using that nth_eq_iff_index_eq [OF d, of j "length xs - 1"] i last_conv_nth [of xs] by (cases xs) auto
  then have "indexed_but f (butlast xs) i (last xs)"
    using ix i False by (auto simp: indexed_but_def indexed_def nth_butlast)
  then show ?thesis using False by (simp add: remove_list_def remove_moves_def indexed_update)
qed

text \<open>The ordering: strict, transitive, and with ties transitive, on the admissible elements.\<close>

locale heap_order =
  fixes lt :: "'a \<Rightarrow> 'a \<Rightarrow> bool" and ok :: "'a \<Rightarrow> bool"
  assumes irrefl: "ok a \<Longrightarrow> \<not> lt a a"
    and lt_trans: "ok a \<Longrightarrow> ok b \<Longrightarrow> ok c \<Longrightarrow> lt a b \<Longrightarrow> lt b c \<Longrightarrow> lt a c"
    and not_lt_trans: "ok a \<Longrightarrow> ok b \<Longrightarrow> ok c \<Longrightarrow> \<not> lt a b \<Longrightarrow> \<not> lt b c \<Longrightarrow> \<not> lt a c"
begin

lemma asym: "ok a \<Longrightarrow> ok b \<Longrightarrow> lt a b \<Longrightarrow> \<not> lt b a"
  using irrefl lt_trans by blast

lemma not_lt_of_lt:
  "ok a \<Longrightarrow> ok b \<Longrightarrow> ok c \<Longrightarrow> \<not> lt a b \<Longrightarrow> lt c b \<Longrightarrow> \<not> lt a c"
  using lt_trans by blast

lemma okD: "list_all ok xs \<Longrightarrow> j < length xs \<Longrightarrow> ok (xs ! j)"
  by (simp add: list_all_length)

lemma ok_update: "list_all ok xs \<Longrightarrow> ok x \<Longrightarrow> list_all ok (xs[i := x])"
  by (auto simp: list_all_iff dest: set_update_subset_insert [THEN subsetD])

subsection \<open>Sifting up\<close>

lemma up_stop:
  assumes hole: "hole_from lt 0 xs i"
    and below: "\<And>j. j < length xs \<Longrightarrow> 0 < j \<Longrightarrow> parent j = i \<Longrightarrow> \<not> lt (xs ! j) x"
    and stop: "\<not> (0 < i \<and> lt x (xs ! parent i))"
  shows "heap_ordered lt (xs[i := x])"
  unfolding heap_ordered_def
proof (intro allI impI)
  fix j assume j: "j < length (xs[i := x])" "0 < j"
  then have len: "j < length xs" "parent j < length xs" by auto
  consider "j = i" | "parent j = i" "j \<noteq> i" | "j \<noteq> i" "parent j \<noteq> i" by blast
  then show "\<not> lt (xs[i := x] ! j) (xs[i := x] ! parent j)"
  proof cases
    case 1
    then have "parent j \<noteq> i" using j by auto
    then show ?thesis using 1 j stop len by auto
  next
    case 2
    then show ?thesis using below [OF len(1) j(2)] hole_fromD(1) [OF hole] by auto
  next
    case 3
    then show ?thesis using hole_fromD(3) [OF hole len(1) j(2)] by auto
  qed
qed

lemma up_step:
  assumes ok: "list_all ok xs" "ok x" and hole: "hole_from lt 0 xs i"
    and below: "\<And>j. j < length xs \<Longrightarrow> 0 < j \<Longrightarrow> parent j = i \<Longrightarrow> \<not> lt (xs ! j) x"
    and go: "0 < i" "lt x (xs ! parent i)"
  shows "hole_from lt 0 (xs[i := xs ! parent i]) (parent i)"
    and "\<And>j. j < length xs \<Longrightarrow> 0 < j \<Longrightarrow> parent j = parent i \<Longrightarrow> \<not> lt (xs[i := xs ! parent i] ! j) x"
proof -
  let ?p = "parent i" and ?ys = "xs[i := xs ! parent i]"
  have i: "i < length xs" and p: "?p < length xs" "?p \<noteq> i" "?p < i"
    using hole_fromD(1) [OF hole] go by auto
  note h = hole_fromD [OF hole]
  have okp: "ok (xs ! ?p)" using okD [OF ok(1) p(1)] .
  have sib: "\<not> lt (xs ! j) (xs ! ?p)" if "j < length xs" "0 < j" "j \<noteq> i" "parent j = ?p" for j
    using h(3) [of j] that p by auto
  have pg: "\<not> lt (xs ! ?p) (xs ! parent ?p)" if "0 < ?p"
  proof -
    have "parent ?p < ?p" using that by (rule parent_less)
    then have "parent ?p \<noteq> i" using p(3) by linarith
    then show ?thesis using h(3) [of ?p] that p by auto
  qed
  show "\<not> lt (?ys ! j) x" if j: "j < length xs" "0 < j" "parent j = ?p" for j
  proof (cases "j = i")
    case True
    then show ?thesis using asym [OF ok(2) okp go(2)] i by simp
  next
    case False
    then show ?thesis using not_lt_of_lt [OF okD [OF ok(1) j(1)] okp ok(2) sib [OF j(1,2) False j(3)] go(2)]
      by simp
  qed
  show "hole_from lt 0 ?ys ?p"
    unfolding hole_from_def
  proof (intro conjI allI impI)
    fix j assume j: "j < length ?ys" and c: "0 < j \<and> j \<noteq> ?p \<and> parent j \<noteq> ?p \<and> 0 \<le> parent j"
    show "\<not> lt (?ys ! j) (?ys ! parent j)"
    proof (cases "parent j = i")
      case True
      then have "j \<noteq> i" using c by auto
      then show ?thesis using h(4) [of j] True j c go i by auto
    next
      case False
      then have "j \<noteq> i" using c by auto
      then show ?thesis using h(3) [of j] False j c by auto
    qed
  next
    fix j assume j: "j < length ?ys" and c: "0 < j \<and> parent j = ?p \<and> 0 < ?p \<and> 0 \<le> parent ?p"
    have q: "parent ?p < length xs" "parent ?p \<noteq> i" using c p(3) i by auto
    show "\<not> lt (?ys ! j) (?ys ! parent ?p)"
    proof (cases "j = i")
      case True
      then show ?thesis using pg c i q by auto
    next
      case False
      then show ?thesis
        using not_lt_trans [OF okD [OF ok(1)] okp okD [OF ok(1) q(1)], of j] sib [of j] pg c j q by auto
    qed
  qed (use p in auto)
qed

lemma heap_sift_up:
  assumes "list_all ok xs" "ok x" "hole_from lt 0 xs i"
    and "\<And>j. j < length xs \<Longrightarrow> 0 < j \<Longrightarrow> parent j = i \<Longrightarrow> \<not> lt (xs ! j) x"
  shows "heap_ordered lt (sift_up lt xs i x)"
  using assms
proof (induction i arbitrary: xs rule: less_induct)
  case (less i)
  show ?case
  proof (cases "0 < i \<and> lt x (xs ! parent i)")
    case True
    have p: "parent i < length xs" using hole_fromD(1) [OF less.prems(3)] by auto
    note st = up_step [OF less.prems conjunct1 [OF True] conjunct2 [OF True]]
    have "heap_ordered lt (sift_up lt (xs[i := xs ! parent i]) (parent i) x)"
    proof (rule less.IH)
      show "parent i < i" using True by auto
      show "list_all ok (xs[i := xs ! parent i])" by (rule ok_update [OF less.prems(1) okD [OF less.prems(1) p]])
    qed (use st less.prems in auto)
    then show ?thesis by (simp add: sift_up_step(1) [of i lt x xs, OF True])
  next
    case False
    then show ?thesis using up_stop [OF less.prems(3,4) False] by (subst sift_up_stop) auto
  qed
qed

subsection \<open>Sifting down\<close>

lemma best_child_best:
  assumes "list_all ok xs" "0 < j" "j < length xs" "parent j = i"
  shows "\<not> lt (xs ! j) (xs ! best_child lt xs i)"
proof -
  have "j = 2 * i + 1 \<or> j = 2 * i + 2" using child_cases assms(2,4) by blast
  then consider "j = best_child lt xs i" | "j = 2 * i + 1" "best_child lt xs i = 2 * i + 2"
    | "j = 2 * i + 2" "best_child lt xs i = 2 * i + 1" using best_child_bounds(3) [of lt xs i] by fastforce
  then show ?thesis
  proof cases
    case 1
    then show ?thesis using irrefl [OF okD [OF assms(1,3)]] by simp
  next
    case 2
    then have "2 * i + 2 < length xs" "lt (xs ! (2 * i + 2)) (xs ! (2 * i + 1))"
      by (auto simp: best_child_def split: if_splits)
    then show ?thesis
      using 2 assms(3) asym [OF okD [OF assms(1)] okD [OF assms(1)], of "2 * i + 2" "2 * i + 1"] by simp
  next
    case 3
    then show ?thesis using assms(3) by (auto simp: best_child_def split: if_splits)
  qed
qed

lemma parent_best_child: "parent (best_child lt xs i) = i" "0 < best_child lt xs i"
  by (auto simp: best_child_def)

lemma down_stop:
  assumes ok: "list_all ok xs" "ok x" and hole: "hole_from lt k xs i"
    and above: "0 < i \<Longrightarrow> k \<le> parent i \<Longrightarrow> \<not> lt x (xs ! parent i)"
    and stop: "\<not> (2 * i + 1 < length xs \<and> lt (xs ! best_child lt xs i) x)"
  shows "heap_from lt k (xs[i := x])"
  unfolding heap_from_def
proof (intro allI impI)
  fix j assume j: "j < length (xs[i := x])" and c: "0 < j \<and> k \<le> parent j"
  then have len: "j < length xs" "parent j < length xs" by auto
  consider "j = i" | "parent j = i" "j \<noteq> i" | "j \<noteq> i" "parent j \<noteq> i" by blast
  then show "\<not> lt (xs[i := x] ! j) (xs[i := x] ! parent j)"
  proof cases
    case 1
    then have "parent j \<noteq> i" using c by auto
    then show ?thesis using 1 c above len by auto
  next
    case 2
    have jc: "j = 2 * i + 1 \<or> j = 2 * i + 2" using child_cases 2 c by blast
    then have l: "2 * i + 1 < length xs" using len by auto
    then have b: "best_child lt xs i < length xs" "\<not> lt (xs ! best_child lt xs i) x"
      using best_child_bounds(2) stop by auto
    have "\<not> lt (xs ! j) x"
      using not_lt_trans [OF okD [OF ok(1) len(1)] okD [OF ok(1) b(1)] ok(2)]
        best_child_best [OF ok(1) _ len(1) 2(1)] c b(2) by blast
    then show ?thesis using 2 len by auto
  next
    case 3
    then show ?thesis using hole_fromD(3) [OF hole len(1)] c by auto
  qed
qed

lemma down_step:
  assumes ok: "list_all ok xs" "ok x" and hole: "hole_from lt k xs i"
    and go: "2 * i + 1 < length xs" "lt (xs ! best_child lt xs i) x"
  defines "c \<equiv> best_child lt xs i"
  shows "hole_from lt k (xs[i := xs ! c]) c" and "\<not> lt x (xs[i := xs ! c] ! parent c)"
proof -
  let ?ys = "xs[i := xs ! c]"
  have c: "c < length xs" "i < c" "parent c = i" "0 < c"
    using best_child_bounds go parent_best_child unfolding c_def by auto
  note h = hole_fromD [OF hole]
  have okc: "ok (xs ! c)" by (rule okD [OF ok(1) c(1)])
  show "\<not> lt x (?ys ! parent c)"
    unfolding c(3) using asym [OF okc ok(2)] go(2) h(1) by (simp add: c_def)
  show "hole_from lt k ?ys c"
    unfolding hole_from_def
  proof (intro conjI allI impI)
    fix j assume j: "j < length ?ys" and d: "0 < j \<and> j \<noteq> c \<and> parent j \<noteq> c \<and> k \<le> parent j"
    consider "j = i" | "parent j = i" "j \<noteq> i" | "j \<noteq> i" "parent j \<noteq> i" by blast
    then show "\<not> lt (?ys ! j) (?ys ! parent j)"
    proof cases
      case 1
      then have "parent i < i" using d parent_less by blast
      then have "\<not> lt (xs ! c) (xs ! parent i)" "parent j \<noteq> i" using h(4) [of c] c d 1 by auto
      then show ?thesis using 1 h(1) by auto
    next
      case 2
      then have "\<not> lt (xs ! j) (xs ! c)" using best_child_best [OF ok(1)] d j unfolding c_def by auto
      then show ?thesis using 2 h(1) by auto
    next
      case 3
      then show ?thesis using h(3) [of j] d j by auto
    qed
  next
    fix j assume j: "j < length ?ys" and d: "0 < j \<and> parent j = c \<and> 0 < c \<and> k \<le> parent c"
    have "j \<noteq> i" using d c by auto
    then show "\<not> lt (?ys ! j) (?ys ! parent c)"
      unfolding c(3) using h(3) [of j] h(1) j d c by auto
  qed (use c h in auto)
qed

lemma heap_sift_down:
  assumes "list_all ok xs" "ok x" "hole_from lt k xs i"
    and "0 < i \<Longrightarrow> k \<le> parent i \<Longrightarrow> \<not> lt x (xs ! parent i)"
  shows "heap_from lt k (sift_down lt xs i x)"
  using assms
proof (induction "length xs - i" arbitrary: xs i rule: less_induct)
  case less
  let ?c = "best_child lt xs i"
  show ?case
  proof (cases "2 * i + 1 < length xs \<and> lt (xs ! ?c) x")
    case True
    note st = down_step [OF less.prems(1-3) conjunct1 [OF True] conjunct2 [OF True]]
    have c: "?c < length xs" using best_child_bounds(2) True by blast
    have "heap_from lt k (sift_down lt (xs[i := xs ! ?c]) ?c x)"
    proof (rule less.hyps)
      show "length (xs[i := xs ! ?c]) - ?c < length xs - i"
        using True best_child_bounds(1) [of i lt xs] by (auto intro: diff_less_mono2)
      show "list_all ok (xs[i := xs ! ?c])" by (rule ok_update [OF less.prems(1) okD [OF less.prems(1) c]])
    qed (use st less.prems in auto)
    then show ?thesis by (simp add: sift_down_step(1) [of i xs lt x, OF True])
  next
    case False
    then show ?thesis using down_stop [OF less.prems False] by (subst sift_down_stop) auto
  qed
qed

subsection \<open>Holes in a heap\<close>

lemma hole_in_heap:
  assumes ok: "list_all ok xs" and h: "heap_ordered lt xs" and i: "i < length xs"
  shows "hole_from lt 0 xs i"
  unfolding hole_from_def
proof (intro conjI allI impI)
  fix j assume j: "j < length xs" and c: "0 < j \<and> parent j = i \<and> 0 < i \<and> 0 \<le> parent i"
  have "parent i < length xs" using i by auto
  then show "\<not> lt (xs ! j) (xs ! parent i)"
    using not_lt_trans [OF okD [OF ok j] okD [OF ok i] okD [OF ok]] h j c i
    unfolding heap_ordered_def by blast
qed (use i h in \<open>auto simp: heap_ordered_def\<close>)

lemma heap_ordered_take: "heap_ordered lt xs \<Longrightarrow> heap_ordered lt (take n xs)"
  by (auto simp: heap_ordered_def)

lemma hole_at_end:
  assumes "heap_ordered lt xs" shows "hole_from lt 0 (xs @ [y]) (length xs)"
  unfolding hole_from_def
proof (intro conjI allI impI)
  fix j assume j: "j < length (xs @ [y])"
    and c: "0 < j \<and> j \<noteq> length xs \<and> parent j \<noteq> length xs \<and> 0 \<le> parent j"
  then have "j < length xs" by simp
  moreover from this have "parent j < length xs" by auto
  ultimately show "\<not> lt ((xs @ [y]) ! j) ((xs @ [y]) ! parent j)"
    using assms c by (auto simp: heap_ordered_def nth_append)
next
  fix j assume "j < length (xs @ [y])" "0 < j \<and> parent j = length xs \<and> 0 < length xs \<and> 0 \<le> parent (length xs)"
  then show "\<not> lt ((xs @ [y]) ! j) ((xs @ [y]) ! parent (length xs))"
    using not_own_child [of j "length xs"] parent_less [of j] by auto
qed auto

lemma heap_push:
  assumes "list_all ok xs" "ok x" "ok y" "heap_ordered lt xs"
  shows "heap_ordered lt (sift_up lt (xs @ [y]) (length xs) x)"
    and "mset (sift_up lt (xs @ [y]) (length xs) x) = mset xs + {#x#}"
proof -
  show "heap_ordered lt (sift_up lt (xs @ [y]) (length xs) x)"
  proof (rule heap_sift_up [OF _ assms(2) hole_at_end [OF assms(4)]])
    show "list_all ok (xs @ [y])" using assms by simp
    fix j assume "j < length (xs @ [y])" "0 < j" "parent j = length xs"
    then show "\<not> lt ((xs @ [y]) ! j) x" using parent_less [of j] by auto
  qed
  show "mset (sift_up lt (xs @ [y]) (length xs) x) = mset xs + {#x#}"
    by (subst mset_sift_up) auto
qed

lemma heap_update_down:
  assumes "list_all ok xs" "ok x" "hole_from lt 0 xs i" "0 < i \<Longrightarrow> \<not> lt x (xs ! parent i)"
  shows "heap_ordered lt (sift_down lt xs i x)"
  using heap_sift_down [OF assms(1-3)] assms(4) by (simp add: heap_from_0)

lemma heap_update_up:
  assumes ok: "list_all ok xs" "ok x" and h: "hole_from lt 0 xs i" and up: "0 < i" "lt x (xs ! parent i)"
  shows "heap_ordered lt (sift_up lt xs i x)"
proof (rule heap_sift_up [OF ok h])
  fix j assume j: "j < length xs" "0 < j" "parent j = i"
  have p: "parent i < length xs" using hole_fromD(1) [OF h] by auto
  have "\<not> lt (xs ! j) (xs ! parent i)" using hole_fromD(4) [OF h j up(1)] by simp
  then show "\<not> lt (xs ! j) x"
    using not_lt_of_lt [OF okD [OF ok(1) j(1)] okD [OF ok(1) p] ok(2)] up(2) by blast
qed

lemma heap_floyd_step:
  assumes "list_all ok xs" "i < length xs" "heap_from lt (Suc i) xs"
  shows "heap_from lt i (sift_down lt xs i (xs ! i))"
proof (rule heap_sift_down [OF assms(1) okD [OF assms(1,2)]])
  have "Suc i \<le> parent j" if "i \<le> parent j" "parent j \<noteq> i" for j using that by linarith
  moreover have "\<not> i \<le> parent i" if "0 < i" using parent_less [OF that] by linarith
  ultimately show "hole_from lt i xs i"
    using assms(2,3) unfolding hole_from_def heap_from_def by blast
qed (use parent_less in \<open>force simp flip: not_less\<close>)

lemma heap_from_half: "heap_from lt (length xs div 2) xs"
  using parent_half by (auto simp: heap_from_def simp flip: not_less)

lemma root_first:
  assumes ok: "list_all ok xs" and h: "heap_ordered lt xs" and "i < length xs"
  shows "\<not> lt (xs ! i) (xs ! 0)"
  using assms(3)
proof (induction i rule: less_induct)
  case (less i)
  show ?case
  proof (cases "i = 0")
    case True
    then show ?thesis using irrefl okD [OF ok less.prems] by blast
  next
    case False
    then have p: "parent i < i" "parent i < length xs" "0 < length xs" using less.prems by auto
    then show ?thesis
      using not_lt_trans [OF okD [OF ok less.prems] okD [OF ok p(2)] okD [OF ok p(3)]]
        less.IH [OF p(1,2)] h False less.prems unfolding heap_ordered_def by blast
  qed
qed

lemma heap_push_list:
  assumes "list_all ok xs" "ok x" "heap_ordered lt xs"
  shows "heap_ordered lt (push_list lt xs x)" "list_all ok (push_list lt xs x)"
proof -
  show "heap_ordered lt (push_list lt xs x)"
    unfolding push_list_def by (rule heap_push(1) [OF assms(1,2,2,3)])
  show "list_all ok (push_list lt xs x)"
    using assms mset_push_list [of lt xs x] by (metis insert_iff list_all_iff set_mset_add_mset_insert set_mset_mset)
qed

lemma heap_update_list:
  assumes "list_all ok xs" "ok x" "hole_from lt 0 xs i"
  shows "heap_ordered lt (update_list lt xs i x)" "list_all ok (update_list lt xs i x)"
proof -
  show "heap_ordered lt (update_list lt xs i x)"
    using heap_update_up [OF assms] heap_update_down [OF assms] by (auto simp: update_list_def)
  show "list_all ok (update_list lt xs i x)"
    using assms(1,2) set_sift_up [of i xs lt x] set_sift_down [of i xs lt x] hole_fromD(1) [OF assms(3)]
    by (auto simp: update_list_def list_all_iff)
qed

lemma heap_remove_list:
  assumes ok: "list_all ok xs" and h: "heap_ordered lt xs" and i: "i < length xs"
  shows "heap_ordered lt (remove_list lt xs i)" "list_all ok (remove_list lt xs i)"
proof -
  have ne: "xs \<noteq> []" using i by auto
  have b: "list_all ok (butlast xs)" "ok (last xs)"
    using ok ne by (auto simp: list_all_iff dest: in_set_butlastD)
  have hb: "heap_ordered lt (butlast xs)"
    using heap_ordered_take [OF h, of "length xs - 1"] by (simp add: butlast_conv_take)
  have hole: "hole_from lt 0 (butlast xs) i" if "i \<noteq> length xs - 1"
    using hole_in_heap [OF b(1) hb, of i] that i by simp
  show "heap_ordered lt (remove_list lt xs i)" "list_all ok (remove_list lt xs i)"
    using heap_update_list [OF b hole] hb b by (auto simp: remove_list_def)
qed

lemma heap_heapify_list:
  assumes "list_all ok xs" "i \<le> length xs" "heap_from lt i xs"
  shows "heap_ordered lt (heapify_list lt xs i) \<and> list_all ok (heapify_list lt xs i)"
  using assms
proof (induction i arbitrary: xs)
  case 0
  then show ?case by (simp add: heap_from_0)
next
  case (Suc i)
  have ok: "ok (xs ! i)" using okD [OF Suc.prems(1)] Suc.prems(2) by simp
  have "list_all ok (sift_down lt xs i (xs ! i))"
    using set_sift_down [of i xs lt "xs ! i"] Suc.prems(1,2) ok by (auto simp: list_all_iff)
  then show ?case
    using Suc.IH [of "sift_down lt xs i (xs ! i)"] Suc.prems heap_floyd_step [OF Suc.prems(1) _ Suc.prems(3)]
    by simp
qed

lemma take_sift_up:
  assumes "i < length xs"
  shows "take (Suc i) (sift_up lt xs i (xs ! i)) = push_list lt (take i xs) (xs ! i)"
proof -
  have xs: "xs = (take i xs @ [xs ! i]) @ drop (Suc i) xs" using assms by (simp add: id_take_nth_drop)
  have "sift_up lt xs i (xs ! i) = sift_up lt (take i xs @ [xs ! i]) i (xs ! i) @ drop (Suc i) xs"
    by (subst xs, subst sift_up_append) (use assms in auto)
  then show ?thesis using assms by (simp add: push_list_def)
qed

lemma heap_up_run:
  assumes "list_all ok xs" "i + m = length xs" "heap_ordered lt (take i xs)"
  shows "heap_ordered lt (up_run lt xs i m) \<and> list_all ok (up_run lt xs i m)"
  using assms
proof (induction m arbitrary: xs i)
  case (Suc m)
  let ?ys = "sift_up lt xs i (xs ! i)"
  have i: "i < length xs" using Suc.prems(2) by simp
  have ok: "ok (xs ! i)" "list_all ok (take i xs)"
    using okD [OF Suc.prems(1) i] Suc.prems(1) by (auto simp: list_all_iff dest: in_set_takeD)
  have "list_all ok ?ys" using set_sift_up [OF i, of lt "xs ! i"] Suc.prems(1) ok by (auto simp: list_all_iff)
  then show ?case
    using Suc.IH [of ?ys "Suc i"] Suc.prems(2) heap_push_list(1) [OF ok(2,1) Suc.prems(3)] take_sift_up [OF i]
    by simp
qed simp

lemma heap_pop_list:
  assumes "list_all ok xs" "heap_ordered lt xs" "n \<le> length xs" "pop_list lt xs n = (es, ys)"
  shows "sorted_wrt (\<lambda>a b. \<not> lt b a) es \<and> heap_ordered lt ys \<and> list_all ok ys \<and>
         (\<forall>e \<in> set es. \<forall>y \<in> set ys. \<not> lt y e) \<and> (\<forall>e \<in> set es. e \<in> set xs)"
  using assms
proof (induction n arbitrary: xs es ys)
  case (Suc n)
  let ?r = "remove_list lt xs 0"
  have len: "0 < length xs" using Suc.prems(3) by (cases xs) auto
  obtain es' where es: "pop_list lt ?r n = (es', ys)" "es = xs ! 0 # es'"
    using Suc.prems(4) by (auto simp: Let_def split: prod.splits)
  have n: "n \<le> length ?r" using Suc.prems(3) by simp
  note IH = Suc.IH [OF heap_remove_list(2,1) [OF Suc.prems(1,2) len] n es(1)]
  have sub: "set ?r \<subseteq> set xs"
    using arg_cong [OF mset_remove_list [OF len, of lt], of set_mset] by auto
  have "set ys \<subseteq> set ?r"
    using arg_cong [OF conjunct1 [OF pop_list_mset [OF n es(1)]], of set_mset] by auto
  moreover have first: "\<not> lt y (xs ! 0)" if "y \<in> set xs" for y
    using root_first [OF Suc.prems(1,2)] that by (auto simp: in_set_conv_nth)
  moreover have "xs ! 0 \<in> set xs" using len by simp
  ultimately show ?case unfolding es(2) using IH sub by (auto 4 3)
qed simp

end

end
