(* ===== verification/Dv_Heap_Sift.thy ===== *)
theory Dv_Heap_Sift
  imports Dv_Heap_Memory Heap_Order
begin

text \<open>
  The sift loops of \<open>dv_heap.c\<close> on the byte buffer compute the sifts of \<open>Heap_Order\<close> on the list
  of elements: they return for every heap that meets its invariant (the child index \<open>2i + 2\<close> does
  not wrap, no access leaves the buffer), they write nothing but slots below the size, and the
  world changes by exactly the reports of the moves.
\<close>

section \<open>Slots\<close>

abbreviation slot_at :: "'w dv_heap_t \<Rightarrow> nat \<Rightarrow> byte list" where
  "slot_at h i \<equiv> chunk (unat (hp_elem_size h)) (heap_data h) i"

abbreviation view :: "nat \<Rightarrow> 'w dv_heap_t \<Rightarrow> byte list list" where
  "view n h \<equiv> chunks (unat (hp_elem_size h)) (heap_data h) n"

definition set_slot :: "'w dv_heap_t \<Rightarrow> nat \<Rightarrow> byte list \<Rightarrow> 'w dv_heap_t" where
  "set_slot h i e = h\<lparr>hp_buffer :=
     map_option (\<lambda>b. b\<lparr>blk_data := put_slot (unat (hp_elem_size h)) (blk_data b) i e\<rparr>) (hp_buffer h)\<rparr>"

lemma set_slot_fields [simp]:
  "hp_size (set_slot h i e) = hp_size h" "hp_capacity (set_slot h i e) = hp_capacity h"
  "hp_elem_size (set_slot h i e) = hp_elem_size h" "hp_on_move (set_slot h i e) = hp_on_move h"
  "hp_move_user_data (set_slot h i e) = hp_move_user_data h"
  by (simp_all add: set_slot_def)

lemma same_setup_set_slot: "same_setup h (set_slot h i e)"
  by (simp add: set_slot_def same_setup_def)

locale heap_buffer =
  fixes h :: "'w dv_heap_t"
  assumes mem: "heap_mem h" and nonempty: "0 < unat (hp_capacity h)"
begin

lemma buffer: obtains b where "hp_buffer h = Some b" "heap_data h = blk_data b"
proof -
  have "hp_buffer h \<noteq> None" using mem nonempty unfolding heap_mem_def by auto
  then show thesis using that by (auto simp: heap_data_def)
qed

lemma elem_slot:
  assumes "unat i \<le> unat (hp_capacity h)"
  shows "heap_elem h (Own (dv_heap_slot h i)) = Some (slot_at h (unat i))"
proof -
  obtain b where b: "hp_buffer h = Some b" "heap_data h = blk_data b" by (rule buffer)
  show ?thesis
    using heap_slot_bound [OF mem assms nonempty] b
    by (simp add: heap_elem_def heap_load_def dv_heap_slot_def heap_slot_unat [OF mem assms] mem_read_slot)
qed

lemma scratch_slot: "dv_heap_scratch h = dv_heap_slot h (hp_capacity h)"
  by (simp add: dv_heap_scratch_def dv_heap_slot_def)

lemma length_slot: "i \<le> unat (hp_capacity h) \<Longrightarrow> length (slot_at h i) = unat (hp_elem_size h)"
  using heap_slot_bound [OF mem _ nonempty] by (rule length_chunk)

lemma data_set_slot:
  "heap_data (set_slot h i e) = put_slot (unat (hp_elem_size h)) (heap_data h) i e"
  by (rule buffer) (simp add: heap_data_def set_slot_def)

lemma store_slot:
  assumes "unat i \<le> unat (hp_capacity h)" "length e = unat (hp_elem_size h)"
  shows "heap_store h (dv_heap_slot h i) e = Some (set_slot h (unat i) e)"
proof -
  obtain b where b: "hp_buffer h = Some b" "heap_data h = blk_data b" by (rule buffer)
  show ?thesis
    using heap_slot_bound [OF mem assms(1) nonempty] b assms(2)
    by (simp add: heap_store_def dv_heap_slot_def heap_slot_unat [OF mem assms(1)] mem_write_slot set_slot_def)
qed

lemma buffer_set_slot:
  assumes "i \<le> unat (hp_capacity h)" "length e = unat (hp_elem_size h)"
  shows "heap_buffer (set_slot h i e)"
proof -
  have "length (heap_data (set_slot h i e)) = length (heap_data h)"
    unfolding data_set_slot using heap_slot_bound [OF mem assms(1) nonempty] assms(2)
    by (intro length_put_slot)
  then show ?thesis
    using mem nonempty by unfold_locales (auto simp: heap_mem_def set_slot_def)
qed

lemma view_set_slot:
  assumes "i \<le> unat (hp_capacity h)" "length e = unat (hp_elem_size h)"
  shows "view n (set_slot h i e) = (view n h)[i := e]"
  using chunks_put [OF assms(2) heap_slot_bound [OF mem assms(1) nonempty]] by (simp add: data_set_slot)

lemma slot_set_slot:
  assumes "i \<le> unat (hp_capacity h)" "length e = unat (hp_elem_size h)"
  shows "slot_at (set_slot h i e) j = (if j = i then e else slot_at h j)"
  using heap_slot_bound [OF mem assms(1) nonempty] assms(2)
  by (simp add: data_set_slot chunk_put_same chunk_put_other)

lemma slot_neq:
  assumes "unat i \<le> unat (hp_capacity h)" "unat j \<le> unat (hp_capacity h)" "i \<noteq> j"
  shows "dv_heap_slot h i \<noteq> dv_heap_slot h j"
proof
  assume "dv_heap_slot h i = dv_heap_slot h j"
  then have "unat i * unat (hp_elem_size h) = unat j * unat (hp_elem_size h)"
    using heap_slot_unat [OF mem assms(1)] heap_slot_unat [OF mem assms(2)]
    unfolding dv_heap_slot_def by metis
  then show False using heap_mem_facts(2) [OF mem] assms(3) by (auto simp: word_unat_eq_iff)
qed

end

section \<open>Reports\<close>

definition notified :: "'w dv_heap_t \<Rightarrow> 'w \<Rightarrow> nat \<times> byte list \<Rightarrow> 'w" where
  "notified h w = (\<lambda>(i, e). case hp_on_move h of
     None \<Rightarrow> w | Some mv \<Rightarrow> mv e (of_nat i) (hp_move_user_data h) w)"

lemma notified_setup: "same_setup h h' \<Longrightarrow> notified h' = notified h"
  by (simp add: notified_def fun_eq_iff same_setupD split: option.split)

lemma notified_set_slot [simp]: "notified (set_slot h i e) = notified h"
  by (rule notified_setup [OF same_setup_set_slot])

context heap_buffer
begin

lemma notify_slot:
  assumes "unat i \<le> unat (hp_capacity h)"
  shows "dv_heap_notify h i w = Some (notified h w (unat i, slot_at h (unat i)))"
  using elem_slot [OF assms] by (simp add: dv_heap_notify_def notified_def split: option.split)

lemma fill_slot:
  assumes "unat i \<le> unat (hp_capacity h)" "unat j \<le> unat (hp_capacity h)"
  shows "heap_fill h i j w =
    Some (set_slot h (unat i) (slot_at h (unat j)), notified h w (unat i, slot_at h (unat j)))"
proof -
  let ?e = "slot_at h (unat j)" and ?h = "set_slot h (unat i) (slot_at h (unat j))"
  have len: "length ?e = unat (hp_elem_size h)" by (rule length_slot [OF assms(2)])
  have b: "heap_buffer ?h" by (rule buffer_set_slot [OF assms(1) len])
  have "dv_heap_notify ?h i w = Some (notified ?h w (unat i, slot_at ?h (unat i)))"
    by (rule heap_buffer.notify_slot [OF b]) (simp add: assms(1))
  also have "slot_at ?h (unat i) = ?e" using slot_set_slot [OF assms(1) len] by simp
  finally show ?thesis
    using store_slot [OF assms(1) len] elem_slot [OF assms(2)]
    by (simp add: heap_fill_def heap_copy_def)
qed

text \<open>What a sift carries: an element of the caller, or the scratch slot.\<close>

definition carries :: "heap_ptr \<Rightarrow> byte list \<Rightarrow> bool" where
  "carries item x \<longleftrightarrow> heap_elem h item = Some x \<and> length x = unat (hp_elem_size h) \<and>
     (\<forall>off. item = Own off \<longrightarrow> off = dv_heap_scratch h)"

lemma place_slot:
  assumes i: "unat i < unat (hp_capacity h)" and c: "carries item x"
  shows "heap_place h i item w = Some (set_slot h (unat i) x, notified h w (unat i, x))"
proof -
  let ?h = "set_slot h (unat i) x"
  have len: "length x = unat (hp_elem_size h)" and ile: "unat i \<le> unat (hp_capacity h)"
    using c i by (simp_all add: carries_def)
  have b: "heap_buffer ?h" by (rule buffer_set_slot [OF ile len])
  have "dv_heap_notify ?h i w = Some (notified ?h w (unat i, slot_at ?h (unat i)))"
    by (rule heap_buffer.notify_slot [OF b]) (simp add: ile)
  also have "slot_at ?h (unat i) = x" using slot_set_slot [OF ile len] by simp
  finally have n: "dv_heap_notify ?h i w = Some (notified h w (unat i, x))" by simp
  have "Own (dv_heap_slot h i) \<noteq> item"
    using c slot_neq [OF ile, of "hp_capacity h"] i by (auto simp: carries_def scratch_slot)
  then show ?thesis
    using c n store_slot [OF ile len] by (simp add: heap_place_def heap_copy_def carries_def)
qed

lemma carries_set_slot:
  assumes i: "i < unat (hp_capacity h)" and e: "length e = unat (hp_elem_size h)" and c: "carries item x"
  shows "heap_buffer.carries (set_slot h i e) item x"
proof -
  have b: "heap_buffer (set_slot h i e)" using buffer_set_slot [OF _ e] i by simp
  have s: "dv_heap_scratch (set_slot h i e) = dv_heap_scratch h" by (simp add: dv_heap_scratch_def)
  have "heap_elem (set_slot h i e) item = heap_elem h item"
  proof (cases item)
    case (Own off)
    then have off: "off = dv_heap_slot h (hp_capacity h)" using c by (simp add: carries_def scratch_slot)
    then have off': "off = dv_heap_slot (set_slot h i e) (hp_capacity h)" by (simp add: dv_heap_slot_def)
    show ?thesis
      using heap_buffer.elem_slot [OF b, of "hp_capacity h"] elem_slot [of "hp_capacity h"]
        slot_set_slot [OF _ e, of i] i unfolding Own by (simp add: off [symmetric] off' [symmetric])
  qed (simp add: heap_elem_def)
  then show ?thesis using c s by (simp add: heap_buffer.carries_def [OF b] carries_def)
qed

end

section \<open>The ordering of a configured heap\<close>

text \<open>
  What the sift loops need: the configured comparison answers, in every world of \<open>W\<close>, by a strict
  weak order \<open>lt\<close> on the admissible elements, and neither the move hook nor the allocator leaves
  \<open>W\<close>. For keys inside the elements \<open>W\<close> is every world; for keys behind pointers it is the worlds
  in which the objects hold the same keys.
\<close>

locale ordered_heap = heap_order lt ok
  for lt :: "byte list \<Rightarrow> byte list \<Rightarrow> bool" and ok :: "byte list \<Rightarrow> bool" +
  fixes X :: "'w extmem" and cfg :: "'w dv_heap_t" and W :: "'w set"
  assumes before_ok: "w \<in> W \<Longrightarrow> ok a \<Longrightarrow> ok b \<Longrightarrow> dv_heap_before_raw X cfg a b w = Some (lt a b)"
    and ok_length: "ok a \<Longrightarrow> length a = unat (hp_elem_size cfg)"
    and move_keeps: "hp_on_move cfg = Some mv \<Longrightarrow> w \<in> W \<Longrightarrow> ok e \<Longrightarrow> mv e i (hp_move_user_data cfg) w \<in> W"
    and hooks_stay: "hooks_keep W (hp_allocator cfg)"

lemma before_raw_setup:
  assumes "same_setup h h'"
  shows "dv_heap_before_raw X h' = dv_heap_before_raw X h"
proof -
  have "dv_heap_key_of X h' = dv_heap_key_of X h"
    by (simp add: fun_eq_iff dv_heap_key_of_def same_setupD [OF assms])
  then show ?thesis
    by (simp add: fun_eq_iff dv_heap_before_raw_def dv_heap_key_less_def with_keys_def
        heap_compare_less_def same_setupD [OF assms] split: dv_heap_key_type_t.split)
qed

lemma before_raw_on_move: "dv_heap_before_raw X (h\<lparr>hp_on_move := m\<rparr>) = dv_heap_before_raw X h"
  by (simp add: fun_eq_iff dv_heap_before_raw_def dv_heap_key_less_def with_keys_def
      heap_compare_less_def dv_heap_key_of_def split: dv_heap_key_type_t.split)

context ordered_heap
begin

lemma silent: "ordered_heap lt ok X (cfg\<lparr>hp_on_move := None\<rparr>) W"
  using before_ok ok_length hooks_stay
  by unfold_locales (auto simp: before_raw_on_move)

lemma notified_keeps: "w \<in> W \<Longrightarrow> ok e \<Longrightarrow> notified cfg w (i, e) \<in> W"
  using move_keeps by (simp add: notified_def split: option.split)

text \<open>Every slot but the hole holds an admissible element.\<close>

definition ok_but :: "nat \<Rightarrow> byte list list \<Rightarrow> bool" where
  "ok_but i xs \<longleftrightarrow> (\<forall>j < length xs. j \<noteq> i \<longrightarrow> ok (xs ! j))"

lemma ok_but_list_all: "list_all ok xs \<Longrightarrow> ok_but i xs"
  by (simp add: ok_but_def list_all_length)

lemma ok_but_step:
  assumes "ok_but i xs" "j < length xs" "j \<noteq> i" "i < length xs"
  shows "ok_but j (xs[i := xs ! j])" "ok (xs ! j)"
  using assms by (auto simp: ok_but_def nth_list_update)

text \<open>A heap whose first \<open>n\<close> slots are \<open>xs\<close> after a sift.\<close>

definition sifted :: "'w dv_heap_t \<Rightarrow> nat \<Rightarrow> byte list list \<Rightarrow> 'w dv_heap_t \<Rightarrow> bool" where
  "sifted h n xs h' \<longleftrightarrow> same_setup h h' \<and> hp_size h' = hp_size h \<and> hp_capacity h' = hp_capacity h \<and>
     heap_buffer h' \<and> view n h' = xs \<and> (\<forall>j \<ge> n. slot_at h' j = slot_at h j)"

lemma sifted_trans:
  assumes "sifted h n xs h1" "sifted h1 n ys h2" shows "sifted h n ys h2"
  using assms same_setup_trans unfolding sifted_def by auto

lemma sifted_set_slot:
  assumes "heap_buffer h" "i < n" "n \<le> unat (hp_capacity h)" "length e = unat (hp_elem_size h)"
  shows "sifted h n ((view n h)[i := e]) (set_slot h i e)"
proof -
  have i: "i \<le> unat (hp_capacity h)" using assms by simp
  have "view n (set_slot h i e) = (view n h)[i := e]"
    by (rule heap_buffer.view_set_slot [OF assms(1) i assms(4)])
  moreover have "slot_at (set_slot h i e) j = slot_at h j" if "n \<le> j" for j
    using heap_buffer.slot_set_slot [OF assms(1) i assms(4), of j] that assms(2) by simp
  ultimately show ?thesis
    using heap_buffer.buffer_set_slot [OF assms(1) i assms(4)] same_setup_set_slot
    by (simp add: sifted_def)
qed

lemma before_slots:
  assumes "heap_buffer h" "same_setup cfg h" "w \<in> W" "ok a" "ok b"
    and "heap_elem h p = Some a" "heap_elem h q = Some b"
  shows "dv_heap_before X h p q w = Some (lt a b)"
  using assms before_ok before_raw_setup [OF assms(2)] by (simp add: dv_heap_before_def)

subsection \<open>Sifting up\<close>

lemma sift_up_refines:
  assumes "heap_buffer h" "same_setup cfg h" "w \<in> W" "n \<le> unat (hp_capacity h)" "unat i < n"
    and "heap_buffer.carries h item x" "ok x" "ok_but (unat i) (view n h)"
  shows "\<exists>h' w'. dv_heap_sift_up X h i item w = Some (h', w') \<and> w' \<in> W \<and>
           sifted h n (sift_up lt (view n h) (unat i) x) h' \<and>
           w' = foldl (notified cfg) w (up_moves lt (view n h) (unat i) x)"
  using assms
proof (induction "unat i" arbitrary: i h w rule: less_induct)
  case less
  let ?p = "(i - 1) div 2" and ?xs = "view n h"
  note buf = less.prems(1)
  have x: "heap_elem h item = Some x" "length x = unat (hp_elem_size h)"
    using less.prems(6) by (simp_all add: heap_buffer.carries_def [OF buf])
  have nc: "notified h = notified cfg" by (rule notified_setup [OF less.prems(2)])
  have stop: ?case if s: "dv_heap_sift_up X h i item w = heap_place h i item w"
      "\<not> (0 < unat i \<and> lt x (?xs ! parent (unat i)))"
  proof -
    have i: "unat i < unat (hp_capacity h)" using less.prems(4,5) by simp
    have "dv_heap_sift_up X h i item w = Some (set_slot h (unat i) x, notified cfg w (unat i, x))"
      using heap_buffer.place_slot [OF buf i less.prems(6)] s nc by simp
    moreover have "sifted h n (sift_up lt ?xs (unat i) x) (set_slot h (unat i) x)"
      using sifted_set_slot [OF buf less.prems(5,4) x(2)] sift_up_stop(1) [of "unat i" lt x ?xs] s(2) by simp
    ultimately show ?thesis
      using notified_keeps [OF less.prems(3,7)] sift_up_stop(2) [of "unat i" lt x ?xs] s(2) by simp
  qed
  show ?case
  proof (cases "i > 0")
    case False
    then have "i = 0" by (simp add: word_gt_0)
    then show ?thesis by (intro stop) (subst dv_heap_sift_up.simps, auto)
  next
    case True
    have p: "unat ?p = parent (unat i)" "unat ?p < unat i"
      using unat_parent [OF True] word_parent_less [OF True] by auto
    have pn: "unat ?p < n" "unat ?p \<le> unat (hp_capacity h)" "unat i \<le> unat (hp_capacity h)"
      using p less.prems(4,5) by linarith+
    have nth: "?xs ! unat ?p = slot_at h (unat ?p)" using pn by simp
    have okp: "ok (slot_at h (unat ?p))" using less.prems(8) p pn by (simp add: ok_but_def)
    have b: "dv_heap_before X h item (Own (dv_heap_slot h ?p)) w = Some (lt x (slot_at h (unat ?p)))"
      using before_slots [OF buf less.prems(2,3,7) okp x(1)] heap_buffer.elem_slot [OF buf pn(2)] by simp
    show ?thesis
    proof (cases "lt x (slot_at h (unat ?p))")
      case False
      then show ?thesis using b True p nth by (intro stop) (subst dv_heap_sift_up.simps, auto)
    next
      case up: True
      let ?h = "set_slot h (unat i) (slot_at h (unat ?p))"
      have len: "length (slot_at h (unat ?p)) = unat (hp_elem_size h)"
        by (rule heap_buffer.length_slot [OF buf pn(2)])
      have st: "sifted h n (?xs[unat i := ?xs ! unat ?p]) ?h"
        unfolding nth by (rule sifted_set_slot [OF buf less.prems(5,4) len])
      have cond: "0 < unat i \<and> lt x (?xs ! parent (unat i))"
        using up True nth p by (simp add: word_less_nat_alt)
      have c': "heap_buffer.carries ?h item x"
        using heap_buffer.carries_set_slot [OF buf _ len less.prems(6)] less.prems(4,5) by simp
      have ob: "ok_but (unat ?p) (view n ?h)"
        using ok_but_step(1) [OF less.prems(8), of "unat ?p"] st p pn less.prems(5)
        by (simp add: sifted_def)
      obtain h' w' where r: "dv_heap_sift_up X ?h ?p item (notified cfg w (unat i, slot_at h (unat ?p))) = Some (h', w')"
        "w' \<in> W" "sifted ?h n (sift_up lt (view n ?h) (unat ?p) x) h'"
        "w' = foldl (notified cfg) (notified cfg w (unat i, slot_at h (unat ?p))) (up_moves lt (view n ?h) (unat ?p) x)"
        using less.hyps [OF p(2), of ?h "notified cfg w (unat i, slot_at h (unat ?p))"]
          st same_setup_trans [OF less.prems(2)] notified_keeps [OF less.prems(3) okp] less.prems(4,7) pn(1) c' ob
        by (auto simp: sifted_def)
      have v: "view n ?h = ?xs[unat i := ?xs ! parent (unat i)]" using st p by (simp add: sifted_def)
      have "dv_heap_sift_up X h i item w = Some (h', w')"
        using True b up r(1) heap_buffer.fill_slot [OF buf pn(3,2), of w] nc
        by (subst dv_heap_sift_up.simps) simp
      then show ?thesis
        using r st sifted_trans [OF st r(3)] sift_up_step [of "unat i" lt x ?xs, OF cond] v p nth by simp
    qed
  qed
qed

subsection \<open>Sifting down\<close>

lemma child_index:
  fixes i :: size_t
  assumes "heap_mem h" "unat i < unat (hp_size h)"
  shows "unat (2 * i + 1) = 2 * unat i + 1" "unat (2 * i + 1 + 1) = 2 * unat i + 2"
proof -
  have "2 * unat i + 2 < 2 ^ 64"
    using assms heap_mem_facts(1,3) [OF assms(1)] by simp
  then have "unat (2 * i) = 2 * unat i"
    using unat_mult_no_ovf [of 2 i] by simp
  then show "unat (2 * i + 1) = 2 * unat i + 1" using \<open>2 * unat i + 2 < 2 ^ 64\<close> unat_add_no_ovf [of "2 * i" 1] by simp
  then show "unat (2 * i + 1 + 1) = 2 * unat i + 2"
    using \<open>2 * unat i + 2 < 2 ^ 64\<close> unat_add_no_ovf [of "2 * i + 1" 1] by simp
qed

lemma child_refines:
  assumes buf: "heap_buffer h" and s: "same_setup cfg h" and w: "w \<in> W" and i: "unat i < unat (hp_size h)"
    and ob: "ok_but (unat i) (view (unat (hp_size h)) h)" and left: "2 * unat i + 1 < unat (hp_size h)"
  shows "\<exists>c. heap_child X h (2 * i + 1) w = Some c \<and> unat c = best_child lt (view (unat (hp_size h)) h) (unat i)"
proof -
  let ?n = "unat (hp_size h)"
  have mem: "heap_mem h" by (rule heap_buffer.mem [OF buf])
  note ci = child_index [OF mem i]
  have cap: "?n \<le> unat (hp_capacity h)" by (rule heap_mem_facts(1) [OF mem])
  have l: "unat (2 * i + 1) \<le> unat (hp_capacity h)" using ci left cap by simp
  show ?thesis
  proof (cases "2 * unat i + 2 < ?n")
    case True
    have r: "unat (2 * i + 1 + 1) \<le> unat (hp_capacity h)" using ci True cap by simp
    have oks: "ok (slot_at h (2 * unat i + 1))" "ok (slot_at h (2 * unat i + 2))"
      using ob left True by (auto simp: ok_but_def)
    have "dv_heap_before X h (Own (dv_heap_slot h (2 * i + 1 + 1))) (Own (dv_heap_slot h (2 * i + 1))) w =
        Some (lt (slot_at h (2 * unat i + 2)) (slot_at h (2 * unat i + 1)))"
      using before_slots [OF buf s w oks(2,1)] heap_buffer.elem_slot [OF buf l] heap_buffer.elem_slot [OF buf r]
      unfolding ci by blast
    moreover have "2 * i + 1 + 1 < hp_size h" using ci True by (simp add: word_less_nat_alt)
    ultimately show ?thesis using ci left True unfolding heap_child_def by (auto simp: best_child_def)
  next
    case False
    then have "\<not> 2 * i + 1 + 1 < hp_size h" using ci by (simp add: word_less_nat_alt)
    then show ?thesis using ci False unfolding heap_child_def by (simp add: best_child_def)
  qed
qed

lemma sift_down_refines:
  assumes "heap_buffer h" "same_setup cfg h" "w \<in> W" "unat i < unat (hp_size h)"
    and "heap_buffer.carries h item x" "ok x" "ok_but (unat i) (view (unat (hp_size h)) h)"
  shows "\<exists>h' w'. dv_heap_sift_down X h i item w = Some (h', w') \<and> w' \<in> W \<and>
           sifted h (unat (hp_size h)) (sift_down lt (view (unat (hp_size h)) h) (unat i) x) h' \<and>
           w' = foldl (notified cfg) w (down_moves lt (view (unat (hp_size h)) h) (unat i) x)"
  using assms
proof (induction "unat (hp_size h) - unat i" arbitrary: i h w rule: less_induct)
  case less
  let ?n = "unat (hp_size h)"
  let ?xs = "view ?n h"
  let ?c = "best_child lt ?xs (unat i)"
  note buf = less.prems(1)
  have mem: "heap_mem h" by (rule heap_buffer.mem [OF buf])
  have cap: "?n \<le> unat (hp_capacity h)" by (rule heap_mem_facts(1) [OF mem])
  have x: "heap_elem h item = Some x" "length x = unat (hp_elem_size h)"
    using less.prems(5) by (simp_all add: heap_buffer.carries_def [OF buf])
  have nc: "notified h = notified cfg" by (rule notified_setup [OF less.prems(2)])
  note ci = child_index [OF mem less.prems(4)]
  have stop: ?case if s: "dv_heap_sift_down X h i item w = heap_place h i item w"
      "\<not> (2 * unat i + 1 < length ?xs \<and> lt (?xs ! ?c) x)"
  proof -
    have i: "unat i < unat (hp_capacity h)" using less.prems(4) cap by simp
    have "dv_heap_sift_down X h i item w = Some (set_slot h (unat i) x, notified cfg w (unat i, x))"
      using heap_buffer.place_slot [OF buf i less.prems(5)] s nc by simp
    moreover have "sifted h ?n (sift_down lt ?xs (unat i) x) (set_slot h (unat i) x)"
      using sifted_set_slot [OF buf less.prems(4) cap x(2)] sift_down_stop(1) [of "unat i" ?xs lt x] s(2) by simp
    ultimately show ?thesis
      using notified_keeps [OF less.prems(3,6)] sift_down_stop(2) [of "unat i" ?xs lt x] s(2) by simp
  qed
  show ?case
  proof (cases "2 * unat i + 1 < ?n")
    case False
    then have "hp_size h \<le> 2 * i + 1" using ci by (simp add: word_le_nat_alt)
    then show ?thesis using False by (intro stop) (subst dv_heap_sift_down.simps, auto)
  next
    case True
    have go: "\<not> hp_size h \<le> 2 * i + 1" using True ci by (simp add: word_le_nat_alt)
    obtain c where c: "heap_child X h (2 * i + 1) w = Some c" "unat c = ?c"
      using child_refines [OF buf less.prems(2,3,4,7) True] by blast
    have cb: "?c < ?n" "unat i < ?c"
      using best_child_bounds(1) [where lt = lt and xs = ?xs and i = "unat i"]
        best_child_bounds(2) [where lt = lt and xs = ?xs and i = "unat i"] True by auto
    have cc: "unat c \<le> unat (hp_capacity h)" "unat i \<le> unat (hp_capacity h)" using c cb cap by auto
    have nth: "?xs ! ?c = slot_at h (unat c)" using cb c by simp
    have okc: "ok (slot_at h (unat c))" using less.prems(7) cb c by (simp add: ok_but_def)
    have b: "dv_heap_before X h (Own (dv_heap_slot h c)) item w = Some (lt (slot_at h (unat c)) x)"
      using before_slots [OF buf less.prems(2,3) okc less.prems(6) _ x(1)] heap_buffer.elem_slot [OF buf cc(1)]
      by simp
    show ?thesis
    proof (cases "lt (slot_at h (unat c)) x")
      case False
      then show ?thesis using b c go nth by (intro stop) (subst dv_heap_sift_down.simps, auto)
    next
      case down: True
      let ?h = "set_slot h (unat i) (slot_at h (unat c))" and ?w = "notified cfg w (unat i, slot_at h (unat c))"
      have len: "length (slot_at h (unat c)) = unat (hp_elem_size h)"
        by (rule heap_buffer.length_slot [OF buf cc(1)])
      have st: "sifted h ?n (?xs[unat i := ?xs ! ?c]) ?h"
        unfolding nth by (rule sifted_set_slot [OF buf less.prems(4) cap len])
      have v: "view ?n ?h = ?xs[unat i := ?xs ! ?c]" using st by (simp add: sifted_def)
      have cond: "2 * unat i + 1 < length ?xs \<and> lt (?xs ! ?c) x" using down True nth by simp
      have c': "heap_buffer.carries ?h item x"
        using heap_buffer.carries_set_slot [OF buf _ len less.prems(5)] less.prems(4) cap by simp
      have ob: "ok_but (unat c) (view ?n ?h)"
        unfolding v using ok_but_step(1) [OF less.prems(7), of ?c] cb less.prems(4) c(2) by simp
      have sz: "hp_size ?h = hp_size h" by simp
      have dec: "unat (hp_size ?h) - unat c < ?n - unat i" and lt: "unat c < unat (hp_size ?h)"
        unfolding sz c(2) using cb by (auto intro: diff_less_mono2)
      have buf': "heap_buffer ?h" and s': "same_setup cfg ?h"
        using st same_setup_trans [OF less.prems(2)] by (simp_all add: sifted_def)
      have w1: "?w \<in> W" by (rule notified_keeps [OF less.prems(3) okc])
      have ob': "ok_but (unat c) (view (unat (hp_size ?h)) ?h)" using ob by simp
      obtain h' w' where r: "dv_heap_sift_down X ?h c item ?w = Some (h', w')"
        "w' \<in> W" "sifted ?h ?n (sift_down lt (view ?n ?h) (unat c) x) h'"
        "w' = foldl (notified cfg) ?w (down_moves lt (view ?n ?h) (unat c) x)"
        using less.hyps [OF dec buf' s' w1 lt c' less.prems(6) ob']
        unfolding sz by blast
      have "dv_heap_sift_down X h i item w = Some (h', w')"
        using go b c down r(1) heap_buffer.fill_slot [OF buf cc(2,1), of w] nc
        by (subst dv_heap_sift_down.simps) simp
      then show ?thesis
        using r sifted_trans [OF st r(3)] sift_down_step [of "unat i" ?xs lt x, OF cond] v c(2) nth by simp
    qed
  qed
qed

end

end
