(* ===== verification/Dv_Heap_Ops.thy ===== *)
theory Dv_Heap_Ops
  imports Dv_Heap_Sift
begin

text \<open>
  Every operation of the heap against the list functions of \<open>Heap_Order\<close>: the call returns, the
  elements of the resulting heap are the list function of the old ones, and the world is the old
  one after the reports of the moves (and the allocator's calls). All in the locale
  \<open>ordered_heap\<close>, for any configuration whose comparison is a strict weak order.
\<close>

definition hook_world :: "'w dv_heap_t \<Rightarrow> 'w \<Rightarrow> 'w \<Rightarrow> bool" where
  "hook_world h w w1 \<longleftrightarrow> (\<forall>W. w \<in> W \<and> hooks_keep W (hp_allocator h) \<longrightarrow> w1 \<in> W)"

lemma hook_world_refl [simp]: "hook_world h w w"
  by (simp add: hook_world_def)

lemma same_setup_size: "same_setup h (h\<lparr>hp_size := k\<rparr>)"
  by (simp add: same_setup_def)

context ordered_heap
begin

definition wf_heap :: "'w dv_heap_t \<Rightarrow> bool" where
  "wf_heap h \<longleftrightarrow> same_setup cfg h \<and> heap_inv h \<and> list_all ok (heap_elems h)"

lemma wf_heapD:
  assumes "wf_heap h"
  shows "same_setup cfg h" "heap_inv h" "heap_mem h" "list_all ok (heap_elems h)" "heap_policy h"
  using assms by (simp_all add: wf_heap_def heap_inv_def)

lemma wf_buffer: "wf_heap h \<Longrightarrow> 0 < unat (hp_capacity h) \<Longrightarrow> heap_buffer h"
  by (simp add: heap_buffer_def wf_heapD)

lemma wf_nonempty: "wf_heap h \<Longrightarrow> i < unat (hp_size h) \<Longrightarrow> heap_buffer h"
  using heap_mem_facts(1) [OF wf_heapD(3) [of h]] by (intro wf_buffer) auto

lemma heap_policy_setup:
  "same_setup h h' \<Longrightarrow> hp_capacity h' = hp_capacity h \<Longrightarrow> heap_policy h' = heap_policy h"
  by (simp add: heap_policy_def same_setupD)

lemma wf_sifted:
  assumes h: "same_setup cfg h" "heap_policy h" and s: "sifted h n xs h'"
    and n: "unat k = n" "n \<le> unat (hp_capacity h)" and ok: "list_all ok xs"
  shows "wf_heap (h'\<lparr>hp_size := k\<rparr>)" "heap_elems (h'\<lparr>hp_size := k\<rparr>) = xs"
proof -
  have s': "same_setup h h'" "hp_capacity h' = hp_capacity h" "heap_mem h'" "view n h' = xs"
    using s heap_buffer.mem unfolding sifted_def by auto
  show el: "heap_elems (h'\<lparr>hp_size := k\<rparr>) = xs"
    using s'(4) n by (simp add: heap_elems_def heap_data_def)
  have "heap_mem (h'\<lparr>hp_size := k\<rparr>)"
    using s'(2,3) n by (simp add: heap_mem_def heap_data_def word_le_nat_alt)
  moreover have "heap_policy (h'\<lparr>hp_size := k\<rparr>)"
    using iffD2 [OF heap_policy_setup [OF s'(1,2)] h(2)] by (simp add: heap_policy_def)
  moreover have "same_setup cfg (h'\<lparr>hp_size := k\<rparr>)"
    using same_setup_trans [OF same_setup_trans [OF h(1) s'(1)] same_setup_size] .
  ultimately show "wf_heap (h'\<lparr>hp_size := k\<rparr>)" using ok el by (simp add: wf_heap_def heap_inv_def)
qed

lemma wf_sifted_same:
  assumes "wf_heap h" "sifted h (unat (hp_size h)) xs h'" "list_all ok xs"
  shows "wf_heap h'" "heap_elems h' = xs"
proof -
  have "h'\<lparr>hp_size := hp_size h\<rparr> = h'" using assms(2) by (cases h') (simp add: sifted_def)
  then show "wf_heap h'" "heap_elems h' = xs"
    using wf_sifted [OF wf_heapD(1,5) [OF assms(1)] assms(2) _ _ assms(3), of "hp_size h"]
      heap_mem_facts(1) [OF wf_heapD(3) [OF assms(1)]] by simp_all
qed

lemma elems_ok: "wf_heap h \<Longrightarrow> i < unat (hp_size h) \<Longrightarrow> ok (heap_elems h ! i)"
  using okD [OF wf_heapD(4)] by simp

lemma view_elems: "view (unat (hp_size h)) h = heap_elems h"
  by (simp add: heap_elems_def)

subsection \<open>Copying out\<close>

lemma copy_out_slot:
  assumes wf: "wf_heap h" and i: "unat i < unat (hp_size h)" and out: "out_fits (unat (hp_elem_size h)) out"
  shows "heap_copy_out h i out = Some (written (heap_elems h ! unat i) out)"
proof (cases out)
  case (Some b)
  have buf: "heap_buffer h" by (rule wf_nonempty [OF wf i])
  have cap: "unat i \<le> unat (hp_capacity h)" using i heap_mem_facts(1) [OF wf_heapD(3) [OF wf]] by simp
  have "heap_elem h (Own (dv_heap_slot h i)) = Some (heap_elems h ! unat i)"
    using heap_buffer.elem_slot [OF buf cap] i by (simp add: heap_elems_def)
  then show ?thesis
    using copy_out_written [of "heap_elems h ! unat i" out] out length_heap_elem [OF wf_heapD(3) [OF wf] i] Some
    by (simp add: heap_copy_out_def)
qed (simp add: heap_copy_out_def written_def)

lemma peek_refines:
  assumes "wf_heap h" "hp_size h \<noteq> 0" "unat (hp_elem_size h) \<le> length b"
  shows "dv_heap_peek (Some h) (Some b) = Some (DV_HEAP_OK, written (heap_elems h ! 0) (Some b))"
  using copy_out_slot [OF assms(1), of 0 "Some b"] assms(2,3) unat_gt_0 [of "hp_size h"]
  by (simp add: out_fits_def)

subsection \<open>The scratch slot\<close>

definition stashed :: "'w dv_heap_t \<Rightarrow> byte list \<Rightarrow> 'w dv_heap_t \<Rightarrow> bool" where
  "stashed h x h1 \<longleftrightarrow> heap_buffer h1 \<and> same_setup h h1 \<and> hp_size h1 = hp_size h \<and>
     hp_capacity h1 = hp_capacity h \<and> (\<forall>n \<le> unat (hp_capacity h). view n h1 = view n h) \<and>
     heap_buffer.carries h1 (Own (dv_heap_scratch h1)) x"

lemma stash:
  assumes buf: "heap_buffer h" and k: "unat k \<le> unat (hp_capacity h)"
  shows "\<exists>h1. heap_copy h (dv_heap_scratch h) (Own (dv_heap_slot h k)) = Some h1 \<and>
           stashed h (slot_at h (unat k)) h1"
proof -
  let ?x = "slot_at h (unat k)" and ?c = "hp_capacity h"
  let ?h = "set_slot h (unat ?c) ?x"
  have len: "length ?x = unat (hp_elem_size h)" by (rule heap_buffer.length_slot [OF buf k])
  have buf1: "heap_buffer ?h" by (rule heap_buffer.buffer_set_slot [OF buf _ len]) simp
  have "heap_copy h (dv_heap_scratch h) (Own (dv_heap_slot h k)) = Some ?h"
    using heap_buffer.elem_slot [OF buf k] heap_buffer.store_slot [OF buf _ len, of ?c]
      heap_buffer.scratch_slot [OF buf] by (simp add: heap_copy_def)
  moreover have "view n ?h = view n h" if "n \<le> unat ?c" for n
    using heap_buffer.view_set_slot [OF buf _ len, of "unat ?c" n] that by (simp add: list_update_beyond)
  moreover have "heap_elem ?h (Own (dv_heap_scratch ?h)) = Some ?x"
    using heap_buffer.elem_slot [OF buf1, of ?c] heap_buffer.scratch_slot [OF buf1]
      heap_buffer.slot_set_slot [OF buf _ len, of "unat ?c"] by simp
  ultimately show ?thesis
    using buf1 len same_setup_set_slot by (auto simp: stashed_def heap_buffer.carries_def [OF buf1])
qed

lemma stashed_elems:
  assumes "heap_mem h" "stashed h x h1" shows "heap_elems h1 = heap_elems h"
  using assms heap_mem_facts(1) [OF assms(1)] by (auto simp: stashed_def heap_elems_def)

lemma wf_stashed:
  assumes "wf_heap h" "stashed h x h1" shows "wf_heap h1" "heap_elems h1 = heap_elems h"
proof -
  show el: "heap_elems h1 = heap_elems h" by (rule stashed_elems [OF wf_heapD(3) [OF assms(1)] assms(2)])
  have "same_setup h h1" "hp_capacity h1 = hp_capacity h" "heap_mem h1"
    using assms(2) heap_buffer.mem by (auto simp: stashed_def)
  then show "wf_heap h1"
    using wf_heapD [OF assms(1)] el heap_policy_setup same_setup_trans by (auto simp: wf_heap_def heap_inv_def)
qed

subsection \<open>One step in either direction\<close>

lemma goes_up_refines:
  assumes wf: "wf_heap h" and w: "w \<in> W" and i: "unat i < unat (hp_size h)"
    and x: "heap_elem h item = Some x" "ok x"
  shows "heap_goes_up X h i item w = Some (0 < unat i \<and> lt x (heap_elems h ! parent (unat i)))"
proof (cases "i > 0")
  case True
  let ?p = "(i - 1) div 2"
  have buf: "heap_buffer h" by (rule wf_nonempty [OF wf i])
  have p: "unat ?p = parent (unat i)" "unat ?p < unat (hp_size h)"
    using unat_parent [OF True] word_parent_less [OF True] i by auto
  then have pc: "unat ?p \<le> unat (hp_capacity h)" using heap_mem_facts(1) [OF wf_heapD(3) [OF wf]] by simp
  have e: "heap_elem h (Own (dv_heap_slot h ?p)) = Some (heap_elems h ! unat ?p)"
    using heap_buffer.elem_slot [OF buf pc] p by (simp add: heap_elems_def)
  show ?thesis
    using before_slots [OF buf wf_heapD(1) [OF wf] w x(2) elems_ok [OF wf p(2)] x(1) e] True p
    by (simp add: heap_goes_up_def word_less_nat_alt)
next
  case False
  then have "i = 0" by (simp add: word_gt_0)
  then show ?thesis by (simp add: heap_goes_up_def)
qed

lemma resift_refines:
  assumes wf: "wf_heap h" and w: "w \<in> W" and i: "unat i < unat (hp_size h)"
    and c: "heap_buffer.carries h item x" and x: "ok x"
  shows "\<exists>h' w'. (if 0 < unat i \<and> lt x (heap_elems h ! parent (unat i))
                   then dv_heap_sift_up X h i item w else dv_heap_sift_down X h i item w) = Some (h', w') \<and>
           w' \<in> W \<and> sifted h (unat (hp_size h)) (update_list lt (heap_elems h) (unat i) x) h' \<and>
           w' = foldl (notified cfg) w (update_moves lt (heap_elems h) (unat i) x)"
proof -
  have buf: "heap_buffer h" by (rule wf_nonempty [OF wf i])
  have ob: "ok_but (unat i) (view (unat (hp_size h)) h)"
    unfolding view_elems by (rule ok_but_list_all [OF wf_heapD(4) [OF wf]])
  show ?thesis
    using sift_up_refines [OF buf wf_heapD(1) [OF wf] w heap_mem_facts(1) [OF wf_heapD(3) [OF wf]] i c x ob]
      sift_down_refines [OF buf wf_heapD(1) [OF wf] w i c x ob]
    unfolding view_elems update_list_def update_moves_def
    by (cases "0 < unat i \<and> lt x (heap_elems h ! parent (unat i))") (simp_all only: if_True if_False simp_thms)
qed

lemma wf_resifted:
  assumes wf: "wf_heap h" and i: "i < unat (hp_size h)" and x: "ok x"
    and s: "sifted h (unat (hp_size h)) (update_list lt (heap_elems h) i x) h'"
  shows "wf_heap h'" "heap_elems h' = update_list lt (heap_elems h) i x"
proof -
  have "list_all ok (update_list lt (heap_elems h) i x)"
    using set_sift_up [of i "heap_elems h" lt x] set_sift_down [of i "heap_elems h" lt x]
      wf_heapD(4) [OF wf] x i by (auto simp: update_list_def list_all_iff)
  then show "wf_heap h'" "heap_elems h' = update_list lt (heap_elems h) i x"
    using wf_sifted_same [OF wf s] by auto
qed

lemma carries_Ext:
  assumes "heap_buffer h" "unat (hp_elem_size h) \<le> length e"
  shows "heap_buffer.carries h (Ext e) (take (unat (hp_elem_size h)) e)"
  using assms by (simp add: heap_buffer.carries_def heap_elem_def mem_read_def)

section \<open>Updates\<close>

lemma update_at_refines:
  assumes wf: "wf_heap h" and w: "w \<in> W" and i: "index < hp_size h"
    and len: "unat (hp_elem_size h) \<le> length e" and x: "ok (take (unat (hp_elem_size h)) e)"
  defines "x \<equiv> take (unat (hp_elem_size h)) e"
  shows "\<exists>h' w'. dv_heap_update_at X (Some h) index (Some (Ext e)) w = Some (DV_HEAP_OK, Some h', w') \<and>
           w' \<in> W \<and> wf_heap h' \<and> heap_elems h' = update_list lt (heap_elems h) (unat index) x \<and>
           w' = foldl (notified cfg) w (update_moves lt (heap_elems h) (unat index) x)"
proof -
  have i': "unat index < unat (hp_size h)" using i by (simp add: word_less_nat_alt)
  have buf: "heap_buffer h" by (rule wf_nonempty [OF wf i'])
  have c: "heap_buffer.carries h (Ext e) x" unfolding x_def by (rule carries_Ext [OF buf len])
  have xo: "ok x" using x by (simp add: x_def)
  have el: "heap_elem h (Ext e) = Some x" using c by (simp add: heap_buffer.carries_def [OF buf])
  obtain h' w' where r: "(if 0 < unat index \<and> lt x (heap_elems h ! parent (unat index))
        then dv_heap_sift_up X h index (Ext e) w else dv_heap_sift_down X h index (Ext e) w) = Some (h', w')"
    "w' \<in> W" "sifted h (unat (hp_size h)) (update_list lt (heap_elems h) (unat index) x) h'"
    "w' = foldl (notified cfg) w (update_moves lt (heap_elems h) (unat index) x)"
    using resift_refines [OF wf w i' c xo] by blast
  then show ?thesis
    using goes_up_refines [OF wf w i' el xo] wf_resifted [OF wf i' xo r(3)] i by (simp add: not_le)
qed

lemma replace_top_refines:
  assumes wf: "wf_heap h" and w: "w \<in> W" and ne: "hp_size h \<noteq> 0"
    and len: "unat (hp_elem_size h) \<le> length e" and x: "ok (take (unat (hp_elem_size h)) e)"
    and out: "out_fits (unat (hp_elem_size h)) out"
  defines "x \<equiv> take (unat (hp_elem_size h)) e"
  shows "\<exists>h' w'. dv_heap_replace_top X (Some h) (Some (Ext e)) out w =
             Some (DV_HEAP_OK, Some h', written (heap_elems h ! 0) out, w') \<and>
           w' \<in> W \<and> wf_heap h' \<and> heap_elems h' = update_list lt (heap_elems h) 0 x \<and>
           w' = foldl (notified cfg) w (update_moves lt (heap_elems h) 0 x)"
proof -
  have i: "unat (0::size_t) < unat (hp_size h)" using ne by (simp add: unat_gt_0)
  have buf: "heap_buffer h" by (rule wf_nonempty [OF wf i])
  have c: "heap_buffer.carries h (Ext e) x" unfolding x_def by (rule carries_Ext [OF buf len])
  have xo: "ok x" using x by (simp add: x_def)
  obtain h' w' where r: "dv_heap_sift_down X h 0 (Ext e) w = Some (h', w')"
    "w' \<in> W" "sifted h (unat (hp_size h)) (update_list lt (heap_elems h) 0 x) h'"
    "w' = foldl (notified cfg) w (update_moves lt (heap_elems h) 0 x)"
    using resift_refines [OF wf w i c xo] by auto
  then show ?thesis
    using copy_out_slot [OF wf i out] wf_resifted [OF wf _ xo r(3)] ne i by simp
qed

section \<open>Removal\<close>

lemma lower_wf:
  assumes wf: "wf_heap h" and n: "n \<le> hp_size h"
  shows "wf_heap (h\<lparr>hp_size := n\<rparr>)" "heap_elems (h\<lparr>hp_size := n\<rparr>) = take (unat n) (heap_elems h)"
proof -
  note low = heap_lower_size [OF wf_heapD(2) [OF wf] n]
  show "heap_elems (h\<lparr>hp_size := n\<rparr>) = take (unat n) (heap_elems h)" by (rule low(3))
  show "wf_heap (h\<lparr>hp_size := n\<rparr>)"
    using low same_setup_trans [OF wf_heapD(1) [OF wf] low(2)] wf_heapD(4) [OF wf]
    by (auto simp: wf_heap_def list_all_iff dest: in_set_takeD)
qed

text \<open>Shrinking by one with the former last element in the scratch slot.\<close>

lemma take_last:
  assumes wf: "wf_heap h" and ne: "hp_size h \<noteq> 0"
  defines "h1 \<equiv> h\<lparr>hp_size := hp_size h - 1\<rparr>"
  shows "wf_heap h1" "heap_elems h1 = butlast (heap_elems h)" "unat (hp_size h1) = unat (hp_size h) - 1"
    and "\<exists>h2. heap_copy h1 (dv_heap_scratch h1) (Own (dv_heap_slot h1 (hp_size h1))) = Some h2 \<and>
           stashed h1 (last (heap_elems h)) h2"
proof -
  have s1: "unat (hp_size h - 1) = unat (hp_size h) - 1" using ne by (simp add: unat_minus_one)
  then show "unat (hp_size h1) = unat (hp_size h) - 1" by (simp add: h1_def)
  have le: "hp_size h - 1 \<le> hp_size h" using s1 by (simp add: word_le_nat_alt)
  show wf1: "wf_heap h1" unfolding h1_def by (rule lower_wf(1) [OF wf le])
  show "heap_elems h1 = butlast (heap_elems h)"
    using lower_wf(2) [OF wf le] s1 by (simp add: h1_def butlast_conv_take)
  have pos: "0 < unat (hp_size h)" using ne by (simp add: unat_gt_0)
  have cap: "unat (hp_size h) \<le> unat (hp_capacity h)" by (rule heap_mem_facts(1) [OF wf_heapD(3) [OF wf]])
  have buf1: "heap_buffer h1" using pos cap by (intro wf_buffer [OF wf1]) (simp add: h1_def)
  have "slot_at h1 (unat (hp_size h1)) = last (heap_elems h)"
    using pos s1 by (simp add: h1_def heap_data_def heap_elems_def last_conv_nth flip: length_greater_0_conv)
  then show "\<exists>h2. heap_copy h1 (dv_heap_scratch h1) (Own (dv_heap_slot h1 (hp_size h1))) = Some h2 \<and>
           stashed h1 (last (heap_elems h)) h2"
    using stash [OF buf1, of "hp_size h1"] cap s1 by (auto simp: h1_def)
qed

lemma remove_at_refines:
  assumes wf: "wf_heap h" and w: "w \<in> W" and i: "index < hp_size h"
    and out: "out_fits (unat (hp_elem_size h)) out"
  shows "\<exists>h' w'. dv_heap_remove_at X (Some h) index out w =
             Some (DV_HEAP_OK, Some h', written (heap_elems h ! unat index) out, w') \<and>
           w' \<in> W \<and> wf_heap h' \<and> heap_elems h' = remove_list lt (heap_elems h) (unat index) \<and>
           w' = foldl (notified cfg) w (remove_moves lt (heap_elems h) (unat index))"
proof -
  have i': "unat index < unat (hp_size h)" using i by (simp add: word_less_nat_alt)
  then have ne: "hp_size h \<noteq> 0" by auto
  let ?h1 = "h\<lparr>hp_size := hp_size h - 1\<rparr>" and ?xs = "heap_elems h"
  note tl = take_last [OF wf ne]
  note co = copy_out_slot [OF wf i' out]
  have last: "(index = hp_size ?h1) = (unat index = length ?xs - 1)"
    using tl(3) by (simp add: word_unat_eq_iff)
  show ?thesis
  proof (cases "unat index = length ?xs - 1")
    case True
    then show ?thesis using co tl(1,2) i w last by (simp add: remove_list_def remove_moves_def not_le)
  next
    case False
    obtain h2 where h2: "heap_copy ?h1 (dv_heap_scratch ?h1) (Own (dv_heap_slot ?h1 (hp_size ?h1))) = Some h2"
      and st: "stashed ?h1 (last ?xs) h2" using tl(4) by blast
    note wf2 = wf_stashed [OF tl(1) st]
    have sz2: "hp_size h2 = hp_size ?h1" using st by (simp add: stashed_def)
    have i2: "unat index < unat (hp_size h2)" using False i' tl(3) sz2 by simp
    have c: "heap_buffer.carries h2 (Own (dv_heap_scratch h2)) (last ?xs)" and buf2: "heap_buffer h2"
      using st by (simp_all add: stashed_def)
    have okl: "ok (last ?xs)"
      using elems_ok [OF wf, of "unat (hp_size h) - 1"] ne by (simp add: last_conv_nth unat_gt_0 flip: length_greater_0_conv)
    have el: "heap_elem h2 (Own (dv_heap_scratch h2)) = Some (last ?xs)"
      using c by (simp add: heap_buffer.carries_def [OF buf2])
    obtain h3 w3 where r: "(if 0 < unat index \<and> lt (last ?xs) (heap_elems h2 ! parent (unat index))
          then dv_heap_sift_up X h2 index (Own (dv_heap_scratch h2)) w
          else dv_heap_sift_down X h2 index (Own (dv_heap_scratch h2)) w) = Some (h3, w3)"
      "w3 \<in> W" "sifted h2 (unat (hp_size h2)) (update_list lt (heap_elems h2) (unat index) (last ?xs)) h3"
      "w3 = foldl (notified cfg) w (update_moves lt (heap_elems h2) (unat index) (last ?xs))"
      using resift_refines [OF wf2(1) w i2 c okl] by blast
    have "dv_heap_remove_at X (Some h) index out w = Some (DV_HEAP_OK, Some h3, written (?xs ! unat index) out, w3)"
      using co h2 False last i r(1) goes_up_refines [OF wf2(1) w i2 el okl]
      by (simp add: not_le Let_def)
    then show ?thesis
      using r(2,4) wf_resifted [OF wf2(1) i2 okl r(3)] wf2(2) tl(2) False
      by (simp add: remove_list_def remove_moves_def)
  qed
qed

lemma pop_is_remove:
  assumes wf: "wf_heap h" and w: "w \<in> W" and ne: "hp_size h \<noteq> 0"
  shows "dv_heap_pop X (Some h) out w = dv_heap_remove_at X (Some h) 0 out w"
proof -
  have "hp_size h > 0" using ne by (simp add: word_gt_0)
  then show ?thesis using ne
    by (cases "heap_copy_out h 0 out") (auto simp: Let_def heap_goes_up_def not_le)
qed

lemma pop_refines:
  assumes wf: "wf_heap h" and w: "w \<in> W" and ne: "hp_size h \<noteq> 0"
    and out: "out_fits (unat (hp_elem_size h)) out"
  shows "\<exists>h' w'. dv_heap_pop X (Some h) out w =
             Some (DV_HEAP_OK, Some h', written (heap_elems h ! 0) out, w') \<and>
           w' \<in> W \<and> wf_heap h' \<and> heap_elems h' = remove_list lt (heap_elems h) 0 \<and>
           w' = foldl (notified cfg) w (remove_moves lt (heap_elems h) 0)"
  using remove_at_refines [OF wf w _ out, of 0] pop_is_remove [OF wf w ne, of out] ne
  by (simp add: word_gt_0 del: dv_heap_pop.simps dv_heap_remove_at.simps)

section \<open>Push\<close>

lemma wf_grown:
  assumes "wf_heap h" "grown h w status h' w'" shows "wf_heap h'" "hook_world cfg w w'"
proof -
  show "wf_heap h'"
    using assms same_setup_trans [OF wf_heapD(1) [OF assms(1)]] by (auto simp: grown_def wf_heap_def)
  show "hook_world cfg w w'"
    using assms(2) same_setupD(13) [OF wf_heapD(1) [OF assms(1)]] by (simp add: grown_def hook_world_def)
qed

lemma hook_world_stays: "hook_world cfg w w' \<Longrightarrow> w \<in> W \<Longrightarrow> w' \<in> W"
  using hooks_stay by (simp add: hook_world_def)

lemma append_refines:
  assumes wf: "wf_heap h" and w: "w \<in> W" and room: "hp_size h < hp_capacity h"
    and len: "unat (hp_elem_size h) \<le> length e" and x: "ok (take (unat (hp_elem_size h)) e)"
  defines "x \<equiv> take (unat (hp_elem_size h)) e"
  shows "\<exists>h' w'. dv_heap_sift_up X h (hp_size h) (Ext e) w = Some (h', w') \<and> w' \<in> W \<and>
           hp_size h' = hp_size h \<and> wf_heap (h'\<lparr>hp_size := hp_size h + 1\<rparr>) \<and>
           heap_elems (h'\<lparr>hp_size := hp_size h + 1\<rparr>) = push_list lt (heap_elems h) x \<and>
           w' = foldl (notified cfg) w (up_moves lt (heap_elems h @ [x]) (unat (hp_size h)) x)"
proof -
  let ?n = "unat (hp_size h)" and ?xs = "heap_elems h"
  have n: "unat (hp_size h + 1) = Suc ?n" by (rule unat_Suc_no_ovf [OF room])
  have cap: "Suc ?n \<le> unat (hp_capacity h)" using room by (simp add: word_less_nat_alt)
  have buf: "heap_buffer h" using cap by (intro wf_buffer [OF wf]) simp
  have c: "heap_buffer.carries h (Ext e) x" unfolding x_def by (rule carries_Ext [OF buf len])
  have xo: "ok x" using x by (simp add: x_def)
  have v: "view (Suc ?n) h = (?xs @ [x])[?n := slot_at h ?n]"
    by (simp add: heap_elems_def chunks_Suc list_update_append)
  have ob: "ok_but ?n (view (Suc ?n) h)"
    unfolding v using elems_ok [OF wf] by (auto simp: ok_but_def nth_append)
  obtain h' w' where r: "dv_heap_sift_up X h (hp_size h) (Ext e) w = Some (h', w')" "w' \<in> W"
    "sifted h (Suc ?n) (sift_up lt (view (Suc ?n) h) ?n x) h'"
    "w' = foldl (notified cfg) w (up_moves lt (view (Suc ?n) h) ?n x)"
    using sift_up_refines [OF buf wf_heapD(1) [OF wf] w cap lessI c xo ob] by blast
  have pl: "sift_up lt (view (Suc ?n) h) ?n x = push_list lt ?xs x"
    unfolding v sift_up_hole push_list_def by simp
  have "list_all ok (push_list lt ?xs x)"
    using wf_heapD(4) [OF wf] xo arg_cong [OF mset_push_list [of lt ?xs x], of set_mset]
    by (auto simp: list_all_iff)
  then show ?thesis
    using r pl wf_sifted [OF wf_heapD(1,5) [OF wf] r(3) n cap] unfolding v sift_up_hole
    by (auto simp: sifted_def)
qed

definition pushed ::
  "'w dv_heap_t \<Rightarrow> byte list \<Rightarrow> 'w \<Rightarrow> dv_heap_status_t \<Rightarrow> 'w dv_heap_t \<Rightarrow> 'w \<Rightarrow> bool"
where
  "pushed h x w status h' w' \<longleftrightarrow>
     w' \<in> W \<and> wf_heap h' \<and>
     status \<in> {DV_HEAP_OK, DV_HEAP_ERR_FULL, DV_HEAP_ERR_NOMEM, DV_HEAP_ERR_OVERFLOW} \<and>
     (status = DV_HEAP_OK \<longrightarrow> heap_elems h' = push_list lt (heap_elems h) x \<and>
        (\<exists>w1. hook_world cfg w w1 \<and>
           w' = foldl (notified cfg) w1 (up_moves lt (heap_elems h @ [x]) (unat (hp_size h)) x))) \<and>
     (status \<noteq> DV_HEAP_OK \<longrightarrow> h' = h \<and> hook_world cfg w w') \<and>
     (hp_size h < hp_capacity h \<longrightarrow> status = DV_HEAP_OK) \<and>
     (\<not> hp_growable h \<and> hp_size h = hp_capacity h \<longrightarrow> status = DV_HEAP_ERR_FULL)"

lemma push_refines:
  assumes wf: "wf_heap h" and w: "w \<in> W"
    and len: "unat (hp_elem_size h) \<le> length e" and x: "ok (take (unat (hp_elem_size h)) e)"
  shows "\<exists>status h' w'. dv_heap_push X (Some h) (Some e) w = Some (status, Some h', w') \<and>
           pushed h (take (unat (hp_elem_size h)) e) w status h' w'"
proof -
  obtain status h1 w1 where
    prep: "(if hp_size h = hp_capacity h then dv_heap_grow_for_push h w else Some (DV_HEAP_OK, h, w)) =
      Some (status, h1, w1)"
    and g: "grown h w status h1 w1" and room: "status = DV_HEAP_OK \<longrightarrow> hp_size h1 < hp_capacity h1"
    and fast: "hp_size h < hp_capacity h \<longrightarrow> status = DV_HEAP_OK"
    and full: "\<not> hp_growable h \<and> hp_size h = hp_capacity h \<longrightarrow> status = DV_HEAP_ERR_FULL"
    using heap_push_prepare [OF wf_heapD(2) [OF wf], of w] by blast
  note wf1 = wf_grown [OF wf g]
  have w1: "w1 \<in> W" by (rule hook_world_stays [OF wf1(2) w])
  have same: "hp_elem_size h1 = hp_elem_size h" "heap_elems h1 = heap_elems h" "hp_size h1 = hp_size h"
    using g same_setupD(1) by (auto simp: grown_def)
  have stat: "status \<in> {DV_HEAP_OK, DV_HEAP_ERR_FULL, DV_HEAP_ERR_NOMEM, DV_HEAP_ERR_OVERFLOW}"
    using g by (simp add: grown_def)
  show ?thesis
  proof (cases "status = DV_HEAP_OK")
    case True
    obtain h2 w2 where r: "dv_heap_sift_up X h1 (hp_size h1) (Ext e) w1 = Some (h2, w2)" "w2 \<in> W"
      "hp_size h2 = hp_size h1" "wf_heap (h2\<lparr>hp_size := hp_size h1 + 1\<rparr>)"
      "heap_elems (h2\<lparr>hp_size := hp_size h1 + 1\<rparr>) = push_list lt (heap_elems h1) (take (unat (hp_elem_size h1)) e)"
      "w2 = foldl (notified cfg) w1 (up_moves lt (heap_elems h1 @ [take (unat (hp_elem_size h1)) e])
         (unat (hp_size h1)) (take (unat (hp_elem_size h1)) e))"
      using append_refines [OF wf1(1) w1 _ _, of e] room True len x same by auto
    have "dv_heap_push X (Some h) (Some e) w = Some (DV_HEAP_OK, Some (h2\<lparr>hp_size := hp_size h1 + 1\<rparr>), w2)"
      using prep True r(1,3) by simp
    then show ?thesis using r wf1(2) same full True by (auto simp: pushed_def)
  next
    case False
    then have "dv_heap_push X (Some h) (Some e) w = Some (status, Some h, w1)"
      using prep g by (auto simp: grown_def)
    then show ?thesis using False wf w1 wf1(2) fast full stat by (auto simp: pushed_def)
  qed
qed

end

end
