(* ===== verification/Dv_Heap_Bulk.thy ===== *)
theory Dv_Heap_Bulk
  imports Dv_Heap_Ops
begin

text \<open>
  Heapify, build, the bulk operations and the validity check against the list functions, with
  their loops: each loop returns, and the suppressed and restored move hook of \<open>heapify\<close> leaves
  one report per element in index order.
\<close>

context ordered_heap
begin

section \<open>Heapify\<close>

lemma silent_moves: "foldl (notified (c\<lparr>hp_on_move := None\<rparr>)) w ms = w"
  by (induction ms arbitrary: w) (auto simp: notified_def)

lemma floyd_refines:
  assumes "heap_buffer h" "same_setup (cfg\<lparr>hp_on_move := None\<rparr>) h" "w \<in> W"
    and "list_all ok (heap_elems h)" "unat i \<le> unat (hp_size h)"
  shows "\<exists>h'. heapify_from X h i w = Some (h', w) \<and> same_setup h h' \<and> hp_size h' = hp_size h \<and>
           hp_capacity h' = hp_capacity h \<and> heap_buffer h' \<and>
           heap_elems h' = heapify_list lt (heap_elems h) (unat i)"
  using assms
proof (induction "unat i" arbitrary: i h)
  case 0
  then have "i = 0" by (simp add: unat_eq_0)
  then show ?case using 0 by (subst heapify_from.simps) auto
next
  case (Suc k)
  let ?j = "i - 1" and ?xs = "heap_elems h"
  have i: "0 < i" using Suc.hyps(2) by (simp add: word_gt_0 flip: unat_eq_0)
  have j: "unat ?j = k" using unat_pred [OF i] Suc.hyps(2) by simp
  have ks: "k < unat (hp_size h)" using Suc.prems(5) Suc.hyps(2) by simp
  have mem: "heap_mem h" by (rule heap_buffer.mem [OF Suc.prems(1)])
  have cap: "unat ?j \<le> unat (hp_capacity h)" using ks j heap_mem_facts(1) [OF mem] by simp
  obtain h1 where h1: "heap_copy h (dv_heap_scratch h) (Own (dv_heap_slot h ?j)) = Some h1"
    and st: "stashed h (slot_at h (unat ?j)) h1"
    using stash [OF Suc.prems(1) cap] by blast
  have xk: "slot_at h (unat ?j) = ?xs ! k" using ks j by (simp add: heap_elems_def)
  have f: "heap_buffer h1" "same_setup h h1" "hp_size h1 = hp_size h" "hp_capacity h1 = hp_capacity h"
    "heap_buffer.carries h1 (Own (dv_heap_scratch h1)) (?xs ! k)"
    using st xk by (simp_all add: stashed_def)
  have el: "heap_elems h1 = ?xs" by (rule stashed_elems [OF mem st])
  have okx: "ok (?xs ! k)" using okD [OF Suc.prems(4)] ks by simp
  have ob: "ok_but (unat ?j) (view (unat (hp_size h1)) h1)"
    unfolding view_elems el by (rule ok_but_list_all [OF Suc.prems(4)])
  have jlt: "unat ?j < unat (hp_size h1)" using j ks f(3) by simp
  obtain h2 where r: "dv_heap_sift_down X h1 ?j (Own (dv_heap_scratch h1)) w = Some (h2, w)"
    "sifted h1 (unat (hp_size h1)) (sift_down lt ?xs k (?xs ! k)) h2"
    using ordered_heap.sift_down_refines [OF silent f(1) same_setup_trans [OF Suc.prems(2) f(2)] Suc.prems(3)
        jlt f(5) okx ob] view_elems [of h1] el j by (auto simp: silent_moves)
  have g: "heap_buffer h2" "same_setup h h2" "hp_size h2 = hp_size h" "hp_capacity h2 = hp_capacity h"
    "heap_elems h2 = sift_down lt ?xs k (?xs ! k)"
    using r(2) f same_setup_trans [OF f(2)] by (auto simp: sifted_def heap_elems_def)
  have ok2: "list_all ok (heap_elems h2)"
    unfolding g(5) using set_sift_down [of k ?xs lt "?xs ! k"] Suc.prems(4) okx ks by (auto simp: list_all_iff)
  obtain h' where "heapify_from X h2 ?j w = Some (h', w)" "same_setup h2 h'" "hp_size h' = hp_size h2"
    "hp_capacity h' = hp_capacity h2" "heap_buffer h'"
    "heap_elems h' = heapify_list lt (heap_elems h2) k"
    using Suc.hyps(1) [OF j [symmetric] g(1) same_setup_trans [OF Suc.prems(2) g(2)] Suc.prems(3) ok2] ks g(3) j by auto
  then show ?case
    using i h1 r(1) g same_setup_trans [OF g(2)] Suc.hyps(2) [symmetric]
    by (subst heapify_from.simps) auto
qed

lemma notify_from_refines:
  assumes wf: "wf_heap h" and "unat i \<le> unat (hp_size h)"
  shows "notify_from h i w =
    Some (foldl (notified cfg) w (zip [unat i..<unat (hp_size h)] (drop (unat i) (heap_elems h))))"
  using assms(2)
proof (induction "unat (hp_size h) - unat i" arbitrary: i w)
  case 0
  then have "\<not> i < hp_size h" by (simp add: word_less_nat_alt)
  then show ?case using 0 by (subst notify_from.simps) simp
next
  case (Suc k)
  then have lt: "i < hp_size h" and ilt: "unat i < unat (hp_size h)" by (simp_all add: word_less_nat_alt)
  have i1: "unat (i + 1) = Suc (unat i)" by (rule unat_Suc_no_ovf [OF lt])
  have cap: "unat i \<le> unat (hp_capacity h)" using ilt heap_mem_facts(1) [OF wf_heapD(3) [OF wf]] by simp
  have n: "dv_heap_notify h i w = Some (notified cfg w (unat i, heap_elems h ! unat i))"
    using heap_buffer.notify_slot [OF wf_nonempty [OF wf ilt] cap, of w] ilt
      notified_setup [OF wf_heapD(1) [OF wf]] by (simp add: heap_elems_def)
  have z: "zip [unat i..<unat (hp_size h)] (drop (unat i) (heap_elems h)) =
      (unat i, heap_elems h ! unat i) # zip [Suc (unat i)..<unat (hp_size h)] (drop (Suc (unat i)) (heap_elems h))"
    using ilt by (simp add: upt_conv_Cons Cons_nth_drop_Suc [symmetric])
  have "notify_from h (i + 1) (notified cfg w (unat i, heap_elems h ! unat i)) =
      Some (foldl (notified cfg) (notified cfg w (unat i, heap_elems h ! unat i))
        (zip [Suc (unat i)..<unat (hp_size h)] (drop (Suc (unat i)) (heap_elems h))))"
    using Suc.hyps(1) [of "i + 1"] Suc.hyps(2) ilt i1 by simp
  then show ?case using lt n unfolding z by (subst notify_from.simps) simp
qed

lemma notify_all_refines:
  assumes wf: "wf_heap h" and w: "w \<in> W"
  shows "\<exists>w'. dv_heap_notify_all h w = Some w' \<and> w' \<in> W \<and>
    w' = foldl (notified cfg) w (zip [0..<unat (hp_size h)] (heap_elems h))"
proof -
  let ?ms = "zip [0..<unat (hp_size h)] (heap_elems h)"
  have keeps: "foldl (notified cfg) w ms \<in> W" if "\<forall>(i, e) \<in> set ms. ok e" for ms
    using that w by (induction ms arbitrary: w) (auto intro: notified_keeps)
  have "ok e" if "e \<in> set (heap_elems h)" for e
    using wf_heapD(4) [OF wf] that by (simp add: list_all_iff)
  then have "foldl (notified cfg) w ?ms \<in> W" by (intro keeps) (auto dest: set_zip_rightD)
  moreover have "dv_heap_notify_all h w = Some (foldl (notified cfg) w ?ms)"
  proof (cases "hp_on_move h")
    case None
    then have "hp_on_move cfg = None" using same_setupD(8) [OF wf_heapD(1) [OF wf]] by simp
    then have "foldl (notified cfg) w ms = w" for ms
      by (induction ms arbitrary: w) (auto simp: notified_def)
    then show ?thesis using None by (simp add: dv_heap_notify_all_def)
  next
    case (Some mv)
    then show ?thesis using notify_from_refines [OF wf, of 0 w] by (simp add: dv_heap_notify_all_def)
  qed
  ultimately show ?thesis by blast
qed

definition heapified :: "'w dv_heap_t \<Rightarrow> 'w \<Rightarrow> 'w dv_heap_t \<Rightarrow> 'w \<Rightarrow> bool" where
  "heapified h w h' w' \<longleftrightarrow>
     w' \<in> W \<and> wf_heap h' \<and> hp_size h' = hp_size h \<and> hp_capacity h' = hp_capacity h \<and>
     heap_elems h' = heapify_list lt (heap_elems h) (unat (hp_size h) div 2) \<and>
     w' = foldl (notified cfg) w (zip [0..<unat (hp_size h)] (heap_elems h'))"

lemma wf_loud:
  assumes h: "wf_heap h" and h2: "same_setup (h\<lparr>hp_on_move := None\<rparr>) h2" "heap_mem h2"
    "hp_capacity h2 = hp_capacity h" and ok: "list_all ok (heap_elems h2)"
  shows "wf_heap (h2\<lparr>hp_on_move := hp_on_move h\<rparr>)"
    "heap_elems (h2\<lparr>hp_on_move := hp_on_move h\<rparr>) = heap_elems h2"
proof -
  let ?h = "h2\<lparr>hp_on_move := hp_on_move h\<rparr>"
  show el: "heap_elems ?h = heap_elems h2" by (simp add: heap_elems_def heap_data_def)
  have s: "same_setup h ?h"
    using h2(1) unfolding same_setup_def by (cases h; cases h2) simp
  have "heap_mem ?h" using h2(2) by (simp add: heap_mem_def heap_data_def)
  then show "wf_heap ?h"
    using same_setup_trans [OF wf_heapD(1) [OF h] s] heap_policy_setup [OF s] h2(3) wf_heapD(5) [OF h] ok el
    by (simp add: wf_heap_def heap_inv_def)
qed

lemma heapify_refines:
  assumes wf: "wf_heap h" and w: "w \<in> W"
  shows "\<exists>h' w'. dv_heap_heapify X (Some h) w = Some (DV_HEAP_OK, Some h', w') \<and> heapified h w h' w'"
proof (cases "hp_size h > 1")
  case True
  let ?h = "h\<lparr>hp_on_move := None\<rparr>"
  have big: "1 < unat (hp_size h)" using True by (simp add: word_less_nat_alt)
  have half: "unat (hp_size h div 2) = unat (hp_size h) div 2" by (simp add: unat_div)
  have buf: "heap_buffer ?h"
    using wf_nonempty [OF wf, of 0] big
    by (simp add: heap_buffer_def heap_mem_def heap_data_def)
  have s: "same_setup (cfg\<lparr>hp_on_move := None\<rparr>) ?h"
    using wf_heapD(1) [OF wf] unfolding same_setup_def by (cases cfg; cases h) simp
  have el: "heap_elems ?h = heap_elems h" by (simp add: heap_elems_def heap_data_def)
  have le: "unat (hp_size h div 2) \<le> unat (hp_size ?h)" by (simp add: half)
  obtain h2 where r: "heapify_from X ?h (hp_size h div 2) w = Some (h2, w)" "same_setup ?h h2"
    "hp_size h2 = hp_size h" "hp_capacity h2 = hp_capacity h" "heap_buffer h2"
    "heap_elems h2 = heapify_list lt (heap_elems h) (unat (hp_size h) div 2)"
    using floyd_refines [OF buf s w _ le] wf_heapD(4) [OF wf] half unfolding el by auto
  have "set (heap_elems h2) = set (heap_elems h)"
    unfolding r(6) by (rule mset_eq_setD [OF mset_heapify_list]) simp
  then have ok2: "list_all ok (heap_elems h2)" using wf_heapD(4) [OF wf] by (simp add: list_all_iff)
  note l = wf_loud [OF wf r(2) heap_buffer.mem [OF r(5)] r(4) ok2]
  obtain w' where "dv_heap_notify_all (h2\<lparr>hp_on_move := hp_on_move h\<rparr>) w = Some w'" "w' \<in> W"
    "w' = foldl (notified cfg) w (zip [0..<unat (hp_size h)] (heap_elems h2))"
    using notify_all_refines [OF l(1) w] l(2) r(3) by auto
  then show ?thesis using True r l by (auto simp: heapified_def)
next
  case False
  then have "unat (hp_size h) div 2 = 0" by (simp add: word_less_nat_alt)
  then show ?thesis using False notify_all_refines [OF wf w] wf by (auto simp: heapified_def)
qed

section \<open>Validity\<close>

lemma valid_from_refines:
  assumes wf: "wf_heap h" and w: "w \<in> W" and "0 < i"
  shows "valid_from X h i w =
    Some (\<forall>j < unat (hp_size h). unat i \<le> j \<longrightarrow> \<not> lt (heap_elems h ! j) (heap_elems h ! parent j))"
  using assms(3)
proof (induction "unat (hp_size h) - unat i" arbitrary: i)
  case 0
  then have "\<not> i < hp_size h" by (simp add: word_less_nat_alt)
  then show ?case using 0 by (subst valid_from.simps) auto
next
  case (Suc k)
  then have lt: "i < hp_size h" and ilt: "unat i < unat (hp_size h)" by (simp_all add: word_less_nat_alt)
  have i1: "unat (i + 1) = Suc (unat i)" by (rule unat_Suc_no_ovf [OF lt])
  have cap: "unat i \<le> unat (hp_capacity h)" using ilt heap_mem_facts(1) [OF wf_heapD(3) [OF wf]] by simp
  have e: "heap_elem h (Own (dv_heap_slot h i)) = Some (heap_elems h ! unat i)"
    using heap_buffer.elem_slot [OF wf_nonempty [OF wf ilt] cap] ilt by (simp add: heap_elems_def)
  have b: "dv_heap_before X h (Own (dv_heap_slot h i)) (Own (dv_heap_slot h ((i - 1) div 2))) w =
      Some (lt (heap_elems h ! unat i) (heap_elems h ! parent (unat i)))"
    using goes_up_refines [OF wf w ilt e elems_ok [OF wf ilt]] Suc.prems
    by (simp add: heap_goes_up_def word_less_nat_alt)
  have IH: "valid_from X h (i + 1) w =
      Some (\<forall>j < unat (hp_size h). Suc (unat i) \<le> j \<longrightarrow> \<not> lt (heap_elems h ! j) (heap_elems h ! parent j))"
    using Suc.hyps(1) [of "i + 1"] Suc.hyps(2) i1 by (simp add: word_less_nat_alt)
  have "(\<forall>j < unat (hp_size h). unat i \<le> j \<longrightarrow> \<not> lt (heap_elems h ! j) (heap_elems h ! parent j)) =
      (\<not> lt (heap_elems h ! unat i) (heap_elems h ! parent (unat i)) \<and>
       (\<forall>j < unat (hp_size h). Suc (unat i) \<le> j \<longrightarrow> \<not> lt (heap_elems h ! j) (heap_elems h ! parent j)))"
    using ilt by (metis Suc_leD Suc_leI le_neq_implies_less order_refl)
  then show ?case using lt b IH by (subst valid_from.simps) auto
qed

lemma is_valid_refines:
  assumes wf: "wf_heap h" and w: "w \<in> W"
  shows "dv_heap_is_valid X (Some h) w = Some (heap_ordered lt (heap_elems h))"
proof -
  have "hp_size h \<le> hp_capacity h" "0 < hp_size h \<longrightarrow> hp_buffer h \<noteq> None"
    using wf_heapD(3) [OF wf] by (auto simp: heap_mem_def word_gt_0)
  then show ?thesis
    using valid_from_refines [OF wf w, of 1] by (auto simp: heap_ordered_def Suc_le_eq)
qed

section \<open>Build\<close>

definition built ::
  "'w dv_heap_t \<Rightarrow> byte list list \<Rightarrow> 'w \<Rightarrow> dv_heap_status_t \<Rightarrow> 'w dv_heap_t \<Rightarrow> 'w \<Rightarrow> bool"
where
  "built h xs w status h' w' \<longleftrightarrow> w' \<in> W \<and> wf_heap h' \<and>
     status \<in> {DV_HEAP_OK, DV_HEAP_ERR_FULL, DV_HEAP_ERR_NOMEM, DV_HEAP_ERR_OVERFLOW} \<and>
     (status = DV_HEAP_OK \<longrightarrow> heap_elems h' = heapify_list lt xs (length xs div 2) \<and>
        (\<exists>w1. hook_world cfg w w1 \<and>
           w' = foldl (notified cfg) w1 (zip [0..<length xs] (heap_elems h')))) \<and>
     (status \<noteq> DV_HEAP_OK \<longrightarrow> h' = h \<and> hook_world cfg w w')"

lemma build_refines:
  assumes wf: "wf_heap h" and w: "w \<in> W" and len: "unat cnt * unat (hp_elem_size h) \<le> length es"
    and ok: "list_all ok (chunks (unat (hp_elem_size h)) es (unat cnt))"
  shows "\<exists>status h' w'. dv_heap_build X (Some h) (Some es) cnt w = Some (status, Some h', w') \<and>
           built h (chunks (unat (hp_elem_size h)) es (unat cnt)) w status h' w'"
proof (cases "cnt = 0")
  case True
  then show ?thesis using lower_wf [OF wf, of 0] w by (auto simp: built_def intro!: exI [of _ w])
next
  case False
  let ?xs = "chunks (unat (hp_elem_size h)) es (unat cnt)"
  obtain status h1 w1 where res: "(if cnt > hp_capacity h then dv_heap_reserve (Some h) cnt w
      else Some (DV_HEAP_OK, Some h, w)) = Some (status, Some h1, w1)"
    and g: "grown h w status h1 w1" and room: "status = DV_HEAP_OK \<longrightarrow> cnt \<le> hp_capacity h1"
  proof (cases "cnt > hp_capacity h")
    case True
    obtain status h1 w1 where r: "dv_heap_reserve (Some h) cnt w = Some (status, Some h1, w1)"
      "grown h w status h1 w1" "status = DV_HEAP_OK \<longrightarrow> hp_capacity h1 = max (hp_capacity h) cnt"
      using dv_heap_reserve_spec [OF wf_heapD(2) [OF wf], of cnt w] by blast
    show thesis by (rule that [of status h1 w1]) (use True r in \<open>simp_all del: dv_heap_reserve.simps\<close>)
  next
    case False
    then show thesis using that [of DV_HEAP_OK h w] grown_refl [OF wf_heapD(2) [OF wf]] by simp
  qed
  note wf1 = wf_grown [OF wf g]
  have w1: "w1 \<in> W" by (rule hook_world_stays [OF wf1(2) w])
  have stat: "status \<in> {DV_HEAP_OK, DV_HEAP_ERR_FULL, DV_HEAP_ERR_NOMEM, DV_HEAP_ERR_OVERFLOW}"
    using g by (simp add: grown_def)
  show ?thesis
  proof (cases "status = DV_HEAP_OK")
    case ok_status: True
    have es: "hp_elem_size h1 = hp_elem_size h" using g same_setupD(1) by (auto simp: grown_def)
    have cap: "unat cnt \<le> unat (hp_capacity h1)" using room ok_status by (simp add: word_le_nat_alt)
    have bytes: "unat (cnt * hp_elem_size h1) = unat cnt * unat (hp_elem_size h)"
      using heap_slot_unat [OF wf_heapD(3) [OF wf1(1)] cap] es by simp
    let ?bs = "take (unat cnt * unat (hp_elem_size h)) es"
    obtain h2 where h2: "heap_store h1 (dv_heap_slot h1 0) ?bs = Some h2"
      "same_setup h1 (h2\<lparr>hp_size := cnt\<rparr>)" "heap_inv (h2\<lparr>hp_size := cnt\<rparr>)"
      "heap_elems (h2\<lparr>hp_size := cnt\<rparr>) = chunks (unat (hp_elem_size h)) ?bs (unat cnt)"
      using heap_store_run [OF wf_heapD(2) [OF wf1(1)] _ False, of 0 ?bs] cap len es by auto
    have el: "heap_elems (h2\<lparr>hp_size := cnt\<rparr>) = ?xs"
      unfolding h2(4) by (rule chunks_cong_take) simp
    have wf2: "wf_heap (h2\<lparr>hp_size := cnt\<rparr>)"
      using h2(2,3) el ok same_setup_trans [OF wf_heapD(1) [OF wf1(1)]] by (simp add: wf_heap_def)
    obtain h3 w3 where h3: "dv_heap_heapify X (Some (h2\<lparr>hp_size := cnt\<rparr>)) w1 = Some (DV_HEAP_OK, Some h3, w3)"
      "heapified (h2\<lparr>hp_size := cnt\<rparr>) w1 h3 w3"
      using heapify_refines [OF wf2 w1] by blast
    have slot0: "dv_heap_slot h1 0 = 0" by (simp add: dv_heap_slot_def)
    have "dv_heap_build X (Some h) (Some es) cnt w = Some (DV_HEAP_OK, Some h3, w3)"
      using False res ok_status h2(1) h3(1) bytes len slot0
      by (simp add: mem_read_def del: dv_heap_heapify.simps dv_heap_reserve.simps)
    then show ?thesis
      using h3(2) el wf1(2) by (auto simp: built_def heapified_def simp del: dv_heap_build.simps)
  next
    case False
    then have "dv_heap_build X (Some h) (Some es) cnt w = Some (status, Some h, w1)"
      using res g \<open>cnt \<noteq> 0\<close> by (auto simp: grown_def simp del: dv_heap_reserve.simps)
    then show ?thesis using False wf w1 stat wf1(2) by (auto simp: built_def simp del: dv_heap_build.simps)
  qed
qed

section \<open>Bulk push\<close>

lemma sift_up_run_refines:
  assumes "wf_heap h" "w \<in> W" "unat old + unat n \<le> unat (hp_size h)" "unat i \<le> unat n"
  shows "\<exists>h' w'. sift_up_run X h old n i w = Some (h', w') \<and> w' \<in> W \<and> wf_heap h' \<and>
           hp_size h' = hp_size h \<and> hp_capacity h' = hp_capacity h \<and>
           heap_elems h' = up_run lt (heap_elems h) (unat old + unat i) (unat n - unat i) \<and>
           w' = foldl (notified cfg) w (up_run_moves lt (heap_elems h) (unat old + unat i) (unat n - unat i))"
  using assms
proof (induction "unat n - unat i" arbitrary: i h w)
  case 0
  then have "\<not> i < n" by (simp add: word_less_nat_alt)
  then show ?case using 0 by (subst sift_up_run.simps) auto
next
  case (Suc k)
  then have lt: "i < n" and ilt: "unat i < unat n" by (simp_all add: word_less_nat_alt)
  let ?j = "old + i" and ?xs = "heap_elems h"
  have i1: "unat (i + 1) = Suc (unat i)" by (rule unat_Suc_no_ovf [OF lt])
  have j: "unat ?j = unat old + unat i"
    using Suc.prems(3) ilt unat_lt_64 [of "hp_size h"] by (intro unat_add_no_ovf) simp
  have js: "unat ?j < unat (hp_size h)" using j ilt Suc.prems(3) by simp
  have buf: "heap_buffer h" by (rule wf_nonempty [OF Suc.prems(1) js])
  have szc: "unat (hp_size h) \<le> unat (hp_capacity h)" by (rule heap_mem_facts(1) [OF wf_heapD(3) [OF Suc.prems(1)]])
  have jc: "unat ?j \<le> unat (hp_capacity h)" using js szc by simp
  obtain h1 where h1: "heap_copy h (dv_heap_scratch h) (Own (dv_heap_slot h ?j)) = Some h1"
    and st: "stashed h (slot_at h (unat ?j)) h1" using stash [OF buf jc] by blast
  have xj: "slot_at h (unat ?j) = ?xs ! unat ?j" using js by (simp add: heap_elems_def)
  note wf1 = wf_stashed [OF Suc.prems(1) st]
  have f: "heap_buffer h1" "hp_size h1 = hp_size h" "hp_capacity h1 = hp_capacity h"
    "heap_buffer.carries h1 (Own (dv_heap_scratch h1)) (?xs ! unat ?j)"
    using st xj by (simp_all add: stashed_def)
  have okx: "ok (?xs ! unat ?j)" by (rule elems_ok [OF Suc.prems(1) js])
  have ob: "ok_but (unat ?j) (view (unat (hp_size h1)) h1)"
    unfolding view_elems by (rule ok_but_list_all [OF wf_heapD(4) [OF wf1(1)]])
  have szc1: "unat (hp_size h1) \<le> unat (hp_capacity h1)" using szc f by simp
  have js1: "unat ?j < unat (hp_size h1)" using js f by simp
  obtain h2 w2 where r: "dv_heap_sift_up X h1 ?j (Own (dv_heap_scratch h1)) w = Some (h2, w2)" "w2 \<in> W"
    "sifted h1 (unat (hp_size h1)) (sift_up lt ?xs (unat ?j) (?xs ! unat ?j)) h2"
    "w2 = foldl (notified cfg) w (up_moves lt ?xs (unat ?j) (?xs ! unat ?j))"
    using sift_up_refines [OF f(1) wf_heapD(1) [OF wf1(1)] Suc.prems(2) szc1 js1 f(4) okx ob]
    unfolding view_elems wf1(2) by blast
  have ok2: "list_all ok (sift_up lt ?xs (unat ?j) (?xs ! unat ?j))"
    using set_sift_up [of "unat ?j" ?xs lt "?xs ! unat ?j"] wf_heapD(4) [OF Suc.prems(1)] okx js
    by (auto simp: list_all_iff)
  note wf2 = wf_sifted_same [OF wf1(1) r(3) ok2]
  have sz2: "hp_size h2 = hp_size h" "hp_capacity h2 = hp_capacity h" using r(3) f by (simp_all add: sifted_def)
  have d: "unat n - unat i = Suc (unat n - unat (i + 1))" using ilt i1 by simp
  have kk: "k = unat n - unat (i + 1)" and ile: "unat (i + 1) \<le> unat n" using Suc.hyps(2) i1 ilt by simp_all
  have le2: "unat old + unat n \<le> unat (hp_size h2)" using Suc.prems(3) sz2(1) by simp
  obtain h' w' where h': "sift_up_run X h2 old n (i + 1) w2 = Some (h', w')" "w' \<in> W" "wf_heap h'"
    "hp_size h' = hp_size h2" "hp_capacity h' = hp_capacity h2"
    "heap_elems h' = up_run lt (heap_elems h2) (unat old + unat (i + 1)) (unat n - unat (i + 1))"
    "w' = foldl (notified cfg) w2 (up_run_moves lt (heap_elems h2) (unat old + unat (i + 1)) (unat n - unat (i + 1)))"
    using Suc.hyps(1) [OF kk wf2(1) r(2) le2 ile] by blast
  have "sift_up_run X h old n i w = Some (h', w')"
    using lt h1 r(1) h'(1) by (subst sift_up_run.simps) simp
  then show ?case using h' sz2 wf2(2) r(4) i1 j unfolding d by auto
qed

definition bulk_pushed :: "'w dv_heap_t \<Rightarrow> byte list list \<Rightarrow> 'w \<Rightarrow> size_t \<Rightarrow> 'w dv_heap_t \<Rightarrow> 'w \<Rightarrow> bool" where
  "bulk_pushed h cs w n h' w' \<longleftrightarrow>
     (let xs = heap_elems h; ys = xs @ take (unat n) cs in
      w' \<in> W \<and> wf_heap h' \<and> unat n \<le> length cs \<and>
      heap_elems h' = (if unat n \<ge> length xs then heapify_list lt ys (length ys div 2)
                       else up_run lt ys (length xs) (unat n)) \<and>
      (unat n < length cs \<longrightarrow> hp_size h' = hp_capacity h') \<and>
      (\<exists>w1. hook_world cfg w w1 \<and>
         w' = foldl (notified cfg) w1
           (if n = 0 then [] else if unat n \<ge> length xs then zip [0..<length ys] (heap_elems h')
            else up_run_moves lt ys (length xs) (unat n))))"

lemma bulk_restore:
  assumes wf: "wf_heap h" and w: "w \<in> W" and el: "heap_elems h = ys"
    and sz: "unat (hp_size h) = unat old + unat n"
  shows "\<exists>h' w'. (if n \<ge> old
          then do { (_, p, w') \<leftarrow> dv_heap_heapify X (Some h) w; Some (n, p, w') }
          else do { (h', w') \<leftarrow> sift_up_run X h old n 0 w; Some (n, Some h', w') }) = Some (n, Some h', w') \<and>
      w' \<in> W \<and> wf_heap h' \<and> hp_size h' = hp_size h \<and> hp_capacity h' = hp_capacity h \<and>
      heap_elems h' = (if unat n \<ge> unat old then heapify_list lt ys (length ys div 2)
         else up_run lt ys (unat old) (unat n)) \<and>
      w' = foldl (notified cfg) w (if unat n \<ge> unat old then zip [0..<length ys] (heap_elems h')
         else up_run_moves lt ys (unat old) (unat n))"
proof (cases "n \<ge> old")
  case True
  then have c: "unat n \<ge> unat old" by (simp add: word_le_nat_alt)
  obtain h' w' where "dv_heap_heapify X (Some h) w = Some (DV_HEAP_OK, Some h', w')" "heapified h w h' w'"
    using heapify_refines [OF wf w] by blast
  then show ?thesis using True c el by (auto simp: heapified_def simp del: dv_heap_heapify.simps)
next
  case False
  then have c: "\<not> unat n \<ge> unat old" by (simp add: word_le_nat_alt)
  then show ?thesis using False sift_up_run_refines [OF wf w, of old n 0] sz el by auto
qed

lemma push_bulk_refines:
  assumes wf: "wf_heap h" and w: "w \<in> W" and len: "unat cnt * unat (hp_elem_size h) \<le> length es"
    and ok: "list_all ok (chunks (unat (hp_elem_size h)) es (unat cnt))"
  shows "\<exists>n h' w'. dv_heap_push_bulk X (Some h) (Some es) cnt w = Some (n, Some h', w') \<and>
           bulk_pushed h (chunks (unat (hp_elem_size h)) es (unat cnt)) w n h' w' \<and>
           (cnt \<le> hp_capacity h - hp_size h \<longrightarrow> n = cnt)"
proof (cases "cnt = 0")
  case True
  then show ?thesis using wf w by (auto simp: bulk_pushed_def Let_def intro!: exI [of _ w])
next
  case False
  let ?cs = "chunks (unat (hp_elem_size h)) es (unat cnt)"
  obtain h1 w1 where grow: "(if hp_capacity h - hp_size h < cnt \<and> hp_growable h \<and> cnt \<le> SIZE_MAX - hp_size h
      then dv_heap_grow_for_bulk h (hp_size h + cnt) w else Some (h, w)) = Some (h1, w1)"
    and g: "grown h w DV_HEAP_OK h1 w1" and stay: "cnt \<le> hp_capacity h - hp_size h \<longrightarrow> h1 = h \<and> w1 = w"
    using heap_bulk_prepare [OF wf_heapD(2) [OF wf]] by blast
  note wf1 = wf_grown [OF wf g]
  have w1: "w1 \<in> W" by (rule hook_world_stays [OF wf1(2) w])
  have same: "hp_elem_size h1 = hp_elem_size h" "heap_elems h1 = heap_elems h" "hp_size h1 = hp_size h"
    using g same_setupD(1) by (auto simp: grown_def)
  let ?room = "hp_capacity h1 - hp_size h1"
  define n where "n = (if cnt < ?room then cnt else ?room)"
  have "hp_size h1 \<le> hp_capacity h1" using wf_heapD(3) [OF wf1(1)] by (simp add: heap_mem_def)
  then have room: "unat ?room = unat (hp_capacity h1) - unat (hp_size h1)" by (rule unat_sub)
  have n_le: "unat n \<le> unat cnt" "unat n \<le> unat ?room" by (auto simp: n_def word_less_nat_alt)
  have n_all: "cnt \<le> hp_capacity h - hp_size h \<longrightarrow> n = cnt" using stay by (auto simp: n_def not_less)
  show ?thesis
  proof (cases "n = 0")
    case True
    then have full: "hp_size h1 = hp_capacity h1" using False by (auto simp: n_def split: if_splits)
    have "dv_heap_push_bulk X (Some h) (Some es) cnt w = Some (0, Some h1, w1)"
      using False grow True unfolding n_def by (simp add: Let_def)
    then show ?thesis using wf1 w1 same full True n_all
      by (auto simp: bulk_pushed_def Let_def simp del: dv_heap_push_bulk.simps intro!: exI [of _ w1])
  next
    case n0: False
    let ?bs = "take (unat n * unat (hp_elem_size h)) es" and ?ys = "heap_elems h @ take (unat n) ?cs"
    have sum: "unat (hp_size h1) + unat n \<le> unat (hp_capacity h1)"
      using n_le(2) room heap_mem_facts(1) [OF wf_heapD(3) [OF wf1(1)]] by linarith
    have fits: "unat n * unat (hp_elem_size h) \<le> length es"
      using len mult_le_mono1 [OF n_le(1), of "unat (hp_elem_size h)"] by linarith
    have "unat n \<le> unat (hp_capacity h1)" using sum by linarith
    then have bytes: "unat (n * hp_elem_size h1) = unat n * unat (hp_elem_size h)"
      using heap_slot_unat [OF wf_heapD(3) [OF wf1(1)]] same by simp
    have bl: "length ?bs = unat n * unat (hp_elem_size h1)" using fits same by simp
    obtain h2 where h2: "heap_store h1 (dv_heap_slot h1 (hp_size h1)) ?bs = Some h2"
      "same_setup h1 (h2\<lparr>hp_size := hp_size h1 + n\<rparr>)" "hp_capacity h2 = hp_capacity h1"
      "heap_inv (h2\<lparr>hp_size := hp_size h1 + n\<rparr>)"
      "heap_elems (h2\<lparr>hp_size := hp_size h1 + n\<rparr>) = view (unat (hp_size h1)) h1 @ chunks (unat (hp_elem_size h1)) ?bs (unat n)"
      using heap_store_run [OF wf_heapD(2) [OF wf1(1)] sum n0 bl] by blast
    let ?h3 = "h2\<lparr>hp_size := hp_size h1 + n\<rparr>"
    have "chunks (unat (hp_elem_size h)) ?bs (unat n) = take (unat n) ?cs"
      unfolding take_chunks [OF n_le(1)] by (rule chunks_cong_take) simp
    then have el: "heap_elems ?h3 = ?ys" using h2(5) same view_elems [of h1] by simp
    have sz: "unat (hp_size ?h3) = unat (hp_size h) + unat n"
      using length_heap_elems [of ?h3] n_le(1) unfolding el by simp
    have "list_all ok ?ys" using wf_heapD(4) [OF wf] ok by (auto simp: list_all_iff dest: in_set_takeD)
    then have wf3: "wf_heap ?h3"
      using h2(2,4) el same_setup_trans [OF wf_heapD(1) [OF wf1(1)]] by (simp add: wf_heap_def)
    have full: "hp_size h1 + n = hp_capacity h1" if "unat n < unat cnt"
      using that by (auto simp: n_def split: if_splits)
    have n_cmp: "(n \<ge> hp_size h1) = (unat n \<ge> unat (hp_size h))" using same by (simp add: word_le_nat_alt)
    obtain h4 w4 where r: "(if n \<ge> hp_size h1
          then do { (_, p, w4) \<leftarrow> dv_heap_heapify X (Some ?h3) w1; Some (n, p, w4) }
          else do { (h4, w4) \<leftarrow> sift_up_run X ?h3 (hp_size h1) n 0 w1; Some (n, Some h4, w4) }) =
        Some (n, Some h4, w4)"
      "w4 \<in> W" "wf_heap h4" "hp_size h4 = hp_size ?h3" "hp_capacity h4 = hp_capacity ?h3"
      "heap_elems h4 = (if unat n \<ge> unat (hp_size h1) then heapify_list lt ?ys (length ?ys div 2)
         else up_run lt ?ys (unat (hp_size h1)) (unat n))"
      "w4 = foldl (notified cfg) w1 (if unat n \<ge> unat (hp_size h1) then zip [0..<length ?ys] (heap_elems h4)
         else up_run_moves lt ?ys (unat (hp_size h1)) (unat n))"
      using bulk_restore [OF wf3 w1 el, of "hp_size h1" n] sz same(3) by metis
    have "dv_heap_push_bulk X (Some h) (Some es) cnt w = Some (n, Some h4, w4)"
      using False grow n0 h2(1) r(1) fits bytes unfolding n_def by (simp add: Let_def mem_read_def)
    then show ?thesis
      using r(2-7) n_le(1) full n_all wf1(2) n0 same(3) h2(3)
      by (auto simp: bulk_pushed_def Let_def simp del: dv_heap_push_bulk.simps intro!: exI [of _ w1])
  qed
qed

section \<open>Bulk pop\<close>

definition popped_into :: "nat \<Rightarrow> nat \<Rightarrow> byte list list \<Rightarrow> byte list option \<Rightarrow> byte list option \<Rightarrow> bool" where
  "popped_into es i xs dst dst' \<longleftrightarrow> (case dst of
     None \<Rightarrow> dst' = None
   | Some d \<Rightarrow> \<exists>d'. dst' = Some d' \<and> length d' = length d \<and> take (i * es) d' = take (i * es) d \<and>
       (\<forall>j < length xs. chunk es d' (i + j) = xs ! j))"

lemma popped_into_step:
  assumes fit: "out_fits (n * es) dst" and i: "i < n" and x: "length x = es"
    and rest: "popped_into es (Suc i) xs (map_option (\<lambda>d. put_slot es d i x) dst) dst'"
  shows "popped_into es i (x # xs) dst dst'"
proof (cases dst)
  case None
  then show ?thesis using rest by (simp add: popped_into_def)
next
  case (Some d)
  have "n * es \<le> length d" using fit Some by (simp add: out_fits_def)
  then have slot: "i * es + es \<le> length d" using slot_fits [OF i] by blast
  obtain d' where d': "dst' = Some d'" "length d' = length (put_slot es d i x)"
    "take (Suc i * es) d' = take (Suc i * es) (put_slot es d i x)"
    "\<forall>j < length xs. chunk es d' (Suc i + j) = xs ! j"
    using rest Some by (auto simp: popped_into_def)
  have len: "length d' = length d" using d'(2) length_put_slot [OF x slot] by simp
  have "take (i * es) (take (Suc i * es) d') = take (i * es) (take (Suc i * es) (put_slot es d i x))"
    using d'(3) by simp
  then have "take (i * es) d' = take (i * es) (put_slot es d i x)" by (simp add: min_def)
  moreover have "take (i * es) (put_slot es d i x) = take (i * es) d"
    using slot by (simp add: put_slot_def)
  moreover have "chunk es d' i = x"
  proof -
    have "chunk es d' i = chunk es (take (Suc i * es) d') i" by (rule chunk_take [symmetric]) simp
    also have "\<dots> = chunk es (put_slot es d i x) i" unfolding d'(3) by (rule chunk_take) simp
    finally show ?thesis using chunk_put_same [OF x slot] by simp
  qed
  ultimately show ?thesis
    using Some d' len by (auto simp: popped_into_def nth_Cons split: nat.split)
qed

lemma pop_run_refines:
  assumes "wf_heap h" "w \<in> W" "unat i \<le> unat n" "unat n - unat i \<le> unat (hp_size h)"
    and "out_fits (unat n * unat (hp_elem_size h)) dst" "unat n * unat (hp_elem_size h) < 2 ^ 64"
  shows "\<exists>h' dst' w'. pop_run X h n i dst w = Some (h', dst', w') \<and> w' \<in> W \<and> wf_heap h' \<and>
           heap_elems h' = snd (pop_list lt (heap_elems h) (unat n - unat i)) \<and>
           popped_into (unat (hp_elem_size h)) (unat i) (fst (pop_list lt (heap_elems h) (unat n - unat i))) dst dst'"
  using assms
proof (induction "unat n - unat i" arbitrary: i h w dst)
  case 0
  then have "\<not> i < n" by (simp add: word_less_nat_alt)
  then show ?case using 0 by (subst pop_run.simps) (auto simp: popped_into_def split: option.split)
next
  case (Suc k)
  let ?es = "unat (hp_elem_size h)" and ?xs = "heap_elems h"
  have lt: "i < n" and ilt: "unat i < unat n" using Suc.hyps(2) by (simp_all add: word_less_nat_alt)
  have i1: "unat (i + 1) = Suc (unat i)" by (rule unat_Suc_no_ovf [OF lt])
  have "unat i * ?es \<le> unat n * ?es" using ilt by (intro mult_le_mono1) simp
  then have off: "unat (i * hp_elem_size h) = unat i * ?es"
    using Suc.prems(6) by (intro unat_mult_no_ovf) linarith
  have ne: "hp_size h \<noteq> 0" using Suc.prems(4) ilt by auto
  have pos: "0 < unat (hp_size h)" using ne by (simp add: unat_gt_0)
  have x: "length (?xs ! 0) = ?es" by (rule length_heap_elem [OF wf_heapD(3) [OF Suc.prems(1)] pos])
  let ?out = "map_option (drop (unat i * ?es)) dst"
  have fits: "unat i * ?es + ?es \<le> length d" if "dst = Some d" for d
    using slot_fits [OF ilt] Suc.prems(5) that by (auto simp: out_fits_def)
  have of: "out_fits ?es ?out"
    using fits by (force simp: out_fits_def)
  obtain h1 w1 where r: "dv_heap_pop X (Some h) ?out w = Some (DV_HEAP_OK, Some h1, written (?xs ! 0) ?out, w1)"
    "w1 \<in> W" "wf_heap h1" "heap_elems h1 = remove_list lt ?xs 0"
    using pop_refines [OF Suc.prems(1,2) ne of] by blast
  let ?dst = "map_option (\<lambda>d. put_slot ?es d (unat i) (?xs ! 0)) dst"
  have next_dst: "(case (dst, written (?xs ! 0) ?out) of
      (Some d, Some d') \<Rightarrow> Some (take (unat i * ?es) d @ d') | _ \<Rightarrow> None) = ?dst"
    using x by (auto simp: written_def put_slot_def add.commute split: option.split)
  have es1: "hp_elem_size h1 = hp_elem_size h"
    using same_setupD(1) [OF wf_heapD(1)] r(3) Suc.prems(1) by metis
  have sz1: "unat (hp_size h1) = unat (hp_size h) - 1"
    using length_heap_elems [of h1] unfolding r(4) by simp
  have kk: "k = unat n - unat (i + 1)" and ile: "unat (i + 1) \<le> unat n"
    and le1: "unat n - unat (i + 1) \<le> unat (hp_size h1)"
    using Suc.hyps(2) Suc.prems(4) i1 ilt sz1 by simp_all
  have fit1: "out_fits (unat n * unat (hp_elem_size h1)) ?dst"
    using Suc.prems(5) fits length_put_slot [OF x] by (force simp: out_fits_def es1)
  have ov1: "unat n * unat (hp_elem_size h1) < 2 ^ 64" using Suc.prems(6) es1 by simp
  obtain h' dst' w' where h': "pop_run X h1 n (i + 1) ?dst w1 = Some (h', dst', w')" "w' \<in> W" "wf_heap h'"
    "heap_elems h' = snd (pop_list lt (heap_elems h1) (unat n - unat (i + 1)))"
    "popped_into ?es (Suc (unat i)) (fst (pop_list lt (heap_elems h1) (unat n - unat (i + 1)))) ?dst dst'"
    using Suc.hyps(1) [OF kk r(3,2) ile le1 fit1 ov1] unfolding es1 i1 by blast
  have d: "unat n - unat i = Suc (unat n - unat (i + 1))" using ilt i1 by simp
  have call: "pop_run X h n i dst w = Some (h', dst', w')"
    using lt r(1) [folded off] next_dst [folded off] h'(1) by (subst pop_run.simps) (simp del: dv_heap_pop.simps)
  have "popped_into ?es (unat i) (?xs ! 0 # fst (pop_list lt (heap_elems h1) (unat n - unat (i + 1)))) dst dst'"
    by (rule popped_into_step [OF Suc.prems(5) ilt x h'(5)])
  then show ?case using call h'(2-4) r(4) unfolding d by (simp add: case_prod_beta)
qed

lemma pop_bulk_refines:
  assumes wf: "wf_heap h" and w: "w \<in> W"
    and out: "out_fits (min (unat cnt) (unat (hp_size h)) * unat (hp_elem_size h)) out"
  shows "\<exists>n h' out' w'. dv_heap_pop_bulk X (Some h) out cnt w = Some (n, Some h', out', w') \<and>
           w' \<in> W \<and> wf_heap h' \<and> unat n = min (unat cnt) (unat (hp_size h)) \<and>
           heap_elems h' = snd (pop_list lt (heap_elems h) (unat n)) \<and>
           popped_into (unat (hp_elem_size h)) 0 (fst (pop_list lt (heap_elems h) (unat n))) out out'"
proof -
  define n where "n = (if cnt < hp_size h then cnt else hp_size h)"
  have nm: "unat n = min (unat cnt) (unat (hp_size h))" by (auto simp: n_def word_less_nat_alt)
  show ?thesis
  proof (cases "n = 0")
    case True
    then have "dv_heap_pop_bulk X (Some h) out cnt w = Some (0, Some h, out, w)"
      by (auto simp: n_def Let_def split: if_splits)
    then show ?thesis using True nm wf w
      by (auto simp: popped_into_def split: option.split)
  next
    case False
    then have c0: "cnt \<noteq> 0" by (auto simp: n_def word_gt_0 split: if_splits)
    have mem: "heap_mem h" by (rule wf_heapD(3) [OF wf])
    have "unat n \<le> unat (hp_capacity h) + 1" using nm heap_mem_facts(1) [OF mem] by simp
    then have "unat n * unat (hp_elem_size h) \<le> (unat (hp_capacity h) + 1) * unat (hp_elem_size h)"
      by (rule mult_le_mono1)
    then have ov: "unat n * unat (hp_elem_size h) < 2 ^ 64" using heap_mem_facts(4) [OF mem] by linarith
    have fit: "out_fits (unat n * unat (hp_elem_size h)) out" using out nm by simp
    have le: "unat (0::size_t) \<le> unat n" "unat n - unat (0::size_t) \<le> unat (hp_size h)" using nm by simp_all
    obtain h' out' w' where "pop_run X h n 0 out w = Some (h', out', w')" "w' \<in> W" "wf_heap h'"
      "heap_elems h' = snd (pop_list lt (heap_elems h) (unat n))"
      "popped_into (unat (hp_elem_size h)) 0 (fst (pop_list lt (heap_elems h) (unat n))) out out'"
      using pop_run_refines [OF wf w le fit ov] by auto
    moreover from this have "dv_heap_pop_bulk X (Some h) out cnt w = Some (n, Some h', out', w')"
      using c0 False unfolding n_def by (simp add: Let_def)
    ultimately show ?thesis using nm by blast
  qed
qed

end

text \<open>What a pop leaves behind does not depend on the out buffer.\<close>

lemma pop_unseen: "dv_heap_pop X (Some h) out w = Some (st, p, o1, w1) \<Longrightarrow> dv_heap_pop X (Some h) None w = Some (st, p, None, w1)"
  by (auto simp: bind_eq_Some_conv Let_def heap_copy_out_def split: if_splits)

lemma pop_run_unseen: "pop_run X h n i dst w = Some (h', o1, w') \<Longrightarrow> pop_run X h n i None w = Some (h', None, w')"
proof (induction X h n i dst w arbitrary: h' o1 w' rule: pop_run.induct)
  case (1 X h n i dst w)
  show ?case
  proof (cases "i < n")
    case True
    obtain st h1 out w1 where s: "dv_heap_pop X (Some h) (map_option (drop (unat (i * hp_elem_size h))) dst) w = Some (st, Some h1, out, w1)"
      "pop_run X h1 n (i + 1) (case (dst, out) of (Some d, Some d') \<Rightarrow> Some (take (unat (i * hp_elem_size h)) d @ d') | _ \<Rightarrow> None) w1 = Some (h', o1, w')"
      using 1(2) True by (subst (asm) pop_run.simps) (auto simp: bind_eq_Some_conv simp del: dv_heap_pop.simps)
    have "pop_run X h1 n (i + 1) None w1 = Some (h', None, w')"
      using 1(1) [OF True s(1) refl refl refl refl] s(2) by (cases dst; cases out) auto
    then show ?thesis using True pop_unseen [OF s(1)] by (subst pop_run.simps) (simp del: dv_heap_pop.simps)
  next
    case False
    then show ?thesis using 1(2) by (subst (asm) pop_run.simps, subst pop_run.simps) simp
  qed
qed

lemma pop_bulk_unseen:
  "dv_heap_pop_bulk X (Some h) out n w = Some (k, Some h', o1, w') \<Longrightarrow> dv_heap_pop_bulk X (Some h) None n w = Some (k, Some h', None, w')"
  by (auto simp: bind_eq_Some_conv Let_def split: if_splits dest: pop_run_unseen)

end
