(* ===== verification/Heap_Keys.thy ===== *)
theory Heap_Keys
  imports Dv_Heap_Bulk
begin

text \<open>
  The orderings a configuration can select. A built-in key type compares the numeric value of the
  key, read little endian from the element (\<open>direct_heap\<close>) or from the object the element points
  to (\<open>indirect_heap\<close>); both are strict weak orders as \<open>ordered_heap\<close> demands, floating point
  keys as long as no key is a NaN.
\<close>

section \<open>Key values\<close>

fun key_rank :: "dv_heap_key_type_t \<Rightarrow> byte list \<Rightarrow> int" where
  "key_rank DV_HEAP_KEY_U64 k = uint (le_load k :: 64 word)"
| "key_rank DV_HEAP_KEY_I64 k = sint (le_load k :: 64 word)"
| "key_rank DV_HEAP_KEY_U32 k = uint (le_load k :: 32 word)"
| "key_rank DV_HEAP_KEY_I32 k = sint (le_load k :: 32 word)"
| "key_rank DV_HEAP_KEY_F64 k = f64_rank (le_load k)"
| "key_rank DV_HEAP_KEY_F32 k = f32_rank (le_load k)"
| "key_rank DV_HEAP_KEY_PTR k = uint (le_load k :: 64 word)"
| "key_rank _ k = 0"

fun key_comparable :: "dv_heap_key_type_t \<Rightarrow> byte list \<Rightarrow> bool" where
  "key_comparable DV_HEAP_KEY_F64 k = (\<not> f64_nan (le_load k))"
| "key_comparable DV_HEAP_KEY_F32 k = (\<not> f32_nan (le_load k))"
| "key_comparable _ k = True"

fun built_in :: "dv_heap_key_type_t \<Rightarrow> bool" where
  "built_in DV_HEAP_KEY_CUSTOM = False"
| "built_in (DV_HEAP_KEY_OTHER _) = False"
| "built_in _ = True"

definition key_before :: "'w dv_heap_t \<Rightarrow> (byte list \<Rightarrow> byte list) \<Rightarrow> byte list \<Rightarrow> byte list \<Rightarrow> bool" where
  "key_before h key a b \<longleftrightarrow>
     (if hp_order h = DV_HEAP_MIN
      then key_rank (hp_key_type h) (key a) < key_rank (hp_key_type h) (key b)
      else key_rank (hp_key_type h) (key b) < key_rank (hp_key_type h) (key a))"

lemma before_raw_rank:
  assumes "built_in (hp_key_type h)"
    and "dv_heap_key_of X h a (unat (dv_heap_key_width (hp_key_type h))) w = Some (key a)"
    and "dv_heap_key_of X h b (unat (dv_heap_key_width (hp_key_type h))) w = Some (key b)"
    and "key_comparable (hp_key_type h) (key a)" "key_comparable (hp_key_type h) (key b)"
  shows "dv_heap_before_raw X h a b w = Some (key_before h key a b)"
  using assms
  by (cases "hp_key_type h")
    (auto simp: dv_heap_before_raw_def dv_heap_key_less_def with_keys_def key_before_def
      f64_less_def f32_less_def word_less_def layout_simps)

lemma key_before_order: "heap_order (key_before h key) ok"
  by unfold_locales (auto simp: key_before_def split: if_splits)

section \<open>Keys inside the elements\<close>

definition direct_key :: "'w dv_heap_t \<Rightarrow> byte list \<Rightarrow> byte list" where
  "direct_key h a = take (unat (dv_heap_key_width (hp_key_type h))) (drop (unat (hp_key_offset h)) a)"

definition direct_ok :: "'w dv_heap_t \<Rightarrow> byte list \<Rightarrow> bool" where
  "direct_ok h a \<longleftrightarrow> length a = unat (hp_elem_size h) \<and> key_comparable (hp_key_type h) (direct_key h a)"

locale direct_heap =
  fixes cfg :: "'w dv_heap_t"
  assumes direct: "\<not> hp_key_indirect cfg" and builtin: "built_in (hp_key_type cfg)"
    and inside: "unat (hp_key_offset cfg) + unat (dv_heap_key_width (hp_key_type cfg)) \<le> unat (hp_elem_size cfg)"

sublocale direct_heap \<subseteq> ordered: ordered_heap "key_before cfg (direct_key cfg)" "direct_ok cfg" X cfg UNIV for X
proof -
  have "heap_order (key_before cfg (direct_key cfg)) (direct_ok cfg)" by (rule key_before_order)
  moreover have "dv_heap_before_raw X cfg a b w = Some (key_before cfg (direct_key cfg) a b)"
    if "direct_ok cfg a" "direct_ok cfg b" for a b w
    using that direct builtin inside
    by (intro before_raw_rank) (simp_all add: dv_heap_key_of_def direct_ok_def direct_key_def mem_read_def)
  ultimately show "ordered_heap (key_before cfg (direct_key cfg)) (direct_ok cfg) X cfg UNIV"
    by (simp add: ordered_heap_def ordered_heap_axioms_def direct_ok_def)
qed

context direct_heap
begin

lemma is_ordered: "ordered_heap (key_before cfg (direct_key cfg)) (direct_ok cfg) X cfg UNIV"
  by (rule ordered.ordered_heap_axioms)

end

section \<open>Keys behind pointers\<close>

definition ptr_ok :: "ptr set \<Rightarrow> byte list \<Rightarrow> bool" where
  "ptr_ok P a \<longleftrightarrow> length a = 8 \<and> le_load a \<in> P"

text \<open>
  \<open>P\<close> is the set of live objects, \<open>kb p\<close> the key bytes of the object at \<open>p\<close>, and \<open>W\<close> worlds in
  which each live object holds its key.
\<close>

locale indirect_heap =
  fixes cfg :: "'w dv_heap_t" and X :: "'w extmem" and P :: "ptr set" and kb :: "ptr \<Rightarrow> byte list" and W :: "'w set"
  assumes indirect: "hp_key_indirect cfg" and builtin: "built_in (hp_key_type cfg)"
    and pointers: "hp_elem_size cfg = sizeof_ptr"
    and key_read: "w \<in> W \<Longrightarrow> p \<in> P \<Longrightarrow>
      X w (p + hp_key_offset cfg) (unat (dv_heap_key_width (hp_key_type cfg))) = Some (kb p)"
    and key_ok: "p \<in> P \<Longrightarrow> key_comparable (hp_key_type cfg) (kb p)"
    and hook_keeps: "hp_on_move cfg = Some mv \<Longrightarrow> w \<in> W \<Longrightarrow> ptr_ok P e \<Longrightarrow>
      mv e i (hp_move_user_data cfg) w \<in> W"
    and allocator_keeps: "hooks_keep W (hp_allocator cfg)"

sublocale indirect_heap \<subseteq> ordered: ordered_heap "key_before cfg (\<lambda>a. kb (le_load a))" "ptr_ok P" X cfg W
proof -
  have "heap_order (key_before cfg (\<lambda>a. kb (le_load a))) (ptr_ok P)" by (rule key_before_order)
  moreover have "dv_heap_before_raw X cfg a b w = Some (key_before cfg (\<lambda>a. kb (le_load a)) a b)"
    if "w \<in> W" "ptr_ok P a" "ptr_ok P b" for a b w
    using that indirect builtin key_read key_ok
    by (intro before_raw_rank) (simp_all add: dv_heap_key_of_def ptr_ok_def mem_read_def layout_simps)
  ultimately show "ordered_heap (key_before cfg (\<lambda>a. kb (le_load a))) (ptr_ok P) X cfg W"
    using hook_keeps allocator_keeps pointers
    by (simp add: ordered_heap_def ordered_heap_axioms_def ptr_ok_def layout_simps)
qed

section \<open>A comparator of the caller\<close>

lemma custom_ordered:
  assumes "heap_order lt ok" "hp_key_type cfg = DV_HEAP_KEY_CUSTOM" "hp_compare cfg = Some f"
    and "\<And>a. ok a \<Longrightarrow> length a = unat (hp_elem_size cfg)"
    and "\<And>w a b. w \<in> W \<Longrightarrow> ok a \<Longrightarrow> ok b \<Longrightarrow> (f a b (hp_compare_user_data cfg) w < 0) =
           (if hp_order cfg = DV_HEAP_MIN then lt a b else lt b a)"
    and "\<And>mv w e i. hp_on_move cfg = Some mv \<Longrightarrow> w \<in> W \<Longrightarrow> ok e \<Longrightarrow> mv e i (hp_move_user_data cfg) w \<in> W"
    and "hooks_keep W (hp_allocator cfg)"
  shows "ordered_heap lt ok X cfg W"
proof -
  have "dv_heap_before_raw X cfg a b w = Some (lt a b)" if "w \<in> W" "ok a" "ok b" for w a b
    using that assms(2,3) assms(5) [of w a b] assms(5) [of w b a]
    by (simp add: dv_heap_before_raw_def dv_heap_key_less_def heap_compare_less_def)
  then show ?thesis
    using assms(1,4,6,7) unfolding ordered_heap_def ordered_heap_axioms_def by blast
qed

end
