(* ===== verification/Dv_Heap_Refine.thy ===== *)
theory Dv_Heap_Refine
  imports Heap_Keys
begin

text \<open>
  Initialization of the heap, and the heap against its reference model: a priority queue given by
  the multiset of its elements. \<open>heap_exec\<close> runs one call as a client makes it, \<open>pq_ref\<close> is the
  specification, one rule per outcome.
\<close>

section \<open>Initialization\<close>

definition heap_config_ok :: "'w dv_heap_config_t \<Rightarrow> 'w hooks option \<Rightarrow> bool" where
  "heap_config_ok c allocator \<longleftrightarrow>
     hcf_elem_size c \<noteq> 0 \<and> hcf_order c \<in> {DV_HEAP_MIN, DV_HEAP_MAX} \<and>
     dv_heap_key_type_valid (hcf_key_type c) \<and>
     (hcf_key_type c = DV_HEAP_KEY_CUSTOM \<longrightarrow> hcf_compare c \<noteq> None) \<and>
     (\<exists>k<64. unat (heap_elem_align c) = 2 ^ k) \<and>
     unat (heap_elem_align c) dvd unat (hcf_elem_size c) \<and>
     (if hcf_key_indirect c then hcf_elem_size c = sizeof_ptr \<and> 8 dvd unat (heap_align c)
      else hcf_key_type c = DV_HEAP_KEY_CUSTOM \<or>
        unat (hcf_key_offset c) + unat (dv_heap_key_width (hcf_key_type c)) \<le> unat (hcf_elem_size c)) \<and>
     (\<forall>a. allocator = Some a \<longrightarrow> hk_alloc a \<noteq> None \<and> hk_free a \<noteq> None) \<and>
     (hcf_growable c \<and> hcf_max_capacity c \<noteq> 0 \<longrightarrow> hcf_initial_capacity c \<le> hcf_max_capacity c)"

lemma key_inside_iff:
  fixes off es wd :: size_t
  shows "(\<not> (wd > es \<or> off > es - wd)) = (unat off + unat wd \<le> unat es)"
proof (cases "wd > es")
  case True
  then show ?thesis by (simp add: word_less_nat_alt)
next
  case False
  then have "wd \<le> es" by simp
  then have "unat (es - wd) = unat es - unat wd" "unat wd \<le> unat es"
    by (simp_all add: unat_sub word_le_nat_alt)
  then show ?thesis using False by (auto simp: word_less_nat_alt)
qed

lemma heap_config_accepted_iff:
  "(heap_config_accepted c \<and> (\<exists>hk. heap_select_hooks L allocator = Some hk) \<and>
    \<not> (hcf_growable c \<and> hcf_max_capacity c \<noteq> 0 \<and> hcf_max_capacity c < hcf_initial_capacity c)) =
   heap_config_ok c allocator"
proof -
  have al: "dv_heap_is_pow2 (heap_elem_align c) = (\<exists>k<64. unat (heap_elem_align c) = 2 ^ k)"
    by (rule dv_heap_is_pow2_iff)
  have dvd: "(hcf_elem_size c AND (heap_elem_align c - 1) = 0) =
      (unat (heap_elem_align c) dvd unat (hcf_elem_size c))" if "dv_heap_is_pow2 (heap_elem_align c)"
    using pow2_and_pred_dvd that al by auto
  have ptr: "(heap_align c AND (alignof_ptr - 1) = 0) = (8 dvd unat (heap_align c))"
    using pow2_and_pred_dvd [of alignof_ptr 3 "heap_align c"] by (simp add: layout_simps)
  have sel: "(\<exists>hk. heap_select_hooks L allocator = Some hk) =
      (\<forall>a. allocator = Some a \<longrightarrow> hk_alloc a \<noteq> None \<and> hk_free a \<noteq> None)"
    by (auto simp: heap_select_hooks_def split: option.splits)
  show ?thesis
    unfolding heap_config_accepted_def heap_config_ok_def sel key_inside_iff ptr al [symmetric]
    using dvd by (auto simp: not_less split: if_splits)
qed

definition heap_hooks :: "'w libc \<Rightarrow> 'w hooks option \<Rightarrow> 'w hooks" where
  "heap_hooks L allocator = (case allocator of None \<Rightarrow> dv_heap_default_allocator L | Some a \<Rightarrow> a)"

lemma dv_heap_init_invalid:
  assumes "\<not> heap_config_ok c allocator"
  shows "dv_heap_init L (Some h) (Some c) allocator w = Some (DV_HEAP_ERR_INVALID, Some zero_heap, w)"
  using assms unfolding heap_config_accepted_iff [of c L, symmetric] by (auto split: option.split)

lemma dv_heap_init_valid:
  assumes "heap_config_ok c allocator"
  shows "dv_heap_init L (Some h) (Some c) allocator w =
    (if hcf_initial_capacity c > 0 then do {
       (status, h1, w1) \<leftarrow> dv_heap_set_capacity (heap_configured c (heap_hooks L allocator)) (hcf_initial_capacity c) w;
       (if status \<noteq> DV_HEAP_OK then Some (status, Some zero_heap, w1) else Some (DV_HEAP_OK, Some h1, w1)) }
     else Some (DV_HEAP_OK, Some (heap_configured c (heap_hooks L allocator)), w))"
proof -
  have "heap_select_hooks L allocator = Some (heap_hooks L allocator)"
    using assms by (auto simp: heap_select_hooks_def heap_hooks_def heap_config_ok_def split: option.splits)
  then show ?thesis
    using assms unfolding heap_config_accepted_iff [of c L, symmetric] by auto
qed

lemma dv_heap_init_spec:
  assumes L: "libc_heap L" and ok: "heap_config_ok c allocator"
    and hk: "\<And>a. allocator = Some a \<Longrightarrow> allocator_contract a"
  shows "\<exists>status h' w'. dv_heap_init L (Some h) (Some c) allocator w = Some (status, Some h', w') \<and>
           (status = DV_HEAP_OK \<longrightarrow>
              heap_inv h' \<and> heap_elems h' = [] \<and> hp_capacity h' = hcf_initial_capacity c \<and>
              same_setup (heap_configured c (heap_hooks L allocator)) h') \<and>
           (status \<noteq> DV_HEAP_OK \<longrightarrow> h' = zero_heap) \<and>
           status \<in> {DV_HEAP_OK, DV_HEAP_ERR_NOMEM, DV_HEAP_ERR_OVERFLOW}"
proof -
  let ?h = "heap_configured c (heap_hooks L allocator)" and ?n = "hcf_initial_capacity c"
  have contract: "allocator_contract (hp_allocator ?h)"
    using hk libc_heap.heap_default_contract [OF L]
    by (auto simp: heap_configured_def heap_hooks_def split: option.splits)
  have fns: "hk_alloc (heap_hooks L allocator) \<noteq> None" "hk_free (heap_hooks L allocator) \<noteq> None"
    using ok by (auto simp: heap_hooks_def heap_config_ok_def dv_heap_default_allocator_def split: option.splits)
  have "hcf_elem_size c \<noteq> 0" using ok by (simp add: heap_config_ok_def)
  moreover have "heap_fits 0 (hcf_elem_size c)" using unat_lt_64 [of "hcf_elem_size c"] by (simp add: heap_fits_def)
  ultimately have mem: "heap_mem ?h"
    using fns contract by (simp add: heap_mem_def heap_configured_def heap_data_def heap_bytes_def)
  have zero: "hp_size ?h = 0" "hp_capacity ?h = 0" "hp_elem_size ?h = hcf_elem_size c"
    by (simp_all add: heap_configured_def)
  have inv: "heap_inv h'" if r: "heap_resized ?h ?n h'" for h'
  proof -
    have m: "heap_mem h'" "same_setup ?h h'" "hp_capacity h' = ?n" using r by (simp_all add: heap_resized_def)
    have s: "hp_growable h' = hcf_growable c" "hp_initial_capacity h' = ?n" "hp_elem_size h' = hcf_elem_size c"
      "hp_max_capacity h' = (if hcf_growable c then hcf_max_capacity c else ?n)"
      using same_setupD [OF m(2)] by (simp_all add: heap_configured_def)
    have "heap_fits ?n (hcf_elem_size c)" using m s by (simp add: heap_mem_def)
    then show ?thesis
      using m s ok by (auto simp: heap_inv_def heap_policy_def heap_config_ok_def)
  qed
  obtain status h' w' where sc: "dv_heap_set_capacity ?h ?n w = Some (status, h', w')"
    and c: "capacity_result ?h ?n w status h' w'"
    using dv_heap_set_capacity_spec [OF mem] by blast
  show ?thesis
  proof (cases "?n > 0 \<and> status \<noteq> DV_HEAP_OK")
    case True
    then show ?thesis using sc c zero dv_heap_init_valid [OF ok, of L h w]
      by (cases status) (auto simp: capacity_result_def simp del: dv_heap_init.simps)
  next
    case False
    let ?r = "if ?n > 0 then h' else ?h"
    have r: "heap_resized ?h ?n ?r"
      using False c heap_resized_refl [OF mem] zero by (auto simp: word_gt_0 capacity_result_def)
    have "dv_heap_init L (Some h) (Some c) allocator w = Some (DV_HEAP_OK, Some ?r, if ?n > 0 then w' else w)"
      using sc False dv_heap_init_valid [OF ok, of L h w] by auto
    moreover have "heap_elems ?r = []" "hp_capacity ?r = ?n" "same_setup ?h ?r"
      using r zero by (simp_all add: heap_resized_def heap_elems_def)
    ultimately show ?thesis using inv [OF r] by blast
  qed
qed

section \<open>Calls and outcomes\<close>

datatype heap_op =
    HPush "byte list"
  | HPop
  | HPeek
  | HReplaceTop "byte list"
  | HHeapify
  | HBuild "byte list" size_t
  | HPushBulk "byte list" size_t
  | HPopBulk size_t
  | HReserve size_t
  | HShrink
  | HClear
  | HReset

datatype heap_res =
    HStatus dv_heap_status_t
  | HElem dv_heap_status_t "byte list option"
  | HCount size_t
  | HElems size_t "byte list"
  | HUnit

definition elem_buffer :: "'w dv_heap_t \<Rightarrow> byte list option" where
  "elem_buffer h = Some (replicate (unat (hp_elem_size h)) 0)"

definition when_ok :: "dv_heap_status_t \<Rightarrow> byte list option \<Rightarrow> heap_res" where
  "when_ok st out = HElem st (if st = DV_HEAP_OK then out else None)"

fun heap_exec :: "'w extmem \<Rightarrow> 'w dv_heap_t \<Rightarrow> heap_op \<Rightarrow> 'w \<Rightarrow> (heap_res \<times> 'w dv_heap_t \<times> 'w) option" where
  "heap_exec X h (HPush e) w = do {
     (st, p, w1) \<leftarrow> dv_heap_push X (Some h) (Some e) w; h1 \<leftarrow> p; Some (HStatus st, h1, w1) }"
| "heap_exec X h HPop w = do {
     (st, p, out, w1) \<leftarrow> dv_heap_pop X (Some h) (elem_buffer h) w; h1 \<leftarrow> p; Some (when_ok st out, h1, w1) }"
| "heap_exec X h HPeek w = do {
     (st, out) \<leftarrow> dv_heap_peek (Some h) (elem_buffer h); Some (when_ok st out, h, w) }"
| "heap_exec X h (HReplaceTop e) w = do {
     (st, p, out, w1) \<leftarrow> dv_heap_replace_top X (Some h) (Some (Ext e)) (elem_buffer h) w;
     h1 \<leftarrow> p; Some (when_ok st out, h1, w1) }"
| "heap_exec X h HHeapify w = do {
     (st, p, w1) \<leftarrow> dv_heap_heapify X (Some h) w; h1 \<leftarrow> p; Some (HStatus st, h1, w1) }"
| "heap_exec X h (HBuild es n) w = do {
     (st, p, w1) \<leftarrow> dv_heap_build X (Some h) (Some es) n w; h1 \<leftarrow> p; Some (HStatus st, h1, w1) }"
| "heap_exec X h (HPushBulk es n) w = do {
     (k, p, w1) \<leftarrow> dv_heap_push_bulk X (Some h) (Some es) n w; h1 \<leftarrow> p; Some (HCount k, h1, w1) }"
| "heap_exec X h (HPopBulk n) w = do {
     (k, p, out, w1) \<leftarrow> dv_heap_pop_bulk X (Some h)
        (Some (replicate (min (unat n) (unat (hp_size h)) * unat (hp_elem_size h)) 0)) n w;
     h1 \<leftarrow> p; b \<leftarrow> out; Some (HElems k b, h1, w1) }"
| "heap_exec X h (HReserve n) w = do {
     (st, p, w1) \<leftarrow> dv_heap_reserve (Some h) n w; h1 \<leftarrow> p; Some (HStatus st, h1, w1) }"
| "heap_exec X h HShrink w = do {
     (st, p, w1) \<leftarrow> dv_heap_shrink_to_fit (Some h) w; h1 \<leftarrow> p; Some (HStatus st, h1, w1) }"
| "heap_exec X h HClear w = do { h1 \<leftarrow> dv_heap_clear (Some h); Some (HUnit, h1, w) }"
| "heap_exec X h HReset w = do {
     (st, p, w1) \<leftarrow> dv_heap_reset (Some h) w; h1 \<leftarrow> p; Some (HStatus st, h1, w1) }"

text \<open>Arrays are as long as the call says and hold admissible elements.\<close>

fun heap_op_ok :: "nat \<Rightarrow> (byte list \<Rightarrow> bool) \<Rightarrow> heap_op \<Rightarrow> bool" where
  "heap_op_ok es ok (HPush e) = (es \<le> length e \<and> ok (take es e))"
| "heap_op_ok es ok (HReplaceTop e) = (es \<le> length e \<and> ok (take es e))"
| "heap_op_ok es ok (HBuild e n) = (unat n * es \<le> length e \<and> list_all ok (chunks es e (unat n)))"
| "heap_op_ok es ok (HPushBulk e n) = (unat n * es \<le> length e \<and> list_all ok (chunks es e (unat n)))"
| "heap_op_ok es ok _ = True"

fun heap_run ::
  "'w extmem \<Rightarrow> 'w dv_heap_t \<Rightarrow> heap_op list \<Rightarrow> 'w \<Rightarrow> (heap_res list \<times> 'w dv_heap_t \<times> 'w) option"
where
  "heap_run X h [] w = Some ([], h, w)"
| "heap_run X h (x # xs) w = do {
     (r, h1, w1) \<leftarrow> heap_exec X h x w;
     (rs, h2, w2) \<leftarrow> heap_run X h1 xs w1;
     Some (r # rs, h2, w2) }"

section \<open>Reference model\<close>

definition first_of :: "('a \<Rightarrow> 'a \<Rightarrow> bool) \<Rightarrow> 'a multiset \<Rightarrow> 'a \<Rightarrow> bool" where
  "first_of lt M x \<longleftrightarrow> x \<in># M \<and> (\<forall>y \<in># M. \<not> lt y x)"

definition refusals :: "dv_heap_status_t set" where
  "refusals = {DV_HEAP_ERR_FULL, DV_HEAP_ERR_NOMEM, DV_HEAP_ERR_OVERFLOW}"

inductive pq_ref ::
  "nat \<Rightarrow> (byte list \<Rightarrow> byte list \<Rightarrow> bool) \<Rightarrow> byte list multiset \<Rightarrow> heap_op \<Rightarrow> heap_res \<Rightarrow> byte list multiset \<Rightarrow> bool"
  for es :: nat and lt :: "byte list \<Rightarrow> byte list \<Rightarrow> bool"
where
  push: "pq_ref es lt M (HPush e) (HStatus DV_HEAP_OK) (add_mset (take es e) M)"
| push_refused: "st \<in> refusals \<Longrightarrow> pq_ref es lt M (HPush e) (HStatus st) M"
| pop: "first_of lt M x \<Longrightarrow> pq_ref es lt M HPop (HElem DV_HEAP_OK (Some x)) (M - {#x#})"
| pop_empty: "pq_ref es lt {#} HPop (HElem DV_HEAP_ERR_EMPTY None) {#}"
| peek: "first_of lt M x \<Longrightarrow> pq_ref es lt M HPeek (HElem DV_HEAP_OK (Some x)) M"
| peek_empty: "pq_ref es lt {#} HPeek (HElem DV_HEAP_ERR_EMPTY None) {#}"
| replace: "first_of lt M x \<Longrightarrow>
     pq_ref es lt M (HReplaceTop e) (HElem DV_HEAP_OK (Some x)) (add_mset (take es e) (M - {#x#}))"
| replace_empty: "pq_ref es lt {#} (HReplaceTop e) (HElem DV_HEAP_ERR_EMPTY None) {#}"
| heapify: "pq_ref es lt M HHeapify (HStatus DV_HEAP_OK) M"
| build: "pq_ref es lt M (HBuild e n) (HStatus DV_HEAP_OK) (mset (chunks es e (unat n)))"
| build_refused: "st \<in> refusals \<Longrightarrow> pq_ref es lt M (HBuild e n) (HStatus st) M"
| push_bulk: "k \<le> n \<Longrightarrow>
     pq_ref es lt M (HPushBulk e n) (HCount k) (M + mset (take (unat k) (chunks es e (unat n))))"
| pop_bulk: "unat k = min (unat n) (size M) \<Longrightarrow> length b = unat k * es \<Longrightarrow> xs = chunks es b (unat k) \<Longrightarrow>
     M = mset xs + M' \<Longrightarrow> sorted_wrt (\<lambda>x y. \<not> lt y x) xs \<Longrightarrow>
     (\<forall>x \<in> set xs. \<forall>y \<in># M'. \<not> lt y x) \<Longrightarrow> pq_ref es lt M (HPopBulk n) (HElems k b) M'"
| reserve: "st \<in> insert DV_HEAP_OK refusals \<Longrightarrow> pq_ref es lt M (HReserve n) (HStatus st) M"
| shrink: "st \<in> insert DV_HEAP_OK refusals \<Longrightarrow> pq_ref es lt M HShrink (HStatus st) M"
| clear: "pq_ref es lt M HClear HUnit {#}"
| reset: "st \<in> insert DV_HEAP_OK refusals \<Longrightarrow> pq_ref es lt M HReset (HStatus st) {#}"

inductive pq_ref_run ::
  "nat \<Rightarrow> (byte list \<Rightarrow> byte list \<Rightarrow> bool) \<Rightarrow> byte list multiset \<Rightarrow> heap_op list \<Rightarrow> heap_res list \<Rightarrow>
     byte list multiset \<Rightarrow> bool"
  for es :: nat and lt :: "byte list \<Rightarrow> byte list \<Rightarrow> bool"
where
  stop: "pq_ref_run es lt M [] [] M"
| step: "pq_ref es lt M x r M' \<Longrightarrow> pq_ref_run es lt M' xs rs M'' \<Longrightarrow>
     pq_ref_run es lt M (x # xs) (r # rs) M''"

section \<open>Simulation\<close>

lemmas heap_op_defs = dv_heap_push.simps dv_heap_pop.simps dv_heap_peek.simps dv_heap_replace_top.simps
  dv_heap_heapify.simps dv_heap_build.simps dv_heap_push_bulk.simps dv_heap_pop_bulk.simps
  dv_heap_reserve.simps dv_heap_shrink_to_fit.simps dv_heap_reset.simps

context ordered_heap
begin

definition good :: "'w dv_heap_t \<Rightarrow> 'w \<Rightarrow> bool" where
  "good h w \<longleftrightarrow> w \<in> W \<and> wf_heap h \<and> heap_ordered lt (heap_elems h)"

definition heap_simulates :: "'w dv_heap_t \<Rightarrow> heap_op \<Rightarrow> 'w \<Rightarrow> bool" where
  "heap_simulates h x w \<longleftrightarrow> (\<exists>r h' w'. heap_exec X h x w = Some (r, h', w') \<and> good h' w' \<and>
     pq_ref (unat (hp_elem_size cfg)) lt (mset (heap_elems h)) x r (mset (heap_elems h')))"

lemma heap_simulatesI:
  "heap_exec X h x w = Some (r, h', w') \<Longrightarrow> good h' w' \<Longrightarrow>
   pq_ref (unat (hp_elem_size cfg)) lt (mset (heap_elems h)) x r (mset (heap_elems h')) \<Longrightarrow> heap_simulates h x w"
  unfolding heap_simulates_def by blast

lemma good_elem_size: "good h w \<Longrightarrow> hp_elem_size h = hp_elem_size cfg"
  using same_setupD(1) [OF wf_heapD(1)] by (simp add: good_def)

lemma goodD:
  assumes "good h w"
  shows "w \<in> W" "wf_heap h" "heap_ordered lt (heap_elems h)" "list_all ok (heap_elems h)"
  using assms wf_heapD(4) by (simp_all add: good_def)

lemma first_root: "good h w \<Longrightarrow> hp_size h \<noteq> 0 \<Longrightarrow> first_of lt (mset (heap_elems h)) (heap_elems h ! 0)"
  using root_first [OF goodD(4,3), of h w w] unat_gt_0 [of "hp_size h"]
  by (auto simp: first_of_def in_set_conv_nth)

lemma empty_elems: "hp_size h = 0 \<Longrightarrow> heap_elems h = []"
  by (simp add: heap_elems_def)

lemma buffer_written:
  assumes "good h w" "hp_size h \<noteq> 0"
  shows "written (heap_elems h ! 0) (elem_buffer h) = Some (heap_elems h ! 0)"
    "out_fits (unat (hp_elem_size h)) (elem_buffer h)"
  using length_heap_elem [OF wf_heapD(3) [OF goodD(2) [OF assms(1)]], of 0] assms(2)
  by (simp_all add: elem_buffer_def written_def out_fits_def unat_gt_0)

lemma push_heap_simulates:
  assumes g: "good h w" and ok: "heap_op_ok (unat (hp_elem_size cfg)) ok (HPush e)"
  shows "heap_simulates h (HPush e) w"
proof -
  note es = good_elem_size [OF g]
  obtain st h' w' where c: "dv_heap_push X (Some h) (Some e) w = Some (st, Some h', w')"
    and p: "pushed h (take (unat (hp_elem_size cfg)) e) w st h' w'"
    using push_refines [OF goodD(2,1) [OF g], of e] ok es by auto
  let ?x = "take (unat (hp_elem_size cfg)) e"
  have "good h' w' \<and> pq_ref (unat (hp_elem_size cfg)) lt (mset (heap_elems h)) (HPush e) (HStatus st) (mset (heap_elems h'))"
  proof (cases "st = DV_HEAP_OK")
    case True
    then have el: "heap_elems h' = push_list lt (heap_elems h) ?x" "w' \<in> W" "wf_heap h'"
      using p by (auto simp: pushed_def)
    then show ?thesis
      using True heap_push_list(1) [OF goodD(4) [OF g] _ goodD(3) [OF g], of ?x] ok pq_ref.push
      by (simp add: good_def mset_push_list)
  next
    case False
    then have "h' = h" "st \<in> refusals" "w' \<in> W" using p by (auto simp: pushed_def refusals_def)
    then show ?thesis using g pq_ref.push_refused by (simp add: good_def)
  qed
  then show ?thesis using c
    by (intro heap_simulatesI [where r = "HStatus st" and h' = h' and w' = w']) (simp_all del: heap_op_defs)
qed

lemma pop_heap_simulates:
  assumes g: "good h w" shows "heap_simulates h HPop w"
proof (cases "hp_size h = 0")
  case True
  then show ?thesis using g pq_ref.pop_empty
    by (intro heap_simulatesI [where r = "HElem DV_HEAP_ERR_EMPTY None" and h' = h and w' = w])
      (simp_all add: empty_elems when_ok_def)
next
  case False
  let ?x = "heap_elems h ! 0"
  note b = buffer_written [OF g False]
  obtain h' w' where c: "dv_heap_pop X (Some h) (elem_buffer h) w = Some (DV_HEAP_OK, Some h', Some ?x, w')"
    "w' \<in> W" "wf_heap h'" "heap_elems h' = remove_list lt (heap_elems h) 0"
    using pop_refines [OF goodD(2,1) [OF g] False b(2)] b(1) by auto
  have len: "0 < length (heap_elems h)" using False by (simp add: unat_gt_0)
  have "good h' w'"
    using c heap_remove_list(1) [OF goodD(4,3) [OF g] len] by (simp add: good_def)
  moreover have "mset (heap_elems h') = mset (heap_elems h) - {#?x#}"
    using mset_remove_list [OF len, of lt] c(4) by (metis add_mset_remove_trivial)
  ultimately show ?thesis using c(1) pq_ref.pop [OF first_root [OF g False]]
    by (intro heap_simulatesI [where r = "HElem DV_HEAP_OK (Some ?x)" and h' = h' and w' = w'])
      (simp_all add: when_ok_def del: heap_op_defs)
qed

lemma peek_heap_simulates:
  assumes g: "good h w" shows "heap_simulates h HPeek w"
proof (cases "hp_size h = 0")
  case True
  then show ?thesis using g pq_ref.peek_empty
    by (intro heap_simulatesI [where r = "HElem DV_HEAP_ERR_EMPTY None" and h' = h and w' = w])
      (simp_all add: empty_elems when_ok_def elem_buffer_def)
next
  case False
  let ?x = "heap_elems h ! 0"
  have "dv_heap_peek (Some h) (elem_buffer h) = Some (DV_HEAP_OK, Some ?x)"
    using peek_refines [OF goodD(2) [OF g] False, of "replicate (unat (hp_elem_size h)) 0"]
      buffer_written [OF g False] by (simp add: elem_buffer_def del: heap_op_defs)
  then show ?thesis using g pq_ref.peek [OF first_root [OF g False]]
    by (intro heap_simulatesI [where r = "HElem DV_HEAP_OK (Some ?x)" and h' = h and w' = w])
      (simp_all add: when_ok_def del: heap_op_defs)
qed

lemma replace_heap_simulates:
  assumes g: "good h w" and ok: "heap_op_ok (unat (hp_elem_size cfg)) ok (HReplaceTop e)"
  shows "heap_simulates h (HReplaceTop e) w"
proof (cases "hp_size h = 0")
  case True
  then show ?thesis using g pq_ref.replace_empty
    by (intro heap_simulatesI [where r = "HElem DV_HEAP_ERR_EMPTY None" and h' = h and w' = w])
      (simp_all add: empty_elems when_ok_def)
next
  case False
  let ?r = "heap_elems h ! 0" and ?x = "take (unat (hp_elem_size cfg)) e"
  note b = buffer_written [OF g False] and es = good_elem_size [OF g]
  obtain h' w' where c: "dv_heap_replace_top X (Some h) (Some (Ext e)) (elem_buffer h) w = Some (DV_HEAP_OK, Some h', Some ?r, w')"
    "w' \<in> W" "wf_heap h'" "heap_elems h' = update_list lt (heap_elems h) 0 ?x"
    using replace_top_refines [OF goodD(2,1) [OF g] False _ _ b(2), of e] b(1) ok es by auto
  have len: "0 < length (heap_elems h)" using False by (simp add: unat_gt_0)
  have "good h' w'"
    using c heap_update_list(1) [OF goodD(4) [OF g] _ hole_in_heap [OF goodD(4,3) [OF g] len], of ?x] ok
    by (simp add: good_def)
  moreover have "mset (heap_elems h') = add_mset ?x (mset (heap_elems h) - {#?r#})"
    using mset_update_list [OF len, of lt ?x] c(4) mset_update [OF len, of ?x] by simp
  ultimately show ?thesis using c(1) pq_ref.replace [OF first_root [OF g False]]
    by (intro heap_simulatesI [where r = "HElem DV_HEAP_OK (Some ?r)" and h' = h' and w' = w'])
      (simp_all add: when_ok_def del: heap_op_defs)
qed

lemma heapify_ordered: "list_all ok xs \<Longrightarrow> heap_ordered lt (heapify_list lt xs (length xs div 2))"
  using heap_heapify_list [OF _ _ heap_from_half] by simp

lemma heapify_mset: "mset (heapify_list lt xs (length xs div 2)) = mset xs"
  by (simp add: mset_heapify_list)

lemma heapify_heap_simulates:
  assumes g: "good h w" shows "heap_simulates h HHeapify w"
proof -
  obtain h' w' where c: "dv_heap_heapify X (Some h) w = Some (DV_HEAP_OK, Some h', w')" "heapified h w h' w'"
    using heapify_refines [OF goodD(2,1) [OF g]] by blast
  then have "good h' w'" "mset (heap_elems h') = mset (heap_elems h)"
    using heapify_ordered [OF goodD(4) [OF g]] heapify_mset [of "heap_elems h"] unfolding heapified_def good_def by auto
  then show ?thesis using c(1) pq_ref.heapify
    by (intro heap_simulatesI [where r = "HStatus DV_HEAP_OK" and h' = h' and w' = w'])
      (simp_all del: heap_op_defs)
qed

lemma build_heap_simulates:
  assumes g: "good h w" and ok: "heap_op_ok (unat (hp_elem_size cfg)) ok (HBuild e n)"
  shows "heap_simulates h (HBuild e n) w"
proof -
  let ?cs = "chunks (unat (hp_elem_size cfg)) e (unat n)"
  obtain st h' w' where c: "dv_heap_build X (Some h) (Some e) n w = Some (st, Some h', w')"
    and b: "built h ?cs w st h' w'"
    using build_refines [OF goodD(2,1) [OF g], of n e] ok good_elem_size [OF g] by auto
  have "good h' w' \<and> pq_ref (unat (hp_elem_size cfg)) lt (mset (heap_elems h)) (HBuild e n) (HStatus st) (mset (heap_elems h'))"
  proof (cases "st = DV_HEAP_OK")
    case True
    then have el: "heap_elems h' = heapify_list lt ?cs (length ?cs div 2)" "w' \<in> W" "wf_heap h'"
      using b by (auto simp: built_def)
    then have "mset (heap_elems h') = mset ?cs" "heap_ordered lt (heap_elems h')"
      using heapify_mset [of ?cs] heapify_ordered [of ?cs] ok by auto
    then show ?thesis using True el(2,3) pq_ref.build by (simp add: good_def)
  next
    case False
    then have "h' = h" "st \<in> refusals" "w' \<in> W" using b by (auto simp: built_def refusals_def)
    then show ?thesis using g pq_ref.build_refused by (simp add: good_def)
  qed
  then show ?thesis using c
    by (intro heap_simulatesI [where r = "HStatus st" and h' = h' and w' = w']) (simp_all del: heap_op_defs)
qed

lemma push_bulk_heap_simulates:
  assumes g: "good h w" and ok: "heap_op_ok (unat (hp_elem_size cfg)) ok (HPushBulk e n)"
  shows "heap_simulates h (HPushBulk e n) w"
proof -
  let ?cs = "chunks (unat (hp_elem_size cfg)) e (unat n)"
  obtain k h' w' where c: "dv_heap_push_bulk X (Some h) (Some e) n w = Some (k, Some h', w')"
    and b: "bulk_pushed h ?cs w k h' w'"
    using push_bulk_refines [OF goodD(2,1) [OF g], of n e] ok good_elem_size [OF g] by auto
  let ?ys = "heap_elems h @ take (unat k) ?cs"
  have kn: "k \<le> n" using b by (simp add: bulk_pushed_def Let_def word_le_nat_alt)
  have oky: "list_all ok ?ys"
    using goodD(4) [OF g] ok by (auto simp: list_all_iff dest: in_set_takeD)
  have el: "heap_elems h' = (if unat k \<ge> length (heap_elems h) then heapify_list lt ?ys (length ?ys div 2)
       else up_run lt ?ys (length (heap_elems h)) (unat k))" and w': "w' \<in> W" "wf_heap h'"
    using b by (simp_all add: bulk_pushed_def Let_def)
  have len: "length (heap_elems h) + unat k = length ?ys" using kn by (simp add: word_le_nat_alt)
  have up: "heap_ordered lt (up_run lt ?ys (length (heap_elems h)) (unat k))"
    using heap_up_run [OF oky len] goodD(3) [OF g] by simp
  have "heap_ordered lt (heap_elems h')" using el up heapify_ordered [OF oky] by presburger
  moreover have "mset (heap_elems h') = mset ?ys"
    using el heapify_mset [of ?ys] mset_up_run [OF eq_imp_le [OF len], of lt] by presburger
  ultimately show ?thesis using c w' pq_ref.push_bulk [OF kn]
    by (intro heap_simulatesI [where r = "HCount k" and h' = h' and w' = w'])
      (simp_all add: good_def del: heap_op_defs)
qed

lemma pop_bulk_heap_simulates:
  assumes g: "good h w" shows "heap_simulates h (HPopBulk n) w"
proof -
  let ?len = "min (unat n) (unat (hp_size h)) * unat (hp_elem_size h)" and ?xs = "heap_elems h"
  have fits: "out_fits ?len (Some (replicate ?len 0))" by (simp add: out_fits_def)
  obtain k h' out w' where c: "dv_heap_pop_bulk X (Some h) (Some (replicate ?len 0)) n w = Some (k, Some h', out, w')"
    "w' \<in> W" "wf_heap h'" and k: "unat k = min (unat n) (unat (hp_size h))"
    and el: "heap_elems h' = snd (pop_list lt ?xs (unat k))"
    and o': "popped_into (unat (hp_elem_size h)) 0 (fst (pop_list lt ?xs (unat k))) (Some (replicate ?len 0)) out"
    using pop_bulk_refines [OF goodD(2,1) [OF g] fits] by blast
  obtain es ys where p: "pop_list lt ?xs (unat k) = (es, ys)" by fastforce
  have kl: "unat k \<le> length ?xs" using k by simp
  note pm = pop_list_mset [OF kl p] and ph = heap_pop_list [OF goodD(4,3) [OF g] kl p]
  obtain b where b: "out = Some b" "length b = ?len" "\<forall>j < length es. chunk (unat (hp_elem_size h)) b j = es ! j"
    using o' p by (auto simp: popped_into_def)
  have ch: "es = chunks (unat (hp_elem_size cfg)) b (unat k)"
    using b(3) pm good_elem_size [OF g] by (intro nth_equalityI) auto
  have "pq_ref (unat (hp_elem_size cfg)) lt (mset ?xs) (HPopBulk n) (HElems k b) (mset ys)"
    by (rule pq_ref.pop_bulk [OF _ _ ch]) (use k b(2) good_elem_size [OF g] pm ph in auto)
  then show ?thesis using c b(1) el p ph
    by (intro heap_simulatesI [where r = "HElems k b" and h' = h' and w' = w'])
      (simp_all add: good_def del: heap_op_defs)
qed

lemma grown_good:
  assumes g: "good h w" and gr: "grown h w st h' w'"
  shows "good h' w'" "mset (heap_elems h') = mset (heap_elems h)" "st \<in> insert DV_HEAP_OK refusals"
proof -
  note wf' = wf_grown [OF goodD(2) [OF g] gr]
  have "heap_elems h' = heap_elems h" using gr by (simp add: grown_def)
  then show "good h' w'" "mset (heap_elems h') = mset (heap_elems h)"
    using wf' goodD(3) [OF g] hook_world_stays [OF wf'(2) goodD(1) [OF g]] by (simp_all add: good_def)
  show "st \<in> insert DV_HEAP_OK refusals" using gr by (auto simp: grown_def refusals_def)
qed

lemma heap_exec_simulates:
  assumes g: "good h w" and ok: "heap_op_ok (unat (hp_elem_size cfg)) ok x"
  shows "heap_simulates h x w"
proof (cases x)
  case (HReserve n)
  obtain st h' w' where c: "dv_heap_reserve (Some h) n w = Some (st, Some h', w')" "grown h w st h' w'"
    using dv_heap_reserve_spec [OF wf_heapD(2) [OF goodD(2) [OF g]], of n w] by blast
  then show ?thesis using HReserve grown_good [OF g c(2)] pq_ref.reserve
    by (intro heap_simulatesI [where r = "HStatus st" and h' = h' and w' = w']) (simp_all del: heap_op_defs)
next
  case HShrink
  obtain st h' w' where c: "dv_heap_shrink_to_fit (Some h) w = Some (st, Some h', w')" "grown h w st h' w'"
    using dv_heap_shrink_to_fit_spec [OF wf_heapD(2) [OF goodD(2) [OF g]], of w] by blast
  then show ?thesis using HShrink grown_good [OF g c(2)] pq_ref.shrink
    by (intro heap_simulatesI [where r = "HStatus st" and h' = h' and w' = w']) (simp_all del: heap_op_defs)
next
  case HClear
  have "good (h\<lparr>hp_size := 0\<rparr>) w" "heap_elems (h\<lparr>hp_size := 0\<rparr>) = []"
    using lower_wf [OF goodD(2) [OF g], of 0] goodD(1) [OF g] by (auto simp: good_def heap_ordered_def)
  then show ?thesis using HClear pq_ref.clear
    by (intro heap_simulatesI [where r = HUnit and h' = "h\<lparr>hp_size := 0\<rparr>" and w' = w]) simp_all
next
  case HReset
  note wf = goodD(2) [OF g]
  have "0 \<le> hp_size h" by simp
  note z = lower_wf [OF wf this]
  have fit: "heap_fits (hp_initial_capacity h) (hp_elem_size h)"
    using wf_heapD(5) [OF wf] by (simp add: heap_policy_def)
  have mx: "hp_initial_capacity h \<le> hp_max_capacity h" if "hp_growable h" "hp_max_capacity h \<noteq> 0"
    using wf_heapD(5) [OF wf] that by (simp add: heap_policy_def)
  let ?z = "h\<lparr>hp_size := 0\<rparr>"
  have gz: "good ?z w" using z goodD(1) [OF g] by (simp add: good_def heap_ordered_def)
  obtain st h' w' where c: "dv_heap_set_capacity ?z (hp_initial_capacity h) w = Some (st, h', w')"
    "grown ?z w st h' w'"
    using set_capacity_grown [OF wf_heapD(2) [OF z(1)], of "hp_initial_capacity h" w] mx by auto
  have "dv_heap_reset (Some h) w = Some (st, Some h', w')" using c by simp
  then show ?thesis using HReset grown_good [OF gz c(2)] z(2) pq_ref.reset
    by (intro heap_simulatesI [where r = "HStatus st" and h' = h' and w' = w']) (simp_all del: heap_op_defs)
qed (use g ok push_heap_simulates pop_heap_simulates peek_heap_simulates replace_heap_simulates
     heapify_heap_simulates build_heap_simulates push_bulk_heap_simulates pop_bulk_heap_simulates in auto)

lemma heap_run_simulates:
  assumes "good h w" "list_all (heap_op_ok (unat (hp_elem_size cfg)) ok) xs"
  shows "\<exists>rs h' w'. heap_run X h xs w = Some (rs, h', w') \<and> good h' w' \<and>
           pq_ref_run (unat (hp_elem_size cfg)) lt (mset (heap_elems h)) xs rs (mset (heap_elems h'))"
  using assms
proof (induction xs arbitrary: h w)
  case Nil
  then show ?case by (auto intro: pq_ref_run.stop)
next
  case (Cons x xs)
  obtain r h1 w1 where 1: "heap_exec X h x w = Some (r, h1, w1)" "good h1 w1"
    "pq_ref (unat (hp_elem_size cfg)) lt (mset (heap_elems h)) x r (mset (heap_elems h1))"
    using heap_exec_simulates [OF Cons.prems(1), of x] Cons.prems(2) by (auto simp: heap_simulates_def simp del: heap_exec.simps)
  obtain rs h2 w2 where "heap_run X h1 xs w1 = Some (rs, h2, w2)" "good h2 w2"
    "pq_ref_run (unat (hp_elem_size cfg)) lt (mset (heap_elems h1)) xs rs (mset (heap_elems h2))"
    using Cons.IH [OF 1(2)] Cons.prems(2) by auto
  then show ?case using 1 by (auto simp del: heap_exec.simps intro: pq_ref_run.step)
qed

end

end
