(* ===== verification/Heap_Index.thy ===== *)
theory Heap_Index
  imports Dv_Heap_Refine
begin

text \<open>
  The index map a client keeps through the move hook: \<open>indexed_heap\<close> is what the hook and the allocator have
  to do, and every operation of the heap that moves elements is shown to leave every element with its own
  index on record. \<open>heap_call_step\<close> is one call of any operation that changes the heap.
\<close>

section \<open>Reports of a run of pushes\<close>

lemma up_run_moves_in:
  "i + m \<le> length xs \<Longrightarrow> (j, e) \<in> set (up_run_moves lt xs i m) \<Longrightarrow> j < length xs \<and> e \<in> set xs"
proof (induction m arbitrary: xs i)
  case (Suc m)
  let ?x = "xs ! i"
  have i: "i < length xs" using Suc.prems(1) by simp
  then have x: "?x \<in> set xs" by simp
  from Suc.prems(2) consider "(j, e) \<in> set (up_moves lt xs i ?x)" | "(j, e) \<in> set (up_run_moves lt (sift_up lt xs i ?x) (Suc i) m)"
    by auto
  then show ?case
  proof cases
    case 1
    then show ?thesis using up_moves_in [OF i 1] x by auto
  next
    case 2
    have "j < length (sift_up lt xs i ?x) \<and> e \<in> set (sift_up lt xs i ?x)" by (rule Suc.IH [OF _ 2]) (use Suc.prems(1) in simp)
    then show ?thesis using set_sift_up [OF i, of lt ?x] x by auto
  qed
qed simp

lemma indexed_up_run:
  "distinct xs \<Longrightarrow> i + m \<le> length xs \<Longrightarrow> indexed f (take i xs) \<Longrightarrow>
   indexed (foldl report f (up_run_moves lt xs i m)) (take (i + m) (up_run lt xs i m))"
proof (induction m arbitrary: xs i f)
  case (Suc m)
  let ?x = "xs ! i" and ?zs = "take i xs"
  let ?ys = "sift_up lt xs i ?x"
  have i: "i < length xs" using Suc.prems(2) by simp
  have split: "xs = (?zs @ [?x]) @ drop (Suc i) xs" using i by (simp add: id_take_nth_drop)
  have len: "length ?zs = i" using i by simp
  have ys: "?ys = push_list lt ?zs ?x @ drop (Suc i) xs"
    using sift_up_append [of i "?zs @ [?x]" lt "drop (Suc i) xs" ?x] split len by (simp add: push_list_def)
  have mv: "up_moves lt xs i ?x = up_moves lt (?zs @ [?x]) (length ?zs) ?x"
    using up_moves_append [of i "?zs @ [?x]" lt "drop (Suc i) xs" ?x] split len by simp
  have new: "?x \<notin> set ?zs" using Suc.prems(1) split by (metis distinct_append not_distinct_conv_prefix)
  have "indexed (foldl report f (up_moves lt xs i ?x)) (push_list lt ?zs ?x)"
    unfolding mv by (rule indexed_push [OF Suc.prems(3) new])
  then have ix: "indexed (foldl report f (up_moves lt xs i ?x)) (take (Suc i) ?ys)" unfolding ys using len by simp
  have "mset ?ys = mset xs" using mset_sift_up [OF i, of lt ?x] by simp
  then have d: "distinct ?ys" using Suc.prems(1) by (metis mset_eq_imp_distinct_iff)
  have "Suc i + m \<le> length ?ys" using Suc.prems(2) by simp
  from Suc.IH [OF d this ix] show ?case by simp
qed simp

section \<open>Index maps kept by the move hook\<close>

text \<open>
  \<open>look w e\<close> is the index the owner has on record for \<open>e\<close>. The move hook records what it is told,
  and the allocator does not touch the record.
\<close>

locale indexed_heap = ordered_heap lt ok X cfg W
  for lt ok and X :: "'w extmem" and cfg :: "'w dv_heap_t" and W +
  fixes look :: "'w \<Rightarrow> byte list \<Rightarrow> nat"
  assumes recorded: "w \<in> W \<Longrightarrow> ok e \<Longrightarrow> i < 2 ^ 64 \<Longrightarrow> look (notified cfg w (i, e)) = report (look w) (i, e)"
    and allocator_blind: "hooks_keep {w. look w = f} (hp_allocator cfg)"
begin

lemma look_moves:
  assumes "\<forall>(i, e) \<in> set ms. i < 2 ^ 64 \<and> ok e" "w \<in> W"
  shows "look (foldl (notified cfg) w ms) = foldl report (look w) ms"
  using assms by (induction ms arbitrary: w) (auto simp: recorded notified_keeps)

lemma look_hooks: "hook_world cfg w w1 \<Longrightarrow> look w1 = look w"
proof -
  assume "hook_world cfg w w1"
  then have "w \<in> {v. look v = look w} \<and> hooks_keep {v. look v = look w} (hp_allocator cfg) \<longrightarrow> w1 \<in> {v. look v = look w}"
    unfolding hook_world_def by (rule spec)
  then show "look w1 = look w" using allocator_blind by simp
qed

lemma look_indexed:
  assumes "w \<in> W" "list_all ok xs" "ok x" "length xs < 2 ^ 64"
    and "\<forall>(j, e) \<in> set ms. j < length xs \<and> e \<in> insert x (set xs)"
  shows "look (foldl (notified cfg) w ms) = foldl report (look w) ms"
  using assms by (intro look_moves) (fastforce simp: list_all_iff)+

lemma elems_short: "length (heap_elems h) < 2 ^ 64"
  using unat_lt_64 by simp

text \<open>The index map is right, and every element is in the heap once.\<close>

definition mapped :: "'w dv_heap_t \<Rightarrow> 'w \<Rightarrow> bool" where
  "mapped h w \<longleftrightarrow> w \<in> W \<and> wf_heap h \<and> heap_ordered lt (heap_elems h) \<and>
     distinct (heap_elems h) \<and> indexed (look w) (heap_elems h)"

lemma push_mapped:
  assumes m: "mapped h w" and len: "unat (hp_elem_size h) \<le> length e"
    and x: "ok (take (unat (hp_elem_size h)) e)" and new: "take (unat (hp_elem_size h)) e \<notin> set (heap_elems h)"
    and call: "dv_heap_push X (Some h) (Some e) w = Some (status, Some h', w')"
  shows "mapped h' w'"
proof -
  let ?x = "take (unat (hp_elem_size h)) e" and ?xs = "heap_elems h"
  have wf: "wf_heap h" and w: "w \<in> W" and ix: "indexed (look w) ?xs" and d: "distinct ?xs"
    and ord: "heap_ordered lt ?xs"
    using m by (simp_all add: mapped_def)
  have p: "pushed h ?x w status h' w'" using push_refines [OF wf w len x] call by auto
  show ?thesis
  proof (cases "status = DV_HEAP_OK")
    case True
    then obtain w1 where el: "heap_elems h' = push_list lt ?xs ?x" and w1: "hook_world cfg w w1"
      and w': "w' = foldl (notified cfg) w1 (up_moves lt (?xs @ [?x]) (unat (hp_size h)) ?x)"
      and wf': "w' \<in> W" "wf_heap h'"
      using p by (auto simp: pushed_def)
    have short: "length (?xs @ [?x]) < 2 ^ 64"
      using unat_lt_64 [of "hp_size h'"] arg_cong [OF el, of length] by simp
    have lk: "look w' = foldl report (look w) (up_moves lt (?xs @ [?x]) (unat (hp_size h)) ?x)"
      unfolding w' look_hooks [OF w1, symmetric]
      by (rule look_indexed [OF hook_world_stays [OF w1 w] _ x short])
        (use wf_heapD(4) [OF wf] x up_moves_in [of "unat (hp_size h)" "?xs @ [?x]" _ _ lt ?x] in auto)
    have "indexed (look w') (heap_elems h')"
      unfolding lk el using indexed_push [OF ix new, of lt] by simp
    moreover have "distinct (heap_elems h')"
      unfolding el using d new mset_push_list [of lt ?xs ?x]
      by (metis distinct.simps(2) mset.simps(2) mset_eq_imp_distinct_iff)
    ultimately show ?thesis
      using wf' el heap_push_list(1) [OF wf_heapD(4) [OF wf] x ord] by (simp add: mapped_def)
  next
    case False
    then show ?thesis using p m look_hooks [of w w'] by (auto simp: pushed_def mapped_def)
  qed
qed

lemma remove_mapped:
  assumes m: "mapped h w" and i: "index < hp_size h" and out: "out_fits (unat (hp_elem_size h)) out"
    and call: "dv_heap_remove_at X (Some h) index out w = Some (status, Some h', out', w')"
  shows "mapped h' w'"
proof -
  let ?xs = "heap_elems h" and ?i = "unat index"
  have wf: "wf_heap h" and w: "w \<in> W" and ix: "indexed (look w) ?xs" and d: "distinct ?xs"
    and ord: "heap_ordered lt ?xs"
    using m by (simp_all add: mapped_def)
  have il: "?i < length ?xs" using i by (simp add: word_less_nat_alt)
  have r: "w' \<in> W" "wf_heap h'" "heap_elems h' = remove_list lt ?xs ?i"
    "w' = foldl (notified cfg) w (remove_moves lt ?xs ?i)"
    using remove_at_refines [OF wf w i out] call by auto
  have okx: "ok (?xs ! ?i)" using okD [OF wf_heapD(4) [OF wf] il] .
  have lk: "look w' = foldl report (look w) (remove_moves lt ?xs ?i)"
    unfolding r(4) by (rule look_indexed [OF w wf_heapD(4) [OF wf] okx elems_short])
      (use remove_moves_in [OF il] in blast)
  have "indexed (look w') (heap_elems h')" unfolding lk r(3) by (rule indexed_remove [OF ix d il])
  moreover have "distinct (heap_elems h')"
    unfolding r(3) using d mset_remove_list [OF il, of lt]
    by (metis distinct.simps(2) mset.simps(2) mset_eq_imp_distinct_iff)
  ultimately show ?thesis
    using r heap_remove_list(1) [OF wf_heapD(4) [OF wf] ord il] by (simp add: mapped_def)
qed

lemma out_fits_None: "out_fits n None"
  by (simp add: out_fits_def)

lemma pop_mapped:
  assumes m: "mapped h w" and call: "dv_heap_pop X (Some h) out w = Some (status, Some h', out', w')"
  shows "mapped h' w'"
proof (cases "hp_size h = 0")
  case True
  then show ?thesis using m call by simp
next
  case False
  have "wf_heap h" "w \<in> W" using m by (simp_all add: mapped_def)
  then show ?thesis
    using remove_mapped [OF m _ out_fits_None, of 0 status h' None w'] pop_is_remove [of h w None] False pop_unseen [OF call]
    by (metis word_gt_0)
qed

lemma pop_run_mapped_on: "mapped h w \<Longrightarrow> pop_run Y h n i dst w = Some (h', dst', w') \<Longrightarrow> Y = X \<Longrightarrow> mapped h' w'"
proof (induction Y h n i dst w arbitrary: h' dst' w' rule: pop_run.induct)
  case (1 Y h n i dst w)
  show ?case
  proof (cases "i < n")
    case True
    obtain st h1 out w1 where s: "dv_heap_pop Y (Some h) (map_option (drop (unat (i * hp_elem_size h))) dst) w = Some (st, Some h1, out, w1)"
      "pop_run Y h1 n (i + 1) (case (dst, out) of (Some d, Some d') \<Rightarrow> Some (take (unat (i * hp_elem_size h)) d @ d') | _ \<Rightarrow> None) w1 = Some (h', dst', w')"
      using 1(3) True by (subst (asm) pop_run.simps) (auto simp: bind_eq_Some_conv simp del: dv_heap_pop.simps)
    have "mapped h1 w1" using pop_mapped [OF 1(2)] s(1) 1(4) by simp
    then show ?thesis
      using 1(1) [OF True s(1) refl refl refl refl _ _ 1(4)] s(2) by (cases dst; cases out) simp_all
  next
    case False
    then show ?thesis using 1(2,3) by (subst (asm) pop_run.simps) simp
  qed
qed

lemmas pop_run_mapped = pop_run_mapped_on [OF _ _ refl]

lemma pop_bulk_mapped:
  assumes m: "mapped h w" and call: "dv_heap_pop_bulk X (Some h) out n w = Some (k, Some h', out', w')"
  shows "mapped h' w'"
  using call m by (auto simp: bind_eq_Some_conv Let_def split: if_splits dest: pop_run_mapped [OF m])

lemma updated_mapped:
  assumes wf: "wf_heap h" and w: "w \<in> W" and ix: "indexed (look w) (heap_elems h)" and d: "distinct (heap_elems h)"
    and hole: "hole_from lt 0 (heap_elems h) i" and x: "ok x"
    and new: "x \<notin> set (heap_elems h) \<or> x = heap_elems h ! i"
    and r: "w' \<in> W" "wf_heap h'" "heap_elems h' = update_list lt (heap_elems h) i x"
      "w' = foldl (notified cfg) w (update_moves lt (heap_elems h) i x)"
  shows "mapped h' w'"
proof -
  let ?xs = "heap_elems h"
  have il: "i < length ?xs" using hole_fromD(1) [OF hole] .
  have other: "?xs ! j \<noteq> x" if "j < length ?xs" "j \<noteq> i" for j
    using new that il d nth_eq_iff_index_eq [OF d] by (metis nth_mem)
  have lk: "look w' = foldl report (look w) (update_moves lt ?xs i x)"
    unfolding r(4) by (rule look_indexed [OF w wf_heapD(4) [OF wf] x elems_short])
      (use update_moves_in [OF il] in blast)
  have "indexed_but (look w) ?xs i x"
    using ix il other by (auto simp: indexed_but_def indexed_def)
  then have "indexed (look w') (heap_elems h')" unfolding lk r(3) by (rule indexed_update)
  moreover have "distinct (?xs[i := x])"
    using distinct_list_update [OF d, of x i] new by auto
  then have "distinct (heap_elems h')"
    unfolding r(3) using mset_update_list [OF il, of lt x] by (metis mset_eq_imp_distinct_iff)
  ultimately show ?thesis
    using r heap_update_list(1) [OF wf_heapD(4) [OF wf] x hole] by (simp add: mapped_def)
qed

text \<open>
  The heap may be out of order at the updated slot, as after the owner changed the key of an object behind
  a pointer.
\<close>

lemma update_hole_mapped:
  assumes wf: "wf_heap h" and w: "w \<in> W" and ix: "indexed (look w) (heap_elems h)" and d: "distinct (heap_elems h)"
    and i: "index < hp_size h" and hole: "hole_from lt 0 (heap_elems h) (unat index)"
    and len: "unat (hp_elem_size h) \<le> length e" and x: "ok (take (unat (hp_elem_size h)) e)"
    and new: "take (unat (hp_elem_size h)) e \<notin> set (heap_elems h) \<or>
              take (unat (hp_elem_size h)) e = heap_elems h ! unat index"
    and call: "dv_heap_update_at X (Some h) index (Some (Ext e)) w = Some (status, Some h', w')"
  shows "mapped h' w'"
  using updated_mapped [OF wf w ix d hole x new] update_at_refines [OF wf w i len x] call by auto

lemma mapped_hole:
  "mapped h w \<Longrightarrow> index < hp_size h \<Longrightarrow> hole_from lt 0 (heap_elems h) (unat index)"
  using hole_in_heap wf_heapD(4) by (simp add: mapped_def word_less_nat_alt)

lemma update_mapped:
  assumes m: "mapped h w" and len: "unat (hp_elem_size h) \<le> length e"
    and x: "ok (take (unat (hp_elem_size h)) e)"
    and new: "take (unat (hp_elem_size h)) e \<notin> set (heap_elems h) \<or>
              take (unat (hp_elem_size h)) e = heap_elems h ! unat index"
    and call: "dv_heap_update_at X (Some h) index (Some (Ext e)) w = Some (status, Some h', w')"
  shows "mapped h' w'"
proof (cases "index < hp_size h")
  case True
  show ?thesis using m mapped_hole [OF m True] by (intro update_hole_mapped [OF _ _ _ _ True _ len x new call]) (simp_all add: mapped_def)
next
  case False
  then show ?thesis using m call by (simp add: not_less)
qed

lemma replace_top_mapped:
  assumes m: "mapped h w" and len: "unat (hp_elem_size h) \<le> length e"
    and x: "ok (take (unat (hp_elem_size h)) e)"
    and new: "take (unat (hp_elem_size h)) e \<notin> set (heap_elems h)" and out: "out_fits (unat (hp_elem_size h)) out"
    and call: "dv_heap_replace_top X (Some h) (Some (Ext e)) out w = Some (status, Some h', out', w')"
  shows "mapped h' w'"
proof (cases "hp_size h = 0")
  case True
  then show ?thesis using m call by simp
next
  case False
  have wf: "wf_heap h" and w: "w \<in> W" and ix: "indexed (look w) (heap_elems h)" and d: "distinct (heap_elems h)"
    using m by (simp_all add: mapped_def)
  have hole: "hole_from lt 0 (heap_elems h) 0" using mapped_hole [OF m, of 0] False by (simp add: word_gt_0)
  show ?thesis
    using updated_mapped [OF wf w ix d hole x, of w' h'] new replace_top_refines [OF wf w False len x out] call by auto
qed

lemma heapify_mapped:
  assumes wf: "wf_heap h" and w: "w \<in> W" and d: "distinct (heap_elems h)"
    and call: "dv_heap_heapify X (Some h) w = Some (status, Some h', w')"
  shows "mapped h' w'"
proof -
  let ?xs = "heap_elems h"
  have r: "heapified h w h' w'" using heapify_refines [OF wf w] call by auto
  then have el: "heap_elems h' = heapify_list lt ?xs (length ?xs div 2)"
    and r': "w' \<in> W" "wf_heap h'" "w' = foldl (notified cfg) w (zip [0..<length (heap_elems h')] (heap_elems h'))"
    unfolding heapified_def by auto
  have d': "distinct (heap_elems h')"
    unfolding el using mset_heapify_list [of "length ?xs div 2" ?xs lt] d by (metis div_le_dividend mset_eq_imp_distinct_iff)
  have "look w' = foldl report (look w) (zip [0..<length (heap_elems h')] (heap_elems h'))"
    unfolding r'(3)
  proof (rule look_moves [OF _ w])
    show "\<forall>(i, e) \<in> set (zip [0..<length (heap_elems h')] (heap_elems h')). i < 2 ^ 64 \<and> ok e"
      using wf_heapD(4) [OF r'(2)] unat_lt_64 [of "hp_size h'"]
      by (auto simp: list_all_iff set_zip)
  qed
  then have "indexed (look w') (heap_elems h')" using indexed_all [OF d'] by simp
  moreover have "heap_ordered lt (heap_elems h')"
    unfolding el using heap_heapify_list [OF wf_heapD(4) [OF wf] _ heap_from_half] by simp
  ultimately show ?thesis using r' d' by (simp add: mapped_def)
qed

text \<open>The bulk operations.\<close>

lemma restored_mapped:
  assumes w: "w1 \<in> W" and xs: "list_all ok xs" "distinct xs" and el: "heap_elems h' = heapify_list lt xs (length xs div 2)"
    and r: "w' \<in> W" "wf_heap h'" "w' = foldl (notified cfg) w1 (zip [0..<length xs] (heap_elems h'))"
  shows "mapped h' w'"
proof -
  have d': "distinct (heap_elems h')"
    unfolding el using mset_heapify_list [of "length xs div 2" xs lt] xs(2) by (metis div_le_dividend mset_eq_imp_distinct_iff)
  have l: "length xs = length (heap_elems h')" unfolding el by simp
  have "look w' = foldl report (look w1) (zip [0..<length (heap_elems h')] (heap_elems h'))"
    unfolding r(3) l
  proof (rule look_moves [OF _ w])
    show "\<forall>(i, e) \<in> set (zip [0..<length (heap_elems h')] (heap_elems h')). i < 2 ^ 64 \<and> ok e"
      using wf_heapD(4) [OF r(2)] elems_short [of h'] by (auto simp: list_all_iff set_zip)
  qed
  then have "indexed (look w') (heap_elems h')" using indexed_all [OF d'] by simp
  moreover have "heap_ordered lt (heap_elems h')" unfolding el by (rule heapify_ordered [OF xs(1)])
  ultimately show ?thesis using r d' by (simp add: mapped_def)
qed

lemma hook_mapped:
  assumes m: "mapped h w" and r: "hook_world cfg w w'" "wf_heap h'" "heap_elems h' = heap_elems h"
  shows "mapped h' w'"
  using m r look_hooks [OF r(1)] hook_world_stays [OF r(1)] by (simp add: mapped_def)

lemma build_mapped:
  assumes m: "mapped h w" and len: "unat cnt * unat (hp_elem_size h) \<le> length es"
    and ok: "list_all ok (chunks (unat (hp_elem_size h)) es (unat cnt))" and d: "distinct (chunks (unat (hp_elem_size h)) es (unat cnt))"
    and call: "dv_heap_build X (Some h) (Some es) cnt w = Some (status, Some h', w')"
  shows "mapped h' w'"
proof -
  have wf: "wf_heap h" and w: "w \<in> W" using m by (simp_all add: mapped_def)
  have b: "built h (chunks (unat (hp_elem_size h)) es (unat cnt)) w status h' w'"
    using build_refines [OF wf w len ok] call by (auto simp del: dv_heap_build.simps)
  show ?thesis
  proof (cases "status = DV_HEAP_OK")
    case True
    then obtain w1 where w1: "hook_world cfg w w1"
      "w' = foldl (notified cfg) w1 (zip [0..<length (chunks (unat (hp_elem_size h)) es (unat cnt))] (heap_elems h'))"
      using b by (auto simp: built_def)
    show ?thesis
      by (rule restored_mapped [OF hook_world_stays [OF w1(1) w] ok d _ _ _ w1(2)]) (use b True in \<open>simp_all add: built_def\<close>)
  next
    case False
    then show ?thesis using b m by (auto simp: built_def intro: hook_mapped)
  qed
qed

lemma push_bulk_mapped:
  assumes m: "mapped h w" and len: "unat cnt * unat (hp_elem_size h) \<le> length es"
    and ok: "list_all ok (chunks (unat (hp_elem_size h)) es (unat cnt))"
    and d: "distinct (heap_elems h @ chunks (unat (hp_elem_size h)) es (unat cnt))"
    and call: "dv_heap_push_bulk X (Some h) (Some es) cnt w = Some (n, Some h', w')"
  shows "mapped h' w'"
proof -
  let ?cs = "chunks (unat (hp_elem_size h)) es (unat cnt)" and ?xs = "heap_elems h"
  let ?ys = "?xs @ take (unat n) ?cs"
  have wf: "wf_heap h" and w: "w \<in> W" and ix: "indexed (look w) ?xs" and ord: "heap_ordered lt ?xs"
    using m by (simp_all add: mapped_def)
  have b: "bulk_pushed h ?cs w n h' w'" using push_bulk_refines [OF wf w len ok] call by (auto simp del: dv_heap_push_bulk.simps)
  then have r: "w' \<in> W" "wf_heap h'" "unat n \<le> length ?cs" by (auto simp: bulk_pushed_def Let_def)
  obtain w1 where w1: "hook_world cfg w w1" and w': "w' = foldl (notified cfg) w1
           (if n = 0 then [] else if unat n \<ge> length ?xs then zip [0..<length ?ys] (heap_elems h')
            else up_run_moves lt ?ys (length ?xs) (unat n))"
    using b unfolding bulk_pushed_def Let_def by blast
  have el: "heap_elems h' = (if unat n \<ge> length ?xs then heapify_list lt ?ys (length ?ys div 2) else up_run lt ?ys (length ?xs) (unat n))"
    using b by (simp add: bulk_pushed_def Let_def)
  have w1W: "w1 \<in> W" by (rule hook_world_stays [OF w1 w])
  have oky: "list_all ok ?ys" using wf_heapD(4) [OF wf] ok by (auto simp: list_all_iff dest: in_set_takeD)
  have dy: "distinct ?ys" using d by (auto dest: in_set_takeD)
  consider "n = 0" | "n \<noteq> 0" "unat n \<ge> length ?xs" | "n \<noteq> 0" "\<not> unat n \<ge> length ?xs" by blast
  then show ?thesis
  proof cases
    case 1
    then have "heap_elems h' = ?xs" unfolding el by (cases "?xs = []") auto
    then show ?thesis using 1 w' w1 r(2) hook_mapped [OF m, of w1 h'] by simp
  next
    case 2
    show ?thesis by (rule restored_mapped [OF w1W oky dy _ r(1,2)]) (use 2 el w' in simp_all)
  next
    case 3
    have sum: "length ?xs + unat n = length ?ys" using r(3) by simp
    have el3: "heap_elems h' = up_run lt ?ys (length ?xs) (unat n)" using el 3 by simp
    have lk: "look w' = foldl report (look w1) (up_run_moves lt ?ys (length ?xs) (unat n))"
      using 3 unfolding w' if_not_P [OF 3(1)] if_not_P [OF 3(2)]
    proof (intro look_moves [OF _ w1W])
      have "length ?ys < 2 ^ 64" using elems_short [of h'] unfolding el3 by simp
      then show "\<forall>(i, e) \<in> set (up_run_moves lt ?ys (length ?xs) (unat n)). i < 2 ^ 64 \<and> ok e"
        using up_run_moves_in [where xs = ?ys and i = "length ?xs" and m = "unat n"] sum oky by (fastforce simp: list_all_iff)
    qed
    have "indexed (look w1) (take (length ?xs) ?ys)" using ix look_hooks [OF w1] by simp
    from indexed_up_run [OF dy _ this, of "unat n"] have "indexed (look w') (heap_elems h')"
      unfolding lk el3 using sum by simp
    moreover have "heap_ordered lt (heap_elems h')" unfolding el3 using heap_up_run [OF oky sum] ord by simp
    moreover have "distinct (heap_elems h')"
      unfolding el3 using mset_up_run [of "length ?xs" "unat n" ?ys lt] sum dy by (metis mset_eq_imp_distinct_iff order_refl)
    ultimately show ?thesis using r by (simp add: mapped_def)
  qed
qed

text \<open>The operations that move nothing.\<close>

lemma grown_mapped:
  assumes m: "mapped h w" and g: "grown h w st h' w'" shows "mapped h' w'"
proof (rule hook_mapped [OF m])
  have "wf_heap h" using m by (simp add: mapped_def)
  then show "hook_world cfg w w'" "wf_heap h'" using wf_grown [OF _ g] by blast+
  show "heap_elems h' = heap_elems h" using g by (simp add: grown_def)
qed

lemma cleared_mapped: "mapped h w \<Longrightarrow> mapped (h\<lparr>hp_size := 0\<rparr>) w"
  using lower_wf [of h 0] by (auto simp: mapped_def indexed_def heap_ordered_def)

lemma reset_mapped:
  assumes m: "mapped h w" and call: "dv_heap_reset (Some h) w = Some (status, Some h', w')"
  shows "mapped h' w'"
proof -
  let ?z = "h\<lparr>hp_size := 0\<rparr>"
  have wf: "wf_heap h" using m by (simp add: mapped_def)
  have mx: "hp_initial_capacity h \<le> hp_max_capacity h" if "hp_growable h" "hp_max_capacity h \<noteq> 0"
    using wf_heapD(5) [OF wf] that by (simp add: heap_policy_def)
  have "wf_heap ?z" using lower_wf(1) [OF wf, of 0] by simp
  then obtain st h1 w1 where c: "dv_heap_set_capacity ?z (hp_initial_capacity h) w = Some (st, h1, w1)" "grown ?z w st h1 w1"
    using set_capacity_grown [OF wf_heapD(2), of ?z "hp_initial_capacity h" w] mx by auto
  then have "h' = h1" "w' = w1" using call by simp_all
  then show ?thesis using grown_mapped [OF cleared_mapped [OF m] c(2)] by simp
qed

end

section \<open>Sequences of calls with an index map\<close>

text \<open>
  One call of an operation that changes the heap, failing or not. The side conditions are the caller's: arrays as
  long as the call says, admissible elements, elements that are not in the heap yet (or, for an update, the
  element that is there), room in an out buffer.
\<close>

inductive heap_call_step ::
  "'w extmem \<Rightarrow> (byte list \<Rightarrow> bool) \<Rightarrow> 'w dv_heap_t \<times> 'w \<Rightarrow> 'w dv_heap_t \<times> 'w \<Rightarrow> bool"
  for X :: "'w extmem" and ok :: "byte list \<Rightarrow> bool"
where
  push: "unat (hp_elem_size h) \<le> length e \<Longrightarrow> ok (take (unat (hp_elem_size h)) e) \<Longrightarrow>
     take (unat (hp_elem_size h)) e \<notin> set (heap_elems h) \<Longrightarrow>
     dv_heap_push X (Some h) (Some e) w = Some (status, Some h', w') \<Longrightarrow>
     heap_call_step X ok (h, w) (h', w')"
| pop: "dv_heap_pop X (Some h) out w = Some (status, Some h', out', w') \<Longrightarrow>
     heap_call_step X ok (h, w) (h', w')"
| replace_top: "unat (hp_elem_size h) \<le> length e \<Longrightarrow> ok (take (unat (hp_elem_size h)) e) \<Longrightarrow>
     take (unat (hp_elem_size h)) e \<notin> set (heap_elems h) \<Longrightarrow> out_fits (unat (hp_elem_size h)) out \<Longrightarrow>
     dv_heap_replace_top X (Some h) (Some (Ext e)) out w = Some (status, Some h', out', w') \<Longrightarrow>
     heap_call_step X ok (h, w) (h', w')"
| remove: "out_fits (unat (hp_elem_size h)) out \<Longrightarrow>
     dv_heap_remove_at X (Some h) index out w = Some (status, Some h', out', w') \<Longrightarrow>
     heap_call_step X ok (h, w) (h', w')"
| update: "unat (hp_elem_size h) \<le> length e \<Longrightarrow> ok (take (unat (hp_elem_size h)) e) \<Longrightarrow>
     take (unat (hp_elem_size h)) e \<notin> set (heap_elems h) \<or>
       take (unat (hp_elem_size h)) e = heap_elems h ! unat index \<Longrightarrow>
     dv_heap_update_at X (Some h) index (Some (Ext e)) w = Some (status, Some h', w') \<Longrightarrow>
     heap_call_step X ok (h, w) (h', w')"
| heapify: "dv_heap_heapify X (Some h) w = Some (status, Some h', w') \<Longrightarrow>
     heap_call_step X ok (h, w) (h', w')"
| build: "unat cnt * unat (hp_elem_size h) \<le> length es \<Longrightarrow> list_all ok (chunks (unat (hp_elem_size h)) es (unat cnt)) \<Longrightarrow>
     distinct (chunks (unat (hp_elem_size h)) es (unat cnt)) \<Longrightarrow>
     dv_heap_build X (Some h) (Some es) cnt w = Some (status, Some h', w') \<Longrightarrow>
     heap_call_step X ok (h, w) (h', w')"
| push_bulk: "unat cnt * unat (hp_elem_size h) \<le> length es \<Longrightarrow> list_all ok (chunks (unat (hp_elem_size h)) es (unat cnt)) \<Longrightarrow>
     distinct (heap_elems h @ chunks (unat (hp_elem_size h)) es (unat cnt)) \<Longrightarrow>
     dv_heap_push_bulk X (Some h) (Some es) cnt w = Some (n, Some h', w') \<Longrightarrow>
     heap_call_step X ok (h, w) (h', w')"
| pop_bulk: "dv_heap_pop_bulk X (Some h) out cnt w = Some (n, Some h', out', w') \<Longrightarrow>
     heap_call_step X ok (h, w) (h', w')"
| clear: "dv_heap_clear (Some h) = Some h' \<Longrightarrow> heap_call_step X ok (h, w) (h', w)"
| reset: "dv_heap_reset (Some h) w = Some (status, Some h', w') \<Longrightarrow> heap_call_step X ok (h, w) (h', w')"
| reserve: "dv_heap_reserve (Some h) cap w = Some (status, Some h', w') \<Longrightarrow> heap_call_step X ok (h, w) (h', w')"
| shrink: "dv_heap_shrink_to_fit (Some h) w = Some (status, Some h', w') \<Longrightarrow> heap_call_step X ok (h, w) (h', w')"

context indexed_heap
begin

lemma step_mapped:
  assumes "heap_call_step X ok s s'" and m: "mapped (fst s) (snd s)" shows "mapped (fst s') (snd s')"
  using assms(1)
proof cases
  case (push h e w status h' w')
  then show ?thesis using push_mapped [of h w e status h' w'] m by simp
next
  case (pop h out w status h' out' w')
  then show ?thesis using pop_mapped [OF _ pop(3)] m by simp
next
  case (replace_top h e out w status h' out' w')
  then show ?thesis using replace_top_mapped [OF _ replace_top(3-7)] m by simp
next
  case (remove h out index w status h' out' w')
  show ?thesis
  proof (cases "index < hp_size h")
    case True
    then show ?thesis using remove remove_mapped [OF _ True remove(3,4)] m by simp
  next
    case False
    then show ?thesis using remove m by (simp add: not_less)
  qed
next
  case (update h e index w status h' w')
  then show ?thesis using update_mapped [OF _ update(3-6)] m by simp
next
  case (heapify h w status h' w')
  then show ?thesis using heapify_mapped [of h w status h' w'] m by (simp add: mapped_def)
next
  case (build cnt h es w status h' w')
  then show ?thesis using build_mapped [OF _ build(3-6)] m by simp
next
  case (push_bulk cnt h es w n h' w')
  then show ?thesis using push_bulk_mapped [OF _ push_bulk(3-6)] m by simp
next
  case (pop_bulk h out cnt w n h' out' w')
  then show ?thesis using pop_bulk_mapped [OF _ pop_bulk(3)] m by simp
next
  case (clear h h' w)
  then show ?thesis using cleared_mapped [of h w] m by simp
next
  case (reset h w status h' w')
  then show ?thesis using reset_mapped [OF _ reset(3)] m by simp
next
  case (reserve h cap w status h' w')
  have wf: "wf_heap h" using m reserve(1) by (simp add: mapped_def)
  have "grown h w status h' w'" using dv_heap_reserve_spec [OF wf_heapD(2) [OF wf], of cap w] reserve(3) by (auto simp del: dv_heap_reserve.simps)
  then show ?thesis using grown_mapped [of h w status h' w'] m reserve(1,2) by simp
next
  case (shrink h w status h' w')
  have wf: "wf_heap h" using m shrink(1) by (simp add: mapped_def)
  have "grown h w status h' w'" using dv_heap_shrink_to_fit_spec [OF wf_heapD(2) [OF wf], of w] shrink(3) by (auto simp del: dv_heap_shrink_to_fit.simps)
  then show ?thesis using grown_mapped [of h w status h' w'] m shrink(1,2) by simp
qed

lemma run_mapped:
  assumes "(heap_call_step X ok)\<^sup>*\<^sup>* s s'" "mapped (fst s) (snd s)" shows "mapped (fst s') (snd s')"
  using assms by (induction rule: rtranclp_induct) (auto intro: step_mapped)

end

end
