(* ===== verification/Heap_Nodes.thy ===== *)
theory Heap_Nodes
  imports Heap_Index
begin

text \<open>
  Two concrete heaps on which the interfaces are interpreted: a min-heap of unsigned 64-bit keys
  on the C heap \<open>bump_libc\<close>, and the heap of node pointers of \<open>src/heap/unit_tests.c\<close>, whose keys
  live in the nodes and whose move hook records each node's index.
\<close>

section \<open>Bytes of a word and back\<close>

lemma le_bytes_load:
  assumes "length bs = n" "LENGTH('a) = 8 * n"
  shows "le_bytes n (le_load bs :: 'a::len word) = bs"
proof (rule nth_equalityI)
  fix i assume "i < length (le_bytes n (le_load bs :: 'a word))"
  then have i: "i < n" by simp
  have "bit (le_bytes n (le_load bs :: 'a word) ! i) k = bit (bs ! i) k" if k: "k < 8" for k
  proof -
    have "8 * i + k < LENGTH('a)" using i k assms(2) by simp
    then show ?thesis
      using i k assms by (simp add: le_bytes_def bit_simps bit_le_load)
  qed
  then show "le_bytes n (le_load bs :: 'a word) ! i = bs ! i"
    by (intro bit_word_eqI) simp
qed (simp add: assms)

lemma len64_bytes: "LENGTH(64) = 8 * 8"
  by simp

lemma le_load_inj:
  "length a = 8 \<Longrightarrow> length b = 8 \<Longrightarrow> (le_load a :: 64 word) = le_load b \<Longrightarrow> a = b"
  by (metis le_bytes_load len64_bytes)

section \<open>A heap of unsigned keys\<close>

definition demo_heap_cfg :: "(nat \<times> nat) dv_heap_config_t" where
  "demo_heap_cfg = \<lparr>hcf_elem_size = 8, hcf_elem_align = 8, hcf_initial_capacity = 2,
     hcf_max_capacity = 0, hcf_growable = True, hcf_cache_aligned = False, hcf_order = DV_HEAP_MIN,
     hcf_key_type = DV_HEAP_KEY_U64, hcf_key_offset = 0, hcf_key_indirect = False,
     hcf_compare = None, hcf_compare_user_data = 0, hcf_on_move = None, hcf_move_user_data = 0\<rparr>"

definition demo_heap :: "(nat \<times> nat) dv_heap_t" where
  "demo_heap = (heap_configured demo_heap_cfg (heap_hooks bump_libc None))
     \<lparr>hp_buffer := Some \<lparr>blk_addr = 16, blk_data = replicate 24 0xCD\<rparr>, hp_capacity := 2\<rparr>"

definition no_mem :: "'w extmem" where
  "no_mem = (\<lambda>w p n. None)"

lemma demo_heap_cfg_ok: "heap_config_ok demo_heap_cfg None"
  unfolding heap_config_ok_def heap_elem_align_def demo_heap_cfg_def
  by (auto simp: layout_simps intro!: exI [of _ 3])

lemmas heap_eval = dv_heap_set_capacity_def dv_heap_bytes_for_def resize_mem_def
  dv_heap_default_allocator_def dv_heap_default_alloc_def bump_libc_def bump_alloc_def
  heap_configured_def heap_elem_align_def heap_align_def heap_hooks_def DV_HEAP_MALLOC_ALIGN_def
  layout_simps Let_def

lemma demo_heap_set_capacity:
  "dv_heap_set_capacity (heap_configured demo_heap_cfg (heap_hooks bump_libc None)) 2 (4096, 1) =
     Some (DV_HEAP_OK, demo_heap, (4096, 40))"
  by (simp add: heap_eval demo_heap_def demo_heap_cfg_def)

lemma demo_heap_init:
  "dv_heap_init bump_libc (Some h) (Some demo_heap_cfg) None (4096, 1) =
     Some (DV_HEAP_OK, Some demo_heap, (4096, 40))"
  using demo_heap_set_capacity by (subst dv_heap_init_valid [OF demo_heap_cfg_ok]) (simp add: demo_heap_cfg_def)

lemma demo_heap_inv: "heap_inv demo_heap" "heap_elems demo_heap = []"
  using dv_heap_init_spec [OF bump.libc_heap_axioms demo_heap_cfg_ok, of zero_heap "(4096, 1)"]
  unfolding demo_heap_init by simp_all

lemma demo_heap_fields:
  "hp_elem_size demo_heap = 8" "hp_size demo_heap = 0" "hp_capacity demo_heap = 2"
  "hp_growable demo_heap" "hp_order demo_heap = DV_HEAP_MIN" "hp_key_type demo_heap = DV_HEAP_KEY_U64"
  "hp_key_offset demo_heap = 0" "\<not> hp_key_indirect demo_heap" "hp_max_capacity demo_heap = 0"
  by (simp_all add: demo_heap_def heap_configured_def demo_heap_cfg_def)

interpretation demo_buffer: heap_buffer demo_heap
  using demo_heap_inv by unfold_locales (simp_all add: heap_inv_def demo_heap_fields)

interpretation demo: direct_heap demo_heap
  by unfold_locales (simp_all add: demo_heap_fields)

abbreviation demo_lt :: "byte list \<Rightarrow> byte list \<Rightarrow> bool" where
  "demo_lt \<equiv> key_before demo_heap (direct_key demo_heap)"

lemma demo_ok: "direct_ok demo_heap (le_bytes 8 (k :: u64))"
  by (simp add: direct_ok_def demo_heap_fields)

section \<open>The nodes of the unit tests\<close>

record node_world =
  nw_heap :: "nat \<times> nat"
  nw_key :: "ptr \<Rightarrow> u64"
  nw_index :: "ptr \<Rightarrow> size_t"
  nw_moves :: size_t

text \<open>\<open>node_on_move\<close>: the slot holds the node's address; the node records the index.\<close>

definition node_on_move :: "node_world dv_heap_move_fn" where
  "node_on_move slot index user_data w =
     w\<lparr>nw_index := (nw_index w)(le_load slot := index),
       nw_moves := (if user_data \<noteq> 0 then nw_moves w + 1 else nw_moves w)\<rparr>"

text \<open>Reading the key, the first member of a node.\<close>

definition node_mem :: "node_world extmem" where
  "node_mem w p n = (if n = 8 then Some (le_bytes 8 (nw_key w p)) else None)"

definition node_alloc :: "(nat \<times> nat \<Rightarrow> block option \<times> (nat \<times> nat)) \<Rightarrow> node_world \<Rightarrow> block option \<times> node_world" where
  "node_alloc f w = (let (r, a) = f (nw_heap w) in (r, w\<lparr>nw_heap := a\<rparr>))"

definition node_libc :: "node_world libc" where
  "node_libc = \<lparr>
     c_malloc = (\<lambda>n. node_alloc (c_malloc bump_libc n)),
     c_aligned_alloc = (\<lambda>al n. node_alloc (c_aligned_alloc bump_libc al n)),
     c_realloc = (\<lambda>b n. node_alloc (c_realloc bump_libc b n)),
     c_free = (\<lambda>b w. w)\<rparr>"

interpretation node: libc_heap node_libc
  by unfold_locales
    (auto simp: node_libc_def node_alloc_def Let_def split: prod.splits
      dest: bump.malloc_length bump.aligned_alloc_length bump.aligned_alloc_addr bump.realloc_length bump.realloc_keeps)

definition node_heap_config :: "ptr \<Rightarrow> node_world dv_heap_config_t" where
  "node_heap_config moves = \<lparr>hcf_elem_size = sizeof_ptr, hcf_elem_align = alignof_ptr,
     hcf_initial_capacity = 0, hcf_max_capacity = 0, hcf_growable = True, hcf_cache_aligned = False,
     hcf_order = DV_HEAP_MIN, hcf_key_type = DV_HEAP_KEY_U64, hcf_key_offset = 0, hcf_key_indirect = True,
     hcf_compare = None, hcf_compare_user_data = 0, hcf_on_move = Some node_on_move,
     hcf_move_user_data = moves\<rparr>"

definition node_heap :: "ptr \<Rightarrow> node_world dv_heap_t" where
  "node_heap moves = heap_configured (node_heap_config moves) (dv_heap_default_allocator node_libc)"

lemma node_config_ok: "heap_config_ok (node_heap_config m) None"
  unfolding heap_config_ok_def heap_elem_align_def heap_align_def node_heap_config_def
  by (auto simp: layout_simps intro!: exI [of _ 3])

lemma node_init:
  "dv_heap_init node_libc (Some h) (Some (node_heap_config m)) None w = Some (DV_HEAP_OK, Some (node_heap m), w)"
  by (subst dv_heap_init_valid [OF node_config_ok]) (simp add: node_heap_def node_heap_config_def heap_hooks_def)

lemma node_heap_inv: "heap_inv (node_heap m)" "heap_elems (node_heap m) = []"
  using dv_heap_init_spec [OF node.libc_heap_axioms node_config_ok [of m], of zero_heap "\<lparr>nw_heap = (0, 0), nw_key = \<lambda>p. 0, nw_index = \<lambda>p. 0, nw_moves = 0\<rparr>"]
  unfolding node_init by simp_all

lemma node_heap_fields:
  "hp_elem_size (node_heap m) = 8" "hp_key_indirect (node_heap m)" "hp_key_type (node_heap m) = DV_HEAP_KEY_U64"
  "hp_key_offset (node_heap m) = 0" "hp_on_move (node_heap m) = Some node_on_move"
  "hp_move_user_data (node_heap m) = m" "hp_allocator (node_heap m) = dv_heap_default_allocator node_libc"
  by (simp_all add: node_heap_def heap_configured_def node_heap_config_def layout_simps)

text \<open>The default hooks on this C heap change nothing of the nodes.\<close>

lemma node_alloc_nodes: "node_alloc f w = (r, w') \<Longrightarrow> nw_key w' = nw_key w \<and> nw_index w' = nw_index w"
  by (auto simp: node_alloc_def Let_def split: prod.splits)

lemma node_hooks_keep:
  assumes "\<And>w w'. nw_key w' = nw_key w \<Longrightarrow> nw_index w' = nw_index w \<Longrightarrow> w \<in> W \<Longrightarrow> w' \<in> W"
  shows "hooks_keep W (dv_heap_default_allocator node_libc)"
proof -
  have a: "w' \<in> W" if "w \<in> W" "node_alloc f w = (r, w')" for f w r w'
    using assms node_alloc_nodes [OF that(2)] that(1) by blast
  show ?thesis
    unfolding hooks_keep_def
    by (auto simp: dv_heap_default_allocator_def dv_heap_default_alloc_def dv_heap_default_realloc_def
        dv_heap_default_free_def dv_heap_over_aligned_alloc_def dv_heap_over_aligned_free_def node_libc_def
        bind_eq_Some_conv dest: a split: if_splits option.splits prod.splits)
qed

interpretation nodes: indirect_heap "node_heap m" node_mem UNIV "\<lambda>p. le_bytes 8 (K p)" "{w. nw_key w = K}" for m K
proof unfold_locales
  fix mv and w :: node_world and e i
  assume "hp_on_move (node_heap m) = Some mv" "w \<in> {w. nw_key w = K}"
  then show "mv e i (hp_move_user_data (node_heap m)) w \<in> {w. nw_key w = K}"
    by (auto simp: node_heap_fields node_on_move_def)
next
  show "hooks_keep {w. nw_key w = K} (hp_allocator (node_heap m))"
    unfolding node_heap_fields by (rule node_hooks_keep) simp
qed (simp_all add: node_heap_fields node_mem_def layout_simps)

text \<open>The index on record for an element is the one in its node.\<close>

definition node_look :: "node_world \<Rightarrow> byte list \<Rightarrow> nat" where
  "node_look w e = (if length e = 8 then unat (nw_index w (le_load e)) else 0)"

interpretation nodes: indexed_heap "key_before (node_heap m) (\<lambda>a. le_bytes 8 (K (le_load a :: ptr)))" "ptr_ok UNIV"
  node_mem "node_heap m" "{w. nw_key w = K}" node_look for m K
proof unfold_locales
  fix w :: node_world and e and i :: nat
  assume e: "ptr_ok UNIV e" and i: "i < 2 ^ 64"
  have "unat (of_nat i :: size_t) = i" using i by (simp add: unat_of_nat)
  then show "node_look (notified (node_heap m) w (i, e)) = report (node_look w) (i, e)"
    using e le_load_inj
    by (auto simp: fun_eq_iff node_look_def notified_def node_heap_fields node_on_move_def report_def ptr_ok_def)
next
  fix f
  show "hooks_keep {w. node_look w = f} (hp_allocator (node_heap m))"
    unfolding node_heap_fields by (rule node_hooks_keep) (auto simp: node_look_def [abs_def])
qed

section \<open>Nodes whose keys change\<close>

text \<open>
  The tests change the key of a node in the heap and then call \<open>dv_heap_update_at\<close> with the index the node has
  on record; the key of a node outside the heap may change at any time. \<open>node_step\<close> is one of these, or any
  call of the heap.
\<close>

definition set_key :: "ptr \<Rightarrow> u64 \<Rightarrow> node_world \<Rightarrow> node_world" where
  "set_key p k w = w\<lparr>nw_key := (nw_key w)(p := k)\<rparr>"

inductive node_step :: "node_world dv_heap_t \<times> node_world \<Rightarrow> node_world dv_heap_t \<times> node_world \<Rightarrow> bool" where
  heap_call: "heap_call_step node_mem (ptr_ok UNIV) s s' \<Longrightarrow> node_step s s'"
| rekey: "le_bytes 8 p \<in> set (heap_elems h) \<Longrightarrow>
     dv_heap_update_at node_mem (Some h) (nw_index w p) (Some (Ext (le_bytes 8 p))) (set_key p k w) = Some (status, Some h', w') \<Longrightarrow>
     node_step (h, w) (h', w')"
| rekey_outside: "le_bytes 8 p \<notin> set (heap_elems h) \<Longrightarrow> node_step (h, w) (h, set_key p k w)"

abbreviation node_lt :: "ptr \<Rightarrow> (ptr \<Rightarrow> u64) \<Rightarrow> byte list \<Rightarrow> byte list \<Rightarrow> bool" where
  "node_lt m K \<equiv> key_before (node_heap m) (\<lambda>a. le_bytes 8 (K (le_load a :: ptr)))"

lemma node_lt_set:
  "ptr_ok UNIV a \<Longrightarrow> a \<noteq> le_bytes 8 p \<Longrightarrow> ptr_ok UNIV b \<Longrightarrow> b \<noteq> le_bytes 8 p \<Longrightarrow>
   node_lt m (K(p := k)) a b \<longleftrightarrow> node_lt m K a b"
  using le_load_inj [of a "le_bytes 8 p"] le_load_inj [of b "le_bytes 8 p"]
  by (auto simp: key_before_def ptr_ok_def le_load_bytes)

lemma node_look_set: "node_look (set_key p k w) = node_look w"
  by (simp add: fun_eq_iff set_key_def node_look_def)

lemma hole_from_other:
  assumes hole: "hole_from lt 0 xs i" and d: "distinct xs"
    and other: "\<And>x y. x \<in> set xs \<Longrightarrow> y \<in> set xs \<Longrightarrow> x \<noteq> xs ! i \<Longrightarrow> y \<noteq> xs ! i \<Longrightarrow> lt' x y = lt x y"
  shows "hole_from lt' 0 xs i"
proof -
  have i: "i < length xs" using hole_fromD(1) [OF hole] .
  have o: "lt' (xs ! j) (xs ! k) = lt (xs ! j) (xs ! k)" if "j < length xs" "k < length xs" "j \<noteq> i" "k \<noteq> i" for j k
    using other that nth_eq_iff_index_eq [OF d] i by simp
  show ?thesis
    unfolding hole_from_def
  proof (intro conjI allI impI)
    fix j assume j: "j < length xs" and c: "0 < j \<and> j \<noteq> i \<and> parent j \<noteq> i \<and> 0 \<le> parent j"
    then have "parent j < length xs" by auto
    then show "\<not> lt' (xs ! j) (xs ! parent j)" using o [of j "parent j"] hole_fromD(3) [OF hole j] j c by simp
  next
    fix j assume j: "j < length xs" and c: "0 < j \<and> parent j = i \<and> 0 < i \<and> 0 \<le> parent i"
    then have "parent i < length xs" "parent i \<noteq> i" "j \<noteq> i" using i by presburger+
    then show "\<not> lt' (xs ! j) (xs ! parent i)" using o [of j "parent i"] hole_fromD(4) [OF hole j] j c by simp
  qed (use i in simp_all)
qed

definition node_mapped :: "ptr \<Rightarrow> node_world dv_heap_t \<times> node_world \<Rightarrow> bool" where
  "node_mapped m s \<longleftrightarrow> nodes.mapped m (nw_key (snd s)) (fst s) (snd s)"

lemma node_mappedI: "nodes.mapped m K h w \<Longrightarrow> node_mapped m (h, w)"
  by (simp add: node_mapped_def nodes.mapped_def)

lemma node_mapped_start: "node_mapped m (node_heap m, w)"
  by (simp add: node_mapped_def nodes.mapped_def nodes.ordered.wf_heap_def node_heap_inv heap_ordered_def indexed_def)

lemma node_mapped_elem:
  assumes "node_mapped m (h, w)" "i < hp_size h"
  shows "ptr_ok UNIV (heap_elems h ! unat i)" "nw_index w (le_load (heap_elems h ! unat i)) = i"
proof -
  have ok: "list_all (ptr_ok UNIV) (heap_elems h)" and ix: "indexed (node_look w) (heap_elems h)"
    using assms(1) by (simp_all add: node_mapped_def nodes.mapped_def nodes.ordered.wf_heap_def)
  show o: "ptr_ok UNIV (heap_elems h ! unat i)" using ok assms(2) by (simp add: list_all_length word_less_nat_alt)
  have "length (heap_elems h ! unat i) = 8" using o by (simp add: ptr_ok_def)
  then show "nw_index w (le_load (heap_elems h ! unat i)) = i"
    using ix assms(2) by (auto simp: indexed_def node_look_def word_less_nat_alt word_unat_eq_iff)
qed

lemma node_elem_index:
  assumes m: "node_mapped m (h, w)" and p: "le_bytes 8 p \<in> set (heap_elems h)"
  shows "nw_index w p < hp_size h" "heap_elems h ! unat (nw_index w p) = le_bytes 8 p"
proof -
  obtain j where j: "j < length (heap_elems h)" "heap_elems h ! j = le_bytes 8 p" using p by (auto simp: in_set_conv_nth)
  let ?i = "of_nat j :: size_t"
  have u: "unat ?i = j" using j(1) unat_lt_64 [of "hp_size h"] by (simp add: unat_of_nat)
  have i: "?i < hp_size h" using j(1) u by (simp add: word_less_nat_alt)
  have "nw_index w p = ?i" using node_mapped_elem(2) [OF m i] j(2) u by (simp add: le_load_bytes)
  then show "nw_index w p < hp_size h" "heap_elems h ! unat (nw_index w p) = le_bytes 8 p" using i j(2) u by simp_all
qed

lemma node_rekey:
  assumes m: "node_mapped m (h, w)" and p: "le_bytes 8 p \<in> set (heap_elems h)"
    and call: "dv_heap_update_at node_mem (Some h) (nw_index w p) (Some (Ext (le_bytes 8 p))) (set_key p k w) = Some (status, Some h', w')"
  shows "node_mapped m (h', w')"
proof -
  let ?i = "nw_index w p" and ?K = "nw_key w" and ?K' = "(nw_key w)(p := k)"
  note i = node_elem_index [OF m p]
  have mm: "nodes.mapped m ?K h w" using m by (simp add: node_mapped_def)
  have wf: "nodes.ordered.wf_heap m h" and d: "distinct (heap_elems h)" and ix: "indexed (node_look w) (heap_elems h)"
    using mm by (simp_all add: nodes.mapped_def)
  have ok: "ptr_ok UNIV x" if "x \<in> set (heap_elems h)" for x
    using wf that by (simp add: nodes.ordered.wf_heap_def list_all_iff)
  have hole: "hole_from (node_lt m ?K') 0 (heap_elems h) (unat ?i)"
    by (rule hole_from_other [OF nodes.mapped_hole [OF mm i(1)] d]) (simp add: i(2) node_lt_set ok del: fun_upd_apply)
  have es: "unat (hp_elem_size h) = 8"
    using wf same_setupD(1) [of "node_heap m" h] by (simp add: nodes.ordered.wf_heap_def node_heap_fields)
  have "nodes.mapped m ?K' h' w'"
  proof (rule nodes.update_hole_mapped [OF wf _ _ d i(1) hole _ _ _ call])
    show "indexed (node_look (set_key p k w)) (heap_elems h)" using ix by (simp add: node_look_set)
  qed (use i(2) ok [OF p] in \<open>simp_all add: es set_key_def fun_upd_def\<close>)
  then show ?thesis by (rule node_mappedI)
qed

lemma node_rekey_outside:
  assumes m: "node_mapped m (h, w)" and p: "le_bytes 8 p \<notin> set (heap_elems h)" shows "node_mapped m (h, set_key p k w)"
proof -
  have mm: "nodes.mapped m (nw_key w) h w" using m by (simp add: node_mapped_def)
  have ok: "ptr_ok UNIV x" "x \<noteq> le_bytes 8 p" if "x \<in> set (heap_elems h)" for x
    using mm p that by (auto simp: nodes.mapped_def nodes.ordered.wf_heap_def list_all_iff)
  have "heap_ordered (node_lt m ((nw_key w)(p := k))) (heap_elems h)"
    unfolding heap_ordered_def
  proof (intro allI impI)
    fix i assume i: "i < length (heap_elems h)" "0 < i"
    then have "parent i < length (heap_elems h)" by auto
    with i show "\<not> node_lt m ((nw_key w)(p := k)) (heap_elems h ! i) (heap_elems h ! parent i)"
      using mm ok by (simp add: node_lt_set nodes.mapped_def heap_ordered_def del: fun_upd_apply)
  qed
  moreover have "nw_key (set_key p k w) = (nw_key w)(p := k)" by (simp add: set_key_def)
  ultimately show ?thesis using mm by (simp add: node_look_set node_mapped_def nodes.mapped_def del: fun_upd_apply)
qed

lemma node_step_mapped: "node_step s s' \<Longrightarrow> node_mapped m s \<Longrightarrow> node_mapped m s'"
proof (induction rule: node_step.induct)
  case (heap_call s s')
  then have "nodes.mapped m (nw_key (snd s)) (fst s') (snd s')" using nodes.step_mapped [of s s'] by (simp add: node_mapped_def)
  then show ?case using node_mappedI [of m _ "fst s'" "snd s'"] by simp
qed (blast intro: node_rekey node_rekey_outside)+

lemma node_run_mapped: "node_step\<^sup>*\<^sup>* s s' \<Longrightarrow> node_mapped m s \<Longrightarrow> node_mapped m s'"
  by (induction rule: rtranclp_induct) (auto intro: node_step_mapped)

end
