(* ===== verification/Heap_Alias.thy ===== *)
theory Heap_Alias
  imports Dv_Heap_Ops
begin

text \<open>
  The sift loops read the carried element through the caller's pointer after they have overwritten a slot.
  When the pointer is the updated slot itself, as \<open>dv_heap_at\<close> returns it, the first copy into the slot
  overwrites the element: from then on the loop carries the copied neighbour and stops beside it. The
  outcome is computed here for any heap, any slot and any order.
\<close>

text \<open>The slot whose element ends up in slot \<open>i\<close>: the parent, the better child, or the slot itself.\<close>

definition alias_source :: "('a \<Rightarrow> 'a \<Rightarrow> bool) \<Rightarrow> 'a list \<Rightarrow> nat \<Rightarrow> nat" where
  "alias_source lt xs i =
     (if 0 < i \<and> lt (xs ! i) (xs ! parent i) then parent i
      else if 2 * i + 1 < length xs \<and> lt (xs ! best_child lt xs i) (xs ! i) then best_child lt xs i
      else i)"

context heap_order
begin

text \<open>A copy of the parent, or of the better child, in the slot that may be out of order restores heap order.\<close>

lemma parent_copy_ordered:
  assumes ok: "list_all ok xs" and hole: "hole_from lt 0 xs i" and i: "0 < i"
  shows "heap_ordered lt (xs[i := xs ! parent i])"
  unfolding heap_ordered_def
proof (intro allI impI)
  fix j assume j: "j < length (xs[i := xs ! parent i])" "0 < j"
  then have len: "j < length xs" "parent j < length xs" by auto
  have p: "parent i \<noteq> i" using parent_less [OF i] by simp
  consider "j = i" | "parent j = i" "j \<noteq> i" | "j \<noteq> i" "parent j \<noteq> i" by blast
  then show "\<not> lt (xs[i := xs ! parent i] ! j) (xs[i := xs ! parent i] ! parent j)"
  proof cases
    case 1
    then show ?thesis using irrefl [OF okD [OF ok len(2)]] len p by simp
  next
    case 2
    then show ?thesis using hole_fromD(4) [OF hole len(1) j(2) _ i] len by simp
  next
    case 3
    then show ?thesis using hole_fromD(3) [OF hole len(1) j(2)] by simp
  qed
qed

lemma child_copy_ordered:
  assumes ok: "list_all ok xs" and hole: "hole_from lt 0 xs i" and c: "2 * i + 1 < length xs"
  shows "heap_ordered lt (xs[i := xs ! best_child lt xs i])"
  unfolding heap_ordered_def
proof (intro allI impI)
  let ?c = "best_child lt xs i"
  fix j assume j: "j < length (xs[i := xs ! ?c])" "0 < j"
  then have len: "j < length xs" "parent j < length xs" by auto
  have cl: "?c < length xs" using best_child_bounds(2) c by blast
  consider "j = i" | "parent j = i" "j \<noteq> i" | "j \<noteq> i" "parent j \<noteq> i" by blast
  then show "\<not> lt (xs[i := xs ! ?c] ! j) (xs[i := xs ! ?c] ! parent j)"
  proof cases
    case 1
    then have "parent i \<noteq> i" "0 < i" using parent_less [OF j(2)] j(2) by simp_all
    then show ?thesis using 1 hole_fromD(4) [OF hole cl parent_best_child(2) parent_best_child(1)] len by simp
  next
    case 2
    then show ?thesis using best_child_best [OF ok _ len(1) 2(1)] len j by simp
  next
    case 3
    then show ?thesis using hole_fromD(3) [OF hole len(1) j(2)] by simp
  qed
qed

lemma unmoved_ordered:
  assumes "list_all ok xs" "hole_from lt 0 xs i" "\<not> (0 < i \<and> lt (xs ! i) (xs ! parent i))"
    and "\<not> (2 * i + 1 < length xs \<and> lt (xs ! best_child lt xs i) (xs ! i))"
  shows "heap_ordered lt xs"
  using down_stop [OF assms(1) okD [OF assms(1)] assms(2), of i] assms hole_fromD(1) [OF assms(2)]
  by (auto simp: heap_from_0)

lemma alias_ordered:
  "list_all ok xs \<Longrightarrow> hole_from lt 0 xs i \<Longrightarrow> heap_ordered lt (xs[i := xs ! alias_source lt xs i])"
  using parent_copy_ordered [of xs i] child_copy_ordered [of xs i] unmoved_ordered [of xs i]
  by (cases "0 < i \<and> lt (xs ! i) (xs ! parent i)";
      cases "2 * i + 1 < length xs \<and> lt (xs ! best_child lt xs i) (xs ! i)") (simp_all add: alias_source_def)

text \<open>The source is another slot, with another element, exactly when the list is out of order.\<close>

lemma alias_source_moves:
  assumes ok: "list_all ok xs" and i: "i < length xs" and no: "\<not> heap_ordered lt xs" and hole: "hole_from lt 0 xs i"
  shows "alias_source lt xs i < length xs" "xs ! alias_source lt xs i \<noteq> xs ! i"
    and "alias_source lt xs i = parent i \<and> 0 < i \<or> parent (alias_source lt xs i) = i"
proof -
  have m: "0 < i \<and> lt (xs ! i) (xs ! parent i) \<or> 2 * i + 1 < length xs \<and> lt (xs ! best_child lt xs i) (xs ! i)"
    using unmoved_ordered [OF ok hole] no by blast
  have c: "parent (best_child lt xs i) = i" by (rule parent_best_child)
  from m consider (up) "0 < i" "lt (xs ! i) (xs ! parent i)" "alias_source lt xs i = parent i"
    | (down) "2 * i + 1 < length xs" "lt (xs ! best_child lt xs i) (xs ! i)" "alias_source lt xs i = best_child lt xs i"
    unfolding alias_source_def by argo
  then have "alias_source lt xs i < length xs \<and> xs ! alias_source lt xs i \<noteq> xs ! i \<and>
      (alias_source lt xs i = parent i \<and> 0 < i \<or> parent (alias_source lt xs i) = i)"
  proof cases
    case up
    then show ?thesis using irrefl [OF okD [OF ok i]] i by auto
  next
    case down
    then show ?thesis using irrefl [OF okD [OF ok i]] best_child_bounds(2) [OF down(1), of lt] c by auto
  qed
  then show "alias_source lt xs i < length xs" "xs ! alias_source lt xs i \<noteq> xs ! i"
    "alias_source lt xs i = parent i \<and> 0 < i \<or> parent (alias_source lt xs i) = i" by blast+
qed

lemma alias_source_stays:
  assumes h: "heap_ordered lt xs" and i: "i < length xs" shows "alias_source lt xs i = i"
proof -
  have "\<not> lt (xs ! best_child lt xs i) (xs ! i)" if "2 * i + 1 < length xs"
    using h best_child_bounds(2) [OF that, of lt] parent_best_child [of xs i]
    unfolding heap_ordered_def by metis
  moreover have "\<not> lt (xs ! i) (xs ! parent i)" if "0 < i" using h i that unfolding heap_ordered_def by blast
  ultimately show ?thesis unfolding alias_source_def by argo
qed

end

context ordered_heap
begin

lemma own_elem:
  assumes wf: "wf_heap h" and i: "unat i < unat (hp_size h)"
  shows "heap_elem h (Own (dv_heap_slot h i)) = Some (heap_elems h ! unat i)"
    and "unat i \<le> unat (hp_capacity h)"
proof -
  show c: "unat i \<le> unat (hp_capacity h)" using i heap_mem_facts(1) [OF wf_heapD(3) [OF wf]] by simp
  show "heap_elem h (Own (dv_heap_slot h i)) = Some (heap_elems h ! unat i)"
    using heap_buffer.elem_slot [OF wf_nonempty [OF wf i] c] i by (simp add: heap_elems_def)
qed

text \<open>A heap with one slot written.\<close>

lemma set_slot_wf:
  assumes wf: "wf_heap h" and i: "unat i < unat (hp_size h)" and e: "ok e" "length e = unat (hp_elem_size h)"
  shows "wf_heap (set_slot h (unat i) e)" "heap_elems (set_slot h (unat i) e) = (heap_elems h)[unat i := e]"
proof -
  have "sifted h (unat (hp_size h)) ((heap_elems h)[unat i := e]) (set_slot h (unat i) e)"
    using sifted_set_slot [OF wf_nonempty [OF wf i] i heap_mem_facts(1) [OF wf_heapD(3) [OF wf]] e(2)]
    unfolding view_elems .
  from wf_sifted_same [OF wf this ok_update [OF wf_heapD(4) [OF wf] e(1)]]
  show "wf_heap (set_slot h (unat i) e)" "heap_elems (set_slot h (unat i) e) = (heap_elems h)[unat i := e]" by blast+
qed

lemma slot_len: "wf_heap h \<Longrightarrow> unat i < unat (hp_size h) \<Longrightarrow> length (heap_elems h ! unat i) = unat (hp_elem_size h)"
  using length_heap_elem [OF wf_heapD(3)] by blast

lemma fill_own:
  assumes wf: "wf_heap h" and w: "w \<in> W" and i: "unat i < unat (hp_size h)" and j: "unat j < unat (hp_size h)"
  shows "\<exists>w1. heap_fill h i j w = Some (set_slot h (unat i) (heap_elems h ! unat j), w1) \<and> w1 \<in> W"
proof -
  have "slot_at h (unat j) = heap_elems h ! unat j" using j by (simp add: heap_elems_def)
  moreover have "notified h w (unat i, heap_elems h ! unat j) \<in> W"
    using notified_keeps [OF w elems_ok [OF wf j]] notified_setup [OF wf_heapD(1) [OF wf]] by simp
  ultimately show ?thesis
    using heap_buffer.fill_slot [OF wf_nonempty [OF wf i] own_elem(2) [OF wf i] own_elem(2) [OF wf j], of w] by simp
qed

text \<open>Placing an element of the heap in a slot that holds the same element already changes no element.\<close>

lemma place_own:
  assumes wf: "wf_heap h" and w: "w \<in> W" and i: "unat i < unat (hp_size h)" and j: "unat j < unat (hp_size h)"
    and same: "heap_elems h ! unat i = heap_elems h ! unat j"
  shows "\<exists>h' w'. heap_place h i (Own (dv_heap_slot h j)) w = Some (h', w') \<and> w' \<in> W \<and> wf_heap h' \<and> heap_elems h' = heap_elems h"
proof -
  let ?e = "heap_elems h ! unat j" and ?h = "set_slot h (unat i) (heap_elems h ! unat j)"
  have e: "ok ?e" "length ?e = unat (hp_elem_size h)" using elems_ok [OF wf j] slot_len [OF wf j] by blast+
  note s = set_slot_wf [OF wf i e]
  have note_ok: "\<exists>w'. dv_heap_notify g i w = Some w' \<and> w' \<in> W" if g: "wf_heap g" "hp_size g = hp_size h" for g
  proof -
    have ig: "unat i < unat (hp_size g)" using i g(2) by simp
    have "slot_at g (unat i) = heap_elems g ! unat i" using ig by (simp add: heap_elems_def)
    then show ?thesis
      using heap_buffer.notify_slot [OF wf_nonempty [OF g(1) ig] own_elem(2) [OF g(1) ig], of w]
        notified_keeps [OF w elems_ok [OF g(1) ig]] notified_setup [OF wf_heapD(1) [OF g(1)]] by simp
  qed
  have "heap_copy h (dv_heap_slot h i) (Own (dv_heap_slot h j)) = Some ?h"
    using own_elem(1) [OF wf j] heap_buffer.store_slot [OF wf_nonempty [OF wf i] own_elem(2) [OF wf i] e(2)]
    by (simp add: heap_copy_def)
  moreover have "(heap_elems h)[unat i := ?e] = heap_elems h" using same by (metis list_update_id)
  ultimately show ?thesis
    using s note_ok [OF s(1)] note_ok [OF wf] wf by (auto simp: heap_place_def)
qed

lemma sift_up_goes:
  "dv_heap_sift_up X h i item w = do {
     up \<leftarrow> heap_goes_up X h i item w;
     (if up then do {
        (h1, w1) \<leftarrow> heap_fill h i ((i - 1) div 2) w;
        dv_heap_sift_up X h1 ((i - 1) div 2) item w1 }
      else heap_place h i item w) }"
  by (subst dv_heap_sift_up.simps) (simp add: heap_goes_up_def)

lemma sift_down_goes:
  assumes wf: "wf_heap h" and w: "w \<in> W" and i: "unat i < unat (hp_size h)" and x: "heap_elem h item = Some x" "ok x"
  shows "\<exists>c. (2 * unat i + 1 < unat (hp_size h) \<longrightarrow> unat c = best_child lt (heap_elems h) (unat i)) \<and>
     dv_heap_sift_down X h i item w =
       (if 2 * unat i + 1 < unat (hp_size h) \<and> lt (heap_elems h ! best_child lt (heap_elems h) (unat i)) x
        then do { r \<leftarrow> heap_fill h i c w; dv_heap_sift_down X (fst r) c item (snd r) }
        else heap_place h i item w)"
proof (cases "2 * unat i + 1 < unat (hp_size h)")
  case False
  then have "hp_size h \<le> 2 * i + 1" using child_index [OF wf_heapD(3) [OF wf] i] by (simp add: word_le_nat_alt)
  then show ?thesis using False by (subst dv_heap_sift_down.simps) auto
next
  case True
  have buf: "heap_buffer h" by (rule wf_nonempty [OF wf i])
  have go: "\<not> hp_size h \<le> 2 * i + 1" using True child_index [OF wf_heapD(3) [OF wf] i] by (simp add: word_le_nat_alt)
  have ob: "ok_but (unat i) (view (unat (hp_size h)) h)"
    unfolding view_elems by (rule ok_but_list_all [OF wf_heapD(4) [OF wf]])
  obtain c where c: "heap_child X h (2 * i + 1) w = Some c" "unat c = best_child lt (heap_elems h) (unat i)"
    using child_refines [OF buf wf_heapD(1) [OF wf] w i ob True] unfolding view_elems by blast
  have cn: "unat c < unat (hp_size h)" using best_child_bounds(2) [of "unat i" "heap_elems h" lt] True c(2) by simp
  have "dv_heap_before X h (Own (dv_heap_slot h c)) item w = Some (lt (heap_elems h ! unat c) x)"
    using before_slots [OF buf wf_heapD(1) [OF wf] w elems_ok [OF wf cn] x(2) own_elem(1) [OF wf cn] x(1)] .
  then show ?thesis using True go c by (subst dv_heap_sift_down.simps) (auto intro!: exI [of _ c])
qed

section \<open>The updated slot as the argument\<close>

lemma slot_offset: "hp_elem_size h' = hp_elem_size h \<Longrightarrow> dv_heap_slot h' i = dv_heap_slot h i"
  by (simp add: dv_heap_slot_def)

text \<open>Once the copy is made the loop stops at the neighbour's slot.\<close>

lemma alias_up:
  assumes wf: "wf_heap h" and w: "w \<in> W" and i: "unat i < unat (hp_size h)" and hole: "hole_from lt 0 (heap_elems h) (unat i)"
    and up: "0 < unat i" "lt (heap_elems h ! unat i) (heap_elems h ! parent (unat i))"
  shows "\<exists>h' w'. dv_heap_sift_up X h i (Own (dv_heap_slot h i)) w = Some (h', w') \<and> w' \<in> W \<and> wf_heap h' \<and>
     heap_elems h' = (heap_elems h)[unat i := heap_elems h ! parent (unat i)]"
proof -
  let ?xs = "heap_elems h" and ?p = "(i - 1) div 2"
  let ?v = "?xs ! parent (unat i)"
  let ?h = "set_slot h (unat i) ?v"
  have "i > 0" using up(1) by (simp add: word_less_nat_alt)
  then have p: "unat ?p = parent (unat i)" "unat ?p < unat i" "unat ?p < unat (hp_size h)"
    using unat_parent [of i] word_parent_less [of i] i by auto
  have v: "ok ?v" "length ?v = unat (hp_elem_size h)" using elems_ok [OF wf p(3)] slot_len [OF wf p(3)] p(1) by simp_all
  note s = set_slot_wf [OF wf i v]
  obtain w1 where f: "heap_fill h i ?p w = Some (?h, w1)" and w1: "w1 \<in> W"
    using fill_own [OF wf w i p(3)] p(1) by auto
  have off: "dv_heap_slot ?h i = dv_heap_slot h i" by (rule slot_offset) simp
  have ih: "unat i < unat (hp_size ?h)" "unat ?p < unat (hp_size ?h)" using i p(3) by simp_all
  have here: "heap_elem ?h (Own (dv_heap_slot h i)) = Some ?v"
    using own_elem(1) [OF s(1) ih(1)] i unfolding off s(2) by simp
  have stop: "\<not> (0 < unat ?p \<and> lt ?v (heap_elems ?h ! parent (unat ?p)))"
  proof
    assume a: "0 < unat ?p \<and> lt ?v (heap_elems ?h ! parent (unat ?p))"
    then have "parent (unat ?p) < unat ?p" by (blast intro: parent_less)
    then have "parent (unat ?p) \<noteq> unat i" "unat ?p \<noteq> unat i" using p(2) by linarith+
    then show False using a hole_fromD(3) [OF hole, of "unat ?p"] p unfolding s(2) by simp
  qed
  have same: "heap_elems ?h ! unat ?p = heap_elems ?h ! unat i" using i p unfolding s(2) by simp
  have "heap_goes_up X ?h ?p (Own (dv_heap_slot h i)) w1 = Some False"
    unfolding goes_up_refines [OF s(1) w1 ih(2) here v(1)] using stop by blast
  then have "dv_heap_sift_up X ?h ?p (Own (dv_heap_slot h i)) w1 = heap_place ?h ?p (Own (dv_heap_slot h i)) w1"
    by (subst sift_up_goes) simp
  then have "dv_heap_sift_up X h i (Own (dv_heap_slot h i)) w = heap_place ?h ?p (Own (dv_heap_slot ?h i)) w1"
    using goes_up_refines [OF wf w i own_elem(1) [OF wf i] elems_ok [OF wf i]] up f off by (subst sift_up_goes) simp
  then show ?thesis using place_own [OF s(1) w1 ih(2,1) same] s(2) by simp
qed

lemma alias_down:
  assumes wf: "wf_heap h" and w: "w \<in> W" and i: "unat i < unat (hp_size h)" and hole: "hole_from lt 0 (heap_elems h) (unat i)"
    and down: "2 * unat i + 1 < unat (hp_size h)"
      "lt (heap_elems h ! best_child lt (heap_elems h) (unat i)) (heap_elems h ! unat i)"
  shows "\<exists>h' w'. dv_heap_sift_down X h i (Own (dv_heap_slot h i)) w = Some (h', w') \<and> w' \<in> W \<and> wf_heap h' \<and>
     heap_elems h' = (heap_elems h)[unat i := heap_elems h ! best_child lt (heap_elems h) (unat i)]"
proof -
  let ?xs = "heap_elems h"
  let ?c = "best_child lt ?xs (unat i)"
  let ?v = "?xs ! ?c"
  let ?h = "set_slot h (unat i) ?v"
  obtain c where c: "unat c = ?c" and first: "dv_heap_sift_down X h i (Own (dv_heap_slot h i)) w =
      do { r \<leftarrow> heap_fill h i c w; dv_heap_sift_down X (fst r) c (Own (dv_heap_slot h i)) (snd r) }"
    using sift_down_goes [OF wf w i own_elem(1) [OF wf i] elems_ok [OF wf i]] down by auto
  have cn: "unat c < unat (hp_size h)" and ci: "unat i < unat c"
    using best_child_bounds(1,2) [where lt = lt and xs = ?xs and i = "unat i"] down c by simp_all
  have v: "ok ?v" "length ?v = unat (hp_elem_size h)" using elems_ok [OF wf cn] slot_len [OF wf cn] c by simp_all
  note s = set_slot_wf [OF wf i v]
  obtain w1 where f: "heap_fill h i c w = Some (?h, w1)" and w1: "w1 \<in> W"
    using fill_own [OF wf w i cn] c by auto
  have off: "dv_heap_slot ?h i = dv_heap_slot h i" by (rule slot_offset) simp
  have ih: "unat i < unat (hp_size ?h)" "unat c < unat (hp_size ?h)" using i cn by simp_all
  have here: "heap_elem ?h (Own (dv_heap_slot h i)) = Some ?v"
    using own_elem(1) [OF s(1) ih(1)] i unfolding off s(2) by simp
  have stop: "\<not> lt (heap_elems ?h ! best_child lt (heap_elems ?h) (unat c)) ?v" if l: "2 * unat c + 1 < unat (hp_size ?h)"
  proof -
    let ?k = "best_child lt (heap_elems ?h) (unat c)"
    have k: "unat c < ?k" "?k < length ?xs" "parent ?k = unat c" "0 < ?k"
      using best_child_bounds(1,2) [where lt = lt and xs = "heap_elems ?h" and i = "unat c"] l
        parent_best_child [of "heap_elems ?h" "unat c"] by simp_all
    then have "?k \<noteq> unat i" "parent ?k \<noteq> unat i" using ci by linarith+
    then show ?thesis using hole_fromD(3) [OF hole k(2,4)] k(3) c unfolding s(2) by simp
  qed
  have same: "heap_elems ?h ! unat c = heap_elems ?h ! unat i" using i ci c unfolding s(2) by simp
  have "dv_heap_sift_down X ?h c (Own (dv_heap_slot h i)) w1 = heap_place ?h c (Own (dv_heap_slot h i)) w1"
    using sift_down_goes [OF s(1) w1 ih(2) here v(1)] stop by auto
  then have "dv_heap_sift_down X h i (Own (dv_heap_slot h i)) w = heap_place ?h c (Own (dv_heap_slot ?h i)) w1"
    using first f off by simp
  then show ?thesis using place_own [OF s(1) w1 ih(2,1) same] s(2) by simp
qed

lemma update_alias:
  assumes wf: "wf_heap h" and w: "w \<in> W" and i: "index < hp_size h" and hole: "hole_from lt 0 (heap_elems h) (unat index)"
  shows "\<exists>h' w'. dv_heap_update_at X (Some h) index (map_option Own (dv_heap_at (Some h) index)) w = Some (DV_HEAP_OK, Some h', w') \<and>
     wf_heap h' \<and> heap_elems h' = (heap_elems h)[unat index := heap_elems h ! alias_source lt (heap_elems h) (unat index)]"
proof -
  have i': "unat index < unat (hp_size h)" using i by (simp add: word_less_nat_alt)
  have at: "map_option Own (dv_heap_at (Some h) index) = Some (Own (dv_heap_slot h index))"
    using i by (simp add: dv_heap_slot_def not_le)
  have up: "heap_goes_up X h index (Own (dv_heap_slot h index)) w =
      Some (0 < unat index \<and> lt (heap_elems h ! unat index) (heap_elems h ! parent (unat index)))"
    by (rule goes_up_refines [OF wf w i' own_elem(1) [OF wf i'] elems_ok [OF wf i']])
  consider "0 < unat index \<and> lt (heap_elems h ! unat index) (heap_elems h ! parent (unat index))"
    | "\<not> (0 < unat index \<and> lt (heap_elems h ! unat index) (heap_elems h ! parent (unat index)))"
      "2 * unat index + 1 < unat (hp_size h) \<and> lt (heap_elems h ! best_child lt (heap_elems h) (unat index)) (heap_elems h ! unat index)"
    | "\<not> (0 < unat index \<and> lt (heap_elems h ! unat index) (heap_elems h ! parent (unat index)))"
      "\<not> (2 * unat index + 1 < unat (hp_size h) \<and> lt (heap_elems h ! best_child lt (heap_elems h) (unat index)) (heap_elems h ! unat index))"
    by blast
  then show ?thesis
  proof cases
    case 1
    then show ?thesis using alias_up [OF wf w i' hole] up i unfolding at by (auto simp: alias_source_def not_le)
  next
    case 2
    then show ?thesis using alias_down [OF wf w i' hole] up i unfolding at by (auto simp: alias_source_def not_le)
  next
    case 3
    then show ?thesis
      using sift_down_goes [OF wf w i' own_elem(1) [OF wf i'] elems_ok [OF wf i']] place_own [OF wf w i' i'] up i
      unfolding at by (auto simp: alias_source_def not_le)
  qed
qed

end

end
