(* ===== verification/Heap_Theorems.thy ===== *)
theory Heap_Theorems
  imports Heap_Nodes Heap_Alias
begin

text \<open>
  The properties of the heap. \<open>lt\<close> is the order the configuration selects, \<open>ok\<close> its admissible
  elements and \<open>W\<close> the worlds in which the keys are readable and unchanged; the hypothesis
  \<open>ordered_heap lt ok X h W\<close> says so, and \<open>heap_builtin_keys\<close> proves it for every built-in key type.
\<close>

definition ordered_state :: "(byte list \<Rightarrow> byte list \<Rightarrow> bool) \<Rightarrow> (byte list \<Rightarrow> bool) \<Rightarrow> 'w dv_heap_t \<Rightarrow> bool" where
  "ordered_state lt ok h \<longleftrightarrow> heap_inv h \<and> list_all ok (heap_elems h) \<and> heap_ordered lt (heap_elems h)"

lemma demo_ordered: "ordered_heap demo_lt (direct_ok demo_heap) no_mem demo_heap UNIV"
  by (rule demo.ordered.ordered_heap_axioms)

lemma demo_state: "ordered_state demo_lt (direct_ok demo_heap) demo_heap"
  by (simp add: ordered_state_def demo_heap_inv heap_ordered_def)

section \<open>Refinement\<close>

text \<open>
  C2: every sequence of calls on a freshly initialized heap returns and behaves as a priority queue
  on the multiset of its elements: pop, peek and replace hand out an element nothing precedes, bulk
  pop hands them out in priority order, and refused allocations change nothing.
\<close>
theorem heap_refines_priority_queue:
  assumes "libc_heap L" "\<And>a. allocator = Some a \<Longrightarrow> allocator_contract a"
    and "dv_heap_init L (Some h0) (Some c) allocator w = Some (DV_HEAP_OK, Some h, w1)"
    and "ordered_heap lt ok X h W" "w1 \<in> W"
    and "list_all (heap_op_ok (unat (hcf_elem_size c)) ok) xs"
  shows "\<exists>rs h' w'. heap_run X h xs w1 = Some (rs, h', w') \<and> ordered_state lt ok h' \<and>
           pq_ref_run (unat (hcf_elem_size c)) lt {#} xs rs (mset (heap_elems h'))"
proof -
  have ok: "heap_config_ok c allocator"
    using dv_heap_init_invalid [of c allocator L h0 w] assms(3) by (auto simp del: dv_heap_init.simps)
  have h: "heap_inv h" "heap_elems h = []" "same_setup (heap_configured c (heap_hooks L allocator)) h"
    using dv_heap_init_spec [OF assms(1) ok assms(2), of h0 w] assms(3) by auto
  have es: "hp_elem_size h = hcf_elem_size c"
    using same_setupD(1) [OF h(3)] by (simp add: heap_configured_def)
  have g: "ordered_heap.good lt ok h W h w1"
    using h assms(5) by (simp add: ordered_heap.good_def [OF assms(4)] ordered_heap.wf_heap_def [OF assms(4)] heap_ordered_def)
  obtain rs h' w' where "heap_run X h xs w1 = Some (rs, h', w')" "ordered_heap.good lt ok h W h' w'"
    "pq_ref_run (unat (hp_elem_size h)) lt (mset (heap_elems h)) xs rs (mset (heap_elems h'))"
    using ordered_heap.heap_run_simulates [OF assms(4) g, of xs] assms(6) unfolding es by blast
  then show ?thesis
    using es h(2) by (auto simp: ordered_state_def ordered_heap.good_def [OF assms(4)] ordered_heap.wf_heap_def [OF assms(4)])
qed

theorem heap_refines_priority_queue_witness:
  "\<exists>rs h' w'. heap_run no_mem demo_heap [HPush (le_bytes 8 (7 :: u64)), HPush (le_bytes 8 (3 :: u64)),
       HPush (le_bytes 8 (5 :: u64)), HPopBulk 2, HPop] (4096, 40) = Some (rs, h', w') \<and>
     pq_ref_run 8 demo_lt {#} [HPush (le_bytes 8 (7 :: u64)), HPush (le_bytes 8 (3 :: u64)),
       HPush (le_bytes 8 (5 :: u64)), HPopBulk 2, HPop] rs (mset (heap_elems h'))"
  using heap_refines_priority_queue [OF bump.libc_heap_axioms _ demo_heap_init demo_ordered UNIV_I,
      of "[HPush (le_bytes 8 (7 :: u64)), HPush (le_bytes 8 (3 :: u64)), HPush (le_bytes 8 (5 :: u64)), HPopBulk 2, HPop]"]
  by (simp add: demo_heap_cfg_def demo_ok del: heap_run.simps) blast

section \<open>A small heap for the witnesses\<close>

text \<open>Three 32-bit keys, in a min-heap with the keys 9, 5, 3 and in a max-heap with the same keys.\<close>

definition edited_heap :: "(nat \<times> nat) dv_heap_t" where
  "edited_heap = demo_heap\<lparr>hp_buffer := Some \<lparr>blk_addr = 16, blk_data = [9,0,0,0, 5,0,0,0, 3,0,0,0, 0,0,0,0]\<rparr>,
     hp_size := 3, hp_capacity := 3, hp_elem_size := 4, hp_key_type := DV_HEAP_KEY_U32\<rparr>"

definition edited_max_heap :: "(nat \<times> nat) dv_heap_t" where
  "edited_max_heap = edited_heap\<lparr>hp_order := DV_HEAP_MAX\<rparr>"

lemma edited_heap_elems: "heap_elems edited_heap = [[9,0,0,0], [5,0,0,0], [3,0,0,0]]"
  by code_simp

lemma edited_heap_inv: "heap_inv edited_heap"
  using demo_heap_inv(1)
  by (simp add: heap_inv_def heap_mem_def heap_policy_def edited_heap_def heap_data_def heap_fits_def heap_bytes_def
      demo_heap_def heap_configured_def demo_heap_cfg_def)

lemma edited_max_heap_inv: "heap_inv edited_max_heap"
  using edited_heap_inv by (simp add: edited_max_heap_def heap_inv_def heap_mem_def heap_policy_def heap_data_def)

interpretation edited: direct_heap edited_heap
  by unfold_locales code_simp+

abbreviation edited_lt :: "byte list \<Rightarrow> byte list \<Rightarrow> bool" where
  "edited_lt \<equiv> key_before edited_heap (direct_key edited_heap)"

lemma edited_heap_ok: "list_all (direct_ok edited_heap) (heap_elems edited_heap)"
  by code_simp

lemma edited_keys:
  "\<not> edited_lt [9,0,0,0] [9,0,0,0]" "edited_lt [5,0,0,0] [9,0,0,0]" "edited_lt [3,0,0,0] [9,0,0,0]"
  by code_simp+

lemma edited_heap_hole:
  "hole_from edited_lt 0 (heap_elems edited_heap) (unat (0 :: size_t))" "\<not> heap_ordered edited_lt (heap_elems edited_heap)"
  by (auto simp: hole_from_def heap_ordered_def edited_heap_elems edited_keys less_Suc_eq numeral_3_eq_3)

interpretation edited_max: direct_heap edited_max_heap
  by unfold_locales code_simp+

abbreviation edited_max_lt :: "byte list \<Rightarrow> byte list \<Rightarrow> bool" where
  "edited_max_lt \<equiv> key_before edited_max_heap (direct_key edited_max_heap)"

lemma edited_max_heap_elems: "heap_elems edited_max_heap = [[9,0,0,0], [5,0,0,0], [3,0,0,0]]"
  by code_simp

lemma edited_max_heap_ok: "list_all (direct_ok edited_max_heap) (heap_elems edited_max_heap)"
  by code_simp

lemma edited_max_keys:
  "edited_max_lt [9,0,0,0] [5,0,0,0]" "edited_max_lt [9,0,0,0] [3,0,0,0]"
  "\<not> edited_max_lt [5,0,0,0] [9,0,0,0]" "\<not> edited_max_lt [3,0,0,0] [9,0,0,0]"
  by code_simp+

lemma edited_max_heap_state: "ordered_state edited_max_lt (direct_ok edited_max_heap) edited_max_heap"
  unfolding ordered_state_def
  using edited_max_heap_inv edited_max_heap_ok
  by (auto simp: heap_ordered_def edited_max_heap_elems edited_max_keys less_Suc_eq numeral_3_eq_3)

section \<open>Single operations\<close>

text \<open>
  C13: \<open>dv_heap_push\<close> keeps heap order and adds exactly the element on success, succeeds whenever
  there is room, refuses a full fixed heap, and leaves the heap unchanged on every failure.
\<close>
theorem heap_push_correct:
  assumes "ordered_heap lt ok X h W" "ordered_state lt ok h" "w \<in> W"
    and "unat (hp_elem_size h) \<le> length e" "ok (take (unat (hp_elem_size h)) e)"
  shows "\<exists>status h' w'. dv_heap_push X (Some h) (Some e) w = Some (status, Some h', w') \<and>
     ordered_state lt ok h' \<and>
     (status = DV_HEAP_OK \<longrightarrow>
        mset (heap_elems h') = add_mset (take (unat (hp_elem_size h)) e) (mset (heap_elems h))) \<and>
     (status \<noteq> DV_HEAP_OK \<longrightarrow> h' = h) \<and>
     (hp_size h < hp_capacity h \<longrightarrow> status = DV_HEAP_OK) \<and>
     (\<not> hp_growable h \<and> hp_size h = hp_capacity h \<longrightarrow> status = DV_HEAP_ERR_FULL)"
proof -
  have wf: "ordered_heap.wf_heap ok h h"
    using assms(2) by (simp add: ordered_heap.wf_heap_def [OF assms(1)] ordered_state_def)
  obtain status h' w' where c: "dv_heap_push X (Some h) (Some e) w = Some (status, Some h', w')"
    and p: "ordered_heap.pushed lt ok h W h (take (unat (hp_elem_size h)) e) w status h' w'"
    using ordered_heap.push_refines [OF assms(1) wf assms(3-5)] by blast
  have "ordered_state lt ok h'"
    using p assms(2) heap_order.heap_push_list(1) [OF ordered_heap.axioms(1) [OF assms(1)] _ assms(5)]
    by (cases "status = DV_HEAP_OK")
      (auto simp: ordered_heap.pushed_def [OF assms(1)] ordered_heap.wf_heap_def [OF assms(1)] ordered_state_def)
  then show ?thesis using c p
    by (auto simp: ordered_heap.pushed_def [OF assms(1)] mset_push_list simp del: dv_heap_push.simps)
qed

theorem heap_push_correct_witness:
  "\<exists>h' w'. dv_heap_push no_mem (Some demo_heap) (Some (le_bytes 8 (7 :: u64))) (4096, 40) =
       Some (DV_HEAP_OK, Some h', w') \<and> mset (heap_elems h') = {#le_bytes 8 (7 :: u64)#}"
  using heap_push_correct [OF demo_ordered demo_state UNIV_I, of "le_bytes 8 (7 :: u64)" "(4096, 40)"]
  by (auto simp: demo_heap_fields demo_heap_inv demo_ok simp del: dv_heap_push.simps)

text \<open>
  C14: \<open>dv_heap_pop\<close> on a nonempty heap hands out an element that nothing in the heap precedes,
  removes exactly it, and keeps heap order; on an empty heap it answers EMPTY and changes nothing.
\<close>
theorem heap_pop_correct:
  assumes "ordered_heap lt ok X h W" "ordered_state lt ok h" "w \<in> W" "unat (hp_elem_size h) \<le> length b"
  shows "\<exists>status h' out w'. dv_heap_pop X (Some h) (Some b) w = Some (status, Some h', Some out, w') \<and>
     ordered_state lt ok h' \<and>
     (heap_elems h = [] \<longrightarrow> status = DV_HEAP_ERR_EMPTY \<and> h' = h \<and> out = b) \<and>
     (heap_elems h \<noteq> [] \<longrightarrow> status = DV_HEAP_OK \<and>
        (\<exists>x \<in># mset (heap_elems h). take (unat (hp_elem_size h)) out = x \<and>
           (\<forall>y \<in># mset (heap_elems h). \<not> lt y x) \<and> mset (heap_elems h') = mset (heap_elems h) - {#x#}))"
proof (cases "hp_size h = 0")
  case True
  then show ?thesis using assms(2) by (simp add: heap_elems_def)
next
  case False
  let ?xs = "heap_elems h"
  have wf: "ordered_heap.wf_heap ok h h"
    using assms(2) by (simp add: ordered_heap.wf_heap_def [OF assms(1)] ordered_state_def)
  have len: "0 < length ?xs" using False by (simp add: unat_gt_0)
  then have ne: "?xs \<noteq> []" by blast
  have fits: "out_fits (unat (hp_elem_size h)) (Some b)" using assms(4) by (simp add: out_fits_def)
  have x: "length (?xs ! 0) = unat (hp_elem_size h)"
    using length_heap_elem [of h 0] assms(2) len by (simp add: ordered_state_def heap_inv_def)
  obtain h' w' where c: "dv_heap_pop X (Some h) (Some b) w = Some (DV_HEAP_OK, Some h', written (?xs ! 0) (Some b), w')"
    "ordered_heap.wf_heap ok h h'" "heap_elems h' = remove_list lt ?xs 0"
    using ordered_heap.pop_refines [OF assms(1) wf assms(3) False fits] by blast
  note ho = ordered_heap.axioms(1) [OF assms(1)]
  have st: "list_all ok ?xs" "heap_ordered lt ?xs" using assms(2) by (simp_all add: ordered_state_def)
  have "ordered_state lt ok h'"
    using c(2,3) heap_order.heap_remove_list(1) [OF ho st len]
    by (simp add: ordered_state_def ordered_heap.wf_heap_def [OF assms(1)])
  moreover have "mset (heap_elems h') = mset ?xs - {#?xs ! 0#}"
    using mset_remove_list [OF len, of lt] c(3) by (metis add_mset_remove_trivial)
  moreover have "\<forall>y \<in># mset ?xs. \<not> lt y (?xs ! 0)"
    using heap_order.root_first [OF ho st] by (auto simp: in_set_conv_nth)
  ultimately show ?thesis
    using c(1) ne x nth_mem [OF len]
    by (intro exI [of _ DV_HEAP_OK] exI [of _ h'] exI [of _ "?xs ! 0 @ drop (length (?xs ! 0)) b"] exI [of _ w'])
      (auto simp: written_def simp del: dv_heap_pop.simps)
qed

theorem heap_pop_correct_witness:
  "\<exists>h' out w'. dv_heap_pop no_mem (Some edited_max_heap) (Some (replicate 4 0)) (4096, 1) =
       Some (DV_HEAP_OK, Some h', Some out, w') \<and> take 4 out = [9,0,0,0] \<and>
     mset (heap_elems h') = {#[5,0,0,0], [3,0,0,0]#}"
proof -
  have es: "unat (hp_elem_size edited_max_heap) = 4" by code_simp
  obtain h' out w' x where r: "dv_heap_pop no_mem (Some edited_max_heap) (Some (replicate 4 0)) (4096, 1) =
      Some (DV_HEAP_OK, Some h', Some out, w')" "x \<in># mset (heap_elems edited_max_heap)" "take 4 out = x"
    "\<forall>y \<in># mset (heap_elems edited_max_heap). \<not> edited_max_lt y x"
    "mset (heap_elems h') = mset (heap_elems edited_max_heap) - {#x#}"
    using heap_pop_correct [OF edited_max.ordered.ordered_heap_axioms edited_max_heap_state UNIV_I, of "replicate 4 0" no_mem "(4096, 1)"]
    by (auto simp: es edited_max_heap_elems simp del: dv_heap_pop.simps)
  have "x = [9,0,0,0]" using r(2,4) by (auto simp: edited_max_heap_elems edited_max_keys)
  then show ?thesis using r by (auto simp: edited_max_heap_elems)
qed

text \<open>
  C15: \<open>dv_heap_update_at\<close> restores heap order whichever way the key went, with one re-sift, and
  replaces exactly the element at the index. The heap may be out of order at that slot beforehand,
  as it is when the owner has changed the key of a pointed-to object before the call.
\<close>
theorem heap_update_at_correct:
  assumes "ordered_heap lt ok X h W" "heap_inv h" "list_all ok (heap_elems h)" "w \<in> W"
    and "index < hp_size h" "hole_from lt 0 (heap_elems h) (unat index)"
    and "unat (hp_elem_size h) \<le> length e" "ok (take (unat (hp_elem_size h)) e)"
  shows "\<exists>h' w'. dv_heap_update_at X (Some h) index (Some (Ext e)) w = Some (DV_HEAP_OK, Some h', w') \<and>
     ordered_state lt ok h' \<and>
     mset (heap_elems h') = mset ((heap_elems h)[unat index := take (unat (hp_elem_size h)) e])"
proof -
  have wf: "ordered_heap.wf_heap ok h h"
    using assms(2,3) by (simp add: ordered_heap.wf_heap_def [OF assms(1)])
  have il: "unat index < length (heap_elems h)" using assms(5) by (simp add: word_less_nat_alt)
  obtain h' w' where c: "dv_heap_update_at X (Some h) index (Some (Ext e)) w = Some (DV_HEAP_OK, Some h', w')"
    "ordered_heap.wf_heap ok h h'"
    "heap_elems h' = update_list lt (heap_elems h) (unat index) (take (unat (hp_elem_size h)) e)"
    using ordered_heap.update_at_refines [OF assms(1) wf assms(4,5,7,8)] by blast
  have "ordered_state lt ok h'"
    using c heap_order.heap_update_list(1) [OF ordered_heap.axioms(1) [OF assms(1)] assms(3,8,6)]
    by (simp add: ordered_state_def ordered_heap.wf_heap_def [OF assms(1)])
  then show ?thesis using c mset_update_list [OF il] by (auto simp del: dv_heap_update_at.simps)
qed

text \<open>A heap with one element, for the witnesses.\<close>

lemma demo_one:
  obtains h where "dv_heap_push no_mem (Some demo_heap) (Some (le_bytes 8 (7 :: u64))) (4096, 40) =
      Some (DV_HEAP_OK, Some h, (4096, 40))" "same_setup demo_heap h"
    "ordered_state demo_lt (direct_ok demo_heap) h" "heap_elems h = [le_bytes 8 (7 :: u64)]"
proof -
  have wf: "demo.ordered.wf_heap demo_heap"
    using demo_state by (simp add: demo.ordered.wf_heap_def ordered_state_def)
  obtain st h w' where c: "dv_heap_push no_mem (Some demo_heap) (Some (le_bytes 8 (7 :: u64))) (4096, 40) =
      Some (st, Some h, w')"
    and p: "demo.ordered.pushed demo_heap (le_bytes 8 (7 :: u64)) (4096, 40) st h w'"
    using demo.ordered.push_refines [OF wf UNIV_I, of "le_bytes 8 (7 :: u64)" no_mem "(4096, 40)"]
    by (auto simp: demo_heap_fields demo_ok simp del: dv_heap_push.simps)
  have st: "st = DV_HEAP_OK" using p by (simp add: demo.ordered.pushed_def demo_heap_fields)
  have el: "heap_elems h = [le_bytes 8 (7 :: u64)]"
    using p st by (simp add: demo.ordered.pushed_def demo_heap_inv push_list_def sift_up_stop)
  have "dv_heap_push no_mem (Some demo_heap) (Some (le_bytes 8 (7 :: u64))) (4096, 40) =
      Some (DV_HEAP_OK, Some h, (4096, 40))"
    using c st by (auto simp: demo_heap_fields bind_eq_Some_conv dv_heap_sift_up.simps heap_place_def
        dv_heap_notify_def heap_copy_def heap_store_def demo_heap_def heap_configured_def demo_heap_cfg_def
        split: if_splits)
  moreover have "ordered_state demo_lt (direct_ok demo_heap) h"
    using p el by (simp add: demo.ordered.pushed_def demo.ordered.wf_heap_def ordered_state_def heap_ordered_def)
  moreover have "same_setup demo_heap h"
    using p by (simp add: demo.ordered.pushed_def demo.ordered.wf_heap_def)
  ultimately show thesis using that el by blast
qed

lemma ordered_heap_setup:
  assumes "ordered_heap lt ok X h W" "same_setup h h'" shows "ordered_heap lt ok X h' W"
  using assms(1) before_raw_setup [OF assms(2), of X]
  by (simp add: ordered_heap_def ordered_heap_axioms_def same_setupD [OF assms(2)])

lemma one_ordered:
  "same_setup demo_heap h \<Longrightarrow> ordered_heap demo_lt (direct_ok demo_heap) X h UNIV"
  by (rule ordered_heap_setup [OF demo.ordered.ordered_heap_axioms])

theorem heap_update_at_correct_witness:
  "\<exists>h' w'. dv_heap_update_at no_mem (Some edited_heap) 0 (Some (Ext [9,0,0,0])) (4096, 1) = Some (DV_HEAP_OK, Some h', w') \<and>
     ordered_state edited_lt (direct_ok edited_heap) h' \<and> mset (heap_elems h') = {#[9,0,0,0], [5,0,0,0], [3,0,0,0]#}"
proof -
  have "(0 :: size_t) < hp_size edited_heap" "unat (hp_elem_size edited_heap) = 4"
    "direct_ok edited_heap (take (unat (hp_elem_size edited_heap)) [9,0,0,0])" by code_simp+
  then show ?thesis
    using heap_update_at_correct [OF edited.ordered.ordered_heap_axioms edited_heap_inv edited_heap_ok UNIV_I _ edited_heap_hole(1),
        of "[9,0,0,0]" no_mem "(4096, 1)"]
    by (simp add: edited_heap_elems del: dv_heap_update_at.simps)
qed

text \<open>
  C16: \<open>dv_heap_remove_at\<close> takes out exactly the element at the index, hands it to the caller, and
  keeps heap order, also when the last element has to move up instead of down.
\<close>
theorem heap_remove_at_correct:
  assumes "ordered_heap lt ok X h W" "ordered_state lt ok h" "w \<in> W" "unat (hp_elem_size h) \<le> length b"
  shows "\<exists>status h' out w'. dv_heap_remove_at X (Some h) index (Some b) w = Some (status, Some h', Some out, w') \<and>
     ordered_state lt ok h' \<and> length out = length b \<and>
     (index \<ge> hp_size h \<longrightarrow> status = DV_HEAP_ERR_INVALID \<and> h' = h \<and> out = b) \<and>
     (index < hp_size h \<longrightarrow> status = DV_HEAP_OK \<and>
        take (unat (hp_elem_size h)) out = heap_elems h ! unat index \<and>
        mset (heap_elems h) = add_mset (heap_elems h ! unat index) (mset (heap_elems h')))"
proof (cases "index \<ge> hp_size h")
  case True
  then show ?thesis using assms(2) by simp
next
  case False
  then have i: "index < hp_size h" by simp
  let ?xs = "heap_elems h"
  have il: "unat index < length ?xs" using i by (simp add: word_less_nat_alt)
  have wf: "ordered_heap.wf_heap ok h h"
    using assms(2) by (simp add: ordered_heap.wf_heap_def [OF assms(1)] ordered_state_def)
  have fits: "out_fits (unat (hp_elem_size h)) (Some b)" using assms(4) by (simp add: out_fits_def)
  have x: "length (?xs ! unat index) = unat (hp_elem_size h)"
    using length_heap_elem [of h "unat index"] assms(2) il by (simp add: ordered_state_def heap_inv_def)
  obtain h' w' where c: "dv_heap_remove_at X (Some h) index (Some b) w =
      Some (DV_HEAP_OK, Some h', written (?xs ! unat index) (Some b), w')"
    "ordered_heap.wf_heap ok h h'" "heap_elems h' = remove_list lt ?xs (unat index)"
    using ordered_heap.remove_at_refines [OF assms(1) wf assms(3) i fits] by blast
  have st: "list_all ok ?xs" "heap_ordered lt ?xs" using assms(2) by (simp_all add: ordered_state_def)
  have "ordered_state lt ok h'"
    using c(2,3) heap_order.heap_remove_list(1) [OF ordered_heap.axioms(1) [OF assms(1)] st il]
    by (simp add: ordered_state_def ordered_heap.wf_heap_def [OF assms(1)])
  then show ?thesis using c(1,3) i x assms(4) mset_remove_list [OF il, of lt]
    by (auto simp: written_def not_le simp del: dv_heap_remove_at.simps)
qed

theorem heap_remove_at_correct_witness:
  "\<exists>(h :: (nat \<times> nat) dv_heap_t) h' out w'. heap_elems h = [le_bytes 8 (7 :: u64)] \<and>
     dv_heap_remove_at no_mem (Some h) 0 (Some (replicate 8 0)) (4096, 40) = Some (DV_HEAP_OK, Some h', Some out, w') \<and>
     take 8 out = le_bytes 8 (7 :: u64) \<and> heap_elems h' = []"
proof -
  obtain h where h: "same_setup demo_heap h" "ordered_state demo_lt (direct_ok demo_heap) h"
    "heap_elems h = [le_bytes 8 (7 :: u64)]" by (rule demo_one)
  have sz: "hp_size h = 1" using length_heap_elems [of h] h(3) by (simp add: word_unat_eq_iff)
  have es: "hp_elem_size h = 8" using same_setupD(1) [OF h(1)] by (simp add: demo_heap_fields)
  from heap_remove_at_correct [OF one_ordered [OF h(1)] h(2) UNIV_I, of "replicate 8 0" no_mem 0 "(4096, 40)"]
  show ?thesis using h(3) sz es by - (rule exI [of _ h], auto simp del: dv_heap_remove_at.simps)
qed

section \<open>Bulk operations\<close>

text \<open>
  \<open>dv_heap_build\<close> replaces the contents by the given elements in heap order (Floyd's
  construction), or, when the buffer cannot be made large enough, leaves the heap as it was.
\<close>
lemma heap_build_correct:
  assumes "ordered_heap lt ok X h W" "ordered_state lt ok h" "w \<in> W"
    and "unat cnt * unat (hp_elem_size h) \<le> length es"
    and "list_all ok (chunks (unat (hp_elem_size h)) es (unat cnt))"
  shows "\<exists>status h' w'. dv_heap_build X (Some h) (Some es) cnt w = Some (status, Some h', w') \<and>
     ordered_state lt ok h' \<and>
     (status = DV_HEAP_OK \<longrightarrow> mset (heap_elems h') = mset (chunks (unat (hp_elem_size h)) es (unat cnt))) \<and>
     (status \<noteq> DV_HEAP_OK \<longrightarrow> h' = h)"
proof -
  let ?xs = "chunks (unat (hp_elem_size h)) es (unat cnt)"
  have wf: "ordered_heap.wf_heap ok h h"
    using assms(2) by (simp add: ordered_heap.wf_heap_def [OF assms(1)] ordered_state_def)
  obtain status h' w' where c: "dv_heap_build X (Some h) (Some es) cnt w = Some (status, Some h', w')"
    and b: "ordered_heap.built lt ok h W h ?xs w status h' w'"
    using ordered_heap.build_refines [OF assms(1) wf assms(3-5)] by blast
  have "heap_ordered lt (heapify_list lt ?xs (length ?xs div 2))"
    by (rule ordered_heap.heapify_ordered [OF assms(1,5)])
  moreover have "mset (heapify_list lt ?xs (length ?xs div 2)) = mset ?xs"
    by (rule ordered_heap.heapify_mset [OF assms(1)])
  ultimately show ?thesis using c b assms(2)
    by (auto simp: ordered_heap.built_def [OF assms(1)] ordered_heap.wf_heap_def [OF assms(1)] ordered_state_def
        simp del: dv_heap_build.simps)
qed

text \<open>
  C18: \<open>dv_heap_pop_bulk\<close> hands out the smaller of the request and the size, in priority order,
  and nothing left in the heap precedes anything handed out.
\<close>
theorem heap_pop_bulk_sorted:
  assumes "ordered_heap lt ok X h W" "ordered_state lt ok h" "w \<in> W"
    and "min (unat cnt) (unat (hp_size h)) * unat (hp_elem_size h) \<le> length b"
  shows "\<exists>n h' out w'. dv_heap_pop_bulk X (Some h) (Some b) cnt w = Some (n, Some h', Some out, w') \<and>
     unat n = min (unat cnt) (unat (hp_size h)) \<and> ordered_state lt ok h' \<and>
     (let popped = chunks (unat (hp_elem_size h)) out (unat n) in
        sorted_wrt (\<lambda>x y. \<not> lt y x) popped \<and>
        mset (heap_elems h) = mset popped + mset (heap_elems h') \<and>
        (\<forall>x \<in> set popped. \<forall>y \<in> set (heap_elems h'). \<not> lt y x))"
proof -
  let ?xs = "heap_elems h"
  have wf: "ordered_heap.wf_heap ok h h"
    using assms(2) by (simp add: ordered_heap.wf_heap_def [OF assms(1)] ordered_state_def)
  have st: "list_all ok ?xs" "heap_ordered lt ?xs" using assms(2) by (simp_all add: ordered_state_def)
  have fits: "out_fits (min (unat cnt) (unat (hp_size h)) * unat (hp_elem_size h)) (Some b)"
    using assms(4) by (simp add: out_fits_def)
  obtain n h' out w' where c: "dv_heap_pop_bulk X (Some h) (Some b) cnt w = Some (n, Some h', out, w')"
    "ordered_heap.wf_heap ok h h'" and n: "unat n = min (unat cnt) (unat (hp_size h))"
    and el: "heap_elems h' = snd (pop_list lt ?xs (unat n))"
    and o': "ordered_heap.popped_into (unat (hp_elem_size h)) 0 (fst (pop_list lt ?xs (unat n))) (Some b) out"
    using ordered_heap.pop_bulk_refines [OF assms(1) wf assms(3) fits] by blast
  obtain es ys where p: "pop_list lt ?xs (unat n) = (es, ys)" by fastforce
  have nl: "unat n \<le> length ?xs" using n by simp
  note pm = pop_list_mset [OF nl p] and ph = heap_order.heap_pop_list [OF ordered_heap.axioms(1) [OF assms(1)] st nl p]
  obtain d where d: "out = Some d" "\<forall>j < length es. chunk (unat (hp_elem_size h)) d j = es ! j"
    using o' p by (auto simp: ordered_heap.popped_into_def [OF assms(1)])
  have "chunks (unat (hp_elem_size h)) d (unat n) = es"
    using d(2) pm by (intro nth_equalityI) auto
  moreover have "ordered_state lt ok h'"
    using c(2) el p ph by (simp add: ordered_state_def ordered_heap.wf_heap_def [OF assms(1)])
  ultimately show ?thesis using c(1) d(1) n el p pm ph
    by (intro exI [of _ n] exI [of _ h'] exI [of _ d] exI [of _ w']) (auto simp: Let_def simp del: dv_heap_pop_bulk.simps)
qed

theorem heap_pop_bulk_sorted_witness:
  "\<exists>(h :: (nat \<times> nat) dv_heap_t) h' out w'. heap_elems h = [le_bytes 8 (7 :: u64)] \<and>
     dv_heap_pop_bulk no_mem (Some h) (Some (replicate 8 0)) 3 (4096, 40) = Some (1, Some h', Some out, w') \<and>
     mset (chunks 8 out 1) + mset (heap_elems h') = {#le_bytes 8 (7 :: u64)#}"
proof -
  obtain h where h: "same_setup demo_heap h" "ordered_state demo_lt (direct_ok demo_heap) h"
    "heap_elems h = [le_bytes 8 (7 :: u64)]" by (rule demo_one)
  have sz: "hp_size h = 1" using length_heap_elems [of h] h(3) by (simp add: word_unat_eq_iff)
  have es: "hp_elem_size h = 8" using same_setupD(1) [OF h(1)] by (simp add: demo_heap_fields)
  obtain n h' out w' where r: "dv_heap_pop_bulk no_mem (Some h) (Some (replicate 8 0)) 3 (4096, 40) =
      Some (n, Some h', Some out, w')" "unat n = 1"
    "mset (heap_elems h) = mset (chunks 8 out (unat n)) + mset (heap_elems h')"
    using heap_pop_bulk_sorted [OF one_ordered [OF h(1)] h(2) UNIV_I, of 3 "replicate 8 0" no_mem "(4096, 40)"] sz es
    by (auto simp: Let_def simp del: dv_heap_pop_bulk.simps)
  then have "n = 1" by (simp add: word_unat_eq_iff)
  then show ?thesis using r h(3) by (metis mset.simps unat_1)
qed

section \<open>Order, index maps, initialization\<close>

text \<open>
  C19: for a heap of a built-in key type whose keys lie in the elements (no indirect key) and inside their
  bounds, and none of whose keys is a NaN, \<open>dv_heap_is_valid\<close> decides heap order exactly: it answers true if
  and only if no element has a key numerically below that of its parent (above it, for a max-heap).
\<close>
theorem heap_is_valid_exact:
  assumes "heap_inv h" "built_in (hp_key_type h)" "\<not> hp_key_indirect h"
    and "unat (hp_key_offset h) + unat (dv_heap_key_width (hp_key_type h)) \<le> unat (hp_elem_size h)"
    and "list_all (\<lambda>e. key_comparable (hp_key_type h) (direct_key h e)) (heap_elems h)"
  shows "dv_heap_is_valid X (Some h) w = Some (\<forall>i < length (heap_elems h). 0 < i \<longrightarrow>
     (let key = (\<lambda>j. key_rank (hp_key_type h) (direct_key h (heap_elems h ! j))); p = (i - 1) div 2 in
      if hp_order h = DV_HEAP_MIN then key p \<le> key i else key i \<le> key p))"
proof -
  have d: "direct_heap h" using assms(2-4) by unfold_locales
  have mem: "heap_mem h" using assms(1) by (simp add: heap_inv_def)
  have "list_all (direct_ok h) (heap_elems h)"
    using assms(5) mem length_heap_elem [of h] by (auto simp: list_all_length direct_ok_def)
  then have wf: "ordered_heap.wf_heap (direct_ok h) h h"
    using assms(1) by (simp add: ordered_heap.wf_heap_def [OF direct_heap.is_ordered [OF d]])
  show ?thesis
    unfolding ordered_heap.is_valid_refines [OF direct_heap.is_ordered [OF d] wf UNIV_I]
    by (auto simp: heap_ordered_def key_before_def Let_def not_less)
qed

theorem heap_is_valid_exact_witness:
  "dv_heap_is_valid no_mem (Some edited_heap) (4096, 1) = Some False \<and> dv_heap_is_valid no_mem (Some edited_max_heap) (4096, 1) = Some True"
proof
  have "built_in (hp_key_type edited_heap)" "\<not> hp_key_indirect edited_heap"
    "unat (hp_key_offset edited_heap) + unat (dv_heap_key_width (hp_key_type edited_heap)) \<le> unat (hp_elem_size edited_heap)"
    "list_all (\<lambda>e. key_comparable (hp_key_type edited_heap) (direct_key edited_heap e)) (heap_elems edited_heap)"
    by code_simp+
  note v = heap_is_valid_exact [OF edited_heap_inv this]
  show "dv_heap_is_valid no_mem (Some edited_heap) (4096, 1) = Some False" unfolding v by code_simp
  have "built_in (hp_key_type edited_max_heap)" "\<not> hp_key_indirect edited_max_heap"
    "unat (hp_key_offset edited_max_heap) + unat (dv_heap_key_width (hp_key_type edited_max_heap)) \<le> unat (hp_elem_size edited_max_heap)"
    "list_all (\<lambda>e. key_comparable (hp_key_type edited_max_heap) (direct_key edited_max_heap e)) (heap_elems edited_max_heap)"
    by code_simp+
  note v = heap_is_valid_exact [OF edited_max_heap_inv this]
  show "dv_heap_is_valid no_mem (Some edited_max_heap) (4096, 1) = Some True" unfolding v by code_simp
qed

text \<open>
  C17: with a move hook that records the index it is told (\<open>node_on_move\<close> of the unit tests), start from an
  empty heap and make any sequence of calls of push, pop, replace_top, remove_at, update_at, heapify, build,
  push_bulk, pop_bulk, clear, reset, reserve and shrink_to_fit, failing or not, and of key changes of a node
  followed by update_at with the index it has on record. The caller pushes no node that is in the heap already.
  Then every node in the heap has its own index on record, so that the recorded index can be passed to
  \<open>update_at\<close> and \<open>remove_at\<close>, and the heap is ordered by the keys the nodes have now.
\<close>
theorem heap_index_map:
  assumes "node_step\<^sup>*\<^sup>* (node_heap m, w) (h', w')"
  shows "distinct (heap_elems h') \<and>
     (\<forall>i < hp_size h'. nw_index w' (le_load (heap_elems h' ! unat i)) = i) \<and>
     (\<forall>i < hp_size h'. 0 < i \<longrightarrow>
        nw_key w' (le_load (heap_elems h' ! unat ((i - 1) div 2))) \<le> nw_key w' (le_load (heap_elems h' ! unat i)))"
proof -
  let ?K = "nw_key w'"
  have m: "node_mapped m (h', w')" by (rule node_run_mapped [OF assms node_mapped_start])
  then have r: "distinct (heap_elems h')" "heap_ordered (node_lt m ?K) (heap_elems h')"
    by (simp_all add: node_mapped_def nodes.mapped_def)
  have "?K (le_load (heap_elems h' ! unat ((i - 1) div 2))) \<le> ?K (le_load (heap_elems h' ! unat i))"
    if i: "i < hp_size h'" "0 < i" for i
    using r(2) i unat_parent [of i] unfolding heap_ordered_def
    by (auto simp: key_before_def node_heap_fields le_load_bytes word_less_nat_alt word_le_def
        node_heap_def heap_configured_def node_heap_config_def not_less)
  then show ?thesis using node_mapped_elem(2) [OF m] r(1) by simp
qed

definition node_world_0 :: node_world where
  "node_world_0 = \<lparr>nw_heap = (4096, 1), nw_key = (\<lambda>p. p), nw_index = (\<lambda>p. 7), nw_moves = 0\<rparr>"

text \<open>Two nodes are built into a heap, and the key of the first is raised from 3 to 9.\<close>

definition node_demo :: "(node_world dv_heap_t \<times> node_world \<times> node_world dv_heap_t \<times> node_world) option" where
  "node_demo = do {
     (_, p, w1) \<leftarrow> dv_heap_build node_mem (Some (node_heap 0)) (Some (le_bytes 8 (5 :: ptr) @ le_bytes 8 (3 :: ptr))) 2 node_world_0;
     h1 \<leftarrow> p;
     (_, q, w2) \<leftarrow> dv_heap_update_at node_mem (Some h1) (nw_index w1 3) (Some (Ext (le_bytes 8 (3 :: ptr)))) (set_key 3 9 w1);
     h2 \<leftarrow> q;
     Some (h1, w1, h2, w2) }"

theorem heap_index_map_witness:
  "\<exists>h1 w1 h2 w2. node_demo = Some (h1, w1, h2, w2) \<and>
     heap_elems h1 = [le_bytes 8 (3 :: ptr), le_bytes 8 (5 :: ptr)] \<and>
     heap_elems h2 = [le_bytes 8 (5 :: ptr), le_bytes 8 (3 :: ptr)] \<and> nw_index w2 5 = 0 \<and> nw_index w2 3 = 1"
proof -
  have v: "map_option (\<lambda>(h1, w1, h2, w2). (heap_elems h1, heap_elems h2)) node_demo =
      Some ([le_bytes 8 (3 :: ptr), le_bytes 8 (5 :: ptr)], [le_bytes 8 (5 :: ptr), le_bytes 8 (3 :: ptr)])" by code_simp
  then obtain h1 w1 h2 w2 where d: "node_demo = Some (h1, w1, h2, w2)"
    and e1: "heap_elems h1 = [le_bytes 8 (3 :: ptr), le_bytes 8 (5 :: ptr)]"
    and e2: "heap_elems h2 = [le_bytes 8 (5 :: ptr), le_bytes 8 (3 :: ptr)]"
    by auto
  obtain st1 st2 where
    c1: "dv_heap_build node_mem (Some (node_heap 0)) (Some (le_bytes 8 (5 :: ptr) @ le_bytes 8 (3 :: ptr))) 2 node_world_0 = Some (st1, Some h1, w1)"
    and c2: "dv_heap_update_at node_mem (Some h1) (nw_index w1 3) (Some (Ext (le_bytes 8 (3 :: ptr)))) (set_key 3 9 w1) = Some (st2, Some h2, w2)"
    using d unfolding node_demo_def by (auto simp: bind_eq_Some_conv simp del: dv_heap_build.simps dv_heap_update_at.simps)
  have "heap_call_step node_mem (ptr_ok UNIV) (node_heap 0, node_world_0) (h1, w1)"
  proof (rule heap_call_step.build [OF _ _ _ c1])
    have cs: "chunks (unat (hp_elem_size (node_heap 0))) (le_bytes 8 (5 :: ptr) @ le_bytes 8 (3 :: ptr)) (unat (2 :: size_t)) =
        [le_bytes 8 (5 :: ptr), le_bytes 8 (3 :: ptr)]" unfolding node_heap_fields by code_simp
    show "list_all (ptr_ok UNIV) (chunks (unat (hp_elem_size (node_heap 0))) (le_bytes 8 (5 :: ptr) @ le_bytes 8 (3 :: ptr)) (unat (2 :: size_t)))"
      unfolding cs by (simp add: ptr_ok_def)
    show "distinct (chunks (unat (hp_elem_size (node_heap 0))) (le_bytes 8 (5 :: ptr) @ le_bytes 8 (3 :: ptr)) (unat (2 :: size_t)))"
      unfolding cs by code_simp
  qed (simp add: node_heap_fields)
  then have "node_step (node_heap 0, node_world_0) (h1, w1)" by (rule node_step.heap_call)
  moreover have "node_step (h1, w1) (h2, w2)" by (rule node_step.rekey [OF _ c2]) (simp add: e1)
  ultimately have run: "node_step\<^sup>*\<^sup>* (node_heap 0, node_world_0) (h2, w2)" by simp
  have "hp_size h2 = 2" using length_heap_elems [of h2] e2 by (simp add: word_unat_eq_iff)
  then have "(0 :: size_t) < hp_size h2" "(1 :: size_t) < hp_size h2" by simp_all
  then have "nw_index w2 (le_load (heap_elems h2 ! unat (0 :: size_t))) = 0" "nw_index w2 (le_load (heap_elems h2 ! unat (1 :: size_t))) = 1"
    using heap_index_map [OF run] by blast+
  then have "nw_index w2 5 = 0" "nw_index w2 3 = 1" using e2 by (simp_all add: le_load_bytes)
  then show ?thesis using d e1 e2 by blast
qed

text \<open>
  C20: \<open>dv_heap_init\<close> accepts exactly the documented configurations: the key lies inside the
  element, or the element is one pointer when keys are indirect; a custom key has a comparator; the
  order is one of the two. A rejected one gives INVALID and a zeroed block without an allocation.
\<close>
theorem heap_init_exact:
  assumes "libc_heap L" "\<And>a. allocator = Some a \<Longrightarrow> allocator_contract a"
  shows "\<exists>status h' w'. dv_heap_init L (Some h) (Some c) allocator w = Some (status, Some h', w') \<and>
     (status = DV_HEAP_ERR_INVALID \<longleftrightarrow> \<not> heap_config_ok c allocator) \<and>
     (status = DV_HEAP_ERR_INVALID \<longrightarrow> w' = w) \<and>
     (status = DV_HEAP_OK \<longrightarrow> heap_inv h' \<and> heap_elems h' = [] \<and> hp_capacity h' = hcf_initial_capacity c) \<and>
     (status \<noteq> DV_HEAP_OK \<longrightarrow> h' = zero_heap)"
proof (cases "heap_config_ok c allocator")
  case True
  show ?thesis using dv_heap_init_spec [OF assms(1) True assms(2), of h w] True
    by (auto simp del: dv_heap_init.simps)
next
  case False
  then show ?thesis using dv_heap_init_invalid [OF False, of L h w] by (simp del: dv_heap_init.simps)
qed

theorem heap_init_exact_witness:
  "\<exists>h' w'. dv_heap_init bump_libc (Some zero_heap) (Some demo_heap_cfg) None (4096, 1) = Some (DV_HEAP_OK, Some h', w') \<and>
     heap_inv h' \<and> heap_elems h' = [] \<and> hp_capacity h' = 2"
  using heap_init_exact [OF bump.libc_heap_axioms, of None zero_heap demo_heap_cfg "(4096, 1)"] demo_heap_cfg_ok
  unfolding demo_heap_init by (simp add: demo_heap_cfg_def)

text \<open>
  The byte count of a buffer, one slot beyond the capacity, is computed without wrap-around: it is
  refused exactly when it is not representable or when a child index of some slot could wrap, so that
  \<open>2 * index + 2\<close> is exact for every slot of an accepted buffer.
\<close>

lemma heap_bytes_for_exact:
  "(case dv_heap_bytes_for cap es of
      Inr n \<Rightarrow> unat n = (if cap = 0 then 0 else (unat cap + 1) * unat es) \<and>
        (\<forall>i :: size_t. i < cap \<longrightarrow> unat (2 * i + 2) = 2 * unat i + 2)
    | Inl status \<Rightarrow> status = DV_HEAP_ERR_OVERFLOW \<and> cap \<noteq> 0 \<and>
        (2 ^ 63 - 2 < unat cap \<or> 2 ^ 64 \<le> (unat cap + 1) * unat es))"
proof (cases "heap_fits cap es")
  case True
  then have c: "unat cap \<le> 2 ^ 63 - 2" by (simp add: heap_fits_def)
  have "unat (2 * i + 2) = 2 * unat i + 2" if "i < cap" for i
  proof -
    have "unat i < unat cap" using that by (simp add: word_less_nat_alt)
    then have "2 * unat i + 2 < 2 ^ 64" using c by simp
    then show ?thesis by (simp add: unat_word_ariths)
  qed
  then show ?thesis using dv_heap_bytes_for_Inr [OF True] by (auto simp: heap_bytes_def)
next
  case False
  then have "cap \<noteq> 0" using unat_lt_64 [of es] by (auto simp: heap_fits_def)
  then show ?thesis using dv_heap_bytes_for_Inl [OF False] False by (auto simp: heap_fits_def not_le not_less)
qed

section \<open>An argument inside the heap\<close>

text \<open>
  C21: an argument that points into the heap is not preserved. The owner of any heap, in any order, changes
  one element in place, so that the heap may be out of order at that slot, and calls \<open>dv_heap_update_at\<close> with
  the pointer \<open>dv_heap_at\<close> returns for it. If the heap is in order the call changes no element. If it is not, the
  call returns OK and restores heap order, but by copying another element, that of the parent or of a child,
  over the edited one: one occurrence of the edited element is lost and the other one is there once more. (With a
  copy of the element as the argument nothing is lost.)
\<close>
theorem heap_update_alias_loses:
  assumes "ordered_heap lt ok X h W" "heap_inv h" "list_all ok (heap_elems h)" "w \<in> W"
    and "index < hp_size h" "hole_from lt 0 (heap_elems h) (unat index)"
  shows "\<exists>h' w'. dv_heap_update_at X (Some h) index (map_option Own (dv_heap_at (Some h) index)) w =
       Some (DV_HEAP_OK, Some h', w') \<and> ordered_state lt ok h' \<and>
     (if heap_ordered lt (heap_elems h) then heap_elems h' = heap_elems h
      else \<exists>j < length (heap_elems h).
        (0 < unat index \<and> j = (unat index - 1) div 2 \<or> 0 < j \<and> (j - 1) div 2 = unat index) \<and>
        heap_elems h ! j \<noteq> heap_elems h ! unat index \<and>
        heap_elems h' = (heap_elems h)[unat index := heap_elems h ! j] \<and>
        count (mset (heap_elems h)) (heap_elems h ! unat index) =
          Suc (count (mset (heap_elems h')) (heap_elems h ! unat index)))"
proof -
  let ?xs = "heap_elems h" and ?i = "unat index"
  let ?j = "alias_source lt ?xs ?i"
  note ho = ordered_heap.axioms(1) [OF assms(1)]
  have i: "?i < length ?xs" using assms(5) by (simp add: word_less_nat_alt)
  have wf: "ordered_heap.wf_heap ok h h"
    using assms(2,3) by (simp add: ordered_heap.wf_heap_def [OF assms(1)])
  obtain h' w' where c: "dv_heap_update_at X (Some h) index (map_option Own (dv_heap_at (Some h) index)) w =
      Some (DV_HEAP_OK, Some h', w')" "ordered_heap.wf_heap ok h h'" "heap_elems h' = ?xs[?i := ?xs ! ?j]"
    using ordered_heap.update_alias [OF assms(1) wf assms(4-6)] by blast
  have "ordered_state lt ok h'"
    using c(2,3) heap_order.alias_ordered [OF ho assms(3,6)]
    by (simp add: ordered_state_def ordered_heap.wf_heap_def [OF assms(1)])
  moreover have "heap_elems h' = ?xs" if "heap_ordered lt ?xs"
    using heap_order.alias_source_stays [OF ho that i] c(3) by simp
  moreover have "\<exists>j < length ?xs. (0 < ?i \<and> j = parent ?i \<or> 0 < j \<and> parent j = ?i) \<and> ?xs ! j \<noteq> ?xs ! ?i \<and>
      heap_elems h' = ?xs[?i := ?xs ! j] \<and>
      count (mset ?xs) (?xs ! ?i) = Suc (count (mset (heap_elems h')) (?xs ! ?i))" if "\<not> heap_ordered lt ?xs"
  proof -
    note s = heap_order.alias_source_moves [OF ho assms(3) i that assms(6)]
    have "mset ?xs = add_mset (?xs ! ?i) (mset ?xs - {#?xs ! ?i#})" using i by simp
    then have "count (mset ?xs) (?xs ! ?i) = Suc (count (mset (heap_elems h')) (?xs ! ?i))"
      using s(2) i unfolding c(3) mset_update [OF i] by (metis count_add_mset)
    moreover have "0 < ?j \<or> 0 < ?i" using s(2) by (metis gr0I)
    ultimately show ?thesis using s c(3) by (intro exI [of _ ?j]) auto
  qed
  ultimately show ?thesis using c(1) by (auto simp del: dv_heap_update_at.simps dv_heap_at.simps)
qed

text \<open>The minimum 1 at the root of the heap 1, 5, 3 was set to 9 in place: the update leaves 3, 5, 3.\<close>

theorem heap_update_alias_loses_witness:
  "\<exists>h' w'. dv_heap_update_at no_mem (Some edited_heap) 0 (map_option Own (dv_heap_at (Some edited_heap) 0)) (4096, 1) =
       Some (DV_HEAP_OK, Some h', w') \<and> [9,0,0,0] \<in> set (heap_elems edited_heap) \<and> [9,0,0,0] \<notin> set (heap_elems h')"
proof -
  have e: "heap_elems edited_heap ! unat (0 :: size_t) = [9,0,0,0]" by code_simp
  have one: "count (mset (heap_elems edited_heap)) [9,0,0,0] = Suc 0" by code_simp
  have "(0 :: size_t) < hp_size edited_heap" by code_simp
  from heap_update_alias_loses [OF edited.ordered.ordered_heap_axioms edited_heap_inv edited_heap_ok UNIV_I this edited_heap_hole(1)]
  obtain h' w' where c: "dv_heap_update_at no_mem (Some edited_heap) 0 (map_option Own (dv_heap_at (Some edited_heap) 0)) (4096, 1) =
      Some (DV_HEAP_OK, Some h', w')"
    and "count (mset (heap_elems edited_heap)) [9,0,0,0] = Suc (count (mset (heap_elems h')) [9,0,0,0])"
    unfolding e if_not_P [OF edited_heap_hole(2)] by metis
  then have "[9,0,0,0] \<notin> set (heap_elems h')" using one by (simp add: count_mset_0_iff)
  moreover have "[9,0,0,0] \<in> set (heap_elems edited_heap)" unfolding edited_heap_elems by simp
  ultimately show ?thesis using c by blast
qed

end
