(* ===== verification/Dv_Queue.thy ===== *)
theory Dv_Queue
  imports Alloc_Hooks
begin

text \<open>
  The bounded queue of \<open>src/queue/dv_queue.h\<close> and \<open>src/queue/dv_queue.c\<close>: a ring of cells, each with a
  sequence number that says which position it waits for. This theory holds the data, the accesses
  to the shared memory that an operation consists of, and the operations as one thread executes
  them with no other thread running. \<open>Queue_Machine\<close> interleaves the same accesses.

  A \<open>void *\<close> is a 64 bit word, null the word 0. A weak compare-exchange may fail although the
  comparison holds; the list \<open>fails\<close> says which of the coming ones do.
\<close>

section \<open>Sizes and allocation\<close>

definition dv_is_power_of_two :: "size_t \<Rightarrow> bool" where
  "dv_is_power_of_two x \<longleftrightarrow> x \<noteq> 0 \<and> x AND (x - 1) = 0"

text \<open>The out parameter may be null; it is written only on success.\<close>

definition dv_align_up_size :: "size_t \<Rightarrow> size_t \<Rightarrow> size_t option \<Rightarrow> bool \<times> size_t option" where
  "dv_align_up_size sz align out =
     (if out = None \<or> \<not> dv_is_power_of_two align then (False, out)
      else if sz > SIZE_MAX - (align - 1) then (False, out)
      else (True, Some ((sz + align - 1) AND NOT (align - 1))))"

definition dv_aligned_alloc :: "'w libc \<Rightarrow> size_t \<Rightarrow> size_t \<Rightarrow> 'w \<Rightarrow> block option \<times> 'w" where
  "dv_aligned_alloc L align sz w =
     (if \<not> dv_is_power_of_two align then (None, w)
      else case dv_align_up_size sz align (Some 0) of
        (True, Some padded) \<Rightarrow> c_aligned_alloc L align padded w
      | _ \<Rightarrow> (None, w))"

definition dv_aligned_free :: "'w libc \<Rightarrow> block \<Rightarrow> 'w \<Rightarrow> 'w" where
  "dv_aligned_free L b w = c_free L b w"

section \<open>Data\<close>

record cell_t =
  sequence :: size_t
  cell_data :: ptr

text \<open>
  The control block and the array of cells, with the two blocks of memory they live in. The head and
  the tail are the next positions to write and to read.
\<close>

record mpmc_queue_t =
  q_block :: block
  buffer_block :: block
  buffer :: "cell_t list"
  buffer_mask :: size_t
  q_head :: size_t
  q_tail :: size_t

definition sizeof_mpmc_queue_t :: size_t where
  "sizeof_mpmc_queue_t = 192"

definition sizeof_cell_t :: size_t where
  "sizeof_cell_t = 64"

section \<open>Init and free\<close>

definition fresh_cell :: "nat \<Rightarrow> cell_t" where
  "fresh_cell i = \<lparr>sequence = of_nat i, cell_data = 0\<rparr>"

definition mpmc_init :: "'w libc \<Rightarrow> size_t \<Rightarrow> 'w \<Rightarrow> mpmc_queue_t option \<times> 'w" where
  "mpmc_init L buffer_size w =
     (if buffer_size < 2 \<or> buffer_size AND (buffer_size - 1) \<noteq> 0 then (None, w)
      else if buffer_size > SIZE_MAX div 2 then (None, w)
      else case dv_align_up_size sizeof_mpmc_queue_t DV_CACHE_LINE_SIZE (Some 0) of
        (True, Some q_size) \<Rightarrow>
          (case dv_aligned_alloc L DV_CACHE_LINE_SIZE q_size w of
             (None, w1) \<Rightarrow> (None, w1)
           | (Some q, w1) \<Rightarrow>
               (if buffer_size > SIZE_MAX div sizeof_cell_t then (None, dv_aligned_free L q w1)
                else case dv_align_up_size (sizeof_cell_t * buffer_size) DV_CACHE_LINE_SIZE (Some 0) of
                  (True, Some buf_size) \<Rightarrow>
                    (case dv_aligned_alloc L DV_CACHE_LINE_SIZE buf_size w1 of
                       (None, w2) \<Rightarrow> (None, dv_aligned_free L q w2)
                     | (Some raw_buffer, w2) \<Rightarrow>
                         (Some \<lparr>q_block = q, buffer_block = raw_buffer,
                            buffer = map fresh_cell [0..<unat buffer_size], buffer_mask = buffer_size - 1,
                            q_head = 0, q_tail = 0\<rparr>, w2))
                | _ \<Rightarrow> (None, dv_aligned_free L q w1)))
      | _ \<Rightarrow> (None, w))"

definition mpmc_free :: "'w libc \<Rightarrow> mpmc_queue_t option \<Rightarrow> 'w \<Rightarrow> 'w" where
  "mpmc_free L p w = (case p of None \<Rightarrow> w | Some q \<Rightarrow> dv_aligned_free L (q_block q) (dv_aligned_free L (buffer_block q) w))"

section \<open>Shared accesses\<close>

definition capacity :: "mpmc_queue_t \<Rightarrow> size_t" where
  "capacity q = buffer_mask q + 1"

definition slot :: "mpmc_queue_t \<Rightarrow> size_t \<Rightarrow> nat" where
  "slot q pos = unat (pos AND buffer_mask q)"

text \<open>The cell of a position; \<open>None\<close> for an access out of the array.\<close>

definition cell_at :: "mpmc_queue_t \<Rightarrow> size_t \<Rightarrow> cell_t option" where
  "cell_at q pos = (if slot q pos < length (buffer q) then Some (buffer q ! slot q pos) else None)"

definition write_cell :: "mpmc_queue_t \<Rightarrow> size_t \<Rightarrow> (cell_t \<Rightarrow> cell_t) \<Rightarrow> mpmc_queue_t" where
  "write_cell q pos f = q\<lparr>buffer := (buffer q)[slot q pos := f (buffer q ! slot q pos)]\<rparr>"

text \<open>
  What the sequence number of the cell says about the position: it is this thread's turn, the cell
  is a lap behind, or the position is out of date. A producer expects \<open>pos\<close>, a consumer \<open>pos + 1\<close>.
\<close>

datatype verdict = Claim | Refuse | Retry

definition inspect :: "size_t \<Rightarrow> size_t \<Rightarrow> size_t \<Rightarrow> verdict" where
  "inspect cap expected seq = (if seq = expected then Claim else if expected - seq \<le> cap then Refuse else Retry)"

text \<open>The compare-exchange on a counter: it fails when the value differs, or spuriously.\<close>

definition cas_ok :: "size_t \<Rightarrow> size_t \<Rightarrow> bool list \<Rightarrow> bool" where
  "cas_ok current expected fails \<longleftrightarrow> current = expected \<and> \<not> (fails \<noteq> [] \<and> hd fails)"

section \<open>The operations\<close>

partial_function (option) enqueue_loop ::
  "mpmc_queue_t \<Rightarrow> ptr \<Rightarrow> size_t \<Rightarrow> bool list \<Rightarrow> (bool \<times> mpmc_queue_t \<times> bool list) option"
where
  "enqueue_loop q data pos fails = do {
     cell \<leftarrow> cell_at q pos;
     (case inspect (capacity q) pos (sequence cell) of
        Claim \<Rightarrow>
          (if cas_ok (q_head q) pos fails
           then Some (True, write_cell (write_cell (q\<lparr>q_head := pos + 1\<rparr>) pos (cell_data_update (\<lambda>_. data)))
                  pos (sequence_update (\<lambda>_. pos + 1)), drop 1 fails)
           else enqueue_loop q data (q_head q) (drop 1 fails))
      | Refuse \<Rightarrow> Some (False, q, fails)
      | Retry \<Rightarrow> enqueue_loop q data (q_head q) fails) }"

fun mpmc_enqueue :: "mpmc_queue_t option \<Rightarrow> ptr \<Rightarrow> bool list \<Rightarrow> (bool \<times> mpmc_queue_t option \<times> bool list) option" where
  "mpmc_enqueue None data fails = Some (False, None, fails)"
| "mpmc_enqueue (Some q) data fails = do {
     (ok, q1, fails1) \<leftarrow> enqueue_loop q data (q_head q) fails;
     Some (ok, Some q1, fails1) }"

text \<open>The value read comes with the answer: \<open>None\<close> for \<open>false\<close>.\<close>

partial_function (option) dequeue_loop ::
  "mpmc_queue_t \<Rightarrow> size_t \<Rightarrow> bool list \<Rightarrow> (ptr option \<times> mpmc_queue_t \<times> bool list) option"
where
  "dequeue_loop q pos fails = do {
     cell \<leftarrow> cell_at q pos;
     (case inspect (capacity q) (pos + 1) (sequence cell) of
        Claim \<Rightarrow>
          (if cas_ok (q_tail q) pos fails
           then Some (Some (cell_data cell), write_cell (q\<lparr>q_tail := pos + 1\<rparr>) pos (sequence_update (\<lambda>_. pos + capacity q)),
                  drop 1 fails)
           else dequeue_loop q (q_tail q) (drop 1 fails))
      | Refuse \<Rightarrow> Some (None, q, fails)
      | Retry \<Rightarrow> dequeue_loop q (q_tail q) fails) }"

declare enqueue_loop.simps [code] dequeue_loop.simps [code]

text \<open>The object behind \<open>data\<close> is set to null first; a null \<open>data\<close> or queue is refused.\<close>

fun mpmc_dequeue ::
  "mpmc_queue_t option \<Rightarrow> ptr option \<Rightarrow> bool list \<Rightarrow> (bool \<times> mpmc_queue_t option \<times> ptr option \<times> bool list) option"
where
  "mpmc_dequeue None data fails = Some (False, None, data, fails)"
| "mpmc_dequeue (Some q) None fails = Some (False, Some q, None, fails)"
| "mpmc_dequeue (Some q) (Some old) fails = do {
     (r, q1, fails1) \<leftarrow> dequeue_loop q (q_tail q) fails;
     (case r of
        None \<Rightarrow> Some (False, Some q1, Some 0, fails1)
      | Some d \<Rightarrow> Some (True, Some q1, Some d, fails1)) }"

text \<open>The loops of the bulk operations, \<open>n\<close> the rounds left and \<open>k\<close> the index; \<open>None\<close> for an access out of the array.\<close>

fun enqueue_each ::
  "nat \<Rightarrow> mpmc_queue_t option \<Rightarrow> ptr list \<Rightarrow> nat \<Rightarrow> size_t \<Rightarrow> bool list \<Rightarrow> (size_t \<times> mpmc_queue_t option \<times> bool list) option"
where
  "enqueue_each 0 p data_array k success_count fails = Some (success_count, p, fails)"
| "enqueue_each (Suc n) p data_array k success_count fails =
     (if k < length data_array then do {
        (ok, p1, fails1) \<leftarrow> mpmc_enqueue p (data_array ! k) fails;
        (if ok then enqueue_each n p1 data_array (k + 1) (success_count + 1) fails1
         else Some (success_count, p1, fails1)) }
      else None)"

definition mpmc_enqueue_bulk ::
  "mpmc_queue_t option \<Rightarrow> ptr list option \<Rightarrow> size_t \<Rightarrow> bool list \<Rightarrow> (size_t \<times> mpmc_queue_t option \<times> bool list) option"
where
  "mpmc_enqueue_bulk p data_array cnt fails =
     (case (p, data_array) of
        (Some q, Some xs) \<Rightarrow> enqueue_each (unat cnt) p xs 0 0 fails
      | _ \<Rightarrow> Some (0, p, fails))"

fun dequeue_each ::
  "nat \<Rightarrow> mpmc_queue_t option \<Rightarrow> ptr list \<Rightarrow> nat \<Rightarrow> size_t \<Rightarrow> bool list \<Rightarrow>
     (size_t \<times> mpmc_queue_t option \<times> ptr list \<times> bool list) option"
where
  "dequeue_each 0 p data_array k success_count fails = Some (success_count, p, data_array, fails)"
| "dequeue_each (Suc n) p data_array k success_count fails =
     (if k < length data_array then do {
        (ok, p1, d, fails1) \<leftarrow> mpmc_dequeue p (Some (data_array ! k)) fails;
        x \<leftarrow> d;
        (if ok then dequeue_each n p1 (data_array[k := x]) (k + 1) (success_count + 1) fails1
         else Some (success_count, p1, data_array[k := x], fails1)) }
      else None)"

definition mpmc_dequeue_bulk ::
  "mpmc_queue_t option \<Rightarrow> ptr list option \<Rightarrow> size_t \<Rightarrow> bool list \<Rightarrow>
     (size_t \<times> mpmc_queue_t option \<times> ptr list option \<times> bool list) option"
where
  "mpmc_dequeue_bulk p data_array cnt fails =
     (case (p, data_array) of
        (Some q, Some xs) \<Rightarrow> do {
          (n, p1, ys, fails1) \<leftarrow> dequeue_each (unat cnt) p xs 0 0 fails;
          Some (n, p1, Some ys, fails1) }
      | _ \<Rightarrow> Some (0, p, data_array, fails))"

text \<open>The clamp on the difference of the two counters, sampled one after the other.\<close>

definition clamp_size :: "size_t \<Rightarrow> size_t \<Rightarrow> size_t \<Rightarrow> size_t" where
  "clamp_size cap tail_seen head_seen = (if head_seen - tail_seen > cap then cap else head_seen - tail_seen)"

definition mpmc_size :: "mpmc_queue_t option \<Rightarrow> size_t" where
  "mpmc_size p = (case p of None \<Rightarrow> 0 | Some q \<Rightarrow> clamp_size (capacity q) (q_tail q) (q_head q))"

end
