(* ===== verification/Queue_Props.thy ===== *)
theory Queue_Props
  imports Dv_Queue
begin

text \<open>
  The queue as one thread sees it: a ring that holds a list of at most \<open>capacity\<close> values, at any
  value of the counters, the wrap-around at \<open>2^64\<close> included.
\<close>

section \<open>Slots of a ring\<close>

lemma unat_and_mask: "unat (x AND mask k :: size_t) = unat x mod 2 ^ k"
  by (simp add: unsigned_take_bit_eq flip: take_bit_eq_mask) (simp add: take_bit_eq_mod)

lemma mod_pow_64: "k \<le> 64 \<Longrightarrow> (n mod 18446744073709551616) mod 2 ^ k = (n mod 2 ^ k :: nat)"
  using le_imp_power_dvd [of k 64 "2 :: nat"] by (simp add: mod_mod_cancel)

lemma ring_slot: "k \<le> 64 \<Longrightarrow> unat ((t + of_nat j) AND mask k :: size_t) = (unat t + j) mod 2 ^ k"
  by (simp add: unat_and_mask unat_word_ariths unat_of_nat mod_pow_64 mod_add_right_eq)

lemma ring_inj_le:
  fixes t i j n :: nat
  assumes "(t + i) mod n = (t + j) mod n" "j < n" "i \<le> j" shows "i = j"
proof -
  have "n dvd (t + j) - (t + i)" using assms(1,3) mod_eq_dvd_iff_nat [of "t + i" "t + j" n] by simp
  then have "n dvd j - i" by simp
  moreover have "j - i < n" using assms(2) by simp
  ultimately have "j - i = 0" by (metis nat_dvd_not_less neq0_conv)
  then show ?thesis using assms(3) by simp
qed

lemma ring_inj:
  fixes t i j n :: nat
  assumes "(t + i) mod n = (t + j) mod n" "i < n" "j < n" shows "i = j"
proof (cases "i \<le> j")
  case True
  then show ?thesis by (rule ring_inj_le [OF assms(1,3)])
next
  case False
  then show ?thesis using ring_inj_le [OF assms(1) [symmetric] assms(2)] by simp
qed

section \<open>The contents\<close>

text \<open>
  The ring has \<open>2^k\<close> cells. Counting from the tail, the first ones hold the values and announce the
  next position, the others wait for theirs.
\<close>

definition ring_cell :: "size_t \<Rightarrow> ptr list \<Rightarrow> nat \<Rightarrow> cell_t \<Rightarrow> bool" where
  "ring_cell t xs j c \<longleftrightarrow> (if j < length xs then c = \<lparr>sequence = t + of_nat j + 1, cell_data = xs ! j\<rparr> else sequence c = t + of_nat j)"

definition ring :: "nat \<Rightarrow> mpmc_queue_t \<Rightarrow> ptr list \<Rightarrow> bool" where
  "ring k q xs \<longleftrightarrow> 1 \<le> k \<and> k < 64 \<and> length (buffer q) = 2 ^ k \<and> buffer_mask q = mask k \<and> length xs \<le> 2 ^ k \<and>
     q_head q = q_tail q + of_nat (length xs) \<and>
     (\<forall>j < 2 ^ k. ring_cell (q_tail q) xs j (buffer q ! ((unat (q_tail q) + j) mod 2 ^ k)))"

lemma ringD:
  assumes "ring k q xs"
  shows "1 \<le> k" "k < 64" "length (buffer q) = 2 ^ k" "buffer_mask q = mask k" "length xs \<le> 2 ^ k"
    "q_head q = q_tail q + of_nat (length xs)"
    "j < 2 ^ k \<Longrightarrow> ring_cell (q_tail q) xs j (buffer q ! ((unat (q_tail q) + j) mod 2 ^ k))"
  using assms by (simp_all add: ring_def)

lemma ring_size: "ring k q xs \<Longrightarrow> capacity q = 2 ^ k" "ring k q xs \<Longrightarrow> unat (2 ^ k :: size_t) = 2 ^ k" "ring k q xs \<Longrightarrow> (2::nat) ^ k < 2 ^ 64"
proof -
  assume r: "ring k q xs"
  show "capacity q = 2 ^ k" using ringD(4) [OF r] by (simp add: capacity_def mask_eq_decr_exp)
  show k: "(2::nat) ^ k < 2 ^ 64" using ringD(2) [OF r] by (intro power_strict_increasing) simp_all
  have "unat (of_nat (2 ^ k) :: size_t) = 2 ^ k" using k unfolding unat_of_nat by (intro mod_less) simp
  then show "unat (2 ^ k :: size_t) = 2 ^ k" by simp
qed

lemma ring_at:
  assumes "ring k q xs"
  shows "slot q (q_tail q + of_nat j) = (unat (q_tail q) + j) mod 2 ^ k" "slot q (q_tail q) = unat (q_tail q) mod 2 ^ k"
    "cell_at q (q_tail q + of_nat j) = Some (buffer q ! ((unat (q_tail q) + j) mod 2 ^ k))"
    "cell_at q (q_tail q) = Some (buffer q ! (unat (q_tail q) mod 2 ^ k))"
  using ringD(2-4) [OF assms] ring_slot [of k "q_tail q" j] ring_slot [of k "q_tail q" 0]
  by (simp_all add: slot_def cell_at_def)

section \<open>Enqueue and dequeue\<close>

text \<open>After spurious failures, a compare-exchange goes through.\<close>

definition after_failures :: "bool list \<Rightarrow> bool list" where
  "after_failures fails = drop 1 (dropWhile id fails)"

lemma enqueue_room:
  assumes r: "ring k q xs" and room: "length xs < 2 ^ k"
  shows "\<exists>q'. enqueue_loop q d (q_head q) fails = Some (True, q', after_failures fails) \<and> ring k q' (xs @ [d]) \<and>
    q_block q' = q_block q \<and> buffer_block q' = buffer_block q \<and> q_tail q' = q_tail q"
proof -
  let ?i = "(unat (q_tail q) + length xs) mod 2 ^ k" and ?n = "length xs"
  let ?q = "write_cell (write_cell (q\<lparr>q_head := q_head q + 1\<rparr>) (q_head q) (cell_data_update (\<lambda>_. d)))
                  (q_head q) (sequence_update (\<lambda>_. q_head q + 1))"
  note D = ringD [OF r] and at = ring_at(1,3) [OF r, of ?n, folded ringD(6) [OF r]]
  have seq: "sequence (buffer q ! ?i) = q_head q" using D(7) [OF room] D(6) by (simp add: ring_cell_def)
  have loop: "enqueue_loop q d (q_head q) fails = Some (True, ?q, after_failures fails)"
  proof (induction fails)
    case (Cons b fails)
    then show ?case by (subst enqueue_loop.simps) (cases b; simp add: at seq inspect_def cas_ok_def after_failures_def)
  qed (subst enqueue_loop.simps, simp add: at seq inspect_def cas_ok_def after_failures_def)
  have buf: "buffer ?q = (buffer q)[?i := \<lparr>sequence = q_head q + 1, cell_data = d\<rparr>]"
    using at(1) D(3) by (cases "buffer q ! ?i") (simp add: write_cell_def slot_def)
  have fields: "buffer_mask ?q = buffer_mask q" "q_tail ?q = q_tail q" "q_head ?q = q_head q + 1" "q_block ?q = q_block q"
    "buffer_block ?q = buffer_block q" by (simp_all add: write_cell_def)
  have "ring_cell (q_tail q) (xs @ [d]) j (buffer ?q ! ((unat (q_tail q) + j) mod 2 ^ k))" if j: "j < 2 ^ k" for j
  proof (cases "j = ?n")
    case True
    then show ?thesis unfolding buf True using D(3,6) by (simp add: ring_cell_def)
  next
    case False
    then have "(unat (q_tail q) + j) mod 2 ^ k \<noteq> ?i" using ring_inj [of "unat (q_tail q)" j "2 ^ k" ?n] j room by auto
    then show ?thesis unfolding buf using D(7) [OF j] False by (auto simp: ring_cell_def nth_append)
  qed
  moreover have "length (buffer ?q) = 2 ^ k" unfolding buf using D(3) by simp
  ultimately have "ring k ?q (xs @ [d])" unfolding ring_def fields using D(1,2,4,6) room by simp
  then show ?thesis using loop fields by blast
qed

lemma enqueue_full:
  assumes r: "ring k q xs" and full: "length xs = 2 ^ k"
  shows "enqueue_loop q d (q_head q) fails = Some (False, q, fails)"
proof -
  note D = ringD [OF r] and s = ring_size [OF r]
  have h: "q_head q = q_tail q + 2 ^ k" using D(6) full by simp
  have c: "cell_at q (q_head q) = Some (buffer q ! (unat (q_tail q) mod 2 ^ k))" using ring_at(3) [OF r, of "2 ^ k"] h by simp
  have "sequence (buffer q ! (unat (q_tail q) mod 2 ^ k)) = q_tail q + 1" using D(7) [of 0] full by (simp add: ring_cell_def)
  moreover have "(2 :: nat) ^ 1 \<le> 2 ^ k" using D(1) by (intro power_increasing) simp_all
  then have "(2 ^ k :: size_t) \<noteq> 1" using s(2) by (metis power_one_right numeral_le_one_iff semiring_norm(69) unat_1)
  moreover have "(2 ^ k :: size_t) - 1 \<le> 2 ^ k" using s(2) by (metis unat_pred word_le_nat_alt diff_le_self word_gt_0 unat_0 power_not_zero zero_neq_numeral)
  ultimately have "inspect (capacity q) (q_head q) (sequence (buffer q ! (unat (q_tail q) mod 2 ^ k))) = Refuse"
    by (simp add: inspect_def h s(1))
  then show ?thesis by (subst enqueue_loop.simps) (simp add: c)
qed

lemma dequeue_some:
  assumes r: "ring k q (x # xs)"
  shows "\<exists>q'. dequeue_loop q (q_tail q) fails = Some (Some x, q', after_failures fails) \<and> ring k q' xs \<and>
    q_block q' = q_block q \<and> buffer_block q' = buffer_block q \<and> q_tail q' = q_tail q + 1"
proof -
  let ?i = "unat (q_tail q) mod 2 ^ k"
  let ?q = "write_cell (q\<lparr>q_tail := q_tail q + 1\<rparr>) (q_tail q) (sequence_update (\<lambda>_. q_tail q + capacity q))"
  note D = ringD [OF r] and at = ring_at [OF r] and s = ring_size [OF r]
  have cell: "buffer q ! ?i = \<lparr>sequence = q_tail q + 1, cell_data = x\<rparr>" using D(7) [of 0] by (simp add: ring_cell_def)
  have loop: "dequeue_loop q (q_tail q) fails = Some (Some x, ?q, after_failures fails)"
  proof (induction fails)
    case (Cons b fails)
    then show ?case by (subst dequeue_loop.simps) (cases b; simp add: at cell inspect_def cas_ok_def after_failures_def)
  qed (subst dequeue_loop.simps, simp add: at cell inspect_def cas_ok_def after_failures_def)
  have buf: "buffer ?q = (buffer q)[?i := (buffer q ! ?i)\<lparr>sequence := q_tail q + 2 ^ k\<rparr>]"
    using at(2) by (simp add: write_cell_def slot_def s(1))
  have fields: "buffer_mask ?q = buffer_mask q" "q_tail ?q = q_tail q + 1" "q_head ?q = q_head q" "q_block ?q = q_block q"
    "buffer_block ?q = buffer_block q" by (simp_all add: write_cell_def)
  have step: "(unat (q_tail q + 1) + j) mod 2 ^ k = (unat (q_tail q) + Suc j) mod 2 ^ k" for j
    using ring_slot [of k "q_tail q + 1" j] ring_slot [of k "q_tail q" "Suc j"] D(2) by (simp add: add.assoc)
  have "ring_cell (q_tail q + 1) xs j (buffer ?q ! ((unat (q_tail q + 1) + j) mod 2 ^ k))" if j: "j < 2 ^ k" for j
  proof (cases "Suc j = 2 ^ k")
    case True
    then have "(unat (q_tail q) + Suc j) mod 2 ^ k = ?i" by simp
    moreover have "q_tail q + 2 ^ k = q_tail q + 1 + of_nat j"
      using True by (metis add.assoc of_nat_Suc of_nat_numeral of_nat_power)
    ultimately show ?thesis using True D(3,5) by (simp add: buf ring_cell_def step)
  next
    case False
    then have j': "Suc j < 2 ^ k" using j by simp
    then have "(unat (q_tail q) + Suc j) mod 2 ^ k \<noteq> ?i" using ring_inj [of "unat (q_tail q)" "Suc j" "2 ^ k" 0] by auto
    then show ?thesis using D(7) [OF j'] by (auto simp: buf ring_cell_def step add.assoc)
  qed
  moreover have "length (buffer ?q) = 2 ^ k" unfolding buf using D(3) by simp
  ultimately have "ring k ?q xs" unfolding ring_def fields using D(1,2,4-6) by (simp add: add.assoc)
  then show ?thesis using loop fields by blast
qed

lemma dequeue_empty:
  assumes r: "ring k q []"
  shows "dequeue_loop q (q_tail q) fails = Some (None, q, fails)"
proof -
  note s = ring_size [OF r]
  have "sequence (buffer q ! (unat (q_tail q) mod 2 ^ k)) = q_tail q" using ringD(7) [OF r, of 0] by (simp add: ring_cell_def)
  moreover have "1 \<le> (2 ^ k :: size_t)" using s(2) by (simp add: word_le_nat_alt)
  ultimately show ?thesis by (subst dequeue_loop.simps) (simp add: ring_at [OF r] inspect_def s(1))
qed

section \<open>Init\<close>

lemma pow2_ge2: "(\<not> (n < 2 \<or> n AND (n - 1) \<noteq> 0)) = (\<exists>k. 1 \<le> k \<and> k < 64 \<and> unat (n :: size_t) = 2 ^ k)"
proof -
  have "(\<not> (n < 2 \<or> n AND (n - 1) \<noteq> 0)) = (2 \<le> unat n \<and> n \<noteq> 0 \<and> n AND (n - 1) = 0)"
    by (auto simp: word_less_nat_alt not_less)
  also have "\<dots> = (2 \<le> unat n \<and> (\<exists>k < 64. unat n = 2 ^ k))" by (simp add: pow2_word_iff)
  also have "\<dots> = (\<exists>k. 1 \<le> k \<and> k < 64 \<and> unat n = 2 ^ k)" by (auto simp: self_le_power Suc_le_eq intro!: Nat.gr0I)
  finally show ?thesis .
qed

lemma mpmc_init_ring:
  assumes i: "mpmc_init L n w = (Some q, w')"
  shows "\<exists>k. unat n = 2 ^ k \<and> k \<le> 57 \<and> ring k q [] \<and> q_tail q = 0"
proof -
  have n: "\<not> (n < 2 \<or> n AND (n - 1) \<noteq> 0)" "\<not> SIZE_MAX div sizeof_cell_t < n"
    and q: "buffer q = map fresh_cell [0..<unat n]" "buffer_mask q = n - 1" "q_head q = 0" "q_tail q = 0"
    using i unfolding mpmc_init_def by (auto split: if_splits prod.splits option.splits bool.splits)
  obtain k where k: "1 \<le> k" "k < 64" "unat n = 2 ^ k" using n(1) unfolding pow2_ge2 by blast
  have "64 * (2::nat) ^ k < 2 ^ 64" using n(2) word_div_guard [of sizeof_cell_t n] k(3) by (simp add: sizeof_cell_t_def not_le)
  then have "k \<le> 57" using power_increasing [of 58 k "2 :: nat"] by (cases "k \<le> 57") simp_all
  moreover have "ring k q []" using k by (simp add: ring_def q ring_cell_def pow2_word_mask fresh_cell_def)
  ultimately show ?thesis using k(3) q(4) by blast
qed

section \<open>The interface\<close>

text \<open>The calls a single thread makes, and a bounded list as their specification.\<close>

datatype queue_op = QEnqueue ptr | QDequeue ptr | QEnqueueBulk "ptr list" | QDequeueBulk "ptr list" | QSize

datatype queue_res = QBool bool | QValue bool ptr | QCount size_t | QValues size_t "ptr list"

fun queue_step :: "mpmc_queue_t option \<Rightarrow> queue_op \<Rightarrow> bool list \<Rightarrow> (queue_res \<times> mpmc_queue_t option \<times> bool list) option" where
  "queue_step p (QEnqueue d) fails = do { (ok, p1, f1) \<leftarrow> mpmc_enqueue p d fails; Some (QBool ok, p1, f1) }"
| "queue_step p (QDequeue old) fails = do { (ok, p1, d, f1) \<leftarrow> mpmc_dequeue p (Some old) fails; x \<leftarrow> d; Some (QValue ok x, p1, f1) }"
| "queue_step p (QEnqueueBulk ds) fails = do {
     (n, p1, f1) \<leftarrow> mpmc_enqueue_bulk p (Some ds) (of_nat (length ds)) fails; Some (QCount n, p1, f1) }"
| "queue_step p (QDequeueBulk ds) fails = do {
     (n, p1, a, f1) \<leftarrow> mpmc_dequeue_bulk p (Some ds) (of_nat (length ds)) fails; ys \<leftarrow> a; Some (QValues n ys, p1, f1) }"
| "queue_step p QSize fails = Some (QCount (mpmc_size p), p, fails)"

fun queue_run :: "mpmc_queue_t option \<Rightarrow> queue_op list \<Rightarrow> bool list \<Rightarrow> (queue_res list \<times> mpmc_queue_t option) option" where
  "queue_run p [] fails = Some ([], p)"
| "queue_run p (x # xs) fails = do { (r, p1, f1) \<leftarrow> queue_step p x fails; (rs, p2) \<leftarrow> queue_run p1 xs f1; Some (r # rs, p2) }"

text \<open>A bulk dequeue that runs dry has set the next entry of the array to null.\<close>

fun queue_ref :: "nat \<Rightarrow> ptr list \<Rightarrow> queue_op \<Rightarrow> queue_res \<times> ptr list" where
  "queue_ref c xs (QEnqueue d) = (if length xs < c then (QBool True, xs @ [d]) else (QBool False, xs))"
| "queue_ref c xs (QDequeue old) = (case xs of [] \<Rightarrow> (QValue False 0, []) | x # ys \<Rightarrow> (QValue True x, ys))"
| "queue_ref c xs (QEnqueueBulk ds) = (let n = min (length ds) (c - length xs) in (QCount (of_nat n), xs @ take n ds))"
| "queue_ref c xs (QDequeueBulk ds) =
     (let n = min (length ds) (length xs) in (QValues (of_nat n) (take n xs @ (drop n ds)[0 := 0]), drop n xs))"
| "queue_ref c xs QSize = (QCount (of_nat (length xs)), xs)"

fun queue_ref_run :: "nat \<Rightarrow> ptr list \<Rightarrow> queue_op list \<Rightarrow> queue_res list \<times> ptr list" where
  "queue_ref_run c xs [] = ([], xs)"
| "queue_ref_run c xs (x # ops) =
     (let (r, xs1) = queue_ref c xs x; (rs, xs2) = queue_ref_run c xs1 ops in (r # rs, xs2))"

text \<open>The arrays a client can have: fewer than \<open>2^64\<close> entries.\<close>

fun queue_op_ok :: "queue_op \<Rightarrow> bool" where
  "queue_op_ok (QEnqueueBulk ds) = (length ds < 2 ^ 64)"
| "queue_op_ok (QDequeueBulk ds) = (length ds < 2 ^ 64)"
| "queue_op_ok _ = True"

lemma enqueue_ok:
  assumes "ring k q xs"
  shows "\<exists>q' f. mpmc_enqueue (Some q) d fails = Some (length xs < 2 ^ k, Some q', f) \<and>
    ring k q' (if length xs < 2 ^ k then xs @ [d] else xs)"
proof (cases "length xs < 2 ^ k")
  case True
  then show ?thesis using enqueue_room [OF assms, of d fails] by auto
next
  case False
  then show ?thesis using enqueue_full [OF assms, of d fails] ringD(5) [OF assms] assms by simp
qed

lemma dequeue_ok:
  assumes "ring k q xs"
  shows "\<exists>q' f. mpmc_dequeue (Some q) (Some old) fails =
      Some (xs \<noteq> [], Some q', Some (if xs = [] then 0 else hd xs), f) \<and> ring k q' (tl xs)"
proof (cases xs)
  case Nil
  then show ?thesis using dequeue_empty [of k q fails] assms by simp
next
  case (Cons x ys)
  then show ?thesis using dequeue_some [of k q x ys fails] assms by auto
qed

lemma size_ok: "ring k q xs \<Longrightarrow> mpmc_size (Some q) = of_nat (length xs)"
proof -
  assume r: "ring k q xs"
  have "length xs < 2 ^ 64" using ringD(5) [OF r] ring_size(3) [OF r] by linarith
  then have "unat (of_nat (length xs) :: size_t) = length xs" by (simp add: unat_of_nat)
  then have "\<not> capacity q < of_nat (length xs)" using ringD(5) [OF r] ring_size(1,2) [OF r] by (simp add: word_less_nat_alt)
  then show ?thesis using ringD(6) [OF r] by (simp add: mpmc_size_def clamp_size_def)
qed

lemma enqueue_each_ok:
  "ring k q xs \<Longrightarrow> i + n \<le> length ds \<Longrightarrow>
   \<exists>q' f. enqueue_each n (Some q) ds i c fails = Some (c + of_nat (min n (2 ^ k - length xs)), Some q', f) \<and>
     ring k q' (xs @ take (min n (2 ^ k - length xs)) (drop i ds))"
proof (induction n arbitrary: q xs i c fails)
  case 0
  then show ?case by simp
next
  case (Suc n)
  then have i: "i < length ds" "drop i ds = ds ! i # drop (Suc i) ds" by (simp_all add: Cons_nth_drop_Suc)
  obtain q1 f1 where e: "mpmc_enqueue (Some q) (ds ! i) fails = Some (length xs < 2 ^ k, Some q1, f1)"
    "ring k q1 (if length xs < 2 ^ k then xs @ [ds ! i] else xs)" using enqueue_ok [OF Suc.prems(1)] by blast
  show ?case
  proof (cases "length xs < 2 ^ k")
    case False
    then show ?thesis using e i(1) by (simp del: mpmc_enqueue.simps)
  next
    case True
    have m: "min (Suc n) (2 ^ k - length xs) = Suc (min n (2 ^ k - length (xs @ [ds ! i])))" using True by simp
    obtain q2 f2 where "enqueue_each n (Some q1) ds (Suc i) (c + 1) f1 =
        Some (c + 1 + of_nat (min n (2 ^ k - length (xs @ [ds ! i]))), Some q2, f2)"
      "ring k q2 ((xs @ [ds ! i]) @ take (min n (2 ^ k - length (xs @ [ds ! i]))) (drop (Suc i) ds))"
      using Suc.IH [of q1 "xs @ [ds ! i]" "Suc i" "c + 1" f1] e(2) True Suc.prems(2) by auto
    then show ?thesis unfolding m using e(1) i True by (simp del: mpmc_enqueue.simps add: add.assoc)
  qed
qed

lemma dequeue_each_ok:
  "ring k q xs \<Longrightarrow> i + n = length ds \<Longrightarrow>
   \<exists>q' f. dequeue_each n (Some q) ds i c fails = Some (c + of_nat (min n (length xs)), Some q',
       take i ds @ take (min n (length xs)) xs @ (drop (min n (length xs)) (drop i ds))[0 := 0], f) \<and>
     ring k q' (drop (min n (length xs)) xs)"
proof (induction n arbitrary: q xs ds i c fails)
  case 0
  then show ?case by simp
next
  case (Suc n)
  then have i: "i < length ds" by simp
  obtain q1 f1 where d: "mpmc_dequeue (Some q) (Some (ds ! i)) fails =
      Some (xs \<noteq> [], Some q1, Some (if xs = [] then 0 else hd xs), f1)" "ring k q1 (tl xs)"
    using dequeue_ok [OF Suc.prems(1)] by blast
  show ?case
  proof (cases xs)
    case Nil
    have "ds[i := 0] = take i ds @ (drop i ds)[0 := 0]" using i by (simp add: upd_conv_take_nth_drop Cons_nth_drop_Suc [symmetric])
    then show ?thesis using d i Nil by (simp del: mpmc_dequeue.simps)
  next
    case (Cons x ys)
    have up: "take (Suc i) (ds[i := x]) = take i ds @ [x]" "drop (Suc i) (ds[i := x]) = drop (Suc i) ds"
      using i by (simp_all add: upd_conv_take_nth_drop take_append)
    obtain q2 f2 where r: "dequeue_each n (Some q1) (ds[i := x]) (Suc i) (c + 1) f1 =
        Some (c + 1 + of_nat (min n (length ys)), Some q2, take (Suc i) (ds[i := x]) @ take (min n (length ys)) ys @
          (drop (min n (length ys)) (drop (Suc i) (ds[i := x])))[0 := 0], f2)" "ring k q2 (drop (min n (length ys)) ys)"
      using Suc.IH [of q1 ys "Suc i" "ds[i := x]" "c + 1" f1] d(2) Cons Suc.prems(2) by auto
    have "drop (Suc m) (drop i ds) = drop m (drop (Suc i) ds)" for m by simp
    then show ?thesis using d(1) i Cons r by (simp del: mpmc_dequeue.simps drop_drop add: up add.assoc)
  qed
qed

lemma queue_step_ok:
  assumes r: "ring k q xs" and ok: "queue_op_ok op"
  shows "\<exists>q' f. queue_step (Some q) op fails = Some (fst (queue_ref (2 ^ k) xs op), Some q', f) \<and> ring k q' (snd (queue_ref (2 ^ k) xs op))"
proof (cases op)
  case (QEnqueue d)
  then show ?thesis using enqueue_ok [OF r, of d fails] by (auto simp del: mpmc_enqueue.simps)
next
  case (QDequeue old)
  then show ?thesis using dequeue_ok [OF r, of old fails] by (auto simp del: mpmc_dequeue.simps split: list.splits)
next
  case (QEnqueueBulk ds)
  then have "unat (of_nat (length ds) :: size_t) = length ds" using ok by (simp add: unat_of_nat)
  then show ?thesis using enqueue_each_ok [OF r, of 0 "length ds" ds 0 fails] QEnqueueBulk
    by (auto simp: mpmc_enqueue_bulk_def Let_def)
next
  case (QDequeueBulk ds)
  then have "unat (of_nat (length ds) :: size_t) = length ds" using ok by (simp add: unat_of_nat)
  then show ?thesis using dequeue_each_ok [OF r, of 0 "length ds" ds 0 fails] QDequeueBulk
    by (auto simp: mpmc_dequeue_bulk_def Let_def)
next
  case QSize
  then show ?thesis using size_ok [OF r] r by simp
qed

lemma queue_run_ok:
  "ring k q xs \<Longrightarrow> list_all queue_op_ok ops \<Longrightarrow>
   \<exists>q'. queue_run (Some q) ops fails = Some (fst (queue_ref_run (2 ^ k) xs ops), Some q') \<and> ring k q' (snd (queue_ref_run (2 ^ k) xs ops))"
proof (induction ops arbitrary: q xs fails)
  case Nil
  then show ?case by simp
next
  case (Cons op ops)
  obtain q1 f1 where s: "queue_step (Some q) op fails = Some (fst (queue_ref (2 ^ k) xs op), Some q1, f1)"
    "ring k q1 (snd (queue_ref (2 ^ k) xs op))" using queue_step_ok [OF Cons.prems(1), of op fails] Cons.prems(2) by auto
  obtain q2 where "queue_run (Some q1) ops f1 = Some (fst (queue_ref_run (2 ^ k) (snd (queue_ref (2 ^ k) xs op)) ops), Some q2)"
    "ring k q2 (snd (queue_ref_run (2 ^ k) (snd (queue_ref (2 ^ k) xs op)) ops))"
    using Cons.IH [OF s(2)] Cons.prems(2) by auto
  then show ?case using s(1) by (auto simp del: queue_step.simps queue_ref.simps simp: case_prod_unfold Let_def)
qed

end
