(* ===== verification/Queue_Machine.thy ===== *)
theory Queue_Machine
  imports Queue_Props
begin

text \<open>
  Any number of threads on one queue. Each step of the machine is one access to shared memory of
  one thread (\<open>src/queue/dv_queue.c\<close>), in any interleaving. A load of a counter, and the value
  a failed compare-exchange brings back, may be any value the counter has had; this goes for the acquire
  loads of \<open>mpmc_size\<close> too, since the counters are written by relaxed operations only, with which
  an acquire load does not synchronize. The sequence numbers
  are read and written in the order of the steps; their acquire and release accesses are what orders
  the plain accesses to \<open>data\<close>.

  Three ghost fields record the history: the values in the order in which their producers won the
  head, the number of times the tail was won, and the finished dequeues by position.
\<close>

section \<open>The machine\<close>

datatype pc =
    Idle
  | EnqHead ptr | EnqSeq ptr size_t | EnqCas ptr size_t | EnqData ptr size_t | EnqPublish size_t | EnqRet bool
  | DeqTail | DeqSeq size_t | DeqCas size_t | DeqData size_t | DeqRelease size_t ptr | DeqRet "ptr option"
  | SizeTail | SizeHead size_t | SizeRet size_t

record 't machine =
  mq :: mpmc_queue_t
  pcs :: "'t \<Rightarrow> pc"
  enqs :: "ptr list"
  claims :: nat
  finished :: "(nat \<times> ptr) list"

definition goto :: "'t machine \<Rightarrow> 't \<Rightarrow> pc \<Rightarrow> 't machine" where
  "goto s t l = s\<lparr>pcs := (pcs s)(t := l)\<rparr>"

inductive mpmc_step :: "'t \<Rightarrow> 't machine \<Rightarrow> 't machine \<Rightarrow> bool" where
  call_enqueue: "pcs s t = Idle \<Longrightarrow> mpmc_step t s (goto s t (EnqHead d))"
| call_dequeue: "pcs s t = Idle \<Longrightarrow> mpmc_step t s (goto s t DeqTail)"
| call_size: "pcs s t = Idle \<Longrightarrow> mpmc_step t s (goto s t SizeTail)"
| enq_head: "pcs s t = EnqHead d \<Longrightarrow> n \<le> length (enqs s) \<Longrightarrow> mpmc_step t s (goto s t (EnqSeq d (of_nat n)))"
| enq_seq: "pcs s t = EnqSeq d pos \<Longrightarrow> cell_at (mq s) pos = Some c \<Longrightarrow>
    mpmc_step t s (goto s t (case inspect (capacity (mq s)) pos (sequence c) of
      Claim \<Rightarrow> EnqCas d pos | Refuse \<Rightarrow> EnqRet False | Retry \<Rightarrow> EnqHead d))"
| enq_cas: "pcs s t = EnqCas d pos \<Longrightarrow> q_head (mq s) = pos \<Longrightarrow>
    mpmc_step t s (goto (s\<lparr>mq := (mq s)\<lparr>q_head := pos + 1\<rparr>, enqs := enqs s @ [d]\<rparr>) t (EnqData d pos))"
| enq_cas_fail: "pcs s t = EnqCas d pos \<Longrightarrow> n \<le> length (enqs s) \<Longrightarrow> mpmc_step t s (goto s t (EnqSeq d (of_nat n)))"
| enq_data: "pcs s t = EnqData d pos \<Longrightarrow>
    mpmc_step t s (goto (s\<lparr>mq := write_cell (mq s) pos (cell_data_update (\<lambda>_. d))\<rparr>) t (EnqPublish pos))"
| enq_publish: "pcs s t = EnqPublish pos \<Longrightarrow>
    mpmc_step t s (goto (s\<lparr>mq := write_cell (mq s) pos (sequence_update (\<lambda>_. pos + 1))\<rparr>) t (EnqRet True))"
| enq_return: "pcs s t = EnqRet b \<Longrightarrow> mpmc_step t s (goto s t Idle)"
| deq_tail: "pcs s t = DeqTail \<Longrightarrow> n \<le> claims s \<Longrightarrow> mpmc_step t s (goto s t (DeqSeq (of_nat n)))"
| deq_seq: "pcs s t = DeqSeq pos \<Longrightarrow> cell_at (mq s) pos = Some c \<Longrightarrow>
    mpmc_step t s (goto s t (case inspect (capacity (mq s)) (pos + 1) (sequence c) of
      Claim \<Rightarrow> DeqCas pos | Refuse \<Rightarrow> DeqRet None | Retry \<Rightarrow> DeqTail))"
| deq_cas: "pcs s t = DeqCas pos \<Longrightarrow> q_tail (mq s) = pos \<Longrightarrow>
    mpmc_step t s (goto (s\<lparr>mq := (mq s)\<lparr>q_tail := pos + 1\<rparr>, claims := claims s + 1\<rparr>) t (DeqData pos))"
| deq_cas_fail: "pcs s t = DeqCas pos \<Longrightarrow> n \<le> claims s \<Longrightarrow> mpmc_step t s (goto s t (DeqSeq (of_nat n)))"
| deq_data: "pcs s t = DeqData pos \<Longrightarrow> cell_at (mq s) pos = Some c \<Longrightarrow> mpmc_step t s (goto s t (DeqRelease pos (cell_data c)))"
| deq_release: "pcs s t = DeqRelease pos d \<Longrightarrow>
    mpmc_step t s (goto (s\<lparr>mq := write_cell (mq s) pos (sequence_update (\<lambda>_. pos + capacity (mq s))),
      finished := finished s @ [(unat pos, d)]\<rparr>) t (DeqRet (Some d)))"
| deq_return: "pcs s t = DeqRet r \<Longrightarrow> mpmc_step t s (goto s t Idle)"
| size_tail: "pcs s t = SizeTail \<Longrightarrow> n \<le> claims s \<Longrightarrow> mpmc_step t s (goto s t (SizeHead (of_nat n)))"
| size_head: "pcs s t = SizeHead tail_seen \<Longrightarrow> n \<le> length (enqs s) \<Longrightarrow>
    mpmc_step t s (goto s t (SizeRet (clamp_size (capacity (mq s)) tail_seen (of_nat n))))"
| size_return: "pcs s t = SizeRet n \<Longrightarrow> mpmc_step t s (goto s t Idle)"

definition machine_init :: "mpmc_queue_t \<Rightarrow> 't machine" where
  "machine_init q = \<lparr>mq = q, pcs = (\<lambda>_. Idle), enqs = [], claims = 0, finished = []\<rparr>"

definition reachable_from :: "mpmc_queue_t \<Rightarrow> 't machine \<Rightarrow> bool" where
  "reachable_from q s \<longleftrightarrow> (\<lambda>x y. \<exists>t. mpmc_step t x y)\<^sup>*\<^sup>* (machine_init q) s"

inductive_cases mpmc_stepE: "mpmc_step t s s'"

section \<open>The invariant\<close>

text \<open>The position whose cell a thread owns, as a producer or as a consumer.\<close>

fun writing :: "pc \<Rightarrow> size_t option" where
  "writing (EnqData d pos) = Some pos"
| "writing (EnqPublish pos) = Some pos"
| "writing _ = None"

fun reading :: "pc \<Rightarrow> size_t option" where
  "reading (DeqData pos) = Some pos"
| "reading (DeqRelease pos d) = Some pos"
| "reading _ = None"

abbreviation hpos :: "'t machine \<Rightarrow> nat" where "hpos s \<equiv> length (enqs s)"

text \<open>
  A cell waits for position \<open>p\<close>, or it holds the value of position \<open>p\<close>. A position that was won but is
  not yet written, or won but not yet released, has an owner.
\<close>

definition awaits :: "nat \<Rightarrow> 't machine \<Rightarrow> nat \<Rightarrow> cell_t \<Rightarrow> bool" where
  "awaits k s p c \<longleftrightarrow> sequence c = of_nat p \<and> claims s \<le> p \<and> (p < hpos s \<longrightarrow> (\<exists>t. writing (pcs s t) = Some (of_nat p)))"

definition carries :: "nat \<Rightarrow> 't machine \<Rightarrow> nat \<Rightarrow> cell_t \<Rightarrow> bool" where
  "carries k s p c \<longleftrightarrow> sequence c = of_nat (p + 1) \<and> p < hpos s \<and> cell_data c = enqs s ! p \<and>
     (p < claims s \<longrightarrow> (\<exists>t. reading (pcs s t) = Some (of_nat p)))"

definition cell_inv :: "nat \<Rightarrow> 't machine \<Rightarrow> nat \<Rightarrow> bool" where
  "cell_inv k s i \<longleftrightarrow> (\<exists>p. p mod 2 ^ k = i \<and> p < claims s + 2 ^ k \<and> hpos s \<le> p + 2 ^ k \<and>
     (awaits k s p (buffer (mq s) ! i) \<or> carries k s p (buffer (mq s) ! i)))"

abbreviation cell_of :: "nat \<Rightarrow> 't machine \<Rightarrow> nat \<Rightarrow> cell_t" where
  "cell_of k s n \<equiv> buffer (mq s) ! (n mod 2 ^ k)"

fun pc_inv :: "nat \<Rightarrow> 't machine \<Rightarrow> pc \<Rightarrow> bool" where
  "pc_inv k s (EnqSeq d pos) = (\<exists>n \<le> hpos s. pos = of_nat n)"
| "pc_inv k s (EnqCas d pos) = (\<exists>n \<le> hpos s. pos = of_nat n \<and> (n = hpos s \<longrightarrow> sequence (cell_of k s n) = of_nat n))"
| "pc_inv k s (EnqData d pos) = (\<exists>n < hpos s. pos = of_nat n \<and> sequence (cell_of k s n) = of_nat n \<and> enqs s ! n = d)"
| "pc_inv k s (EnqPublish pos) =
     (\<exists>n < hpos s. pos = of_nat n \<and> sequence (cell_of k s n) = of_nat n \<and> cell_data (cell_of k s n) = enqs s ! n)"
| "pc_inv k s (DeqSeq pos) = (\<exists>n \<le> claims s. pos = of_nat n)"
| "pc_inv k s (DeqCas pos) = (\<exists>n \<le> claims s. pos = of_nat n \<and> (n = claims s \<longrightarrow> sequence (cell_of k s n) = of_nat (n + 1)))"
| "pc_inv k s (DeqData pos) = (\<exists>n < claims s. pos = of_nat n \<and> sequence (cell_of k s n) = of_nat (n + 1))"
| "pc_inv k s (DeqRelease pos d) =
     (\<exists>n < claims s. pos = of_nat n \<and> sequence (cell_of k s n) = of_nat (n + 1) \<and> d = enqs s ! n)"
| "pc_inv k s (SizeHead pos) = (\<exists>n \<le> claims s. pos = of_nat n)"
| "pc_inv k s _ = True"

definition shape :: "nat \<Rightarrow> 't machine \<Rightarrow> bool" where
  "shape k s \<longleftrightarrow> 1 \<le> k \<and> k \<le> 57 \<and> length (buffer (mq s)) = 2 ^ k \<and> buffer_mask (mq s) = mask k \<and>
     q_head (mq s) = of_nat (hpos s) \<and> q_tail (mq s) = of_nat (claims s) \<and> claims s \<le> hpos s"

definition owners :: "'t machine \<Rightarrow> bool" where
  "owners s \<longleftrightarrow> (\<forall>t t' p. writing (pcs s t) = Some p \<and> writing (pcs s t') = Some p \<longrightarrow> t = t') \<and>
     (\<forall>t t' p. reading (pcs s t) = Some p \<and> reading (pcs s t') = Some p \<longrightarrow> t = t')"

definition history :: "'t machine \<Rightarrow> bool" where
  "history s \<longleftrightarrow> distinct (map fst (finished s)) \<and> (\<forall>x \<in> set (finished s). fst x < claims s \<and> snd x = enqs s ! fst x) \<and>
     (\<forall>p < claims s. (p \<in> fst ` set (finished s)) \<noteq> (\<exists>t. reading (pcs s t) = Some (of_nat p)))"

definition minv :: "nat \<Rightarrow> 't machine \<Rightarrow> bool" where
  "minv k s \<longleftrightarrow> shape k s \<and> (\<forall>i < 2 ^ k. cell_inv k s i) \<and> (\<forall>t. pc_inv k s (pcs s t)) \<and> owners s \<and> history s"

text \<open>The positions of a run with fewer than \<open>2^63\<close> enqueues do not wrap around.\<close>

definition within :: "'t machine \<Rightarrow> bool" where
  "within s \<longleftrightarrow> hpos s < 2 ^ 63"

lemma of_nat_eq: "m < 2 ^ 64 \<Longrightarrow> n < 2 ^ 64 \<Longrightarrow> (of_nat m = (of_nat n :: size_t)) = (m = n)"
proof -
  assume a: "m < 2 ^ 64" "n < 2 ^ 64"
  then have "unat (of_nat m :: size_t) = m" "unat (of_nat n :: size_t) = n" by (simp_all add: unat_of_nat)
  then show ?thesis by metis
qed

lemma pow_57: "k \<le> 57 \<Longrightarrow> (2::nat) ^ k \<le> 2 ^ 57"
  by (rule power_increasing) simp_all

lemma mod_Suc_neq: "1 \<le> k \<Longrightarrow> n mod 2 ^ k \<noteq> (n + 1) mod (2 ^ k :: nat)"
proof
  assume k: "1 \<le> k" and e: "n mod 2 ^ k = (n + 1) mod (2 ^ k :: nat)"
  have "(2::nat) ^ 1 \<le> 2 ^ k" using k by (intro power_increasing) simp_all
  then show False using ring_inj [of n 0 "2 ^ k" 1] e by simp
qed

end
