(* ===== verification/Queue_Steps.thy ===== *)
theory Queue_Steps
  imports Queue_Machine
begin

text \<open>Every step of the machine keeps the invariant, as long as the positions have not wrapped around.\<close>

section \<open>Reading the invariant\<close>

lemma minvD:
  assumes "minv k s"
  shows "shape k s" "i < 2 ^ k \<Longrightarrow> cell_inv k s i" "pc_inv k s (pcs s t)" "owners s" "history s"
  using assms by (simp_all add: minv_def)

lemma shapeD:
  assumes "shape k s"
  shows "1 \<le> k" "k \<le> 57" "length (buffer (mq s)) = 2 ^ k" "buffer_mask (mq s) = mask k" "q_head (mq s) = of_nat (hpos s)"
    "q_tail (mq s) = of_nat (claims s)" "claims s \<le> hpos s" "capacity (mq s) = 2 ^ k"
  using assms by (simp_all add: shape_def capacity_def mask_eq_decr_exp)

lemma ownersD:
  assumes "owners s"
  shows "writing (pcs s t) = Some p \<Longrightarrow> writing (pcs s t') = Some p \<Longrightarrow> t = t'"
    "reading (pcs s t) = Some p \<Longrightarrow> reading (pcs s t') = Some p \<Longrightarrow> t = t'"
  using assms by (auto simp: owners_def)

lemma slot_of:
  assumes "shape k s"
  shows "slot (mq s) (of_nat n) = n mod 2 ^ k" "cell_at (mq s) (of_nat n) = Some (cell_of k s n)"
  using ring_slot [of k 0 n] shapeD(2-4) [OF assms] by (simp_all add: slot_def cell_at_def)

lemma write_of:
  assumes "shape k s"
  shows "buffer (write_cell (mq s) (of_nat n) f) ! i = (if i = n mod 2 ^ k then f (cell_of k s n) else buffer (mq s) ! i)"
    "length (buffer (write_cell (mq s) (of_nat n) f)) = 2 ^ k"
  using slot_of(1) [OF assms, of n] shapeD(3) [OF assms] by (auto simp: write_cell_def nth_list_update)

lemma write_fields [simp]:
  "buffer_mask (write_cell q p f) = buffer_mask q" "q_head (write_cell q p f) = q_head q" "q_tail (write_cell q p f) = q_tail q"
  by (simp_all add: write_cell_def)

lemma goto_fields [simp]:
  "mq (goto s t l) = mq s" "enqs (goto s t l) = enqs s" "claims (goto s t l) = claims s" "finished (goto s t l) = finished s"
  "pcs (goto s t l) = (pcs s)(t := l)"
  by (simp_all add: goto_def)

lemma small:
  assumes "minv k s" "within s"
  shows "hpos s < 2 ^ 63" "claims s \<le> hpos s" "n < claims s + 2 ^ k \<Longrightarrow> n + 1 < 2 ^ 64" "(2::nat) ^ k \<le> 2 ^ 57"
  using assms(2) shapeD(2,7) [OF minvD(1) [OF assms(1)]] pow_57 [of k] by (auto simp: within_def)

lemma awaiting:
  assumes inv: "minv k s" "within s" and n: "n \<le> hpos s" and seq: "sequence (cell_of k s n) = of_nat n"
  shows "claims s \<le> n" "n < claims s + 2 ^ k" "hpos s \<le> n + 2 ^ k" "n < hpos s \<Longrightarrow> \<exists>t. writing (pcs s t) = Some (of_nat n)"
proof -
  note sh = minvD(1) [OF inv(1)] and sm = small [OF inv]
  obtain p where p: "p mod 2 ^ k = n mod 2 ^ k" "p < claims s + 2 ^ k" "hpos s \<le> p + 2 ^ k"
    "awaits k s p (cell_of k s n) \<or> carries k s p (cell_of k s n)"
    using minvD(2) [OF inv(1), of "n mod 2 ^ k"] by (auto simp: cell_inv_def)
  have b: "p + 1 < 2 ^ 64" "n < 2 ^ 64" using sm n p(2) by auto
  have "\<not> carries k s p (cell_of k s n)"
  proof
    assume "carries k s p (cell_of k s n)"
    then have "n = p + 1" using seq of_nat_eq [OF b] by (simp add: carries_def)
    then show False using p(1) mod_Suc_neq [OF shapeD(1) [OF sh], of p] by simp
  qed
  then have a: "awaits k s p (cell_of k s n)" using p(4) by blast
  then have "p = n" using seq of_nat_eq [of p n] b by (simp add: awaits_def)
  then show "claims s \<le> n" "n < claims s + 2 ^ k" "hpos s \<le> n + 2 ^ k" "n < hpos s \<Longrightarrow> \<exists>t. writing (pcs s t) = Some (of_nat n)"
    using a p(2,3) by (auto simp: awaits_def)
qed

lemma carrying:
  assumes inv: "minv k s" "within s" and n: "n \<le> hpos s" and seq: "sequence (cell_of k s n) = of_nat (n + 1)"
  shows "n < hpos s" "n < claims s + 2 ^ k" "hpos s \<le> n + 2 ^ k" "cell_data (cell_of k s n) = enqs s ! n"
    "n < claims s \<Longrightarrow> \<exists>t. reading (pcs s t) = Some (of_nat n)"
proof -
  note sh = minvD(1) [OF inv(1)] and sm = small [OF inv]
  obtain p where p: "p mod 2 ^ k = n mod 2 ^ k" "p < claims s + 2 ^ k" "hpos s \<le> p + 2 ^ k"
    "awaits k s p (cell_of k s n) \<or> carries k s p (cell_of k s n)"
    using minvD(2) [OF inv(1), of "n mod 2 ^ k"] by (auto simp: cell_inv_def)
  have b: "p + 1 < 2 ^ 64" "n + 1 < 2 ^ 64" using sm n p(2) by auto
  have "\<not> awaits k s p (cell_of k s n)"
  proof
    assume "awaits k s p (cell_of k s n)"
    then have "p = n + 1" using seq of_nat_eq [of p "n + 1"] b by (simp add: awaits_def)
    then show False using p(1) mod_Suc_neq [OF shapeD(1) [OF sh], of n] by simp
  qed
  then have a: "carries k s p (cell_of k s n)" using p(4) by blast
  then have "p = n" using seq of_nat_eq [of "p + 1" "n + 1"] b by (simp add: carries_def)
  then show "n < hpos s" "n < claims s + 2 ^ k" "hpos s \<le> n + 2 ^ k" "cell_data (cell_of k s n) = enqs s ! n"
    "n < claims s \<Longrightarrow> \<exists>t. reading (pcs s t) = Some (of_nat n)"
    using a p(2,3) by (auto simp: carries_def)
qed

section \<open>Steps inside a thread\<close>

lemma pc_inv_goto: "pc_inv k (goto s t l) l' = pc_inv k s l'"
  by (cases l') simp_all

lemma minv_goto:
  assumes inv: "minv k s" and w: "writing l = writing (pcs s t)" and r: "reading l = reading (pcs s t)" and l: "pc_inv k s l"
  shows "minv k (goto s t l)"
proof -
  have wr: "writing (pcs (goto s t l) u) = writing (pcs s u)" "reading (pcs (goto s t l) u) = reading (pcs s u)" for u
    using w r by simp_all
  have "cell_inv k (goto s t l) i = cell_inv k s i" for i
    unfolding cell_inv_def awaits_def carries_def wr by simp
  moreover have "owners (goto s t l) = owners s" unfolding owners_def wr ..
  moreover have "history (goto s t l) = history s" unfolding history_def wr by simp
  moreover have "shape k (goto s t l) = shape k s" by (simp add: shape_def)
  ultimately show ?thesis using inv l by (simp add: minv_def pc_inv_goto)
qed

section \<open>Steps on the cells\<close>

lemma pc_inv_cell:
  assumes inv: "minv k s" "within s" and pc: "pc_inv k s l"
    and cell: "\<And>m. m mod 2 ^ k \<noteq> i \<Longrightarrow> cell_of k s' m = cell_of k s m"
    and same: "enqs s' = enqs s" "claims s' = claims s"
    and own: "\<And>m. m mod 2 ^ k = i \<Longrightarrow> m < hpos s \<Longrightarrow> writing l = Some (of_nat m) \<Longrightarrow> False"
      "\<And>m. m mod 2 ^ k = i \<Longrightarrow> m < claims s \<Longrightarrow> reading l = Some (of_nat m) \<Longrightarrow> False"
      "i = hpos s mod 2 ^ k \<Longrightarrow> sequence (cell_of k s (hpos s)) = of_nat (hpos s) \<Longrightarrow> False"
      "i = claims s mod 2 ^ k \<Longrightarrow> sequence (cell_of k s (claims s)) = of_nat (claims s + 1) \<Longrightarrow> False"
  shows "pc_inv k s' l"
proof (cases l)
  case (EnqCas d pos)
  then obtain n where n: "n \<le> hpos s" "pos = of_nat n" "n = hpos s \<longrightarrow> sequence (cell_of k s n) = of_nat n" using pc by auto
  then have "n = hpos s \<longrightarrow> sequence (cell_of k s' n) = of_nat n" using own(3) cell [of n] by metis
  then show ?thesis using n(1,2) EnqCas same by auto
next
  case (EnqData d pos)
  then obtain n where n: "n < hpos s" "pos = of_nat n" "sequence (cell_of k s n) = of_nat n" "enqs s ! n = d" using pc by auto
  have "n mod 2 ^ k \<noteq> i" using own(1) [of n] n EnqData by auto
  then show ?thesis using n EnqData cell same by auto
next
  case (EnqPublish pos)
  then obtain n where n: "n < hpos s" "pos = of_nat n" "sequence (cell_of k s n) = of_nat n" "cell_data (cell_of k s n) = enqs s ! n" using pc by auto
  have "n mod 2 ^ k \<noteq> i" using own(1) [of n] n EnqPublish by auto
  then show ?thesis using n EnqPublish cell same by auto
next
  case (DeqCas pos)
  then obtain n where n: "n \<le> claims s" "pos = of_nat n" "n = claims s \<longrightarrow> sequence (cell_of k s n) = of_nat (n + 1)" using pc by auto
  then have "n = claims s \<longrightarrow> sequence (cell_of k s' n) = of_nat (n + 1)" using own(4) cell [of n] by metis
  then show ?thesis using n(1,2) DeqCas same by auto
next
  case (DeqData pos)
  then obtain n where n: "n < claims s" "pos = of_nat n" "sequence (cell_of k s n) = of_nat (n + 1)" using pc by auto
  have "n mod 2 ^ k \<noteq> i" using own(2) [of n] n DeqData by auto
  then show ?thesis using n DeqData cell same by auto
next
  case (DeqRelease pos d)
  then obtain n where n: "n < claims s" "pos = of_nat n" "sequence (cell_of k s n) = of_nat (n + 1)" "d = enqs s ! n" using pc by auto
  have "n mod 2 ^ k \<noteq> i" using own(2) [of n] n DeqRelease by auto
  then show ?thesis using n DeqRelease cell same by auto
qed (use pc same in simp_all)

lemma owned_sequence:
  assumes inv: "minv k s" "within s"
  shows "writing (pcs s t) = Some (of_nat m) \<Longrightarrow> m < hpos s \<Longrightarrow> sequence (cell_of k s m) = of_nat m"
    "reading (pcs s t) = Some (of_nat m) \<Longrightarrow> m < claims s \<Longrightarrow> sequence (cell_of k s m) = of_nat (m + 1)"
proof -
  note pc = minvD(3) [OF inv(1), of t] and sm = small [OF inv]
  have eq: "n = m" if "n < hpos s" "m < hpos s" "(of_nat n :: size_t) = of_nat m" for n
    using that of_nat_eq [of n m] sm(1) by simp
  show "writing (pcs s t) = Some (of_nat m) \<Longrightarrow> m < hpos s \<Longrightarrow> sequence (cell_of k s m) = of_nat m"
    using pc eq by (cases "pcs s t") (simp_all, metis+)
  show "reading (pcs s t) = Some (of_nat m) \<Longrightarrow> m < claims s \<Longrightarrow> sequence (cell_of k s m) = of_nat (m + 1)"
    using pc eq sm(2) by (cases "pcs s t") (simp_all, (metis order.strict_trans2)+)
qed

text \<open>The other threads do not depend on a cell that a producer, or a consumer, owns.\<close>

lemma others_of_writer:
  assumes inv: "minv k s" "within s" and n: "n < hpos s" "writing (pcs s t) = Some (of_nat n)" and u: "u \<noteq> t"
    and cell: "\<And>m. m mod 2 ^ k \<noteq> n mod 2 ^ k \<Longrightarrow> cell_of k s' m = cell_of k s m" and same: "enqs s' = enqs s" "claims s' = claims s"
  shows "pc_inv k s' (pcs s u)"
proof (rule pc_inv_cell [OF inv minvD(3) [OF inv(1)] cell same, where i = "n mod 2 ^ k"])
  note seq = owned_sequence [OF inv] and sm = small [OF inv] and k1 = shapeD(1) [OF minvD(1) [OF inv(1)]]
  have sn: "sequence (cell_of k s n) = of_nat n" by (rule seq(1) [OF n(2,1)])
  have no_reader: False if "m mod 2 ^ k = n mod 2 ^ k" "m \<le> hpos s" "sequence (cell_of k s m) = of_nat (m + 1)" for m
  proof -
    have "n < 2 ^ 64" "m + 1 < 2 ^ 64" using that(2) n(1) sm(1) by simp_all
    then have "n = m + 1" using that(1,3) sn of_nat_eq [of n "m + 1"] by simp
    then show False using that(1) mod_Suc_neq [OF k1, of m] by simp
  qed
  show False if m: "m mod 2 ^ k = n mod 2 ^ k" "m < hpos s" "writing (pcs s u) = Some (of_nat m)" for m
  proof -
    have "m < 2 ^ 64" "n < 2 ^ 64" using m(2) n(1) sm(1) by simp_all
    then have "m = n" using seq(1) [OF m(3,2)] sn of_nat_eq [of m n] m(1) by simp
    then show False using ownersD(1) [OF minvD(4) [OF inv(1)] n(2)] m(3) u by blast
  qed
  show "m mod 2 ^ k = n mod 2 ^ k \<Longrightarrow> m < claims s \<Longrightarrow> reading (pcs s u) = Some (of_nat m) \<Longrightarrow> False" for m
    using seq(2) [of u m] no_reader [of m] sm(2) by simp
  show False if h: "n mod 2 ^ k = hpos s mod 2 ^ k" "sequence (cell_of k s (hpos s)) = of_nat (hpos s)"
  proof -
    have "n < 2 ^ 64" "hpos s < 2 ^ 64" using n(1) sm(1) by simp_all
    then show False using h sn of_nat_eq [of n "hpos s"] n(1) by simp
  qed
  show "n mod 2 ^ k = claims s mod 2 ^ k \<Longrightarrow> sequence (cell_of k s (claims s)) = of_nat (claims s + 1) \<Longrightarrow> False"
    using no_reader [of "claims s"] sm(2) by simp
qed

lemma others_of_reader:
  assumes inv: "minv k s" "within s" and n: "n < claims s" "reading (pcs s t) = Some (of_nat n)" and u: "u \<noteq> t"
    and cell: "\<And>m. m mod 2 ^ k \<noteq> n mod 2 ^ k \<Longrightarrow> cell_of k s' m = cell_of k s m" and same: "enqs s' = enqs s" "claims s' = claims s"
  shows "pc_inv k s' (pcs s u)"
proof (rule pc_inv_cell [OF inv minvD(3) [OF inv(1)] cell same, where i = "n mod 2 ^ k"])
  note seq = owned_sequence [OF inv] and sm = small [OF inv] and k1 = shapeD(1) [OF minvD(1) [OF inv(1)]]
  have sn: "sequence (cell_of k s n) = of_nat (n + 1)" by (rule seq(2) [OF n(2,1)])
  have no_writer: False if "m mod 2 ^ k = n mod 2 ^ k" "m \<le> hpos s" "sequence (cell_of k s m) = of_nat m" for m
  proof -
    have "m < 2 ^ 64" "n + 1 < 2 ^ 64" using that(2) n(1) sm(1,2) by simp_all
    then have "m = n + 1" using that(1,3) sn of_nat_eq [of m "n + 1"] by simp
    then show False using that(1) mod_Suc_neq [OF k1, of n] by simp
  qed
  show "m mod 2 ^ k = n mod 2 ^ k \<Longrightarrow> m < hpos s \<Longrightarrow> writing (pcs s u) = Some (of_nat m) \<Longrightarrow> False" for m
    using seq(1) [of u m] no_writer [of m] by simp
  show False if m: "m mod 2 ^ k = n mod 2 ^ k" "m < claims s" "reading (pcs s u) = Some (of_nat m)" for m
  proof -
    have "m + 1 < 2 ^ 64" "n + 1 < 2 ^ 64" using m(2) n(1) sm(1,2) by simp_all
    then have "m = n" using seq(2) [OF m(3,2)] sn of_nat_eq [of "m + 1" "n + 1"] m(1) by simp
    then show False using ownersD(2) [OF minvD(4) [OF inv(1)] n(2)] m(3) u by blast
  qed
  show "n mod 2 ^ k = hpos s mod 2 ^ k \<Longrightarrow> sequence (cell_of k s (hpos s)) = of_nat (hpos s) \<Longrightarrow> False"
    using no_writer [of "hpos s"] by simp
  show "n mod 2 ^ k = claims s mod 2 ^ k \<Longrightarrow> sequence (cell_of k s (claims s)) = of_nat (claims s + 1) \<Longrightarrow> False"
    using sn of_nat_eq [of "claims s + 1" "n + 1"] n(1) sm(1,2) by simp
qed

text \<open>A write into the cell of position \<open>n\<close> leaves the other cells alone.\<close>

lemma cell_inv_other:
  assumes inv: "minv k s" and i: "i < 2 ^ k" and b: "buffer (mq s') ! i = buffer (mq s) ! i" and same: "enqs s' = enqs s" "claims s' = claims s"
    and w: "\<And>p. p mod 2 ^ k = i \<Longrightarrow> \<exists>t. writing (pcs s t) = Some (of_nat p) \<Longrightarrow> \<exists>t. writing (pcs s' t) = Some (of_nat p)"
    and r: "\<And>p. p mod 2 ^ k = i \<Longrightarrow> \<exists>t. reading (pcs s t) = Some (of_nat p) \<Longrightarrow> \<exists>t. reading (pcs s' t) = Some (of_nat p)"
  shows "cell_inv k s' i"
proof -
  obtain p where p: "p mod 2 ^ k = i" "p < claims s + 2 ^ k" "hpos s \<le> p + 2 ^ k" "awaits k s p (buffer (mq s) ! i) \<or> carries k s p (buffer (mq s) ! i)"
    using minvD(2) [OF inv i] by (auto simp: cell_inv_def)
  have "awaits k s' p (buffer (mq s') ! i) \<or> carries k s' p (buffer (mq s') ! i)"
    using p(4) w [OF p(1)] r [OF p(1)] same unfolding b awaits_def carries_def by metis
  then show ?thesis using p(1-3) same unfolding cell_inv_def by metis
qed

lemma step_data:
  assumes inv: "minv k s" "within s" and pc: "pcs s t = EnqData d pos"
  shows "minv k (goto (s\<lparr>mq := write_cell (mq s) pos (cell_data_update (\<lambda>_. d))\<rparr>) t (EnqPublish pos))" (is "minv k (goto ?s t _)")
proof -
  obtain n where n: "n < hpos s" "pos = of_nat n" "sequence (cell_of k s n) = of_nat n" "enqs s ! n = d"
    using minvD(3) [OF inv(1), of t] pc by auto
  note sh = minvD(1) [OF inv(1)]
  have buf: "buffer (mq ?s) ! i = (if i = n mod 2 ^ k then (cell_of k s n)\<lparr>cell_data := d\<rparr> else buffer (mq s) ! i)" for i
    using write_of(1) [OF sh] by (simp add: n(2))
  have others: "pc_inv k ?s (pcs ?s u)" if "u \<noteq> t" for u
    using others_of_writer [OF inv n(1) _ that, of ?s] pc n(2) buf by auto
  have "cell_inv k ?s i" if i: "i < 2 ^ k" for i
  proof (cases "i = n mod 2 ^ k")
    case False
    show ?thesis by (rule cell_inv_other [OF inv(1) i]) (use False buf [of i] in simp_all)
  next
    case True
    have "awaits k ?s n (buffer (mq ?s) ! i)" using n(3) awaiting [OF inv _ n(3)] n(1) True buf [of i] by (simp add: awaits_def)
    then show ?thesis using awaiting [OF inv _ n(3)] n(1) True unfolding cell_inv_def by (intro exI [of _ n]) simp
  qed
  moreover have "pc_inv k ?s (pcs ?s t)" using pc n buf by auto
  moreover have "shape k ?s" using sh write_of(2) [OF sh] by (simp add: shape_def n(2))
  ultimately have "minv k ?s" using others minvD(4,5) [OF inv(1)] by (auto simp: minv_def owners_def history_def) metis+
  moreover have "pc_inv k ?s (EnqPublish pos)" using n buf by auto
  ultimately show ?thesis using pc by (intro minv_goto) simp_all
qed

lemma step_publish:
  assumes inv: "minv k s" "within s" and pc: "pcs s t = EnqPublish pos"
  shows "minv k (goto (s\<lparr>mq := write_cell (mq s) pos (sequence_update (\<lambda>_. pos + 1))\<rparr>) t (EnqRet True))" (is "minv k ?s")
proof -
  obtain n where n: "n < hpos s" "pos = of_nat n" "sequence (cell_of k s n) = of_nat n" "cell_data (cell_of k s n) = enqs s ! n"
    using minvD(3) [OF inv(1), of t] pc by auto
  note sh = minvD(1) [OF inv(1)] and aw = awaiting [OF inv less_imp_le [OF n(1)] n(3)] and sm = small [OF inv]
  have buf: "buffer (mq ?s) ! i = (if i = n mod 2 ^ k then (cell_of k s n)\<lparr>sequence := of_nat (n + 1)\<rparr> else buffer (mq s) ! i)" for i
    using write_of(1) [OF sh, of n "sequence_update (\<lambda>_. of_nat (n + 1))" i] by (simp add: n(2) add.commute)
  have wt: "writing (pcs s t) = Some (of_nat n)" using pc n(2) by simp
  have rd: "reading (pcs ?s u) = reading (pcs s u)" for u using pc by simp
  have others: "pc_inv k ?s (pcs s u)" if "u \<noteq> t" for u
    by (rule others_of_writer [OF inv n(1) wt that]) (use buf in auto)
  have "cell_inv k ?s i" if i: "i < 2 ^ k" for i
  proof (cases "i = n mod 2 ^ k")
    case True
    have "carries k ?s n (buffer (mq ?s) ! i)" using True buf [of i] n(1,4) aw(1) by (simp add: carries_def)
    then show ?thesis using aw(2,3) True unfolding cell_inv_def by (intro exI [of _ n]) simp
  next
    case False
    have "\<exists>u. writing (pcs ?s u) = Some (of_nat p)" if p: "p mod 2 ^ k = i" "\<exists>u. writing (pcs s u) = Some (of_nat p)" for p
    proof -
      have "(of_nat p :: size_t) \<noteq> of_nat n"
        using False p(1) slot_of(1) [OF sh, of p] slot_of(1) [OF sh, of n] by metis
      then obtain u where "writing (pcs s u) = Some (of_nat p)" "u \<noteq> t" using p(2) wt by (metis option.inject)
      then show ?thesis by (intro exI [of _ u]) simp
    qed
    then show ?thesis using False rd by (intro cell_inv_other [OF inv(1) i]) (use buf [of i] in auto)
  qed
  moreover have "pc_inv k ?s (pcs ?s u)" for u using others [of u] by simp
  moreover have "shape k ?s" using sh write_of(2) [OF sh] by (simp add: shape_def n(2))
  moreover have "owners ?s" using minvD(4) [OF inv(1)] unfolding owners_def rd by auto
  moreover have "history ?s" using minvD(5) [OF inv(1)] unfolding history_def rd by simp
  ultimately show ?thesis by (simp add: minv_def)
qed

lemma step_release:
  assumes inv: "minv k s" "within s" and pc: "pcs s t = DeqRelease pos d"
  shows "minv k (goto (s\<lparr>mq := write_cell (mq s) pos (sequence_update (\<lambda>_. pos + capacity (mq s))),
      finished := finished s @ [(unat pos, d)]\<rparr>) t (DeqRet (Some d)))" (is "minv k ?s")
proof -
  obtain n where n: "n < claims s" "pos = of_nat n" "sequence (cell_of k s n) = of_nat (n + 1)" "d = enqs s ! n"
    using minvD(3) [OF inv(1), of t] pc by auto
  note sh = minvD(1) [OF inv(1)] and sm = small [OF inv]
  have nh: "n \<le> hpos s" using n(1) sm(2) by simp
  note ca = carrying [OF inv nh n(3)]
  have buf: "buffer (mq ?s) ! i = (if i = n mod 2 ^ k then (cell_of k s n)\<lparr>sequence := of_nat (n + 2 ^ k)\<rparr> else buffer (mq s) ! i)" for i
    using write_of(1) [OF sh, of n "sequence_update (\<lambda>_. of_nat (n + 2 ^ k))" i] by (simp add: n(2) shapeD(8) [OF sh])
  have rt: "reading (pcs s t) = Some (of_nat n)" using pc n(2) by simp
  have wr: "writing (pcs ?s u) = writing (pcs s u)" for u using pc by simp
  have small_eq: "(of_nat p = (of_nat n :: size_t)) = (p = n)" if "p < claims s" for p
    using of_nat_eq [of p n] that n(1) sm(1,2) by simp
  have readers: "(\<exists>u. reading (pcs ?s u) = Some (of_nat p)) = ((of_nat p :: size_t) \<noteq> of_nat n \<and> (\<exists>u. reading (pcs s u) = Some (of_nat p)))" for p
  proof
    assume "\<exists>u. reading (pcs ?s u) = Some (of_nat p)"
    then obtain u where u: "u \<noteq> t" "reading (pcs s u) = Some (of_nat p)" by (auto split: if_splits)
    then show "(of_nat p :: size_t) \<noteq> of_nat n \<and> (\<exists>u. reading (pcs s u) = Some (of_nat p))"
      using ownersD(2) [OF minvD(4) [OF inv(1)] rt] by metis
  next
    assume "(of_nat p :: size_t) \<noteq> of_nat n \<and> (\<exists>u. reading (pcs s u) = Some (of_nat p))"
    then obtain u where "reading (pcs s u) = Some (of_nat p)" "u \<noteq> t" using rt by (metis option.inject)
    then show "\<exists>u. reading (pcs ?s u) = Some (of_nat p)" by (intro exI [of _ u]) simp
  qed
  have others: "pc_inv k ?s (pcs s u)" if "u \<noteq> t" for u
    by (rule others_of_reader [OF inv n(1) rt that]) (use buf in auto)
  have "cell_inv k ?s i" if i: "i < 2 ^ k" for i
  proof (cases "i = n mod 2 ^ k")
    case True
    have "awaits k ?s (n + 2 ^ k) (buffer (mq ?s) ! i)" using True buf [of i] ca(3) sm(2) by (simp add: awaits_def)
    then show ?thesis using n(1) ca(3) True unfolding cell_inv_def by (intro exI [of _ "n + 2 ^ k"]) simp
  next
    case False
    have "\<exists>u. reading (pcs ?s u) = Some (of_nat p)" if "p mod 2 ^ k = i" "\<exists>u. reading (pcs s u) = Some (of_nat p)" for p
    proof -
      have "(of_nat p :: size_t) \<noteq> of_nat n" using False that(1) slot_of(1) [OF sh, of p] slot_of(1) [OF sh, of n] by metis
      then show ?thesis using that(2) readers by blast
    qed
    then show ?thesis using False wr by (intro cell_inv_other [OF inv(1) i]) (use buf [of i] in auto)
  qed
  moreover have "pc_inv k ?s (pcs ?s u)" for u using others [of u] by simp
  moreover have "shape k ?s" using sh write_of(2) [OF sh] by (simp add: shape_def n(2))
  moreover have "owners ?s" using minvD(4) [OF inv(1)] unfolding owners_def wr by auto
  moreover have "history ?s"
  proof -
    have un: "unat pos = n" using n sm(1,2) by (simp add: unat_of_nat)
    have h: "distinct (map fst (finished s))" "\<forall>x \<in> set (finished s). fst x < claims s \<and> snd x = enqs s ! fst x"
      "\<forall>p < claims s. (p \<in> fst ` set (finished s)) \<noteq> (\<exists>t. reading (pcs s t) = Some (of_nat p))"
      using minvD(5) [OF inv(1)] by (simp_all add: history_def)
    have "n \<notin> fst ` set (finished s)" using h(3) n(1) rt by blast
    moreover have "(p \<in> fst ` set (finished ?s)) \<noteq> (\<exists>t. reading (pcs ?s t) = Some (of_nat p))" if "p < claims s" for p
      unfolding readers using h(3) that small_eq [OF that] rt un by auto
    ultimately show ?thesis using h(1,2) n(1,4) un by (simp add: history_def)
  qed
  ultimately show ?thesis by (simp add: minv_def)
qed

section \<open>Winning a counter\<close>

lemma pc_inv_enqs:
  assumes pc: "pc_inv k s l" and h: "mq s' = (mq s)\<lparr>q_head := x\<rparr>" "enqs s' = enqs s @ [d]" "claims s' = claims s" "claims s \<le> hpos s"
  shows "pc_inv k s' l"
proof (cases l)
  case (EnqCas d' pos)
  then obtain n where "n \<le> hpos s" "pos = of_nat n" using pc by auto
  then show ?thesis using h EnqCas by (auto intro!: exI [of _ n])
next
  case (EnqData d' pos)
  then obtain n where "n < hpos s" "pos = of_nat n" "sequence (cell_of k s n) = of_nat n" "enqs s ! n = d'" using pc by auto
  then show ?thesis using h EnqData by (auto intro!: exI [of _ n] simp: nth_append)
next
  case (EnqPublish pos)
  then obtain n where "n < hpos s" "pos = of_nat n" "sequence (cell_of k s n) = of_nat n" "cell_data (cell_of k s n) = enqs s ! n"
    using pc by auto
  then show ?thesis using h EnqPublish by (auto intro!: exI [of _ n] simp: nth_append)
next
  case (DeqRelease pos d')
  then obtain n where "n < claims s" "pos = of_nat n" "sequence (cell_of k s n) = of_nat (n + 1)" "d' = enqs s ! n" using pc by auto
  then show ?thesis using h DeqRelease by (auto intro!: exI [of _ n] simp: nth_append)
next
  case (EnqSeq d' pos)
  then obtain n where "n \<le> hpos s" "pos = of_nat n" using pc by auto
  then show ?thesis using h EnqSeq by (auto intro!: exI [of _ n])
qed (use pc h in simp_all)

lemma pc_inv_claims:
  assumes pc: "pc_inv k s l" and h: "mq s' = (mq s)\<lparr>q_tail := x\<rparr>" "enqs s' = enqs s" "claims s' = claims s + 1"
  shows "pc_inv k s' l"
proof (cases l)
  case (DeqSeq pos)
  then obtain n where "n \<le> claims s" "pos = of_nat n" using pc by auto
  then show ?thesis using h DeqSeq by (auto intro!: exI [of _ n])
next
  case (SizeHead pos)
  then obtain n where "n \<le> claims s" "pos = of_nat n" using pc by auto
  then show ?thesis using h SizeHead by (auto intro!: exI [of _ n])
next
  case (DeqCas pos)
  then obtain n where "n \<le> claims s" "pos = of_nat n" using pc by auto
  then show ?thesis using h DeqCas by (auto intro!: exI [of _ n])
next
  case (DeqData pos)
  then obtain n where "n < claims s" "pos = of_nat n" "sequence (cell_of k s n) = of_nat (n + 1)" using pc by auto
  then show ?thesis using h DeqData by (auto intro!: exI [of _ n])
next
  case (DeqRelease pos d')
  then obtain n where "n < claims s" "pos = of_nat n" "sequence (cell_of k s n) = of_nat (n + 1)" "d' = enqs s ! n" using pc by auto
  then show ?thesis using h DeqRelease by (auto intro!: exI [of _ n])
qed (use pc h in simp_all)

lemma step_enq_cas:
  assumes inv: "minv k s" "within s" and pc: "pcs s t = EnqCas d pos" "q_head (mq s) = pos"
  shows "minv k (goto (s\<lparr>mq := (mq s)\<lparr>q_head := pos + 1\<rparr>, enqs := enqs s @ [d]\<rparr>) t (EnqData d pos))" (is "minv k ?s")
proof -
  let ?n = "hpos s"
  note sh = minvD(1) [OF inv(1)] and sm = small [OF inv]
  have pos: "pos = of_nat ?n" using pc(2) shapeD(5) [OF sh] by simp
  obtain m where m: "m \<le> ?n" "pos = of_nat m" "m = ?n \<longrightarrow> sequence (cell_of k s m) = of_nat m"
    using minvD(3) [OF inv(1), of t] pc(1) by auto
  have "m = ?n" using m(1,2) pos of_nat_eq [of m ?n] sm(1) by simp
  then have seq: "sequence (cell_of k s ?n) = of_nat ?n" using m(3) by simp
  note aw = awaiting [OF inv order_refl seq]
  have b: "buffer (mq ?s) = buffer (mq s)" by simp
  have rd: "reading (pcs ?s u) = reading (pcs s u)" for u using pc(1) by simp
  have wt: "writing (pcs s t) = None" using pc(1) by simp
  have keep: "\<exists>u. writing (pcs ?s u) = Some p" if p: "\<exists>u. writing (pcs s u) = Some p" for p
  proof -
    obtain u where "writing (pcs s u) = Some p" using p by blast
    then show ?thesis using wt by (intro exI [of _ u]) auto
  qed
  have "cell_inv k ?s i" if i: "i < 2 ^ k" for i
  proof (cases "i = ?n mod 2 ^ k")
    case True
    have "awaits k ?s ?n (buffer (mq ?s) ! i)" using True seq aw(1) pos by (auto simp: awaits_def)
    then show ?thesis using aw(2) True unfolding cell_inv_def by (intro exI [of _ ?n]) simp
  next
    case False
    obtain p where p: "p mod 2 ^ k = i" "p < claims s + 2 ^ k" "?n \<le> p + 2 ^ k" "awaits k s p (buffer (mq s) ! i) \<or> carries k s p (buffer (mq s) ! i)"
      using minvD(2) [OF inv(1) i] by (auto simp: cell_inv_def)
    have ne: "p \<noteq> ?n" "p + 2 ^ k \<noteq> ?n" using False p(1) mod_add_self2 [of p "2 ^ k"] by metis+
    have "awaits k ?s p (buffer (mq s) ! i) \<or> carries k ?s p (buffer (mq s) ! i)"
      using p(4)
    proof
      assume a: "awaits k s p (buffer (mq s) ! i)"
      have "\<exists>u. writing (pcs ?s u) = Some (of_nat p)" if "p < hpos ?s"
      proof -
        have "p < ?n" using that ne(1) by simp
        then show ?thesis using a by (intro keep) (simp add: awaits_def)
      qed
      moreover have "sequence (buffer (mq s) ! i) = of_nat p" "claims ?s \<le> p" using a by (simp_all add: awaits_def)
      ultimately show ?thesis unfolding awaits_def by blast
    next
      assume "carries k s p (buffer (mq s) ! i)"
      then show ?thesis using rd unfolding carries_def by (simp add: nth_append)
    qed
    then show ?thesis using p(1-3) ne(2) unfolding cell_inv_def b by (intro exI [of _ p]) simp
  qed
  moreover have "pc_inv k ?s (pcs ?s u)" for u
  proof (cases "u = t")
    case True
    have "pc_inv k ?s (EnqData d pos)" unfolding pc_inv.simps using pos seq by (intro exI [of _ ?n]) simp
    then show ?thesis using True by (simp del: pc_inv.simps)
  next
    case False
    then have "pc_inv k ?s (pcs s u)" by (intro pc_inv_enqs [OF minvD(3) [OF inv(1)]]) (use sm(2) in simp_all)
    then show ?thesis using False by simp
  qed
  moreover have "shape k ?s" using sh pos by (simp add: shape_def)
  moreover have "owners ?s"
  proof -
    have "writing (pcs s u) \<noteq> Some pos" for u
    proof
      assume w: "writing (pcs s u) = Some pos"
      then obtain n where n: "n < ?n" "pos = of_nat n" using minvD(3) [OF inv(1), of u] by (cases "pcs s u") auto
      then have "n = ?n" using pos of_nat_eq [of n ?n] sm(1) by simp
      then show False using n(1) by simp
    qed
    then show ?thesis using minvD(4) [OF inv(1)] unfolding owners_def rd by auto
  qed
  moreover have "history ?s" using minvD(5) [OF inv(1)] sm(2) unfolding history_def rd by (fastforce simp: nth_append)
  ultimately show ?thesis by (simp add: minv_def)
qed

lemma step_deq_cas:
  assumes inv: "minv k s" "within s" and pc: "pcs s t = DeqCas pos" "q_tail (mq s) = pos"
  shows "minv k (goto (s\<lparr>mq := (mq s)\<lparr>q_tail := pos + 1\<rparr>, claims := claims s + 1\<rparr>) t (DeqData pos))" (is "minv k ?s")
proof -
  let ?n = "claims s"
  note sh = minvD(1) [OF inv(1)] and sm = small [OF inv]
  have pos: "pos = of_nat ?n" using pc(2) shapeD(6) [OF sh] by simp
  obtain m where m: "m \<le> ?n" "pos = of_nat m" "m = ?n \<longrightarrow> sequence (cell_of k s m) = of_nat (m + 1)"
    using minvD(3) [OF inv(1), of t] pc(1) by auto
  have "m = ?n" using m(1,2) pos of_nat_eq [of m ?n] sm(1,2) by simp
  then have seq: "sequence (cell_of k s ?n) = of_nat (?n + 1)" using m(3) by simp
  note ca = carrying [OF inv sm(2) seq]
  have b: "buffer (mq ?s) = buffer (mq s)" by simp
  have wr: "writing (pcs ?s u) = writing (pcs s u)" for u using pc(1) by simp
  have rt: "reading (pcs s t) = None" "reading (pcs ?s t) = Some (of_nat ?n)" using pc(1) pos by simp_all
  have fresh: "reading (pcs s u) \<noteq> Some (of_nat ?n)" for u
  proof
    assume w: "reading (pcs s u) = Some (of_nat ?n)"
    then obtain n where n: "n < ?n" "(of_nat ?n :: size_t) = of_nat n" using minvD(3) [OF inv(1), of u] by (cases "pcs s u") auto
    then have "n = ?n" using of_nat_eq [of ?n n] sm(1,2) by simp
    then show False using n(1) by simp
  qed
  have readers: "(\<exists>u. reading (pcs ?s u) = Some p) = (p = of_nat ?n \<or> (\<exists>u. reading (pcs s u) = Some p))" for p
  proof
    assume "\<exists>u. reading (pcs ?s u) = Some p"
    then show "p = of_nat ?n \<or> (\<exists>u. reading (pcs s u) = Some p)" using pos by (auto split: if_splits)
  next
    assume "p = of_nat ?n \<or> (\<exists>u. reading (pcs s u) = Some p)"
    then show "\<exists>u. reading (pcs ?s u) = Some p"
    proof
      assume "\<exists>u. reading (pcs s u) = Some p"
      then obtain u where "reading (pcs s u) = Some p" by blast
      then show ?thesis using rt(1) by (intro exI [of _ u]) auto
    qed (use rt(2) in blast)
  qed
  have "cell_inv k ?s i" if i: "i < 2 ^ k" for i
  proof -
    obtain p where p: "p mod 2 ^ k = i" "p < ?n + 2 ^ k" "hpos s \<le> p + 2 ^ k" "awaits k s p (buffer (mq s) ! i) \<or> carries k s p (buffer (mq s) ! i)"
      using minvD(2) [OF inv(1) i] by (auto simp: cell_inv_def)
    have "awaits k ?s p (buffer (mq s) ! i) \<or> carries k ?s p (buffer (mq s) ! i)"
      using p(4)
    proof
      assume a: "awaits k s p (buffer (mq s) ! i)"
      have "p \<noteq> ?n"
      proof
        assume e: "p = ?n"
        then have "(of_nat (?n + 1) :: size_t) = of_nat ?n" using a seq p(1) by (simp add: awaits_def)
        then show False using of_nat_eq [of "?n + 1" ?n] sm(1,2) by simp
      qed
      then show ?thesis using a wr unfolding awaits_def by simp
    next
      assume "carries k s p (buffer (mq s) ! i)"
      then show ?thesis using readers unfolding carries_def by (auto simp: less_Suc_eq)
    qed
    then show ?thesis using p(1-3) unfolding cell_inv_def b by (intro exI [of _ p]) simp
  qed
  moreover have "pc_inv k ?s (pcs ?s u)" for u
  proof (cases "u = t")
    case True
    then show ?thesis using pos seq by auto
  next
    case False
    then have "pc_inv k ?s (pcs s u)" by (intro pc_inv_claims [OF minvD(3) [OF inv(1)]]) simp_all
    then show ?thesis using False by simp
  qed
  moreover have "shape k ?s" using sh pos ca(1) by (simp add: shape_def)
  moreover have "owners ?s" using minvD(4) [OF inv(1)] fresh pos unfolding owners_def wr by auto
  moreover have "history ?s"
  proof -
    have h: "distinct (map fst (finished s))" "\<forall>x \<in> set (finished s). fst x < ?n \<and> snd x = enqs s ! fst x"
      "\<forall>p < ?n. (p \<in> fst ` set (finished s)) \<noteq> (\<exists>t. reading (pcs s t) = Some (of_nat p))"
      using minvD(5) [OF inv(1)] by (simp_all add: history_def)
    have "(p \<in> fst ` set (finished s)) \<noteq> (\<exists>t. reading (pcs ?s t) = Some (of_nat p))" if p: "p < ?n + 1" for p
    proof (cases "p = ?n")
      case True
      then show ?thesis unfolding readers using h(2) by auto
    next
      case False
      then have "(of_nat p :: size_t) \<noteq> of_nat ?n" using of_nat_eq [of p ?n] p sm(1,2) by simp
      then show ?thesis unfolding readers using h(3) p False by auto
    qed
    moreover have "\<forall>x \<in> set (finished s). fst x < ?n + 1 \<and> snd x = enqs s ! fst x" using h(2) by fastforce
    ultimately show ?thesis using h(1) by (simp add: history_def)
  qed
  ultimately show ?thesis by (simp add: minv_def)
qed

section \<open>Every step\<close>

lemma minv_step:
  assumes step: "mpmc_step t s s'" and inv: "minv k s" "within s"
  shows "minv k s'"
  using step
proof cases
  case (enq_seq d pos c)
  then obtain n where n: "n \<le> hpos s" "pos = of_nat n" using minvD(3) [OF inv(1), of t] by auto
  have "sequence (cell_of k s n) = of_nat n" if "sequence c = pos" using enq_seq(3) slot_of(2) [OF minvD(1) [OF inv(1)], of n] that n(2) by simp
  then show ?thesis unfolding enq_seq(1) using enq_seq(2) n
    by (intro minv_goto [OF inv(1)]) (auto simp: inspect_def split: verdict.split)
next
  case (deq_seq pos c)
  then obtain n where n: "n \<le> claims s" "pos = of_nat n" using minvD(3) [OF inv(1), of t] by auto
  have "sequence (cell_of k s n) = of_nat (n + 1)" if "sequence c = pos + 1"
    using deq_seq(3) slot_of(2) [OF minvD(1) [OF inv(1)], of n] that n(2) by (simp add: add.commute)
  then show ?thesis unfolding deq_seq(1) using deq_seq(2) n
    by (intro minv_goto [OF inv(1)]) (auto simp: inspect_def split: verdict.split)
next
  case (deq_data pos c)
  then obtain n where n: "n < claims s" "pos = of_nat n" "sequence (cell_of k s n) = of_nat (n + 1)" using minvD(3) [OF inv(1), of t] by auto
  have "cell_data c = enqs s ! n"
    using carrying(4) [OF inv _ n(3)] n(1,2) small(2) [OF inv] slot_of(2) [OF minvD(1) [OF inv(1)], of n] deq_data(3) by simp
  then have "pc_inv k s (DeqRelease pos (cell_data c))" unfolding pc_inv.simps using n by (intro exI [of _ n]) simp
  then show ?thesis unfolding deq_data(1) using deq_data(2) by (intro minv_goto [OF inv(1)]) simp_all
next
  case (size_tail)
  then show ?thesis using inv(1) shapeD(6) [OF minvD(1) [OF inv(1)]] by (auto intro!: minv_goto)
qed (use step_data [OF inv] step_publish [OF inv] step_release [OF inv] step_enq_cas [OF inv] step_deq_cas [OF inv] inv(1)
    in \<open>auto intro!: minv_goto simp del: of_nat_Suc\<close>)

lemma step_mono: "mpmc_step t s s' \<Longrightarrow> hpos s \<le> hpos s'"
  by (erule mpmc_step.cases) simp_all

lemma ring_minv:
  assumes r: "ring k q []" "q_tail q = 0" and k: "k \<le> 57"
  shows "minv k (machine_init q)"
proof -
  let ?s = "machine_init q :: 'a machine"
  note D = ringD [OF r(1)]
  have "cell_inv k ?s i" if i: "i < 2 ^ k" for i
  proof -
    have "awaits k ?s i (buffer (mq ?s) ! i)" using D(7) [OF i] r(2) i by (simp add: awaits_def machine_init_def ring_cell_def)
    then show ?thesis using i unfolding cell_inv_def by (intro exI [of _ i]) (simp add: machine_init_def)
  qed
  moreover have "shape k ?s" using D(1,3,4,6) r(2) k by (simp add: shape_def machine_init_def)
  ultimately show ?thesis by (simp add: minv_def owners_def history_def) (simp add: machine_init_def)
qed

lemma reachable_minv:
  assumes reach: "reachable_from q s" and q: "ring k q []" "q_tail q = 0" "k \<le> 57" and w: "within s"
  shows "minv k s"
proof -
  have "(\<lambda>x y. \<exists>t. mpmc_step t x y)\<^sup>*\<^sup>* (machine_init q) s" using reach by (simp add: reachable_from_def)
  then show ?thesis using w
  proof (induction rule: rtranclp_induct)
    case base
    show ?case by (rule ring_minv [OF q])
  next
    case (step x y)
    then obtain t where t: "mpmc_step t x y" by blast
    have "within x" using step_mono [OF t] step.prems by (simp add: within_def)
    then show ?case using minv_step [OF t] step.IH by blast
  qed
qed

section \<open>What the invariant gives\<close>

lemma cell_position:
  assumes inv: "minv k s" "within s"
  obtains p where "p mod 2 ^ k = n mod 2 ^ k" "p < claims s + 2 ^ k" "hpos s \<le> p + 2 ^ k" "p + 1 < 2 ^ 64"
    "awaits k s p (cell_of k s n) \<or> carries k s p (cell_of k s n)"
proof -
  have "n mod 2 ^ k < (2 :: nat) ^ k" by simp
  then show thesis using minvD(2) [OF inv(1)] small(3) [OF inv] that unfolding cell_inv_def by blast
qed

lemma same_slot:
  fixes p n :: nat
  assumes "p mod 2 ^ k = n mod 2 ^ k" "n < p + 2 ^ k" shows "n \<le> p"
proof (rule ccontr)
  assume "\<not> n \<le> p"
  moreover from this have "n - p < 2 ^ k" using assms(2) by linarith
  ultimately have "p = n" using ring_inj_le [of p 0 "2 ^ k" "n - p"] assms(1) by simp
  then show False using \<open>\<not> n \<le> p\<close> by simp
qed

text \<open>The queue never holds more than its capacity.\<close>

lemma never_overfull:
  assumes inv: "minv k s" "within s"
  shows "hpos s \<le> claims s + 2 ^ k"
proof -
  obtain p where p: "p mod 2 ^ k = claims s mod 2 ^ k" "p < claims s + 2 ^ k" "hpos s \<le> p + 2 ^ k"
    by (rule cell_position [OF inv])
  have "p \<le> claims s" using same_slot [of "claims s" k p] p(1,2) by simp
  then show ?thesis using p(3) by simp
qed

text \<open>What the comparison of a position with a sequence number says, without wrap-around.\<close>

lemma inspect_nat:
  assumes "n < 2 ^ 63 + 1" "m < 2 ^ 63 + 2 ^ 57" "k \<le> 57"
  shows "inspect (2 ^ k) (of_nat n) (of_nat m) = (if m = n then Claim else if m < n \<and> n \<le> m + 2 ^ k then Refuse else Retry)"
proof -
  have b: "n < 2 ^ 64" "m < 2 ^ 64" using assms by simp_all
  have "(2 :: nat) ^ k < 2 ^ 64" using pow_57 [OF assms(3)] by simp
  then have "unat (of_nat (2 ^ k) :: size_t) = 2 ^ k" unfolding unat_of_nat by (intro mod_less) simp
  then have c: "unat (2 ^ k :: size_t) = 2 ^ k" by simp
  have "(of_nat n - of_nat m :: size_t) = of_nat (if m \<le> n then n - m else 2 ^ 64 - (m - n))"
    using b by (auto simp: of_nat_diff)
  then have "unat (of_nat n - of_nat m :: size_t) = (if m \<le> n then n - m else 2 ^ 64 - (m - n))"
    using b by (simp add: unat_of_nat)
  moreover have "2 ^ k \<le> (2 :: nat) ^ 57" using assms(3) by (rule pow_57)
  ultimately have "(of_nat n - of_nat m \<le> (2 ^ k :: size_t)) = (m \<le> n \<and> n \<le> m + 2 ^ k)"
    using assms c by (auto simp: word_le_nat_alt)
  then show ?thesis using of_nat_eq [of m n] b by (auto simp: inspect_def)
qed

end
