(* ===== verification/Queue_Facts.thy ===== *)
theory Queue_Facts
  imports Queue_Steps
begin

text \<open>
  What the invariant of the machine says of the answers, the memory accesses, the values that pass
  through the queue, and the progress of a thread.
\<close>

section \<open>Answers\<close>

lemma verdict_enq:
  assumes inv: "minv k s" "within s" and n: "n \<le> hpos s"
  shows "inspect (capacity (mq s)) (of_nat n) (sequence (cell_of k s n)) = Refuse \<Longrightarrow>
      n = hpos s \<and> 2 ^ k \<le> n \<and> n - 2 ^ k \<notin> fst ` set (finished s)"
    "n = hpos s \<Longrightarrow> inspect (capacity (mq s)) (of_nat n) (sequence (cell_of k s n)) \<noteq> Retry"
proof -
  note sm = small [OF inv] and sh = minvD(1) [OF inv(1)]
  obtain p where p: "p mod 2 ^ k = n mod 2 ^ k" "p < claims s + 2 ^ k" "hpos s \<le> p + 2 ^ k"
    "awaits k s p (cell_of k s n) \<or> carries k s p (cell_of k s n)" by (rule cell_position [OF inv])
  define m where "m = (if awaits k s p (cell_of k s n) then p else p + 1)"
  have seq: "sequence (cell_of k s n) = of_nat m" using p(4) by (auto simp: m_def awaits_def carries_def)
  have m: "m < 2 ^ 63 + 2 ^ 57" "n < 2 ^ 63 + 1" using sm n p by (auto simp: m_def carries_def)
  have ins: "inspect (capacity (mq s)) (of_nat n) (sequence (cell_of k s n)) =
      (if m = n then Claim else if m < n \<and> n \<le> m + 2 ^ k then Refuse else Retry)"
    unfolding seq shapeD(8) [OF sh] by (rule inspect_nat [OF m(2,1) shapeD(2) [OF sh]])
  have le: "n \<le> p + 2 ^ k" using p(3) n by simp
  have bk: "p = n - 2 ^ k \<and> 2 ^ k \<le> n" if "p < n"
    using that le same_slot [OF p(1)] by (cases "n = p + 2 ^ k") auto
  show "inspect (capacity (mq s)) (of_nat n) (sequence (cell_of k s n)) = Refuse \<Longrightarrow>
      n = hpos s \<and> 2 ^ k \<le> n \<and> n - 2 ^ k \<notin> fst ` set (finished s)"
  proof -
    assume "inspect (capacity (mq s)) (of_nat n) (sequence (cell_of k s n)) = Refuse"
    then have "m < n" unfolding ins by (auto split: if_splits)
    then have "p < n" by (auto simp: m_def split: if_splits)
    note b = bk [OF this]
    have "p \<notin> fst ` set (finished s)"
      using p(4) minvD(5) [OF inv(1)] by (fastforce simp: history_def awaits_def carries_def)
    then show ?thesis using b p(3) n by auto
  qed
  show "n = hpos s \<Longrightarrow> inspect (capacity (mq s)) (of_nat n) (sequence (cell_of k s n)) \<noteq> Retry"
  proof -
    assume h: "n = hpos s"
    have "n = p \<or> p < n" using same_slot [of n k p] p(1,2) h sm(2) by auto
    then show ?thesis
    proof
      assume e: "n = p"
      have "\<not> carries k s p (cell_of k s n)" using e h by (simp add: carries_def)
      then show ?thesis unfolding ins using p(4) e by (simp add: m_def)
    next
      assume l: "p < n"
      have "(2 :: nat) ^ 1 \<le> 2 ^ k" using shapeD(1) [OF sh] by (intro power_increasing) simp_all
      then show ?thesis unfolding ins using bk [OF l] by (auto simp: m_def)
    qed
  qed
qed

lemma verdict_deq:
  assumes inv: "minv k s" "within s" and n: "n \<le> claims s"
  shows "inspect (capacity (mq s)) (of_nat n + 1) (sequence (cell_of k s n)) = Refuse \<Longrightarrow>
      n = claims s \<and> (n = hpos s \<or> (\<exists>t. writing (pcs s t) = Some (of_nat n)))"
    "n = claims s \<Longrightarrow> inspect (capacity (mq s)) (of_nat n + 1) (sequence (cell_of k s n)) \<noteq> Retry"
proof -
  note sm = small [OF inv] and sh = minvD(1) [OF inv(1)]
  obtain p where p: "p mod 2 ^ k = n mod 2 ^ k" "p < claims s + 2 ^ k" "hpos s \<le> p + 2 ^ k"
    "awaits k s p (cell_of k s n) \<or> carries k s p (cell_of k s n)" by (rule cell_position [OF inv])
  define m where "m = (if awaits k s p (cell_of k s n) then p else p + 1)"
  have seq: "sequence (cell_of k s n) = of_nat m" using p(4) by (auto simp: m_def awaits_def carries_def)
  have m: "m < 2 ^ 63 + 2 ^ 57" "n + 1 < 2 ^ 63 + 1" using sm n p by (auto simp: m_def carries_def)
  have e1: "(of_nat n + 1 :: size_t) = of_nat (n + 1)" by simp
  have ins: "inspect (capacity (mq s)) (of_nat n + 1) (sequence (cell_of k s n)) =
      (if m = n + 1 then Claim else if m < n + 1 \<and> n + 1 \<le> m + 2 ^ k then Refuse else Retry)"
    unfolding seq shapeD(8) [OF sh] e1 by (rule inspect_nat [OF m(2,1) shapeD(2) [OF sh]])
  have np: "n \<le> p \<or> n = p + 2 ^ k" using same_slot [OF p(1)] p(3) n sm(2) by (cases "n = p + 2 ^ k") auto
  have pn: "p \<le> n" if "n = claims s" using same_slot [of n k p] p(1,2) that by simp
  show "inspect (capacity (mq s)) (of_nat n + 1) (sequence (cell_of k s n)) = Refuse \<Longrightarrow>
      n = claims s \<and> (n = hpos s \<or> (\<exists>t. writing (pcs s t) = Some (of_nat n)))"
  proof -
    assume "inspect (capacity (mq s)) (of_nat n + 1) (sequence (cell_of k s n)) = Refuse"
    then have mn: "m < n + 1" unfolding ins by (auto split: if_splits)
    show ?thesis
    proof (cases "awaits k s p (cell_of k s n)")
      case True
      then have "p = n" "n = claims s" using mn n by (simp_all add: m_def awaits_def)
      then show ?thesis using True sm(2) by (auto simp: awaits_def)
    next
      case False
      then have "p < n" using mn by (simp add: m_def)
      then have "n = p + 2 ^ k" using np by simp
      then show ?thesis using p(3) n sm(2) by simp
    qed
  qed
  show "n = claims s \<Longrightarrow> inspect (capacity (mq s)) (of_nat n + 1) (sequence (cell_of k s n)) \<noteq> Retry"
    using pn np shapeD(1) [OF sh] unfolding ins by (auto simp: m_def awaits_def split: if_splits)
qed

lemma size_answer:
  assumes inv: "minv k s" "within s" and n: "n \<le> claims s" and m: "m \<le> hpos s"
  shows "unat (clamp_size (capacity (mq s)) (of_nat n) (of_nat m)) = (if n \<le> m then min (2 ^ k) (m - n) else 2 ^ k)"
proof -
  note sm = small [OF inv] and sh = minvD(1) [OF inv(1)]
  have nh: "n < 2 ^ 63" "m < 2 ^ 63" using n m sm(2) inv(2) by (simp_all add: within_def)
  have "(2 :: nat) ^ k < 2 ^ 64" using sm(4) by simp
  then have "unat (of_nat (2 ^ k) :: size_t) = 2 ^ k" unfolding unat_of_nat by (intro mod_less) simp
  then have c: "unat (capacity (mq s)) = 2 ^ k" unfolding shapeD(8) [OF sh] by simp
  have "(of_nat m - of_nat n :: size_t) = of_nat (if n \<le> m then m - n else 2 ^ 64 - (n - m))"
    using nh by (auto simp: of_nat_diff)
  then have d: "unat (of_nat m - of_nat n :: size_t) = (if n \<le> m then m - n else 2 ^ 64 - (n - m))"
    using nh by (simp add: unat_of_nat)
  have "(2 :: nat) ^ k \<le> 2 ^ 57" using shapeD(2) [OF sh] by (rule pow_57)
  then have "2 ^ k < 2 ^ 64 - (n - m)" using nh by simp
  then have "\<not> n \<le> m \<Longrightarrow> unat (capacity (mq s)) < unat (of_nat m - of_nat n :: size_t)" using c d by simp
  then show ?thesis using c d by (cases "n \<le> m") (auto simp: clamp_size_def word_less_nat_alt min_def)
qed

section \<open>Values\<close>

text \<open>With no operation in flight, the queue is a ring that holds the values not yet taken.\<close>

lemma quiescent_ring:
  assumes inv: "minv k s" "within s" and idle: "\<And>t. writing (pcs s t) = None" "\<And>t. reading (pcs s t) = None"
  shows "ring k (mq s) (drop (claims s) (enqs s))" "fst ` set (finished s) = {..<claims s}"
proof -
  note sm = small [OF inv] and sh = minvD(1) [OF inv(1)]
  let ?xs = "drop (claims s) (enqs s)" and ?T = "claims s"
  have len: "length ?xs = hpos s - ?T" by simp
  have ut: "unat (q_tail (mq s)) = ?T" using shapeD(6) [OF sh] sm(1,2) by (simp add: unat_of_nat)
  have "ring_cell (q_tail (mq s)) ?xs j (buffer (mq s) ! ((?T + j) mod 2 ^ k))" if j: "j < 2 ^ k" for j
  proof -
    obtain p where p: "p mod 2 ^ k = (?T + j) mod 2 ^ k" "p < ?T + 2 ^ k" "hpos s \<le> p + 2 ^ k"
      "awaits k s p (cell_of k s (?T + j)) \<or> carries k s p (cell_of k s (?T + j))" by (rule cell_position [OF inv])
    have "?T \<le> p" using p(4) idle by (auto simp: awaits_def carries_def not_less [symmetric])
    then have e: "p = ?T + j" using ring_inj [of ?T "p - ?T" "2 ^ k" j] p(1,2) j by simp
    have "carries k s p (cell_of k s (?T + j))" if "p < hpos s" using p(4) idle that by (auto simp: awaits_def)
    moreover have "awaits k s p (cell_of k s (?T + j))" if "\<not> p < hpos s" using p(4) that by (auto simp: carries_def)
    ultimately show ?thesis
      using shapeD(6) [OF sh] e by (cases "p < hpos s") (auto simp: ring_cell_def awaits_def carries_def add.commute)
  qed
  moreover have "q_head (mq s) = q_tail (mq s) + of_nat (length ?xs)" using shapeD(5-7) [OF sh] by (simp add: of_nat_diff)
  moreover have "length ?xs \<le> 2 ^ k" using never_overfull [OF inv] by simp
  ultimately show "ring k (mq s) ?xs" using shapeD(1-4) [OF sh] by (simp add: ring_def ut)
  show "fst ` set (finished s) = {..<?T}" using minvD(5) [OF inv(1)] idle by (auto simp: history_def)
qed

section \<open>Memory accesses\<close>

lemma one_owner_per_cell:
  assumes inv: "minv k s" "within s"
    and t: "writing (pcs s t) = Some p \<or> reading (pcs s t) = Some p" and u: "writing (pcs s u) = Some p' \<or> reading (pcs s u) = Some p'"
    and same: "slot (mq s) p = slot (mq s) p'"
  shows "t = u"
proof -
  note sm = small [OF inv] and sh = minvD(1) [OF inv(1)] and own = minvD(4) [OF inv(1)]
  have pos: "\<exists>n. p = of_nat n \<and> n < hpos s \<and> (sequence (cell_of k s n) = of_nat n \<and> writing (pcs s x) = Some p \<or>
      sequence (cell_of k s n) = of_nat (n + 1) \<and> reading (pcs s x) = Some p)"
    if "writing (pcs s x) = Some p \<or> reading (pcs s x) = Some p" for x p
    using that minvD(3) [OF inv(1), of x] sm(2) by (cases "pcs s x") auto
  obtain n where n: "p = of_nat n" "n < hpos s" "sequence (cell_of k s n) = of_nat n \<and> writing (pcs s t) = Some p \<or>
      sequence (cell_of k s n) = of_nat (n + 1) \<and> reading (pcs s t) = Some p" using pos [OF t] by blast
  obtain n' where n': "p' = of_nat n'" "n' < hpos s" "sequence (cell_of k s n') = of_nat n' \<and> writing (pcs s u) = Some p' \<or>
      sequence (cell_of k s n') = of_nat (n' + 1) \<and> reading (pcs s u) = Some p'" using pos [OF u] by blast
  have c: "n mod 2 ^ k = n' mod 2 ^ k" using same slot_of(1) [OF sh] by (simp add: n(1) n'(1))
  have b: "n + 1 < 2 ^ 64" "n' + 1 < 2 ^ 64" "n < 2 ^ 64" "n' < 2 ^ 64" using n(2) n'(2) sm(1) by simp_all
  note ne = mod_Suc_neq [OF shapeD(1) [OF sh]]
  have e: "a = b" if "a + 1 < 2 ^ 64" "b + 1 < 2 ^ 64" "(of_nat a :: size_t) = of_nat b" for a b :: nat using that of_nat_eq [of a b] by simp
  consider (ww) "sequence (cell_of k s n) = of_nat n" "writing (pcs s t) = Some p" "sequence (cell_of k s n') = of_nat n'" "writing (pcs s u) = Some p'"
    | (wr) "sequence (cell_of k s n) = of_nat n" "sequence (cell_of k s n') = of_nat (n' + 1)"
    | (rw) "sequence (cell_of k s n) = of_nat (n + 1)" "sequence (cell_of k s n') = of_nat n'"
    | (rr) "sequence (cell_of k s n) = of_nat (n + 1)" "reading (pcs s t) = Some p" "sequence (cell_of k s n') = of_nat (n' + 1)" "reading (pcs s u) = Some p'"
    using n(3) n'(3) by argo
  then show ?thesis
  proof cases
    case ww
    then have "(of_nat n :: size_t) = of_nat n'" using c by simp
    then show ?thesis using ownersD(1) [OF own ww(2)] ww(4) n(1) n'(1) by simp
  next
    case wr
    then have "n = n' + 1" using c of_nat_eq [OF b(3) b(2)] by simp
    then show ?thesis using ne [of n'] c by simp
  next
    case rw
    then have "n' = n + 1" using c of_nat_eq [OF b(4) b(1)] by simp
    then show ?thesis using ne [of n] c by simp
  next
    case rr
    then have "n = n'" using c of_nat_eq [OF b(1) b(2)] by simp
    then show ?thesis using ownersD(2) [OF own rr(2)] rr(4) n(1) n'(1) by simp
  qed
qed

section \<open>Progress\<close>

text \<open>A thread that runs alone finishes its call, wherever the others have stopped.\<close>

definition finishes :: "'t \<Rightarrow> 't machine \<Rightarrow> bool" where
  "finishes t s \<longleftrightarrow> (\<exists>s'. (mpmc_step t)\<^sup>*\<^sup>* s s' \<and> pcs s' t = Idle)"

lemma finishes_idle: "pcs s t = Idle \<Longrightarrow> finishes t s"
  unfolding finishes_def by blast

lemma finishes_step: "mpmc_step t s s1 \<Longrightarrow> finishes t s1 \<Longrightarrow> finishes t s"
  unfolding finishes_def by (meson converse_rtranclp_into_rtranclp)

lemma finishes_return:
  "pcs s t = EnqRet b \<Longrightarrow> finishes t s" "pcs s t = DeqRet r \<Longrightarrow> finishes t s" "pcs s t = SizeRet n \<Longrightarrow> finishes t s"
  by ((rule finishes_step [OF enq_return] finishes_step [OF deq_return] finishes_step [OF size_return], assumption, rule finishes_idle, simp)+)

lemma finishes_publish: "pcs s t = EnqPublish pos \<Longrightarrow> finishes t s"
  by (rule finishes_step [OF enq_publish], assumption, rule finishes_return(1)) simp

lemma finishes_write: "pcs s t = EnqData d pos \<Longrightarrow> finishes t s"
  by (rule finishes_step [OF enq_data], assumption, rule finishes_publish) simp

lemma finishes_release: "pcs s t = DeqRelease pos d \<Longrightarrow> finishes t s"
  by (rule finishes_step [OF deq_release], assumption, rule finishes_return(2)) simp

lemma finishes_read: "pcs s t = DeqData (of_nat n) \<Longrightarrow> shape k s \<Longrightarrow> finishes t s"
  by (rule finishes_step [OF deq_data], assumption, rule slot_of(2), assumption, rule finishes_release) simp

lemma finishes_cas: "pcs s t = EnqCas d pos \<Longrightarrow> q_head (mq s) = pos \<Longrightarrow> finishes t s"
  by (rule finishes_step [OF enq_cas], assumption, assumption, rule finishes_write) simp

lemma finishes_enq_fresh:
  assumes inv: "minv k s" "within s" and pc: "pcs s t = EnqSeq d (of_nat (hpos s))"
  shows "finishes t s"
proof (rule finishes_step [OF enq_seq [OF pc slot_of(2) [OF minvD(1) [OF inv(1)]]]],
    cases "inspect (capacity (mq s)) (of_nat (hpos s)) (sequence (cell_of k s (hpos s)))", goal_cases)
  case 1
  then show ?case by (simp only: verdict.case) (rule finishes_cas, simp, simp add: shapeD(5) [OF minvD(1) [OF inv(1)]])
next
  case 2
  then show ?case by (simp only: verdict.case) (rule finishes_return(1) [where b = False], simp)
next
  case 3
  then show ?case using verdict_enq(2) [OF inv, of "hpos s"] by simp
qed

lemma finishes_deq_cas:
  assumes inv: "minv k s" "within s" and pc: "pcs s t = DeqCas pos" "q_tail (mq s) = pos"
  shows "finishes t s"
proof -
  note step = deq_cas [OF pc]
  obtain n where n: "pos = of_nat n" using minvD(3) [OF inv(1), of t] pc(1) by auto
  show ?thesis by (rule finishes_step [OF step], rule finishes_read [OF _ minvD(1) [OF minv_step [OF step inv]], where n = n]) (simp add: n)
qed

lemma finishes_deq_fresh:
  assumes inv: "minv k s" "within s" and pc: "pcs s t = DeqSeq (of_nat (claims s))"
  shows "finishes t s"
proof -
  note sh = minvD(1) [OF inv(1)]
  note step = deq_seq [OF pc slot_of(2) [OF sh]]
  have m: "minv k (goto s t l)" if "mpmc_step t s (goto s t l)" for l by (rule minv_step [OF that inv])
  have w: "within (goto s t l)" for l using inv(2) by (simp add: within_def)
  show ?thesis
  proof (rule finishes_step [OF step], cases "inspect (capacity (mq s)) (of_nat (claims s) + 1) (sequence (cell_of k s (claims s)))", goal_cases)
    case 1
    have "finishes t (goto s t (DeqCas (of_nat (claims s))))"
      by (rule finishes_deq_cas [OF m w]) (use step 1 shapeD(6) [OF sh] in simp_all)
    then show ?case using 1 by simp
  next
    case 2
    then show ?case by (simp only: verdict.case) (rule finishes_return(2) [where r = None], simp)
  next
    case 3
    then show ?case using verdict_deq(2) [OF inv, of "claims s"] by simp
  qed
qed

lemma finishes_reload:
  assumes inv: "minv k s" "within s"
  shows "pcs s t = EnqHead d \<Longrightarrow> finishes t s" "pcs s t = EnqCas d pos \<Longrightarrow> finishes t s"
    "pcs s t = DeqTail \<Longrightarrow> finishes t s" "pcs s t = DeqCas pos \<Longrightarrow> finishes t s"
proof -
  have w: "within (goto s t l)" for l using inv(2) by (simp add: within_def)
  have e: "finishes t s" if step: "mpmc_step t s (goto s t (EnqSeq d (of_nat (hpos s))))"
    by (rule finishes_step [OF step], rule finishes_enq_fresh [OF minv_step [OF step inv] w]) simp
  have q: "finishes t s" if step: "mpmc_step t s (goto s t (DeqSeq (of_nat (claims s))))"
    by (rule finishes_step [OF step], rule finishes_deq_fresh [OF minv_step [OF step inv] w]) simp
  show "pcs s t = EnqHead d \<Longrightarrow> finishes t s" by (rule e, rule enq_head) simp_all
  show "pcs s t = EnqCas d pos \<Longrightarrow> finishes t s" by (rule e, rule enq_cas_fail) simp_all
  show "pcs s t = DeqTail \<Longrightarrow> finishes t s" by (rule q, rule deq_tail) simp_all
  show "pcs s t = DeqCas pos \<Longrightarrow> finishes t s" by (rule q, rule deq_cas_fail) simp_all
qed

lemma finishes_seq:
  assumes inv: "minv k s" "within s"
  shows "pcs s t = EnqSeq d pos \<Longrightarrow> finishes t s" "pcs s t = DeqSeq pos \<Longrightarrow> finishes t s"
proof -
  note sh = minvD(1) [OF inv(1)] and pc = minvD(3) [OF inv(1), of t]
  have w: "within (goto s t l)" for l using inv(2) by (simp add: within_def)
  show "finishes t s" if l: "pcs s t = EnqSeq d pos"
  proof -
    obtain n where n: "pos = of_nat n" using pc l by auto
    note step = enq_seq [OF l [unfolded n] slot_of(2) [OF sh]]
    note ok = finishes_reload [OF minv_step [OF step inv] w, of t] and ret = finishes_return(1)
    show ?thesis
    proof (rule finishes_step [OF step], cases "inspect (capacity (mq s)) (of_nat n) (sequence (cell_of k s n))", goal_cases)
      case 1
      then show ?case by (intro ok(2)) simp
    next
      case 2
      then show ?case by (intro ret [where b = False]) simp
    next
      case 3
      then show ?case by (intro ok(1)) simp
    qed
  qed
  show "finishes t s" if l: "pcs s t = DeqSeq pos"
  proof -
    obtain n where n: "pos = of_nat n" using pc l by auto
    note step = deq_seq [OF l [unfolded n] slot_of(2) [OF sh]]
    note ok = finishes_reload [OF minv_step [OF step inv] w, of t] and ret = finishes_return(2)
    show ?thesis
    proof (rule finishes_step [OF step], cases "inspect (capacity (mq s)) (of_nat n + 1) (sequence (cell_of k s n))", goal_cases)
      case 1
      then show ?case by (intro ok(4)) simp
    next
      case 2
      then show ?case by (intro ret [where r = None]) simp
    next
      case 3
      then show ?case by (intro ok(3)) simp
    qed
  qed
qed

lemma thread_finishes:
  assumes inv: "minv k s" "within s"
  shows "finishes t s"
proof (cases "pcs s t")
  case (DeqData pos)
  then obtain n where "pos = of_nat n" using minvD(3) [OF inv(1), of t] by auto
  then show ?thesis using DeqData finishes_read [where n = n, OF _ minvD(1) [OF inv(1)]] by simp
next
  case SizeTail
  show ?thesis by (rule finishes_step [OF size_tail [OF SizeTail le0]], rule finishes_step [OF size_head [OF _ le0]], simp, rule finishes_return(3)) simp
next
  case (SizeHead x)
  show ?thesis by (rule finishes_step [OF size_head [OF SizeHead le0]], rule finishes_return(3)) simp
qed (erule finishes_reload [OF inv] finishes_seq [OF inv] finishes_idle finishes_return finishes_write finishes_publish finishes_release)+

end
