(* ===== verification/Queue_Theorems.thy ===== *)
theory Queue_Theorems
  imports Queue_Facts
begin

text \<open>The properties of the bounded queue, with the concrete runs that instantiate them.\<close>

section \<open>An executable scheduler\<close>

text \<open>The choices of a schedule: which call an idle thread makes, and what a load or a failed compare-exchange brings back.\<close>

datatype choice = CEnqueue ptr | CDequeue | CSize | CLoad nat | CFail nat | CNext

fun exec :: "'t \<Rightarrow> choice \<Rightarrow> 't machine \<Rightarrow> 't machine option" where
  "exec t c s = (case (pcs s t, c) of
     (Idle, CEnqueue d) \<Rightarrow> Some (goto s t (EnqHead d))
   | (Idle, CDequeue) \<Rightarrow> Some (goto s t DeqTail)
   | (Idle, CSize) \<Rightarrow> Some (goto s t SizeTail)
   | (EnqHead d, CLoad n) \<Rightarrow> if n \<le> length (enqs s) then Some (goto s t (EnqSeq d (of_nat n))) else None
   | (EnqSeq d pos, CNext) \<Rightarrow> do { x \<leftarrow> cell_at (mq s) pos; Some (goto s t (case inspect (capacity (mq s)) pos (sequence x) of
        Claim \<Rightarrow> EnqCas d pos | Refuse \<Rightarrow> EnqRet False | Retry \<Rightarrow> EnqHead d)) }
   | (EnqCas d pos, CNext) \<Rightarrow> if q_head (mq s) = pos
        then Some (goto (s\<lparr>mq := (mq s)\<lparr>q_head := pos + 1\<rparr>, enqs := enqs s @ [d]\<rparr>) t (EnqData d pos)) else None
   | (EnqCas d pos, CFail n) \<Rightarrow> if n \<le> length (enqs s) then Some (goto s t (EnqSeq d (of_nat n))) else None
   | (EnqData d pos, CNext) \<Rightarrow> Some (goto (s\<lparr>mq := write_cell (mq s) pos (cell_data_update (\<lambda>_. d))\<rparr>) t (EnqPublish pos))
   | (EnqPublish pos, CNext) \<Rightarrow> Some (goto (s\<lparr>mq := write_cell (mq s) pos (sequence_update (\<lambda>_. pos + 1))\<rparr>) t (EnqRet True))
   | (EnqRet b, CNext) \<Rightarrow> Some (goto s t Idle)
   | (DeqTail, CLoad n) \<Rightarrow> if n \<le> claims s then Some (goto s t (DeqSeq (of_nat n))) else None
   | (DeqSeq pos, CNext) \<Rightarrow> do { x \<leftarrow> cell_at (mq s) pos; Some (goto s t (case inspect (capacity (mq s)) (pos + 1) (sequence x) of
        Claim \<Rightarrow> DeqCas pos | Refuse \<Rightarrow> DeqRet None | Retry \<Rightarrow> DeqTail)) }
   | (DeqCas pos, CNext) \<Rightarrow> if q_tail (mq s) = pos
        then Some (goto (s\<lparr>mq := (mq s)\<lparr>q_tail := pos + 1\<rparr>, claims := claims s + 1\<rparr>) t (DeqData pos)) else None
   | (DeqCas pos, CFail n) \<Rightarrow> if n \<le> claims s then Some (goto s t (DeqSeq (of_nat n))) else None
   | (DeqData pos, CNext) \<Rightarrow> do { x \<leftarrow> cell_at (mq s) pos; Some (goto s t (DeqRelease pos (cell_data x))) }
   | (DeqRelease pos d, CNext) \<Rightarrow> Some (goto (s\<lparr>mq := write_cell (mq s) pos (sequence_update (\<lambda>_. pos + capacity (mq s))),
        finished := finished s @ [(unat pos, d)]\<rparr>) t (DeqRet (Some d)))
   | (DeqRet r, CNext) \<Rightarrow> Some (goto s t Idle)
   | (SizeTail, CLoad n) \<Rightarrow> if n \<le> claims s then Some (goto s t (SizeHead (of_nat n))) else None
   | (SizeHead x, CLoad n) \<Rightarrow> if n \<le> length (enqs s)
        then Some (goto s t (SizeRet (clamp_size (capacity (mq s)) x (of_nat n)))) else None
   | (SizeRet n, CNext) \<Rightarrow> Some (goto s t Idle)
   | _ \<Rightarrow> None)"

lemma exec_step: "exec t c s = Some s' \<Longrightarrow> mpmc_step t s s'"
  by (cases "pcs s t"; cases c) (auto intro: mpmc_step.intros deq_cas [unfolded Suc_eq_plus1 [symmetric]] split: if_splits simp: bind_eq_Some_conv)

fun exec_all :: "('t \<times> choice) list \<Rightarrow> 't machine \<Rightarrow> 't machine option" where
  "exec_all [] s = Some s"
| "exec_all (x # xs) s = do { s1 \<leftarrow> exec (fst x) (snd x) s; exec_all xs s1 }"

lemma exec_all_steps: "exec_all xs s = Some s' \<Longrightarrow> (\<lambda>x y. \<exists>t. mpmc_step t x y)\<^sup>*\<^sup>* s s'"
proof (induction xs arbitrary: s)
  case (Cons x xs)
  then obtain s1 where "exec (fst x) (snd x) s = Some s1" "exec_all xs s1 = Some s'" by (auto simp: bind_eq_Some_conv simp del: exec.simps)
  then show ?case using Cons.IH exec_step by (metis (mono_tags, lifting) converse_rtranclp_into_rtranclp)
qed simp

lemma exec_reachable: "exec_all xs (machine_init q) = Some s \<Longrightarrow> reachable_from q s"
  unfolding reachable_from_def by (rule exec_all_steps)

text \<open>
  Two threads on a queue of two cells: the first has put in 7 and 8 and is about to write 9 into the
  cell that the second has just released; the second has taken 7 and waits at its next call.
\<close>

definition qdemo_queue :: mpmc_queue_t where
  "qdemo_queue = the (fst (mpmc_init bump_libc 2 (4096, 16)))"

definition put :: "bool \<Rightarrow> ptr \<Rightarrow> nat \<Rightarrow> (bool \<times> choice) list" where
  "put t d n = [(t, CEnqueue d), (t, CLoad n), (t, CNext), (t, CNext), (t, CNext), (t, CNext), (t, CNext)]"

definition take_one :: "bool \<Rightarrow> nat \<Rightarrow> (bool \<times> choice) list" where
  "take_one t n = [(t, CDequeue), (t, CLoad n), (t, CNext), (t, CNext), (t, CNext), (t, CNext), (t, CNext)]"

definition qdemo_quiet :: "bool machine" where
  "qdemo_quiet = the (exec_all (put True 7 0 @ put True 8 1 @ take_one False 0) (machine_init qdemo_queue))"

text \<open>The queue is full, and a third enqueue has loaded the head.\<close>

definition qdemo_full :: "bool machine" where
  "qdemo_full = the (exec_all (put True 7 0 @ put True 8 1 @ [(False, CEnqueue 9), (False, CLoad 2)]) (machine_init qdemo_queue))"

definition qdemo_busy :: "bool machine" where
  "qdemo_busy = the (exec_all [(True, CEnqueue 9), (True, CLoad 2), (True, CNext), (True, CNext)] qdemo_quiet)"

lemma qdemo_init: "mpmc_init bump_libc 2 (4096, 16) = (Some qdemo_queue, snd (mpmc_init bump_libc 2 (4096, 16)))"
proof -
  have "fst (mpmc_init bump_libc 2 (4096, 16)) \<noteq> None" by code_simp
  then show ?thesis unfolding qdemo_queue_def by (cases "mpmc_init bump_libc 2 (4096, 16)") auto
qed

lemma qdemo_quiet_run:
  "exec_all (put True 7 0 @ put True 8 1 @ take_one False 0) (machine_init qdemo_queue) = Some qdemo_quiet"
proof -
  have "exec_all (put True 7 0 @ put True 8 1 @ take_one False 0) (machine_init qdemo_queue) \<noteq> None" by code_simp
  then show ?thesis unfolding qdemo_quiet_def by simp
qed

lemma qdemo_busy_run: "exec_all [(True, CEnqueue 9), (True, CLoad 2), (True, CNext), (True, CNext)] qdemo_quiet = Some qdemo_busy"
proof -
  have "exec_all [(True, CEnqueue 9), (True, CLoad 2), (True, CNext), (True, CNext)] qdemo_quiet \<noteq> None" by code_simp
  then show ?thesis unfolding qdemo_busy_def by simp
qed

section \<open>One thread\<close>

text \<open>
  C31: On a queue made by \<open>mpmc_init\<close> with \<open>n\<close> cells, every sequence of calls of one thread (enqueue,
  dequeue, the bulk calls, size), under any pattern of spurious compare-exchange failures, returns, and
  its answers are those of a list of at most \<open>n\<close> values, first in first out; a bulk enqueue takes as many
  values as fit, a bulk dequeue returns the oldest ones and nulls the entry after them.\<close>

theorem queue_is_bounded_fifo:
  assumes "mpmc_init L n w = (Some q, w')" "list_all queue_op_ok ops"
  shows "\<exists>q'. queue_run (Some q) ops fails = Some (fst (queue_ref_run (unat n) [] ops), Some q')"
proof -
  obtain k where "unat n = 2 ^ k" "ring k q []" using mpmc_init_ring [OF assms(1)] by blast
  then show ?thesis using queue_run_ok [of k q "[]" ops fails] assms(2) by auto
qed

theorem queue_is_bounded_fifo_witness:
  "\<exists>q'. queue_run (Some qdemo_queue) [QEnqueueBulk [1, 2, 3], QDequeue 0, QSize, QDequeueBulk [5, 5, 5]] [True, True] =
     Some ([QCount 2, QValue True 1, QCount 1, QValues 1 [2, 0, 5]], Some q')"
proof -
  have "fst (queue_ref_run (unat (2 :: size_t)) [] [QEnqueueBulk [1, 2, 3], QDequeue 0, QSize, QDequeueBulk [5, 5, 5]]) =
      [QCount 2, QValue True 1, QCount 1, QValues 1 [2, 0, 5]]" by code_simp
  then show ?thesis
    using queue_is_bounded_fifo [OF qdemo_init, of "[QEnqueueBulk [1, 2, 3], QDequeue 0, QSize, QDequeueBulk [5, 5, 5]]" "[True, True]"] by simp
qed

lemma cell_layout:
  "dv_align_up_size sizeof_mpmc_queue_t DV_CACHE_LINE_SIZE (Some 0) = (True, Some 192)"
  "dv_aligned_alloc L DV_CACHE_LINE_SIZE 192 w = c_aligned_alloc L 64 192 w"
  by (simp_all add: dv_aligned_alloc_def dv_align_up_size_def dv_is_power_of_two_def sizeof_mpmc_queue_t_def DV_CACHE_LINE_SIZE_def)

lemma cells_guard: "unat n = 2 ^ k \<Longrightarrow> (SIZE_MAX div sizeof_cell_t < n) = (2 ^ 57 < unat n)"
proof -
  assume n: "unat n = 2 ^ k"
  have "(SIZE_MAX div sizeof_cell_t < n) = ((2 :: nat) ^ 58 \<le> 2 ^ k)"
    using word_div_guard [of sizeof_cell_t n] n by (simp add: sizeof_cell_t_def)
  also have "\<dots> = (58 \<le> k)" by (rule power_increasing_iff) simp
  also have "\<dots> = (57 < k)" by auto
  also have "\<dots> = ((2 :: nat) ^ 57 < 2 ^ k)" by (rule power_strict_increasing_iff [symmetric]) simp
  finally show ?thesis using n by simp
qed

lemma cells_padded:
  assumes "unat n \<le> 2 ^ 57"
  shows "dv_align_up_size (sizeof_cell_t * n) DV_CACHE_LINE_SIZE (Some 0) = (True, Some (64 * n))"
    "dv_aligned_alloc L DV_CACHE_LINE_SIZE (64 * n) w = c_aligned_alloc L 64 (64 * n) w"
proof -
  have u: "unat (64 * n) = 64 * unat n" using assms by (intro trans [OF unat_mult_no_ovf]) simp_all
  have fit: "\<not> SIZE_MAX - (64 - 1) < 64 * n" using assms u by (simp add: word_less_nat_alt)
  have a: "unat (64 :: size_t) = 2 ^ 6" by simp
  have six: "(6 :: nat) < 64" by simp
  note r = align_up_unat [OF a six fit [unfolded not_less]]
  obtain c where "unat ((64 * n + 64 - 1) AND NOT (64 - 1) :: size_t) = 64 * c" using r(1) by auto
  then have "unat ((64 * n + 64 - 1) AND NOT (64 - 1) :: size_t) = unat (64 * n)" using r(2,3) u by simp
  then have "(64 * n + 64 - 1) AND NOT (64 - 1) = 64 * n" by (rule word_unat_eq_iff [THEN iffD2])
  then show p: "dv_align_up_size (sizeof_cell_t * n) DV_CACHE_LINE_SIZE (Some 0) = (True, Some (64 * n))"
    using fit by (simp add: dv_align_up_size_def dv_is_power_of_two_def sizeof_cell_t_def DV_CACHE_LINE_SIZE_def)
  show "dv_aligned_alloc L DV_CACHE_LINE_SIZE (64 * n) w = c_aligned_alloc L 64 (64 * n) w"
    using p by (simp add: dv_aligned_alloc_def dv_is_power_of_two_def sizeof_cell_t_def DV_CACHE_LINE_SIZE_def)
qed

text \<open>
  C37: \<open>mpmc_init\<close> accepts exactly the powers of two from 2 to \<open>2^57\<close>: it then allocates 192 bytes for
  the control block and 64 for each cell, gives back the first block when the second allocation
  fails, and otherwise hands out an empty queue whose cells count up from 0. A power of two whose cells
  do not fit the address space gives back the control block; any other size allocates nothing.\<close>

theorem mpmc_init_exact:
  "mpmc_init L n w =
     (if \<exists>k. 1 \<le> k \<and> k \<le> 62 \<and> unat n = 2 ^ k then
        (case c_aligned_alloc L 64 192 w of
           (None, w1) \<Rightarrow> (None, w1)
         | (Some b, w1) \<Rightarrow>
             (if 2 ^ 57 < unat n then (None, c_free L b w1)
              else case c_aligned_alloc L 64 (64 * n) w1 of
                (None, w2) \<Rightarrow> (None, c_free L b w2)
              | (Some r, w2) \<Rightarrow> (Some \<lparr>q_block = b, buffer_block = r, buffer = map (\<lambda>i. \<lparr>sequence = of_nat i, cell_data = 0\<rparr>) [0..<unat n],
                  buffer_mask = n - 1, q_head = 0, q_tail = 0\<rparr>, w2)))
      else (None, w))"
proof (cases "\<exists>k. 1 \<le> k \<and> k < 64 \<and> unat n = 2 ^ k")
  case False
  then have bad: "n < 2 \<or> n AND (n - 1) \<noteq> 0" using pow2_ge2 [of n] by blast
  have "\<not> (\<exists>k. 1 \<le> k \<and> k \<le> 62 \<and> unat n = 2 ^ k)" 
  proof
    assume "\<exists>k. 1 \<le> k \<and> k \<le> 62 \<and> unat n = 2 ^ k"
    then obtain k where "1 \<le> k" "k \<le> 62" "unat n = 2 ^ k" by blast
    moreover from this have "k < 64" by simp
    ultimately show False using False by blast
  qed
  then show ?thesis using bad by (simp only: mpmc_init_def if_True if_False)
next
  case True
  then obtain k where k: "1 \<le> k" "k < 64" "unat n = 2 ^ k" by blast
  have good: "\<not> (n < 2 \<or> n AND (n - 1) \<noteq> 0)" using True pow2_ge2 [of n] by blast
  note steps = mpmc_init_def if_not_P [OF good] cell_layout
  show ?thesis
  proof (cases "k \<le> 62")
    case False
    then have "k = 63" using k(2) by simp
    then have "n > SIZE_MAX div 2" using k(3) by (simp add: word_less_nat_alt)
    moreover have "\<not> (\<exists>k. 1 \<le> k \<and> k \<le> 62 \<and> unat n = 2 ^ k)"
      using k(3) False by (metis power_inject_exp one_less_numeral_iff semiring_norm(76))
    ultimately show ?thesis by (simp only: steps if_True if_False)
  next
    case le: True
    have half: "\<not> SIZE_MAX div 2 < n" using k(3) power_increasing [OF le, of "2 :: nat"] by (simp add: word_less_nat_alt)
    have ex: "\<exists>k. 1 \<le> k \<and> k \<le> 62 \<and> unat n = 2 ^ k" using k le by blast
    show ?thesis
      unfolding steps if_not_P [OF half] if_P [OF ex] cells_guard [OF k(3)]
      by (cases "2 ^ 57 < unat n") (simp_all add: cell_layout cells_padded dv_aligned_free_def fresh_cell_def [abs_def] del: power_numeral cong: option.case_cong prod.case_cong)
  qed
qed

section \<open>Any number of threads\<close>

lemma reachable_inv:
  assumes "mpmc_init L n w = (Some q, w')" "reachable_from q s" "length (enqs s) < 2 ^ 63"
  obtains k where "unat n = 2 ^ k" "minv k s" "within s"
  using mpmc_init_ring [OF assms(1)] reachable_minv [OF assms(2)] assms(3) unfolding within_def by blast

text \<open>
  C4: Whatever the interleaving of any number of producers and consumers, with stale counter loads and
  spurious failures, as long as fewer than \<open>2^63\<close> values were put in: each position is dequeued at most
  once; the dequeue that won position \<open>p\<close> returned the value whose producer won position \<open>p\<close>, so values
  leave in the order in which they entered; no more positions are taken than were filled; and no more
  than \<open>n\<close> values are in the queue.\<close>

theorem queue_concurrent_fifo:
  assumes "mpmc_init L n w = (Some q, w')" "reachable_from q s" "length (enqs s) < 2 ^ 63"
  shows "distinct (map fst (finished s)) \<and> (\<forall>x \<in> set (finished s). fst x < claims s \<and> snd x = enqs s ! fst x) \<and>
    claims s \<le> length (enqs s) \<and> length (enqs s) - claims s \<le> unat n"
proof -
  obtain k where k: "unat n = 2 ^ k" "minv k s" "within s" by (rule reachable_inv [OF assms])
  show ?thesis using minvD(5) [OF k(2)] small(2) [OF k(2,3)] never_overfull [OF k(2,3)] k(1) by (auto simp: history_def)
qed

lemma qdemo_reachable: "reachable_from qdemo_queue qdemo_quiet" "reachable_from qdemo_queue qdemo_busy"
proof -
  show q: "reachable_from qdemo_queue qdemo_quiet" by (rule exec_reachable [OF qdemo_quiet_run])
  show "reachable_from qdemo_queue qdemo_busy"
    using q exec_all_steps [OF qdemo_busy_run] unfolding reachable_from_def by (rule rtranclp_trans)
qed

lemma qdemo_history:
  "enqs qdemo_quiet = [7, 8]" "claims qdemo_quiet = 1" "finished qdemo_quiet = [(0, 7)]" "pcs qdemo_quiet True = Idle" "pcs qdemo_quiet False = Idle"
  "enqs qdemo_busy = [7, 8, 9]" "pcs qdemo_busy True = EnqData 9 2"
  by code_simp+

theorem queue_concurrent_fifo_witness:
  "distinct (map fst (finished qdemo_busy)) \<and> length [7, 8, 9 :: ptr] - claims qdemo_busy \<le> 2"
  using queue_concurrent_fifo [OF qdemo_init qdemo_reachable(2)] by (simp add: qdemo_history)

text \<open>
  C32: When the threads have stopped in between their calls, nothing is lost or duplicated: the finished
  dequeues are exactly the first values put in, each once, and the queue behaves from there on as the
  bounded list of the remaining ones, in order.\<close>

theorem queue_conserves_values:
  assumes "mpmc_init L n w = (Some q, w')" "reachable_from q s" "length (enqs s) < 2 ^ 63"
    and "\<And>t. pcs s t = Idle" and "list_all queue_op_ok ops"
  shows "fst ` set (finished s) = {..<claims s} \<and>
    (\<exists>q'. queue_run (Some (mq s)) ops fails = Some (fst (queue_ref_run (unat n) (drop (claims s) (enqs s)) ops), Some q'))"
proof -
  obtain k where k: "unat n = 2 ^ k" "minv k s" "within s" by (rule reachable_inv [OF assms(1-3)])
  note r = quiescent_ring [OF k(2,3)]
  show ?thesis using r assms(4) queue_run_ok [of k "mq s" _ ops fails] assms(5) k(1) by fastforce
qed

theorem queue_conserves_values_witness:
  "fst ` set (finished qdemo_quiet) = {..<claims qdemo_quiet} \<and>
   (\<exists>q'. queue_run (Some (mq qdemo_quiet)) [QDequeue 0, QDequeue 0] [] = Some ([QValue True 8, QValue False 0], Some q'))"
proof -
  have "pcs qdemo_quiet t = Idle" for t by (cases t) (simp_all add: qdemo_history)
  then show ?thesis
    using queue_conserves_values [OF qdemo_init qdemo_reachable(1), of "[QDequeue 0, QDequeue 0]" "[]"] by (simp add: qdemo_history)
qed

text \<open>The position whose cell's \<open>data\<close> a thread is about to read or write.\<close>

fun data_access :: "pc \<Rightarrow> size_t option" where
  "data_access (EnqData d pos) = Some pos"
| "data_access (DeqData pos) = Some pos"
| "data_access _ = None"

lemma data_access_owner: "data_access l = Some p \<Longrightarrow> writing l = Some p \<or> reading l = Some p"
  by (cases l) simp_all

text \<open>
  C33: No data race on a cell: two threads are never both at a plain access to the \<open>data\<close> of the same
  cell, whether both write it or one writes and one reads.\<close>

theorem queue_no_data_race:
  assumes "mpmc_init L n w = (Some q, w')" "reachable_from q s" "length (enqs s) < 2 ^ 63"
    and "data_access (pcs s t) = Some p" "data_access (pcs s u) = Some p'" "slot (mq s) p = slot (mq s) p'"
  shows "t = u"
proof -
  obtain k where k: "unat n = 2 ^ k" "minv k s" "within s" by (rule reachable_inv [OF assms(1-3)])
  show ?thesis by (rule one_owner_per_cell [OF k(2,3) data_access_owner [OF assms(4)] data_access_owner [OF assms(5)] assms(6)])
qed

theorem queue_no_data_race_witness: "data_access (pcs qdemo_busy True) = Some 2 \<and> data_access (pcs qdemo_busy False) \<noteq> Some 0"
proof -
  have "slot (mq qdemo_busy) 2 = slot (mq qdemo_busy) 0" by code_simp
  then show ?thesis using queue_no_data_race [OF qdemo_init qdemo_reachable(2), of True 2 False 0] by (auto simp: qdemo_history)
qed

text \<open>
  C34: A refusal is justified at the step that decides it: an enqueue answers false only if the value one
  lap back is still in its cell, waiting or being taken; a dequeue only if every position that was won by
  a producer has been taken, or the producer of the next one has not finished.\<close>

theorem queue_refusals_justified:
  assumes "mpmc_init L n w = (Some q, w')" "reachable_from q s" "length (enqs s) < 2 ^ 63" and step: "mpmc_step t s s'"
  shows "(pcs s t = EnqSeq d pos \<and> pcs s' t = EnqRet False \<longrightarrow>
      unat n \<le> length (enqs s) \<and> length (enqs s) - unat n \<notin> fst ` set (finished s)) \<and>
    (pcs s t = DeqSeq pos \<and> pcs s' t = DeqRet None \<longrightarrow>
      claims s = length (enqs s) \<or> (\<exists>u. writing (pcs s u) = Some (of_nat (claims s))))"
proof -
  obtain k where k: "unat n = 2 ^ k" "minv k s" "within s" by (rule reachable_inv [OF assms(1-3)])
  note sh = minvD(1) [OF k(2)] and pc = minvD(3) [OF k(2), of t]
  have "unat n \<le> length (enqs s) \<and> length (enqs s) - unat n \<notin> fst ` set (finished s)"
    if l: "pcs s t = EnqSeq d pos" "pcs s' t = EnqRet False"
  proof -
    obtain m where m: "m \<le> length (enqs s)" "pos = of_nat m" using pc l(1) by auto
    have "inspect (capacity (mq s)) (of_nat m) (sequence (cell_of k s m)) = Refuse"
      using step l slot_of(2) [OF sh, of m] m(2) by (auto elim!: mpmc_stepE split: verdict.splits)
    then show ?thesis using verdict_enq(1) [OF k(2,3) m(1)] k(1) by metis
  qed
  moreover have "claims s = length (enqs s) \<or> (\<exists>u. writing (pcs s u) = Some (of_nat (claims s)))"
    if l: "pcs s t = DeqSeq pos" "pcs s' t = DeqRet None"
  proof -
    obtain m where m: "m \<le> claims s" "pos = of_nat m" using pc l(1) by auto
    have "inspect (capacity (mq s)) (of_nat m + 1) (sequence (cell_of k s m)) = Refuse"
      using step l slot_of(2) [OF sh, of m] m(2) by (auto elim!: mpmc_stepE split: verdict.splits)
    then show ?thesis using verdict_deq(1) [OF k(2,3) m(1)] by metis
  qed
  ultimately show ?thesis by blast
qed

lemma qdemo_full_reachable: "reachable_from qdemo_queue qdemo_full"
proof -
  have "exec_all (put True 7 0 @ put True 8 1 @ [(False, CEnqueue 9), (False, CLoad 2)]) (machine_init qdemo_queue) \<noteq> None" by code_simp
  then show ?thesis unfolding qdemo_full_def by (intro exec_reachable [of "put True 7 0 @ put True 8 1 @ [(False, CEnqueue 9), (False, CLoad 2)]"]) simp
qed

lemma qdemo_full_state: "pcs qdemo_full False = EnqSeq 9 2" "enqs qdemo_full = [7, 8]" "claims qdemo_full = 0"
  by code_simp+

lemma qdemo_full_step: "mpmc_step False qdemo_full (goto qdemo_full False (EnqRet False))"
proof -
  have "cell_at (mq qdemo_full) 2 = Some \<lparr>sequence = 1, cell_data = 7\<rparr>" "inspect (capacity (mq qdemo_full)) 2 1 = Refuse" by code_simp+
  then show ?thesis using enq_seq [OF qdemo_full_state(1)] by fastforce
qed

theorem queue_refusals_justified_witness: "2 \<le> length (enqs qdemo_full) \<and> 0 \<notin> fst ` set (finished qdemo_full)"
  using queue_refusals_justified [OF qdemo_init qdemo_full_reachable _ qdemo_full_step, of 9 2] by (simp add: qdemo_full_state)

text \<open>
  C35: The answer of a concurrent \<open>mpmc_size\<close> does not exceed the capacity. It is the difference of a value
  \<open>b\<close> the head has had and a value \<open>a\<close> the tail has had, clamped to the capacity; when the head it sees is
  older than the tail it sees, the difference underflows and the clamp makes it the capacity. When the
  load of the head is not stale, the answer is at least the number of values in the queue.\<close>

theorem queue_size_bounds:
  assumes "mpmc_init L n w = (Some q, w')" "reachable_from q s" "length (enqs s) < 2 ^ 63" and step: "mpmc_step t s s'"
    and l: "pcs s t = SizeHead x" "pcs s' t = SizeRet v"
  shows "unat v \<le> unat n \<and> (\<exists>a b. a \<le> claims s \<and> x = of_nat a \<and> b \<le> length (enqs s) \<and>
    unat v = (if a \<le> b then min (unat n) (b - a) else unat n) \<and>
    (b = length (enqs s) \<longrightarrow> length (enqs s) - claims s \<le> unat v))"
proof -
  obtain k where k: "unat n = 2 ^ k" "minv k s" "within s" by (rule reachable_inv [OF assms(1-3)])
  obtain m where m: "m \<le> claims s" "x = of_nat m" using minvD(3) [OF k(2), of t] l(1) by auto
  obtain b where b: "b \<le> length (enqs s)" "v = clamp_size (capacity (mq s)) (of_nat m) (of_nat b)"
    using step l m(2) by (auto elim!: mpmc_stepE)
  have v: "unat v = (if m \<le> b then min (2 ^ k) (b - m) else 2 ^ k)" unfolding b(2) by (rule size_answer [OF k(2,3) m(1) b(1)])
  have "length (enqs s) \<le> claims s + 2 ^ k" "claims s \<le> length (enqs s)" using never_overfull [OF k(2,3)] minvD(1) [OF k(2)] by (auto simp: shape_def)
  then show ?thesis unfolding k(1) using m b(1) v by (intro conjI exI [of _ m] exI [of _ b]) auto
qed

text \<open>
  The underflow happens in a run: one thread has put in a value and taken it out again, and the size
  another thread computes from the new tail and the old head is the capacity, for an empty queue.
\<close>

definition stale_size :: "(bool \<times> choice) list" where
  "stale_size = put True 7 0 @ take_one True 0 @ [(False, CSize), (False, CLoad 1)]"

theorem queue_size_bounds_witness:
  "\<exists>s v. reachable_from qdemo_queue s \<and> length (enqs s) = claims s \<and> pcs s False = SizeHead 1 \<and>
     mpmc_step False s (goto s False (SizeRet v)) \<and> v = 2 \<and> unat v \<le> unat (2 :: size_t)"
proof -
  define s where "s = the (exec_all stale_size (machine_init qdemo_queue))"
  have "exec_all stale_size (machine_init qdemo_queue) \<noteq> None" by code_simp
  then have r: "reachable_from qdemo_queue s" unfolding s_def by (intro exec_reachable [of stale_size]) simp
  have e: "pcs s False = SizeHead 1" "enqs s = [7]" "claims s = 1" "clamp_size (capacity (mq s)) 1 (of_nat 0) = 2"
    unfolding s_def by code_simp+
  have step: "mpmc_step False s (goto s False (SizeRet 2))" using size_head [OF e(1), of 0] e(4) by simp
  have "unat (2 :: size_t) \<le> unat (2 :: size_t)"
    using queue_size_bounds [OF qdemo_init r _ step e(1), THEN conjunct1] e(2) by (simp add: goto_def)
  then show ?thesis using step e r by (intro exI [of _ s] exI [of _ 2]) simp
qed

text \<open>
  C36: No thread is ever blocked by another: from every reachable state, wherever the other threads have
  stopped in their operations, some run of steps of this thread alone takes it to the end of its call.\<close>

theorem queue_threads_finish:
  assumes "mpmc_init L n w = (Some q, w')" "reachable_from q s" "length (enqs s) < 2 ^ 63"
  shows "\<exists>s'. (mpmc_step t)\<^sup>*\<^sup>* s s' \<and> pcs s' t = Idle"
proof -
  obtain k where k: "unat n = 2 ^ k" "minv k s" "within s" by (rule reachable_inv [OF assms])
  show ?thesis using thread_finishes [OF k(2,3), of t] unfolding finishes_def .
qed

theorem queue_threads_finish_witness:
  "pcs qdemo_busy True = EnqData 9 2 \<and> (\<exists>s'. (mpmc_step False)\<^sup>*\<^sup>* qdemo_busy s' \<and> pcs s' False = Idle) \<and>
   (\<exists>s'. (mpmc_step False)\<^sup>*\<^sup>* qdemo_full s' \<and> pcs s' False = Idle)"
  using queue_threads_finish [OF qdemo_init qdemo_reachable(2), of False] queue_threads_finish [OF qdemo_init qdemo_full_reachable, of False]
  by (simp add: qdemo_history qdemo_full_state)

end
