(* ===== verification/Graph_Pools.thy ===== *)
theory Graph_Pools
  imports Alloc_Hooks
begin

text \<open>
  The typed pools of the graph (\<open>src/graph/dv_graph.h\<close>, \<open>src/graph/dv_graph.c\<close>): the two record
  types, an array of records with checked access, and the one routine through which every block of
  the graph is resized. A pool is an array of values; the allocator sees its bytes, laid out as the
  target does it, and hands bytes back. The locale \<open>codec\<close> is the interface between the two views:
  an encoding of fixed size that can be read back.
\<close>

lemma unat_Suc_word: "unat m < unat n \<Longrightarrow> unat (m + 1) = Suc (unat m)" for m n :: "'a::len word"
proof -
  assume "unat m < unat n"
  moreover have "unat n < 2 ^ LENGTH('a)" by (rule unsigned_less)
  ultimately have "Suc (unat m) < 2 ^ LENGTH('a)" by linarith
  then show ?thesis by (simp add: unat_word_ariths)
qed

section \<open>Status codes and records\<close>

datatype dv_graph_status_t =
    DV_GRAPH_OK
  | DV_GRAPH_ERR_INVALID
  | DV_GRAPH_ERR_STALE
  | DV_GRAPH_ERR_NOT_FOUND
  | DV_GRAPH_ERR_EXISTS
  | DV_GRAPH_ERR_FULL
  | DV_GRAPH_ERR_NOMEM
  | DV_GRAPH_ERR_OVERFLOW

text \<open>A \<open>double\<close> is never computed with, only stored: its bits.\<close>

type_synonym dbl = "64 word"

definition DV_GRAPH_MIN_CAPACITY :: u32 where
  "DV_GRAPH_MIN_CAPACITY = 8"

definition DV_GRAPH_INVALID_INDEX :: u32 where
  "DV_GRAPH_INVALID_INDEX = 0xFFFFFFFF"

definition DV_GRAPH_MAX_CAPACITY :: u32 where
  "DV_GRAPH_MAX_CAPACITY = 0x7FFFFFFF"

record dv_graph_vertex_rec_t =
  out_head :: u32
  out_tail :: u32
  in_head :: u32
  in_tail :: u32
  out_degree :: u32
  in_degree :: u32
  v_generation :: u32
  v_active :: bool

record dv_graph_edge_rec_t =
  e_src :: u32
  e_dst :: u32
  next_out :: u32
  prev_out :: u32
  next_in :: u32
  prev_in :: u32
  e_generation :: u32
  e_active :: bool

section \<open>Layout\<close>

text \<open>Seven 32-bit words, the flag, three bytes of padding.\<close>

definition sizeof_rec :: size_t where
  "sizeof_rec = 32"

definition rec_bytes :: "u32 list \<Rightarrow> bool \<Rightarrow> byte list" where
  "rec_bytes xs b = concat (map (le_bytes 4) xs) @ [if b then 1 else 0, 0, 0, 0]"

definition rec_word :: "byte list \<Rightarrow> nat \<Rightarrow> u32" where
  "rec_word bs k = le_load (chunk 4 bs k)"

definition vertex_bytes :: "dv_graph_vertex_rec_t \<Rightarrow> byte list" where
  "vertex_bytes v = rec_bytes [out_head v, out_tail v, in_head v, in_tail v, out_degree v, in_degree v,
     v_generation v] (v_active v)"

definition vertex_of :: "byte list \<Rightarrow> dv_graph_vertex_rec_t" where
  "vertex_of bs = \<lparr>out_head = rec_word bs 0, out_tail = rec_word bs 1, in_head = rec_word bs 2,
     in_tail = rec_word bs 3, out_degree = rec_word bs 4, in_degree = rec_word bs 5,
     v_generation = rec_word bs 6, v_active = (bs ! 28 \<noteq> 0)\<rparr>"

definition edge_bytes :: "dv_graph_edge_rec_t \<Rightarrow> byte list" where
  "edge_bytes e = rec_bytes [e_src e, e_dst e, next_out e, prev_out e, next_in e, prev_in e,
     e_generation e] (e_active e)"

definition edge_of :: "byte list \<Rightarrow> dv_graph_edge_rec_t" where
  "edge_of bs = \<lparr>e_src = rec_word bs 0, e_dst = rec_word bs 1, next_out = rec_word bs 2,
     prev_out = rec_word bs 3, next_in = rec_word bs 4, prev_in = rec_word bs 5,
     e_generation = rec_word bs 6, e_active = (bs ! 28 \<noteq> 0)\<rparr>"

lemma chunk_concat:
  assumes "\<And>x. x \<in> set xs \<Longrightarrow> length (f x) = n" "k < length xs"
  shows "chunk n (concat (map f xs) @ ys) k = f (xs ! k)"
  using assms
proof (induction xs arbitrary: k)
  case (Cons x xs)
  show ?case
  proof (cases k)
    case 0
    then show ?thesis using Cons.prems(1) by (simp add: chunk_def)
  next
    case (Suc j)
    then have "chunk n (concat (map f (x # xs)) @ ys) k = chunk n (concat (map f xs) @ ys) j"
      using Cons.prems(1) [of x] by (simp add: chunk_def)
    then show ?thesis using Suc Cons by simp
  qed
qed simp

lemma rec_word_bytes: "k < length xs \<Longrightarrow> rec_word (rec_bytes xs b) k = xs ! k"
  by (simp add: rec_word_def rec_bytes_def chunk_concat le_load_bytes)

lemma length_rec_bytes [simp]: "length (rec_bytes xs b) = 4 * length xs + 4"
  by (induction xs) (simp_all add: rec_bytes_def)

lemma rec_bytes_flag: "length xs = 7 \<Longrightarrow> rec_bytes xs b ! 28 = (if b then 1 else 0)"
proof -
  assume l: "length xs = 7"
  have "length (concat (map (le_bytes 4) xs)) = 4 * length xs" by (induction xs) auto
  then show ?thesis using l by (simp add: rec_bytes_def nth_append)
qed

section \<open>Arrays\<close>

record 'a array =
  arr_addr :: nat
  arr_items :: "'a list"

definition arr_get :: "'a array option \<Rightarrow> nat \<Rightarrow> 'a option" where
  "arr_get p i = do { a \<leftarrow> p; if i < length (arr_items a) then Some (arr_items a ! i) else None }"

definition arr_set :: "'a array option \<Rightarrow> nat \<Rightarrow> 'a \<Rightarrow> 'a array option option" where
  "arr_set p i x = do {
     a \<leftarrow> p;
     if i < length (arr_items a) then Some (Some (a\<lparr>arr_items := (arr_items a)[i := x]\<rparr>)) else None }"

text \<open>The items of a pool, none for a null pointer.\<close>

definition items :: "'a array option \<Rightarrow> 'a list" where
  "items p = (case p of None \<Rightarrow> [] | Some a \<Rightarrow> arr_items a)"

lemma items_simps [simp]: "items None = []" "items (Some a) = arr_items a"
  by (simp_all add: items_def)

lemma arr_get_items: "arr_get p i = (if i < length (items p) then Some (items p ! i) else None)"
  by (cases p) (simp_all add: arr_get_def)

lemma arr_set_items:
  "i < length (items p) \<Longrightarrow> \<exists>p'. arr_set p i x = Some p' \<and> items p' = (items p)[i := x] \<and> (p' = None) = (p = None)"
  by (cases p) (simp_all add: arr_set_def)

definition as_block :: "('a \<Rightarrow> byte list) \<Rightarrow> 'a array \<Rightarrow> block" where
  "as_block enc a = \<lparr>blk_addr = arr_addr a, blk_data = concat (map enc (arr_items a))\<rparr>"

definition as_array :: "nat \<Rightarrow> (byte list \<Rightarrow> 'a) \<Rightarrow> nat \<Rightarrow> block \<Rightarrow> 'a array" where
  "as_array sz dec n b = \<lparr>arr_addr = blk_addr b, arr_items = map dec (chunks sz (blk_data b) n)\<rparr>"

section \<open>Size arithmetic and default hooks\<close>

definition dv_graph_is_pow2 :: "size_t \<Rightarrow> bool" where
  "dv_graph_is_pow2 x \<longleftrightarrow> x \<noteq> 0 \<and> x AND (x - 1) = 0"

definition dv_graph_align_up :: "size_t \<Rightarrow> size_t \<Rightarrow> size_t option" where
  "dv_graph_align_up sz al =
     (if \<not> dv_graph_is_pow2 al then None
      else if sz > SIZE_MAX - (al - 1) then None
      else Some ((sz + al - 1) AND NOT (al - 1)))"

definition dv_graph_bytes_for :: "u32 \<Rightarrow> size_t \<Rightarrow> dv_graph_status_t + size_t" where
  "dv_graph_bytes_for cnt es =
     (let n = ucast cnt :: size_t in
      if n \<noteq> 0 \<and> es > SIZE_MAX div n then Inl DV_GRAPH_ERR_OVERFLOW else Inr (n * es))"

definition DV_GRAPH_MALLOC_ALIGN :: size_t where
  "DV_GRAPH_MALLOC_ALIGN = alignof_max_align_t"

definition dv_graph_over_aligned_alloc :: "'w libc \<Rightarrow> size_t \<Rightarrow> size_t \<Rightarrow> 'w \<Rightarrow> block option \<times> 'w" where
  "dv_graph_over_aligned_alloc L sz al w =
     (case dv_graph_align_up sz al of
        None \<Rightarrow> (None, w)
      | Some padded \<Rightarrow> c_aligned_alloc L al padded w)"

definition dv_graph_over_aligned_free :: "'w libc \<Rightarrow> block \<Rightarrow> 'w \<Rightarrow> 'w" where
  "dv_graph_over_aligned_free L b w = c_free L b w"

definition dv_graph_default_alloc :: "'w libc \<Rightarrow> 'w alloc_fn" where
  "dv_graph_default_alloc L sz al u w =
     (if al \<le> DV_GRAPH_MALLOC_ALIGN then Some (c_malloc L sz w)
      else Some (dv_graph_over_aligned_alloc L sz al w))"

definition dv_graph_default_realloc :: "'w libc \<Rightarrow> 'w realloc_fn" where
  "dv_graph_default_realloc L b old_size new_size al u w =
     (if al \<le> DV_GRAPH_MALLOC_ALIGN then Some (c_realloc L b new_size w)
      else case dv_graph_over_aligned_alloc L new_size al w of
        (None, w1) \<Rightarrow> Some (None, w1)
      | (Some m, w1) \<Rightarrow> do {
          d \<leftarrow> copy_live (blk_data m) (blk_data b) (if old_size < new_size then old_size else new_size);
          Some (Some (m\<lparr>blk_data := d\<rparr>), dv_graph_over_aligned_free L b w1) })"

definition dv_graph_default_free :: "'w libc \<Rightarrow> 'w free_fn" where
  "dv_graph_default_free L b sz al u w =
     (if al \<le> DV_GRAPH_MALLOC_ALIGN then Some (c_free L b w)
      else Some (dv_graph_over_aligned_free L b w))"

definition dv_graph_default_allocator :: "'w libc \<Rightarrow> 'w hooks" where
  "dv_graph_default_allocator L = \<lparr>
     hk_alloc = Some (dv_graph_default_alloc L),
     hk_realloc = Some (dv_graph_default_realloc L),
     hk_free = Some (dv_graph_default_free L),
     hk_user_data = 0\<rparr>"

section \<open>Resizing a block\<close>

type_synonym 'w block_result = "(dv_graph_status_t \<times> block option \<times> 'w) option"

definition dv_graph_resize_block ::
  "'w hooks \<Rightarrow> size_t \<Rightarrow> block option \<Rightarrow> size_t \<Rightarrow> size_t \<Rightarrow> size_t \<Rightarrow> 'w \<Rightarrow> 'w block_result"
where
  "dv_graph_resize_block hk al blk old_bytes new_bytes live_bytes w =
     (if new_bytes = old_bytes then Some (DV_GRAPH_OK, blk, w)
      else if new_bytes = 0 then do {
        w1 \<leftarrow> (case blk of
                 None \<Rightarrow> Some w
               | Some b \<Rightarrow> do { f \<leftarrow> hk_free hk; f b old_bytes al (hk_user_data hk) w });
        Some (DV_GRAPH_OK, None, w1) }
      else do {
        (mem, w1) \<leftarrow> resize_mem hk blk old_bytes new_bytes
                        (if live_bytes < new_bytes then live_bytes else new_bytes) al w;
        (case mem of
           None \<Rightarrow> Some (DV_GRAPH_ERR_NOMEM, blk, w1)
         | Some m \<Rightarrow> Some (DV_GRAPH_OK, Some m, w1)) })"

definition dv_graph_next_capacity :: "u32 \<Rightarrow> u32" where
  "dv_graph_next_capacity cap =
     (if cap < DV_GRAPH_MIN_CAPACITY then DV_GRAPH_MIN_CAPACITY
      else let half = cap div 2 in
        if cap > DV_GRAPH_MAX_CAPACITY - half then DV_GRAPH_MAX_CAPACITY else cap + half)"

definition dv_graph_clamp_capacity :: "u32 \<Rightarrow> u32 \<Rightarrow> u32" where
  "dv_graph_clamp_capacity cap ceiling = (if ceiling \<noteq> 0 \<and> cap > ceiling then ceiling else cap)"

end
