(* ===== verification/Dv_Graph.thy ===== *)
theory Dv_Graph
  imports Graph_Pools
begin

text \<open>
  The adjacency-list graph of \<open>src/graph/dv_graph.h\<close> and \<open>src/graph/dv_graph.c\<close>: control block,
  capacity management, slots and generations, the intrusive edge lists, vertices, edges, bulk
  insertion and iteration. Traversals and the self-check are in \<open>Dv_Graph_Walk\<close>.

  A read or write outside a pool is undefined behaviour (\<open>None\<close>), as is a list walk that never
  ends. Debug assertions are compiled out (the release build).
\<close>

section \<open>Handles\<close>

record dv_vertex_t =
  vh_index :: u32
  vh_generation :: u32

record dv_edge_t =
  eh_index :: u32
  eh_generation :: u32

definition dv_vertex_none :: dv_vertex_t where
  "dv_vertex_none = \<lparr>vh_index = DV_GRAPH_INVALID_INDEX, vh_generation = 0\<rparr>"

definition dv_edge_none :: dv_edge_t where
  "dv_edge_none = \<lparr>eh_index = DV_GRAPH_INVALID_INDEX, eh_generation = 0\<rparr>"

definition dv_vertex_is_none :: "dv_vertex_t \<Rightarrow> bool" where
  "dv_vertex_is_none v \<longleftrightarrow> vh_generation v = 0"

definition dv_edge_is_none :: "dv_edge_t \<Rightarrow> bool" where
  "dv_edge_is_none e \<longleftrightarrow> eh_generation e = 0"

definition dv_vertex_eq :: "dv_vertex_t \<Rightarrow> dv_vertex_t \<Rightarrow> bool" where
  "dv_vertex_eq a b \<longleftrightarrow> vh_index a = vh_index b \<and> vh_generation a = vh_generation b"

definition dv_edge_eq :: "dv_edge_t \<Rightarrow> dv_edge_t \<Rightarrow> bool" where
  "dv_edge_eq a b \<longleftrightarrow> eh_index a = eh_index b \<and> eh_generation a = eh_generation b"

section \<open>Configuration and control block\<close>

record dv_graph_config_t =
  gcf_directed :: bool
  gcf_weighted :: bool
  gcf_growable :: bool
  gcf_cache_aligned :: bool
  gcf_reject_parallel_edges :: bool
  gcf_reject_self_loops :: bool
  gcf_initial_vertex_capacity :: u32
  gcf_initial_edge_capacity :: u32
  gcf_max_vertex_capacity :: u32
  gcf_max_edge_capacity :: u32

record 'w dv_graph_t =
  gr_vertices :: "dv_graph_vertex_rec_t array option"
  gr_edges :: "dv_graph_edge_rec_t array option"
  gr_weights :: "dbl array option"
  gr_version :: u64
  gr_vertex_capacity :: u32
  gr_vertex_count :: u32
  gr_vertex_free :: u32
  gr_vertex_watermark :: u32
  gr_edge_capacity :: u32
  gr_weight_capacity :: u32
  gr_edge_count :: u32
  gr_edge_free :: u32
  gr_edge_watermark :: u32
  gr_work :: "u32 array option"
  gr_visited :: "u64 array option"
  gr_work_capacity :: u32
  gr_visited_words :: size_t
  gr_align :: size_t
  gr_initial_vertex_capacity :: u32
  gr_initial_edge_capacity :: u32
  gr_max_vertex_capacity :: u32
  gr_max_edge_capacity :: u32
  gr_allocator :: "'w hooks"
  gr_directed :: bool
  gr_weighted :: bool
  gr_growable :: bool
  gr_cache_aligned :: bool
  gr_reject_parallel_edges :: bool
  gr_reject_self_loops :: bool
  gr_in_update :: bool
  gr_update_dirty :: bool

definition zero_graph :: "'w dv_graph_t" where
  "zero_graph = \<lparr>gr_vertices = None, gr_edges = None, gr_weights = None, gr_version = 0,
     gr_vertex_capacity = 0, gr_vertex_count = 0, gr_vertex_free = 0, gr_vertex_watermark = 0,
     gr_edge_capacity = 0, gr_weight_capacity = 0, gr_edge_count = 0, gr_edge_free = 0,
     gr_edge_watermark = 0, gr_work = None, gr_visited = None, gr_work_capacity = 0,
     gr_visited_words = 0, gr_align = 0, gr_initial_vertex_capacity = 0, gr_initial_edge_capacity = 0,
     gr_max_vertex_capacity = 0, gr_max_edge_capacity = 0, gr_allocator = null_hooks,
     gr_directed = False, gr_weighted = False, gr_growable = False, gr_cache_aligned = False,
     gr_reject_parallel_edges = False, gr_reject_self_loops = False, gr_in_update = False,
     gr_update_dirty = False\<rparr>"

type_synonym 'w graph_result = "(dv_graph_status_t \<times> 'w dv_graph_t \<times> 'w) option"
type_synonym 'w graph_call = "(dv_graph_status_t \<times> 'w dv_graph_t option \<times> 'w) option"

text \<open>\<open>g->vertices[i]\<close>, \<open>g->edges[i]\<close> and a write to a member of either.\<close>

definition vrec :: "'w dv_graph_t \<Rightarrow> u32 \<Rightarrow> dv_graph_vertex_rec_t option" where
  "vrec g i = arr_get (gr_vertices g) (unat i)"

definition erec :: "'w dv_graph_t \<Rightarrow> u32 \<Rightarrow> dv_graph_edge_rec_t option" where
  "erec g i = arr_get (gr_edges g) (unat i)"

definition put_vrec ::
  "'w dv_graph_t \<Rightarrow> u32 \<Rightarrow> (dv_graph_vertex_rec_t \<Rightarrow> dv_graph_vertex_rec_t) \<Rightarrow> 'w dv_graph_t option"
where
  "put_vrec g i f = do {
     v \<leftarrow> vrec g i;
     p \<leftarrow> arr_set (gr_vertices g) (unat i) (f v);
     Some (g\<lparr>gr_vertices := p\<rparr>) }"

definition put_erec ::
  "'w dv_graph_t \<Rightarrow> u32 \<Rightarrow> (dv_graph_edge_rec_t \<Rightarrow> dv_graph_edge_rec_t) \<Rightarrow> 'w dv_graph_t option"
where
  "put_erec g i f = do {
     e \<leftarrow> erec g i;
     p \<leftarrow> arr_set (gr_edges g) (unat i) (f e);
     Some (g\<lparr>gr_edges := p\<rparr>) }"

section \<open>Pool capacities\<close>

definition dv_graph_set_vertex_capacity :: "'w dv_graph_t \<Rightarrow> u32 \<Rightarrow> 'w \<Rightarrow> 'w graph_result" where
  "dv_graph_set_vertex_capacity g cap w =
     (if cap = gr_vertex_capacity g then Some (DV_GRAPH_OK, g, w)
      else if cap > DV_GRAPH_MAX_CAPACITY then Some (DV_GRAPH_ERR_OVERFLOW, g, w)
      else if cap < gr_vertex_watermark g then Some (DV_GRAPH_ERR_INVALID, g, w)
      else case dv_graph_bytes_for (gr_vertex_capacity g) sizeof_rec of
        Inl status \<Rightarrow> Some (status, g, w)
      | Inr old_bytes \<Rightarrow>
       (case dv_graph_bytes_for cap sizeof_rec of
          Inl status \<Rightarrow> Some (status, g, w)
        | Inr new_bytes \<Rightarrow> do {
            (status, blk, w1) \<leftarrow> dv_graph_resize_block (gr_allocator g) (gr_align g)
               (map_option (as_block vertex_bytes) (gr_vertices g)) old_bytes new_bytes
               (ucast (gr_vertex_watermark g) * sizeof_rec) w;
            (if status \<noteq> DV_GRAPH_OK then Some (status, g, w1)
             else Some (DV_GRAPH_OK,
               g\<lparr>gr_vertices := map_option (as_array 32 vertex_of (unat cap)) blk,
                 gr_vertex_capacity := cap\<rparr>, w1)) }))"

definition dv_graph_resize_weights :: "'w dv_graph_t \<Rightarrow> u32 \<Rightarrow> 'w \<Rightarrow> 'w graph_result" where
  "dv_graph_resize_weights g cap w =
     (if \<not> gr_weighted g \<or> cap = gr_weight_capacity g then Some (DV_GRAPH_OK, g, w)
      else case dv_graph_bytes_for (gr_weight_capacity g) 8 of
        Inl status \<Rightarrow> Some (status, g, w)
      | Inr old_bytes \<Rightarrow>
       (case dv_graph_bytes_for cap 8 of
          Inl status \<Rightarrow> Some (status, g, w)
        | Inr new_bytes \<Rightarrow> do {
            (status, blk, w1) \<leftarrow> dv_graph_resize_block (gr_allocator g) (gr_align g)
               (map_option (as_block (le_bytes 8)) (gr_weights g)) old_bytes new_bytes
               (ucast (gr_edge_watermark g) * 8) w;
            (if status \<noteq> DV_GRAPH_OK then Some (status, g, w1)
             else Some (DV_GRAPH_OK,
               g\<lparr>gr_weights := map_option (as_array 8 le_load (unat cap)) blk,
                 gr_weight_capacity := cap\<rparr>, w1)) }))"

text \<open>The part of \<open>dv_graph_set_edge_capacity\<close> that resizes the pool itself.\<close>

definition resize_edge_pool :: "'w dv_graph_t \<Rightarrow> u32 \<Rightarrow> 'w \<Rightarrow> 'w graph_result" where
  "resize_edge_pool g cap w =
     (case dv_graph_bytes_for (gr_edge_capacity g) sizeof_rec of
        Inl status \<Rightarrow> Some (status, g, w)
      | Inr old_bytes \<Rightarrow>
       (case dv_graph_bytes_for cap sizeof_rec of
          Inl status \<Rightarrow> Some (status, g, w)
        | Inr new_bytes \<Rightarrow> do {
            (status, blk, w1) \<leftarrow> dv_graph_resize_block (gr_allocator g) (gr_align g)
               (map_option (as_block edge_bytes) (gr_edges g)) old_bytes new_bytes
               (ucast (gr_edge_watermark g) * sizeof_rec) w;
            (if status \<noteq> DV_GRAPH_OK then Some (status, g, w1)
             else Some (DV_GRAPH_OK,
               g\<lparr>gr_edges := map_option (as_array 32 edge_of (unat cap)) blk,
                 gr_edge_capacity := cap\<rparr>, w1)) }))"

definition dv_graph_set_edge_capacity :: "'w dv_graph_t \<Rightarrow> u32 \<Rightarrow> 'w \<Rightarrow> 'w graph_result" where
  "dv_graph_set_edge_capacity g cap w =
     (if cap = gr_edge_capacity g then dv_graph_resize_weights g cap w
      else if cap > DV_GRAPH_MAX_CAPACITY then Some (DV_GRAPH_ERR_OVERFLOW, g, w)
      else if cap < gr_edge_watermark g then Some (DV_GRAPH_ERR_INVALID, g, w)
      else do {
        (status, g1, w1) \<leftarrow> (if cap > gr_edge_capacity g then dv_graph_resize_weights g cap w
                              else Some (DV_GRAPH_OK, g, w));
        (if status \<noteq> DV_GRAPH_OK then Some (status, g1, w1)
         else do {
           (status2, g2, w2) \<leftarrow> resize_edge_pool g1 cap w1;
           (if status2 \<noteq> DV_GRAPH_OK then Some (status2, g2, w2)
            else if \<not> cap > gr_edge_capacity g then dv_graph_resize_weights g2 cap w2
            else Some (DV_GRAPH_OK, g2, w2)) }) })"

section \<open>Traversal scratch\<close>

definition free_block ::
  "'w dv_graph_t \<Rightarrow> ('a \<Rightarrow> byte list) \<Rightarrow> 'a array option \<Rightarrow> size_t \<Rightarrow> 'w \<Rightarrow> 'w option"
where
  "free_block g enc p bytes w = (case p of
     None \<Rightarrow> Some w
   | Some a \<Rightarrow> do {
       f \<leftarrow> hk_free (gr_allocator g);
       f (as_block enc a) bytes (gr_align g) (hk_user_data (gr_allocator g)) w })"

definition dv_graph_free_scratch :: "'w dv_graph_t \<Rightarrow> 'w \<Rightarrow> ('w dv_graph_t \<times> 'w) option" where
  "dv_graph_free_scratch g w = do {
     w1 \<leftarrow> free_block g (le_bytes 4) (gr_work g) (ucast (gr_work_capacity g) * 2 * 4) w;
     w2 \<leftarrow> free_block g (le_bytes 8) (gr_visited g) (gr_visited_words g * 8) w1;
     Some (g\<lparr>gr_work := None, gr_visited := None, gr_work_capacity := 0, gr_visited_words := 0\<rparr>, w2) }"

definition ensure_work :: "'w dv_graph_t \<Rightarrow> size_t \<Rightarrow> 'w \<Rightarrow> 'w graph_result" where
  "ensure_work g work_bytes w =
     (if gr_work_capacity g < gr_vertex_capacity g then do {
        (status, blk, w1) \<leftarrow> dv_graph_resize_block (gr_allocator g) (gr_align g)
           (map_option (as_block (le_bytes 4)) (gr_work g)) (ucast (gr_work_capacity g) * 2 * 4) work_bytes 0 w;
        (if status \<noteq> DV_GRAPH_OK then Some (status, g, w1)
         else Some (DV_GRAPH_OK,
           g\<lparr>gr_work := map_option (as_array 4 le_load (2 * unat (gr_vertex_capacity g))) blk,
             gr_work_capacity := gr_vertex_capacity g\<rparr>, w1)) }
      else Some (DV_GRAPH_OK, g, w))"

definition ensure_visited :: "'w dv_graph_t \<Rightarrow> size_t \<Rightarrow> 'w \<Rightarrow> 'w graph_result" where
  "ensure_visited g words w =
     (if gr_visited_words g < words then do {
        (status, blk, w1) \<leftarrow> dv_graph_resize_block (gr_allocator g) (gr_align g)
           (map_option (as_block (le_bytes 8)) (gr_visited g)) (gr_visited_words g * 8) (words * 8) 0 w;
        (if status \<noteq> DV_GRAPH_OK then Some (status, g, w1)
         else Some (DV_GRAPH_OK,
           g\<lparr>gr_visited := map_option (as_array 8 le_load (unat words)) blk, gr_visited_words := words\<rparr>, w1)) }
      else Some (DV_GRAPH_OK, g, w))"

definition dv_graph_ensure_scratch :: "'w dv_graph_t \<Rightarrow> 'w \<Rightarrow> 'w graph_result" where
  "dv_graph_ensure_scratch g w =
     (let words = (ucast (gr_vertex_capacity g) + 63) div 64 :: size_t in
      if gr_vertex_capacity g = 0 then Some (DV_GRAPH_OK, g, w)
      else if gr_work_capacity g \<ge> gr_vertex_capacity g \<and> gr_visited_words g \<ge> words
      then Some (DV_GRAPH_OK, g, w)
      else case dv_graph_bytes_for (gr_vertex_capacity g) (2 * 4) of
        Inl _ \<Rightarrow> Some (DV_GRAPH_ERR_OVERFLOW, g, w)
      | Inr work_bytes \<Rightarrow> do {
          (status, g1, w1) \<leftarrow> ensure_work g work_bytes w;
          (if status \<noteq> DV_GRAPH_OK then Some (status, g1, w1) else ensure_visited g1 words w1) })"

definition dv_graph_visited_test :: "'w dv_graph_t \<Rightarrow> u32 \<Rightarrow> bool option" where
  "dv_graph_visited_test g index = do {
     x \<leftarrow> arr_get (gr_visited g) (unat (drop_bit 6 index));
     Some (x AND push_bit (unat (index AND 63)) 1 \<noteq> 0) }"

definition dv_graph_visited_set :: "'w dv_graph_t \<Rightarrow> u32 \<Rightarrow> 'w dv_graph_t option" where
  "dv_graph_visited_set g index = do {
     x \<leftarrow> arr_get (gr_visited g) (unat (drop_bit 6 index));
     p \<leftarrow> arr_set (gr_visited g) (unat (drop_bit 6 index)) (x OR push_bit (unat (index AND 63)) 1);
     Some (g\<lparr>gr_visited := p\<rparr>) }"

section \<open>Version and update phase\<close>

definition dv_graph_touch :: "'w dv_graph_t \<Rightarrow> 'w dv_graph_t" where
  "dv_graph_touch g =
     (if gr_in_update g then g\<lparr>gr_update_dirty := True\<rparr> else g\<lparr>gr_version := gr_version g + 1\<rparr>)"

definition dv_graph_batch_begin :: "'w dv_graph_t \<Rightarrow> bool \<times> 'w dv_graph_t" where
  "dv_graph_batch_begin g = (gr_in_update g, g\<lparr>gr_in_update := True\<rparr>)"

definition dv_graph_batch_end :: "'w dv_graph_t \<Rightarrow> bool \<Rightarrow> 'w dv_graph_t" where
  "dv_graph_batch_end g outer =
     (if outer then g
      else let g1 = g\<lparr>gr_in_update := False\<rparr> in
        if gr_update_dirty g1 then g1\<lparr>gr_update_dirty := False, gr_version := gr_version g1 + 1\<rparr> else g1)"

section \<open>Slots\<close>

definition dv_graph_bump :: "u32 \<Rightarrow> u32" where
  "dv_graph_bump gen = (if gen + 1 = 0 then 1 else gen + 1)"

definition dv_graph_grow_vertices :: "'w dv_graph_t \<Rightarrow> 'w \<Rightarrow> 'w graph_result" where
  "dv_graph_grow_vertices g w =
     (if \<not> gr_growable g then Some (DV_GRAPH_ERR_FULL, g, w)
      else let next = dv_graph_clamp_capacity (dv_graph_next_capacity (gr_vertex_capacity g)) (gr_max_vertex_capacity g)
        in if next \<le> gr_vertex_capacity g then Some (DV_GRAPH_ERR_FULL, g, w)
           else dv_graph_set_vertex_capacity g next w)"

definition dv_graph_grow_edges :: "'w dv_graph_t \<Rightarrow> 'w \<Rightarrow> 'w graph_result" where
  "dv_graph_grow_edges g w =
     (if \<not> gr_growable g then Some (DV_GRAPH_ERR_FULL, g, w)
      else let next = dv_graph_clamp_capacity (dv_graph_next_capacity (gr_edge_capacity g)) (gr_max_edge_capacity g)
        in if next \<le> gr_edge_capacity g then Some (DV_GRAPH_ERR_FULL, g, w)
           else dv_graph_set_edge_capacity g next w)"

text \<open>The index taken, when the status is OK.\<close>

type_synonym 'w take_result = "(dv_graph_status_t \<times> u32 \<times> 'w dv_graph_t \<times> 'w) option"

definition dv_graph_take_vertex :: "'w dv_graph_t \<Rightarrow> 'w \<Rightarrow> 'w take_result" where
  "dv_graph_take_vertex g w =
     (if gr_vertex_free g \<noteq> DV_GRAPH_INVALID_INDEX then do {
        v \<leftarrow> vrec g (gr_vertex_free g);
        Some (DV_GRAPH_OK, gr_vertex_free g, g\<lparr>gr_vertex_free := out_head v\<rparr>, w) }
      else do {
        (status, g1, w1) \<leftarrow> (if gr_vertex_watermark g = gr_vertex_capacity g
                              then dv_graph_grow_vertices g w else Some (DV_GRAPH_OK, g, w));
        (if status \<noteq> DV_GRAPH_OK then Some (status, 0, g1, w1)
         else do {
           g2 \<leftarrow> put_vrec (g1\<lparr>gr_vertex_watermark := gr_vertex_watermark g1 + 1\<rparr>)
                   (gr_vertex_watermark g1) (\<lambda>v. v\<lparr>v_generation := 1\<rparr>);
           Some (DV_GRAPH_OK, gr_vertex_watermark g1, g2, w1) }) })"

definition dv_graph_take_edge :: "'w dv_graph_t \<Rightarrow> 'w \<Rightarrow> 'w take_result" where
  "dv_graph_take_edge g w =
     (if gr_edge_free g \<noteq> DV_GRAPH_INVALID_INDEX then do {
        e \<leftarrow> erec g (gr_edge_free g);
        Some (DV_GRAPH_OK, gr_edge_free g, g\<lparr>gr_edge_free := next_out e\<rparr>, w) }
      else do {
        (status, g1, w1) \<leftarrow> (if gr_edge_watermark g = gr_edge_capacity g
                              then dv_graph_grow_edges g w else Some (DV_GRAPH_OK, g, w));
        (if status \<noteq> DV_GRAPH_OK then Some (status, 0, g1, w1)
         else do {
           g2 \<leftarrow> put_erec (g1\<lparr>gr_edge_watermark := gr_edge_watermark g1 + 1\<rparr>)
                   (gr_edge_watermark g1) (\<lambda>e. e\<lparr>e_generation := 1\<rparr>);
           Some (DV_GRAPH_OK, gr_edge_watermark g1, g2, w1) }) })"

section \<open>Handle validation\<close>

definition dv_graph_vertex_live :: "'w dv_graph_t \<Rightarrow> dv_vertex_t \<Rightarrow> bool option" where
  "dv_graph_vertex_live g v =
     (if vh_generation v = 0 \<or> vh_index v \<ge> gr_vertex_watermark g then Some False
      else do { r \<leftarrow> vrec g (vh_index v); Some (v_active r \<and> v_generation r = vh_generation v) })"

definition dv_graph_edge_live :: "'w dv_graph_t \<Rightarrow> dv_edge_t \<Rightarrow> bool option" where
  "dv_graph_edge_live g e =
     (if eh_generation e = 0 \<or> eh_index e \<ge> gr_edge_watermark g then Some False
      else do { r \<leftarrow> erec g (eh_index e); Some (e_active r \<and> e_generation r = eh_generation e) })"

section \<open>Intrusive lists\<close>

definition dv_graph_link_edge :: "'w dv_graph_t \<Rightarrow> u32 \<Rightarrow> u32 \<Rightarrow> u32 \<Rightarrow> 'w dv_graph_t option" where
  "dv_graph_link_edge g index src dst = do {
     s \<leftarrow> vrec g src;
     g1 \<leftarrow> put_erec g index (\<lambda>e. e\<lparr>e_src := src, e_dst := dst, e_active := True,
             next_out := DV_GRAPH_INVALID_INDEX, prev_out := out_tail s\<rparr>);
     g2 \<leftarrow> (if out_tail s = DV_GRAPH_INVALID_INDEX then put_vrec g1 src (\<lambda>v. v\<lparr>out_head := index\<rparr>)
            else put_erec g1 (out_tail s) (\<lambda>e. e\<lparr>next_out := index\<rparr>));
     g3 \<leftarrow> put_vrec g2 src (\<lambda>v. v\<lparr>out_tail := index, out_degree := out_degree v + 1\<rparr>);
     d \<leftarrow> vrec g3 dst;
     g4 \<leftarrow> put_erec g3 index (\<lambda>e. e\<lparr>next_in := DV_GRAPH_INVALID_INDEX, prev_in := in_tail d\<rparr>);
     g5 \<leftarrow> (if in_tail d = DV_GRAPH_INVALID_INDEX then put_vrec g4 dst (\<lambda>v. v\<lparr>in_head := index\<rparr>)
            else put_erec g4 (in_tail d) (\<lambda>e. e\<lparr>next_in := index\<rparr>));
     put_vrec g5 dst (\<lambda>v. v\<lparr>in_tail := index, in_degree := in_degree v + 1\<rparr>) }"

text \<open>The first half takes the edge off its source's out-list, the second off its target's in-list.\<close>

definition unlink_out :: "'w dv_graph_t \<Rightarrow> u32 \<Rightarrow> 'w dv_graph_t option" where
  "unlink_out g index = do {
     e \<leftarrow> erec g index;
     g1 \<leftarrow> (if prev_out e = DV_GRAPH_INVALID_INDEX
            then put_vrec g (e_src e) (\<lambda>v. v\<lparr>out_head := next_out e\<rparr>)
            else put_erec g (prev_out e) (\<lambda>p. p\<lparr>next_out := next_out e\<rparr>));
     g2 \<leftarrow> (if next_out e = DV_GRAPH_INVALID_INDEX
            then put_vrec g1 (e_src e) (\<lambda>v. v\<lparr>out_tail := prev_out e\<rparr>)
            else put_erec g1 (next_out e) (\<lambda>n. n\<lparr>prev_out := prev_out e\<rparr>));
     put_vrec g2 (e_src e) (\<lambda>v. v\<lparr>out_degree := out_degree v - 1\<rparr>) }"

definition unlink_in :: "'w dv_graph_t \<Rightarrow> u32 \<Rightarrow> 'w dv_graph_t option" where
  "unlink_in g index = do {
     e \<leftarrow> erec g index;
     g1 \<leftarrow> (if prev_in e = DV_GRAPH_INVALID_INDEX
            then put_vrec g (e_dst e) (\<lambda>v. v\<lparr>in_head := next_in e\<rparr>)
            else put_erec g (prev_in e) (\<lambda>p. p\<lparr>next_in := next_in e\<rparr>));
     g2 \<leftarrow> (if next_in e = DV_GRAPH_INVALID_INDEX
            then put_vrec g1 (e_dst e) (\<lambda>v. v\<lparr>in_tail := prev_in e\<rparr>)
            else put_erec g1 (next_in e) (\<lambda>n. n\<lparr>prev_in := prev_in e\<rparr>));
     put_vrec g2 (e_dst e) (\<lambda>v. v\<lparr>in_degree := in_degree v - 1\<rparr>) }"

definition dv_graph_unlink_edge :: "'w dv_graph_t \<Rightarrow> u32 \<Rightarrow> 'w dv_graph_t option" where
  "dv_graph_unlink_edge g index = do { g1 \<leftarrow> unlink_out g index; unlink_in g1 index }"

definition dv_graph_release_edge :: "'w dv_graph_t \<Rightarrow> u32 \<Rightarrow> 'w dv_graph_t option" where
  "dv_graph_release_edge g index = do {
     g1 \<leftarrow> dv_graph_unlink_edge g index;
     g2 \<leftarrow> put_erec g1 index (\<lambda>e. e\<lparr>e_active := False, e_generation := dv_graph_bump (e_generation e),
             next_out := gr_edge_free g1\<rparr>);
     Some (g2\<lparr>gr_edge_free := index, gr_edge_count := gr_edge_count g2 - 1\<rparr>) }"

end
