(* ===== verification/Graph_Memory.thy ===== *)
theory Graph_Memory
  imports Dv_Graph
begin

text \<open>
  The memory of the graph. \<open>codec\<close> is the interface between a typed pool and the bytes the
  allocator moves; resizing through it keeps the live prefix of any pool. It is interpreted for the
  two record types, the weights and both scratch arrays, and gives one specification for every
  capacity change of the graph.
\<close>

section \<open>Typed blocks\<close>

definition sized :: "'a array option \<Rightarrow> nat \<Rightarrow> bool" where
  "sized p n \<longleftrightarrow> length (items p) = n \<and> (p = None) = (n = 0)"

locale codec =
  fixes enc :: "'a \<Rightarrow> byte list" and dec :: "byte list \<Rightarrow> 'a" and sz :: nat
  assumes enc_length: "length (enc x) = sz" and dec_enc: "dec (enc x) = x" and sz_pos: "0 < sz"
begin

lemma length_block: "length (blk_data (as_block enc a)) = length (arr_items a) * sz"
proof -
  have "length (concat (map enc xs)) = length xs * sz" for xs
    by (induction xs) (simp_all add: enc_length)
  then show ?thesis by (simp add: as_block_def)
qed

lemma chunk_block: "i < length (arr_items a) \<Longrightarrow> chunk sz (blk_data (as_block enc a)) i = enc (arr_items a ! i)"
  using chunk_concat [of "arr_items a" enc sz i "[]"] by (simp add: as_block_def enc_length)

lemma array_prefix:
  assumes "take (k * sz) (blk_data b) = take (k * sz) (blk_data (as_block enc a))"
    and "k \<le> length (arr_items a)" "k \<le> n"
  shows "take k (arr_items (as_array sz dec n b)) = take k (arr_items a)"
proof (rule nth_equalityI)
  fix i assume "i < length (take k (arr_items (as_array sz dec n b)))"
  then have i: "i < k" by simp
  have "chunks sz (blk_data b) k = chunks sz (blk_data (as_block enc a)) k"
    by (rule chunks_cong_take [OF assms(1)])
  then have "chunk sz (blk_data b) i = enc (arr_items a ! i)"
    using i assms(2) chunk_block [of i a] nth_chunks by (metis less_le_trans)
  then show "take k (arr_items (as_array sz dec n b)) ! i = take k (arr_items a) ! i"
    using i assms(3) by (simp add: as_array_def dec_enc)
qed (use assms in \<open>simp add: as_array_def\<close>)

text \<open>Every block of the graph changes size this way: \<open>n\<close> items become \<open>m\<close>, the first \<open>k\<close> stay.\<close>

definition resized_array :: "'a array option \<Rightarrow> nat \<Rightarrow> nat \<Rightarrow> block option \<Rightarrow> bool" where
  "resized_array p m k blk \<longleftrightarrow> (let p' = map_option (as_array sz dec m) blk in
     sized p' m \<and> take k (items p') = take k (items p))"

lemma resize_array:
  assumes hk: "allocator_contract hk" "hk_alloc hk \<noteq> None" "hk_free hk \<noteq> None"
    and sp: "sized p n"
    and sizes: "unat old = n * sz" "unat new = m * sz" "unat live = k * sz" and k: "k \<le> n" "k \<le> m" and nm: "n \<noteq> m"
  shows "\<exists>st blk w'. dv_graph_resize_block hk al (map_option (as_block enc) p) old new live w = Some (st, blk, w') \<and>
           st \<in> {DV_GRAPH_OK, DV_GRAPH_ERR_NOMEM} \<and> (st = DV_GRAPH_OK \<longrightarrow> resized_array p m k blk)"
proof -
  let ?b = "map_option (as_block enc) p"
  have p: "length (items p) = n" "(p = None) = (n = 0)" using sp by (simp_all add: sized_def)
  have ne: "new \<noteq> old" using sizes nm sz_pos by auto
  have blk: "unat old \<le> length (blk_data b)" if "?b = Some b" for b
    using that p sizes by (auto simp: length_block)
  show ?thesis
  proof (cases "m = 0")
    case True
    then have z: "new = 0" using sizes by (simp add: unat_eq_zero)
    obtain f where f: "hk_free hk = Some f" using hk(3) by blast
    obtain a where a: "p = Some a" using p nm True by (cases p) auto
    have "unat old \<le> length (blk_data (as_block enc a))" using blk a by simp
    then obtain w' where "f (as_block enc a) old al (hk_user_data hk) w = Some w'"
      using allocator_contract.free_returns [OF hk(1) f] by blast
    then show ?thesis using ne z f True k a by (simp add: dv_graph_resize_block_def resized_array_def sized_def)
  next
    case False
    then have z: "new \<noteq> 0" using sizes sz_pos by auto
    let ?live = "if live < new then live else new"
    have le: "k * sz \<le> m * sz" using k by simp
    then have ln: "unat ?live = k * sz" using sizes by (auto simp: word_less_nat_alt)
    have "unat ?live \<le> unat old" "unat ?live \<le> unat new" using ln sizes k by simp_all
    from allocator_contract.resize_mem_ok [OF hk blk this, where al = al and w = w]
    obtain r w' where r: "resize_mem hk ?b old new ?live al w = Some (r, w')"
      "\<And>m'. r = Some m' \<Longrightarrow> unat new \<le> length (blk_data m')"
      "\<And>m' b. r = Some m' \<Longrightarrow> ?b = Some b \<Longrightarrow> take (unat ?live) (blk_data m') = take (unat ?live) (blk_data b)"
      by blast
    have "resized_array p m k (Some m')" if m': "r = Some m'" for m'
    proof (cases p)
      case None
      then show ?thesis using p k False by (simp add: resized_array_def as_array_def sized_def)
    next
      case (Some a)
      have "take k (arr_items (as_array sz dec m m')) = take k (arr_items a)"
        using r(3) [OF m'] Some ln p k by (intro array_prefix) auto
      then show ?thesis using Some False by (simp add: resized_array_def as_array_def sized_def)
    qed
    then show ?thesis using ne z r(1) by (cases r) (simp_all add: dv_graph_resize_block_def)
  qed
qed

end

lemma rec_words7:
  "rec_word (rec_bytes [a, b, c, d, e, f, g] x) 0 = a" "rec_word (rec_bytes [a, b, c, d, e, f, g] x) 1 = b"
  "rec_word (rec_bytes [a, b, c, d, e, f, g] x) 2 = c" "rec_word (rec_bytes [a, b, c, d, e, f, g] x) 3 = d"
  "rec_word (rec_bytes [a, b, c, d, e, f, g] x) 4 = e" "rec_word (rec_bytes [a, b, c, d, e, f, g] x) 5 = f"
  "rec_word (rec_bytes [a, b, c, d, e, f, g] x) 6 = g"
  by (simp_all add: rec_word_bytes)

interpretation vertex_codec: codec vertex_bytes vertex_of 32
  by unfold_locales (simp_all add: vertex_bytes_def vertex_of_def rec_words7 rec_bytes_flag del: One_nat_def)

interpretation edge_codec: codec edge_bytes edge_of 32
  by unfold_locales (simp_all add: edge_bytes_def edge_of_def rec_words7 rec_bytes_flag del: One_nat_def)

interpretation weight_codec: codec "le_bytes 8 :: u64 \<Rightarrow> byte list" le_load 8
  by unfold_locales (simp_all add: le_load_bytes)

interpretation work_codec: codec "le_bytes 4 :: u32 \<Rightarrow> byte list" le_load 4
  by unfold_locales (simp_all add: le_load_bytes)

section \<open>Records by index\<close>

definition vr :: "'w dv_graph_t \<Rightarrow> u32 \<Rightarrow> dv_graph_vertex_rec_t" where
  "vr g i = items (gr_vertices g) ! unat i"

definition er :: "'w dv_graph_t \<Rightarrow> u32 \<Rightarrow> dv_graph_edge_rec_t" where
  "er g i = items (gr_edges g) ! unat i"

definition set_items :: "'a array option \<Rightarrow> 'a list \<Rightarrow> 'a array option" where
  "set_items p xs = map_option (\<lambda>a. a\<lparr>arr_items := xs\<rparr>) p"

lemma set_items_simps [simp]:
  "set_items p xs = None \<longleftrightarrow> p = None" "p \<noteq> None \<Longrightarrow> items (set_items p xs) = xs"
  by (auto simp: set_items_def)

definition upd_v :: "'w dv_graph_t \<Rightarrow> u32 \<Rightarrow> (dv_graph_vertex_rec_t \<Rightarrow> dv_graph_vertex_rec_t) \<Rightarrow> 'w dv_graph_t" where
  "upd_v g i f = g\<lparr>gr_vertices := set_items (gr_vertices g) ((items (gr_vertices g))[unat i := f (vr g i)])\<rparr>"

definition upd_e :: "'w dv_graph_t \<Rightarrow> u32 \<Rightarrow> (dv_graph_edge_rec_t \<Rightarrow> dv_graph_edge_rec_t) \<Rightarrow> 'w dv_graph_t" where
  "upd_e g i f = g\<lparr>gr_edges := set_items (gr_edges g) ((items (gr_edges g))[unat i := f (er g i)])\<rparr>"

abbreviation n_vertices :: "'w dv_graph_t \<Rightarrow> nat" where
  "n_vertices g \<equiv> length (items (gr_vertices g))"

abbreviation n_edges :: "'w dv_graph_t \<Rightarrow> nat" where
  "n_edges g \<equiv> length (items (gr_edges g))"

lemma vrec_in: "unat i < n_vertices g \<Longrightarrow> vrec g i = Some (vr g i)"
  by (simp add: vrec_def vr_def arr_get_items)

lemma erec_in: "unat i < n_edges g \<Longrightarrow> erec g i = Some (er g i)"
  by (simp add: erec_def er_def arr_get_items)

lemma put_vrec_in: "unat i < n_vertices g \<Longrightarrow> put_vrec g i f = Some (upd_v g i f)"
  by (cases "gr_vertices g") (simp_all add: put_vrec_def vrec_in arr_set_def upd_v_def set_items_def)

lemma put_erec_in: "unat i < n_edges g \<Longrightarrow> put_erec g i f = Some (upd_e g i f)"
  by (cases "gr_edges g") (simp_all add: put_erec_def erec_in arr_set_def upd_e_def set_items_def)

lemma items_set_items: "items (set_items p ((items p)[k := x])) = (items p)[k := x]"
  by (cases p) (simp_all add: set_items_def)

lemma n_upd [simp]:
  "n_vertices (upd_v g i f) = n_vertices g" "n_edges (upd_v g i f) = n_edges g"
  "n_vertices (upd_e g i h) = n_vertices g" "n_edges (upd_e g i h) = n_edges g"
  by (simp_all add: upd_v_def upd_e_def items_set_items)

lemma vr_upd_e [simp]: "vr (upd_e g i f) = vr g" and er_upd_v [simp]: "er (upd_v g i h) = er g"
  by (simp_all add: fun_eq_iff upd_v_def upd_e_def vr_def er_def)

lemma vr_upd_v: "unat i < n_vertices g \<Longrightarrow> vr (upd_v g i f) = (vr g)(i := f (vr g i))"
  by (simp add: fun_eq_iff upd_v_def vr_def items_set_items word_unat_eq_iff nth_list_update)

lemma er_upd_e: "unat i < n_edges g \<Longrightarrow> er (upd_e g i f) = (er g)(i := f (er g i))"
  by (simp add: fun_eq_iff upd_e_def er_def items_set_items word_unat_eq_iff nth_list_update)

lemma upd_v_fields [simp]:
  "gr_edges (upd_v g i f) = gr_edges g" "gr_weights (upd_v g i f) = gr_weights g"
  "gr_version (upd_v g i f) = gr_version g" "gr_vertex_capacity (upd_v g i f) = gr_vertex_capacity g"
  "gr_vertex_count (upd_v g i f) = gr_vertex_count g" "gr_vertex_free (upd_v g i f) = gr_vertex_free g"
  "gr_vertex_watermark (upd_v g i f) = gr_vertex_watermark g" "gr_edge_capacity (upd_v g i f) = gr_edge_capacity g"
  "gr_weight_capacity (upd_v g i f) = gr_weight_capacity g" "gr_edge_count (upd_v g i f) = gr_edge_count g"
  "gr_edge_free (upd_v g i f) = gr_edge_free g" "gr_edge_watermark (upd_v g i f) = gr_edge_watermark g"
  "gr_work (upd_v g i f) = gr_work g" "gr_visited (upd_v g i f) = gr_visited g"
  "gr_work_capacity (upd_v g i f) = gr_work_capacity g" "gr_visited_words (upd_v g i f) = gr_visited_words g"
  "gr_align (upd_v g i f) = gr_align g" "gr_initial_vertex_capacity (upd_v g i f) = gr_initial_vertex_capacity g"
  "gr_initial_edge_capacity (upd_v g i f) = gr_initial_edge_capacity g"
  "gr_max_vertex_capacity (upd_v g i f) = gr_max_vertex_capacity g"
  "gr_max_edge_capacity (upd_v g i f) = gr_max_edge_capacity g" "gr_allocator (upd_v g i f) = gr_allocator g"
  "gr_directed (upd_v g i f) = gr_directed g" "gr_weighted (upd_v g i f) = gr_weighted g"
  "gr_growable (upd_v g i f) = gr_growable g"
  "gr_reject_parallel_edges (upd_v g i f) = gr_reject_parallel_edges g"
  "gr_reject_self_loops (upd_v g i f) = gr_reject_self_loops g" "gr_in_update (upd_v g i f) = gr_in_update g"
  "gr_update_dirty (upd_v g i f) = gr_update_dirty g" "(gr_vertices (upd_v g i f) = None) = (gr_vertices g = None)"
  by (simp_all add: upd_v_def)

lemma upd_e_fields [simp]:
  "gr_vertices (upd_e g i f) = gr_vertices g" "gr_weights (upd_e g i f) = gr_weights g"
  "gr_version (upd_e g i f) = gr_version g" "gr_vertex_capacity (upd_e g i f) = gr_vertex_capacity g"
  "gr_vertex_count (upd_e g i f) = gr_vertex_count g" "gr_vertex_free (upd_e g i f) = gr_vertex_free g"
  "gr_vertex_watermark (upd_e g i f) = gr_vertex_watermark g" "gr_edge_capacity (upd_e g i f) = gr_edge_capacity g"
  "gr_weight_capacity (upd_e g i f) = gr_weight_capacity g" "gr_edge_count (upd_e g i f) = gr_edge_count g"
  "gr_edge_free (upd_e g i f) = gr_edge_free g" "gr_edge_watermark (upd_e g i f) = gr_edge_watermark g"
  "gr_work (upd_e g i f) = gr_work g" "gr_visited (upd_e g i f) = gr_visited g"
  "gr_work_capacity (upd_e g i f) = gr_work_capacity g" "gr_visited_words (upd_e g i f) = gr_visited_words g"
  "gr_align (upd_e g i f) = gr_align g" "gr_initial_vertex_capacity (upd_e g i f) = gr_initial_vertex_capacity g"
  "gr_initial_edge_capacity (upd_e g i f) = gr_initial_edge_capacity g"
  "gr_max_vertex_capacity (upd_e g i f) = gr_max_vertex_capacity g"
  "gr_max_edge_capacity (upd_e g i f) = gr_max_edge_capacity g" "gr_allocator (upd_e g i f) = gr_allocator g"
  "gr_directed (upd_e g i f) = gr_directed g" "gr_weighted (upd_e g i f) = gr_weighted g"
  "gr_growable (upd_e g i f) = gr_growable g"
  "gr_reject_parallel_edges (upd_e g i f) = gr_reject_parallel_edges g"
  "gr_reject_self_loops (upd_e g i f) = gr_reject_self_loops g" "gr_in_update (upd_e g i f) = gr_in_update g"
  "gr_update_dirty (upd_e g i f) = gr_update_dirty g" "(gr_edges (upd_e g i f) = None) = (gr_edges g = None)"
  by (simp_all add: upd_e_def)

section \<open>Well-formed memory\<close>

abbreviation max_cap :: nat where
  "max_cap \<equiv> 2 ^ 31 - 1"

lemma unat_max_capacity [simp]: "unat DV_GRAPH_MAX_CAPACITY = max_cap"
  by (simp add: DV_GRAPH_MAX_CAPACITY_def)

definition cap_policy :: "u32 \<Rightarrow> u32 \<Rightarrow> u32 \<Rightarrow> bool" where
  "cap_policy cap initial ceiling \<longleftrightarrow> cap \<le> DV_GRAPH_MAX_CAPACITY \<and> initial \<le> DV_GRAPH_MAX_CAPACITY \<and>
     ceiling \<le> DV_GRAPH_MAX_CAPACITY \<and> (ceiling \<noteq> 0 \<longrightarrow> cap \<le> ceiling \<and> initial \<le> ceiling)"

definition graph_mem :: "'w dv_graph_t \<Rightarrow> bool" where
  "graph_mem g \<longleftrightarrow>
     sized (gr_vertices g) (unat (gr_vertex_capacity g)) \<and> sized (gr_edges g) (unat (gr_edge_capacity g)) \<and>
     (if gr_weighted g
      then sized (gr_weights g) (unat (gr_weight_capacity g)) \<and> gr_edge_capacity g \<le> gr_weight_capacity g \<and>
        gr_weight_capacity g \<le> DV_GRAPH_MAX_CAPACITY
      else gr_weights g = None \<and> gr_weight_capacity g = 0) \<and>
     sized (gr_work g) (2 * unat (gr_work_capacity g)) \<and> gr_work_capacity g \<le> DV_GRAPH_MAX_CAPACITY \<and>
     sized (gr_visited g) (unat (gr_visited_words g)) \<and> unat (gr_visited_words g) \<le> 2 ^ 31 \<and>
     gr_vertex_watermark g \<le> gr_vertex_capacity g \<and> gr_edge_watermark g \<le> gr_edge_capacity g \<and>
     cap_policy (gr_vertex_capacity g) (gr_initial_vertex_capacity g) (gr_max_vertex_capacity g) \<and>
     cap_policy (gr_edge_capacity g) (gr_initial_edge_capacity g) (gr_max_edge_capacity g) \<and>
     allocator_contract (gr_allocator g) \<and> hk_alloc (gr_allocator g) \<noteq> None \<and> hk_free (gr_allocator g) \<noteq> None"

text \<open>The same graph with other capacities: everything below the high-water marks is as it was.\<close>

definition graph_core :: "'w dv_graph_t \<Rightarrow> 'w dv_graph_t" where
  "graph_core g = g\<lparr>gr_vertices := None, gr_edges := None, gr_weights := None, gr_vertex_capacity := 0,
     gr_edge_capacity := 0, gr_weight_capacity := 0, gr_work := None, gr_visited := None,
     gr_work_capacity := 0, gr_visited_words := 0\<rparr>"

definition same_content :: "'w dv_graph_t \<Rightarrow> 'w dv_graph_t \<Rightarrow> bool" where
  "same_content g g' \<longleftrightarrow> graph_core g' = graph_core g \<and>
     take (unat (gr_vertex_watermark g)) (items (gr_vertices g')) = take (unat (gr_vertex_watermark g)) (items (gr_vertices g)) \<and>
     take (unat (gr_edge_watermark g)) (items (gr_edges g')) = take (unat (gr_edge_watermark g)) (items (gr_edges g)) \<and>
     take (unat (gr_edge_watermark g)) (items (gr_weights g')) = take (unat (gr_edge_watermark g)) (items (gr_weights g))"

lemma graph_core_fields [simp]:
  "gr_version (graph_core g) = gr_version g" "gr_vertex_count (graph_core g) = gr_vertex_count g"
  "gr_vertex_free (graph_core g) = gr_vertex_free g" "gr_vertex_watermark (graph_core g) = gr_vertex_watermark g"
  "gr_edge_count (graph_core g) = gr_edge_count g" "gr_edge_free (graph_core g) = gr_edge_free g"
  "gr_edge_watermark (graph_core g) = gr_edge_watermark g" "gr_align (graph_core g) = gr_align g"
  "gr_initial_vertex_capacity (graph_core g) = gr_initial_vertex_capacity g"
  "gr_initial_edge_capacity (graph_core g) = gr_initial_edge_capacity g"
  "gr_max_vertex_capacity (graph_core g) = gr_max_vertex_capacity g"
  "gr_max_edge_capacity (graph_core g) = gr_max_edge_capacity g" "gr_allocator (graph_core g) = gr_allocator g"
  "gr_directed (graph_core g) = gr_directed g" "gr_weighted (graph_core g) = gr_weighted g"
  "gr_growable (graph_core g) = gr_growable g"
  "gr_reject_parallel_edges (graph_core g) = gr_reject_parallel_edges g"
  "gr_reject_self_loops (graph_core g) = gr_reject_self_loops g" "gr_in_update (graph_core g) = gr_in_update g"
  "gr_update_dirty (graph_core g) = gr_update_dirty g"
  by (simp_all add: graph_core_def)

lemma graph_core_resized [simp]:
  "graph_core (g\<lparr>gr_vertices := a, gr_vertex_capacity := m\<rparr>) = graph_core g"
  "graph_core (g\<lparr>gr_edges := b, gr_edge_capacity := m\<rparr>) = graph_core g"
  "graph_core (g\<lparr>gr_weights := c, gr_weight_capacity := m\<rparr>) = graph_core g"
  "graph_core (g\<lparr>gr_work := d, gr_work_capacity := m\<rparr>) = graph_core g"
  "graph_core (g\<lparr>gr_visited := e, gr_visited_words := n\<rparr>) = graph_core g"
  by (simp_all add: graph_core_def)

lemma same_content_refl [simp]: "same_content g g"
  by (simp add: same_content_def)

lemma core_fields:
  assumes "graph_core g' = graph_core g"
  shows "gr_version g' = gr_version g" "gr_vertex_count g' = gr_vertex_count g" "gr_vertex_free g' = gr_vertex_free g"
    "gr_vertex_watermark g' = gr_vertex_watermark g" "gr_edge_count g' = gr_edge_count g"
    "gr_edge_free g' = gr_edge_free g" "gr_edge_watermark g' = gr_edge_watermark g" "gr_align g' = gr_align g"
    "gr_initial_vertex_capacity g' = gr_initial_vertex_capacity g"
    "gr_initial_edge_capacity g' = gr_initial_edge_capacity g"
    "gr_max_vertex_capacity g' = gr_max_vertex_capacity g" "gr_max_edge_capacity g' = gr_max_edge_capacity g"
    "gr_allocator g' = gr_allocator g" "gr_directed g' = gr_directed g" "gr_weighted g' = gr_weighted g"
    "gr_growable g' = gr_growable g" "gr_reject_parallel_edges g' = gr_reject_parallel_edges g"
    "gr_reject_self_loops g' = gr_reject_self_loops g" "gr_in_update g' = gr_in_update g"
    "gr_update_dirty g' = gr_update_dirty g"
  by (metis assms graph_core_fields)+

lemmas same_contentD = core_fields [OF conjunct1 [OF same_content_def [THEN iffD1]]]

lemma same_content_trans: "same_content g g1 \<Longrightarrow> same_content g1 g2 \<Longrightarrow> same_content g g2"
  using same_contentD(4,7) [of g g1] by (simp add: same_content_def)

section \<open>Changing capacities\<close>

lemma ucast_u32: "unat (ucast (x :: u32) :: size_t) = unat x"
  by (simp add: unsigned_ucast_eq take_bit_nat_eq_self_iff order.strict_trans1 [OF less_imp_le [OF unsigned_less]])

lemma bytes_for_ok:
  assumes "unat es \<le> 64"
  shows "dv_graph_bytes_for cnt es = Inr (ucast cnt * es)" "unat (ucast cnt * es :: size_t) = unat cnt * unat es"
proof -
  have "unat cnt < 2 ^ 32" using unsigned_less [of cnt, where ?'a = nat] by simp
  then have "unat cnt * unat es < 2 ^ 32 * 64 + 1" using assms by (meson le_imp_less_Suc mult_le_mono less_imp_le order.trans Suc_eq_plus1 le_less_trans less_add_one)
  then have lt: "unat (ucast cnt :: size_t) * unat es < 2 ^ 64" unfolding ucast_u32 by simp
  then have "\<not> es > SIZE_MAX div (ucast cnt :: size_t) \<or> (ucast cnt :: size_t) = 0"
    using word_div_guard [of "ucast cnt" es] by (auto simp: mult.commute)
  then show "dv_graph_bytes_for cnt es = Inr (ucast cnt * es)" by (auto simp: dv_graph_bytes_for_def Let_def)
  show "unat (ucast cnt * es :: size_t) = unat cnt * unat es" using unat_mult_no_ovf [OF lt] by (simp only: ucast_u32)
qed

lemma unat_sizeof_rec [simp]: "unat sizeof_rec = 32"
  by (simp add: sizeof_rec_def)

lemmas rec_bytes_for = bytes_for_ok [of sizeof_rec, simplified]
lemmas weight_bytes_for = bytes_for_ok [of 8, simplified]

lemma graph_mem_facts:
  assumes "graph_mem g"
  shows "allocator_contract (gr_allocator g)" "hk_alloc (gr_allocator g) \<noteq> None" "hk_free (gr_allocator g) \<noteq> None"
    "sized (gr_vertices g) (unat (gr_vertex_capacity g))" "sized (gr_edges g) (unat (gr_edge_capacity g))"
    "gr_weighted g \<Longrightarrow> sized (gr_weights g) (unat (gr_weight_capacity g))"
    "unat (gr_vertex_watermark g) \<le> unat (gr_vertex_capacity g)" "unat (gr_edge_watermark g) \<le> unat (gr_edge_capacity g)"
    "gr_weighted g \<Longrightarrow> unat (gr_edge_capacity g) \<le> unat (gr_weight_capacity g)"
  using assms by (simp_all add: graph_mem_def word_le_nat_alt)

lemma graph_mem_vertices:
  "graph_mem g \<Longrightarrow> sized p (unat cap) \<Longrightarrow> gr_vertex_watermark g \<le> cap \<Longrightarrow>
     cap_policy cap (gr_initial_vertex_capacity g) (gr_max_vertex_capacity g) \<Longrightarrow>
     graph_mem (g\<lparr>gr_vertices := p, gr_vertex_capacity := cap\<rparr>)"
  by (simp add: graph_mem_def)

lemma graph_mem_weights:
  "graph_mem g \<Longrightarrow> gr_weighted g \<Longrightarrow> sized p (unat cap) \<Longrightarrow> gr_edge_capacity g \<le> cap \<Longrightarrow>
     cap \<le> DV_GRAPH_MAX_CAPACITY \<Longrightarrow> graph_mem (g\<lparr>gr_weights := p, gr_weight_capacity := cap\<rparr>)"
  by (simp add: graph_mem_def)

lemma graph_mem_edges:
  "graph_mem g \<Longrightarrow> sized p (unat cap) \<Longrightarrow> gr_edge_watermark g \<le> cap \<Longrightarrow>
     cap_policy cap (gr_initial_edge_capacity g) (gr_max_edge_capacity g) \<Longrightarrow>
     (gr_weighted g \<Longrightarrow> cap \<le> gr_weight_capacity g) \<Longrightarrow>
     graph_mem (g\<lparr>gr_edges := p, gr_edge_capacity := cap\<rparr>)"
  by (simp add: graph_mem_def)

text \<open>What a capacity change of the graph may do.\<close>

definition recapped :: "'w dv_graph_t \<Rightarrow> dv_graph_status_t \<Rightarrow> 'w dv_graph_t \<Rightarrow> bool" where
  "recapped g st g' \<longleftrightarrow> graph_mem g' \<and> same_content g g' \<and> st \<in> {DV_GRAPH_OK, DV_GRAPH_ERR_NOMEM}"

lemma set_vertex_capacity_ok:
  assumes mem: "graph_mem g" and cap: "gr_vertex_watermark g \<le> cap" "cap_policy cap (gr_initial_vertex_capacity g) (gr_max_vertex_capacity g)"
  shows "\<exists>st g' w'. dv_graph_set_vertex_capacity g cap w = Some (st, g', w') \<and> recapped g st g' \<and>
           gr_edge_capacity g' = gr_edge_capacity g \<and> (st = DV_GRAPH_OK \<longrightarrow> gr_vertex_capacity g' = cap) \<and>
           (st \<noteq> DV_GRAPH_OK \<longrightarrow> g' = g)"
proof (cases "cap = gr_vertex_capacity g")
  case True
  then show ?thesis using mem by (simp add: dv_graph_set_vertex_capacity_def recapped_def)
next
  case False
  let ?p = "gr_vertices g" and ?n = "unat (gr_vertex_capacity g)" and ?m = "unat cap" and ?k = "unat (gr_vertex_watermark g)"
  note hk = graph_mem_facts(1-3) [OF mem] and p = graph_mem_facts(4) [OF mem] and k = graph_mem_facts(7) [OF mem]
  have km: "?k \<le> ?m" and big: "\<not> cap > DV_GRAPH_MAX_CAPACITY" "\<not> cap < gr_vertex_watermark g"
    using cap by (simp_all add: word_le_nat_alt cap_policy_def not_less)
  have nm: "?n \<noteq> ?m" using False by (simp add: word_unat_eq_iff)
  obtain st blk w' where r: "dv_graph_resize_block (gr_allocator g) (gr_align g) (map_option (as_block vertex_bytes) ?p)
       (ucast (gr_vertex_capacity g) * sizeof_rec) (ucast cap * sizeof_rec) (ucast (gr_vertex_watermark g) * sizeof_rec) w =
       Some (st, blk, w')" "st \<in> {DV_GRAPH_OK, DV_GRAPH_ERR_NOMEM}"
    "st = DV_GRAPH_OK \<longrightarrow> vertex_codec.resized_array ?p ?m ?k blk"
    using vertex_codec.resize_array [OF hk p rec_bytes_for(2) rec_bytes_for(2) rec_bytes_for(2) k km nm] by blast
  let ?g = "g\<lparr>gr_vertices := map_option (as_array 32 vertex_of ?m) blk, gr_vertex_capacity := cap\<rparr>"
  have c: "dv_graph_set_vertex_capacity g cap w = Some (st, if st = DV_GRAPH_OK then ?g else g, w')"
    using False big r(1) by (simp add: dv_graph_set_vertex_capacity_def rec_bytes_for(1))
  have "recapped g st ?g" if "st = DV_GRAPH_OK"
    using r(3) that graph_mem_vertices [OF mem _ cap]
    by (simp add: recapped_def same_content_def vertex_codec.resized_array_def Let_def)
  then show ?thesis using c r(2) mem by (auto simp: recapped_def)
qed

lemma resize_weights_ok:
  assumes mem: "graph_mem g" and cap: "gr_edge_capacity g \<le> cap" "cap \<le> DV_GRAPH_MAX_CAPACITY"
  shows "\<exists>st g' w'. dv_graph_resize_weights g cap w = Some (st, g', w') \<and> recapped g st g' \<and>
           gr_edge_capacity g' = gr_edge_capacity g \<and> gr_vertex_capacity g' = gr_vertex_capacity g \<and>
           (st = DV_GRAPH_OK \<and> gr_weighted g \<longrightarrow> gr_weight_capacity g' = cap)"
proof (cases "\<not> gr_weighted g \<or> cap = gr_weight_capacity g")
  case True
  then show ?thesis using mem by (auto simp: dv_graph_resize_weights_def recapped_def)
next
  case False
  let ?p = "gr_weights g" and ?n = "unat (gr_weight_capacity g)" and ?m = "unat cap" and ?k = "unat (gr_edge_watermark g)"
  have wt: "gr_weighted g" using False by simp
  note hk = graph_mem_facts(1-3) [OF mem] and p = graph_mem_facts(6) [OF mem wt]
  have k: "?k \<le> ?n" and km: "?k \<le> ?m"
    using graph_mem_facts(8) [OF mem] graph_mem_facts(9) [OF mem wt] cap(1) by (simp_all add: word_le_nat_alt)
  have nm: "?n \<noteq> ?m" using False by (simp add: word_unat_eq_iff)
  obtain st blk w' where r: "dv_graph_resize_block (gr_allocator g) (gr_align g) (map_option (as_block (le_bytes 8)) ?p)
       (ucast (gr_weight_capacity g) * 8) (ucast cap * 8) (ucast (gr_edge_watermark g) * 8) w = Some (st, blk, w')"
    "st \<in> {DV_GRAPH_OK, DV_GRAPH_ERR_NOMEM}" "st = DV_GRAPH_OK \<longrightarrow> weight_codec.resized_array ?p ?m ?k blk"
    using weight_codec.resize_array [OF hk p weight_bytes_for(2) weight_bytes_for(2) weight_bytes_for(2) k km nm] by blast
  let ?g = "g\<lparr>gr_weights := map_option (as_array 8 le_load ?m) blk, gr_weight_capacity := cap\<rparr>"
  have c: "dv_graph_resize_weights g cap w = Some (st, if st = DV_GRAPH_OK then ?g else g, w')"
    using False r(1) by (simp add: dv_graph_resize_weights_def weight_bytes_for(1))
  have "recapped g st ?g" if "st = DV_GRAPH_OK"
    using r(3) that graph_mem_weights [OF mem wt _ cap]
    by (simp add: recapped_def same_content_def weight_codec.resized_array_def Let_def)
  then show ?thesis using c r(2) mem False by (auto simp: recapped_def)
qed

lemma resize_edge_pool_ok:
  assumes mem: "graph_mem g" and cap: "gr_edge_watermark g \<le> cap" "cap \<noteq> gr_edge_capacity g"
    "cap_policy cap (gr_initial_edge_capacity g) (gr_max_edge_capacity g)" "gr_weighted g \<longrightarrow> cap \<le> gr_weight_capacity g"
  shows "\<exists>st g' w'. resize_edge_pool g cap w = Some (st, g', w') \<and> recapped g st g' \<and>
           gr_vertex_capacity g' = gr_vertex_capacity g \<and> gr_weight_capacity g' = gr_weight_capacity g \<and>
           (st = DV_GRAPH_OK \<longrightarrow> gr_edge_capacity g' = cap) \<and> (st \<noteq> DV_GRAPH_OK \<longrightarrow> g' = g)"
proof -
  let ?p = "gr_edges g" and ?n = "unat (gr_edge_capacity g)" and ?m = "unat cap" and ?k = "unat (gr_edge_watermark g)"
  note hk = graph_mem_facts(1-3) [OF mem] and p = graph_mem_facts(5) [OF mem] and k = graph_mem_facts(8) [OF mem]
  have km: "?k \<le> ?m" using cap by (simp add: word_le_nat_alt)
  have nm: "?n \<noteq> ?m" using cap(2) by (simp add: word_unat_eq_iff)
  obtain st blk w' where r: "dv_graph_resize_block (gr_allocator g) (gr_align g) (map_option (as_block edge_bytes) ?p)
       (ucast (gr_edge_capacity g) * sizeof_rec) (ucast cap * sizeof_rec) (ucast (gr_edge_watermark g) * sizeof_rec) w =
       Some (st, blk, w')" "st \<in> {DV_GRAPH_OK, DV_GRAPH_ERR_NOMEM}"
    "st = DV_GRAPH_OK \<longrightarrow> edge_codec.resized_array ?p ?m ?k blk"
    using edge_codec.resize_array [OF hk p rec_bytes_for(2) rec_bytes_for(2) rec_bytes_for(2) k km nm] by blast
  let ?g = "g\<lparr>gr_edges := map_option (as_array 32 edge_of ?m) blk, gr_edge_capacity := cap\<rparr>"
  have c: "resize_edge_pool g cap w = Some (st, if st = DV_GRAPH_OK then ?g else g, w')"
    using r(1) by (simp add: resize_edge_pool_def rec_bytes_for(1))
  have "recapped g st ?g" if "st = DV_GRAPH_OK"
    using r(3) that graph_mem_edges [OF mem _ cap(1,3)] cap(4)
    by (simp add: recapped_def same_content_def edge_codec.resized_array_def Let_def)
  then show ?thesis using c r(2) mem by (auto simp: recapped_def)
qed

lemma set_edge_capacity_ok:
  assumes mem: "graph_mem g" and cap: "gr_edge_watermark g \<le> cap" "cap_policy cap (gr_initial_edge_capacity g) (gr_max_edge_capacity g)"
  shows "\<exists>st g' w'. dv_graph_set_edge_capacity g cap w = Some (st, g', w') \<and> recapped g st g' \<and>
           gr_vertex_capacity g' = gr_vertex_capacity g \<and> (st = DV_GRAPH_OK \<longrightarrow> gr_edge_capacity g' = cap) \<and>
           (gr_edge_capacity g \<le> cap \<and> st \<noteq> DV_GRAPH_OK \<longrightarrow> gr_edge_capacity g' = gr_edge_capacity g)"
proof (cases "cap = gr_edge_capacity g")
  case True
  then have "cap \<le> DV_GRAPH_MAX_CAPACITY" using cap by (simp add: cap_policy_def)
  then show ?thesis using resize_weights_ok [OF mem, of cap w] True
    by (auto simp: dv_graph_set_edge_capacity_def)
next
  case False
  have mx: "cap \<le> DV_GRAPH_MAX_CAPACITY" using cap(2) by (simp add: cap_policy_def)
  have c0: "\<not> cap > DV_GRAPH_MAX_CAPACITY" "\<not> cap < gr_edge_watermark g" using cap mx by (simp_all add: not_less)
  show ?thesis
  proof (cases "cap > gr_edge_capacity g")
    case True
    obtain st g1 w1 where r1: "dv_graph_resize_weights g cap w = Some (st, g1, w1)" "recapped g st g1"
      "gr_edge_capacity g1 = gr_edge_capacity g" "gr_vertex_capacity g1 = gr_vertex_capacity g"
      "st = DV_GRAPH_OK \<and> gr_weighted g \<longrightarrow> gr_weight_capacity g1 = cap"
      using resize_weights_ok [OF mem order.strict_implies_order [OF True] mx, of w] by blast
    show ?thesis
    proof (cases "st = DV_GRAPH_OK")
      case st: True
      have sc: "graph_mem g1" "same_content g g1" using r1(2) by (simp_all add: recapped_def)
      have pre: "gr_edge_watermark g1 \<le> cap" "cap \<noteq> gr_edge_capacity g1"
        "cap_policy cap (gr_initial_edge_capacity g1) (gr_max_edge_capacity g1)"
        "gr_weighted g1 \<longrightarrow> cap \<le> gr_weight_capacity g1"
        using cap False r1(3,5) st same_contentD(7,10,12,15) [OF sc(2)] by simp_all
      obtain st2 g2 w2 where r2: "resize_edge_pool g1 cap w1 = Some (st2, g2, w2)" "recapped g1 st2 g2"
        "gr_vertex_capacity g2 = gr_vertex_capacity g1" "st2 = DV_GRAPH_OK \<longrightarrow> gr_edge_capacity g2 = cap"
        "st2 \<noteq> DV_GRAPH_OK \<longrightarrow> g2 = g1"
        using resize_edge_pool_ok [OF sc(1) pre, of w1] by blast
      have "dv_graph_set_edge_capacity g cap w = Some (st2, g2, w2)"
        using r1(1) r2(1) st True c0 False by (simp add: dv_graph_set_edge_capacity_def)
      moreover have "recapped g st2 g2"
        using r2(2) same_content_trans [OF sc(2), of g2] by (simp add: recapped_def)
      ultimately show ?thesis using r1(3,4) r2(3-5) by auto
    next
      case st: False
      then show ?thesis using r1 True c0 False by (auto simp: dv_graph_set_edge_capacity_def)
    qed
  next
    case le: False
    then have ge: "cap \<le> gr_edge_capacity g" by simp
    have wc: "gr_weighted g \<longrightarrow> cap \<le> gr_weight_capacity g" using mem ge by (auto simp: graph_mem_def)
    obtain st2 g2 w2 where r2: "resize_edge_pool g cap w = Some (st2, g2, w2)" "recapped g st2 g2"
      "gr_vertex_capacity g2 = gr_vertex_capacity g" "st2 = DV_GRAPH_OK \<longrightarrow> gr_edge_capacity g2 = cap"
      "st2 \<noteq> DV_GRAPH_OK \<longrightarrow> g2 = g"
      using resize_edge_pool_ok [OF mem cap(1) False cap(2) wc, of w] by blast
    show ?thesis
    proof (cases "st2 = DV_GRAPH_OK")
      case st: True
      have sc: "graph_mem g2" "same_content g g2" using r2(2) by (simp_all add: recapped_def)
      obtain st3 g3 w3 where r3: "dv_graph_resize_weights g2 cap w2 = Some (st3, g3, w3)" "recapped g2 st3 g3"
        "gr_edge_capacity g3 = gr_edge_capacity g2" "gr_vertex_capacity g3 = gr_vertex_capacity g2"
        using resize_weights_ok [OF sc(1), of cap w2] r2(4) st mx by auto
      have "\<not> gr_edge_capacity g \<le> cap" using ge False by auto
      moreover have "dv_graph_set_edge_capacity g cap w = Some (st3, g3, w3)"
        using r2(1) r3(1) st le c0 False by (simp add: dv_graph_set_edge_capacity_def)
      moreover have "recapped g st3 g3"
        using r3(2) same_content_trans [OF sc(2), of g3] by (simp add: recapped_def)
      ultimately show ?thesis using r2(3,4) r3(3,4) st by simp
    next
      case st: False
      then show ?thesis using r2 le c0 False by (auto simp: dv_graph_set_edge_capacity_def)
    qed
  qed
qed

end
