(* ===== verification/Graph_Lists.thy ===== *)
theory Graph_Lists
  imports Graph_Pools
begin

text \<open>
  Intrusive lists over pool indices. A list is a chain from a head through a link function to
  \<open>DV_GRAPH_INVALID_INDEX\<close>; a doubly linked list is a forward chain and a backward chain over the
  reversed list. \<open>inc_lists\<close> describes the incidence lists of every vertex at once: the list of a vertex
  is the part of one global sequence of edges that belongs to it, so that a single sequence, the
  live edges in order of insertion, determines the out-lists and the in-lists alike.
\<close>

abbreviation NIL :: u32 where
  "NIL \<equiv> DV_GRAPH_INVALID_INDEX"

section \<open>Chains\<close>

fun chain :: "('a \<Rightarrow> 'a) \<Rightarrow> 'a \<Rightarrow> 'a list \<Rightarrow> 'a \<Rightarrow> bool" where
  "chain nxt h [] q = (h = q)"
| "chain nxt h (x # xs) q = (h = x \<and> chain nxt (nxt x) xs q)"

lemma chain_append: "chain nxt h (xs @ ys) q = (\<exists>m. chain nxt h xs m \<and> chain nxt m ys q)"
  by (induction xs arbitrary: h) auto

lemma chain_cong: "(\<And>x. x \<in> set xs \<Longrightarrow> nxt x = nxt' x) \<Longrightarrow> chain nxt h xs q = chain nxt' h xs q"
  by (induction xs arbitrary: h) auto

lemma chain_upd: "a \<notin> set xs \<Longrightarrow> chain (nxt(a := b)) h xs q = chain nxt h xs q"
  by (rule chain_cong) auto

lemma chain_head: "chain nxt h xs q \<Longrightarrow> h = (case xs of [] \<Rightarrow> q | x # _ \<Rightarrow> x)"
  by (cases xs) auto

lemma chain_unique:
  assumes "chain nxt h xs q" "chain nxt h ys q" "q \<notin> set xs" "q \<notin> set ys" shows "xs = ys"
  using assms
proof (induction xs arbitrary: h ys)
  case Nil
  then show ?case by (cases ys) auto
next
  case (Cons x xs)
  then show ?case by (cases ys) auto
qed

lemma chain_last: "chain nxt h (xs @ [x]) q = (chain nxt h xs x \<and> nxt x = q)"
  by (auto simp: chain_append)

lemma chain_to_last:
  "xs \<noteq> [] \<Longrightarrow> last xs \<notin> set (butlast xs) \<Longrightarrow> chain (nxt(last xs := q)) h xs q = (\<exists>m. chain nxt h xs m)"
  using append_butlast_last_id [of xs] chain_last [of "nxt(last xs := q)" h "butlast xs" "last xs" q]
    chain_append [of nxt h "butlast xs" "[last xs]"] chain_upd [of "last xs" "butlast xs" nxt q h]
  by (metis chain_last fun_upd_same)

lemma last_not_butlast: "distinct xs \<Longrightarrow> xs \<noteq> [] \<Longrightarrow> last xs \<notin> set (butlast xs)"
  by (metis append_butlast_last_id distinct_append disjoint_iff list.set_intros(1))

text \<open>Adding an element at the end, and taking one out.\<close>

lemma chain_snoc:
  assumes "chain nxt h xs q" "distinct xs" "e \<notin> set xs"
  shows "chain (if xs = [] then nxt(e := q) else nxt(e := q, last xs := e)) (if xs = [] then e else h) (xs @ [e]) q"
proof (cases "xs = []")
  case False
  then have l: "last xs \<in> set xs" "last xs \<notin> set (butlast xs)" "last xs \<noteq> e"
    using last_not_butlast [OF assms(2)] assms(3) last_in_set [OF False] by auto
  have "chain (nxt(last xs := e)) h xs e" using chain_to_last [OF False l(2)] assms(1) by blast
  then have "chain ((nxt(last xs := e))(e := q)) h xs e" using assms(3) by (simp add: chain_upd)
  then show ?thesis using False l(3) by (simp add: chain_last fun_upd_twist)
qed simp

lemma chain_remove:
  assumes "chain nxt h (as @ e # bs) q" "distinct (as @ e # bs)"
  shows "chain (if as = [] then nxt else nxt(last as := nxt e)) (if as = [] then nxt e else h) (as @ bs) q"
proof (cases "as = []")
  case False
  have l: "last as \<notin> set bs" "last as \<notin> set (butlast as)"
    using assms(2) last_in_set [OF False] last_not_butlast [OF _ False] by auto
  have "chain nxt h as e" "chain nxt (nxt e) bs q" using assms(1) by (auto simp: chain_append)
  moreover have "chain (nxt(last as := nxt e)) h as (nxt e)"
    using chain_to_last [OF False l(2)] \<open>chain nxt h as e\<close> by blast
  ultimately show ?thesis using False l(1) by (auto simp: chain_append chain_upd)
qed (use assms in simp)

lemma chain_next:
  "chain nxt h (as @ e # bs) q \<Longrightarrow> nxt e = (case bs of [] \<Rightarrow> q | b # _ \<Rightarrow> b)"
  using chain_head by (fastforce simp: chain_append)

section \<open>Incidence lists\<close>

definition owned :: "('e \<Rightarrow> 'v) \<Rightarrow> 'e list \<Rightarrow> 'v \<Rightarrow> 'e list" where
  "owned key L v = filter (\<lambda>e. key e = v) L"

lemma owned_simps [simp]:
  "owned key [] v = []"
  "owned key (xs @ ys) v = owned key xs v @ owned key ys v"
  "set (owned key L v) = {e \<in> set L. key e = v}"
  by (auto simp: owned_def)

lemma distinct_owned: "distinct L \<Longrightarrow> distinct (owned key L v)"
  by (simp add: owned_def)

lemma owned_cong: "(\<And>e. e \<in> set L \<Longrightarrow> key e = key' e) \<Longrightarrow> owned key L v = owned key' L v"
  by (auto simp: owned_def intro: filter_cong)

definition inc_lists ::
  "(u32 \<Rightarrow> u32) \<Rightarrow> (u32 \<Rightarrow> u32) \<Rightarrow> (u32 \<Rightarrow> u32) \<Rightarrow> (u32 \<Rightarrow> u32) \<Rightarrow> (u32 \<Rightarrow> u32) \<Rightarrow> (u32 \<Rightarrow> u32) \<Rightarrow> u32 set \<Rightarrow> u32 list \<Rightarrow> bool"
where
  "inc_lists key nxt prv hh tt deg S L \<longleftrightarrow>
     (\<forall>v \<in> S. chain nxt (hh v) (owned key L v) NIL \<and> chain prv (tt v) (rev (owned key L v)) NIL \<and>
        deg v = of_nat (length (owned key L v)))"

lemma inc_listsD:
  assumes "inc_lists key nxt prv hh tt deg S L" "v \<in> S"
  shows "chain nxt (hh v) (owned key L v) NIL" "chain prv (tt v) (rev (owned key L v)) NIL"
    "deg v = of_nat (length (owned key L v))"
  using assms by (auto simp: inc_lists_def)

text \<open>Only the members of the lists and the listed vertices matter.\<close>

lemma inc_lists_cong:
  assumes "\<And>e. e \<in> set L \<Longrightarrow> key e = key' e \<and> nxt e = nxt' e \<and> prv e = prv' e"
    and "\<And>v. v \<in> S \<Longrightarrow> hh v = hh' v \<and> tt v = tt' v \<and> deg v = deg' v"
  shows "inc_lists key nxt prv hh tt deg S L = inc_lists key' nxt' prv' hh' tt' deg' S L"
proof -
  have "owned key L v = owned key' L v" for v using assms(1) by (intro owned_cong) auto
  moreover have "chain nxt h (owned key' L v) q = chain nxt' h (owned key' L v) q"
    "chain prv h (rev (owned key' L v)) q = chain prv' h (rev (owned key' L v)) q" for h q v
    using assms(1) by (auto intro!: chain_cong)
  ultimately show ?thesis using assms(2) by (auto simp: inc_lists_def)
qed

lemma inc_lists_tail:
  assumes "inc_lists key nxt prv hh tt deg S L" "v \<in> S" "NIL \<notin> set L"
  shows "(tt v = NIL) = (owned key L v = [])" "owned key L v \<noteq> [] \<Longrightarrow> tt v = last (owned key L v)"
    "(hh v = NIL) = (owned key L v = [])"
proof -
  have t: "tt v = (case rev (owned key L v) of [] \<Rightarrow> NIL | x # _ \<Rightarrow> x)"
    by (rule chain_head [OF inc_listsD(2) [OF assms(1,2)]])
  have h: "hh v = (case owned key L v of [] \<Rightarrow> NIL | x # _ \<Rightarrow> x)"
    by (rule chain_head [OF inc_listsD(1) [OF assms(1,2)]])
  have n: "NIL \<notin> set (owned key L v)" using assms(3) by simp
  show "(hh v = NIL) = (owned key L v = [])" using h n by (cases "owned key L v") auto
  show "owned key L v \<noteq> [] \<Longrightarrow> tt v = last (owned key L v)"
    using t by (metis append_butlast_last_id list.simps(5) rev_eq_Cons_iff rev_rev_ident)
  then show "(tt v = NIL) = (owned key L v = [])" using t n last_in_set by fastforce
qed

lemma inc_lists_append:
  assumes ls: "inc_lists key nxt prv hh tt deg S L" and s: "s \<in> S"
    and e: "e \<notin> set L" and nil: "NIL \<notin> set L" and d: "distinct L"
  shows "inc_lists (key(e := s))
           (if tt s = NIL then nxt(e := NIL) else nxt(e := NIL, tt s := e)) (prv(e := tt s))
           (if tt s = NIL then hh(s := e) else hh) (tt(s := e)) (deg(s := deg s + 1)) S (L @ [e])"
  unfolding inc_lists_def
proof
  fix v assume v: "v \<in> S"
  let ?O = "owned key L v"
  let ?nxt = "if tt s = NIL then nxt(e := NIL) else nxt(e := NIL, tt s := e)"
  have own: "owned (key(e := s)) L v = ?O" using e by (intro owned_cong) auto
  note lv = inc_listsD [OF ls v] and lt = inc_lists_tail [OF ls v nil]
  show "chain ?nxt ((if tt s = NIL then hh(s := e) else hh) v) (owned (key(e := s)) (L @ [e]) v) NIL \<and>
      chain (prv(e := tt s)) ((tt(s := e)) v) (rev (owned (key(e := s)) (L @ [e]) v)) NIL \<and>
      (deg(s := deg s + 1)) v = of_nat (length (owned (key(e := s)) (L @ [e]) v))"
  proof (cases "v = s")
    case True
    have o1: "owned (key(e := s)) (L @ [e]) v = ?O @ [e]" using own True by (simp add: owned_def)
    have "?nxt = (if ?O = [] then nxt(e := NIL) else nxt(e := NIL, last ?O := e))"
      using lt True by auto
    then have "chain ?nxt (if ?O = [] then e else hh v) (?O @ [e]) NIL"
      using chain_snoc [OF lv(1) distinct_owned [OF d], of e] e by simp
    moreover have "chain (prv(e := tt s)) e (e # rev ?O) NIL" using lv(2) True e by (simp add: chain_upd)
    ultimately show ?thesis using True o1 lv(3) lt(1) by (auto simp: add.commute)
  next
    case False
    have o1: "owned (key(e := s)) (L @ [e]) v = ?O" using own False by (simp add: owned_def)
    have "tt s \<notin> set ?O"
    proof
      assume a: "tt s \<in> set ?O"
      then have "tt s \<noteq> NIL" using nil by auto
      then have "tt s \<in> set (owned key L s)" using inc_lists_tail [OF ls s nil] by (metis last_in_set)
      then show False using a False by simp
    qed
    then have "chain ?nxt (hh v) ?O NIL" using lv(1) e by (simp add: chain_upd)
    then show ?thesis unfolding o1 using False lv e by (cases "tt s = NIL") (simp_all add: chain_upd)
  qed
qed

lemma owned_split:
  assumes "e \<in> set L" "key e = s" "distinct L"
  obtains as bs where "owned key L s = as @ e # bs" "owned key (remove1 e L) s = as @ bs"
    "distinct (as @ e # bs)"
proof -
  have "e \<in> set (owned key L s)" using assms by simp
  then obtain as bs where ab: "owned key L s = as @ e # bs" by (meson split_list)
  have d: "distinct (as @ e # bs)" using distinct_owned [OF assms(3), of key s] ab by simp
  have "owned key (remove1 e L) s = remove1 e (owned key L s)"
    using assms by (simp add: owned_def filter_remove1)
  then have "owned key (remove1 e L) s = as @ bs" using ab d by (simp add: remove1_append)
  then show thesis using that ab d by blast
qed

lemma owned_remove_other: "key e \<noteq> v \<Longrightarrow> owned key (remove1 e L) v = owned key L v"
  by (induction L) (auto simp: owned_def)

lemma inc_lists_remove:
  assumes ls: "inc_lists key nxt prv hh tt deg S L" and s: "key e = s" "s \<in> S"
    and e: "e \<in> set L" and nil: "NIL \<notin> set L" and d: "distinct L"
  shows "inc_lists key
           (if prv e = NIL then nxt else nxt(prv e := nxt e)) (if nxt e = NIL then prv else prv(nxt e := prv e))
           (if prv e = NIL then hh(s := nxt e) else hh) (if nxt e = NIL then tt(s := prv e) else tt)
           (deg(s := deg s - 1)) S (remove1 e L)"
  unfolding inc_lists_def
proof
  fix v assume v: "v \<in> S"
  let ?nxt = "if prv e = NIL then nxt else nxt(prv e := nxt e)"
    and ?prv = "if nxt e = NIL then prv else prv(nxt e := prv e)"
    and ?hh = "if prv e = NIL then hh(s := nxt e) else hh"
    and ?tt = "if nxt e = NIL then tt(s := prv e) else tt"
  obtain as bs where ab: "owned key L s = as @ e # bs" "owned key (remove1 e L) s = as @ bs"
    and dab: "distinct (as @ e # bs)" using owned_split [of e L key s] e s(1) d by blast
  note lsv = inc_listsD [OF ls s(2)]
  have sub: "set (as @ e # bs) \<subseteq> {x \<in> set L. key x = s}" using ab(1) owned_simps(3) [of key L s] by simp
  have rv: "rev (as @ e # bs) = rev bs @ e # rev as" by simp
  have n: "nxt e = (case bs of [] \<Rightarrow> NIL | b # _ \<Rightarrow> b)" by (rule chain_next [OF lsv(1) [unfolded ab(1)]])
  have p: "prv e = (case rev as of [] \<Rightarrow> NIL | a # _ \<Rightarrow> a)" by (rule chain_next [OF lsv(2) [unfolded ab(1) rv]])
  have n0: "(nxt e = NIL) = (bs = [])" using n sub nil by (cases bs) auto
  have n1: "bs \<noteq> [] \<Longrightarrow> nxt e = last (rev bs)" using n by (cases bs) auto
  have p1: "as \<noteq> [] \<Longrightarrow> prv e = last as" using p by (cases as rule: rev_cases) auto
  have p0: "(prv e = NIL) = (as = [])" using p p1 sub nil by (cases as rule: rev_cases) auto
  show "chain ?nxt (?hh v) (owned key (remove1 e L) v) NIL \<and> chain ?prv (?tt v) (rev (owned key (remove1 e L) v)) NIL \<and>
      (deg(s := deg s - 1)) v = of_nat (length (owned key (remove1 e L) v))"
  proof (cases "v = s")
    case True
    have "chain ?nxt (?hh s) (as @ bs) NIL"
      using chain_remove [OF lsv(1) [unfolded ab(1)] dab] p0 p1 by (cases "as = []") simp_all
    moreover have "distinct (rev bs @ e # rev as)" using dab by auto
    then have "chain ?prv (?tt s) (rev bs @ rev as) NIL"
      using chain_remove [OF lsv(2) [unfolded ab(1) rv]] n0 n1 by (cases "bs = []") simp_all
    ultimately show ?thesis using True ab lsv(3) by simp
  next
    case False
    have out: "x \<notin> set (owned key L v)" if "x \<in> set (as @ e # bs)" for x using sub that False by auto
    have "prv e \<notin> set (owned key L v)" if "prv e \<noteq> NIL" using out that p0 p1 last_in_set [of as] by simp
    moreover have "nxt e \<notin> set (owned key L v)" if "nxt e \<noteq> NIL"
      using out [of "nxt e"] that n0 n1 last_in_set [of "rev bs"] by simp
    ultimately have "chain ?nxt (hh v) (owned key L v) NIL" "chain ?prv (tt v) (rev (owned key L v)) NIL"
      using inc_listsD [OF ls v] by (simp_all add: chain_upd)
    then show ?thesis
      using False s(1) inc_listsD(3) [OF ls v] owned_remove_other [of key e v L]
      by (cases "prv e = NIL"; cases "nxt e = NIL") simp_all
  qed
qed

text \<open>A vertex without edges may join or leave.\<close>

lemma inc_lists_insert:
  assumes "inc_lists key nxt prv hh tt deg (S - {s}) L" "owned key L s = []" "hh s = NIL" "tt s = NIL" "deg s = 0"
  shows "inc_lists key nxt prv hh tt deg (insert s S) L"
  using assms by (auto simp: inc_lists_def)

lemma inc_lists_mono: "inc_lists key nxt prv hh tt deg S L \<Longrightarrow> T \<subseteq> S \<Longrightarrow> inc_lists key nxt prv hh tt deg T L"
  by (auto simp: inc_lists_def)

end
