(* ===== verification/Graph_Inv.thy ===== *)
theory Graph_Inv
  imports Graph_Memory Graph_Lists
begin

text \<open>
  The invariant of the graph and the primitive steps on it. One sequence \<open>L\<close> of edge slots, the live
  edges in order of insertion, describes the topology: the out-list of a vertex is the part of \<open>L\<close>
  with that source, its in-list the part with that target. \<open>VF\<close> and \<open>EF\<close> are the two free lists.
  \<open>PV\<close> and \<open>PE\<close> are slots taken but not yet in use, in the middle of an operation.
\<close>

section \<open>Invariant\<close>

definition live_in :: "(u32 \<Rightarrow> dv_graph_vertex_rec_t) \<Rightarrow> u32 \<Rightarrow> u32 set \<Rightarrow> u32 set" where
  "live_in vs n PV = {v. v < n \<and> v_active (vs v) \<and> v \<notin> PV}"

definition vertex_part :: "(u32 \<Rightarrow> dv_graph_vertex_rec_t) \<Rightarrow> u32 \<Rightarrow> u32 \<Rightarrow> u32 list \<Rightarrow> u32 set \<Rightarrow> bool" where
  "vertex_part vs n free VF PV \<longleftrightarrow>
     chain (\<lambda>v. out_head (vs v)) free VF NIL \<and> distinct VF \<and>
     (\<forall>v. v \<in> set VF \<longleftrightarrow> v < n \<and> \<not> v_active (vs v) \<and> v \<notin> PV) \<and>
     (\<forall>v < n. v_generation (vs v) \<noteq> 0) \<and> (\<forall>v \<in> PV. v < n)"

definition edge_part :: "(u32 \<Rightarrow> dv_graph_edge_rec_t) \<Rightarrow> u32 \<Rightarrow> u32 \<Rightarrow> u32 list \<Rightarrow> u32 list \<Rightarrow> u32 set \<Rightarrow> bool" where
  "edge_part es n free L EF PE \<longleftrightarrow>
     chain (\<lambda>e. next_out (es e)) free EF NIL \<and> distinct EF \<and>
     (\<forall>e. e \<in> set EF \<longleftrightarrow> e < n \<and> \<not> e_active (es e) \<and> e \<notin> PE) \<and>
     distinct L \<and> (\<forall>e. e \<in> set L \<longleftrightarrow> e < n \<and> e_active (es e) \<and> e \<notin> PE) \<and>
     (\<forall>e < n. e_generation (es e) \<noteq> 0) \<and> (\<forall>e \<in> PE. e < n)"

definition link_part ::
  "(u32 \<Rightarrow> dv_graph_edge_rec_t) \<Rightarrow> (u32 \<Rightarrow> dv_graph_vertex_rec_t) \<Rightarrow> u32 set \<Rightarrow> u32 list \<Rightarrow> bool"
where
  "link_part es vs S L \<longleftrightarrow>
     (\<forall>e \<in> set L. e_src (es e) \<in> S \<and> e_dst (es e) \<in> S) \<and>
     inc_lists (\<lambda>e. e_src (es e)) (\<lambda>e. next_out (es e)) (\<lambda>e. prev_out (es e))
       (\<lambda>v. out_head (vs v)) (\<lambda>v. out_tail (vs v)) (\<lambda>v. out_degree (vs v)) S L \<and>
     inc_lists (\<lambda>e. e_dst (es e)) (\<lambda>e. next_in (es e)) (\<lambda>e. prev_in (es e))
       (\<lambda>v. in_head (vs v)) (\<lambda>v. in_tail (vs v)) (\<lambda>v. in_degree (vs v)) S L"

definition live :: "'w dv_graph_t \<Rightarrow> u32 set \<Rightarrow> u32 set" where
  "live g PV = live_in (vr g) (gr_vertex_watermark g) PV"

definition wf_gen ::
  "'w dv_graph_t \<Rightarrow> u32 list \<Rightarrow> u32 list \<Rightarrow> u32 list \<Rightarrow> u32 set \<Rightarrow> u32 set \<Rightarrow> bool"
where
  "wf_gen g L VF EF PV PE \<longleftrightarrow> graph_mem g \<and>
     vertex_part (vr g) (gr_vertex_watermark g) (gr_vertex_free g) VF PV \<and>
     edge_part (er g) (gr_edge_watermark g) (gr_edge_free g) L EF PE \<and>
     link_part (er g) (vr g) (live g PV) L \<and>
     unat (gr_vertex_count g) + length VF + card PV = unat (gr_vertex_watermark g) \<and>
     unat (gr_edge_count g) = length L"

abbreviation wf_graph :: "'w dv_graph_t \<Rightarrow> u32 list \<Rightarrow> u32 list \<Rightarrow> u32 list \<Rightarrow> bool" where
  "wf_graph g L VF EF \<equiv> wf_gen g L VF EF {} {}"

text \<open>The invariant a client sees: some insertion order and some free lists witness it.\<close>

definition graph_inv :: "'w dv_graph_t \<Rightarrow> bool" where
  "graph_inv g \<longleftrightarrow> (\<exists>L VF EF. wf_graph g L VF EF)"

lemma wf_genD:
  assumes "wf_gen g L VF EF PV PE"
  shows "graph_mem g" "vertex_part (vr g) (gr_vertex_watermark g) (gr_vertex_free g) VF PV"
    "edge_part (er g) (gr_edge_watermark g) (gr_edge_free g) L EF PE" "link_part (er g) (vr g) (live g PV) L"
    "unat (gr_vertex_count g) + length VF + card PV = unat (gr_vertex_watermark g)"
    "unat (gr_edge_count g) = length L"
  using assms by (simp_all add: wf_gen_def)

lemma vertex_partD:
  assumes "vertex_part vs n free VF PV"
  shows "chain (\<lambda>v. out_head (vs v)) free VF NIL" "distinct VF"
    "v \<in> set VF \<longleftrightarrow> v < n \<and> \<not> v_active (vs v) \<and> v \<notin> PV" "v < n \<Longrightarrow> v_generation (vs v) \<noteq> 0" "v \<in> PV \<Longrightarrow> v < n"
  using assms by (auto simp: vertex_part_def)

lemma edge_partD:
  assumes "edge_part es n free L EF PE"
  shows "chain (\<lambda>e. next_out (es e)) free EF NIL" "distinct EF"
    "e \<in> set EF \<longleftrightarrow> e < n \<and> \<not> e_active (es e) \<and> e \<notin> PE" "distinct L"
    "e \<in> set L \<longleftrightarrow> e < n \<and> e_active (es e) \<and> e \<notin> PE" "e < n \<Longrightarrow> e_generation (es e) \<noteq> 0" "e \<in> PE \<Longrightarrow> e < n"
  using assms by (auto simp: edge_part_def)

lemma link_partD:
  assumes "link_part es vs S L"
  shows "e \<in> set L \<Longrightarrow> e_src (es e) \<in> S" "e \<in> set L \<Longrightarrow> e_dst (es e) \<in> S"
    "inc_lists (\<lambda>e. e_src (es e)) (\<lambda>e. next_out (es e)) (\<lambda>e. prev_out (es e))
       (\<lambda>v. out_head (vs v)) (\<lambda>v. out_tail (vs v)) (\<lambda>v. out_degree (vs v)) S L"
    "inc_lists (\<lambda>e. e_dst (es e)) (\<lambda>e. next_in (es e)) (\<lambda>e. prev_in (es e))
       (\<lambda>v. in_head (vs v)) (\<lambda>v. in_tail (vs v)) (\<lambda>v. in_degree (vs v)) S L"
  using assms by (auto simp: link_part_def)

subsection \<open>Indices in range\<close>

lemma not_nil:
  assumes "x < n" "n \<le> cap" "cap \<le> DV_GRAPH_MAX_CAPACITY" shows "x \<noteq> NIL"
  using assms by (auto simp: DV_GRAPH_INVALID_INDEX_def DV_GRAPH_MAX_CAPACITY_def word_le_nat_alt word_less_nat_alt)

lemma mem_range:
  assumes "graph_mem g"
  shows "v < gr_vertex_watermark g \<Longrightarrow> unat v < n_vertices g" "e < gr_edge_watermark g \<Longrightarrow> unat e < n_edges g"
    "v < gr_vertex_watermark g \<Longrightarrow> v \<noteq> NIL" "e < gr_edge_watermark g \<Longrightarrow> e \<noteq> NIL"
proof -
  have c: "gr_vertex_watermark g \<le> gr_vertex_capacity g" "gr_edge_watermark g \<le> gr_edge_capacity g"
    "gr_vertex_capacity g \<le> DV_GRAPH_MAX_CAPACITY" "gr_edge_capacity g \<le> DV_GRAPH_MAX_CAPACITY"
    using assms by (simp_all add: graph_mem_def cap_policy_def)
  show "v < gr_vertex_watermark g \<Longrightarrow> unat v < n_vertices g" "e < gr_edge_watermark g \<Longrightarrow> unat e < n_edges g"
    using c(1,2) graph_mem_facts(4,5) [OF assms] by (simp_all add: sized_def word_le_nat_alt word_less_nat_alt)
  show "v < gr_vertex_watermark g \<Longrightarrow> v \<noteq> NIL" "e < gr_edge_watermark g \<Longrightarrow> e \<noteq> NIL"
    using c not_nil by blast+
qed

lemma wf_range:
  assumes "wf_gen g L VF EF PV PE"
  shows "e \<in> set L \<Longrightarrow> unat e < n_edges g" "e \<in> set EF \<Longrightarrow> unat e < n_edges g" "e \<in> PE \<Longrightarrow> unat e < n_edges g"
    "v \<in> live g PV \<Longrightarrow> unat v < n_vertices g" "v \<in> set VF \<Longrightarrow> unat v < n_vertices g" "v \<in> PV \<Longrightarrow> unat v < n_vertices g"
    "NIL \<notin> set L" "NIL \<notin> set EF" "NIL \<notin> set VF" "NIL \<notin> PE" "NIL \<notin> PV" "NIL \<notin> live g PV"
proof -
  note r = mem_range [OF wf_genD(1) [OF assms]]
  note e = edge_partD [OF wf_genD(3) [OF assms]] and v = vertex_partD [OF wf_genD(2) [OF assms]]
  show "e \<in> set L \<Longrightarrow> unat e < n_edges g" "e \<in> set EF \<Longrightarrow> unat e < n_edges g" "e \<in> PE \<Longrightarrow> unat e < n_edges g"
    "NIL \<notin> set L" "NIL \<notin> set EF" "NIL \<notin> PE"
    using e(3,5,7) r(2,4) by blast+
  show "v \<in> set VF \<Longrightarrow> unat v < n_vertices g" "v \<in> PV \<Longrightarrow> unat v < n_vertices g" "NIL \<notin> set VF" "NIL \<notin> PV"
    using v(3,5) r(1,3) by blast+
  show "v \<in> live g PV \<Longrightarrow> unat v < n_vertices g" "NIL \<notin> live g PV"
    using r(1,3) by (auto simp: live_def live_in_def)
qed

section \<open>Linking an edge\<close>

text \<open>The links \<open>dv_graph_link_edge\<close> leaves behind, list by list.\<close>

lemma link_edge_views:
  assumes s: "unat s < n_vertices g" and d: "unat d < n_vertices g" and e: "unat e < n_edges g"
    and t: "out_tail (vr g s) \<noteq> NIL \<Longrightarrow> unat (out_tail (vr g s)) < n_edges g \<and> out_tail (vr g s) \<noteq> e"
    and t': "in_tail (vr g d) \<noteq> NIL \<Longrightarrow> unat (in_tail (vr g d)) < n_edges g \<and> in_tail (vr g d) \<noteq> e"
  obtains g' where "dv_graph_link_edge g e s d = Some g'"
    "g' = g\<lparr>gr_vertices := gr_vertices g', gr_edges := gr_edges g'\<rparr>"
    "n_vertices g' = n_vertices g" "n_edges g' = n_edges g"
    "(gr_vertices g' = None) = (gr_vertices g = None)" "(gr_edges g' = None) = (gr_edges g = None)"
    "(\<lambda>x. e_src (er g' x)) = (\<lambda>x. e_src (er g x))(e := s)" "(\<lambda>x. e_dst (er g' x)) = (\<lambda>x. e_dst (er g x))(e := d)"
    "(\<lambda>x. e_active (er g' x)) = (\<lambda>x. e_active (er g x))(e := True)"
    "(\<lambda>x. e_generation (er g' x)) = (\<lambda>x. e_generation (er g x))"
    "(\<lambda>x. next_out (er g' x)) = (if out_tail (vr g s) = NIL then (\<lambda>x. next_out (er g x))(e := NIL)
       else (\<lambda>x. next_out (er g x))(e := NIL, out_tail (vr g s) := e))"
    "(\<lambda>x. prev_out (er g' x)) = (\<lambda>x. prev_out (er g x))(e := out_tail (vr g s))"
    "(\<lambda>x. next_in (er g' x)) = (if in_tail (vr g d) = NIL then (\<lambda>x. next_in (er g x))(e := NIL)
       else (\<lambda>x. next_in (er g x))(e := NIL, in_tail (vr g d) := e))"
    "(\<lambda>x. prev_in (er g' x)) = (\<lambda>x. prev_in (er g x))(e := in_tail (vr g d))"
    "(\<lambda>x. out_head (vr g' x)) = (if out_tail (vr g s) = NIL then (\<lambda>x. out_head (vr g x))(s := e) else (\<lambda>x. out_head (vr g x)))"
    "(\<lambda>x. out_tail (vr g' x)) = (\<lambda>x. out_tail (vr g x))(s := e)"
    "(\<lambda>x. out_degree (vr g' x)) = (\<lambda>x. out_degree (vr g x))(s := out_degree (vr g s) + 1)"
    "(\<lambda>x. in_head (vr g' x)) = (if in_tail (vr g d) = NIL then (\<lambda>x. in_head (vr g x))(d := e) else (\<lambda>x. in_head (vr g x)))"
    "(\<lambda>x. in_tail (vr g' x)) = (\<lambda>x. in_tail (vr g x))(d := e)"
    "(\<lambda>x. in_degree (vr g' x)) = (\<lambda>x. in_degree (vr g x))(d := in_degree (vr g d) + 1)"
    "(\<lambda>x. v_active (vr g' x)) = (\<lambda>x. v_active (vr g x))" "(\<lambda>x. v_generation (vr g' x)) = (\<lambda>x. v_generation (vr g x))"
proof -
  let ?t = "out_tail (vr g s)" and ?u = "in_tail (vr g d)"
  define g1 where "g1 = upd_e g e (\<lambda>r. r\<lparr>e_src := s, e_dst := d, e_active := True, next_out := NIL, prev_out := ?t\<rparr>)"
  define g2 where "g2 = (if ?t = NIL then upd_v g1 s (\<lambda>v. v\<lparr>out_head := e\<rparr>) else upd_e g1 ?t (\<lambda>r. r\<lparr>next_out := e\<rparr>))"
  define g3 where "g3 = upd_v g2 s (\<lambda>v. v\<lparr>out_tail := e, out_degree := out_degree v + 1\<rparr>)"
  define g4 where "g4 = upd_e g3 e (\<lambda>r. r\<lparr>next_in := NIL, prev_in := ?u\<rparr>)"
  define g5 where "g5 = (if ?u = NIL then upd_v g4 d (\<lambda>v. v\<lparr>in_head := e\<rparr>) else upd_e g4 ?u (\<lambda>r. r\<lparr>next_in := e\<rparr>))"
  define g6 where "g6 = upd_v g5 d (\<lambda>v. v\<lparr>in_tail := e, in_degree := in_degree v + 1\<rparr>)"
  have n: "n_vertices g1 = n_vertices g" "n_edges g1 = n_edges g" "n_vertices g2 = n_vertices g" "n_edges g2 = n_edges g"
    "n_vertices g3 = n_vertices g" "n_edges g3 = n_edges g" "n_vertices g4 = n_vertices g" "n_edges g4 = n_edges g"
    "n_vertices g5 = n_vertices g" "n_edges g5 = n_edges g" "n_vertices g6 = n_vertices g" "n_edges g6 = n_edges g"
    by (simp_all add: g1_def g2_def g3_def g4_def g5_def g6_def)
  have e1: "er g1 = (er g)(e := (er g e)\<lparr>e_src := s, e_dst := d, e_active := True, next_out := NIL, prev_out := ?t\<rparr>)"
    "vr g1 = vr g" using e by (simp_all add: g1_def er_upd_e)
  have e2: "er g2 = (if ?t = NIL then er g1 else (er g1)(?t := (er g1 ?t)\<lparr>next_out := e\<rparr>))"
    "vr g2 = (if ?t = NIL then (vr g)(s := (vr g s)\<lparr>out_head := e\<rparr>) else vr g)"
    using s t n e1(2) by (simp_all add: g2_def er_upd_e vr_upd_v)
  have e3: "er g3 = er g2" "vr g3 = (vr g2)(s := (vr g2 s)\<lparr>out_tail := e, out_degree := out_degree (vr g2 s) + 1\<rparr>)"
    using s n by (simp_all add: g3_def vr_upd_v)
  have u: "in_tail (vr g3 d) = ?u" by (simp add: e3 e2)
  have e4: "er g4 = (er g3)(e := (er g3 e)\<lparr>next_in := NIL, prev_in := ?u\<rparr>)" "vr g4 = vr g3"
    using e n by (simp_all add: g4_def er_upd_e)
  have e5: "er g5 = (if ?u = NIL then er g4 else (er g4)(?u := (er g4 ?u)\<lparr>next_in := e\<rparr>))"
    "vr g5 = (if ?u = NIL then (vr g4)(d := (vr g4 d)\<lparr>in_head := e\<rparr>) else vr g4)"
    using d t' n by (simp_all add: g5_def er_upd_e vr_upd_v)
  have e6: "er g6 = er g5" "vr g6 = (vr g5)(d := (vr g5 d)\<lparr>in_tail := e, in_degree := in_degree (vr g5 d) + 1\<rparr>)"
    using d n by (simp_all add: g6_def vr_upd_v)
  have l1: "put_erec g e (\<lambda>r. r\<lparr>e_src := s, e_dst := d, e_active := True, next_out := NIL, prev_out := ?t\<rparr>) = Some g1"
    using e by (simp add: put_erec_in g1_def)
  have l2: "(if ?t = NIL then put_vrec g1 s (\<lambda>v. v\<lparr>out_head := e\<rparr>) else put_erec g1 ?t (\<lambda>r. r\<lparr>next_out := e\<rparr>)) = Some g2"
    using s t n by (simp add: put_erec_in put_vrec_in g2_def)
  have l3: "put_vrec g2 s (\<lambda>v. v\<lparr>out_tail := e, out_degree := out_degree v + 1\<rparr>) = Some g3"
    using s n by (simp add: put_vrec_in g3_def)
  have l4: "put_erec g3 e (\<lambda>r. r\<lparr>next_in := NIL, prev_in := ?u\<rparr>) = Some g4" using e n by (simp add: put_erec_in g4_def)
  have l5: "(if ?u = NIL then put_vrec g4 d (\<lambda>v. v\<lparr>in_head := e\<rparr>) else put_erec g4 ?u (\<lambda>r. r\<lparr>next_in := e\<rparr>)) = Some g5"
    using d t' n by (simp add: put_erec_in put_vrec_in g5_def)
  have l6: "put_vrec g5 d (\<lambda>v. v\<lparr>in_tail := e, in_degree := in_degree v + 1\<rparr>) = Some g6"
    using d n by (simp add: put_vrec_in g6_def)
  have vs: "vrec g s = Some (vr g s)" "vrec g3 d = Some (vr g3 d)" using s d n by (simp_all add: vrec_in)
  have link: "dv_graph_link_edge g e s d = Some g6"
    by (simp only: dv_graph_link_edge_def vs u l1 l2 l3 l4 l5 l6 Option.bind.bind_lunit)
  have frame: "g6 = g\<lparr>gr_vertices := gr_vertices g6, gr_edges := gr_edges g6\<rparr>"
    by (simp add: g6_def g5_def g4_def g3_def g2_def g1_def upd_v_def upd_e_def)
  have none: "(gr_vertices g6 = None) = (gr_vertices g = None)" "(gr_edges g6 = None) = (gr_edges g = None)"
    by (simp_all add: g6_def g5_def g4_def g3_def g2_def g1_def)
  have tu: "?t = NIL \<or> e \<noteq> ?t \<and> ?t \<noteq> e" "?u = NIL \<or> e \<noteq> ?u \<and> ?u \<noteq> e" using t t' by blast+
  note ers = e6(1) e5(1) e4(1) e3(1) e2(1) e1(1) and vrs = e6(2) e5(2) e4(2) e3(2) e2(2)
  have E: "(\<lambda>x. e_src (er g6 x)) = (\<lambda>x. e_src (er g x))(e := s)" "(\<lambda>x. e_dst (er g6 x)) = (\<lambda>x. e_dst (er g x))(e := d)"
    "(\<lambda>x. e_active (er g6 x)) = (\<lambda>x. e_active (er g x))(e := True)"
    "(\<lambda>x. e_generation (er g6 x)) = (\<lambda>x. e_generation (er g x))"
    "(\<lambda>x. next_out (er g6 x)) = (if ?t = NIL then (\<lambda>x. next_out (er g x))(e := NIL)
       else (\<lambda>x. next_out (er g x))(e := NIL, ?t := e))"
    "(\<lambda>x. prev_out (er g6 x)) = (\<lambda>x. prev_out (er g x))(e := ?t)"
    "(\<lambda>x. next_in (er g6 x)) = (if ?u = NIL then (\<lambda>x. next_in (er g x))(e := NIL)
       else (\<lambda>x. next_in (er g x))(e := NIL, ?u := e))"
    "(\<lambda>x. prev_in (er g6 x)) = (\<lambda>x. prev_in (er g x))(e := ?u)"
    using tu by (auto simp: fun_eq_iff ers)
  have V: "(\<lambda>x. out_head (vr g6 x)) = (if ?t = NIL then (\<lambda>x. out_head (vr g x))(s := e) else (\<lambda>x. out_head (vr g x)))"
    "(\<lambda>x. out_tail (vr g6 x)) = (\<lambda>x. out_tail (vr g x))(s := e)"
    "(\<lambda>x. out_degree (vr g6 x)) = (\<lambda>x. out_degree (vr g x))(s := out_degree (vr g s) + 1)"
    "(\<lambda>x. in_head (vr g6 x)) = (if ?u = NIL then (\<lambda>x. in_head (vr g x))(d := e) else (\<lambda>x. in_head (vr g x)))"
    "(\<lambda>x. in_tail (vr g6 x)) = (\<lambda>x. in_tail (vr g x))(d := e)"
    "(\<lambda>x. in_degree (vr g6 x)) = (\<lambda>x. in_degree (vr g x))(d := in_degree (vr g d) + 1)"
    "(\<lambda>x. v_active (vr g6 x)) = (\<lambda>x. v_active (vr g x))" "(\<lambda>x. v_generation (vr g6 x)) = (\<lambda>x. v_generation (vr g x))"
    by (simp_all add: fun_eq_iff vrs)
  show thesis by (rule that [OF link frame n(11,12) none E V])
qed

end
