(* ===== verification/Graph_Steps.thy ===== *)
theory Graph_Steps
  imports Graph_Inv
begin

text \<open>
  The primitive steps of the graph on its invariant: linking an edge into the two incidence lists it
  belongs to, taking it out again, retiring its slot, and taking a slot from a pool. Each is shown
  first on the fields it writes and then on the insertion order and the free lists.
\<close>

section \<open>Memory\<close>

text \<open>Writing records of a pool keeps the memory in order.\<close>

lemma graph_mem_pools:
  assumes "graph_mem g" "g' = g\<lparr>gr_vertices := gr_vertices g', gr_edges := gr_edges g'\<rparr>"
    "n_vertices g' = n_vertices g" "n_edges g' = n_edges g"
    "(gr_vertices g' = None) = (gr_vertices g = None)" "(gr_edges g' = None) = (gr_edges g = None)"
  shows "graph_mem g'"
proof -
  have s: "sized (gr_vertices g') n = sized (gr_vertices g) n" "sized (gr_edges g') n = sized (gr_edges g) n" for n
    using assms(3-6) by (auto simp: sized_def)
  have "graph_mem (g\<lparr>gr_vertices := gr_vertices g', gr_edges := gr_edges g'\<rparr>)"
    using assms(1) by (simp add: graph_mem_def s)
  then show ?thesis using assms(2) by simp
qed

lemma graph_mem_counters [simp]:
  "graph_mem (g\<lparr>gr_vertex_count := n\<rparr>) = graph_mem g" "graph_mem (g\<lparr>gr_edge_count := n\<rparr>) = graph_mem g"
  "graph_mem (g\<lparr>gr_vertex_free := n\<rparr>) = graph_mem g" "graph_mem (g\<lparr>gr_edge_free := n\<rparr>) = graph_mem g"
  "graph_mem (g\<lparr>gr_version := k\<rparr>) = graph_mem g" "graph_mem (g\<lparr>gr_in_update := b\<rparr>) = graph_mem g"
  "graph_mem (g\<lparr>gr_update_dirty := b\<rparr>) = graph_mem g"
  by (simp_all add: graph_mem_def)

lemma views_counters [simp]:
  "vr (g\<lparr>gr_vertex_count := n\<rparr>) = vr g" "vr (g\<lparr>gr_edge_count := n\<rparr>) = vr g" "vr (g\<lparr>gr_vertex_free := n\<rparr>) = vr g"
  "vr (g\<lparr>gr_edge_free := n\<rparr>) = vr g" "vr (g\<lparr>gr_version := k\<rparr>) = vr g" "vr (g\<lparr>gr_in_update := b\<rparr>) = vr g"
  "vr (g\<lparr>gr_update_dirty := b\<rparr>) = vr g" "vr (g\<lparr>gr_vertex_watermark := n\<rparr>) = vr g" "vr (g\<lparr>gr_edge_watermark := n\<rparr>) = vr g"
  "er (g\<lparr>gr_vertex_count := n\<rparr>) = er g" "er (g\<lparr>gr_edge_count := n\<rparr>) = er g" "er (g\<lparr>gr_vertex_free := n\<rparr>) = er g"
  "er (g\<lparr>gr_edge_free := n\<rparr>) = er g" "er (g\<lparr>gr_version := k\<rparr>) = er g" "er (g\<lparr>gr_in_update := b\<rparr>) = er g"
  "er (g\<lparr>gr_update_dirty := b\<rparr>) = er g" "er (g\<lparr>gr_vertex_watermark := n\<rparr>) = er g" "er (g\<lparr>gr_edge_watermark := n\<rparr>) = er g"
  by (simp_all add: fun_eq_iff vr_def er_def)

section \<open>Unlinking an edge\<close>

lemma unlink_out_views:
  assumes e: "unat e < n_edges g" and s: "unat (e_src (er g e)) < n_vertices g"
    and p: "prev_out (er g e) \<noteq> NIL \<Longrightarrow> unat (prev_out (er g e)) < n_edges g"
    and n: "next_out (er g e) \<noteq> NIL \<Longrightarrow> unat (next_out (er g e)) < n_edges g"
  obtains g' where "unlink_out g e = Some g'" "g' = g\<lparr>gr_vertices := gr_vertices g', gr_edges := gr_edges g'\<rparr>"
    "n_vertices g' = n_vertices g" "n_edges g' = n_edges g"
    "(gr_vertices g' = None) = (gr_vertices g = None)" "(gr_edges g' = None) = (gr_edges g = None)"
    "(\<lambda>x. e_src (er g' x)) = (\<lambda>x. e_src (er g x))" "(\<lambda>x. e_dst (er g' x)) = (\<lambda>x. e_dst (er g x))"
    "(\<lambda>x. e_active (er g' x)) = (\<lambda>x. e_active (er g x))" "(\<lambda>x. e_generation (er g' x)) = (\<lambda>x. e_generation (er g x))"
    "(\<lambda>x. next_in (er g' x)) = (\<lambda>x. next_in (er g x))" "(\<lambda>x. prev_in (er g' x)) = (\<lambda>x. prev_in (er g x))"
    "(\<lambda>x. next_out (er g' x)) = (if prev_out (er g e) = NIL then (\<lambda>x. next_out (er g x))
       else (\<lambda>x. next_out (er g x))(prev_out (er g e) := next_out (er g e)))"
    "(\<lambda>x. prev_out (er g' x)) = (if next_out (er g e) = NIL then (\<lambda>x. prev_out (er g x))
       else (\<lambda>x. prev_out (er g x))(next_out (er g e) := prev_out (er g e)))"
    "(\<lambda>x. out_head (vr g' x)) = (if prev_out (er g e) = NIL then (\<lambda>x. out_head (vr g x))(e_src (er g e) := next_out (er g e))
       else (\<lambda>x. out_head (vr g x)))"
    "(\<lambda>x. out_tail (vr g' x)) = (if next_out (er g e) = NIL then (\<lambda>x. out_tail (vr g x))(e_src (er g e) := prev_out (er g e))
       else (\<lambda>x. out_tail (vr g x)))"
    "(\<lambda>x. out_degree (vr g' x)) = (\<lambda>x. out_degree (vr g x))(e_src (er g e) := out_degree (vr g (e_src (er g e))) - 1)"
    "(\<lambda>x. in_head (vr g' x)) = (\<lambda>x. in_head (vr g x))" "(\<lambda>x. in_tail (vr g' x)) = (\<lambda>x. in_tail (vr g x))"
    "(\<lambda>x. in_degree (vr g' x)) = (\<lambda>x. in_degree (vr g x))"
    "(\<lambda>x. v_active (vr g' x)) = (\<lambda>x. v_active (vr g x))" "(\<lambda>x. v_generation (vr g' x)) = (\<lambda>x. v_generation (vr g x))"
proof -
  let ?p = "prev_out (er g e)" and ?n = "next_out (er g e)" and ?s = "e_src (er g e)"
  define g1 where "g1 = (if ?p = NIL then upd_v g ?s (\<lambda>v. v\<lparr>out_head := ?n\<rparr>) else upd_e g ?p (\<lambda>r. r\<lparr>next_out := ?n\<rparr>))"
  define g2 where "g2 = (if ?n = NIL then upd_v g1 ?s (\<lambda>v. v\<lparr>out_tail := ?p\<rparr>) else upd_e g1 ?n (\<lambda>r. r\<lparr>prev_out := ?p\<rparr>))"
  define g3 where "g3 = upd_v g2 ?s (\<lambda>v. v\<lparr>out_degree := out_degree v - 1\<rparr>)"
  have len: "n_vertices g1 = n_vertices g" "n_edges g1 = n_edges g" "n_vertices g2 = n_vertices g"
    "n_edges g2 = n_edges g" "n_vertices g3 = n_vertices g" "n_edges g3 = n_edges g"
    by (simp_all add: g1_def g2_def g3_def)
  have l1: "(if ?p = NIL then put_vrec g ?s (\<lambda>v. v\<lparr>out_head := ?n\<rparr>) else put_erec g ?p (\<lambda>r. r\<lparr>next_out := ?n\<rparr>)) = Some g1"
    using s p by (simp add: put_vrec_in put_erec_in g1_def)
  have l2: "(if ?n = NIL then put_vrec g1 ?s (\<lambda>v. v\<lparr>out_tail := ?p\<rparr>) else put_erec g1 ?n (\<lambda>r. r\<lparr>prev_out := ?p\<rparr>)) = Some g2"
    using s n len by (simp add: put_vrec_in put_erec_in g2_def)
  have l3: "put_vrec g2 ?s (\<lambda>v. v\<lparr>out_degree := out_degree v - 1\<rparr>) = Some g3" using s len by (simp add: put_vrec_in g3_def)
  have link: "unlink_out g e = Some g3"
    by (simp only: unlink_out_def erec_in [OF e] l1 l2 l3 Option.bind.bind_lunit)
  have frame: "g3 = g\<lparr>gr_vertices := gr_vertices g3, gr_edges := gr_edges g3\<rparr>"
    "(gr_vertices g3 = None) = (gr_vertices g = None)" "(gr_edges g3 = None) = (gr_edges g = None)"
    by (simp_all add: g3_def g2_def g1_def upd_v_def upd_e_def)
  have ers: "er g1 = (if ?p = NIL then er g else (er g)(?p := (er g ?p)\<lparr>next_out := ?n\<rparr>))"
    "er g2 = (if ?n = NIL then er g1 else (er g1)(?n := (er g1 ?n)\<lparr>prev_out := ?p\<rparr>))" "er g3 = er g2"
    using p n len by (simp_all add: g1_def g2_def g3_def er_upd_e)
  have vrs: "vr g1 = (if ?p = NIL then (vr g)(?s := (vr g ?s)\<lparr>out_head := ?n\<rparr>) else vr g)"
    "vr g2 = (if ?n = NIL then (vr g1)(?s := (vr g1 ?s)\<lparr>out_tail := ?p\<rparr>) else vr g1)"
    "vr g3 = (vr g2)(?s := (vr g2 ?s)\<lparr>out_degree := out_degree (vr g2 ?s) - 1\<rparr>)"
    using s len by (simp_all add: g1_def g2_def g3_def vr_upd_v)
  show thesis by (rule that [OF link frame(1) len(5,6) frame(2,3)]) (simp_all add: fun_eq_iff ers vrs)
qed

lemma unlink_in_views:
  assumes e: "unat e < n_edges g" and s: "unat (e_dst (er g e)) < n_vertices g"
    and p: "prev_in (er g e) \<noteq> NIL \<Longrightarrow> unat (prev_in (er g e)) < n_edges g"
    and n: "next_in (er g e) \<noteq> NIL \<Longrightarrow> unat (next_in (er g e)) < n_edges g"
  obtains g' where "unlink_in g e = Some g'" "g' = g\<lparr>gr_vertices := gr_vertices g', gr_edges := gr_edges g'\<rparr>"
    "n_vertices g' = n_vertices g" "n_edges g' = n_edges g"
    "(gr_vertices g' = None) = (gr_vertices g = None)" "(gr_edges g' = None) = (gr_edges g = None)"
    "(\<lambda>x. e_src (er g' x)) = (\<lambda>x. e_src (er g x))" "(\<lambda>x. e_dst (er g' x)) = (\<lambda>x. e_dst (er g x))"
    "(\<lambda>x. e_active (er g' x)) = (\<lambda>x. e_active (er g x))" "(\<lambda>x. e_generation (er g' x)) = (\<lambda>x. e_generation (er g x))"
    "(\<lambda>x. next_out (er g' x)) = (\<lambda>x. next_out (er g x))" "(\<lambda>x. prev_out (er g' x)) = (\<lambda>x. prev_out (er g x))"
    "(\<lambda>x. next_in (er g' x)) = (if prev_in (er g e) = NIL then (\<lambda>x. next_in (er g x))
       else (\<lambda>x. next_in (er g x))(prev_in (er g e) := next_in (er g e)))"
    "(\<lambda>x. prev_in (er g' x)) = (if next_in (er g e) = NIL then (\<lambda>x. prev_in (er g x))
       else (\<lambda>x. prev_in (er g x))(next_in (er g e) := prev_in (er g e)))"
    "(\<lambda>x. in_head (vr g' x)) = (if prev_in (er g e) = NIL then (\<lambda>x. in_head (vr g x))(e_dst (er g e) := next_in (er g e))
       else (\<lambda>x. in_head (vr g x)))"
    "(\<lambda>x. in_tail (vr g' x)) = (if next_in (er g e) = NIL then (\<lambda>x. in_tail (vr g x))(e_dst (er g e) := prev_in (er g e))
       else (\<lambda>x. in_tail (vr g x)))"
    "(\<lambda>x. in_degree (vr g' x)) = (\<lambda>x. in_degree (vr g x))(e_dst (er g e) := in_degree (vr g (e_dst (er g e))) - 1)"
    "(\<lambda>x. out_head (vr g' x)) = (\<lambda>x. out_head (vr g x))" "(\<lambda>x. out_tail (vr g' x)) = (\<lambda>x. out_tail (vr g x))"
    "(\<lambda>x. out_degree (vr g' x)) = (\<lambda>x. out_degree (vr g x))"
    "(\<lambda>x. v_active (vr g' x)) = (\<lambda>x. v_active (vr g x))" "(\<lambda>x. v_generation (vr g' x)) = (\<lambda>x. v_generation (vr g x))"
proof -
  let ?p = "prev_in (er g e)" and ?n = "next_in (er g e)" and ?s = "e_dst (er g e)"
  define g1 where "g1 = (if ?p = NIL then upd_v g ?s (\<lambda>v. v\<lparr>in_head := ?n\<rparr>) else upd_e g ?p (\<lambda>r. r\<lparr>next_in := ?n\<rparr>))"
  define g2 where "g2 = (if ?n = NIL then upd_v g1 ?s (\<lambda>v. v\<lparr>in_tail := ?p\<rparr>) else upd_e g1 ?n (\<lambda>r. r\<lparr>prev_in := ?p\<rparr>))"
  define g3 where "g3 = upd_v g2 ?s (\<lambda>v. v\<lparr>in_degree := in_degree v - 1\<rparr>)"
  have len: "n_vertices g1 = n_vertices g" "n_edges g1 = n_edges g" "n_vertices g2 = n_vertices g"
    "n_edges g2 = n_edges g" "n_vertices g3 = n_vertices g" "n_edges g3 = n_edges g"
    by (simp_all add: g1_def g2_def g3_def)
  have l1: "(if ?p = NIL then put_vrec g ?s (\<lambda>v. v\<lparr>in_head := ?n\<rparr>) else put_erec g ?p (\<lambda>r. r\<lparr>next_in := ?n\<rparr>)) = Some g1"
    using s p by (simp add: put_vrec_in put_erec_in g1_def)
  have l2: "(if ?n = NIL then put_vrec g1 ?s (\<lambda>v. v\<lparr>in_tail := ?p\<rparr>) else put_erec g1 ?n (\<lambda>r. r\<lparr>prev_in := ?p\<rparr>)) = Some g2"
    using s n len by (simp add: put_vrec_in put_erec_in g2_def)
  have l3: "put_vrec g2 ?s (\<lambda>v. v\<lparr>in_degree := in_degree v - 1\<rparr>) = Some g3" using s len by (simp add: put_vrec_in g3_def)
  have link: "unlink_in g e = Some g3"
    by (simp only: unlink_in_def erec_in [OF e] l1 l2 l3 Option.bind.bind_lunit)
  have frame: "g3 = g\<lparr>gr_vertices := gr_vertices g3, gr_edges := gr_edges g3\<rparr>"
    "(gr_vertices g3 = None) = (gr_vertices g = None)" "(gr_edges g3 = None) = (gr_edges g = None)"
    by (simp_all add: g3_def g2_def g1_def upd_v_def upd_e_def)
  have ers: "er g1 = (if ?p = NIL then er g else (er g)(?p := (er g ?p)\<lparr>next_in := ?n\<rparr>))"
    "er g2 = (if ?n = NIL then er g1 else (er g1)(?n := (er g1 ?n)\<lparr>prev_in := ?p\<rparr>))" "er g3 = er g2"
    using p n len by (simp_all add: g1_def g2_def g3_def er_upd_e)
  have vrs: "vr g1 = (if ?p = NIL then (vr g)(?s := (vr g ?s)\<lparr>in_head := ?n\<rparr>) else vr g)"
    "vr g2 = (if ?n = NIL then (vr g1)(?s := (vr g1 ?s)\<lparr>in_tail := ?p\<rparr>) else vr g1)"
    "vr g3 = (vr g2)(?s := (vr g2 ?s)\<lparr>in_degree := in_degree (vr g2 ?s) - 1\<rparr>)"
    using s len by (simp_all add: g1_def g2_def g3_def vr_upd_v)
  show thesis by (rule that [OF link frame(1) len(5,6) frame(2,3)]) (simp_all add: fun_eq_iff ers vrs)
qed

lemma inc_lists_neighbours:
  assumes "inc_lists key nxt prv hh tt deg S L" "e \<in> set L" "key e \<in> S" "distinct L"
  shows "nxt e \<noteq> NIL \<Longrightarrow> nxt e \<in> set L - {e}" "prv e \<noteq> NIL \<Longrightarrow> prv e \<in> set L - {e}"
proof -
  obtain as bs where ab: "owned key L (key e) = as @ e # bs" "distinct (as @ e # bs)"
    using owned_split [OF assms(2) refl assms(4)] by blast
  have sub: "set (as @ e # bs) \<subseteq> set L" using ab(1) owned_simps(3) [of key L "key e"] by simp
  note c = inc_listsD [OF assms(1,3), unfolded ab(1)]
  have "nxt e = (case bs of [] \<Rightarrow> NIL | b # _ \<Rightarrow> b)" by (rule chain_next [OF c(1)])
  then show "nxt e \<noteq> NIL \<Longrightarrow> nxt e \<in> set L - {e}" using sub ab(2) by (cases bs) auto
  have "chain prv (tt (key e)) (rev bs @ e # rev as) NIL" using c(2) by simp
  then have "prv e = (case rev as of [] \<Rightarrow> NIL | a # _ \<Rightarrow> a)" by (rule chain_next)
  then show "prv e \<noteq> NIL \<Longrightarrow> prv e \<in> set L - {e}" using sub ab(2) by (cases as rule: rev_cases) auto
qed

section \<open>Releasing an edge\<close>

text \<open>The graph after the edges in \<open>D\<close> are retired: their generations move on, nothing else a handle can see.\<close>

definition dropped :: "'w dv_graph_t \<Rightarrow> u32 set \<Rightarrow> 'w dv_graph_t \<Rightarrow> bool" where
  "dropped g D g' \<longleftrightarrow>
     g' = g\<lparr>gr_vertices := gr_vertices g', gr_edges := gr_edges g', gr_edge_free := gr_edge_free g', gr_edge_count := gr_edge_count g'\<rparr> \<and>
     n_vertices g' = n_vertices g \<and> n_edges g' = n_edges g \<and>
     (\<forall>x. e_src (er g' x) = e_src (er g x) \<and> e_dst (er g' x) = e_dst (er g x)) \<and>
     (\<forall>x. e_active (er g' x) = (e_active (er g x) \<and> x \<notin> D)) \<and>
     (\<forall>x. e_generation (er g' x) = (if x \<in> D then dv_graph_bump (e_generation (er g x)) else e_generation (er g x))) \<and>
     (\<forall>x. v_active (vr g' x) = v_active (vr g x) \<and> v_generation (vr g' x) = v_generation (vr g x))"

lemma droppedD:
  assumes "dropped g D g'"
  shows "g' = g\<lparr>gr_vertices := gr_vertices g', gr_edges := gr_edges g', gr_edge_free := gr_edge_free g', gr_edge_count := gr_edge_count g'\<rparr>"
    "n_vertices g' = n_vertices g" "n_edges g' = n_edges g"
    "e_src (er g' x) = e_src (er g x)" "e_dst (er g' x) = e_dst (er g x)"
    "e_active (er g' x) = (e_active (er g x) \<and> x \<notin> D)"
    "e_generation (er g' x) = (if x \<in> D then dv_graph_bump (e_generation (er g x)) else e_generation (er g x))"
    "v_active (vr g' x) = v_active (vr g x)" "v_generation (vr g' x) = v_generation (vr g x)"
  using assms unfolding dropped_def by blast+

lemma dropped_refl: "dropped g {} g"
  by (simp add: dropped_def)

lemma dropped_trans:
  assumes "dropped g D g1" "dropped g1 D' g2" "D \<inter> D' = {}" shows "dropped g (D \<union> D') g2"
proof -
  note d1 = droppedD [OF assms(1)] and d2 = droppedD [OF assms(2)]
  have "g2 = g\<lparr>gr_vertices := gr_vertices g2, gr_edges := gr_edges g2, gr_edge_free := gr_edge_free g2, gr_edge_count := gr_edge_count g2\<rparr>"
    by (subst d2(1), subst d1(1)) simp
  then show ?thesis
    unfolding dropped_def using d1(2-) d2(2-) assms(3) by auto
qed

lemma bump_nonzero [simp]: "dv_graph_bump x \<noteq> 0"
  by (simp add: dv_graph_bump_def)

lemma bump_neq [simp]: "dv_graph_bump x \<noteq> x" "x \<noteq> dv_graph_bump x"
  by (auto simp: dv_graph_bump_def)

lemma unlink_edge_views:
  assumes wf: "wf_gen g L VF EF PV PE" and e: "e \<in> set L"
  obtains g' where "dv_graph_unlink_edge g e = Some g'" "g' = g\<lparr>gr_vertices := gr_vertices g', gr_edges := gr_edges g'\<rparr>"
    "n_vertices g' = n_vertices g" "n_edges g' = n_edges g"
    "(gr_vertices g' = None) = (gr_vertices g = None)" "(gr_edges g' = None) = (gr_edges g = None)"
    "(\<lambda>x. e_src (er g' x)) = (\<lambda>x. e_src (er g x))" "(\<lambda>x. e_dst (er g' x)) = (\<lambda>x. e_dst (er g x))"
    "(\<lambda>x. e_active (er g' x)) = (\<lambda>x. e_active (er g x))" "(\<lambda>x. e_generation (er g' x)) = (\<lambda>x. e_generation (er g x))"
    "\<And>x. x \<notin> set L \<Longrightarrow> next_out (er g' x) = next_out (er g x)"
    "\<And>x. out_head (vr g' x) \<noteq> out_head (vr g x) \<Longrightarrow> x \<in> live g PV"
    "(\<lambda>x. v_active (vr g' x)) = (\<lambda>x. v_active (vr g x))" "(\<lambda>x. v_generation (vr g' x)) = (\<lambda>x. v_generation (vr g x))"
    "link_part (er g') (vr g') (live g PV) (remove1 e L)"
proof -
  note lp = link_partD [OF wf_genD(4) [OF wf]] and dL = edge_partD(4) [OF wf_genD(3) [OF wf]]
  note rng = wf_range [OF wf]
  have ends: "e_src (er g e) \<in> live g PV" "e_dst (er g e) \<in> live g PV" using lp(1,2) e by blast+
  note out = inc_lists_neighbours [OF lp(3) e ends(1) dL] and inn = inc_lists_neighbours [OF lp(4) e ends(2) dL]
  have Ln: "NIL \<notin> set L" by (rule rng(7))
  show thesis
  proof (rule unlink_out_views [of e g], goal_cases)
    case (5 g1)
    note u = 5
    have same: "next_in (er g1 x) = next_in (er g x)" "prev_in (er g1 x) = prev_in (er g x)" "e_dst (er g1 x) = e_dst (er g x)"
      "in_head (vr g1 x) = in_head (vr g x)" for x using u(8,11,12,18) by (simp_all add: fun_eq_iff)
    have io: "inc_lists (\<lambda>e. e_src (er g1 e)) (\<lambda>e. next_out (er g1 e)) (\<lambda>e. prev_out (er g1 e))
        (\<lambda>v. out_head (vr g1 v)) (\<lambda>v. out_tail (vr g1 v)) (\<lambda>v. out_degree (vr g1 v)) (live g PV) (remove1 e L)"
      unfolding u(7) u(13-17) by (rule inc_lists_remove [OF lp(3) refl ends(1) e Ln dL])
    show thesis
    proof (rule unlink_in_views [of e g1], goal_cases)
      case (5 g2)
      note w = 5
      have "inc_lists (\<lambda>e. e_dst (er g2 e)) (\<lambda>e. next_in (er g2 e)) (\<lambda>e. prev_in (er g2 e))
        (\<lambda>v. in_head (vr g2 v)) (\<lambda>v. in_tail (vr g2 v)) (\<lambda>v. in_degree (vr g2 v)) (live g PV) (remove1 e L)"
        unfolding w(8) w(13-17) u(8,11,12) u(18-20) same
        using inc_lists_remove [OF lp(4) refl ends(2) e Ln dL] u(20) by (simp add: fun_eq_iff)
      moreover have "inc_lists (\<lambda>e. e_src (er g2 e)) (\<lambda>e. next_out (er g2 e)) (\<lambda>e. prev_out (er g2 e))
        (\<lambda>v. out_head (vr g2 v)) (\<lambda>v. out_tail (vr g2 v)) (\<lambda>v. out_degree (vr g2 v)) (live g PV) (remove1 e L)"
        unfolding w(7) w(11,12) w(18-20) by (rule io)
      moreover have "e_src (er g2 x) = e_src (er g x) \<and> e_dst (er g2 x) = e_dst (er g x)" for x
        using w(7,8) u(7,8) by (simp add: fun_eq_iff)
      ultimately have lnk: "link_part (er g2) (vr g2) (live g PV) (remove1 e L)"
        unfolding link_part_def using lp(1,2) notin_set_remove1 by metis
      have nx: "next_out (er g2 x) = next_out (er g x)" if "x \<notin> set L" for x
        using fun_cong [OF w(11), of x] fun_cong [OF u(13), of x] out(2) that by (auto split: if_splits)
      have oh: "x \<in> live g PV" if "out_head (vr g2 x) \<noteq> out_head (vr g x)" for x
        using fun_cong [OF w(18), of x] fun_cong [OF u(15), of x] that ends by (auto split: if_splits)
      have un: "dv_graph_unlink_edge g e = Some g2" using u(1) w(1) by (simp add: dv_graph_unlink_edge_def)
      have fr: "g2 = g\<lparr>gr_vertices := gr_vertices g2, gr_edges := gr_edges g2\<rparr>"
        by (subst w(2), subst u(2)) simp
      show thesis
        by (rule that [OF un fr w(3) [unfolded u(3)] w(4) [unfolded u(4)] w(5) [unfolded u(5)] w(6) [unfolded u(6)]
              w(7) [unfolded u(7)] w(8) [unfolded u(8)] w(9) [unfolded u(9)] w(10) [unfolded u(10)] nx oh
              w(21) [unfolded u(21)] w(22) [unfolded u(22)] lnk])
    qed (use rng(1,4) e ends inn same u(3,4) in auto)
  qed (use rng(1,4) e ends out in auto)
qed

text \<open>What the two halves of the invariant depend on.\<close>

lemma live_in_cong: "(\<And>v. v_active (vs v) = v_active (vs' v)) \<Longrightarrow> live_in vs n PV = live_in vs' n PV"
  by (simp add: live_in_def)

lemma vertex_part_cong:
  assumes "vertex_part vs n free VF PV" "\<And>v. v_active (vs' v) = v_active (vs v)"
    "\<And>v. v_generation (vs' v) = v_generation (vs v)" "\<And>v. v \<in> set VF \<Longrightarrow> out_head (vs' v) = out_head (vs v)"
  shows "vertex_part vs' n free VF PV"
  using assms chain_cong [of VF "\<lambda>v. out_head (vs v)" "\<lambda>v. out_head (vs' v)" free NIL] by (simp add: vertex_part_def)

lemma vf_not_live: "wf_gen g L VF EF PV PE \<Longrightarrow> v \<in> set VF \<Longrightarrow> v \<notin> live g PV"
  using vertex_partD(3) [OF wf_genD(2)] by (fastforce simp: live_def live_in_def)

lemma length_remove1_word: "unat (n :: u32) = length L \<Longrightarrow> e \<in> set L \<Longrightarrow> unat (n - 1) = length (remove1 e L)"
proof -
  assume a: "unat n = length L" "e \<in> set L"
  then have "n \<noteq> 0" by auto
  then have "unat (n - 1) = unat n - 1" by (rule unat_minus_one)
  then show ?thesis using a by (simp add: length_remove1)
qed

lemma release_edge_ok:
  assumes wf: "wf_gen g L VF EF PV {}" and e: "e \<in> set L"
  obtains g' where "dv_graph_release_edge g e = Some g'" "wf_gen g' (remove1 e L) VF (e # EF) PV {}" "dropped g {e} g'"
proof -
  show thesis
  proof (rule unlink_edge_views [OF wf e], goal_cases)
    case (1 g1)
    note u = 1 and wD = wf_genD [OF wf] and rng = wf_range [OF wf]
    note ep = edge_partD [OF wD(3)]
    have e1: "unat e < n_edges g1" using rng(1) e u(4) by simp
    define g2 where "g2 = upd_e g1 e (\<lambda>r. r\<lparr>e_active := False, e_generation := dv_graph_bump (e_generation r), next_out := gr_edge_free g1\<rparr>)"
    define g' where "g' = g2\<lparr>gr_edge_free := e, gr_edge_count := gr_edge_count g2 - 1\<rparr>"
    have rel: "dv_graph_release_edge g e = Some g'"
      using u(1) e1 by (simp add: dv_graph_release_edge_def put_erec_in g2_def g'_def)
    have er': "er g' = (er g1)(e := (er g1 e)\<lparr>e_active := False, e_generation := dv_graph_bump (e_generation (er g1 e)), next_out := gr_edge_free g1\<rparr>)"
      and vr': "vr g' = vr g1" using e1 by (simp_all add: g'_def g2_def er_upd_e)
    have fr1: "gr_edge_free g1 = gr_edge_free g" "gr_edge_count g1 = gr_edge_count g" "gr_edge_watermark g1 = gr_edge_watermark g"
      "gr_vertex_watermark g1 = gr_vertex_watermark g" "gr_vertex_free g1 = gr_vertex_free g" "gr_vertex_count g1 = gr_vertex_count g"
      by (subst u(2), simp)+
    have f: "gr_edge_watermark g' = gr_edge_watermark g" "gr_vertex_watermark g' = gr_vertex_watermark g"
      "gr_vertex_free g' = gr_vertex_free g" "gr_vertex_count g' = gr_vertex_count g" "gr_edge_free g' = e"
      "gr_edge_count g' = gr_edge_count g - 1" by (simp_all add: g'_def g2_def fr1)
    have act: "v_active (vr g' x) = v_active (vr g x)" "v_generation (vr g' x) = v_generation (vr g x)" for x
      using u(13,14) by (simp_all add: fun_eq_iff vr')
    have lv: "live g' PV = live g PV" unfolding live_def f by (rule live_in_cong) (simp add: act)
    have "graph_mem g1" by (rule graph_mem_pools [OF wD(1) u(2-6)])
    then have mem: "graph_mem g'"
      using graph_mem_pools [of g1 g2] by (simp add: g'_def g2_def upd_e_def items_set_items)
    have vp: "vertex_part (vr g') (gr_vertex_watermark g') (gr_vertex_free g') VF PV" unfolding f
      by (rule vertex_part_cong [OF wD(2)]) (use act u(12) vf_not_live [OF wf] vr' in auto)
    have eL: "e \<notin> set (remove1 e L)" using ep(4) by simp
    have "link_part (er g') (vr g') (live g PV) (remove1 e L)"
    proof -
      have "inc_lists (\<lambda>x. e_src (er g' x)) (\<lambda>x. next_out (er g' x)) (\<lambda>x. prev_out (er g' x))
          (\<lambda>v. out_head (vr g' v)) (\<lambda>v. out_tail (vr g' v)) (\<lambda>v. out_degree (vr g' v)) (live g PV) (remove1 e L)"
        using link_partD(3) [OF u(15)] eL by (subst inc_lists_cong) (auto simp: er' vr')
      moreover have "inc_lists (\<lambda>x. e_dst (er g' x)) (\<lambda>x. next_in (er g' x)) (\<lambda>x. prev_in (er g' x))
          (\<lambda>v. in_head (vr g' v)) (\<lambda>v. in_tail (vr g' v)) (\<lambda>v. in_degree (vr g' v)) (live g PV) (remove1 e L)"
        using link_partD(4) [OF u(15)] eL by (subst inc_lists_cong) (auto simp: er' vr')
      ultimately show ?thesis using link_partD(1,2) [OF u(15)] eL by (auto simp: link_part_def er')
    qed
    moreover have "edge_part (er g') (gr_edge_watermark g') (gr_edge_free g') (remove1 e L) (e # EF) {}"
    proof -
      have eEF: "e \<notin> set EF" and in_: "e < gr_edge_watermark g" "e_active (er g e)" using ep(3,5) e by blast+
      have "chain (\<lambda>x. next_out (er g' x)) (gr_edge_free g) EF NIL = chain (\<lambda>x. next_out (er g x)) (gr_edge_free g) EF NIL"
      proof (rule chain_cong)
        fix x assume "x \<in> set EF"
        then have "x \<notin> set L" "x \<noteq> e" using ep(3,5) eEF by auto
        then show "next_out (er g' x) = next_out (er g x)" using u(11) by (simp add: er')
      qed
      then have ch: "chain (\<lambda>x. next_out (er g' x)) e (e # EF) NIL" using ep(1) by (simp add: er' fr1)
      have ac: "e_active (er g' x) = (e_active (er g x) \<and> x \<noteq> e)" for x using u(9) by (simp add: er' fun_eq_iff)
      have gn: "e_generation (er g' x) \<noteq> 0" if "x < gr_edge_watermark g" for x
        using u(10) ep(6) that by (simp add: er' fun_eq_iff)
      have s1: "x \<in> set (e # EF) \<longleftrightarrow> x < gr_edge_watermark g \<and> \<not> e_active (er g' x) \<and> x \<notin> {}" for x
        using ep(3) [of x] in_ by (auto simp: ac)
      have s2: "x \<in> set (remove1 e L) \<longleftrightarrow> x < gr_edge_watermark g \<and> e_active (er g' x) \<and> x \<notin> {}" for x
        using ep(5) [of x] ep(4) by (auto simp: ac)
      show ?thesis unfolding f edge_part_def using ch s1 s2 gn eEF ep(2,4) by simp
    qed
    moreover have "unat (gr_edge_count g') = length (remove1 e L)"
      unfolding f by (rule length_remove1_word [OF wD(6) e])
    ultimately have "wf_gen g' (remove1 e L) VF (e # EF) PV {}"
      using mem vp wD(5) by (simp add: wf_gen_def lv f)
    moreover have "dropped g {e} g'"
    proof -
      have "g' = g\<lparr>gr_vertices := gr_vertices g', gr_edges := gr_edges g', gr_edge_free := gr_edge_free g', gr_edge_count := gr_edge_count g'\<rparr>"
      proof -
        obtain v es where "g1 = g\<lparr>gr_vertices := v, gr_edges := es\<rparr>" using u(2) by blast
        then show ?thesis by (simp add: g'_def g2_def upd_e_def)
      qed
      moreover have "n_vertices g' = n_vertices g" "n_edges g' = n_edges g" using u(3,4) by (simp_all add: g'_def g2_def)
      ultimately show ?thesis unfolding dropped_def using act u(7-10) by (simp add: er' fun_eq_iff)
    qed
    ultimately show ?case using rel that by blast
  qed
qed

section \<open>Growing a pool\<close>

lemma next_capacity_le: "cap \<le> DV_GRAPH_MAX_CAPACITY \<Longrightarrow> dv_graph_next_capacity cap \<le> DV_GRAPH_MAX_CAPACITY"
proof (cases "cap < DV_GRAPH_MIN_CAPACITY \<or> cap > DV_GRAPH_MAX_CAPACITY - cap div 2")
  case True
  then show ?thesis
    by (auto simp: dv_graph_next_capacity_def Let_def DV_GRAPH_MIN_CAPACITY_def DV_GRAPH_MAX_CAPACITY_def)
next
  case False
  assume c: "cap \<le> DV_GRAPH_MAX_CAPACITY"
  have h: "unat (cap div 2) = unat cap div 2" by (simp add: unat_div)
  have le: "cap div 2 \<le> DV_GRAPH_MAX_CAPACITY" using c h by (simp add: word_le_nat_alt)
  have "unat (DV_GRAPH_MAX_CAPACITY - cap div 2) = max_cap - unat cap div 2" using le h by (simp add: unat_sub)
  then have u: "unat cap + unat cap div 2 \<le> max_cap" using False h le by (auto simp: word_le_nat_alt word_less_nat_alt)
  then have "unat (cap + cap div 2) = unat cap + unat cap div 2" using h by (simp add: unat_word_ariths)
  then show ?thesis using False u by (auto simp: dv_graph_next_capacity_def Let_def word_le_nat_alt)
qed

lemma grown_policy:
  "cap_policy cap initial ceiling \<Longrightarrow> cap_policy (dv_graph_clamp_capacity (dv_graph_next_capacity cap) ceiling) initial ceiling"
  using next_capacity_le [of cap] by (auto simp: cap_policy_def dv_graph_clamp_capacity_def)

lemma graph_policy:
  "graph_mem g \<Longrightarrow> cap_policy (gr_vertex_capacity g) (gr_initial_vertex_capacity g) (gr_max_vertex_capacity g)"
  "graph_mem g \<Longrightarrow> cap_policy (gr_edge_capacity g) (gr_initial_edge_capacity g) (gr_max_edge_capacity g)"
  "graph_mem g \<Longrightarrow> gr_vertex_watermark g \<le> gr_vertex_capacity g"
  "graph_mem g \<Longrightarrow> gr_edge_watermark g \<le> gr_edge_capacity g"
  by (simp_all add: graph_mem_def)

abbreviation growth_status :: "dv_graph_status_t set" where
  "growth_status \<equiv> {DV_GRAPH_OK, DV_GRAPH_ERR_FULL, DV_GRAPH_ERR_NOMEM}"

lemma grow_vertices_ok:
  assumes mem: "graph_mem g"
  obtains st g' w' where "dv_graph_grow_vertices g w = Some (st, g', w')" "graph_mem g'" "same_content g g'"
    "st \<in> growth_status" "st = DV_GRAPH_OK \<Longrightarrow> gr_vertex_capacity g < gr_vertex_capacity g'"
proof -
  let ?n = "dv_graph_clamp_capacity (dv_graph_next_capacity (gr_vertex_capacity g)) (gr_max_vertex_capacity g)"
  show thesis
  proof (cases "\<not> gr_growable g \<or> ?n \<le> gr_vertex_capacity g")
    case True
    then show thesis using mem by (intro that [of DV_GRAPH_ERR_FULL g w]) (auto simp: dv_graph_grow_vertices_def Let_def)
  next
    case False
    then have "gr_vertex_watermark g \<le> ?n" using graph_policy(3) [OF mem] by (meson le_cases order.trans)
    from set_vertex_capacity_ok [OF mem this grown_policy [OF graph_policy(1) [OF mem]], of w]
    show thesis using that False by (fastforce simp: dv_graph_grow_vertices_def Let_def recapped_def)
  qed
qed

lemma grow_edges_ok:
  assumes mem: "graph_mem g"
  obtains st g' w' where "dv_graph_grow_edges g w = Some (st, g', w')" "graph_mem g'" "same_content g g'"
    "st \<in> growth_status" "st = DV_GRAPH_OK \<Longrightarrow> gr_edge_capacity g < gr_edge_capacity g'"
proof -
  let ?n = "dv_graph_clamp_capacity (dv_graph_next_capacity (gr_edge_capacity g)) (gr_max_edge_capacity g)"
  show thesis
  proof (cases "\<not> gr_growable g \<or> ?n \<le> gr_edge_capacity g")
    case True
    then show thesis using mem by (intro that [of DV_GRAPH_ERR_FULL g w]) (auto simp: dv_graph_grow_edges_def Let_def)
  next
    case False
    then have "gr_edge_watermark g \<le> ?n" using graph_policy(4) [OF mem] by (meson le_cases order.trans)
    from set_edge_capacity_ok [OF mem this grown_policy [OF graph_policy(2) [OF mem]], of w]
    show thesis using that False by (fastforce simp: dv_graph_grow_edges_def Let_def recapped_def)
  qed
qed

subsection \<open>Content under a capacity change\<close>

lemma same_content_views:
  assumes "same_content g g'"
  shows "v < gr_vertex_watermark g \<Longrightarrow> vr g' v = vr g v" "e < gr_edge_watermark g \<Longrightarrow> er g' e = er g e"
proof -
  have nt: "xs ! i = ys ! i" if "take n xs = take n ys" "i < n" for xs ys :: "'z list" and i n
    using that by (metis nth_take)
  show "vr g' v = vr g v" if "v < gr_vertex_watermark g" using assms that
    unfolding same_content_def vr_def by (auto simp: word_less_nat_alt intro: nt)
  show "er g' e = er g e" if "e < gr_edge_watermark g" using assms that
    unfolding same_content_def er_def by (auto simp: word_less_nat_alt intro: nt)
qed

lemma vertex_part_agree:
  assumes "vertex_part vs n free VF PV" "\<And>v. v < n \<Longrightarrow> vs' v = vs v"
  shows "vertex_part vs' n free VF PV"
proof -
  note p = vertex_partD [OF assms(1)]
  have "chain (\<lambda>v. out_head (vs' v)) free VF NIL = chain (\<lambda>v. out_head (vs v)) free VF NIL"
    using p(3) assms(2) by (intro chain_cong) auto
  moreover have "v_active (vs' v) = v_active (vs v)" if "v < n" for v using assms(2) that by simp
  moreover have "v_generation (vs' v) = v_generation (vs v)" if "v < n" for v using assms(2) that by simp
  ultimately show ?thesis using assms(1) unfolding vertex_part_def by auto
qed

lemma edge_part_agree:
  assumes "edge_part es n free L EF PE" "\<And>e. e < n \<Longrightarrow> es' e = es e"
  shows "edge_part es' n free L EF PE"
proof -
  note p = edge_partD [OF assms(1)]
  have "chain (\<lambda>v. next_out (es' v)) free EF NIL = chain (\<lambda>v. next_out (es v)) free EF NIL"
    using p(3) assms(2) by (intro chain_cong) auto
  moreover have "e_active (es' v) = e_active (es v)" if "v < n" for v using assms(2) that by simp
  moreover have "e_generation (es' v) = e_generation (es v)" if "v < n" for v using assms(2) that by simp
  ultimately show ?thesis using assms(1) unfolding edge_part_def by auto
qed

lemma link_part_agree:
  assumes "link_part es vs S L" "\<And>v. v \<in> S \<Longrightarrow> vs' v = vs v" "\<And>e. e \<in> set L \<Longrightarrow> es' e = es e"
  shows "link_part es' vs' S L"
proof -
  note p = link_partD [OF assms(1)]
  have "inc_lists (\<lambda>e. e_src (es' e)) (\<lambda>e. next_out (es' e)) (\<lambda>e. prev_out (es' e))
       (\<lambda>v. out_head (vs' v)) (\<lambda>v. out_tail (vs' v)) (\<lambda>v. out_degree (vs' v)) S L"
    using p(3) assms(2,3) by (subst inc_lists_cong) auto
  moreover have "inc_lists (\<lambda>e. e_dst (es' e)) (\<lambda>e. next_in (es' e)) (\<lambda>e. prev_in (es' e))
       (\<lambda>v. in_head (vs' v)) (\<lambda>v. in_tail (vs' v)) (\<lambda>v. in_degree (vs' v)) S L"
    using p(4) assms(2,3) by (subst inc_lists_cong) auto
  ultimately show ?thesis using p(1,2) assms(3) by (simp add: link_part_def)
qed

lemma wf_same_content:
  assumes wf: "wf_gen g L VF EF PV PE" and sc: "same_content g g'" and mem: "graph_mem g'"
  shows "wf_gen g' L VF EF PV PE"
proof -
  note D = wf_genD [OF wf] and f = same_contentD [OF sc] and vw = same_content_views [OF sc]
  have lv: "live g' PV = live g PV" using vw(1) by (auto simp: live_def live_in_def f)
  have "vertex_part (vr g') (gr_vertex_watermark g') (gr_vertex_free g') VF PV"
    unfolding f by (rule vertex_part_agree [OF D(2)]) (rule vw)
  moreover have "edge_part (er g') (gr_edge_watermark g') (gr_edge_free g') L EF PE"
    unfolding f by (rule edge_part_agree [OF D(3)]) (rule vw)
  moreover have "link_part (er g') (vr g') (live g' PV) L"
    unfolding lv using vw edge_partD(5) [OF D(3)] by (intro link_part_agree [OF D(4)]) (auto simp: live_def live_in_def)
  ultimately show ?thesis using mem D(5,6) by (simp add: wf_gen_def f)
qed

section \<open>Taking a slot\<close>

lemma less_Suc_word: "n < m \<Longrightarrow> (x < n + 1) = (x < n \<or> x = n)" for n m x :: "'a::len word"
  using unat_Suc_word [of n m] by (auto simp: word_less_nat_alt word_unat_eq_iff)

lemma edge_part_pop:
  assumes "edge_part es n i L (i # EF) {}" shows "edge_part es n (next_out (es i)) L EF {i}" "i < n" "\<not> e_active (es i)"
proof -
  note p = edge_partD [OF assms]
  show a: "i < n" "\<not> e_active (es i)" using p(3) [of i] by simp_all
  have "e \<in> set EF \<longleftrightarrow> e < n \<and> \<not> e_active (es e) \<and> e \<notin> {i}" for e using p(2) p(3) [of e] by auto
  moreover have "e \<in> set L \<longleftrightarrow> e < n \<and> e_active (es e) \<and> e \<notin> {i}" for e using p(5) [of e] a by auto
  ultimately show "edge_part es n (next_out (es i)) L EF {i}" using p(1,2,4,6) a by (simp add: edge_part_def)
qed

lemma edge_part_fresh:
  assumes "edge_part es n NIL L [] {}" "n < m" "\<And>e. e < n \<Longrightarrow> es' e = es e" "e_generation (es' n) \<noteq> 0"
  shows "edge_part es' (n + 1) NIL L [] {n}"
proof -
  have p: "edge_part es' n NIL L [] {}" by (rule edge_part_agree [OF assms(1,3)])
  note q = edge_partD [OF p]
  have "e \<in> set [] \<longleftrightarrow> e < n + 1 \<and> \<not> e_active (es' e) \<and> e \<notin> {n}" for e
    using q(3) [of e] less_Suc_word [OF assms(2)] by auto
  moreover have "e \<in> set L \<longleftrightarrow> e < n + 1 \<and> e_active (es' e) \<and> e \<notin> {n}" for e
    using q(5) [of e] less_Suc_word [OF assms(2)] by auto
  moreover have "e_generation (es' e) \<noteq> 0" if "e < n + 1" for e
    using that q(6) assms(4) less_Suc_word [OF assms(2)] by auto
  ultimately show ?thesis using q(1,4) less_Suc_word [OF assms(2)] by (simp add: edge_part_def)
qed

lemma vertex_part_pop:
  assumes "vertex_part vs n i (i # VF) {}" shows "vertex_part vs n (out_head (vs i)) VF {i}" "i < n" "\<not> v_active (vs i)"
proof -
  note p = vertex_partD [OF assms]
  show a: "i < n" "\<not> v_active (vs i)" using p(3) [of i] by simp_all
  have "e \<in> set VF \<longleftrightarrow> e < n \<and> \<not> v_active (vs e) \<and> e \<notin> {i}" for e using p(2) p(3) [of e] by auto
  then show "vertex_part vs n (out_head (vs i)) VF {i}" using p(1,2,4) a by (simp add: vertex_part_def)
qed

lemma vertex_part_fresh:
  assumes "vertex_part vs n NIL [] {}" "n < m" "\<And>e. e < n \<Longrightarrow> vs' e = vs e" "v_generation (vs' n) \<noteq> 0"
  shows "vertex_part vs' (n + 1) NIL [] {n}"
proof -
  have p: "vertex_part vs' n NIL [] {}" by (rule vertex_part_agree [OF assms(1,3)])
  note q = vertex_partD [OF p]
  have "e \<in> set [] \<longleftrightarrow> e < n + 1 \<and> \<not> v_active (vs' e) \<and> e \<notin> {n}" for e
    using q(3) [of e] less_Suc_word [OF assms(2)] by auto
  moreover have "v_generation (vs' e) \<noteq> 0" if "e < n + 1" for e
    using that q(4) assms(4) less_Suc_word [OF assms(2)] by auto
  ultimately show ?thesis using q(1) less_Suc_word [OF assms(2)] by (simp add: vertex_part_def)
qed

text \<open>
  The graph with slot \<open>i\<close> of a pool taken: a recycled slot keeps its record, a fresh one starts at
  generation 1, and every other slot in use is as it was.
\<close>

definition took_edge :: "'w dv_graph_t \<Rightarrow> u32 \<Rightarrow> 'w dv_graph_t \<Rightarrow> bool" where
  "took_edge g i g' \<longleftrightarrow>
     graph_core g' = (graph_core g)\<lparr>gr_edge_free := gr_edge_free g', gr_edge_watermark := gr_edge_watermark g'\<rparr> \<and>
     (\<forall>v < gr_vertex_watermark g. vr g' v = vr g v) \<and> (\<forall>e < gr_edge_watermark g. er g' e = er g e) \<and>
     take (unat (gr_edge_watermark g)) (items (gr_weights g')) = take (unat (gr_edge_watermark g)) (items (gr_weights g)) \<and>
     (if i < gr_edge_watermark g then \<not> e_active (er g i) else i = gr_edge_watermark g \<and> e_generation (er g' i) = 1) \<and>
     gr_edge_watermark g \<le> gr_edge_watermark g'"

definition took_vertex :: "'w dv_graph_t \<Rightarrow> u32 \<Rightarrow> 'w dv_graph_t \<Rightarrow> bool" where
  "took_vertex g i g' \<longleftrightarrow>
     graph_core g' = (graph_core g)\<lparr>gr_vertex_free := gr_vertex_free g', gr_vertex_watermark := gr_vertex_watermark g'\<rparr> \<and>
     (\<forall>v < gr_vertex_watermark g. vr g' v = vr g v) \<and> (\<forall>e < gr_edge_watermark g. er g' e = er g e) \<and>
     take (unat (gr_edge_watermark g)) (items (gr_weights g')) = take (unat (gr_edge_watermark g)) (items (gr_weights g)) \<and>
     (if i < gr_vertex_watermark g then \<not> v_active (vr g i) \<and> gr_vertex_watermark g' = gr_vertex_watermark g
      else i = gr_vertex_watermark g \<and> v_generation (vr g' i) = 1 \<and> gr_vertex_watermark g' = gr_vertex_watermark g + 1 \<and>
        gr_vertex_watermark g < gr_vertex_watermark g')"

text \<open>Nothing that a handle is checked against changes in the slots in use: what an insertion keeps.\<close>

definition slots_kept :: "'w dv_graph_t \<Rightarrow> 'w dv_graph_t \<Rightarrow> bool" where
  "slots_kept g g' \<longleftrightarrow> gr_vertex_watermark g \<le> gr_vertex_watermark g' \<and> gr_edge_watermark g \<le> gr_edge_watermark g' \<and>
     (\<forall>v < gr_vertex_watermark g. v_generation (vr g' v) = v_generation (vr g v)) \<and>
     (\<forall>e < gr_edge_watermark g. e_generation (er g' e) = e_generation (er g e))"

lemma slots_kept_refl [simp]: "slots_kept g g"
  by (simp add: slots_kept_def)

lemma slots_kept_trans: "slots_kept g g1 \<Longrightarrow> slots_kept g1 g2 \<Longrightarrow> slots_kept g g2"
  by (auto simp: slots_kept_def)

lemma slots_kept_content: "same_content g g' \<Longrightarrow> slots_kept g g'"
  by (simp add: slots_kept_def same_contentD same_content_views)

lemma slots_kept_took:
  "took_edge g i g' \<Longrightarrow> slots_kept g g'" "took_vertex g i g' \<Longrightarrow> slots_kept g g'"
proof -
  assume t: "took_edge g i g'"
  then have c: "graph_core g' = (graph_core g)\<lparr>gr_edge_free := gr_edge_free g', gr_edge_watermark := gr_edge_watermark g'\<rparr>"
    by (simp add: took_edge_def)
  have "gr_vertex_watermark g' = gr_vertex_watermark g" using arg_cong [OF c, of gr_vertex_watermark] by simp
  then show "slots_kept g g'" using t by (simp add: slots_kept_def took_edge_def)
next
  assume t: "took_vertex g i g'"
  then have c: "graph_core g' = (graph_core g)\<lparr>gr_vertex_free := gr_vertex_free g', gr_vertex_watermark := gr_vertex_watermark g'\<rparr>"
    by (simp add: took_vertex_def)
  have "gr_edge_watermark g' = gr_edge_watermark g" using arg_cong [OF c, of gr_edge_watermark] by simp
  moreover have "gr_vertex_watermark g \<le> gr_vertex_watermark g'" using t by (auto simp: took_vertex_def split: if_splits)
  ultimately show "slots_kept g g'" using t by (simp add: slots_kept_def took_vertex_def)
qed

text \<open>The fresh slot of a pool with room.\<close>

lemma take_fresh_edge:
  assumes wf: "wf_gen g L VF [] PV {}" and room: "gr_edge_watermark g < gr_edge_capacity g" and nil: "gr_edge_free g = NIL"
  obtains g' where "put_erec (g\<lparr>gr_edge_watermark := gr_edge_watermark g + 1\<rparr>) (gr_edge_watermark g) (\<lambda>e. e\<lparr>e_generation := 1\<rparr>) = Some g'"
    "wf_gen g' L VF [] PV {gr_edge_watermark g}" "took_edge g (gr_edge_watermark g) g'"
proof -
  let ?i = "gr_edge_watermark g" and ?g = "g\<lparr>gr_edge_watermark := gr_edge_watermark g + 1\<rparr>"
  define g' where "g' = upd_e ?g ?i (\<lambda>e. e\<lparr>e_generation := 1\<rparr>)"
  note D = wf_genD [OF wf]
  have i: "unat ?i < n_edges ?g" using graph_mem_facts(5) [OF D(1)] room by (simp add: sized_def word_less_nat_alt)
  have er': "er g' = (er g)(?i := (er g ?i)\<lparr>e_generation := 1\<rparr>)" and vr': "vr g' = vr g"
    using i by (simp_all add: g'_def er_upd_e)
  have f: "gr_edge_watermark g' = ?i + 1" "gr_edge_free g' = gr_edge_free g" "gr_vertex_watermark g' = gr_vertex_watermark g"
    "gr_vertex_free g' = gr_vertex_free g" "gr_vertex_count g' = gr_vertex_count g" "gr_edge_count g' = gr_edge_count g"
    "gr_weights g' = gr_weights g" by (simp_all add: g'_def)
  have "?i + 1 \<le> gr_edge_capacity g" and up: "?i \<le> ?i + 1"
    using unat_Suc_word [of ?i "gr_edge_capacity g"] room by (simp_all add: word_less_nat_alt word_le_nat_alt)
  then have "graph_mem ?g" using D(1) by (simp add: graph_mem_def)
  then have mem: "graph_mem g'" by (rule graph_mem_pools) (simp_all add: g'_def upd_e_def items_set_items)
  have "edge_part (er g') (?i + 1) NIL L [] {?i}"
    using D(3) room nil er' by (intro edge_part_fresh [of "er g" ?i L "gr_edge_capacity g"]) auto
  moreover have lv: "live g' PV = live g PV" by (simp add: live_def f vr')
  have iL: "?i \<notin> set L" using edge_partD(5) [OF D(3), of ?i] by simp
  have "link_part (er g') (vr g') (live g' PV) L"
    unfolding lv using D(4) by (rule link_part_agree) (use iL in \<open>auto simp: er' vr'\<close>)
  ultimately have "wf_gen g' L VF [] PV {?i}" using mem D(2,5,6) nil by (simp add: wf_gen_def f vr')
  moreover have "graph_core g' = (graph_core g)\<lparr>gr_edge_free := gr_edge_free g', gr_edge_watermark := gr_edge_watermark g'\<rparr>"
    by (simp add: g'_def graph_core_def upd_e_def)
  then have "took_edge g ?i g'" unfolding took_edge_def f(1,7) using er' vr' up by simp
  moreover have "put_erec ?g ?i (\<lambda>e. e\<lparr>e_generation := 1\<rparr>) = Some g'" unfolding g'_def by (rule put_erec_in [OF i])
  ultimately show thesis using that by blast
qed

lemma take_fresh_vertex:
  assumes wf: "wf_gen g L [] EF {} PE" and room: "gr_vertex_watermark g < gr_vertex_capacity g" and nil: "gr_vertex_free g = NIL"
  obtains g' where "put_vrec (g\<lparr>gr_vertex_watermark := gr_vertex_watermark g + 1\<rparr>) (gr_vertex_watermark g) (\<lambda>e. e\<lparr>v_generation := 1\<rparr>) = Some g'"
    "wf_gen g' L [] EF {gr_vertex_watermark g} PE" "took_vertex g (gr_vertex_watermark g) g'"
proof -
  let ?i = "gr_vertex_watermark g" and ?g = "g\<lparr>gr_vertex_watermark := gr_vertex_watermark g + 1\<rparr>"
  define g' where "g' = upd_v ?g ?i (\<lambda>e. e\<lparr>v_generation := 1\<rparr>)"
  note D = wf_genD [OF wf]
  have i: "unat ?i < n_vertices ?g" using graph_mem_facts(4) [OF D(1)] room by (simp add: sized_def word_less_nat_alt)
  have vr': "vr g' = (vr g)(?i := (vr g ?i)\<lparr>v_generation := 1\<rparr>)" and er': "er g' = er g"
    using i by (simp_all add: g'_def vr_upd_v)
  have f: "gr_vertex_watermark g' = ?i + 1" "gr_edge_free g' = gr_edge_free g" "gr_edge_watermark g' = gr_edge_watermark g"
    "gr_vertex_free g' = gr_vertex_free g" "gr_vertex_count g' = gr_vertex_count g" "gr_edge_count g' = gr_edge_count g"
    "gr_weights g' = gr_weights g" by (simp_all add: g'_def)
  have s: "unat (?i + 1) = Suc (unat ?i)"
    using unat_Suc_word [of ?i "gr_vertex_capacity g"] room by (simp add: word_less_nat_alt)
  then have "?i + 1 \<le> gr_vertex_capacity g" using room by (simp add: word_less_nat_alt word_le_nat_alt)
  then have "graph_mem ?g" using D(1) by (simp add: graph_mem_def)
  then have mem: "graph_mem g'" by (rule graph_mem_pools) (simp_all add: g'_def upd_v_def items_set_items)
  have vp: "vertex_part (vr g') (?i + 1) NIL [] {?i}"
    using D(2) room nil vr' by (intro vertex_part_fresh [of "vr g" ?i "gr_vertex_capacity g"]) auto
  have lv: "live g' {?i} = live g {}"
    using less_Suc_word [OF room] by (auto simp: live_def live_in_def vr' f)
  have "link_part (er g') (vr g') (live g' {?i}) L"
    unfolding lv using D(4) by (rule link_part_agree) (auto simp: er' vr' live_def live_in_def)
  then have "wf_gen g' L [] EF {?i} PE" using mem vp D(3,5,6) nil s by (simp add: wf_gen_def f er')
  moreover have "graph_core g' = (graph_core g)\<lparr>gr_vertex_free := gr_vertex_free g', gr_vertex_watermark := gr_vertex_watermark g'\<rparr>"
    by (simp add: g'_def graph_core_def upd_v_def)
  then have "took_vertex g ?i g'" unfolding took_vertex_def f(7) using er' vr' s by (simp add: f(1) word_less_nat_alt)
  moreover have "put_vrec ?g ?i (\<lambda>e. e\<lparr>v_generation := 1\<rparr>) = Some g'" unfolding g'_def by (rule put_vrec_in [OF i])
  ultimately show thesis using that by blast
qed

end
