(* ===== verification/Dv_Graph_Api.thy ===== *)
theory Dv_Graph_Api
  imports Dv_Graph
begin

text \<open>
  The public operations of the graph that change it or look things up: lifecycle, update phase,
  vertices, edges, weights, degrees, capacity and bulk insertion (\<open>src/graph/dv_graph.c\<close>). A null
  graph or out pointer is \<open>None\<close>; an out parameter is returned as the value left behind it.
\<close>

section \<open>Lifecycle\<close>

definition graph_select_hooks :: "'w libc \<Rightarrow> 'w hooks option \<Rightarrow> 'w hooks option" where
  "graph_select_hooks L allocator =
     (case allocator of
        Some a \<Rightarrow> if hk_alloc a = None \<or> hk_free a = None then None else Some a
      | None \<Rightarrow> Some (dv_graph_default_allocator L))"

definition graph_align :: "dv_graph_config_t \<Rightarrow> size_t" where
  "graph_align c = (if gcf_cache_aligned c \<and> alignof_max_align_t < DV_CACHE_LINE_SIZE
                    then DV_CACHE_LINE_SIZE else alignof_max_align_t)"

definition graph_configured :: "dv_graph_config_t \<Rightarrow> 'w hooks \<Rightarrow> 'w dv_graph_t" where
  "graph_configured c hk = zero_graph\<lparr>
     gr_version := 1,
     gr_vertex_free := DV_GRAPH_INVALID_INDEX,
     gr_edge_free := DV_GRAPH_INVALID_INDEX,
     gr_align := graph_align c,
     gr_initial_vertex_capacity := gcf_initial_vertex_capacity c,
     gr_initial_edge_capacity := gcf_initial_edge_capacity c,
     gr_max_vertex_capacity := (if \<not> gcf_growable c then gcf_initial_vertex_capacity c else gcf_max_vertex_capacity c),
     gr_max_edge_capacity := (if \<not> gcf_growable c then gcf_initial_edge_capacity c else gcf_max_edge_capacity c),
     gr_allocator := hk,
     gr_directed := gcf_directed c,
     gr_weighted := gcf_weighted c,
     gr_growable := gcf_growable c,
     gr_cache_aligned := gcf_cache_aligned c,
     gr_reject_parallel_edges := gcf_reject_parallel_edges c,
     gr_reject_self_loops := gcf_reject_self_loops c\<rparr>"

text \<open>The status the configuration checks of \<open>dv_graph_init\<close> answer, in their order.\<close>

definition graph_config_status :: "dv_graph_config_t \<Rightarrow> dv_graph_status_t" where
  "graph_config_status c =
     (if gcf_initial_vertex_capacity c > DV_GRAPH_MAX_CAPACITY \<or>
         gcf_initial_edge_capacity c > DV_GRAPH_MAX_CAPACITY \<or>
         gcf_max_vertex_capacity c > DV_GRAPH_MAX_CAPACITY \<or>
         gcf_max_edge_capacity c > DV_GRAPH_MAX_CAPACITY then DV_GRAPH_ERR_OVERFLOW
      else if gcf_growable c \<and> gcf_max_vertex_capacity c \<noteq> 0 \<and>
         gcf_max_vertex_capacity c < gcf_initial_vertex_capacity c then DV_GRAPH_ERR_INVALID
      else if gcf_growable c \<and> gcf_max_edge_capacity c \<noteq> 0 \<and>
         gcf_max_edge_capacity c < gcf_initial_edge_capacity c then DV_GRAPH_ERR_INVALID
      else DV_GRAPH_OK)"

definition free_pool ::
  "'w dv_graph_t \<Rightarrow> ('a \<Rightarrow> byte list) \<Rightarrow> 'a array option \<Rightarrow> u32 \<Rightarrow> size_t \<Rightarrow> 'w \<Rightarrow> 'w option"
where
  "free_pool g enc p cap es w = (case dv_graph_bytes_for cap es of
     Inl _ \<Rightarrow> Some w
   | Inr bytes \<Rightarrow> free_block g enc p bytes w)"

fun dv_graph_destroy :: "'w dv_graph_t option \<Rightarrow> 'w \<Rightarrow> ('w dv_graph_t option \<times> 'w) option" where
  "dv_graph_destroy None w = Some (None, w)"
| "dv_graph_destroy (Some g) w = do {
     w1 \<leftarrow> (if hk_free (gr_allocator g) \<noteq> None then do {
              w1 \<leftarrow> free_pool g vertex_bytes (gr_vertices g) (gr_vertex_capacity g) sizeof_rec w;
              w2 \<leftarrow> free_pool g edge_bytes (gr_edges g) (gr_edge_capacity g) sizeof_rec w1;
              w3 \<leftarrow> free_pool g (le_bytes 8) (gr_weights g) (gr_weight_capacity g) 8 w2;
              (_, w4) \<leftarrow> dv_graph_free_scratch g w3;
              Some w4 }
            else Some w);
     Some (Some zero_graph, w1) }"

text \<open>The allocations of \<open>dv_graph_init\<close>: each runs only if the one before succeeded.\<close>

definition graph_allocate :: "'w dv_graph_t \<Rightarrow> dv_graph_config_t \<Rightarrow> 'w \<Rightarrow> 'w graph_result" where
  "graph_allocate g c w = do {
     (s1, g1, w1) \<leftarrow> dv_graph_set_vertex_capacity g (gcf_initial_vertex_capacity c) w;
     (s2, g2, w2) \<leftarrow> (if s1 = DV_GRAPH_OK then dv_graph_set_edge_capacity g1 (gcf_initial_edge_capacity c) w1
                       else Some (s1, g1, w1));
     (if s2 = DV_GRAPH_OK \<and> \<not> gr_growable g2 then dv_graph_ensure_scratch g2 w2
      else Some (s2, g2, w2)) }"

fun dv_graph_init ::
  "'w libc \<Rightarrow> 'w dv_graph_t option \<Rightarrow> dv_graph_config_t option \<Rightarrow> 'w hooks option \<Rightarrow> 'w \<Rightarrow> 'w graph_call"
where
  "dv_graph_init L None config allocator w = Some (DV_GRAPH_ERR_INVALID, None, w)"
| "dv_graph_init L (Some g) None allocator w = Some (DV_GRAPH_ERR_INVALID, Some zero_graph, w)"
| "dv_graph_init L (Some g) (Some c) allocator w =
     (if graph_config_status c \<noteq> DV_GRAPH_OK then Some (graph_config_status c, Some zero_graph, w)
      else case graph_select_hooks L allocator of
        None \<Rightarrow> Some (DV_GRAPH_ERR_INVALID, Some zero_graph, w)
      | Some hk \<Rightarrow> do {
          (status, g1, w1) \<leftarrow> graph_allocate (graph_configured c hk) c w;
          (if status \<noteq> DV_GRAPH_OK then do {
             (g2, w2) \<leftarrow> dv_graph_destroy (Some g1) w1;
             Some (status, g2, w2) }
           else Some (DV_GRAPH_OK, Some g1, w1)) })"

function clear_edges :: "u32 \<Rightarrow> 'w dv_graph_t \<Rightarrow> u32 \<Rightarrow> 'w dv_graph_t option" where
  "clear_edges n g i =
     (if i < n then do {
        g1 \<leftarrow> put_erec g i (\<lambda>e. e\<lparr>
                e_generation := (if e_active e then dv_graph_bump (e_generation e) else e_generation e),
                e_active := False,
                next_out := (if i + 1 = n then DV_GRAPH_INVALID_INDEX else i + 1)\<rparr>);
        clear_edges n g1 (i + 1) }
      else Some g)"
  by pat_completeness auto
termination
  by (relation "measure (\<lambda>(n, g, i). unat n - unat i)")
    (auto simp: unat_Suc_word word_less_nat_alt intro!: diff_less_mono2)

function clear_vertices :: "u32 \<Rightarrow> 'w dv_graph_t \<Rightarrow> u32 \<Rightarrow> 'w dv_graph_t option" where
  "clear_vertices n g i =
     (if i < n then do {
        g1 \<leftarrow> put_vrec g i (\<lambda>v. v\<lparr>
                v_generation := (if v_active v then dv_graph_bump (v_generation v) else v_generation v),
                v_active := False,
                out_tail := DV_GRAPH_INVALID_INDEX,
                in_head := DV_GRAPH_INVALID_INDEX,
                in_tail := DV_GRAPH_INVALID_INDEX,
                out_degree := 0,
                in_degree := 0,
                out_head := (if i + 1 = n then DV_GRAPH_INVALID_INDEX else i + 1)\<rparr>);
        clear_vertices n g1 (i + 1) }
      else Some g)"
  by pat_completeness auto
termination
  by (relation "measure (\<lambda>(n, g, i). unat n - unat i)")
    (auto simp: unat_Suc_word word_less_nat_alt intro!: diff_less_mono2)

fun dv_graph_clear :: "'w dv_graph_t option \<Rightarrow> 'w dv_graph_t option option" where
  "dv_graph_clear None = Some None"
| "dv_graph_clear (Some g) = do {
     g1 \<leftarrow> clear_edges (gr_edge_watermark g) g 0;
     let g2 = g1\<lparr>gr_edge_free := (if gr_edge_watermark g1 = 0 then DV_GRAPH_INVALID_INDEX else 0),
                 gr_edge_count := 0\<rparr>
     in do {
       g3 \<leftarrow> clear_vertices (gr_vertex_watermark g2) g2 0;
       Some (Some (dv_graph_touch
         (g3\<lparr>gr_vertex_free := (if gr_vertex_watermark g3 = 0 then DV_GRAPH_INVALID_INDEX else 0),
             gr_vertex_count := 0\<rparr>))) } }"

fun dv_graph_reset :: "'w dv_graph_t option \<Rightarrow> 'w \<Rightarrow> 'w graph_call" where
  "dv_graph_reset None w = Some (DV_GRAPH_ERR_INVALID, None, w)"
| "dv_graph_reset (Some g) w = do {
     let g1 = g\<lparr>gr_vertex_watermark := 0, gr_edge_watermark := 0,
       gr_vertex_free := DV_GRAPH_INVALID_INDEX, gr_edge_free := DV_GRAPH_INVALID_INDEX,
       gr_vertex_count := 0, gr_edge_count := 0, gr_in_update := False, gr_update_dirty := False,
       gr_version := gr_version g + 1\<rparr>
     in do {
       (status, g2, w2) \<leftarrow> dv_graph_set_vertex_capacity g1 (gr_initial_vertex_capacity g1) w;
       (edge_status, g3, w3) \<leftarrow> dv_graph_set_edge_capacity g2 (gr_initial_edge_capacity g2) w2;
       Some (if status = DV_GRAPH_OK then edge_status else status, Some g3, w3) } }"

section \<open>Update phase\<close>

fun dv_graph_begin_update :: "'w dv_graph_t option \<Rightarrow> dv_graph_status_t \<times> 'w dv_graph_t option" where
  "dv_graph_begin_update None = (DV_GRAPH_ERR_INVALID, None)"
| "dv_graph_begin_update (Some g) =
     (if gr_in_update g then (DV_GRAPH_ERR_INVALID, Some g)
      else (DV_GRAPH_OK, Some (g\<lparr>gr_in_update := True, gr_update_dirty := False\<rparr>)))"

fun dv_graph_commit_update :: "'w dv_graph_t option \<Rightarrow> dv_graph_status_t \<times> 'w dv_graph_t option" where
  "dv_graph_commit_update None = (DV_GRAPH_ERR_INVALID, None)"
| "dv_graph_commit_update (Some g) =
     (if \<not> gr_in_update g then (DV_GRAPH_ERR_INVALID, Some g)
      else let g1 = g\<lparr>gr_in_update := False\<rparr> in
        (DV_GRAPH_OK, Some (if gr_update_dirty g1
           then g1\<lparr>gr_update_dirty := False, gr_version := gr_version g1 + 1\<rparr> else g1)))"

section \<open>Vertices\<close>

text \<open>The handle is the value written through \<open>out\<close>, which is \<open>None\<close> on an error.\<close>

fun dv_graph_add_vertex ::
  "'w dv_graph_t option \<Rightarrow> 'w \<Rightarrow> (dv_graph_status_t \<times> 'w dv_graph_t option \<times> dv_vertex_t option \<times> 'w) option"
where
  "dv_graph_add_vertex None w = Some (DV_GRAPH_ERR_INVALID, None, None, w)"
| "dv_graph_add_vertex (Some g) w = do {
     (status, index, g1, w1) \<leftarrow> dv_graph_take_vertex g w;
     (if status \<noteq> DV_GRAPH_OK then Some (status, Some g1, None, w1)
      else do {
        g2 \<leftarrow> put_vrec g1 index (\<lambda>v. v\<lparr>out_head := DV_GRAPH_INVALID_INDEX,
                out_tail := DV_GRAPH_INVALID_INDEX, in_head := DV_GRAPH_INVALID_INDEX,
                in_tail := DV_GRAPH_INVALID_INDEX, out_degree := 0, in_degree := 0, v_active := True\<rparr>);
        let g3 = dv_graph_touch (g2\<lparr>gr_vertex_count := gr_vertex_count g2 + 1\<rparr>)
        in do {
          v \<leftarrow> vrec g3 index;
          Some (DV_GRAPH_OK, Some g3, Some \<lparr>vh_index = index, vh_generation = v_generation v\<rparr>, w1) } }) }"

text \<open>The two release loops of \<open>dv_graph_remove_vertex\<close>: the successor is read before the release.\<close>

partial_function (option) release_out :: "'w dv_graph_t \<Rightarrow> u32 \<Rightarrow> 'w dv_graph_t option" where
  "release_out g e =
     (if e = DV_GRAPH_INVALID_INDEX then Some g
      else do {
        r \<leftarrow> erec g e;
        g1 \<leftarrow> dv_graph_release_edge g e;
        release_out g1 (next_out r) })"

partial_function (option) release_in :: "'w dv_graph_t \<Rightarrow> u32 \<Rightarrow> 'w dv_graph_t option" where
  "release_in g e =
     (if e = DV_GRAPH_INVALID_INDEX then Some g
      else do {
        r \<leftarrow> erec g e;
        g1 \<leftarrow> dv_graph_release_edge g e;
        release_in g1 (next_in r) })"

declare release_out.simps [code] release_in.simps [code]

fun dv_graph_remove_vertex ::
  "'w dv_graph_t option \<Rightarrow> dv_vertex_t \<Rightarrow> (dv_graph_status_t \<times> 'w dv_graph_t option) option"
where
  "dv_graph_remove_vertex None vertex = Some (DV_GRAPH_ERR_INVALID, None)"
| "dv_graph_remove_vertex (Some g) vertex = do {
     live \<leftarrow> dv_graph_vertex_live g vertex;
     (if \<not> live then Some (DV_GRAPH_ERR_STALE, Some g)
      else do {
        v \<leftarrow> vrec g (vh_index vertex);
        g1 \<leftarrow> release_out g (out_head v);
        v1 \<leftarrow> vrec g1 (vh_index vertex);
        g2 \<leftarrow> release_in g1 (in_head v1);
        g3 \<leftarrow> put_vrec g2 (vh_index vertex) (\<lambda>v. v\<lparr>v_active := False,
                v_generation := dv_graph_bump (v_generation v), out_head := gr_vertex_free g2\<rparr>);
        Some (DV_GRAPH_OK, Some (dv_graph_touch
          (g3\<lparr>gr_vertex_free := vh_index vertex, gr_vertex_count := gr_vertex_count g3 - 1\<rparr>))) }) }"

fun dv_graph_vertex_valid :: "'w dv_graph_t option \<Rightarrow> dv_vertex_t \<Rightarrow> bool option" where
  "dv_graph_vertex_valid None vertex = Some False"
| "dv_graph_vertex_valid (Some g) vertex = dv_graph_vertex_live g vertex"

fun dv_graph_vertex_at :: "'w dv_graph_t option \<Rightarrow> u32 \<Rightarrow> dv_vertex_t option" where
  "dv_graph_vertex_at None index = Some dv_vertex_none"
| "dv_graph_vertex_at (Some g) index =
     (if index \<ge> gr_vertex_watermark g then Some dv_vertex_none
      else do {
        v \<leftarrow> vrec g index;
        Some (if v_active v then \<lparr>vh_index = index, vh_generation = v_generation v\<rparr> else dv_vertex_none) })"

section \<open>Edges\<close>

text \<open>The scans of \<open>dv_graph_locate_edge\<close>: along an out-list for a target, along an in-list for a source.\<close>

partial_function (option) scan_out :: "'w dv_graph_t \<Rightarrow> u32 \<Rightarrow> u32 \<Rightarrow> u32 option" where
  "scan_out g b e =
     (if e = DV_GRAPH_INVALID_INDEX then Some DV_GRAPH_INVALID_INDEX
      else do { r \<leftarrow> erec g e; if e_dst r = b then Some e else scan_out g b (next_out r) })"

partial_function (option) scan_in :: "'w dv_graph_t \<Rightarrow> u32 \<Rightarrow> u32 \<Rightarrow> u32 option" where
  "scan_in g a e =
     (if e = DV_GRAPH_INVALID_INDEX then Some DV_GRAPH_INVALID_INDEX
      else do { r \<leftarrow> erec g e; if e_src r = a then Some e else scan_in g a (next_in r) })"

declare scan_out.simps [code] scan_in.simps [code]

definition dv_graph_locate_edge :: "'w dv_graph_t \<Rightarrow> u32 \<Rightarrow> u32 \<Rightarrow> u32 option" where
  "dv_graph_locate_edge g a b = do {
     va \<leftarrow> vrec g a;
     vb \<leftarrow> vrec g b;
     (if gr_directed g
      then if out_degree va \<le> in_degree vb then scan_out g b (out_head va) else scan_in g a (in_head vb)
      else
        let deg_a = out_degree va + in_degree va;
            deg_b = out_degree vb + in_degree vb;
            from = (if deg_a \<le> deg_b then a else b);
            other = (if deg_a \<le> deg_b then b else a)
        in do {
          v \<leftarrow> vrec g from;
          e \<leftarrow> scan_out g other (out_head v);
          (if e \<noteq> DV_GRAPH_INVALID_INDEX then Some e else scan_in g other (in_head v)) }) }"

text \<open>The checks of \<open>dv_graph_add_edge\<close> before it takes a slot, in their order.\<close>

definition add_edge_status :: "'w dv_graph_t \<Rightarrow> dv_vertex_t \<Rightarrow> dv_vertex_t \<Rightarrow> dv_graph_status_t option" where
  "add_edge_status g src dst = do {
     ls \<leftarrow> dv_graph_vertex_live g src;
     ld \<leftarrow> (if ls then dv_graph_vertex_live g dst else Some False);
     (if \<not> ls \<or> \<not> ld then Some DV_GRAPH_ERR_STALE
      else if gr_reject_self_loops g \<and> vh_index src = vh_index dst then Some DV_GRAPH_ERR_INVALID
      else if gr_reject_parallel_edges g then do {
        e \<leftarrow> dv_graph_locate_edge g (vh_index src) (vh_index dst);
        Some (if e \<noteq> DV_GRAPH_INVALID_INDEX then DV_GRAPH_ERR_EXISTS else DV_GRAPH_OK) }
      else Some DV_GRAPH_OK) }"

definition put_weight :: "'w dv_graph_t \<Rightarrow> u32 \<Rightarrow> dbl \<Rightarrow> 'w dv_graph_t option" where
  "put_weight g index weight =
     (if gr_weights g = None then Some g
      else do { p \<leftarrow> arr_set (gr_weights g) (unat index) weight; Some (g\<lparr>gr_weights := p\<rparr>) })"

fun dv_graph_add_edge ::
  "'w dv_graph_t option \<Rightarrow> dv_vertex_t \<Rightarrow> dv_vertex_t \<Rightarrow> dbl \<Rightarrow> 'w \<Rightarrow>
     (dv_graph_status_t \<times> 'w dv_graph_t option \<times> dv_edge_t option \<times> 'w) option"
where
  "dv_graph_add_edge None src dst weight w = Some (DV_GRAPH_ERR_INVALID, None, None, w)"
| "dv_graph_add_edge (Some g) src dst weight w = do {
     check \<leftarrow> add_edge_status g src dst;
     (if check \<noteq> DV_GRAPH_OK then Some (check, Some g, None, w)
      else do {
        (status, index, g1, w1) \<leftarrow> dv_graph_take_edge g w;
        (if status \<noteq> DV_GRAPH_OK then Some (status, Some g1, None, w1)
         else do {
           g2 \<leftarrow> dv_graph_link_edge g1 index (vh_index src) (vh_index dst);
           g3 \<leftarrow> put_weight g2 index weight;
           let g4 = dv_graph_touch (g3\<lparr>gr_edge_count := gr_edge_count g3 + 1\<rparr>)
           in do {
             e \<leftarrow> erec g4 index;
             Some (DV_GRAPH_OK, Some g4, Some \<lparr>eh_index = index, eh_generation = e_generation e\<rparr>, w1) } }) }) }"

fun dv_graph_remove_edge ::
  "'w dv_graph_t option \<Rightarrow> dv_edge_t \<Rightarrow> (dv_graph_status_t \<times> 'w dv_graph_t option) option"
where
  "dv_graph_remove_edge None edge = Some (DV_GRAPH_ERR_INVALID, None)"
| "dv_graph_remove_edge (Some g) edge = do {
     live \<leftarrow> dv_graph_edge_live g edge;
     (if \<not> live then Some (DV_GRAPH_ERR_STALE, Some g)
      else do {
        g1 \<leftarrow> dv_graph_release_edge g (eh_index edge);
        Some (DV_GRAPH_OK, Some (dv_graph_touch g1)) }) }"

text \<open>The shared start of the functions that take two vertex handles.\<close>

definition both_live :: "'w dv_graph_t \<Rightarrow> dv_vertex_t \<Rightarrow> dv_vertex_t \<Rightarrow> bool option" where
  "both_live g src dst = do {
     ls \<leftarrow> dv_graph_vertex_live g src;
     if ls then dv_graph_vertex_live g dst else Some False }"

fun dv_graph_remove_edge_between ::
  "'w dv_graph_t option \<Rightarrow> dv_vertex_t \<Rightarrow> dv_vertex_t \<Rightarrow> (dv_graph_status_t \<times> 'w dv_graph_t option) option"
where
  "dv_graph_remove_edge_between None src dst = Some (DV_GRAPH_ERR_INVALID, None)"
| "dv_graph_remove_edge_between (Some g) src dst = do {
     live \<leftarrow> both_live g src dst;
     (if \<not> live then Some (DV_GRAPH_ERR_STALE, Some g)
      else do {
        index \<leftarrow> dv_graph_locate_edge g (vh_index src) (vh_index dst);
        (if index = DV_GRAPH_INVALID_INDEX then Some (DV_GRAPH_ERR_NOT_FOUND, Some g)
         else do {
           g1 \<leftarrow> dv_graph_release_edge g index;
           Some (DV_GRAPH_OK, Some (dv_graph_touch g1)) }) }) }"

fun dv_graph_edge_valid :: "'w dv_graph_t option \<Rightarrow> dv_edge_t \<Rightarrow> bool option" where
  "dv_graph_edge_valid None edge = Some False"
| "dv_graph_edge_valid (Some g) edge = dv_graph_edge_live g edge"

fun dv_graph_edge_at :: "'w dv_graph_t option \<Rightarrow> u32 \<Rightarrow> dv_edge_t option" where
  "dv_graph_edge_at None index = Some dv_edge_none"
| "dv_graph_edge_at (Some g) index =
     (if index \<ge> gr_edge_watermark g then Some dv_edge_none
      else do {
        e \<leftarrow> erec g index;
        Some (if e_active e then \<lparr>eh_index = index, eh_generation = e_generation e\<rparr> else dv_edge_none) })"

fun dv_graph_find_edge ::
  "'w dv_graph_t option \<Rightarrow> dv_vertex_t \<Rightarrow> dv_vertex_t \<Rightarrow> (dv_graph_status_t \<times> dv_edge_t option) option"
where
  "dv_graph_find_edge None src dst = Some (DV_GRAPH_ERR_INVALID, None)"
| "dv_graph_find_edge (Some g) src dst = do {
     live \<leftarrow> both_live g src dst;
     (if \<not> live then Some (DV_GRAPH_ERR_STALE, None)
      else do {
        index \<leftarrow> dv_graph_locate_edge g (vh_index src) (vh_index dst);
        (if index = DV_GRAPH_INVALID_INDEX then Some (DV_GRAPH_ERR_NOT_FOUND, None)
         else do {
           e \<leftarrow> erec g index;
           Some (DV_GRAPH_OK, Some \<lparr>eh_index = index, eh_generation = e_generation e\<rparr>) }) }) }"

definition dv_graph_has_edge :: "'w dv_graph_t option \<Rightarrow> dv_vertex_t \<Rightarrow> dv_vertex_t \<Rightarrow> bool option" where
  "dv_graph_has_edge g src dst = do { (status, _) \<leftarrow> dv_graph_find_edge g src dst; Some (status = DV_GRAPH_OK) }"

definition dv_graph_handle :: "'w dv_graph_t \<Rightarrow> u32 \<Rightarrow> dv_vertex_t option" where
  "dv_graph_handle g index = do {
     v \<leftarrow> vrec g index; Some \<lparr>vh_index = index, vh_generation = v_generation v\<rparr> }"

text \<open>The two handles written through \<open>src\<close> and \<open>dst\<close>.\<close>

fun dv_graph_edge_endpoints ::
  "'w dv_graph_t option \<Rightarrow> dv_edge_t \<Rightarrow> (dv_graph_status_t \<times> (dv_vertex_t \<times> dv_vertex_t) option) option"
where
  "dv_graph_edge_endpoints None edge = Some (DV_GRAPH_ERR_INVALID, None)"
| "dv_graph_edge_endpoints (Some g) edge = do {
     live \<leftarrow> dv_graph_edge_live g edge;
     (if \<not> live then Some (DV_GRAPH_ERR_STALE, None)
      else do {
        e \<leftarrow> erec g (eh_index edge);
        s \<leftarrow> dv_graph_handle g (e_src e);
        d \<leftarrow> dv_graph_handle g (e_dst e);
        Some (DV_GRAPH_OK, Some (s, d)) }) }"

fun dv_graph_edge_weight ::
  "'w dv_graph_t option \<Rightarrow> dv_edge_t \<Rightarrow> dbl option \<Rightarrow> (dv_graph_status_t \<times> dbl option) option"
where
  "dv_graph_edge_weight None edge out = Some (DV_GRAPH_ERR_INVALID, out)"
| "dv_graph_edge_weight (Some g) edge out =
     (if out = None \<or> gr_weights g = None then Some (DV_GRAPH_ERR_INVALID, out)
      else do {
        live \<leftarrow> dv_graph_edge_live g edge;
        (if \<not> live then Some (DV_GRAPH_ERR_STALE, out)
         else do { x \<leftarrow> arr_get (gr_weights g) (unat (eh_index edge)); Some (DV_GRAPH_OK, Some x) }) })"

fun dv_graph_set_edge_weight ::
  "'w dv_graph_t option \<Rightarrow> dv_edge_t \<Rightarrow> dbl \<Rightarrow> (dv_graph_status_t \<times> 'w dv_graph_t option) option"
where
  "dv_graph_set_edge_weight None edge weight = Some (DV_GRAPH_ERR_INVALID, None)"
| "dv_graph_set_edge_weight (Some g) edge weight =
     (if gr_weights g = None then Some (DV_GRAPH_ERR_INVALID, Some g)
      else do {
        live \<leftarrow> dv_graph_edge_live g edge;
        (if \<not> live then Some (DV_GRAPH_ERR_STALE, Some g)
         else do { g1 \<leftarrow> put_weight g (eh_index edge) weight; Some (DV_GRAPH_OK, Some g1) }) })"

section \<open>Degrees\<close>

definition live_degree ::
  "(dv_graph_vertex_rec_t \<Rightarrow> u32) \<Rightarrow> 'w dv_graph_t option \<Rightarrow> dv_vertex_t \<Rightarrow> u32 option"
where
  "live_degree f p vertex = (case p of
     None \<Rightarrow> Some 0
   | Some g \<Rightarrow> do {
       live \<leftarrow> dv_graph_vertex_live g vertex;
       (if \<not> live then Some 0 else map_option f (vrec g (vh_index vertex))) })"

definition dv_graph_out_degree :: "'w dv_graph_t option \<Rightarrow> dv_vertex_t \<Rightarrow> u32 option" where
  "dv_graph_out_degree = live_degree out_degree"

definition dv_graph_in_degree :: "'w dv_graph_t option \<Rightarrow> dv_vertex_t \<Rightarrow> u32 option" where
  "dv_graph_in_degree = live_degree in_degree"

definition dv_graph_degree :: "'w dv_graph_t option \<Rightarrow> dv_vertex_t \<Rightarrow> u32 option" where
  "dv_graph_degree = live_degree (\<lambda>v. out_degree v + in_degree v)"

section \<open>Capacity management\<close>

fun dv_graph_reserve_vertices :: "'w dv_graph_t option \<Rightarrow> u32 \<Rightarrow> 'w \<Rightarrow> 'w graph_call" where
  "dv_graph_reserve_vertices None cap w = Some (DV_GRAPH_ERR_INVALID, None, w)"
| "dv_graph_reserve_vertices (Some g) cap w =
     (if cap \<le> gr_vertex_capacity g then Some (DV_GRAPH_OK, Some g, w)
      else if \<not> gr_growable g then Some (DV_GRAPH_ERR_FULL, Some g, w)
      else if gr_max_vertex_capacity g \<noteq> 0 \<and> cap > gr_max_vertex_capacity g
        then Some (DV_GRAPH_ERR_FULL, Some g, w)
      else if cap > DV_GRAPH_MAX_CAPACITY then Some (DV_GRAPH_ERR_OVERFLOW, Some g, w)
      else do { (status, g1, w1) \<leftarrow> dv_graph_set_vertex_capacity g cap w; Some (status, Some g1, w1) })"

fun dv_graph_reserve_edges :: "'w dv_graph_t option \<Rightarrow> u32 \<Rightarrow> 'w \<Rightarrow> 'w graph_call" where
  "dv_graph_reserve_edges None cap w = Some (DV_GRAPH_ERR_INVALID, None, w)"
| "dv_graph_reserve_edges (Some g) cap w =
     (if cap \<le> gr_edge_capacity g then Some (DV_GRAPH_OK, Some g, w)
      else if \<not> gr_growable g then Some (DV_GRAPH_ERR_FULL, Some g, w)
      else if gr_max_edge_capacity g \<noteq> 0 \<and> cap > gr_max_edge_capacity g
        then Some (DV_GRAPH_ERR_FULL, Some g, w)
      else if cap > DV_GRAPH_MAX_CAPACITY then Some (DV_GRAPH_ERR_OVERFLOW, Some g, w)
      else do { (status, g1, w1) \<leftarrow> dv_graph_set_edge_capacity g cap w; Some (status, Some g1, w1) })"

fun dv_graph_reserve_traversal :: "'w dv_graph_t option \<Rightarrow> 'w \<Rightarrow> 'w graph_call" where
  "dv_graph_reserve_traversal None w = Some (DV_GRAPH_ERR_INVALID, None, w)"
| "dv_graph_reserve_traversal (Some g) w = do {
     (status, g1, w1) \<leftarrow> dv_graph_ensure_scratch g w; Some (status, Some g1, w1) }"

fun dv_graph_shrink_to_fit :: "'w dv_graph_t option \<Rightarrow> 'w \<Rightarrow> 'w graph_call" where
  "dv_graph_shrink_to_fit None w = Some (DV_GRAPH_ERR_INVALID, None, w)"
| "dv_graph_shrink_to_fit (Some g) w =
     (if \<not> gr_growable g then Some (DV_GRAPH_OK, Some g, w)
      else do {
        (status, g1, w1) \<leftarrow> dv_graph_set_vertex_capacity g (gr_vertex_watermark g) w;
        (edge_status, g2, w2) \<leftarrow> dv_graph_set_edge_capacity g1 (gr_edge_watermark g1) w1;
        (g3, w3) \<leftarrow> dv_graph_free_scratch g2 w2;
        Some (if status = DV_GRAPH_OK then edge_status else status, Some g3, w3) })"

section \<open>Bulk operations\<close>

definition dv_graph_reserve_for_bulk ::
  "'w dv_graph_t \<Rightarrow> u32 \<Rightarrow> u32 \<Rightarrow> u32 \<Rightarrow> bool \<Rightarrow> 'w \<Rightarrow> ('w dv_graph_t option \<times> 'w) option"
where
  "dv_graph_reserve_for_bulk g live cap cnt vertices w =
     (let needed = live + cnt;
          curve = dv_graph_next_capacity cap;
          target = (if needed > curve then needed else curve);
          ceiling = (if vertices then gr_max_vertex_capacity g else gr_max_edge_capacity g);
          clamped = dv_graph_clamp_capacity target ceiling;
          exact = dv_graph_clamp_capacity needed ceiling
      in if cnt > DV_GRAPH_MAX_CAPACITY - live \<or> needed \<le> cap then Some (Some g, w)
         else do {
           (status, p1, w1) \<leftarrow> (if vertices then dv_graph_reserve_vertices (Some g) clamped w
                                 else dv_graph_reserve_edges (Some g) clamped w);
           (if status = DV_GRAPH_OK \<or> \<not> exact < clamped then Some (p1, w1)
            else do {
              (_, p2, w2) \<leftarrow> (if vertices then dv_graph_reserve_vertices p1 exact w1
                               else dv_graph_reserve_edges p1 exact w1);
              Some (p2, w2) }) })"

text \<open>The insertion loops; the handles are those written to \<open>out\<close>, in order.\<close>

function add_vertices_loop ::
  "'w dv_graph_t option \<Rightarrow> u32 \<Rightarrow> u32 \<Rightarrow> dv_vertex_t list \<Rightarrow> 'w \<Rightarrow>
     (u32 \<times> 'w dv_graph_t option \<times> dv_vertex_t list \<times> 'w) option"
where
  "add_vertices_loop p cnt added out w =
     (if added < cnt then do {
        (status, p1, h, w1) \<leftarrow> dv_graph_add_vertex p w;
        (if status \<noteq> DV_GRAPH_OK then Some (added, p1, out, w1)
         else do { v \<leftarrow> h; add_vertices_loop p1 cnt (added + 1) (out @ [v]) w1 }) }
      else Some (added, p, out, w))"
  by pat_completeness auto
termination
  by (relation "measure (\<lambda>(p, cnt, added, out, w). unat cnt - unat added)")
    (auto simp: unat_Suc_word word_less_nat_alt intro!: diff_less_mono2)

fun dv_graph_add_vertices ::
  "'w dv_graph_t option \<Rightarrow> u32 \<Rightarrow> 'w \<Rightarrow> (u32 \<times> 'w dv_graph_t option \<times> dv_vertex_t list \<times> 'w) option"
where
  "dv_graph_add_vertices None cnt w = Some (0, None, [], w)"
| "dv_graph_add_vertices (Some g) cnt w =
     (if cnt = 0 then Some (0, Some g, [], w)
      else do {
        (p, w1) \<leftarrow> (if gr_growable g
            then dv_graph_reserve_for_bulk g (gr_vertex_count g) (gr_vertex_capacity g) cnt True w
            else Some (Some g, w));
        g1 \<leftarrow> p;
        let (outer, g2) = dv_graph_batch_begin g1
        in do {
          (added, p3, out, w3) \<leftarrow> add_vertices_loop (Some g2) cnt 0 [] w1;
          g3 \<leftarrow> p3;
          Some (added, Some (dv_graph_batch_end g3 outer), out, w3) } })"

record dv_graph_edge_spec_t =
  spec_src :: dv_vertex_t
  spec_dst :: dv_vertex_t
  spec_weight :: dbl

function add_edges_loop ::
  "'w dv_graph_t option \<Rightarrow> dv_graph_edge_spec_t list \<Rightarrow> u32 \<Rightarrow> u32 \<Rightarrow> dv_edge_t list \<Rightarrow> 'w \<Rightarrow>
     (u32 \<times> 'w dv_graph_t option \<times> dv_edge_t list \<times> 'w) option"
where
  "add_edges_loop p specs cnt added out w =
     (if added < cnt then
        if unat added < length specs then do {
          (status, p1, h, w1) \<leftarrow> (let s = specs ! unat added in
             dv_graph_add_edge p (spec_src s) (spec_dst s) (spec_weight s) w);
          (if status \<noteq> DV_GRAPH_OK then Some (added, p1, out, w1)
           else do { e \<leftarrow> h; add_edges_loop p1 specs cnt (added + 1) (out @ [e]) w1 }) }
        else None
      else Some (added, p, out, w))"
  by pat_completeness auto
termination
  by (relation "measure (\<lambda>(p, specs, cnt, added, out, w). unat cnt - unat added)")
    (auto simp: unat_Suc_word word_less_nat_alt intro!: diff_less_mono2)

fun dv_graph_add_edges ::
  "'w dv_graph_t option \<Rightarrow> dv_graph_edge_spec_t list option \<Rightarrow> u32 \<Rightarrow> 'w \<Rightarrow>
     (u32 \<times> 'w dv_graph_t option \<times> dv_edge_t list \<times> 'w) option"
where
  "dv_graph_add_edges None specs cnt w = Some (0, None, [], w)"
| "dv_graph_add_edges (Some g) None cnt w = Some (0, Some g, [], w)"
| "dv_graph_add_edges (Some g) (Some specs) cnt w =
     (if cnt = 0 then Some (0, Some g, [], w)
      else do {
        (p, w1) \<leftarrow> (if gr_growable g
            then dv_graph_reserve_for_bulk g (gr_edge_count g) (gr_edge_capacity g) cnt False w
            else Some (Some g, w));
        g1 \<leftarrow> p;
        let (outer, g2) = dv_graph_batch_begin g1
        in do {
          (added, p3, out, w3) \<leftarrow> add_edges_loop (Some g2) specs cnt 0 [] w1;
          g3 \<leftarrow> p3;
          Some (added, Some (dv_graph_batch_end g3 outer), out, w3) } })"

section \<open>Inline accessors\<close>

fun dv_graph_vertex_count :: "'w dv_graph_t option \<Rightarrow> u32" where
  "dv_graph_vertex_count None = 0"
| "dv_graph_vertex_count (Some g) = gr_vertex_count g"

fun dv_graph_edge_count :: "'w dv_graph_t option \<Rightarrow> u32" where
  "dv_graph_edge_count None = 0"
| "dv_graph_edge_count (Some g) = gr_edge_count g"

fun dv_graph_vertex_capacity :: "'w dv_graph_t option \<Rightarrow> u32" where
  "dv_graph_vertex_capacity None = 0"
| "dv_graph_vertex_capacity (Some g) = gr_vertex_capacity g"

fun dv_graph_edge_capacity :: "'w dv_graph_t option \<Rightarrow> u32" where
  "dv_graph_edge_capacity None = 0"
| "dv_graph_edge_capacity (Some g) = gr_edge_capacity g"

fun dv_graph_is_directed :: "'w dv_graph_t option \<Rightarrow> bool" where
  "dv_graph_is_directed None = False"
| "dv_graph_is_directed (Some g) = gr_directed g"

fun dv_graph_is_weighted :: "'w dv_graph_t option \<Rightarrow> bool" where
  "dv_graph_is_weighted None = False"
| "dv_graph_is_weighted (Some g) = gr_weighted g"

fun dv_graph_version :: "'w dv_graph_t option \<Rightarrow> u64" where
  "dv_graph_version None = 0"
| "dv_graph_version (Some g) = gr_version g"

declare clear_edges.simps [simp del] clear_vertices.simps [simp del]
  add_vertices_loop.simps [simp del] add_edges_loop.simps [simp del]

end
