(* ===== verification/Dv_Graph_Walk.thy ===== *)
theory Dv_Graph_Walk
  imports Dv_Graph_Api
begin

text \<open>
  Iteration, traversal and the self-check of the graph (\<open>src/graph/dv_graph.h\<close>,
  \<open>src/graph/dv_graph.c\<close>). An iterator holds a pointer to the graph, so the graph it is advanced on
  is an argument and \<open>it_graph\<close> says whether the pointer is not null. A visitor acts on the state
  behind \<open>user_data\<close>; it does not touch the graph.
\<close>

section \<open>Iteration\<close>

record dv_graph_edge_iter_t =
  it_graph :: bool
  it_version :: u64
  it_vertex :: u32
  it_edge :: u32
  it_incoming :: bool
  it_both :: bool

record dv_graph_edge_ref_t =
  ref_edge :: dv_edge_t
  ref_src :: dv_vertex_t
  ref_dst :: dv_vertex_t
  ref_neighbor :: dv_vertex_t
  ref_weight :: dbl

record dv_graph_vertex_iter_t =
  vit_graph :: bool
  vit_version :: u64
  vit_index :: u32

definition dv_graph_edge_iter_end :: dv_graph_edge_iter_t where
  "dv_graph_edge_iter_end = \<lparr>it_graph = False, it_version = 0, it_vertex = DV_GRAPH_INVALID_INDEX,
     it_edge = DV_GRAPH_INVALID_INDEX, it_incoming = False, it_both = False\<rparr>"

text \<open>The iterator left behind \<open>it\<close>; a null \<open>it\<close> stays null.\<close>

fun dv_graph_iter_begin ::
  "'w dv_graph_t option \<Rightarrow> dv_vertex_t \<Rightarrow> dv_graph_edge_iter_t option \<Rightarrow> bool \<Rightarrow> bool \<Rightarrow>
     (dv_graph_status_t \<times> dv_graph_edge_iter_t option) option"
where
  "dv_graph_iter_begin p vertex None incoming both = Some (DV_GRAPH_ERR_INVALID, None)"
| "dv_graph_iter_begin None vertex (Some it) incoming both = Some (DV_GRAPH_ERR_INVALID, Some dv_graph_edge_iter_end)"
| "dv_graph_iter_begin (Some g) vertex (Some it) incoming both = do {
     live \<leftarrow> dv_graph_vertex_live g vertex;
     (if \<not> live then Some (DV_GRAPH_ERR_STALE, Some dv_graph_edge_iter_end)
      else do {
        v \<leftarrow> vrec g (vh_index vertex);
        Some (DV_GRAPH_OK, Some \<lparr>it_graph = True, it_version = gr_version g, it_vertex = vh_index vertex,
          it_edge = (if incoming then in_head v else out_head v), it_incoming = incoming, it_both = both\<rparr>) }) }"

definition dv_graph_out_edges_begin where
  "dv_graph_out_edges_begin p vertex it = dv_graph_iter_begin p vertex it False False"

definition dv_graph_in_edges_begin where
  "dv_graph_in_edges_begin p vertex it = dv_graph_iter_begin p vertex it True False"

definition dv_graph_edges_begin where
  "dv_graph_edges_begin p vertex it = dv_graph_iter_begin p vertex it False True"

text \<open>
  The loop that moves on to the in-list runs at most once, since it ends the walk or sets
  \<open>incoming\<close>: \<open>None\<close> is the exhausted iterator.
\<close>

definition iter_settle :: "'w dv_graph_t \<Rightarrow> dv_graph_edge_iter_t \<Rightarrow> dv_graph_edge_iter_t option option" where
  "iter_settle g it =
     (if it_edge it \<noteq> DV_GRAPH_INVALID_INDEX then Some (Some it)
      else if \<not> it_both it \<or> it_incoming it then Some None
      else do {
        v \<leftarrow> vrec g (it_vertex it);
        Some (if in_head v = DV_GRAPH_INVALID_INDEX then None
              else Some (it\<lparr>it_incoming := True, it_edge := in_head v\<rparr>)) })"

definition edge_ref :: "'w dv_graph_t \<Rightarrow> dv_graph_edge_iter_t \<Rightarrow> dv_graph_edge_ref_t option" where
  "edge_ref g it = do {
     e \<leftarrow> erec g (it_edge it);
     s \<leftarrow> dv_graph_handle g (e_src e);
     d \<leftarrow> dv_graph_handle g (e_dst e);
     x \<leftarrow> (if gr_weights g = None then Some 0 else arr_get (gr_weights g) (unat (it_edge it)));
     Some \<lparr>ref_edge = \<lparr>eh_index = it_edge it, eh_generation = e_generation e\<rparr>, ref_src = s, ref_dst = d,
       ref_neighbor = (if e_src e = it_vertex it \<and> \<not> it_incoming it then d else s), ref_weight = x\<rparr> }"

fun dv_graph_edge_iter_next ::
  "'w dv_graph_t \<Rightarrow> dv_graph_edge_iter_t option \<Rightarrow>
     (bool \<times> dv_graph_edge_iter_t option \<times> dv_graph_edge_ref_t option) option"
where
  "dv_graph_edge_iter_next g None = Some (False, None, None)"
| "dv_graph_edge_iter_next g (Some it) =
     (if \<not> it_graph it then Some (False, Some it, None)
      else if it_version it \<noteq> gr_version g then Some (False, Some dv_graph_edge_iter_end, None)
      else do {
        s \<leftarrow> iter_settle g it;
        (case s of
           None \<Rightarrow> Some (False, Some dv_graph_edge_iter_end, None)
         | Some it1 \<Rightarrow> do {
             r \<leftarrow> edge_ref g it1;
             e \<leftarrow> erec g (it_edge it1);
             Some (True, Some (it1\<lparr>it_edge := (if it_incoming it1 then next_in e else next_out e)\<rparr>), Some r) }) })"

fun dv_graph_vertices_begin ::
  "'w dv_graph_t option \<Rightarrow> dv_graph_vertex_iter_t option \<Rightarrow> dv_graph_vertex_iter_t option"
where
  "dv_graph_vertices_begin p None = None"
| "dv_graph_vertices_begin None (Some it) = Some \<lparr>vit_graph = False, vit_version = 0, vit_index = 0\<rparr>"
| "dv_graph_vertices_begin (Some g) (Some it) = Some \<lparr>vit_graph = True, vit_version = gr_version g, vit_index = 0\<rparr>"

text \<open>The first live slot from \<open>i\<close> on: its index, its handle, and the index the iterator goes on at.\<close>

function next_live :: "u32 \<Rightarrow> 'w dv_graph_t \<Rightarrow> u32 \<Rightarrow> (u32 \<times> dv_vertex_t option) option" where
  "next_live n g i =
     (if i < n then do {
        v \<leftarrow> vrec g i;
        (if v_active v then Some (i + 1, Some \<lparr>vh_index = i, vh_generation = v_generation v\<rparr>)
         else next_live n g (i + 1)) }
      else Some (i, None))"
  by pat_completeness auto
termination
  by (relation "measure (\<lambda>(n, g, i). unat n - unat i)")
    (auto simp: unat_Suc_word word_less_nat_alt intro!: diff_less_mono2)

fun dv_graph_vertex_iter_next ::
  "'w dv_graph_t \<Rightarrow> dv_graph_vertex_iter_t option \<Rightarrow>
     (bool \<times> dv_graph_vertex_iter_t option \<times> dv_vertex_t option) option"
where
  "dv_graph_vertex_iter_next g None = Some (False, None, None)"
| "dv_graph_vertex_iter_next g (Some it) =
     (if \<not> vit_graph it then Some (False, Some it, None)
      else if vit_version it \<noteq> gr_version g then Some (False, Some (it\<lparr>vit_graph := False\<rparr>), None)
      else do {
        (i, h) \<leftarrow> next_live (gr_vertex_watermark g) g (vit_index it);
        Some (h \<noteq> None, Some (it\<lparr>vit_index := i\<rparr>), h) })"

section \<open>Traversal\<close>

definition DV_GRAPH_CURSOR_IN :: u32 where
  "DV_GRAPH_CURSOR_IN = 0x80000000"

definition DV_GRAPH_CURSOR_MASK :: u32 where
  "DV_GRAPH_CURSOR_MASK = 0x7FFFFFFF"

type_synonym 's dv_graph_visit_fn = "dv_vertex_t \<Rightarrow> u32 \<Rightarrow> 's \<Rightarrow> bool \<times> 's"

definition dv_graph_first_cursor :: "'w dv_graph_t \<Rightarrow> u32 \<Rightarrow> bool \<Rightarrow> u32 option" where
  "dv_graph_first_cursor g vertex incident = do {
     v \<leftarrow> vrec g vertex;
     Some (if out_head v \<noteq> DV_GRAPH_INVALID_INDEX then out_head v
           else if \<not> incident \<or> in_head v = DV_GRAPH_INVALID_INDEX then DV_GRAPH_INVALID_INDEX
           else in_head v OR DV_GRAPH_CURSOR_IN) }"

definition dv_graph_next_cursor :: "'w dv_graph_t \<Rightarrow> u32 \<Rightarrow> u32 \<Rightarrow> bool \<Rightarrow> u32 option" where
  "dv_graph_next_cursor g vertex cursor incident = do {
     e \<leftarrow> erec g (cursor AND DV_GRAPH_CURSOR_MASK);
     (if cursor AND DV_GRAPH_CURSOR_IN \<noteq> 0
      then Some (if next_in e = DV_GRAPH_INVALID_INDEX then DV_GRAPH_INVALID_INDEX
                 else next_in e OR DV_GRAPH_CURSOR_IN)
      else if next_out e \<noteq> DV_GRAPH_INVALID_INDEX then Some (next_out e)
      else do {
        v \<leftarrow> vrec g vertex;
        Some (if \<not> incident \<or> in_head v = DV_GRAPH_INVALID_INDEX then DV_GRAPH_INVALID_INDEX
              else in_head v OR DV_GRAPH_CURSOR_IN) }) }"

fun dv_graph_traverse_setup ::
  "'w dv_graph_t option \<Rightarrow> dv_vertex_t \<Rightarrow> 's dv_graph_visit_fn option \<Rightarrow> 'w \<Rightarrow> 'w graph_call"
where
  "dv_graph_traverse_setup None start visit w = Some (DV_GRAPH_ERR_INVALID, None, w)"
| "dv_graph_traverse_setup (Some g) start None w = Some (DV_GRAPH_ERR_INVALID, Some g, w)"
| "dv_graph_traverse_setup (Some g) start (Some visit) w = do {
     live \<leftarrow> dv_graph_vertex_live g start;
     (if \<not> live then Some (DV_GRAPH_ERR_STALE, Some g, w)
      else do {
        (status, g1, w1) \<leftarrow> dv_graph_ensure_scratch g w;
        (if status \<noteq> DV_GRAPH_OK then Some (status, Some g1, w1)
         else if gr_visited_words g1 > 0 then do {
           a \<leftarrow> gr_visited g1;
           Some (DV_GRAPH_OK, Some (g1\<lparr>gr_visited :=
             Some (a\<lparr>arr_items := replicate (unat (gr_visited_words g1)) 0 @
               drop (unat (gr_visited_words g1)) (arr_items a)\<rparr>)\<rparr>), w1) }
         else Some (DV_GRAPH_OK, Some g1, w1)) }) }"

text \<open>The two halves of the scratch: \<open>work[k]\<close> and \<open>(work + work_capacity)[k]\<close>.\<close>

definition work_get :: "'w dv_graph_t \<Rightarrow> size_t \<Rightarrow> u32 option" where
  "work_get g k = arr_get (gr_work g) (unat k)"

definition work2_get :: "'w dv_graph_t \<Rightarrow> size_t \<Rightarrow> u32 option" where
  "work2_get g k = arr_get (gr_work g) (unat (gr_work_capacity g) + unat k)"

definition work_put :: "'w dv_graph_t \<Rightarrow> size_t \<Rightarrow> u32 \<Rightarrow> 'w dv_graph_t option" where
  "work_put g k x = do { p \<leftarrow> arr_set (gr_work g) (unat k) x; Some (g\<lparr>gr_work := p\<rparr>) }"

definition work2_put :: "'w dv_graph_t \<Rightarrow> size_t \<Rightarrow> u32 \<Rightarrow> 'w dv_graph_t option" where
  "work2_put g k x = do {
     p \<leftarrow> arr_set (gr_work g) (unat (gr_work_capacity g) + unat k) x; Some (g\<lparr>gr_work := p\<rparr>) }"

subsection \<open>Breadth first\<close>

text \<open>Marking a vertex and appending it to the queue.\<close>

definition bfs_push :: "'w dv_graph_t \<Rightarrow> u32 \<Rightarrow> u32 \<Rightarrow> size_t \<Rightarrow> ('w dv_graph_t \<times> size_t) option" where
  "bfs_push g vertex depth tail = do {
     g1 \<leftarrow> dv_graph_visited_set g vertex;
     g2 \<leftarrow> work_put g1 tail vertex;
     g3 \<leftarrow> work2_put g2 tail depth;
     Some (g3, tail + 1) }"

definition bfs_see :: "'w dv_graph_t \<Rightarrow> u32 \<Rightarrow> u32 \<Rightarrow> size_t \<Rightarrow> ('w dv_graph_t \<times> size_t) option" where
  "bfs_see g next depth tail = do {
     seen \<leftarrow> dv_graph_visited_test g next;
     if seen then Some (g, tail) else bfs_push g next depth tail }"

partial_function (option) bfs_out ::
  "'w dv_graph_t \<Rightarrow> u32 \<Rightarrow> size_t \<Rightarrow> u32 \<Rightarrow> ('w dv_graph_t \<times> size_t) option"
where
  "bfs_out g d tail e =
     (if e = DV_GRAPH_INVALID_INDEX then Some (g, tail)
      else do {
        r \<leftarrow> erec g e;
        s \<leftarrow> bfs_see g (e_dst r) (d + 1) tail;
        bfs_out (fst s) d (snd s) (next_out r) })"

partial_function (option) bfs_in ::
  "'w dv_graph_t \<Rightarrow> u32 \<Rightarrow> size_t \<Rightarrow> u32 \<Rightarrow> ('w dv_graph_t \<times> size_t) option"
where
  "bfs_in g d tail e =
     (if e = DV_GRAPH_INVALID_INDEX then Some (g, tail)
      else do {
        r \<leftarrow> erec g e;
        s \<leftarrow> bfs_see g (e_src r) (d + 1) tail;
        bfs_in (fst s) d (snd s) (next_in r) })"

text \<open>The loop body after the visit: both lists of the vertex, the in-list when edges are undirected.\<close>

definition bfs_expand :: "bool \<Rightarrow> 'w dv_graph_t \<Rightarrow> u32 \<Rightarrow> u32 \<Rightarrow> size_t \<Rightarrow> ('w dv_graph_t \<times> size_t) option" where
  "bfs_expand incident g index d tail = do {
     v \<leftarrow> vrec g index;
     s \<leftarrow> bfs_out g d tail (out_head v);
     (if \<not> incident then Some s
      else do { v1 \<leftarrow> vrec (fst s) index; bfs_in (fst s) d (snd s) (in_head v1) }) }"

partial_function (option) bfs_loop ::
  "'s dv_graph_visit_fn \<Rightarrow> bool \<Rightarrow> 'w dv_graph_t \<Rightarrow> size_t \<Rightarrow> size_t \<Rightarrow> 's \<Rightarrow> ('w dv_graph_t \<times> 's) option"
where
  "bfs_loop visit incident g head tail st =
     (if head < tail then do {
        index \<leftarrow> work_get g head;
        d \<leftarrow> work2_get g head;
        h \<leftarrow> dv_graph_handle g index;
        (if \<not> fst (visit h d st) then Some (g, snd (visit h d st))
         else do {
           s \<leftarrow> bfs_expand incident g index d tail;
           bfs_loop visit incident (fst s) (head + 1) (snd s) (snd (visit h d st)) }) }
      else Some (g, st))"

declare bfs_out.simps [code] bfs_in.simps [code] bfs_loop.simps [code]

type_synonym ('w, 's) walk_result = "(dv_graph_status_t \<times> 'w dv_graph_t option \<times> 's \<times> 'w) option"

definition dv_graph_bfs ::
  "'w dv_graph_t option \<Rightarrow> dv_vertex_t \<Rightarrow> 's dv_graph_visit_fn option \<Rightarrow> 's \<Rightarrow> 'w \<Rightarrow> ('w, 's) walk_result"
where
  "dv_graph_bfs p start visit st w = do {
     (status, p1, w1) \<leftarrow> dv_graph_traverse_setup p start visit w;
     (if status \<noteq> DV_GRAPH_OK then Some (status, p1, st, w1)
      else do {
        g1 \<leftarrow> p1;
        f \<leftarrow> visit;
        (g2, tail) \<leftarrow> bfs_push g1 (vh_index start) 0 0;
        (g3, st3) \<leftarrow> bfs_loop f (\<not> gr_directed g2) g2 0 tail st;
        Some (DV_GRAPH_OK, Some g3, st3, w1) }) }"

subsection \<open>Depth first\<close>

definition dfs_push :: "bool \<Rightarrow> 'w dv_graph_t \<Rightarrow> size_t \<Rightarrow> u32 \<Rightarrow> ('w dv_graph_t \<times> size_t) option" where
  "dfs_push incident g depth vertex = do {
     g1 \<leftarrow> work_put g depth vertex;
     c \<leftarrow> dv_graph_first_cursor g1 vertex incident;
     g2 \<leftarrow> work2_put g1 depth c;
     Some (g2, depth + 1) }"

partial_function (option) dfs_loop ::
  "'s dv_graph_visit_fn \<Rightarrow> bool \<Rightarrow> 'w dv_graph_t \<Rightarrow> size_t \<Rightarrow> 's \<Rightarrow> ('w dv_graph_t \<times> 's) option"
where
  "dfs_loop visit incident g depth st =
     (if depth > 0 then do {
        c \<leftarrow> work2_get g (depth - 1);
        (if c = DV_GRAPH_INVALID_INDEX then dfs_loop visit incident g (depth - 1) st
         else do {
           v \<leftarrow> work_get g (depth - 1);
           c' \<leftarrow> dv_graph_next_cursor g v c incident;
           g1 \<leftarrow> work2_put g (depth - 1) c';
           e \<leftarrow> erec g1 (c AND DV_GRAPH_CURSOR_MASK);
           seen \<leftarrow> dv_graph_visited_test g1 (if c AND DV_GRAPH_CURSOR_IN \<noteq> 0 then e_src e else e_dst e);
           (if seen then dfs_loop visit incident g1 depth st
            else do {
              g2 \<leftarrow> dv_graph_visited_set g1 (if c AND DV_GRAPH_CURSOR_IN \<noteq> 0 then e_src e else e_dst e);
              h \<leftarrow> dv_graph_handle g2 (if c AND DV_GRAPH_CURSOR_IN \<noteq> 0 then e_src e else e_dst e);
              (if \<not> fst (visit h (ucast depth) st) then Some (g2, snd (visit h (ucast depth) st))
               else do {
                 s \<leftarrow> dfs_push incident g2 depth (if c AND DV_GRAPH_CURSOR_IN \<noteq> 0 then e_src e else e_dst e);
                 dfs_loop visit incident (fst s) (snd s) (snd (visit h (ucast depth) st)) }) }) }) }
      else Some (g, st))"

declare dfs_loop.simps [code]

definition dv_graph_dfs ::
  "'w dv_graph_t option \<Rightarrow> dv_vertex_t \<Rightarrow> 's dv_graph_visit_fn option \<Rightarrow> 's \<Rightarrow> 'w \<Rightarrow> ('w, 's) walk_result"
where
  "dv_graph_dfs p start visit st w = do {
     (status, p1, w1) \<leftarrow> dv_graph_traverse_setup p start visit w;
     (if status \<noteq> DV_GRAPH_OK then Some (status, p1, st, w1)
      else do {
        g1 \<leftarrow> p1;
        f \<leftarrow> visit;
        g2 \<leftarrow> dv_graph_visited_set g1 (vh_index start);
        h \<leftarrow> dv_graph_handle g2 (vh_index start);
        (if \<not> fst (f h 0 st) then Some (DV_GRAPH_OK, Some g2, snd (f h 0 st), w1)
         else do {
           (g3, depth) \<leftarrow> dfs_push (\<not> gr_directed g2) g2 0 (vh_index start);
           (g4, st4) \<leftarrow> dfs_loop f (\<not> gr_directed g2) g3 depth (snd (f h 0 st));
           Some (DV_GRAPH_OK, Some g4, st4, w1) }) }) }"

subsection \<open>Reachability\<close>

record dv_graph_reach_state_t =
  rs_target :: u32
  rs_found :: bool

definition dv_graph_reach_visit :: "dv_graph_reach_state_t dv_graph_visit_fn" where
  "dv_graph_reach_visit vertex depth state =
     (if vh_index vertex \<noteq> rs_target state then (True, state) else (False, state\<lparr>rs_found := True\<rparr>))"

fun dv_graph_reachable ::
  "'w dv_graph_t option \<Rightarrow> dv_vertex_t \<Rightarrow> dv_vertex_t \<Rightarrow> bool option \<Rightarrow> 'w \<Rightarrow>
     (dv_graph_status_t \<times> 'w dv_graph_t option \<times> bool option \<times> 'w) option"
where
  "dv_graph_reachable None src dst out w = Some (DV_GRAPH_ERR_INVALID, None, out, w)"
| "dv_graph_reachable (Some g) src dst out w =
     (if out = None then Some (DV_GRAPH_ERR_INVALID, Some g, out, w)
      else do {
        live \<leftarrow> both_live g src dst;
        (if \<not> live then Some (DV_GRAPH_ERR_STALE, Some g, out, w)
         else do {
           (status, p, st, w1) \<leftarrow> dv_graph_bfs (Some g) src (Some dv_graph_reach_visit)
              \<lparr>rs_target = vh_index dst, rs_found = False\<rparr> w;
           Some (status, p, if status = DV_GRAPH_OK then Some (rs_found st) else out, w1) }) })"

section \<open>Diagnostics\<close>

fun dv_graph_status_str :: "dv_graph_status_t \<Rightarrow> string" where
  "dv_graph_status_str DV_GRAPH_OK = ''DV_GRAPH_OK''"
| "dv_graph_status_str DV_GRAPH_ERR_INVALID = ''DV_GRAPH_ERR_INVALID''"
| "dv_graph_status_str DV_GRAPH_ERR_STALE = ''DV_GRAPH_ERR_STALE''"
| "dv_graph_status_str DV_GRAPH_ERR_NOT_FOUND = ''DV_GRAPH_ERR_NOT_FOUND''"
| "dv_graph_status_str DV_GRAPH_ERR_EXISTS = ''DV_GRAPH_ERR_EXISTS''"
| "dv_graph_status_str DV_GRAPH_ERR_FULL = ''DV_GRAPH_ERR_FULL''"
| "dv_graph_status_str DV_GRAPH_ERR_NOMEM = ''DV_GRAPH_ERR_NOMEM''"
| "dv_graph_status_str DV_GRAPH_ERR_OVERFLOW = ''DV_GRAPH_ERR_OVERFLOW''"

text \<open>The length of a free list, or \<open>Some None\<close> for the result \<open>false\<close>.\<close>

partial_function (option) free_len :: "bool \<Rightarrow> 'w dv_graph_t \<Rightarrow> u32 \<Rightarrow> u32 \<Rightarrow> u32 \<Rightarrow> u32 option option" where
  "free_len vertices g watermark index seen =
     (if index = DV_GRAPH_INVALID_INDEX then Some (Some seen)
      else if index \<ge> watermark \<or> seen > watermark then Some None
      else do {
        s \<leftarrow> (if vertices then do { v \<leftarrow> vrec g index; Some (v_active v, out_head v) }
              else do { e \<leftarrow> erec g index; Some (e_active e, next_out e) });
        (if fst s then Some None else free_len vertices g watermark (snd s) (seen + 1)) })"

definition dv_graph_free_list_len :: "'w dv_graph_t \<Rightarrow> bool \<Rightarrow> u32 option option" where
  "dv_graph_free_list_len g vertices =
     free_len vertices g (if vertices then gr_vertex_watermark g else gr_edge_watermark g)
       (if vertices then gr_vertex_free g else gr_edge_free g) 0"

partial_function (option) walk_out :: "'w dv_graph_t \<Rightarrow> u32 \<Rightarrow> u32 \<Rightarrow> u32 \<Rightarrow> u32 \<Rightarrow> bool option" where
  "walk_out g i deg e walked =
     (if e = DV_GRAPH_INVALID_INDEX then Some (walked = deg)
      else if e \<ge> gr_edge_watermark g then Some False
      else do {
        r \<leftarrow> erec g e;
        (if \<not> e_active r \<or> e_src r \<noteq> i \<or> walked + 1 > deg then Some False
         else walk_out g i deg (next_out r) (walked + 1)) })"

partial_function (option) walk_in :: "'w dv_graph_t \<Rightarrow> u32 \<Rightarrow> u32 \<Rightarrow> u32 \<Rightarrow> u32 \<Rightarrow> bool option" where
  "walk_in g i deg e walked =
     (if e = DV_GRAPH_INVALID_INDEX then Some (walked = deg)
      else if e \<ge> gr_edge_watermark g then Some False
      else do {
        r \<leftarrow> erec g e;
        (if \<not> e_active r \<or> e_dst r \<noteq> i \<or> walked + 1 > deg then Some False
         else walk_in g i deg (next_in r) (walked + 1)) })"

declare free_len.simps [code] walk_out.simps [code] walk_in.simps [code]

definition valid_vertex :: "'w dv_graph_t \<Rightarrow> u32 \<Rightarrow> dv_graph_vertex_rec_t \<Rightarrow> bool option" where
  "valid_vertex g i v =
     (if v_generation v = 0 then Some False
      else do {
        a \<leftarrow> walk_out g i (out_degree v) (out_head v) 0;
        (if \<not> a then Some False
         else do {
           b \<leftarrow> walk_in g i (in_degree v) (in_head v) 0;
           Some (b \<and> (out_head v = DV_GRAPH_INVALID_INDEX) = (out_tail v = DV_GRAPH_INVALID_INDEX) \<and>
                 (in_head v = DV_GRAPH_INVALID_INDEX) = (in_tail v = DV_GRAPH_INVALID_INDEX)) }) })"

text \<open>The vertex loop: the number of live vertices and the two degree totals, or \<open>false\<close>.\<close>

function valid_vertices ::
  "u32 \<Rightarrow> 'w dv_graph_t \<Rightarrow> u32 \<Rightarrow> u32 \<Rightarrow> u32 \<Rightarrow> u32 \<Rightarrow> (u32 \<times> u32 \<times> u32) option option"
where
  "valid_vertices n g i act outs ins =
     (if i < n then do {
        v \<leftarrow> vrec g i;
        (if \<not> v_active v then valid_vertices n g (i + 1) act outs ins
         else do {
           ok \<leftarrow> valid_vertex g i v;
           (if \<not> ok then Some None
            else valid_vertices n g (i + 1) (act + 1) (outs + out_degree v) (ins + in_degree v)) }) }
      else Some (Some (act, outs, ins)))"
  by pat_completeness auto
termination
  by (relation "measure (\<lambda>(n, g, i, act, outs, ins). unat n - unat i)")
    (auto simp: unat_Suc_word word_less_nat_alt intro!: diff_less_mono2)

text \<open>The link checks of one live edge: each neighbour, or the end of the list, points back.\<close>

definition valid_edge :: "'w dv_graph_t \<Rightarrow> u32 \<Rightarrow> dv_graph_edge_rec_t \<Rightarrow> bool option" where
  "valid_edge g i e =
     (if e_generation e = 0 then Some False
      else if e_src e \<ge> gr_vertex_watermark g \<or> e_dst e \<ge> gr_vertex_watermark g then Some False
      else do {
        s \<leftarrow> vrec g (e_src e);
        d \<leftarrow> vrec g (e_dst e);
        (if \<not> v_active s \<or> \<not> v_active d then Some False
         else do {
           a \<leftarrow> (if prev_out e = DV_GRAPH_INVALID_INDEX then Some (out_head s = i)
                 else do { p \<leftarrow> erec g (prev_out e); Some (next_out p = i) });
           b \<leftarrow> (if \<not> a then Some False
                 else if next_out e = DV_GRAPH_INVALID_INDEX then Some (out_tail s = i)
                 else do { p \<leftarrow> erec g (next_out e); Some (prev_out p = i) });
           c \<leftarrow> (if \<not> b then Some False
                 else if prev_in e = DV_GRAPH_INVALID_INDEX then Some (in_head d = i)
                 else do { p \<leftarrow> erec g (prev_in e); Some (next_in p = i) });
           (if \<not> c then Some False
            else if next_in e = DV_GRAPH_INVALID_INDEX then Some (in_tail d = i)
            else do { p \<leftarrow> erec g (next_in e); Some (prev_in p = i) }) }) })"

function valid_edges :: "u32 \<Rightarrow> 'w dv_graph_t \<Rightarrow> u32 \<Rightarrow> u32 \<Rightarrow> u32 option option" where
  "valid_edges n g i act =
     (if i < n then do {
        e \<leftarrow> erec g i;
        (if \<not> e_active e then valid_edges n g (i + 1) act
         else do {
           ok \<leftarrow> valid_edge g i e;
           (if \<not> ok then Some None else valid_edges n g (i + 1) (act + 1)) }) }
      else Some (Some act))"
  by pat_completeness auto
termination
  by (relation "measure (\<lambda>(n, g, i, act). unat n - unat i)")
    (auto simp: unat_Suc_word word_less_nat_alt intro!: diff_less_mono2)

definition valid_header :: "'w dv_graph_t \<Rightarrow> bool" where
  "valid_header g \<longleftrightarrow>
     \<not> (gr_vertex_watermark g > gr_vertex_capacity g \<or> gr_edge_watermark g > gr_edge_capacity g) \<and>
     \<not> (gr_vertex_count g > gr_vertex_watermark g \<or> gr_edge_count g > gr_edge_watermark g) \<and>
     \<not> (gr_vertex_watermark g > 0 \<and> gr_vertices g = None) \<and>
     \<not> (gr_edge_watermark g > 0 \<and> gr_edges g = None) \<and>
     \<not> (gr_weighted g \<and> gr_edge_capacity g > 0 \<and>
        (gr_weights g = None \<or> gr_weight_capacity g < gr_edge_capacity g))"

fun dv_graph_is_valid :: "'w dv_graph_t option \<Rightarrow> bool option" where
  "dv_graph_is_valid None = Some False"
| "dv_graph_is_valid (Some g) =
     (if \<not> valid_header g then Some False
      else do {
        vs \<leftarrow> valid_vertices (gr_vertex_watermark g) g 0 0 0 0;
        (case vs of
           None \<Rightarrow> Some False
         | Some (act, outs, ins) \<Rightarrow>
             if act \<noteq> gr_vertex_count g \<or> outs \<noteq> gr_edge_count g \<or> ins \<noteq> gr_edge_count g then Some False
             else do {
               es \<leftarrow> valid_edges (gr_edge_watermark g) g 0 0;
               (if es \<noteq> Some (gr_edge_count g) then Some False
                else do {
                  fv \<leftarrow> dv_graph_free_list_len g True;
                  fe \<leftarrow> (if fv = None then Some None else dv_graph_free_list_len g False);
                  (case (fv, fe) of
                     (Some nv, Some ne) \<Rightarrow>
                       Some (gr_vertex_count g + nv = gr_vertex_watermark g \<and>
                             gr_edge_count g + ne = gr_edge_watermark g)
                   | _ \<Rightarrow> Some False) }) }) })"

declare next_live.simps [simp del] valid_vertices.simps [simp del] valid_edges.simps [simp del]

end
