(* ===== verification/Graph_View.thy ===== *)
theory Graph_View
  imports Graph_Steps Dv_Graph_Walk
begin

text \<open>
  What a client of the graph sees: the live vertices with their generations and the live edges in
  order of insertion, each with its handle, its endpoints and its weight. \<open>represents\<close> is the
  abstraction relation; here the read-only operations are shown to be functions of the view.
\<close>

record graph_edge =
  ge_handle :: dv_edge_t
  ge_src :: u32
  ge_dst :: u32
  ge_weight :: "dbl option"

definition vertex_map :: "'w dv_graph_t \<Rightarrow> u32 \<Rightarrow> u32 option" where
  "vertex_map g v = (if v < gr_vertex_watermark g \<and> v_active (vr g v) then Some (v_generation (vr g v)) else None)"

definition edge_handle :: "'w dv_graph_t \<Rightarrow> u32 \<Rightarrow> dv_edge_t" where
  "edge_handle g e = \<lparr>eh_index = e, eh_generation = e_generation (er g e)\<rparr>"

definition edge_view :: "'w dv_graph_t \<Rightarrow> u32 \<Rightarrow> graph_edge" where
  "edge_view g e = \<lparr>ge_handle = edge_handle g e, ge_src = e_src (er g e), ge_dst = e_dst (er g e),
     ge_weight = (if gr_weighted g then Some (items (gr_weights g) ! unat e) else None)\<rparr>"

definition represents :: "'w dv_graph_t \<Rightarrow> (u32 \<rightharpoonup> u32) \<Rightarrow> graph_edge list \<Rightarrow> bool" where
  "represents g V E \<longleftrightarrow> (\<exists>L VF EF. wf_graph g L VF EF \<and> V = vertex_map g \<and> E = map (edge_view g) L)"

lemma edge_view_simps [simp]:
  "ge_src (edge_view g e) = e_src (er g e)" "ge_dst (edge_view g e) = e_dst (er g e)"
  "ge_handle (edge_view g e) = edge_handle g e" "eh_index (edge_handle g e) = e"
  "eh_generation (edge_handle g e) = e_generation (er g e)"
  by (simp_all add: edge_view_def edge_handle_def)

lemma representsE:
  assumes "represents g V E"
  obtains L VF EF where "wf_graph g L VF EF" "V = vertex_map g" "E = map (edge_view g) L"
  using assms unfolding represents_def by blast

lemma representsI: "wf_graph g L VF EF \<Longrightarrow> represents g (vertex_map g) (map (edge_view g) L)"
  unfolding represents_def by blast

lemma graph_inv_represents: "graph_inv g \<longleftrightarrow> (\<exists>V E. represents g V E)"
  unfolding graph_inv_def represents_def by blast

lemma live_vertex_map: "live g {} = dom (vertex_map g)"
  by (auto simp: live_def live_in_def vertex_map_def split: if_splits)

section \<open>Handles\<close>

lemma vertex_live_iff:
  assumes wf: "wf_gen g L VF EF {} PE"
  shows "dv_graph_vertex_live g v = Some (vertex_map g (vh_index v) = Some (vh_generation v))"
proof -
  note D = wf_genD [OF wf]
  have "v_generation (vr g (vh_index v)) \<noteq> 0" if "vh_index v < gr_vertex_watermark g"
    using vertex_partD(4) [OF D(2)] that by blast
  then show ?thesis
    using mem_range(1) [OF D(1)] by (auto simp: dv_graph_vertex_live_def vertex_map_def vrec_in not_less)
qed

lemma edge_live_iff:
  assumes wf: "wf_gen g L VF EF PV {}"
  shows "dv_graph_edge_live g e = Some (e \<in> edge_handle g ` set L)"
proof -
  note D = wf_genD [OF wf] and ep = edge_partD [OF wf_genD(3) [OF wf]]
  have nz: "e_generation (er g (eh_index e)) \<noteq> 0" if "eh_index e < gr_edge_watermark g" using ep(6) that by blast
  have "e \<in> edge_handle g ` set L \<longleftrightarrow> eh_index e \<in> set L \<and> eh_generation e = e_generation (er g (eh_index e))"
    by (cases e) (auto simp: edge_handle_def image_iff)
  then show ?thesis
    using mem_range(2) [OF D(1)] nz ep(5) [of "eh_index e"]
    by (auto simp: dv_graph_edge_live_def erec_in not_less)
qed

lemma handles_view: "edge_handle g ` set L = ge_handle ` set (map (edge_view g) L)"
  by (simp add: image_image)

section \<open>Finding an edge\<close>

lemma find_filter: "List.find P (filter Q xs) = List.find (\<lambda>x. Q x \<and> P x) xs"
  by (induction xs) auto

lemma scan_out_chain:
  assumes "chain (\<lambda>e. next_out (er g e)) h xs NIL" "NIL \<notin> set xs" "\<And>x. x \<in> set xs \<Longrightarrow> unat x < n_edges g"
  shows "scan_out g b h = Some (case List.find (\<lambda>e. e_dst (er g e) = b) xs of None \<Rightarrow> NIL | Some e \<Rightarrow> e)"
  using assms by (induction xs arbitrary: h) (auto simp: scan_out.simps [of g b] erec_in)

lemma scan_in_chain:
  assumes "chain (\<lambda>e. next_in (er g e)) h xs NIL" "NIL \<notin> set xs" "\<And>x. x \<in> set xs \<Longrightarrow> unat x < n_edges g"
  shows "scan_in g b h = Some (case List.find (\<lambda>e. e_src (er g e) = b) xs of None \<Rightarrow> NIL | Some e \<Rightarrow> e)"
  using assms by (induction xs arbitrary: h) (auto simp: scan_in.simps [of g b] erec_in)

text \<open>The edge of \<open>L\<close> from \<open>a\<close> to \<open>b\<close> that was inserted first.\<close>

definition first_edge :: "'w dv_graph_t \<Rightarrow> u32 list \<Rightarrow> u32 \<Rightarrow> u32 \<Rightarrow> u32 option" where
  "first_edge g L a b = List.find (\<lambda>e. e_src (er g e) = a \<and> e_dst (er g e) = b) L"

definition index_or_nil :: "u32 option \<Rightarrow> u32" where
  "index_or_nil x = (case x of None \<Rightarrow> NIL | Some e \<Rightarrow> e)"

lemma first_edge_in: "first_edge g L a b = Some e \<Longrightarrow> e \<in> set L \<and> e_src (er g e) = a \<and> e_dst (er g e) = b"
  by (auto simp: first_edge_def find_Some_iff)

lemma first_edge_none: "first_edge g L a b = None \<longleftrightarrow> (\<forall>e \<in> set L. \<not> (e_src (er g e) = a \<and> e_dst (er g e) = b))"
  by (auto simp: first_edge_def find_None_iff)

lemma scans:
  assumes wf: "wf_gen g L VF EF PV PE" and v: "v \<in> live g PV"
  shows "scan_out g b (out_head (vr g v)) = Some (index_or_nil (first_edge g L v b))"
    "scan_in g a (in_head (vr g v)) = Some (index_or_nil (first_edge g L a v))"
proof -
  note lp = link_partD [OF wf_genD(4) [OF wf]] and r = wf_range [OF wf]
  have f: "List.find (\<lambda>e. e_dst (er g e) = b) (owned (\<lambda>e. e_src (er g e)) L v) = first_edge g L v b"
    "List.find (\<lambda>e. e_src (er g e) = a) (owned (\<lambda>e. e_dst (er g e)) L v) = first_edge g L a v"
    unfolding owned_def find_filter first_edge_def by (simp_all add: conj_commute)
  show "scan_out g b (out_head (vr g v)) = Some (index_or_nil (first_edge g L v b))"
    using scan_out_chain [OF inc_listsD(1) [OF lp(3) v]] r(1,7) by (simp add: f index_or_nil_def)
  show "scan_in g a (in_head (vr g v)) = Some (index_or_nil (first_edge g L a v))"
    using scan_in_chain [OF inc_listsD(1) [OF lp(4) v]] r(1,7) by (simp add: f index_or_nil_def)
qed

lemma locate_edge_directed:
  assumes wf: "wf_gen g L VF EF PV PE" and v: "a \<in> live g PV" "b \<in> live g PV" and dir: "gr_directed g"
  shows "dv_graph_locate_edge g a b = Some (index_or_nil (first_edge g L a b))"
  using scans [OF wf v(1)] scans [OF wf v(2)] wf_range(4) [OF wf] v dir
  by (simp add: dv_graph_locate_edge_def vrec_in)

text \<open>Undirected, both orientations count; the orientation stored from the vertex of smaller degree comes first.\<close>

lemma locate_edge_undirected:
  assumes wf: "wf_gen g L VF EF PV PE" and v: "a \<in> live g PV" "b \<in> live g PV" and dir: "\<not> gr_directed g"
  obtains x y where "{x, y} = {a, b}" "dv_graph_locate_edge g a b =
    Some (case first_edge g L x y of Some e \<Rightarrow> e | None \<Rightarrow> index_or_nil (first_edge g L y x))"
proof -
  let ?da = "out_degree (vr g a) + in_degree (vr g a)" and ?db = "out_degree (vr g b) + in_degree (vr g b)"
  define x y where "x = (if ?da \<le> ?db then a else b)" and "y = (if ?da \<le> ?db then b else a)"
  have x: "x \<in> live g PV" using v by (simp add: x_def)
  have nn: "first_edge g L x y = Some e \<Longrightarrow> e \<noteq> NIL" for e using first_edge_in wf_range(7) [OF wf] by metis
  have "dv_graph_locate_edge g a b = do {
      e \<leftarrow> scan_out g y (out_head (vr g x));
      if e \<noteq> NIL then Some e else scan_in g y (in_head (vr g x)) }"
    using v dir wf_range(4) [OF wf] by (cases "?da \<le> ?db") (simp_all add: dv_graph_locate_edge_def vrec_in Let_def x_def y_def cong: if_cong)
  also have "\<dots> = Some (case first_edge g L x y of Some e \<Rightarrow> e | None \<Rightarrow> index_or_nil (first_edge g L y x))"
    using nn by (simp add: scans [OF wf x] index_or_nil_def split: option.split)
  finally have loc: "dv_graph_locate_edge g a b = \<dots>" .
  have "{x, y} = {a, b}" by (auto simp: x_def y_def)
  then show thesis using that loc by blast
qed

text \<open>Whether two vertices are joined, in the sense of the graph's mode.\<close>

definition joins :: "bool \<Rightarrow> u32 \<Rightarrow> u32 \<Rightarrow> graph_edge \<Rightarrow> bool" where
  "joins directed a b x \<longleftrightarrow> ge_src x = a \<and> ge_dst x = b \<or> \<not> directed \<and> ge_src x = b \<and> ge_dst x = a"

lemma locate_edge_ok:
  assumes wf: "wf_gen g L VF EF PV PE" and v: "a \<in> live g PV" "b \<in> live g PV"
  obtains "dv_graph_locate_edge g a b = Some NIL" "\<not> (\<exists>x \<in> set (map (edge_view g) L). joins (gr_directed g) a b x)"
  | e where "dv_graph_locate_edge g a b = Some e" "e \<in> set L" "e \<noteq> NIL" "joins (gr_directed g) a b (edge_view g e)"
    "gr_directed g \<Longrightarrow> List.find (joins True a b) (map (edge_view g) L) = Some (edge_view g e)"
proof (cases "gr_directed g")
  case True
  note loc = locate_edge_directed [OF wf v True]
  have fm: "List.find (joins True a b) (map (edge_view g) L) = map_option (edge_view g) (first_edge g L a b)"
    unfolding first_edge_def by (induction L) (auto simp: joins_def)
  show thesis
  proof (cases "first_edge g L a b")
    case None
    then have "dv_graph_locate_edge g a b = Some NIL" using loc by (simp add: index_or_nil_def)
    then show thesis using that(1) None True by (auto simp: first_edge_none joins_def)
  next
    case (Some e)
    then show thesis using that(2) [of e] loc True fm first_edge_in [OF Some] wf_range(7) [OF wf]
      by (auto simp: index_or_nil_def joins_def)
  qed
next
  case False
  obtain x y where xy: "{x, y} = {a, b}" "dv_graph_locate_edge g a b =
    Some (case first_edge g L x y of Some e \<Rightarrow> e | None \<Rightarrow> index_or_nil (first_edge g L y x))"
    by (rule locate_edge_undirected [OF wf v False])
  have j: "joins False a b (edge_view g e) \<longleftrightarrow> e_src (er g e) = x \<and> e_dst (er g e) = y \<or> e_src (er g e) = y \<and> e_dst (er g e) = x" for e
    using xy(1) by (auto simp: joins_def doubleton_eq_iff)
  show thesis
  proof (cases "\<exists>e. first_edge g L x y = Some e \<or> first_edge g L x y = None \<and> first_edge g L y x = Some e")
    case True
    then obtain e where e: "first_edge g L x y = Some e \<or> first_edge g L x y = None \<and> first_edge g L y x = Some e" by blast
    then have m: "e \<in> set L" "joins False a b (edge_view g e)" using first_edge_in j by metis+
    moreover have "dv_graph_locate_edge g a b = Some e" using e xy(2) by (auto simp: index_or_nil_def)
    ultimately show thesis using that(2) [of e] False wf_range(7) [OF wf] by auto
  next
    case none: False
    then have "first_edge g L x y = None" "first_edge g L y x = None" by (metis not_None_eq)+
    moreover from this have "dv_graph_locate_edge g a b = Some NIL" using xy(2) by (simp add: index_or_nil_def)
    ultimately show thesis using that(1) False j by (auto simp: first_edge_none)
  qed
qed

end
