(* ===== verification/Graph_Ops.thy ===== *)
theory Graph_Ops
  imports Graph_View
begin

text \<open>
  The operations of the graph on its invariant: adding and removing vertices and edges, clearing,
  resetting and changing capacities.
\<close>

section \<open>Slots\<close>

lemma took_edge_from:
  assumes "same_content g g1" "took_edge g1 i g'" shows "took_edge g i g'"
proof -
  have c: "graph_core g1 = graph_core g" using assms(1) by (simp add: same_content_def)
  note f = same_contentD [OF assms(1)] and v = same_content_views [OF assms(1)]
  have w: "take (unat (gr_edge_watermark g)) (items (gr_weights g1)) = take (unat (gr_edge_watermark g)) (items (gr_weights g))"
    using assms(1) by (simp add: same_content_def)
  show ?thesis using assms(2) v w unfolding took_edge_def f c by auto
qed

lemma took_vertex_from:
  assumes "same_content g g1" "took_vertex g1 i g'" shows "took_vertex g i g'"
proof -
  have c: "graph_core g1 = graph_core g" using assms(1) by (simp add: same_content_def)
  note f = same_contentD [OF assms(1)] and v = same_content_views [OF assms(1)]
  have w: "take (unat (gr_edge_watermark g)) (items (gr_weights g1)) = take (unat (gr_edge_watermark g)) (items (gr_weights g))"
    using assms(1) by (simp add: same_content_def)
  show ?thesis using assms(2) v w unfolding took_vertex_def f c by auto
qed

lemma take_edge_ok:
  assumes wf: "wf_gen g L VF EF PV {}"
  obtains st i g' w' where "dv_graph_take_edge g w = Some (st, i, g', w')" "st \<in> growth_status"
    "st \<noteq> DV_GRAPH_OK \<Longrightarrow> same_content g g' \<and> wf_gen g' L VF EF PV {}"
    "st = DV_GRAPH_OK \<Longrightarrow> took_edge g i g' \<and> (\<exists>EF'. wf_gen g' L VF EF' PV {i})"
proof (cases "gr_edge_free g = NIL")
  case False
  note D = wf_genD [OF wf]
  let ?i = "gr_edge_free g"
  obtain EF' where EF: "EF = ?i # EF'" using False chain_head [OF edge_partD(1) [OF D(3)]] by (cases EF) auto
  note pop = edge_part_pop [OF D(3) [unfolded EF]]
  let ?g = "g\<lparr>gr_edge_free := next_out (er g ?i)\<rparr>"
  have "wf_gen ?g L VF EF' PV {?i}" using D pop by (simp add: wf_gen_def live_def)
  moreover have "took_edge g ?i ?g" using pop by (simp add: took_edge_def graph_core_def)
  moreover have "dv_graph_take_edge g w = Some (DV_GRAPH_OK, ?i, ?g, w)"
    using False mem_range(2) [OF D(1) pop(2)] by (simp add: dv_graph_take_edge_def erec_in)
  ultimately show thesis using that by blast
next
  case nil: True
  note D = wf_genD [OF wf]
  have EF: "EF = []" using nil chain_head [OF edge_partD(1) [OF D(3)]] wf_range(8) [OF wf] by (cases EF) auto
  define grow where "grow = (if gr_edge_watermark g = gr_edge_capacity g then dv_graph_grow_edges g w else Some (DV_GRAPH_OK, g, w))"
  have le: "gr_edge_watermark g \<le> gr_edge_capacity g" by (rule graph_policy(4) [OF D(1)])
  obtain st g1 w1 where g1: "grow = Some (st, g1, w1)" "graph_mem g1" "same_content g g1" "st \<in> growth_status"
    "st = DV_GRAPH_OK \<Longrightarrow> gr_edge_watermark g < gr_edge_capacity g1"
  proof (cases "gr_edge_watermark g = gr_edge_capacity g")
    case True
    then show thesis using that by (rule_tac grow_edges_ok [OF D(1), of w]) (auto simp: grow_def)
  next
    case False
    then show thesis using that [of DV_GRAPH_OK g w] D(1) le by (simp add: grow_def)
  qed
  have wf1: "wf_gen g1 L VF [] PV {}" using wf_same_content [OF wf g1(3,2)] EF by simp
  note f = same_contentD [OF g1(3)]
  show thesis
  proof (cases "st = DV_GRAPH_OK")
    case False
    then have "dv_graph_take_edge g w = Some (st, 0, g1, w1)"
      using nil g1(1) by (simp add: dv_graph_take_edge_def grow_def [symmetric])
    then show thesis using that False g1(3,4) wf1 EF by blast
  next
    case True
    obtain g' where t: "put_erec (g1\<lparr>gr_edge_watermark := gr_edge_watermark g1 + 1\<rparr>) (gr_edge_watermark g1) (\<lambda>e. e\<lparr>e_generation := 1\<rparr>) = Some g'"
      "wf_gen g' L VF [] PV {gr_edge_watermark g1}" "took_edge g1 (gr_edge_watermark g1) g'"
      using take_fresh_edge [OF wf1] g1(5) [OF True] nil by (auto simp: f)
    then have "dv_graph_take_edge g w = Some (DV_GRAPH_OK, gr_edge_watermark g1, g', w1)"
      using nil g1(1) True by (simp add: dv_graph_take_edge_def grow_def [symmetric])
    then show thesis using that t(2) took_edge_from [OF g1(3) t(3)] by blast
  qed
qed

lemma take_vertex_ok:
  assumes wf: "wf_gen g L VF EF {} PE"
  obtains st i g' w' where "dv_graph_take_vertex g w = Some (st, i, g', w')" "st \<in> growth_status"
    "st \<noteq> DV_GRAPH_OK \<Longrightarrow> same_content g g' \<and> wf_gen g' L VF EF {} PE"
    "st = DV_GRAPH_OK \<Longrightarrow> took_vertex g i g' \<and> (\<exists>VF'. wf_gen g' L VF' EF {i} PE)"
proof (cases "gr_vertex_free g = NIL")
  case False
  note D = wf_genD [OF wf]
  let ?i = "gr_vertex_free g"
  obtain VF' where VF: "VF = ?i # VF'" using False chain_head [OF vertex_partD(1) [OF D(2)]] by (cases VF) auto
  note pop = vertex_part_pop [OF D(2) [unfolded VF]]
  let ?g = "g\<lparr>gr_vertex_free := out_head (vr g ?i)\<rparr>"
  have "live ?g {?i} = live g {}" using pop by (auto simp: live_def live_in_def)
  then have "wf_gen ?g L VF' EF {?i} PE" using D pop VF by (simp add: wf_gen_def)
  moreover have "took_vertex g ?i ?g" using pop by (simp add: took_vertex_def graph_core_def)
  moreover have "dv_graph_take_vertex g w = Some (DV_GRAPH_OK, ?i, ?g, w)"
    using False mem_range(1) [OF D(1) pop(2)] by (simp add: dv_graph_take_vertex_def vrec_in)
  ultimately show thesis using that by blast
next
  case nil: True
  note D = wf_genD [OF wf]
  have VF: "VF = []" using nil chain_head [OF vertex_partD(1) [OF D(2)]] wf_range(9) [OF wf] by (cases VF) auto
  define grow where "grow = (if gr_vertex_watermark g = gr_vertex_capacity g then dv_graph_grow_vertices g w else Some (DV_GRAPH_OK, g, w))"
  have le: "gr_vertex_watermark g \<le> gr_vertex_capacity g" by (rule graph_policy(3) [OF D(1)])
  obtain st g1 w1 where g1: "grow = Some (st, g1, w1)" "graph_mem g1" "same_content g g1" "st \<in> growth_status"
    "st = DV_GRAPH_OK \<Longrightarrow> gr_vertex_watermark g < gr_vertex_capacity g1"
  proof (cases "gr_vertex_watermark g = gr_vertex_capacity g")
    case True
    then show thesis using that by (rule_tac grow_vertices_ok [OF D(1), of w]) (auto simp: grow_def)
  next
    case False
    then show thesis using that [of DV_GRAPH_OK g w] D(1) le by (simp add: grow_def)
  qed
  have wf1: "wf_gen g1 L [] EF {} PE" using wf_same_content [OF wf g1(3,2)] VF by simp
  note f = same_contentD [OF g1(3)]
  show thesis
  proof (cases "st = DV_GRAPH_OK")
    case False
    then have "dv_graph_take_vertex g w = Some (st, 0, g1, w1)"
      using nil g1(1) by (simp add: dv_graph_take_vertex_def grow_def [symmetric])
    then show thesis using that False g1(3,4) wf1 VF by blast
  next
    case True
    obtain g' where t: "put_vrec (g1\<lparr>gr_vertex_watermark := gr_vertex_watermark g1 + 1\<rparr>) (gr_vertex_watermark g1) (\<lambda>e. e\<lparr>v_generation := 1\<rparr>) = Some g'"
      "wf_gen g' L [] EF {gr_vertex_watermark g1} PE" "took_vertex g1 (gr_vertex_watermark g1) g'"
      using take_fresh_vertex [OF wf1] g1(5) [OF True] nil by (auto simp: f)
    then have "dv_graph_take_vertex g w = Some (DV_GRAPH_OK, gr_vertex_watermark g1, g', w1)"
      using nil g1(1) True by (simp add: dv_graph_take_vertex_def grow_def [symmetric])
    then show thesis using that t(2) took_vertex_from [OF g1(3) t(3)] by blast
  qed
qed

section \<open>Linking\<close>

lemma edge_part_use:
  assumes p: "edge_part es n free L EF {i}"
    and a: "\<And>x. e_active (es' x) = (e_active (es x) \<or> x = i)" "\<And>x. e_generation (es' x) = e_generation (es x)"
    and nx: "\<And>x. x \<in> set EF \<Longrightarrow> next_out (es' x) = next_out (es x)"
  shows "edge_part es' n free (L @ [i]) EF {}"
proof -
  note q = edge_partD [OF p]
  have "chain (\<lambda>x. next_out (es' x)) free EF NIL = chain (\<lambda>x. next_out (es x)) free EF NIL"
    using nx by (intro chain_cong) auto
  moreover have "x \<in> set EF \<longleftrightarrow> x < n \<and> \<not> e_active (es' x) \<and> x \<notin> {}" for x using q(3) [of x] by (auto simp: a)
  moreover have "x \<in> set (L @ [i]) \<longleftrightarrow> x < n \<and> e_active (es' x) \<and> x \<notin> {}" for x
    using q(5) [of x] q(7) [of x] by (auto simp: a)
  moreover have "i \<notin> set L" using q(5) [of i] by simp
  ultimately show ?thesis using q(1,2,4,6) by (simp add: edge_part_def a)
qed

lemma length_less_watermark:
  assumes "distinct L" "\<And>x. x \<in> set L \<Longrightarrow> x < n" "i < n" "i \<notin> set L" shows "length L < unat (n :: u32)"
proof -
  have "unat ` set (i # L) \<subseteq> {..<unat n}" using assms(2,3) by (auto simp: word_less_nat_alt)
  moreover have "card (unat ` set (i # L)) = length (i # L)"
    using assms(1,4) by (subst card_image) (auto simp: inj_on_def word_unat_eq_iff distinct_card)
  ultimately show ?thesis using card_mono [of "{..<unat n}" "unat ` set (i # L)"] by simp
qed

lemma link_edge_ok:
  assumes wf: "wf_gen g L VF EF {} {i}" and s: "s \<in> live g {}" and d: "d \<in> live g {}"
  obtains g' where "dv_graph_link_edge g i s d = Some g'"
    "wf_graph (g'\<lparr>gr_edge_count := gr_edge_count g + 1\<rparr>) (L @ [i]) VF EF"
    "g' = g\<lparr>gr_vertices := gr_vertices g', gr_edges := gr_edges g'\<rparr>"
    "\<And>x. e_src (er g' x) = (if x = i then s else e_src (er g x))" "\<And>x. e_dst (er g' x) = (if x = i then d else e_dst (er g x))"
    "\<And>x. e_generation (er g' x) = e_generation (er g x)"
    "\<And>x. v_active (vr g' x) = v_active (vr g x)" "\<And>x. v_generation (vr g' x) = v_generation (vr g x)"
    "unat i < n_edges g'"
proof -
  note D = wf_genD [OF wf] and r = wf_range [OF wf]
  note ep = edge_partD [OF D(3)] and lp = link_partD [OF D(4)]
  have i: "i < gr_edge_watermark g" "unat i < n_edges g" "i \<notin> set L" using ep(7) r(3) ep(5) [of i] by auto
  have tl: "t \<noteq> NIL \<Longrightarrow> t \<in> set L" if "inc_lists key nxt prv hh tt deg (live g {}) L" "v \<in> live g {}" "t = tt v" for key nxt prv hh tt deg v t
    using inc_lists_tail [OF that(1,2) r(7)] that(3) last_in_set [of "owned key L v"] by auto
  note to = tl [OF lp(3) s refl] and ti = tl [OF lp(4) d refl]
  show thesis
  proof (rule link_edge_views [OF r(4) [OF s] r(4) [OF d] i(2)], goal_cases)
    case (3 g1)
    note u = 3
    define g' where "g' = g1\<lparr>gr_edge_count := gr_edge_count g + 1\<rparr>"
    have f: "gr_edge_watermark g' = gr_edge_watermark g" "gr_vertex_watermark g' = gr_vertex_watermark g"
      "gr_vertex_free g' = gr_vertex_free g" "gr_vertex_count g' = gr_vertex_count g" "gr_edge_free g' = gr_edge_free g"
      "gr_edge_count g' = gr_edge_count g + 1" unfolding g'_def by (subst u(2), simp)+
    have vw: "er g' = er g1" "vr g' = vr g1" by (simp_all add: g'_def)
    have srcs: "e_src (er g1 x) = (if x = i then s else e_src (er g x))" "e_dst (er g1 x) = (if x = i then d else e_dst (er g x))"
      "e_active (er g1 x) = (e_active (er g x) \<or> x = i)" "e_generation (er g1 x) = e_generation (er g x)" for x
      using u(7-10) by (simp_all add: fun_eq_iff)
    have vs: "v_active (vr g1 x) = v_active (vr g x)" "v_generation (vr g1 x) = v_generation (vr g x)" for x
      using u(21,22) by (simp_all add: fun_eq_iff)
    have lv: "live g' {} = live g {}" unfolding live_def f vw by (rule live_in_cong) (simp add: vs)
    have mem: "graph_mem g'" using graph_mem_pools [OF D(1) u(2-6)] by (simp add: g'_def)
    have vf: "x \<noteq> s" if "x \<in> set VF" for x using vf_not_live [OF wf that] s by auto
    have "vertex_part (vr g') (gr_vertex_watermark g') (gr_vertex_free g') VF {}" unfolding f vw
      using fun_cong [OF u(15)] vf by (intro vertex_part_cong [OF D(2)]) (auto simp: vs)
    moreover have "edge_part (er g') (gr_edge_watermark g') (gr_edge_free g') (L @ [i]) EF {}" unfolding f vw
    proof (rule edge_part_use [OF D(3) srcs(3,4)])
      fix x assume x: "x \<in> set EF"
      have "x \<noteq> i" "x \<notin> set L" using x ep(3,5) [of x] by auto
      then show "next_out (er g1 x) = next_out (er g x)" using fun_cong [OF u(11), of x] to by (auto split: if_splits)
    qed
    moreover have "link_part (er g') (vr g') (live g' {}) (L @ [i])"
    proof -
      have "inc_lists (\<lambda>e. e_src (er g1 e)) (\<lambda>e. next_out (er g1 e)) (\<lambda>e. prev_out (er g1 e))
         (\<lambda>v. out_head (vr g1 v)) (\<lambda>v. out_tail (vr g1 v)) (\<lambda>v. out_degree (vr g1 v)) (live g {}) (L @ [i])"
        unfolding u(7) u(11,12) u(15-17) by (rule inc_lists_append [OF lp(3) s i(3) r(7) ep(4)])
      moreover have "inc_lists (\<lambda>e. e_dst (er g1 e)) (\<lambda>e. next_in (er g1 e)) (\<lambda>e. prev_in (er g1 e))
         (\<lambda>v. in_head (vr g1 v)) (\<lambda>v. in_tail (vr g1 v)) (\<lambda>v. in_degree (vr g1 v)) (live g {}) (L @ [i])"
        unfolding u(8) u(13,14) u(18-20) by (rule inc_lists_append [OF lp(4) d i(3) r(7) ep(4)])
      ultimately show ?thesis unfolding lv vw link_part_def using lp(1,2) s d srcs(1,2) by auto
    qed
    moreover have "unat (gr_edge_count g') = length (L @ [i])"
      using length_less_watermark [OF ep(4) _ i(1,3)] ep(5) D(6) unat_Suc_word [of "gr_edge_count g" "gr_edge_watermark g"]
      by (simp add: f)
    ultimately have "wf_graph g' (L @ [i]) VF EF" using mem D(5) by (simp add: wf_gen_def f)
    then show ?case using that [OF u(1) _ u(2) srcs(1,2,4) vs] i(2) u(4) by (simp add: g'_def)
  next
    case 1 then show ?case using to r(1) i(3) by auto
  next
    case 2 then show ?case using ti r(1) i(3) by auto
  qed
qed

section \<open>Configuration, version and weights\<close>

definition config_of :: "'w dv_graph_t \<Rightarrow> dv_graph_config_t" where
  "config_of g = \<lparr>gcf_directed = gr_directed g, gcf_weighted = gr_weighted g, gcf_growable = gr_growable g,
     gcf_cache_aligned = gr_cache_aligned g, gcf_reject_parallel_edges = gr_reject_parallel_edges g,
     gcf_reject_self_loops = gr_reject_self_loops g, gcf_initial_vertex_capacity = gr_initial_vertex_capacity g,
     gcf_initial_edge_capacity = gr_initial_edge_capacity g, gcf_max_vertex_capacity = gr_max_vertex_capacity g,
     gcf_max_edge_capacity = gr_max_edge_capacity g\<rparr>"

text \<open>The version counter with the update phase.\<close>

definition phase_of :: "'w dv_graph_t \<Rightarrow> u64 \<times> bool \<times> bool" where
  "phase_of g = (gr_version g, gr_in_update g, gr_update_dirty g)"

lemma core_config: "graph_core g' = graph_core g \<Longrightarrow> config_of g' = config_of g \<and> phase_of g' = phase_of g"
proof -
  assume c: "graph_core g' = graph_core g"
  have "gr_cache_aligned g' = gr_cache_aligned g" using arg_cong [OF c, of gr_cache_aligned] by (simp add: graph_core_def)
  then show ?thesis using core_fields [OF c] by (simp add: config_of_def phase_of_def)
qed

lemma same_content_config: "same_content g g' \<Longrightarrow> config_of g' = config_of g \<and> phase_of g' = phase_of g"
  by (rule core_config) (unfold same_content_def, blast)

lemma wf_phase [simp]:
  "wf_gen (g\<lparr>gr_version := k\<rparr>) L VF EF PV PE = wf_gen g L VF EF PV PE"
  "wf_gen (g\<lparr>gr_in_update := b\<rparr>) L VF EF PV PE = wf_gen g L VF EF PV PE"
  "wf_gen (g\<lparr>gr_update_dirty := b\<rparr>) L VF EF PV PE = wf_gen g L VF EF PV PE"
  by (simp_all add: wf_gen_def live_def)

lemma wf_touch [simp]: "wf_gen (dv_graph_touch g) L VF EF PV PE = wf_gen g L VF EF PV PE"
  by (simp add: dv_graph_touch_def)

lemma view_phase [simp]:
  "vertex_map (g\<lparr>gr_version := k\<rparr>) = vertex_map g" "vertex_map (g\<lparr>gr_in_update := b\<rparr>) = vertex_map g"
  "vertex_map (g\<lparr>gr_update_dirty := b\<rparr>) = vertex_map g" "vertex_map (dv_graph_touch g) = vertex_map g"
  "edge_view (g\<lparr>gr_version := k\<rparr>) = edge_view g" "edge_view (g\<lparr>gr_in_update := b\<rparr>) = edge_view g"
  "edge_view (g\<lparr>gr_update_dirty := b\<rparr>) = edge_view g" "edge_view (dv_graph_touch g) = edge_view g"
  by (simp_all add: fun_eq_iff vertex_map_def edge_view_def edge_handle_def dv_graph_touch_def)

lemma represents_touch [simp]: "represents (dv_graph_touch g) V E = represents g V E"
  by (simp add: represents_def)

lemma config_touch [simp]: "config_of (dv_graph_touch g) = config_of g"
  by (simp add: config_of_def dv_graph_touch_def)

lemma phase_touch: "phase_of g' = phase_of g \<Longrightarrow> phase_of (dv_graph_touch g') = phase_of (dv_graph_touch g)"
  by (simp add: phase_of_def dv_graph_touch_def)

lemma watermark_touch [simp]: "gr_vertex_watermark (dv_graph_touch g) = gr_vertex_watermark g"
  "gr_edge_watermark (dv_graph_touch g) = gr_edge_watermark g"
  by (simp_all add: dv_graph_touch_def)

lemma er_touch [simp]: "er (dv_graph_touch g) = er g" "vr (dv_graph_touch g) = vr g"
  "erec (dv_graph_touch g) i = erec g i" "vrec (dv_graph_touch g) i = vrec g i"
  by (simp_all add: dv_graph_touch_def erec_def vrec_def)

lemma put_weight_ok:
  assumes mem: "graph_mem g" and i: "unat i < n_edges g"
  obtains p where "put_weight g i x = Some (g\<lparr>gr_weights := p\<rparr>)" "graph_mem (g\<lparr>gr_weights := p\<rparr>)"
    "gr_weighted g \<Longrightarrow> items p = (items (gr_weights g))[unat i := x] \<and> unat i < length (items (gr_weights g))"
    "\<not> gr_weighted g \<Longrightarrow> p = gr_weights g"
proof (cases "gr_weighted g")
  case True
  have l: "unat i < length (items (gr_weights g))"
    using graph_mem_facts(5,6,9) [OF mem] True i by (simp add: sized_def)
  then obtain a where a: "gr_weights g = Some a" by (cases "gr_weights g") auto
  have "put_weight g i x = Some (g\<lparr>gr_weights := Some (a\<lparr>arr_items := (arr_items a)[unat i := x]\<rparr>)\<rparr>)"
    using a l by (simp add: put_weight_def arr_set_def)
  moreover have "graph_mem (g\<lparr>gr_weights := Some (a\<lparr>arr_items := (arr_items a)[unat i := x]\<rparr>)\<rparr>)"
    using mem a True by (simp add: graph_mem_def sized_def)
  ultimately show thesis using that True a l by simp
next
  case False
  then have "gr_weights g = None" using mem by (simp add: graph_mem_def)
  moreover from this have e: "g\<lparr>gr_weights := None\<rparr> = g" by simp
  have "graph_mem (g\<lparr>gr_weights := None\<rparr>)" unfolding e by (rule mem)
  ultimately show thesis using that [of None] False by (simp add: put_weight_def)
qed

lemma views_weights [simp]: "vr (g\<lparr>gr_weights := p\<rparr>) = vr g" "er (g\<lparr>gr_weights := p\<rparr>) = er g"
  by (simp_all add: fun_eq_iff vr_def er_def)

lemma wf_weights: "wf_gen g L VF EF PV PE \<Longrightarrow> graph_mem (g\<lparr>gr_weights := p\<rparr>) \<Longrightarrow> wf_gen (g\<lparr>gr_weights := p\<rparr>) L VF EF PV PE"
  by (simp add: wf_gen_def live_def)

lemma same_content_view:
  assumes wf: "wf_graph g L VF EF" and sc: "same_content g g'"
  shows "vertex_map g' = vertex_map g" "map (edge_view g') L = map (edge_view g) L"
proof -
  note f = same_contentD [OF sc] and v = same_content_views [OF sc]
  show "vertex_map g' = vertex_map g" by (rule ext) (simp add: vertex_map_def f v cong: conj_cong)
  have "items (gr_weights g') ! unat e = items (gr_weights g) ! unat e" if "e < gr_edge_watermark g" for e
    using sc that unfolding same_content_def by (metis nth_take word_less_nat_alt)
  then show "map (edge_view g') L = map (edge_view g) L"
    using v(2) edge_partD(5) [OF wf_genD(3) [OF wf]] by (auto simp: edge_view_def edge_handle_def f)
qed

lemma same_content_represents:
  assumes rep: "represents g V E" and sc: "same_content g g'" and mem: "graph_mem g'"
  shows "represents g' V E"
proof -
  obtain L VF EF where wf: "wf_graph g L VF EF" and V: "V = vertex_map g" and E: "E = map (edge_view g) L"
    using representsE [OF rep] by blast
  show ?thesis using representsI [OF wf_same_content [OF wf sc mem]] same_content_view [OF wf sc] by (simp add: V E)
qed

section \<open>Adding an edge\<close>

lemma took_edgeD:
  assumes "took_edge g i g'"
  shows "config_of g' = config_of g" "phase_of g' = phase_of g" "vertex_map g' = vertex_map g"
    "e < gr_edge_watermark g \<Longrightarrow> e_src (er g' e) = e_src (er g e) \<and> e_dst (er g' e) = e_dst (er g e)"
    "e < gr_edge_watermark g \<Longrightarrow> edge_view g' e = edge_view g e" "gr_edge_count g' = gr_edge_count g"
    "gr_weighted g' = gr_weighted g"
proof -
  have c: "graph_core g' = (graph_core g)\<lparr>gr_edge_free := gr_edge_free g', gr_edge_watermark := gr_edge_watermark g'\<rparr>"
    using assms by (simp add: took_edge_def)
  have f: "gr_version g' = gr_version g" "gr_in_update g' = gr_in_update g" "gr_update_dirty g' = gr_update_dirty g"
    "gr_vertex_watermark g' = gr_vertex_watermark g" "gr_edge_count g' = gr_edge_count g"
    "gr_directed g' = gr_directed g" "gr_weighted g' = gr_weighted g" "gr_growable g' = gr_growable g"
    "gr_cache_aligned g' = gr_cache_aligned g" "gr_reject_parallel_edges g' = gr_reject_parallel_edges g"
    "gr_reject_self_loops g' = gr_reject_self_loops g" "gr_initial_vertex_capacity g' = gr_initial_vertex_capacity g"
    "gr_initial_edge_capacity g' = gr_initial_edge_capacity g" "gr_max_vertex_capacity g' = gr_max_vertex_capacity g"
    "gr_max_edge_capacity g' = gr_max_edge_capacity g"
    using arg_cong [OF c, of gr_version] arg_cong [OF c, of gr_in_update] arg_cong [OF c, of gr_update_dirty]
      arg_cong [OF c, of gr_vertex_watermark] arg_cong [OF c, of gr_edge_count] arg_cong [OF c, of gr_directed]
      arg_cong [OF c, of gr_weighted] arg_cong [OF c, of gr_growable] arg_cong [OF c, of gr_cache_aligned]
      arg_cong [OF c, of gr_reject_parallel_edges] arg_cong [OF c, of gr_reject_self_loops]
      arg_cong [OF c, of gr_initial_vertex_capacity] arg_cong [OF c, of gr_initial_edge_capacity]
      arg_cong [OF c, of gr_max_vertex_capacity] arg_cong [OF c, of gr_max_edge_capacity]
    by (simp_all add: graph_core_def)
  show "config_of g' = config_of g" "phase_of g' = phase_of g" "gr_edge_count g' = gr_edge_count g" "gr_weighted g' = gr_weighted g"
    by (simp_all add: config_of_def phase_of_def f)
  have v: "v < gr_vertex_watermark g \<Longrightarrow> vr g' v = vr g v" and e: "e < gr_edge_watermark g \<Longrightarrow> er g' e = er g e" for v e
    using assms by (simp_all add: took_edge_def)
  show "vertex_map g' = vertex_map g" using v by (auto simp: fun_eq_iff vertex_map_def f)
  show "e < gr_edge_watermark g \<Longrightarrow> e_src (er g' e) = e_src (er g e) \<and> e_dst (er g' e) = e_dst (er g e)" using e by simp
  have "items (gr_weights g') ! unat e = items (gr_weights g) ! unat e" if "e < gr_edge_watermark g"
    using assms that unfolding took_edge_def by (metis nth_take word_less_nat_alt)
  then show "e < gr_edge_watermark g \<Longrightarrow> edge_view g' e = edge_view g e"
    using e by (simp add: edge_view_def edge_handle_def f)
qed

lemma took_edge_gen:
  assumes "took_edge g i g'"
  shows "if i < gr_edge_watermark g then \<not> e_active (er g i) \<and> e_generation (er g' i) = e_generation (er g i)
    else e_generation (er g' i) = 1"
proof -
  have "if i < gr_edge_watermark g then \<not> e_active (er g i) else i = gr_edge_watermark g \<and> e_generation (er g' i) = 1"
    "i < gr_edge_watermark g \<Longrightarrow> er g' i = er g i" using assms unfolding took_edge_def by blast+
  then show ?thesis by (simp split: if_splits)
qed

text \<open>The checks before the insertion, as a function of the view.\<close>

definition edge_admission :: "'w dv_graph_t \<Rightarrow> (u32 \<rightharpoonup> u32) \<Rightarrow> graph_edge list \<Rightarrow> dv_vertex_t \<Rightarrow> dv_vertex_t \<Rightarrow> dv_graph_status_t" where
  "edge_admission g V E src dst =
     (if V (vh_index src) \<noteq> Some (vh_generation src) \<or> V (vh_index dst) \<noteq> Some (vh_generation dst) then DV_GRAPH_ERR_STALE
      else if gr_reject_self_loops g \<and> vh_index src = vh_index dst then DV_GRAPH_ERR_INVALID
      else if gr_reject_parallel_edges g \<and> (\<exists>x \<in> set E. joins (gr_directed g) (vh_index src) (vh_index dst) x) then DV_GRAPH_ERR_EXISTS
      else DV_GRAPH_OK)"

lemma add_edge_status_ok:
  assumes wf: "wf_graph g L VF EF"
  shows "add_edge_status g src dst = Some (edge_admission g (vertex_map g) (map (edge_view g) L) src dst)"
proof -
  let ?E = "map (edge_view g) L" and ?a = "vh_index src" and ?b = "vh_index dst"
  note lv = vertex_live_iff [OF wf]
  show ?thesis
  proof (cases "vertex_map g ?a = Some (vh_generation src) \<and> vertex_map g ?b = Some (vh_generation dst)")
    case False
    then show ?thesis by (auto simp: add_edge_status_def edge_admission_def lv)
  next
    case True
    then have ab: "?a \<in> live g {}" "?b \<in> live g {}" by (auto simp: live_vertex_map)
    have "\<exists>e. dv_graph_locate_edge g ?a ?b = Some e \<and> (e \<noteq> NIL) = (\<exists>x \<in> set ?E. joins (gr_directed g) ?a ?b x)"
      by (rule locate_edge_ok [OF wf ab]) auto
    then show ?thesis using True by (auto simp: add_edge_status_def edge_admission_def lv)
  qed
qed

text \<open>The new edge behind the others, whatever slot it got.\<close>

lemma insert_edge_ok:
  assumes wf: "wf_graph g L VF EF" and took: "took_edge g i g1" and wf1: "wf_gen g1 L VF EF' {} {i}"
    and s: "s \<in> dom (vertex_map g)" and d: "d \<in> dom (vertex_map g)"
  obtains g2 g3 where "dv_graph_link_edge g1 i s d = Some g2" "put_weight g2 i x = Some g3"
    "wf_graph (g3\<lparr>gr_edge_count := gr_edge_count g3 + 1\<rparr>) (L @ [i]) VF EF'"
    "vertex_map (g3\<lparr>gr_edge_count := gr_edge_count g3 + 1\<rparr>) = vertex_map g"
    "map (edge_view (g3\<lparr>gr_edge_count := gr_edge_count g3 + 1\<rparr>)) (L @ [i]) = map (edge_view g) L @
       [\<lparr>ge_handle = edge_handle g3 i, ge_src = s, ge_dst = d, ge_weight = (if gr_weighted g then Some x else None)\<rparr>]"
    "config_of g3 = config_of g" "phase_of g3 = phase_of g" "unat i < n_edges g3" "e_generation (er g3 i) = e_generation (er g1 i)"
    "slots_kept g1 g3"
proof -
  note t = took_edgeD [OF took]
  have sd: "s \<in> live g1 {}" "d \<in> live g1 {}" using s d by (simp_all add: live_vertex_map t)
  show thesis
  proof (rule link_edge_ok [OF wf1 sd], goal_cases)
    case (1 g2)
    note l = 1
    obtain v es where g2: "g2 = g1\<lparr>gr_vertices := v, gr_edges := es\<rparr>" using l(3) by blast
    have "graph_mem g2" using wf_genD(1) [OF l(2)] by simp
    then obtain p where p: "put_weight g2 i x = Some (g2\<lparr>gr_weights := p\<rparr>)" "graph_mem (g2\<lparr>gr_weights := p\<rparr>)"
      "gr_weighted g2 \<Longrightarrow> items p = (items (gr_weights g2))[unat i := x] \<and> unat i < length (items (gr_weights g2))"
      "\<not> gr_weighted g2 \<Longrightarrow> p = gr_weights g2"
      using put_weight_ok [of g2 i x] l(9) by blast
    let ?g3 = "g2\<lparr>gr_weights := p\<rparr>"
    let ?g = "?g3\<lparr>gr_edge_count := gr_edge_count ?g3 + 1\<rparr>"
    have eq: "?g = (g2\<lparr>gr_edge_count := gr_edge_count g1 + 1\<rparr>)\<lparr>gr_weights := p\<rparr>" by (simp add: g2)
    have mem: "graph_mem ((g2\<lparr>gr_edge_count := gr_edge_count g1 + 1\<rparr>)\<lparr>gr_weights := p\<rparr>)"
      unfolding eq [symmetric] graph_mem_counters by (rule p(2))
    have wf2: "wf_graph ?g (L @ [i]) VF EF'" unfolding eq by (rule wf_weights [OF l(2) mem])
    have fields: "gr_weighted ?g = gr_weighted g" "gr_vertex_watermark ?g = gr_vertex_watermark g1" "gr_weights g2 = gr_weights g1"
      "gr_weighted g2 = gr_weighted g" by (simp_all add: g2 t)
    have vm: "vertex_map ?g = vertex_map g"
      unfolding t(3) [symmetric] by (rule ext) (simp add: vertex_map_def l(7,8) fields(2) [simplified])
    have nw: "e < gr_edge_watermark g" "e \<noteq> i" if "e \<in> set L" for e
      using edge_partD(5) [OF wf_genD(3) [OF wf]] edge_partD(5) [OF wf_genD(3) [OF wf1]] that by auto
    have old: "edge_view ?g e = edge_view g e" if "e \<in> set L" for e
    proof -
      have "edge_view g1 e = edge_view g e" using t(5) nw [OF that] by blast
      moreover have "edge_view ?g e = edge_view g1 e"
        using nw(2) [OF that] p(3) fields by (auto simp: edge_view_def edge_handle_def l(4-6) t(7) nth_list_update word_unat_eq_iff)
      ultimately show ?thesis by simp
    qed
    have new: "edge_view ?g i = \<lparr>ge_handle = edge_handle ?g3 i, ge_src = s, ge_dst = d, ge_weight = (if gr_weighted g then Some x else None)\<rparr>"
      using p(3) fields by (auto simp: edge_view_def edge_handle_def l(4,5))
    have cfg: "config_of ?g3 = config_of g" "phase_of ?g3 = phase_of g"
      using t(1,2) by (simp_all add: g2 config_of_def phase_of_def)
    have l9: "unat i < n_edges ?g3" "e_generation (er ?g3 i) = e_generation (er g1 i)" using l(6,9) by simp_all
    have kept: "slots_kept g1 ?g3" by (simp add: slots_kept_def l(6,8)) (simp add: g2)
    show ?case using that [OF l(1) p(1) wf2 vm _ cfg l9 kept] old new by simp
  qed
qed

lemma add_edge_ok:
  assumes rep: "represents g V E"
  obtains st g' h w' where "dv_graph_add_edge (Some g) src dst x w = Some (st, Some g', h, w')" "config_of g' = config_of g"
    "edge_admission g V E src dst \<noteq> DV_GRAPH_OK \<Longrightarrow> st = edge_admission g V E src dst \<and> g' = g \<and> w' = w"
    "edge_admission g V E src dst = DV_GRAPH_OK \<Longrightarrow> st \<in> growth_status"
    "st \<noteq> DV_GRAPH_OK \<Longrightarrow> h = None \<and> represents g' V E \<and> phase_of g' = phase_of g"
    "st = DV_GRAPH_OK \<Longrightarrow> \<exists>e. h = Some e \<and> eh_index e \<notin> eh_index ` ge_handle ` set E \<and> phase_of g' = phase_of (dv_graph_touch g) \<and>
       represents g' V (E @ [\<lparr>ge_handle = e, ge_src = vh_index src, ge_dst = vh_index dst,
         ge_weight = (if gr_weighted g then Some x else None)\<rparr>]) \<and>
       (if eh_index e < gr_edge_watermark g then \<not> e_active (er g (eh_index e)) \<and> eh_generation e = e_generation (er g (eh_index e))
        else eh_generation e = 1)"
    "slots_kept g g'"
proof -
  obtain L VF EF where wf: "wf_graph g L VF EF" and V: "V = vertex_map g" and E: "E = map (edge_view g) L"
    using representsE [OF rep] by blast
  note chk = add_edge_status_ok [OF wf, of src dst, folded V E]
  let ?ad = "edge_admission g V E src dst"
  show thesis
  proof (cases "?ad = DV_GRAPH_OK")
    case False
    then have "dv_graph_add_edge (Some g) src dst x w = Some (?ad, Some g, None, w)" by (simp add: chk)
    then show thesis using that [OF _ _ _ _ _ _ slots_kept_refl] False rep by blast
  next
    case ad: True
    then have sd: "vh_index src \<in> dom (vertex_map g)" "vh_index dst \<in> dom (vertex_map g)"
      by (auto simp: edge_admission_def V split: if_splits)
    obtain st i g1 w1 where t: "dv_graph_take_edge g w = Some (st, i, g1, w1)" "st \<in> growth_status"
      "st \<noteq> DV_GRAPH_OK \<Longrightarrow> same_content g g1 \<and> wf_graph g1 L VF EF"
      "st = DV_GRAPH_OK \<Longrightarrow> took_edge g i g1 \<and> (\<exists>EF'. wf_gen g1 L VF EF' {} {i})"
    proof (rule take_edge_ok [OF wf, of w], goal_cases)
      case (1 st i g1 w1)
      show ?case by (rule 1(1) [OF 1(2,3,4,5)])
    qed
    show thesis
    proof (cases "st = DV_GRAPH_OK")
      case False
      then have "dv_graph_add_edge (Some g) src dst x w = Some (st, Some g1, None, w1)" by (simp add: chk ad t(1))
      moreover have sc: "same_content g g1" and wf1: "wf_graph g1 L VF EF" using t(3) False by blast+
      have c: "config_of g1 = config_of g" "phase_of g1 = phase_of g" using same_content_config [OF sc] by blast+
      have "represents g1 V E" using same_content_represents [OF rep sc wf_genD(1) [OF wf1]] .
      ultimately show thesis using that [OF _ _ _ _ _ _ slots_kept_content [OF sc]] t(2) False ad c by blast
    next
      case True
      then obtain EF' where took: "took_edge g i g1" and wf1: "wf_gen g1 L VF EF' {} {i}" using t(4) by blast
      show thesis
      proof (rule insert_edge_ok [OF wf took wf1 sd, where x = x], goal_cases)
        case (1 g2 g3)
        note n = 1
        let ?g = "g3\<lparr>gr_edge_count := gr_edge_count g3 + 1\<rparr>"
        have call: "dv_graph_add_edge (Some g) src dst x w =
            Some (DV_GRAPH_OK, Some (dv_graph_touch ?g), Some (edge_handle g3 i), w1)"
        proof -
          have "erec (dv_graph_touch ?g) i = Some (er g3 i)" using n(8) by (simp add: erec_in)
          then show ?thesis
            by (simp only: dv_graph_add_edge.simps chk ad t(1) True n(1,2) Option.bind.bind_lunit prod.case
                Let_def edge_handle_def not_True_eq_False simp_thms if_False)
        qed
        have r: "represents (dv_graph_touch ?g) V (E @ [\<lparr>ge_handle = edge_handle g3 i, ge_src = vh_index src,
            ge_dst = vh_index dst, ge_weight = (if gr_weighted g then Some x else None)\<rparr>])"
          using representsI [OF n(3)] unfolding n(4,5) by (simp add: V E)
        have iE: "i \<notin> eh_index ` ge_handle ` set E"
          using edge_partD(5) [OF wf_genD(3) [OF wf1], of i] by (auto simp: E edge_handle_def image_image)
        have gen: "if i < gr_edge_watermark g then \<not> e_active (er g i) \<and> e_generation (er g3 i) = e_generation (er g i)
            else e_generation (er g3 i) = 1" unfolding n(9) by (rule took_edge_gen [OF took])
        have pc: "phase_of ?g = phase_of g" "config_of ?g = config_of g" using n(6,7) by (simp_all add: phase_of_def config_of_def)
        have ph: "phase_of (dv_graph_touch ?g) = phase_of (dv_graph_touch g)" "config_of (dv_graph_touch ?g) = config_of g"
          by (rule phase_touch [OF pc(1)], simp only: config_touch pc(2))
        have "\<exists>e. Some (edge_handle g3 i) = Some e \<and> eh_index e \<notin> eh_index ` ge_handle ` set E \<and>
            phase_of (dv_graph_touch ?g) = phase_of (dv_graph_touch g) \<and>
            represents (dv_graph_touch ?g) V (E @ [\<lparr>ge_handle = e, ge_src = vh_index src, ge_dst = vh_index dst,
              ge_weight = (if gr_weighted g then Some x else None)\<rparr>]) \<and>
            (if eh_index e < gr_edge_watermark g then \<not> e_active (er g (eh_index e)) \<and> eh_generation e = e_generation (er g (eh_index e))
             else eh_generation e = 1)"
          unfolding option.inject by (rule exI, rule conjI [OF refl], unfold edge_view_simps) (intro conjI iE ph(1) r gen)
        moreover have "slots_kept g (dv_graph_touch ?g)"
          using slots_kept_trans [OF slots_kept_took(1) [OF took] n(10)] by (simp add: slots_kept_def)
        ultimately show ?case using that [OF call ph(2)] ad by blast
      qed
    qed
  qed
qed

section \<open>Removing edges\<close>

lemma dropped_view:
  assumes "dropped g D g'"
  shows "vertex_map g' = vertex_map g" "e \<notin> D \<Longrightarrow> edge_view g' e = edge_view g e" "config_of g' = config_of g"
    "phase_of g' = phase_of g" "gr_vertex_watermark g' = gr_vertex_watermark g" "gr_edge_watermark g' = gr_edge_watermark g"
    "gr_directed g' = gr_directed g" "gr_vertex_free g' = gr_vertex_free g" "gr_vertex_count g' = gr_vertex_count g"
proof -
  note d = droppedD [OF assms]
  obtain v es f c where g': "g' = g\<lparr>gr_vertices := v, gr_edges := es, gr_edge_free := f, gr_edge_count := c\<rparr>" using d(1) by blast
  have k: "gr_weighted g' = gr_weighted g" "gr_weights g' = gr_weights g" by (simp_all add: g')
  show w: "gr_vertex_watermark g' = gr_vertex_watermark g" "gr_edge_watermark g' = gr_edge_watermark g"
    "gr_directed g' = gr_directed g" "gr_vertex_free g' = gr_vertex_free g" "gr_vertex_count g' = gr_vertex_count g"
    "config_of g' = config_of g" "phase_of g' = phase_of g" by (simp_all add: g' config_of_def phase_of_def)
  show "vertex_map g' = vertex_map g" by (rule ext) (simp add: vertex_map_def w d(8,9))
  show "e \<notin> D \<Longrightarrow> edge_view g' e = edge_view g e" by (simp add: edge_view_def edge_handle_def d(4,5,7) k)
qed

lemma released_edges:
  assumes "wf_gen g L VF EF PV PE" "e \<in> set L"
  shows "map (edge_view g) (remove1 e L) = filter (\<lambda>x. ge_handle x \<noteq> edge_handle g e) (map (edge_view g) L)"
proof -
  have "distinct L" using edge_partD(4) [OF wf_genD(3) [OF assms(1)]] .
  then have "remove1 e L = filter (\<lambda>x. x \<noteq> e) L" by (simp add: distinct_remove1_removeAll removeAll_filter_not_eq neq_commute)
  moreover have "edge_handle g x = edge_handle g e \<longleftrightarrow> x = e" for x by (auto simp: edge_handle_def)
  ultimately show ?thesis by (simp add: filter_map o_def)
qed

lemma release_represents:
  assumes wf: "wf_graph g L VF EF" and e: "e \<in> set L"
  obtains g' where "dv_graph_release_edge g e = Some g'" "dropped g {e} g'"
    "represents g' (vertex_map g) (filter (\<lambda>x. ge_handle x \<noteq> edge_handle g e) (map (edge_view g) L))"
proof (rule release_edge_ok [OF wf e], goal_cases)
  case (1 g')
  have "e \<notin> set (remove1 e L)" using edge_partD(4) [OF wf_genD(3) [OF wf]] by simp
  then have "map (edge_view g') (remove1 e L) = map (edge_view g) (remove1 e L)"
    using dropped_view(2) [OF 1(4)] by (metis map_cong singletonD)
  then show ?case using 1(1) [OF 1(2,4)] representsI [OF 1(3)] released_edges [OF wf e] dropped_view(1) [OF 1(4)] by simp
qed

lemma remove_edge_ok:
  assumes rep: "represents g V E"
  obtains st g' where "dv_graph_remove_edge (Some g) h = Some (st, Some g')" "config_of g' = config_of g"
    "h \<notin> ge_handle ` set E \<Longrightarrow> st = DV_GRAPH_ERR_STALE \<and> g' = g"
    "h \<in> ge_handle ` set E \<Longrightarrow> st = DV_GRAPH_OK \<and> represents g' V (filter (\<lambda>x. ge_handle x \<noteq> h) E) \<and>
       phase_of g' = phase_of (dv_graph_touch g) \<and> \<not> e_active (er g' (eh_index h)) \<and>
       e_generation (er g' (eh_index h)) = dv_graph_bump (eh_generation h) \<and> eh_index h < gr_edge_watermark g'"
proof -
  obtain L VF EF where wf: "wf_graph g L VF EF" and V: "V = vertex_map g" and E: "E = map (edge_view g) L"
    using representsE [OF rep] by blast
  have lv: "dv_graph_edge_live g h = Some (h \<in> ge_handle ` set E)"
    using edge_live_iff [OF wf] unfolding E handles_view .
  show thesis
  proof (cases "h \<in> ge_handle ` set E")
    case False
    then have "dv_graph_remove_edge (Some g) h = Some (DV_GRAPH_ERR_STALE, Some g)" by (simp add: lv)
    then show thesis using that False by blast
  next
    case True
    then obtain e where e: "e \<in> set L" and h: "h = edge_handle g e" by (auto simp: E)
    show thesis
    proof (rule release_represents [OF wf e], goal_cases)
      case (1 g1)
      have c: "dv_graph_remove_edge (Some g) h = Some (DV_GRAPH_OK, Some (dv_graph_touch g1))" using lv True 1(1) unfolding h by simp
      have pc: "config_of (dv_graph_touch g1) = config_of g" "phase_of (dv_graph_touch g1) = phase_of (dv_graph_touch g)"
        using dropped_view(3,4) [OF 1(2)] by (simp, rule_tac phase_touch, simp)
      have r: "represents (dv_graph_touch g1) V (filter (\<lambda>x. ge_handle x \<noteq> h) E)" using 1(3) by (simp add: V E h)
      have "\<not> e_active (er g1 e)" "e_generation (er g1 e) = dv_graph_bump (e_generation (er g e))"
        using droppedD(6,7) [OF 1(2)] by simp_all
      then have "\<not> e_active (er (dv_graph_touch g1) (eh_index h))"
        "e_generation (er (dv_graph_touch g1) (eh_index h)) = dv_graph_bump (eh_generation h)" by (simp_all add: h)
      moreover have "eh_index h < gr_edge_watermark (dv_graph_touch g1)"
        using dropped_view(6) [OF 1(2)] e edge_partD(5) [OF wf_genD(3) [OF wf]] by (simp add: h edge_handle_def)
      ultimately show ?case using that [OF c pc(1)] True r pc(2) by blast
    qed
  qed
qed

text \<open>The two loops of \<open>dv_graph_remove_vertex\<close> empty a list from its head, whatever order it is in.\<close>

lemma filter_remove1_other: "distinct L \<Longrightarrow> \<not> P e \<Longrightarrow> filter P (remove1 e L) = filter P L"
  by (induction L) auto

lemma release_out_ok:
  assumes "wf_gen g L VF EF PV {}" "v \<in> live g PV"
  shows "\<exists>g' EF'. release_out g (out_head (vr g v)) = Some g' \<and>
    wf_gen g' (filter (\<lambda>e. e_src (er g e) \<noteq> v) L) VF EF' PV {} \<and> dropped g {e \<in> set L. e_src (er g e) = v} g'"
  using assms
proof (induction "owned (\<lambda>e. e_src (er g e)) L v" arbitrary: g L EF)
  case Nil
  then have none: "\<forall>e \<in> set L. e_src (er g e) \<noteq> v" by (metis (mono_tags, lifting) filter_empty_conv owned_def)
  then have s: "{e \<in> set L. e_src (er g e) = v} = {}" "filter (\<lambda>e. e_src (er g e) \<noteq> v) L = L" by auto
  have "out_head (vr g v) = NIL"
    using inc_lists_tail(3) [OF link_partD(3) [OF wf_genD(4) [OF Nil.prems(1)]] Nil.prems(2) wf_range(7) [OF Nil.prems(1)]] Nil(1) by simp
  then have "release_out g (out_head (vr g v)) = Some g" by (simp add: release_out.simps)
  then show ?case unfolding s using Nil.prems(1) dropped_refl by blast
next
  case (Cons e es)
  note wf = Cons.prems(1) and v = Cons.prems(2)
  note lp = link_partD [OF wf_genD(4) [OF wf]] and dL = edge_partD(4) [OF wf_genD(3) [OF wf]]
  have eL: "e \<in> set L" "e_src (er g e) = v" 
    using Cons(2) list.set_intros(1) [of e es] by (simp_all add: owned_simps(3) [of "\<lambda>e. e_src (er g e)" L v])
  have ch: "out_head (vr g v) = e" "chain (\<lambda>e. next_out (er g e)) (next_out (er g e)) es NIL"
    using inc_listsD(1) [OF lp(3) v] Cons(2) [symmetric] by simp_all
  obtain g1 where g1: "dv_graph_release_edge g e = Some g1" "wf_gen g1 (remove1 e L) VF (e # EF) PV {}" "dropped g {e} g1"
    by (rule release_edge_ok [OF wf eL(1)])
  note d = droppedD [OF g1(3)]
  have v1: "v \<in> live g1 PV" using v by (simp add: live_def live_in_def d(8) dropped_view(5) [OF g1(3)])
  have own: "owned (\<lambda>e. e_src (er g1 e)) (remove1 e L) v = es"
  proof -
    have "owned (\<lambda>e. e_src (er g e)) (remove1 e L) v = remove1 e (e # es)"
      using Cons(2) dL by (simp add: owned_def List.filter_remove1)
    then show ?thesis by (simp add: d(4))
  qed
  have nx: "out_head (vr g1 v) = next_out (er g e)"
    using chain_head [OF inc_listsD(1) [OF link_partD(3) [OF wf_genD(4) [OF g1(2)]] v1]] chain_head [OF ch(2)] own by simp
  obtain g' EF' where g': "release_out g1 (out_head (vr g1 v)) = Some g'"
    "wf_gen g' (filter (\<lambda>e. e_src (er g1 e) \<noteq> v) (remove1 e L)) VF EF' PV {}"
    "dropped g1 {x \<in> set (remove1 e L). e_src (er g1 x) = v} g'"
    using Cons(1) [OF own [symmetric] g1(2) v1] by blast
  have "release_out g (out_head (vr g v)) = Some g'"
    using g'(1) g1(1) wf_range(1) [OF wf eL(1)] wf_range(7) [OF wf] eL(1)
    by (auto simp: release_out.simps [of g] ch(1) erec_in nx)
  moreover have "filter (\<lambda>e. e_src (er g1 e) \<noteq> v) (remove1 e L) = filter (\<lambda>e. e_src (er g e) \<noteq> v) L"
    using filter_remove1_other [OF dL] eL(2) by (simp add: d(4))
  moreover have "{e} \<union> {x \<in> set (remove1 e L). e_src (er g1 x) = v} = {x \<in> set L. e_src (er g x) = v}"
    using eL dL by (auto simp: d(4))
  moreover have "{e} \<inter> {x \<in> set (remove1 e L). e_src (er g1 x) = v} = {}" using dL by auto
  ultimately show ?case using g'(2) dropped_trans [OF g1(3) g'(3)] by auto
qed

lemma release_in_ok:
  assumes "wf_gen g L VF EF PV {}" "v \<in> live g PV"
  shows "\<exists>g' EF'. release_in g (in_head (vr g v)) = Some g' \<and>
    wf_gen g' (filter (\<lambda>e. e_dst (er g e) \<noteq> v) L) VF EF' PV {} \<and> dropped g {e \<in> set L. e_dst (er g e) = v} g'"
  using assms
proof (induction "owned (\<lambda>e. e_dst (er g e)) L v" arbitrary: g L EF)
  case Nil
  then have none: "\<forall>e \<in> set L. e_dst (er g e) \<noteq> v" by (metis (mono_tags, lifting) filter_empty_conv owned_def)
  then have s: "{e \<in> set L. e_dst (er g e) = v} = {}" "filter (\<lambda>e. e_dst (er g e) \<noteq> v) L = L" by auto
  have "in_head (vr g v) = NIL"
    using inc_lists_tail(3) [OF link_partD(4) [OF wf_genD(4) [OF Nil.prems(1)]] Nil.prems(2) wf_range(7) [OF Nil.prems(1)]] Nil(1) by simp
  then have "release_in g (in_head (vr g v)) = Some g" by (simp add: release_in.simps)
  then show ?case unfolding s using Nil.prems(1) dropped_refl by blast
next
  case (Cons e es)
  note wf = Cons.prems(1) and v = Cons.prems(2)
  note lp = link_partD [OF wf_genD(4) [OF wf]] and dL = edge_partD(4) [OF wf_genD(3) [OF wf]]
  have eL: "e \<in> set L" "e_dst (er g e) = v" 
    using Cons(2) list.set_intros(1) [of e es] by (simp_all add: owned_simps(3) [of "\<lambda>e. e_dst (er g e)" L v])
  have ch: "in_head (vr g v) = e" "chain (\<lambda>e. next_in (er g e)) (next_in (er g e)) es NIL"
    using inc_listsD(1) [OF lp(4) v] Cons(2) [symmetric] by simp_all
  obtain g1 where g1: "dv_graph_release_edge g e = Some g1" "wf_gen g1 (remove1 e L) VF (e # EF) PV {}" "dropped g {e} g1"
    by (rule release_edge_ok [OF wf eL(1)])
  note d = droppedD [OF g1(3)]
  have v1: "v \<in> live g1 PV" using v by (simp add: live_def live_in_def d(8) dropped_view(5) [OF g1(3)])
  have own: "owned (\<lambda>e. e_dst (er g1 e)) (remove1 e L) v = es"
  proof -
    have "owned (\<lambda>e. e_dst (er g e)) (remove1 e L) v = remove1 e (e # es)"
      using Cons(2) dL by (simp add: owned_def List.filter_remove1)
    then show ?thesis by (simp add: d(5))
  qed
  have nx: "in_head (vr g1 v) = next_in (er g e)"
    using chain_head [OF inc_listsD(1) [OF link_partD(4) [OF wf_genD(4) [OF g1(2)]] v1]] chain_head [OF ch(2)] own by simp
  obtain g' EF' where g': "release_in g1 (in_head (vr g1 v)) = Some g'"
    "wf_gen g' (filter (\<lambda>e. e_dst (er g1 e) \<noteq> v) (remove1 e L)) VF EF' PV {}"
    "dropped g1 {x \<in> set (remove1 e L). e_dst (er g1 x) = v} g'"
    using Cons(1) [OF own [symmetric] g1(2) v1] by blast
  have "release_in g (in_head (vr g v)) = Some g'"
    using g'(1) g1(1) wf_range(1) [OF wf eL(1)] wf_range(7) [OF wf] eL(1)
    by (auto simp: release_in.simps [of g] ch(1) erec_in nx)
  moreover have "filter (\<lambda>e. e_dst (er g1 e) \<noteq> v) (remove1 e L) = filter (\<lambda>e. e_dst (er g e) \<noteq> v) L"
    using filter_remove1_other [OF dL] eL(2) by (simp add: d(5))
  moreover have "{e} \<union> {x \<in> set (remove1 e L). e_dst (er g1 x) = v} = {x \<in> set L. e_dst (er g x) = v}"
    using eL dL by (auto simp: d(5))
  moreover have "{e} \<inter> {x \<in> set (remove1 e L). e_dst (er g1 x) = v} = {}" using dL by auto
  ultimately show ?case using g'(2) dropped_trans [OF g1(3) g'(3)] by auto
qed

section \<open>Vertices\<close>

lemma put_vrec_views:
  assumes mem: "graph_mem g" and i: "unat i < n_vertices g"
  obtains g' where "put_vrec g i f = Some g'" "graph_mem g'" "vr g' = (vr g)(i := f (vr g i))" "er g' = er g"
    "g' = g\<lparr>gr_vertices := gr_vertices g'\<rparr>" "n_vertices g' = n_vertices g"
proof
  show "put_vrec g i f = Some (upd_v g i f)" by (rule put_vrec_in [OF i])
  show "graph_mem (upd_v g i f)" by (rule graph_mem_pools [OF mem]) (simp_all add: upd_v_def items_set_items)
  show "vr (upd_v g i f) = (vr g)(i := f (vr g i))" "er (upd_v g i f) = er g" by (rule vr_upd_v [OF i], simp)
qed (simp_all add: upd_v_def items_set_items)

text \<open>A live vertex without edges leaves the graph.\<close>

lemma vertex_part_retire:
  assumes p: "vertex_part vs n free VF {}" and v: "v < n" "v_active (vs v)"
    and vs': "vs' = vs(v := r)" "\<not> v_active r" "v_generation r \<noteq> 0" "out_head r = free"
  shows "vertex_part vs' n v (v # VF) {}"
proof -
  note q = vertex_partD [OF p]
  have nv: "v \<notin> set VF" using q(3) [of v] v by simp
  have "chain (\<lambda>x. out_head (vs' x)) free VF NIL = chain (\<lambda>x. out_head (vs x)) free VF NIL"
    using nv by (intro chain_cong) (auto simp: vs')
  then have "chain (\<lambda>x. out_head (vs' x)) v (v # VF) NIL" using q(1) vs' by simp
  moreover have "x \<in> set (v # VF) \<longleftrightarrow> x < n \<and> \<not> v_active (vs' x) \<and> x \<notin> {}" for x using q(3) [of x] v vs' by auto
  moreover have "v_generation (vs' x) \<noteq> 0" if "x < n" for x using q(4) that vs' by simp
  ultimately show ?thesis using nv q(2) by (simp add: vertex_part_def)
qed

lemma retire_vertex_ok:
  assumes wf: "wf_graph g L VF EF" and v: "v \<in> live g {}" and free: "\<forall>e \<in> set L. e_src (er g e) \<noteq> v \<and> e_dst (er g e) \<noteq> v"
    and g1: "graph_mem g1" "er g1 = er g" "g1 = g\<lparr>gr_vertices := gr_vertices g1\<rparr>"
      "vr g1 = (vr g)(v := (vr g v)\<lparr>v_active := False, v_generation := dv_graph_bump (v_generation (vr g v)), out_head := gr_vertex_free g\<rparr>)"
  shows "wf_graph (g1\<lparr>gr_vertex_free := v, gr_vertex_count := gr_vertex_count g1 - 1\<rparr>) L (v # VF) EF"
    "vertex_map (g1\<lparr>gr_vertex_free := v, gr_vertex_count := gr_vertex_count g1 - 1\<rparr>) = (vertex_map g)(v := None)"
proof -
  let ?g = "g1\<lparr>gr_vertex_free := v, gr_vertex_count := gr_vertex_count g1 - 1\<rparr>"
  note D = wf_genD [OF wf]
  obtain p where p: "g1 = g\<lparr>gr_vertices := p\<rparr>" using g1(3) by blast
  have vn: "v < gr_vertex_watermark g" "v_active (vr g v)" using v by (auto simp: live_def live_in_def)
  have f: "gr_vertex_watermark ?g = gr_vertex_watermark g" "gr_edge_watermark ?g = gr_edge_watermark g"
    "gr_edge_free ?g = gr_edge_free g" "gr_edge_count ?g = gr_edge_count g" "gr_vertex_free ?g = v"
    "gr_vertex_count ?g = gr_vertex_count g - 1" by (simp_all add: p)
  have vw: "er ?g = er g" "vr ?g = vr g1" using g1(2) by simp_all
  have lv: "live ?g {} = live g {} - {v}"
    unfolding live_def live_in_def f vw by (auto simp: g1(4) split: if_splits)
  have vp: "vertex_part (vr ?g) (gr_vertex_watermark ?g) (gr_vertex_free ?g) (v # VF) {}"
    unfolding f vw by (rule vertex_part_retire [OF D(2) vn g1(4)]) simp_all
  have "link_part (er g) (vr g) (live g {} - {v}) L"
    using link_partD [OF D(4)] free inc_lists_mono [of _ _ _ _ _ _ "live g {}" L "live g {} - {v}"]
    unfolding link_part_def by auto
  then have "link_part (er ?g) (vr ?g) (live ?g {}) L"
    unfolding lv vw by (rule link_part_agree) (auto simp: g1(4))
  moreover have "unat (gr_vertex_count ?g) + length (v # VF) + card ({} :: u32 set) = unat (gr_vertex_watermark ?g)"
  proof -
    have "length VF < unat (gr_vertex_watermark g)"
      using vertex_partD(2,3) [OF D(2)] vn by (intro length_less_watermark [OF _ _ vn(1)]) auto
    then have "gr_vertex_count g \<noteq> 0" using D(5) by auto
    then have "unat (gr_vertex_count g - 1) = unat (gr_vertex_count g) - 1" "unat (gr_vertex_count g) \<noteq> 0"
      by (simp_all add: unat_minus_one unat_eq_zero)
    then show ?thesis using D(5) unfolding f by simp
  qed
  moreover have "graph_mem ?g" using g1(1) by simp
  ultimately show "wf_graph ?g L (v # VF) EF" using vp D(3,6) unfolding wf_gen_def f vw by simp
  show "vertex_map ?g = (vertex_map g)(v := None)"
    unfolding vertex_map_def f vw by (rule ext) (simp add: g1(4))
qed

lemma remove_vertex_ok:
  assumes rep: "represents g V E"
  obtains st g' where "dv_graph_remove_vertex (Some g) h = Some (st, Some g')" "config_of g' = config_of g"
    "V (vh_index h) \<noteq> Some (vh_generation h) \<Longrightarrow> st = DV_GRAPH_ERR_STALE \<and> g' = g"
    "V (vh_index h) = Some (vh_generation h) \<Longrightarrow> st = DV_GRAPH_OK \<and>
       represents g' (V(vh_index h := None)) (filter (\<lambda>x. ge_src x \<noteq> vh_index h \<and> ge_dst x \<noteq> vh_index h) E) \<and>
       phase_of g' = phase_of (dv_graph_touch g) \<and> v_generation (vr g' (vh_index h)) = dv_graph_bump (vh_generation h) \<and>
       vh_index h < gr_vertex_watermark g'"
proof -
  obtain L VF EF where wf: "wf_graph g L VF EF" and V: "V = vertex_map g" and E: "E = map (edge_view g) L"
    using representsE [OF rep] by blast
  let ?v = "vh_index h"
  note lv = vertex_live_iff [OF wf, of h, folded V]
  show thesis
  proof (cases "V ?v = Some (vh_generation h)")
    case False
    then have "dv_graph_remove_vertex (Some g) h = Some (DV_GRAPH_ERR_STALE, Some g)" by (simp add: lv)
    then show thesis using that False by blast
  next
    case True
    then have v: "?v \<in> live g {}" and gen: "v_generation (vr g ?v) = vh_generation h"
      by (auto simp: live_vertex_map V vertex_map_def split: if_splits)
    obtain g1 EF1 where g1: "release_out g (out_head (vr g ?v)) = Some g1"
      "wf_graph g1 (filter (\<lambda>e. e_src (er g e) \<noteq> ?v) L) VF EF1" "dropped g {e \<in> set L. e_src (er g e) = ?v} g1"
      using release_out_ok [OF wf v] by blast
    note d1 = droppedD [OF g1(3)] and w1 = dropped_view [OF g1(3)]
    let ?L1 = "filter (\<lambda>e. e_src (er g e) \<noteq> ?v) L"
    have v1: "?v \<in> live g1 {}" using v by (simp add: live_vertex_map w1(1))
    obtain g2 EF2 where g2: "release_in g1 (in_head (vr g1 ?v)) = Some g2"
      "wf_graph g2 (filter (\<lambda>e. e_dst (er g1 e) \<noteq> ?v) ?L1) VF EF2" "dropped g1 {e \<in> set ?L1. e_dst (er g1 e) = ?v} g2"
      using release_in_ok [OF g1(2) v1] by blast
    note d2 = droppedD [OF g2(3)] and w2 = dropped_view [OF g2(3)]
    let ?L2 = "filter (\<lambda>e. e_dst (er g1 e) \<noteq> ?v) ?L1"
    have v2: "?v \<in> live g2 {}" using v1 by (simp add: live_vertex_map w2(1))
    have ends: "\<forall>e \<in> set ?L2. e_src (er g2 e) \<noteq> ?v \<and> e_dst (er g2 e) \<noteq> ?v" using d1(4,5) d2(4,5) by simp
    have rng: "unat ?v < n_vertices g" "unat ?v < n_vertices g1" "unat ?v < n_vertices g2"
      using wf_range(4) [OF wf v] wf_range(4) [OF g1(2) v1] wf_range(4) [OF g2(2) v2] by simp_all
    obtain g3 where g3: "put_vrec g2 ?v (\<lambda>v. v\<lparr>v_active := False, v_generation := dv_graph_bump (v_generation v),
        out_head := gr_vertex_free g2\<rparr>) = Some g3" "graph_mem g3"
      "vr g3 = (vr g2)(?v := (vr g2 ?v)\<lparr>v_active := False, v_generation := dv_graph_bump (v_generation (vr g2 ?v)), out_head := gr_vertex_free g2\<rparr>)"
      "er g3 = er g2" "g3 = g2\<lparr>gr_vertices := gr_vertices g3\<rparr>"
      by (rule put_vrec_views [OF wf_genD(1) [OF g2(2)] rng(3)])
    let ?g = "g3\<lparr>gr_vertex_free := ?v, gr_vertex_count := gr_vertex_count g3 - 1\<rparr>"
    note ret = retire_vertex_ok [OF g2(2) v2 ends g3(2,4,5,3)]
    have call: "dv_graph_remove_vertex (Some g) h = Some (DV_GRAPH_OK, Some (dv_graph_touch ?g))"
      using g1(1) g2(1) g3(1) rng True by (simp add: lv vrec_in)
    have vm: "vertex_map ?g = V(?v := None)" unfolding ret(2) w2(1) w1(1) V ..
    have ed: "map (edge_view ?g) ?L2 = filter (\<lambda>x. ge_src x \<noteq> ?v \<and> ge_dst x \<noteq> ?v) E"
    proof -
      obtain p where p: "g3 = g2\<lparr>gr_vertices := p\<rparr>" using g3(5) by blast
      have "edge_view ?g e = edge_view g2 e" for e using g3(4) by (simp add: edge_view_def edge_handle_def p)
      moreover have "edge_view g2 e = edge_view g e" if "e \<in> set ?L2" for e using w2(2) w1(2) that by simp
      moreover have "?L2 = filter (\<lambda>e. e_src (er g e) \<noteq> ?v \<and> e_dst (er g e) \<noteq> ?v) L" by (simp add: d1(5) conj_commute)
      ultimately show ?thesis by (simp add: E filter_map o_def d1(5) cong: map_cong)
    qed
    have pc: "config_of ?g = config_of g" "phase_of ?g = phase_of g"
    proof -
      obtain p where p: "g3 = g2\<lparr>gr_vertices := p\<rparr>" using g3(5) by blast
      show "config_of ?g = config_of g" "phase_of ?g = phase_of g"
        unfolding w1(3,4) [symmetric] w2(3,4) [symmetric] by (simp_all add: p config_of_def phase_of_def)
    qed
    have r: "represents (dv_graph_touch ?g) (V(?v := None)) (filter (\<lambda>x. ge_src x \<noteq> ?v \<and> ge_dst x \<noteq> ?v) E)"
      using representsI [OF ret(1)] unfolding vm ed by simp
    have gn: "v_generation (vr (dv_graph_touch ?g) ?v) = dv_graph_bump (vh_generation h)"
      using gen by (simp add: g3(3) d2(9) d1(9))
    have wm: "gr_vertex_watermark (dv_graph_touch ?g) = gr_vertex_watermark g"
    proof -
      obtain p where p: "g3 = g2\<lparr>gr_vertices := p\<rparr>" using g3(5) by blast
      show ?thesis unfolding w1(5) [symmetric] w2(5) [symmetric] by (simp add: p)
    qed
    have "?v < gr_vertex_watermark (dv_graph_touch ?g)" unfolding wm using v by (simp add: live_def live_in_def)
    then show thesis using that [OF call] r gn phase_touch [OF pc(2)] pc(1) True by simp
  qed
qed

lemma took_vertexD:
  assumes "took_vertex g i g'"
  shows "config_of g' = config_of g" "phase_of g' = phase_of g"
    "e < gr_edge_watermark g \<Longrightarrow> edge_view g' e = edge_view g e"
    "v < gr_vertex_watermark g \<Longrightarrow> vr g' v = vr g v" "gr_vertex_count g' = gr_vertex_count g"
    "if i < gr_vertex_watermark g then \<not> v_active (vr g i) \<and> gr_vertex_watermark g' = gr_vertex_watermark g
      else i = gr_vertex_watermark g \<and> v_generation (vr g' i) = 1 \<and> gr_vertex_watermark g' = gr_vertex_watermark g + 1 \<and>
        gr_vertex_watermark g < gr_vertex_watermark g'"
proof -
  have c: "graph_core g' = (graph_core g)\<lparr>gr_vertex_free := gr_vertex_free g', gr_vertex_watermark := gr_vertex_watermark g'\<rparr>"
    using assms unfolding took_vertex_def by blast
  have f: "gr_version g' = gr_version g" "gr_in_update g' = gr_in_update g" "gr_update_dirty g' = gr_update_dirty g"
    "gr_vertex_count g' = gr_vertex_count g"
    "gr_directed g' = gr_directed g" "gr_weighted g' = gr_weighted g" "gr_growable g' = gr_growable g"
    "gr_cache_aligned g' = gr_cache_aligned g" "gr_reject_parallel_edges g' = gr_reject_parallel_edges g"
    "gr_reject_self_loops g' = gr_reject_self_loops g" "gr_initial_vertex_capacity g' = gr_initial_vertex_capacity g"
    "gr_initial_edge_capacity g' = gr_initial_edge_capacity g" "gr_max_vertex_capacity g' = gr_max_vertex_capacity g"
    "gr_max_edge_capacity g' = gr_max_edge_capacity g"
    using arg_cong [OF c, of gr_version] arg_cong [OF c, of gr_in_update] arg_cong [OF c, of gr_update_dirty]
      arg_cong [OF c, of gr_vertex_count] arg_cong [OF c, of gr_directed]
      arg_cong [OF c, of gr_weighted] arg_cong [OF c, of gr_growable] arg_cong [OF c, of gr_cache_aligned]
      arg_cong [OF c, of gr_reject_parallel_edges] arg_cong [OF c, of gr_reject_self_loops]
      arg_cong [OF c, of gr_initial_vertex_capacity] arg_cong [OF c, of gr_initial_edge_capacity]
      arg_cong [OF c, of gr_max_vertex_capacity] arg_cong [OF c, of gr_max_edge_capacity]
    by (simp_all add: graph_core_def)
  show "config_of g' = config_of g" "phase_of g' = phase_of g" "gr_vertex_count g' = gr_vertex_count g"
    by (simp_all add: config_of_def phase_of_def f)
  show "v < gr_vertex_watermark g \<Longrightarrow> vr g' v = vr g v"
    "if i < gr_vertex_watermark g then \<not> v_active (vr g i) \<and> gr_vertex_watermark g' = gr_vertex_watermark g
      else i = gr_vertex_watermark g \<and> v_generation (vr g' i) = 1 \<and> gr_vertex_watermark g' = gr_vertex_watermark g + 1 \<and>
        gr_vertex_watermark g < gr_vertex_watermark g'"
    using assms unfolding took_vertex_def by blast+
  have e: "er g' e = er g e" if "e < gr_edge_watermark g" using assms that unfolding took_vertex_def by blast
  have "items (gr_weights g') ! unat e = items (gr_weights g) ! unat e" if "e < gr_edge_watermark g"
    using assms that unfolding took_vertex_def by (metis nth_take word_less_nat_alt)
  then show "e < gr_edge_watermark g \<Longrightarrow> edge_view g' e = edge_view g e"
    using e by (simp add: edge_view_def edge_handle_def f)
qed

text \<open>No slot but the taken one changes its state.\<close>

lemma took_vertex_live:
  assumes took: "took_vertex g i g'" and x: "x \<noteq> i"
  shows "(x < gr_vertex_watermark g' \<and> v_active (vr g' x)) = (x < gr_vertex_watermark g \<and> v_active (vr g x))"
proof -
  note tk = took_vertexD [OF took]
  have "gr_vertex_watermark g' = gr_vertex_watermark g \<and> i < gr_vertex_watermark g \<or>
      gr_vertex_watermark g' = gr_vertex_watermark g + 1 \<and> i = gr_vertex_watermark g \<and> gr_vertex_watermark g < gr_vertex_watermark g'"
    using tk(6) by metis
  then show ?thesis using x tk(4) [of x] less_Suc_word [of "gr_vertex_watermark g" "gr_vertex_watermark g'" x] by auto
qed

lemma vertex_part_use:
  assumes p: "vertex_part vs n free VF {i}" and vs': "vs' = vs(i := r)" "v_active r" "v_generation r = v_generation (vs i)"
  shows "vertex_part vs' n free VF {}"
proof -
  note q = vertex_partD [OF p]
  have i: "i \<notin> set VF" "i < n" using q(3) [of i] q(5) [of i] by auto
  then have "chain (\<lambda>x. out_head (vs' x)) free VF NIL = chain (\<lambda>x. out_head (vs x)) free VF NIL"
    by (intro chain_cong) (auto simp: vs')
  moreover have "x \<in> set VF \<longleftrightarrow> x < n \<and> \<not> v_active (vs' x) \<and> x \<notin> {}" for x using q(3) [of x] vs' by auto
  moreover have "v_generation (vs' x) \<noteq> 0" if "x < n" for x using q(4) that vs' by simp
  ultimately show ?thesis using q(1,2) by (simp add: vertex_part_def)
qed

abbreviation fresh_vertex :: "dv_graph_vertex_rec_t \<Rightarrow> dv_graph_vertex_rec_t" where
  "fresh_vertex v \<equiv> v\<lparr>out_head := NIL, out_tail := NIL, in_head := NIL, in_tail := NIL, out_degree := 0,
     in_degree := 0, v_active := True\<rparr>"

lemma use_vertex_ok:
  assumes wf: "wf_gen g L VF EF {i} {}"
    and g1: "graph_mem g1" "er g1 = er g" "g1 = g\<lparr>gr_vertices := gr_vertices g1\<rparr>" "vr g1 = (vr g)(i := fresh_vertex (vr g i))"
  shows "wf_graph (g1\<lparr>gr_vertex_count := gr_vertex_count g1 + 1\<rparr>) L VF EF"
proof -
  let ?g = "g1\<lparr>gr_vertex_count := gr_vertex_count g1 + 1\<rparr>"
  note D = wf_genD [OF wf]
  obtain p where p: "g1 = g\<lparr>gr_vertices := p\<rparr>" using g1(3) by blast
  have i: "i < gr_vertex_watermark g" using vertex_partD(5) [OF D(2)] by blast
  have f: "gr_vertex_watermark ?g = gr_vertex_watermark g" "gr_edge_watermark ?g = gr_edge_watermark g"
    "gr_edge_free ?g = gr_edge_free g" "gr_edge_count ?g = gr_edge_count g" "gr_vertex_free ?g = gr_vertex_free g"
    "gr_vertex_count ?g = gr_vertex_count g + 1" by (simp_all add: p)
  have vw: "er ?g = er g" "vr ?g = vr g1" using g1(2) by simp_all
  have lv: "live ?g {} = insert i (live g {i})" "live g {i} = live g {i} - {i}"
    unfolding live_def live_in_def f vw using i by (auto simp: g1(4) split: if_splits)
  note lp = link_partD [OF D(4)]
  have none: "owned (\<lambda>e. e_src (er g e)) L i = []" "owned (\<lambda>e. e_dst (er g e)) L i = []"
    using lp(1,2) by (auto simp: owned_def filter_empty_conv live_def live_in_def)
  have l1: "link_part (er g) (vr g1) (live g {i}) L"
    using D(4) by (rule link_part_agree) (auto simp: g1(4) live_def live_in_def)
  note l1' = link_partD(3,4) [OF l1]
  have "inc_lists (\<lambda>e. e_src (er g e)) (\<lambda>e. next_out (er g e)) (\<lambda>e. prev_out (er g e)) (\<lambda>v. out_head (vr g1 v))
      (\<lambda>v. out_tail (vr g1 v)) (\<lambda>v. out_degree (vr g1 v)) (insert i (live g {i})) L"
    using l1'(1) lv(2) by (intro inc_lists_insert) (simp_all add: none g1(4))
  moreover have "inc_lists (\<lambda>e. e_dst (er g e)) (\<lambda>e. next_in (er g e)) (\<lambda>e. prev_in (er g e)) (\<lambda>v. in_head (vr g1 v))
      (\<lambda>v. in_tail (vr g1 v)) (\<lambda>v. in_degree (vr g1 v)) (insert i (live g {i})) L"
    using l1'(2) lv(2) by (intro inc_lists_insert) (simp_all add: none g1(4))
  ultimately have "link_part (er ?g) (vr ?g) (live ?g {}) L"
    unfolding lv(1) vw link_part_def using lp(1,2) by blast
  moreover have "vertex_part (vr ?g) (gr_vertex_watermark ?g) (gr_vertex_free ?g) VF {}"
    unfolding f vw by (rule vertex_part_use [OF D(2) g1(4)]) simp_all
  moreover have "unat (gr_vertex_count g + 1) + length VF = unat (gr_vertex_watermark g)"
    using D(5) unat_Suc_word [of "gr_vertex_count g" "gr_vertex_watermark g"] by simp
  moreover have "graph_mem ?g" using g1(1) by simp
  ultimately show ?thesis using D(3,6) unfolding wf_gen_def f vw by simp
qed

lemma add_vertex_ok:
  assumes rep: "represents g V E"
  obtains st g' h w' where "dv_graph_add_vertex (Some g) w = Some (st, Some g', h, w')" "config_of g' = config_of g"
    "st \<in> growth_status" "st \<noteq> DV_GRAPH_OK \<Longrightarrow> h = None \<and> represents g' V E \<and> phase_of g' = phase_of g"
    "st = DV_GRAPH_OK \<Longrightarrow> \<exists>v. h = Some v \<and> vh_index v \<notin> dom V \<and> represents g' (V(vh_index v \<mapsto> vh_generation v)) E \<and>
       phase_of g' = phase_of (dv_graph_touch g) \<and>
       vh_generation v = (if vh_index v < gr_vertex_watermark g then v_generation (vr g (vh_index v)) else 1)"
    "slots_kept g g'"
proof -
  obtain L VF EF where wf: "wf_graph g L VF EF" and V: "V = vertex_map g" and E: "E = map (edge_view g) L"
    using representsE [OF rep] by blast
  show thesis
  proof (rule take_vertex_ok [OF wf, of w], goal_cases)
    case (1 st i g1 w1)
    note t = 1
    show thesis
    proof (cases "st = DV_GRAPH_OK")
      case False
      then have "dv_graph_add_vertex (Some g) w = Some (st, Some g1, None, w1)" by (simp add: t(1))
      moreover have sc: "same_content g g1" and wf1: "wf_graph g1 L VF EF" using t(3) False by blast+
      have "represents g1 V E" by (rule same_content_represents [OF rep sc wf_genD(1) [OF wf1]])
      ultimately show thesis using that [OF _ _ _ _ _ slots_kept_content [OF sc]] t(2) False same_content_config [OF sc] by blast
    next
      case True
      then obtain VF' where took: "took_vertex g i g1" and wf1: "wf_gen g1 L VF' EF {i} {}" using t(4) by blast
      note tk = took_vertexD [OF took]
      have i: "unat i < n_vertices g1" using wf_range(6) [OF wf1] by blast
      obtain g2 where g2: "put_vrec g1 i fresh_vertex = Some g2" "graph_mem g2" "vr g2 = (vr g1)(i := fresh_vertex (vr g1 i))"
        "er g2 = er g1" "g2 = g1\<lparr>gr_vertices := gr_vertices g2\<rparr>" "n_vertices g2 = n_vertices g1"
        by (rule put_vrec_views [OF wf_genD(1) [OF wf1] i])
      let ?g = "g2\<lparr>gr_vertex_count := gr_vertex_count g2 + 1\<rparr>" and ?h = "\<lparr>vh_index = i, vh_generation = v_generation (vr g1 i)\<rparr>"
      have wf2: "wf_graph ?g L VF' EF" by (rule use_vertex_ok [OF wf1 g2(2,4,5,3)])
      obtain p where p: "g2 = g1\<lparr>gr_vertices := p\<rparr>" using g2(5) by blast
      have "vrec (dv_graph_touch ?g) i = Some (vr g2 i)" using i g2(6) by (simp add: vrec_in)
      then have call: "dv_graph_add_vertex (Some g) w = Some (DV_GRAPH_OK, Some (dv_graph_touch ?g), Some ?h, w1)"
        using g2(1) by (simp add: t(1) True Let_def g2(3))
      have ed: "map (edge_view ?g) L = E"
      proof -
        have "edge_view ?g e = edge_view g1 e" for e using g2(4) by (simp add: edge_view_def edge_handle_def p)
        then show ?thesis using tk(3) edge_partD(5) [OF wf_genD(3) [OF wf]] by (simp add: E)
      qed
      have wm: "x \<noteq> i \<Longrightarrow> (x < gr_vertex_watermark g1 \<and> v_active (vr g1 x)) = (x < gr_vertex_watermark g \<and> v_active (vr g x))" for x
        using took_vertex_live [OF took] .
      have iV: "V i = None" using tk(6) by (auto simp: V vertex_map_def split: if_splits)
      have vm: "vertex_map ?g = V(i \<mapsto> v_generation (vr g1 i))"
      proof (rule ext)
        fix x
        show "vertex_map ?g x = (V(i \<mapsto> v_generation (vr g1 i))) x"
        proof (cases "x = i")
          case True
          then show ?thesis using vertex_partD(5) [OF wf_genD(2) [OF wf1]] by (simp add: vertex_map_def g2(3), simp add: p)
        next
          case False
          have "vertex_map ?g x = vertex_map g1 x" using False by (simp add: vertex_map_def g2(3), simp add: p)
          then show ?thesis using wm [OF False] tk(4) [of x] False by (auto simp: vertex_map_def V)
        qed
      qed
      have pc: "config_of ?g = config_of g" "phase_of ?g = phase_of g"
        unfolding tk(1,2) [symmetric] by (simp_all add: p config_of_def phase_of_def)
      have r: "represents (dv_graph_touch ?g) (V(i \<mapsto> v_generation (vr g1 i))) E"
        using representsI [OF wf2] unfolding vm ed by simp
      have "v_generation (vr g1 i) = (if i < gr_vertex_watermark g then v_generation (vr g i) else 1)"
        using tk(4) [of i] tk(6) by (auto split: if_splits)
      then have "\<exists>v. Some ?h = Some v \<and> vh_index v \<notin> dom V \<and> represents (dv_graph_touch ?g) (V(vh_index v \<mapsto> vh_generation v)) E \<and>
         phase_of (dv_graph_touch ?g) = phase_of (dv_graph_touch g) \<and>
         vh_generation v = (if vh_index v < gr_vertex_watermark g then v_generation (vr g (vh_index v)) else 1)"
        using r phase_touch [OF pc(2)] iV by (intro exI [of _ ?h]) auto
      moreover have "config_of (dv_graph_touch ?g) = config_of g" using pc(1) by simp
      moreover have "slots_kept g1 (dv_graph_touch ?g)"
        by (simp add: slots_kept_def g2(3,4)) (simp add: p)
      then have "slots_kept g (dv_graph_touch ?g)" by (rule slots_kept_trans [OF slots_kept_took(2) [OF took]])
      ultimately show thesis using that [OF call] by blast
    qed
  qed
qed

end
