(* ===== verification/Graph_Life.thy ===== *)
theory Graph_Life
  imports Graph_Ops
begin

text \<open>
  The rest of the operations that change a graph: traversal scratch, capacity requests, the
  lifecycle (init, clear, reset, destroy), weights, update phases and bulk insertion.
\<close>

section \<open>Traversal scratch\<close>

lemma size_mult8: "unat n \<le> 2 ^ 31 \<Longrightarrow> unat (n * 8 :: size_t) = unat n * 8"
  by (rule trans [OF unat_mult_no_ovf]) simp_all

lemma work_bytes: "unat (ucast (n :: u32) * 2 * 4 :: size_t) = 2 * unat n * 4"
  using weight_bytes_for(2) [of n] by (simp add: mult.assoc)

lemma graph_mem_scratch:
  "graph_mem g \<Longrightarrow> sized p (2 * unat c) \<Longrightarrow> c \<le> DV_GRAPH_MAX_CAPACITY \<Longrightarrow> graph_mem (g\<lparr>gr_work := p, gr_work_capacity := c\<rparr>)"
  "graph_mem g \<Longrightarrow> sized q (unat n) \<Longrightarrow> unat n \<le> 2 ^ 31 \<Longrightarrow> graph_mem (g\<lparr>gr_visited := q, gr_visited_words := n\<rparr>)"
  by (simp_all add: graph_mem_def)

lemma scratch_facts:
  assumes "graph_mem g"
  shows "sized (gr_work g) (2 * unat (gr_work_capacity g))" "sized (gr_visited g) (unat (gr_visited_words g))"
    "unat (gr_visited_words g) \<le> 2 ^ 31" "gr_vertex_capacity g \<le> DV_GRAPH_MAX_CAPACITY"
  using assms by (simp_all add: graph_mem_def cap_policy_def)

lemma same_content_scratch:
  "same_content g (g\<lparr>gr_work := p, gr_work_capacity := c\<rparr>)" "same_content g (g\<lparr>gr_visited := q, gr_visited_words := n\<rparr>)"
  by (simp_all add: same_content_def)

definition scratch_words :: "'w dv_graph_t \<Rightarrow> size_t" where
  "scratch_words g = (ucast (gr_vertex_capacity g) + 63) div 64"

lemma scratch_words: "unat (scratch_words g) = (unat (gr_vertex_capacity g) + 63) div 64" "unat (scratch_words g) \<le> 2 ^ 31"
proof -
  have c: "unat (gr_vertex_capacity g) < 2 ^ 32" using unsigned_less [of "gr_vertex_capacity g", where ?'a = nat] by simp
  then have "unat (ucast (gr_vertex_capacity g) + 63 :: size_t) = unat (gr_vertex_capacity g) + 63"
    by (simp add: unat_word_ariths ucast_u32)
  then show w: "unat (scratch_words g) = (unat (gr_vertex_capacity g) + 63) div 64" by (simp add: scratch_words_def unat_div)
  show "unat (scratch_words g) \<le> 2 ^ 31" using c unfolding w by simp
qed

lemma ensure_work_ok:
  assumes mem: "graph_mem g"
  shows "\<exists>st g' w'. ensure_work g (ucast (gr_vertex_capacity g) * 8) w = Some (st, g', w') \<and> recapped g st g' \<and>
    gr_vertex_capacity g' = gr_vertex_capacity g \<and> (st = DV_GRAPH_OK \<longrightarrow> gr_vertex_capacity g \<le> gr_work_capacity g')"
proof (cases "gr_work_capacity g < gr_vertex_capacity g")
  case False
  then show ?thesis using mem by (auto simp: ensure_work_def recapped_def)
next
  case True
  let ?n = "2 * unat (gr_work_capacity g)" and ?m = "2 * unat (gr_vertex_capacity g)"
  have nm: "?n \<noteq> ?m" using True by (simp add: word_less_nat_alt)
  have sz: "unat (ucast (gr_vertex_capacity g) * 8 :: size_t) = ?m * 4" using weight_bytes_for(2) [of "gr_vertex_capacity g"] by simp
  obtain st blk w' where r: "dv_graph_resize_block (gr_allocator g) (gr_align g) (map_option (as_block (le_bytes 4)) (gr_work g))
      (ucast (gr_work_capacity g) * 2 * 4) (ucast (gr_vertex_capacity g) * 8) 0 w = Some (st, blk, w')"
    "st \<in> {DV_GRAPH_OK, DV_GRAPH_ERR_NOMEM}" "st = DV_GRAPH_OK \<longrightarrow> work_codec.resized_array (gr_work g) ?m 0 blk"
    using work_codec.resize_array [OF graph_mem_facts(1-3) [OF mem] scratch_facts(1) [OF mem] work_bytes sz,
        where live = 0 and k = 0 and al = "gr_align g" and w = w] nm by auto
  show ?thesis
  proof (cases "st = DV_GRAPH_OK")
    case False
    then show ?thesis using r True mem by (simp add: ensure_work_def recapped_def)
  next
    case ok: True
    let ?g = "g\<lparr>gr_work := map_option (as_array 4 le_load ?m) blk, gr_work_capacity := gr_vertex_capacity g\<rparr>"
    have "graph_mem ?g" using r(3) ok scratch_facts(4) [OF mem]
      by (intro graph_mem_scratch(1) [OF mem]) (simp_all add: work_codec.resized_array_def Let_def)
    then show ?thesis using r(1) ok True same_content_scratch(1) by (simp add: ensure_work_def recapped_def)
  qed
qed

lemma ensure_visited_ok:
  assumes mem: "graph_mem g" and n: "unat n \<le> 2 ^ 31"
  shows "\<exists>st g' w'. ensure_visited g n w = Some (st, g', w') \<and> recapped g st g' \<and>
    gr_vertex_capacity g' = gr_vertex_capacity g \<and> gr_work_capacity g' = gr_work_capacity g \<and>
    (st = DV_GRAPH_OK \<longrightarrow> n \<le> gr_visited_words g')"
proof (cases "gr_visited_words g < n")
  case False
  then show ?thesis using mem by (auto simp: ensure_visited_def recapped_def)
next
  case True
  have nm: "unat (gr_visited_words g) \<noteq> unat n" using True by (simp add: word_less_nat_alt)
  obtain st blk w' where r: "dv_graph_resize_block (gr_allocator g) (gr_align g) (map_option (as_block (le_bytes 8)) (gr_visited g))
      (gr_visited_words g * 8) (n * 8) 0 w = Some (st, blk, w')"
    "st \<in> {DV_GRAPH_OK, DV_GRAPH_ERR_NOMEM}" "st = DV_GRAPH_OK \<longrightarrow> weight_codec.resized_array (gr_visited g) (unat n) 0 blk"
    using weight_codec.resize_array [OF graph_mem_facts(1-3) [OF mem] scratch_facts(2) [OF mem] size_mult8 [OF scratch_facts(3) [OF mem]]
        size_mult8 [OF n], where live = 0 and k = 0 and al = "gr_align g" and w = w] nm by auto
  show ?thesis
  proof (cases "st = DV_GRAPH_OK")
    case False
    then show ?thesis using r True mem by (simp add: ensure_visited_def recapped_def)
  next
    case ok: True
    let ?g = "g\<lparr>gr_visited := map_option (as_array 8 le_load (unat n)) blk, gr_visited_words := n\<rparr>"
    have "graph_mem ?g" using r(3) ok n
      by (intro graph_mem_scratch(2) [OF mem]) (simp_all add: weight_codec.resized_array_def Let_def)
    then show ?thesis using r(1) ok True same_content_scratch(2) by (simp add: ensure_visited_def recapped_def)
  qed
qed

lemma recapped_trans: "recapped g st g1 \<Longrightarrow> recapped g1 st' g2 \<Longrightarrow> recapped g st' g2"
  unfolding recapped_def using same_content_trans by blast

definition scratch_ready :: "'w dv_graph_t \<Rightarrow> bool" where
  "scratch_ready g \<longleftrightarrow> gr_vertex_capacity g \<le> gr_work_capacity g \<and> scratch_words g \<le> gr_visited_words g"

lemma ensure_scratch_ok:
  assumes mem: "graph_mem g"
  shows "\<exists>st g' w'. dv_graph_ensure_scratch g w = Some (st, g', w') \<and> recapped g st g' \<and>
    gr_vertex_capacity g' = gr_vertex_capacity g \<and> (st = DV_GRAPH_OK \<longrightarrow> scratch_ready g')"
proof (cases "gr_vertex_capacity g = 0 \<or> scratch_ready g")
  case True
  moreover have "scratch_ready g" if "gr_vertex_capacity g = 0"
    using that scratch_words(1) [of g] by (simp add: scratch_ready_def word_le_nat_alt)
  ultimately show ?thesis using mem
    by (auto simp: dv_graph_ensure_scratch_def recapped_def scratch_ready_def scratch_words_def Let_def)
next
  case False
  then have nz: "gr_vertex_capacity g \<noteq> 0"
    and nr: "\<not> (gr_vertex_capacity g \<le> gr_work_capacity g \<and> scratch_words g \<le> gr_visited_words g)"
    by (simp_all add: scratch_ready_def)
  have call: "dv_graph_ensure_scratch g w = do {
      (status, g1, w1) \<leftarrow> ensure_work g (ucast (gr_vertex_capacity g) * 8) w;
      (if status \<noteq> DV_GRAPH_OK then Some (status, g1, w1) else ensure_visited g1 (scratch_words g) w1) }"
    using bytes_for_ok(1) [of 8 "gr_vertex_capacity g"]
    unfolding dv_graph_ensure_scratch_def scratch_words_def [symmetric] Let_def if_not_P [OF nz] if_not_P [OF nr] by simp
  obtain st g1 w1 where g1: "ensure_work g (ucast (gr_vertex_capacity g) * 8) w = Some (st, g1, w1)" "recapped g st g1"
    "gr_vertex_capacity g1 = gr_vertex_capacity g" "st = DV_GRAPH_OK \<longrightarrow> gr_vertex_capacity g \<le> gr_work_capacity g1"
    using ensure_work_ok [OF mem, of w] by blast
  show ?thesis
  proof (cases "st = DV_GRAPH_OK")
    case False
    then show ?thesis using call g1 by simp
  next
    case True
    have m1: "graph_mem g1" using g1(2) by (simp add: recapped_def)
    obtain st2 g2 w2 where g2: "ensure_visited g1 (scratch_words g) w1 = Some (st2, g2, w2)" "recapped g1 st2 g2"
      "gr_vertex_capacity g2 = gr_vertex_capacity g1" "gr_work_capacity g2 = gr_work_capacity g1"
      "st2 = DV_GRAPH_OK \<longrightarrow> scratch_words g \<le> gr_visited_words g2"
      using ensure_visited_ok [OF m1 scratch_words(2) [of g], of w1] by blast
    have "dv_graph_ensure_scratch g w = Some (st2, g2, w2)" using call g1(1) g2(1) True by simp
    moreover have "scratch_words g2 = scratch_words g" using g1(3) g2(3) by (simp add: scratch_words_def)
    ultimately show ?thesis using recapped_trans [OF g1(2) g2(2)] g1(3,4) g2(3-5) True by (simp add: scratch_ready_def)
  qed
qed

lemma sized_None: "sized None n = (n = 0)"
  by (auto simp: sized_def)

lemma free_block_ok:
  assumes hk: "allocator_contract (gr_allocator g)" "hk_free (gr_allocator g) \<noteq> None"
    and len: "\<And>a. p = Some a \<Longrightarrow> unat bytes \<le> length (blk_data (as_block enc a))"
  shows "\<exists>w'. free_block g enc p bytes w = Some w'"
proof (cases p)
  case (Some a)
  obtain f where "hk_free (gr_allocator g) = Some f" using hk(2) by blast
  then show ?thesis using allocator_contract.free_returns [OF hk(1)] len Some by (simp add: free_block_def)
qed (simp add: free_block_def)

lemma free_scratch_ok:
  assumes mem: "graph_mem g"
  shows "\<exists>g' w'. dv_graph_free_scratch g w = Some (g', w') \<and> graph_mem g' \<and> same_content g g' \<and>
    gr_vertex_capacity g' = gr_vertex_capacity g \<and> gr_edge_capacity g' = gr_edge_capacity g"
proof -
  note hk = graph_mem_facts(1,3) [OF mem] and s = scratch_facts [OF mem]
  obtain w1 where w1: "free_block g (le_bytes 4) (gr_work g) (ucast (gr_work_capacity g) * 2 * 4) w = Some w1"
    using free_block_ok [OF hk, of "gr_work g" "ucast (gr_work_capacity g) * 2 * 4" "le_bytes 4" w] s(1) work_bytes [of "gr_work_capacity g"]
    by (auto simp: work_codec.length_block sized_def)
  obtain w2 where w2: "free_block g (le_bytes 8) (gr_visited g) (gr_visited_words g * 8) w1 = Some w2"
    using free_block_ok [OF hk, of "gr_visited g" "gr_visited_words g * 8" "le_bytes 8" w1] s(2) size_mult8 [OF s(3)]
    by (auto simp: weight_codec.length_block sized_def)
  let ?g = "g\<lparr>gr_work := None, gr_visited := None, gr_work_capacity := 0, gr_visited_words := 0\<rparr>"
  have "graph_mem ?g" using mem by (simp add: graph_mem_def sized_None)
  moreover have "same_content g ?g" by (simp add: same_content_def graph_core_def)
  ultimately show ?thesis using w1 w2 by (simp add: dv_graph_free_scratch_def)
qed

section \<open>Capacity requests\<close>

text \<open>Every capacity request leaves the content alone, whatever it answers.\<close>

lemma recapped_represents:
  assumes "represents g V E" "recapped g st g'"
  shows "represents g' V E" "config_of g' = config_of g" "phase_of g' = phase_of g"
  using assms same_content_represents same_content_config unfolding recapped_def by blast+

lemma reserve_vertices_ok:
  assumes rep: "represents g V E"
  shows "\<exists>st g' w'. dv_graph_reserve_vertices (Some g) cap w = Some (st, Some g', w') \<and> represents g' V E \<and>
    config_of g' = config_of g \<and> phase_of g' = phase_of g \<and>
    (st = DV_GRAPH_OK \<longrightarrow> cap \<le> gr_vertex_capacity g') \<and> (st \<noteq> DV_GRAPH_OK \<longrightarrow> g' = g) \<and>
    (cap \<le> gr_vertex_capacity g \<longrightarrow> st = DV_GRAPH_OK \<and> g' = g \<and> w' = w)"
proof (cases "cap \<le> gr_vertex_capacity g \<or> \<not> gr_growable g \<or> gr_max_vertex_capacity g \<noteq> 0 \<and> cap > gr_max_vertex_capacity g \<or>
    cap > DV_GRAPH_MAX_CAPACITY")
  case True
  then show ?thesis using rep by auto
next
  case False
  have mem: "graph_mem g" using rep wf_genD(1) representsE by metis
  have "gr_vertex_watermark g \<le> cap" using False graph_policy(3) [OF mem] by (meson le_cases order.trans)
  moreover have "cap_policy cap (gr_initial_vertex_capacity g) (gr_max_vertex_capacity g)"
    using False graph_policy(1) [OF mem] by (auto simp: cap_policy_def not_less)
  ultimately obtain st g' w' where r: "dv_graph_set_vertex_capacity g cap w = Some (st, g', w')" "recapped g st g'"
    "st = DV_GRAPH_OK \<longrightarrow> gr_vertex_capacity g' = cap" "st \<noteq> DV_GRAPH_OK \<longrightarrow> g' = g"
    using set_vertex_capacity_ok [OF mem, of cap w] by blast
  have "dv_graph_reserve_vertices (Some g) cap w = Some (st, Some g', w')" using False r(1) by auto
  then show ?thesis using recapped_represents [OF rep r(2)] r(3,4) False by auto
qed

lemma reserve_edges_ok:
  assumes rep: "represents g V E"
  shows "\<exists>st g' w'. dv_graph_reserve_edges (Some g) cap w = Some (st, Some g', w') \<and> represents g' V E \<and>
    config_of g' = config_of g \<and> phase_of g' = phase_of g \<and> (st = DV_GRAPH_OK \<longrightarrow> cap \<le> gr_edge_capacity g') \<and>
    (cap \<le> gr_edge_capacity g \<longrightarrow> st = DV_GRAPH_OK \<and> g' = g \<and> w' = w)"
proof (cases "cap \<le> gr_edge_capacity g \<or> \<not> gr_growable g \<or> gr_max_edge_capacity g \<noteq> 0 \<and> cap > gr_max_edge_capacity g \<or>
    cap > DV_GRAPH_MAX_CAPACITY")
  case True
  then show ?thesis using rep by auto
next
  case False
  have mem: "graph_mem g" using rep wf_genD(1) representsE by metis
  have "gr_edge_watermark g \<le> cap" using False graph_policy(4) [OF mem] by (meson le_cases order.trans)
  moreover have "cap_policy cap (gr_initial_edge_capacity g) (gr_max_edge_capacity g)"
    using False graph_policy(2) [OF mem] by (auto simp: cap_policy_def not_less)
  ultimately obtain st g' w' where r: "dv_graph_set_edge_capacity g cap w = Some (st, g', w')" "recapped g st g'"
    "st = DV_GRAPH_OK \<longrightarrow> gr_edge_capacity g' = cap"
    using set_edge_capacity_ok [OF mem, of cap w] by blast
  have "dv_graph_reserve_edges (Some g) cap w = Some (st, Some g', w')" using False r(1) by auto
  then show ?thesis using recapped_represents [OF rep r(2)] r(3) False by auto
qed

lemma reserve_traversal_ok:
  assumes rep: "represents g V E"
  shows "\<exists>st g' w'. dv_graph_reserve_traversal (Some g) w = Some (st, Some g', w') \<and> represents g' V E \<and>
    config_of g' = config_of g \<and> phase_of g' = phase_of g \<and> (st = DV_GRAPH_OK \<longrightarrow> scratch_ready g')"
proof -
  have "graph_mem g" using rep wf_genD(1) representsE by metis
  then obtain st g' w' where r: "dv_graph_ensure_scratch g w = Some (st, g', w')" "recapped g st g'" "st = DV_GRAPH_OK \<longrightarrow> scratch_ready g'"
    using ensure_scratch_ok [of g w] by blast
  then show ?thesis using recapped_represents [OF rep r(2)] by simp
qed

lemma watermark_policy:
  "graph_mem g \<Longrightarrow> cap_policy (gr_vertex_watermark g) (gr_initial_vertex_capacity g) (gr_max_vertex_capacity g)"
  "graph_mem g \<Longrightarrow> cap_policy (gr_edge_watermark g) (gr_initial_edge_capacity g) (gr_max_edge_capacity g)"
  using graph_policy [of g] by (auto simp: cap_policy_def)

lemma shrink_to_fit_ok:
  assumes rep: "represents g V E"
  shows "\<exists>st g' w'. dv_graph_shrink_to_fit (Some g) w = Some (st, Some g', w') \<and> represents g' V E \<and>
    config_of g' = config_of g \<and> phase_of g' = phase_of g \<and>
    (st = DV_GRAPH_OK \<and> gr_growable g \<longrightarrow> gr_vertex_capacity g' = gr_vertex_watermark g \<and> gr_edge_capacity g' = gr_edge_watermark g)"
proof (cases "gr_growable g")
  case False
  then show ?thesis using rep by auto
next
  case True
  have mem: "graph_mem g" using rep wf_genD(1) representsE by metis
  obtain s1 g1 w1 where g1: "dv_graph_set_vertex_capacity g (gr_vertex_watermark g) w = Some (s1, g1, w1)" "recapped g s1 g1"
    "s1 = DV_GRAPH_OK \<longrightarrow> gr_vertex_capacity g1 = gr_vertex_watermark g"
    using set_vertex_capacity_ok [OF mem order_refl watermark_policy(1) [OF mem], of w] by blast
  have m1: "graph_mem g1" and sc1: "same_content g g1" using g1(2) by (simp_all add: recapped_def)
  obtain s2 g2 w2 where g2: "dv_graph_set_edge_capacity g1 (gr_edge_watermark g1) w1 = Some (s2, g2, w2)" "recapped g1 s2 g2"
    "gr_vertex_capacity g2 = gr_vertex_capacity g1" "s2 = DV_GRAPH_OK \<longrightarrow> gr_edge_capacity g2 = gr_edge_watermark g1"
    using set_edge_capacity_ok [OF m1 order_refl watermark_policy(2) [OF m1], of w1] by blast
  have m2: "graph_mem g2" using g2(2) by (simp add: recapped_def)
  obtain g3 w3 where g3: "dv_graph_free_scratch g2 w2 = Some (g3, w3)" "graph_mem g3" "same_content g2 g3"
    "gr_vertex_capacity g3 = gr_vertex_capacity g2" "gr_edge_capacity g3 = gr_edge_capacity g2"
    using free_scratch_ok [OF m2, of w2] by blast
  have "represents g3 V E" "config_of g3 = config_of g" "phase_of g3 = phase_of g"
    using recapped_represents [OF rep recapped_trans [OF g1(2) g2(2)]] same_content_represents [OF _ g3(3,2)]
      same_content_config [OF g3(3)] by simp_all
  moreover have "dv_graph_shrink_to_fit (Some g) w = Some (if s1 = DV_GRAPH_OK then s2 else s1, Some g3, w3)"
    using g1(1) g2(1) g3(1) True by simp
  ultimately show ?thesis using g1(3) g2(3,4) g3(4,5) same_contentD(7) [OF sc1] by simp
qed

section \<open>Update phases and weights\<close>

lemma represents_phase [simp]:
  "represents (g\<lparr>gr_in_update := b\<rparr>) V E = represents g V E" "represents (g\<lparr>gr_update_dirty := b\<rparr>) V E = represents g V E"
  "represents (g\<lparr>gr_version := k\<rparr>) V E = represents g V E"
  by (simp_all add: represents_def)

lemma begin_update_ok:
  "represents g V E \<Longrightarrow> \<exists>st g'. dv_graph_begin_update (Some g) = (st, Some g') \<and> represents g' V E \<and> config_of g' = config_of g \<and>
     (if gr_in_update g then st = DV_GRAPH_ERR_INVALID \<and> g' = g else st = DV_GRAPH_OK \<and> phase_of g' = (gr_version g, True, False))"
  by (simp add: config_of_def phase_of_def)

lemma commit_update_ok:
  "represents g V E \<Longrightarrow> \<exists>st g'. dv_graph_commit_update (Some g) = (st, Some g') \<and> represents g' V E \<and> config_of g' = config_of g \<and>
     (if \<not> gr_in_update g then st = DV_GRAPH_ERR_INVALID \<and> g' = g
      else st = DV_GRAPH_OK \<and> phase_of g' = (if gr_update_dirty g then gr_version g + 1 else gr_version g, False, False))"
  by (simp add: config_of_def phase_of_def Let_def)

text \<open>A graph refuses weights when it stores none: unweighted, or weighted without any capacity.\<close>

lemma weights_None: "graph_mem g \<Longrightarrow> gr_weighted g \<Longrightarrow> unat e < n_edges g \<Longrightarrow> gr_weights g \<noteq> None"
  using graph_mem_facts(5,6,9) [of g] by (auto simp: sized_def)

lemma set_weight_view:
  assumes wf: "wf_graph g L VF EF" and e: "e \<in> set L" and w: "gr_weighted g"
    and p: "items p = (items (gr_weights g))[unat e := x]" "unat e < length (items (gr_weights g))"
  shows "map (edge_view (g\<lparr>gr_weights := p\<rparr>)) L =
    map (\<lambda>y. if ge_handle y = edge_handle g e then y\<lparr>ge_weight := Some x\<rparr> else y) (map (edge_view g) L)"
proof -
  have i: "unat y = unat e \<longleftrightarrow> y = e" "edge_handle g y = edge_handle g e \<longleftrightarrow> y = e" for y
    by (simp add: word_unat_eq_iff, auto simp: edge_handle_def)
  have "edge_view (g\<lparr>gr_weights := p\<rparr>) y =
      (if edge_handle g y = edge_handle g e then (edge_view g y)\<lparr>ge_weight := Some x\<rparr> else edge_view g y)" for y
    unfolding i using p w i(1) [of y] by (auto simp: edge_view_def edge_handle_def nth_list_update)
  then show ?thesis by simp
qed

lemma set_edge_weight_ok:
  assumes rep: "represents g V E"
  obtains st g' where "dv_graph_set_edge_weight (Some g) h x = Some (st, Some g')" "config_of g' = config_of g" "phase_of g' = phase_of g"
    "st \<noteq> DV_GRAPH_OK \<Longrightarrow> g' = g" "st = DV_GRAPH_OK \<longleftrightarrow> gr_weighted g \<and> h \<in> ge_handle ` set E"
    "st = DV_GRAPH_OK \<Longrightarrow> represents g' V (map (\<lambda>y. if ge_handle y = h then y\<lparr>ge_weight := Some x\<rparr> else y) E)"
proof -
  obtain L VF EF where wf: "wf_graph g L VF EF" and V: "V = vertex_map g" and E: "E = map (edge_view g) L"
    using representsE [OF rep] by blast
  note mem = wf_genD(1) [OF wf]
  have lv: "dv_graph_edge_live g h = Some (h \<in> ge_handle ` set E)"
    using edge_live_iff [OF wf] unfolding E handles_view .
  show thesis
  proof (cases "gr_weights g \<noteq> None \<and> h \<in> ge_handle ` set E")
    case False
    have "\<not> (gr_weighted g \<and> h \<in> ge_handle ` set E)"
      using False weights_None [OF mem] wf_range(1) [OF wf] E by fastforce
    moreover have "dv_graph_set_edge_weight (Some g) h x =
        Some (if gr_weights g = None then DV_GRAPH_ERR_INVALID else DV_GRAPH_ERR_STALE, Some g)" using False by (auto simp: lv)
    then obtain st where "dv_graph_set_edge_weight (Some g) h x = Some (st, Some g)" "st \<noteq> DV_GRAPH_OK"
      by (cases "gr_weights g = None") simp_all
    ultimately show thesis using that by blast
  next
    case True
    then obtain e where e: "e \<in> set L" and h: "h = edge_handle g e" by (auto simp: E)
    have w: "gr_weighted g" using True mem by (auto simp: graph_mem_def split: if_splits)
    obtain p where p: "put_weight g e x = Some (g\<lparr>gr_weights := p\<rparr>)" "graph_mem (g\<lparr>gr_weights := p\<rparr>)"
      "items p = (items (gr_weights g))[unat e := x] \<and> unat e < length (items (gr_weights g))"
      using put_weight_ok [OF mem wf_range(1) [OF wf e], of x] w by blast
    let ?g = "g\<lparr>gr_weights := p\<rparr>"
    have call: "dv_graph_set_edge_weight (Some g) h x = Some (DV_GRAPH_OK, Some ?g)" using True p(1) lv by (simp add: h)
    have "vertex_map ?g = V" by (rule ext) (simp add: V vertex_map_def)
    then have r: "represents ?g V (map (\<lambda>y. if ge_handle y = h then y\<lparr>ge_weight := Some x\<rparr> else y) E)"
      using representsI [OF wf_weights [OF wf p(2)]] set_weight_view [OF wf e w] p(3) by (simp add: E h)
    have "config_of ?g = config_of g" "phase_of ?g = phase_of g" by (simp_all add: config_of_def phase_of_def)
    then show thesis using that [OF call] r True w by simp
  qed
qed

section \<open>Removing an edge by its endpoints\<close>

lemma both_live_iff:
  assumes wf: "wf_graph g L VF EF"
  shows "both_live g s d = Some (vertex_map g (vh_index s) = Some (vh_generation s) \<and> vertex_map g (vh_index d) = Some (vh_generation d))"
  by (simp add: both_live_def vertex_live_iff [OF wf])

lemma remove_edge_between_ok:
  assumes rep: "represents g V E"
  obtains st g' where "dv_graph_remove_edge_between (Some g) s d = Some (st, Some g')" "config_of g' = config_of g"
    "V (vh_index s) \<noteq> Some (vh_generation s) \<or> V (vh_index d) \<noteq> Some (vh_generation d) \<Longrightarrow> st = DV_GRAPH_ERR_STALE \<and> g' = g"
    "V (vh_index s) = Some (vh_generation s) \<Longrightarrow> V (vh_index d) = Some (vh_generation d) \<Longrightarrow>
      (if \<exists>x \<in> set E. joins (gr_directed g) (vh_index s) (vh_index d) x
       then st = DV_GRAPH_OK \<and> phase_of g' = phase_of (dv_graph_touch g) \<and>
         (\<exists>x \<in> set E. joins (gr_directed g) (vh_index s) (vh_index d) x \<and>
           (gr_directed g \<longrightarrow> List.find (joins True (vh_index s) (vh_index d)) E = Some x) \<and>
           represents g' V (filter (\<lambda>y. ge_handle y \<noteq> ge_handle x) E))
       else st = DV_GRAPH_ERR_NOT_FOUND \<and> g' = g)"
proof -
  obtain L VF EF where wf: "wf_graph g L VF EF" and V: "V = vertex_map g" and E: "E = map (edge_view g) L"
    using representsE [OF rep] by blast
  note bl = both_live_iff [OF wf, of s d, folded V]
  show thesis
  proof (cases "V (vh_index s) = Some (vh_generation s) \<and> V (vh_index d) = Some (vh_generation d)")
    case False
    then have "dv_graph_remove_edge_between (Some g) s d = Some (DV_GRAPH_ERR_STALE, Some g)" by (simp add: bl)
    then show thesis using that False by blast
  next
    case True
    then have ab: "vh_index s \<in> live g {}" "vh_index d \<in> live g {}" by (auto simp: live_vertex_map V)
    show thesis
    proof (rule locate_edge_ok [OF wf ab], goal_cases)
      case 1
      then have "dv_graph_remove_edge_between (Some g) s d = Some (DV_GRAPH_ERR_NOT_FOUND, Some g)" using True by (simp add: bl)
      then show thesis using that [of DV_GRAPH_ERR_NOT_FOUND g] 1(2) True by (simp add: E)
    next
      case (2 e)
      note l = 2
      show thesis
      proof (rule release_represents [OF wf l(2)], goal_cases)
        case (1 g1)
        let ?x = "edge_view g e"
        have c: "dv_graph_remove_edge_between (Some g) s d = Some (DV_GRAPH_OK, Some (dv_graph_touch g1))"
          using 1(1) True l(1,3) by (simp add: bl)
        have x: "?x \<in> set E" "represents (dv_graph_touch g1) V (filter (\<lambda>y. ge_handle y \<noteq> ge_handle ?x) E)"
          using 1(3) l(2) by (simp_all add: V E)
        have pc: "config_of (dv_graph_touch g1) = config_of g" "phase_of (dv_graph_touch g1) = phase_of (dv_graph_touch g)"
          using dropped_view(3,4) [OF 1(2)] by (simp, rule_tac phase_touch, simp)
        have f: "gr_directed g \<longrightarrow> List.find (joins True (vh_index s) (vh_index d)) E = Some ?x" using l(5) by (simp add: E)
        have "\<exists>x \<in> set E. joins (gr_directed g) (vh_index s) (vh_index d) x \<and>
            (gr_directed g \<longrightarrow> List.find (joins True (vh_index s) (vh_index d)) E = Some x) \<and>
            represents (dv_graph_touch g1) V (filter (\<lambda>y. ge_handle y \<noteq> ge_handle x) E)" using x l(4) f by blast
        moreover from this have "\<exists>x \<in> set E. joins (gr_directed g) (vh_index s) (vh_index d) x" by blast
        ultimately show thesis using that [OF c pc(1)] True pc(2) by simp
      qed
    qed
  qed
qed

end
