(* ===== verification/Graph_Cycle.thy ===== *)
theory Graph_Cycle
  imports Graph_Life Dv_Heap_Memory
begin

text \<open>
  The lifecycle of a graph: \<open>dv_graph_init\<close> on valid configurations, \<open>dv_graph_clear\<close>,
  \<open>dv_graph_reset\<close>, \<open>dv_graph_destroy\<close>, and the bulk insertions.
\<close>

section \<open>Clear\<close>

definition cleared_edge :: "u32 \<Rightarrow> u32 \<Rightarrow> dv_graph_edge_rec_t \<Rightarrow> dv_graph_edge_rec_t" where
  "cleared_edge n i e = e\<lparr>e_generation := (if e_active e then dv_graph_bump (e_generation e) else e_generation e),
     e_active := False, next_out := (if i + 1 = n then NIL else i + 1)\<rparr>"

definition cleared_vertex :: "u32 \<Rightarrow> u32 \<Rightarrow> dv_graph_vertex_rec_t \<Rightarrow> dv_graph_vertex_rec_t" where
  "cleared_vertex n i v = v\<lparr>v_generation := (if v_active v then dv_graph_bump (v_generation v) else v_generation v),
     v_active := False, out_tail := NIL, in_head := NIL, in_tail := NIL, out_degree := 0, in_degree := 0,
     out_head := (if i + 1 = n then NIL else i + 1)\<rparr>"

lemma between_Suc: "i < n \<Longrightarrow> (i \<le> x \<and> x < n) = (x = i \<or> i + 1 \<le> x \<and> x < n)" for i n x :: u32
  using unat_Suc_word [of i n] by (auto simp: word_less_nat_alt word_le_nat_alt word_unat_eq_iff)

lemma clear_edges_ok:
  "unat n \<le> n_edges g \<Longrightarrow> \<exists>g'. clear_edges n g i = Some g' \<and> g' = g\<lparr>gr_edges := gr_edges g'\<rparr> \<and> n_edges g' = n_edges g \<and>
     (gr_edges g' = None) = (gr_edges g = None) \<and>
     er g' = (\<lambda>x. if i \<le> x \<and> x < n then cleared_edge n x (er g x) else er g x)"
proof (induction n g i rule: clear_edges.induct)
  case (1 n g i)
  show ?case
  proof (cases "i < n")
    case False
    then have "\<not> (i \<le> x \<and> x < n)" for x by auto
    then show ?thesis using False by (auto simp: clear_edges.simps fun_eq_iff)
  next
    case True
    let ?g = "upd_e g i (cleared_edge n i)"
    have i: "unat i < n_edges g" using True 1(2) by (simp add: word_less_nat_alt)
    have p: "put_erec g i (\<lambda>e. e\<lparr>e_generation := (if e_active e then dv_graph_bump (e_generation e) else e_generation e),
        e_active := False, next_out := (if i + 1 = n then NIL else i + 1)\<rparr>) = Some ?g"
      unfolding put_erec_in [OF i] cleared_edge_def [abs_def] ..
    obtain g' where g': "clear_edges n ?g (i + 1) = Some g'" "g' = ?g\<lparr>gr_edges := gr_edges g'\<rparr>" "n_edges g' = n_edges ?g"
      "(gr_edges g' = None) = (gr_edges ?g = None)"
      "er g' = (\<lambda>x. if i + 1 \<le> x \<and> x < n then cleared_edge n x (er ?g x) else er ?g x)"
      using 1(1) [OF True p] 1(2) by auto
    have "clear_edges n g i = Some g'" using True p g'(1) by (simp add: clear_edges.simps)
    moreover have "g' = g\<lparr>gr_edges := gr_edges g'\<rparr>" by (subst g'(2)) (simp add: upd_e_def)
    moreover have "er g' = (\<lambda>x. if i \<le> x \<and> x < n then cleared_edge n x (er g x) else er g x)"
      using between_Suc [OF True] unat_Suc_word [of i n] True
      by (auto simp: g'(5) er_upd_e [OF i] fun_eq_iff word_less_nat_alt word_le_nat_alt)
    ultimately show ?thesis using g'(3,4) by simp
  qed
qed

lemma clear_vertices_ok:
  "unat n \<le> n_vertices g \<Longrightarrow> \<exists>g'. clear_vertices n g i = Some g' \<and> g' = g\<lparr>gr_vertices := gr_vertices g'\<rparr> \<and> n_vertices g' = n_vertices g \<and>
     (gr_vertices g' = None) = (gr_vertices g = None) \<and>
     vr g' = (\<lambda>x. if i \<le> x \<and> x < n then cleared_vertex n x (vr g x) else vr g x)"
proof (induction n g i rule: clear_vertices.induct)
  case (1 n g i)
  show ?case
  proof (cases "i < n")
    case False
    then have "\<not> (i \<le> x \<and> x < n)" for x by auto
    then show ?thesis using False by (auto simp: clear_vertices.simps fun_eq_iff)
  next
    case True
    let ?g = "upd_v g i (cleared_vertex n i)"
    have i: "unat i < n_vertices g" using True 1(2) by (simp add: word_less_nat_alt)
    have p: "put_vrec g i (\<lambda>v. v\<lparr>v_generation := (if v_active v then dv_graph_bump (v_generation v) else v_generation v),
        v_active := False, out_tail := NIL, in_head := NIL, in_tail := NIL, out_degree := 0, in_degree := 0,
        out_head := (if i + 1 = n then NIL else i + 1)\<rparr>) = Some ?g"
      unfolding put_vrec_in [OF i] cleared_vertex_def [abs_def] ..
    obtain g' where g': "clear_vertices n ?g (i + 1) = Some g'" "g' = ?g\<lparr>gr_vertices := gr_vertices g'\<rparr>" "n_vertices g' = n_vertices ?g"
      "(gr_vertices g' = None) = (gr_vertices ?g = None)"
      "vr g' = (\<lambda>x. if i + 1 \<le> x \<and> x < n then cleared_vertex n x (vr ?g x) else vr ?g x)"
      using 1(1) [OF True p] 1(2) by auto
    have "clear_vertices n g i = Some g'" using True p g'(1) by (simp add: clear_vertices.simps)
    moreover have "g' = g\<lparr>gr_vertices := gr_vertices g'\<rparr>" by (subst g'(2)) (simp add: upd_v_def)
    moreover have "vr g' = (\<lambda>x. if i \<le> x \<and> x < n then cleared_vertex n x (vr g x) else vr g x)"
      using between_Suc [OF True] unat_Suc_word [of i n] True
      by (auto simp: g'(5) vr_upd_v [OF i] fun_eq_iff word_less_nat_alt word_le_nat_alt)
    ultimately show ?thesis using g'(3,4) by simp
  qed
qed

text \<open>The free list of a cleared pool runs through every slot in order.\<close>

definition slots :: "u32 \<Rightarrow> u32 list" where
  "slots n = map of_nat [0..<unat n]"

lemma slots_simps: "length (slots n) = unat n" "distinct (slots n)" "x \<in> set (slots n) \<longleftrightarrow> x < n"
proof -
  have lt: "k < unat n \<Longrightarrow> unat (of_nat k :: u32) = k" for k
    using unsigned_less [of n, where ?'a = nat] by (simp add: unat_of_nat)
  show "length (slots n) = unat n" by (simp add: slots_def)
  show "distinct (slots n)" using lt by (auto simp: slots_def distinct_map inj_on_def) (metis lt)
  show "x \<in> set (slots n) \<longleftrightarrow> x < n"
  proof
    assume "x < n"
    then have "unat x \<in> {0..<unat n}" "x = of_nat (unat x)" by (simp_all add: word_less_nat_alt)
    then show "x \<in> set (slots n)" unfolding slots_def by (metis image_eqI set_map set_upt)
  qed (auto simp: slots_def word_less_nat_alt lt)
qed

lemma chain_slots_from:
  assumes "\<And>x. x < n \<Longrightarrow> nxt x = (if x + 1 = n then NIL else x + 1)" "k < unat n"
  shows "chain nxt (of_nat k) (map of_nat [k..<unat n]) NIL"
  using assms(2)
proof (induction "unat n - k" arbitrary: k)
  case (Suc d)
  have k: "unat (of_nat k :: u32) = k" using Suc.prems unsigned_less [of n, where ?'a = nat] by (simp add: unat_of_nat)
  have nx: "nxt (of_nat k) = (if Suc k = unat n then NIL else of_nat (Suc k))"
  proof -
    have "(of_nat k :: u32) < n" using Suc.prems k by (simp add: word_less_nat_alt)
    moreover have "(of_nat k + 1 = n) = (Suc k = unat n)"
      using unat_Suc_word [of "of_nat k" n] Suc.prems k by (metis word_unat_eq_iff)
    ultimately show ?thesis using assms(1) by (simp add: add.commute)
  qed
  have sp: "[k..<unat n] = k # [Suc k..<unat n]" using Suc.prems by (rule upt_conv_Cons)
  show ?case
  proof (cases "Suc k = unat n")
    case True
    then show ?thesis using nx unfolding sp by simp
  next
    case False
    then have "chain nxt (of_nat (Suc k)) (map of_nat [Suc k..<unat n]) NIL" using Suc by (intro Suc(1)) auto
    then show ?thesis using nx False unfolding sp by simp
  qed
qed simp

lemma chain_slots:
  "(\<And>x. x < n \<Longrightarrow> nxt x = (if x + 1 = n then NIL else x + 1)) \<Longrightarrow> chain nxt (if n = 0 then NIL else 0) (slots n) NIL"
  using chain_slots_from [of n nxt 0] by (auto simp: slots_def unat_gt_0)

lemma cleared_parts:
  assumes e: "edge_part (er g) n f L EF {}" and v: "vertex_part (vr g) m f' VF {}"
    and er': "er g' = (\<lambda>x. if 0 \<le> x \<and> x < n then cleared_edge n x (er g x) else er g x)"
    and vr': "vr g' = (\<lambda>x. if 0 \<le> x \<and> x < m then cleared_vertex m x (vr g x) else vr g x)"
  shows "edge_part (er g') n (if n = 0 then NIL else 0) [] (slots n) {}"
    "vertex_part (vr g') m (if m = 0 then NIL else 0) (slots m) {}"
proof -
  have "chain (\<lambda>e. next_out (er g' e)) (if n = 0 then NIL else 0) (slots n) NIL"
    by (rule chain_slots) (simp add: er' cleared_edge_def)
  then show "edge_part (er g') n (if n = 0 then NIL else 0) [] (slots n) {}"
    using edge_partD(6) [OF e] slots_simps(2) [of n]
    by (auto simp: edge_part_def er' cleared_edge_def slots_simps(3))
  have "chain (\<lambda>e. out_head (vr g' e)) (if m = 0 then NIL else 0) (slots m) NIL"
    by (rule chain_slots) (simp add: vr' cleared_vertex_def)
  then show "vertex_part (vr g') m (if m = 0 then NIL else 0) (slots m) {}"
    using vertex_partD(4) [OF v] slots_simps(2) [of m]
    by (auto simp: vertex_part_def vr' cleared_vertex_def slots_simps(3))
qed

lemma clear_ok:
  assumes rep: "represents g V E"
  obtains g' where "dv_graph_clear (Some g) = Some (Some g')" "represents g' Map.empty []" "config_of g' = config_of g"
    "phase_of g' = phase_of (dv_graph_touch g)" "gr_vertex_watermark g' = gr_vertex_watermark g"
    "\<And>v. V v \<noteq> None \<Longrightarrow> v_generation (vr g' v) = dv_graph_bump (the (V v))"
    "gr_vertex_capacity g' = gr_vertex_capacity g" "gr_edge_capacity g' = gr_edge_capacity g"
    "gr_edge_watermark g' = gr_edge_watermark g"
    "\<And>x. x \<in> set E \<Longrightarrow> e_generation (er g' (eh_index (ge_handle x))) = dv_graph_bump (eh_generation (ge_handle x))"
proof -
  obtain L VF EF where wf: "wf_graph g L VF EF" and V: "V = vertex_map g" and E: "E = map (edge_view g) L"
    using representsE [OF rep] by blast
  note D = wf_genD [OF wf]
  let ?n = "gr_edge_watermark g" and ?m = "gr_vertex_watermark g"
  have len: "unat ?n \<le> n_edges g" "unat ?m \<le> n_vertices g"
    using graph_mem_facts(4,5,7,8) [OF D(1)] by (simp_all add: sized_def)
  obtain g1 where g1: "clear_edges ?n g 0 = Some g1" "g1 = g\<lparr>gr_edges := gr_edges g1\<rparr>" "n_edges g1 = n_edges g"
    "(gr_edges g1 = None) = (gr_edges g = None)" "er g1 = (\<lambda>x. if 0 \<le> x \<and> x < ?n then cleared_edge ?n x (er g x) else er g x)"
    using clear_edges_ok [OF len(1), of 0] by (elim exE conjE) (rule that)
  obtain es where es: "g1 = g\<lparr>gr_edges := es\<rparr>" using g1(2) by blast
  let ?g2 = "g1\<lparr>gr_edge_free := (if gr_edge_watermark g1 = 0 then NIL else 0), gr_edge_count := 0\<rparr>"
  have m2: "unat ?m \<le> n_vertices ?g2" using len(2) by (simp add: es)
  obtain g3 where g3: "clear_vertices ?m ?g2 0 = Some g3" "g3 = ?g2\<lparr>gr_vertices := gr_vertices g3\<rparr>" "n_vertices g3 = n_vertices ?g2"
    "(gr_vertices g3 = None) = (gr_vertices ?g2 = None)" "vr g3 = (\<lambda>x. if 0 \<le> x \<and> x < ?m then cleared_vertex ?m x (vr ?g2 x) else vr ?g2 x)"
    using clear_vertices_ok [OF m2, of 0] by (elim exE conjE) (rule that)
  obtain vs where vs: "g3 = ?g2\<lparr>gr_vertices := vs\<rparr>" using g3(2) by blast
  let ?g = "g3\<lparr>gr_vertex_free := (if gr_vertex_watermark g3 = 0 then NIL else 0), gr_vertex_count := 0\<rparr>"
  have call: "dv_graph_clear (Some g) = Some (Some (dv_graph_touch ?g))"
  proof -
    have "gr_vertex_watermark ?g2 = ?m" by (simp add: es)
    then show ?thesis using g1(1) g3(1) by (simp add: Let_def)
  qed
  have vr0: "vr ?g2 = vr g" by (simp add: es vr_def fun_eq_iff)
  have er0: "er ?g = er g1" by (simp add: vs er_def fun_eq_iff)
  have vws: "er ?g = (\<lambda>x. if 0 \<le> x \<and> x < ?n then cleared_edge ?n x (er g x) else er g x)"
    "vr ?g = (\<lambda>x. if 0 \<le> x \<and> x < ?m then cleared_vertex ?m x (vr g x) else vr g x)"
    by (simp only: er0 g1(5)) (use g3(5) [unfolded vr0] in simp)
  note parts = cleared_parts [OF D(3) D(2) vws]
  have f: "gr_edge_watermark ?g = ?n" "gr_vertex_watermark ?g = ?m" "gr_edge_free ?g = (if ?n = 0 then NIL else 0)"
    "gr_vertex_free ?g = (if ?m = 0 then NIL else 0)" "gr_edge_count ?g = 0" "gr_vertex_count ?g = 0"
    by (simp_all add: vs es)
  have "graph_mem g1" using g1(3,4) by (intro graph_mem_pools [OF D(1)]) (simp_all add: es)
  then have m2: "graph_mem ?g2" by simp
  have "graph_mem g3" using g3(3,4) by (intro graph_mem_pools [OF m2]) (simp_all add: vs)
  then have mem: "graph_mem ?g" by simp
  have "\<not> (x < ?m \<and> v_active (vr ?g x))" for x by (simp add: g3(5) [unfolded vr0] cleared_vertex_def)
  then have lv: "live ?g {} = {}" "vertex_map ?g = Map.empty" unfolding live_def live_in_def vertex_map_def f by auto
  have "link_part (er ?g) (vr ?g) (live ?g {}) []" unfolding lv by (simp add: link_part_def inc_lists_def)
  then have wf': "wf_graph ?g [] (slots ?m) (slots ?n)"
    using mem parts slots_simps(1) unfolding wf_gen_def f by simp
  have r: "represents (dv_graph_touch ?g) Map.empty []"
    using representsI [OF wf'] unfolding lv(2) represents_touch list.map .
  have "config_of ?g = config_of g" "phase_of ?g = phase_of g" by (simp_all add: vs es config_of_def phase_of_def)
  then have pc: "config_of (dv_graph_touch ?g) = config_of g" "phase_of (dv_graph_touch ?g) = phase_of (dv_graph_touch g)"
    by (simp, rule_tac phase_touch)
  have gn: "v_generation (vr (dv_graph_touch ?g) v) = dv_graph_bump (the (V v))" if "V v \<noteq> None" for v
    using that by (auto simp: V vertex_map_def g3(5) [unfolded vr0] cleared_vertex_def split: if_splits)
  have k: "gr_vertex_watermark (dv_graph_touch ?g) = ?m" "gr_vertex_capacity (dv_graph_touch ?g) = gr_vertex_capacity g"
    "gr_edge_capacity (dv_graph_touch ?g) = gr_edge_capacity g" "gr_edge_watermark (dv_graph_touch ?g) = ?n"
    by (simp_all add: dv_graph_touch_def vs es)
  have en: "e_generation (er (dv_graph_touch ?g) (eh_index (ge_handle x))) = dv_graph_bump (eh_generation (ge_handle x))"
    if xE: "x \<in> set E" for x
  proof -
    obtain e where e: "x = edge_view g e" "e \<in> set L" using xE unfolding E by auto
    have "e < ?n" "e_active (er g e)" using edge_partD(5) [OF D(3)] e(2) by blast+
    then have "e_generation (er ?g e) = dv_graph_bump (e_generation (er g e))" unfolding vws(1) by (simp add: cleared_edge_def)
    moreover have "er (dv_graph_touch ?g) = er ?g" by simp
    ultimately show ?thesis unfolding e(1) by (simp only: edge_view_simps)
  qed
  show thesis by (rule that [OF call r pc k(1) gn k(2-4) en])
qed

section \<open>Empty graphs\<close>

lemma empty_represents:
  assumes "graph_mem g" "gr_vertex_watermark g = 0" "gr_edge_watermark g = 0" "gr_vertex_free g = NIL" "gr_edge_free g = NIL"
    "gr_vertex_count g = 0" "gr_edge_count g = 0"
  shows "represents g Map.empty []"
proof -
  have "vertex_map g = Map.empty" by (rule ext) (simp add: vertex_map_def assms(2))
  moreover have "wf_graph g [] [] []"
    using assms by (simp add: wf_gen_def vertex_part_def edge_part_def link_part_def inc_lists_def live_def live_in_def)
  ultimately show ?thesis using representsI [of g "[]"] by simp
qed

lemma initial_policy:
  "graph_mem g \<Longrightarrow> cap_policy (gr_initial_vertex_capacity g) (gr_initial_vertex_capacity g) (gr_max_vertex_capacity g)"
  "graph_mem g \<Longrightarrow> cap_policy (gr_initial_edge_capacity g) (gr_initial_edge_capacity g) (gr_max_edge_capacity g)"
  using graph_policy [of g] by (auto simp: cap_policy_def)

lemma reset_ok:
  assumes rep: "represents g V E"
  obtains st g' w' where "dv_graph_reset (Some g) w = Some (st, Some g', w')" "represents g' Map.empty []" "config_of g' = config_of g"
    "phase_of g' = (gr_version g + 1, False, False)" "st \<in> {DV_GRAPH_OK, DV_GRAPH_ERR_NOMEM}"
    "st = DV_GRAPH_OK \<Longrightarrow> gr_vertex_capacity g' = gr_initial_vertex_capacity g \<and> gr_edge_capacity g' = gr_initial_edge_capacity g"
proof -
  have mem: "graph_mem g" using rep wf_genD(1) representsE by metis
  let ?g = "g\<lparr>gr_vertex_watermark := 0, gr_edge_watermark := 0, gr_vertex_free := NIL, gr_edge_free := NIL,
       gr_vertex_count := 0, gr_edge_count := 0, gr_in_update := False, gr_update_dirty := False, gr_version := gr_version g + 1\<rparr>"
  have m0: "graph_mem ?g" using mem by (simp add: graph_mem_def)
  have r0: "represents ?g Map.empty []" using m0 by (rule empty_represents) simp_all
  obtain s1 g1 w1 where g1: "dv_graph_set_vertex_capacity ?g (gr_initial_vertex_capacity ?g) w = Some (s1, g1, w1)" "recapped ?g s1 g1"
    "s1 = DV_GRAPH_OK \<longrightarrow> gr_vertex_capacity g1 = gr_initial_vertex_capacity ?g"
    using set_vertex_capacity_ok [OF m0 _ initial_policy(1) [OF m0], of w] by auto
  have m1: "graph_mem g1" and sc1: "same_content ?g g1" using g1(2) by (simp_all add: recapped_def)
  have wm: "gr_edge_watermark g1 \<le> gr_initial_edge_capacity g1" using same_contentD(7) [OF sc1] by simp
  obtain s2 g2 w2 where g2: "dv_graph_set_edge_capacity g1 (gr_initial_edge_capacity g1) w1 = Some (s2, g2, w2)" "recapped g1 s2 g2"
    "gr_vertex_capacity g2 = gr_vertex_capacity g1" "s2 = DV_GRAPH_OK \<longrightarrow> gr_edge_capacity g2 = gr_initial_edge_capacity g1"
    using set_edge_capacity_ok [OF m1 wm initial_policy(2) [OF m1], of w1] by blast
  have call: "dv_graph_reset (Some g) w = Some (if s1 = DV_GRAPH_OK then s2 else s1, Some g2, w2)"
    using g1(1) g2(1) by (simp add: Let_def)
  note rr = recapped_represents [OF r0 recapped_trans [OF g1(2) g2(2)]]
  have cp: "config_of g2 = config_of g" "phase_of g2 = (gr_version g + 1, False, False)"
    using rr(2,3) by (simp_all add: config_of_def phase_of_def)
  have st: "(if s1 = DV_GRAPH_OK then s2 else s1) \<in> {DV_GRAPH_OK, DV_GRAPH_ERR_NOMEM}"
    using g1(2) g2(2) unfolding recapped_def by auto
  have "gr_initial_edge_capacity g1 = gr_initial_edge_capacity g" using same_contentD(10) [OF sc1] by simp
  then have "gr_vertex_capacity g2 = gr_initial_vertex_capacity g \<and> gr_edge_capacity g2 = gr_initial_edge_capacity g"
    if "(if s1 = DV_GRAPH_OK then s2 else s1) = DV_GRAPH_OK" using that g1(3) g2(3,4) by (auto split: if_splits)
  then show thesis by (rule that [OF call rr(1) cp st])
qed

section \<open>Init and destroy\<close>

text \<open>The default hooks of the graph are those of the heap under other names.\<close>

lemma graph_default_allocator: "dv_graph_default_allocator L = dv_heap_default_allocator L"
proof -
  have a: "dv_graph_align_up = dv_heap_align_up"
    by (simp add: fun_eq_iff dv_graph_align_up_def dv_heap_align_up_def dv_graph_is_pow2_def dv_heap_is_pow2_def)
  then have o: "dv_graph_over_aligned_alloc L = dv_heap_over_aligned_alloc L" "dv_graph_over_aligned_free L = dv_heap_over_aligned_free L"
    by (simp_all add: fun_eq_iff dv_graph_over_aligned_alloc_def dv_heap_over_aligned_alloc_def
        dv_graph_over_aligned_free_def dv_heap_over_aligned_free_def)
  have m: "DV_GRAPH_MALLOC_ALIGN = DV_HEAP_MALLOC_ALIGN" by (simp add: DV_GRAPH_MALLOC_ALIGN_def DV_HEAP_MALLOC_ALIGN_def)
  have "dv_graph_default_alloc L = dv_heap_default_alloc L" "dv_graph_default_free L = dv_heap_default_free L"
    "dv_graph_default_realloc L = dv_heap_default_realloc L"
    unfolding fun_eq_iff dv_graph_default_alloc_def dv_heap_default_alloc_def dv_graph_default_free_def dv_heap_default_free_def
      dv_graph_default_realloc_def dv_heap_default_realloc_def m o by simp_all
  then show ?thesis by (simp add: dv_graph_default_allocator_def dv_heap_default_allocator_def)
qed

definition graph_config_ok :: "dv_graph_config_t \<Rightarrow> 'w hooks option \<Rightarrow> bool" where
  "graph_config_ok c allocator \<longleftrightarrow> graph_config_status c = DV_GRAPH_OK \<and>
     (\<forall>a. allocator = Some a \<longrightarrow> hk_alloc a \<noteq> None \<and> hk_free a \<noteq> None)"

lemma hooks_selected:
  assumes "libc_heap L" "graph_config_ok c allocator" "\<And>a. allocator = Some a \<Longrightarrow> allocator_contract a"
  obtains hk where "graph_select_hooks L allocator = Some hk" "allocator_contract hk" "hk_alloc hk \<noteq> None" "hk_free hk \<noteq> None"
proof (cases allocator)
  case None
  have "hk_alloc (dv_heap_default_allocator L) \<noteq> None" "hk_free (dv_heap_default_allocator L) \<noteq> None"
    by (simp_all add: dv_heap_default_allocator_def)
  then show thesis using that libc_heap.heap_default_contract [OF assms(1)] None
    by (simp add: graph_select_hooks_def graph_default_allocator)
next
  case (Some a)
  then show thesis using that assms(2,3) by (auto simp: graph_select_hooks_def graph_config_ok_def)
qed

lemma configured_mem:
  assumes ok: "graph_config_status c = DV_GRAPH_OK" and hk: "allocator_contract hk" "hk_alloc hk \<noteq> None" "hk_free hk \<noteq> None"
  shows "graph_mem (graph_configured c hk)" "represents (graph_configured c hk) Map.empty []"
proof -
  have s: "sized (None :: 'z array option) 0" by (simp add: sized_None)
  have c: "gcf_initial_vertex_capacity c \<le> DV_GRAPH_MAX_CAPACITY" "gcf_initial_edge_capacity c \<le> DV_GRAPH_MAX_CAPACITY"
    "gcf_max_vertex_capacity c \<le> DV_GRAPH_MAX_CAPACITY" "gcf_max_edge_capacity c \<le> DV_GRAPH_MAX_CAPACITY"
    "gcf_growable c \<Longrightarrow> gcf_max_vertex_capacity c = 0 \<or> gcf_initial_vertex_capacity c \<le> gcf_max_vertex_capacity c"
    "gcf_growable c \<Longrightarrow> gcf_max_edge_capacity c = 0 \<or> gcf_initial_edge_capacity c \<le> gcf_max_edge_capacity c"
    using ok by (auto simp: graph_config_status_def not_less split: if_splits)
  show m: "graph_mem (graph_configured c hk)"
    using c hk by (auto simp: graph_mem_def graph_configured_def zero_graph_def cap_policy_def sized_None)
  show "represents (graph_configured c hk) Map.empty []"
    using m by (rule empty_represents) (simp_all add: graph_configured_def zero_graph_def)
qed

lemma allocate_ok:
  assumes mem: "graph_mem g" and init: "gr_initial_vertex_capacity g = gcf_initial_vertex_capacity c"
    "gr_initial_edge_capacity g = gcf_initial_edge_capacity c" and wm: "gr_vertex_watermark g = 0" "gr_edge_watermark g = 0"
  obtains st g' w' where "graph_allocate g c w = Some (st, g', w')" "recapped g st g'"
    "st = DV_GRAPH_OK \<Longrightarrow> gr_vertex_capacity g' = gcf_initial_vertex_capacity c \<and> (gr_growable g \<or> scratch_ready g')"
proof -
  have wv: "gr_vertex_watermark g \<le> gcf_initial_vertex_capacity c" using wm by simp
  obtain s1 g1 w1 where g1: "dv_graph_set_vertex_capacity g (gcf_initial_vertex_capacity c) w = Some (s1, g1, w1)" "recapped g s1 g1"
    "s1 = DV_GRAPH_OK \<longrightarrow> gr_vertex_capacity g1 = gcf_initial_vertex_capacity c"
    using set_vertex_capacity_ok [OF mem wv, of w] initial_policy(1) [OF mem] init(1) by auto
  show thesis
  proof (cases "s1 = DV_GRAPH_OK")
    case False
    then show thesis using that g1 by (simp add: graph_allocate_def)
  next
    case s1: True
    have m1: "graph_mem g1" and sc1: "same_content g g1" using g1(2) by (simp_all add: recapped_def)
    have i1: "gr_initial_edge_capacity g1 = gcf_initial_edge_capacity c" "gr_edge_watermark g1 = 0"
      using same_contentD(7,10) [OF sc1] init(2) wm(2) by simp_all
    have we: "gr_edge_watermark g1 \<le> gcf_initial_edge_capacity c" using i1(2) by simp
    obtain s2 g2 w2 where g2: "dv_graph_set_edge_capacity g1 (gcf_initial_edge_capacity c) w1 = Some (s2, g2, w2)" "recapped g1 s2 g2"
      "gr_vertex_capacity g2 = gr_vertex_capacity g1"
      using set_edge_capacity_ok [OF m1 we, of w1] initial_policy(2) [OF m1] i1(1) by auto
    note r2 = recapped_trans [OF g1(2) g2(2)]
    have gw: "gr_growable g2 = gr_growable g" using r2 same_contentD(16) unfolding recapped_def by blast
    show thesis
    proof (cases "s2 = DV_GRAPH_OK \<and> \<not> gr_growable g")
      case False
      then show thesis using that [of s2 g2 w2] g1(1,3) g2(1,3) s1 r2 gw by (auto simp: graph_allocate_def)
    next
      case True
      have m2: "graph_mem g2" using g2(2) by (simp add: recapped_def)
      obtain s3 g3 w3 where g3: "dv_graph_ensure_scratch g2 w2 = Some (s3, g3, w3)" "recapped g2 s3 g3"
        "gr_vertex_capacity g3 = gr_vertex_capacity g2" "s3 = DV_GRAPH_OK \<longrightarrow> scratch_ready g3"
        using ensure_scratch_ok [OF m2, of w2] by blast
      have "graph_allocate g c w = Some (s3, g3, w3)" using g1(1) g2(1) g3(1) s1 True gw by (simp add: graph_allocate_def)
      then show thesis using that recapped_trans [OF r2 g3(2)] g1(3) g2(3) g3(3,4) s1 by simp
    qed
  qed
qed

lemma destroy_ok:
  assumes mem: "graph_mem g"
  shows "\<exists>w'. dv_graph_destroy (Some g) w = Some (Some zero_graph, w')"
proof -
  note hk = graph_mem_facts(1,3) [OF mem] and z = graph_mem_facts(4-6) [OF mem]
  have "\<exists>w'. free_pool g vertex_bytes (gr_vertices g) (gr_vertex_capacity g) sizeof_rec w = Some w'" for w
    using free_block_ok [OF hk, of "gr_vertices g" "ucast (gr_vertex_capacity g) * sizeof_rec" vertex_bytes w] z(1)
    by (auto simp: free_pool_def rec_bytes_for vertex_codec.length_block sized_def)
  then obtain w1 where w1: "free_pool g vertex_bytes (gr_vertices g) (gr_vertex_capacity g) sizeof_rec w = Some w1" by blast
  obtain w2 where w2: "free_pool g edge_bytes (gr_edges g) (gr_edge_capacity g) sizeof_rec w1 = Some w2"
    using free_block_ok [OF hk, of "gr_edges g" "ucast (gr_edge_capacity g) * sizeof_rec" edge_bytes w1] z(2)
    by (auto simp: free_pool_def rec_bytes_for edge_codec.length_block sized_def)
  have "gr_weights g = None" if "\<not> gr_weighted g" using mem that by (simp add: graph_mem_def)
  then obtain w3 where w3: "free_pool g (le_bytes 8) (gr_weights g) (gr_weight_capacity g) 8 w2 = Some w3"
    using free_block_ok [OF hk, of "gr_weights g" "ucast (gr_weight_capacity g) * 8" "le_bytes 8" w2] z(3)
    by (cases "gr_weighted g") (auto simp: free_pool_def weight_bytes_for weight_codec.length_block sized_def)
  obtain g4 w4 where w4: "dv_graph_free_scratch g w3 = Some (g4, w4)" using free_scratch_ok [OF mem, of w3] by blast
  show ?thesis using hk(2) w1 w2 w3 w4 by auto
qed

lemma init_ok:
  assumes L: "libc_heap L" and ok: "graph_config_ok c allocator" and al: "\<And>a. allocator = Some a \<Longrightarrow> allocator_contract a"
  obtains st g' w' where "dv_graph_init L (Some g) (Some c) allocator w = Some (st, Some g', w')" "st \<in> {DV_GRAPH_OK, DV_GRAPH_ERR_NOMEM}"
    "st = DV_GRAPH_OK \<Longrightarrow> represents g' Map.empty [] \<and> config_of g' = config_of (graph_configured c null_hooks) \<and>
       phase_of g' = (1, False, False) \<and> gr_vertex_capacity g' = gcf_initial_vertex_capacity c \<and> (gcf_growable c \<or> scratch_ready g')"
    "st \<noteq> DV_GRAPH_OK \<Longrightarrow> g' = zero_graph"
proof -
  have cs: "graph_config_status c = DV_GRAPH_OK" using ok by (simp add: graph_config_ok_def)
  obtain hk where hk: "graph_select_hooks L allocator = Some hk" "allocator_contract hk" "hk_alloc hk \<noteq> None" "hk_free hk \<noteq> None"
    by (rule hooks_selected [OF L ok al])
  let ?g = "graph_configured c hk"
  note m = configured_mem [OF cs hk(2-4)]
  have f: "gr_initial_vertex_capacity ?g = gcf_initial_vertex_capacity c" "gr_initial_edge_capacity ?g = gcf_initial_edge_capacity c"
    "gr_vertex_watermark ?g = 0" "gr_edge_watermark ?g = 0" "gr_growable ?g = gcf_growable c" "phase_of ?g = (1, False, False)"
    "config_of ?g = config_of (graph_configured c null_hooks)"
    by (simp_all add: graph_configured_def zero_graph_def phase_of_def config_of_def)
  show thesis
  proof (rule allocate_ok [OF m(1) f(1-4), of w], goal_cases)
    case (1 st g1 w1)
    note a = 1
    have st: "st \<in> {DV_GRAPH_OK, DV_GRAPH_ERR_NOMEM}" and m1: "graph_mem g1" using a(2) by (simp_all add: recapped_def)
    show thesis
    proof (cases "st = DV_GRAPH_OK")
      case True
      have "dv_graph_init L (Some g) (Some c) allocator w = Some (DV_GRAPH_OK, Some g1, w1)"
        using cs hk(1) a(1) True by simp
      then show thesis using that recapped_represents [OF m(2) a(2)] f(5-7) a(3) True by simp
    next
      case False
      obtain w2 where d: "dv_graph_destroy (Some g1) w1 = Some (Some zero_graph, w2)" using destroy_ok [OF m1] by blast
      have "dv_graph_init L (Some g) (Some c) allocator w = Some (st, Some zero_graph, w2)"
        unfolding dv_graph_init.simps using cs hk(1) a(1) d False by (simp del: dv_graph_destroy.simps)
      then show thesis using that st False by simp
    qed
  qed
qed

section \<open>Bulk insertion\<close>

lemma reserve_for_bulk_ok:
  assumes rep: "represents g V E"
  shows "\<exists>g' w'. dv_graph_reserve_for_bulk g cur cap cnt vs w = Some (Some g', w') \<and> represents g' V E \<and>
    config_of g' = config_of g \<and> phase_of g' = phase_of g"
proof -
  have one: "\<exists>st g' w'. (if vs then dv_graph_reserve_vertices (Some g) k w else dv_graph_reserve_edges (Some g) k w) = Some (st, Some g', w') \<and>
      represents g' V E \<and> config_of g' = config_of g \<and> phase_of g' = phase_of g" if "represents g V E" for g k w
    using reserve_vertices_ok [OF that, of k w] reserve_edges_ok [OF that, of k w] by (cases vs) (auto simp del: dv_graph_reserve_vertices.simps dv_graph_reserve_edges.simps)
  let ?k = "dv_graph_clamp_capacity (if cur + cnt > dv_graph_next_capacity cap then cur + cnt else dv_graph_next_capacity cap)
      (if vs then gr_max_vertex_capacity g else gr_max_edge_capacity g)"
    and ?x = "dv_graph_clamp_capacity (cur + cnt) (if vs then gr_max_vertex_capacity g else gr_max_edge_capacity g)"
  obtain st g1 w1 where g1: "(if vs then dv_graph_reserve_vertices (Some g) ?k w else dv_graph_reserve_edges (Some g) ?k w) = Some (st, Some g1, w1)"
    "represents g1 V E" "config_of g1 = config_of g" "phase_of g1 = phase_of g" using one [OF rep] by blast
  obtain st2 g2 w2 where g2: "(if vs then dv_graph_reserve_vertices (Some g1) ?x w1 else dv_graph_reserve_edges (Some g1) ?x w1) = Some (st2, Some g2, w2)"
    "represents g2 V E" "config_of g2 = config_of g1" "phase_of g2 = phase_of g1" using one [OF g1(2)] by blast
  consider (skip) "cnt > DV_GRAPH_MAX_CAPACITY - cur \<or> cur + cnt \<le> cap"
    | (first) "\<not> (cnt > DV_GRAPH_MAX_CAPACITY - cur \<or> cur + cnt \<le> cap)" "st = DV_GRAPH_OK \<or> \<not> ?x < ?k"
    | (second) "\<not> (cnt > DV_GRAPH_MAX_CAPACITY - cur \<or> cur + cnt \<le> cap)" "\<not> (st = DV_GRAPH_OK \<or> \<not> ?x < ?k)" by blast
  then show ?thesis
  proof cases
    case skip
    then have "dv_graph_reserve_for_bulk g cur cap cnt vs w = Some (Some g, w)"
      unfolding dv_graph_reserve_for_bulk_def Let_def by (simp only: if_True)
    then show ?thesis using rep by blast
  next
    case first
    have "dv_graph_reserve_for_bulk g cur cap cnt vs w = Some (Some g1, w1)"
      unfolding dv_graph_reserve_for_bulk_def Let_def if_not_P [OF first(1)] g1(1) using first(2) by (simp only: Option.bind.bind_lunit prod.case if_True)
    then show ?thesis using g1 by blast
  next
    case second
    have "dv_graph_reserve_for_bulk g cur cap cnt vs w = Some (Some g2, w2)"
      unfolding dv_graph_reserve_for_bulk_def Let_def if_not_P [OF second(1)] g1(1) Option.bind.bind_lunit prod.case
        if_not_P [OF second(2)] g2(1) ..
    then show ?thesis using g1(3,4) g2(2-4) by simp
  qed
qed

fun add_handles :: "(u32 \<rightharpoonup> u32) \<Rightarrow> dv_vertex_t list \<Rightarrow> u32 \<rightharpoonup> u32" where
  "add_handles V [] = V"
| "add_handles V (h # hs) = add_handles (V(vh_index h \<mapsto> vh_generation h)) hs"

text \<open>The handles of a batch are fresh and distinct.\<close>

fun fresh_handles :: "(u32 \<rightharpoonup> u32) \<Rightarrow> dv_vertex_t list \<Rightarrow> bool" where
  "fresh_handles V [] = True"
| "fresh_handles V (h # hs) = (vh_index h \<notin> dom V \<and> fresh_handles (V(vh_index h \<mapsto> vh_generation h)) hs)"

definition batch_phase :: "bool \<Rightarrow> u64 \<times> bool \<times> bool \<Rightarrow> u64 \<times> bool \<times> bool" where
  "batch_phase changed p = (fst p, fst (snd p), snd (snd p) \<or> changed)"

lemma in_update_touch: "gr_in_update g \<Longrightarrow> phase_of (dv_graph_touch g) = batch_phase True (phase_of g)"
  by (simp add: phase_of_def batch_phase_def dv_graph_touch_def)

lemma batch_phase_simps [simp]: "batch_phase False p = p" "batch_phase b (batch_phase c p) = batch_phase (b \<or> c) p"
  by (auto simp: batch_phase_def)

lemma add_vertices_loop_ok:
  "represents g V E \<Longrightarrow> gr_in_update g \<Longrightarrow> added \<le> cnt \<Longrightarrow>
   \<exists>n g' hs w'. add_vertices_loop (Some g) cnt added out w = Some (n, Some g', out @ hs, w') \<and>
     represents g' (add_handles V hs) E \<and> fresh_handles V hs \<and> config_of g' = config_of g \<and>
     phase_of g' = batch_phase (hs \<noteq> []) (phase_of g) \<and> unat n = unat added + length hs \<and> n \<le> cnt"
proof (induction "unat cnt - unat added" arbitrary: g V added out w)
  case 0
  then have "\<not> added < cnt" by (simp add: word_less_nat_alt)
  then show ?case using 0 by (intro exI [of _ added] exI [of _ g] exI [of _ "[]"] exI [of _ w]) (simp add: add_vertices_loop.simps)
next
  case (Suc d)
  then have lt: "added < cnt" by (simp add: word_less_nat_alt)
  have s: "unat (added + 1) = Suc (unat added)" using unat_Suc_word [of added cnt] lt by (simp add: word_less_nat_alt)
  show ?case
  proof (rule add_vertex_ok [OF Suc.prems(1), of w], goal_cases)
    case (1 st g1 h w1)
    note a = 1
    show ?case
    proof (cases "st = DV_GRAPH_OK")
      case False
      then have "add_vertices_loop (Some g) cnt added out w = Some (added, Some g1, out, w1)"
        using a(1) lt by (subst add_vertices_loop.simps) (simp del: dv_graph_add_vertex.simps)
      then show ?thesis using a(2,4) False lt by (intro exI [of _ added] exI [of _ g1] exI [of _ "[]"] exI [of _ w1]) simp
    next
      case True
      then obtain v where v: "h = Some v" "vh_index v \<notin> dom V" "represents g1 (V(vh_index v \<mapsto> vh_generation v)) E"
        "phase_of g1 = phase_of (dv_graph_touch g)" using a(5) by blast
      have up: "gr_in_update g1" using v(4) in_update_touch [OF Suc.prems(2)] Suc.prems(2) by (simp add: phase_of_def batch_phase_def)
      have "\<exists>n g' hs w'. add_vertices_loop (Some g1) cnt (added + 1) (out @ [v]) w1 = Some (n, Some g', (out @ [v]) @ hs, w') \<and>
          represents g' (add_handles (V(vh_index v \<mapsto> vh_generation v)) hs) E \<and> fresh_handles (V(vh_index v \<mapsto> vh_generation v)) hs \<and>
          config_of g' = config_of g1 \<and> phase_of g' = batch_phase (hs \<noteq> []) (phase_of g1) \<and>
          unat n = unat (added + 1) + length hs \<and> n \<le> cnt"
        by (rule Suc.hyps(1) [OF _ v(3) up]) (use Suc.hyps(2) s lt in \<open>simp_all add: word_less_nat_alt word_le_nat_alt\<close>)
      then obtain n g' hs w' where r: "add_vertices_loop (Some g1) cnt (added + 1) (out @ [v]) w1 = Some (n, Some g', (out @ [v]) @ hs, w')"
        "represents g' (add_handles (V(vh_index v \<mapsto> vh_generation v)) hs) E" "fresh_handles (V(vh_index v \<mapsto> vh_generation v)) hs"
        "config_of g' = config_of g1" "phase_of g' = batch_phase (hs \<noteq> []) (phase_of g1)" "unat n = unat (added + 1) + length hs" "n \<le> cnt"
        by blast
      have "add_vertices_loop (Some g) cnt added out w = Some (n, Some g', out @ (v # hs), w')"
        using a(1) lt True v(1) r(1) by (subst add_vertices_loop.simps) (simp del: dv_graph_add_vertex.simps)
      then show ?thesis using r(2-7) a(2) v(2,4) s in_update_touch [OF Suc.prems(2)]
        by (intro exI [of _ n] exI [of _ g'] exI [of _ "v # hs"] exI [of _ w']) simp
    qed
  qed
qed

text \<open>The version steps once for a batch, or is left to the open update phase.\<close>

definition closed_phase :: "bool \<Rightarrow> u64 \<times> bool \<times> bool \<Rightarrow> u64 \<times> bool \<times> bool" where
  "closed_phase changed = (\<lambda>(version, open, dirty). if open then (version, True, dirty \<or> changed)
     else if dirty \<or> changed then (version + 1, False, False) else (version, False, False))"

lemma batch_end_ok:
  assumes "represents g' V E" "phase_of g' = batch_phase c (phase_of (g\<lparr>gr_in_update := True\<rparr>))"
  shows "represents (dv_graph_batch_end g' (gr_in_update g)) V E" "config_of (dv_graph_batch_end g' b) = config_of g'"
    "phase_of (dv_graph_batch_end g' (gr_in_update g)) = closed_phase c (phase_of g)"
  using assms by (auto simp: dv_graph_batch_end_def Let_def config_of_def phase_of_def batch_phase_def closed_phase_def)

lemma add_vertices_ok:
  assumes rep: "represents g V E"
  obtains n g' hs w' where "dv_graph_add_vertices (Some g) cnt w = Some (n, Some g', hs, w')" "represents g' (add_handles V hs) E"
    "fresh_handles V hs" "config_of g' = config_of g" "unat n = length hs" "n \<le> cnt"
    "cnt \<noteq> 0 \<Longrightarrow> phase_of g' = closed_phase (hs \<noteq> []) (phase_of g)"
proof (cases "cnt = 0")
  case True
  then show thesis using that [of 0 g "[]" w] rep by simp
next
  case False
  obtain g1 w1 where g1: "(if gr_growable g then dv_graph_reserve_for_bulk g (gr_vertex_count g) (gr_vertex_capacity g) cnt True w
      else Some (Some g, w)) = Some (Some g1, w1)" "represents g1 V E" "config_of g1 = config_of g" "phase_of g1 = phase_of g"
    using reserve_for_bulk_ok [OF rep, of "gr_vertex_count g" "gr_vertex_capacity g" cnt True w] rep by (cases "gr_growable g") auto
  let ?g = "g1\<lparr>gr_in_update := True\<rparr>"
  have up: "gr_in_update ?g" "represents ?g V E" using g1(2) by simp_all
  obtain n g' hs w' where r: "add_vertices_loop (Some ?g) cnt 0 [] w1 = Some (n, Some g', hs, w')"
    "represents g' (add_handles V hs) E" "fresh_handles V hs" "config_of g' = config_of ?g"
    "phase_of g' = batch_phase (hs \<noteq> []) (phase_of ?g)" "unat n = length hs" "n \<le> cnt"
    using add_vertices_loop_ok [OF up(2,1), of 0 cnt "[]" w1] by auto
  note b = batch_end_ok [OF r(2,5)]
  have call: "dv_graph_add_vertices (Some g) cnt w = Some (n, Some (dv_graph_batch_end g' (gr_in_update g1)), hs, w')"
    unfolding dv_graph_add_vertices.simps if_not_P [OF False] g1(1) using r(1) by (simp add: dv_graph_batch_begin_def)
  have cf: "config_of (dv_graph_batch_end g' (gr_in_update g1)) = config_of g" unfolding b(2) r(4) using g1(3) by (simp add: config_of_def)
  show thesis using that [OF call b(1) r(3) cf r(6,7)] b(3) g1(4) by simp
qed

definition spec_edge :: "'w dv_graph_t \<Rightarrow> dv_graph_edge_spec_t \<Rightarrow> dv_edge_t \<Rightarrow> graph_edge" where
  "spec_edge g s h = \<lparr>ge_handle = h, ge_src = vh_index (spec_src s), ge_dst = vh_index (spec_dst s),
     ge_weight = (if gr_weighted g then Some (spec_weight s) else None)\<rparr>"

text \<open>The edges of a batch pass the checks one after the other, each against the edges before it.\<close>

fun admitted :: "'w dv_graph_t \<Rightarrow> (u32 \<rightharpoonup> u32) \<Rightarrow> graph_edge list \<Rightarrow> dv_graph_edge_spec_t list \<Rightarrow> dv_edge_t list \<Rightarrow> bool" where
  "admitted g V E specs [] = True"
| "admitted g V E [] (h # hs) = False"
| "admitted g V E (s # specs) (h # hs) = (edge_admission g V E (spec_src s) (spec_dst s) = DV_GRAPH_OK \<and>
     eh_index h \<notin> eh_index ` ge_handle ` set E \<and> admitted g V (E @ [spec_edge g s h]) specs hs)"

lemma config_weighted: "config_of g' = config_of g \<Longrightarrow> gr_weighted g' = gr_weighted g \<and> gr_directed g' = gr_directed g"
  by (simp add: config_of_def)

lemma admitted_config: "config_of g' = config_of g \<Longrightarrow> admitted g' V E specs hs = admitted g V E specs hs"
proof -
  assume c: "config_of g' = config_of g"
  have "edge_admission g' = edge_admission g" "spec_edge g' = spec_edge g"
    using c by (auto simp: edge_admission_def spec_edge_def config_of_def fun_eq_iff)
  then show ?thesis by (induction g V E specs hs rule: admitted.induct) auto
qed

lemma add_edges_loop_ok:
  "represents g V E \<Longrightarrow> gr_in_update g \<Longrightarrow> added \<le> cnt \<Longrightarrow> unat cnt \<le> length specs \<Longrightarrow>
   \<exists>n g' hs w'. add_edges_loop (Some g) specs cnt added out w = Some (n, Some g', out @ hs, w') \<and>
     represents g' V (E @ map2 (spec_edge g) (take (length hs) (drop (unat added) specs)) hs) \<and> config_of g' = config_of g \<and>
     admitted g V E (drop (unat added) specs) hs \<and> phase_of g' = batch_phase (hs \<noteq> []) (phase_of g) \<and> unat n = unat added + length hs \<and> n \<le> cnt"
proof (induction "unat cnt - unat added" arbitrary: g E added out w)
  case 0
  then have "\<not> added < cnt" by (simp add: word_less_nat_alt)
  then show ?case using 0 by (intro exI [of _ added] exI [of _ g] exI [of _ "[]"] exI [of _ w]) (simp add: add_edges_loop.simps)
next
  case (Suc d)
  then have lt: "added < cnt" by (simp add: word_less_nat_alt)
  then have lts: "unat added < length specs" using Suc.prems(4) by (simp add: word_less_nat_alt)
  have s: "unat (added + 1) = Suc (unat added)" using unat_Suc_word [of added cnt] lt by (simp add: word_less_nat_alt)
  let ?s = "specs ! unat added"
  show ?case
  proof (rule add_edge_ok [OF Suc.prems(1), of "spec_src ?s" "spec_dst ?s" "spec_weight ?s" w], goal_cases)
    case (1 st g1 h w1)
    note a = 1
    show ?case
    proof (cases "st = DV_GRAPH_OK")
      case False
      then have "add_edges_loop (Some g) specs cnt added out w = Some (added, Some g1, out, w1)"
        using a(1) lt lts by (subst add_edges_loop.simps) (simp del: dv_graph_add_edge.simps add: Let_def)
      then show ?thesis using a(2,5) False lt by (intro exI [of _ added] exI [of _ g1] exI [of _ "[]"] exI [of _ w1]) simp
    next
      case True
      then obtain e where e: "h = Some e" "phase_of g1 = phase_of (dv_graph_touch g)"
        "represents g1 V (E @ [spec_edge g ?s e])" "eh_index e \<notin> eh_index ` ge_handle ` set E"
        using a(6) unfolding spec_edge_def by blast
      have adm: "edge_admission g V E (spec_src ?s) (spec_dst ?s) = DV_GRAPH_OK" using a(3) True by metis
      have up: "gr_in_update g1" using e(2) in_update_touch [OF Suc.prems(2)] Suc.prems(2) by (simp add: phase_of_def batch_phase_def)
      have sp: "spec_edge g1 = spec_edge g" using config_weighted [OF a(2)] by (simp add: spec_edge_def fun_eq_iff)
      have "\<exists>n g' hs w'. add_edges_loop (Some g1) specs cnt (added + 1) (out @ [e]) w1 = Some (n, Some g', (out @ [e]) @ hs, w') \<and>
          represents g' V ((E @ [spec_edge g ?s e]) @ map2 (spec_edge g1) (take (length hs) (drop (unat (added + 1)) specs)) hs) \<and>
          config_of g' = config_of g1 \<and> admitted g1 V (E @ [spec_edge g ?s e]) (drop (unat (added + 1)) specs) hs \<and>
          phase_of g' = batch_phase (hs \<noteq> []) (phase_of g1) \<and> unat n = unat (added + 1) + length hs \<and> n \<le> cnt"
        by (rule Suc.hyps(1) [OF _ e(3) up]) (use Suc.hyps(2) s lt Suc.prems(4) in \<open>simp_all add: word_less_nat_alt word_le_nat_alt\<close>)
      then obtain n g' hs w' where r: "add_edges_loop (Some g1) specs cnt (added + 1) (out @ [e]) w1 = Some (n, Some g', (out @ [e]) @ hs, w')"
        "represents g' V ((E @ [spec_edge g ?s e]) @ map2 (spec_edge g1) (take (length hs) (drop (unat (added + 1)) specs)) hs)"
        "config_of g' = config_of g1" "phase_of g' = batch_phase (hs \<noteq> []) (phase_of g1)" "unat n = unat (added + 1) + length hs" "n \<le> cnt"
        "admitted g V (E @ [spec_edge g ?s e]) (drop (unat (added + 1)) specs) hs"
        unfolding admitted_config [OF a(2)] by blast
      have "add_edges_loop (Some g) specs cnt added out w = Some (n, Some g', out @ (e # hs), w')"
        using a(1) lt lts True e(1) r(1) by (subst add_edges_loop.simps) (simp del: dv_graph_add_edge.simps add: Let_def)
      moreover have "drop (unat added) specs = ?s # drop (Suc (unat added)) specs" using lts by (simp add: Cons_nth_drop_Suc)
      ultimately show ?thesis using r(2-7) a(2) e(2,4) adm s sp in_update_touch [OF Suc.prems(2)]
        by (intro exI [of _ n] exI [of _ g'] exI [of _ "e # hs"] exI [of _ w']) simp
    qed
  qed
qed

lemma add_edges_ok:
  assumes rep: "represents g V E" and len: "unat cnt \<le> length specs"
  obtains n g' hs w' where "dv_graph_add_edges (Some g) (Some specs) cnt w = Some (n, Some g', hs, w')"
    "represents g' V (E @ map2 (spec_edge g) (take (length hs) specs) hs)" "config_of g' = config_of g" "unat n = length hs" "n \<le> cnt"
    "admitted g V E specs hs" "cnt \<noteq> 0 \<Longrightarrow> phase_of g' = closed_phase (hs \<noteq> []) (phase_of g)"
proof (cases "cnt = 0")
  case True
  then show thesis using that [of 0 g "[]" w] rep by simp
next
  case False
  obtain g1 w1 where g1: "(if gr_growable g then dv_graph_reserve_for_bulk g (gr_edge_count g) (gr_edge_capacity g) cnt False w
      else Some (Some g, w)) = Some (Some g1, w1)" "represents g1 V E" "config_of g1 = config_of g" "phase_of g1 = phase_of g"
    using reserve_for_bulk_ok [OF rep, of "gr_edge_count g" "gr_edge_capacity g" cnt False w] rep by (cases "gr_growable g") auto
  let ?g = "g1\<lparr>gr_in_update := True\<rparr>"
  have up: "gr_in_update ?g" "represents ?g V E" using g1(2) by simp_all
  have sp: "spec_edge ?g = spec_edge g" using config_weighted [OF g1(3)] by (simp add: spec_edge_def fun_eq_iff)
  have ad: "admitted ?g V E specs hs = admitted g V E specs hs" for hs by (rule admitted_config) (use g1(3) in \<open>simp add: config_of_def\<close>)
  obtain n g' hs w' where r: "add_edges_loop (Some ?g) specs cnt 0 [] w1 = Some (n, Some g', hs, w')"
    "represents g' V (E @ map2 (spec_edge g) (take (length hs) specs) hs)" "config_of g' = config_of ?g"
    "phase_of g' = batch_phase (hs \<noteq> []) (phase_of ?g)" "unat n = length hs" "n \<le> cnt" "admitted g V E specs hs"
    using add_edges_loop_ok [OF up(2,1) _ len, of 0 "[]" w1] by (auto simp: sp ad)
  note b = batch_end_ok [OF r(2,4)]
  have call: "dv_graph_add_edges (Some g) (Some specs) cnt w = Some (n, Some (dv_graph_batch_end g' (gr_in_update g1)), hs, w')"
    unfolding dv_graph_add_edges.simps if_not_P [OF False] g1(1) using r(1) by (simp add: dv_graph_batch_begin_def)
  have cf: "config_of (dv_graph_batch_end g' (gr_in_update g1)) = config_of g" unfolding b(2) r(3) using g1(3) by (simp add: config_of_def)
  show thesis using that [OF call b(1) cf r(5-7)] b(3) g1(4) by simp
qed

end
