(* ===== verification/Graph_Scratch.thy ===== *)
theory Graph_Scratch
  imports Graph_Cycle Dv_Graph_Walk
begin

text \<open>
  The scratch memory of a traversal: the bit set of visited vertices and the two halves of the work
  array. A traversal changes nothing else of the graph.
\<close>

section \<open>Changes to the scratch only\<close>

definition rescratched :: "'w dv_graph_t \<Rightarrow> 'w dv_graph_t \<Rightarrow> bool" where
  "rescratched g0 g \<longleftrightarrow> g = g0\<lparr>gr_work := gr_work g, gr_visited := gr_visited g\<rparr> \<and>
     sized (gr_work g) (2 * unat (gr_work_capacity g0)) \<and> sized (gr_visited g) (unat (gr_visited_words g0))"

lemma rescratched_refl: "graph_mem g \<Longrightarrow> rescratched g g"
  by (simp add: rescratched_def graph_mem_def)

lemma rescratchedD:
  assumes "rescratched g0 g"
  shows "vrec g i = vrec g0 i" "erec g i = erec g0 i" "dv_graph_handle g i = dv_graph_handle g0 i" "gr_work_capacity g = gr_work_capacity g0"
    "length (items (gr_work g)) = 2 * unat (gr_work_capacity g0)" "length (items (gr_visited g)) = unat (gr_visited_words g0)"
    "gr_directed g = gr_directed g0"
proof -
  obtain p q where g: "g = g0\<lparr>gr_work := p, gr_visited := q\<rparr>" using assms unfolding rescratched_def by blast
  show "vrec g i = vrec g0 i" "erec g i = erec g0 i" "dv_graph_handle g i = dv_graph_handle g0 i" "gr_work_capacity g = gr_work_capacity g0"
    "gr_directed g = gr_directed g0"
    by (simp_all add: g vrec_def erec_def dv_graph_handle_def)
  show "length (items (gr_work g)) = 2 * unat (gr_work_capacity g0)" "length (items (gr_visited g)) = unat (gr_visited_words g0)"
    using assms by (simp_all add: rescratched_def sized_def)
qed

lemma rescratched_recapped:
  assumes "graph_mem g0" "rescratched g0 g"
  shows "recapped g0 DV_GRAPH_OK g"
proof -
  obtain p q where g: "g = g0\<lparr>gr_work := p, gr_visited := q\<rparr>" "sized p (2 * unat (gr_work_capacity g0))" "sized q (unat (gr_visited_words g0))"
    using assms(2) unfolding rescratched_def by blast
  have "same_content g0 g" by (simp add: g(1) same_content_def graph_core_def)
  moreover have "graph_mem g" using assms(1) g(2,3) by (simp add: g(1) graph_mem_def)
  ultimately show ?thesis by (simp add: recapped_def)
qed

lemma rescratched_upd:
  assumes "rescratched g0 g"
  shows "sized p (2 * unat (gr_work_capacity g0)) \<Longrightarrow> rescratched g0 (g\<lparr>gr_work := p\<rparr>)"
    "sized q (unat (gr_visited_words g0)) \<Longrightarrow> rescratched g0 (g\<lparr>gr_visited := q\<rparr>)"
proof -
  obtain p' q' where g: "g = g0\<lparr>gr_work := p', gr_visited := q'\<rparr>" using assms unfolding rescratched_def by blast
  show "sized p (2 * unat (gr_work_capacity g0)) \<Longrightarrow> rescratched g0 (g\<lparr>gr_work := p\<rparr>)"
    "sized q (unat (gr_visited_words g0)) \<Longrightarrow> rescratched g0 (g\<lparr>gr_visited := q\<rparr>)"
    using assms by (simp_all add: rescratched_def g)
qed

section \<open>The visited set\<close>

definition seen :: "'w dv_graph_t \<Rightarrow> u32 \<Rightarrow> bool" where
  "seen g v \<longleftrightarrow> bit (items (gr_visited g) ! (unat v div 64)) (unat v mod 64)"

lemma visited_place: "unat (drop_bit 6 (v :: u32)) = unat v div 64" "unat (v AND 63) = unat v mod 64"
proof -
  show "unat (drop_bit 6 v) = unat v div 64" by (simp add: unat_drop_bit_eq drop_bit_eq_div unat_div_distrib)
  have "v AND 63 = take_bit 6 v" by (simp add: take_bit_eq_mask mask_eq_exp_minus_1)
  then show "unat (v AND 63) = unat v mod 64" by (simp add: take_bit_eq_mod unat_mod_distrib)
qed

lemma visited_in_range:
  assumes "rescratched g0 g" "scratch_ready g0" "v < gr_vertex_capacity g0"
  shows "unat v div 64 < length (items (gr_visited g))"
proof -
  have "unat v < unat (gr_vertex_capacity g0)" using assms(3) by (simp add: word_less_nat_alt)
  then have "unat v div 64 < (unat (gr_vertex_capacity g0) + 63) div 64" by (simp add: div_less_iff_less_mult)
  also have "\<dots> \<le> unat (gr_visited_words g0)"
    using assms(2) scratch_words(1) [of g0] by (simp add: scratch_ready_def word_le_nat_alt)
  finally show ?thesis using rescratchedD(6) [OF assms(1)] by simp
qed

lemma visited_test_ok:
  assumes "rescratched g0 g" "scratch_ready g0" "v < gr_vertex_capacity g0"
  shows "dv_graph_visited_test g v = Some (seen g v)"
proof -
  show ?thesis
    using visited_in_range [OF assms]
    by (simp add: dv_graph_visited_test_def visited_place arr_get_items seen_def bit_iff_and_push_bit_not_eq_0)
qed

lemma visited_set_ok:
  assumes "rescratched g0 g" "scratch_ready g0" "v < gr_vertex_capacity g0"
  obtains g' where "dv_graph_visited_set g v = Some g'" "rescratched g0 g'" "gr_work g' = gr_work g" "\<And>u. seen g' u = (u = v \<or> seen g u)"
proof -
  let ?i = "unat v div 64" and ?b = "unat v mod 64"
  let ?x = "items (gr_visited g) ! ?i OR push_bit ?b 1"
  note r = visited_in_range [OF assms]
  obtain p where p: "arr_set (gr_visited g) ?i ?x = Some p" "items p = (items (gr_visited g))[?i := ?x]" "(p = None) = (gr_visited g = None)"
    using arr_set_items [OF r, of ?x] by (elim exE conjE) (rule that)
  have call: "dv_graph_visited_set g v = Some (g\<lparr>gr_visited := p\<rparr>)"
    using r p(1) by (simp add: dv_graph_visited_set_def visited_place arr_get_items)
  have rs: "rescratched g0 (g\<lparr>gr_visited := p\<rparr>)"
    by (rule rescratched_upd(2) [OF assms(1)]) (use p(2,3) assms(1) in \<open>auto simp: rescratched_def sized_def\<close>)
  have sn: "seen (g\<lparr>gr_visited := p\<rparr>) u = (u = v \<or> seen g u)" for u
  proof (cases "unat u div 64 = ?i")
    case True
    have "u = v \<longleftrightarrow> unat u mod 64 = ?b" using True by (metis div_mult_mod_eq word_unat_eq_iff)
    moreover have "bit (push_bit ?b 1 :: u64) m \<longleftrightarrow> m = ?b" for m by (auto simp: bit_exp_iff possible_bit_word)
    ultimately show ?thesis using True r by (auto simp: seen_def p(2) bit_or_iff)
  next
    case False
    then show ?thesis by (auto simp: seen_def p(2))
  qed
  show thesis by (rule that [OF call rs _ sn]) simp
qed

section \<open>The work array\<close>

abbreviation work1 :: "'w dv_graph_t \<Rightarrow> nat \<Rightarrow> u32" where
  "work1 g k \<equiv> items (gr_work g) ! k"

abbreviation work2 :: "'w dv_graph_t \<Rightarrow> nat \<Rightarrow> u32" where
  "work2 g k \<equiv> items (gr_work g) ! (unat (gr_work_capacity g) + k)"

lemma work_get_ok:
  assumes "rescratched g0 g" "unat k < unat (gr_work_capacity g0)"
  shows "work_get g k = Some (work1 g (unat k))" "work2_get g k = Some (work2 g (unat k))"
  using assms(2) rescratchedD(4,5) [OF assms(1)] by (simp_all add: work_get_def work2_get_def arr_get_items)

lemma work_put_ok:
  assumes "rescratched g0 g" "unat k < unat (gr_work_capacity g0)"
  obtains g' where "work_put g k x = Some g'" "rescratched g0 g'" "gr_visited g' = gr_visited g"
    "\<And>j. work1 g' j = (if j = unat k then x else work1 g j)"
    "\<And>j. j < unat (gr_work_capacity g0) \<Longrightarrow> work2 g' j = work2 g j"
proof -
  note l = rescratchedD(4,5) [OF assms(1)]
  have i: "unat k < length (items (gr_work g))" using assms(2) l by simp
  obtain p where p: "arr_set (gr_work g) (unat k) x = Some p" "items p = (items (gr_work g))[unat k := x]" "(p = None) = (gr_work g = None)"
    using arr_set_items [OF i, of x] by (elim exE conjE) (rule that)
  have c: "work_put g k x = Some (g\<lparr>gr_work := p\<rparr>)" using p(1) by (simp add: work_put_def)
  have rs: "rescratched g0 (g\<lparr>gr_work := p\<rparr>)"
    by (rule rescratched_upd(1) [OF assms(1)]) (use p(2,3) assms(1) in \<open>auto simp: rescratched_def sized_def\<close>)
  have f1: "work1 (g\<lparr>gr_work := p\<rparr>) j = (if j = unat k then x else work1 g j)" for j using i by (simp add: p(2) nth_list_update)
  have f2: "work2 (g\<lparr>gr_work := p\<rparr>) j = work2 g j" if "j < unat (gr_work_capacity g0)" for j using assms(2) l(1) by (simp add: p(2))
  show thesis by (rule that [OF c rs _ f1 f2]) simp_all
qed

lemma work2_put_ok:
  assumes "rescratched g0 g" "unat k < unat (gr_work_capacity g0)"
  obtains g' where "work2_put g k x = Some g'" "rescratched g0 g'" "gr_visited g' = gr_visited g"
    "\<And>j. work2 g' j = (if j = unat k then x else work2 g j)"
    "\<And>j. j < unat (gr_work_capacity g0) \<Longrightarrow> work1 g' j = work1 g j"
proof -
  note l = rescratchedD(4,5) [OF assms(1)]
  let ?i = "unat (gr_work_capacity g) + unat k"
  have i: "?i < length (items (gr_work g))" using assms(2) l by simp
  obtain p where p: "arr_set (gr_work g) ?i x = Some p" "items p = (items (gr_work g))[?i := x]" "(p = None) = (gr_work g = None)"
    using arr_set_items [OF i, of x] by (elim exE conjE) (rule that)
  have c: "work2_put g k x = Some (g\<lparr>gr_work := p\<rparr>)" using p(1) by (simp add: work2_put_def)
  have rs: "rescratched g0 (g\<lparr>gr_work := p\<rparr>)"
    by (rule rescratched_upd(1) [OF assms(1)]) (use p(2,3) assms(1) in \<open>auto simp: rescratched_def sized_def\<close>)
  have f2: "work2 (g\<lparr>gr_work := p\<rparr>) j = (if j = unat k then x else work2 g j)" for j using i by (simp add: p(2) nth_list_update)
  have f1: "work1 (g\<lparr>gr_work := p\<rparr>) j = work1 g j" if "j < unat (gr_work_capacity g0)" for j using that l(1) by (simp add: p(2))
  show thesis by (rule that [OF c rs _ f2 f1]) simp_all
qed

section \<open>Setting up a traversal\<close>

lemma traverse_setup_ok:
  assumes rep: "represents g V E"
  obtains (stale) "V (vh_index start) \<noteq> Some (vh_generation start)" "dv_graph_traverse_setup (Some g) start (Some f) w = Some (DV_GRAPH_ERR_STALE, Some g, w)"
  | (failed) g1 w1 where "V (vh_index start) = Some (vh_generation start)" "represents g1 V E" "config_of g1 = config_of g" "phase_of g1 = phase_of g"
      "dv_graph_traverse_setup (Some g) start (Some f) w = Some (DV_GRAPH_ERR_NOMEM, Some g1, w1)"
  | (ready) g1 w1 where "V (vh_index start) = Some (vh_generation start)" "represents g1 V E" "config_of g1 = config_of g" "phase_of g1 = phase_of g"
      "dv_graph_traverse_setup (Some g) start (Some f) w = Some (DV_GRAPH_OK, Some g1, w1)" "scratch_ready g1"
      "\<And>v. v < gr_vertex_capacity g1 \<Longrightarrow> \<not> seen g1 v"
proof -
  obtain L VF EF where wf: "wf_graph g L VF EF" and V: "V = vertex_map g" and E: "E = map (edge_view g) L"
    using representsE [OF rep] by blast
  note mem = wf_genD(1) [OF wf]
  have lv: "dv_graph_vertex_live g start = Some (V (vh_index start) = Some (vh_generation start))" using vertex_live_iff [OF wf, of start] V by simp
  show thesis
  proof (cases "V (vh_index start) = Some (vh_generation start)")
    case False
    then show thesis using stale lv by simp
  next
    case live: True
    obtain st g1 w1 where e: "dv_graph_ensure_scratch g w = Some (st, g1, w1)" "recapped g st g1" "st = DV_GRAPH_OK \<longrightarrow> scratch_ready g1"
      using ensure_scratch_ok [OF mem, of w] by blast
    note r1 = recapped_represents [OF rep e(2)]
    show thesis
    proof (cases "st = DV_GRAPH_OK")
      case False
      then have "st = DV_GRAPH_ERR_NOMEM" using e(2) by (auto simp: recapped_def)
      then show thesis using failed [OF live r1] e(1) lv live by simp
    next
      case ok: True
      have m1: "graph_mem g1" using e(2) by (simp add: recapped_def)
      show thesis
      proof (cases "gr_visited_words g1 > 0")
        case True
        have s: "sized (gr_visited g1) (unat (gr_visited_words g1))" using scratch_facts(2) [OF m1] .
        then obtain a where a: "gr_visited g1 = Some a" "length (arr_items a) = unat (gr_visited_words g1)"
          using True by (cases "gr_visited g1") (auto simp: sized_def word_gt_0 unat_eq_zero)
        let ?p = "Some (a\<lparr>arr_items := replicate (unat (gr_visited_words g1)) 0\<rparr>)"
        let ?g = "g1\<lparr>gr_visited := ?p\<rparr>"
        have call: "dv_graph_traverse_setup (Some g) start (Some f) w = Some (DV_GRAPH_OK, Some ?g, w1)"
          using e(1) lv live ok True a by simp
        have rs: "rescratched g1 ?g" by (rule rescratched_upd(2) [OF rescratched_refl [OF m1]]) (use a s in \<open>auto simp: sized_def\<close>)
        note r2 = recapped_represents [OF r1(1) rescratched_recapped [OF m1 rs]]
        have sr: "scratch_ready g1" using e(3) ok by simp
        then have sr2: "scratch_ready ?g" by (simp add: scratch_ready_def scratch_words_def)
        have "\<not> seen ?g v" if "v < gr_vertex_capacity ?g" for v
          using visited_in_range [OF rs sr, of v] that by (simp add: seen_def)
        then show thesis using ready [OF live r2(1) _ _ call sr2] r2(2,3) r1(2,3) by simp
      next
        case False
        then have call: "dv_graph_traverse_setup (Some g) start (Some f) w = Some (DV_GRAPH_OK, Some g1, w1)"
          using e(1) lv live ok by simp
        have sr: "scratch_ready g1" using e(3) ok by simp
        have "\<not> seen g1 v" if "v < gr_vertex_capacity g1" for v
          using visited_in_range [OF rescratched_refl [OF m1] sr that] False rescratchedD(6) [OF rescratched_refl [OF m1]]
          by (simp add: word_gt_0)
        then show thesis using ready [OF live r1 call sr] by simp
      qed
    qed
  qed
qed

end
