(* ===== verification/Search_Order.thy ===== *)
theory Search_Order
  imports Prelude
begin

text \<open>
  Breadth first search without the memory: the queue of vertices with their depths as it grows, for any
  list of neighbours of each vertex. The queue is complete, free of duplicates and ordered by distance.
\<close>

section \<open>The growing queue\<close>

fun add_new :: "nat \<Rightarrow> ('v \<times> nat) list \<Rightarrow> 'v \<Rightarrow> ('v \<times> nat) list" where
  "add_new d Q v = (if v \<in> fst ` set Q then Q else Q @ [(v, d)])"

definition expand :: "('v \<Rightarrow> 'v list) \<Rightarrow> 'v \<times> nat \<Rightarrow> ('v \<times> nat) list \<Rightarrow> ('v \<times> nat) list" where
  "expand nb x Q = foldl (add_new (snd x + 1)) Q (nb (fst x))"

text \<open>\<open>n\<close> rounds of the loop, from the entry \<open>k\<close> on.\<close>

fun bfs_rounds :: "('v \<Rightarrow> 'v list) \<Rightarrow> nat \<Rightarrow> nat \<Rightarrow> ('v \<times> nat) list \<Rightarrow> ('v \<times> nat) list" where
  "bfs_rounds nb 0 k Q = Q"
| "bfs_rounds nb (Suc n) k Q = (if k < length Q then bfs_rounds nb n (k + 1) (expand nb (Q ! k) Q) else Q)"

definition bfs_order :: "('v \<Rightarrow> 'v list) \<Rightarrow> nat \<Rightarrow> 'v \<Rightarrow> ('v \<times> nat) list" where
  "bfs_order nb n s = bfs_rounds nb n 0 [(s, 0)]"

text \<open>A visitor is called along a list until it answers false.\<close>

fun visit_until :: "('x \<Rightarrow> 's \<Rightarrow> bool \<times> 's) \<Rightarrow> 'x list \<Rightarrow> 's \<Rightarrow> 's" where
  "visit_until f [] st = st"
| "visit_until f (x # xs) st = (if fst (f x st) then visit_until f xs (snd (f x st)) else snd (f x st))"

lemma visit_until_map: "visit_until f (map g xs) st = visit_until (\<lambda>x. f (g x)) xs st"
  by (induction xs arbitrary: st) auto

section \<open>What one round does\<close>

lemma add_all_prefix: "\<exists>ys. foldl (add_new d) Q vs = Q @ ys \<and> (\<forall>y \<in> set ys. snd y = d)"
proof (induction vs arbitrary: Q)
  case (Cons v vs)
  obtain ys where "foldl (add_new d) (add_new d Q v) vs = add_new d Q v @ ys" "\<forall>y \<in> set ys. snd y = d"
    using Cons by blast
  then show ?case by (auto split: if_splits simp del: add_new.simps simp: add_new.simps [of d Q v])
qed simp

lemma add_all_fst: "fst ` set (foldl (add_new d) Q vs) = fst ` set Q \<union> set vs"
  by (induction vs arbitrary: Q) auto

lemma add_all_distinct: "distinct (map fst Q) \<Longrightarrow> distinct (map fst (foldl (add_new d) Q vs))"
  by (induction vs arbitrary: Q) auto

lemma expand_prefix: "\<exists>ys. expand nb x Q = Q @ ys \<and> (\<forall>y \<in> set ys. snd y = snd x + 1)"
  unfolding expand_def by (rule add_all_prefix)

lemma expand_fst: "fst ` set (expand nb x Q) = fst ` set Q \<union> set (nb (fst x))"
  unfolding expand_def by (rule add_all_fst)

lemma expand_distinct: "distinct (map fst Q) \<Longrightarrow> distinct (map fst (expand nb x Q))"
  unfolding expand_def by (rule add_all_distinct)

lemma bfs_rounds_prefix: "\<exists>ys. bfs_rounds nb n k Q = Q @ ys"
proof (induction n arbitrary: k Q)
  case (Suc n)
  obtain ys where "expand nb (Q ! k) Q = Q @ ys" using expand_prefix by blast
  moreover obtain zs where "bfs_rounds nb n (k + 1) (expand nb (Q ! k) Q) = expand nb (Q ! k) Q @ zs" using Suc by blast
  ultimately show ?case by auto
qed simp

section \<open>The invariant\<close>

text \<open>
  The entries before \<open>k\<close> are expanded: their neighbours are in the queue, at most one level deeper. Depths
  do not decrease along the queue and span at most two levels from \<open>k\<close> on. An entry of depth \<open>d\<close> has a path
  of length \<open>d\<close>.
\<close>

definition queue_inv :: "('v \<Rightarrow> 'v list) \<Rightarrow> 'v \<Rightarrow> nat \<Rightarrow> ('v \<times> nat) list \<Rightarrow> bool" where
  "queue_inv nb s k Q \<longleftrightarrow> k \<le> length Q \<and> distinct (map fst Q) \<and> (s, 0) \<in> set Q \<and> sorted (map snd Q) \<and>
     (\<forall>x \<in> set Q. ((\<lambda>u v. v \<in> set (nb u)) ^^ snd x) s (fst x)) \<and>
     (k < length Q \<longrightarrow> (\<forall>x \<in> set Q. snd x \<le> snd (Q ! k) + 1)) \<and>
     (\<forall>i < k. \<forall>v \<in> set (nb (fst (Q ! i))). \<exists>d \<le> snd (Q ! i) + 1. (v, d) \<in> set Q)"

lemma queue_inv_start: "queue_inv nb s 0 [(s, 0)]"
  by (simp add: queue_inv_def)

lemma queue_inv_step:
  assumes inv: "queue_inv nb s k Q" and k: "k < length Q"
  shows "queue_inv nb s (k + 1) (expand nb (Q ! k) Q)"
proof -
  let ?x = "Q ! k" and ?R = "\<lambda>u v. v \<in> set (nb u)"
  obtain ys where ys: "expand nb ?x Q = Q @ ys" "\<And>y. y \<in> set ys \<Longrightarrow> snd y = snd ?x + 1" using expand_prefix [of nb ?x Q] by blast
  have le: "\<And>x. x \<in> set Q \<Longrightarrow> snd x \<le> snd ?x + 1" and srt: "sorted (map snd Q)" and dst: "distinct (map fst Q)"
    and path: "\<And>x. x \<in> set Q \<Longrightarrow> (?R ^^ snd x) s (fst x)"
    and old: "\<And>i v. i < k \<Longrightarrow> v \<in> set (nb (fst (Q ! i))) \<Longrightarrow> \<exists>d \<le> snd (Q ! i) + 1. (v, d) \<in> set Q"
    and s: "(s, 0) \<in> set Q"
    using inv k by (auto simp: queue_inv_def)
  have f: "fst ` set (Q @ ys) = fst ` set Q \<union> set (nb (fst ?x))" using expand_fst [of nb ?x Q] unfolding ys(1) .
  have dst': "distinct (map fst (Q @ ys))" using expand_distinct [OF dst, of nb ?x] unfolding ys(1) .
  have bound: "snd y \<le> snd ?x + 1" if "y \<in> set (Q @ ys)" for y using that le [of y] ys(2) [of y] by fastforce
  have "map snd ys = replicate (length ys) (snd ?x + 1)" using ys(2) by (intro replicate_eqI) auto
  then have srt': "sorted (map snd (Q @ ys))" using srt le by (auto simp: sorted_append)
  have path': "(?R ^^ snd y) s (fst y)" if "y \<in> set (Q @ ys)" for y
  proof (cases "y \<in> set Q")
    case False
    then have y: "y \<in> set ys" using that by simp
    have "fst y \<notin> fst ` set Q" using dst' y by force
    then have "fst y \<in> set (nb (fst ?x))" using f y by auto
    moreover have "(?R ^^ snd ?x) s (fst ?x)" using path k by simp
    ultimately show ?thesis using ys(2) [OF y] by (auto intro: relpowp_Suc_I)
  qed (rule path)
  have nbs: "\<exists>d \<le> snd ((Q @ ys) ! i) + 1. (v, d) \<in> set (Q @ ys)" if "i < k + 1" "v \<in> set (nb (fst ((Q @ ys) ! i)))" for i v
  proof (cases "i = k")
    case True
    then have "v \<in> fst ` set (Q @ ys)" using f that k by (auto simp: nth_append)
    then obtain y where "y \<in> set (Q @ ys)" "v = fst y" by auto
    then show ?thesis using bound [of y] True k by (intro exI [of _ "snd y"]) (simp add: nth_append)
  next
    case False
    then show ?thesis using old [of i v] that k by (auto simp: nth_append)
  qed
  have deep: "snd x \<le> snd ((Q @ ys) ! (k + 1)) + 1" if "k + 1 < length (Q @ ys)" "x \<in> set (Q @ ys)" for x
  proof -
    have "snd ((Q @ ys) ! k) \<le> snd ((Q @ ys) ! (k + 1))" using sorted_nth_mono [OF srt', of k "k + 1"] that(1) by (simp del: map_append)
    then show ?thesis using bound [OF that(2)] k by (simp add: nth_append split: if_splits)
  qed
  show ?thesis unfolding ys(1) queue_inv_def using dst' srt' path' nbs deep s k by auto
qed

lemma queue_inv_done:
  assumes inv: "queue_inv nb s (length Q) Q"
  shows "distinct (map fst Q)" "sorted (map snd Q)" "fst ` set Q = {v. (\<lambda>u v. v \<in> set (nb u))\<^sup>*\<^sup>* s v}"
    "(v, d) \<in> set Q \<Longrightarrow> ((\<lambda>u v. v \<in> set (nb u)) ^^ d) s v \<and> (\<forall>m. ((\<lambda>u v. v \<in> set (nb u)) ^^ m) s v \<longrightarrow> d \<le> m)"
proof -
  let ?R = "\<lambda>u v. v \<in> set (nb u)"
  show d: "distinct (map fst Q)" and "sorted (map snd Q)" using inv by (auto simp: queue_inv_def)
  have path: "(?R ^^ snd x) s (fst x)" if "x \<in> set Q" for x using inv that by (auto simp: queue_inv_def)
  have close: "\<exists>d \<le> snd x + 1. (w, d) \<in> set Q" if "x \<in> set Q" "w \<in> set (nb (fst x))" for x w
    using inv that unfolding queue_inv_def in_set_conv_nth [of x Q] by blast
  have near: "\<exists>d \<le> m. (w, d) \<in> set Q" if "(?R ^^ m) s w" for m w
    using that
  proof (induction m arbitrary: w)
    case 0
    then show ?case using inv by (auto simp: queue_inv_def)
  next
    case (Suc m)
    then obtain u where u: "(?R ^^ m) s u" "w \<in> set (nb u)" by (auto elim: relpowp_Suc_E)
    then obtain d where "d \<le> m" "(u, d) \<in> set Q" using Suc.IH by blast
    then obtain d' where "d' \<le> d + 1" "(w, d') \<in> set Q" using close [of "(u, d)" w] u(2) by auto
    then show ?case using \<open>d \<le> m\<close> by (intro exI [of _ d']) simp
  qed
  show "fst ` set Q = {v. ?R\<^sup>*\<^sup>* s v}"
  proof (intro equalityI subsetI)
    fix v assume "v \<in> {v. ?R\<^sup>*\<^sup>* s v}"
    then obtain m where "(?R ^^ m) s v" by (auto dest: rtranclp_imp_relpowp)
    then show "v \<in> fst ` set Q" using near by force
  qed (use path in \<open>auto dest: relpowp_imp_rtranclp\<close>)
  assume vd: "(v, d) \<in> set Q"
  have "d \<le> m" if "(?R ^^ m) s v" for m
  proof -
    obtain d' where "d' \<le> m" "(v, d') \<in> set Q" using near [OF \<open>(?R ^^ m) s v\<close>] by blast
    then show ?thesis using d vd eq_key_imp_eq_value [OF d, of v d d'] by simp
  qed
  then show "(?R ^^ d) s v \<and> (\<forall>m. (?R ^^ m) s v \<longrightarrow> d \<le> m)" using path [OF vd] by simp
qed

text \<open>As many rounds as there are vertices are enough.\<close>

lemma bfs_rounds_done:
  assumes "queue_inv nb s k Q" "finite U" "fst ` set Q \<subseteq> U" "\<And>u. u \<in> U \<Longrightarrow> set (nb u) \<subseteq> U" "card U \<le> n + k"
  shows "queue_inv nb s (length (bfs_rounds nb n k Q)) (bfs_rounds nb n k Q)"
  using assms
proof (induction n arbitrary: k Q)
  case 0
  have "length Q = card (fst ` set Q)" using 0(1) by (metis queue_inv_def distinct_card length_map set_map)
  then have "length Q \<le> k" using card_mono [OF 0(2,3)] 0(5) by simp
  then have "k = length Q" using 0(1) by (simp add: queue_inv_def)
  then show ?case using 0(1) by simp
next
  case (Suc n)
  show ?case
  proof (cases "k < length Q")
    case True
    have "fst (Q ! k) \<in> U" using Suc.prems(3) True by auto
    then have "fst ` set (expand nb (Q ! k) Q) \<subseteq> U" using Suc.prems(3,4) by (auto simp: expand_fst)
    then show ?thesis using Suc.IH [OF queue_inv_step [OF Suc.prems(1) True]] Suc.prems(2,4,5) True by simp
  next
    case False
    then have "k = length Q" using Suc.prems(1) by (simp add: queue_inv_def)
    then show ?thesis using Suc.prems(1) by simp
  qed
qed

lemma bfs_order_done:
  assumes "finite U" "s \<in> U" "\<And>u. u \<in> U \<Longrightarrow> set (nb u) \<subseteq> U" "card U \<le> n"
  shows "queue_inv nb s (length (bfs_order nb n s)) (bfs_order nb n s)"
  unfolding bfs_order_def by (rule bfs_rounds_done [OF queue_inv_start assms(1) _ assms(3)]) (use assms(2,4) in auto)

lemma bfs_rounds_subset:
  assumes "fst ` set Q \<subseteq> U" "\<And>u. u \<in> U \<Longrightarrow> set (nb u) \<subseteq> U"
  shows "fst ` set (bfs_rounds nb n k Q) \<subseteq> U"
  using assms
proof (induction n arbitrary: k Q)
  case (Suc n)
  have "fst ` set (expand nb (Q ! k) Q) \<subseteq> U" if "k < length Q"
    using Suc.prems(1) Suc.prems(2) [of "fst (Q ! k)"] nth_mem [OF that] by (auto simp: expand_fst)
  then show ?case using Suc by auto
qed simp

end
