(* ===== verification/Graph_Bfs.thy ===== *)
theory Graph_Bfs
  imports Graph_Scratch Search_Order
begin

text \<open>
  The breadth first traversal of \<open>src/graph/dv_graph.c\<close> follows the search order of \<open>Search_Order\<close>: every call
  returns, and the visitor sees exactly that order until it stops.
\<close>

section \<open>Neighbours\<close>

definition neighbours :: "bool \<Rightarrow> graph_edge list \<Rightarrow> u32 \<Rightarrow> u32 list" where
  "neighbours directed E v = map ge_dst (filter (\<lambda>x. ge_src x = v) E) @
     (if directed then [] else map ge_src (filter (\<lambda>x. ge_dst x = v) E))"

lemma neighbours_joins: "v \<in> set (neighbours directed E u) \<longleftrightarrow> (\<exists>x \<in> set E. joins directed u v x)"
  by (auto simp: neighbours_def joins_def)

lemma neighbours_view:
  "neighbours directed (map (edge_view g) L) v = map (\<lambda>e. e_dst (er g e)) (owned (\<lambda>e. e_src (er g e)) L v) @
     (if directed then [] else map (\<lambda>e. e_src (er g e)) (owned (\<lambda>e. e_dst (er g e)) L v))"
  by (simp add: neighbours_def owned_def filter_map o_def)

lemma neighbours_live:
  "wf_graph g L VF EF \<Longrightarrow> set (neighbours directed (map (edge_view g) L) v) \<subseteq> live g {}"
  using link_partD(1,2) [OF wf_genD(4) [of g L VF EF "{}" "{}"]] by (auto simp: neighbours_def split: if_splits)

section \<open>The queue in memory\<close>

definition bfs_state :: "'w dv_graph_t \<Rightarrow> 'w dv_graph_t \<Rightarrow> (u32 \<times> nat) list \<Rightarrow> bool" where
  "bfs_state g0 g Q \<longleftrightarrow> rescratched g0 g \<and>
     (\<forall>k < length Q. work1 g k = fst (Q ! k) \<and> work2 g k = of_nat (snd (Q ! k))) \<and>
     (\<forall>v \<in> live g0 {}. seen g v = (v \<in> fst ` set Q)) \<and> distinct (map fst Q) \<and> fst ` set Q \<subseteq> live g0 {}"

text \<open>A walk on a graph that is ready for it.\<close>

definition walkable :: "'w dv_graph_t \<Rightarrow> u32 list \<Rightarrow> bool" where
  "walkable g0 L \<longleftrightarrow> (\<exists>VF EF. wf_graph g0 L VF EF) \<and> scratch_ready g0"

lemma walkableD:
  assumes "walkable g0 L"
  shows "graph_mem g0" "scratch_ready g0" "v \<in> live g0 {} \<Longrightarrow> v < gr_vertex_capacity g0"
    "e \<in> set L \<Longrightarrow> erec g0 e = Some (er g0 e)" "v \<in> live g0 {} \<Longrightarrow> vrec g0 v = Some (vr g0 v)" "NIL \<notin> set L"
    "e \<in> set L \<Longrightarrow> e_src (er g0 e) \<in> live g0 {}" "e \<in> set L \<Longrightarrow> e_dst (er g0 e) \<in> live g0 {}"
proof -
  obtain VF EF where wf: "wf_graph g0 L VF EF" and "scratch_ready g0" using assms unfolding walkable_def by blast
  then show "graph_mem g0" "scratch_ready g0" "NIL \<notin> set L" using wf_genD(1) [OF wf] wf_range(7) [OF wf] by auto
  have "gr_vertex_watermark g0 \<le> gr_vertex_capacity g0" using wf_genD(1) [OF wf] by (simp add: graph_mem_def)
  then show "v \<in> live g0 {} \<Longrightarrow> v < gr_vertex_capacity g0" by (auto simp: live_def live_in_def)
  show "e \<in> set L \<Longrightarrow> erec g0 e = Some (er g0 e)" "v \<in> live g0 {} \<Longrightarrow> vrec g0 v = Some (vr g0 v)"
    using wf_range(1,4) [OF wf] by (simp_all add: erec_in vrec_in)
  show "e \<in> set L \<Longrightarrow> e_src (er g0 e) \<in> live g0 {}" "e \<in> set L \<Longrightarrow> e_dst (er g0 e) \<in> live g0 {}"
    using link_partD(1,2) [OF wf_genD(4) [OF wf]] by blast+
qed

lemma bfs_room:
  assumes w: "walkable g0 L" and s: "distinct xs" "set xs \<subseteq> live g0 {}"
  shows "length xs \<le> unat (gr_work_capacity g0)" "v \<in> live g0 {} \<Longrightarrow> v \<notin> set xs \<Longrightarrow> length xs < unat (gr_work_capacity g0)"
proof -
  have c: "unat (gr_vertex_watermark g0) \<le> unat (gr_work_capacity g0)"
    using walkableD(1,2) [OF w] by (auto simp: graph_mem_def scratch_ready_def word_le_nat_alt)
  have lt: "x < gr_vertex_watermark g0" if "x \<in> live g0 {}" for x using that by (simp add: live_def live_in_def)
  show less: "length xs < unat (gr_work_capacity g0)" if "v \<in> live g0 {}" "v \<notin> set xs" for v
    using length_less_watermark [OF s(1) _ lt [OF that(1)] that(2)] lt s(2) c by fastforce
  show "length xs \<le> unat (gr_work_capacity g0)"
  proof (cases xs rule: rev_cases)
    case (snoc ys y)
    have "length ys < unat (gr_vertex_watermark g0)"
      using length_less_watermark [of ys "gr_vertex_watermark g0" y] s snoc lt by fastforce
    then show ?thesis using c snoc by simp
  qed simp
qed

lemma small_size: "n \<le> unat (c :: u32) \<Longrightarrow> unat (of_nat n :: size_t) = n"
  using unsigned_less [of c, where ?'a = nat] by (simp add: unat_of_nat)

lemma bfs_see_ok:
  assumes w: "walkable g0 L" and s: "bfs_state g0 g Q" and v: "v \<in> live g0 {}"
  obtains g' where "bfs_see g v (of_nat d) (of_nat (length Q)) = Some (g', of_nat (length (add_new d Q v)))" "bfs_state g0 g' (add_new d Q v)"
proof -
  have rs: "rescratched g0 g" and mem: "\<And>k. k < length Q \<Longrightarrow> work1 g k = fst (Q ! k) \<and> work2 g k = of_nat (snd (Q ! k))"
    and sn: "\<And>v. v \<in> live g0 {} \<Longrightarrow> seen g v = (v \<in> fst ` set Q)" and dq: "distinct (map fst Q)" and sub: "fst ` set Q \<subseteq> live g0 {}"
    using s by (auto simp: bfs_state_def)
  note vc = walkableD(3) [OF w v] and test = visited_test_ok [OF rs walkableD(2) [OF w] walkableD(3) [OF w v]]
  show thesis
  proof (cases "v \<in> fst ` set Q")
    case True
    then show thesis using that [of g] test sn [OF v] s by (simp add: bfs_see_def)
  next
    case False
    have sub': "set (map fst Q) \<subseteq> live g0 {}" using sub by simp
    have room: "length Q < unat (gr_work_capacity g0)" using bfs_room(2) [OF w dq sub' v] False by simp
    have n: "unat (of_nat (length Q) :: size_t) = length Q" using small_size [of "length Q" "gr_work_capacity g0"] room by simp
    obtain g1 where g1: "dv_graph_visited_set g v = Some g1" "rescratched g0 g1" "gr_work g1 = gr_work g" "\<And>u. seen g1 u = (u = v \<or> seen g u)"
      using visited_set_ok [OF rs walkableD(2) [OF w] vc] by blast
    obtain g2 where g2: "work_put g1 (of_nat (length Q)) v = Some g2" "rescratched g0 g2" "gr_visited g2 = gr_visited g1"
      "\<And>j. work1 g2 j = (if j = length Q then v else work1 g1 j)" "\<And>j. j < unat (gr_work_capacity g0) \<Longrightarrow> work2 g2 j = work2 g1 j"
      using work_put_ok [OF g1(2), of "of_nat (length Q)" v] room unfolding n by blast
    obtain g3 where g3: "work2_put g2 (of_nat (length Q)) (of_nat d) = Some g3" "rescratched g0 g3" "gr_visited g3 = gr_visited g2"
      "\<And>j. work2 g3 j = (if j = length Q then of_nat d else work2 g2 j)" "\<And>j. j < unat (gr_work_capacity g0) \<Longrightarrow> work1 g3 j = work1 g2 j"
      using work2_put_ok [OF g2(2), of "of_nat (length Q)" "of_nat d"] room unfolding n by blast
    have call: "bfs_see g v (of_nat d) (of_nat (length Q)) = Some (g3, of_nat (length (Q @ [(v, d)])))"
      using test sn [OF v] False g1(1) g2(1) g3(1) by (simp add: bfs_see_def bfs_push_def)
    have wc: "gr_work_capacity g1 = gr_work_capacity g" using rescratchedD(4) [OF g1(2)] rescratchedD(4) [OF rs] by simp
    have m: "work1 g3 k = fst ((Q @ [(v, d)]) ! k) \<and> work2 g3 k = of_nat (snd ((Q @ [(v, d)]) ! k))" if "k < length (Q @ [(v, d)])" for k
    proof (cases "k = length Q")
      case True
      then show ?thesis using g3(4,5) [of k] g2(4) [of k] room by simp
    next
      case False
      then have k: "k < length Q" using that by simp
      then show ?thesis using g3(4,5) [of k] g2(4,5) [of k] mem [OF k] room wc g1(3) by (simp add: nth_append)
    qed
    have "seen g3 u = (u \<in> fst ` set (Q @ [(v, d)]))" if "u \<in> live g0 {}" for u
      using g1(4) [of u] sn [OF that] g2(3) g3(3) by (auto simp: seen_def)
    then have "bfs_state g0 g3 (Q @ [(v, d)])" unfolding bfs_state_def using g3(2) m dq False sub v by auto
    then show thesis using that [OF _, of g3] call False by simp
  qed
qed

section \<open>The loops\<close>

lemma bfs_out_ok:
  assumes w: "walkable g0 L"
  shows "chain (\<lambda>e. next_out (er g0 e)) h xs NIL \<Longrightarrow> set xs \<subseteq> set L \<Longrightarrow> bfs_state g0 g Q \<Longrightarrow>
    \<exists>g' Q'. Q' = foldl (add_new (d + 1)) Q (map (\<lambda>e. e_dst (er g0 e)) xs) \<and>
      bfs_out g (of_nat d) (of_nat (length Q)) h = Some (g', of_nat (length Q')) \<and> bfs_state g0 g' Q'"
proof (induction xs arbitrary: h g Q)
  case Nil
  then show ?case by (simp add: bfs_out.simps)
next
  case (Cons x xs)
  have x: "h = x" "x \<in> set L" "x \<noteq> NIL" using Cons.prems walkableD(6) [OF w] by auto
  have r: "erec g x = Some (er g0 x)" using rescratchedD(2) [of g0 g] walkableD(4) [OF w x(2)] Cons.prems(3) by (simp add: bfs_state_def)
  have c: "chain (\<lambda>e. next_out (er g0 e)) (next_out (er g0 x)) xs NIL" "set xs \<subseteq> set L" using Cons.prems(1,2) x(1) by simp_all
  let ?Q = "add_new (d + 1) Q (e_dst (er g0 x))"
  obtain g1 where g1: "bfs_see g (e_dst (er g0 x)) (of_nat (d + 1)) (of_nat (length Q)) = Some (g1, of_nat (length ?Q))" "bfs_state g0 g1 ?Q"
    by (rule bfs_see_ok [OF w Cons.prems(3) walkableD(8) [OF w x(2)]])
  obtain g2 Q2 where g2: "Q2 = foldl (add_new (d + 1)) ?Q (map (\<lambda>e. e_dst (er g0 e)) xs)"
    "bfs_out g1 (of_nat d) (of_nat (length ?Q)) (next_out (er g0 x)) = Some (g2, of_nat (length Q2))" "bfs_state g0 g2 Q2"
    using Cons.IH [OF c g1(2)] by (elim exE conjE) (rule that)
  have "bfs_out g (of_nat d) (of_nat (length Q)) h = Some (g2, of_nat (length Q2))"
    unfolding x(1) using x(3) r g1(1) g2(2) by (subst bfs_out.simps) (simp add: add.commute del: add_new.simps)
  then show ?case using g2(1,3) by (intro exI [of _ g2] exI [of _ Q2]) (simp del: add_new.simps)
qed

lemma bfs_in_ok:
  assumes w: "walkable g0 L"
  shows "chain (\<lambda>e. next_in (er g0 e)) h xs NIL \<Longrightarrow> set xs \<subseteq> set L \<Longrightarrow> bfs_state g0 g Q \<Longrightarrow>
    \<exists>g' Q'. Q' = foldl (add_new (d + 1)) Q (map (\<lambda>e. e_src (er g0 e)) xs) \<and>
      bfs_in g (of_nat d) (of_nat (length Q)) h = Some (g', of_nat (length Q')) \<and> bfs_state g0 g' Q'"
proof (induction xs arbitrary: h g Q)
  case Nil
  then show ?case by (simp add: bfs_in.simps)
next
  case (Cons x xs)
  have x: "h = x" "x \<in> set L" "x \<noteq> NIL" using Cons.prems walkableD(6) [OF w] by auto
  have r: "erec g x = Some (er g0 x)" using rescratchedD(2) [of g0 g] walkableD(4) [OF w x(2)] Cons.prems(3) by (simp add: bfs_state_def)
  have c: "chain (\<lambda>e. next_in (er g0 e)) (next_in (er g0 x)) xs NIL" "set xs \<subseteq> set L" using Cons.prems(1,2) x(1) by simp_all
  let ?Q = "add_new (d + 1) Q (e_src (er g0 x))"
  obtain g1 where g1: "bfs_see g (e_src (er g0 x)) (of_nat (d + 1)) (of_nat (length Q)) = Some (g1, of_nat (length ?Q))" "bfs_state g0 g1 ?Q"
    by (rule bfs_see_ok [OF w Cons.prems(3) walkableD(7) [OF w x(2)]])
  obtain g2 Q2 where g2: "Q2 = foldl (add_new (d + 1)) ?Q (map (\<lambda>e. e_src (er g0 e)) xs)"
    "bfs_in g1 (of_nat d) (of_nat (length ?Q)) (next_in (er g0 x)) = Some (g2, of_nat (length Q2))" "bfs_state g0 g2 Q2"
    using Cons.IH [OF c g1(2)] by (elim exE conjE) (rule that)
  have "bfs_in g (of_nat d) (of_nat (length Q)) h = Some (g2, of_nat (length Q2))"
    unfolding x(1) using x(3) r g1(1) g2(2) by (subst bfs_in.simps) (simp add: add.commute del: add_new.simps)
  then show ?case using g2(1,3) by (intro exI [of _ g2] exI [of _ Q2]) (simp del: add_new.simps)
qed

lemma bfs_expand_ok:
  assumes w: "walkable g0 L" and s: "bfs_state g0 g Q" and v: "v \<in> live g0 {}"
  obtains g' Q' where "Q' = expand (neighbours directed (map (edge_view g0) L)) (v, d) Q"
    "bfs_expand (\<not> directed) g v (of_nat d) (of_nat (length Q)) = Some (g', of_nat (length Q'))" "bfs_state g0 g' Q'"
proof -
  obtain VF EF where wf: "wf_graph g0 L VF EF" using w by (auto simp: walkable_def)
  note lp = link_partD [OF wf_genD(4) [OF wf]]
  let ?os = "owned (\<lambda>e. e_src (er g0 e)) L v" and ?is = "owned (\<lambda>e. e_dst (er g0 e)) L v"
  have sub: "set ?os \<subseteq> set L" "set ?is \<subseteq> set L" by (auto simp: owned_def)
  have r: "vrec g v = Some (vr g0 v)" using rescratchedD(1) [of g0 g] walkableD(5) [OF w v] s by (simp add: bfs_state_def)
  obtain g1 Q1 where g1: "Q1 = foldl (add_new (d + 1)) Q (map (\<lambda>e. e_dst (er g0 e)) ?os)"
    "bfs_out g (of_nat d) (of_nat (length Q)) (out_head (vr g0 v)) = Some (g1, of_nat (length Q1))" "bfs_state g0 g1 Q1"
    using bfs_out_ok [OF w inc_listsD(1) [OF lp(3) v] sub(1) s, of d] by blast
  show thesis
  proof (cases directed)
    case True
    then have "bfs_expand (\<not> directed) g v (of_nat d) (of_nat (length Q)) = Some (g1, of_nat (length Q1))"
      using r g1(2) by (simp add: bfs_expand_def)
    moreover have "Q1 = expand (neighbours directed (map (edge_view g0) L)) (v, d) Q" using True by (simp add: expand_def neighbours_view g1(1))
    ultimately show thesis using that g1(3) by blast
  next
    case False
    have r1: "vrec g1 v = Some (vr g0 v)" using rescratchedD(1) [of g0 g1] walkableD(5) [OF w v] g1(3) by (simp add: bfs_state_def)
    obtain g2 Q2 where g2: "Q2 = foldl (add_new (d + 1)) Q1 (map (\<lambda>e. e_src (er g0 e)) ?is)"
      "bfs_in g1 (of_nat d) (of_nat (length Q1)) (in_head (vr g0 v)) = Some (g2, of_nat (length Q2))" "bfs_state g0 g2 Q2"
      using bfs_in_ok [OF w inc_listsD(1) [OF lp(4) v] sub(2) g1(3), of d] by blast
    have "bfs_expand (\<not> directed) g v (of_nat d) (of_nat (length Q)) = Some (g2, of_nat (length Q2))"
      using False r r1 g1(2) g2(2) by (simp add: bfs_expand_def)
    moreover have "Q2 = expand (neighbours directed (map (edge_view g0) L)) (v, d) Q"
      using False by (simp add: expand_def neighbours_view g1(1) g2(1))
    ultimately show thesis using that g2(3) by blast
  qed
qed

text \<open>How a visitor of the code sees an entry of the queue.\<close>

definition visit_entry :: "(u32 \<rightharpoonup> u32) \<Rightarrow> 's dv_graph_visit_fn \<Rightarrow> u32 \<times> nat \<Rightarrow> 's \<Rightarrow> bool \<times> 's" where
  "visit_entry V f x = f \<lparr>vh_index = fst x, vh_generation = the (V (fst x))\<rparr> (of_nat (snd x))"

lemma walk_handle:
  assumes w: "walkable g0 L" and v: "v \<in> live g0 {}"
  shows "dv_graph_handle g0 v = Some \<lparr>vh_index = v, vh_generation = the (vertex_map g0 v)\<rparr>"
  using walkableD(5) [OF w v] v by (simp add: dv_graph_handle_def vertex_map_def live_def live_in_def)

lemma bfs_loop_ok:
  assumes w: "walkable g0 L" and nb: "nb = neighbours directed (map (edge_view g0) L)"
  shows "bfs_state g0 g Q \<Longrightarrow> k \<le> length Q \<Longrightarrow> card (live g0 {}) \<le> n + k \<Longrightarrow>
    \<exists>g'. rescratched g0 g' \<and> bfs_loop f (\<not> directed) g (of_nat k) (of_nat (length Q)) st =
      Some (g', visit_until (visit_entry (vertex_map g0) f) (drop k (bfs_rounds nb n k Q)) st)"
proof (induction n arbitrary: g k Q st)
  case 0
  have q: "distinct (map fst Q)" "fst ` set Q \<subseteq> live g0 {}" "rescratched g0 g" using 0(1) by (auto simp: bfs_state_def)
  have "finite (live g0 {})" by simp
  then have "length Q \<le> card (live g0 {})" using q(1,2) by (metis card_mono distinct_card length_map set_map)
  then have "k = length Q" using 0(2,3) by simp
  then show ?case using q(3) by (auto simp: bfs_loop.simps)
next
  case (Suc n)
  have q: "distinct (map fst Q)" "fst ` set Q \<subseteq> live g0 {}" "rescratched g0 g"
    and mem: "\<And>k. k < length Q \<Longrightarrow> work1 g k = fst (Q ! k) \<and> work2 g k = of_nat (snd (Q ! k))"
    using Suc.prems(1) by (auto simp: bfs_state_def)
  have len: "length Q \<le> unat (gr_work_capacity g0)" using bfs_room(1) [OF w q(1)] q(2) by simp
  note nQ = small_size [OF len]
  show ?case
  proof (cases "k < length Q")
    case False
    then have "k = length Q" using Suc.prems(2) by simp
    then show ?thesis using q(3) by (auto simp: bfs_loop.simps)
  next
    case True
    let ?x = "Q ! k" and ?Q = "expand nb (Q ! k) Q"
    have nk: "unat (of_nat k :: size_t) = k" using small_size [of k "gr_work_capacity g0"] True len by simp
    have lt: "(of_nat k :: size_t) < of_nat (length Q)" using True by (simp add: word_less_nat_alt nk nQ)
    have v: "fst ?x \<in> live g0 {}" using q(2) True by auto
    have get: "work_get g (of_nat k) = Some (fst ?x)" "work2_get g (of_nat k) = Some (of_nat (snd ?x))"
      using work_get_ok [OF q(3), of "of_nat k"] mem [OF True] True len by (simp_all add: nk)
    have h: "dv_graph_handle g (fst ?x) = Some \<lparr>vh_index = fst ?x, vh_generation = the (vertex_map g0 (fst ?x))\<rparr>"
      using rescratchedD(3) [OF q(3)] walk_handle [OF w v] by simp
    let ?r = "visit_entry (vertex_map g0) f ?x st"
    obtain ys where ys: "?Q = Q @ ys" using expand_prefix [of nb ?x Q] by blast
    obtain zs where zs: "bfs_rounds nb n (k + 1) ?Q = ?Q @ zs" using bfs_rounds_prefix [of nb n "k + 1" ?Q] by blast
    have dr: "drop k (bfs_rounds nb (Suc n) k Q) = ?x # drop (k + 1) (bfs_rounds nb n (k + 1) ?Q)"
    proof -
      have R: "bfs_rounds nb (Suc n) k Q = bfs_rounds nb n (k + 1) ?Q" using True by simp
      have "k < length (bfs_rounds nb n (k + 1) ?Q)" "bfs_rounds nb n (k + 1) ?Q ! k = ?x" using True unfolding zs unfolding ys by (simp_all add: nth_append)
      then show ?thesis unfolding R by (metis Cons_nth_drop_Suc Suc_eq_plus1)
    qed
    have loop: "bfs_loop f (\<not> directed) g (of_nat k) (of_nat (length Q)) st =
        (if \<not> fst ?r then Some (g, snd ?r)
         else do { s \<leftarrow> bfs_expand (\<not> directed) g (fst ?x) (of_nat (snd ?x)) (of_nat (length Q));
           bfs_loop f (\<not> directed) (fst s) (of_nat k + 1) (snd s) (snd ?r) })"
      using lt get h by (subst bfs_loop.simps) (simp add: visit_entry_def)
    show ?thesis
    proof (cases "fst ?r")
      case False
      then show ?thesis unfolding dr loop using q(3) by simp
    next
      case go: True
      obtain g1 where g1: "bfs_expand (\<not> directed) g (fst ?x) (of_nat (snd ?x)) (of_nat (length Q)) = Some (g1, of_nat (length ?Q))" "bfs_state g0 g1 ?Q"
        using bfs_expand_ok [OF w Suc.prems(1) v, of directed "snd ?x"] unfolding nb [symmetric] prod.collapse by metis
      have "k + 1 \<le> length ?Q" using True ys by simp
      then show ?thesis unfolding dr loop using go g1(1) Suc.IH [OF g1(2), of "k + 1" "snd ?r"] Suc.prems(3)
        by (simp add: add.commute)
    qed
  qed
qed

section \<open>The traversal\<close>

abbreviation search_from :: "bool \<Rightarrow> (u32 \<rightharpoonup> u32) \<Rightarrow> graph_edge list \<Rightarrow> u32 \<Rightarrow> (u32 \<times> nat) list" where
  "search_from directed V E s \<equiv> bfs_order (neighbours directed E) (card (dom V)) s"

lemma bfs_ok:
  assumes rep: "represents g V E"
  shows "\<exists>st g' s' w'. dv_graph_bfs (Some g) start (Some f) s w = Some (st, Some g', s', w') \<and>
    represents g' V E \<and> config_of g' = config_of g \<and> phase_of g' = phase_of g \<and>
    (if V (vh_index start) \<noteq> Some (vh_generation start) then st = DV_GRAPH_ERR_STALE \<and> s' = s
     else if st = DV_GRAPH_OK then s' = visit_until (visit_entry V f) (search_from (gr_directed g) V E (vh_index start)) s
     else st = DV_GRAPH_ERR_NOMEM \<and> s' = s)"
proof (rule traverse_setup_ok [OF rep, of start f w], goal_cases stale failed ready)
  case stale
  then show ?thesis using rep by (simp add: dv_graph_bfs_def del: dv_graph_traverse_setup.simps)
next
  case (failed g1 w1)
  then show ?thesis by (simp add: dv_graph_bfs_def del: dv_graph_traverse_setup.simps)
next
  case (ready g1 w1)
  obtain L VF EF where wf: "wf_graph g1 L VF EF" and V: "V = vertex_map g1" and E: "E = map (edge_view g1) L"
    using representsE [OF ready(2)] by blast
  have w: "walkable g1 L" using wf ready(6) by (auto simp: walkable_def)
  have dir: "gr_directed g1 = gr_directed g" using ready(3) by (simp add: config_of_def)
  let ?v = "vh_index start"
  have v: "?v \<in> live g1 {}" using ready(1) by (auto simp: live_vertex_map V)
  have start: "bfs_state g1 g1 []"
    using rescratched_refl [OF walkableD(1) [OF w]] ready(7) walkableD(3) [OF w] by (auto simp: bfs_state_def)
  have see: "bfs_see g1 ?v 0 0 = bfs_push g1 ?v 0 0"
    using visited_test_ok [OF rescratched_refl [OF walkableD(1) [OF w]] ready(6) walkableD(3) [OF w v]] ready(7) [OF walkableD(3) [OF w v]]
    by (simp add: bfs_see_def)
  obtain g2 where g2: "bfs_push g1 ?v 0 0 = Some (g2, 1)" "bfs_state g1 g2 [(?v, 0)]"
    using bfs_see_ok [OF w start v, of 0] see by auto
  have d2: "gr_directed g2 = gr_directed g" using g2(2) rescratchedD(7) dir by (auto simp: bfs_state_def)
  obtain g3 where g3: "rescratched g1 g3" "bfs_loop f (\<not> gr_directed g) g2 0 1 s =
      Some (g3, visit_until (visit_entry V f) (search_from (gr_directed g) V E ?v) s)"
    using bfs_loop_ok [OF w refl g2(2), of 0 "card (dom V)" f "gr_directed g" s]
    by (auto simp: live_vertex_map V E bfs_order_def)
  note rr = recapped_represents [OF ready(2) rescratched_recapped [OF walkableD(1) [OF w] g3(1)]]
  have "dv_graph_bfs (Some g) start (Some f) s w = Some (DV_GRAPH_OK, Some g3, visit_until (visit_entry V f) (search_from (gr_directed g) V E ?v) s, w1)"
    using ready(5) g2(1) g3(2) d2 by (simp add: dv_graph_bfs_def del: dv_graph_traverse_setup.simps)
  then show ?thesis using rr ready(1,3,4) by simp
qed

lemma search_complete:
  assumes rep: "represents g V E" and s: "s \<in> dom V"
  shows "queue_inv (neighbours directed E) s (length (search_from directed V E s)) (search_from directed V E s)"
proof -
  obtain L VF EF where wf: "wf_graph g L VF EF" and V: "V = vertex_map g" and E: "E = map (edge_view g) L"
    using representsE [OF rep] by blast
  have "finite (dom V)" using finite by simp
  then show ?thesis using neighbours_live [OF wf] s by (intro bfs_order_done) (auto simp: E V live_vertex_map)
qed

lemma reach_visit_until:
  "rs_found (visit_until (visit_entry V dv_graph_reach_visit) Q st) = (rs_found st \<or> rs_target st \<in> fst ` set Q)"
  by (induction Q arbitrary: st) (auto simp: visit_entry_def dv_graph_reach_visit_def)

lemma reachable_ok:
  assumes rep: "represents g V E"
  shows "\<exists>st g' r w'. dv_graph_reachable (Some g) a b (Some r0) w = Some (st, Some g', Some r, w') \<and>
    represents g' V E \<and> config_of g' = config_of g \<and> phase_of g' = phase_of g \<and>
    (if V (vh_index a) \<noteq> Some (vh_generation a) \<or> V (vh_index b) \<noteq> Some (vh_generation b) then st = DV_GRAPH_ERR_STALE \<and> r = r0
     else if st = DV_GRAPH_OK then r = (\<lambda>u v. \<exists>x \<in> set E. joins (gr_directed g) u v x)\<^sup>*\<^sup>* (vh_index a) (vh_index b)
     else st = DV_GRAPH_ERR_NOMEM \<and> r = r0)"
proof -
  have bl: "both_live g a b = Some (V (vh_index a) = Some (vh_generation a) \<and> V (vh_index b) = Some (vh_generation b))"
    using rep both_live_iff by (elim representsE) auto
  show ?thesis
  proof (cases "V (vh_index a) = Some (vh_generation a) \<and> V (vh_index b) = Some (vh_generation b)")
    case False
    then show ?thesis using bl rep by auto
  next
    case True
    let ?s = "\<lparr>rs_target = vh_index b, rs_found = False\<rparr>"
    obtain st g' s' w' where b: "dv_graph_bfs (Some g) a (Some dv_graph_reach_visit) ?s w = Some (st, Some g', s', w')"
      "represents g' V E" "config_of g' = config_of g" "phase_of g' = phase_of g"
      "if st = DV_GRAPH_OK then s' = visit_until (visit_entry V dv_graph_reach_visit) (search_from (gr_directed g) V E (vh_index a)) ?s
       else st = DV_GRAPH_ERR_NOMEM \<and> s' = ?s"
      using bfs_ok [OF rep, of a dv_graph_reach_visit ?s w] True by auto
    have "vh_index a \<in> dom V" using True by auto
    note q = queue_inv_done(3) [OF search_complete [OF rep this, of "gr_directed g"], unfolded neighbours_joins]
    have "rs_found s' = (\<lambda>u v. \<exists>x \<in> set E. joins (gr_directed g) u v x)\<^sup>*\<^sup>* (vh_index a) (vh_index b)" if "st = DV_GRAPH_OK"
      using b(5) that q by (simp add: reach_visit_until)
    then show ?thesis using b bl True by auto
  qed
qed

end
