(* ===== verification/Graph_Refine.thy ===== *)
theory Graph_Refine
  imports Graph_Bfs
begin

text \<open>
  The graph as an abstract data type: the queries as functions of the view, a reference semantics of
  every call on a vertex map and a list of edges in insertion order, and the simulation.
\<close>

section \<open>Queries\<close>

lemma find_edge_ok:
  assumes rep: "represents g V E"
  shows "\<exists>st h. dv_graph_find_edge (Some g) s d = Some (st, h) \<and>
    (if V (vh_index s) \<noteq> Some (vh_generation s) \<or> V (vh_index d) \<noteq> Some (vh_generation d) then st = DV_GRAPH_ERR_STALE \<and> h = None
     else if \<exists>x \<in> set E. joins (gr_directed g) (vh_index s) (vh_index d) x
     then st = DV_GRAPH_OK \<and> (\<exists>x \<in> set E. joins (gr_directed g) (vh_index s) (vh_index d) x \<and> h = Some (ge_handle x) \<and>
       (gr_directed g \<longrightarrow> List.find (joins True (vh_index s) (vh_index d)) E = Some x))
     else st = DV_GRAPH_ERR_NOT_FOUND \<and> h = None)"
proof -
  obtain L VF EF where wf: "wf_graph g L VF EF" and V: "V = vertex_map g" and E: "E = map (edge_view g) L"
    using representsE [OF rep] by blast
  note bl = both_live_iff [OF wf, of s d, folded V]
  show ?thesis
  proof (cases "V (vh_index s) = Some (vh_generation s) \<and> V (vh_index d) = Some (vh_generation d)")
    case False
    then show ?thesis by (auto simp: bl)
  next
    case True
    then have ab: "vh_index s \<in> live g {}" "vh_index d \<in> live g {}" by (auto simp: live_vertex_map V)
    show ?thesis
    proof (rule locate_edge_ok [OF wf ab], goal_cases)
      case 1
      then show ?thesis using True by (simp add: bl E)
    next
      case (2 e)
      have h: "dv_graph_find_edge (Some g) s d = Some (DV_GRAPH_OK, Some (edge_handle g e))"
        using 2(1-3) True wf_range(1) [OF wf] by (simp add: bl erec_in edge_handle_def)
      have x: "edge_view g e \<in> set E" using 2(2) by (simp add: E)
      have "\<exists>x \<in> set E. joins (gr_directed g) (vh_index s) (vh_index d) x \<and> Some (edge_handle g e) = Some (ge_handle x) \<and>
          (gr_directed g \<longrightarrow> List.find (joins True (vh_index s) (vh_index d)) E = Some x)"
        using x 2(4,5) by (intro bexI [of _ "edge_view g e"]) (simp_all add: E)
      moreover from this have "\<exists>x \<in> set E. joins (gr_directed g) (vh_index s) (vh_index d) x" by blast
      ultimately show ?thesis using h True by simp
    qed
  qed
qed

lemma vertex_valid_ok: "represents g V E \<Longrightarrow> dv_graph_vertex_valid (Some g) h = Some (V (vh_index h) = Some (vh_generation h))"
  using vertex_live_iff by (auto elim!: representsE)

lemma edge_valid_ok: "represents g V E \<Longrightarrow> dv_graph_edge_valid (Some g) h = Some (h \<in> ge_handle ` set E)"
  by (elim representsE) (simp add: edge_live_iff handles_view)

lemma degree_ok:
  assumes rep: "represents g V E"
  shows "dv_graph_out_degree (Some g) h = Some (if V (vh_index h) = Some (vh_generation h) then of_nat (length (filter (\<lambda>x. ge_src x = vh_index h) E)) else 0)"
    "dv_graph_in_degree (Some g) h = Some (if V (vh_index h) = Some (vh_generation h) then of_nat (length (filter (\<lambda>x. ge_dst x = vh_index h) E)) else 0)"
    "dv_graph_degree (Some g) h = Some (if V (vh_index h) = Some (vh_generation h)
       then of_nat (length (filter (\<lambda>x. ge_src x = vh_index h) E) + length (filter (\<lambda>x. ge_dst x = vh_index h) E)) else 0)"
proof -
  obtain L VF EF where wf: "wf_graph g L VF EF" and V: "V = vertex_map g" and E: "E = map (edge_view g) L"
    using representsE [OF rep] by blast
  let ?v = "vh_index h"
  note lp = link_partD [OF wf_genD(4) [OF wf]]
  have d: "out_degree (vr g ?v) = of_nat (length (filter (\<lambda>x. ge_src x = ?v) E))"
    "in_degree (vr g ?v) = of_nat (length (filter (\<lambda>x. ge_dst x = ?v) E))" "unat ?v < n_vertices g" if "?v \<in> live g {}"
    using inc_listsD(3) [OF lp(3) that] inc_listsD(3) [OF lp(4) that] wf_range(4) [OF wf that]
    by (simp_all add: owned_def E filter_map o_def)
  have lv: "?v \<in> live g {}" if "V ?v = Some (vh_generation h)" using that by (auto simp: live_vertex_map V)
  note live = vertex_live_iff [OF wf, of h, folded V]
  show "dv_graph_out_degree (Some g) h = Some (if V ?v = Some (vh_generation h) then of_nat (length (filter (\<lambda>x. ge_src x = ?v) E)) else 0)"
    "dv_graph_in_degree (Some g) h = Some (if V ?v = Some (vh_generation h) then of_nat (length (filter (\<lambda>x. ge_dst x = ?v) E)) else 0)"
    "dv_graph_degree (Some g) h = Some (if V ?v = Some (vh_generation h)
       then of_nat (length (filter (\<lambda>x. ge_src x = ?v) E) + length (filter (\<lambda>x. ge_dst x = ?v) E)) else 0)"
    using d lv by (simp_all add: dv_graph_out_degree_def dv_graph_in_degree_def dv_graph_degree_def live_degree_def live vrec_in)
qed

lemma handle_ok:
  assumes wf: "wf_graph g L VF EF" and v: "v \<in> live g {}"
  shows "dv_graph_handle g v = Some \<lparr>vh_index = v, vh_generation = the (vertex_map g v)\<rparr>"
proof -
  have "vertex_map g v = Some (v_generation (vr g v))" using v by (auto simp: live_def live_in_def vertex_map_def)
  then show ?thesis using wf_range(4) [OF wf v] by (simp add: dv_graph_handle_def vrec_in)
qed

lemma endpoints_ok:
  assumes rep: "represents g V E"
  shows "if h \<in> ge_handle ` set E then \<exists>x \<in> set E. ge_handle x = h \<and> dv_graph_edge_endpoints (Some g) h =
      Some (DV_GRAPH_OK, Some (\<lparr>vh_index = ge_src x, vh_generation = the (V (ge_src x))\<rparr>, \<lparr>vh_index = ge_dst x, vh_generation = the (V (ge_dst x))\<rparr>)) \<and>
      V (ge_src x) \<noteq> None \<and> V (ge_dst x) \<noteq> None
    else dv_graph_edge_endpoints (Some g) h = Some (DV_GRAPH_ERR_STALE, None)"
proof -
  obtain L VF EF where wf: "wf_graph g L VF EF" and V: "V = vertex_map g" and E: "E = map (edge_view g) L"
    using representsE [OF rep] by blast
  have lv: "dv_graph_edge_live g h = Some (h \<in> ge_handle ` set E)"
    using edge_live_iff [OF wf] unfolding E handles_view .
  show ?thesis
  proof (cases "h \<in> ge_handle ` set E")
    case False
    then show ?thesis by (simp add: lv)
  next
    case True
    then obtain e where e: "e \<in> set L" and h: "h = edge_handle g e" by (auto simp: E)
    have ends: "e_src (er g e) \<in> live g {}" "e_dst (er g e) \<in> live g {}" using link_partD(1,2) [OF wf_genD(4) [OF wf]] e by blast+
    have "dv_graph_edge_endpoints (Some g) h = Some (DV_GRAPH_OK,
        Some (\<lparr>vh_index = e_src (er g e), vh_generation = the (V (e_src (er g e)))\<rparr>, \<lparr>vh_index = e_dst (er g e), vh_generation = the (V (e_dst (er g e)))\<rparr>))"
      using lv True wf_range(1) [OF wf e] handle_ok [OF wf ends(1)] handle_ok [OF wf ends(2)] by (simp add: h erec_in V)
    then show ?thesis using True e ends by (auto simp: E h live_vertex_map V intro!: bexI [of _ e])
  qed
qed

lemma edge_weight_ok:
  assumes rep: "represents g V E"
  shows "if gr_weighted g \<and> h \<in> ge_handle ` set E
    then \<exists>x \<in> set E. ge_handle x = h \<and> dv_graph_edge_weight (Some g) h (Some old) = Some (DV_GRAPH_OK, ge_weight x)
    else \<exists>st. st \<noteq> DV_GRAPH_OK \<and> dv_graph_edge_weight (Some g) h (Some old) = Some (st, Some old)"
proof -
  obtain L VF EF where wf: "wf_graph g L VF EF" and V: "V = vertex_map g" and E: "E = map (edge_view g) L"
    using representsE [OF rep] by blast
  note mem = wf_genD(1) [OF wf]
  have lv: "dv_graph_edge_live g h = Some (h \<in> ge_handle ` set E)"
    using edge_live_iff [OF wf] unfolding E handles_view .
  show ?thesis
  proof (cases "gr_weighted g \<and> h \<in> ge_handle ` set E")
    case False
    then have "gr_weights g = None \<or> h \<notin> ge_handle ` set E" using mem by (auto simp: graph_mem_def)
    then show ?thesis using False by (auto simp: lv)
  next
    case True
    then obtain e where e: "e \<in> set L" and h: "h = edge_handle g e" by (auto simp: E)
    have r: "unat e < n_edges g" by (rule wf_range(1) [OF wf e])
    then have w: "gr_weights g \<noteq> None" "unat e < length (items (gr_weights g))"
      using True weights_None [OF mem] graph_mem_facts(5,6,9) [OF mem] by (auto simp: sized_def)
    have "dv_graph_edge_weight (Some g) h (Some old) = Some (DV_GRAPH_OK, ge_weight (edge_view g e))"
      using True w lv by (simp add: h arr_get_items edge_view_def)
    then show ?thesis using True e h by (auto simp: E intro!: bexI [of _ e])
  qed
qed

subsection \<open>Counts\<close>

definition live_slots :: "'w dv_graph_t \<Rightarrow> u32 list" where
  "live_slots g = filter (\<lambda>v. v_active (vr g v)) (slots (gr_vertex_watermark g))"

lemma live_slots: "set (live_slots g) = live g {}" "distinct (live_slots g)"
  by (auto simp: live_slots_def live_def live_in_def slots_simps)

lemma vertex_total:
  assumes wf: "wf_graph g L VF EF"
  shows "length (live_slots g) = unat (gr_vertex_count g)"
proof -
  let ?n = "gr_vertex_watermark g"
  note vp = vertex_partD [OF wf_genD(2) [OF wf]]
  have "set (filter (\<lambda>v. \<not> v_active (vr g v)) (slots ?n)) = set VF" using vp(3) slots_simps(3) [of _ ?n] by auto
  then have "length (filter (\<lambda>v. \<not> v_active (vr g v)) (slots ?n)) = length VF"
    using vp(2) slots_simps(2) [of ?n] by (metis distinct_card distinct_filter)
  moreover have "length (live_slots g) + length (filter (\<lambda>v. \<not> v_active (vr g v)) (slots ?n)) = unat ?n"
    unfolding live_slots_def using sum_length_filter_compl [of "\<lambda>v. v_active (vr g v)" "slots ?n"] slots_simps(1) [of ?n] by simp
  ultimately show ?thesis using wf_genD(5) [OF wf] by simp
qed

lemma counts_ok:
  assumes rep: "represents g V E"
  shows "unat (dv_graph_vertex_count (Some g)) = card (dom V)" "unat (dv_graph_edge_count (Some g)) = length E"
proof -
  obtain L VF EF where wf: "wf_graph g L VF EF" and V: "V = vertex_map g" and E: "E = map (edge_view g) L"
    using representsE [OF rep] by blast
  have "card (dom V) = length (live_slots g)" unfolding V live_vertex_map [symmetric] live_slots(1) [symmetric] by (rule distinct_card [OF live_slots(2)])
  then show "unat (dv_graph_vertex_count (Some g)) = card (dom V)" using vertex_total [OF wf] by simp
  show "unat (dv_graph_edge_count (Some g)) = length E" using wf_genD(6) [OF wf] by (simp add: E)
qed

section \<open>Reference semantics\<close>

datatype graph_op =
    GAddVertex | GRemoveVertex dv_vertex_t
  | GAddEdge dv_vertex_t dv_vertex_t dbl | GRemoveEdge dv_edge_t | GRemoveBetween dv_vertex_t dv_vertex_t
  | GSetWeight dv_edge_t dbl | GAddVertices u32 | GAddEdges "dv_graph_edge_spec_t list"
  | GClear | GReset | GBegin | GCommit | GReserveVertices u32 | GReserveEdges u32 | GReserveTraversal | GShrink
  | GFind dv_vertex_t dv_vertex_t | GVertexValid dv_vertex_t | GEdgeValid dv_edge_t | GOutDegree dv_vertex_t | GInDegree dv_vertex_t
  | GDegree dv_vertex_t | GHasEdge dv_vertex_t dv_vertex_t | GVertexCount | GEdgeCount
  | GReachable dv_vertex_t dv_vertex_t

datatype graph_res =
    RStatus dv_graph_status_t | RVertex dv_graph_status_t "dv_vertex_t option" | REdge dv_graph_status_t "dv_edge_t option"
  | RVertices u32 "dv_vertex_t list" | REdges u32 "dv_edge_t list" | RBool bool | RReach dv_graph_status_t bool | RNum u32 | RUnit

text \<open>A call on the graph.\<close>

definition with_graph :: "('a \<Rightarrow> graph_res) \<Rightarrow> ('a \<times> 'w dv_graph_t option \<times> 'w) option \<Rightarrow> (graph_res \<times> 'w dv_graph_t \<times> 'w) option" where
  "with_graph f r = do { (a, p, w) \<leftarrow> r; g \<leftarrow> p; Some (f a, g, w) }"

fun graph_step :: "'w dv_graph_t \<Rightarrow> graph_op \<Rightarrow> 'w \<Rightarrow> (graph_res \<times> 'w dv_graph_t \<times> 'w) option" where
  "graph_step g GAddVertex w = do { (st, p, h, w1) \<leftarrow> dv_graph_add_vertex (Some g) w; g1 \<leftarrow> p; Some (RVertex st h, g1, w1) }"
| "graph_step g (GRemoveVertex h) w = do { (st, p) \<leftarrow> dv_graph_remove_vertex (Some g) h; g1 \<leftarrow> p; Some (RStatus st, g1, w) }"
| "graph_step g (GAddEdge s d x) w = do { (st, p, h, w1) \<leftarrow> dv_graph_add_edge (Some g) s d x w; g1 \<leftarrow> p; Some (REdge st h, g1, w1) }"
| "graph_step g (GRemoveEdge h) w = do { (st, p) \<leftarrow> dv_graph_remove_edge (Some g) h; g1 \<leftarrow> p; Some (RStatus st, g1, w) }"
| "graph_step g (GRemoveBetween s d) w = do { (st, p) \<leftarrow> dv_graph_remove_edge_between (Some g) s d; g1 \<leftarrow> p; Some (RStatus st, g1, w) }"
| "graph_step g (GSetWeight h x) w = do { (st, p) \<leftarrow> dv_graph_set_edge_weight (Some g) h x; g1 \<leftarrow> p; Some (RStatus st, g1, w) }"
| "graph_step g (GAddVertices n) w = do { (k, p, hs, w1) \<leftarrow> dv_graph_add_vertices (Some g) n w; g1 \<leftarrow> p; Some (RVertices k hs, g1, w1) }"
| "graph_step g (GAddEdges specs) w = do {
     (k, p, hs, w1) \<leftarrow> dv_graph_add_edges (Some g) (Some specs) (of_nat (length specs)) w; g1 \<leftarrow> p; Some (REdges k hs, g1, w1) }"
| "graph_step g GClear w = do { p \<leftarrow> dv_graph_clear (Some g); g1 \<leftarrow> p; Some (RUnit, g1, w) }"
| "graph_step g GReset w = with_graph RStatus (dv_graph_reset (Some g) w)"
| "graph_step g GBegin w = (case dv_graph_begin_update (Some g) of (st, p) \<Rightarrow> do { g1 \<leftarrow> p; Some (RStatus st, g1, w) })"
| "graph_step g GCommit w = (case dv_graph_commit_update (Some g) of (st, p) \<Rightarrow> do { g1 \<leftarrow> p; Some (RStatus st, g1, w) })"
| "graph_step g (GReserveVertices n) w = with_graph RStatus (dv_graph_reserve_vertices (Some g) n w)"
| "graph_step g (GReserveEdges n) w = with_graph RStatus (dv_graph_reserve_edges (Some g) n w)"
| "graph_step g GReserveTraversal w = with_graph RStatus (dv_graph_reserve_traversal (Some g) w)"
| "graph_step g GShrink w = with_graph RStatus (dv_graph_shrink_to_fit (Some g) w)"
| "graph_step g (GFind s d) w = do { (st, h) \<leftarrow> dv_graph_find_edge (Some g) s d; Some (REdge st h, g, w) }"
| "graph_step g (GVertexValid h) w = do { b \<leftarrow> dv_graph_vertex_valid (Some g) h; Some (RBool b, g, w) }"
| "graph_step g (GEdgeValid h) w = do { b \<leftarrow> dv_graph_edge_valid (Some g) h; Some (RBool b, g, w) }"
| "graph_step g (GOutDegree h) w = do { n \<leftarrow> dv_graph_out_degree (Some g) h; Some (RNum n, g, w) }"
| "graph_step g (GInDegree h) w = do { n \<leftarrow> dv_graph_in_degree (Some g) h; Some (RNum n, g, w) }"
| "graph_step g (GDegree h) w = do { n \<leftarrow> dv_graph_degree (Some g) h; Some (RNum n, g, w) }"
| "graph_step g (GHasEdge s d) w = do { b \<leftarrow> dv_graph_has_edge (Some g) s d; Some (RBool b, g, w) }"
| "graph_step g (GReachable s d) w = do {
     (st, p, r, w1) \<leftarrow> dv_graph_reachable (Some g) s d (Some False) w; g1 \<leftarrow> p; b \<leftarrow> r; Some (RReach st b, g1, w1) }"
| "graph_step g GVertexCount w = Some (RNum (dv_graph_vertex_count (Some g)), g, w)"
| "graph_step g GEdgeCount w = Some (RNum (dv_graph_edge_count (Some g)), g, w)"

fun graph_run :: "'w dv_graph_t \<Rightarrow> graph_op list \<Rightarrow> 'w \<Rightarrow> (graph_res list \<times> 'w dv_graph_t \<times> 'w) option" where
  "graph_run g [] w = Some ([], g, w)"
| "graph_run g (x # xs) w = do {
     (r, g1, w1) \<leftarrow> graph_step g x w; (rs, g2, w2) \<leftarrow> graph_run g1 xs w1; Some (r # rs, g2, w2) }"

text \<open>
  What a call may answer on the vertex map \<open>V\<close> and the edges \<open>E\<close>, and what they become. An insertion
  may fail for lack of room or memory; it may choose any slot that is not in use.
\<close>

type_synonym view = "(u32 \<rightharpoonup> u32) \<times> graph_edge list"

definition live_handle :: "(u32 \<rightharpoonup> u32) \<Rightarrow> dv_vertex_t \<Rightarrow> bool" where
  "live_handle V h \<longleftrightarrow> V (vh_index h) = Some (vh_generation h)"

definition admission :: "dv_graph_config_t \<Rightarrow> view \<Rightarrow> dv_vertex_t \<Rightarrow> dv_vertex_t \<Rightarrow> dv_graph_status_t" where
  "admission c s src dst =
     (if \<not> live_handle (fst s) src \<or> \<not> live_handle (fst s) dst then DV_GRAPH_ERR_STALE
      else if gcf_reject_self_loops c \<and> vh_index src = vh_index dst then DV_GRAPH_ERR_INVALID
      else if gcf_reject_parallel_edges c \<and> (\<exists>x \<in> set (snd s). joins (gcf_directed c) (vh_index src) (vh_index dst) x)
      then DV_GRAPH_ERR_EXISTS else DV_GRAPH_OK)"

definition new_edge :: "dv_graph_config_t \<Rightarrow> dv_vertex_t \<Rightarrow> dv_vertex_t \<Rightarrow> dbl \<Rightarrow> dv_edge_t \<Rightarrow> graph_edge" where
  "new_edge c src dst x h = \<lparr>ge_handle = h, ge_src = vh_index src, ge_dst = vh_index dst,
     ge_weight = (if gcf_weighted c then Some x else None)\<rparr>"

text \<open>A batch of edges, each checked against the edges before it.\<close>

fun batch :: "dv_graph_config_t \<Rightarrow> view \<Rightarrow> dv_graph_edge_spec_t list \<Rightarrow> dv_edge_t list \<Rightarrow> view \<Rightarrow> bool" where
  "batch c s specs [] s' = (s' = s)"
| "batch c s [] (h # hs) s' = False"
| "batch c s (x # specs) (h # hs) s' = (admission c s (spec_src x) (spec_dst x) = DV_GRAPH_OK \<and>
     eh_index h \<notin> eh_index ` ge_handle ` set (snd s) \<and>
     batch c (fst s, snd s @ [new_edge c (spec_src x) (spec_dst x) (spec_weight x) h]) specs hs s')"

text \<open>The edge a lookup picks: some edge that joins the two, the oldest one in a directed graph.\<close>

definition picked :: "dv_graph_config_t \<Rightarrow> graph_edge list \<Rightarrow> dv_vertex_t \<Rightarrow> dv_vertex_t \<Rightarrow> graph_edge \<Rightarrow> bool" where
  "picked c E s d x \<longleftrightarrow> x \<in> set E \<and> joins (gcf_directed c) (vh_index s) (vh_index d) x \<and>
     (gcf_directed c \<longrightarrow> List.find (joins True (vh_index s) (vh_index d)) E = Some x)"

fun graph_ref :: "dv_graph_config_t \<Rightarrow> view \<Rightarrow> graph_op \<Rightarrow> graph_res \<Rightarrow> view \<Rightarrow> bool" where
  "graph_ref c (V, E) GAddVertex r s' = (\<exists>st. st \<in> growth_status \<and>
     (if st = DV_GRAPH_OK then \<exists>h. r = RVertex st (Some h) \<and> vh_index h \<notin> dom V \<and> s' = (V(vh_index h \<mapsto> vh_generation h), E)
      else r = RVertex st None \<and> s' = (V, E)))"
| "graph_ref c (V, E) (GRemoveVertex h) r s' =
     (if live_handle V h then r = RStatus DV_GRAPH_OK \<and>
        s' = (V(vh_index h := None), filter (\<lambda>x. ge_src x \<noteq> vh_index h \<and> ge_dst x \<noteq> vh_index h) E)
      else r = RStatus DV_GRAPH_ERR_STALE \<and> s' = (V, E))"
| "graph_ref c (V, E) (GAddEdge src dst x) r s' =
     (if admission c (V, E) src dst \<noteq> DV_GRAPH_OK then r = REdge (admission c (V, E) src dst) None \<and> s' = (V, E)
      else \<exists>st. st \<in> growth_status \<and>
        (if st = DV_GRAPH_OK then \<exists>h. r = REdge st (Some h) \<and> eh_index h \<notin> eh_index ` ge_handle ` set E \<and> s' = (V, E @ [new_edge c src dst x h])
         else r = REdge st None \<and> s' = (V, E)))"
| "graph_ref c (V, E) (GRemoveEdge h) r s' =
     (if h \<in> ge_handle ` set E then r = RStatus DV_GRAPH_OK \<and> s' = (V, filter (\<lambda>x. ge_handle x \<noteq> h) E)
      else r = RStatus DV_GRAPH_ERR_STALE \<and> s' = (V, E))"
| "graph_ref c (V, E) (GRemoveBetween s d) r s' =
     (if \<not> live_handle V s \<or> \<not> live_handle V d then r = RStatus DV_GRAPH_ERR_STALE \<and> s' = (V, E)
      else if \<exists>x \<in> set E. joins (gcf_directed c) (vh_index s) (vh_index d) x
      then r = RStatus DV_GRAPH_OK \<and> (\<exists>x. picked c E s d x \<and> s' = (V, filter (\<lambda>y. ge_handle y \<noteq> ge_handle x) E))
      else r = RStatus DV_GRAPH_ERR_NOT_FOUND \<and> s' = (V, E))"
| "graph_ref c (V, E) (GSetWeight h x) r s' =
     (if gcf_weighted c \<and> h \<in> ge_handle ` set E
      then r = RStatus DV_GRAPH_OK \<and> s' = (V, map (\<lambda>y. if ge_handle y = h then y\<lparr>ge_weight := Some x\<rparr> else y) E)
      else (\<exists>st. st \<noteq> DV_GRAPH_OK \<and> r = RStatus st) \<and> s' = (V, E))"
| "graph_ref c (V, E) (GAddVertices n) r s' =
     (\<exists>hs. r = RVertices (of_nat (length hs)) hs \<and> length hs \<le> unat n \<and> fresh_handles V hs \<and> s' = (add_handles V hs, E))"
| "graph_ref c (V, E) (GAddEdges specs) r s' =
     (\<exists>hs. r = REdges (of_nat (length hs)) hs \<and> batch c (V, E) specs hs s')"
| "graph_ref c (V, E) GClear r s' = (r = RUnit \<and> s' = (Map.empty, []))"
| "graph_ref c (V, E) GReset r s' = ((\<exists>st. r = RStatus st) \<and> s' = (Map.empty, []))"
| "graph_ref c (V, E) GBegin r s' = ((\<exists>st. r = RStatus st) \<and> s' = (V, E))"
| "graph_ref c (V, E) GCommit r s' = ((\<exists>st. r = RStatus st) \<and> s' = (V, E))"
| "graph_ref c (V, E) (GReserveVertices n) r s' = ((\<exists>st. r = RStatus st) \<and> s' = (V, E))"
| "graph_ref c (V, E) (GReserveEdges n) r s' = ((\<exists>st. r = RStatus st) \<and> s' = (V, E))"
| "graph_ref c (V, E) GReserveTraversal r s' = ((\<exists>st. r = RStatus st) \<and> s' = (V, E))"
| "graph_ref c (V, E) GShrink r s' = ((\<exists>st. r = RStatus st) \<and> s' = (V, E))"
| "graph_ref c (V, E) (GFind s d) r s' = (s' = (V, E) \<and>
     (if \<not> live_handle V s \<or> \<not> live_handle V d then r = REdge DV_GRAPH_ERR_STALE None
      else if \<exists>x \<in> set E. joins (gcf_directed c) (vh_index s) (vh_index d) x
      then \<exists>x. picked c E s d x \<and> r = REdge DV_GRAPH_OK (Some (ge_handle x))
      else r = REdge DV_GRAPH_ERR_NOT_FOUND None))"
| "graph_ref c (V, E) (GVertexValid h) r s' = (r = RBool (live_handle V h) \<and> s' = (V, E))"
| "graph_ref c (V, E) (GEdgeValid h) r s' = (r = RBool (h \<in> ge_handle ` set E) \<and> s' = (V, E))"
| "graph_ref c (V, E) (GOutDegree h) r s' =
     (r = RNum (if live_handle V h then of_nat (length (filter (\<lambda>x. ge_src x = vh_index h) E)) else 0) \<and> s' = (V, E))"
| "graph_ref c (V, E) (GInDegree h) r s' =
     (r = RNum (if live_handle V h then of_nat (length (filter (\<lambda>x. ge_dst x = vh_index h) E)) else 0) \<and> s' = (V, E))"
| "graph_ref c (V, E) (GDegree h) r s' =
     (r = RNum (if live_handle V h
        then of_nat (length (filter (\<lambda>x. ge_src x = vh_index h) E) + length (filter (\<lambda>x. ge_dst x = vh_index h) E)) else 0) \<and> s' = (V, E))"
| "graph_ref c (V, E) (GHasEdge s d) r s' =
     (r = RBool (live_handle V s \<and> live_handle V d \<and> (\<exists>x \<in> set E. joins (gcf_directed c) (vh_index s) (vh_index d) x)) \<and> s' = (V, E))"
| "graph_ref c (V, E) (GReachable s d) r s' = (s' = (V, E) \<and>
     (if \<not> live_handle V s \<or> \<not> live_handle V d then r = RReach DV_GRAPH_ERR_STALE False
      else r = RReach DV_GRAPH_ERR_NOMEM False \<or>
        r = RReach DV_GRAPH_OK ((\<lambda>u v. \<exists>x \<in> set E. joins (gcf_directed c) u v x)\<^sup>*\<^sup>* (vh_index s) (vh_index d))))"
| "graph_ref c (V, E) GVertexCount r s' = ((\<exists>n. r = RNum n \<and> unat n = card (dom V)) \<and> s' = (V, E))"
| "graph_ref c (V, E) GEdgeCount r s' = ((\<exists>n. r = RNum n \<and> unat n = length E) \<and> s' = (V, E))"

text \<open>The calls a client may make: a batch has as many entries as its count says.\<close>

fun graph_op_ok :: "graph_op \<Rightarrow> bool" where
  "graph_op_ok (GAddEdges specs) = (length specs < 2 ^ 32)"
| "graph_op_ok _ = True"

end
