(* ===== verification/Graph_Simulation.thy ===== *)
theory Graph_Simulation
  imports Graph_Refine
begin

text \<open>
  The simulation: every call on a well formed graph returns, keeps the configuration, leaves a well
  formed graph, and its answer and effect are those of the reference semantics.
\<close>

section \<open>The checks and the new edges, by the configuration alone\<close>

lemma config_fields:
  "gcf_directed (config_of g) = gr_directed g" "gcf_weighted (config_of g) = gr_weighted g"
  "gcf_reject_self_loops (config_of g) = gr_reject_self_loops g" "gcf_reject_parallel_edges (config_of g) = gr_reject_parallel_edges g"
  by (simp_all add: config_of_def)

lemma admission_config: "edge_admission g V E src dst = admission (config_of g) (V, E) src dst"
  by (simp add: edge_admission_def admission_def live_handle_def config_fields)

lemma new_edge_config: "spec_edge g x h = new_edge (config_of g) (spec_src x) (spec_dst x) (spec_weight x) h"
  by (simp add: spec_edge_def new_edge_def config_fields)

lemma admitted_batch: "admitted g V E specs hs \<Longrightarrow> batch (config_of g) (V, E) specs hs (V, E @ map2 (spec_edge g) (take (length hs) specs) hs)"
  by (induction g V E specs hs rule: admitted.induct) (auto simp: admission_config new_edge_config)

section \<open>One call\<close>

definition graph_simulates :: "dv_graph_config_t \<Rightarrow> view \<Rightarrow> graph_op \<Rightarrow> (graph_res \<times> 'w dv_graph_t \<times> 'w) option \<Rightarrow> bool" where
  "graph_simulates c s op res \<longleftrightarrow> (\<exists>r g' w' s'. res = Some (r, g', w') \<and> represents g' (fst s') (snd s') \<and> config_of g' = c \<and> graph_ref c s op r s')"

lemma graph_simulatesI:
  "res = Some (r, g', w') \<Longrightarrow> represents g' V' E' \<Longrightarrow> config_of g' = c \<Longrightarrow> graph_ref c s op r (V', E') \<Longrightarrow> graph_simulates c s op res"
  unfolding graph_simulates_def by (metis fst_conv snd_conv)

named_theorems graph_sim \<open>the simulation of each call\<close>

lemma sim_add_vertex [graph_sim]: "represents g V E \<Longrightarrow> graph_simulates (config_of g) (V, E) GAddVertex (graph_step g GAddVertex w)"
proof (rule add_vertex_ok [of g V E w], assumption, goal_cases)
  case (1 st g' h w')
  note a = 1(2-6)
  show ?case
  proof (cases "st = DV_GRAPH_OK")
    case True
    then obtain v where "h = Some v" "vh_index v \<notin> dom V" "represents g' (V(vh_index v \<mapsto> vh_generation v)) E" using a(5) by blast
    then show ?thesis using True a(1-3) by (intro graph_simulatesI [of _ "RVertex st (Some v)" g' w']) (auto simp del: dv_graph_add_vertex.simps)
  next
    case False
    then show ?thesis using a(1-4) by (intro graph_simulatesI [of _ "RVertex st None" g' w' V E]) (auto simp del: dv_graph_add_vertex.simps)
  qed
qed

lemma sim_remove_vertex [graph_sim]: "represents g V E \<Longrightarrow> graph_simulates (config_of g) (V, E) (GRemoveVertex h) (graph_step g (GRemoveVertex h) w)"
proof (rule remove_vertex_ok [of g V E h], assumption, goal_cases)
  case (1 st g')
  note a = 1
  show ?case
  proof (cases "live_handle V h")
    case True
    then show ?thesis using a(2,3,5)
      by (intro graph_simulatesI [of _ "RStatus st" g' w]) (auto simp: live_handle_def simp del: dv_graph_remove_vertex.simps)
  next
    case False
    then show ?thesis using a(1-4)
      by (intro graph_simulatesI [of _ "RStatus st" g' w V E]) (auto simp: live_handle_def simp del: dv_graph_remove_vertex.simps)
  qed
qed

lemma sim_add_edge [graph_sim]: "represents g V E \<Longrightarrow> graph_simulates (config_of g) (V, E) (GAddEdge s d x) (graph_step g (GAddEdge s d x) w)"
proof (rule add_edge_ok [of g V E s d x w], assumption, goal_cases)
  case (1 st g' h w')
  note a = 1(2-7)
  let ?a = "admission (config_of g) (V, E) s d"
  show ?case
  proof (cases "st = DV_GRAPH_OK")
    case True
    then have "?a = DV_GRAPH_OK" using a(3) by (metis admission_config)
    moreover obtain e where "h = Some e" "eh_index e \<notin> eh_index ` ge_handle ` set E" "represents g' V (E @ [new_edge (config_of g) s d x e])"
      using a(6) True unfolding new_edge_def config_fields by blast
    ultimately show ?thesis using True a(1,2,4)
      by (intro graph_simulatesI [of _ "REdge st (Some e)" g' w']) (auto simp: admission_config simp del: dv_graph_add_edge.simps)
  next
    case False
    have "graph_ref (config_of g) (V, E) (GAddEdge s d x) (REdge st None) (V, E)"
      using False a(3,4) by (auto simp: admission_config)
    then show ?thesis using False a(1,2,5) by (intro graph_simulatesI [of _ "REdge st None" g' w' V E]) (simp_all del: dv_graph_add_edge.simps graph_ref.simps)
  qed
qed

lemma sim_remove_edge [graph_sim]: "represents g V E \<Longrightarrow> graph_simulates (config_of g) (V, E) (GRemoveEdge h) (graph_step g (GRemoveEdge h) w)"
proof (rule remove_edge_ok [of g V E h], assumption, goal_cases)
  case (1 st g')
  note a = 1
  show ?case
  proof (cases "h \<in> ge_handle ` set E")
    case True
    then show ?thesis using a(2,3,5) by (intro graph_simulatesI [of _ "RStatus st" g' w]) (auto simp del: dv_graph_remove_edge.simps)
  next
    case False
    then show ?thesis using a(1-4) by (intro graph_simulatesI [of _ "RStatus st" g' w V E]) (auto simp del: dv_graph_remove_edge.simps)
  qed
qed

lemma sim_remove_between [graph_sim]:
  "represents g V E \<Longrightarrow> graph_simulates (config_of g) (V, E) (GRemoveBetween s d) (graph_step g (GRemoveBetween s d) w)"
proof (rule remove_edge_between_ok [of g V E s d], assumption, goal_cases)
  case (1 st g')
  have step: "graph_step g (GRemoveBetween s d) w = Some (RStatus st, g', w)" using 1(2) by (simp del: dv_graph_remove_edge_between.simps)
  note sim = graph_simulatesI [OF step _ 1(3)]
  let ?j = "\<exists>x \<in> set E. joins (gr_directed g) (vh_index s) (vh_index d) x"
  consider (stale) "\<not> live_handle V s \<or> \<not> live_handle V d" | (none) "live_handle V s" "live_handle V d" "\<not> ?j"
    | (some) "live_handle V s" "live_handle V d" "?j" by blast
  then show ?case
  proof cases
    case stale
    then have "st = DV_GRAPH_ERR_STALE" "g' = g" using 1(4) by (auto simp: live_handle_def)
    then show ?thesis using stale 1(1) by (intro sim [of V E]) simp_all
  next
    case none
    then have "st = DV_GRAPH_ERR_NOT_FOUND" "g' = g" using 1(5) by (simp_all add: live_handle_def)
    then show ?thesis using none 1(1) by (intro sim [of V E]) (simp_all add: config_fields)
  next
    case some
    then have "st = DV_GRAPH_OK \<and> (\<exists>x \<in> set E. joins (gr_directed g) (vh_index s) (vh_index d) x \<and>
        (gr_directed g \<longrightarrow> List.find (joins True (vh_index s) (vh_index d)) E = Some x) \<and>
        represents g' V (filter (\<lambda>y. ge_handle y \<noteq> ge_handle x) E))" using 1(5) by (simp add: live_handle_def)
    then obtain x where x: "st = DV_GRAPH_OK" "picked (config_of g) E s d x" "represents g' V (filter (\<lambda>y. ge_handle y \<noteq> ge_handle x) E)"
      unfolding picked_def config_fields by blast
    then show ?thesis using some by (intro sim [OF x(3)]) (auto simp: config_fields)
  qed
qed

lemma sim_set_weight [graph_sim]: "represents g V E \<Longrightarrow> graph_simulates (config_of g) (V, E) (GSetWeight h x) (graph_step g (GSetWeight h x) w)"
proof (rule set_edge_weight_ok [of g V E h x], assumption, goal_cases)
  case (1 st g')
  have step: "graph_step g (GSetWeight h x) w = Some (RStatus st, g', w)" using 1(2) by (simp del: dv_graph_set_edge_weight.simps)
  show ?case
  proof (cases "st = DV_GRAPH_OK")
    case True
    then show ?thesis using 1(6) by (intro graph_simulatesI [OF step 1(7) 1(3)]) (simp_all add: config_fields)
  next
    case False
    then have "represents g' V E" using 1(1,5) by simp
    then show ?thesis using False 1(6) by (intro graph_simulatesI [OF step _ 1(3)]) (auto simp: config_fields)
  qed
qed

lemma sim_add_vertices [graph_sim]: "represents g V E \<Longrightarrow> graph_simulates (config_of g) (V, E) (GAddVertices n) (graph_step g (GAddVertices n) w)"
proof (rule add_vertices_ok [of g V E n w], assumption, goal_cases)
  case (1 k g' hs w')
  have k: "k = of_nat (length hs)" by (simp flip: 1(6))
  have "graph_step g (GAddVertices n) w = Some (RVertices k hs, g', w')" using 1(2) by (simp del: dv_graph_add_vertices.simps)
  then show ?case using 1(3-7) k by (intro graph_simulatesI [of _ "RVertices k hs" g' w']) (auto simp: word_le_nat_alt)
qed

lemma sim_add_edges [graph_sim]:
  "represents g V E \<Longrightarrow> length specs < 2 ^ 32 \<Longrightarrow> graph_simulates (config_of g) (V, E) (GAddEdges specs) (graph_step g (GAddEdges specs) w)"
proof (rule add_edges_ok [of g V E "of_nat (length specs)" specs w], goal_cases)
  case 2
  then show ?case by (simp add: unat_of_nat)
next
  case (3 k g' hs w')
  have k: "k = of_nat (length hs)" by (simp flip: 3(6))
  have "graph_step g (GAddEdges specs) w = Some (REdges k hs, g', w')" using 3(3) by (simp del: dv_graph_add_edges.simps)
  then show ?case using 3(4,5) k admitted_batch [OF 3(8)] by (intro graph_simulatesI [of _ "REdges k hs" g' w']) auto
qed assumption

lemma sim_clear [graph_sim]: "represents g V E \<Longrightarrow> graph_simulates (config_of g) (V, E) GClear (graph_step g GClear w)"
proof (rule clear_ok [of g V E], assumption, goal_cases)
  case (1 g')
  then show ?case by (intro graph_simulatesI [of _ RUnit g' w]) (auto simp del: dv_graph_clear.simps)
qed

lemma sim_reset [graph_sim]: "represents g V E \<Longrightarrow> graph_simulates (config_of g) (V, E) GReset (graph_step g GReset w)"
proof (rule reset_ok [of g V E w], assumption, goal_cases)
  case (1 st g' w')
  then show ?case by (intro graph_simulatesI [of _ "RStatus st" g' w']) (auto simp: with_graph_def simp del: dv_graph_reset.simps)
qed

lemma sim_kept:
  "\<exists>st g' w'. f = Some (st, Some g', w') \<and> represents g' V E \<and> config_of g' = c \<and> P st g' w' \<Longrightarrow>
   graph_step g op w = with_graph RStatus f \<Longrightarrow> (\<And>st. graph_ref c (V, E) op (RStatus st) (V, E)) \<Longrightarrow>
   graph_simulates c (V, E) op (graph_step g op w)"
  by (elim exE conjE, rule graph_simulatesI) (auto simp: with_graph_def)

lemma sim_storage [graph_sim]:
  assumes rep: "represents g V E"
  shows "graph_simulates (config_of g) (V, E) (GReserveVertices n) (graph_step g (GReserveVertices n) w)"
    "graph_simulates (config_of g) (V, E) (GReserveEdges n) (graph_step g (GReserveEdges n) w)"
    "graph_simulates (config_of g) (V, E) GReserveTraversal (graph_step g GReserveTraversal w)"
    "graph_simulates (config_of g) (V, E) GShrink (graph_step g GShrink w)"
  by (rule sim_kept [OF reserve_vertices_ok [OF rep]] sim_kept [OF reserve_edges_ok [OF rep]]
    sim_kept [OF reserve_traversal_ok [OF rep]] sim_kept [OF shrink_to_fit_ok [OF rep]]; simp)+

lemma sim_phase [graph_sim]:
  assumes rep: "represents g V E"
  shows "graph_simulates (config_of g) (V, E) GBegin (graph_step g GBegin w)" "graph_simulates (config_of g) (V, E) GCommit (graph_step g GCommit w)"
proof -
  obtain st g1 where "dv_graph_begin_update (Some g) = (st, Some g1)" "represents g1 V E" "config_of g1 = config_of g"
    using begin_update_ok [OF rep] by blast
  then show "graph_simulates (config_of g) (V, E) GBegin (graph_step g GBegin w)"
    by (intro graph_simulatesI [of _ "RStatus st" g1 w V E]) (simp_all del: dv_graph_begin_update.simps)
  obtain st' g2 where "dv_graph_commit_update (Some g) = (st', Some g2)" "represents g2 V E" "config_of g2 = config_of g"
    using commit_update_ok [OF rep] by blast
  then show "graph_simulates (config_of g) (V, E) GCommit (graph_step g GCommit w)"
    by (intro graph_simulatesI [of _ "RStatus st'" g2 w V E]) (simp_all del: dv_graph_commit_update.simps)
qed

lemma sim_find [graph_sim]:
  assumes rep: "represents g V E"
  shows "graph_simulates (config_of g) (V, E) (GFind s d) (graph_step g (GFind s d) w)"
proof -
  obtain st h where f: "dv_graph_find_edge (Some g) s d = Some (st, h)" and res:
    "if V (vh_index s) \<noteq> Some (vh_generation s) \<or> V (vh_index d) \<noteq> Some (vh_generation d) then st = DV_GRAPH_ERR_STALE \<and> h = None
     else if \<exists>x \<in> set E. joins (gr_directed g) (vh_index s) (vh_index d) x
     then st = DV_GRAPH_OK \<and> (\<exists>x \<in> set E. joins (gr_directed g) (vh_index s) (vh_index d) x \<and> h = Some (ge_handle x) \<and>
       (gr_directed g \<longrightarrow> List.find (joins True (vh_index s) (vh_index d)) E = Some x))
     else st = DV_GRAPH_ERR_NOT_FOUND \<and> h = None"
    using find_edge_ok [OF rep, of s d] by (elim exE conjE) (rule that)
  have "graph_ref (config_of g) (V, E) (GFind s d) (REdge st h) (V, E)"
    using res by (auto simp: live_handle_def picked_def config_fields split: if_splits)
  moreover have "graph_step g (GFind s d) w = Some (REdge st h, g, w)" using f by (simp del: dv_graph_find_edge.simps)
  ultimately show ?thesis using rep by (intro graph_simulatesI) auto
qed

lemma sim_has_edge [graph_sim]:
  assumes rep: "represents g V E"
  shows "graph_simulates (config_of g) (V, E) (GHasEdge s d) (graph_step g (GHasEdge s d) w)"
proof -
  obtain st h where f: "dv_graph_find_edge (Some g) s d = Some (st, h)" and
    ok: "st = DV_GRAPH_OK \<longleftrightarrow> live_handle V s \<and> live_handle V d \<and> (\<exists>x \<in> set E. joins (gr_directed g) (vh_index s) (vh_index d) x)"
    using find_edge_ok [OF rep, of s d] by (auto simp: live_handle_def split: if_splits)
  have "graph_step g (GHasEdge s d) w = Some (RBool (st = DV_GRAPH_OK), g, w)"
    using f by (simp add: dv_graph_has_edge_def del: dv_graph_find_edge.simps)
  then show ?thesis using rep ok by (intro graph_simulatesI) (auto simp: config_fields)
qed

lemma sim_reachable [graph_sim]:
  assumes rep: "represents g V E"
  shows "graph_simulates (config_of g) (V, E) (GReachable s d) (graph_step g (GReachable s d) w)"
proof -
  obtain st g' r w' where f: "dv_graph_reachable (Some g) s d (Some False) w = Some (st, Some g', Some r, w')"
    "represents g' V E" "config_of g' = config_of g" and
    res: "if V (vh_index s) \<noteq> Some (vh_generation s) \<or> V (vh_index d) \<noteq> Some (vh_generation d) then st = DV_GRAPH_ERR_STALE \<and> r = False
     else if st = DV_GRAPH_OK then r = (\<lambda>u v. \<exists>x \<in> set E. joins (gr_directed g) u v x)\<^sup>*\<^sup>* (vh_index s) (vh_index d)
     else st = DV_GRAPH_ERR_NOMEM \<and> r = False"
    using reachable_ok [OF rep, of s d False w] by (elim exE conjE) (rule that)
  have ref: "graph_ref (config_of g) (V, E) (GReachable s d) (RReach st r) (V, E)"
    using res by (auto simp: live_handle_def config_fields split: if_splits)
  have step: "graph_step g (GReachable s d) w = Some (RReach st r, g', w')" using f(1) by (simp del: dv_graph_reachable.simps)
  show ?thesis by (rule graph_simulatesI [OF step f(2,3) ref])
qed

lemma sim_query [graph_sim]:
  assumes rep: "represents g V E"
  shows "graph_simulates (config_of g) (V, E) (GVertexValid v) (graph_step g (GVertexValid v) w)"
    "graph_simulates (config_of g) (V, E) (GEdgeValid e) (graph_step g (GEdgeValid e) w)"
    "graph_simulates (config_of g) (V, E) (GOutDegree v) (graph_step g (GOutDegree v) w)"
    "graph_simulates (config_of g) (V, E) (GInDegree v) (graph_step g (GInDegree v) w)"
    "graph_simulates (config_of g) (V, E) (GDegree v) (graph_step g (GDegree v) w)"
    "graph_simulates (config_of g) (V, E) GVertexCount (graph_step g GVertexCount w)"
    "graph_simulates (config_of g) (V, E) GEdgeCount (graph_step g GEdgeCount w)"
  using rep vertex_valid_ok [OF rep] edge_valid_ok [OF rep] degree_ok [OF rep] counts_ok [OF rep]
  by (auto intro!: graph_simulatesI [where g' = g and w' = w] simp: live_handle_def simp del: dv_graph_vertex_valid.simps dv_graph_edge_valid.simps)

lemma graph_step_simulates: "represents g V E \<Longrightarrow> graph_op_ok op \<Longrightarrow> graph_simulates (config_of g) (V, E) op (graph_step g op w)"
  by (cases op) (simp_all add: graph_sim del: graph_step.simps)

section \<open>Runs\<close>

text \<open>The answers and the final view that the reference semantics allows for a sequence of calls.\<close>

fun graph_ref_run :: "dv_graph_config_t \<Rightarrow> view \<Rightarrow> graph_op list \<Rightarrow> graph_res list \<Rightarrow> view \<Rightarrow> bool" where
  "graph_ref_run c s [] rs s' = (rs = [] \<and> s' = s)"
| "graph_ref_run c s (op # ops) rs s' = (\<exists>r rs1 s1. rs = r # rs1 \<and> graph_ref c s op r s1 \<and> graph_ref_run c s1 ops rs1 s')"

lemma graph_run_simulates:
  "represents g V E \<Longrightarrow> list_all graph_op_ok ops \<Longrightarrow>
   \<exists>rs g' w' s'. graph_run g ops w = Some (rs, g', w') \<and> represents g' (fst s') (snd s') \<and> config_of g' = config_of g \<and>
     graph_ref_run (config_of g) (V, E) ops rs s'"
proof (induction ops arbitrary: g V E w)
  case Nil
  then show ?case by auto
next
  case (Cons op ops)
  obtain r g1 w1 s1 where 1: "graph_step g op w = Some (r, g1, w1)" "represents g1 (fst s1) (snd s1)" "config_of g1 = config_of g"
    "graph_ref (config_of g) (V, E) op r s1"
    using graph_step_simulates [OF Cons.prems(1), of op w] Cons.prems(2) by (auto simp: graph_simulates_def)
  obtain rs g2 w2 s2 where 2: "graph_run g1 ops w1 = Some (rs, g2, w2)" "represents g2 (fst s2) (snd s2)" "config_of g2 = config_of g1"
    "graph_ref_run (config_of g1) (fst s1, snd s1) ops rs s2" using Cons.IH [OF 1(2), of w1] Cons.prems(2) by auto
  show ?case using 1 2 by (intro exI [of _ "r # rs"] exI [of _ g2] exI [of _ w2] exI [of _ s2]) (cases s1, auto simp del: graph_step.simps)
qed

end
