(* ===== verification/Graph_Check.thy ===== *)
theory Graph_Check
  imports Graph_Simulation
begin

text \<open>
  The self-check of the graph answers true on every graph that satisfies the invariant.
\<close>

section \<open>Neighbours in a list\<close>

lemma inc_lists_ends:
  assumes ls: "inc_lists key nxt prv hh tt deg S L" and s: "key e \<in> S" and e: "e \<in> set L" and nil: "NIL \<notin> set L" and d: "distinct L"
  shows "prv e = NIL \<Longrightarrow> hh (key e) = e" "prv e \<noteq> NIL \<Longrightarrow> prv e \<in> set L \<and> nxt (prv e) = e"
    "nxt e = NIL \<Longrightarrow> tt (key e) = e" "nxt e \<noteq> NIL \<Longrightarrow> nxt e \<in> set L \<and> prv (nxt e) = e"
proof -
  obtain as bs where ab: "owned key L (key e) = as @ e # bs" using owned_split [OF e refl d] by metis
  have sub: "set (as @ e # bs) \<subseteq> set L" using ab owned_simps(3) [of key L "key e"] by auto
  have f: "chain nxt (hh (key e)) (as @ e # bs) NIL" and b: "chain prv (tt (key e)) (rev bs @ e # rev as) NIL"
    using inc_listsD(1,2) [OF ls s] ab by simp_all
  have n: "nxt e = (case bs of [] \<Rightarrow> NIL | b # _ \<Rightarrow> b)" by (rule chain_next [OF f])
  have p: "prv e = (case rev as of [] \<Rightarrow> NIL | a # _ \<Rightarrow> a)" by (rule chain_next [OF b])
  show "prv e = NIL \<Longrightarrow> hh (key e) = e" using p f sub nil by (cases as rule: rev_cases) auto
  show "prv e \<noteq> NIL \<Longrightarrow> prv e \<in> set L \<and> nxt (prv e) = e"
    using p f sub chain_next [of nxt "hh (key e)" "butlast as" "last as" "e # bs" NIL] by (cases as rule: rev_cases) auto
  show "nxt e = NIL \<Longrightarrow> tt (key e) = e" using n b sub nil by (cases bs) auto
  show "nxt e \<noteq> NIL \<Longrightarrow> nxt e \<in> set L \<and> prv (nxt e) = e"
  proof (cases bs)
    case (Cons x xs)
    then have "chain prv (tt (key e)) (rev xs @ x # (e # rev as)) NIL" using b by simp
    then have "prv x = e" using chain_next by fastforce
    then show ?thesis using Cons n sub by simp
  qed (use n in simp)
qed

section \<open>Walks of the check\<close>

lemma walk_out_chain:
  "chain (\<lambda>e. next_out (er g e)) h xs NIL \<Longrightarrow>
   (\<And>x. x \<in> set xs \<Longrightarrow> x \<noteq> NIL \<and> x < gr_edge_watermark g \<and> unat x < n_edges g \<and> e_active (er g x) \<and> e_src (er g x) = i) \<Longrightarrow>
   unat k + length xs = unat d \<Longrightarrow> walk_out g i d h k = Some True"
proof (induction xs arbitrary: h k)
  case Nil
  then show ?case by (simp add: walk_out.simps [of g i d] word_unat_eq_iff)
next
  case (Cons x xs)
  have x: "h = x" "x \<noteq> NIL" "x < gr_edge_watermark g" "unat x < n_edges g" "e_active (er g x)" "e_src (er g x) = i" using Cons.prems by auto
  have k: "unat (k + 1) = unat k + 1" using Cons.prems(3) unat_Suc_word [of k d] by (simp add: word_less_nat_alt)
  have "walk_out g i d (next_out (er g x)) (k + 1) = Some True" using Cons k by auto
  moreover have "\<not> d < k + 1" using k Cons.prems(3) by (simp add: word_less_nat_alt)
  ultimately show ?case unfolding x(1) using x by (subst walk_out.simps) (simp add: erec_in)
qed

lemma walk_in_chain:
  "chain (\<lambda>e. next_in (er g e)) h xs NIL \<Longrightarrow>
   (\<And>x. x \<in> set xs \<Longrightarrow> x \<noteq> NIL \<and> x < gr_edge_watermark g \<and> unat x < n_edges g \<and> e_active (er g x) \<and> e_dst (er g x) = i) \<Longrightarrow>
   unat k + length xs = unat d \<Longrightarrow> walk_in g i d h k = Some True"
proof (induction xs arbitrary: h k)
  case Nil
  then show ?case by (simp add: walk_in.simps [of g i d] word_unat_eq_iff)
next
  case (Cons x xs)
  have x: "h = x" "x \<noteq> NIL" "x < gr_edge_watermark g" "unat x < n_edges g" "e_active (er g x)" "e_dst (er g x) = i" using Cons.prems by auto
  have k: "unat (k + 1) = unat k + 1" using Cons.prems(3) unat_Suc_word [of k d] by (simp add: word_less_nat_alt)
  have "walk_in g i d (next_in (er g x)) (k + 1) = Some True" using Cons k by auto
  moreover have "\<not> d < k + 1" using k Cons.prems(3) by (simp add: word_less_nat_alt)
  ultimately show ?case unfolding x(1) using x by (subst walk_in.simps) (simp add: erec_in)
qed

lemma free_len_vertices:
  "chain (\<lambda>v. out_head (vr g v)) h xs NIL \<Longrightarrow>
   (\<And>x. x \<in> set xs \<Longrightarrow> x \<noteq> NIL \<and> x < n \<and> unat x < n_vertices g \<and> \<not> v_active (vr g x)) \<Longrightarrow>
   unat k + length xs \<le> unat n \<Longrightarrow> free_len True g n h k = Some (Some (k + of_nat (length xs)))"
proof (induction xs arbitrary: h k)
  case Nil
  then show ?case by (simp add: free_len.simps [of True g n])
next
  case (Cons x xs)
  have x: "h = x" "x \<noteq> NIL" "x < n" "unat x < n_vertices g" "\<not> v_active (vr g x)" using Cons.prems by auto
  have k: "unat (k + 1) = unat k + 1" using Cons.prems(3) unat_Suc_word [of k n] by (simp add: word_less_nat_alt)
  have "free_len True g n (out_head (vr g x)) (k + 1) = Some (Some (k + 1 + of_nat (length xs)))" using Cons k by auto
  moreover have "\<not> n < k" using Cons.prems(3) by (simp add: word_less_nat_alt)
  ultimately show ?case unfolding x(1) using x by (subst free_len.simps) (simp add: vrec_in add.assoc)
qed

lemma free_len_edges:
  "chain (\<lambda>e. next_out (er g e)) h xs NIL \<Longrightarrow>
   (\<And>x. x \<in> set xs \<Longrightarrow> x \<noteq> NIL \<and> x < n \<and> unat x < n_edges g \<and> \<not> e_active (er g x)) \<Longrightarrow>
   unat k + length xs \<le> unat n \<Longrightarrow> free_len False g n h k = Some (Some (k + of_nat (length xs)))"
proof (induction xs arbitrary: h k)
  case Nil
  then show ?case by (simp add: free_len.simps [of False g n])
next
  case (Cons x xs)
  have x: "h = x" "x \<noteq> NIL" "x < n" "unat x < n_edges g" "\<not> e_active (er g x)" using Cons.prems by auto
  have k: "unat (k + 1) = unat k + 1" using Cons.prems(3) unat_Suc_word [of k n] by (simp add: word_less_nat_alt)
  have "free_len False g n (next_out (er g x)) (k + 1) = Some (Some (k + 1 + of_nat (length xs)))" using Cons k by auto
  moreover have "\<not> n < k" using Cons.prems(3) by (simp add: word_less_nat_alt)
  ultimately show ?case unfolding x(1) using x by (subst free_len.simps) (simp add: erec_in add.assoc)
qed

section \<open>Vertices and edges of the check\<close>

lemma list_le_watermark:
  assumes "distinct (xs :: u32 list)" "\<And>x. x \<in> set xs \<Longrightarrow> x < n"
  shows "length xs \<le> unat n"
proof -
  have "unat ` set xs \<subseteq> {..<unat n}" using assms(2) by (auto simp: word_less_nat_alt)
  then have "card (unat ` set xs) \<le> unat n" by (metis card_lessThan card_mono finite_lessThan)
  moreover have "card (unat ` set xs) = length xs" using assms(1) by (subst card_image) (simp_all add: inj_on_def word_unat_eq_iff distinct_card)
  ultimately show ?thesis by simp
qed

lemma valid_vertex_ok:
  assumes wf: "wf_graph g L VF EF" and i: "i \<in> live g {}"
  shows "valid_vertex g i (vr g i) = Some True"
proof -
  note D = wf_genD [OF wf] and ep = edge_partD [OF wf_genD(3) [OF wf]] and lp = link_partD [OF wf_genD(4) [OF wf]]
  note o = inc_listsD [OF lp(3) i] and n = inc_listsD [OF lp(4) i]
  have in_L: "x \<noteq> NIL \<and> x < gr_edge_watermark g \<and> unat x < n_edges g \<and> e_active (er g x)" if "x \<in> set L" for x
    using that ep(5) wf_range(1,7) [OF wf] by auto
  have small: "length (owned key L i) < 2 ^ 32" for key :: "u32 \<Rightarrow> u32"
  proof -
    have "length (owned key L i) \<le> length L" by (simp add: owned_def)
    then show ?thesis using list_le_watermark [OF ep(4), of "gr_edge_watermark g"] ep(5) unsigned_less [of "gr_edge_watermark g", where ?'a = nat] by auto
  qed
  have deg: "unat (of_nat (length (owned key L i)) :: u32) = length (owned key L i)" for key :: "u32 \<Rightarrow> u32"
    using small [of key] by (simp add: unat_of_nat)
  have "walk_out g i (out_degree (vr g i)) (out_head (vr g i)) 0 = Some True"
    by (rule walk_out_chain [OF o(1)]) (use in_L deg o(3) in auto)
  moreover have "walk_in g i (in_degree (vr g i)) (in_head (vr g i)) 0 = Some True"
    by (rule walk_in_chain [OF n(1)]) (use in_L deg n(3) in auto)
  moreover have "v_generation (vr g i) \<noteq> 0" using vertex_partD(4) [OF D(2)] i by (auto simp: live_def live_in_def)
  ultimately show ?thesis
    using inc_lists_tail(1,3) [OF lp(3) i wf_range(7) [OF wf]] inc_lists_tail(1,3) [OF lp(4) i wf_range(7) [OF wf]]
    by (simp add: valid_vertex_def)
qed

lemma valid_edge_ok:
  assumes wf: "wf_graph g L VF EF" and i: "i \<in> set L"
  shows "valid_edge g i (er g i) = Some True"
proof -
  note D = wf_genD [OF wf] and ep = edge_partD [OF wf_genD(3) [OF wf]] and lp = link_partD [OF wf_genD(4) [OF wf]]
  note nb = wf_range(7) [OF wf] ep(4)
  note o = inc_lists_ends [OF lp(3) lp(1) [OF i] i nb] and n = inc_lists_ends [OF lp(4) lp(2) [OF i] i nb]
  have src: "e_src (er g i) \<in> live g {}" and dst: "e_dst (er g i) \<in> live g {}" using lp(1,2) i by blast+
  have v: "vrec g (e_src (er g i)) = Some (vr g (e_src (er g i)))" "vrec g (e_dst (er g i)) = Some (vr g (e_dst (er g i)))"
    using wf_range(4) [OF wf src] wf_range(4) [OF wf dst] by (simp_all add: vrec_in)
  have e: "erec g x = Some (er g x)" if "x \<in> set L" for x using wf_range(1) [OF wf that] by (simp add: erec_in)
  have act: "v_active (vr g (e_src (er g i)))" "v_active (vr g (e_dst (er g i)))" "e_src (er g i) < gr_vertex_watermark g" "e_dst (er g i) < gr_vertex_watermark g"
    using src dst by (auto simp: live_def live_in_def)
  have gen: "e_generation (er g i) \<noteq> 0" using ep(5,6) i by blast
  have a: "(if prev_out (er g i) = NIL then Some (out_head (vr g (e_src (er g i))) = i)
      else do { p \<leftarrow> erec g (prev_out (er g i)); Some (next_out p = i) }) = Some True" using o(1,2) e by auto
  have b: "(if next_out (er g i) = NIL then Some (out_tail (vr g (e_src (er g i))) = i)
      else do { p \<leftarrow> erec g (next_out (er g i)); Some (prev_out p = i) }) = Some True" using o(3,4) e by auto
  have c: "(if prev_in (er g i) = NIL then Some (in_head (vr g (e_dst (er g i))) = i)
      else do { p \<leftarrow> erec g (prev_in (er g i)); Some (next_in p = i) }) = Some True" using n(1,2) e by auto
  have d: "(if next_in (er g i) = NIL then Some (in_tail (vr g (e_dst (er g i))) = i)
      else do { p \<leftarrow> erec g (next_in (er g i)); Some (prev_in p = i) }) = Some True" using n(3,4) e by auto
  have "\<not> (e_src (er g i) \<ge> gr_vertex_watermark g \<or> e_dst (er g i) \<ge> gr_vertex_watermark g)" using act by (simp add: not_le)
  then show ?thesis unfolding valid_edge_def if_not_P [OF gen] using act v a b c d by simp
qed

text \<open>The loops count from a slot on: the live vertices, the edges that leave and enter them, and the live edges.\<close>

definition from_on :: "u32 \<Rightarrow> (u32 \<Rightarrow> u32) \<Rightarrow> u32 list \<Rightarrow> u32" where
  "from_on i key L = of_nat (length (filter (\<lambda>e. i \<le> key e) L))"

lemma from_on_step:
  assumes "i < n" shows "from_on i key L = of_nat (length (filter (\<lambda>e. key e = i) L)) + from_on (i + 1) key L"
proof -
  have "(i \<le> x) = (x = i \<or> i + 1 \<le> x)" "\<not> (i + 1 \<le> i)" for x :: u32
    using unat_Suc_word [of i n] assms by (auto simp: word_le_nat_alt word_unat_eq_iff word_less_nat_alt)
  then have "length (filter (\<lambda>e. i \<le> key e) L) = length (filter (\<lambda>e. key e = i) L) + length (filter (\<lambda>e. i + 1 \<le> key e) L)"
    by (induction L) auto
  then show ?thesis by (simp add: from_on_def)
qed

lemma from_on_end: "(\<And>e. e \<in> set L \<Longrightarrow> key e < n) \<Longrightarrow> from_on n key L = 0"
  by (auto simp: from_on_def filter_empty_conv not_le)

lemma from_on_start: "from_on 0 key L = of_nat (length L)"
  by (simp add: from_on_def)

lemma length_filter_eq: "distinct A \<Longrightarrow> length (filter (\<lambda>v. v = i) A) = (if i \<in> set A then 1 else 0)"
  by (induction A) auto

lemma valid_vertices_ok:
  assumes wf: "wf_graph g L VF EF"
  shows "i \<le> gr_vertex_watermark g \<Longrightarrow> valid_vertices (gr_vertex_watermark g) g i a x y =
    Some (Some (a + from_on i id (live_slots g), x + from_on i (\<lambda>e. e_src (er g e)) L, y + from_on i (\<lambda>e. e_dst (er g e)) L))"
proof (induction "unat (gr_vertex_watermark g) - unat i" arbitrary: i a x y)
  case 0
  let ?n = "gr_vertex_watermark g"
  have i: "i = ?n" using 0 by (simp add: word_le_nat_alt word_unat_eq_iff)
  have lt: "v < ?n" if "v \<in> live g {}" for v using that by (simp add: live_def live_in_def)
  have z: "from_on ?n id (live_slots g) = 0" "from_on ?n (\<lambda>e. e_src (er g e)) L = 0" "from_on ?n (\<lambda>e. e_dst (er g e)) L = 0"
    by (rule from_on_end; use live_slots(1) [of g] lt link_partD(1,2) [OF wf_genD(4) [OF wf]] in auto)+
  show ?case unfolding i z by (simp add: valid_vertices.simps [of ?n])
next
  case (Suc d)
  let ?n = "gr_vertex_watermark g" and ?s = "\<lambda>e. e_src (er g e)" and ?t = "\<lambda>e. e_dst (er g e)"
  have lt: "i < ?n" using Suc.hyps(2) by (simp add: word_less_nat_alt)
  note s1 = unat_Suc_word [of i ?n] and lp = link_partD [OF wf_genD(4) [OF wf]]
  have s: "unat (i + 1) = Suc (unat i)" using s1 lt by (simp add: word_less_nat_alt)
  have v: "vrec g i = Some (vr g i)" using mem_range(1) [OF wf_genD(1) [OF wf] lt] by (simp add: vrec_in)
  have IH: "valid_vertices ?n g (i + 1) a x y = Some (Some (a + from_on (i + 1) id (live_slots g), x + from_on (i + 1) ?s L, y + from_on (i + 1) ?t L))" for a x y
    by (rule Suc.hyps(1)) (use Suc.hyps(2) s lt in \<open>simp_all add: word_less_nat_alt word_le_nat_alt\<close>)
  have iff: "v_active (vr g i) \<longleftrightarrow> i \<in> live g {}" using lt by (simp add: live_def live_in_def)
  have A: "from_on i id (live_slots g) = (if i \<in> live g {} then 1 else 0) + from_on (i + 1) id (live_slots g)"
    using from_on_step [OF lt, of id] length_filter_eq [OF live_slots(2), of i g] live_slots(1) [of g] by simp
  show ?case
  proof (cases "i \<in> live g {}")
    case False
    then have "filter (\<lambda>e. ?s e = i) L = []" "filter (\<lambda>e. ?t e = i) L = []" using lp(1,2) by (auto simp: filter_empty_conv)
    then have "from_on i ?s L = from_on (i + 1) ?s L" "from_on i ?t L = from_on (i + 1) ?t L"
      using from_on_step [OF lt, of ?s L] from_on_step [OF lt, of ?t L] by simp_all
    then show ?thesis using lt v iff False IH A by (subst valid_vertices.simps) simp
  next
    case True
    have "from_on i ?s L = out_degree (vr g i) + from_on (i + 1) ?s L" "from_on i ?t L = in_degree (vr g i) + from_on (i + 1) ?t L"
      using from_on_step [OF lt, of ?s L] from_on_step [OF lt, of ?t L] inc_listsD(3) [OF lp(3) True] inc_listsD(3) [OF lp(4) True]
      by (simp_all add: owned_def)
    then show ?thesis using lt v iff True IH A valid_vertex_ok [OF wf True] by (subst valid_vertices.simps) (simp add: add.assoc)
  qed
qed

lemma valid_edges_ok:
  assumes wf: "wf_graph g L VF EF"
  shows "i \<le> gr_edge_watermark g \<Longrightarrow> valid_edges (gr_edge_watermark g) g i a = Some (Some (a + from_on i id L))"
proof (induction "unat (gr_edge_watermark g) - unat i" arbitrary: i a)
  case 0
  let ?n = "gr_edge_watermark g"
  have i: "i = ?n" using 0 by (simp add: word_le_nat_alt word_unat_eq_iff)
  have z: "from_on ?n id L = 0" by (rule from_on_end) (use edge_partD(5) [OF wf_genD(3) [OF wf]] in auto)
  show ?case unfolding i z by (simp add: valid_edges.simps [of ?n])
next
  case (Suc d)
  let ?n = "gr_edge_watermark g"
  note ep = edge_partD [OF wf_genD(3) [OF wf]]
  have lt: "i < ?n" using Suc.hyps(2) by (simp add: word_less_nat_alt)
  have s: "unat (i + 1) = Suc (unat i)" using unat_Suc_word [of i ?n] lt by (simp add: word_less_nat_alt)
  have e: "erec g i = Some (er g i)" using mem_range(2) [OF wf_genD(1) [OF wf] lt] by (simp add: erec_in)
  have IH: "valid_edges ?n g (i + 1) a = Some (Some (a + from_on (i + 1) id L))" for a
    by (rule Suc.hyps(1)) (use Suc.hyps(2) s lt in \<open>simp_all add: word_less_nat_alt word_le_nat_alt\<close>)
  have iff: "e_active (er g i) \<longleftrightarrow> i \<in> set L" using ep(5) lt by simp
  have A: "from_on i id L = (if i \<in> set L then 1 else 0) + from_on (i + 1) id L"
    using from_on_step [OF lt, of id L] length_filter_eq [OF ep(4), of i] by simp
  show ?case using lt e iff IH A valid_edge_ok [OF wf, of i] by (subst valid_edges.simps) (cases "i \<in> set L"; simp add: add.assoc)
qed

lemma edge_total:
  assumes wf: "wf_graph g L VF EF"
  shows "length L + length EF = unat (gr_edge_watermark g)"
proof -
  let ?n = "gr_edge_watermark g"
  note ep = edge_partD [OF wf_genD(3) [OF wf]]
  have "set (L @ EF) = set (slots ?n)" "distinct (L @ EF)" using ep(2,3,4,5) slots_simps(3) [of _ ?n] by auto
  then have "length (L @ EF) = length (slots ?n)" using slots_simps(2) [of ?n] by (metis distinct_card)
  then show ?thesis using slots_simps(1) [of ?n] by simp
qed

lemma valid_header_ok:
  assumes wf: "wf_graph g L VF EF"
  shows "valid_header g"
proof -
  note D = wf_genD [OF wf]
  have m: "sized (gr_vertices g) (unat (gr_vertex_capacity g))" "sized (gr_edges g) (unat (gr_edge_capacity g))"
    "gr_vertex_watermark g \<le> gr_vertex_capacity g" "gr_edge_watermark g \<le> gr_edge_capacity g"
    "gr_weighted g \<Longrightarrow> sized (gr_weights g) (unat (gr_weight_capacity g)) \<and> gr_edge_capacity g \<le> gr_weight_capacity g"
    using D(1) by (auto simp: graph_mem_def)
  have "unat (gr_edge_count g) \<le> unat (gr_edge_watermark g)" "unat (gr_vertex_count g) \<le> unat (gr_vertex_watermark g)"
    using D(5,6) edge_total [OF wf] by simp_all
  then show ?thesis
    using m by (auto simp: valid_header_def sized_def word_less_nat_alt word_le_nat_alt not_less unat_eq_zero)
qed

lemma free_lists_ok:
  assumes wf: "wf_graph g L VF EF"
  shows "dv_graph_free_list_len g True = Some (Some (of_nat (length VF)))"
    "dv_graph_free_list_len g False = Some (Some (of_nat (length EF)))"
proof -
  note D = wf_genD [OF wf]
  note vp = vertex_partD [OF D(2)] and ep = edge_partD [OF D(3)] and r = mem_range [OF D(1)]
  show "dv_graph_free_list_len g True = Some (Some (of_nat (length VF)))"
    using free_len_vertices [OF vp(1), of "gr_vertex_watermark g" 0] vp(3) r(1,3) D(5) by (simp add: dv_graph_free_list_len_def)
  show "dv_graph_free_list_len g False = Some (Some (of_nat (length EF)))"
    using free_len_edges [OF ep(1), of "gr_edge_watermark g" 0] ep(3) r(2,4) edge_total [OF wf] by (simp add: dv_graph_free_list_len_def)
qed

lemma is_valid_ok:
  assumes wf: "wf_graph g L VF EF"
  shows "dv_graph_is_valid (Some g) = Some True"
proof -
  note D = wf_genD [OF wf]
  have c: "of_nat (length (live_slots g)) = gr_vertex_count g" "of_nat (length L) = gr_edge_count g"
    using arg_cong [OF vertex_total [OF wf], of "of_nat :: nat \<Rightarrow> u32"] arg_cong [OF D(6), of "of_nat :: nat \<Rightarrow> u32"] by simp_all
  have w: "gr_vertex_count g + of_nat (length VF) = gr_vertex_watermark g" "gr_edge_count g + of_nat (length EF) = gr_edge_watermark g"
    using arg_cong [OF D(5), of "of_nat :: nat \<Rightarrow> u32"] arg_cong [OF edge_total [OF wf], of "of_nat :: nat \<Rightarrow> u32"] c(2) by simp_all
  show ?thesis
    using valid_vertices_ok [OF wf, of 0 0 0 0] valid_edges_ok [OF wf, of 0 0] free_lists_ok [OF wf] valid_header_ok [OF wf] c w
    by (simp add: from_on_start)
qed

end
