(* ===== verification/Graph_Demo.thy ===== *)
theory Graph_Demo
  imports Graph_Check
begin

text \<open>
  A concrete graph on the C heap \<open>bump_libc\<close>: a growable, weighted, directed graph as \<open>dv_graph_init\<close>
  configures it, before its first allocation.
\<close>

definition demo_graph_cfg :: dv_graph_config_t where
  "demo_graph_cfg = \<lparr>gcf_directed = True, gcf_weighted = True, gcf_growable = True, gcf_cache_aligned = False,
     gcf_reject_parallel_edges = False, gcf_reject_self_loops = False, gcf_initial_vertex_capacity = 0,
     gcf_initial_edge_capacity = 0, gcf_max_vertex_capacity = 0, gcf_max_edge_capacity = 0\<rparr>"

definition demo_graph :: "(nat \<times> nat) dv_graph_t" where
  "demo_graph = graph_configured demo_graph_cfg (dv_graph_default_allocator bump_libc)"

lemma demo_graph_cfg_ok: "graph_config_ok demo_graph_cfg None"
  by (simp add: graph_config_ok_def graph_config_status_def demo_graph_cfg_def DV_GRAPH_MAX_CAPACITY_def)

lemma demo_graph_rep: "represents demo_graph Map.empty []"
proof -
  have cs: "graph_config_status demo_graph_cfg = DV_GRAPH_OK" using demo_graph_cfg_ok by (simp add: graph_config_ok_def)
  have al: "allocator_contract (dv_graph_default_allocator bump_libc)"
    using libc_heap.heap_default_contract [OF bump.libc_heap_axioms] by (simp add: graph_default_allocator)
  show ?thesis unfolding demo_graph_def by (rule configured_mem(2) [OF cs al]) (simp_all add: dv_graph_default_allocator_def)
qed

lemma demo_graph_fields: "gr_directed demo_graph" "gr_weighted demo_graph" "config_of demo_graph = config_of (graph_configured demo_graph_cfg null_hooks)"
  "phase_of demo_graph = (1, False, False)"
  by (simp_all add: demo_graph_def graph_configured_def demo_graph_cfg_def zero_graph_def config_of_def phase_of_def)

end
