(* ===== verification/Graph_Iter.thy ===== *)
theory Graph_Iter
  imports Graph_Simulation
begin

text \<open>
  The edge iterators of \<open>src/graph/dv_graph.h\<close>: what a client that calls \<open>next\<close> until it answers false
  sees, and how the version counter moves, which is what ends a walk over a graph that was changed.
\<close>

section \<open>Walking an iterator to its end\<close>

text \<open>At most \<open>n\<close> calls; \<open>None\<close> when the walk is not over by then.\<close>

fun drain :: "nat \<Rightarrow> 'w dv_graph_t \<Rightarrow> dv_graph_edge_iter_t option \<Rightarrow> (dv_graph_edge_ref_t list \<times> dv_graph_edge_iter_t option) option" where
  "drain 0 g it = None"
| "drain (Suc n) g it = do {
     (more, it1, r) \<leftarrow> dv_graph_edge_iter_next g it;
     (if more then do { x \<leftarrow> r; (xs, it2) \<leftarrow> drain n g it1; Some (x # xs, it2) } else Some ([], it1)) }"

text \<open>The entry that an iterator at the vertex hands out for an edge.\<close>

definition entry_of :: "(u32 \<rightharpoonup> u32) \<Rightarrow> bool \<Rightarrow> graph_edge \<Rightarrow> dv_graph_edge_ref_t" where
  "entry_of V incoming x =
     (let s = \<lparr>vh_index = ge_src x, vh_generation = the (V (ge_src x))\<rparr>;
          d = \<lparr>vh_index = ge_dst x, vh_generation = the (V (ge_dst x))\<rparr>
      in \<lparr>ref_edge = ge_handle x, ref_src = s, ref_dst = d, ref_neighbor = (if incoming then s else d),
          ref_weight = (case ge_weight x of None \<Rightarrow> 0 | Some y \<Rightarrow> y)\<rparr>)"

lemma edge_ref_ok:
  assumes wf: "wf_graph g L VF EF" and e: "it_edge it \<in> set L"
    and own: "if it_incoming it then e_dst (er g (it_edge it)) = it_vertex it else e_src (er g (it_edge it)) = it_vertex it"
  shows "edge_ref g it = Some (entry_of (vertex_map g) (it_incoming it) (edge_view g (it_edge it)))"
proof -
  let ?e = "it_edge it"
  note mem = wf_genD(1) [OF wf] and lp = link_partD [OF wf_genD(4) [OF wf]]
  have r: "unat ?e < n_edges g" by (rule wf_range(1) [OF wf e])
  have h: "dv_graph_handle g (e_src (er g ?e)) = Some \<lparr>vh_index = e_src (er g ?e), vh_generation = the (vertex_map g (e_src (er g ?e)))\<rparr>"
    "dv_graph_handle g (e_dst (er g ?e)) = Some \<lparr>vh_index = e_dst (er g ?e), vh_generation = the (vertex_map g (e_dst (er g ?e)))\<rparr>"
    using handle_ok [OF wf] lp(1,2) e by blast+
  show ?thesis
  proof (cases "gr_weighted g")
    case True
    then have w: "gr_weights g \<noteq> None" "unat ?e < length (items (gr_weights g))"
      using r weights_None [OF mem] graph_mem_facts(5,6,9) [OF mem] by (auto simp: sized_def)
    then show ?thesis using own r h True
      by (auto simp: edge_ref_def erec_in arr_get_items entry_of_def edge_view_def edge_handle_def Let_def)
  next
    case False
    then have "gr_weights g = None" using mem by (simp add: graph_mem_def)
    then show ?thesis using own r h False
      by (auto simp: edge_ref_def erec_in entry_of_def edge_view_def edge_handle_def Let_def)
  qed
qed

abbreviation at_edge :: "'w dv_graph_t \<Rightarrow> u32 \<Rightarrow> bool \<Rightarrow> bool \<Rightarrow> u32 \<Rightarrow> dv_graph_edge_iter_t" where
  "at_edge g v incoming both e \<equiv> \<lparr>it_graph = True, it_version = gr_version g, it_vertex = v, it_edge = e, it_incoming = incoming, it_both = both\<rparr>"

lemma drain_chain:
  assumes wf: "wf_graph g L VF EF"
  shows "chain (\<lambda>e. if incoming then next_in (er g e) else next_out (er g e)) h xs NIL \<Longrightarrow> set xs \<subseteq> set L \<Longrightarrow>
    (\<And>e. e \<in> set xs \<Longrightarrow> (if incoming then e_dst (er g e) else e_src (er g e)) = v) \<Longrightarrow>
    drain n g (Some (at_edge g v incoming both NIL)) = Some (ys, it) \<Longrightarrow>
    drain (length xs + n) g (Some (at_edge g v incoming both h)) = Some (map (\<lambda>e. entry_of (vertex_map g) incoming (edge_view g e)) xs @ ys, it)"
proof (induction xs arbitrary: h)
  case (Cons x xs)
  have x: "h = x" "x \<in> set L" "x \<noteq> NIL" using Cons.prems(1,2) wf_range(7) [OF wf] by auto
  have r: "erec g x = Some (er g x)" using wf_range(1) [OF wf x(2)] by (simp add: erec_in)
  have ref: "edge_ref g (at_edge g v incoming both x) = Some (entry_of (vertex_map g) incoming (edge_view g x))"
    using edge_ref_ok [OF wf, of "at_edge g v incoming both x"] x(2) Cons.prems(3) [of x] by (auto split: if_splits)
  have next1: "dv_graph_edge_iter_next g (Some (at_edge g v incoming both x)) = Some (True,
      Some (at_edge g v incoming both (if incoming then next_in (er g x) else next_out (er g x))),
      Some (entry_of (vertex_map g) incoming (edge_view g x)))"
    using x(3) r ref by (simp add: iter_settle_def)
  have "drain (length xs + n) g (Some (at_edge g v incoming both (if incoming then next_in (er g x) else next_out (er g x)))) =
      Some (map (\<lambda>e. entry_of (vertex_map g) incoming (edge_view g e)) xs @ ys, it)"
    using Cons.prems by (intro Cons.IH) auto
  then show ?case unfolding x(1) using next1 by (simp del: dv_graph_edge_iter_next.simps)
qed simp

lemma next_at_end: "incoming \<or> \<not> both \<Longrightarrow>
  dv_graph_edge_iter_next g (Some (at_edge g v incoming both NIL)) = Some (False, Some dv_graph_edge_iter_end, None)"
  by (auto simp: iter_settle_def)

lemma drain_end: "incoming \<or> \<not> both \<Longrightarrow> drain (Suc 0) g (Some (at_edge g v incoming both NIL)) = Some ([], Some dv_graph_edge_iter_end)"
  unfolding drain.simps by (subst next_at_end) simp_all

lemma drain_turn:
  assumes "vrec g v = Some (vr g v)"
  shows "drain (Suc n) g (Some (at_edge g v False True NIL)) = drain (Suc n) g (Some (at_edge g v True True (in_head (vr g v))))"
proof -
  have "iter_settle g (at_edge g v False True NIL) = iter_settle g (at_edge g v True True (in_head (vr g v)))"
    using assms by (cases "in_head (vr g v) = NIL") (simp_all add: iter_settle_def)
  then have "dv_graph_edge_iter_next g (Some (at_edge g v False True NIL)) = dv_graph_edge_iter_next g (Some (at_edge g v True True (in_head (vr g v))))"
    by (simp only: dv_graph_edge_iter_next.simps dv_graph_edge_iter_t.select_convs simp_thms if_False)
  then show ?thesis by (simp only: drain.simps)
qed

lemma begin_ok:
  assumes rep: "represents g V E"
  shows "dv_graph_iter_begin (Some g) h (Some it) incoming both =
    (if V (vh_index h) = Some (vh_generation h)
     then Some (DV_GRAPH_OK, Some (at_edge g (vh_index h) incoming both (if incoming then in_head (vr g (vh_index h)) else out_head (vr g (vh_index h)))))
     else Some (DV_GRAPH_ERR_STALE, Some dv_graph_edge_iter_end))"
proof -
  obtain L VF EF where wf: "wf_graph g L VF EF" and V: "V = vertex_map g" and "E = map (edge_view g) L"
    using representsE [OF rep] by blast
  have lv: "dv_graph_vertex_live g h = Some (V (vh_index h) = Some (vh_generation h))" unfolding V by (rule vertex_live_iff [OF wf])
  show ?thesis
  proof (cases "V (vh_index h) = Some (vh_generation h)")
    case True
    then have "vh_index h \<in> live g {}" by (auto simp: live_vertex_map V)
    then have "vrec g (vh_index h) = Some (vr g (vh_index h))" using wf_range(4) [OF wf] by (simp add: vrec_in)
    then show ?thesis using lv True by simp
  next
    case False
    then show ?thesis using lv by simp
  qed
qed

lemma drain_from:
  assumes rep: "represents g V E" and live: "V v \<noteq> None"
  shows "drain (length (filter (\<lambda>x. ge_src x = v) E) + 1) g (Some (at_edge g v False False (out_head (vr g v)))) =
      Some (map (entry_of V False) (filter (\<lambda>x. ge_src x = v) E), Some dv_graph_edge_iter_end)"
    "drain (length (filter (\<lambda>x. ge_dst x = v) E) + 1) g (Some (at_edge g v True both (in_head (vr g v)))) =
      Some (map (entry_of V True) (filter (\<lambda>x. ge_dst x = v) E), Some dv_graph_edge_iter_end)"
    "drain (length (filter (\<lambda>x. ge_src x = v) E) + (length (filter (\<lambda>x. ge_dst x = v) E) + 1)) g (Some (at_edge g v False True (out_head (vr g v)))) =
      Some (map (entry_of V False) (filter (\<lambda>x. ge_src x = v) E) @ map (entry_of V True) (filter (\<lambda>x. ge_dst x = v) E), Some dv_graph_edge_iter_end)"
proof -
  obtain L VF EF where wf: "wf_graph g L VF EF" and V: "V = vertex_map g" and E: "E = map (edge_view g) L"
    using representsE [OF rep] by blast
  have v: "v \<in> live g {}" using live by (auto simp: live_vertex_map V)
  note lp = link_partD [OF wf_genD(4) [OF wf]]
  let ?os = "owned (\<lambda>e. e_src (er g e)) L v" and ?is = "owned (\<lambda>e. e_dst (er g e)) L v"
  have f: "filter (\<lambda>x. ge_src x = v) E = map (edge_view g) ?os" "filter (\<lambda>x. ge_dst x = v) E = map (edge_view g) ?is"
    by (simp_all add: E owned_def filter_map o_def)
  have c: "chain (\<lambda>e. if False then next_in (er g e) else next_out (er g e)) (out_head (vr g v)) ?os NIL"
    "chain (\<lambda>e. if True then next_in (er g e) else next_out (er g e)) (in_head (vr g v)) ?is NIL"
    using inc_listsD(1) [OF lp(3) v] inc_listsD(1) [OF lp(4) v] by simp_all
  have o: "set ?os \<subseteq> set L" "set ?is \<subseteq> set L" "\<And>e. e \<in> set ?os \<Longrightarrow> (if False then e_dst (er g e) else e_src (er g e)) = v"
    "\<And>e. e \<in> set ?is \<Longrightarrow> (if True then e_dst (er g e) else e_src (er g e)) = v" by (auto simp: owned_def)
  have r: "vrec g v = Some (vr g v)" using wf_range(4) [OF wf v] by (simp add: vrec_in)
  have i: "drain (length ?is + 1) g (Some (at_edge g v True b (in_head (vr g v)))) =
      Some (map (\<lambda>e. entry_of (vertex_map g) True (edge_view g e)) ?is, Some dv_graph_edge_iter_end)" for b
    using drain_chain [OF wf c(2) o(2,4) drain_end, where both = b] by (simp del: drain.simps)
  show "drain (length (filter (\<lambda>x. ge_src x = v) E) + 1) g (Some (at_edge g v False False (out_head (vr g v)))) =
      Some (map (entry_of V False) (filter (\<lambda>x. ge_src x = v) E), Some dv_graph_edge_iter_end)"
    using drain_chain [OF wf c(1) o(1,3) drain_end, where both = False] by (simp add: f V o_def del: drain.simps)
  show "drain (length (filter (\<lambda>x. ge_dst x = v) E) + 1) g (Some (at_edge g v True both (in_head (vr g v)))) =
      Some (map (entry_of V True) (filter (\<lambda>x. ge_dst x = v) E), Some dv_graph_edge_iter_end)"
    using i [of both] by (simp add: f V o_def del: drain.simps)
  have "drain (length ?is + 1) g (Some (at_edge g v False True NIL)) =
      Some (map (\<lambda>e. entry_of (vertex_map g) True (edge_view g e)) ?is, Some dv_graph_edge_iter_end)"
    using i [of True] drain_turn [OF r, of "length ?is"] by (simp del: drain.simps)
  from drain_chain [OF wf c(1) o(1,3) this]
  show "drain (length (filter (\<lambda>x. ge_src x = v) E) + (length (filter (\<lambda>x. ge_dst x = v) E) + 1)) g (Some (at_edge g v False True (out_head (vr g v)))) =
      Some (map (entry_of V False) (filter (\<lambda>x. ge_src x = v) E) @ map (entry_of V True) (filter (\<lambda>x. ge_dst x = v) E), Some dv_graph_edge_iter_end)"
    by (simp add: f V o_def del: drain.simps)
qed

section \<open>The version counter\<close>

text \<open>Whether a call, by its answer, changed the topology; editing a weight does not.\<close>

fun changes :: "graph_op \<Rightarrow> graph_res \<Rightarrow> bool" where
  "changes GAddVertex r = (\<exists>h. r = RVertex DV_GRAPH_OK h)"
| "changes (GRemoveVertex h) r = (r = RStatus DV_GRAPH_OK)"
| "changes (GAddEdge s d x) r = (\<exists>h. r = REdge DV_GRAPH_OK h)"
| "changes (GRemoveEdge h) r = (r = RStatus DV_GRAPH_OK)"
| "changes (GRemoveBetween s d) r = (r = RStatus DV_GRAPH_OK)"
| "changes (GAddVertices n) r = (\<forall>k. r \<noteq> RVertices k [])"
| "changes (GAddEdges specs) r = (\<forall>k. r \<noteq> REdges k [])"
| "changes GClear r = True"
| "changes _ r = False"

text \<open>The version, whether an update phase is open, and whether something changed in it, after a call.\<close>

fun phase_after :: "graph_op \<Rightarrow> graph_res \<Rightarrow> u64 \<times> bool \<times> bool \<Rightarrow> u64 \<times> bool \<times> bool" where
  "phase_after GBegin r (k, open, dirty) = (if open then (k, open, dirty) else (k, True, False))"
| "phase_after GCommit r (k, open, dirty) = (if open then (if dirty then k + 1 else k, False, False) else (k, open, dirty))"
| "phase_after GReset r (k, open, dirty) = (k + 1, False, False)"
| "phase_after op r (k, open, dirty) =
     (if changes op r then (if open then (k, True, True) else (k + 1, False, False)) else (k, open, dirty))"

definition phase_clean :: "'w dv_graph_t \<Rightarrow> bool" where
  "phase_clean g \<longleftrightarrow> gr_in_update g \<or> \<not> gr_update_dirty g"

lemma touched_phase: "phase_clean g \<Longrightarrow> phase_of (dv_graph_touch g) = (if gr_in_update g then (gr_version g, True, True) else (gr_version g + 1, False, False))"
  by (auto simp: phase_of_def dv_graph_touch_def phase_clean_def)

lemma closed_clean: "phase_clean g \<Longrightarrow> closed_phase b (phase_of g) =
  (if b then (if gr_in_update g then (gr_version g, True, True) else (gr_version g + 1, False, False)) else phase_of g)"
  by (auto simp: phase_of_def closed_phase_def phase_clean_def)

definition phase_steps :: "'w dv_graph_t \<Rightarrow> graph_op \<Rightarrow> 'w \<Rightarrow> bool" where
  "phase_steps g op w \<longleftrightarrow> (\<exists>r g' w'. graph_step g op w = Some (r, g', w') \<and> phase_of g' = phase_after op r (phase_of g))"

lemma phase_stepsI: "graph_step g op w = Some (r, g', w') \<Longrightarrow> phase_of g' = phase_after op r (phase_of g) \<Longrightarrow> phase_steps g op w"
  unfolding phase_steps_def by blast

lemma phase_after_plain:
  "op \<noteq> GBegin \<Longrightarrow> op \<noteq> GCommit \<Longrightarrow> op \<noteq> GReset \<Longrightarrow> phase_after op r (phase_of g) =
    (if changes op r then (if gr_in_update g then (gr_version g, True, True) else (gr_version g + 1, False, False)) else phase_of g)"
  by (cases op) (simp_all add: phase_of_def del: changes.simps)

lemma phase_kept: "graph_step g op w = Some (r, g', w') \<Longrightarrow> phase_of g' = phase_of g \<Longrightarrow>
  op \<noteq> GBegin \<Longrightarrow> op \<noteq> GCommit \<Longrightarrow> op \<noteq> GReset \<Longrightarrow> \<not> changes op r \<Longrightarrow> phase_steps g op w"
  by (rule phase_stepsI, assumption) (simp add: phase_after_plain)

lemma phase_touched: "graph_step g op w = Some (r, g', w') \<Longrightarrow> phase_of g' = phase_of (dv_graph_touch g) \<Longrightarrow> phase_clean g \<Longrightarrow>
  op \<noteq> GBegin \<Longrightarrow> op \<noteq> GCommit \<Longrightarrow> op \<noteq> GReset \<Longrightarrow> changes op r \<Longrightarrow> phase_steps g op w"
  by (rule phase_stepsI, assumption) (simp add: phase_after_plain touched_phase)

lemma phase_batch: "graph_step g op w = Some (r, g', w') \<Longrightarrow> phase_of g' = closed_phase (changes op r) (phase_of g) \<Longrightarrow> phase_clean g \<Longrightarrow>
  op \<noteq> GBegin \<Longrightarrow> op \<noteq> GCommit \<Longrightarrow> op \<noteq> GReset \<Longrightarrow> phase_steps g op w"
  by (rule phase_stepsI, assumption) (simp add: phase_after_plain closed_clean)

named_theorems graph_phase \<open>how each call moves the version\<close>

lemma ph_add_vertex [graph_phase]: "represents g V E \<Longrightarrow> phase_clean g \<Longrightarrow> phase_steps g GAddVertex w"
proof (rule add_vertex_ok [of g V E w], assumption, goal_cases)
  case (1 st g' h w')
  have s: "graph_step g GAddVertex w = Some (RVertex st h, g', w')" using 1(3) by (simp del: dv_graph_add_vertex.simps)
  show ?case
  proof (cases "st = DV_GRAPH_OK")
    case True
    then have "phase_of g' = phase_of (dv_graph_touch g)" using 1(7) by blast
    then show ?thesis using True by (intro phase_touched [OF s _ 1(2)]) simp_all
  next
    case False
    then have "phase_of g' = phase_of g" using 1(6) by blast
    then show ?thesis using False by (intro phase_kept [OF s]) simp_all
  qed
qed

lemma ph_remove_vertex [graph_phase]: "represents g V E \<Longrightarrow> phase_clean g \<Longrightarrow> phase_steps g (GRemoveVertex h) w"
proof (rule remove_vertex_ok [of g V E h], assumption, goal_cases)
  case (1 st g')
  have s: "graph_step g (GRemoveVertex h) w = Some (RStatus st, g', w)" using 1(3) by (simp del: dv_graph_remove_vertex.simps)
  show ?case
  proof (cases "V (vh_index h) = Some (vh_generation h)")
    case True
    then have "phase_of g' = phase_of (dv_graph_touch g)" "st = DV_GRAPH_OK" using 1(6) by blast+
    then show ?thesis by (intro phase_touched [OF s _ 1(2)]) simp_all
  next
    case False
    then have "g' = g" "st = DV_GRAPH_ERR_STALE" using 1(5) by blast+
    then show ?thesis by (intro phase_kept [OF s]) simp_all
  qed
qed

lemma ph_add_edge [graph_phase]: "represents g V E \<Longrightarrow> phase_clean g \<Longrightarrow> phase_steps g (GAddEdge s d x) w"
proof (rule add_edge_ok [of g V E s d x w], assumption, goal_cases)
  case (1 st g' h w')
  have s: "graph_step g (GAddEdge s d x) w = Some (REdge st h, g', w')" using 1(3) by (simp del: dv_graph_add_edge.simps)
  show ?case
  proof (cases "st = DV_GRAPH_OK")
    case True
    then have "phase_of g' = phase_of (dv_graph_touch g)" using 1(8) by blast
    then show ?thesis using True by (intro phase_touched [OF s _ 1(2)]) simp_all
  next
    case False
    then have "phase_of g' = phase_of g" using 1(7) by blast
    then show ?thesis using False by (intro phase_kept [OF s]) simp_all
  qed
qed

lemma ph_remove_edge [graph_phase]: "represents g V E \<Longrightarrow> phase_clean g \<Longrightarrow> phase_steps g (GRemoveEdge h) w"
proof (rule remove_edge_ok [of g V E h], assumption, goal_cases)
  case (1 st g')
  have s: "graph_step g (GRemoveEdge h) w = Some (RStatus st, g', w)" using 1(3) by (simp del: dv_graph_remove_edge.simps)
  show ?case
  proof (cases "h \<in> ge_handle ` set E")
    case True
    then have "phase_of g' = phase_of (dv_graph_touch g)" "st = DV_GRAPH_OK" using 1(6) by blast+
    then show ?thesis by (intro phase_touched [OF s _ 1(2)]) simp_all
  next
    case False
    then have "g' = g" "st = DV_GRAPH_ERR_STALE" using 1(5) by blast+
    then show ?thesis by (intro phase_kept [OF s]) simp_all
  qed
qed

lemma ph_remove_between [graph_phase]: "represents g V E \<Longrightarrow> phase_clean g \<Longrightarrow> phase_steps g (GRemoveBetween a b) w"
proof (rule remove_edge_between_ok [of g V E a b], assumption, goal_cases)
  case (1 st g')
  have s: "graph_step g (GRemoveBetween a b) w = Some (RStatus st, g', w)" using 1(3) by (simp del: dv_graph_remove_edge_between.simps)
  consider "st \<noteq> DV_GRAPH_OK" "g' = g" | "st = DV_GRAPH_OK" "phase_of g' = phase_of (dv_graph_touch g)"
    using 1(5,6) by (cases "V (vh_index a) = Some (vh_generation a) \<and> V (vh_index b) = Some (vh_generation b)") (auto split: if_splits)
  then show ?case
  proof cases
    case 1
    then show ?thesis by (intro phase_kept [OF s]) simp_all
  next
    case 2
    then show ?thesis by (intro phase_touched [OF s _ \<open>phase_clean g\<close>]) simp_all
  qed
qed

lemma ph_add_vertices [graph_phase]: "represents g V E \<Longrightarrow> phase_clean g \<Longrightarrow> phase_steps g (GAddVertices n) w"
proof (cases "n = 0")
  case True
  then show ?thesis by (intro phase_kept [of g _ w "RVertices 0 []" g w]) simp_all
next
  case False
  assume a: "represents g V E" "phase_clean g"
  show ?thesis
  proof (rule add_vertices_ok [OF a(1), of n w], goal_cases)
    case (1 k g' hs w')
    have "graph_step g (GAddVertices n) w = Some (RVertices k hs, g', w')" using 1(1) by (simp del: dv_graph_add_vertices.simps)
    then show ?case by (rule phase_batch [OF _ _ a(2)]) (use 1(7) False in simp_all)
  qed
qed

lemma ph_add_edges [graph_phase]: "represents g V E \<Longrightarrow> phase_clean g \<Longrightarrow> length specs < 2 ^ 32 \<Longrightarrow> phase_steps g (GAddEdges specs) w"
proof (cases "(of_nat (length specs) :: u32) = 0")
  case True
  then show ?thesis by (intro phase_kept [of g _ w "REdges 0 []" g w]) simp_all
next
  case False
  assume a: "represents g V E" "phase_clean g" "length specs < 2 ^ 32"
  show ?thesis
  proof (rule add_edges_ok [OF a(1), of "of_nat (length specs)" specs w], goal_cases)
    case 1
    then show ?case using a(3) by (simp add: unat_of_nat)
  next
    case (2 k g' hs w')
    have "graph_step g (GAddEdges specs) w = Some (REdges k hs, g', w')" using 2(1) by (simp del: dv_graph_add_edges.simps)
    then show ?case by (rule phase_batch [OF _ _ a(2)]) (use 2(7) False in simp_all)
  qed
qed

lemma ph_clear [graph_phase]: "represents g V E \<Longrightarrow> phase_clean g \<Longrightarrow> phase_steps g GClear w"
proof (rule clear_ok [of g V E], assumption, goal_cases)
  case (1 g')
  have s: "graph_step g GClear w = Some (RUnit, g', w)" using 1(3) by (simp del: dv_graph_clear.simps)
  show ?case by (rule phase_touched [OF s 1(6,2)]) simp_all
qed

lemma ph_reset [graph_phase]: "represents g V E \<Longrightarrow> phase_steps g GReset w"
proof (rule reset_ok [of g V E w], assumption, goal_cases)
  case (1 st g' w')
  have s: "graph_step g GReset w = Some (RStatus st, g', w')" using 1(2) by (simp add: with_graph_def del: dv_graph_reset.simps)
  show ?case by (rule phase_stepsI [OF s]) (use 1(5) in \<open>simp add: phase_of_def\<close>)
qed

lemma ph_update [graph_phase]: "phase_steps g GBegin w" "phase_steps g GCommit w"
  by (auto simp: phase_steps_def phase_of_def Let_def)

lemma ph_set_weight [graph_phase]: "represents g V E \<Longrightarrow> phase_steps g (GSetWeight h x) w"
proof (rule set_edge_weight_ok [of g V E h x], assumption, goal_cases)
  case (1 st g')
  have s: "graph_step g (GSetWeight h x) w = Some (RStatus st, g', w)" using 1(2) by (simp del: dv_graph_set_edge_weight.simps)
  show ?case by (rule phase_kept [OF s 1(4)]) simp_all
qed

lemma ph_kept:
  assumes f: "\<exists>st g' w'. f = Some (st, Some g', w') \<and> represents g' V E \<and> config_of g' = c \<and> phase_of g' = phase_of g \<and> P st g' w'"
    and s: "graph_step g op w = with_graph RStatus f" and op: "op \<noteq> GBegin" "op \<noteq> GCommit" "op \<noteq> GReset" "\<And>st. \<not> changes op (RStatus st)"
  shows "phase_steps g op w"
proof -
  obtain st g' w' where r: "f = Some (st, Some g', w')" "phase_of g' = phase_of g" using f by blast
  then have "graph_step g op w = Some (RStatus st, g', w')" using s by (simp add: with_graph_def)
  then show ?thesis by (rule phase_kept [OF _ r(2) op])
qed

lemma ph_storage [graph_phase]:
  assumes rep: "represents g V E"
  shows "phase_steps g (GReserveVertices n) w" "phase_steps g (GReserveEdges n) w" "phase_steps g GReserveTraversal w" "phase_steps g GShrink w"
  by (rule ph_kept [OF reserve_vertices_ok [OF rep]] ph_kept [OF reserve_edges_ok [OF rep]]
    ph_kept [OF reserve_traversal_ok [OF rep]] ph_kept [OF shrink_to_fit_ok [OF rep]]; simp)+

lemma ph_query [graph_phase]:
  assumes rep: "represents g V E"
  shows "phase_steps g (GFind s d) w" "phase_steps g (GVertexValid v) w" "phase_steps g (GEdgeValid e) w" "phase_steps g (GOutDegree v) w"
    "phase_steps g (GInDegree v) w" "phase_steps g (GDegree v) w" "phase_steps g (GHasEdge s d) w" "phase_steps g GVertexCount w" "phase_steps g GEdgeCount w"
proof -
  note q = phase_kept [where g' = g and g = g and w = w and w' = w, OF _ refl]
  obtain st h where f: "dv_graph_find_edge (Some g) s d = Some (st, h)" using find_edge_ok [OF rep, of s d] by blast
  show "phase_steps g (GFind s d) w" by (rule q [of _ "REdge st h"]) (use f in \<open>simp_all del: dv_graph_find_edge.simps\<close>)
  show "phase_steps g (GHasEdge s d) w"
    by (rule q [of _ "RBool (st = DV_GRAPH_OK)"]) (use f in \<open>simp_all add: dv_graph_has_edge_def del: dv_graph_find_edge.simps\<close>)
  show "phase_steps g (GVertexValid v) w" by (rule q) (use vertex_valid_ok [OF rep, of v] in \<open>simp_all del: dv_graph_vertex_valid.simps\<close>)
  show "phase_steps g (GEdgeValid e) w" by (rule q) (use edge_valid_ok [OF rep, of e] in \<open>simp_all del: dv_graph_edge_valid.simps\<close>)
  show "phase_steps g (GOutDegree v) w" "phase_steps g (GInDegree v) w" "phase_steps g (GDegree v) w"
    by (rule q; use degree_ok [OF rep, of v] in simp)+
  show "phase_steps g GVertexCount w" "phase_steps g GEdgeCount w" by (rule q; simp)+
qed

lemma ph_reachable [graph_phase]: "represents g V E \<Longrightarrow> phase_steps g (GReachable a b) w"
proof -
  assume rep: "represents g V E"
  obtain st g' r w' where f: "dv_graph_reachable (Some g) a b (Some False) w = Some (st, Some g', Some r, w')" "phase_of g' = phase_of g"
    using reachable_ok [OF rep, of a b False w] by blast
  have s: "graph_step g (GReachable a b) w = Some (RReach st r, g', w')" using f(1) by (simp del: dv_graph_reachable.simps)
  show ?thesis by (rule phase_kept [OF s f(2)]) simp_all
qed

lemma graph_step_phase: "represents g V E \<Longrightarrow> phase_clean g \<Longrightarrow> graph_op_ok op \<Longrightarrow> phase_steps g op w"
  by (cases op) (simp_all add: graph_phase)

end
