(* ===== verification/Search_Depth.thy ===== *)
theory Search_Depth
  imports Search_Order
begin

text \<open>
  Depth first search without the memory: the recursive walk, given by the list of visited vertices with
  their depths as it grows, and the same walk with an explicit stack of vertices and neighbours still to try.
\<close>

section \<open>The recursive walk\<close>

text \<open>\<open>n\<close> bounds the nesting of the recursion.\<close>

fun dfs_visit :: "('v \<Rightarrow> 'v list) \<Rightarrow> nat \<Rightarrow> nat \<Rightarrow> ('v \<times> nat) list \<Rightarrow> 'v \<Rightarrow> ('v \<times> nat) list" where
  "dfs_visit nb 0 d Q v = Q"
| "dfs_visit nb (Suc n) d Q v =
     (if v \<in> fst ` set Q then Q else foldl (dfs_visit nb n (d + 1)) (Q @ [(v, d)]) (nb v))"

definition dfs_order :: "('v \<Rightarrow> 'v list) \<Rightarrow> nat \<Rightarrow> 'v \<Rightarrow> ('v \<times> nat) list" where
  "dfs_order nb n s = dfs_visit nb n 0 [] s"

lemma dfs_visit_old: "v \<in> fst ` set Q \<Longrightarrow> dfs_visit nb n d Q v = Q"
  by (cases n) auto

lemma foldl_prefix:
  assumes "\<And>Q v. \<exists>ys. f Q v = Q @ ys" shows "\<exists>ys. foldl f Q vs = Q @ ys"
proof (induction vs arbitrary: Q)
  case (Cons v vs)
  obtain ys where "f Q v = Q @ ys" using assms by blast
  moreover obtain zs where "foldl f (f Q v) vs = f Q v @ zs" using Cons by blast
  ultimately show ?case by simp
qed simp

lemma dfs_visit_prefix: "\<exists>ys. dfs_visit nb n d Q v = Q @ ys"
proof (induction n arbitrary: d Q v)
  case (Suc n)
  obtain ys where "foldl (dfs_visit nb n (d + 1)) (Q @ [(v, d)]) (nb v) = (Q @ [(v, d)]) @ ys"
    using foldl_prefix [of "dfs_visit nb n (d + 1)", OF Suc.IH] by blast
  then show ?case by auto
qed simp

lemma dfs_visit_distinct: "distinct (map fst Q) \<Longrightarrow> distinct (map fst (dfs_visit nb n d Q v))"
proof (induction n arbitrary: d Q v)
  case (Suc n)
  have "distinct (map fst Q) \<Longrightarrow> distinct (map fst (foldl (dfs_visit nb n (d + 1)) Q vs))" for Q vs
    by (induction vs arbitrary: Q) (auto intro: Suc.IH)
  then show ?case using Suc.prems by auto
qed simp

section \<open>Enough nesting\<close>

text \<open>\<open>n\<close> is at least the number of vertices of \<open>U\<close> not visited yet.\<close>

definition left_in :: "'v set \<Rightarrow> ('v \<times> nat) list \<Rightarrow> nat \<Rightarrow> bool" where
  "left_in U Q n \<longleftrightarrow> card (U - fst ` set Q) \<le> n"

lemma left_in_more: "finite U \<Longrightarrow> left_in U Q n \<Longrightarrow> left_in U (Q @ ys) n"
  unfolding left_in_def by (erule order_trans [rotated]) (auto intro: card_mono)

lemma left_in_visit: "finite U \<Longrightarrow> left_in U Q n \<Longrightarrow> left_in U (dfs_visit nb m d Q v) n"
  using dfs_visit_prefix [of nb m d Q v] left_in_more by metis

lemma left_in_new:
  assumes "finite U" "v \<in> U" "v \<notin> fst ` set Q" "left_in U Q (Suc n)"
  shows "left_in U (Q @ [(v, d)]) n"
proof -
  have "U - fst ` set (Q @ [(v, d)]) = (U - fst ` set Q) - {v}" by auto
  then show ?thesis using assms by (simp add: left_in_def card_Diff_singleton)
qed

lemma left_in_none: "finite U \<Longrightarrow> v \<in> U \<Longrightarrow> left_in U Q 0 \<Longrightarrow> v \<in> fst ` set Q"
  by (auto simp: left_in_def)

lemma foldl_same:
  assumes "\<And>Q v. P Q \<Longrightarrow> v \<in> set vs \<Longrightarrow> f Q v = g Q v \<and> P (f Q v)" "P Q"
  shows "foldl f Q vs = foldl g Q vs"
  using assms
proof (induction vs arbitrary: Q)
  case (Cons v vs)
  have 1: "f Q v = g Q v" "P (g Q v)" using Cons.prems(1) [of Q v] Cons.prems(2) by auto
  have "foldl f (g Q v) vs = foldl g (g Q v) vs" by (rule Cons.IH [OF Cons.prems(1) 1(2)]) simp_all
  then show ?case using 1(1) by simp
qed simp

lemma dfs_visit_enough:
  assumes U: "finite U" "\<And>u. u \<in> U \<Longrightarrow> set (nb u) \<subseteq> U"
  shows "left_in U Q n \<Longrightarrow> v \<in> U \<Longrightarrow> n \<le> m \<Longrightarrow> dfs_visit nb m d Q v = dfs_visit nb n d Q v"
proof (induction n arbitrary: m d Q v)
  case 0
  then show ?case using dfs_visit_old [OF left_in_none [OF U(1) 0(2,1)]] by simp
next
  case (Suc n)
  then obtain k where m: "m = Suc k" "n \<le> k" by (cases m) auto
  show ?case
  proof (cases "v \<in> fst ` set Q")
    case False
    have "foldl (dfs_visit nb k (d + 1)) (Q @ [(v, d)]) (nb v) = foldl (dfs_visit nb n (d + 1)) (Q @ [(v, d)]) (nb v)"
    proof (rule foldl_same [where P = "\<lambda>Q. left_in U Q n"])
      show "left_in U (Q @ [(v, d)]) n" by (rule left_in_new [OF U(1) Suc.prems(2) False Suc.prems(1)])
      fix Q w assume Q: "left_in U Q n" and "w \<in> set (nb v)"
      then have "w \<in> U" using U(2) Suc.prems(2) by blast
      then show "dfs_visit nb k (d + 1) Q w = dfs_visit nb n (d + 1) Q w \<and> left_in U (dfs_visit nb k (d + 1) Q w) n"
        using Suc.IH [OF Q _ m(2)] left_in_visit [OF U(1) Q] by blast
    qed
    then show ?thesis using m(1) False by simp
  qed (simp add: dfs_visit_old)
qed

lemma dfs_children_enough:
  assumes U: "finite U" "\<And>u. u \<in> U \<Longrightarrow> set (nb u) \<subseteq> U" and l: "left_in U Q m" and vs: "set vs \<subseteq> U"
  shows "foldl (dfs_visit nb m d) Q vs = foldl (dfs_visit nb (Suc m) d) Q vs"
proof (rule foldl_same [where P = "\<lambda>Q. left_in U Q m"])
  fix Q w assume Q: "left_in U Q m" and "w \<in> set vs"
  then have "w \<in> U" using vs by blast
  then show "dfs_visit nb m d Q w = dfs_visit nb (Suc m) d Q w \<and> left_in U (dfs_visit nb m d Q w) m"
    using dfs_visit_enough [where nb = nb and v = w and m = "Suc m" and d = d, OF U Q] left_in_visit [OF U(1) Q] by auto
qed (rule l)

section \<open>What the walk visits\<close>

text \<open>\<open>ys\<close> is what a walk from one of \<open>vs\<close> at depth \<open>d\<close> adds to \<open>Q\<close>.\<close>

definition walked :: "('v \<Rightarrow> 'v list) \<Rightarrow> nat \<Rightarrow> 'v set \<Rightarrow> ('v \<times> nat) list \<Rightarrow> ('v \<times> nat) list \<Rightarrow> bool" where
  "walked nb d S Q ys \<longleftrightarrow> S \<subseteq> fst ` set (Q @ ys) \<and>
     (\<forall>x \<in> set ys. set (nb (fst x)) \<subseteq> fst ` set (Q @ ys) \<and>
        (\<exists>u \<in> S. d \<le> snd x \<and> ((\<lambda>u v. v \<in> set (nb u)) ^^ (snd x - d)) u (fst x)))"

lemma walkedD:
  assumes "walked nb d S Q ys" "x \<in> set ys"
  shows "set (nb (fst x)) \<subseteq> fst ` set (Q @ ys)"
    "\<exists>u \<in> S. d \<le> snd x \<and> ((\<lambda>u v. v \<in> set (nb u)) ^^ (snd x - d)) u (fst x)"
  using assms unfolding walked_def by simp_all

lemma walked_append:
  assumes "walked nb d S Q ys" "walked nb d T (Q @ ys) zs"
  shows "walked nb d (S \<union> T) Q (ys @ zs)"
proof -
  have sub: "fst ` set (Q @ ys) \<subseteq> fst ` set (Q @ ys @ zs)" by auto
  have a: "S \<subseteq> fst ` set (Q @ ys @ zs)" "T \<subseteq> fst ` set (Q @ ys @ zs)" using assms sub unfolding walked_def by auto
  have b: "set (nb (fst x)) \<subseteq> fst ` set (Q @ ys @ zs)" if "x \<in> set ys \<union> set zs" for x
    using assms that sub unfolding walked_def append_assoc by blast
  have c: "\<exists>u \<in> S \<union> T. d \<le> snd x \<and> ((\<lambda>u v. v \<in> set (nb u)) ^^ (snd x - d)) u (fst x)" if "x \<in> set ys \<union> set zs" for x
    using assms that unfolding walked_def by blast
  show ?thesis using a b c unfolding walked_def by (simp add: ball_Un)
qed

lemma dfs_visit_walked:
  assumes U: "finite U" "\<And>u. u \<in> U \<Longrightarrow> set (nb u) \<subseteq> U"
  shows "left_in U Q n \<Longrightarrow> v \<in> U \<Longrightarrow> \<exists>ys. dfs_visit nb n d Q v = Q @ ys \<and> walked nb d {v} Q ys"
proof (induction n arbitrary: d Q v)
  case 0
  then show ?case using left_in_none [OF U(1) 0(2,1)] by (simp add: walked_def)
next
  case (Suc n)
  have many: "\<exists>ys. foldl (dfs_visit nb n (d + 1)) Q vs = Q @ ys \<and> walked nb (d + 1) (set vs) Q ys"
    if "left_in U Q n" "set vs \<subseteq> U" for Q vs
    using that
  proof (induction vs arbitrary: Q)
    case (Cons w vs)
    obtain ys where ys: "dfs_visit nb n (d + 1) Q w = Q @ ys" "walked nb (d + 1) {w} Q ys"
      using Suc.IH [OF Cons.prems(1), of w "d + 1"] Cons.prems(2) by auto
    obtain zs where zs: "foldl (dfs_visit nb n (d + 1)) (Q @ ys) vs = (Q @ ys) @ zs" "walked nb (d + 1) (set vs) (Q @ ys) zs"
      using Cons.IH [OF left_in_more [OF U(1) Cons.prems(1)], of ys] Cons.prems(2) by auto
    have "walked nb (d + 1) (set (w # vs)) Q (ys @ zs)" using walked_append [OF ys(2) zs(2)] by simp
    moreover have "foldl (dfs_visit nb n (d + 1)) Q (w # vs) = Q @ ys @ zs" using ys(1) zs(1) by simp
    ultimately show ?case by blast
  qed (simp add: walked_def)
  show ?case
  proof (cases "v \<in> fst ` set Q")
    case True
    then show ?thesis by (simp add: walked_def)
  next
    case False
    obtain ys where ys: "foldl (dfs_visit nb n (d + 1)) (Q @ [(v, d)]) (nb v) = (Q @ [(v, d)]) @ ys"
      "walked nb (d + 1) (set (nb v)) (Q @ [(v, d)]) ys"
      using many [OF left_in_new [OF U(1) Suc.prems(2) False Suc.prems(1)] U(2) [OF Suc.prems(2)]] by blast
    let ?R = "\<lambda>u v. v \<in> set (nb u)"
    have deep: "d \<le> snd x \<and> (?R ^^ (snd x - d)) v (fst x)" if x: "x \<in> set ys" for x
    proof -
      obtain u where u: "u \<in> set (nb v)" "d + 1 \<le> snd x" "(?R ^^ (snd x - (d + 1))) u (fst x)"
        using walkedD(2) [OF ys(2) x] by (elim bexE conjE) (rule that)
      have "(?R ^^ Suc (snd x - (d + 1))) v (fst x)" by (rule relpowp_Suc_I2 [OF u(1,3)])
      then show ?thesis using u(2) by (simp add: Suc_diff_Suc)
    qed
    have "walked nb d {v} Q ((v, d) # ys)"
    proof -
      have s: "Q @ (v, d) # ys = (Q @ [(v, d)]) @ ys" by simp
      have "v \<in> fst ` set (Q @ (v, d) # ys)" by simp
      moreover have "set (nb v) \<subseteq> fst ` set (Q @ (v, d) # ys)" "\<And>x. x \<in> set ys \<Longrightarrow> set (nb (fst x)) \<subseteq> fst ` set (Q @ (v, d) # ys)"
        using ys(2) unfolding walked_def s by blast+
      ultimately show ?thesis using deep unfolding walked_def by simp
    qed
    moreover have "dfs_visit nb (Suc n) d Q v = Q @ (v, d) # ys" using False ys(1) by simp
    ultimately show ?thesis by blast
  qed
qed

lemma dfs_order_done:
  assumes U: "finite U" "s \<in> U" "\<And>u. u \<in> U \<Longrightarrow> set (nb u) \<subseteq> U" "card U \<le> n"
  shows "distinct (map fst (dfs_order nb n s))" "fst ` set (dfs_order nb n s) = {v. (\<lambda>u v. v \<in> set (nb u))\<^sup>*\<^sup>* s v}"
    "(v, d) \<in> set (dfs_order nb n s) \<Longrightarrow> ((\<lambda>u v. v \<in> set (nb u)) ^^ d) s v"
proof -
  let ?R = "\<lambda>u v. v \<in> set (nb u)" and ?Q = "dfs_order nb n s"
  show "distinct (map fst ?Q)" by (simp add: dfs_order_def dfs_visit_distinct)
  have "left_in U [] n" using U(4) by (simp add: left_in_def)
  then have w: "walked nb 0 {s} [] ?Q"
    using dfs_visit_walked [where U = U and nb = nb, OF U(1,3) _ U(2), of "[]" n 0] by (auto simp: dfs_order_def)
  then have path: "(?R ^^ snd x) s (fst x)" if "x \<in> set ?Q" for x using that unfolding walked_def by auto
  then show "(v, d) \<in> set ?Q \<Longrightarrow> (?R ^^ d) s v" by force
  have "v \<in> fst ` set ?Q" if "?R\<^sup>*\<^sup>* s v" for v
    using that
  proof induction
    case base
    show ?case using w by (simp add: walked_def)
  next
    case (step u v)
    then obtain x where "x \<in> set ?Q" "fst x = u" by auto
    then show ?case using w step(2) unfolding walked_def by auto
  qed
  then show "fst ` set ?Q = {v. ?R\<^sup>*\<^sup>* s v}" using path by (auto dest: relpowp_imp_rtranclp)
qed

section \<open>The walk with a stack\<close>

text \<open>The frames from the top: a vertex and the neighbours still to try. What is left to do, from the top down.\<close>

fun finish :: "('v \<Rightarrow> 'v list) \<Rightarrow> nat \<Rightarrow> ('v \<times> 'v list) list \<Rightarrow> ('v \<times> nat) list \<Rightarrow> ('v \<times> nat) list" where
  "finish nb n [] Q = Q"
| "finish nb n (x # fs) Q = finish nb n fs (foldl (dfs_visit nb n (length fs + 1)) Q (snd x))"

lemma finish_prefix: "\<exists>ys. finish nb n fs Q = Q @ ys"
proof (induction fs arbitrary: Q)
  case (Cons x fs)
  obtain ys where "foldl (dfs_visit nb n (length fs + 1)) Q (snd x) = Q @ ys"
    using foldl_prefix [of "dfs_visit nb n (length fs + 1)", OF dfs_visit_prefix] by blast
  then show ?case using Cons [of "Q @ ys"] by auto
qed simp

text \<open>The three moves of the loop.\<close>

lemma finish_pop: "finish nb n ((v, []) # fs) Q = finish nb n fs Q"
  by simp

lemma finish_skip: "u \<in> fst ` set Q \<Longrightarrow> finish nb n ((v, u # us) # fs) Q = finish nb n ((v, us) # fs) Q"
  by (simp add: dfs_visit_old)

lemma finish_push:
  assumes U: "finite U" "\<And>u. u \<in> U \<Longrightarrow> set (nb u) \<subseteq> U" and l: "left_in U Q n" and u: "u \<in> U" "u \<notin> fst ` set Q"
  shows "finish nb n ((v, u # us) # fs) Q = finish nb n ((u, nb u) # (v, us) # fs) (Q @ [(u, length fs + 1)])"
proof (cases n)
  case 0
  then show ?thesis using left_in_none [OF U(1) u(1)] l u(2) by simp
next
  case (Suc m)
  have "left_in U (Q @ [(u, length fs + 1)]) m" by (rule left_in_new [OF U(1) u]) (use l Suc in simp)
  note dfs_children_enough [where nb = nb and d = "length fs + 1 + 1", OF U this U(2) [OF u(1)]]
  then show ?thesis using u(2) Suc by simp
qed

text \<open>The walk is what is left to do with the start visited and on the stack.\<close>

lemma dfs_order_frames:
  assumes U: "finite U" "\<And>u. u \<in> U \<Longrightarrow> set (nb u) \<subseteq> U" and s: "s \<in> U" and l: "left_in U [] n"
  shows "dfs_order nb n s = (s, 0) # drop 1 (finish nb n [(s, nb s)] [(s, 0)])"
proof -
  have "dfs_order nb n s = finish nb n [(s, nb s)] [(s, 0)]"
  proof (cases n)
    case 0
    then show ?thesis using left_in_none [OF U(1) s, of "[]"] l by simp
  next
    case (Suc m)
    have "left_in U [(s, 0)] m" using left_in_new [OF U(1) s, of "[]" m 0] l Suc by simp
    note dfs_children_enough [where nb = nb and d = 1, OF U this U(2) [OF s]]
    then show ?thesis by (simp add: Suc dfs_order_def)
  qed
  moreover obtain ys where "finish nb n [(s, nb s)] [(s, 0)] = [(s, 0)] @ ys" using finish_prefix by blast
  ultimately show ?thesis by simp
qed

end
