(* ===== verification/Graph_Dfs.thy ===== *)
theory Graph_Dfs
  imports Graph_Bfs Search_Depth
begin

text \<open>
  The depth first traversal of \<open>src/graph/dv_graph.c\<close> follows the recursive walk of \<open>Search_Depth\<close>. Its stack is
  the work array: a vertex and a cursor, the next edge to try with a tag in the top bit while the walk is on
  the in-list.
\<close>

section \<open>Cursors\<close>

text \<open>Below \<open>DV_GRAPH_MAX_CAPACITY\<close> an index leaves the tag bit free, and tagged it is not the end mark.\<close>

lemma cursor_bits:
  assumes "e < DV_GRAPH_MAX_CAPACITY"
  shows "e AND DV_GRAPH_CURSOR_IN = 0" "e AND DV_GRAPH_CURSOR_MASK = e" "(e OR DV_GRAPH_CURSOR_IN) AND DV_GRAPH_CURSOR_IN \<noteq> 0"
    "(e OR DV_GRAPH_CURSOR_IN) AND DV_GRAPH_CURSOR_MASK = e" "e OR DV_GRAPH_CURSOR_IN \<noteq> NIL" "e \<noteq> NIL"
proof -
  have m: "DV_GRAPH_CURSOR_MASK = mask 31" by (simp add: DV_GRAPH_CURSOR_MASK_def mask_eq_exp_minus_1)
  have "unat e < 2 ^ 31" using assms by (simp add: DV_GRAPH_MAX_CAPACITY_def word_less_nat_alt)
  then have "take_bit 31 e = e" by (simp add: word_unat_eq_iff unsigned_take_bit_eq take_bit_nat_eq_self)
  then show 2: "e AND DV_GRAPH_CURSOR_MASK = e" unfolding m by (simp add: take_bit_eq_mask)
  have im: "DV_GRAPH_CURSOR_IN AND DV_GRAPH_CURSOR_MASK = 0" by (simp add: DV_GRAPH_CURSOR_IN_def DV_GRAPH_CURSOR_MASK_def)
  have "e AND DV_GRAPH_CURSOR_IN = (e AND DV_GRAPH_CURSOR_MASK) AND DV_GRAPH_CURSOR_IN" by (simp only: 2)
  also have "\<dots> = e AND (DV_GRAPH_CURSOR_IN AND DV_GRAPH_CURSOR_MASK)" by (simp only: ac_simps)
  finally show 1: "e AND DV_GRAPH_CURSOR_IN = 0" by (simp add: im)
  have "(e OR DV_GRAPH_CURSOR_IN) AND DV_GRAPH_CURSOR_IN = DV_GRAPH_CURSOR_IN" by (simp only: bit.conj_disj_distrib2 1 and.idem or.left_neutral)
  then show "(e OR DV_GRAPH_CURSOR_IN) AND DV_GRAPH_CURSOR_IN \<noteq> 0" by (simp add: DV_GRAPH_CURSOR_IN_def)
  show 4: "(e OR DV_GRAPH_CURSOR_IN) AND DV_GRAPH_CURSOR_MASK = e" by (simp only: bit.conj_disj_distrib2 2 im or.right_neutral)
  have n: "NIL AND DV_GRAPH_CURSOR_MASK = DV_GRAPH_MAX_CAPACITY"
    by (simp add: DV_GRAPH_INVALID_INDEX_def DV_GRAPH_CURSOR_MASK_def DV_GRAPH_MAX_CAPACITY_def)
  show "e OR DV_GRAPH_CURSOR_IN \<noteq> NIL"
  proof
    assume "e OR DV_GRAPH_CURSOR_IN = NIL"
    then have "e = DV_GRAPH_MAX_CAPACITY" using 4 n by simp
    then show False using assms by simp
  qed
  show "e \<noteq> NIL"
  proof
    assume "e = NIL"
    then have "e = DV_GRAPH_MAX_CAPACITY" using 2 n by simp
    then show False using assms by simp
  qed
qed

text \<open>The cursor for the edges still to try on the out-list and on the in-list, and the vertices they lead to.\<close>

definition cursor_of :: "u32 list \<Rightarrow> u32 list \<Rightarrow> u32" where
  "cursor_of xs ys = (case xs of x # _ \<Rightarrow> x | [] \<Rightarrow> (case ys of y # _ \<Rightarrow> y OR DV_GRAPH_CURSOR_IN | [] \<Rightarrow> NIL))"

abbreviation outs :: "'w dv_graph_t \<Rightarrow> u32 list \<Rightarrow> u32 \<Rightarrow> u32 list" where
  "outs g L v \<equiv> owned (\<lambda>e. e_src (er g e)) L v"

definition ins :: "bool \<Rightarrow> 'w dv_graph_t \<Rightarrow> u32 list \<Rightarrow> u32 \<Rightarrow> u32 list" where
  "ins directed g L v = (if directed then [] else owned (\<lambda>e. e_dst (er g e)) L v)"

definition cursor_at :: "bool \<Rightarrow> 'w dv_graph_t \<Rightarrow> u32 list \<Rightarrow> u32 \<Rightarrow> u32 \<Rightarrow> u32 list \<Rightarrow> bool" where
  "cursor_at directed g L v c us \<longleftrightarrow> (\<exists>xs ys xs0 ys0. c = cursor_of xs ys \<and> outs g L v = xs0 @ xs \<and> ins directed g L v = ys0 @ ys \<and>
     (xs \<noteq> [] \<longrightarrow> ys0 = []) \<and> us = map (\<lambda>e. e_dst (er g e)) xs @ map (\<lambda>e. e_src (er g e)) ys)"

lemma walkable_small: "walkable g L \<Longrightarrow> e \<in> set L \<Longrightarrow> e < DV_GRAPH_MAX_CAPACITY"
proof -
  assume "walkable g L" and e: "e \<in> set L"
  then obtain VF EF where wf: "wf_graph g L VF EF" by (auto simp: walkable_def)
  have "e < gr_edge_watermark g" using edge_partD(5) [OF wf_genD(3) [OF wf]] e by blast
  moreover have "gr_edge_watermark g \<le> gr_edge_capacity g" "gr_edge_capacity g \<le> DV_GRAPH_MAX_CAPACITY"
    using wf_genD(1) [OF wf] by (simp_all add: graph_mem_def cap_policy_def)
  ultimately show ?thesis by simp
qed

lemma walkable_chains:
  assumes "walkable g L" "v \<in> live g {}"
  shows "chain (\<lambda>e. next_out (er g e)) (out_head (vr g v)) (outs g L v) NIL"
    "chain (\<lambda>e. next_in (er g e)) (in_head (vr g v)) (owned (\<lambda>e. e_dst (er g e)) L v) NIL"
proof -
  obtain VF EF where wf: "wf_graph g L VF EF" using assms(1) by (auto simp: walkable_def)
  note lp = link_partD [OF wf_genD(4) [OF wf]]
  show "chain (\<lambda>e. next_out (er g e)) (out_head (vr g v)) (outs g L v) NIL"
    "chain (\<lambda>e. next_in (er g e)) (in_head (vr g v)) (owned (\<lambda>e. e_dst (er g e)) L v) NIL"
    using inc_listsD(1) [OF lp(3) assms(2)] inc_listsD(1) [OF lp(4) assms(2)] .
qed

lemma first_cursor_ok:
  assumes w: "walkable g0 L" and v: "v \<in> live g0 {}" and rs: "rescratched g0 g"
  obtains c where "dv_graph_first_cursor g v (\<not> directed) = Some c" "cursor_at directed g0 L v c (neighbours directed (map (edge_view g0) L) v)"
proof -
  note ch = walkable_chains [OF w v]
  have r: "vrec g v = Some (vr g0 v)" using rescratchedD(1) [OF rs] walkableD(5) [OF w v] by simp
  have h: "out_head (vr g0 v) = (case outs g0 L v of [] \<Rightarrow> NIL | x # _ \<Rightarrow> x)"
    "in_head (vr g0 v) = (case owned (\<lambda>e. e_dst (er g0 e)) L v of [] \<Rightarrow> NIL | x # _ \<Rightarrow> x)"
    using chain_head [OF ch(1)] chain_head [OF ch(2)] .
  have n1: "x \<noteq> NIL" if "outs g0 L v = x # xs" for x xs
    using walkableD(6) [OF w] arg_cong [OF that, of set] by auto
  have n2: "x \<noteq> NIL" if "owned (\<lambda>e. e_dst (er g0 e)) L v = x # xs" for x xs
    using walkableD(6) [OF w] arg_cong [OF that, of set] by auto
  have "dv_graph_first_cursor g v (\<not> directed) = Some (cursor_of (outs g0 L v) (ins directed g0 L v))"
    using r h n1 n2
    by (cases "outs g0 L v"; cases "owned (\<lambda>e. e_dst (er g0 e)) L v") (simp_all add: dv_graph_first_cursor_def cursor_of_def ins_def)
  moreover have "cursor_at directed g0 L v (cursor_of (outs g0 L v) (ins directed g0 L v)) (neighbours directed (map (edge_view g0) L) v)"
    unfolding cursor_at_def neighbours_view ins_def by (intro exI [of _ "outs g0 L v"] exI [of _ "ins directed g0 L v"] exI [of _ "[]"]) (simp add: ins_def)
  ultimately show thesis by (rule that)
qed

lemma cursor_end: "cursor_at directed g L v c [] \<Longrightarrow> c = NIL"
  by (auto simp: cursor_at_def cursor_of_def)

text \<open>One step of a cursor: the vertex it leads to, and the cursor after it.\<close>

lemma next_cursor_ok:
  assumes w: "walkable g0 L" and v: "v \<in> live g0 {}" and rs: "rescratched g0 g" and c: "cursor_at directed g0 L v c (u # us)"
  obtains c' where "c \<noteq> NIL" "erec g0 (c AND DV_GRAPH_CURSOR_MASK) = Some (er g0 (c AND DV_GRAPH_CURSOR_MASK))"
    "u = (if c AND DV_GRAPH_CURSOR_IN \<noteq> 0 then e_src (er g0 (c AND DV_GRAPH_CURSOR_MASK)) else e_dst (er g0 (c AND DV_GRAPH_CURSOR_MASK)))"
    "u \<in> live g0 {}" "dv_graph_next_cursor g v c (\<not> directed) = Some c'" "cursor_at directed g0 L v c' us"
proof -
  note ch = walkable_chains [OF w v]
  obtain xs ys xs0 ys0 where xy: "c = cursor_of xs ys" "outs g0 L v = xs0 @ xs" "ins directed g0 L v = ys0 @ ys" "xs \<noteq> [] \<longrightarrow> ys0 = []"
    "u # us = map (\<lambda>e. e_dst (er g0 e)) xs @ map (\<lambda>e. e_src (er g0 e)) ys" using c unfolding cursor_at_def by blast
  have "set (outs g0 L v) \<subseteq> set L" "set (ins directed g0 L v) \<subseteq> set L" by (auto simp: ins_def)
  then have inL: "set xs \<subseteq> set L" "set ys \<subseteq> set L" "set ys0 \<subseteq> set L" using xy(2,3) by auto
  have bits: "e AND DV_GRAPH_CURSOR_IN = 0" "e AND DV_GRAPH_CURSOR_MASK = e" "(e OR DV_GRAPH_CURSOR_IN) AND DV_GRAPH_CURSOR_IN \<noteq> 0"
    "(e OR DV_GRAPH_CURSOR_IN) AND DV_GRAPH_CURSOR_MASK = e" "e OR DV_GRAPH_CURSOR_IN \<noteq> NIL" "e \<noteq> NIL" if "e \<in> set L" for e
    using cursor_bits [OF walkable_small [OF w that]] .
  have er: "erec g e = Some (er g0 e)" "erec g0 e = Some (er g0 e)" if "e \<in> set L" for e
    using rescratchedD(2) [OF rs] walkableD(4) [OF w that] by simp_all
  show thesis
  proof (cases xs)
    case (Cons x xs')
    have x: "x \<in> set L" and c': "c = x" using inL Cons xy(1) by (auto simp: cursor_of_def)
    have xs': "set xs' \<subseteq> set L" using inL Cons by simp
    have uu: "u = e_dst (er g0 x)" "us = map (\<lambda>e. e_dst (er g0 e)) xs' @ map (\<lambda>e. e_src (er g0 e)) ys" using xy(5) Cons by simp_all
    have nx: "next_out (er g0 x) = (case xs' of [] \<Rightarrow> NIL | z # _ \<Rightarrow> z)" using chain_next [of _ _ xs0 x xs'] ch(1) xy(2) Cons by simp
    have r: "vrec g v = Some (vr g0 v)" using rescratchedD(1) [OF rs] walkableD(5) [OF w v] by simp
    have y: "ins directed g0 L v = ys" using xy(3,4) Cons by simp
    have hd: "in_head (vr g0 v) = (case ys of [] \<Rightarrow> NIL | z # _ \<Rightarrow> z)" if "\<not> directed"
      using chain_head [OF ch(2)] that y by (simp add: ins_def)
    have nc: "dv_graph_next_cursor g v c (\<not> directed) = Some (cursor_of xs' ys)"
      using er(1) [OF x] bits(1,2) [OF x] nx hd r y bits(6) xs' inL(2)
      by (auto simp: dv_graph_next_cursor_def c' cursor_of_def ins_def split: list.splits if_splits)
    have "cursor_at directed g0 L v (cursor_of xs' ys) us" unfolding cursor_at_def
      using xy(2) Cons y uu(2) by (intro exI [of _ xs'] exI [of _ ys] exI [of _ "xs0 @ [x]"] exI [of _ "[]"]) simp
    then show thesis using that [OF _ _ _ _ nc] bits(1,2,6) [OF x] er(2) [OF x] uu(1) walkableD(8) [OF w x] c' by simp
  next
    case Nil
    then obtain y ys' where ys: "ys = y # ys'" using xy(5) by (cases ys) auto
    have y: "y \<in> set L" and c': "c = y OR DV_GRAPH_CURSOR_IN" using inL Nil xy(1) ys by (auto simp: cursor_of_def)
    have ys': "set ys' \<subseteq> set L" using inL ys by simp
    have uu: "u = e_src (er g0 y)" "us = map (\<lambda>e. e_src (er g0 e)) ys'" using xy(5) Nil ys by simp_all
    have "\<not> directed" using xy(3) ys by (auto simp: ins_def)
    then have nx: "next_in (er g0 y) = (case ys' of [] \<Rightarrow> NIL | z # _ \<Rightarrow> z)"
      using chain_next [of _ _ ys0 y ys'] ch(2) xy(3) ys by (simp add: ins_def)
    have nc: "dv_graph_next_cursor g v c (\<not> directed) = Some (cursor_of [] ys')"
      using er(1) [OF y] bits(3,4) [OF y] nx bits(6) ys'
      by (auto simp: dv_graph_next_cursor_def c' cursor_of_def split: list.splits)
    have "cursor_at directed g0 L v (cursor_of [] ys') us" unfolding cursor_at_def
      using xy(2,3) Nil ys uu(2) by (intro exI [of _ "[]"] exI [of _ ys'] exI [of _ xs0] exI [of _ "ys0 @ [y]"]) simp
    then show thesis using that [OF _ _ _ _ nc] bits(3,4,5) [OF y] er(2) [OF y] uu(1) walkableD(7) [OF w y] c' by simp
  qed
qed

section \<open>The stack in memory\<close>

text \<open>Frames are listed from the top; the bottom one is at position 0 of the work array.\<close>

definition frames_at :: "bool \<Rightarrow> 'w dv_graph_t \<Rightarrow> u32 list \<Rightarrow> 'w dv_graph_t \<Rightarrow> (u32 \<times> u32 list) list \<Rightarrow> bool" where
  "frames_at directed g0 L g fs \<longleftrightarrow>
     (\<forall>i < length fs. work1 g i = fst (rev fs ! i) \<and> cursor_at directed g0 L (fst (rev fs ! i)) (work2 g i) (snd (rev fs ! i)))"

definition dfs_state :: "bool \<Rightarrow> 'w dv_graph_t \<Rightarrow> u32 list \<Rightarrow> 'w dv_graph_t \<Rightarrow> (u32 \<times> u32 list) list \<Rightarrow> (u32 \<times> nat) list \<Rightarrow> bool" where
  "dfs_state directed g0 L g fs Q \<longleftrightarrow> rescratched g0 g \<and> frames_at directed g0 L g fs \<and>
     (\<forall>v \<in> live g0 {}. seen g v = (v \<in> fst ` set Q)) \<and> fst ` set Q \<subseteq> live g0 {} \<and>
     distinct (map fst fs) \<and> fst ` set fs \<subseteq> fst ` set Q"

lemma frames_at_Cons:
  "frames_at directed g0 L g (x # fs) \<longleftrightarrow> frames_at directed g0 L g fs \<and>
     work1 g (length fs) = fst x \<and> cursor_at directed g0 L (fst x) (work2 g (length fs)) (snd x)"
  by (auto simp: frames_at_def nth_append less_Suc_eq)

lemma frames_at_cong:
  assumes "\<And>i. i < length fs \<Longrightarrow> work1 g' i = work1 g i \<and> work2 g' i = work2 g i"
  shows "frames_at directed g0 L g' fs = frames_at directed g0 L g fs"
  using assms by (auto simp: frames_at_def)

lemma dfs_room:
  assumes w: "walkable g0 L" and s: "dfs_state directed g0 L g fs Q"
  shows "length fs \<le> unat (gr_work_capacity g0)" "unat (of_nat (length fs) :: size_t) = length fs"
    "v \<in> live g0 {} \<Longrightarrow> v \<notin> fst ` set Q \<Longrightarrow> length fs < unat (gr_work_capacity g0)"
proof -
  have d3: "set (map fst fs) \<subseteq> fst ` set Q" and d1: "distinct (map fst fs)" using s by (simp_all add: dfs_state_def)
  have "fst ` set Q \<subseteq> live g0 {}" using s by (simp add: dfs_state_def)
  then have d2: "set (map fst fs) \<subseteq> live g0 {}" using d3 by (rule order_trans [rotated])
  note d = d1 d2 d3
  show l: "length fs \<le> unat (gr_work_capacity g0)" using bfs_room(1) [OF w d(1,2)] by simp
  show "unat (of_nat (length fs) :: size_t) = length fs" by (rule small_size [OF l])
  show "v \<in> live g0 {} \<Longrightarrow> v \<notin> fst ` set Q \<Longrightarrow> length fs < unat (gr_work_capacity g0)"
    using bfs_room(2) [OF w d(1,2), of v] d(3) by auto
qed

text \<open>Marking a vertex and pushing its frame.\<close>

lemma dfs_push_ok:
  assumes w: "walkable g0 L" and s: "dfs_state directed g0 L g fs Q" and u: "u \<in> live g0 {}" "u \<notin> fst ` set Q"
  obtains g1 g2 where "dv_graph_visited_set g u = Some g1" "rescratched g0 g1"
    "dfs_push (\<not> directed) g1 (of_nat (length fs)) u = Some (g2, of_nat (length fs) + 1)"
    "dfs_state directed g0 L g2 ((u, neighbours directed (map (edge_view g0) L) u) # fs) (Q @ [(u, d)])"
proof -
  have rs: "rescratched g0 g" and fr: "frames_at directed g0 L g fs" and sn: "\<And>v. v \<in> live g0 {} \<Longrightarrow> seen g v = (v \<in> fst ` set Q)"
    and sub: "fst ` set Q \<subseteq> live g0 {}" "distinct (map fst fs)" "fst ` set fs \<subseteq> fst ` set Q" using s by (auto simp: dfs_state_def)
  note room = dfs_room(3) [OF w s u] and n = dfs_room(2) [OF w s]
  obtain g1 where g1: "dv_graph_visited_set g u = Some g1" "rescratched g0 g1" "gr_work g1 = gr_work g" "\<And>v. seen g1 v = (v = u \<or> seen g v)"
    using visited_set_ok [OF rs walkableD(2) [OF w] walkableD(3) [OF w u(1)]] by blast
  obtain g2 where g2: "work_put g1 (of_nat (length fs)) u = Some g2" "rescratched g0 g2" "gr_visited g2 = gr_visited g1"
    "\<And>j. work1 g2 j = (if j = length fs then u else work1 g1 j)" "\<And>j. j < unat (gr_work_capacity g0) \<Longrightarrow> work2 g2 j = work2 g1 j"
    using work_put_ok [OF g1(2), of "of_nat (length fs)" u] room unfolding n by blast
  obtain c where c: "dv_graph_first_cursor g2 u (\<not> directed) = Some c" "cursor_at directed g0 L u c (neighbours directed (map (edge_view g0) L) u)"
    by (rule first_cursor_ok [OF w u(1) g2(2)])
  obtain g3 where g3: "work2_put g2 (of_nat (length fs)) c = Some g3" "rescratched g0 g3" "gr_visited g3 = gr_visited g2"
    "\<And>j. work2 g3 j = (if j = length fs then c else work2 g2 j)" "\<And>j. j < unat (gr_work_capacity g0) \<Longrightarrow> work1 g3 j = work1 g2 j"
    using work2_put_ok [OF g2(2), of "of_nat (length fs)" c] room unfolding n by blast
  have wc: "gr_work_capacity g1 = gr_work_capacity g" using rescratchedD(4) [OF g1(2)] rescratchedD(4) [OF rs] by simp
  have "work1 g3 i = work1 g i \<and> work2 g3 i = work2 g i" if "i < length fs" for i
    using g3(4,5) [of i] g2(4,5) [of i] that room wc g1(3) by simp
  then have "frames_at directed g0 L g3 fs" using fr frames_at_cong [of fs g3 g] by blast
  then have fr': "frames_at directed g0 L g3 ((u, neighbours directed (map (edge_view g0) L) u) # fs)"
    unfolding frames_at_Cons using g3(4,5) [of "length fs"] g2(4) [of "length fs"] room c(2) by simp
  have "seen g3 v = (v \<in> fst ` set (Q @ [(u, d)]))" if "v \<in> live g0 {}" for v
    using g1(4) [of v] sn [OF that] g2(3) g3(3) by (auto simp: seen_def)
  then have st: "dfs_state directed g0 L g3 ((u, neighbours directed (map (edge_view g0) L) u) # fs) (Q @ [(u, d)])"
    unfolding dfs_state_def using g3(2) fr' sub u by auto
  have "dfs_push (\<not> directed) g1 (of_nat (length fs)) u = Some (g3, of_nat (length fs) + 1)"
    using g2(1) c(1) g3(1) by (simp add: dfs_push_def)
  then show thesis using that g1(1,2) st by blast
qed

text \<open>Advancing the cursor of the top frame.\<close>

lemma dfs_advance:
  assumes w: "walkable g0 L" and s: "dfs_state directed g0 L g ((v, us) # fs) Q" and c: "cursor_at directed g0 L v c us'"
  obtains g1 where "work2_put g (of_nat (length fs)) c = Some g1" "dfs_state directed g0 L g1 ((v, us') # fs) Q"
proof -
  have rs: "rescratched g0 g" and fr: "frames_at directed g0 L g fs" "work1 g (length fs) = v" using s by (auto simp: dfs_state_def frames_at_Cons)
  have room: "length fs < unat (gr_work_capacity g0)" using dfs_room(1) [OF w s] by simp
  then have n: "unat (of_nat (length fs) :: size_t) = length fs" using small_size [of "length fs" "gr_work_capacity g0"] by simp
  obtain g1 where g1: "work2_put g (of_nat (length fs)) c = Some g1" "rescratched g0 g1" "gr_visited g1 = gr_visited g"
    "\<And>j. work2 g1 j = (if j = length fs then c else work2 g j)" "\<And>j. j < unat (gr_work_capacity g0) \<Longrightarrow> work1 g1 j = work1 g j"
    using work2_put_ok [OF rs, of "of_nat (length fs)" c] room unfolding n by blast
  have "work1 g1 i = work1 g i \<and> work2 g1 i = work2 g i" if "i < length fs" for i using g1(4,5) [of i] that room by simp
  then have "frames_at directed g0 L g1 fs" using fr(1) frames_at_cong [of fs g1 g] by blast
  then have "frames_at directed g0 L g1 ((v, us') # fs)" unfolding frames_at_Cons using g1(4,5) [of "length fs"] fr(2) room c by simp
  then have "dfs_state directed g0 L g1 ((v, us') # fs) Q" using s g1(2,3) by (simp add: dfs_state_def seen_def)
  then show thesis using that g1(1) by blast
qed

section \<open>The loop\<close>

lemma dfs_state_pop: "dfs_state directed g0 L g (x # fs) Q \<Longrightarrow> dfs_state directed g0 L g fs Q"
  by (auto simp: dfs_state_def frames_at_Cons)

text \<open>What the loop reads at its head: the cursor of the top frame.\<close>

lemma dfs_head:
  assumes w: "walkable g0 L" and s: "dfs_state directed g0 L g ((v, us) # fs) Q"
  obtains c where "of_nat (length ((v, us) # fs)) > (0 :: size_t)" "of_nat (length ((v, us) # fs)) - 1 = (of_nat (length fs) :: size_t)"
    "work2_get g (of_nat (length fs)) = Some c" "work_get g (of_nat (length fs)) = Some v" "cursor_at directed g0 L v c us" "v \<in> live g0 {}"
    "unat (of_nat (length ((v, us) # fs)) :: size_t) = length ((v, us) # fs)"
proof -
  note n = dfs_room(2) [OF w s] and le = dfs_room(1) [OF w s]
  have room: "length fs < unat (gr_work_capacity g0)" using le by simp
  have m: "unat (of_nat (length fs) :: size_t) = length fs" using small_size [of "length fs" "gr_work_capacity g0"] room by simp
  have rs: "rescratched g0 g" and f: "work1 g (length fs) = v" "cursor_at directed g0 L v (work2 g (length fs)) us"
    using s by (auto simp: dfs_state_def frames_at_Cons)
  have "v \<in> live g0 {}" using s by (auto simp: dfs_state_def)
  moreover have "of_nat (length ((v, us) # fs)) > (0 :: size_t)" unfolding word_less_nat_alt n by simp
  moreover have "work2_get g (of_nat (length fs)) = Some (work2 g (length fs))" "work_get g (of_nat (length fs)) = Some v"
    using work_get_ok [OF rs, of "of_nat (length fs)"] room f(1) unfolding m by simp_all
  ultimately show thesis using that f(2) n by simp
qed

text \<open>A pass through the loop body with a neighbour to try: it was visited before, or it is visited and pushed.\<close>

lemma dfs_loop_next:
  assumes w: "walkable g0 L" and nb: "nb = neighbours directed (map (edge_view g0) L)" and s: "dfs_state directed g0 L g ((v, u # us) # fs) Q"
  obtains (old) g1 where "u \<in> fst ` set Q" "dfs_state directed g0 L g1 ((v, us) # fs) Q"
      "dfs_loop f (\<not> directed) g (of_nat (length ((v, u # us) # fs))) st = dfs_loop f (\<not> directed) g1 (of_nat (length ((v, us) # fs))) st"
  | (new) g2 g3 r where "u \<in> live g0 {}" "u \<notin> fst ` set Q" "rescratched g0 g2"
      "dfs_state directed g0 L g3 ((u, nb u) # (v, us) # fs) (Q @ [(u, length fs + 1)])"
      "r = visit_entry (vertex_map g0) f (u, length fs + 1) st"
      "dfs_loop f (\<not> directed) g (of_nat (length ((v, u # us) # fs))) st = (if \<not> fst r then Some (g2, snd r)
         else dfs_loop f (\<not> directed) g3 (of_nat (length ((u, nb u) # (v, us) # fs))) (snd r))"
proof -
  let ?U = "live g0 {}" and ?d = "of_nat (length ((v, u # us) # fs)) :: size_t"
  have rs: "rescratched g0 g" using s by (simp add: dfs_state_def)
  obtain c where c: "?d > 0" "?d - 1 = of_nat (length fs)" "work2_get g (of_nat (length fs)) = Some c" "work_get g (of_nat (length fs)) = Some v"
    "cursor_at directed g0 L v c (u # us)" "v \<in> ?U" "unat ?d = length ((v, u # us) # fs)"
    by (rule dfs_head [OF w s])
  let ?e = "c AND DV_GRAPH_CURSOR_MASK"
  obtain c' where c': "c \<noteq> NIL" "erec g0 ?e = Some (er g0 ?e)" "u = (if c AND DV_GRAPH_CURSOR_IN \<noteq> 0 then e_src (er g0 ?e) else e_dst (er g0 ?e))"
    "u \<in> ?U" "dv_graph_next_cursor g v c (\<not> directed) = Some c'" "cursor_at directed g0 L v c' us"
    by (rule next_cursor_ok [OF w c(6) rs c(5)])
  obtain g1 where g1: "work2_put g (of_nat (length fs)) c' = Some g1" "dfs_state directed g0 L g1 ((v, us) # fs) Q"
    by (rule dfs_advance [OF w s c'(6)])
  have rs1: "rescratched g0 g1" and sn1: "seen g1 u = (u \<in> fst ` set Q)" using g1(2) c'(4) by (auto simp: dfs_state_def)
  have e: "erec g1 ?e = Some (er g0 ?e)" using rescratchedD(2) [OF rs1] c'(2) by simp
  have t: "dv_graph_visited_test g1 u = Some (u \<in> fst ` set Q)"
    using visited_test_ok [OF rs1 walkableD(2) [OF w] walkableD(3) [OF w c'(4)]] sn1 by simp
  have loop: "dfs_loop f (\<not> directed) g ?d st =
      (if u \<in> fst ` set Q then dfs_loop f (\<not> directed) g1 ?d st
       else do { g2 \<leftarrow> dv_graph_visited_set g1 u; h \<leftarrow> dv_graph_handle g2 u;
         (if \<not> fst (f h (ucast ?d) st) then Some (g2, snd (f h (ucast ?d) st))
          else do { s \<leftarrow> dfs_push (\<not> directed) g2 ?d u;
            dfs_loop f (\<not> directed) (fst s) (snd s) (snd (f h (ucast ?d) st)) }) })"
    by (subst dfs_loop.simps) (simp only: c(1-4) c'(1,5) g1(1) e t c'(3) [symmetric] Option.bind.simps if_True if_False simp_thms)
  show thesis
  proof (cases "u \<in> fst ` set Q")
    case True
    then show thesis using old [OF True g1(2)] loop by simp
  next
    case False
    obtain g2 g3 where g: "dv_graph_visited_set g1 u = Some g2" "rescratched g0 g2"
      "dfs_push (\<not> directed) g2 (of_nat (length ((v, us) # fs))) u = Some (g3, of_nat (length ((v, us) # fs)) + 1)"
      "dfs_state directed g0 L g3 ((u, nb u) # (v, us) # fs) (Q @ [(u, length fs + 1)])"
      by (rule dfs_push_ok [OF w g1(2) c'(4) False, of "length fs + 1", folded nb])
    have h: "dv_graph_handle g2 u = Some \<lparr>vh_index = u, vh_generation = the (vertex_map g0 u)\<rparr>"
      using rescratchedD(3) [OF g(2)] walk_handle [OF w c'(4)] by simp
    have cast: "(ucast ?d :: u32) = of_nat (length fs + 1)" using of_nat_unat [of ?d, where ?'a = "32 word"] unfolding c(7) by simp
    let ?r = "visit_entry (vertex_map g0) f (u, length fs + 1) st"
    have "dfs_loop f (\<not> directed) g ?d st = (if \<not> fst ?r then Some (g2, snd ?r)
        else dfs_loop f (\<not> directed) g3 (of_nat (length ((u, nb u) # (v, us) # fs))) (snd ?r))"
      unfolding loop using False g(1,3) h cast by (simp add: visit_entry_def add.commute)
    then show thesis by (rule new [OF c'(4) False g(2,4) refl])
  qed
qed

text \<open>The measure: vertices not visited, then frames and neighbours on the stack.\<close>

lemma dfs_loop_ok:
  assumes w: "walkable g0 L" and nb: "nb = neighbours directed (map (edge_view g0) L)"
  shows "dfs_state directed g0 L g fs Q \<Longrightarrow> left_in (live g0 {}) Q n \<Longrightarrow>
    \<exists>g'. rescratched g0 g' \<and> dfs_loop f (\<not> directed) g (of_nat (length fs)) st =
      Some (g', visit_until (visit_entry (vertex_map g0) f) (drop (length Q) (finish nb n fs Q)) st)"
proof (induction "(card (live g0 {} - fst ` set Q), sum_list (map (\<lambda>x. length (snd x) + 1) fs))" arbitrary: g fs Q st
    rule: wf_induct_rule [OF wf_lex_prod [OF wf_less_than wf_less_than]])
  case less: 1
  note s = less.prems(1) and l = less.prems(2)
  let ?U = "live g0 {}"
  obtain VF EF where wf: "wf_graph g0 L VF EF" using w by (auto simp: walkable_def)
  have fin: "finite ?U" and closed: "set (nb u) \<subseteq> ?U" for u unfolding nb by (simp, rule neighbours_live [OF wf])
  consider "fs = []" | v fs' where "fs = (v, []) # fs'" | v u us fs' where "fs = (v, u # us) # fs'" by (metis list.exhaust surj_pair)
  then show ?case
  proof cases
    case 1
    then show ?thesis using s by (auto simp: dfs_loop.simps dfs_state_def)
  next
    case fs: (2 v fs')
    obtain c where c: "of_nat (length ((v, [] :: u32 list) # fs')) > (0 :: size_t)" "of_nat (length ((v, [] :: u32 list) # fs')) - 1 = (of_nat (length fs') :: size_t)"
      "work2_get g (of_nat (length fs')) = Some c" "cursor_at directed g0 L v c []" by (rule dfs_head [OF w s [unfolded fs]])
    then have "dfs_loop f (\<not> directed) g (of_nat (length fs)) st = dfs_loop f (\<not> directed) g (of_nat (length fs')) st"
      using cursor_end [OF c(4)] unfolding fs by (subst dfs_loop.simps) simp
    then show ?thesis using less.hyps [OF _ dfs_state_pop [OF s [unfolded fs]] l, of st] unfolding fs by simp
  next
    case fs: (3 v u us fs')
    show ?thesis
    proof (rule dfs_loop_next [OF w nb s [unfolded fs], of f st], goal_cases old new)
      case (old g1)
      show ?thesis using less.hyps [OF _ old(2) l, of st] old(3) unfolding fs finish_skip [OF old(1)] by simp
    next
      case (new g2 g3 r)
      let ?Q = "Q @ [(u, length fs' + 1)]"
      obtain ys where "finish nb n ((u, nb u) # (v, us) # fs') ?Q = ?Q @ ys" using finish_prefix by blast
      then have dr: "drop (length Q) (finish nb n fs Q) = (u, length fs' + 1) # drop (length ?Q) (finish nb n ((u, nb u) # (v, us) # fs') ?Q)"
        unfolding fs finish_push [OF fin closed l new(1,2)] by simp
      have "card (?U - fst ` set ?Q) < card (?U - fst ` set Q)" using new(1,2) by (intro psubset_card_mono) auto
      then have lt: "((card (?U - fst ` set ?Q), sum_list (map (\<lambda>x. length (snd x) + 1) ((u, nb u) # (v, us) # fs'))),
         card (?U - fst ` set Q), sum_list (map (\<lambda>x. length (snd x) + 1) fs)) \<in> less_than <*lex*> less_than" by simp
      show ?thesis unfolding dr using less.hyps [OF lt new(4) left_in_more [OF fin l], of "snd r"] new(3,6)
        unfolding fs new(5) by auto
    qed
  qed
qed

section \<open>The traversal\<close>

abbreviation walk_from :: "bool \<Rightarrow> (u32 \<rightharpoonup> u32) \<Rightarrow> graph_edge list \<Rightarrow> u32 \<Rightarrow> (u32 \<times> nat) list" where
  "walk_from directed V E s \<equiv> dfs_order (neighbours directed E) (card (dom V)) s"

lemma walk_complete:
  assumes rep: "represents g V E" and s: "s \<in> dom V"
  shows "distinct (map fst (walk_from directed V E s))"
    "fst ` set (walk_from directed V E s) = {v. (\<lambda>u v. v \<in> set (neighbours directed E u))\<^sup>*\<^sup>* s v}"
    "(v, d) \<in> set (walk_from directed V E s) \<Longrightarrow> ((\<lambda>u v. v \<in> set (neighbours directed E u)) ^^ d) s v"
proof -
  obtain L VF EF where wf: "wf_graph g L VF EF" and V: "V = vertex_map g" and E: "E = map (edge_view g) L"
    using representsE [OF rep] by blast
  have "finite (dom V)" using finite by simp
  moreover have "set (neighbours directed E u) \<subseteq> dom V" for u using neighbours_live [OF wf] by (simp add: E V live_vertex_map)
  ultimately show "distinct (map fst (walk_from directed V E s))"
    "fst ` set (walk_from directed V E s) = {v. (\<lambda>u v. v \<in> set (neighbours directed E u))\<^sup>*\<^sup>* s v}"
    "(v, d) \<in> set (walk_from directed V E s) \<Longrightarrow> ((\<lambda>u v. v \<in> set (neighbours directed E u)) ^^ d) s v"
    using dfs_order_done [OF _ s, of "neighbours directed E" "card (dom V)"] by blast+
qed

lemma dfs_ok:
  assumes rep: "represents g V E"
  shows "\<exists>st g' s' w'. dv_graph_dfs (Some g) start (Some f) s w = Some (st, Some g', s', w') \<and>
    represents g' V E \<and> config_of g' = config_of g \<and> phase_of g' = phase_of g \<and>
    (if V (vh_index start) \<noteq> Some (vh_generation start) then st = DV_GRAPH_ERR_STALE \<and> s' = s
     else if st = DV_GRAPH_OK then s' = visit_until (visit_entry V f) (walk_from (gr_directed g) V E (vh_index start)) s
     else st = DV_GRAPH_ERR_NOMEM \<and> s' = s)"
proof (rule traverse_setup_ok [OF rep, of start f w], goal_cases stale failed ready)
  case stale
  then show ?thesis using rep by (simp add: dv_graph_dfs_def del: dv_graph_traverse_setup.simps)
next
  case (failed g1 w1)
  then show ?thesis by (simp add: dv_graph_dfs_def del: dv_graph_traverse_setup.simps)
next
  case (ready g1 w1)
  obtain L VF EF where wf: "wf_graph g1 L VF EF" and V: "V = vertex_map g1" and E: "E = map (edge_view g1) L"
    using representsE [OF ready(2)] by blast
  have w: "walkable g1 L" using wf ready(6) by (auto simp: walkable_def)
  have dir: "gr_directed g1 = gr_directed g" using ready(3) by (simp add: config_of_def)
  let ?v = "vh_index start" and ?D = "gr_directed g" and ?nb = "neighbours (gr_directed g) E" and ?U = "live g1 {}"
  have v: "?v \<in> ?U" using ready(1) by (auto simp: live_vertex_map V)
  have U: "finite ?U" "set (?nb u) \<subseteq> ?U" for u unfolding E by (simp, rule neighbours_live [OF wf])
  have left: "left_in ?U [] (card (dom V))" by (simp add: left_in_def V live_vertex_map)
  have start: "dfs_state ?D g1 L g1 [] []"
    using rescratched_refl [OF walkableD(1) [OF w]] ready(7) walkableD(3) [OF w] by (auto simp: dfs_state_def frames_at_def)
  obtain g2 g3 where g: "dv_graph_visited_set g1 ?v = Some g2" "rescratched g1 g2" "dfs_push (\<not> ?D) g2 0 ?v = Some (g3, 1)"
    "dfs_state ?D g1 L g3 [(?v, ?nb ?v)] [(?v, 0)]"
    using dfs_push_ok [OF w start v, of 0] unfolding E by auto
  have d2: "gr_directed g2 = ?D" using rescratchedD(7) [OF g(2)] dir by simp
  have h: "dv_graph_handle g2 ?v = Some \<lparr>vh_index = ?v, vh_generation = the (V ?v)\<rparr>"
    using rescratchedD(3) [OF g(2)] walk_handle [OF w v] by (simp add: V)
  let ?r = "visit_entry V f (?v, 0) s" and ?rest = "drop 1 (finish ?nb (card (dom V)) [(?v, ?nb ?v)] [(?v, 0)])"
  have order: "walk_from ?D V E ?v = (?v, 0) # ?rest" by (rule dfs_order_frames [OF U(1) U(2) v left])
  obtain g4 where g4: "rescratched g1 g4" "dfs_loop f (\<not> ?D) g3 1 (snd ?r) = Some (g4, visit_until (visit_entry V f) ?rest (snd ?r))"
    using dfs_loop_ok [OF w refl g(4) [unfolded E] left_in_more [OF U(1) left, of "[(?v, 0)]", simplified], of f "snd ?r"]
    by (auto simp: V E)
  have rr: "represents g' V E \<and> config_of g' = config_of g \<and> phase_of g' = phase_of g" if "rescratched g1 g'" for g'
    using recapped_represents [OF ready(2) rescratched_recapped [OF walkableD(1) [OF w] that]] ready(3,4) by simp
  have "dv_graph_dfs (Some g) start (Some f) s w = (if \<not> fst ?r then Some (DV_GRAPH_OK, Some g2, snd ?r, w1)
      else Some (DV_GRAPH_OK, Some g4, visit_until (visit_entry V f) ?rest (snd ?r), w1))"
    using ready(5) g(1,3) h d2 g4(2) by (simp add: dv_graph_dfs_def visit_entry_def del: dv_graph_traverse_setup.simps)
  then show ?thesis unfolding order using rr [OF g(2)] rr [OF g4(1)] ready(1) by (cases "fst ?r") simp_all
qed

section \<open>With the scratch in place\<close>

text \<open>A traversal whose scratch already covers the vertex pool does not run out of memory.\<close>

lemma setup_ready:
  assumes "scratch_ready g" "dv_graph_traverse_setup (Some g) start (Some f) w = Some (st, p, w1)"
  shows "st \<noteq> DV_GRAPH_ERR_NOMEM"
proof -
  have "dv_graph_ensure_scratch g w = Some (DV_GRAPH_OK, g, w)"
    using assms(1) by (auto simp: dv_graph_ensure_scratch_def scratch_ready_def scratch_words_def Let_def)
  then show ?thesis using assms(2) by (auto simp: bind_eq_Some_conv split: if_splits)
qed

lemma bfs_ready: "scratch_ready g \<Longrightarrow> dv_graph_bfs (Some g) start (Some f) s w = Some (st, p, s', w') \<Longrightarrow> st \<noteq> DV_GRAPH_ERR_NOMEM"
  using setup_ready [of g start f w] by (auto simp: dv_graph_bfs_def bind_eq_Some_conv split: if_splits simp del: dv_graph_traverse_setup.simps)

lemma dfs_ready: "scratch_ready g \<Longrightarrow> dv_graph_dfs (Some g) start (Some f) s w = Some (st, p, s', w') \<Longrightarrow> st \<noteq> DV_GRAPH_ERR_NOMEM"
  using setup_ready [of g start f w] by (auto simp: dv_graph_dfs_def bind_eq_Some_conv split: if_splits simp del: dv_graph_traverse_setup.simps)

end
