(* ===== verification/Graph_Theorems.thy ===== *)
theory Graph_Theorems
  imports Graph_Demo Graph_Iter Graph_Dfs
begin

text \<open>
  The properties of the graph (\<open>src/graph/dv_graph.h\<close>, \<open>src/graph/dv_graph.c\<close>), with their witnesses on
  the demo graph.
\<close>

section \<open>Refinement\<close>

lemma init_run_simulates:
  assumes "libc_heap L" "graph_config_ok c allocator" "\<And>a. allocator = Some a \<Longrightarrow> allocator_contract a" "list_all graph_op_ok ops"
  obtains st g w1 where "dv_graph_init L (Some g0) (Some c) allocator w = Some (st, Some g, w1)" "st \<in> {DV_GRAPH_OK, DV_GRAPH_ERR_NOMEM}"
    "st \<noteq> DV_GRAPH_OK \<Longrightarrow> g = zero_graph"
    "st = DV_GRAPH_OK \<Longrightarrow> \<exists>rs g' w' s'. graph_run g ops w1 = Some (rs, g', w') \<and> represents g' (fst s') (snd s') \<and>
       graph_ref_run (config_of g) (Map.empty, []) ops rs s'"
proof -
  obtain st g w1 where init: "dv_graph_init L (Some g0) (Some c) allocator w = Some (st, Some g, w1)" "st \<in> {DV_GRAPH_OK, DV_GRAPH_ERR_NOMEM}"
    "st = DV_GRAPH_OK \<Longrightarrow> represents g Map.empty []" "st \<noteq> DV_GRAPH_OK \<Longrightarrow> g = zero_graph"
    using init_ok [OF assms(1-3), of g0 w] by metis
  show thesis
  proof (rule that [OF init(1,2,4)], assumption)
    assume "st = DV_GRAPH_OK"
    from graph_run_simulates [OF init(3) [OF this] assms(4), of w1]
    show "\<exists>rs g' w' s'. graph_run g ops w1 = Some (rs, g', w') \<and> represents g' (fst s') (snd s') \<and>
       graph_ref_run (config_of g) (Map.empty, []) ops rs s'" by blast
  qed
qed

text \<open>
  C3: A graph initialized with an accepted configuration, on an allocator that keeps the contract of
  malloc but may refuse at any time, is either not set up at all (and zeroed) or an empty graph from which
  any sequence of calls returns. The answers and the final state of the sequence are ones the reference
  semantics allows: vertices are a map from slots to generations, edges a list in the order of insertion.\<close>

theorem graph_refines_reference:
  assumes "libc_heap L" "graph_config_ok c allocator" "\<And>a. allocator = Some a \<Longrightarrow> allocator_contract a" "list_all graph_op_ok ops"
  shows "\<exists>st g w1. dv_graph_init L (Some g0) (Some c) allocator w = Some (st, Some g, w1) \<and>
    st \<in> {DV_GRAPH_OK, DV_GRAPH_ERR_NOMEM} \<and> (st \<noteq> DV_GRAPH_OK \<longrightarrow> g = zero_graph) \<and>
    (st = DV_GRAPH_OK \<longrightarrow> (\<exists>rs g' w' s'. graph_run g ops w1 = Some (rs, g', w') \<and> represents g' (fst s') (snd s') \<and>
       graph_ref_run (config_of g) (Map.empty, []) ops rs s'))"
  by (rule init_run_simulates [OF assms, where ?g0.0 = g0 and w = w]) blast+

definition graph_demo_ops :: "graph_op list" where
  "graph_demo_ops = (let a = \<lparr>vh_index = 0, vh_generation = 1\<rparr>; b = \<lparr>vh_index = 1, vh_generation = 1\<rparr>
     in [GAddVertex, GAddVertex, GAddEdge a b 5, GAddEdge a b 6, GFind a b, GRemoveVertex b, GAddVertex, GHasEdge a b, GEdgeCount])"

theorem graph_refines_reference_witness:
  "\<exists>g :: (nat \<times> nat) dv_graph_t. \<exists>w1. dv_graph_init bump_libc (Some zero_graph) (Some demo_graph_cfg) None (4096, 16) = Some (DV_GRAPH_OK, Some g, w1) \<and>
     (\<exists>rs g' w' s'. graph_run g graph_demo_ops w1 = Some (rs, g', w') \<and> represents g' (fst s') (snd s') \<and>
       graph_ref_run (config_of g) (Map.empty, []) graph_demo_ops rs s')"
proof -
  have ops: "list_all graph_op_ok graph_demo_ops" by (simp add: graph_demo_ops_def Let_def)
  have ok: "(case dv_graph_init bump_libc (Some zero_graph) (Some demo_graph_cfg) None (4096, 16) of Some (st, _) \<Rightarrow> st = DV_GRAPH_OK | None \<Rightarrow> False)"
    by code_simp
  obtain st and g :: "(nat \<times> nat) dv_graph_t" and w1 where i: "dv_graph_init bump_libc (Some zero_graph) (Some demo_graph_cfg) None (4096, 16) = Some (st, Some g, w1)"
    "st = DV_GRAPH_OK \<longrightarrow> (\<exists>rs g' w' s'. graph_run g graph_demo_ops w1 = Some (rs, g', w') \<and> represents g' (fst s') (snd s') \<and>
       graph_ref_run (config_of g) (Map.empty, []) graph_demo_ops rs s')"
    using graph_refines_reference [OF bump.libc_heap_axioms demo_graph_cfg_ok _ ops, of zero_graph "(4096, 16)"] by blast
  have "st = DV_GRAPH_OK" using ok unfolding i(1) by simp
  then show ?thesis using i by blast
qed

text \<open>
  C22: The self-check holds in every reachable state: after any sequence of calls on an initialized
  graph, \<open>dv_graph_is_valid\<close> runs to its end and answers true, so pools, free lists, incidence lists,
  degrees and counters agree.\<close>

theorem graph_stays_valid:
  assumes "libc_heap L" "graph_config_ok c allocator" "\<And>a. allocator = Some a \<Longrightarrow> allocator_contract a" "list_all graph_op_ok ops"
    and "dv_graph_init L (Some g0) (Some c) allocator w = Some (DV_GRAPH_OK, Some g, w1)"
  shows "\<exists>rs g' w'. graph_run g ops w1 = Some (rs, g', w') \<and> dv_graph_is_valid (Some g') = Some True"
proof -
  obtain rs g' w' s' where r: "graph_run g ops w1 = Some (rs, g', w')" "represents g' (fst s') (snd s')"
    by (rule init_run_simulates [OF assms(1-4), where ?g0.0 = g0 and w = w]) (use assms(5) in auto)
  obtain E VF EF where "wf_graph g' E VF EF" using representsE [OF r(2)] by blast
  from is_valid_ok [OF this] show ?thesis using r(1) by blast
qed

lemma demo_graph_init:
  "\<exists>g w1. dv_graph_init bump_libc (Some zero_graph) (Some demo_graph_cfg) None (4096, 16) = Some (DV_GRAPH_OK, Some g, w1)"
proof -
  have ok: "(case dv_graph_init bump_libc (Some zero_graph) (Some demo_graph_cfg) None (4096, 16) of Some (st, Some g, w) \<Rightarrow> st = DV_GRAPH_OK | _ \<Rightarrow> False)"
    by code_simp
  then show ?thesis by (auto split: option.splits simp del: dv_graph_init.simps)
qed

theorem graph_stays_valid_witness:
  "\<exists>g :: (nat \<times> nat) dv_graph_t. \<exists>w1. dv_graph_init bump_libc (Some zero_graph) (Some demo_graph_cfg) None (4096, 16) = Some (DV_GRAPH_OK, Some g, w1) \<and>
     (\<exists>rs g' w'. graph_run g graph_demo_ops w1 = Some (rs, g', w') \<and> dv_graph_is_valid (Some g') = Some True)"
proof -
  have ops: "list_all graph_op_ok graph_demo_ops" by (simp add: graph_demo_ops_def Let_def)
  obtain g :: "(nat \<times> nat) dv_graph_t" and w1 where i: "dv_graph_init bump_libc (Some zero_graph) (Some demo_graph_cfg) None (4096, 16) = Some (DV_GRAPH_OK, Some g, w1)"
    using demo_graph_init by blast
  from graph_stays_valid [OF bump.libc_heap_axioms demo_graph_cfg_ok _ ops i] show ?thesis using i by blast
qed

section \<open>Handles\<close>

lemma handles_distinct: "represents g V E \<Longrightarrow> inj_on ge_handle (set E)"
  by (elim representsE) (auto simp: inj_on_def edge_view_def edge_handle_def)

lemma growth_view:
  assumes "represents g V E" "V (vh_index h) = None" "vh_index h < gr_vertex_watermark g" "v_generation (vr g (vh_index h)) \<noteq> vh_generation h"
  shows "\<exists>st g2 v w2. dv_graph_add_vertex (Some g) w = Some (st, Some g2, v, w2) \<and> dv_graph_vertex_valid (Some g2) h = Some False \<and>
    (st = DV_GRAPH_OK \<longrightarrow> (\<exists>u. v = Some u \<and> u \<noteq> h \<and> dv_graph_vertex_valid (Some g2) u = Some True))"
proof (rule add_vertex_ok [OF assms(1), of w], goal_cases)
  case (1 st g2 v w2)
  show ?case
  proof (cases "st = DV_GRAPH_OK")
    case True
    then obtain u where u: "v = Some u" "represents g2 (V(vh_index u \<mapsto> vh_generation u)) E"
      "vh_generation u = (if vh_index u < gr_vertex_watermark g then v_generation (vr g (vh_index u)) else 1)" using 1(5) by blast
    have "vh_generation u \<noteq> vh_generation h" if "vh_index u = vh_index h" using u(3) assms(3,4) that by simp
    then have "u \<noteq> h" "dv_graph_vertex_valid (Some g2) h = Some False" "dv_graph_vertex_valid (Some g2) u = Some True"
      using vertex_valid_ok [OF u(2)] assms(2) by auto
    then show ?thesis using 1(1) u(1) by blast
  next
    case False
    then have "represents g2 V E" using 1(4) by blast
    from vertex_valid_ok [OF this, of h] show ?thesis using 1(1) False assms(2) by (metis option.simps(3))
  qed
qed

text \<open>
  C23: Removing a vertex makes its handle, and the handles of exactly the edges that touch it, invalid;
  every other handle keeps its validity. The stale handle is refused afterwards, and when the slot is used
  again the new vertex has another handle: the old one still does not address it.\<close>

theorem graph_vertex_handles_go_stale:
  assumes rep: "represents g V E" and live: "dv_graph_vertex_valid (Some g) h = Some True"
  shows "\<exists>g1. dv_graph_remove_vertex (Some g) h = Some (DV_GRAPH_OK, Some g1) \<and>
    dv_graph_vertex_valid (Some g1) h = Some False \<and> dv_graph_remove_vertex (Some g1) h = Some (DV_GRAPH_ERR_STALE, Some g1) \<and>
    (\<forall>k. vh_index k \<noteq> vh_index h \<longrightarrow> dv_graph_vertex_valid (Some g1) k = dv_graph_vertex_valid (Some g) k) \<and>
    (\<forall>x \<in> set E. dv_graph_edge_valid (Some g1) (ge_handle x) = Some (ge_src x \<noteq> vh_index h \<and> ge_dst x \<noteq> vh_index h)) \<and>
    (\<exists>st g2 v w2. dv_graph_add_vertex (Some g1) w = Some (st, Some g2, v, w2) \<and> dv_graph_vertex_valid (Some g2) h = Some False \<and>
       (st = DV_GRAPH_OK \<longrightarrow> (\<exists>u. v = Some u \<and> u \<noteq> h \<and> dv_graph_vertex_valid (Some g2) u = Some True)))"
proof -
  have Vh: "V (vh_index h) = Some (vh_generation h)" using vertex_valid_ok [OF rep, of h] live by simp
  let ?V = "V(vh_index h := None)" and ?E = "filter (\<lambda>x. ge_src x \<noteq> vh_index h \<and> ge_dst x \<noteq> vh_index h) E"
  obtain g1 where g1: "dv_graph_remove_vertex (Some g) h = Some (DV_GRAPH_OK, Some g1)" "represents g1 ?V ?E"
    "v_generation (vr g1 (vh_index h)) = dv_graph_bump (vh_generation h)" "vh_index h < gr_vertex_watermark g1"
  proof (rule remove_vertex_ok [OF rep, of h], goal_cases)
    case (1 st g1)
    have "st = DV_GRAPH_OK" using 1(5) Vh by blast
    then show ?case using 1(1) [of g1] 1(2) 1(5) Vh by blast
  qed
  have stale: "dv_graph_remove_vertex (Some g1) h = Some (DV_GRAPH_ERR_STALE, Some g1)"
    by (rule remove_vertex_ok [OF g1(2), of h]) simp
  have e: "dv_graph_edge_valid (Some g1) (ge_handle x) = Some (ge_src x \<noteq> vh_index h \<and> ge_dst x \<noteq> vh_index h)" if "x \<in> set E" for x
    unfolding edge_valid_ok [OF g1(2)] using handles_distinct [OF rep] that by (auto simp: inj_on_def)
  have v: "dv_graph_vertex_valid (Some g1) k = dv_graph_vertex_valid (Some g) k" if "vh_index k \<noteq> vh_index h" for k
    using vertex_valid_ok [OF g1(2), of k] vertex_valid_ok [OF rep, of k] that by simp
  have n: "dv_graph_vertex_valid (Some g1) h = Some False" using vertex_valid_ok [OF g1(2), of h] by simp
  have grow: "\<exists>st g2 v w2. dv_graph_add_vertex (Some g1) w = Some (st, Some g2, v, w2) \<and> dv_graph_vertex_valid (Some g2) h = Some False \<and>
       (st = DV_GRAPH_OK \<longrightarrow> (\<exists>u. v = Some u \<and> u \<noteq> h \<and> dv_graph_vertex_valid (Some g2) u = Some True))"
    by (rule growth_view [OF g1(2)]) (use g1(3,4) in simp_all)
  show ?thesis using e v by (intro exI [of _ g1] conjI g1(1) n stale grow) blast+
qed

text \<open>A graph with one vertex, inserted into the demo graph.\<close>

lemma demo_one_vertex:
  "\<exists>g. represents g [0 \<mapsto> 1] [] \<and> (\<exists>w'. dv_graph_add_vertex (Some demo_graph) (4096, 16) = Some (DV_GRAPH_OK, Some g, Some \<lparr>vh_index = 0, vh_generation = 1\<rparr>, w'))"
proof -
  have ok: "(case dv_graph_add_vertex (Some demo_graph) (4096, 16) of
     Some (st, q, h, w) \<Rightarrow> st = DV_GRAPH_OK \<and> h = Some \<lparr>vh_index = 0, vh_generation = 1\<rparr> | _ \<Rightarrow> False)" by code_simp
  show ?thesis
    by (rule add_vertex_ok [OF demo_graph_rep, of "(4096, 16)"]) (use ok in \<open>auto simp del: dv_graph_add_vertex.simps\<close>)
qed

theorem graph_vertex_handles_go_stale_witness:
  "\<exists>g :: (nat \<times> nat) dv_graph_t. \<exists>g1. let h = \<lparr>vh_index = 0, vh_generation = 1\<rparr> in dv_graph_vertex_valid (Some g) h = Some True \<and>
     dv_graph_remove_vertex (Some g) h = Some (DV_GRAPH_OK, Some g1) \<and> dv_graph_vertex_valid (Some g1) h = Some False"
proof -
  obtain g :: "(nat \<times> nat) dv_graph_t" where g: "represents g [0 \<mapsto> 1] []" using demo_one_vertex by blast
  have v: "dv_graph_vertex_valid (Some g) \<lparr>vh_index = 0, vh_generation = 1\<rparr> = Some True" using vertex_valid_ok [OF g] by simp
  from graph_vertex_handles_go_stale [OF g v] show ?thesis unfolding Let_def using v by blast
qed

text \<open>
  C24: Removing an edge makes exactly its handle invalid: every query and mutation through it answers STALE,
  every other edge handle and every vertex handle keep their validity, and an edge inserted later, even
  into the same slot, has another handle.\<close>

theorem graph_edge_handles_go_stale:
  assumes rep: "represents g V E" and live: "dv_graph_edge_valid (Some g) h = Some True"
  shows "\<exists>g1. dv_graph_remove_edge (Some g) h = Some (DV_GRAPH_OK, Some g1) \<and>
    dv_graph_remove_edge (Some g1) h = Some (DV_GRAPH_ERR_STALE, Some g1) \<and>
    dv_graph_edge_endpoints (Some g1) h = Some (DV_GRAPH_ERR_STALE, None) \<and>
    (\<forall>k. dv_graph_edge_valid (Some g1) k = (if k = h then Some False else dv_graph_edge_valid (Some g) k)) \<and>
    (\<forall>v. dv_graph_vertex_valid (Some g1) v = dv_graph_vertex_valid (Some g) v) \<and>
    (\<exists>st g2 e w2. dv_graph_add_edge (Some g1) s d x w = Some (st, Some g2, e, w2) \<and> dv_graph_edge_valid (Some g2) h = Some False \<and>
       (st = DV_GRAPH_OK \<longrightarrow> (\<exists>u. e = Some u \<and> u \<noteq> h \<and> dv_graph_edge_valid (Some g2) u = Some True)))"
proof -
  have hE: "h \<in> ge_handle ` set E" using edge_valid_ok [OF rep, of h] live by simp
  let ?E = "filter (\<lambda>x. ge_handle x \<noteq> h) E"
  obtain g1 where g1: "dv_graph_remove_edge (Some g) h = Some (DV_GRAPH_OK, Some g1)" "represents g1 V ?E"
    "e_generation (er g1 (eh_index h)) = dv_graph_bump (eh_generation h)" "eh_index h < gr_edge_watermark g1"
  proof (rule remove_edge_ok [OF rep, of h], goal_cases)
    case (1 st g1)
    have "st = DV_GRAPH_OK" using 1(5) hE by blast
    then show ?case using 1(1) [of g1] 1(2) 1(5) hE by blast
  qed
  have stale: "dv_graph_remove_edge (Some g1) h = Some (DV_GRAPH_ERR_STALE, Some g1)"
    by (rule remove_edge_ok [OF g1(2), of h]) auto
  have ends: "dv_graph_edge_endpoints (Some g1) h = Some (DV_GRAPH_ERR_STALE, None)" using endpoints_ok [OF g1(2), of h] by (auto split: if_splits)
  have e: "dv_graph_edge_valid (Some g1) k = (if k = h then Some False else dv_graph_edge_valid (Some g) k)" for k
    unfolding edge_valid_ok [OF g1(2)] edge_valid_ok [OF rep] by auto
  have v: "dv_graph_vertex_valid (Some g1) v = dv_graph_vertex_valid (Some g) v" for v
    unfolding vertex_valid_ok [OF g1(2)] vertex_valid_ok [OF rep] ..
  have grow: "\<exists>st g2 e w2. dv_graph_add_edge (Some g1) s d x w = Some (st, Some g2, e, w2) \<and> dv_graph_edge_valid (Some g2) h = Some False \<and>
       (st = DV_GRAPH_OK \<longrightarrow> (\<exists>u. e = Some u \<and> u \<noteq> h \<and> dv_graph_edge_valid (Some g2) u = Some True))"
  proof (rule add_edge_ok [OF g1(2), of s d x w], goal_cases)
    case (1 st g2 e w2)
    show ?case
    proof (cases "st = DV_GRAPH_OK")
      case True
      from 1(6) [OF True] obtain u where u: "e = Some u" "represents g2 V (?E @ [\<lparr>ge_handle = u, ge_src = vh_index s, ge_dst = vh_index d,
          ge_weight = (if gr_weighted g1 then Some x else None)\<rparr>])"
        "if eh_index u < gr_edge_watermark g1 then \<not> e_active (er g1 (eh_index u)) \<and> eh_generation u = e_generation (er g1 (eh_index u))
         else eh_generation u = 1" by blast
      have "u \<noteq> h" using u(3) g1(3,4) by (auto split: if_splits)
      then have "dv_graph_edge_valid (Some g2) h = Some False" "dv_graph_edge_valid (Some g2) u = Some True"
        unfolding edge_valid_ok [OF u(2)] by auto
      then show ?thesis using 1(1) u(1) \<open>u \<noteq> h\<close> by blast
    next
      case False
      then have "represents g2 V ?E" using 1(5) by blast
      then have "dv_graph_edge_valid (Some g2) h = Some False" by (subst edge_valid_ok) auto
      then show ?thesis using 1(1) False by blast
    qed
  qed
  show ?thesis using e v by (intro exI [of _ g1] conjI g1(1) stale ends grow) blast+
qed

text \<open>The demo graph with a self loop on its one vertex.\<close>

lemma demo_one_edge:
  "\<exists>(g :: (nat \<times> nat) dv_graph_t) x. represents g [0 \<mapsto> 1] [x] \<and> ge_src x = 0 \<and> ge_dst x = 0"
proof -
  obtain g and w' :: "nat \<times> nat" where g: "represents g [0 \<mapsto> 1] []"
    "dv_graph_add_vertex (Some demo_graph) (4096, 16) = Some (DV_GRAPH_OK, Some g, Some \<lparr>vh_index = 0, vh_generation = 1\<rparr>, w')"
    using demo_one_vertex by blast
  let ?h = "\<lparr>vh_index = 0, vh_generation = 1\<rparr> :: dv_vertex_t"
  have ok: "(case dv_graph_add_vertex (Some demo_graph) (4096, 16) of Some (_, q, _, w) \<Rightarrow>
      (case dv_graph_add_edge q ?h ?h 7 w of Some (st, _) \<Rightarrow> st = DV_GRAPH_OK | None \<Rightarrow> False) | None \<Rightarrow> False)" by code_simp
  then have st: "(case dv_graph_add_edge (Some g) ?h ?h 7 w' of Some (st, _) \<Rightarrow> st = DV_GRAPH_OK | None \<Rightarrow> False)" unfolding g(2) by simp
  show ?thesis
  proof (rule add_edge_ok [OF g(1), of ?h ?h 7 w'], goal_cases)
    case (1 st' g2 e w2)
    have "st' = DV_GRAPH_OK" using st unfolding 1(1) by simp
    from 1(6) [OF this] obtain e' where "represents g2 [0 \<mapsto> 1] [\<lparr>ge_handle = e', ge_src = 0, ge_dst = 0,
      ge_weight = (if gr_weighted g then Some 7 else None)\<rparr>]" by auto
    then show ?case by (intro exI [of _ g2] exI [of _ "\<lparr>ge_handle = e', ge_src = 0, ge_dst = 0,
      ge_weight = (if gr_weighted g then Some 7 else None)\<rparr>"] conjI graph_edge.select_convs)
  qed
qed

theorem graph_edge_handles_go_stale_witness:
  "\<exists>(g :: (nat \<times> nat) dv_graph_t) h g1. dv_graph_edge_valid (Some g) h = Some True \<and>
     dv_graph_remove_edge (Some g) h = Some (DV_GRAPH_OK, Some g1) \<and> dv_graph_remove_edge (Some g1) h = Some (DV_GRAPH_ERR_STALE, Some g1)"
proof -
  obtain g :: "(nat \<times> nat) dv_graph_t" and x where g: "represents g [0 \<mapsto> 1] [x]" using demo_one_edge by blast
  have v: "dv_graph_edge_valid (Some g) (ge_handle x) = Some True" using edge_valid_ok [OF g] by simp
  from graph_edge_handles_go_stale [OF g v] show ?thesis using v by blast
qed

text \<open>Insertions, failing or not, and what they keep: a handle that was retired once stays retired.\<close>

inductive insertion :: "'w dv_graph_t \<times> 'w \<Rightarrow> 'w dv_graph_t \<times> 'w \<Rightarrow> bool" where
  add_vertex: "dv_graph_add_vertex (Some g) w = Some (st, Some g', v, w') \<Longrightarrow> insertion (g, w) (g', w')"
| add_edge: "dv_graph_add_edge (Some g) s d x w = Some (st, Some g', e, w') \<Longrightarrow> insertion (g, w) (g', w')"

lemma insertion_keeps:
  "insertion s s' \<Longrightarrow> represents (fst s) V E \<Longrightarrow> slots_kept (fst s) (fst s') \<and> (\<exists>V' E'. represents (fst s') V' E')"
proof (induction rule: insertion.induct)
  case (add_vertex g w st g' v w')
  from add_vertex.prems have "represents g V E" by simp
  then show ?case
  proof (rule add_vertex_ok [of g V E w], goal_cases)
    case (1 st1 g1 h1 w1)
    then show ?case using add_vertex.hyps by (cases "st1 = DV_GRAPH_OK") (auto simp del: dv_graph_add_vertex.simps)
  qed
next
  case (add_edge g s d x w st g' e w')
  from add_edge.prems have "represents g V E" by simp
  then show ?case
  proof (rule add_edge_ok [of g V E s d x w], goal_cases)
    case (1 st1 g1 h1 w1)
    then show ?case using add_edge.hyps by (cases "st1 = DV_GRAPH_OK") (auto simp del: dv_graph_add_edge.simps)
  qed
qed

lemma insertions_keep:
  assumes "insertion\<^sup>*\<^sup>* s s'" "represents (fst s) V E"
  shows "slots_kept (fst s) (fst s') \<and> (\<exists>V' E'. represents (fst s') V' E')"
  using assms
proof (induction rule: rtranclp_induct)
  case base
  then show ?case using slots_kept_refl by blast
next
  case (step s1 s2)
  then show ?case using insertion_keeps [OF step.hyps(2)] slots_kept_trans by blast
qed

lemma vertex_retired:
  assumes "represents g V E" "vh_index h < gr_vertex_watermark g" "v_generation (vr g (vh_index h)) \<noteq> vh_generation h"
  shows "dv_graph_vertex_valid (Some g) h = Some False"
  using vertex_valid_ok [OF assms(1), of h] assms by (auto elim!: representsE simp: vertex_map_def split: if_splits)

lemma edge_retired:
  assumes "represents g V E" "eh_index e < gr_edge_watermark g" "e_generation (er g (eh_index e)) \<noteq> eh_generation e"
  shows "dv_graph_edge_valid (Some g) e = Some False"
proof -
  obtain L VF EF where wf: "wf_graph g L VF EF" and V: "V = vertex_map g" and E: "E = map (edge_view g) L"
    using representsE [OF assms(1)] by blast
  have "eh_generation (ge_handle x) = e_generation (er g (eh_index (ge_handle x)))" if "x \<in> set E" for x
    using that unfolding E by auto
  then have "e \<notin> ge_handle ` set E" using assms(3) by auto
  then show ?thesis unfolding edge_valid_ok [OF assms(1)] by blast
qed

lemma edge_in_use:
  assumes "represents g V E" "x \<in> set E" shows "eh_index (ge_handle x) < gr_edge_watermark g"
proof -
  obtain L VF EF where wf: "wf_graph g L VF EF" and V: "V = vertex_map g" and E: "E = map (edge_view g) L"
    using representsE [OF assms(1)] by blast
  obtain e where e: "x = edge_view g e" "e \<in> set L" using assms(2) unfolding E by auto
  have "e < gr_edge_watermark g" using edge_partD(5) [OF wf_genD(3) [OF wf]] e(2) by blast
  then show ?thesis unfolding e(1) by simp
qed

text \<open>
  C25: \<open>dv_graph_clear\<close> leaves a graph without vertices and edges, with the pools it had, in which every
  handle issued before is refused. Every vertex handle and every edge handle that was valid at the clear stays
  refused after any sequence of calls of \<open>dv_graph_add_vertex\<close> and \<open>dv_graph_add_edge\<close>, which use the same slots
  again; and a vertex inserted after the clear has a handle that was not valid before it.\<close>

theorem graph_clear_retires_handles:
  assumes rep: "represents g V E"
  shows "\<exists>g1. dv_graph_clear (Some g) = Some (Some g1) \<and> dv_graph_vertex_count (Some g1) = 0 \<and> dv_graph_edge_count (Some g1) = 0 \<and>
    dv_graph_vertex_capacity (Some g1) = dv_graph_vertex_capacity (Some g) \<and>
    dv_graph_edge_capacity (Some g1) = dv_graph_edge_capacity (Some g) \<and>
    (\<forall>h. dv_graph_vertex_valid (Some g1) h = Some False) \<and> (\<forall>e. dv_graph_edge_valid (Some g1) e = Some False) \<and>
    (\<forall>g2 w2. insertion\<^sup>*\<^sup>* (g1, w) (g2, w2) \<longrightarrow>
       (\<forall>h. dv_graph_vertex_valid (Some g) h = Some True \<longrightarrow> dv_graph_vertex_valid (Some g2) h = Some False) \<and>
       (\<forall>e. dv_graph_edge_valid (Some g) e = Some True \<longrightarrow> dv_graph_edge_valid (Some g2) e = Some False)) \<and>
    (\<forall>h. dv_graph_vertex_valid (Some g) h = Some True \<longrightarrow>
       (\<exists>st g2 v w2. dv_graph_add_vertex (Some g1) w = Some (st, Some g2, v, w2) \<and> dv_graph_vertex_valid (Some g2) h = Some False \<and>
          (st = DV_GRAPH_OK \<longrightarrow> (\<exists>u. v = Some u \<and> u \<noteq> h \<and> dv_graph_vertex_valid (Some g2) u = Some True))))"
proof (rule clear_ok [OF rep], goal_cases)
  case (1 g1)
  have cnt: "dv_graph_vertex_count (Some g1) = 0" "dv_graph_edge_count (Some g1) = 0"
    using counts_ok [OF 1(2)] by (simp_all add: unat_eq_zero)
  have vx: "vh_index h < gr_vertex_watermark g1" "v_generation (vr g1 (vh_index h)) \<noteq> vh_generation h"
    if "dv_graph_vertex_valid (Some g) h = Some True" for h
  proof -
    have Vh: "V (vh_index h) = Some (vh_generation h)" using vertex_valid_ok [OF rep, of h] that by simp
    have "vh_index h \<in> live g {}" using rep Vh by (elim representsE) (auto simp: live_vertex_map)
    then show "vh_index h < gr_vertex_watermark g1" using 1(5) by (simp add: live_def live_in_def)
    show "v_generation (vr g1 (vh_index h)) \<noteq> vh_generation h" using 1(6) [of "vh_index h"] Vh by simp
  qed
  have ex: "eh_index e < gr_edge_watermark g1" "e_generation (er g1 (eh_index e)) \<noteq> eh_generation e"
    if live: "dv_graph_edge_valid (Some g) e = Some True" for e
  proof -
    have "e \<in> ge_handle ` set E" using edge_valid_ok [OF rep, of e] live by simp
    then obtain x where x: "x \<in> set E" "e = ge_handle x" by blast
    show "eh_index e < gr_edge_watermark g1" using edge_in_use [OF rep x(1)] x(2) 1(9) by simp
    show "e_generation (er g1 (eh_index e)) \<noteq> eh_generation e" using 1(10) [OF x(1)] x(2) by simp
  qed
  have grow: "\<exists>st g2 v w2. dv_graph_add_vertex (Some g1) w = Some (st, Some g2, v, w2) \<and> dv_graph_vertex_valid (Some g2) h = Some False \<and>
          (st = DV_GRAPH_OK \<longrightarrow> (\<exists>u. v = Some u \<and> u \<noteq> h \<and> dv_graph_vertex_valid (Some g2) u = Some True))"
    if "dv_graph_vertex_valid (Some g) h = Some True" for h
    by (rule growth_view [OF 1(2)]) (use vx [OF that] in simp_all)
  have later: "(\<forall>h. dv_graph_vertex_valid (Some g) h = Some True \<longrightarrow> dv_graph_vertex_valid (Some g2) h = Some False) \<and>
       (\<forall>e. dv_graph_edge_valid (Some g) e = Some True \<longrightarrow> dv_graph_edge_valid (Some g2) e = Some False)"
    if run: "insertion\<^sup>*\<^sup>* (g1, w) (g2, w2)" for g2 w2
  proof -
    obtain V' E' where k: "slots_kept g1 g2" "represents g2 V' E'" using insertions_keep [OF run, of Map.empty "[]"] 1(2) by auto
    have "vh_index h < gr_vertex_watermark g2 \<and> v_generation (vr g2 (vh_index h)) \<noteq> vh_generation h"
      if "dv_graph_vertex_valid (Some g) h = Some True" for h
      using vx [OF that] k(1) unfolding slots_kept_def by (metis order.strict_trans2)
    moreover have "eh_index e < gr_edge_watermark g2 \<and> e_generation (er g2 (eh_index e)) \<noteq> eh_generation e"
      if "dv_graph_edge_valid (Some g) e = Some True" for e
      using ex [OF that] k(1) unfolding slots_kept_def by (metis order.strict_trans2)
    ultimately show ?thesis using vertex_retired [OF k(2)] edge_retired [OF k(2)] by blast
  qed
  have "dv_graph_vertex_valid (Some g1) h = Some False" for h using vertex_valid_ok [OF 1(2), of h] by simp
  moreover have "dv_graph_edge_valid (Some g1) e = Some False" for e using edge_valid_ok [OF 1(2), of e] by simp
  ultimately show ?case using 1(1,7,8) cnt grow later by (intro exI [of _ g1] conjI) (simp_all del: dv_graph_add_vertex.simps)
qed

text \<open>A vertex with a self loop, a clear, and both once more: the same slots with other handles.\<close>

definition reuse_demo where
  "reuse_demo = do {
     (_, p1, v1, w1) \<leftarrow> dv_graph_add_vertex (Some demo_graph) (4096, 16);
     v \<leftarrow> v1; g1 \<leftarrow> p1;
     (_, p2, e2, w2) \<leftarrow> dv_graph_add_edge (Some g1) v v 7 w1;
     e \<leftarrow> e2; g2 \<leftarrow> p2;
     p3 \<leftarrow> dv_graph_clear (Some g2);
     g3 \<leftarrow> p3;
     (_, p4, v4, w4) \<leftarrow> dv_graph_add_vertex (Some g3) w2;
     v' \<leftarrow> v4; g4 \<leftarrow> p4;
     (_, p5, e5, w5) \<leftarrow> dv_graph_add_edge (Some g4) v' v' 7 w4;
     e' \<leftarrow> e5; g5 \<leftarrow> p5;
     Some (v, e, v', e', g2, g5) }"

theorem graph_clear_retires_handles_witness:
  "\<exists>v e v' e' g g'. reuse_demo = Some (v, e, v', e', g, g') \<and>
     dv_graph_vertex_valid (Some g) v = Some True \<and> dv_graph_edge_valid (Some g) e = Some True \<and>
     vh_index v' = vh_index v \<and> eh_index e' = eh_index e \<and>
     dv_graph_vertex_valid (Some g') v' = Some True \<and> dv_graph_edge_valid (Some g') e' = Some True \<and>
     dv_graph_vertex_valid (Some g') v = Some False \<and> dv_graph_edge_valid (Some g') e = Some False"
proof -
  have run: "(case reuse_demo of Some (v, e, v', e', g, g') \<Rightarrow>
      dv_graph_vertex_valid (Some g) v = Some True \<and> dv_graph_edge_valid (Some g) e = Some True \<and>
      vh_index v' = vh_index v \<and> eh_index e' = eh_index e \<and>
      dv_graph_vertex_valid (Some g') v' = Some True \<and> dv_graph_edge_valid (Some g') e' = Some True | None \<Rightarrow> False)" by code_simp
  then obtain v e v' e' g g' where d: "reuse_demo = Some (v, e, v', e', g, g')"
    and valid: "dv_graph_vertex_valid (Some g) v = Some True" "dv_graph_edge_valid (Some g) e = Some True"
      "vh_index v' = vh_index v" "eh_index e' = eh_index e"
      "dv_graph_vertex_valid (Some g') v' = Some True" "dv_graph_edge_valid (Some g') e' = Some True"
    by (auto split: option.splits)
  from d obtain st1 g1 w1 st2 w2 g3 st4 g4 w4 st5 w5 where
    c: "dv_graph_add_vertex (Some demo_graph) (4096, 16) = Some (st1, Some g1, Some v, w1)"
      "dv_graph_add_edge (Some g1) v v 7 w1 = Some (st2, Some g, Some e, w2)"
      "dv_graph_clear (Some g) = Some (Some g3)"
      "dv_graph_add_vertex (Some g3) w2 = Some (st4, Some g4, Some v', w4)"
      "dv_graph_add_edge (Some g4) v' v' 7 w4 = Some (st5, Some g', Some e', w5)"
    unfolding reuse_demo_def
    by (auto simp: bind_eq_Some_conv simp del: dv_graph_add_vertex.simps dv_graph_add_edge.simps dv_graph_clear.simps)
  have "insertion\<^sup>*\<^sup>* (demo_graph, (4096, 16)) (g, w2)"
    using insertion.add_vertex [OF c(1)] insertion.add_edge [OF c(2)] by (rule converse_rtranclp_into_rtranclp [OF _ r_into_rtranclp])
  then obtain V E where rep: "represents g V E"
    using insertions_keep [of "(demo_graph, (4096, 16))" "(g, w2)" Map.empty "[]"] demo_graph_rep by auto
  have "insertion\<^sup>*\<^sup>* (g3, w2) (g', w5)"
    using insertion.add_vertex [OF c(4)] insertion.add_edge [OF c(5)] by (rule converse_rtranclp_into_rtranclp [OF _ r_into_rtranclp])
  then have "dv_graph_vertex_valid (Some g') v = Some False" "dv_graph_edge_valid (Some g') e = Some False"
    using graph_clear_retires_handles [OF rep, of w2] valid(1,2) unfolding c(3) option.inject by blast+
  then show ?thesis using d valid by (intro exI [of _ v] exI [of _ e] exI [of _ v'] exI [of _ e'] exI [of _ g] exI [of _ g']) blast
qed

section \<open>Traversal\<close>

text \<open>
  C26: Breadth first search: the call returns on every graph; on a stale start vertex, or without memory for the
  scratch when it is not reserved yet, the visitor is not called; otherwise it is called along an order of vertices with depths until it
  answers false, where the order holds exactly the vertices reachable from the start, each once, by
  increasing depth, and the depth is the length of a shortest path. The topology is unchanged.\<close>

theorem graph_bfs_correct:
  assumes rep: "represents g V E"
  shows "\<exists>st g' s' w'. dv_graph_bfs (Some g) start (Some f) s w = Some (st, Some g', s', w') \<and> represents g' V E \<and>
    dv_graph_version (Some g') = dv_graph_version (Some g) \<and>
    (if dv_graph_vertex_valid (Some g) start = Some False then st = DV_GRAPH_ERR_STALE \<and> s' = s
     else if st = DV_GRAPH_OK then \<exists>Q. s' = visit_until (visit_entry V f) Q s \<and> distinct (map fst Q) \<and> sorted (map snd Q) \<and>
       fst ` set Q = {v. (\<lambda>u v. \<exists>x \<in> set E. joins (gr_directed g) u v x)\<^sup>*\<^sup>* (vh_index start) v} \<and>
       (\<forall>v d. (v, d) \<in> set Q \<longrightarrow> ((\<lambda>u v. \<exists>x \<in> set E. joins (gr_directed g) u v x) ^^ d) (vh_index start) v \<and>
          (\<forall>m. ((\<lambda>u v. \<exists>x \<in> set E. joins (gr_directed g) u v x) ^^ m) (vh_index start) v \<longrightarrow> d \<le> m))
     else st = DV_GRAPH_ERR_NOMEM \<and> s' = s \<and> \<not> scratch_ready g)"
proof -
  let ?Q = "search_from (gr_directed g) V E (vh_index start)"
  obtain st g' s' w' where b: "dv_graph_bfs (Some g) start (Some f) s w = Some (st, Some g', s', w')" "represents g' V E" "phase_of g' = phase_of g"
    "if V (vh_index start) \<noteq> Some (vh_generation start) then st = DV_GRAPH_ERR_STALE \<and> s' = s
     else if st = DV_GRAPH_OK then s' = visit_until (visit_entry V f) ?Q s else st = DV_GRAPH_ERR_NOMEM \<and> s' = s"
    using bfs_ok [OF rep, of start f s w] by (elim exE conjE) (rule that)
  have ver: "dv_graph_version (Some g') = dv_graph_version (Some g)" using b(3) by (simp add: phase_of_def)
  have nr: "st \<noteq> DV_GRAPH_ERR_NOMEM" if "scratch_ready g" using bfs_ready [OF that b(1)] .
  note vv = vertex_valid_ok [OF rep, of start]
  show ?thesis
  proof (cases "V (vh_index start) = Some (vh_generation start)")
    case True
    then have "vh_index start \<in> dom V" by auto
    note q = queue_inv_done [OF search_complete [OF rep this, of "gr_directed g"], unfolded neighbours_joins]
    show ?thesis using b(1,2,4) ver vv nr True q by (intro exI conjI) (assumption | auto)+
  next
    case False
    then show ?thesis using b(1,2,4) ver vv nr by (intro exI conjI) (assumption | auto)+
  qed
qed

definition count_visits :: "nat dv_graph_visit_fn" where
  "count_visits h d n = (True, n + 1)"

theorem graph_bfs_correct_witness:
  "\<exists>(g :: (nat \<times> nat) dv_graph_t) st g' n w'. dv_graph_vertex_valid (Some g) \<lparr>vh_index = 0, vh_generation = 1\<rparr> = Some True \<and>
     dv_graph_bfs (Some g) \<lparr>vh_index = 0, vh_generation = 1\<rparr> (Some count_visits) 0 (8192, 16) = Some (st, Some g', n, w')"
proof -
  obtain g :: "(nat \<times> nat) dv_graph_t" and x where g: "represents g [0 \<mapsto> 1] [x]" using demo_one_edge by blast
  have v: "dv_graph_vertex_valid (Some g) \<lparr>vh_index = 0, vh_generation = 1\<rparr> = Some True" using vertex_valid_ok [OF g] by simp
  from graph_bfs_correct [OF g, of "\<lparr>vh_index = 0, vh_generation = 1\<rparr>" count_visits 0 "(8192, 16)"] show ?thesis using v by blast
qed

text \<open>
  C27: Depth first search: the call returns on every graph, and on failure the visitor is not called, as for
  breadth first search. Otherwise the visitor is called along the recursive walk (\<open>dfs_visit\<close>: a vertex before
  its unvisited neighbours, each of these with its whole walk before the next, a depth of one more per level)
  until it answers false. The walk holds exactly the vertices reachable from the start, each once, and
  each at a depth that is the length of a path from the start. The topology is unchanged.\<close>

theorem graph_dfs_correct:
  assumes rep: "represents g V E"
  shows "\<exists>st g' s' w'. dv_graph_dfs (Some g) start (Some f) s w = Some (st, Some g', s', w') \<and> represents g' V E \<and>
    dv_graph_version (Some g') = dv_graph_version (Some g) \<and>
    (if dv_graph_vertex_valid (Some g) start = Some False then st = DV_GRAPH_ERR_STALE \<and> s' = s
     else if st = DV_GRAPH_OK then \<exists>Q. Q = dfs_order (neighbours (gr_directed g) E) (card (dom V)) (vh_index start) \<and>
       s' = visit_until (visit_entry V f) Q s \<and> distinct (map fst Q) \<and>
       fst ` set Q = {v. (\<lambda>u v. \<exists>x \<in> set E. joins (gr_directed g) u v x)\<^sup>*\<^sup>* (vh_index start) v} \<and>
       (\<forall>v d. (v, d) \<in> set Q \<longrightarrow> ((\<lambda>u v. \<exists>x \<in> set E. joins (gr_directed g) u v x) ^^ d) (vh_index start) v)
     else st = DV_GRAPH_ERR_NOMEM \<and> s' = s \<and> \<not> scratch_ready g)"
proof -
  let ?Q = "walk_from (gr_directed g) V E (vh_index start)"
  obtain st g' s' w' where b: "dv_graph_dfs (Some g) start (Some f) s w = Some (st, Some g', s', w')" "represents g' V E" "phase_of g' = phase_of g"
    "if V (vh_index start) \<noteq> Some (vh_generation start) then st = DV_GRAPH_ERR_STALE \<and> s' = s
     else if st = DV_GRAPH_OK then s' = visit_until (visit_entry V f) ?Q s else st = DV_GRAPH_ERR_NOMEM \<and> s' = s"
    using dfs_ok [OF rep, of start f s w] by (elim exE conjE) (rule that)
  have ver: "dv_graph_version (Some g') = dv_graph_version (Some g)" using b(3) by (simp add: phase_of_def)
  have nr: "st \<noteq> DV_GRAPH_ERR_NOMEM" if "scratch_ready g" using dfs_ready [OF that b(1)] .
  note vv = vertex_valid_ok [OF rep, of start]
  show ?thesis
  proof (cases "V (vh_index start) = Some (vh_generation start)")
    case True
    then have "vh_index start \<in> dom V" by auto
    note q = walk_complete [where directed = "gr_directed g", OF rep this, unfolded neighbours_joins]
    show ?thesis using b(1,2,4) ver vv nr True q by (intro exI conjI) (assumption | auto)+
  next
    case False
    then show ?thesis using b(1,2,4) ver vv nr by (intro exI conjI) (assumption | auto)+
  qed
qed

theorem graph_dfs_correct_witness:
  "\<exists>(g :: (nat \<times> nat) dv_graph_t) st g' n w'. dv_graph_vertex_valid (Some g) \<lparr>vh_index = 0, vh_generation = 1\<rparr> = Some True \<and>
     dv_graph_dfs (Some g) \<lparr>vh_index = 0, vh_generation = 1\<rparr> (Some count_visits) 0 (8192, 16) = Some (st, Some g', n, w')"
proof -
  obtain g :: "(nat \<times> nat) dv_graph_t" and x where g: "represents g [0 \<mapsto> 1] [x]" using demo_one_edge by blast
  have v: "dv_graph_vertex_valid (Some g) \<lparr>vh_index = 0, vh_generation = 1\<rparr> = Some True" using vertex_valid_ok [OF g] by simp
  from graph_dfs_correct [OF g, of "\<lparr>vh_index = 0, vh_generation = 1\<rparr>" count_visits 0 "(8192, 16)"] show ?thesis using v by blast
qed

text \<open>
  C28: \<open>dv_graph_reachable\<close> decides reachability: with two valid vertices it answers whether a path leads from
  the first to the second, following edges in their direction, or in both when the graph is undirected;
  stale vertices and a failed allocation are reported and leave the answer as it was.\<close>

theorem graph_reachable_exact:
  assumes rep: "represents g V E"
  shows "\<exists>st g' r w'. dv_graph_reachable (Some g) a b (Some r0) w = Some (st, Some g', Some r, w') \<and> represents g' V E \<and>
    (if dv_graph_vertex_valid (Some g) a = Some True \<and> dv_graph_vertex_valid (Some g) b = Some True
     then (st = DV_GRAPH_OK \<and> r = (\<lambda>u v. \<exists>x \<in> set E. joins (gr_directed g) u v x)\<^sup>*\<^sup>* (vh_index a) (vh_index b)) \<or>
       (st = DV_GRAPH_ERR_NOMEM \<and> r = r0)
     else st = DV_GRAPH_ERR_STALE \<and> r = r0)"
proof -
  obtain st g' r w' where b: "dv_graph_reachable (Some g) a b (Some r0) w = Some (st, Some g', Some r, w')" "represents g' V E"
    "if V (vh_index a) \<noteq> Some (vh_generation a) \<or> V (vh_index b) \<noteq> Some (vh_generation b) then st = DV_GRAPH_ERR_STALE \<and> r = r0
     else if st = DV_GRAPH_OK then r = (\<lambda>u v. \<exists>x \<in> set E. joins (gr_directed g) u v x)\<^sup>*\<^sup>* (vh_index a) (vh_index b)
     else st = DV_GRAPH_ERR_NOMEM \<and> r = r0"
    using reachable_ok [OF rep, of a b r0 w] by (elim exE conjE) (rule that)
  have "if dv_graph_vertex_valid (Some g) a = Some True \<and> dv_graph_vertex_valid (Some g) b = Some True
     then (st = DV_GRAPH_OK \<and> r = (\<lambda>u v. \<exists>x \<in> set E. joins (gr_directed g) u v x)\<^sup>*\<^sup>* (vh_index a) (vh_index b)) \<or>
       (st = DV_GRAPH_ERR_NOMEM \<and> r = r0)
     else st = DV_GRAPH_ERR_STALE \<and> r = r0"
    using b(3) unfolding vertex_valid_ok [OF rep] by (auto split: if_splits)
  then show ?thesis using b(1,2) by blast
qed

theorem graph_reachable_exact_witness:
  "\<exists>(g :: (nat \<times> nat) dv_graph_t) st g' r w'. dv_graph_vertex_valid (Some g) \<lparr>vh_index = 0, vh_generation = 1\<rparr> = Some True \<and>
     dv_graph_reachable (Some g) \<lparr>vh_index = 0, vh_generation = 1\<rparr> \<lparr>vh_index = 0, vh_generation = 1\<rparr> (Some False) (8192, 16) = Some (st, Some g', Some r, w') \<and>
     (st, r) \<in> {(DV_GRAPH_OK, True), (DV_GRAPH_ERR_NOMEM, False)}"
proof -
  obtain g :: "(nat \<times> nat) dv_graph_t" and x where g: "represents g [0 \<mapsto> 1] [x]" using demo_one_edge by blast
  have v: "dv_graph_vertex_valid (Some g) \<lparr>vh_index = 0, vh_generation = 1\<rparr> = Some True" using vertex_valid_ok [OF g] by simp
  obtain st g' r w' where r: "dv_graph_reachable (Some g) \<lparr>vh_index = 0, vh_generation = 1\<rparr> \<lparr>vh_index = 0, vh_generation = 1\<rparr> (Some False) (8192, 16) =
      Some (st, Some g', Some r, w')" "(st, r) \<in> {(DV_GRAPH_OK, True), (DV_GRAPH_ERR_NOMEM, False)}"
    using graph_reachable_exact [OF g, of "\<lparr>vh_index = 0, vh_generation = 1\<rparr>" "\<lparr>vh_index = 0, vh_generation = 1\<rparr>" False "(8192, 16)"] v
    by (elim exE conjE) (rule that, auto simp del: dv_graph_reachable.simps dv_graph_vertex_valid.simps)
  show ?thesis by (intro exI conjI) (rule v, rule r(1), rule r(2))
qed

section \<open>Iteration and versions\<close>

text \<open>
  C29: On an unchanged graph the edge iterators of a valid vertex hand out, one call of \<open>next\<close> after the
  other, the edges that leave it, that enter it, or both lists one after the other, each in the order of
  insertion with its handle, its endpoints, its weight and the vertex at the other end; then \<open>next\<close>
  answers false for good. A stale vertex is refused with an iterator that is already exhausted.\<close>

theorem graph_iterators_exact:
  assumes rep: "represents g V E"
  shows "if dv_graph_vertex_valid (Some g) h = Some True then
      (\<exists>i n. dv_graph_out_edges_begin (Some g) h (Some it) = Some (DV_GRAPH_OK, Some i) \<and>
         drain n g (Some i) = Some (map (entry_of V False) (filter (\<lambda>x. ge_src x = vh_index h) E), Some dv_graph_edge_iter_end)) \<and>
      (\<exists>i n. dv_graph_in_edges_begin (Some g) h (Some it) = Some (DV_GRAPH_OK, Some i) \<and>
         drain n g (Some i) = Some (map (entry_of V True) (filter (\<lambda>x. ge_dst x = vh_index h) E), Some dv_graph_edge_iter_end)) \<and>
      (\<exists>i n. dv_graph_edges_begin (Some g) h (Some it) = Some (DV_GRAPH_OK, Some i) \<and>
         drain n g (Some i) = Some (map (entry_of V False) (filter (\<lambda>x. ge_src x = vh_index h) E) @
           map (entry_of V True) (filter (\<lambda>x. ge_dst x = vh_index h) E), Some dv_graph_edge_iter_end)) \<and>
      dv_graph_edge_iter_next g (Some dv_graph_edge_iter_end) = Some (False, Some dv_graph_edge_iter_end, None)
    else dv_graph_edges_begin (Some g) h (Some it) = Some (DV_GRAPH_ERR_STALE, Some dv_graph_edge_iter_end)"
proof -
  note b = begin_ok [OF rep, of h it] and v = vertex_valid_ok [OF rep, of h]
  have e: "dv_graph_edge_iter_next g (Some dv_graph_edge_iter_end) = Some (False, Some dv_graph_edge_iter_end, None)"
    by (simp add: dv_graph_edge_iter_end_def)
  show ?thesis
  proof (cases "V (vh_index h) = Some (vh_generation h)")
    case True
    then have live: "V (vh_index h) \<noteq> None" by simp
    note d = drain_from [OF rep live]
    show ?thesis unfolding v dv_graph_out_edges_begin_def dv_graph_in_edges_begin_def dv_graph_edges_begin_def b
      using True d(1) d(2) [of False] d(3) e
      by (simp del: drain.simps dv_graph_edge_iter_next.simps) blast
  next
    case False
    then show ?thesis unfolding v dv_graph_edges_begin_def b by simp
  qed
qed

theorem graph_iterators_exact_witness:
  "\<exists>(g :: (nat \<times> nat) dv_graph_t) x i n. dv_graph_edges_begin (Some g) \<lparr>vh_index = 0, vh_generation = 1\<rparr> (Some dv_graph_edge_iter_end) = Some (DV_GRAPH_OK, Some i) \<and>
     drain n g (Some i) = Some ([entry_of [0 \<mapsto> 1] False x, entry_of [0 \<mapsto> 1] True x], Some dv_graph_edge_iter_end)"
proof -
  obtain g :: "(nat \<times> nat) dv_graph_t" and x where g: "represents g [0 \<mapsto> 1] [x]" "ge_src x = 0" "ge_dst x = 0" using demo_one_edge by blast
  have v: "dv_graph_vertex_valid (Some g) \<lparr>vh_index = 0, vh_generation = 1\<rparr> = Some True" using vertex_valid_ok [OF g(1)] by simp
  show ?thesis
    using graph_iterators_exact [OF g(1), of "\<lparr>vh_index = 0, vh_generation = 1\<rparr>" dv_graph_edge_iter_end, unfolded v if_True simp_thms] g(2,3)
    by (simp del: drain.simps dv_graph_edge_iter_next.simps dv_graph_vertex_valid.simps) blast
qed

text \<open>
  C30: The version counter and the update phase after every call: outside a phase each call that changed the
  topology steps the version once (a bulk insertion included), and every iterator made before it then
  ends; inside a phase such a call only marks the phase, so the version, and with it the iterators, stay
  as they are until the commit, which steps once if the phase was marked. Editing a weight, queries,
  traversals and capacity changes never step it.\<close>

theorem graph_version_steps:
  assumes rep: "represents g V E" and clean: "phase_clean g" and op: "graph_op_ok op"
  shows "\<exists>r g' w'. graph_step g op w = Some (r, g', w') \<and> phase_of g' = phase_after op r (phase_of g) \<and> phase_clean g' \<and>
    (\<not> gr_in_update g \<and> changes op r \<longrightarrow> (\<forall>it. it_graph it \<and> it_version it = gr_version g \<longrightarrow>
       dv_graph_edge_iter_next g' (Some it) = Some (False, Some dv_graph_edge_iter_end, None))) \<and>
    (gr_in_update g \<and> changes op r \<longrightarrow> gr_version g' = gr_version g \<and> gr_in_update g' \<and> gr_update_dirty g')"
proof -
  obtain r g' w' where s: "graph_step g op w = Some (r, g', w')" "phase_of g' = phase_after op r (phase_of g)"
    using graph_step_phase [OF rep clean op, of w] unfolding phase_steps_def by blast
  note p = s(2) [unfolded phase_of_def]
  have plain: "op \<noteq> GBegin" "op \<noteq> GCommit" "op \<noteq> GReset" if "changes op r" using that by auto
  note after = phase_after_plain [OF plain, of r g, unfolded phase_of_def]
  have c: "phase_clean g'" using p clean by (cases op) (auto simp: phase_clean_def split: if_splits simp del: changes.simps)
  have step: "gr_version g' = gr_version g + 1" if "\<not> gr_in_update g" "changes op r" using p after [OF that(2) that(2) that(2)] that by simp
  have stay: "gr_version g' = gr_version g \<and> gr_in_update g' \<and> gr_update_dirty g'" if "gr_in_update g" "changes op r"
    using p after [OF that(2) that(2) that(2)] that by simp
  show ?thesis using s c step stay by (intro exI [of _ r] exI [of _ g'] exI [of _ w']) auto
qed

theorem graph_version_steps_witness:
  "\<exists>(g :: (nat \<times> nat) dv_graph_t) h r g' w'. phase_clean g \<and> graph_step g (GRemoveEdge h) (8192, 16) = Some (r, g', w') \<and>
     phase_of g' = phase_after (GRemoveEdge h) r (phase_of g)"
proof -
  obtain g :: "(nat \<times> nat) dv_graph_t" and x where g: "represents g [0 \<mapsto> 1] [x]" using demo_one_edge by blast
  obtain g1 :: "(nat \<times> nat) dv_graph_t" where g1: "represents g1 [0 \<mapsto> 1] [x]" "phase_clean g1"
  proof (cases "phase_clean g")
    case False
    have "represents (g\<lparr>gr_in_update := True\<rparr>) [0 \<mapsto> 1] [x]" using g by simp
    then show thesis by (rule that) (simp add: phase_clean_def)
  qed (use that g in blast)
  from graph_version_steps [OF g1, of "GRemoveEdge (ge_handle x)" "(8192, 16)"]
  obtain r g' w' where "graph_step g1 (GRemoveEdge (ge_handle x)) (8192, 16) = Some (r, g', w')"
    "phase_of g' = phase_after (GRemoveEdge (ge_handle x)) r (phase_of g1)" by (auto simp del: graph_step.simps)
  then show ?thesis using g1(2) by blast
qed

end
