(* ===== verification/Mutex.thy ===== *)
theory Mutex
  imports Prelude
begin

text \<open>
  The mutex of the wrappers (\<open>src/stack/dv_stack_mt.c\<close>, \<open>src/heap/dv_heap_mt.c\<close>, \<open>src/graph/dv_graph_mt.c\<close>)
  and the argument the three of them share: calls that lock, work on the object and unlock take effect
  one after the other, in the order in which they were granted the lock.
\<close>

section \<open>The lock\<close>

text \<open>
  The state of a \<open>pthread_mutex_t\<close>. Using one that is not initialized is undefined; locking one that the
  calling thread holds does not return. Both are \<open>None\<close>.
\<close>

datatype mutex_state = Uninit | Unlocked | Held

record 'o guarded =
  mt_lock :: mutex_state
  mt_obj :: 'o

text \<open>A wrapper whose mutex is initialized and free.\<close>

definition unlocked :: "'o \<Rightarrow> 'o guarded" where
  "unlocked x = \<lparr>mt_lock = Unlocked, mt_obj = x\<rparr>"

definition mutex_lock :: "'o guarded \<Rightarrow> 'o guarded option" where
  "mutex_lock m = (if mt_lock m = Unlocked then Some (m\<lparr>mt_lock := Held\<rparr>) else None)"

definition mutex_unlock :: "'o guarded \<Rightarrow> 'o guarded option" where
  "mutex_unlock m = (if mt_lock m = Held then Some (m\<lparr>mt_lock := Unlocked\<rparr>) else None)"

definition mutex_destroy :: "'o guarded \<Rightarrow> 'o guarded option" where
  "mutex_destroy m = (if mt_lock m = Unlocked then Some (m\<lparr>mt_lock := Uninit\<rparr>) else None)"

text \<open>
  What a wrapper does, action by action: \<open>Work f\<close> is the section between the lock and the unlock, which acts on
  the guarded object and leaves the answer. A wrapper is its actions and what it answers when there are none.
  Run by one thread (\<open>mt_alone\<close>) it is a function; the threads of the machine below run the same actions,
  interleaved.
\<close>

type_synonym ('o, 'w, 'r) critical = "'o \<Rightarrow> 'w \<Rightarrow> ('r \<times> 'o \<times> 'w) option"

datatype ('o, 'w, 'r) mt_act = Lock | Work "('o, 'w, 'r) critical" | Unlock

type_synonym ('o, 'w, 'r) mt_code = "'r \<times> ('o, 'w, 'r) mt_act list"

definition guarded_call :: "('o, 'w, 'r) critical \<Rightarrow> ('o, 'w, 'r) mt_act list" where
  "guarded_call f = [Lock, Work f, Unlock]"

text \<open>The shape all wrappers share: a null wrapper answers at once, without the lock.\<close>

definition mt_call :: "'r \<Rightarrow> ('o, 'w, 'r) critical \<Rightarrow> ptr \<Rightarrow> ('o, 'w, 'r) mt_code" where
  "mt_call answer f p = (if p = 0 then (answer, []) else (answer, guarded_call f))"

text \<open>What a caller makes of the answer.\<close>

fun act_map :: "('a \<Rightarrow> 'r) \<Rightarrow> ('o, 'w, 'a) mt_act \<Rightarrow> ('o, 'w, 'r) mt_act" where
  "act_map k Lock = Lock"
| "act_map k Unlock = Unlock"
| "act_map k (Work f) = Work (\<lambda>x w. do { (r, x1, w1) \<leftarrow> f x w; Some (k r, x1, w1) })"

definition mt_map :: "('a \<Rightarrow> 'r) \<Rightarrow> ('o, 'w, 'a) mt_code \<Rightarrow> ('o, 'w, 'r) mt_code" where
  "mt_map k c = (k (fst c), map (act_map k) (snd c))"

fun mt_acts :: "('o, 'w, 'r) mt_act list \<Rightarrow> 'r \<Rightarrow> 'o guarded \<Rightarrow> 'w \<Rightarrow> ('r \<times> 'o guarded \<times> 'w) option" where
  "mt_acts [] r m w = Some (r, m, w)"
| "mt_acts (Lock # as) r m w = do { m1 \<leftarrow> mutex_lock m; mt_acts as r m1 w }"
| "mt_acts (Work f # as) r m w = do { (r1, x, w1) \<leftarrow> f (mt_obj m) w; mt_acts as r1 (m\<lparr>mt_obj := x\<rparr>) w1 }"
| "mt_acts (Unlock # as) r m w = do { m1 \<leftarrow> mutex_unlock m; mt_acts as r m1 w }"

definition mt_alone :: "('o, 'w, 'r) mt_code \<Rightarrow> 'o guarded \<Rightarrow> 'w \<Rightarrow> ('r \<times> 'o guarded \<times> 'w) option" where
  "mt_alone c m w = mt_acts (snd c) (fst c) m w"

text \<open>A core call on the object, whose pointer is not null: the object it leaves behind.\<close>

definition core :: "('r \<times> 'o option \<times> 'w) option \<Rightarrow> ('r \<times> 'o \<times> 'w) option" where
  "core c = do { (r, p, w) \<leftarrow> c; x \<leftarrow> p; Some (r, x, w) }"

lemma guarded_alone:
  "snd c = guarded_call f \<Longrightarrow> mt_lock m = Unlocked \<Longrightarrow>
   mt_alone c m w = do { (r, x, w1) \<leftarrow> f (mt_obj m) w; Some (r, m\<lparr>mt_obj := x\<rparr>, w1) }"
  by (cases m) (auto simp: mt_alone_def guarded_call_def mutex_lock_def mutex_unlock_def split: bind_split)

lemma guarded_map:
  "snd (mt_map k (mt_call a f p)) = (if p = 0 then [] else guarded_call (\<lambda>x w. do { (r, x1, w1) \<leftarrow> f x w; Some (k r, x1, w1) }))"
  by (simp add: mt_map_def mt_call_def guarded_call_def)

text \<open>
  The control block of a wrapper is set up with its mutex; \<open>mutex_ok\<close> says whether \<open>pthread_mutex_init\<close>
  answered 0. When the core call fails, the mutex is destroyed again.
\<close>

definition mt_setup ::
  "bool \<Rightarrow> 'st \<Rightarrow> 'o \<Rightarrow> ('o \<Rightarrow> 'w \<Rightarrow> ('st \<times> 'o \<times> 'w) option) \<Rightarrow> 'st \<Rightarrow> 'o guarded \<Rightarrow> 'w \<Rightarrow> ('st \<times> 'o guarded \<times> 'w) option"
where
  "mt_setup mutex_ok nomem zero init ok m w =
     (if \<not> mutex_ok then Some (nomem, m\<lparr>mt_obj := zero\<rparr>, w)
      else do {
        (status, x, w1) \<leftarrow> init (mt_obj m) w;
        m1 \<leftarrow> (if status \<noteq> ok then mutex_destroy (m\<lparr>mt_lock := Unlocked, mt_obj := x\<rparr>)
               else Some (m\<lparr>mt_lock := Unlocked, mt_obj := x\<rparr>));
        Some (status, m1, w1) })"

section \<open>Threads\<close>

text \<open>
  Threads share one guarded object and run the actions of wrappers on it, \<open>code c\<close> for a call \<open>c\<close>. \<open>Lock\<close> waits
  until the mutex is free; \<open>Unlock\<close> is for the thread that holds it. \<open>Work\<close> is not one step: the thread first
  reads the object and writes back what became of it later, and another thread that is not kept out by the
  lock may read or write in between. \<open>effects\<close> lists the calls in the order in which they wrote, \<open>returned\<close> in
  the order in which they returned, each with its thread and its answer.
\<close>

datatype ('c, 'r, 'o, 'w) mt_pc =
    Outside
  | Running 'c 'r "('o, 'w, 'r) mt_act list"
  | Loaded 'c "('o, 'w, 'r) critical" 'o 'w "('o, 'w, 'r) mt_act list"

record ('t, 'c, 'r, 'o, 'w) shared =
  mtx :: "'o guarded"
  holder :: "'t option"
  world :: 'w
  at :: "'t \<Rightarrow> ('c, 'r, 'o, 'w) mt_pc"
  effects :: "('t \<times> 'c \<times> 'r) list"
  returned :: "('t \<times> 'c \<times> 'r) list"

abbreviation object :: "('t, 'c, 'r, 'o, 'w) shared \<Rightarrow> 'o" where
  "object s \<equiv> mt_obj (mtx s)"

abbreviation calls_of :: "('t \<times> 'c \<times> 'r) list \<Rightarrow> 'c list" where
  "calls_of xs \<equiv> map (\<lambda>x. fst (snd x)) xs"

abbreviation answers_of :: "('t \<times> 'c \<times> 'r) list \<Rightarrow> 'r list" where
  "answers_of xs \<equiv> map (\<lambda>x. snd (snd x)) xs"

abbreviation by_thread :: "'t \<Rightarrow> ('t \<times> 'c \<times> 'r) list \<Rightarrow> ('t \<times> 'c \<times> 'r) list" where
  "by_thread t xs \<equiv> filter (\<lambda>x. fst x = t) xs"

inductive mt_step :: "('c \<Rightarrow> ('o, 'w, 'r) mt_code) \<Rightarrow> 'c set \<Rightarrow> ('t, 'c, 'r, 'o, 'w) shared \<Rightarrow> ('t, 'c, 'r, 'o, 'w) shared \<Rightarrow> bool"
  for code :: "'c \<Rightarrow> ('o, 'w, 'r) mt_code" and C :: "'c set"
where
  invoke: "at s t = Outside \<Longrightarrow> c \<in> C \<Longrightarrow>
    mt_step code C s (s\<lparr>at := (at s)(t := Running c (fst (code c)) (snd (code c)))\<rparr>)"
| acquire: "at s t = Running c r (Lock # as) \<Longrightarrow> mutex_lock (mtx s) = Some m \<Longrightarrow>
    mt_step code C s (s\<lparr>mtx := m, holder := Some t, at := (at s)(t := Running c r as)\<rparr>)"
| load: "at s t = Running c r (Work f # as) \<Longrightarrow>
    mt_step code C s (s\<lparr>at := (at s)(t := Loaded c f (object s) (world s) as)\<rparr>)"
| store: "at s t = Loaded c f x w as \<Longrightarrow> f x w = Some (r, x', w') \<Longrightarrow>
    mt_step code C s (s\<lparr>mtx := (mtx s)\<lparr>mt_obj := x'\<rparr>, world := w', at := (at s)(t := Running c r as),
      effects := effects s @ [(t, c, r)]\<rparr>)"
| release: "at s t = Running c r (Unlock # as) \<Longrightarrow> holder s = Some t \<Longrightarrow> mutex_unlock (mtx s) = Some m \<Longrightarrow>
    mt_step code C s (s\<lparr>mtx := m, holder := None, at := (at s)(t := Running c r as)\<rparr>)"
| respond: "at s t = Running c r [] \<Longrightarrow>
    mt_step code C s (s\<lparr>at := (at s)(t := Outside), returned := returned s @ [(t, c, r)]\<rparr>)"

text \<open>A schedule, thread by thread: which call a thread outside makes next is part of it.\<close>

fun mt_go :: "('c \<Rightarrow> ('o, 'w, 'r) mt_code) \<Rightarrow> 't \<Rightarrow> 'c \<Rightarrow> ('t, 'c, 'r, 'o, 'w) shared \<Rightarrow> ('t, 'c, 'r, 'o, 'w) shared option" where
  "mt_go code t c0 s = (case at s t of
     Outside \<Rightarrow> Some (s\<lparr>at := (at s)(t := Running c0 (fst (code c0)) (snd (code c0)))\<rparr>)
   | Running c r [] \<Rightarrow> Some (s\<lparr>at := (at s)(t := Outside), returned := returned s @ [(t, c, r)]\<rparr>)
   | Running c r (Lock # as) \<Rightarrow> do { m \<leftarrow> mutex_lock (mtx s); Some (s\<lparr>mtx := m, holder := Some t, at := (at s)(t := Running c r as)\<rparr>) }
   | Running c r (Work f # as) \<Rightarrow> Some (s\<lparr>at := (at s)(t := Loaded c f (object s) (world s) as)\<rparr>)
   | Running c r (Unlock # as) \<Rightarrow> if holder s = Some t
       then do { m \<leftarrow> mutex_unlock (mtx s); Some (s\<lparr>mtx := m, holder := None, at := (at s)(t := Running c r as)\<rparr>) } else None
   | Loaded c f x w as \<Rightarrow> do { (r, x', w') \<leftarrow> f x w;
       Some (s\<lparr>mtx := (mtx s)\<lparr>mt_obj := x'\<rparr>, world := w', at := (at s)(t := Running c r as), effects := effects s @ [(t, c, r)]\<rparr>) })"

lemma mt_go_step: "mt_go code t c s = Some s' \<Longrightarrow> c \<in> C \<Longrightarrow> mt_step code C s s'"
  by (auto simp: bind_eq_Some_conv split: mt_pc.splits list.splits mt_act.splits if_splits intro: mt_step.intros)

fun mt_schedule :: "('c \<Rightarrow> ('o, 'w, 'r) mt_code) \<Rightarrow> ('t \<times> 'c) list \<Rightarrow> ('t, 'c, 'r, 'o, 'w) shared \<Rightarrow> ('t, 'c, 'r, 'o, 'w) shared option" where
  "mt_schedule code [] s = Some s"
| "mt_schedule code (x # xs) s = do { s1 \<leftarrow> mt_go code (fst x) (snd x) s; mt_schedule code xs s1 }"

lemma mt_schedule_steps:
  "mt_schedule code xs s = Some s' \<Longrightarrow> snd ` set xs \<subseteq> C \<Longrightarrow> (mt_step code C)\<^sup>*\<^sup>* s s'"
proof (induction xs arbitrary: s)
  case (Cons x xs)
  then obtain s1 where "mt_go code (fst x) (snd x) s = Some s1" "mt_schedule code xs s1 = Some s'"
    by (auto simp: bind_eq_Some_conv simp del: mt_go.simps)
  then show ?case using Cons mt_go_step [of code "fst x" "snd x" s s1 C] by (auto intro: converse_rtranclp_into_rtranclp)
qed simp

definition mt_start :: "'o guarded \<Rightarrow> 'w \<Rightarrow> ('t, 'c, 'r, 'o, 'w) shared" where
  "mt_start m w = \<lparr>mtx = m, holder = None, world = w, at = (\<lambda>_. Outside), effects = [], returned = []\<rparr>"

text \<open>At the object, or past the lock on the way to it or away from it.\<close>

fun inside :: "('c, 'r, 'o, 'w) mt_pc \<Rightarrow> bool" where
  "inside (Running c r (Work f # as)) = True"
| "inside (Running c r (Unlock # as)) = True"
| "inside (Loaded c f x w as) = True"
| "inside _ = False"

text \<open>The effect of the call a thread is in, once it has had one.\<close>

fun has_work :: "('o, 'w, 'r) mt_act list \<Rightarrow> bool" where
  "has_work [] = False"
| "has_work (Work f # as) = True"
| "has_work (a # as) = has_work as"

fun unreturned :: "'t \<Rightarrow> ('c, 'r, 'o, 'w) mt_pc \<Rightarrow> ('t \<times> 'c \<times> 'r) list" where
  "unreturned t (Running c r as) = (if has_work as then [] else [(t, c, r)])"
| "unreturned t _ = []"

text \<open>The calls one after the other.\<close>

fun in_sequence :: "('c \<Rightarrow> ('o, 'w, 'r) critical) \<Rightarrow> 'c list \<Rightarrow> 'o \<Rightarrow> 'w \<Rightarrow> ('r list \<times> 'o \<times> 'w) option" where
  "in_sequence exec [] x w = Some ([], x, w)"
| "in_sequence exec (c # cs) x w = do {
     (r, x1, w1) \<leftarrow> exec c x w; (rs, x2, w2) \<leftarrow> in_sequence exec cs x1 w1; Some (r # rs, x2, w2) }"

lemma in_sequence_snoc:
  "in_sequence exec cs x w = Some (rs, x1, w1) \<Longrightarrow> exec c x1 w1 = Some (r, x2, w2) \<Longrightarrow>
   in_sequence exec (cs @ [c]) x w = Some (rs @ [r], x2, w2)"
  by (induction cs arbitrary: x w rs) (auto simp: bind_eq_Some_conv)

lemma mt_step_grows: "mt_step code C s s' \<Longrightarrow> \<exists>ys. effects s' = effects s @ ys"
  by (erule mt_step.cases) auto

lemma mt_steps_grow: "(mt_step code C)\<^sup>*\<^sup>* s s' \<Longrightarrow> \<exists>ys. effects s' = effects s @ ys"
proof (induction rule: rtranclp_induct)
  case (step y z)
  then show ?case using mt_step_grows [OF step(2)] by auto
qed simp

text \<open>
  The contract of a guarded object: the code of every call is lock, work, unlock, and from a good state the
  work returns what the core operation \<open>exec\<close> returns and leaves a good state.
\<close>

locale guarded_object =
  fixes code :: "'c \<Rightarrow> ('o, 'w, 'r) mt_code"
    and exec :: "'c \<Rightarrow> ('o, 'w, 'r) critical"
    and C :: "'c set"
    and good :: "'o \<Rightarrow> 'w \<Rightarrow> bool"
  assumes guarded: "c \<in> C \<Longrightarrow> \<exists>f. snd (code c) = [Lock, Work f, Unlock] \<and>
    (\<forall>x w. good x w \<longrightarrow> (\<exists>r x' w'. f x w = Some (r, x', w') \<and> exec c x w = Some (r, x', w') \<and> good x' w'))"
begin

definition section_of :: "'c \<Rightarrow> ('o, 'w, 'r) critical" where
  "section_of c = (SOME f. snd (code c) = [Lock, Work f, Unlock])"

lemma section_of_code: "c \<in> C \<Longrightarrow> snd (code c) = [Lock, Work (section_of c), Unlock]"
  unfolding section_of_def using guarded by (metis (mono_tags, lifting) someI_ex)

lemma section_returns:
  "c \<in> C \<Longrightarrow> good x w \<Longrightarrow>
   \<exists>r x' w'. section_of c x w = Some (r, x', w') \<and> exec c x w = Some (r, x', w') \<and> good x' w'"
  using guarded [of c] section_of_code [of c] by auto

text \<open>
  Every thread is in its code, the thread past the lock is the holder, what it has read is the current
  object, the effects so far are a sequential run, and every thread has returned all its effects but
  that of the call it is in.
\<close>

fun pc_ok :: "('c, 'r, 'o, 'w) mt_pc \<Rightarrow> bool" where
  "pc_ok Outside = True"
| "pc_ok (Running c r as) = (c \<in> C \<and>
     as \<in> {[Lock, Work (section_of c), Unlock], [Work (section_of c), Unlock], [Unlock], []})"
| "pc_ok (Loaded c f x w as) = (c \<in> C \<and> f = section_of c \<and> as = [Unlock])"

definition mt_inv :: "'o \<Rightarrow> 'w \<Rightarrow> ('t, 'c, 'r, 'o, 'w) shared \<Rightarrow> bool" where
  "mt_inv x0 w0 s \<longleftrightarrow> (\<forall>t. pc_ok (at s t)) \<and> (\<forall>t. inside (at s t) = (holder s = Some t)) \<and>
     mt_lock (mtx s) = (if holder s = None then Unlocked else Held) \<and>
     (\<forall>t c f x w as. at s t = Loaded c f x w as \<longrightarrow> x = object s \<and> w = world s) \<and>
     in_sequence exec (calls_of (effects s)) x0 w0 = Some (answers_of (effects s), object s, world s) \<and>
     good (object s) (world s) \<and> set (calls_of (effects s)) \<subseteq> C \<and>
     (\<forall>t. by_thread t (effects s) = by_thread t (returned s) @ unreturned t (at s t))"

lemma mt_invD:
  assumes "mt_inv x0 w0 s"
  shows "pc_ok (at s t)" "inside (at s t) = (holder s = Some t)"
    "mt_lock (mtx s) = (if holder s = None then Unlocked else Held)"
    "at s t = Loaded c f x w as \<Longrightarrow> x = object s \<and> w = world s"
    "in_sequence exec (calls_of (effects s)) x0 w0 = Some (answers_of (effects s), object s, world s)"
    "good (object s) (world s)" "set (calls_of (effects s)) \<subseteq> C"
    "by_thread t (effects s) = by_thread t (returned s) @ unreturned t (at s t)"
  using assms unfolding mt_inv_def by blast+

lemma mt_inv_start: "mt_lock m = Unlocked \<Longrightarrow> good (mt_obj m) w \<Longrightarrow> mt_inv (mt_obj m) w (mt_start m w)"
  by (simp add: mt_inv_def mt_start_def)

lemma mt_inv_step:
  assumes step: "mt_step code C s s'" and inv: "mt_inv x0 w0 s"
  shows "mt_inv x0 w0 s'"
  using step
proof cases
  case (invoke t c)
  have "holder s \<noteq> Some t" using mt_invD(2) [OF inv, of t] invoke(2) by simp
  then show ?thesis unfolding invoke(1) using inv invoke(2,3) section_of_code [OF invoke(3)]
    by (auto simp: mt_inv_def)
next
  case (acquire t c r as m)
  have p: "c \<in> C" "as = [Work (section_of c), Unlock]" using mt_invD(1) [OF inv, of t] acquire(2) by auto
  have l: "mt_lock (mtx s) = Unlocked" "m = (mtx s)\<lparr>mt_lock := Held\<rparr>" using acquire(3) by (auto simp: mutex_lock_def split: if_splits)
  then have "holder s = None" using mt_invD(3) [OF inv] by (auto split: if_splits)
  then show ?thesis unfolding acquire(1) using inv acquire(2) p l by (auto simp: mt_inv_def)
next
  case (load t c r f as)
  have p: "c \<in> C" "f = section_of c" "as = [Unlock]" using mt_invD(1) [OF inv, of t] load(2) by auto
  then show ?thesis unfolding load(1) using inv load(2) by (auto simp: mt_inv_def)
next
  case (store t c f x w as r x' w')
  have x: "x = object s" "w = world s" and p: "c \<in> C" "f = section_of c" "as = [Unlock]"
    using mt_invD(1) [OF inv, of t] mt_invD(4) [OF inv store(2)] store(2) by auto
  have h: "holder s = Some t" using mt_invD(2) [OF inv, of t] store(2) by simp
  have e: "exec c (object s) (world s) = Some (r, x', w')" "good x' w'"
    using section_returns [OF p(1) mt_invD(6) [OF inv]] store(3) x p(2) by auto
  have "in_sequence exec (calls_of (effects s) @ [c]) x0 w0 = Some (answers_of (effects s) @ [r], x', w')"
    by (rule in_sequence_snoc [OF mt_invD(5) [OF inv] e(1)])
  moreover have "at s u \<noteq> Loaded c' g y v bs" if "u \<noteq> t" for u c' g y v bs
    using mt_invD(2) [OF inv, of u] h that by auto
  ultimately show ?thesis unfolding store(1) using inv h store(2) e(2) p by (auto simp: mt_inv_def)
next
  case (release t c r as m)
  have p: "c \<in> C" "as = []" using mt_invD(1) [OF inv, of t] release(2) by auto
  have m: "m = (mtx s)\<lparr>mt_lock := Unlocked\<rparr>" using release(4) by (auto simp: mutex_unlock_def split: if_splits)
  have "\<not> inside (at s u)" if "u \<noteq> t" for u using mt_invD(2) [OF inv, of u] release(3) that by simp
  then show ?thesis unfolding release(1) using inv release(2,3) p m by (auto simp: mt_inv_def)
next
  case (respond t c r)
  have "holder s \<noteq> Some t" using mt_invD(2) [OF inv, of t] respond(2) by simp
  then show ?thesis unfolding respond(1) using inv respond(2) by (auto simp: mt_inv_def)
qed

lemma mt_inv_reachable:
  "(mt_step code C)\<^sup>*\<^sup>* (mt_start m w) s \<Longrightarrow> mt_lock m = Unlocked \<Longrightarrow> good (mt_obj m) w \<Longrightarrow> mt_inv (mt_obj m) w s"
  by (induction rule: rtranclp_induct) (auto intro: mt_inv_start mt_inv_step)

lemma never_stuck:
  assumes inv: "mt_inv x0 w0 s" and busy: "at s t \<noteq> Outside"
  shows "\<exists>s'. mt_step code C s s'"
proof -
  have run: "\<exists>s'. mt_step code C s s'" if i: "inside (at s u)" for u
  proof (cases "at s u")
    case (Loaded c f y v as)
    then have "f = section_of c" "c \<in> C" "y = object s" "v = world s"
      using mt_invD(1) [OF inv, of u] mt_invD(4) [OF inv Loaded] by auto
    then obtain r y' v' where "f y v = Some (r, y', v')" using section_returns [of c y v] mt_invD(6) [OF inv] by auto
    then show ?thesis using mt_step.store [OF Loaded] by blast
  next
    case (Running c r as)
    then consider "as = [Work (section_of c), Unlock]" | "as = [Unlock]" using mt_invD(1) [OF inv, of u] i by auto
    then show ?thesis
    proof cases
      case 2
      have h: "holder s = Some u" using mt_invD(2) [OF inv, of u] i by simp
      then have "mutex_unlock (mtx s) \<noteq> None" using mt_invD(3) [OF inv] by (simp add: mutex_unlock_def)
      then show ?thesis using mt_step.release [OF Running [unfolded 2] h] by blast
    next
      case 1
      show ?thesis using mt_step.load [OF Running [unfolded 1]] by blast
    qed
  qed (use i in simp)
  show ?thesis
  proof (cases "holder s")
    case None
    have ni: "\<not> inside (at s t)" using mt_invD(2) [OF inv, of t] None by simp
    show ?thesis
    proof (cases "at s t")
      case (Running c r as)
      then consider "as = [Lock, Work (section_of c), Unlock]" | "as = []" using mt_invD(1) [OF inv, of t] ni by auto
      then show ?thesis
      proof cases
        case 1
        have "mutex_lock (mtx s) \<noteq> None" using mt_invD(3) [OF inv] None by (simp add: mutex_lock_def)
        then show ?thesis using mt_step.acquire [OF Running [unfolded 1]] by blast
      next
        case 2
        show ?thesis using mt_step.respond [OF Running [unfolded 2]] by blast
      qed
    qed (use ni busy in auto)
  next
    case (Some u)
    then show ?thesis using run [of u] mt_invD(2) [OF inv, of u] by simp
  qed
qed

text \<open>
  Linearizability: the calls take effect one after the other, between invocation and return; mutual
  exclusion; no deadlock.
\<close>

lemma linearizable:
  assumes r: "(mt_step code C)\<^sup>*\<^sup>* (mt_start m w) s" and m: "mt_lock m = Unlocked" "good (mt_obj m) w"
  shows "in_sequence exec (calls_of (effects s)) (mt_obj m) w = Some (answers_of (effects s), object s, world s)"
    "set (calls_of (effects s)) \<subseteq> C"
    "\<exists>ys. by_thread t (effects s) = by_thread t (returned s) @ ys \<and> length ys \<le> 1 \<and> (at s t = Outside \<longrightarrow> ys = [])"
    "inside (at s t) \<Longrightarrow> inside (at s u) \<Longrightarrow> t = u"
    "at s t \<noteq> Outside \<Longrightarrow> \<exists>s'. mt_step code C s s'"
proof -
  have inv: "mt_inv (mt_obj m) w s" by (rule mt_inv_reachable [OF r m])
  show "in_sequence exec (calls_of (effects s)) (mt_obj m) w = Some (answers_of (effects s), object s, world s)"
    "set (calls_of (effects s)) \<subseteq> C"
    by (rule mt_invD(5,7) [OF inv])+
  have "length (unreturned t (at s t)) \<le> 1 \<and> (at s t = Outside \<longrightarrow> unreturned t (at s t) = [])" by (cases "at s t") auto
  then show "\<exists>ys. by_thread t (effects s) = by_thread t (returned s) @ ys \<and> length ys \<le> 1 \<and> (at s t = Outside \<longrightarrow> ys = [])"
    using mt_invD(8) [OF inv, of t] by blast
  show "inside (at s t) \<Longrightarrow> inside (at s u) \<Longrightarrow> t = u" using mt_invD(2) [OF inv, of t] mt_invD(2) [OF inv, of u] by simp
  show "at s t \<noteq> Outside \<Longrightarrow> \<exists>s'. mt_step code C s s'" by (rule never_stuck [OF inv])
qed

lemma alone:
  assumes "c \<in> C" "mt_lock m = Unlocked" "good (mt_obj m) w"
  shows "mt_alone (code c) m w = do { (r, x, w1) \<leftarrow> exec c (mt_obj m) w; Some (r, m\<lparr>mt_obj := x\<rparr>, w1) }"
  using guarded_alone [of "code c" "section_of c" m w] section_of_code [OF assms(1)] section_returns [OF assms(1,3)] assms(2)
  by (auto simp: guarded_call_def)

end

end
