(* ===== verification/Dv_Stack_Mt.thy ===== *)
theory Dv_Stack_Mt
  imports Stack_Theorems Mutex
begin

text \<open>
  The mutex-guarded stack (\<open>src/stack/dv_stack_mt.h\<close>, \<open>src/stack/dv_stack_mt.c\<close>). Each wrapper is the list of
  its actions: lock, call the core operation, unlock. Out parameters come back with the answer. The threads
  run these wrappers.
\<close>

section \<open>Operations\<close>

type_synonym 'w dv_stack_mt_t = "'w dv_stack_t guarded"

definition dv_stack_mt_init ::
  "bool \<Rightarrow> 'w libc \<Rightarrow> 'w dv_stack_mt_t option \<Rightarrow> dv_stack_config_t option \<Rightarrow> 'w hooks option \<Rightarrow> 'w \<Rightarrow>
     (dv_stack_status_t \<times> 'w dv_stack_mt_t option \<times> 'w) option"
where
  "dv_stack_mt_init mutex_ok L p config allocator w = (case p of
     None \<Rightarrow> Some (DV_STACK_ERR_INVALID, None, w)
   | Some m \<Rightarrow> do {
       (status, m1, w1) \<leftarrow> mt_setup mutex_ok DV_STACK_ERR_NOMEM zero_stack
         (\<lambda>s w. core (dv_stack_init L (Some s) config allocator w)) DV_STACK_OK m w;
       Some (status, Some m1, w1) })"

definition dv_stack_mt_init_ptr ::
  "bool \<Rightarrow> 'w libc \<Rightarrow> 'w dv_stack_mt_t option \<Rightarrow> size_t \<Rightarrow> bool \<Rightarrow> 'w hooks option \<Rightarrow> 'w \<Rightarrow>
     (dv_stack_status_t \<times> 'w dv_stack_mt_t option \<times> 'w) option"
where
  "dv_stack_mt_init_ptr mutex_ok L p initial_capacity growable allocator w =
     dv_stack_mt_init mutex_ok L p
       (Some \<lparr>scf_elem_size = sizeof_ptr, scf_elem_align = alignof_ptr, scf_initial_capacity = initial_capacity,
              scf_max_capacity = 0, scf_growable = growable, scf_cache_aligned = False\<rparr>)
       allocator w"

definition dv_stack_mt_destroy :: "'w dv_stack_mt_t option \<Rightarrow> 'w \<Rightarrow> ('w dv_stack_mt_t option \<times> 'w) option" where
  "dv_stack_mt_destroy p w = (case p of
     None \<Rightarrow> Some (None, w)
   | Some m \<Rightarrow> do {
       (q, w1) \<leftarrow> dv_stack_destroy (Some (mt_obj m)) w; s \<leftarrow> q;
       m1 \<leftarrow> mutex_destroy (m\<lparr>mt_obj := s\<rparr>);
       Some (Some m1, w1) })"

text \<open>The wrappers that lock; \<open>p\<close> is the pointer to the wrapper, of which only the null test is made here.\<close>

type_synonym ('w, 'r) stack_mt_code = "('w dv_stack_t, 'w, 'r) mt_code"

definition dv_stack_mt_push :: "ptr \<Rightarrow> byte list option \<Rightarrow> ('w, dv_stack_status_t) stack_mt_code" where
  "dv_stack_mt_push p elem = mt_call DV_STACK_ERR_INVALID (\<lambda>s w. core (dv_stack_push (Some s) elem w)) p"

definition dv_stack_mt_pop :: "ptr \<Rightarrow> byte list option \<Rightarrow> ('w, dv_stack_status_t \<times> byte list option) stack_mt_code" where
  "dv_stack_mt_pop p out = mt_call (DV_STACK_ERR_INVALID, out)
     (\<lambda>s w. do { (st, q, o') \<leftarrow> dv_stack_pop (Some s) out; s1 \<leftarrow> q; Some ((st, o'), s1, w) }) p"

definition dv_stack_mt_peek :: "ptr \<Rightarrow> byte list option \<Rightarrow> ('w, dv_stack_status_t \<times> byte list option) stack_mt_code" where
  "dv_stack_mt_peek p out = mt_call (DV_STACK_ERR_INVALID, out)
     (\<lambda>s w. do { (st, o') \<leftarrow> dv_stack_peek (Some s) out; Some ((st, o'), s, w) }) p"

definition dv_stack_mt_push_ptr :: "ptr \<Rightarrow> ptr \<Rightarrow> ('w, dv_stack_status_t) stack_mt_code" where
  "dv_stack_mt_push_ptr p value = mt_call DV_STACK_ERR_INVALID (\<lambda>s w. core (dv_stack_push_ptr (Some s) value w)) p"

definition dv_stack_mt_pop_ptr :: "ptr \<Rightarrow> ptr option \<Rightarrow> ('w, dv_stack_status_t \<times> ptr option) stack_mt_code" where
  "dv_stack_mt_pop_ptr p out = mt_call (DV_STACK_ERR_INVALID, out)
     (\<lambda>s w. do { (st, q, o') \<leftarrow> dv_stack_pop_ptr (Some s) out; s1 \<leftarrow> q; Some ((st, o'), s1, w) }) p"

definition dv_stack_mt_push_bulk :: "ptr \<Rightarrow> byte list option \<Rightarrow> size_t \<Rightarrow> ('w, size_t) stack_mt_code" where
  "dv_stack_mt_push_bulk p elems cnt = mt_call 0 (\<lambda>s w. core (dv_stack_push_bulk (Some s) elems cnt w)) p"

definition dv_stack_mt_pop_bulk :: "ptr \<Rightarrow> byte list option \<Rightarrow> size_t \<Rightarrow> ('w, size_t \<times> byte list option) stack_mt_code" where
  "dv_stack_mt_pop_bulk p out cnt = mt_call (0, out)
     (\<lambda>s w. do { (k, q, o') \<leftarrow> dv_stack_pop_bulk (Some s) out cnt; s1 \<leftarrow> q; Some ((k, o'), s1, w) }) p"

definition dv_stack_mt_size :: "ptr \<Rightarrow> ('w, size_t) stack_mt_code" where
  "dv_stack_mt_size p = mt_call 0 (\<lambda>s w. Some (dv_stack_size (Some s), s, w)) p"

definition dv_stack_mt_is_empty :: "ptr \<Rightarrow> ('w, bool) stack_mt_code" where
  "dv_stack_mt_is_empty p = mt_map (\<lambda>n. n = 0) (dv_stack_mt_size p)"

definition dv_stack_mt_clear :: "ptr \<Rightarrow> ('w, unit) stack_mt_code" where
  "dv_stack_mt_clear p = mt_call () (\<lambda>s w. do { s1 \<leftarrow> dv_stack_clear (Some s); Some ((), s1, w) }) p"

definition dv_stack_mt_reserve :: "ptr \<Rightarrow> size_t \<Rightarrow> ('w, dv_stack_status_t) stack_mt_code" where
  "dv_stack_mt_reserve p cap = mt_call DV_STACK_ERR_INVALID (\<lambda>s w. core (dv_stack_reserve (Some s) cap w)) p"

text \<open>The callback acts on the stack and on what \<open>user_data\<close> points to; a null callback is refused without the lock.\<close>

definition dv_stack_mt_with ::
  "ptr \<Rightarrow> ('w dv_stack_t \<Rightarrow> 'w \<Rightarrow> ('w dv_stack_t \<times> 'w) option) option \<Rightarrow> ('w, dv_stack_status_t) stack_mt_code"
where
  "dv_stack_mt_with p fn = (case fn of
     None \<Rightarrow> (DV_STACK_ERR_INVALID, [])
   | Some f \<Rightarrow> mt_call DV_STACK_ERR_INVALID (\<lambda>s w. do { (s1, w1) \<leftarrow> f s w; Some (DV_STACK_OK, s1, w1) }) p)"

section \<open>The calls of the reference semantics, made through the wrapper\<close>

text \<open>
  The out buffers are those a client brings, who knows the element size \<open>es\<close> but not the size of the stack:
  for a bulk pop the buffer is as long as the request, and what was not filled is not part of the answer.
\<close>

fun stack_mt_code :: "ptr \<Rightarrow> nat \<Rightarrow> stack_op \<Rightarrow> ('w, stack_out) stack_mt_code" where
  "stack_mt_code p es (OpPush e) = mt_map OutStatus (dv_stack_mt_push p (Some e))"
| "stack_mt_code p es OpPop =
     mt_map (\<lambda>(st, out). OutElem st (if st = DV_STACK_OK then out else None)) (dv_stack_mt_pop p (Some (replicate es 0)))"
| "stack_mt_code p es OpPeek =
     mt_map (\<lambda>(st, out). OutElem st (if st = DV_STACK_OK then out else None)) (dv_stack_mt_peek p (Some (replicate es 0)))"
| "stack_mt_code p es (OpPushBulk e n) = mt_map OutCount (dv_stack_mt_push_bulk p (Some e) n)"
| "stack_mt_code p es (OpPopBulk n) =
     mt_map (\<lambda>(k, out). OutElems k (take (unat k * es) (the out))) (dv_stack_mt_pop_bulk p (Some (replicate (unat n * es) 0)) n)"
| "stack_mt_code p es (OpReserve n) = mt_map OutStatus (dv_stack_mt_reserve p n)"
| "stack_mt_code p es OpClear = mt_map (\<lambda>_. OutUnit) (dv_stack_mt_clear p)"
| "stack_mt_code p es _ = (OutUnit, [])"

text \<open>Shrinking and resetting are not offered by the wrapper.\<close>

fun stack_mt_offers :: "stack_op \<Rightarrow> bool" where
  "stack_mt_offers OpShrink = False"
| "stack_mt_offers OpReset = False"
| "stack_mt_offers _ = True"

definition stack_mt_calls :: "nat \<Rightarrow> stack_op set" where
  "stack_mt_calls es = {op. stack_op_ok es op \<and> stack_mt_offers op}"

lemmas stack_mt_defs = dv_stack_mt_push_def dv_stack_mt_pop_def dv_stack_mt_peek_def dv_stack_mt_push_bulk_def
  dv_stack_mt_pop_bulk_def dv_stack_mt_reserve_def dv_stack_mt_clear_def

lemma pop_bulk_longer:
  assumes inv: "stack_inv s" and es: "unat (stk_elem_size s) = es"
  shows "do { (k, q, out) \<leftarrow> dv_stack_pop_bulk (Some s) (Some (replicate (unat n * es) 0)) n; s1 \<leftarrow> q;
       Some (OutElems k (take (unat k * es) (the out)), s1, w) } = stack_exec s (OpPopBulk n) w"
proof -
  let ?m = "min (unat n) (unat (stk_top s))"
  have call: "\<exists>k s' c. dv_stack_pop_bulk (Some s) (Some b) n = Some (k, Some s', Some c) \<and> unat k = ?m \<and>
      s' = s\<lparr>stk_top := stk_top s - k\<rparr> \<and> length c = length b \<and> take (?m * es) c = concat (take ?m (rev (stack_elems s)))"
    if fit: "?m * es \<le> length b" for b
  proof -
    obtain k s' c where c: "dv_stack_pop_bulk (Some s) (Some b) n = Some (k, Some s', Some c)" "unat k = ?m"
      "length c = length b" "chunks es c ?m = take ?m (rev (stack_elems s))"
      using dv_stack_pop_bulk_spec [OF inv, of n "Some b"] fit es by (auto simp: out_fits_def simp del: dv_stack_pop_bulk.simps)
    have "s' = s\<lparr>stk_top := stk_top s - k\<rparr>" using c(1) by (auto simp: Let_def bind_eq_Some_conv split: if_splits)
    then show ?thesis using c concat_chunks [of es c ?m] by (metis)
  qed
  have "?m * es \<le> unat n * es" by (intro mult_le_mono1) simp
  then obtain k s' c where 1: "dv_stack_pop_bulk (Some s) (Some (replicate (unat n * es) 0)) n = Some (k, Some s', Some c)"
    "unat k = ?m" "s' = s\<lparr>stk_top := stk_top s - k\<rparr>" "take (?m * es) c = concat (take ?m (rev (stack_elems s)))"
    using call [of "replicate (unat n * es) 0"] by (auto simp del: dv_stack_pop_bulk.simps)
  obtain k' s'' c' where 2: "dv_stack_pop_bulk (Some s) (Some (replicate (?m * es) 0)) n = Some (k', Some s'', Some c')"
    "unat k' = ?m" "s'' = s\<lparr>stk_top := stk_top s - k'\<rparr>" "length c' = ?m * es" "take (?m * es) c' = concat (take ?m (rev (stack_elems s)))"
    using call [of "replicate (?m * es) 0"] by (auto simp del: dv_stack_pop_bulk.simps)
  have "k = k'" using 1(2) 2(2) by (simp add: word_unat_eq_iff)
  then show ?thesis using 1 2 es by (simp del: dv_stack_pop_bulk.simps)
qed

interpretation stack_mt: guarded_object "stack_mt_code p es" "\<lambda>op s w. stack_exec s op w" "if p = 0 then {} else stack_mt_calls es"
  "\<lambda>s w. stack_inv s \<and> unat (stk_elem_size s) = es" for p es
proof unfold_locales
  fix op assume op: "op \<in> (if p = 0 then {} else stack_mt_calls es)"
  then have p: "p \<noteq> 0" and o: "stack_op_ok es op" "stack_mt_offers op" by (auto simp: stack_mt_calls_def split: if_splits)
  have sim: "\<exists>r s' w'. stack_exec s op w = Some (r, s', w') \<and> stack_inv s' \<and> unat (stk_elem_size s') = es"
    if "stack_inv s" "unat (stk_elem_size s) = es" for s :: "'a dv_stack_t" and w
    using stack_exec_simulates [of s op w] that o(1) unfolding simulates_def same_config_def by metis
  have "\<exists>f. snd (stack_mt_code p es op) = [Lock, Work f, Unlock] \<and>
      (\<forall>(s :: 'a dv_stack_t) w. stack_inv s \<and> unat (stk_elem_size s) = es \<longrightarrow> f s w = stack_exec s op w)"
  proof (cases op)
    case (OpPopBulk n)
    then show ?thesis using p
      by (auto simp: stack_mt_defs guarded_map guarded_call_def Option.bind_assoc case_prod_unfold pop_bulk_longer [OF _ refl, unfolded case_prod_unfold]
        simp del: dv_stack_pop_bulk.simps stack_exec.simps)
  qed (use p o in \<open>auto simp: stack_mt_defs guarded_map guarded_call_def core_def Option.bind_assoc case_prod_unfold cong: if_cong
    simp del: dv_stack_push.simps dv_stack_pop.simps dv_stack_peek.simps dv_stack_push_bulk.simps dv_stack_reserve.simps\<close>)
  then obtain f where f: "snd (stack_mt_code p es op) = [Lock, Work f, Unlock]"
    "\<And>(s :: 'a dv_stack_t) w. stack_inv s \<and> unat (stk_elem_size s) = es \<Longrightarrow> f s w = stack_exec s op w" by blast
  show "\<exists>f. snd (stack_mt_code p es op) = [Lock, Work f, Unlock] \<and>
      (\<forall>(s :: 'a dv_stack_t) w. stack_inv s \<and> unat (stk_elem_size s) = es \<longrightarrow> (\<exists>r s' w'. f s w = Some (r, s', w') \<and>
         stack_exec s op w = Some (r, s', w') \<and> stack_inv s' \<and> unat (stk_elem_size s') = es))"
  proof (intro exI [of _ f] conjI f(1) allI impI)
    fix s :: "'a dv_stack_t" and w assume g: "stack_inv s \<and> unat (stk_elem_size s) = es"
    show "\<exists>r s' w'. f s w = Some (r, s', w') \<and> stack_exec s op w = Some (r, s', w') \<and> stack_inv s' \<and> unat (stk_elem_size s') = es"
      unfolding f(2) [OF g] using sim g by auto
  qed
qed

lemma stack_in_sequence: "in_sequence (\<lambda>op s w. stack_exec s op w) ops s w = stack_run s ops w"
  by (induction ops arbitrary: s w) (simp_all add: case_prod_unfold del: stack_exec.simps)

text \<open>
  C38: The mutex-guarded stack is linearizable. Any number of threads run the wrappers, action by action and
  interleaved in any way, the work inside the lock split into reading the stack and writing it back. The
  calls take effect one after the other: their answers and the final stack are those of the core calls in
  the order of their effects, which is a run of the reference list; what a thread got back is its own
  effects in its own order, complete whenever it is between calls, and effects are never undone, so that a call
  takes effect between its invocation and its return; at most one thread is past the lock; and while a call is in
  progress some thread can take a step. A wrapper run by one thread is its core call and leaves the lock free.\<close>

theorem stack_mt_linearizable:
  assumes "mt_lock m = Unlocked" "stack_inv (mt_obj m)" "unat (stk_elem_size (mt_obj m)) = es" "p \<noteq> 0"
    and "(mt_step (stack_mt_code p es) (stack_mt_calls es))\<^sup>*\<^sup>* (mt_start m w) c"
  shows "stack_run (mt_obj m) (calls_of (effects c)) w = Some (answers_of (effects c), object c, world c) \<and>
    stack_ref_run es (stack_elems (mt_obj m)) (calls_of (effects c)) (answers_of (effects c)) (stack_elems (object c)) \<and>
    (\<exists>ys. by_thread t (effects c) = by_thread t (returned c) @ ys \<and> length ys \<le> 1 \<and> (at c t = Outside \<longrightarrow> ys = [])) \<and>
    ((mt_step (stack_mt_code p es) (stack_mt_calls es))\<^sup>*\<^sup>* c d \<longrightarrow> (\<exists>ys. effects d = effects c @ ys)) \<and>
    (inside (at c t) \<and> inside (at c u) \<longrightarrow> t = u) \<and>
    (at c t \<noteq> Outside \<longrightarrow> (\<exists>c'. mt_step (stack_mt_code p es) (stack_mt_calls es) c c')) \<and>
    (op \<in> stack_mt_calls es \<longrightarrow>
       mt_alone (stack_mt_code p es op) m w = do { (r, s1, w1) \<leftarrow> stack_exec (mt_obj m) op w; Some (r, m\<lparr>mt_obj := s1\<rparr>, w1) })"
proof -
  have g: "stack_inv (mt_obj m) \<and> unat (stk_elem_size (mt_obj m)) = es" using assms(2,3) by simp
  have r: "(mt_step (stack_mt_code p es) (if p = 0 then {} else stack_mt_calls es))\<^sup>*\<^sup>* (mt_start m w) c" using assms(4,5) by simp
  note lin = stack_mt.linearizable [OF r assms(1) g]
  have seq: "stack_run (mt_obj m) (calls_of (effects c)) w = Some (answers_of (effects c), object c, world c)"
    using lin(1) unfolding stack_in_sequence .
  have "list_all (stack_op_ok es) (calls_of (effects c))" using lin(2) assms(4) by (auto simp: list_all_iff stack_mt_calls_def)
  then have "stack_ref_run es (stack_elems (mt_obj m)) (calls_of (effects c)) (answers_of (effects c)) (stack_elems (object c))"
    using stack_run_simulates [OF assms(2), of "calls_of (effects c)" w] seq assms(3) by auto
  moreover have "mt_alone (stack_mt_code p es op) m w = do { (r, s1, w1) \<leftarrow> stack_exec (mt_obj m) op w; Some (r, m\<lparr>mt_obj := s1\<rparr>, w1) }"
    if "op \<in> stack_mt_calls es" using stack_mt.alone [of op p es m w] that assms(1,4) g by simp
  ultimately show ?thesis
    using seq lin(3) [of t] lin(4) [of t u] lin(5) [of t] assms(4) mt_steps_grow [of "stack_mt_code p es" "stack_mt_calls es" c d]
    by (simp del: stack_mt_code.simps stack_exec.simps)
qed

definition stack_schedule :: "(bool \<times> stack_op) list" where
  "stack_schedule = (let a = (True, OpPush [1, 2, 3, 4]); b = (False, OpPopBulk 3) in [a, b, a, a, a, a, b, b, b, a, b, b])"

lemma stack_schedule_run:
  "map_option (\<lambda>c. (effects c, returned c)) (mt_schedule (stack_mt_code 1 4) stack_schedule (mt_start (unlocked demo_stack) (4096, 24))) =
     Some ([(True, OpPush [1, 2, 3, 4], OutStatus DV_STACK_OK), (False, OpPopBulk 3, OutElems 1 [1, 2, 3, 4])],
       [(True, OpPush [1, 2, 3, 4], OutStatus DV_STACK_OK), (False, OpPopBulk 3, OutElems 1 [1, 2, 3, 4])])"
  by code_simp

theorem stack_mt_linearizable_witness:
  "\<exists>c :: (bool, stack_op, stack_out, (nat \<times> nat) dv_stack_t, nat \<times> nat) shared.
     calls_of (effects c) = [OpPush [1, 2, 3, 4], OpPopBulk 3] \<and> effects c = returned c \<and>
     stack_ref_run 4 [] [OpPush [1, 2, 3, 4], OpPopBulk 3] [OutStatus DV_STACK_OK, OutElems 1 [1, 2, 3, 4]] (stack_elems (object c))"
proof -
  obtain c where c: "mt_schedule (stack_mt_code 1 4) stack_schedule (mt_start (unlocked demo_stack) (4096, 24)) = Some c"
    "effects c = [(True, OpPush [1, 2, 3, 4], OutStatus DV_STACK_OK), (False, OpPopBulk 3, OutElems 1 [1, 2, 3, 4])]"
    "returned c = effects c"
    using stack_schedule_run by (auto simp del: mt_schedule.simps)
  have r: "(mt_step (stack_mt_code 1 4) (stack_mt_calls 4))\<^sup>*\<^sup>* (mt_start (unlocked demo_stack) (4096, 24)) c"
    by (rule mt_schedule_steps [OF c(1)]) (auto simp: stack_schedule_def Let_def stack_mt_calls_def)
  have m: "mt_lock (unlocked demo_stack) = Unlocked" "stack_inv (mt_obj (unlocked demo_stack))"
    "unat (stk_elem_size (mt_obj (unlocked demo_stack))) = 4" "stack_elems (mt_obj (unlocked demo_stack)) = []"
    by (simp_all add: unlocked_def demo_inv demo_fields(1))
  have "stack_ref_run 4 (stack_elems (mt_obj (unlocked demo_stack))) (calls_of (effects c)) (answers_of (effects c)) (stack_elems (object c))"
    by (rule stack_mt_linearizable [OF m(1-3) one_neq_zero r, THEN conjunct2, THEN conjunct1])
  then show ?thesis unfolding m(4) using c(2,3) by (intro exI [of _ c]) simp
qed

end
