(* ===== verification/Dv_Heap_Mt.thy ===== *)
theory Dv_Heap_Mt
  imports Heap_Theorems Mutex
begin

text \<open>
  The mutex-guarded heap (\<open>src/heap/dv_heap_mt.h\<close>, \<open>src/heap/dv_heap_mt.c\<close>). Each wrapper is the list
  of its actions: lock, call the core operation, unlock. Out parameters come back with the answer. The
  threads run these wrappers.
\<close>

section \<open>Operations\<close>

type_synonym 'w dv_heap_mt_t = "'w dv_heap_t guarded"

definition dv_heap_mt_init ::
  "bool \<Rightarrow> 'w libc \<Rightarrow> 'w dv_heap_mt_t option \<Rightarrow> 'w dv_heap_config_t option \<Rightarrow> 'w hooks option \<Rightarrow> 'w \<Rightarrow>
     (dv_heap_status_t \<times> 'w dv_heap_mt_t option \<times> 'w) option"
where
  "dv_heap_mt_init mutex_ok L p config allocator w = (case p of
     None \<Rightarrow> Some (DV_HEAP_ERR_INVALID, None, w)
   | Some m \<Rightarrow> do {
       (status, m1, w1) \<leftarrow> mt_setup mutex_ok DV_HEAP_ERR_NOMEM zero_heap
         (\<lambda>h w. core (dv_heap_init L (Some h) config allocator w)) DV_HEAP_OK m w;
       Some (status, Some m1, w1) })"

definition dv_heap_mt_destroy :: "'w dv_heap_mt_t option \<Rightarrow> 'w \<Rightarrow> ('w dv_heap_mt_t option \<times> 'w) option" where
  "dv_heap_mt_destroy p w = (case p of
     None \<Rightarrow> Some (None, w)
   | Some m \<Rightarrow> do {
       (q, w1) \<leftarrow> dv_heap_destroy (Some (mt_obj m)) w; h \<leftarrow> q;
       m1 \<leftarrow> mutex_destroy (m\<lparr>mt_obj := h\<rparr>);
       Some (Some m1, w1) })"

text \<open>The wrappers that lock; \<open>p\<close> is the pointer to the wrapper, of which only the null test is made here.\<close>

type_synonym ('w, 'r) heap_mt_code = "('w dv_heap_t, 'w, 'r) mt_code"

definition dv_heap_mt_push :: "'w extmem \<Rightarrow> ptr \<Rightarrow> byte list option \<Rightarrow> ('w, dv_heap_status_t) heap_mt_code" where
  "dv_heap_mt_push X p elem = mt_call DV_HEAP_ERR_INVALID (\<lambda>h w. core (dv_heap_push X (Some h) elem w)) p"

text \<open>A core call with an out parameter.\<close>

definition core_out :: "'w heap_out \<Rightarrow> ((dv_heap_status_t \<times> byte list option) \<times> 'w dv_heap_t \<times> 'w) option" where
  "core_out c = do { (st, q, out, w) \<leftarrow> c; h \<leftarrow> q; Some ((st, out), h, w) }"

definition dv_heap_mt_pop :: "'w extmem \<Rightarrow> ptr \<Rightarrow> byte list option \<Rightarrow> ('w, dv_heap_status_t \<times> byte list option) heap_mt_code" where
  "dv_heap_mt_pop X p out = mt_call (DV_HEAP_ERR_INVALID, out) (\<lambda>h w. core_out (dv_heap_pop X (Some h) out w)) p"

definition dv_heap_mt_peek :: "ptr \<Rightarrow> byte list option \<Rightarrow> ('w, dv_heap_status_t \<times> byte list option) heap_mt_code" where
  "dv_heap_mt_peek p out = mt_call (DV_HEAP_ERR_INVALID, out)
     (\<lambda>h w. do { (st, o') \<leftarrow> dv_heap_peek (Some h) out; Some ((st, o'), h, w) }) p"

definition dv_heap_mt_replace_top ::
  "'w extmem \<Rightarrow> ptr \<Rightarrow> heap_ptr option \<Rightarrow> byte list option \<Rightarrow> ('w, dv_heap_status_t \<times> byte list option) heap_mt_code"
where
  "dv_heap_mt_replace_top X p elem out = mt_call (DV_HEAP_ERR_INVALID, out) (\<lambda>h w. core_out (dv_heap_replace_top X (Some h) elem out w)) p"

definition dv_heap_mt_push_bulk :: "'w extmem \<Rightarrow> ptr \<Rightarrow> byte list option \<Rightarrow> size_t \<Rightarrow> ('w, size_t) heap_mt_code" where
  "dv_heap_mt_push_bulk X p elems cnt = mt_call 0 (\<lambda>h w. core (dv_heap_push_bulk X (Some h) elems cnt w)) p"

definition dv_heap_mt_pop_bulk :: "'w extmem \<Rightarrow> ptr \<Rightarrow> byte list option \<Rightarrow> size_t \<Rightarrow> ('w, size_t \<times> byte list option) heap_mt_code" where
  "dv_heap_mt_pop_bulk X p out cnt = mt_call (0, out)
     (\<lambda>h w. do { (k, q, o', w1) \<leftarrow> dv_heap_pop_bulk X (Some h) out cnt w; h1 \<leftarrow> q; Some ((k, o'), h1, w1) }) p"

definition dv_heap_mt_size :: "ptr \<Rightarrow> ('w, size_t) heap_mt_code" where
  "dv_heap_mt_size p = mt_call 0 (\<lambda>h w. Some (dv_heap_size (Some h), h, w)) p"

definition dv_heap_mt_is_empty :: "ptr \<Rightarrow> ('w, bool) heap_mt_code" where
  "dv_heap_mt_is_empty p = mt_map (\<lambda>n. n = 0) (dv_heap_mt_size p)"

definition dv_heap_mt_clear :: "ptr \<Rightarrow> ('w, unit) heap_mt_code" where
  "dv_heap_mt_clear p = mt_call () (\<lambda>h w. do { h1 \<leftarrow> dv_heap_clear (Some h); Some ((), h1, w) }) p"

definition dv_heap_mt_reserve :: "ptr \<Rightarrow> size_t \<Rightarrow> ('w, dv_heap_status_t) heap_mt_code" where
  "dv_heap_mt_reserve p cap = mt_call DV_HEAP_ERR_INVALID (\<lambda>h w. core (dv_heap_reserve (Some h) cap w)) p"

definition dv_heap_mt_with ::
  "ptr \<Rightarrow> ('w dv_heap_t \<Rightarrow> 'w \<Rightarrow> ('w dv_heap_t \<times> 'w) option) option \<Rightarrow> ('w, dv_heap_status_t) heap_mt_code"
where
  "dv_heap_mt_with p fn = (case fn of
     None \<Rightarrow> (DV_HEAP_ERR_INVALID, [])
   | Some f \<Rightarrow> mt_call DV_HEAP_ERR_INVALID (\<lambda>h w. do { (h1, w1) \<leftarrow> f h w; Some (DV_HEAP_OK, h1, w1) }) p)"

section \<open>The calls of the reference semantics, made through the wrapper\<close>

text \<open>As for the stack, the client of a bulk pop brings a buffer as long as its request.\<close>

fun heap_mt_code :: "'w extmem \<Rightarrow> ptr \<Rightarrow> nat \<Rightarrow> heap_op \<Rightarrow> ('w, heap_res) heap_mt_code" where
  "heap_mt_code X p es (HPush e) = mt_map HStatus (dv_heap_mt_push X p (Some e))"
| "heap_mt_code X p es HPop = mt_map (\<lambda>(st, out). when_ok st out) (dv_heap_mt_pop X p (Some (replicate es 0)))"
| "heap_mt_code X p es HPeek = mt_map (\<lambda>(st, out). when_ok st out) (dv_heap_mt_peek p (Some (replicate es 0)))"
| "heap_mt_code X p es (HReplaceTop e) =
     mt_map (\<lambda>(st, out). when_ok st out) (dv_heap_mt_replace_top X p (Some (Ext e)) (Some (replicate es 0)))"
| "heap_mt_code X p es (HPushBulk e n) = mt_map HCount (dv_heap_mt_push_bulk X p (Some e) n)"
| "heap_mt_code X p es (HPopBulk n) =
     mt_map (\<lambda>(k, out). HElems k (take (unat k * es) (the out))) (dv_heap_mt_pop_bulk X p (Some (replicate (unat n * es) 0)) n)"
| "heap_mt_code X p es (HReserve n) = mt_map HStatus (dv_heap_mt_reserve p n)"
| "heap_mt_code X p es HClear = mt_map (\<lambda>_. HUnit) (dv_heap_mt_clear p)"
| "heap_mt_code X p es _ = (HUnit, [])"

fun heap_mt_offers :: "heap_op \<Rightarrow> bool" where
  "heap_mt_offers HHeapify = False"
| "heap_mt_offers (HBuild es n) = False"
| "heap_mt_offers HShrink = False"
| "heap_mt_offers HReset = False"
| "heap_mt_offers _ = True"

definition heap_mt_calls :: "nat \<Rightarrow> (byte list \<Rightarrow> bool) \<Rightarrow> heap_op set" where
  "heap_mt_calls es ok = {op. heap_op_ok es ok op \<and> heap_mt_offers op}"

lemmas heap_mt_defs = dv_heap_mt_push_def dv_heap_mt_pop_def dv_heap_mt_peek_def dv_heap_mt_replace_top_def dv_heap_mt_push_bulk_def
  dv_heap_mt_pop_bulk_def dv_heap_mt_reserve_def dv_heap_mt_clear_def

lemma heap_pop_bulk_longer:
  assumes o: "ordered_heap lt ok X cfg W" and g: "ordered_heap.good lt ok cfg W h w" and es: "unat (hp_elem_size cfg) = es"
  shows "do { (k, q, out, w1) \<leftarrow> dv_heap_pop_bulk X (Some h) (Some (replicate (unat n * es) 0)) n w; h1 \<leftarrow> q;
       Some (HElems k (take (unat k * es) (the out)), h1, w1) } = heap_exec X h (HPopBulk n) w"
proof -
  have wf: "ordered_heap.wf_heap ok cfg h" and w: "w \<in> W" using g by (simp_all add: ordered_heap.good_def [OF o])
  have he: "unat (hp_elem_size h) = es" using same_setupD(1) [OF ordered_heap.wf_heapD(1) [OF o wf]] es by simp
  let ?m = "min (unat n) (unat (hp_size h))"
  have call: "\<exists>k h' c w'. dv_heap_pop_bulk X (Some h) (Some b) n w = Some (k, Some h', Some c, w') \<and> unat k = ?m \<and>
      dv_heap_pop_bulk X (Some h) None n w = Some (k, Some h', None, w') \<and> length c = length b \<and>
      take (?m * es) c = concat (fst (pop_list lt (heap_elems h) ?m))" if fit: "?m * es \<le> length b" for b
  proof -
    obtain k h' out w' where c: "dv_heap_pop_bulk X (Some h) (Some b) n w = Some (k, Some h', out, w')" "unat k = ?m"
      "ordered_heap.popped_into es 0 (fst (pop_list lt (heap_elems h) ?m)) (Some b) out"
      using ordered_heap.pop_bulk_refines [OF o wf w, of n "Some b"] fit he by (auto simp: out_fits_def simp del: dv_heap_pop_bulk.simps)
    obtain d where d: "out = Some d" "length d = length b" "\<forall>j < length (fst (pop_list lt (heap_elems h) ?m)). chunk es d j = fst (pop_list lt (heap_elems h) ?m) ! j"
      using c(3) by (auto simp: ordered_heap.popped_into_def [OF o])
    have "length (fst (pop_list lt (heap_elems h) ?m)) = ?m"
      using pop_list_mset [of ?m "heap_elems h" lt] by (metis length_heap_elems min.cobounded2 prod.collapse)
    then have "chunks es d ?m = fst (pop_list lt (heap_elems h) ?m)" using d(3) by (intro nth_equalityI) auto
    then have "take (?m * es) d = concat (fst (pop_list lt (heap_elems h) ?m))" using concat_chunks [of es d ?m] by simp
    then show ?thesis using c(1,2) d(1,2) pop_bulk_unseen [OF c(1)] by blast
  qed
  have "?m * es \<le> unat n * es" by (intro mult_le_mono1) simp
  then obtain k h' c w' where 1: "dv_heap_pop_bulk X (Some h) (Some (replicate (unat n * es) 0)) n w = Some (k, Some h', Some c, w')"
    "unat k = ?m" "dv_heap_pop_bulk X (Some h) None n w = Some (k, Some h', None, w')"
    "take (?m * es) c = concat (fst (pop_list lt (heap_elems h) ?m))"
    using call [of "replicate (unat n * es) 0"] by (auto simp del: dv_heap_pop_bulk.simps)
  obtain k' h'' c' w'' where 2: "dv_heap_pop_bulk X (Some h) (Some (replicate (?m * es) 0)) n w = Some (k', Some h'', Some c', w'')"
    "dv_heap_pop_bulk X (Some h) None n w = Some (k', Some h'', None, w'')" "length c' = ?m * es"
    "take (?m * es) c' = concat (fst (pop_list lt (heap_elems h) ?m))"
    using call [of "replicate (?m * es) 0"] by (auto simp del: dv_heap_pop_bulk.simps)
  have "k' = k \<and> h'' = h' \<and> w'' = w'" using 1(3) 2(2) by (simp del: dv_heap_pop_bulk.simps)
  then show ?thesis using 1 2 he by (simp del: dv_heap_pop_bulk.simps)
qed

section \<open>Threads on one heap\<close>

interpretation heap_mt: guarded_object "heap_mt_code X p (unat (hp_elem_size cfg))" "\<lambda>op h w. heap_exec X h op w"
  "if p = 0 then {} else heap_mt_calls (unat (hp_elem_size cfg)) ok"
  "\<lambda>h w. ordered_heap lt ok X cfg W \<and> ordered_heap.good lt ok cfg W h w" for lt ok X p cfg W
proof unfold_locales
  let ?es = "unat (hp_elem_size cfg)"
  let ?good = "\<lambda>(h :: 'a dv_heap_t) w. ordered_heap lt ok X cfg W \<and> ordered_heap.good lt ok cfg W h w"
  fix op assume op: "op \<in> (if p = 0 then {} else heap_mt_calls ?es ok)"
  then have p: "p \<noteq> 0" and o: "heap_op_ok ?es ok op" "heap_mt_offers op" by (auto simp: heap_mt_calls_def split: if_splits)
  have sim: "\<exists>r h' w'. heap_exec X h op w = Some (r, h', w') \<and> ?good h' w'" if "?good h w" for h w
    using ordered_heap.heap_exec_simulates [of lt ok X cfg W h w op] ordered_heap.heap_simulates_def [of lt ok X cfg W h op w] that o(1) by blast
  have he: "hp_elem_size h = hp_elem_size cfg" if "?good h w" for h w
    using that same_setupD(1) [OF ordered_heap.wf_heapD(1), of lt ok X cfg W h] by (auto simp: ordered_heap.good_def)
  have "\<exists>f. snd (heap_mt_code X p ?es op) = [Lock, Work f, Unlock] \<and>
      (\<forall>(h :: 'a dv_heap_t) w. ?good h w \<and> hp_elem_size h = hp_elem_size cfg \<longrightarrow> f h w = heap_exec X h op w)"
  proof (cases op)
    case (HPopBulk n)
    then show ?thesis using p
      by (auto simp: heap_mt_defs guarded_map guarded_call_def Option.bind_assoc case_prod_unfold heap_pop_bulk_longer [OF _ _ refl, unfolded case_prod_unfold]
        simp del: dv_heap_pop_bulk.simps heap_exec.simps)
  qed (use p o in \<open>auto simp: heap_mt_defs guarded_map guarded_call_def core_def core_out_def elem_buffer_def Option.bind_assoc case_prod_unfold
    cong: if_cong
    simp del: dv_heap_push.simps dv_heap_pop.simps dv_heap_peek.simps dv_heap_replace_top.simps dv_heap_push_bulk.simps dv_heap_reserve.simps\<close>)
  then obtain f where f: "snd (heap_mt_code X p ?es op) = [Lock, Work f, Unlock]"
    "\<And>(h :: 'a dv_heap_t) w. ?good h w \<Longrightarrow> f h w = heap_exec X h op w" using he by blast
  show "\<exists>f. snd (heap_mt_code X p ?es op) = [Lock, Work f, Unlock] \<and>
      (\<forall>(h :: 'a dv_heap_t) w. ?good h w \<longrightarrow> (\<exists>r h' w'. f h w = Some (r, h', w') \<and>
         heap_exec X h op w = Some (r, h', w') \<and> ?good h' w'))"
  proof (intro exI [of _ f] conjI f(1) allI impI)
    fix h :: "'a dv_heap_t" and w assume g: "?good h w"
    show "\<exists>r h' w'. f h w = Some (r, h', w') \<and> heap_exec X h op w = Some (r, h', w') \<and> ?good h' w'"
      unfolding f(2) [OF g] using sim [OF g] by auto
  qed
qed

lemma heap_in_sequence: "in_sequence (\<lambda>op h w. heap_exec X h op w) ops h w = heap_run X h ops w"
  by (induction ops arbitrary: h w) (simp_all add: case_prod_unfold del: heap_exec.simps)

text \<open>
  C39: The mutex-guarded heap is linearizable: any number of threads run the wrappers, action by action and
  interleaved in any way; the calls take effect one after the other, with the answers of the core calls in
  that order, which is a run of the reference priority queue; what a thread got back is its own effects in
  its own order, complete whenever it is between calls; at most one thread is past the lock, and while a call
  is in progress some thread can take a step. A wrapper run by one thread is its core call.\<close>

theorem heap_mt_linearizable:
  assumes "mt_lock m = Unlocked" "ordered_heap lt ok X (mt_obj m) W" "ordered_state lt ok (mt_obj m)" "w \<in> W"
    and "unat (hp_elem_size (mt_obj m)) = es" "p \<noteq> 0"
    and "(mt_step (heap_mt_code X p es) (heap_mt_calls es ok))\<^sup>*\<^sup>* (mt_start m w) c"
  shows "heap_run X (mt_obj m) (calls_of (effects c)) w = Some (answers_of (effects c), object c, world c) \<and>
    pq_ref_run es lt (mset (heap_elems (mt_obj m))) (calls_of (effects c)) (answers_of (effects c)) (mset (heap_elems (object c))) \<and>
    (\<exists>ys. by_thread t (effects c) = by_thread t (returned c) @ ys \<and> length ys \<le> 1 \<and> (at c t = Outside \<longrightarrow> ys = [])) \<and>
    ((mt_step (heap_mt_code X p es) (heap_mt_calls es ok))\<^sup>*\<^sup>* c d \<longrightarrow> (\<exists>ys. effects d = effects c @ ys)) \<and>
    (inside (at c t) \<and> inside (at c u) \<longrightarrow> t = u) \<and>
    (at c t \<noteq> Outside \<longrightarrow> (\<exists>c'. mt_step (heap_mt_code X p es) (heap_mt_calls es ok) c c')) \<and>
    (op \<in> heap_mt_calls es ok \<longrightarrow>
       mt_alone (heap_mt_code X p es op) m w = do { (r, h1, w1) \<leftarrow> heap_exec X (mt_obj m) op w; Some (r, m\<lparr>mt_obj := h1\<rparr>, w1) })"
proof -
  let ?h = "mt_obj m"
  have good: "ordered_heap.good lt ok ?h W ?h w"
    using assms(3,4) by (simp add: ordered_heap.good_def [OF assms(2)] ordered_heap.wf_heap_def [OF assms(2)] ordered_state_def)
  then have g: "ordered_heap lt ok X ?h W \<and> ordered_heap.good lt ok ?h W ?h w" using assms(2) by simp
  have r: "(mt_step (heap_mt_code X p (unat (hp_elem_size ?h))) (if p = 0 then {} else heap_mt_calls (unat (hp_elem_size ?h)) ok))\<^sup>*\<^sup>* (mt_start m w) c"
    using assms(5-7) by simp
  note lin = heap_mt.linearizable [OF r assms(1) g, unfolded assms(5)]
  have seq: "heap_run X ?h (calls_of (effects c)) w = Some (answers_of (effects c), object c, world c)"
    using lin(1) unfolding heap_in_sequence .
  have "list_all (heap_op_ok (unat (hp_elem_size ?h)) ok) (calls_of (effects c))"
    using lin(2) assms(5,6) by (auto simp: list_all_iff heap_mt_calls_def)
  then have "pq_ref_run es lt (mset (heap_elems ?h)) (calls_of (effects c)) (answers_of (effects c)) (mset (heap_elems (object c)))"
    using ordered_heap.heap_run_simulates [OF assms(2) good, of "calls_of (effects c)"] seq assms(5) by auto
  moreover have "mt_alone (heap_mt_code X p es op) m w = do { (r, h1, w1) \<leftarrow> heap_exec X ?h op w; Some (r, m\<lparr>mt_obj := h1\<rparr>, w1) }"
    if "op \<in> heap_mt_calls es ok" using heap_mt.alone [of op p ?h ok m lt X W w] that assms(1,5,6) g by simp
  ultimately show ?thesis
    using seq lin(3) [of t] lin(4) [of t u] lin(5) [of t] assms(6) mt_steps_grow [of "heap_mt_code X p es" "heap_mt_calls es ok" c d]
    by (simp del: heap_mt_code.simps heap_exec.simps)
qed

definition heap_schedule :: "(bool \<times> heap_op) list" where
  "heap_schedule = (let a = (True, HPush (le_bytes 8 (7 :: u64))); b = (False, HPop) in [a, b, b, b, b, b, a, a, a, a, b, a])"

lemma heap_schedule_run:
  "map_option (\<lambda>c. (calls_of (effects c), answers_of (returned c))) (mt_schedule (heap_mt_code no_mem 1 8) heap_schedule (mt_start (unlocked demo_heap) (4096, 40))) =
     Some ([HPop, HPush (le_bytes 8 (7 :: u64))], [HElem DV_HEAP_ERR_EMPTY None, HStatus DV_HEAP_OK])"
  by code_simp

theorem heap_mt_linearizable_witness:
  "\<exists>c :: (bool, heap_op, heap_res, (nat \<times> nat) dv_heap_t, nat \<times> nat) shared.
     calls_of (effects c) = [HPop, HPush (le_bytes 8 (7 :: u64))] \<and>
     answers_of (returned c) = [HElem DV_HEAP_ERR_EMPTY None, HStatus DV_HEAP_OK] \<and>
     pq_ref_run 8 demo_lt {#} [HPop, HPush (le_bytes 8 (7 :: u64))] (answers_of (effects c)) (mset (heap_elems (object c)))"
proof -
  obtain c where c: "mt_schedule (heap_mt_code no_mem 1 8) heap_schedule (mt_start (unlocked demo_heap) (4096, 40)) = Some c"
    "calls_of (effects c) = [HPop, HPush (le_bytes 8 (7 :: u64))]"
    "answers_of (returned c) = [HElem DV_HEAP_ERR_EMPTY None, HStatus DV_HEAP_OK]"
    using heap_schedule_run by (auto simp del: mt_schedule.simps)
  have m: "mt_lock (unlocked demo_heap) = Unlocked" "mt_obj (unlocked demo_heap) = demo_heap" by (simp_all add: unlocked_def)
  have es: "unat (hp_elem_size demo_heap) = 8" by (simp add: demo_heap_fields)
  have r: "(mt_step (heap_mt_code no_mem 1 8) (heap_mt_calls 8 (direct_ok demo_heap)))\<^sup>*\<^sup>* (mt_start (unlocked demo_heap) (4096, 40)) c"
    by (rule mt_schedule_steps [OF c(1)]) (auto simp: heap_schedule_def Let_def demo_ok heap_mt_calls_def)
  have "pq_ref_run 8 demo_lt (mset (heap_elems demo_heap)) (calls_of (effects c)) (answers_of (effects c)) (mset (heap_elems (object c)))"
    by (rule heap_mt_linearizable [of "unlocked demo_heap", unfolded m(2), OF m(1) demo_ordered demo_state UNIV_I es one_neq_zero r, THEN conjunct2, THEN conjunct1])
  then show ?thesis unfolding c(2) demo_heap_inv mset.simps by (intro exI [of _ c] conjI c(2,3))
qed

end
