(* ===== verification/Dv_Graph_Mt.thy ===== *)
theory Dv_Graph_Mt
  imports Graph_Demo Dv_Graph_Walk Mutex
begin

text \<open>
  The mutex-guarded graph (\<open>src/graph/dv_graph_mt.h\<close>, \<open>src/graph/dv_graph_mt.c\<close>). Each wrapper is
  the list of its actions: lock, call the core operation, unlock. Out parameters come back with the answer.
  The threads run these wrappers.
\<close>

section \<open>Operations\<close>

type_synonym 'w dv_graph_mt_t = "'w dv_graph_t guarded"

definition dv_graph_mt_init ::
  "bool \<Rightarrow> 'w libc \<Rightarrow> 'w dv_graph_mt_t option \<Rightarrow> dv_graph_config_t option \<Rightarrow> 'w hooks option \<Rightarrow> 'w \<Rightarrow>
     (dv_graph_status_t \<times> 'w dv_graph_mt_t option \<times> 'w) option"
where
  "dv_graph_mt_init mutex_ok L p config allocator w = (case p of
     None \<Rightarrow> Some (DV_GRAPH_ERR_INVALID, None, w)
   | Some m \<Rightarrow> do {
       (status, m1, w1) \<leftarrow> mt_setup mutex_ok DV_GRAPH_ERR_NOMEM zero_graph
         (\<lambda>g w. core (dv_graph_init L (Some g) config allocator w)) DV_GRAPH_OK m w;
       Some (status, Some m1, w1) })"

definition dv_graph_mt_destroy :: "'w dv_graph_mt_t option \<Rightarrow> 'w \<Rightarrow> ('w dv_graph_mt_t option \<times> 'w) option" where
  "dv_graph_mt_destroy p w = (case p of
     None \<Rightarrow> Some (None, w)
   | Some m \<Rightarrow> do {
       (q, w1) \<leftarrow> dv_graph_destroy (Some (mt_obj m)) w; g \<leftarrow> q;
       m1 \<leftarrow> mutex_destroy (m\<lparr>mt_obj := g\<rparr>);
       Some (Some m1, w1) })"

text \<open>The wrappers that lock; \<open>p\<close> is the pointer to the wrapper, of which only the null test is made here.\<close>

type_synonym ('w, 'r) graph_mt_code = "('w dv_graph_t, 'w, 'r) mt_code"

definition dv_graph_mt_add_vertex ::
  "ptr \<Rightarrow> ('w, dv_graph_status_t \<times> dv_vertex_t option) graph_mt_code"
where
  "dv_graph_mt_add_vertex p = mt_call (DV_GRAPH_ERR_INVALID, None)
     (\<lambda>g w. do { (st, q, h, w1) \<leftarrow> dv_graph_add_vertex (Some g) w; g1 \<leftarrow> q; Some ((st, h), g1, w1) }) p"

definition dv_graph_mt_remove_vertex ::
  "ptr \<Rightarrow> dv_vertex_t \<Rightarrow> ('w, dv_graph_status_t) graph_mt_code"
where
  "dv_graph_mt_remove_vertex p vertex = mt_call DV_GRAPH_ERR_INVALID
     (\<lambda>g w. do { (st, q) \<leftarrow> dv_graph_remove_vertex (Some g) vertex; g1 \<leftarrow> q; Some (st, g1, w) }) p"

definition dv_graph_mt_add_edge ::
  "ptr \<Rightarrow> dv_vertex_t \<Rightarrow> dv_vertex_t \<Rightarrow> dbl \<Rightarrow> ('w, dv_graph_status_t \<times> dv_edge_t option) graph_mt_code"
where
  "dv_graph_mt_add_edge p src dst weight = mt_call (DV_GRAPH_ERR_INVALID, None)
     (\<lambda>g w. do { (st, q, h, w1) \<leftarrow> dv_graph_add_edge (Some g) src dst weight w; g1 \<leftarrow> q; Some ((st, h), g1, w1) }) p"

definition dv_graph_mt_remove_edge ::
  "ptr \<Rightarrow> dv_edge_t \<Rightarrow> ('w, dv_graph_status_t) graph_mt_code"
where
  "dv_graph_mt_remove_edge p edge = mt_call DV_GRAPH_ERR_INVALID
     (\<lambda>g w. do { (st, q) \<leftarrow> dv_graph_remove_edge (Some g) edge; g1 \<leftarrow> q; Some (st, g1, w) }) p"

definition dv_graph_mt_clear :: "ptr \<Rightarrow> ('w, unit) graph_mt_code" where
  "dv_graph_mt_clear p = mt_call () (\<lambda>g w. do { q \<leftarrow> dv_graph_clear (Some g); g1 \<leftarrow> q; Some ((), g1, w) }) p"

text \<open>The queries: a call that leaves the graph as it is.\<close>

definition dv_graph_mt_vertex_count :: "ptr \<Rightarrow> ('w, u32) graph_mt_code" where
  "dv_graph_mt_vertex_count p = mt_call 0 (\<lambda>g w. Some (dv_graph_vertex_count (Some g), g, w)) p"

definition dv_graph_mt_edge_count :: "ptr \<Rightarrow> ('w, u32) graph_mt_code" where
  "dv_graph_mt_edge_count p = mt_call 0 (\<lambda>g w. Some (dv_graph_edge_count (Some g), g, w)) p"

definition dv_graph_mt_degree :: "ptr \<Rightarrow> dv_vertex_t \<Rightarrow> ('w, u32) graph_mt_code" where
  "dv_graph_mt_degree p vertex = mt_call 0 (\<lambda>g w. do { n \<leftarrow> dv_graph_degree (Some g) vertex; Some (n, g, w) }) p"

definition dv_graph_mt_has_edge ::
  "ptr \<Rightarrow> dv_vertex_t \<Rightarrow> dv_vertex_t \<Rightarrow> ('w, bool) graph_mt_code"
where
  "dv_graph_mt_has_edge p src dst = mt_call False (\<lambda>g w. do { b \<leftarrow> dv_graph_has_edge (Some g) src dst; Some (b, g, w) }) p"

definition dv_graph_mt_find_edge ::
  "ptr \<Rightarrow> dv_vertex_t \<Rightarrow> dv_vertex_t \<Rightarrow> ('w, dv_graph_status_t \<times> dv_edge_t option) graph_mt_code"
where
  "dv_graph_mt_find_edge p src dst = mt_call (DV_GRAPH_ERR_INVALID, None)
     (\<lambda>g w. do { (st, h) \<leftarrow> dv_graph_find_edge (Some g) src dst; Some ((st, h), g, w) }) p"

text \<open>The traversals write the scratch of the graph, so they hold the lock throughout.\<close>

definition dv_graph_mt_reachable ::
  "ptr \<Rightarrow> dv_vertex_t \<Rightarrow> dv_vertex_t \<Rightarrow> bool option \<Rightarrow> ('w, dv_graph_status_t \<times> bool option) graph_mt_code"
where
  "dv_graph_mt_reachable p src dst out = mt_call (DV_GRAPH_ERR_INVALID, out)
     (\<lambda>g w. do { (st, q, o', w1) \<leftarrow> dv_graph_reachable (Some g) src dst out w; g1 \<leftarrow> q; Some ((st, o'), g1, w1) }) p"

definition dv_graph_mt_bfs ::
  "ptr \<Rightarrow> dv_vertex_t \<Rightarrow> 's dv_graph_visit_fn option \<Rightarrow> 's \<Rightarrow> ('w, dv_graph_status_t \<times> 's) graph_mt_code"
where
  "dv_graph_mt_bfs p start visit user = mt_call (DV_GRAPH_ERR_INVALID, user)
     (\<lambda>g w. do { (st, q, user1, w1) \<leftarrow> dv_graph_bfs (Some g) start visit user w; g1 \<leftarrow> q; Some ((st, user1), g1, w1) }) p"

text \<open>The callbacks: one that only reads the graph, and one that may change it; a null one is refused without the lock.\<close>

definition dv_graph_mt_read ::
  "ptr \<Rightarrow> ('w dv_graph_t \<Rightarrow> 'w \<Rightarrow> 'w option) option \<Rightarrow> ('w, dv_graph_status_t) graph_mt_code"
where
  "dv_graph_mt_read p fn = (case fn of
     None \<Rightarrow> (DV_GRAPH_ERR_INVALID, [])
   | Some f \<Rightarrow> mt_call DV_GRAPH_ERR_INVALID (\<lambda>g w. do { w1 \<leftarrow> f g w; Some (DV_GRAPH_OK, g, w1) }) p)"

definition dv_graph_mt_write ::
  "ptr \<Rightarrow> ('w dv_graph_t \<Rightarrow> 'w \<Rightarrow> ('w dv_graph_t \<times> 'w) option) option \<Rightarrow> ('w, dv_graph_status_t) graph_mt_code"
where
  "dv_graph_mt_write p fn = (case fn of
     None \<Rightarrow> (DV_GRAPH_ERR_INVALID, [])
   | Some f \<Rightarrow> mt_call DV_GRAPH_ERR_INVALID (\<lambda>g w. do { (g1, w1) \<leftarrow> f g w; Some (DV_GRAPH_OK, g1, w1) }) p)"

section \<open>The calls of the reference semantics, made through the wrapper\<close>

fun graph_mt_code :: "ptr \<Rightarrow> graph_op \<Rightarrow> ('w, graph_res) graph_mt_code" where
  "graph_mt_code p GAddVertex = mt_map (case_prod RVertex) (dv_graph_mt_add_vertex p)"
| "graph_mt_code p (GRemoveVertex h) = mt_map RStatus (dv_graph_mt_remove_vertex p h)"
| "graph_mt_code p (GAddEdge s d x) = mt_map (case_prod REdge) (dv_graph_mt_add_edge p s d x)"
| "graph_mt_code p (GRemoveEdge h) = mt_map RStatus (dv_graph_mt_remove_edge p h)"
| "graph_mt_code p GClear = mt_map (\<lambda>_. RUnit) (dv_graph_mt_clear p)"
| "graph_mt_code p GVertexCount = mt_map RNum (dv_graph_mt_vertex_count p)"
| "graph_mt_code p GEdgeCount = mt_map RNum (dv_graph_mt_edge_count p)"
| "graph_mt_code p (GDegree h) = mt_map RNum (dv_graph_mt_degree p h)"
| "graph_mt_code p (GHasEdge s d) = mt_map RBool (dv_graph_mt_has_edge p s d)"
| "graph_mt_code p (GFind s d) = mt_map (case_prod REdge) (dv_graph_mt_find_edge p s d)"
| "graph_mt_code p (GReachable s d) = mt_map (\<lambda>(st, r). RReach st (the r)) (dv_graph_mt_reachable p s d (Some False))"
| "graph_mt_code p _ = (RUnit, [])"

fun graph_mt_offers :: "graph_op \<Rightarrow> bool" where
  "graph_mt_offers GAddVertex = True"
| "graph_mt_offers (GRemoveVertex h) = True"
| "graph_mt_offers (GAddEdge s d x) = True"
| "graph_mt_offers (GRemoveEdge h) = True"
| "graph_mt_offers GClear = True"
| "graph_mt_offers GVertexCount = True"
| "graph_mt_offers GEdgeCount = True"
| "graph_mt_offers (GDegree h) = True"
| "graph_mt_offers (GHasEdge s d) = True"
| "graph_mt_offers (GFind s d) = True"
| "graph_mt_offers (GReachable s d) = True"
| "graph_mt_offers _ = False"

definition graph_mt_calls :: "graph_op set" where
  "graph_mt_calls = {op. graph_op_ok op \<and> graph_mt_offers op}"

lemmas graph_mt_defs = dv_graph_mt_add_vertex_def dv_graph_mt_remove_vertex_def dv_graph_mt_add_edge_def dv_graph_mt_remove_edge_def
  dv_graph_mt_clear_def dv_graph_mt_vertex_count_def dv_graph_mt_edge_count_def dv_graph_mt_degree_def dv_graph_mt_has_edge_def
  dv_graph_mt_find_edge_def dv_graph_mt_reachable_def

text \<open>The answer of \<open>dv_graph_reachable\<close> is written to a caller's variable that is there.\<close>

lemma reachable_answer:
  "dv_graph_reachable (Some g) s d (Some b) w = Some (st, q, r, w1) \<Longrightarrow> \<exists>c. r = Some c"
  by (auto simp: bind_eq_Some_conv split: if_splits)

lemma graph_mt_section:
  assumes "p \<noteq> 0" "graph_mt_offers op"
  shows "\<exists>f. snd (graph_mt_code p op) = [Lock, Work f, Unlock] \<and> (\<forall>g w. f g w = graph_step g op w)"
proof (cases op)
  case (GReachable s d)
  have "do { (st, q, r, w1) \<leftarrow> dv_graph_reachable (Some g) s d (Some False) w; g1 \<leftarrow> q; Some (RReach st (the r), g1, w1) } =
      graph_step g (GReachable s d) w" for g :: "'w dv_graph_t" and w
    using reachable_answer [of g s d False w]
    by (cases "dv_graph_reachable (Some g) s d (Some False) w") (auto split: bind_split simp del: dv_graph_reachable.simps)
  then show ?thesis using assms(1) GReachable
    by (auto simp: graph_mt_defs guarded_map guarded_call_def Option.bind_assoc case_prod_unfold simp del: dv_graph_reachable.simps graph_step.simps)
qed (use assms in \<open>auto simp: graph_mt_defs guarded_map guarded_call_def Option.bind_assoc case_prod_unfold
    simp del: dv_graph_add_vertex.simps dv_graph_remove_vertex.simps dv_graph_add_edge.simps dv_graph_remove_edge.simps dv_graph_clear.simps
      dv_graph_find_edge.simps\<close>)

section \<open>Threads on one graph\<close>

interpretation graph_mt: guarded_object "graph_mt_code p" "\<lambda>op g w. graph_step g op w" "if p = 0 then {} else graph_mt_calls"
  "\<lambda>g w. (\<exists>V E. represents g V E) \<and> config_of g = c" for p c
proof unfold_locales
  let ?good = "\<lambda>g :: 'a dv_graph_t. (\<exists>V E. represents g V E) \<and> config_of g = c"
  fix op assume "op \<in> (if p = 0 then {} else graph_mt_calls)"
  then have op: "p \<noteq> 0" "graph_op_ok op" "graph_mt_offers op" by (auto simp: graph_mt_calls_def split: if_splits)
  obtain f where f: "snd (graph_mt_code p op) = [Lock, Work f, Unlock]" "\<And>(g :: 'a dv_graph_t) w. f g w = graph_step g op w"
    using graph_mt_section [OF op(1,3)] by blast
  show "\<exists>f. snd (graph_mt_code p op) = [Lock, Work f, Unlock] \<and>
      (\<forall>(g :: 'a dv_graph_t) w. ?good g \<longrightarrow> (\<exists>r g' w'. f g w = Some (r, g', w') \<and> graph_step g op w = Some (r, g', w') \<and> ?good g'))"
  proof (intro exI [of _ f] conjI f(1) allI impI)
    fix g :: "'a dv_graph_t" and w assume g: "?good g"
    then obtain V E where rep: "represents g V E" by blast
    show "\<exists>r g' w'. f g w = Some (r, g', w') \<and> graph_step g op w = Some (r, g', w') \<and> ?good g'"
      unfolding f(2) using graph_step_simulates [OF rep, of op w] g op(2) unfolding graph_simulates_def by auto
  qed
qed

lemma graph_in_sequence: "in_sequence (\<lambda>op g w. graph_step g op w) ops g w = graph_run g ops w"
  by (induction ops arbitrary: g w) (simp_all add: case_prod_unfold del: graph_step.simps)

text \<open>
  C40: The mutex-guarded graph is linearizable: any number of threads run the wrappers, action by action and
  interleaved in any way; the calls take effect one after the other, with the answers of the core calls in
  that order, which is a run of the reference graph; what a thread got back is its own effects in its own
  order, complete whenever it is between calls; at most one thread is past the lock, and while a call is in
  progress some thread can take a step. A wrapper run by one thread is its core call.\<close>

theorem graph_mt_linearizable:
  assumes "mt_lock m = Unlocked" "represents (mt_obj m) V E" "p \<noteq> 0"
    and "(mt_step (graph_mt_code p) graph_mt_calls)\<^sup>*\<^sup>* (mt_start m w) c"
  shows "graph_run (mt_obj m) (calls_of (effects c)) w = Some (answers_of (effects c), object c, world c) \<and>
    (\<exists>s'. graph_ref_run (config_of (mt_obj m)) (V, E) (calls_of (effects c)) (answers_of (effects c)) s' \<and>
       represents (object c) (fst s') (snd s')) \<and>
    (\<exists>ys. by_thread t (effects c) = by_thread t (returned c) @ ys \<and> length ys \<le> 1 \<and> (at c t = Outside \<longrightarrow> ys = [])) \<and>
    ((mt_step (graph_mt_code p) graph_mt_calls)\<^sup>*\<^sup>* c d \<longrightarrow> (\<exists>ys. effects d = effects c @ ys)) \<and>
    (inside (at c t) \<and> inside (at c u) \<longrightarrow> t = u) \<and>
    (at c t \<noteq> Outside \<longrightarrow> (\<exists>c'. mt_step (graph_mt_code p) graph_mt_calls c c')) \<and>
    (op \<in> graph_mt_calls \<longrightarrow>
       mt_alone (graph_mt_code p op) m w = do { (r, g1, w1) \<leftarrow> graph_step (mt_obj m) op w; Some (r, m\<lparr>mt_obj := g1\<rparr>, w1) })"
proof -
  let ?g = "mt_obj m"
  have g: "(\<exists>V E. represents ?g V E) \<and> config_of ?g = config_of ?g" using assms(2) by blast
  have r: "(mt_step (graph_mt_code p) (if p = 0 then {} else graph_mt_calls))\<^sup>*\<^sup>* (mt_start m w) c" using assms(3,4) by simp
  note lin = graph_mt.linearizable [OF r assms(1) g]
  have seq: "graph_run ?g (calls_of (effects c)) w = Some (answers_of (effects c), object c, world c)"
    using lin(1) unfolding graph_in_sequence .
  have "list_all graph_op_ok (calls_of (effects c))" using lin(2) assms(3) by (auto simp: list_all_iff graph_mt_calls_def)
  then have "\<exists>s'. graph_ref_run (config_of ?g) (V, E) (calls_of (effects c)) (answers_of (effects c)) s' \<and> represents (object c) (fst s') (snd s')"
    using graph_run_simulates [OF assms(2), of "calls_of (effects c)" w] seq by auto
  moreover have "mt_alone (graph_mt_code p op) m w = do { (r, g1, w1) \<leftarrow> graph_step ?g op w; Some (r, m\<lparr>mt_obj := g1\<rparr>, w1) }"
    if "op \<in> graph_mt_calls" using graph_mt.alone [of op p m "config_of ?g" w] that assms(1,3) g by (simp del: graph_mt_code.simps graph_step.simps)
  ultimately show ?thesis
    using seq lin(3) [of t] lin(4) [of t u] lin(5) [of t] assms(3) mt_steps_grow [of "graph_mt_code p" "graph_mt_calls" c d]
    by (simp del: graph_mt_code.simps graph_step.simps)
qed

definition graph_schedule :: "(bool \<times> graph_op) list" where
  "graph_schedule = (let a = (True, GAddVertex); b = (False, GVertexCount) in [a, b, a, a, a, a, b, b, b, b, b, a])"

lemma graph_schedule_run:
  "map_option (\<lambda>c. (calls_of (effects c), answers_of (returned c)))
     (mt_schedule (graph_mt_code 1) graph_schedule (mt_start (unlocked demo_graph) (4096, 40))) =
     Some ([GAddVertex, GVertexCount], [RNum 1, RVertex DV_GRAPH_OK (Some \<lparr>vh_index = 0, vh_generation = 1\<rparr>)])"
  by code_simp

theorem graph_mt_linearizable_witness:
  "\<exists>c :: (bool, graph_op, graph_res, (nat \<times> nat) dv_graph_t, nat \<times> nat) shared. \<exists>s'.
     calls_of (effects c) = [GAddVertex, GVertexCount] \<and>
     answers_of (returned c) = [RNum 1, RVertex DV_GRAPH_OK (Some \<lparr>vh_index = 0, vh_generation = 1\<rparr>)] \<and>
     graph_ref_run (config_of demo_graph) (Map.empty, []) [GAddVertex, GVertexCount] (answers_of (effects c)) s'"
proof -
  obtain c where c: "mt_schedule (graph_mt_code 1) graph_schedule (mt_start (unlocked demo_graph) (4096, 40)) = Some c"
    "calls_of (effects c) = [GAddVertex, GVertexCount]"
    "answers_of (returned c) = [RNum 1, RVertex DV_GRAPH_OK (Some \<lparr>vh_index = 0, vh_generation = 1\<rparr>)]"
    using graph_schedule_run by (auto simp del: mt_schedule.simps)
  have m: "mt_lock (unlocked demo_graph) = Unlocked" "mt_obj (unlocked demo_graph) = demo_graph" by (simp_all add: unlocked_def)
  have r: "(mt_step (graph_mt_code 1) graph_mt_calls)\<^sup>*\<^sup>* (mt_start (unlocked demo_graph) (4096, 40)) c"
    by (rule mt_schedule_steps [OF c(1)]) (auto simp: graph_schedule_def Let_def graph_mt_calls_def)
  obtain s' where "graph_ref_run (config_of demo_graph) (Map.empty, []) (calls_of (effects c)) (answers_of (effects c)) s'"
    using graph_mt_linearizable [of "unlocked demo_graph", unfolded m(2), OF m(1) demo_graph_rep one_neq_zero r, THEN conjunct2, THEN conjunct1] by blast
  then show ?thesis unfolding c(2) by (intro exI [of _ c] exI [of _ s'] conjI c(2,3))
qed

end
