(* ===== verification/Spec2Isabelle.thy ===== *)
theory Spec2Isabelle
  imports Stack_Theorems Stack_Account Heap_Theorems Queue_Theorems Graph_Theorems Dv_Stack_Mt Dv_Heap_Mt Dv_Graph_Mt
begin

text \<open>
  A verification development for \<open>seanlib\<close>, a library of C data structures. Its parts are a contiguous
  stack (\<open>src/stack\<close>), an array-backed binary heap (\<open>src/heap\<close>), a bounded queue for many producers and
  consumers (\<open>src/queue\<close>), a graph whose vertices and edges are addressed by handles with generations
  (\<open>src/graph\<close>), and a mutex-guarded wrapper for each of the stack, the heap and the graph. The first four
  do not call each other; each takes its memory from an allocator the caller may replace, and each wrapper
  calls the structure it guards. Every function of these modules is a definition here.

  \<^bold>\<open>How code becomes definitions.\<close> The target is LP64 and little endian: \<open>size_t\<close>, pointers and the 64-bit
  types are words of length 64, \<open>uint32_t\<close> a word of length 32, and arithmetic wraps as in C. A control
  block is a record with the members of the C struct (\<open>dv_stack_t\<close> with prefix \<open>stk\<close>, \<open>dv_heap_t\<close> with \<open>hp\<close>,
  \<open>dv_graph_t\<close> with \<open>gr\<close>, \<open>mpmc_queue_t\<close> with \<open>q\<close>); a status enumeration is a datatype with the names of the
  header. A function takes the blocks behind its pointer arguments, an option where the code tests for
  \<open>NULL\<close>, and returns the status with the blocks as the call leaves them. Buffers are byte lists and each
  \<open>memcpy\<close> is a checked read and write; the pools of the graph are arrays of records with checked access.
  The outer option of a result is \<open>None\<close> where C has no defined behaviour (an access outside a block, a
  null pointer followed) and where a loop does not return: "the call returns \<open>Some\<close>" is therefore a claim of
  memory safety and of termination at once. Loops are recursive functions with a termination proof, or
  \<open>partial_function (option)\<close> where the source bounds them only through its invariant (sift loops, chains of
  the incidence lists, the breadth first loop, retry loops of the queue), whose termination is then part
  of the theorems. Debug assertions are compiled out, as in a release build.

  \<^bold>\<open>What is a parameter.\<close> A world of an arbitrary type is threaded through every call that can reach
  code outside the library. \<open>malloc\<close>, \<open>realloc\<close>, \<open>free\<close> and \<open>aligned_alloc\<close> are functions on it (the records
  \<open>libc\<close> and \<open>hooks\<close>); comparators, move hooks, visitors and reads of the objects behind indirect keys are
  functions as well. What the library relies on is stated as locales and interpreted: \<open>allocator_contract\<close>
  (a block has the size asked for, a resize keeps the common prefix, any call may fail) is proved of the
  default hooks of the stack and the heap over \<open>libc_heap\<close>, and \<open>libc_heap\<close> is interpreted on a concrete bump
  allocator, \<open>bump_libc\<close>, on which all witnesses run.

  \<^bold>\<open>Shared theories.\<close> \<open>Prelude\<close>: machine types, checked copies, views of a buffer as equal chunks, word
  arithmetic. \<open>Alloc_Hooks\<close>: the allocator records, their contract, the C heap. \<open>Alloc_Account\<close>: hooks that
  count live bytes, as a locale, \<open>accounting\<close>, interpreted on the accounting allocator of
  \<open>src/stack/dv_stack_tester.c\<close>, which is shown to keep the allocator contract.

  \<^bold>\<open>Stack\<close> (\<open>src/stack/dv_stack.c\<close>, \<open>src/stack/dv_stack.h\<close>). \<open>Dv_Stack\<close> holds all operations, inline ones
  included. \<open>Dv_Stack_Props\<close> has the invariant \<open>stack_inv\<close>, the abstraction \<open>stack_elems\<close> to a list of byte
  strings and one specification per operation; \<open>Dv_Stack_Refine\<close> the reference list and the simulation of
  sequences of calls; \<open>Stack_Theorems\<close> the properties: refinement, every branch of push, the pointer mode
  round trip, bulk transfers, the strong guarantee of reserve, accepted configurations, the growth curve.
  \<open>Stack_Account\<close> follows the live bytes through every operation: a stack holds its buffer and nothing
  else, and destroying it gives everything back.

  \<^bold>\<open>Heap\<close> (\<open>src/heap/dv_heap.c\<close>, \<open>src/heap/dv_heap.h\<close>). \<open>Dv_Heap\<close> holds all operations on the bytes of the
  buffer, with its scratch slot, the built-in key types and the move hook. \<open>Heap_Order\<close> is the array heap
  as an algorithm on lists over a strict weak order, the locale \<open>heap_order\<close>; \<open>Dv_Heap_Memory\<close> the buffer;
  \<open>Dv_Heap_Sift\<close> shows that the sift loops on bytes compute the sifts on lists (\<open>ordered_heap\<close>: the comparison
  answers by that order); \<open>Dv_Heap_Ops\<close> and \<open>Dv_Heap_Bulk\<close> lift every operation; \<open>Dv_Heap_Refine\<close> is the
  simulation by a priority queue on a multiset. \<open>Heap_Keys\<close> shows that direct and indirect keys of every
  built-in type give such an order (NaN excluded). \<open>Heap_Index\<close> is the index map a client keeps through the move
  hook, the locale \<open>indexed_heap\<close>, through every operation that changes the heap; \<open>Heap_Nodes\<close> interprets all of it on
  concrete heaps, among them the nodes of \<open>src/heap/unit_tests.c\<close>, whose keys change under the heap.
  \<open>Heap_Alias\<close> computes what \<open>dv_heap_update_at\<close> does with a pointer into the heap itself. \<open>Heap_Theorems\<close> has the
  properties; one of them is that this documented use loses an element whenever it has to move.

  \<^bold>\<open>Graph\<close> (\<open>src/graph/dv_graph.c\<close>, \<open>src/graph/dv_graph.h\<close>). \<open>Graph_Pools\<close> is the typed pools and their bytes
  (the locale \<open>codec\<close>), \<open>Dv_Graph\<close> capacity, slots, links, \<open>Dv_Graph_Api\<close> the public operations, and
  \<open>Dv_Graph_Walk\<close> iterators, traversals and the self-check. \<open>Graph_Lists\<close> treats intrusive lists;
  \<open>Graph_Memory\<close>, \<open>Graph_Inv\<close>, \<open>Graph_Steps\<close>, \<open>Graph_Ops\<close>, \<open>Graph_Life\<close> and \<open>Graph_Cycle\<close> show that every operation
  keeps the invariant \<open>wf_graph\<close>, in which one sequence of live edges in order of insertion determines all
  incidence lists; insertions keep the generations of all slots in use (\<open>slots_kept\<close>). \<open>Graph_View\<close> has the abstraction relation \<open>represents g V E\<close> (vertex generations and a list
  of edges), \<open>Graph_Refine\<close> and \<open>Graph_Simulation\<close> the reference semantics and the simulation of every call,
  \<open>Graph_Check\<close> the self-check, \<open>Graph_Iter\<close> the iterators and the version counter. \<open>Search_Order\<close> is breadth
  first search without memory, \<open>Graph_Scratch\<close> and \<open>Graph_Bfs\<close> show that the loop over the scratch arrays
  follows it; as many rounds as there are vertices exhaust it. \<open>Search_Depth\<close> and \<open>Graph_Dfs\<close> do the same for depth first
  search and its stack of cursors, against the recursive walk. \<open>Graph_Demo\<close> is a concrete graph, and
  \<open>Graph_Theorems\<close> has the properties: refinement, validity of every reachable state, stale handles after
  each kind of removal, traversal, reachability, iteration, versions.

  \<^bold>\<open>Queue\<close> (\<open>src/queue/dv_queue.c\<close>, \<open>src/queue/dv_queue.h\<close>). \<open>Dv_Queue\<close> holds the functions as one thread
  runs them, with any pattern of spurious failures of the weak compare-exchange; \<open>Queue_Props\<close> shows them to be
  a bounded list, at any value of the counters, the wrap-around at \<open>2^64\<close> included. \<open>Queue_Machine\<close> interleaves any
  number of threads; a step is one access to shared memory. A load of a counter, and the value a failed
  exchange brings back, may be any value the counter has had: the counters are written by relaxed exchanges
  only, so that the acquire loads of \<open>mpmc_size\<close> may be stale as well, each on its own. Sequence numbers and data are accessed in
  the order of the interleaving, which their acquire and release accesses justify for a program without
  data races, and that there are none is one of the theorems. \<open>Queue_Steps\<close> has the invariant,
  \<open>Queue_Facts\<close> its consequences, \<open>Queue_Theorems\<close> the properties with runs of an executable scheduler. They
  cover runs of fewer than \<open>2^63\<close> enqueues: beyond that a stale counter value could match again.

  \<^bold>\<open>Wrappers\<close> (\<open>dv_stack_mt.c\<close>, \<open>dv_heap_mt.c\<close>, \<open>dv_graph_mt.c\<close>). A wrapper is the list of its actions: lock, a
  core call, unlock, or none for a null wrapper (\<open>mt_call\<close>). \<open>Mutex\<close> gives the actions their meaning twice: run by
  one thread (\<open>mt_alone\<close>), and interleaved with those of any number of other threads (\<open>mt_step\<close>). The machine
  knows nothing of the wrappers: lock waits for a free mutex, and a core call is two steps, reading the object
  and writing it back, between which any thread that the lock does not keep out may step in. Using a mutex
  that is not initialized and locking it again in the same thread do not return. The locale \<open>guarded_object\<close>
  proves linearizability once for any object whose calls return from good states and whose wrappers are
  lock, core call, unlock; \<open>Dv_Stack_Mt\<close>, \<open>Dv_Heap_Mt\<close> and \<open>Dv_Graph_Mt\<close> define every wrapper and interpret the locale on
  their code through the simulations of the three structures, so the guarded objects refine the same
  reference models.

  \<^bold>\<open>Not modelled.\<close> The test drivers, but for the accounting allocator and the indexed nodes, and the
  benchmarks: fixed or random calls of the library, printing, clocks and command lines. Branches for other targets (MSVC, 32 bits). Debug-only checks. Memory
  orders weaker than the machine above. Callbacks that change the structure they were called from, which
  the headers forbid.
\<close>

end
